(* ===== verification/Tcc_Prelude.thy ===== *)
theory Tcc_Prelude
  imports "HOL-Library.Word" "HOL-Library.Multiset"
begin

text \<open>
  What the components of the model share: the C integer types as words, the error
  numbers a system call returns, the two loop shapes that recur in the sources (the
  scan of a static slot table for the first slot with a property, and the polling
  loop around a blocking operation), byte buffers with \<open>memcpy\<close>, and the locales that
  state what a slot table and a polling loop promise.
\<close>

unbundle bit_operations_syntax

section \<open>Machine types\<close>

type_synonym u8 = "8 word"
type_synonym u16 = "16 word"
type_synonym u32 = "32 word"
type_synonym u64 = "64 word"

text \<open>\<open>struct timespec\<close>; the code compares its fields and never computes with them.\<close>

record timespec =
  tv_sec :: int
  tv_nsec :: int

text \<open>Error numbers: a call that returns \<open>-E\<dots>\<close> in C is \<open>Inl E\<dots>\<close> here.\<close>

datatype errno =
    EPERM | ENOENT | E2BIG | EBADF | EAGAIN | ENOMEM | EFAULT | EEXIST | EINVAL
  | ENFILE | EMFILE | EFBIG | ENOSPC | ENOMSG | EMSGSIZE | ETIMEDOUT

type_synonym 'a sysret = "errno + 'a"

named_theorems slot_simps \<open>facts about the slots of a table after an update\<close>

lemma take_bit_word_small:
  fixes w :: "'a::len word"
  assumes "unat w < 2 ^ n"
  shows "take_bit n w = w"
  by (rule word_unat_eq_iff [THEN iffD2]) (simp add: unsigned_take_bit_eq take_bit_nat_eq_self assms)

lemma unat_ucast_small:
  fixes w :: "'a::len word"
  assumes "unat w < 2 ^ LENGTH('b)"
  shows "unat (ucast w :: 'b::len word) = unat w"
  by (simp add: unsigned_ucast_eq take_bit_nat_eq_self assms)

lemma unat_ucast_up [simp]: "unat (ucast (w::u32) :: u64) = unat w"
proof (rule unat_ucast_small)
  have "unat w < 2 ^ 32" using unsigned_less [of w] by simp
  then show "unat w < 2 ^ LENGTH(64)" by simp
qed

lemma unat_less_64: "unat (w :: u64) < 2 ^ 64"
  using unsigned_less [of w] by simp

lemma unat_less_32: "unat (w :: u32) < 2 ^ 32"
  using unsigned_less [of w] by simp

lemma unat_add_64: "unat (a :: u64) + unat b < 2 ^ 64 \<Longrightarrow> unat (a + b) = unat a + unat b"
  by (simp add: unat_word_ariths)

lemma unat_plus1_64: "(w :: u64) < v \<Longrightarrow> unat (w + 1) = Suc (unat w)"
  using unat_less_64 [of v] by (subst unat_add_lem [THEN iffD1]) (auto simp: word_less_nat_alt)

text \<open>64-bit words as signed numbers.\<close>

lemma sint_eq: "sint (l::u64) = signed_take_bit 63 (uint l)"
  by (simp add: sint_uint)

lemma bit_63: "bit (a::u64) 63 \<longleftrightarrow> sint a < 0"
  by (simp add: sint_eq bit_simps)

lemma top_bit: "drop_bit 63 (a::u64) \<noteq> 0 \<longleftrightarrow> bit a 63"
proof -
  have "drop_bit 63 a \<noteq> 0 \<longleftrightarrow> bit a 63"
  proof
    assume "bit a 63"
    then have "bit (drop_bit 63 a) 0" by (simp add: bit_simps)
    then show "drop_bit 63 a \<noteq> 0" by auto
  next
    assume "drop_bit 63 a \<noteq> 0"
    then obtain n where "bit (drop_bit 63 a) n" by (auto simp: bit_eq_iff)
    then have "bit a (63 + n)" by (simp add: bit_simps)
    moreover from this have "63 + n < 64" by (auto dest: bit_imp_possible_bit)
    ultimately show "bit a 63" by simp
  qed
  then show ?thesis .
qed

lemma sint_abs: "uint (if drop_bit 63 a \<noteq> 0 then - a else (a::u64)) = \<bar>sint a\<bar>"
proof -
  have r: "- (2 ^ 63) \<le> sint a" "sint a < 2 ^ 63"
    using sint_greater_eq [of a] sint_less [of a] by simp_all
  have a: "a = word_of_int (sint a)" by simp
  show ?thesis
  proof (cases "sint a < 0")
    case True
    have "uint (- a) = uint (word_of_int (- sint a) :: u64)" by simp
    also have "\<dots> = - sint a"
      unfolding unsigned_of_int using True r by (simp add: take_bit_int_eq_self)
    finally show ?thesis using True by (simp add: top_bit bit_63)
  next
    case False
    have "uint a = uint (word_of_int (sint a) :: u64)" by simp
    also have "\<dots> = sint a"
      unfolding unsigned_of_int using False r by (simp add: take_bit_int_eq_self  del: of_int_sint)
    finally show ?thesis using False by (simp add: top_bit bit_63)
  qed
qed

text \<open>Two 16-bit halves packed into a 32-bit word come apart again.\<close>

lemma and_0xFFFF: "(x::u32) AND 0xFFFF = take_bit 16 x"
  by (simp add: take_bit_eq_mask mask_eq_exp_minus_1)

lemma pack16_low:
  fixes a w :: u32
  assumes "take_bit 16 w = w"
  shows "take_bit 16 (push_bit 16 a OR w) = w"
  by (subst assms [symmetric]) (auto intro!: bit_word_eqI simp: bit_simps)

lemma pack16_high:
  fixes a w :: u32
  assumes "take_bit 16 w = w"
  shows "take_bit 16 (drop_bit 16 (push_bit 16 a OR w)) = take_bit 16 a"
  by (subst assms [symmetric]) (auto intro!: bit_word_eqI simp: bit_simps)

section \<open>First slot with a property\<close>

text \<open>\<open>for (i = 0; i < n; i++) if (P(i)) break;\<close> with \<open>None\<close> for \<open>i == n\<close>.\<close>

definition first_idx :: "(nat \<Rightarrow> bool) \<Rightarrow> nat \<Rightarrow> nat option" where
  "first_idx P n = find P [0..<n]"

lemma find_snoc:
  "find P (xs @ [x]) = (case find P xs of None \<Rightarrow> if P x then Some x else None | Some y \<Rightarrow> Some y)"
  by (induction xs) auto

lemma first_idx_Suc:
  "first_idx P (Suc n) =
     (case first_idx P n of None \<Rightarrow> if P n then Some n else None | Some i \<Rightarrow> Some i)"
  by (simp add: first_idx_def find_snoc)

lemma first_idx_None_iff: "first_idx P n = None \<longleftrightarrow> (\<forall>i<n. \<not> P i)"
  by (auto simp: first_idx_def find_None_iff)

lemma first_idx_Some_iff:
  "first_idx P n = Some i \<longleftrightarrow> i < n \<and> P i \<and> (\<forall>j<i. \<not> P j)"
proof (induction n)
  case 0
  then show ?case by (simp add: first_idx_def)
next
  case (Suc n)
  show ?case
  proof (cases "first_idx P n")
    case None
    then have "\<forall>j<n. \<not> P j" by (simp add: first_idx_None_iff)
    then show ?thesis using None by (auto simp: first_idx_Suc less_Suc_eq)
  next
    case (Some k)
    then have "\<exists>j<n. P j" using first_idx_None_iff [of P n] by auto
    then show ?thesis using Some Suc by (auto simp: first_idx_Suc less_Suc_eq)
  qed
qed

lemma first_idx_SomeD:
  assumes "first_idx P n = Some i"
  shows "i < n" and "P i" and "j < i \<Longrightarrow> \<not> P j"
  using assms by (auto simp: first_idx_Some_iff)

lemma first_idx_unique:
  assumes "i < n" "P i" "\<And>j. j < n \<Longrightarrow> P j \<Longrightarrow> j = i"
  shows "first_idx P n = Some i"
  unfolding first_idx_Some_iff
  using assms(1,2) assms(3) less_trans [OF _ assms(1)] less_irrefl by blast

lemma first_idx_cong:
  assumes "\<And>i. i < n \<Longrightarrow> P i = Q i"
  shows "first_idx P n = first_idx Q n"
  unfolding first_idx_def by (rule find_cong [OF refl]) (simp add: assms)

section \<open>Byte buffers\<close>

text \<open>
  The bytes at a pointer, by offset. A copy changes the bytes it writes and no other.
\<close>

type_synonym buf = "nat \<Rightarrow> u8"

definition memcpy :: "buf \<Rightarrow> buf \<Rightarrow> nat \<Rightarrow> buf" where
  "memcpy dst src n = (\<lambda>i. if i < n then src i else dst i)"

definition bytes :: "buf \<Rightarrow> nat \<Rightarrow> u8 list" where
  "bytes b n = map b [0..<n]"

lemma length_bytes [simp]: "length (bytes b n) = n"
  by (simp add: bytes_def)

lemma bytes_memcpy [simp]: "m \<le> n \<Longrightarrow> bytes (memcpy dst src n) m = bytes src m"
  by (simp add: bytes_def memcpy_def)

lemma take_bytes [simp]: "take m (bytes b n) = bytes b (min m n)"
  by (simp add: bytes_def take_map min_def)

section \<open>The contents of a slot array as a multiset\<close>

text \<open>
  \<open>slot_bag P f n\<close> collects \<open>f i\<close> for the slots \<open>i < n\<close> with \<open>P i\<close>; filling a free slot adds
  its content and freeing a slot removes it.
\<close>

definition slot_bag :: "(nat \<Rightarrow> bool) \<Rightarrow> (nat \<Rightarrow> 'a) \<Rightarrow> nat \<Rightarrow> 'a multiset" where
  "slot_bag P f n = image_mset f (mset_set {i. i < n \<and> P i})"

lemma slot_bag_fill:
  assumes "i < n" "\<not> P i" "Q i" "\<And>j. j \<noteq> i \<Longrightarrow> Q j = P j" "\<And>j. j \<noteq> i \<Longrightarrow> g j = f j"
  shows "slot_bag Q g n = add_mset (g i) (slot_bag P f n)"
proof -
  have "Q j \<longleftrightarrow> j = i \<or> P j" for j using assms(3,4) by (cases "j = i") auto
  then have "{j. j < n \<and> Q j} = insert i {j. j < n \<and> P j}" using assms(1) by auto
  moreover have "image_mset g (mset_set {j. j < n \<and> P j}) = image_mset f (mset_set {j. j < n \<and> P j})"
  proof (rule image_mset_cong)
    fix j assume "j \<in># mset_set {j. j < n \<and> P j}"
    then have "P j" by simp
    then have "j \<noteq> i" using assms(2) by blast
    then show "g j = f j" by (rule assms(5))
  qed
  ultimately show ?thesis using assms(2) by (simp add: slot_bag_def)
qed

lemma slot_bag_free:
  assumes "i < n" "P i" "\<not> Q i" "\<And>j. j \<noteq> i \<Longrightarrow> Q j = P j" "\<And>j. j \<noteq> i \<Longrightarrow> g j = f j"
  shows "slot_bag P f n = add_mset (f i) (slot_bag Q g n)"
  using slot_bag_fill [of i n Q P f g] assms by auto

lemma size_slot_bag: "size (slot_bag P f n) = card {i. i < n \<and> P i}"
  by (simp add: slot_bag_def)

lemma card_slots_le: "card {i. i < (n::nat) \<and> P i} \<le> n"
  using card_mono [of "{..<n}" "{i. i < n \<and> P i}"] by auto

lemma in_slot_bag: "x \<in># slot_bag P f n \<longleftrightarrow> (\<exists>i<n. P i \<and> x = f i)"
  by (auto simp: slot_bag_def)

lemma ball_slot_bag: "(\<forall>x\<in>#slot_bag P f n. R x) \<longleftrightarrow> (\<forall>i<n. P i \<longrightarrow> R (f i))"
  by (auto simp: slot_bag_def)

lemma slot_bag_empty_iff: "slot_bag P f n = {#} \<longleftrightarrow> (\<forall>i<n. \<not> P i)"
  by (auto simp: slot_bag_def mset_set_empty_iff)

section \<open>Slot tables with keys\<close>

text \<open>
  The contract of a static table whose slots are looked up by key: \<open>alloc\<close> takes an
  unused slot and changes no other one, \<open>lookup\<close> finds a used slot with the key,
  \<open>remove\<close> frees a slot. \<open>same\<close> is when the code takes two keys for equal; \<open>shared\<close> are the
  keys a slot keeps as they were given, so that a later lookup can find them.
\<close>

locale keyed_slots =
  fixes cap :: nat
    and used :: "'t \<Rightarrow> nat \<Rightarrow> bool"
    and key :: "'t \<Rightarrow> nat \<Rightarrow> 'k"
    and same :: "'k \<Rightarrow> 'k \<Rightarrow> bool"
    and shared :: "'k \<Rightarrow> bool"
    and lookup :: "'t \<Rightarrow> 'k \<Rightarrow> nat option"
    and alloc :: "'t \<Rightarrow> 'k \<Rightarrow> 'a \<Rightarrow> (nat \<times> 't) option"
    and remove :: "'t \<Rightarrow> nat \<Rightarrow> 't"
  assumes same_refl: "same k k"
    and same_sym: "same k k' \<Longrightarrow> same k' k"
    and same_trans: "same k k' \<Longrightarrow> same k' k'' \<Longrightarrow> same k k''"
    and same_shared: "same k k' \<Longrightarrow> shared k = shared k'"
    and lookup_SomeD: "lookup t k = Some i \<Longrightarrow> i < cap \<and> used t i \<and> same (key t i) k"
    and lookup_NoneD: "lookup t k = None \<Longrightarrow> i < cap \<Longrightarrow> used t i \<Longrightarrow> \<not> same (key t i) k"
    and alloc_SomeD: "alloc t k a = Some (i, t') \<Longrightarrow> i < cap \<and> \<not> used t i \<and> used t' i"
    and alloc_key: "alloc t k a = Some (i, t') \<Longrightarrow> shared k \<Longrightarrow> same (key t' i) k"
    and alloc_other: "alloc t k a = Some (i, t') \<Longrightarrow> j \<noteq> i \<Longrightarrow>
      used t' j = used t j \<and> key t' j = key t j"
    and alloc_None_iff: "alloc t k a = None \<longleftrightarrow> (\<forall>i<cap. used t i)"
    and remove_self: "\<not> used (remove t i) i"
    and remove_other: "j \<noteq> i \<Longrightarrow> used (remove t i) j = used t j \<and> key (remove t i) j = key t j"
begin

text \<open>At most one used slot per shared key.\<close>

definition uniq :: "'t \<Rightarrow> bool" where
  "uniq t \<longleftrightarrow> (\<forall>i<cap. \<forall>j<cap. used t i \<longrightarrow> used t j \<longrightarrow> same (key t i) (key t j) \<longrightarrow>
     shared (key t i) \<longrightarrow> i = j)"

lemma uniqD:
  "uniq t \<Longrightarrow> i < cap \<Longrightarrow> j < cap \<Longrightarrow> used t i \<Longrightarrow> used t j \<Longrightarrow> same (key t i) (key t j) \<Longrightarrow>
   shared (key t i) \<Longrightarrow> i = j"
  unfolding uniq_def by blast

lemma uniq_alloc:
  assumes "uniq t" "alloc t k a = Some (i, t')" "lookup t k = None" "shared k"
  shows "uniq t'"
  unfolding uniq_def
proof (intro allI impI)
  fix m n
  assume *: "m < cap" "n < cap" "used t' m" "used t' n" "same (key t' m) (key t' n)" "shared (key t' m)"
  have fresh: "\<not> same (key t j) k" if "j < cap" "used t j" for j
    using lookup_NoneD [OF assms(3) that] .
  have k: "same (key t' i) k" using alloc_key [OF assms(2,4)] .
  show "m = n"
  proof (cases "m = i \<or> n = i")
    case True
    then show ?thesis
      using * k fresh alloc_other [OF assms(2)] same_sym same_trans by metis
  next
    case False
    then show ?thesis
      using * uniqD [OF assms(1)] alloc_other [OF assms(2)] by metis
  qed
qed

lemma lookup_alloc:
  assumes "uniq t" "alloc t k a = Some (i, t')" "lookup t k = None" "shared k"
  shows "lookup t' k = Some i"
proof -
  have u: "uniq t'" using uniq_alloc [OF assms] .
  have i: "i < cap" "used t' i" using alloc_SomeD [OF assms(2)] by auto
  have k: "same (key t' i) k" using alloc_key [OF assms(2,4)] .
  show ?thesis
  proof (cases "lookup t' k")
    case None
    then show ?thesis using lookup_NoneD [OF None] i k by blast
  next
    case (Some j)
    then have j: "j < cap" "used t' j" "same (key t' j) k" using lookup_SomeD by auto
    have "same (key t' j) (key t' i)" using j(3) k same_sym same_trans by blast
    moreover have "shared (key t' j)" using assms(4) same_shared [OF j(3)] by simp
    ultimately have "j = i" by (rule uniqD [OF u j(1) i(1) j(2) i(2)])
    with Some show ?thesis by simp
  qed
qed

lemma uniq_remove: "uniq t \<Longrightarrow> uniq (remove t i)"
  unfolding uniq_def by (metis remove_other remove_self)

lemma lookup_remove:
  assumes "uniq t" "i < cap" "used t i" "shared (key t i)" "same (key t i) k"
  shows "lookup (remove t i) k = None"
proof (rule ccontr)
  assume "lookup (remove t i) k \<noteq> None"
  then obtain j where j: "lookup (remove t i) k = Some j" by auto
  then have *: "j < cap" "used (remove t i) j" "same (key (remove t i) j) k"
    using lookup_SomeD by auto
  then have "j \<noteq> i" using remove_self by blast
  then have u: "used t j" "same (key t j) k" using * remove_other by auto
  have "same (key t i) (key t j)" using assms(5) u(2) same_sym same_trans by blast
  then show False using uniqD [OF assms(1,2) *(1) assms(3) u(1)] assms(4) \<open>j \<noteq> i\<close> by blast
qed

end

section \<open>Polling loops\<close>

text \<open>
  \<open>for (;;) { \<dots> return \<dots>; delay(); }\<close>: one round either returns (\<open>Some\<close>) or waits;
  \<open>env k\<close> is what the rest of the system (other threads and the clock) does to the state
  during the \<open>k\<close>-th delay. \<open>None\<close>: no return within the given number of rounds.
\<close>

fun poll_loop :: "('s \<Rightarrow> 'r option) \<Rightarrow> (nat \<Rightarrow> 's \<Rightarrow> 's) \<Rightarrow> nat \<Rightarrow> nat \<Rightarrow> 's \<Rightarrow> 'r option" where
  "poll_loop body env 0 k s = None"
| "poll_loop body env (Suc f) k s =
     (case body s of Some r \<Rightarrow> Some r | None \<Rightarrow> poll_loop body env f (Suc k) (env k s))"

text \<open>The state a loop that has not returned sees in round \<open>n\<close>, counted from delay \<open>k\<close>.\<close>

fun poll_state :: "(nat \<Rightarrow> 's \<Rightarrow> 's) \<Rightarrow> nat \<Rightarrow> nat \<Rightarrow> 's \<Rightarrow> 's" where
  "poll_state env 0 k s = s"
| "poll_state env (Suc n) k s = poll_state env n (Suc k) (env k s)"

lemma poll_loop_Some_iff:
  "poll_loop body env f k s = Some r \<longleftrightarrow>
   (\<exists>n<f. body (poll_state env n k s) = Some r \<and> (\<forall>m<n. body (poll_state env m k s) = None))"
proof (induction f arbitrary: k s)
  case 0
  then show ?case by simp
next
  case (Suc f)
  show ?case
  proof (cases "body s")
    case None
    have "(\<exists>n<Suc f. body (poll_state env n k s) = Some r \<and>
        (\<forall>m<n. body (poll_state env m k s) = None)) \<longleftrightarrow>
      (\<exists>n<f. body (poll_state env n (Suc k) (env k s)) = Some r \<and>
        (\<forall>m<n. body (poll_state env m (Suc k) (env k s)) = None))"
      (is "?L \<longleftrightarrow> ?R")
    proof
      assume ?L
      then obtain n where n: "n < Suc f" "body (poll_state env n k s) = Some r"
        "\<forall>m<n. body (poll_state env m k s) = None" by blast
      with None obtain n' where "n = Suc n'" by (cases n) auto
      with n show ?R by (intro exI [of _ n']) auto
    next
      assume ?R
      then obtain n where "n < f" "body (poll_state env n (Suc k) (env k s)) = Some r"
        "\<forall>m<n. body (poll_state env m (Suc k) (env k s)) = None" by blast
      with None show ?L by (intro exI [of _ "Suc n"]) (auto simp: less_Suc_eq_0_disj)
    qed
    with None Suc show ?thesis by simp
  next
    case (Some r')
    then show ?thesis by (auto simp: less_Suc_eq_0_disj intro: exI [of _ 0])
  qed
qed

lemma poll_loop_mono:
  "poll_loop body env f k s = Some r \<Longrightarrow> f \<le> g \<Longrightarrow> poll_loop body env g k s = Some r"
  unfolding poll_loop_Some_iff by (meson order_less_le_trans)

lemma poll_loop_returns:
  assumes "body (poll_state env n k s) \<noteq> None" "n < f"
  shows "\<exists>r. poll_loop body env f k s = Some r"
proof -
  define m where "m = (LEAST m. body (poll_state env m k s) \<noteq> None)"
  have m: "body (poll_state env m k s) \<noteq> None"
    unfolding m_def using assms(1) by (rule LeastI)
  have "m \<le> n" unfolding m_def using assms(1) by (rule Least_le)
  moreover have "body (poll_state env j k s) = None" if "j < m" for j
    using not_less_Least that unfolding m_def by blast
  ultimately show ?thesis using m assms(2) unfolding poll_loop_Some_iff
    by (metis not_None_eq order_le_less_trans)
qed

text \<open>
  The contract of a poller: a round returns once \<open>expired\<close> holds of the state. Then the
  loop returns in the round after the deadline at the latest, whatever else the
  environment does.
\<close>

locale poller =
  fixes round :: "'s \<Rightarrow> 'r option"
    and expired :: "'s \<Rightarrow> bool"
  assumes expired_returns: "expired s \<Longrightarrow> round s \<noteq> None"
begin

lemma returns_by_deadline:
  assumes "expired (poll_state env n 0 s)"
  shows "\<exists>r. poll_loop round env (Suc n) 0 s = Some r"
  using poll_loop_returns [of round env n 0 s "Suc n"] expired_returns [OF assms] by auto

end

text \<open>The mask of a power of 2 is the remainder.\<close>

lemma mask_index: "n = 2 ^ j \<Longrightarrow> (a :: nat) AND (n - 1) = a mod n"
  using take_bit_eq_mask [of j a] take_bit_eq_mod [of j a] mask_eq_exp_minus_1 [of j, where 'a = nat] by simp

section \<open>Alignment\<close>

text \<open>\<open>(c + a - 1) & -a\<close>, as the compiler and the linker round up to an alignment.\<close>

definition align_up :: "int \<Rightarrow> int \<Rightarrow> int" where
  "align_up c a = (c + a - 1) AND - a"

definition is_pow2 :: "int \<Rightarrow> bool" where
  "is_pow2 a \<longleftrightarrow> (\<exists>k. a = 2 ^ k)"

lemma is_pow2_simps [simp]: "is_pow2 1" "is_pow2 2" "is_pow2 4" "is_pow2 8" "is_pow2 (2 ^ k)"
  unfolding is_pow2_def by (auto intro: exI [of _ 0] exI [of _ 1] exI [of _ 2] exI [of _ 3])

lemma is_pow2_pos: "is_pow2 a \<Longrightarrow> 0 < a"
  by (auto simp: is_pow2_def)

lemma is_pow2_dvd: "is_pow2 a \<Longrightarrow> is_pow2 b \<Longrightarrow> a \<le> b \<Longrightarrow> a dvd b"
  by (auto simp: is_pow2_def le_imp_power_dvd)

lemma and_minus_pow2: "is_pow2 a \<Longrightarrow> (x::int) AND - a = x - x mod a"
proof -
  assume "is_pow2 a"
  then obtain k where a: "a = 2 ^ k" by (auto simp: is_pow2_def)
  have "take_bit k x + (x AND NOT (mask k)) = x"
    by (subst disjunctive_add) (auto intro!: bit_eqI simp: bit_simps)
  then show ?thesis by (simp add: a minus_exp_eq_not_mask take_bit_eq_mod)
qed

lemma align_up:
  assumes "is_pow2 a"
  shows "c \<le> align_up c a" "align_up c a < c + a" "a dvd align_up c a"
proof -
  have e: "align_up c a = (c + a - 1) - (c + a - 1) mod a"
    unfolding align_up_def by (rule and_minus_pow2 [OF assms])
  show "c \<le> align_up c a" "align_up c a < c + a"
    unfolding e using pos_mod_bound [of a "c + a - 1"] pos_mod_sign [of a "c + a - 1"] is_pow2_pos [OF assms]
    by linarith+
  show "a dvd align_up c a" unfolding e by (simp add: dvd_minus_mod)
qed

text \<open>Aligning means the next multiple.\<close>

lemma align_up_least:
  assumes "is_pow2 a" "c \<le> m" "a dvd m"
  shows "align_up c a \<le> m"
proof (rule ccontr)
  assume "\<not> align_up c a \<le> m"
  then have "0 < align_up c a - m" "align_up c a - m < a" using align_up(2) [OF assms(1), of c] assms(2) by simp_all
  moreover have "a dvd align_up c a - m" using align_up(3) [OF assms(1)] assms(3) by simp
  ultimately show False using zdvd_not_zless by blast
qed

end
