(* ===== verification/C_Types.thy ===== *)
theory C_Types
  imports Tcc_Prelude
begin

text \<open>
  The types of the compiler (\<open>tccgen.c\<close>): a \<open>CType\<close> is a word of flags and a reference to a
  symbol, and symbols hold the parts of derived types. Symbols live in a store from addresses
  (0 is the null pointer). Recursion over the type graph takes a depth: \<open>None\<close> says that it
  was too small, which for a well-formed type it never is (\<open>ty_ok\<close>). The target is the
  repository's x86_64 with 8-byte \<open>long\<close>.
\<close>

section \<open>Flags\<close>

abbreviation (input) VT_BTYPE :: u32 where "VT_BTYPE \<equiv> 0x000f"
abbreviation (input) VT_VOID :: u32 where "VT_VOID \<equiv> 0"
abbreviation (input) VT_BYTE :: u32 where "VT_BYTE \<equiv> 1"
abbreviation (input) VT_SHORT :: u32 where "VT_SHORT \<equiv> 2"
abbreviation (input) VT_INT :: u32 where "VT_INT \<equiv> 3"
abbreviation (input) VT_LLONG :: u32 where "VT_LLONG \<equiv> 4"
abbreviation (input) VT_PTR :: u32 where "VT_PTR \<equiv> 5"
abbreviation (input) VT_FUNC :: u32 where "VT_FUNC \<equiv> 6"
abbreviation (input) VT_STRUCT :: u32 where "VT_STRUCT \<equiv> 7"
abbreviation (input) VT_FLOAT :: u32 where "VT_FLOAT \<equiv> 8"
abbreviation (input) VT_DOUBLE :: u32 where "VT_DOUBLE \<equiv> 9"
abbreviation (input) VT_LDOUBLE :: u32 where "VT_LDOUBLE \<equiv> 10"
abbreviation (input) VT_BOOL :: u32 where "VT_BOOL \<equiv> 11"
abbreviation (input) VT_VECTOR :: u32 where "VT_VECTOR \<equiv> 12"
abbreviation (input) VT_QLONG :: u32 where "VT_QLONG \<equiv> 13"
abbreviation (input) VT_QFLOAT :: u32 where "VT_QFLOAT \<equiv> 14"

abbreviation (input) VT_UNSIGNED :: u32 where "VT_UNSIGNED \<equiv> 0x0010"
abbreviation (input) VT_DEFSIGN :: u32 where "VT_DEFSIGN \<equiv> 0x0020"
abbreviation (input) VT_ARRAY :: u32 where "VT_ARRAY \<equiv> 0x0040"
abbreviation (input) VT_BITFIELD :: u32 where "VT_BITFIELD \<equiv> 0x0080"
abbreviation (input) VT_CONSTANT :: u32 where "VT_CONSTANT \<equiv> 0x0100"
abbreviation (input) VT_VOLATILE :: u32 where "VT_VOLATILE \<equiv> 0x0200"
abbreviation (input) VT_VLA :: u32 where "VT_VLA \<equiv> 0x0400"
abbreviation (input) VT_LONG :: u32 where "VT_LONG \<equiv> 0x0800"
abbreviation (input) VT_TLS :: u32 where "VT_TLS \<equiv> 0x00010000"

abbreviation (input) VT_STRUCT_MASK :: u32 where "VT_STRUCT_MASK \<equiv> 0xfff00080"
abbreviation (input) VT_ENUM :: u32 where "VT_ENUM \<equiv> 0x00200000"
abbreviation (input) VT_STORAGE :: u32 where "VT_STORAGE \<equiv> 0x0001f000"
abbreviation (input) VT_TYPE :: u32 where "VT_TYPE \<equiv> NOT (VT_STORAGE OR VT_STRUCT_MASK)"
abbreviation (input) VT_SIZE_T :: u32 where "VT_SIZE_T \<equiv> VT_LONG OR VT_LLONG OR VT_UNSIGNED"
abbreviation (input) VT_PTRDIFF_T :: u32 where "VT_PTRDIFF_T \<equiv> VT_LONG OR VT_LLONG"

abbreviation (input) FUNC_OLD :: nat where "FUNC_OLD \<equiv> 2"

definition IS_ENUM :: "u32 \<Rightarrow> bool" where
  "IS_ENUM t \<longleftrightarrow> t AND VT_STRUCT_MASK = VT_ENUM"

definition BIT_POS :: "u32 \<Rightarrow> nat" where
  "BIT_POS t = unat (drop_bit 20 t AND 0x3f)"

definition BIT_SIZE :: "u32 \<Rightarrow> nat" where
  "BIT_SIZE t = unat (drop_bit 26 t AND 0x3f)"

section \<open>Types and symbols\<close>

record ctype =
  ct_t :: u32
  ct_ref :: nat

record csym =
  sym_c :: int
  sym_r :: int
  sym_type :: ctype
  sym_next :: nat
  sym_call :: nat
  sym_ftype :: nat

type_synonym syms = "nat \<Rightarrow> csym"

definition is_float :: "u32 \<Rightarrow> bool" where
  "is_float t \<longleftrightarrow> (let bt = t AND VT_BTYPE in
     bt = VT_LDOUBLE \<or> bt = VT_DOUBLE \<or> bt = VT_FLOAT \<or> bt = VT_QFLOAT)"

definition is_integer_btype :: "u32 \<Rightarrow> bool" where
  "is_integer_btype bt \<longleftrightarrow>
     bt = VT_BYTE \<or> bt = VT_BOOL \<or> bt = VT_SHORT \<or> bt = VT_INT \<or> bt = VT_LLONG"

definition btype_size :: "u32 \<Rightarrow> nat" where
  "btype_size bt =
     (if bt = VT_BYTE \<or> bt = VT_BOOL then 1
      else if bt = VT_SHORT then 2
      else if bt = VT_INT then 4
      else if bt = VT_LLONG then 8
      else if bt = VT_PTR then 8 else 0)"

definition pointed_type :: "syms \<Rightarrow> ctype \<Rightarrow> ctype" where
  "pointed_type h ty = sym_type (h (ct_ref ty))"

text \<open>Arithmetic of type \<open>int\<close> has 32 bits and wraps around.\<close>

definition c_int :: "int \<Rightarrow> int" where
  "c_int x = signed_take_bit 31 x"

lemma c_int: "- (2 ^ 31) \<le> x \<Longrightarrow> x < 2 ^ 31 \<Longrightarrow> c_int x = x"
  by (simp add: c_int_def signed_take_bit_int_eq_self)

text \<open>\<open>type_size\<close>: size and alignment; the size of an incomplete type is negative.\<close>

fun type_size :: "nat \<Rightarrow> syms \<Rightarrow> ctype \<Rightarrow> (int \<times> int) option" where
  "type_size 0 h ty = None"
| "type_size (Suc d) h ty =
     (let bt = ct_t ty AND VT_BTYPE; s = h (ct_ref ty) in
      if bt = VT_STRUCT then Some (sym_c s, sym_r s)
      else if bt = VT_PTR then
        if ct_t ty AND VT_ARRAY \<noteq> 0 then
          (case type_size d h (sym_type s) of
             None \<Rightarrow> None
           | Some (ts, a) \<Rightarrow> if sym_c s < 0 then Some (sym_c s, a) else Some (c_int (ts * sym_c s), a))
        else Some (8, 8)
      else if IS_ENUM (ct_t ty) \<and> sym_c s < 0 then Some (- 1, 0)
      else if bt = VT_LDOUBLE then Some (16, 16)
      else if bt = VT_DOUBLE \<or> bt = VT_LLONG then Some (8, 8)
      else if bt = VT_INT \<or> bt = VT_FLOAT then Some (4, 4)
      else if bt = VT_SHORT then Some (2, 2)
      else if bt = VT_VECTOR then Some (16, 16)
      else if bt = VT_QLONG \<or> bt = VT_QFLOAT then Some (16, 8)
      else Some (1, 1))"

section \<open>Compatible types\<close>

text \<open>The underlying type of an enumeration type, other types as they are.\<close>

definition strip_enum :: "syms \<Rightarrow> ctype \<Rightarrow> ctype" where
  "strip_enum h ty = (if IS_ENUM (ct_t ty) then sym_type (h (ct_ref ty)) else ty)"

text \<open>
  The two flag words \<open>compare_types\<close> compares: without storage, without qualifiers if \<open>unq\<close>,
  and without \<open>VT_DEFSIGN\<close> unless the first type is a \<open>char\<close>.
\<close>

definition cmp_flags :: "bool \<Rightarrow> u32 \<Rightarrow> u32" where
  "cmp_flags unq t =
     (if unq then t AND VT_TYPE AND NOT (VT_CONSTANT OR VT_VOLATILE) else t AND VT_TYPE)"

definition cmp_pair :: "bool \<Rightarrow> u32 \<Rightarrow> u32 \<Rightarrow> u32 \<times> u32" where
  "cmp_pair unq t1 t2 =
     (let f1 = cmp_flags unq t1; f2 = cmp_flags unq t2 in
      if f1 AND VT_BTYPE \<noteq> VT_BYTE then (f1 AND NOT VT_DEFSIGN, f2 AND NOT VT_DEFSIGN)
      else (f1, f2))"

text \<open>The tests of \<open>compare_types\<close> that do not look into the types.\<close>

definition types_differ :: "syms \<Rightarrow> bool \<Rightarrow> ctype \<Rightarrow> ctype \<Rightarrow> bool" where
  "types_differ h unq ty1 ty2 \<longleftrightarrow>
     (let (t1, t2) = cmp_pair unq (ct_t ty1) (ct_t ty2);
          c1 = sym_c (h (ct_ref ty1)); c2 = sym_c (h (ct_ref ty2))
      in t1 \<noteq> t2 \<or> t1 AND VT_ARRAY \<noteq> 0 \<and> \<not> (c1 < 0 \<or> c2 < 0 \<or> c1 = c2))"

text \<open>
  \<open>compare_types\<close>, \<open>is_compatible_func\<close> and the loop of the latter over the two parameter
  lists. The results of the C functions are truth values.
\<close>

fun compare_types :: "nat \<Rightarrow> syms \<Rightarrow> ctype \<Rightarrow> ctype \<Rightarrow> bool \<Rightarrow> bool option"
  and is_compatible_func :: "nat \<Rightarrow> syms \<Rightarrow> nat \<Rightarrow> nat \<Rightarrow> bool option"
  and compatible_params :: "nat \<Rightarrow> syms \<Rightarrow> nat \<Rightarrow> nat \<Rightarrow> bool option" where
  "compare_types 0 h ty1 ty2 unq = None"
| "compare_types (Suc d) h ty1 ty2 unq =
     (if IS_ENUM (ct_t ty1) \<and> IS_ENUM (ct_t ty2) then Some (ct_ref ty1 = ct_ref ty2)
      else
        let ty1' = strip_enum h ty1; ty2' = strip_enum h ty2;
            bt1 = fst (cmp_pair unq (ct_t ty1') (ct_t ty2')) AND VT_BTYPE
        in if types_differ h unq ty1' ty2' then Some False
           else if bt1 = VT_PTR then
             compare_types d h (pointed_type h ty1') (pointed_type h ty2') False
           else if bt1 = VT_STRUCT \<or> bt1 = VT_VECTOR then Some (ct_ref ty1' = ct_ref ty2')
           else if bt1 = VT_FUNC then is_compatible_func d h (ct_ref ty1') (ct_ref ty2')
           else Some True)"
| "is_compatible_func 0 h s1 s2 = None"
| "is_compatible_func (Suc d) h s1 s2 =
     (if sym_call (h s1) \<noteq> sym_call (h s2) then Some False
      else if sym_ftype (h s1) \<noteq> sym_ftype (h s2) \<and> sym_ftype (h s1) \<noteq> FUNC_OLD \<and>
        sym_ftype (h s2) \<noteq> FUNC_OLD then Some False
      else compatible_params d h s1 s2)"
| "compatible_params 0 h s1 s2 = None"
| "compatible_params (Suc d) h s1 s2 =
     (case compare_types d h (sym_type (h s1)) (sym_type (h s2)) True of
        None \<Rightarrow> None
      | Some False \<Rightarrow> Some False
      | Some True \<Rightarrow>
          if sym_ftype (h s1) = FUNC_OLD \<or> sym_ftype (h s2) = FUNC_OLD then Some True
          else
            let n1 = sym_next (h s1); n2 = sym_next (h s2) in
            if n1 = 0 then Some (n2 = 0)
            else if n2 = 0 then Some False
            else compatible_params d h n1 n2)"

definition is_compatible_types :: "nat \<Rightarrow> syms \<Rightarrow> ctype \<Rightarrow> ctype \<Rightarrow> bool option" where
  "is_compatible_types d h ty1 ty2 = compare_types d h ty1 ty2 False"

definition is_compatible_unqualified_types :: "nat \<Rightarrow> syms \<Rightarrow> ctype \<Rightarrow> ctype \<Rightarrow> bool option" where
  "is_compatible_unqualified_types d h ty1 ty2 = compare_types d h ty1 ty2 True"

section \<open>Well-formed types\<close>

text \<open>
  Types of depth at most \<open>d\<close>: arrays are built from pointers, their elements are complete, an
  enumeration has the basic type of its underlying type, and the lists of parameters end.
\<close>

fun ty_ok :: "nat \<Rightarrow> syms \<Rightarrow> ctype \<Rightarrow> bool"
  and func_ok :: "nat \<Rightarrow> syms \<Rightarrow> nat \<Rightarrow> bool"
  and params_ok :: "nat \<Rightarrow> syms \<Rightarrow> nat \<Rightarrow> bool" where
  "ty_ok 0 h ty = False"
| "ty_ok (Suc d) h ty =
     (let t = ct_t ty; bt = t AND VT_BTYPE in
      (IS_ENUM t \<longrightarrow> is_integer_btype bt \<and>
         ct_t (sym_type (h (ct_ref ty))) AND (VT_BTYPE OR VT_ARRAY) = bt) \<and>
      (t AND VT_ARRAY \<noteq> 0 \<longrightarrow> bt = VT_PTR \<and>
         (case type_size d h (sym_type (h (ct_ref ty))) of None \<Rightarrow> False | Some (ts, _) \<Rightarrow> 0 \<le> ts)) \<and>
      (bt = VT_PTR \<longrightarrow> ty_ok d h (sym_type (h (ct_ref ty)))) \<and>
      (bt = VT_FUNC \<longrightarrow> func_ok d h (ct_ref ty)))"
| "func_ok 0 h s = False"
| "func_ok (Suc d) h s = params_ok d h s"
| "params_ok 0 h s = False"
| "params_ok (Suc d) h s =
     (ty_ok d h (sym_type (h s)) \<and> (sym_next (h s) = 0 \<or> params_ok d h (sym_next (h s))))"

text \<open>Flags: the basic type survives the masks, and the comparison is symmetric.\<close>

lemma drop_defsign [simp]:
  fixes x :: u32
  shows "(x AND - 33) AND 15 = x AND 15" "(x AND - 33) AND 64 = x AND 64"
  by (simp_all add: and.assoc)

lemma cmp_flags_bits [simp]:
  "cmp_flags u t AND VT_BTYPE = t AND VT_BTYPE"
  "cmp_flags u t AND VT_ARRAY = t AND VT_ARRAY"
  by (auto simp: cmp_flags_def and.assoc)

lemma fst_cmp_pair_bits [simp]:
  "fst (cmp_pair u t1 t2) AND VT_BTYPE = t1 AND VT_BTYPE"
  "fst (cmp_pair u t1 t2) AND VT_ARRAY = t1 AND VT_ARRAY"
  by (auto simp: cmp_pair_def Let_def)

lemma snd_cmp_pair_bits [simp]:
  "snd (cmp_pair u t1 t2) AND VT_BTYPE = t2 AND VT_BTYPE"
  "snd (cmp_pair u t1 t2) AND VT_ARRAY = t2 AND VT_ARRAY"
  by (auto simp: cmp_pair_def Let_def)

lemma cmp_pair_sym:
  "fst (cmp_pair u t1 t2) = snd (cmp_pair u t1 t2) \<longleftrightarrow> fst (cmp_pair u t2 t1) = snd (cmp_pair u t2 t1)"
proof (cases "t1 AND VT_BTYPE = t2 AND VT_BTYPE")
  case True
  then have "cmp_pair u t2 t1 = prod.swap (cmp_pair u t1 t2)" by (simp add: cmp_pair_def Let_def)
  then show ?thesis by auto
next
  case False
  then show ?thesis by (metis fst_cmp_pair_bits(1) snd_cmp_pair_bits(1))
qed

lemma types_differ_sym: "types_differ h u a b = types_differ h u b a"
  unfolding types_differ_def Let_def split_beta fst_cmp_pair_bits
  by (metis cmp_pair_sym fst_cmp_pair_bits(2) snd_cmp_pair_bits(2))

lemma not_types_differD:
  assumes "\<not> types_differ h u a b"
  shows "ct_t a AND VT_BTYPE = ct_t b AND VT_BTYPE" "ct_t a AND VT_ARRAY = ct_t b AND VT_ARRAY"
    "ct_t a AND VT_ARRAY \<noteq> 0 \<Longrightarrow> sym_c (h (ct_ref a)) < 0 \<or> sym_c (h (ct_ref b)) < 0 \<or>
       sym_c (h (ct_ref a)) = sym_c (h (ct_ref b))"
  using assms unfolding types_differ_def Let_def split_beta
  by (metis fst_cmp_pair_bits(1) snd_cmp_pair_bits(1), metis fst_cmp_pair_bits(2) snd_cmp_pair_bits(2),
      metis fst_cmp_pair_bits(2))

lemma types_differ_refl [simp]: "\<not> types_differ h u a a"
  by (simp add: types_differ_def cmp_pair_def Let_def)

text \<open>Comparing types is symmetric, ends, and finds every type compatible with itself.\<close>

lemma compare_types_sym:
  "compare_types d h a b u = compare_types d h b a u"
  "is_compatible_func d h s1 s2 = is_compatible_func d h s2 s1"
  "compatible_params d h s1 s2 = compatible_params d h s2 s1"
proof (induction d arbitrary: a b u s1 s2)
  case (Suc d)
  {
    case 1
    let ?a = "strip_enum h a" and ?b = "strip_enum h b"
    show ?case
    proof (cases "types_differ h u ?a ?b")
      case True
      moreover have "types_differ h u ?b ?a" using True types_differ_sym [of h u ?a ?b] by simp
      ultimately show ?thesis by (auto simp: Let_def)
    next
      case False
      moreover have "\<not> types_differ h u ?b ?a" using False types_differ_sym [of h u ?a ?b] by simp
      ultimately show ?thesis
        using not_types_differD(1) [OF False] Suc.IH(1) [of "pointed_type h ?a" "pointed_type h ?b" False]
          Suc.IH(2) [of "ct_ref ?a" "ct_ref ?b"]
        by (auto simp: Let_def)
    qed
  next
    case 2
    show ?case using Suc.IH(3) [of s1 s2] by auto
  next
    case 3
    show ?case
      using Suc.IH(1) [of "sym_type (h s1)" "sym_type (h s2)" True]
        Suc.IH(3) [of "sym_next (h s1)" "sym_next (h s2)"]
      by (auto simp: Let_def split: option.splits bool.splits)
  }
qed simp_all

lemma strip_enum_ok:
  assumes "ty_ok (Suc d) h ty"
  shows "ct_t (strip_enum h ty) AND VT_BTYPE = ct_t ty AND VT_BTYPE"
    and "IS_ENUM (ct_t ty) \<Longrightarrow> is_integer_btype (ct_t ty AND VT_BTYPE)"
    and "IS_ENUM (ct_t ty) \<Longrightarrow> ct_t (strip_enum h ty) AND VT_ARRAY = 0"
    and "IS_ENUM (ct_t ty) \<Longrightarrow>
      ct_t (sym_type (h (ct_ref ty))) AND (VT_BTYPE OR VT_ARRAY) = ct_t ty AND VT_BTYPE"
proof -
  let ?t = "ct_t ty" and ?s = "ct_t (sym_type (h (ct_ref ty)))"
  show i: "is_integer_btype (?t AND VT_BTYPE)" if "IS_ENUM ?t"
    using assms that by (simp add: Let_def)
  show "?s AND (VT_BTYPE OR VT_ARRAY) = ?t AND VT_BTYPE" if "IS_ENUM ?t"
    using assms that by (simp add: Let_def)
  show "ct_t (strip_enum h ty) AND VT_BTYPE = ?t AND VT_BTYPE"
  proof (cases "IS_ENUM ?t")
    case True
    then have *: "?s AND 79 = ?t AND 15" using assms by (simp add: Let_def)
    have "?s AND 15 = (?s AND 79) AND 15" by (simp add: and.assoc)
    also have "\<dots> = ?t AND 15" unfolding * by (simp add: and.assoc)
    finally show ?thesis using True by (simp add: strip_enum_def)
  qed (simp add: strip_enum_def)
  show "ct_t (strip_enum h ty) AND VT_ARRAY = 0" if "IS_ENUM ?t"
  proof -
    have *: "?s AND 79 = ?t AND 15" using assms that by (simp add: Let_def)
    have "?s AND 64 = (?s AND 79) AND 64" by (simp add: and.assoc)
    also have "\<dots> = 0" unfolding * by (simp add: and.assoc)
    finally show ?thesis using that by (simp add: strip_enum_def)
  qed
qed

lemma strip_enum_derived:
  assumes "ty_ok (Suc d) h ty" "\<not> is_integer_btype (ct_t (strip_enum h ty) AND VT_BTYPE)"
  shows "strip_enum h ty = ty"
  using strip_enum_ok(1,2) [OF assms(1)] assms(2) by (auto simp: strip_enum_def)

lemma compare_types_total:
  "ty_ok d h a \<Longrightarrow> ty_ok d h b \<Longrightarrow> compare_types d h a b u \<noteq> None"
  "func_ok d h s1 \<Longrightarrow> func_ok d h s2 \<Longrightarrow> is_compatible_func d h s1 s2 \<noteq> None"
  "params_ok d h s1 \<Longrightarrow> params_ok d h s2 \<Longrightarrow> compatible_params d h s1 s2 \<noteq> None"
proof (induction d arbitrary: a b u s1 s2)
  case (Suc d)
  {
    case 1
    let ?a = "strip_enum h a" and ?b = "strip_enum h b"
    have ptr: "compare_types d h (pointed_type h ?a) (pointed_type h ?b) False \<noteq> None"
      if "ct_t ?a AND 15 = 5" "ct_t ?b AND 15 = 5"
    proof -
      have ab: "?a = a" "?b = b" using strip_enum_derived 1 that by (force simp: is_integer_btype_def)+
      show ?thesis
        using 1 that unfolding ab by (intro Suc.IH(1)) (simp_all add: Let_def pointed_type_def)
    qed
    have func: "is_compatible_func d h (ct_ref ?a) (ct_ref ?b) \<noteq> None"
      if "ct_t ?a AND 15 = 6" "ct_t ?b AND 15 = 6"
    proof -
      have ab: "?a = a" "?b = b" using strip_enum_derived 1 that by (force simp: is_integer_btype_def)+
      show ?thesis using 1 that unfolding ab by (intro Suc.IH(2)) (simp_all add: Let_def)
    qed
    show ?case using ptr func not_types_differD(1) [of h u ?a ?b] by (auto simp: Let_def)
  next
    case 2
    then show ?case using Suc.IH(3) [of s1 s2] by auto
  next
    case 3
    then show ?case
      using Suc.IH(1) [of "sym_type (h s1)" "sym_type (h s2)" True]
        Suc.IH(3) [of "sym_next (h s1)" "sym_next (h s2)"]
      by (auto simp: Let_def split: option.splits bool.splits)
  }
qed simp_all

lemma compare_types_refl:
  "ty_ok d h a \<Longrightarrow> compare_types d h a a u = Some True"
  "func_ok d h s1 \<Longrightarrow> is_compatible_func d h s1 s1 = Some True"
  "params_ok d h s1 \<Longrightarrow> compatible_params d h s1 s1 = Some True"
proof (induction d arbitrary: a u s1)
  case (Suc d)
  {
    case 1
    show ?case
    proof (cases "IS_ENUM (ct_t a)")
      case False
      then have a: "strip_enum h a = a" by (simp add: strip_enum_def)
      show ?thesis
        using 1 Suc.IH(1) [of "pointed_type h a" False] Suc.IH(2) [of "ct_ref a"] False
        by (simp add: Let_def a pointed_type_def)
    qed simp
  next
    case 2
    then show ?case using Suc.IH(3) [of s1] by simp
  next
    case 3
    then show ?case
      using Suc.IH(1) [of "sym_type (h s1)" True] Suc.IH(3) [of "sym_next (h s1)"]
      by (auto simp: Let_def)
  }
qed simp_all

lemma type_size_base:
  assumes "ct_t ty AND VT_BTYPE = bt" "bt \<noteq> VT_PTR" "bt \<noteq> VT_STRUCT" "type_size (Suc d) h ty = Some (s, a)" "0 \<le> s"
  shows "(s, a) = (if bt = VT_LDOUBLE then (16, 16)
      else if bt = VT_DOUBLE \<or> bt = VT_LLONG then (8, 8)
      else if bt = VT_INT \<or> bt = VT_FLOAT then (4, 4)
      else if bt = VT_SHORT then (2, 2)
      else if bt = VT_VECTOR then (16, 16)
      else if bt = VT_QLONG \<or> bt = VT_QFLOAT then (16, 8) else (1, 1))"
  using assms by (auto simp: Let_def split: if_splits)

lemma ty_ok_array:
  assumes "ty_ok (Suc d) h ty" "ct_t ty AND VT_ARRAY \<noteq> 0"
  shows "ct_t ty AND VT_BTYPE = VT_PTR" "ty_ok d h (pointed_type h ty)"
    and "\<exists>ts l. type_size d h (pointed_type h ty) = Some (ts, l) \<and> 0 \<le> ts \<and>
      type_size (Suc d) h ty =
        Some (if sym_c (h (ct_ref ty)) < 0 then sym_c (h (ct_ref ty)) else c_int (ts * sym_c (h (ct_ref ty))), l)"
proof -
  show "ct_t ty AND VT_BTYPE = VT_PTR" "ty_ok d h (pointed_type h ty)"
    using assms by (simp_all add: Let_def pointed_type_def)
  then show "\<exists>ts l. type_size d h (pointed_type h ty) = Some (ts, l) \<and> 0 \<le> ts \<and>
      type_size (Suc d) h ty =
        Some (if sym_c (h (ct_ref ty)) < 0 then sym_c (h (ct_ref ty)) else c_int (ts * sym_c (h (ct_ref ty))), l)"
    using assms by (auto simp: Let_def pointed_type_def split: option.splits)
qed

text \<open>Arrays of as many elements of the same size.\<close>

lemma arrays_same_size:
  assumes ok: "ty_ok (Suc d) h a" "ty_ok (Suc d) h b" and arr: "ct_t a AND VT_ARRAY \<noteq> 0" "ct_t b AND VT_ARRAY \<noteq> 0"
    and nd: "\<not> types_differ h u a b"
    and sizes: "type_size (Suc d) h a = Some (sa, la)" "type_size (Suc d) h b = Some (sb, lb)" "0 \<le> sa" "0 \<le> sb"
    and elems: "\<And>ta ma tb mb. type_size d h (pointed_type h a) = Some (ta, ma) \<Longrightarrow> type_size d h (pointed_type h b) = Some (tb, mb) \<Longrightarrow>
      0 \<le> ta \<Longrightarrow> 0 \<le> tb \<Longrightarrow> ta = tb \<and> ma = mb"
  shows "sa = sb \<and> la = lb"
proof -
  obtain ta ma where ta: "type_size d h (pointed_type h a) = Some (ta, ma)" "0 \<le> ta"
    "(sa, la) = (if sym_c (h (ct_ref a)) < 0 then sym_c (h (ct_ref a)) else c_int (ta * sym_c (h (ct_ref a))), ma)"
    using ty_ok_array(3) [OF ok(1) arr(1)] sizes(1) by auto
  obtain tb mb where tb: "type_size d h (pointed_type h b) = Some (tb, mb)" "0 \<le> tb"
    "(sb, lb) = (if sym_c (h (ct_ref b)) < 0 then sym_c (h (ct_ref b)) else c_int (tb * sym_c (h (ct_ref b))), mb)"
    using ty_ok_array(3) [OF ok(2) arr(2)] sizes(2) by auto
  have "\<not> sym_c (h (ct_ref a)) < 0" "\<not> sym_c (h (ct_ref b)) < 0"
    using ta(3) tb(3) sizes(3,4) by auto
  moreover have "sym_c (h (ct_ref a)) = sym_c (h (ct_ref b))"
    using not_types_differD(3) [OF nd] arr calculation by simp
  moreover have "ta = tb \<and> ma = mb" by (rule elems [OF ta(1) tb(1) ta(2) tb(2)])
  ultimately show ?thesis using ta(3) tb(3) by simp
qed

text \<open>C14: Complete types that \<open>compare_types\<close> takes for the same have the same size and alignment.\<close>

theorem compatible_same_size:
  assumes "ty_ok d h a" "ty_ok d h b" "compare_types d h a b u = Some True"
    and "type_size d h a = Some (sa, la)" "type_size d h b = Some (sb, lb)" "0 \<le> sa" "0 \<le> sb"
  shows "sa = sb \<and> la = lb"
  using assms
proof (induction d arbitrary: a b u sa la sb lb)
  case (Suc d)
  let ?a = "strip_enum h a" and ?b = "strip_enum h b"
  let ?bt = "ct_t a AND VT_BTYPE"
  show ?case
  proof (cases "IS_ENUM (ct_t a) \<and> IS_ENUM (ct_t b)")
    case True
    then have "ct_ref a = ct_ref b" using Suc.prems(3) by simp
    then have bt: "ct_t b AND VT_BTYPE = ?bt"
      using strip_enum_ok(4) [OF Suc.prems(1)] strip_enum_ok(4) [OF Suc.prems(2)] True by simp
    have "is_integer_btype ?bt" using strip_enum_ok(2) [OF Suc.prems(1)] True by simp
    then have base: "?bt \<noteq> VT_PTR" "?bt \<noteq> VT_STRUCT" by (auto simp: is_integer_btype_def)
    have "(sa, la) = (sb, lb)"
      by (rule trans [OF type_size_base [OF refl base Suc.prems(4,6)]
            type_size_base [OF bt base Suc.prems(5,7), symmetric]])
    then show ?thesis by simp
  next
    case False
    then have nd: "\<not> types_differ h u ?a ?b" using Suc.prems(3) by (auto simp: Let_def split: if_splits)
    have bt: "ct_t b AND VT_BTYPE = ?bt"
      using not_types_differD(1) [OF nd] strip_enum_ok(1) [OF Suc.prems(1)] strip_enum_ok(1) [OF Suc.prems(2)]
      by simp
    consider (base) "?bt \<noteq> VT_PTR" "?bt \<noteq> VT_STRUCT" | (ptr) "?bt = VT_PTR" | (struct) "?bt = VT_STRUCT" by blast
    then show ?thesis
    proof cases
      case base
      then have "(sa, la) = (sb, lb)"
        by (intro trans [OF type_size_base [OF refl _ _ Suc.prems(4,6)]
              type_size_base [OF bt _ _ Suc.prems(5,7), symmetric]])
      then show ?thesis by simp
    next
      case ptr
      then have ab: "?a = a" "?b = b"
        using strip_enum_derived Suc.prems(1,2) bt strip_enum_ok(1) by (force simp: is_integer_btype_def)+
      show ?thesis
      proof (cases "ct_t a AND VT_ARRAY = 0")
        case True
        then show ?thesis using Suc.prems(4,5) ptr bt not_types_differD(2) [OF nd] 
          by (auto simp: ab Let_def)
      next
        case arr: False
        then have arr': "ct_t b AND VT_ARRAY \<noteq> 0" using not_types_differD(2) [OF nd] by (simp add: ab)
        have c: "compare_types d h (pointed_type h a) (pointed_type h b) False = Some True"
          using Suc.prems(3) False nd ptr by (auto simp: Let_def ab)
        show ?thesis
          by (rule arrays_same_size [OF Suc.prems(1,2) arr arr' nd [unfolded ab] Suc.prems(4-7)])
            (rule Suc.IH [OF ty_ok_array(2) [OF Suc.prems(1) arr] ty_ok_array(2) [OF Suc.prems(2) arr'] c])
      qed
    next
      case struct
      then have ab: "?a = a" "?b = b"
        using strip_enum_derived Suc.prems(1,2) bt strip_enum_ok(1) by (force simp: is_integer_btype_def)+
      then show ?thesis using Suc.prems(3,4,5) struct bt nd False by (auto simp: Let_def)
    qed
  qed
qed simp

section \<open>Types of the operands of an operation\<close>

text \<open>Values on the value stack: \<open>type\<close>, \<open>r\<close> and the integer constant \<open>c.i\<close>.\<close>

record svalue =
  sv_type :: ctype
  sv_r :: u16
  sv_i :: u64

abbreviation (input) VT_VALMASK :: u16 where "VT_VALMASK \<equiv> 0x3f"
abbreviation (input) VT_CONST :: u16 where "VT_CONST \<equiv> 0x30"
abbreviation (input) VT_LOCAL :: u16 where "VT_LOCAL \<equiv> 0x32"
abbreviation (input) VT_LVAL :: u16 where "VT_LVAL \<equiv> 0x100"
abbreviation (input) VT_SYM :: u16 where "VT_SYM \<equiv> 0x200"
abbreviation (input) VT_MUSTCAST :: u16 where "VT_MUSTCAST \<equiv> 0xc00"
abbreviation (input) VT_NONCONST :: u16 where "VT_NONCONST \<equiv> 0x1000"

text \<open>\<open>sym_push\<close> for an anonymous symbol: the store and the next free address.\<close>

definition sym_push :: "syms \<times> nat \<Rightarrow> ctype \<Rightarrow> int \<Rightarrow> nat \<times> syms \<times> nat" where
  "sym_push st ty c =
     (let (h, n) = st in
      (n, h(n := \<lparr>sym_c = c, sym_r = 0, sym_type = ty, sym_next = 0, sym_call = 0, sym_ftype = 0\<rparr>), n + 1))"

definition mk_pointer :: "syms \<times> nat \<Rightarrow> ctype \<Rightarrow> ctype \<times> syms \<times> nat" where
  "mk_pointer st ty =
     (let (s, st') = sym_push st ty (- 1) in
      (\<lparr>ct_t = VT_PTR OR (ct_t ty AND VT_STORAGE), ct_ref = s\<rparr>, st'))"

definition is_null_pointer :: "syms \<Rightarrow> svalue \<Rightarrow> bool" where
  "is_null_pointer h p \<longleftrightarrow>
     sv_r p AND (VT_VALMASK OR VT_LVAL OR VT_SYM OR VT_NONCONST) = VT_CONST \<and>
     (let bt = ct_t (sv_type p) AND VT_BTYPE; pt = ct_t (pointed_type h (sv_type p)) in
      bt = VT_INT \<and> (ucast (sv_i p) :: u32) = 0 \<or>
      bt = VT_LLONG \<and> sv_i p = 0 \<or>
      bt = VT_PTR \<and> sv_i p = 0 \<and> pt AND VT_BTYPE = VT_VOID \<and> pt AND (VT_CONSTANT OR VT_VOLATILE) = 0)"

text \<open>
  The operation as \<open>combine_types\<close> sees it; other operators are \<open>Op_arith\<close>. The result says
  whether the types combine, with the combined type and the symbols made for it.
\<close>

datatype comb_op = Op_plus | Op_minus | Op_cond | CMP_OP | SHIFT_OP | Op_arith

datatype combine = Combine_error | Combine bool ctype "syms \<times> nat"

definition combine_floats :: "u32 \<Rightarrow> u32 \<Rightarrow> u32" where
  "combine_floats bt1 bt2 =
     (if bt1 = VT_LDOUBLE \<or> bt2 = VT_LDOUBLE then VT_LDOUBLE
      else if bt1 = VT_DOUBLE \<or> bt2 = VT_DOUBLE then VT_DOUBLE
      else VT_FLOAT)"

definition combine_llongs :: "u32 \<Rightarrow> u32 \<Rightarrow> u32" where
  "combine_llongs t1 t2 =
     (let t = VT_LLONG OR VT_LONG;
          t = (if t1 AND VT_BTYPE = VT_LLONG then t AND t1 else t);
          t = (if t2 AND VT_BTYPE = VT_LLONG then t AND t2 else t)
      in if t1 AND (VT_BTYPE OR VT_UNSIGNED) = VT_LLONG OR VT_UNSIGNED \<or>
            t2 AND (VT_BTYPE OR VT_UNSIGNED) = VT_LLONG OR VT_UNSIGNED
         then t OR VT_UNSIGNED else t)"

definition combine_ints :: "u32 \<Rightarrow> u32 \<Rightarrow> u32" where
  "combine_ints t1 t2 =
     (let t = VT_INT OR (VT_LONG AND (t1 OR t2)) in
      if (t1 AND (VT_BTYPE OR VT_UNSIGNED) = VT_INT OR VT_UNSIGNED \<and>
            (t1 AND VT_BITFIELD = 0 \<or> BIT_SIZE t1 = 32)) \<or>
         (t2 AND (VT_BTYPE OR VT_UNSIGNED) = VT_INT OR VT_UNSIGNED \<and>
            (t2 AND VT_BITFIELD = 0 \<or> BIT_SIZE t2 = 32))
      then t OR VT_UNSIGNED else t)"

text \<open>
  The result type of \<open>a ? p : q\<close> for two pointers: a copy of the target symbol takes the
  qualifiers of both sides, and another one the length of an array known on one side only.
\<close>

definition combine_cond :: "syms \<times> nat \<Rightarrow> ctype \<Rightarrow> ctype \<Rightarrow> ctype \<times> syms \<times> nat" where
  "combine_cond st ty1 ty2 =
     (let h = fst st; pt1 = pointed_type h ty1; pt2 = pointed_type h ty2;
          quals = VT_CONSTANT OR VT_VOLATILE;
          ty = (if ct_t pt1 AND VT_BTYPE = VT_VOID then ty1 else ty2);
          newquals = (ct_t pt1 OR ct_t pt2) AND quals;
          copied = (NOT (ct_t (pointed_type h ty)) AND quals) AND newquals \<noteq> 0;
          (ty, st) =
            (if copied then
               (let (s, h', n') = sym_push st (pointed_type h ty) (sym_c (h (ct_ref ty))) in
                (ty\<lparr>ct_ref := s\<rparr>,
                 h'(s := (h' s)\<lparr>sym_type := (sym_type (h' s))\<lparr>ct_t := ct_t (sym_type (h' s)) OR newquals\<rparr>\<rparr>), n'))
             else (ty, st));
          h = fst st; c1 = sym_c (h (ct_ref pt1)); c2 = sym_c (h (ct_ref pt2))
      in if ct_t pt1 AND VT_ARRAY \<noteq> 0 \<and> ct_t pt2 AND VT_ARRAY \<noteq> 0 \<and>
            sym_c (h (ct_ref (pointed_type h ty))) < 0 \<and> (c1 > 0 \<or> c2 > 0)
         then
           (let (ty, st) =
                  (if copied then (ty, st)
                   else (let (s, st') = sym_push st (pointed_type h ty) (sym_c (h (ct_ref ty)))
                         in (ty\<lparr>ct_ref := s\<rparr>, st')));
                h = fst st; p = pointed_type h ty;
                (s', h', n') = sym_push st (sym_type (h (ct_ref p))) (if 0 < c1 then c1 else c2);
                r = ct_ref ty
            in (ty, h'(r := (h' r)\<lparr>sym_type := (sym_type (h' r))\<lparr>ct_ref := s'\<rparr>\<rparr>), n'))
         else (ty, st))"

text \<open>The branch of \<open>combine_types\<close> for pointers, before the type of a comparison is set.\<close>

definition combine_pointers ::
  "nat \<Rightarrow> syms \<times> nat \<Rightarrow> svalue \<Rightarrow> svalue \<Rightarrow> comb_op \<Rightarrow> (bool \<times> ctype \<times> syms \<times> nat) option" where
  "combine_pointers d st op1 op2 oper =
     (let h = fst st; ty1 = sv_type op1; ty2 = sv_type op2;
          bt1 = ct_t ty1 AND VT_BTYPE; bt2 = ct_t ty2 AND VT_BTYPE;
          void = \<lparr>ct_t = VT_VOID, ct_ref = 0\<rparr>
      in if oper = Op_plus then
           Some (is_integer_btype (if bt1 = VT_PTR then bt2 else bt1), void, st)
         else if is_null_pointer h op2 then Some (True, ty1, st)
         else if is_null_pointer h op1 then Some (True, ty2, st)
         else if bt1 \<noteq> bt2 then
           Some ((oper = Op_cond \<or> oper = CMP_OP) \<and> (is_integer_btype bt1 \<or> is_integer_btype bt2) \<or>
                 oper = Op_minus \<and> is_integer_btype bt2,
               (if bt1 = VT_PTR then ty1 else ty2), st)
         else
           let pt1 = pointed_type h ty1; pt2 = pointed_type h ty2;
               res = (if oper = Op_cond then combine_cond st ty1 ty2 else (void, st))
           in if ct_t pt1 AND VT_BTYPE \<noteq> VT_VOID \<and> ct_t pt2 AND VT_BTYPE \<noteq> VT_VOID then
                (case compare_types d h pt1 pt2 True of
                   None \<Rightarrow> None
                 | Some same \<Rightarrow> Some (same \<or> oper = Op_cond \<or> oper = CMP_OP, res))
              else Some (True, res))"

definition combine_types ::
  "nat \<Rightarrow> syms \<times> nat \<Rightarrow> svalue \<Rightarrow> svalue \<Rightarrow> comb_op \<Rightarrow> combine option" where
  "combine_types d st op1 op2' oper =
     (let op2 = (if oper = SHIFT_OP then op1 else op2');
          ty1 = sv_type op1; ty2 = sv_type op2; t1 = ct_t ty1; t2 = ct_t ty2;
          bt1 = t1 AND VT_BTYPE; bt2 = t2 AND VT_BTYPE
      in if bt1 = VT_VOID \<or> bt2 = VT_VOID then
           Some (if oper \<noteq> Op_cond then Combine_error
             else Combine True \<lparr>ct_t = VT_VOID, ct_ref = 0\<rparr> st)
         else if bt1 = VT_PTR \<or> bt2 = VT_PTR then
           (case combine_pointers d st op1 op2 oper of
              None \<Rightarrow> None
            | Some (ret, ty, st') \<Rightarrow>
                Some (Combine ret (if oper = CMP_OP then ty\<lparr>ct_t := VT_SIZE_T\<rparr> else ty) st'))
         else if bt1 = VT_STRUCT \<or> bt2 = VT_STRUCT \<or> bt1 = VT_VECTOR \<or> bt2 = VT_VECTOR then
           (if oper \<noteq> Op_cond then Some (Combine False ty1 st)
            else (case compare_types d (fst st) ty1 ty2 True of
                None \<Rightarrow> None
              | Some same \<Rightarrow> Some (Combine same ty1 st)))
         else if is_float bt1 \<or> is_float bt2 then
           Some (Combine True \<lparr>ct_t = combine_floats bt1 bt2, ct_ref = 0\<rparr> st)
         else if bt1 = VT_LLONG \<or> bt2 = VT_LLONG then
           Some (Combine True \<lparr>ct_t = combine_llongs t1 t2, ct_ref = 0\<rparr> st)
         else Some (Combine True \<lparr>ct_t = combine_ints t1 t2, ct_ref = 0\<rparr> st))"

section \<open>The usual arithmetic conversions\<close>

text \<open>
  C11 6.3.1.1 and 6.3.1.8 for the integer types of the target, as width and signedness
  (\<open>True\<close> for unsigned): what an operand is promoted to, and the common type of two.
\<close>

definition c_promote :: "u32 \<Rightarrow> nat \<times> bool" where
  "c_promote t =
     (let bt = t AND VT_BTYPE; u = (t AND VT_UNSIGNED \<noteq> 0) in
      if bt = VT_LLONG then (64, u)
      else if bt = VT_INT then (32, u \<and> (t AND VT_BITFIELD = 0 \<or> BIT_SIZE t = 32))
      else (32, False))"

fun c_common :: "nat \<times> bool \<Rightarrow> nat \<times> bool \<Rightarrow> nat \<times> bool" where
  "c_common (w1, u1) (w2, u2) =
     (if w1 = w2 then (w1, u1 \<or> u2) else if w1 > w2 then (w1, u1) else (w2, u2))"

lemma and_single: "(t::'a::len word) AND push_bit n 1 = (if bit t n then push_bit n 1 else 0)"
  by (rule bit_word_eqI) (auto simp: bit_simps)

lemma and_16_cases: "(t::u32) AND 16 = 0 \<or> t AND 16 = 16"
  using and_single [of t 4] by (simp split: if_splits)

lemma unsigned_bits:
  assumes "k = 3 \<or> k = 4"
  shows "(t::u32) AND 31 = k + 16 \<longleftrightarrow> t AND 15 = k \<and> t AND 16 \<noteq> 0"
proof -
  have *: "t AND 31 = (t AND 15) OR (t AND 16)"
    using bit.conj_disj_distrib [of t 15 16] by simp
  have "(t AND 31) AND 15 = t AND 15" "(t AND 31) AND 16 = t AND 16"
    by (simp_all add: and.assoc)
  then show ?thesis using and_16_cases [of t] assms * by auto
qed

lemma llong_bits: "((2052::u32) AND t) AND 15 = (t AND 15) AND 4" "((2052::u32) AND t) AND 16 = 0"
  by (simp_all add: and.assoc and.commute [of 2052])

lemma combine_llongs_bits:
  assumes "t1 AND VT_BTYPE = VT_LLONG \<or> t2 AND VT_BTYPE = VT_LLONG"
  shows "combine_llongs t1 t2 AND VT_BTYPE = VT_LLONG"
    and "combine_llongs t1 t2 AND VT_UNSIGNED \<noteq> 0 \<longleftrightarrow>
      t1 AND VT_BTYPE = VT_LLONG \<and> t1 AND VT_UNSIGNED \<noteq> 0 \<or>
      t2 AND VT_BTYPE = VT_LLONG \<and> t2 AND VT_UNSIGNED \<noteq> 0"
proof -
  define x where "x = (let t = VT_LLONG OR VT_LONG;
          t = (if t1 AND VT_BTYPE = VT_LLONG then t AND t1 else t)
      in (if t2 AND VT_BTYPE = VT_LLONG then t AND t2 else t))"
  have x: "x AND 15 = 4 \<and> x AND 16 = 0"
  proof -
    have *: "(t1 AND t2) AND 15 = (t1 AND 15) AND (t2 AND 15)"
      by (rule bit_word_eqI) (auto simp: bit_simps)
    have "((2052 AND t1) AND t2) AND 15 = ((t1 AND 15) AND (t2 AND 15)) AND 4"
      "((2052 AND t1) AND t2) AND 16 = 0"
      using llong_bits [of "t1 AND t2"] unfolding and.assoc [of 2052, symmetric] * by simp_all
    then show ?thesis using assms by (auto simp: x_def Let_def llong_bits)
  qed
  have r: "combine_llongs t1 t2 = (if t1 AND 31 = 20 \<or> t2 AND 31 = 20 then x OR 16 else x)"
    by (simp add: combine_llongs_def x_def Let_def)
  show "combine_llongs t1 t2 AND VT_BTYPE = VT_LLONG"
    unfolding r using x by (simp add: bit.conj_disj_distrib2)
  show "combine_llongs t1 t2 AND VT_UNSIGNED \<noteq> 0 \<longleftrightarrow>
      t1 AND VT_BTYPE = VT_LLONG \<and> t1 AND VT_UNSIGNED \<noteq> 0 \<or>
      t2 AND VT_BTYPE = VT_LLONG \<and> t2 AND VT_UNSIGNED \<noteq> 0"
    unfolding r using x unsigned_bits [of 4 t1] unsigned_bits [of 4 t2] by (simp add: bit.conj_disj_distrib2)
qed

lemma combine_ints_bits:
  shows "combine_ints t1 t2 AND VT_BTYPE = VT_INT"
    and "combine_ints t1 t2 AND VT_UNSIGNED \<noteq> 0 \<longleftrightarrow>
      t1 AND VT_BTYPE = VT_INT \<and> t1 AND VT_UNSIGNED \<noteq> 0 \<and> (t1 AND VT_BITFIELD = 0 \<or> BIT_SIZE t1 = 32) \<or>
      t2 AND VT_BTYPE = VT_INT \<and> t2 AND VT_UNSIGNED \<noteq> 0 \<and> (t2 AND VT_BITFIELD = 0 \<or> BIT_SIZE t2 = 32)"
proof -
  define x :: u32 where "x = 3 OR (2048 AND (t1 OR t2))"
  have x: "x AND 15 = 3 \<and> x AND 16 = 0"
    by (simp add: x_def bit.conj_disj_distrib2 bit.conj_disj_distrib and.assoc and.commute [of 2048])
  have r: "combine_ints t1 t2 = (if t1 AND 31 = 19 \<and> (t1 AND 128 = 0 \<or> BIT_SIZE t1 = 32) \<or>
      t2 AND 31 = 19 \<and> (t2 AND 128 = 0 \<or> BIT_SIZE t2 = 32) then x OR 16 else x)"
    by (auto simp: combine_ints_def x_def Let_def)
  show "combine_ints t1 t2 AND VT_BTYPE = VT_INT"
    unfolding r using x by (simp add: bit.conj_disj_distrib2)
  show "combine_ints t1 t2 AND VT_UNSIGNED \<noteq> 0 \<longleftrightarrow>
      t1 AND VT_BTYPE = VT_INT \<and> t1 AND VT_UNSIGNED \<noteq> 0 \<and> (t1 AND VT_BITFIELD = 0 \<or> BIT_SIZE t1 = 32) \<or>
      t2 AND VT_BTYPE = VT_INT \<and> t2 AND VT_UNSIGNED \<noteq> 0 \<and> (t2 AND VT_BITFIELD = 0 \<or> BIT_SIZE t2 = 32)"
    unfolding r using x unsigned_bits [of 3 t1] unsigned_bits [of 3 t2] by (auto simp: bit.conj_disj_distrib2)
qed

lemma integer_btypeD:
  assumes "is_integer_btype bt"
  shows "bt \<noteq> VT_VOID" "bt \<noteq> VT_PTR" "bt \<noteq> VT_STRUCT" "bt \<noteq> VT_VECTOR" "\<not> is_float bt"
  using assms by (auto simp: is_integer_btype_def is_float_def Let_def)

lemma combine_types_integer_flags:
  assumes "is_integer_btype (ct_t (sv_type v1) AND VT_BTYPE)" "is_integer_btype (ct_t (sv_type w) AND VT_BTYPE)"
    and "w = (if oper = SHIFT_OP then v1 else v2)"
  shows "combine_types d st v1 v2 oper = Some (Combine True
    \<lparr>ct_t = (let t1 = ct_t (sv_type v1); t2 = ct_t (sv_type w) in
        if t1 AND VT_BTYPE = VT_LLONG \<or> t2 AND VT_BTYPE = VT_LLONG then combine_llongs t1 t2 else combine_ints t1 t2),
     ct_ref = 0\<rparr> st)"
  unfolding combine_types_def Let_def assms(3) [symmetric]
  by (simp add: integer_btypeD [OF assms(1)] integer_btypeD [OF assms(2)])

text \<open>For operands of integer types \<open>combine_types\<close> gives the common type of the usual
  arithmetic conversions, and for a shift the promoted type of the left operand.\<close>

lemma combine_types_integers:
  assumes "is_integer_btype (ct_t (sv_type v1) AND VT_BTYPE)" "is_integer_btype (ct_t (sv_type v2) AND VT_BTYPE)"
  shows "\<exists>ty. combine_types d st v1 v2 oper = Some (Combine True ty st) \<and>
    c_promote (ct_t ty) = (let p1 = c_promote (ct_t (sv_type v1)) in
      if oper = SHIFT_OP then p1 else c_common p1 (c_promote (ct_t (sv_type v2))))"
proof -
  have bf: "x AND VT_BITFIELD = 0" if "x = combine_ints t1 t2" for x t1 t2
    unfolding that by (simp add: combine_ints_def Let_def bit.conj_disj_distrib2 bit.conj_disj_distrib and.assoc and.commute [of 2048])
  have main: "\<exists>ty. combine_types d st v1 v2 oper = Some (Combine True ty st) \<and>
      c_promote (ct_t ty) = c_common (c_promote (ct_t (sv_type v1))) (c_promote (ct_t (sv_type w)))"
    if w: "w = (if oper = SHIFT_OP then v1 else v2)" "is_integer_btype (ct_t (sv_type w) AND VT_BTYPE)" for w
  proof (cases "ct_t (sv_type v1) AND VT_BTYPE = VT_LLONG \<or> ct_t (sv_type w) AND VT_BTYPE = VT_LLONG")
    case True
    then show ?thesis
      using combine_llongs_bits [OF True] combine_types_integer_flags [OF assms(1) w(2,1), of d st]
      by (auto simp: c_promote_def Let_def)
  next
    case False
    then show ?thesis
      using combine_ints_bits [of "ct_t (sv_type v1)" "ct_t (sv_type w)"] bf [OF refl]
        combine_types_integer_flags [OF assms(1) w(2,1), of d st]
      by (auto simp: c_promote_def Let_def)
  qed
  show ?thesis
  proof (cases "oper = SHIFT_OP")
    case True
    then show ?thesis using main [of v1] assms(1) by (cases "c_promote (ct_t (sv_type v1))") auto
  next
    case False
    then show ?thesis using main [of v2] assms(2) by auto
  qed
qed

text \<open>On well-formed types \<open>compare_types\<close> ends (the type graph has no cycle it could run
  into), does not depend on the order of the types, and holds for a type and itself.\<close>

lemma compare_types_returns:
  assumes "ty_ok d h a" "ty_ok d h b"
  shows "\<exists>r. compare_types d h a b u = Some r \<and> compare_types d h b a u = Some r \<and>
    compare_types d h a a u = Some True"
  using compare_types_total(1) [OF assms, of u] compare_types_sym(1) [of d h a b u]
    compare_types_refl(1) [OF assms(1), of u] by auto

section \<open>Examples\<close>

text \<open>Symbols 1 and 2 stand for arrays of three \<open>int\<close>.\<close>

definition ex_syms :: syms where
  "ex_syms = (\<lambda>i. \<lparr>sym_c = 3, sym_r = 0, sym_type = \<lparr>ct_t = VT_INT, ct_ref = 0\<rparr>, sym_next = 0,
     sym_call = 0, sym_ftype = 0\<rparr>)"

definition ex_array :: "nat \<Rightarrow> ctype" where
  "ex_array i = \<lparr>ct_t = VT_PTR OR VT_ARRAY, ct_ref = i\<rparr>"

lemma ex_array_ok: "ty_ok (Suc (Suc 0)) ex_syms (ex_array i)"
  "type_size (Suc (Suc 0)) ex_syms (ex_array i) = Some (12, 4)"
  "compare_types (Suc (Suc 0)) ex_syms (ex_array i) (ex_array j) u = Some True"
  by (simp_all add: ex_syms_def ex_array_def IS_ENUM_def strip_enum_def types_differ_def cmp_pair_def
      cmp_flags_def pointed_type_def is_integer_btype_def Let_def c_int)

text \<open>Two arrays of three \<open>int\<close>, at different places: compared as the same type, and of the same size and alignment.\<close>

theorem compatible_same_size_witness:
  "compare_types (Suc (Suc 0)) ex_syms (ex_array 1) (ex_array 2) False = Some True \<and>
   (\<exists>sz al. type_size (Suc (Suc 0)) ex_syms (ex_array 1) = Some (sz, al) \<and>
      type_size (Suc (Suc 0)) ex_syms (ex_array 2) = Some (sz, al) \<and> (sz, al) = (12, 4))"
proof -
  obtain sb lb where b: "type_size (Suc (Suc 0)) ex_syms (ex_array 2) = Some (sb, lb)" "0 \<le> sb"
    using ex_array_ok(2) [of 2] by simp
  have "12 = sb \<and> 4 = lb"
    by (rule compatible_same_size [OF ex_array_ok(1) [of 1] ex_array_ok(1) [of 2] ex_array_ok(3) [of 1 2 False] ex_array_ok(2) b(1) _ b(2)])
      simp
  then show ?thesis using b(1) ex_array_ok(2) [of 1] ex_array_ok(3) [of 1 2 False] by simp
qed

lemma compare_types_returns_witness:
  "\<exists>r. compare_types (Suc (Suc 0)) ex_syms (ex_array 1) (ex_array 2) False = Some r"
  using compare_types_returns [OF ex_array_ok(1) [of 1] ex_array_ok(1) [of 2], of False] by blast

text \<open>An \<open>int\<close> and an \<open>unsigned int\<close> combine to an \<open>unsigned int\<close>.\<close>

lemma combine_types_integers_witness:
  "\<exists>ty. combine_types 0 (ex_syms, 3)
      \<lparr>sv_type = \<lparr>ct_t = VT_INT, ct_ref = 0\<rparr>, sv_r = VT_CONST, sv_i = 1\<rparr>
      \<lparr>sv_type = \<lparr>ct_t = VT_INT OR VT_UNSIGNED, ct_ref = 0\<rparr>, sv_r = VT_CONST, sv_i = 1\<rparr> Op_plus =
        Some (Combine True ty (ex_syms, 3)) \<and> c_promote (ct_t ty) = (32, True)"
  using combine_types_integers
    [of "\<lparr>sv_type = \<lparr>ct_t = 3, ct_ref = 0\<rparr>, sv_r = 0x30, sv_i = 1\<rparr>"
        "\<lparr>sv_type = \<lparr>ct_t = 0x13, ct_ref = 0\<rparr>, sv_r = 0x30, sv_i = 1\<rparr>" 0 "(ex_syms, 3)" Op_plus]
  by (simp add: is_integer_btype_def c_promote_def)

end
