(* ===== verification/Const_Fold.thy ===== *)
theory Const_Fold
  imports C_Types "HOL-Library.Signed_Division"
begin

text \<open>
  Constant folding and algebraic simplification of integer operations (\<open>gen_opic\<close> in
  \<open>tccgen.c\<close>), casts of integer constants (\<open>gen_cast\<close>) and the choice of the operation by
  \<open>gen_op\<close>. Constants are kept in 64 bits whatever their type; \<open>ival\<close> is the number that a
  constant stands for in its type. The back ends that emit code are not part of the model: what
  is left for them is the value \<open>Opic_emit\<close>.
\<close>

section \<open>Folding\<close>

text \<open>Binary operator tokens; \<open>Tok_other\<close> for those \<open>gen_opic\<close> leaves to the back end.\<close>

datatype tok_op =
    Tok_plus | Tok_minus | Tok_and | Tok_xor | Tok_or | Tok_mul | Tok_div | Tok_mod
  | TOK_PDIV | TOK_UDIV | TOK_UMOD | TOK_SHL | TOK_SHR | TOK_SAR
  | TOK_ULT | TOK_UGE | TOK_EQ | TOK_NE | TOK_ULE | TOK_UGT | TOK_LT | TOK_GE | TOK_LE | TOK_GT
  | TOK_LAND | TOK_LOR | Tok_other nat

definition value64 :: "u64 \<Rightarrow> u32 \<Rightarrow> u64" where
  "value64 l1 t =
     (if t AND VT_BTYPE = VT_LLONG \<or> t AND VT_BTYPE = VT_PTR then l1
      else if t AND VT_UNSIGNED \<noteq> 0 then ucast (ucast l1 :: u32)
      else ucast (ucast l1 :: u32) OR (- (l1 AND 0x80000000)))"

definition gen_opic_sdiv :: "u64 \<Rightarrow> u64 \<Rightarrow> u64" where
  "gen_opic_sdiv a b =
     (let x = (if drop_bit 63 a \<noteq> 0 then - a else a) div (if drop_bit 63 b \<noteq> 0 then - b else b)
      in if drop_bit 63 (a XOR b) \<noteq> 0 then - x else x)"

definition gen_opic_lt :: "u64 \<Rightarrow> u64 \<Rightarrow> bool" where
  "gen_opic_lt a b \<longleftrightarrow> (a XOR push_bit 63 1) < (b XOR push_bit 63 1)"

text \<open>The \<open>switch\<close> for two constants: a value, a division by zero, or nothing.\<close>

datatype fold_result = Fold u64 | Fold_div_zero | Fold_general

definition opic_fold :: "tok_op \<Rightarrow> u64 \<Rightarrow> u64 \<Rightarrow> u64 \<Rightarrow> fold_result" where
  "opic_fold op l1 l2 shm =
     (let division = (\<lambda>r. if l2 = 0 then Fold_div_zero else Fold r);
          n = unat (l2 AND shm)
      in case op of
          Tok_plus \<Rightarrow> Fold (l1 + l2)
        | Tok_minus \<Rightarrow> Fold (l1 - l2)
        | Tok_and \<Rightarrow> Fold (l1 AND l2)
        | Tok_xor \<Rightarrow> Fold (l1 XOR l2)
        | Tok_or \<Rightarrow> Fold (l1 OR l2)
        | Tok_mul \<Rightarrow> Fold (l1 * l2)
        | TOK_PDIV \<Rightarrow> division (gen_opic_sdiv l1 l2)
        | Tok_div \<Rightarrow> division (gen_opic_sdiv l1 l2)
        | Tok_mod \<Rightarrow> division (l1 - l2 * gen_opic_sdiv l1 l2)
        | TOK_UDIV \<Rightarrow> division (l1 div l2)
        | TOK_UMOD \<Rightarrow> division (l1 mod l2)
        | TOK_SHL \<Rightarrow> Fold (push_bit n l1)
        | TOK_SHR \<Rightarrow> Fold (drop_bit n l1)
        | TOK_SAR \<Rightarrow> Fold (if drop_bit 63 l1 \<noteq> 0 then NOT (drop_bit n (NOT l1)) else drop_bit n l1)
        | TOK_ULT \<Rightarrow> Fold (of_bool (l1 < l2))
        | TOK_UGE \<Rightarrow> Fold (of_bool (l1 \<ge> l2))
        | TOK_EQ \<Rightarrow> Fold (of_bool (l1 = l2))
        | TOK_NE \<Rightarrow> Fold (of_bool (l1 \<noteq> l2))
        | TOK_ULE \<Rightarrow> Fold (of_bool (l1 \<le> l2))
        | TOK_UGT \<Rightarrow> Fold (of_bool (l1 > l2))
        | TOK_LT \<Rightarrow> Fold (of_bool (gen_opic_lt l1 l2))
        | TOK_GE \<Rightarrow> Fold (of_bool (\<not> gen_opic_lt l1 l2))
        | TOK_LE \<Rightarrow> Fold (of_bool (\<not> gen_opic_lt l2 l1))
        | TOK_GT \<Rightarrow> Fold (of_bool (gen_opic_lt l2 l1))
        | TOK_LAND \<Rightarrow> Fold (of_bool (l1 \<noteq> 0 \<and> l2 \<noteq> 0))
        | TOK_LOR \<Rightarrow> Fold (of_bool (l1 \<noteq> 0 \<or> l2 \<noteq> 0))
        | Tok_other _ \<Rightarrow> Fold_general)"

text \<open>The loop that counts the shifts for a power of two: \<open>while (l2) { l2 >>= 1; n++; }\<close>.\<close>

function shift_count :: "u64 \<Rightarrow> int \<Rightarrow> int" where
  "shift_count l n = (if l = 0 then n else shift_count (drop_bit 1 l) (n + 1))"
  by auto

termination
proof (relation "measure (\<lambda>(l, _). unat l)")
  fix l :: u64 and n :: int
  assume "l \<noteq> 0"
  then have "unat l \<noteq> 0" by (simp add: unat_eq_0)
  then show "((drop_bit 1 l, n + 1), (l, n)) \<in> measure (\<lambda>(l, _). unat l)"
    by (simp add: drop_bit_eq_div unat_div_distrib)
qed simp

declare shift_count.simps [simp del]

section \<open>Simplification\<close>

text \<open>
  What \<open>gen_opic\<close> leaves: an error, one value on the stack, or two operands and an operation
  for the back end (\<open>gen_opl\<close> if the flag is set, \<open>gen_opi\<close> otherwise).
\<close>

datatype opic = Opic_error | Opic_value svalue | Opic_emit bool tok_op svalue svalue

definition is_const :: "svalue \<Rightarrow> bool" where
  "is_const v \<longleftrightarrow> sv_r v AND (VT_VALMASK OR VT_LVAL OR VT_SYM) = VT_CONST"

definition sv_bt :: "svalue \<Rightarrow> u32" where
  "sv_bt v = ct_t (sv_type v) AND VT_BTYPE"

text \<open>A constant that is one only by optimisation is marked.\<close>

definition mark_nonconst :: "svalue \<Rightarrow> svalue" where
  "mark_nonconst v = (if sv_r v = VT_CONST then v\<lparr>sv_r := VT_CONST OR VT_NONCONST\<rparr> else v)"

definition opic_general :: "tok_op \<Rightarrow> svalue \<Rightarrow> svalue \<Rightarrow> opic" where
  "opic_general op a b =
     Opic_emit (sv_bt a = VT_LLONG \<or> sv_bt b = VT_LLONG \<or> sv_bt a = VT_PTR \<or> sv_bt b = VT_PTR) op a b"

text \<open>
  The cases for a constant second operand \<open>b\<close> with value \<open>l2\<close> (\<open>t2\<close> is the type the second
  operand had before operands were exchanged).
\<close>

definition opic_absorbs :: "tok_op \<Rightarrow> u64 \<Rightarrow> u32 \<Rightarrow> bool" where
  "opic_absorbs op l2 t2 \<longleftrightarrow>
     l2 = 0 \<and> (op = Tok_and \<or> op = Tok_mul) \<or>
     op = Tok_or \<and> (l2 = - 1 \<or> l2 = 0xFFFFFFFF \<and> t2 \<noteq> VT_LLONG) \<or>
     l2 = 1 \<and> (op = Tok_mod \<or> op = TOK_UMOD)"

definition opic_neutral :: "tok_op \<Rightarrow> u64 \<Rightarrow> u32 \<Rightarrow> bool" where
  "opic_neutral op l2 t2 \<longleftrightarrow>
     (op = Tok_mul \<or> op = Tok_div \<or> op = TOK_UDIV \<or> op = TOK_PDIV) \<and> l2 = 1 \<or>
     (op = Tok_plus \<or> op = Tok_minus \<or> op = Tok_or \<or> op = Tok_xor \<or> op = TOK_SHL \<or> op = TOK_SHR \<or>
        op = TOK_SAR) \<and> l2 = 0 \<or>
     op = Tok_and \<and> (l2 = - 1 \<or> l2 = 0xFFFFFFFF \<and> t2 \<noteq> VT_LLONG)"

definition opic_power2 :: "tok_op \<Rightarrow> svalue \<Rightarrow> svalue \<Rightarrow> u64 \<Rightarrow> opic" where
  "opic_power2 op a b l2 =
     (if l2 > 0 \<and> l2 AND (l2 - 1) = 0 then
        if op = TOK_UMOD then opic_general Tok_and a (b\<lparr>sv_i := l2 - 1\<rparr>)
        else opic_general
               (if op = Tok_mul then TOK_SHL else if op = TOK_PDIV then TOK_SAR else TOK_SHR)
               a (b\<lparr>sv_i := word_of_int (shift_count l2 (- 1))\<rparr>)
      else opic_general op a b)"

definition opic_address :: "tok_op \<Rightarrow> svalue \<Rightarrow> svalue \<Rightarrow> u64 \<Rightarrow> opic" where
  "opic_address op a b l2 =
     (let l = (if op = Tok_minus then - l2 else l2) + sv_i a in
      if scast (ucast l :: u32) \<noteq> l then opic_general op a b
      else Opic_value (mark_nonconst (a\<lparr>sv_i := l\<rparr>)))"

definition opic_commutes :: "tok_op \<Rightarrow> bool" where
  "opic_commutes op \<longleftrightarrow> op = Tok_plus \<or> op = Tok_and \<or> op = Tok_xor \<or> op = Tok_or \<or> op = Tok_mul \<or>
     op = TOK_EQ \<or> op = TOK_NE"

definition opic_simplify :: "tok_op \<Rightarrow> svalue \<Rightarrow> svalue \<Rightarrow> bool \<Rightarrow> u64 \<Rightarrow> u32 \<Rightarrow> opic" where
  "opic_simplify op a b c2 l2 t2 =
     (if c2 \<and> opic_absorbs op l2 t2 then
        Opic_value (mark_nonconst (if l2 = 1 then b\<lparr>sv_i := 0\<rparr> else b))
      else if c2 \<and> opic_neutral op l2 t2 then Opic_value (mark_nonconst a)
      else if c2 \<and> (op = Tok_mul \<or> op = TOK_PDIV \<or> op = TOK_UDIV \<or> op = TOK_UMOD) then
        opic_power2 op a b l2
      else if c2 \<and> (op = Tok_plus \<or> op = Tok_minus) \<and>
          (sv_r a AND (VT_VALMASK OR VT_LVAL OR VT_SYM) = VT_CONST OR VT_SYM \<or>
           sv_r a AND (VT_VALMASK OR VT_LVAL OR VT_SYM) = VT_LOCAL) then
        opic_address op a b l2
      else opic_general op a b)"

text \<open>
  \<open>gen_opic\<close>; \<open>strict\<close> says that a constant expression is wanted and evaluated
  (\<open>CONST_WANTED && !NOEVAL_WANTED\<close>).
\<close>

definition gen_opic :: "bool \<Rightarrow> tok_op \<Rightarrow> svalue \<Rightarrow> svalue \<Rightarrow> opic" where
  "gen_opic strict op v1 v2 =
     (let t1 = sv_bt v1; t2 = sv_bt v2; c1 = is_const v1; c2 = is_const v2;
          l1 = (if c1 then value64 (sv_i v1) (ct_t (sv_type v1)) else 0);
          l2 = (if c2 then value64 (sv_i v2) (ct_t (sv_type v2)) else 0);
          shm = (if t1 = VT_LLONG then 63 else 31)
      in if c1 \<and> c2 then
           (case opic_fold op l1 l2 shm of
              Fold r \<Rightarrow> Opic_value (v1\<lparr>sv_i := value64 r (ct_t (sv_type v1)),
                  sv_r := sv_r v1 OR (sv_r v2 AND VT_NONCONST)\<rparr>)
            | Fold_div_zero \<Rightarrow> if strict then Opic_error else opic_general op v1 v2
            | Fold_general \<Rightarrow> opic_general op v1 v2)
         else if c1 \<and> opic_commutes op then opic_simplify op v2 v1 c1 l1 t2
         else if c1 \<and> (l1 = 0 \<and> (op = TOK_SHL \<or> op = TOK_SHR \<or> op = TOK_SAR) \<or> l1 = - 1 \<and> op = TOK_SAR)
           then Opic_value (mark_nonconst v1)
         else opic_simplify op v1 v2 c2 l2 t2)"

section \<open>Casts of integer constants\<close>

text \<open>
  \<open>gen_cast\<close> of a constant of an integer or pointer type to one: the value is extended from
  its type and cut to the new one.
\<close>

definition cast_extend :: "u32 \<Rightarrow> u64 \<Rightarrow> u64" where
  "cast_extend sbt i =
     (if sbt AND VT_BTYPE = VT_LLONG \<or> sbt = VT_PTR then i
      else if sbt AND VT_UNSIGNED \<noteq> 0 then ucast (ucast i :: u32)
      else ucast (ucast i :: u32) OR (- (i AND 0x80000000)))"

definition cast_narrow :: "u32 \<Rightarrow> u64 \<Rightarrow> u64" where
  "cast_narrow dbt i =
     (if dbt AND VT_BTYPE = VT_LLONG \<or> dbt = VT_PTR then i
      else if dbt = VT_BOOL then of_bool (i \<noteq> 0)
      else
        let m = (if dbt AND VT_BTYPE = VT_BYTE then 0xff
                 else if dbt AND VT_BTYPE = VT_SHORT then 0xffff else 0xffffffff);
            r = i AND m
        in if dbt AND VT_UNSIGNED = 0 then r OR (- (r AND (drop_bit 1 m + 1))) else r)"

definition gen_cast_const :: "ctype \<Rightarrow> svalue \<Rightarrow> svalue" where
  "gen_cast_const ty v =
     (let dbt = ct_t ty AND (VT_BTYPE OR VT_UNSIGNED);
          sbt = ct_t (sv_type v) AND (VT_BTYPE OR VT_UNSIGNED)
      in v\<lparr>sv_i := (if sbt \<noteq> dbt then cast_narrow dbt (cast_extend sbt (sv_i v)) else sv_i v),
           sv_type := ty\<lparr>ct_t := ct_t ty AND NOT (VT_CONSTANT OR VT_VOLATILE OR VT_ARRAY OR VT_TLS)\<rparr>\<rparr>)"

section \<open>The operation of the source\<close>

definition op_class :: "tok_op \<Rightarrow> comb_op" where
  "op_class op =
     (if op = TOK_SHR \<or> op = TOK_SAR \<or> op = TOK_SHL then SHIFT_OP
      else if op \<in> {TOK_LAND, TOK_LOR, TOK_ULT, TOK_UGE, TOK_EQ, TOK_NE, TOK_ULE, TOK_UGT, TOK_LT, TOK_GE, TOK_LE, TOK_GT}
        then CMP_OP
      else if op = Tok_plus then Op_plus else if op = Tok_minus then Op_minus else Op_arith)"

definition unsigned_op :: "tok_op \<Rightarrow> tok_op" where
  "unsigned_op op =
     (case op of TOK_SAR \<Rightarrow> TOK_SHR | Tok_div \<Rightarrow> TOK_UDIV | Tok_mod \<Rightarrow> TOK_UMOD | TOK_LT \<Rightarrow> TOK_ULT
      | TOK_GT \<Rightarrow> TOK_UGT | TOK_LE \<Rightarrow> TOK_ULE | TOK_GE \<Rightarrow> TOK_UGE | _ \<Rightarrow> op)"

text \<open>
  \<open>gen_op\<close> for two constants of integer types (its branch \<open>std_op\<close>). \<open>None\<close> if the result is
  no constant.
\<close>

definition gen_op_const :: "syms \<times> nat \<Rightarrow> tok_op \<Rightarrow> svalue \<Rightarrow> svalue \<Rightarrow> svalue option" where
  "gen_op_const st op v1 v2 =
     (case combine_types 0 st v1 v2 (op_class op) of
        Some (Combine True comb _) \<Rightarrow>
          let t = ct_t comb;
              t2 = (if op_class op = SHIFT_OP then VT_INT else t);
              op' = (if t AND VT_UNSIGNED \<noteq> 0 then unsigned_op op else op)
          in (case gen_opic True op' (gen_cast_const \<lparr>ct_t = t, ct_ref = 0\<rparr> v1)
                  (gen_cast_const \<lparr>ct_t = t2, ct_ref = 0\<rparr> v2) of
                Opic_value v \<Rightarrow>
                  Some (v\<lparr>sv_type := (sv_type v)\<lparr>ct_t := (if op_class op = CMP_OP then VT_INT else t)\<rparr>\<rparr>)
              | _ \<Rightarrow> None)
      | _ \<Rightarrow> None)"

section \<open>What constants stand for\<close>

text \<open>
  The integer types of operations, as width and signedness, the value of type \<open>p\<close> that a
  number is reduced to, and the value a constant with bits \<open>i\<close> has in type \<open>t\<close>.
\<close>

definition c_ity :: "u32 \<Rightarrow> nat \<times> bool" where
  "c_ity t = (if t AND VT_BTYPE = VT_LLONG \<or> t AND VT_BTYPE = VT_PTR then 64 else 32, t AND VT_UNSIGNED \<noteq> 0)"

fun int_wrap :: "nat \<times> bool \<Rightarrow> int \<Rightarrow> int" where
  "int_wrap (w, u) x = (if u then take_bit w x else signed_take_bit (w - 1) x)"

definition ival :: "u32 \<Rightarrow> u64 \<Rightarrow> int" where
  "ival t i = int_wrap (c_ity t) (uint i)"

lemma int_wrap_cong:
  assumes "0 < w" "take_bit w x = take_bit w y"
  shows "int_wrap (w, u) x = int_wrap (w, u) y"
  using assms signed_take_bit_eq_iff_take_bit_eq [of "w - 1" x y] by simp

lemma take_bit_int_wrap [simp]: "take_bit w (int_wrap (w, u) x) = take_bit w x"
proof (cases w)
  case (Suc n)
  have "take_bit (Suc n) (signed_take_bit n x) = take_bit (Suc n) x"
    by (rule take_bit_signed_take_bit) simp
  then show ?thesis using Suc by simp
qed simp

lemma int_wrap_idem [simp]: "0 < w \<Longrightarrow> int_wrap (w, u) (int_wrap (w, u) x) = int_wrap (w, u) x"
  by (rule int_wrap_cong) (simp_all only: take_bit_int_wrap)

lemma sext_or:
  "take_bit (Suc n) (l::u64) OR (- (l AND push_bit n 1)) = signed_take_bit n l"
proof -
  have *: "bit (2 ^ n - 1 :: u64) k \<longleftrightarrow> k < 64 \<and> k < n" for k
    unfolding mask_eq_exp_minus_1 [symmetric] bit_mask_iff by simp
  show ?thesis
    unfolding and_single
    by (rule bit_word_eqI) (auto simp: * bit_simps min_def not_less less_Suc_eq_le le_Suc_eq)
qed

lemma sext32: "(ucast (ucast (l::u64) :: u32) :: u64) OR (- (l AND 0x80000000)) = signed_take_bit 31 l"
proof -
  have "(ucast (ucast l :: u32) :: u64) = take_bit (Suc 31) l"
    by (rule bit_word_eqI) (auto simp: bit_simps)
  then show ?thesis using sext_or [of 31 l] by simp
qed

lemma c_ity_cases:
  obtains (wide) "t AND VT_BTYPE = VT_LLONG \<or> t AND VT_BTYPE = VT_PTR" "c_ity t = (64, t AND VT_UNSIGNED \<noteq> 0)"
  | (narrow) "\<not> (t AND VT_BTYPE = VT_LLONG \<or> t AND VT_BTYPE = VT_PTR)" "c_ity t = (32, t AND VT_UNSIGNED \<noteq> 0)"
  by (auto simp: c_ity_def)

lemma uint_take_bit_64: "take_bit 64 (uint (l::u64)) = uint l"
  by (rule take_bit_int_eq_self) (use uint_lt2p [of l] in simp_all)

lemma value64_val:
  shows "t AND VT_UNSIGNED \<noteq> 0 \<Longrightarrow> uint (value64 l t) = ival t l"
    and "t AND VT_UNSIGNED = 0 \<Longrightarrow> sint (value64 l t) = ival t l"
proof -
  show "uint (value64 l t) = ival t l" if "t AND VT_UNSIGNED \<noteq> 0"
    using that by (cases rule: c_ity_cases [of t])
      (simp_all add: value64_def ival_def unsigned_ucast_eq uint_take_bit_64 unsigned_take_bit_eq)
  show "sint (value64 l t) = ival t l" if "t AND VT_UNSIGNED = 0"
  proof (cases rule: c_ity_cases [of t])
    case wide
    then show ?thesis using that by (simp add: value64_def ival_def sint_eq)
  next
    case narrow
    have "sint (signed_take_bit 31 l) = signed_take_bit 31 (uint l)"
      by (rule bit_eqI) (auto simp: bit_simps min_def sint_uint)
    then show ?thesis using that narrow by (simp add: value64_def ival_def sext32)
  qed
qed

lemma word_of_sint: "word_of_int (sint (x::u64)) = x"
  by simp

text \<open>A constant in the form \<open>value64\<close> gives it is its number, reduced to 64 bits.\<close>

lemma value64_of_int: "value64 i t = word_of_int (ival t i)"
proof (cases "t AND VT_UNSIGNED = 0")
  case True
  then show ?thesis using word_of_sint [of "value64 i t"] value64_val(2) [of t i] by simp
next
  case False
  then show ?thesis using word_of_int_uint [of "value64 i t"] value64_val(1) [of t i] by simp
qed

lemma ival_of_int: "ival t (word_of_int k) = int_wrap (c_ity t) k"
proof -
  have "take_bit (fst (c_ity t)) (take_bit 64 k) = take_bit (fst (c_ity t)) k"
    by (cases rule: c_ity_cases [of t]) simp_all
  moreover have "0 < fst (c_ity t)" by (simp add: c_ity_def)
  ultimately show ?thesis
    using int_wrap_cong [of "fst (c_ity t)" "take_bit 64 k" k "snd (c_ity t)"]
    by (simp add: ival_def unsigned_of_int)
qed

lemma ival_value64 [simp]: "ival t (value64 i t) = ival t i"
  unfolding value64_of_int ival_of_int unfolding ival_def
  by (cases rule: c_ity_cases [of t]) (simp_all del: int_wrap.simps)

lemma ival_range:
  shows "t AND VT_UNSIGNED \<noteq> 0 \<Longrightarrow> 0 \<le> ival t i \<and> ival t i < 2 ^ fst (c_ity t)"
    and "t AND VT_UNSIGNED = 0 \<Longrightarrow> - (2 ^ (fst (c_ity t) - 1)) \<le> ival t i \<and> ival t i < 2 ^ (fst (c_ity t) - 1)"
proof -
  obtain w where w: "c_ity t = (w, t AND VT_UNSIGNED \<noteq> 0)" by (simp add: c_ity_def)
  show "0 \<le> ival t i \<and> ival t i < 2 ^ fst (c_ity t)" if "t AND VT_UNSIGNED \<noteq> 0"
    using that by (simp add: ival_def w)
  show "- (2 ^ (fst (c_ity t) - 1)) \<le> ival t i \<and> ival t i < 2 ^ (fst (c_ity t) - 1)" if "t AND VT_UNSIGNED = 0"
    using that by (simp add: ival_def w signed_take_bit_int_greater_eq_minus_exp signed_take_bit_int_less_exp)
qed

section \<open>Signed operations on 64-bit words\<close>

lemma gen_opic_sdiv_sint: "gen_opic_sdiv a b = word_of_int (sint a sdiv sint b)"
proof -
  have x: "drop_bit 63 (a XOR b) \<noteq> 0 \<longleftrightarrow> (sint a < 0) \<noteq> (sint b < 0)"
    unfolding top_bit bit_xor_iff by (simp add: bit_63)
  have d: "(if drop_bit 63 a \<noteq> 0 then - a else a) div (if drop_bit 63 b \<noteq> 0 then - b else b) =
      word_of_int (\<bar>sint a\<bar> div \<bar>sint b\<bar>)"
    unfolding word_div_def sint_abs ..
  show ?thesis
    unfolding gen_opic_sdiv_def Let_def d x
    by (auto simp: signed_divide_int_def sgn_if)
qed

lemma take_bit_flip: "take_bit n (uint ((c::u64) XOR push_bit n 1)) = take_bit n (uint c)"
  by (rule bit_eqI) (auto simp: bit_simps)

lemma gen_opic_lt_sint: "gen_opic_lt a b \<longleftrightarrow> sint a < sint b"
proof -
  have u: "uint (c XOR push_bit 63 1) = sint c + 2 ^ 63" for c :: u64
  proof -
    have "uint c = take_bit (Suc 63) (uint c)" using uint_take_bit_64 [of c] by simp
    then have 1: "uint c = take_bit 63 (uint c) + of_bool (bit c 63) * 2 ^ 63"
      using take_bit_Suc_from_most [of 63 "uint c"] by (simp add: bit_simps)
    let ?d = "c XOR push_bit 63 1"
    have "uint ?d = take_bit (Suc 63) (uint ?d)" using uint_take_bit_64 [of ?d] by simp
    then have 2: "uint ?d = take_bit 63 (uint ?d) + of_bool (bit ?d 63) * 2 ^ 63"
      using take_bit_Suc_from_most [of 63 "uint ?d"] by (simp add: bit_simps)
    have 3: "take_bit 63 (uint ?d) = take_bit 63 (uint c)"
      by (rule take_bit_flip)
    have 4: "bit ?d 63 = (\<not> bit c 63)" unfolding bit_xor_iff by (simp add: bit_push_bit_iff)
    have 5: "sint c = take_bit 63 (uint c) - of_bool (bit c 63) * 2 ^ 63"
      unfolding sint_eq using 1 by (simp add: signed_take_bit_eq_take_bit_minus uint_take_bit_64 bit_uint_iff)
    show ?thesis using 2 3 4 5 by auto
  qed
  show ?thesis unfolding gen_opic_lt_def word_less_def u by simp
qed

lemma sar_sint: "(if drop_bit 63 l \<noteq> 0 then NOT (drop_bit n (NOT l)) else drop_bit n l) =
    word_of_int (sint (l::u64) div 2 ^ n)"
proof -
  have "(if drop_bit 63 l \<noteq> 0 then NOT (drop_bit n (NOT l)) else drop_bit n l) = signed_drop_bit n l"
  proof (rule bit_word_eqI)
    fix k assume k: "k < LENGTH(64)"
    have "bit l (n + k) \<Longrightarrow> n + k < 64" using bit_imp_possible_bit [of l "n + k"] by simp
    then show "bit (if drop_bit 63 l \<noteq> 0 then NOT (drop_bit n (NOT l)) else drop_bit n l) k = bit (signed_drop_bit n l) k"
      using k unfolding top_bit
      by (cases "n + k < 64") (auto simp: bit_signed_drop_bit_iff bit_not_iff bit_drop_bit_eq)
  qed
  moreover have "sint (signed_drop_bit n l) = sint l div 2 ^ n"
    by (simp add: sint_signed_drop_bit_eq drop_bit_eq_div)
  ultimately show ?thesis using word_of_sint [of "signed_drop_bit n l"] by simp
qed

section \<open>Operations on numbers\<close>

text \<open>
  What an operator computes on two numbers of a type \<open>p\<close>: C's definition on integers, reduced
  to the type, and \<open>None\<close> where C leaves it undefined (a division by zero, a shift by the width
  or more) or the source does (\<open>TOK_PDIV\<close> divides pointer differences by positive sizes, without
  remainder).
\<close>

definition int_op :: "nat \<times> bool \<Rightarrow> tok_op \<Rightarrow> int \<Rightarrow> int \<Rightarrow> int option" where
  "int_op p op a b =
     (let wrap = int_wrap p in
      case op of
        Tok_plus \<Rightarrow> Some (wrap (a + b))
      | Tok_minus \<Rightarrow> Some (wrap (a - b))
      | Tok_and \<Rightarrow> Some (wrap (a AND b))
      | Tok_xor \<Rightarrow> Some (wrap (a XOR b))
      | Tok_or \<Rightarrow> Some (wrap (a OR b))
      | Tok_mul \<Rightarrow> Some (wrap (a * b))
      | Tok_div \<Rightarrow> if b = 0 then None else Some (wrap (a sdiv b))
      | TOK_UDIV \<Rightarrow> if b = 0 then None else Some (wrap (a sdiv b))
      | TOK_PDIV \<Rightarrow> if b \<le> 0 \<or> \<not> b dvd a then None else Some (wrap (a div b))
      | Tok_mod \<Rightarrow> if b = 0 then None else Some (wrap (a smod b))
      | TOK_UMOD \<Rightarrow> if b = 0 then None else Some (wrap (a smod b))
      | TOK_SHL \<Rightarrow> if 0 \<le> b \<and> b < int (fst p) then Some (wrap (a * 2 ^ nat b)) else None
      | TOK_SHR \<Rightarrow> if 0 \<le> b \<and> b < int (fst p) then Some (wrap (a div 2 ^ nat b)) else None
      | TOK_SAR \<Rightarrow> if 0 \<le> b \<and> b < int (fst p) then Some (wrap (a div 2 ^ nat b)) else None
      | TOK_ULT \<Rightarrow> Some (of_bool (a < b))
      | TOK_LT \<Rightarrow> Some (of_bool (a < b))
      | TOK_UGE \<Rightarrow> Some (of_bool (a \<ge> b))
      | TOK_GE \<Rightarrow> Some (of_bool (a \<ge> b))
      | TOK_ULE \<Rightarrow> Some (of_bool (a \<le> b))
      | TOK_LE \<Rightarrow> Some (of_bool (a \<le> b))
      | TOK_UGT \<Rightarrow> Some (of_bool (a > b))
      | TOK_GT \<Rightarrow> Some (of_bool (a > b))
      | TOK_EQ \<Rightarrow> Some (of_bool (a = b))
      | TOK_NE \<Rightarrow> Some (of_bool (a \<noteq> b))
      | TOK_LAND \<Rightarrow> Some (of_bool (a \<noteq> 0 \<and> b \<noteq> 0))
      | TOK_LOR \<Rightarrow> Some (of_bool (a \<noteq> 0 \<or> b \<noteq> 0))
      | Tok_other _ \<Rightarrow> None)"

text \<open>The operators that \<open>gen_op\<close> uses for unsigned and for signed operands.\<close>

definition op_fits :: "bool \<Rightarrow> tok_op \<Rightarrow> bool" where
  "op_fits u op \<longleftrightarrow>
     (if u then op \<notin> {Tok_div, Tok_mod, TOK_PDIV, TOK_SAR, TOK_LT, TOK_GE, TOK_LE, TOK_GT}
      else op \<notin> {TOK_UDIV, TOK_UMOD, TOK_SHR, TOK_ULT, TOK_UGE, TOK_ULE, TOK_UGT})"

definition is_shift :: "tok_op \<Rightarrow> bool" where
  "is_shift op \<longleftrightarrow> op = TOK_SHL \<or> op = TOK_SHR \<or> op = TOK_SAR"

lemma int_wrap_of_bool: "int_wrap (c_ity t) (of_bool P) = of_bool P"
  by (cases rule: c_ity_cases [of t]; cases P) (simp_all add: signed_take_bit_int_eq_self)

lemma ival_of_bool [simp]: "ival t (of_bool P) = of_bool P"
  using ival_of_int [of t "of_bool P"] int_wrap_of_bool [of t P] by (cases P) simp_all

lemma shift_amount:
  assumes "0 \<le> ival t2 i2" "ival t2 i2 < int (fst (c_ity t))"
    and "t AND VT_BTYPE = VT_INT \<or> t AND VT_BTYPE = VT_LLONG"
  shows "unat (value64 i2 t2 AND (if t AND VT_BTYPE = VT_LLONG then 63 else 31)) = nat (ival t2 i2)"
proof -
  define b where "b = ival t2 i2"
  define n where "n = (if t AND VT_BTYPE = VT_LLONG then 6 else 5 :: nat)"
  have b: "0 \<le> b" "b < 2 ^ n" using assms by (auto simp: b_def n_def c_ity_def split: if_splits)
  have n: "n \<le> 6" by (simp add: n_def)
  have m: "(if t AND VT_BTYPE = VT_LLONG then 63 else 31 :: u64) = mask n"
    by (simp add: n_def mask_eq_exp_minus_1)
  have "value64 i2 t2 AND mask n = take_bit n (word_of_int b)"
    by (simp add: value64_of_int take_bit_eq_mask b_def)
  also have "\<dots> = word_of_int (take_bit n b)"
    using n by (simp add: take_bit_of_int)
  also have "take_bit n b = b" using b by (simp add: take_bit_int_eq_self)
  finally have "value64 i2 t2 AND mask n = word_of_int b" .
  moreover have "take_bit 64 b = b"
  proof (rule take_bit_int_eq_self)
    have "(2::int) ^ n \<le> 2 ^ 6" using n by (intro power_increasing) simp_all
    then show "b < 2 ^ 64" using b by simp
  qed (use b in simp)
  ultimately show ?thesis unfolding m b_def [symmetric] by (simp add: unsigned_of_int)
qed

lemma fold_sound:
  assumes t: "t AND VT_BTYPE = VT_INT \<or> t AND VT_BTYPE = VT_LLONG"
    and fits: "op_fits (t AND VT_UNSIGNED \<noteq> 0) op"
    and t2: "\<not> is_shift op \<Longrightarrow> c_ity t2 = c_ity t"
    and r: "int_op (c_ity t) op (ival t i1) (ival t2 i2) = Some r"
  shows "\<exists>f. opic_fold op (value64 i1 t) (value64 i2 t2) (if t AND VT_BTYPE = VT_LLONG then 63 else 31) = Fold f \<and>
    ival t f = r"
proof (cases "is_shift op")
  case True
  define a b n where "a = ival t i1" and "b = ival t2 i2" and "n = nat b"
  have b: "0 \<le> b \<and> b < int (fst (c_ity t))"
    using r True by (auto simp: int_op_def is_shift_def b_def split: if_splits)
  have n: "unat (value64 i2 t2 AND (if t AND VT_BTYPE = VT_LLONG then 63 else 31)) = n"
    using shift_amount [OF _ _ t, of t2 i2] b by (simp add: b_def n_def)
  from True consider "op = TOK_SHL" | (shr) "op = TOK_SHR" | (sar) "op = TOK_SAR" by (auto simp: is_shift_def)
  then show ?thesis
  proof cases
    case 1
    have "ival t (push_bit n (value64 i1 t)) = int_wrap (c_ity t) (a * 2 ^ n)"
      using ival_of_int [of t "a * 2 ^ n"] by (simp add: value64_of_int push_bit_eq_mult a_def)
    then show ?thesis
      using r b unfolding 1 opic_fold_def Let_def n by (simp add: int_op_def Let_def ival_of_int a_def b_def n_def)
  next
    case shr
    then have u: "t AND VT_UNSIGNED \<noteq> 0" using fits by (auto simp: op_fits_def split: if_splits)
    have "drop_bit n (value64 i1 t) = word_of_int (uint (drop_bit n (value64 i1 t)))" by simp
    also have "uint (drop_bit n (value64 i1 t)) = a div 2 ^ n"
      using uint_take_bit_64 [of "value64 i1 t"] unfolding unsigned_drop_bit_eq value64_val(1) [OF u] by (simp add: drop_bit_eq_div a_def)
    finally show ?thesis
      using r b unfolding shr opic_fold_def Let_def n by (simp add: int_op_def Let_def ival_of_int a_def b_def n_def)
  next
    case sar
    then have u: "t AND VT_UNSIGNED = 0" using fits by (auto simp: op_fits_def split: if_splits)
    show ?thesis
      using r b unfolding sar opic_fold_def Let_def n sar_sint value64_val(2) [OF u]
      by (simp add: int_op_def Let_def ival_of_int a_def b_def n_def)
  qed
next
  case False
  define x y where "x = value64 i1 t" and "y = value64 i2 t2"
  define a b where "a = ival t i1" and "b = ival t2 i2"
  have b': "b = ival t i2" using t2 [OF False] by (simp add: b_def ival_def)
  then have y: "y = value64 i2 t" by (simp add: y_def value64_of_int b_def)
  have W: "x = word_of_int a" "y = word_of_int b"
    by (simp_all add: x_def y_def a_def b_def value64_of_int)
  have U: "uint x = a" "uint y = b" if "t AND VT_UNSIGNED \<noteq> 0"
    using value64_val(1) [OF that] by (simp_all add: x_def a_def y b')
  have S: "sint x = a" "sint y = b" if "t AND VT_UNSIGNED = 0"
    using value64_val(2) [OF that] by (simp_all add: x_def a_def y b')
  have EQ: "x = y \<longleftrightarrow> a = b" using U S by (metis W)
  have Z: "x = 0 \<longleftrightarrow> a = 0" "y = 0 \<longleftrightarrow> b = 0"
    using U S W by (cases "t AND VT_UNSIGNED = 0"; force)+
  have I: "ival t (word_of_int z) = int_wrap (c_ity t) z" for z by (rule ival_of_int)
  have r': "int_op (c_ity t) op a b = Some r" using r by (simp add: a_def b_def)
  let ?shm = "if t AND VT_BTYPE = VT_LLONG then 63 else 31 :: u64"
  have "\<exists>f. opic_fold op x y ?shm = Fold f \<and> ival t f = r"
  proof (cases op)
    case Tok_plus
    then show ?thesis using r' I [of "a + b"] by (simp add: int_op_def opic_fold_def W)
  next
    case Tok_minus
    then show ?thesis using r' I [of "a - b"] by (simp add: int_op_def opic_fold_def W)
  next
    case Tok_mul
    then show ?thesis using r' I [of "a * b"] by (simp add: int_op_def opic_fold_def W)
  next
    case Tok_and
    then show ?thesis using r' I [of "a AND b"] by (simp add: int_op_def opic_fold_def W of_int_and_eq)
  next
    case Tok_or
    then show ?thesis using r' I [of "a OR b"] by (simp add: int_op_def opic_fold_def W of_int_or_eq)
  next
    case Tok_xor
    then show ?thesis using r' I [of "a XOR b"] by (simp add: int_op_def opic_fold_def W of_int_xor_eq)
  next
    case Tok_div
    then have s: "t AND VT_UNSIGNED = 0" using fits by (auto simp: op_fits_def split: if_splits)
    show ?thesis using r' Tok_div I [of "a sdiv b"]
      by (auto simp: int_op_def opic_fold_def gen_opic_sdiv_sint S [OF s] Z split: if_splits)
  next
    case TOK_PDIV
    then have s: "t AND VT_UNSIGNED = 0" using fits by (auto simp: op_fits_def split: if_splits)
    have "a sdiv b = a div b" if "b dvd a" "0 < b"
      using that by (auto simp: signed_divide_int_def sgn_if abs_if dvd_neg_div)
    then show ?thesis using r' TOK_PDIV I [of "a sdiv b"]
      by (auto simp: int_op_def opic_fold_def gen_opic_sdiv_sint S [OF s] Z split: if_splits)
  next
    case Tok_mod
    then have s: "t AND VT_UNSIGNED = 0" using fits by (auto simp: op_fits_def split: if_splits)
    have "x - y * word_of_int (a sdiv b) = word_of_int (a smod b)"
      unfolding W using arg_cong [OF minus_mult_sdiv_eq_smod [of a b], of "word_of_int :: int \<Rightarrow> u64"] by simp
    then show ?thesis using r' Tok_mod I [of "a smod b"]
      by (auto simp: int_op_def opic_fold_def gen_opic_sdiv_sint S [OF s] Z split: if_splits)
  next
    case TOK_UDIV
    then have u: "t AND VT_UNSIGNED \<noteq> 0" using fits by (auto simp: op_fits_def split: if_splits)
    have "0 \<le> a" "0 \<le> b" using ival_range(1) [OF u] by (auto simp: a_def b')
    then have "a sdiv b = a div b" by (auto simp: signed_divide_int_def sgn_if)
    then show ?thesis using r' TOK_UDIV I [of "a div b"]
      by (auto simp: int_op_def opic_fold_def word_div_def U [OF u] Z split: if_splits)
  next
    case TOK_UMOD
    then have u: "t AND VT_UNSIGNED \<noteq> 0" using fits by (auto simp: op_fits_def split: if_splits)
    have "0 \<le> a" "0 \<le> b" using ival_range(1) [OF u] by (auto simp: a_def b')
    then have "a smod b = a mod b"
      by (auto simp: signed_modulo_int_def sgn_if)
    then show ?thesis using r' TOK_UMOD I [of "a mod b"]
      by (auto simp: int_op_def opic_fold_def word_mod_def U [OF u] Z split: if_splits)
  next
    case TOK_EQ then show ?thesis using r' by (simp add: int_op_def opic_fold_def EQ)
  next
    case TOK_NE then show ?thesis using r' by (simp add: int_op_def opic_fold_def EQ)
  next
    case TOK_LAND then show ?thesis using r' by (simp add: int_op_def opic_fold_def Z)
  next
    case TOK_LOR then show ?thesis using r' by (simp add: int_op_def opic_fold_def Z)
  next
    case TOK_ULT
    then have u: "t AND VT_UNSIGNED \<noteq> 0" using fits by (auto simp: op_fits_def split: if_splits)
    show ?thesis using r' TOK_ULT by (simp add: int_op_def opic_fold_def word_less_def U [OF u])
  next
    case TOK_UGE
    then have u: "t AND VT_UNSIGNED \<noteq> 0" using fits by (auto simp: op_fits_def split: if_splits)
    show ?thesis using r' TOK_UGE by (simp add: int_op_def opic_fold_def word_le_def U [OF u])
  next
    case TOK_ULE
    then have u: "t AND VT_UNSIGNED \<noteq> 0" using fits by (auto simp: op_fits_def split: if_splits)
    show ?thesis using r' TOK_ULE by (simp add: int_op_def opic_fold_def word_le_def U [OF u])
  next
    case TOK_UGT
    then have u: "t AND VT_UNSIGNED \<noteq> 0" using fits by (auto simp: op_fits_def split: if_splits)
    show ?thesis using r' TOK_UGT by (simp add: int_op_def opic_fold_def word_less_def U [OF u])
  next
    case TOK_LT
    then have s: "t AND VT_UNSIGNED = 0" using fits by (auto simp: op_fits_def split: if_splits)
    show ?thesis using r' TOK_LT by (simp add: int_op_def opic_fold_def gen_opic_lt_sint S [OF s])
  next
    case TOK_GE
    then have s: "t AND VT_UNSIGNED = 0" using fits by (auto simp: op_fits_def split: if_splits)
    show ?thesis using r' TOK_GE by (simp add: int_op_def opic_fold_def gen_opic_lt_sint S [OF s] not_less)
  next
    case TOK_LE
    then have s: "t AND VT_UNSIGNED = 0" using fits by (auto simp: op_fits_def split: if_splits)
    show ?thesis using r' TOK_LE by (simp add: int_op_def opic_fold_def gen_opic_lt_sint S [OF s] not_less)
  next
    case TOK_GT
    then have s: "t AND VT_UNSIGNED = 0" using fits by (auto simp: op_fits_def split: if_splits)
    show ?thesis using r' TOK_GT by (simp add: int_op_def opic_fold_def gen_opic_lt_sint S [OF s])
  qed (use False r' in \<open>simp_all add: is_shift_def int_op_def\<close>)
  then show ?thesis by (simp add: x_def y_def)
qed

section \<open>Constant expressions\<close>

lemma int_type_masks [simp]:
  fixes t :: u32
  shows "(t AND - 66369) AND 15 = t AND 15" "(t AND - 66369) AND 16 = t AND 16"
    "(t AND 31) AND 15 = t AND 15" "(t AND 31) AND 16 = t AND 16"
  by (simp_all add: and.assoc)

lemma btype_of_31: "(t::u32) AND 31 = k \<Longrightarrow> t AND 15 = k AND 15"
  using int_type_masks(3) [of t] by metis

lemma c_ity_masks [simp]:
  "c_ity (t AND - 66369) = c_ity t" "c_ity (t AND 31) = c_ity t"
  by (simp_all add: c_ity_def)

lemma value64_masks [simp]:
  "value64 i (t AND - 66369) = value64 i t" "value64 i (t AND 31) = value64 i t"
  by (simp_all add: value64_of_int ival_def)

lemma int_wrap_twice [simp]: "int_wrap (c_ity t) (int_wrap (c_ity t) x) = int_wrap (c_ity t) x"
  by (cases rule: c_ity_cases [of t]) (simp_all del: int_wrap.simps)

lemma int_wrap_ival [simp]: "int_wrap (c_ity t) (ival t i) = ival t i"
  by (simp add: ival_def)

lemma int_wrap_eqI:
  "take_bit (fst (c_ity t)) x = take_bit (fst (c_ity t)) y \<Longrightarrow> int_wrap (c_ity t) x = int_wrap (c_ity t) y"
  by (cases rule: c_ity_cases [of t]) (auto intro: int_wrap_cong simp del: int_wrap.simps)

text \<open>A cast converts the number a constant stands for to the new type.\<close>

lemma gen_cast_const_val:
  assumes "is_integer_btype (ct_t (sv_type v) AND VT_BTYPE)" "t AND VT_BTYPE = VT_INT \<or> t AND VT_BTYPE = VT_LLONG"
  shows "ival t (sv_i (gen_cast_const \<lparr>ct_t = t, ct_ref = 0\<rparr> v)) = int_wrap (c_ity t) (ival (ct_t (sv_type v)) (sv_i v))"
proof -
  let ?s = "ct_t (sv_type v)"
  have ext: "cast_extend (?s AND 31) i = value64 i ?s" for i
    using assms(1) btype_of_31 [of ?s 5] by (auto simp: cast_extend_def value64_def is_integer_btype_def)
  have narrow: "cast_narrow (t AND 31) x = value64 x t" for x
  proof (cases "t AND 15 = 4")
    case True
    then show ?thesis by (simp add: cast_narrow_def value64_def)
  next
    case False
    have ne: "t AND 31 \<noteq> 5" "t AND 31 \<noteq> 11" using assms(2) btype_of_31 [of t 5] btype_of_31 [of t 11] by auto
    have u: "(ucast (ucast x :: u32) :: u64) = x AND 0xffffffff"
    proof -
      have "(ucast (ucast x :: u32) :: u64) = take_bit 32 x"
        by (rule bit_word_eqI) (auto simp: bit_simps)
      also have "\<dots> = x AND 0xffffffff" by (simp add: take_bit_eq_mask mask_eq_exp_minus_1)
      finally show ?thesis .
    qed
    show ?thesis
      using False ne assms(2) by (simp add: cast_narrow_def value64_def u and.assoc Let_def)
  qed
  show ?thesis
  proof (cases "?s AND 31 = t AND 31")
    case True
    then have "c_ity ?s = c_ity t" by (metis c_ity_masks(2))
    then show ?thesis using True
      by (cases rule: c_ity_cases [of t]) (simp_all add: gen_cast_const_def ival_def del: int_wrap.simps)
  next
    case False
    then show ?thesis
      by (simp add: gen_cast_const_def Let_def ext narrow value64_of_int ival_of_int)
  qed
qed

lemma int_op_unsigned_op: "op \<noteq> TOK_PDIV \<Longrightarrow> int_op p (unsigned_op op) a b = int_op p op a b"
  by (cases op) (simp_all add: int_op_def unsigned_op_def)

lemma op_fits_unsigned_op: "op_fits False op \<Longrightarrow> op \<noteq> TOK_PDIV \<Longrightarrow> op_fits True (unsigned_op op)"
  by (cases op) (simp_all add: op_fits_def unsigned_op_def)

lemma is_shift_unsigned_op [simp]: "is_shift (unsigned_op op) = is_shift op"
  by (cases op) (simp_all add: is_shift_def unsigned_op_def)

lemma op_class_shift: "op_class op = SHIFT_OP \<longleftrightarrow> is_shift op"
  by (auto simp: op_class_def is_shift_def)

lemma int_op_compare: "op_class op = CMP_OP \<Longrightarrow> \<exists>P. int_op p op a b = Some (of_bool P)"
  by (cases op) (auto simp only: op_class_def int_op_def Let_def tok_op.simps comb_op.simps split: if_splits)

text \<open>The common type is \<open>int\<close> or \<open>long\<close>, of the width and signedness C prescribes.\<close>

lemma combined_ity:
  assumes "is_integer_btype (ct_t (sv_type v1) AND VT_BTYPE)" "is_integer_btype (ct_t (sv_type v2) AND VT_BTYPE)"
  obtains comb where "combine_types d st v1 v2 oper = Some (Combine True comb st)"
    "ct_t comb AND VT_BTYPE = VT_INT \<or> ct_t comb AND VT_BTYPE = VT_LLONG"
    "c_ity (ct_t comb) = (let p1 = c_promote (ct_t (sv_type v1)) in
      if oper = SHIFT_OP then p1 else c_common p1 (c_promote (ct_t (sv_type v2))))"
proof -
  define w where "w = (if oper = SHIFT_OP then v1 else v2)"
  have w: "is_integer_btype (ct_t (sv_type w) AND VT_BTYPE)" using assms by (simp add: w_def)
  define t where "t = (let t1 = ct_t (sv_type v1); t2 = ct_t (sv_type w) in
    if t1 AND VT_BTYPE = VT_LLONG \<or> t2 AND VT_BTYPE = VT_LLONG then combine_llongs t1 t2 else combine_ints t1 t2)"
  have c: "combine_types d st v1 v2 oper = Some (Combine True \<lparr>ct_t = t, ct_ref = 0\<rparr> st)"
    using combine_types_integer_flags [OF assms(1) w w_def] by (simp add: t_def)
  have bt: "t AND VT_BTYPE = VT_INT \<or> t AND VT_BTYPE = VT_LLONG"
    using combine_llongs_bits(1) combine_ints_bits(1) by (auto simp: t_def Let_def)
  have "c_ity t = c_common (c_promote (ct_t (sv_type v1))) (c_promote (ct_t (sv_type w)))"
    using combine_llongs_bits [of "ct_t (sv_type v1)" "ct_t (sv_type w)"]
      combine_ints_bits [of "ct_t (sv_type v1)" "ct_t (sv_type w)"]
    by (auto simp: t_def Let_def c_ity_def c_promote_def)
  also have "\<dots> = (let p1 = c_promote (ct_t (sv_type v1)) in
      if oper = SHIFT_OP then p1 else c_common p1 (c_promote (ct_t (sv_type v2))))"
    by (cases "c_promote (ct_t (sv_type v1))") (simp add: w_def)
  finally show ?thesis using that [OF c] bt by simp
qed

lemma compare_value:
  assumes "op_class op = CMP_OP" "int_op p op x y = Some r" "ival t f = r"
  shows "ival VT_INT (value64 f t) = r"
proof -
  obtain P where P: "r = of_bool P" using int_op_compare [OF assms(1)] assms(2) by (metis option.inject)
  have "value64 f t = of_bool P"
    using assms(3) by (cases P) (simp_all add: value64_of_int P)
  then show ?thesis by (simp add: P)
qed

text \<open>C13: Folding two constants of any integer types gives what C's conversions and operators
  give on the numbers they stand for, in the type C gives the result, for every operator of the
  language and wherever C defines the result.\<close>

theorem gen_op_const_correct:
  assumes const: "is_const v1" "is_const v2"
    and types: "is_integer_btype (ct_t (sv_type v1) AND VT_BTYPE)" "is_integer_btype (ct_t (sv_type v2) AND VT_BTYPE)"
    and source: "op_fits False op" "op \<noteq> TOK_PDIV"
    and p: "p = (let p1 = c_promote (ct_t (sv_type v1)) in
      if is_shift op then p1 else c_common p1 (c_promote (ct_t (sv_type v2))))"
    and q: "q = (if is_shift op then (32, False) else p)"
    and r: "int_op p op (int_wrap p (ival (ct_t (sv_type v1)) (sv_i v1)))
      (int_wrap q (ival (ct_t (sv_type v2)) (sv_i v2))) = Some r"
  shows "\<exists>v. gen_op_const st op v1 v2 = Some v \<and> ival (ct_t (sv_type v)) (sv_i v) = r \<and>
    c_ity (ct_t (sv_type v)) = (if op_class op = CMP_OP then (32, False) else p)"
proof -
  obtain comb where comb: "combine_types 0 st v1 v2 (op_class op) = Some (Combine True comb st)"
    and bt: "ct_t comb AND VT_BTYPE = VT_INT \<or> ct_t comb AND VT_BTYPE = VT_LLONG"
    and cp: "c_ity (ct_t comb) = p"
    by (rule combined_ity [OF types, of 0 st "op_class op"]) (auto simp: p op_class_shift)
  define t where "t = ct_t comb"
  have cp': "c_ity t = p" by (simp add: t_def cp)
  define t2 where "t2 = (if is_shift op then VT_INT else t)"
  define op' where "op' = (if t AND VT_UNSIGNED \<noteq> 0 then unsigned_op op else op)"
  have bt2: "t2 AND VT_BTYPE = VT_INT \<or> t2 AND VT_BTYPE = VT_LLONG" and q2: "c_ity t2 = q"
    using bt cp by (auto simp: t2_def t_def q) (simp_all add: c_ity_def)
  have fits: "op_fits (t AND VT_UNSIGNED \<noteq> 0) op'"
    using source op_fits_unsigned_op [OF source] by (simp add: op'_def)
  let ?w1 = "gen_cast_const \<lparr>ct_t = t, ct_ref = 0\<rparr> v1" and ?w2 = "gen_cast_const \<lparr>ct_t = t2, ct_ref = 0\<rparr> v2"
  have ty: "ct_t (sv_type ?w1) = t AND - 66369" "ct_t (sv_type ?w2) = t2 AND - 66369"
    "sv_r ?w1 = sv_r v1" "sv_r ?w2 = sv_r v2"
    by (simp_all add: gen_cast_const_def Let_def)
  have vals: "ival t (sv_i ?w1) = int_wrap p (ival (ct_t (sv_type v1)) (sv_i v1))"
    "ival t2 (sv_i ?w2) = int_wrap q (ival (ct_t (sv_type v2)) (sv_i v2))"
    using gen_cast_const_val [OF types(1), of t] gen_cast_const_val [OF types(2), of t2] bt bt2
    by (simp_all add: t_def cp q2)
  have "int_op (c_ity t) op' (ival t (sv_i ?w1)) (ival t2 (sv_i ?w2)) = Some r"
    using r int_op_unsigned_op [OF source(2)] by (simp add: op'_def vals cp')
  moreover have "c_ity t2 = c_ity t" if "\<not> is_shift op'"
    using that by (auto simp: t2_def op'_def split: if_splits)
  ultimately obtain f where f: "opic_fold op' (value64 (sv_i ?w1) t) (value64 (sv_i ?w2) t2)
      (if t AND VT_BTYPE = VT_LLONG then 63 else 31) = Fold f" "ival t f = r"
    using fold_sound [OF _ fits, of t2 "sv_i ?w1" "sv_i ?w2" r] bt by (auto simp: t_def)
  let ?v = "?w1\<lparr>sv_i := value64 f t, sv_r := sv_r v1 OR (sv_r v2 AND VT_NONCONST)\<rparr>"
  have G: "gen_opic True op' ?w1 ?w2 = Opic_value ?v"
    using const f(1) by (simp add: gen_opic_def is_const_def sv_bt_def ty Let_def)
  have g: "gen_op_const st op v1 v2 = Some (?v\<lparr>sv_type := (sv_type ?v)
      \<lparr>ct_t := (if op_class op = CMP_OP then VT_INT else t)\<rparr>\<rparr>)"
    unfolding gen_op_const_def comb
    by (simp only: option.case combine.case bool.case prod.case Let_def t_def [symmetric] op_class_shift
        t2_def [symmetric] op'_def [symmetric] G opic.case)
  have "ival VT_INT (value64 f t) = r" if "op_class op = CMP_OP" by (rule compare_value [OF that r f(2)])
  then show ?thesis
    unfolding g using f(2) cp by (auto simp: t_def c_ity_def)
qed

section \<open>Simplification keeps the value\<close>

text \<open>
  The value of an operand when the program runs: constants are known, the address of a symbol or
  of a local variable is an unknown base plus the constant, anything else is an unknown value
  \<open>env\<close> gives. The number it stands for, and the number an outcome of \<open>gen_opic\<close> stands for if
  the back end computes the operation it is given.
\<close>

definition is_addr :: "svalue \<Rightarrow> bool" where
  "is_addr v \<longleftrightarrow> sv_r v AND (VT_VALMASK OR VT_LVAL OR VT_SYM) = VT_CONST OR VT_SYM \<or>
     sv_r v AND (VT_VALMASK OR VT_LVAL OR VT_SYM) = VT_LOCAL"

definition rt_val :: "(svalue \<Rightarrow> u64) \<Rightarrow> svalue \<Rightarrow> u64" where
  "rt_val env v =
     (if is_const v then value64 (sv_i v) (ct_t (sv_type v))
      else if is_addr v then env (v\<lparr>sv_i := 0\<rparr>) + sv_i v else env v)"

definition rt_num :: "(svalue \<Rightarrow> u64) \<Rightarrow> svalue \<Rightarrow> int" where
  "rt_num env v = ival (ct_t (sv_type v)) (rt_val env v)"

fun opic_num :: "(svalue \<Rightarrow> u64) \<Rightarrow> nat \<times> bool \<Rightarrow> opic \<Rightarrow> int option" where
  "opic_num env p Opic_error = None"
| "opic_num env p (Opic_value v) = Some (rt_num env v)"
| "opic_num env p (Opic_emit wide op a b) = int_op p op (rt_num env a) (rt_num env b)"

lemma mark_nonconst_simps [simp]:
  "is_const (mark_nonconst v) = is_const v" "sv_i (mark_nonconst v) = sv_i v" "sv_type (mark_nonconst v) = sv_type v"
  by (simp_all add: mark_nonconst_def is_const_def)

lemma rt_num_mark [simp]:
  assumes "is_const v \<or> is_addr v \<or> sv_r v \<noteq> VT_CONST"
  shows "rt_num env (mark_nonconst v) = rt_num env v"
  using assms by (auto simp: rt_num_def rt_val_def mark_nonconst_def is_const_def is_addr_def)

lemma opic_general_num [simp]: "opic_num env p (opic_general op a b) = int_op p op (rt_num env a) (rt_num env b)"
  by (simp add: opic_general_def)

lemma int_op_commute: "opic_commutes op \<Longrightarrow> int_op p op a b = int_op p op b a"
  by (auto simp: opic_commutes_def int_op_def ac_simps)

text \<open>Powers of two, by the test \<open>l & (l - 1)\<close> and the loop that counts shifts.\<close>

lemma nat_power2:
  fixes n :: nat
  shows "0 < n \<Longrightarrow> n AND (n - 1) = 0 \<Longrightarrow> \<exists>k. n = 2 ^ k"
proof (induction n rule: less_induct)
  case (less n)
  show ?case
  proof (cases "even n")
    case True
    then obtain m where m: "n = 2 * m" by auto
    then have m0: "0 < m" using less.prems by simp
    then have "n - 1 = 2 * (m - 1) + 1" using m by simp
    then have "n AND (n - 1) = 2 * (m AND (m - 1))"
      using m and_rec [of n "n - 1"] by simp
    then have "m AND (m - 1) = 0" using less.prems by simp
    then obtain k where "m = 2 ^ k" using less.IH [of m] m m0 by auto
    then show ?thesis using m by (intro exI [of _ "Suc k"]) simp
  next
    case False
    then obtain m where m: "n = 2 * m + 1" by (metis oddE)
    then have "n AND (n - 1) = 2 * m"
      using and_rec [of n "n - 1"] by simp
    then show ?thesis using less.prems m by (intro exI [of _ 0]) simp
  qed
qed

lemma word_power2:
  fixes l :: u64
  assumes "l > 0" "l AND (l - 1) = 0"
  obtains k where "k < 64" "l = 2 ^ k"
proof -
  have l: "unat l > 0" using assms(1) by (simp add: word_less_nat_alt)
  have "unat (l AND (l - 1)) = unat l AND unat (l - 1)"
    by (simp add: unsigned_and_eq)
  moreover have "unat (l - 1) = unat l - 1"
    using assms(1) by (metis unat_minus_one word_neq_0_conv)
  ultimately have "unat l AND (unat l - 1) = 0" using assms(2) by simp
  then obtain k where k: "unat l = 2 ^ k" using nat_power2 [OF l] by auto
  have "unat l < 2 ^ LENGTH(64)" by (rule unsigned_less)
  then have "(2::nat) ^ k < 2 ^ 64" using k by simp
  then have "k < 64" by (rule power_less_imp_less_exp [rotated]) simp
  moreover have "l = 2 ^ k"
  proof -
    have "l = word_of_nat (unat l)" by simp
    also have "\<dots> = 2 ^ k" unfolding k by simp
    finally show ?thesis .
  qed
  ultimately show ?thesis by (rule that)
qed

lemma shift_count_power2: "k < 64 \<Longrightarrow> shift_count (2 ^ k) n = n + int k + 1"
proof (induction k arbitrary: n)
  case 0
  show ?case by (simp add: shift_count.simps [of 1] shift_count.simps [of 0])
next
  case (Suc k)
  have "drop_bit 1 (2 ^ Suc k :: u64) = 2 ^ k"
    using Suc.prems by (intro bit_word_eqI) (auto simp: bit_simps)
  moreover have "(2 ^ Suc k :: u64) \<noteq> 0" using Suc.prems by (simp add: exp_eq_zero_iff del: power_Suc)
  ultimately show ?case using Suc by (subst shift_count.simps) simp
qed

lemma c_ity_width: "0 < fst (c_ity t)" "fst (c_ity t) \<le> 64"
  by (simp_all add: c_ity_def)

lemma take_bit_of_word: "take_bit (fst (c_ity t)) (uint (word_of_int z :: u64)) = take_bit (fst (c_ity t)) z"
  unfolding unsigned_of_int using c_ity_width(2) [of t] by (simp add: min_def)

lemma take_bit_ival: "take_bit (fst (c_ity t)) (ival t x) = take_bit (fst (c_ity t)) (uint x)"
  using c_ity_width(1) [of t] by (cases "c_ity t") (simp add: ival_def del: int_wrap.simps)

lemma ival_add: "ival t (x + y) = int_wrap (c_ity t) (ival t x + ival t y)"
proof -
  have "ival t (x + y) = int_wrap (c_ity t) (uint x + uint y)"
    unfolding word_add_def by (rule ival_of_int)
  also have "\<dots> = int_wrap (c_ity t) (ival t x + ival t y)"
    by (rule int_wrap_eqI) (metis take_bit_add take_bit_ival)
  finally show ?thesis .
qed

lemma ival_diff: "ival t (x - y) = int_wrap (c_ity t) (ival t x - ival t y)"
proof -
  have "ival t (x - y) = int_wrap (c_ity t) (uint x - uint y)"
    unfolding word_sub_wi by (rule ival_of_int)
  also have "\<dots> = int_wrap (c_ity t) (ival t x - ival t y)"
    by (rule int_wrap_eqI) (metis take_bit_diff take_bit_ival)
  finally show ?thesis .
qed

text \<open>
  Two operands of the same integer type \<open>t\<close>, or of any integer types for a shift; the address
  of a symbol or local variable is 64 bits wide.
\<close>

definition opic_typed :: "u32 \<Rightarrow> tok_op \<Rightarrow> svalue \<Rightarrow> svalue \<Rightarrow> bool" where
  "opic_typed t op v1 v2 \<longleftrightarrow>
     (t AND VT_BTYPE = VT_INT \<or> t AND VT_BTYPE = VT_LLONG) \<and>
     op_fits (t AND VT_UNSIGNED \<noteq> 0) op \<and>
     ct_t (sv_type v1) AND (VT_BTYPE OR VT_UNSIGNED) = t AND (VT_BTYPE OR VT_UNSIGNED) \<and>
     (\<not> is_shift op \<longrightarrow> ct_t (sv_type v2) AND (VT_BTYPE OR VT_UNSIGNED) = t AND (VT_BTYPE OR VT_UNSIGNED)) \<and>
     (is_addr v1 \<or> is_addr v2 \<longrightarrow> t AND VT_BTYPE = VT_LLONG) \<and>
     (is_const v1 \<or> is_addr v1 \<or> sv_r v1 \<noteq> VT_CONST) \<and> (is_const v2 \<or> is_addr v2 \<or> sv_r v2 \<noteq> VT_CONST)"

lemma same_31:
  assumes "s AND 31 = (t::u32) AND 31"
  shows "s AND 15 = t AND 15" "s AND 16 = t AND 16" "c_ity s = c_ity t" "ival s = ival t"
    "value64 i s = value64 i t"
proof -
  show "s AND 15 = t AND 15" "s AND 16 = t AND 16" "c_ity s = c_ity t"
    using assms by (metis int_type_masks(3), metis int_type_masks(4), metis c_ity_masks(2))
  then show "ival s = ival t" by (simp add: ival_def fun_eq_iff)
  show "value64 i s = value64 i t" using assms by (metis value64_masks(2))
qed

lemma all_ones:
  assumes "l2 = value64 i t" "l2 = - 1 \<or> l2 = 0xFFFFFFFF \<and> t AND 15 \<noteq> 4" "t AND 15 = 3 \<or> t AND 15 = 4"
  shows "take_bit (fst (c_ity t)) (ival t i) = mask (fst (c_ity t))"
proof -
  have "take_bit (fst (c_ity t)) (ival t i) = take_bit (fst (c_ity t)) (uint l2)"
    unfolding assms(1) value64_of_int take_bit_of_word ..
  moreover have "uint (- 1 :: u64) = mask LENGTH(64)" by (rule unsigned_minus_1_eq_mask)
  moreover have "(0xFFFFFFFF::int) = mask 32" by (simp add: mask_eq_exp_minus_1)
  ultimately show ?thesis
    using assms(2,3) by (auto simp: c_ity_def take_bit_of_mask simp del: mask_numeral)
qed

lemma int_wrap_small: "0 \<le> z \<Longrightarrow> z < 2 ^ 31 \<Longrightarrow> int_wrap (c_ity t) z = z"
  by (cases rule: c_ity_cases [of t]) (simp_all add: take_bit_int_eq_self signed_take_bit_int_eq_self)

lemma uint_power2: "k < 64 \<Longrightarrow> uint (2 ^ k :: u64) = 2 ^ k"
proof -
  assume k: "k < 64"
  have "uint (word_of_int (2 ^ k) :: u64) = take_bit LENGTH(64) (2 ^ k)"
    unfolding unsigned_of_int by simp
  moreover have "(2::int) ^ k < 2 ^ 64" using k by (intro power_strict_increasing) simp_all
  ultimately show ?thesis using k by (simp add: take_bit_int_eq_self)
qed

text \<open>The number of a constant whose bits are a power of two.\<close>

lemma ival_power2:
  assumes "value64 i t = 2 ^ k" "k < 64"
  shows "k < fst (c_ity t)" and "t AND 16 \<noteq> 0 \<or> 0 < ival t i \<Longrightarrow> ival t i = 2 ^ k"
proof -
  have u: "ival t i = 2 ^ k \<and> k < fst (c_ity t)" if "t AND 16 \<noteq> 0"
  proof -
    have "ival t i = 2 ^ k" using value64_val(1) [OF that, of i] uint_power2 [OF assms(2)] by (simp add: assms(1))
    moreover have "ival t i < 2 ^ fst (c_ity t)" using ival_range(1) [OF that] by blast
    ultimately show ?thesis by (simp add: power_less_imp_less_exp)
  qed
  have s: "k < fst (c_ity t) \<and> (0 < ival t i \<longrightarrow> ival t i = 2 ^ k)" if "t AND 16 = 0"
  proof (cases "k = 63")
    case True
    have v: "ival t i = - (2 ^ 63)"
      using value64_val(2) [OF that, of i] by (simp add: assms(1) True sint_eq)
    have "fst (c_ity t) = 64"
    proof (rule ccontr)
      assume "fst (c_ity t) \<noteq> 64"
      then have "fst (c_ity t) = 32" by (simp add: c_ity_def split: if_splits)
      then show False using ival_range(2) [OF that, of i] v by simp
    qed
    then show ?thesis using True v by simp
  next
    case False
    then have k: "k < 63" using assms(2) by simp
    have "(2::int) ^ k < 2 ^ 63" using k by (intro power_strict_increasing) simp_all
    moreover have "- (2 ^ 63) \<le> (2::int) ^ k" by (rule order_trans [of _ 0]) simp_all
    ultimately have "signed_take_bit 63 ((2::int) ^ k) = 2 ^ k"
      by (intro signed_take_bit_int_eq_self)
    then have v: "ival t i = 2 ^ k"
      using value64_val(2) [OF that, of i] uint_power2 [OF assms(2)] by (simp add: assms(1) sint_eq)
    have "(2::int) ^ k < 2 ^ (fst (c_ity t) - 1)" using ival_range(2) [OF that, of i] v by simp
    then have "k < fst (c_ity t) - 1" by (rule power_less_imp_less_exp [rotated]) simp
    then show ?thesis using v by simp
  qed
  show "k < fst (c_ity t)" using u s by blast
  show "ival t i = 2 ^ k" if "t AND 16 \<noteq> 0 \<or> 0 < ival t i" using that u s by blast
qed

lemma power2_sound:
  assumes t: "t AND 15 = 3 \<or> t AND 15 = 4" and fits: "op_fits (t AND 16 \<noteq> 0) op"
    and b: "is_const b" "ct_t (sv_type b) AND 31 = t AND 31" "l2 = value64 (sv_i b) t"
    and a: "rt_num env a = ival t x"
    and op: "op = Tok_mul \<or> op = TOK_PDIV \<or> op = TOK_UDIV \<or> op = TOK_UMOD"
    and r: "int_op (c_ity t) op (rt_num env a) (rt_num env b) = Some r"
  shows "opic_num env (c_ity t) (opic_power2 op a b l2) = Some r"
proof (cases "l2 > 0 \<and> l2 AND (l2 - 1) = 0")
  case False
  then show ?thesis using r by (auto simp: opic_power2_def)
next
  case True
  then obtain k where k: "k < 64" "l2 = 2 ^ k" using word_power2 by blast
  define A B where "A = rt_num env a" and "B = rt_num env b"
  have numb: "rt_num env (b\<lparr>sv_i := i\<rparr>) = ival t i" for i
    using b(1) by (simp add: rt_num_def rt_val_def is_const_def same_31 [OF b(2)])
  have B: "B = ival t (sv_i b)" using numb [of "sv_i b"] by (simp add: B_def)
  have i2: "value64 (sv_i b) t = 2 ^ k" using b(3) k(2) by simp
  have tb: "take_bit (fst (c_ity t)) B = take_bit (fst (c_ity t)) (2 ^ k)"
    using take_bit_ival [of t "value64 (sv_i b) t"] unfolding ival_value64 B [symmetric]
    unfolding i2 uint_power2 [OF k(1)] .
  have k32: "k < fst (c_ity t)" by (rule ival_power2(1) [OF i2 k(1)])
  have B2: "B = 2 ^ k" if "t AND 16 \<noteq> 0 \<or> 0 < B"
    using ival_power2(2) [OF i2 k(1)] that unfolding B by blast
  have "int k < 2 ^ 31" using k(1) by simp
  then have numk: "rt_num env (b\<lparr>sv_i := word_of_int (shift_count l2 (- 1))\<rparr>) = int k"
    unfolding numb k(2) using int_wrap_small [of "int k" t] by (simp only: shift_count_power2 [OF k(1)] ival_of_int) simp
  have A: "int_wrap (c_ity t) A = A" by (simp add: A_def a)
  from op consider "op = Tok_mul" | "op = TOK_PDIV" | "op = TOK_UDIV" | "op = TOK_UMOD" by blast
  then show ?thesis
  proof cases
    case 1
    have "int_wrap (c_ity t) (A * 2 ^ k) = int_wrap (c_ity t) (A * B)"
      by (rule int_wrap_eqI) (metis take_bit_mult tb)
    then show ?thesis
      using r True k32 by (simp add: 1 opic_power2_def int_op_def numk A_def B_def)
  next
    case 2
    then show ?thesis
      using r True k32 B2 by (auto simp: opic_power2_def int_op_def numk A_def B_def split: if_splits)
  next
    case 3
    then have u: "t AND 16 \<noteq> 0" using fits by (auto simp: op_fits_def split: if_splits)
    have "0 \<le> A" using ival_range(1) [OF u] by (simp add: A_def a)
    then have "A sdiv 2 ^ k = A div 2 ^ k" by (auto simp: signed_divide_int_def sgn_if)
    then show ?thesis
      using 3 r True k32 B2 u by (auto simp: opic_power2_def int_op_def numk A_def B_def split: if_splits)
  next
    case 4
    then have u: "t AND 16 \<noteq> 0" using fits by (auto simp: op_fits_def split: if_splits)
    have "0 \<le> A" using ival_range(1) [OF u] by (simp add: A_def a)
    then have m: "A smod 2 ^ k = A AND (2 ^ k - 1)"
      by (auto simp: signed_modulo_int_def sgn_if take_bit_eq_mod simp flip: take_bit_eq_mask mask_eq_exp_minus_1)
    have "rt_num env (b\<lparr>sv_i := l2 - 1\<rparr>) = int_wrap (c_ity t) (B - 1)"
      using int_wrap_small [of 1 t] ival_of_int [of t 1] unfolding numb ival_diff by (simp add: b(3) B)
    also have "\<dots> = B - 1"
    proof -
      have "0 \<le> B - 1" using B2 u by simp
      moreover have "B - 1 < 2 ^ fst (c_ity t)"
        using ival_range(1) [OF u, of "sv_i b"] by (simp add: B)
      ultimately have "0 \<le> B - 1" "B - 1 < 2 ^ fst (c_ity t)" .
      then show ?thesis using u by (simp add: c_ity_def take_bit_int_eq_self)
    qed
    finally have "rt_num env (b\<lparr>sv_i := l2 - 1\<rparr>) = 2 ^ k - 1" using B2 u by simp
    then show ?thesis
      using 4 r True B2 u m by (auto simp: opic_power2_def int_op_def A_def B_def split: if_splits)
  qed
qed

lemma take_bit_or_mask: "take_bit n (x::int) OR mask n = mask n"
  by (rule bit_eqI) (auto simp: bit_simps)

lemma take_bit_and_mask: "take_bit n (x::int) AND mask n = take_bit n x"
  by (rule bit_eqI) (auto simp: bit_simps)

lemma simplify_sound:
  assumes t: "t AND 15 = 3 \<or> t AND 15 = 4" and fits: "op_fits (t AND 16 \<noteq> 0) op"
    and ta: "ct_t (sv_type a) AND 31 = t AND 31"
    and tb: "\<not> is_shift op \<Longrightarrow> ct_t (sv_type b) AND 31 = t AND 31" "\<not> is_shift op \<Longrightarrow> (t2 = 4) = (t AND 15 = 4)"
    and addr: "is_addr a \<Longrightarrow> t AND 15 = 4" and proper: "is_const a \<or> is_addr a \<or> sv_r a \<noteq> VT_CONST"
    and c2: "c2 \<Longrightarrow> is_const b \<and> l2 = value64 (sv_i b) (ct_t (sv_type b))"
    and r: "int_op (c_ity t) op (rt_num env a) (rt_num env b) = Some r"
  shows "opic_num env (c_ity t) (opic_simplify op a b c2 l2 t2) = Some r"
proof -
  define A B where "A = rt_num env a" and "B = rt_num env b"
  have r': "int_op (c_ity t) op A B = Some r" using r by (simp add: A_def B_def)
  have A: "A = ival t (rt_val env a)" "int_wrap (c_ity t) A = A"
    by (simp_all add: A_def rt_num_def same_31 [OF ta])
  have bval: "rt_num env b = ival (ct_t (sv_type b)) (sv_i b)" if c2
    using c2 [OF that] by (simp add: rt_num_def rt_val_def)
  have general: "opic_simplify op a b c2 l2 t2 = opic_general op a b"
    if "\<not> (c2 \<and> opic_absorbs op l2 t2)" "\<not> (c2 \<and> opic_neutral op l2 t2)"
      "\<not> (c2 \<and> (op = Tok_mul \<or> op = TOK_PDIV \<or> op = TOK_UDIV \<or> op = TOK_UMOD))"
      "\<not> (c2 \<and> (op = Tok_plus \<or> op = Tok_minus) \<and> is_addr a)"
    using that by (cases c2) (auto simp: opic_simplify_def is_addr_def)
  consider (gen) "opic_simplify op a b c2 l2 t2 = opic_general op a b"
    | (absorb) "c2" "opic_absorbs op l2 t2"
    | (neutral) "c2" "\<not> opic_absorbs op l2 t2" "opic_neutral op l2 t2"
    | (power) "c2" "\<not> opic_absorbs op l2 t2" "\<not> opic_neutral op l2 t2"
       "op = Tok_mul \<or> op = TOK_PDIV \<or> op = TOK_UDIV \<or> op = TOK_UMOD"
    | (address) "c2" "\<not> opic_absorbs op l2 t2" "\<not> opic_neutral op l2 t2" "op = Tok_plus \<or> op = Tok_minus" "is_addr a"
    using general by blast
  then show ?thesis
  proof cases
    case gen
    then show ?thesis using r by simp
  next
    case absorb
    then have ns: "\<not> is_shift op" by (auto simp: opic_absorbs_def is_shift_def)
    note b = same_31 [OF tb(1) [OF ns]]
    have B: "B = ival t (sv_i b)" "l2 = value64 (sv_i b) t"
      using bval [OF absorb(1)] c2 [OF absorb(1)] by (simp_all add: B_def b)
    have wB: "int_wrap (c_ity t) B = B" by (simp add: B)
    have cb: "is_const b" using c2 [OF absorb(1)] by simp
    have res: "opic_num env (c_ity t) (opic_simplify op a b c2 l2 t2) =
        Some (if l2 = 1 then 0 else B)"
      using absorb cb ival_of_bool [of t False]
      by (auto simp: opic_simplify_def B_def rt_num_def rt_val_def is_const_def mark_nonconst_def b)
    have one: "B = 1" if "l2 = 1" using B that ival_of_bool [of t True] ival_value64 [of t "sv_i b"] by simp
    have zero: "B = 0" if "l2 = 0" using B that ival_of_bool [of t False] ival_value64 [of t "sv_i b"] by simp
    from absorb(2) consider (z) "l2 = 0" "op = Tok_and \<or> op = Tok_mul"
      | (ones) "op = Tok_or" "l2 = - 1 \<or> l2 = 0xFFFFFFFF \<and> t AND 15 \<noteq> 4"
      | (one) "l2 = 1" "op = Tok_mod \<or> op = TOK_UMOD"
      using tb(2) [OF ns] unfolding opic_absorbs_def by blast
    then show ?thesis
    proof cases
      case z
      then have "r = 0" using r' zero int_wrap_of_bool [of t False] by (auto simp: int_op_def)
      then show ?thesis using res z zero by simp
    next
      case ones
      have "int_wrap (c_ity t) (A OR B) = int_wrap (c_ity t) B"
        using all_ones [OF B(2) ones(2) t] by (intro int_wrap_eqI) (simp add: B(1) take_bit_or_mask)
      then have "r = B" using r' ones(1) wB by (simp add: int_op_def)
      moreover have "l2 \<noteq> 1" using ones by auto
      ultimately show ?thesis using res by simp
    next
      case one
      then have "r = 0" using r' \<open>l2 = 1 \<Longrightarrow> B = 1\<close> int_wrap_of_bool [of t False]
        by (auto simp: int_op_def smod_int_alt_def)
      then show ?thesis using res one by simp
    qed
  next
    case neutral
    have res: "opic_num env (c_ity t) (opic_simplify op a b c2 l2 t2) = Some A"
      using neutral proper by (simp add: opic_simplify_def A_def)
    have B: "B = ival (ct_t (sv_type b)) (sv_i b)" "l2 = value64 (sv_i b) (ct_t (sv_type b))"
      using bval [OF neutral(1)] c2 [OF neutral(1)] by (simp_all add: B_def)
    have one: "B = 1" if "l2 = 1"
      using B that ival_of_bool [of "ct_t (sv_type b)" True] ival_value64 [of "ct_t (sv_type b)" "sv_i b"] by simp
    have zero: "B = 0" if "l2 = 0"
      using B that ival_of_bool [of "ct_t (sv_type b)" False] ival_value64 [of "ct_t (sv_type b)" "sv_i b"] by simp
    have "r = A"
    proof (cases "op = Tok_and")
      case True
      then have ns: "\<not> is_shift op" by (simp add: is_shift_def)
      have "l2 = - 1 \<or> l2 = 0xFFFFFFFF \<and> t AND 15 \<noteq> 4"
        using neutral(3) True tb(2) [OF ns] by (simp add: opic_neutral_def)
      moreover have "l2 = value64 (sv_i b) t" "B = ival t (sv_i b)"
        using B same_31 [OF tb(1) [OF ns]] by simp_all
      ultimately have "int_wrap (c_ity t) (A AND B) = int_wrap (c_ity t) A"
        using all_ones [OF _ _ t] by (intro int_wrap_eqI) (simp add: take_bit_and_mask)
      then show ?thesis using r' True A(2) by (simp add: int_op_def)
    next
      case False
      then show ?thesis
        using neutral(3) r' A(2) one zero
        by (auto simp: opic_neutral_def int_op_def split: if_splits)
    qed
    then show ?thesis using res by simp
  next
    case power
    then have ns: "\<not> is_shift op" by (auto simp: is_shift_def)
    have "opic_simplify op a b c2 l2 t2 = opic_power2 op a b l2"
      using power by (simp add: opic_simplify_def)
    then show ?thesis
      using power2_sound [OF t fits _ tb(1) [OF ns] _ _ power(4) r, of l2 "rt_val env a"] c2 [OF power(1)] A(1)
        same_31(5) [OF tb(1) [OF ns]] by (simp add: A_def)
  next
    case address
    then have ns: "\<not> is_shift op" by (auto simp: is_shift_def)
    note b = same_31 [OF tb(1) [OF ns]]
    have B: "B = ival t (sv_i b)" "l2 = value64 (sv_i b) t"
      using bval [OF address(1)] c2 [OF address(1)] by (simp_all add: B_def b)
    have "opic_simplify op a b c2 l2 t2 = opic_address op a b l2"
      using address by (auto simp: opic_simplify_def is_addr_def)
    moreover have "rt_num env (a\<lparr>sv_i := (if op = Tok_minus then - l2 else l2) + sv_i a\<rparr>) = r"
    proof -
      define l where "l = (if op = Tok_minus then - l2 else l2) + sv_i a"
      have na: "\<not> is_const a" using address(5) by (auto simp: is_addr_def is_const_def)
      have "rt_val env (a\<lparr>sv_i := l\<rparr>) = env (a\<lparr>sv_i := 0\<rparr>) + l"
        using address(5) na by (simp add: rt_val_def is_addr_def is_const_def)
      also have "\<dots> = (if op = Tok_minus then rt_val env a - l2 else rt_val env a + l2)"
        using address(5) na by (simp add: rt_val_def l_def)
      finally have "rt_num env (a\<lparr>sv_i := l\<rparr>) =
          ival t (if op = Tok_minus then rt_val env a - l2 else rt_val env a + l2)"
        by (simp add: rt_num_def same_31 [OF ta])
      then show ?thesis
        using r' address(4) by (auto simp: l_def ival_add ival_diff A(1) B int_op_def)
    qed
    moreover have "rt_num env (mark_nonconst (a\<lparr>sv_i := x\<rparr>)) = rt_num env (a\<lparr>sv_i := x\<rparr>)" for x
      using address(5) by (intro rt_num_mark) (simp add: is_addr_def)
    ultimately show ?thesis using r by (simp add: opic_address_def Let_def)
  qed
qed

text \<open>Two constant operands, and a constant that absorbs the other operand.\<close>

lemma gen_opic_both:
  assumes t: "t AND 15 = 3 \<or> t AND 15 = 4" and fits: "op_fits (t AND 16 \<noteq> 0) op"
    and t1: "ct_t (sv_type v1) AND 31 = t AND 31" and t2: "\<not> is_shift op \<Longrightarrow> ct_t (sv_type v2) AND 31 = t AND 31"
    and both: "is_const v1" "is_const v2"
    and r: "int_op (c_ity t) op (rt_num env v1) (rt_num env v2) = Some r"
  shows "opic_num env (c_ity t) (gen_opic strict op v1 v2) = Some r"
proof -
  note s1 = same_31 [OF t1]
  let ?l2 = "value64 (sv_i v2) (ct_t (sv_type v2))"
  have n: "rt_num env v1 = ival t (sv_i v1)" "rt_num env v2 = ival (ct_t (sv_type v2)) (sv_i v2)"
    using both by (simp_all add: rt_num_def rt_val_def s1)
  have "c_ity (ct_t (sv_type v2)) = c_ity t" if "\<not> is_shift op" using same_31(3) [OF t2 [OF that]] .
  then obtain f where f: "opic_fold op (value64 (sv_i v1) t) ?l2 (if t AND 15 = 4 then 63 else 31) = Fold f" "ival t f = r"
    using fold_sound [OF t fits, of "ct_t (sv_type v2)" "sv_i v1" "sv_i v2" r] r n by auto
  define v where "v = v1\<lparr>sv_i := value64 f t, sv_r := sv_r v1 OR (sv_r v2 AND VT_NONCONST)\<rparr>"
  have "gen_opic strict op v1 v2 = Opic_value v"
    using both f(1) by (simp add: gen_opic_def sv_bt_def Let_def s1 v_def)
  moreover have "is_const v"
  proof -
    have "(x OR (y AND 4096)) AND 831 = x AND 831" for x y :: u16
      by (simp add: bit.conj_disj_distrib2 and.assoc)
    then show ?thesis using both(1) by (simp add: is_const_def v_def)
  qed
  ultimately show ?thesis using f(2) by (simp add: rt_num_def rt_val_def v_def s1)
qed

lemma absorbing_value:
  assumes fits: "op_fits (t AND 16 \<noteq> 0) op" and t1: "ct_t (sv_type v1) AND 31 = t AND 31" and c: "is_const v1"
    and z: "value64 (sv_i v1) (ct_t (sv_type v1)) = 0 \<and> (op = TOK_SHL \<or> op = TOK_SHR \<or> op = TOK_SAR) \<or>
      value64 (sv_i v1) (ct_t (sv_type v1)) = - 1 \<and> op = TOK_SAR"
    and r: "int_op (c_ity t) op (rt_num env v1) (rt_num env v2) = Some r"
  shows "rt_num env v1 = r"
proof (cases "value64 (sv_i v1) (ct_t (sv_type v1)) = 0")
  note s1 = same_31 [OF t1]
  have n1: "rt_num env v1 = ival t (sv_i v1)" using c by (simp add: rt_num_def rt_val_def s1)
  case True
  then have "rt_num env v1 = 0"
    using n1 ival_value64 [of t "sv_i v1"] ival_of_bool [of t False] by (simp add: s1)
  then show ?thesis
    using r z int_wrap_of_bool [of t False] by (auto simp: int_op_def split: if_splits)
next
  note s1 = same_31 [OF t1]
  have n1: "rt_num env v1 = ival t (sv_i v1)" using c by (simp add: rt_num_def rt_val_def s1)
  case False
  then have sar: "op = TOK_SAR" "value64 (sv_i v1) (ct_t (sv_type v1)) = - 1" using z by auto
  then have u: "t AND 16 = 0" using fits by (auto simp: op_fits_def split: if_splits)
  have m: "rt_num env v1 = - 1"
    using value64_val(2) [OF u, of "sv_i v1"] sar(2) n1 by (simp add: s1)
  have "int_wrap (c_ity t) (- 1) = - 1"
    using int_wrap_ival [of t "sv_i v1"] n1 m by simp
  moreover have "(- 1 :: int) div 2 ^ k = - 1" for k
    by (rule int_div_pos_eq [where r = "2 ^ k - 1"]) simp_all
  ultimately show ?thesis
    using r sar(1) m by (auto simp: int_op_def split: if_splits)
qed

text \<open>C12: Whatever \<open>gen_opic\<close> does with two integer operands - fold them, drop a neutral operand,
  replace a multiplication or division by a shift, move a constant into an address, exchange
  the operands - the value on the stack, or the value of the operation left for the back end, is
  the value of the operation asked for, whenever that is defined.\<close>

theorem gen_opic_sound:
  assumes typed: "opic_typed t op v1 v2"
    and r: "int_op (c_ity t) op (rt_num env v1) (rt_num env v2) = Some r"
  shows "opic_num env (c_ity t) (gen_opic strict op v1 v2) = Some r"
proof -
  have t: "t AND 15 = 3 \<or> t AND 15 = 4" and fits: "op_fits (t AND 16 \<noteq> 0) op"
    and t1: "ct_t (sv_type v1) AND 31 = t AND 31" and t2: "\<not> is_shift op \<Longrightarrow> ct_t (sv_type v2) AND 31 = t AND 31"
    and addr: "is_addr v1 \<Longrightarrow> t AND 15 = 4" "is_addr v2 \<Longrightarrow> t AND 15 = 4"
    and proper: "is_const v1 \<or> is_addr v1 \<or> sv_r v1 \<noteq> VT_CONST" "is_const v2 \<or> is_addr v2 \<or> sv_r v2 \<noteq> VT_CONST"
    using typed by (simp_all add: opic_typed_def)
  let ?l1 = "value64 (sv_i v1) (ct_t (sv_type v1))" and ?l2 = "value64 (sv_i v2) (ct_t (sv_type v2))"
  have general: "gen_opic strict op v1 v2 = opic_simplify op v1 v2 (is_const v2) (if is_const v2 then ?l2 else 0) (sv_bt v2)"
    if "\<not> (is_const v1 \<and> is_const v2)" "\<not> (is_const v1 \<and> opic_commutes op)"
      "\<not> (is_const v1 \<and> (?l1 = 0 \<and> (op = TOK_SHL \<or> op = TOK_SHR \<or> op = TOK_SAR) \<or> ?l1 = - 1 \<and> op = TOK_SAR))"
    using that by (cases "is_const v1") (auto simp: gen_opic_def Let_def)
  consider (both) "is_const v1" "is_const v2"
    | (swap) "is_const v1" "\<not> is_const v2" "opic_commutes op"
    | (zero) "is_const v1" "\<not> is_const v2" "\<not> opic_commutes op"
        "?l1 = 0 \<and> (op = TOK_SHL \<or> op = TOK_SHR \<or> op = TOK_SAR) \<or> ?l1 = - 1 \<and> op = TOK_SAR"
    | (keep) "gen_opic strict op v1 v2 = opic_simplify op v1 v2 (is_const v2) (if is_const v2 then ?l2 else 0) (sv_bt v2)"
    using general by blast
  then show ?thesis
  proof cases
    case both
    then show ?thesis by (intro gen_opic_both [OF t fits t1 _ _ _ r] t2)
  next
    case swap
    have ns: "\<not> is_shift op" using swap(3) by (auto simp: opic_commutes_def is_shift_def)
    have r': "int_op (c_ity t) op (rt_num env v2) (rt_num env v1) = Some r"
      using r int_op_commute [OF swap(3)] by simp
    have g: "gen_opic strict op v1 v2 = opic_simplify op v2 v1 True ?l1 (sv_bt v2)"
      using swap by (simp add: gen_opic_def Let_def)
    show ?thesis
      unfolding g
      by (rule simplify_sound [OF t fits t2 [OF ns] t1 _ addr(2) proper(2) _ r'])
        (use swap same_31(1) [OF t2 [OF ns]] in \<open>simp_all add: sv_bt_def\<close>)
  next
    case zero
    then have g: "gen_opic strict op v1 v2 = Opic_value (mark_nonconst v1)"
      by (simp add: gen_opic_def Let_def)
    have "rt_num env v1 = r" by (rule absorbing_value [OF fits t1 zero(1,4) r])
    then show ?thesis using g zero(1) by simp
  next
    case keep
    show ?thesis
      unfolding keep
      by (rule simplify_sound [OF t fits t1 t2 _ addr(1) proper(1) _ r])
        (use same_31(1) [OF t2] in \<open>simp_all add: sv_bt_def\<close>)
  qed
qed

section \<open>Examples\<close>

definition ex_int :: "u64 \<Rightarrow> svalue" where
  "ex_int i = \<lparr>sv_type = \<lparr>ct_t = VT_INT, ct_ref = 0\<rparr>, sv_r = VT_CONST, sv_i = i\<rparr>"

text \<open>\<open>INT_MAX + 1\<close>, an \<open>int\<close> variable in register 0 times 8.\<close>

theorem gen_op_const_correct_witness:
  "\<exists>v. gen_op_const (ex_syms, 3) Tok_plus (ex_int 0x7fffffff) (ex_int 1) = Some v \<and>
    ival (ct_t (sv_type v)) (sv_i v) = - 0x80000000"
proof -
  have i: "is_const (ex_int i)" "ct_t (sv_type (ex_int i)) = VT_INT" "sv_i (ex_int i) = i" for i
    by (simp_all add: ex_int_def is_const_def)
  have v: "ival VT_INT 0x7fffffff = 0x7fffffff" "ival VT_INT 1 = 1"
    by (simp_all add: ival_def c_ity_def)
  show ?thesis
    using gen_op_const_correct [OF i(1) [of "0x7fffffff"] i(1) [of 1], of Tok_plus "(32, False)" "(32, False)"
        "- 0x80000000" "(ex_syms, 3)"]
    by (auto simp: i v is_integer_btype_def op_fits_def is_shift_def c_promote_def int_op_def)
qed

theorem gen_opic_sound_witness:
  "opic_num (\<lambda>_. 5) (32, False)
    (gen_opic False Tok_mul \<lparr>sv_type = \<lparr>ct_t = VT_INT, ct_ref = 0\<rparr>, sv_r = 0, sv_i = 0\<rparr> (ex_int 8)) = Some 40"
proof -
  let ?v = "\<lparr>sv_type = \<lparr>ct_t = 3, ct_ref = 0\<rparr>, sv_r = 0, sv_i = 0\<rparr>"
  have t: "opic_typed 3 Tok_mul ?v (ex_int 8)"
    by (simp add: opic_typed_def op_fits_def is_shift_def ex_int_def is_addr_def is_const_def)
  have c: "c_ity 3 = (32, False)" by (simp add: c_ity_def)
  have "rt_num (\<lambda>_. 5) ?v = 5" "rt_num (\<lambda>_. 5) (ex_int 8) = 8"
    by (simp_all add: rt_num_def rt_val_def is_const_def is_addr_def ival_def c value64_def ex_int_def)
  then show ?thesis using gen_opic_sound [OF t, of "\<lambda>_. 5" 40 False] by (simp add: c int_op_def)
qed

end
