(* ===== verification/C_Layout.thy ===== *)
theory C_Layout
  imports C_Types "HOL-Library.Monad_Syntax" "HOL-Library.Signed_Division"
begin

text \<open>
  The layout of structures and unions (\<open>struct_layout\<close> in \<open>tccgen.c\<close>): offsets of the fields,
  placement of bit-fields after GCC (\<open>pcc\<close>) or after Microsoft, \<open>packed\<close>, \<open>aligned\<close> and
  \<open>#pragma pack\<close>, the size and alignment of the whole, and the choice of a type to access each
  bit-field with. Sizes and offsets are C \<open>int\<close>s of 32 bits (\<open>c_int\<close>): the layout of a large structure
  wraps around, and a loop of it need not end. The same layout over the integers follows as a
  reference, with the size up to which both agree.
\<close>

section \<open>Small functions\<close>

text \<open>\<open>exact_log2p1\<close>: how alignments are stored in the 5 bits of \<open>SymAttr.aligned\<close>.\<close>

function log2_bytes :: "int \<Rightarrow> int \<Rightarrow> int \<times> int" where
  "log2_bytes i ret = (if i \<ge> 256 then log2_bytes (i div 256) (ret + 8) else (i, ret))"
  by auto
termination
  by (relation "measure (\<lambda>(i, _). nat i)") auto

declare log2_bytes.simps [simp del]

definition exact_log2p1 :: "int \<Rightarrow> int" where
  "exact_log2p1 i =
     (if i = 0 then 0
      else let (i, ret) = log2_bytes i 1;
               (i, ret) = (if i \<ge> 16 then (i div 16, ret + 4) else (i, ret));
               (i, ret) = (if i \<ge> 4 then (i div 4, ret + 2) else (i, ret))
           in if i \<ge> 2 then ret + 1 else ret)"

text \<open>\<open>in_range\<close>: does a \<open>long long\<close> fit into an integer type. In the unsigned case C
  compares as \<open>unsigned long long\<close>.\<close>

definition in_range :: "u64 \<Rightarrow> u32 \<Rightarrow> bool" where
  "in_range n t =
     (let m = (push_bit (btype_size (t AND VT_BTYPE) * 8 - 1) 1 :: u64) - 1 in
      if t AND VT_UNSIGNED \<noteq> 0 then n \<le> push_bit 1 m + 1
      else - sint m - 1 \<le> sint n \<and> sint n \<le> sint m)"

section \<open>Fields\<close>

text \<open>What \<open>struct_layout\<close> reads and writes of the \<open>Sym\<close> of a field. \<open>fd_aligned\<close> is the logarithm
  of the individual alignment plus one, 0 without one.\<close>

record lfield =
  fd_type :: ctype
  fd_aligned :: nat
  fd_packed :: bool
  fd_anon :: bool
  fd_c :: int
  fd_auxtype :: int

text \<open>What it reads of the structure and of the options of the compiler.\<close>

record lparams =
  lp_pcc :: bool
  lp_pragma :: int
  lp_packed :: bool
  lp_aligned :: nat
  lp_union :: bool

text \<open>The local variables of its first loop that live longer than a round.\<close>

record lstate =
  ls_c :: int
  ls_offset :: int
  ls_bit_pos :: int
  ls_maxalign :: int
  ls_prevbt :: u32
  ls_prev_bit_size :: int

definition bf_width :: "lfield \<Rightarrow> int" where
  "bf_width f = (if ct_t (fd_type f) AND VT_BITFIELD \<noteq> 0 then int (BIT_SIZE (ct_t (fd_type f))) else - 1)"

definition log_align :: "nat \<Rightarrow> int" where
  "log_align n = (if n \<noteq> 0 then 2 ^ (n - 1) else 0)"

text \<open>The alignment a field gets and whether it is packed.\<close>

definition field_align :: "lparams \<Rightarrow> lfield \<Rightarrow> int \<Rightarrow> int \<Rightarrow> int \<times> bool" where
  "field_align P f bs align =
     (let a = log_align (fd_aligned f);
          (align, packed, a) =
            (if lp_pcc P \<and> bs = 0 then (align, False, a)
             else
               let (align, packed) =
                     (if lp_pcc P \<and> (fd_packed f \<or> lp_packed P) then (1, True) else (align, False))
               in if lp_pragma P \<noteq> 0 then
                    ((if lp_pragma P < align then lp_pragma P else align), True,
                     (if lp_pcc P \<and> lp_pragma P < a then 0 else a))
                  else (align, packed, a))
      in (if a \<noteq> 0 then a else align, packed))"

definition set_bit_pos :: "u32 \<Rightarrow> int \<Rightarrow> u32" where
  "set_bit_pos t p = (t AND NOT (push_bit 20 0x3f)) OR push_bit 20 (word_of_int p)"

section \<open>The first loop\<close>

definition layout_union :: "lparams \<Rightarrow> int \<Rightarrow> int \<Rightarrow> lstate \<Rightarrow> lstate" where
  "layout_union P bs sz s =
     (let sz = (if lp_pcc P \<and> bs \<ge> 0 then (bs + 7) div 8 else sz)
      in s\<lparr>ls_offset := 0, ls_c := (if sz > ls_c s then sz else ls_c s)\<rparr>)"

definition layout_plain :: "lparams \<Rightarrow> int \<Rightarrow> int \<Rightarrow> lstate \<Rightarrow> lstate" where
  "layout_plain P sz align s =
     (let c = (if lp_pcc P then c_int (ls_c s + c_int (ls_bit_pos s + 7) div 8) else ls_c s);
          c = c_int (align_up c align)
      in s\<lparr>ls_offset := c, ls_c := (if sz > 0 then c_int (c + sz) else c), ls_bit_pos := 0,
           ls_prevbt := VT_STRUCT, ls_prev_bit_size := 0\<rparr>)"

text \<open>The loop \<open>while (bit_pos >= align * 8)\<close>. It need not end: \<open>align * 8\<close> is 0 for alignments of \<open>2 ^ 29\<close> and
  more.\<close>

partial_function (option) norm_pos :: "int \<Rightarrow> int \<Rightarrow> int \<Rightarrow> (int \<times> int) option" where
  "norm_pos align c bp =
     (if bp \<ge> c_int (align * 8) then norm_pos align (c_int (c + align)) (c_int (bp - c_int (align * 8))) else Some (c, bp))"

declare norm_pos.simps [code]

text \<open>A bit-field after GCC: the field, its alignment as far as the structure is concerned, the
  new state. The division is C's, towards 0; where it is done, the alignment is that of an
  integer type and \<open>align * 8\<close> is not 0.\<close>

definition pcc_new_field :: "lfield \<Rightarrow> int \<Rightarrow> int \<Rightarrow> bool \<Rightarrow> int \<Rightarrow> lstate \<Rightarrow> bool" where
  "pcc_new_field f sz align packed bs s \<longleftrightarrow>
     bs = 0 \<or> fd_aligned f \<noteq> 0 \<or>
     \<not> packed \<and>
       (let a8 = c_int (align * 8);
            ofs = c_int (c_int (ls_c s * 8 + ls_bit_pos s) smod a8 + bs + a8 - 1) sdiv a8
        in ofs > sz sdiv align)"

definition layout_pcc :: "lfield \<Rightarrow> int \<Rightarrow> int \<Rightarrow> bool \<Rightarrow> int \<Rightarrow> lstate \<Rightarrow> (lfield \<times> int \<times> lstate) option" where
  "layout_pcc f sz align packed bs s =
     do {
       let (c, bp) = (if pcc_new_field f sz align packed bs s
            then (c_int (align_up (ls_c s + c_int (ls_bit_pos s + 7) div 8) align), 0) else (ls_c s, ls_bit_pos s));
       let t = ct_t (fd_type f);
       let t = (if sz = 8 \<and> bs \<le> 32 then (t AND NOT VT_BTYPE) OR VT_INT else t);
       (c, bp) \<leftarrow> norm_pos align c bp;
       Some (f\<lparr>fd_type := (fd_type f)\<lparr>ct_t := t\<rparr>\<rparr>, (if fd_anon f then 1 else align),
          s\<lparr>ls_c := c, ls_bit_pos := bp, ls_offset := c\<rparr>)
     }"

text \<open>A bit-field after Microsoft: its alignment and the new state.\<close>

definition layout_ms :: "lfield \<Rightarrow> int \<Rightarrow> int \<Rightarrow> int \<Rightarrow> lstate \<Rightarrow> int \<times> lstate" where
  "layout_ms f sz align bs s =
     (let bt = ct_t (fd_type f) AND VT_BTYPE;
          s' = (if c_int (ls_bit_pos s + bs) > c_int (sz * 8) \<or> (bs > 0) = (bt \<noteq> ls_prevbt s) then
                  let c = c_int (align_up (ls_c s) align) in
                  s\<lparr>ls_c := (if bs \<noteq> 0 \<or> ls_prev_bit_size s \<noteq> 0 then c_int (c + sz) else c),
                    ls_offset := c, ls_bit_pos := 0\<rparr>
                else s)
      in (if bs = 0 \<and> ls_prevbt s \<noteq> bt then 1 else align,
          s'\<lparr>ls_prevbt := bt, ls_prev_bit_size := bs\<rparr>))"

text \<open>One round: the field and the state. The size and alignment of the type come along.\<close>

definition layout_bitfield ::
  "lparams \<Rightarrow> lfield \<Rightarrow> int \<Rightarrow> int \<Rightarrow> bool \<Rightarrow> int \<Rightarrow> lstate \<Rightarrow> (lfield \<times> int \<times> lstate) option" where
  "layout_bitfield P f sz align packed bs s =
     do {
       (f, align, s) \<leftarrow>
            (if lp_pcc P then layout_pcc f sz align packed bs s
             else let (align, s) = layout_ms f sz align bs s in Some (f, align, s));
       Some (f\<lparr>fd_type := (fd_type f)\<lparr>ct_t := set_bit_pos (ct_t (fd_type f)) (ls_bit_pos s)\<rparr>\<rparr>, align,
          s\<lparr>ls_bit_pos := c_int (ls_bit_pos s + bs)\<rparr>)
     }"

definition layout_step :: "lparams \<Rightarrow> lfield \<times> int \<times> int \<Rightarrow> lstate \<Rightarrow> (lfield \<times> lstate) option" where
  "layout_step P x s =
     do {
       let (f, sz, align) = x;
       let bs = bf_width f;
       let (align, packed) = field_align P f bs align;
       (f, align, s) \<leftarrow>
            (if lp_union P then Some (f, align, layout_union P bs sz s)
             else if bs < 0 then Some (f, align, layout_plain P sz align s)
             else layout_bitfield P f sz align packed bs s);
       Some (f\<lparr>fd_c := ls_offset s\<rparr>,
          s\<lparr>ls_maxalign := (if align > ls_maxalign s then align else ls_maxalign s)\<rparr>)
     }"

fun layout_fields :: "lparams \<Rightarrow> (lfield \<times> int \<times> int) list \<Rightarrow> lstate \<Rightarrow> (lfield list \<times> lstate) option" where
  "layout_fields P [] s = Some ([], s)"
| "layout_fields P (x # xs) s =
     do { (f, s) \<leftarrow> layout_step P x s; (fs, s) \<leftarrow> layout_fields P xs s; Some (f # fs, s) }"

section \<open>Size and alignment, access to bit-fields\<close>

definition layout_size :: "lparams \<Rightarrow> lstate \<Rightarrow> int \<times> int" where
  "layout_size P s =
     (let c = (if lp_pcc P then c_int (ls_c s + c_int (ls_bit_pos s + 7) div 8) else ls_c s);
          bt = (if lp_aligned P \<noteq> 0 then 2 ^ (lp_aligned P - 1) else 1);
          r = (if bt < ls_maxalign s then ls_maxalign s else bt);
          a = (if lp_pragma P \<noteq> 0 \<and> lp_pragma P < ls_maxalign s \<and> \<not> lp_pcc P
               then (if lp_pragma P < bt then bt else lp_pragma P) else r)
      in (c_int (align_up c a), r))"

definition access_type :: "int \<Rightarrow> u32" where
  "access_type n = (if n > 4 then VT_LLONG else if n > 2 then VT_INT else if n > 1 then VT_SHORT else VT_BYTE)"

text \<open>The loop that looks for a type to access a bit-field with. \<open>pos\<close> is \<open>f->c * 8 + bit_pos\<close>;
  the result is size, type, offset and bit position. \<open>None\<close> is a loop that has not ended in
  the given number of rounds.\<close>

fun fix_access :: "nat \<Rightarrow> syms \<Rightarrow> int \<Rightarrow> int \<Rightarrow> int \<Rightarrow> int \<Rightarrow> int \<Rightarrow> u32 \<Rightarrow> (int \<times> u32 \<times> int \<times> int) option" where
  "fix_access 0 h pos bs align c0 s t = None"
| "fix_access (Suc n) h pos bs align c0 s t =
     (let cx = (pos div 8) AND - align; px = c_int (pos - c_int (cx * 8)) in
      if c0 = cx then Some (s, t, cx, px)
      else let t = access_type (c_int (px + bs + 7) div 8) in
           (case type_size 1 h \<lparr>ct_t = t, ct_ref = 0\<rparr> of
              None \<Rightarrow> None
            | Some (s, align) \<Rightarrow> fix_access n h pos bs align cx s t))"

text \<open>The second loop, for one field of a structure of size \<open>c\<close>.\<close>

definition fix_field :: "syms \<Rightarrow> int \<Rightarrow> lfield \<Rightarrow> lfield option" where
  "fix_field h c f =
     (let t = ct_t (fd_type f); bs = int (BIT_SIZE t); bp = int (BIT_POS t) in
      if t AND VT_BITFIELD = 0 then Some f
      else if bs = 0 then Some (f\<lparr>fd_auxtype := - 1\<rparr>)
      else
        case type_size 1 h (fd_type f) of
          None \<Rightarrow> None
        | Some (sz, _) \<Rightarrow>
            if bp + bs \<le> sz * 8 \<and> c_int (fd_c f + sz) \<le> c then Some (f\<lparr>fd_auxtype := - 1\<rparr>)
            else
              (case fix_access 6 h (c_int (fd_c f * 8 + bp)) bs 1 (- 1) 1 VT_BYTE of
                 None \<Rightarrow> None
               | Some (s, ta, cx, px) \<Rightarrow>
                   if px + bs \<le> s * 8 \<and> c_int (cx + s) \<le> c then
                     Some (f\<lparr>fd_c := cx, fd_type := (fd_type f)\<lparr>ct_t := set_bit_pos t px\<rparr>,
                       fd_auxtype := (if s \<noteq> sz then uint ta else - 1)\<rparr>)
                   else Some (f\<lparr>fd_auxtype := 7\<rparr>)))"

definition init_lstate :: lstate where
  "init_lstate = \<lparr>ls_c = 0, ls_offset = 0, ls_bit_pos = 0, ls_maxalign = 1, ls_prevbt = VT_STRUCT, ls_prev_bit_size = 0\<rparr>"

text \<open>The whole: fields, size and alignment. The sizes of the types are read in the loop, which
  changes no type but that of the bit-field at hand; reading them first gives the same.\<close>

definition struct_layout :: "nat \<Rightarrow> syms \<Rightarrow> lparams \<Rightarrow> lfield list \<Rightarrow> (lfield list \<times> int \<times> int) option" where
  "struct_layout d h P fs =
     do {
       szs \<leftarrow> those (map (\<lambda>f. type_size d h (fd_type f)) fs);
       (fs', s) \<leftarrow> layout_fields P (zip fs szs) init_lstate;
       let (c, r) = layout_size P s;
       fs'' \<leftarrow> those (map (fix_field h c) fs');
       Some (fs'', c, r)
     }"

section \<open>The layout over the integers\<close>

text \<open>The same without a bound on sizes and offsets: the reference for the code.\<close>

definition layout_plain_z :: "lparams \<Rightarrow> int \<Rightarrow> int \<Rightarrow> lstate \<Rightarrow> lstate" where
  "layout_plain_z P sz align s =
     (let c = align_up (if lp_pcc P then ls_c s + (ls_bit_pos s + 7) div 8 else ls_c s) align
      in s\<lparr>ls_offset := c, ls_c := (if sz > 0 then c + sz else c), ls_bit_pos := 0,
           ls_prevbt := VT_STRUCT, ls_prev_bit_size := 0\<rparr>)"

function norm_pos_z :: "int \<Rightarrow> int \<Rightarrow> int \<Rightarrow> int \<times> int" where
  "norm_pos_z align c bp =
     (if align \<le> 0 \<or> bp < align * 8 then (c, bp) else norm_pos_z align (c + align) (bp - align * 8))"
  by auto
termination
  by (relation "measure (\<lambda>(a, c, bp). nat (if a \<le> 0 then 0 else bp + 1))") auto

declare norm_pos_z.simps [simp del]

definition pcc_new_field_z :: "lfield \<Rightarrow> int \<Rightarrow> int \<Rightarrow> bool \<Rightarrow> int \<Rightarrow> lstate \<Rightarrow> bool" where
  "pcc_new_field_z f sz align packed bs s \<longleftrightarrow>
     bs = 0 \<or> fd_aligned f \<noteq> 0 \<or>
     \<not> packed \<and>
       ((ls_c s * 8 + ls_bit_pos s) mod (align * 8) + bs + align * 8 - 1) div (align * 8) > sz div align"

definition layout_pcc_z :: "lfield \<Rightarrow> int \<Rightarrow> int \<Rightarrow> bool \<Rightarrow> int \<Rightarrow> lstate \<Rightarrow> lfield \<times> int \<times> lstate" where
  "layout_pcc_z f sz align packed bs s =
     (let (c, bp) = (if pcc_new_field_z f sz align packed bs s
            then (align_up (ls_c s + (ls_bit_pos s + 7) div 8) align, 0) else (ls_c s, ls_bit_pos s));
          t = ct_t (fd_type f);
          t = (if sz = 8 \<and> bs \<le> 32 then (t AND NOT VT_BTYPE) OR VT_INT else t);
          (c, bp) = norm_pos_z align c bp
      in (f\<lparr>fd_type := (fd_type f)\<lparr>ct_t := t\<rparr>\<rparr>, (if fd_anon f then 1 else align),
          s\<lparr>ls_c := c, ls_bit_pos := bp, ls_offset := c\<rparr>))"

definition layout_ms_z :: "lfield \<Rightarrow> int \<Rightarrow> int \<Rightarrow> int \<Rightarrow> lstate \<Rightarrow> int \<times> lstate" where
  "layout_ms_z f sz align bs s =
     (let bt = ct_t (fd_type f) AND VT_BTYPE;
          s' = (if ls_bit_pos s + bs > sz * 8 \<or> (bs > 0) = (bt \<noteq> ls_prevbt s) then
                  let c = align_up (ls_c s) align in
                  s\<lparr>ls_c := (if bs \<noteq> 0 \<or> ls_prev_bit_size s \<noteq> 0 then c + sz else c),
                    ls_offset := c, ls_bit_pos := 0\<rparr>
                else s)
      in (if bs = 0 \<and> ls_prevbt s \<noteq> bt then 1 else align,
          s'\<lparr>ls_prevbt := bt, ls_prev_bit_size := bs\<rparr>))"

definition layout_bitfield_z ::
  "lparams \<Rightarrow> lfield \<Rightarrow> int \<Rightarrow> int \<Rightarrow> bool \<Rightarrow> int \<Rightarrow> lstate \<Rightarrow> lfield \<times> int \<times> lstate" where
  "layout_bitfield_z P f sz align packed bs s =
     (let (f, align, s) =
            (if lp_pcc P then layout_pcc_z f sz align packed bs s
             else (let (align, s) = layout_ms_z f sz align bs s in (f, align, s)))
      in (f\<lparr>fd_type := (fd_type f)\<lparr>ct_t := set_bit_pos (ct_t (fd_type f)) (ls_bit_pos s)\<rparr>\<rparr>, align,
          s\<lparr>ls_bit_pos := ls_bit_pos s + bs\<rparr>))"

definition layout_step_z :: "lparams \<Rightarrow> lfield \<times> int \<times> int \<Rightarrow> lstate \<Rightarrow> lfield \<times> lstate" where
  "layout_step_z P x s =
     (let (f, sz, align) = x; bs = bf_width f; (align, packed) = field_align P f bs align;
          (f, align, s) =
            (if lp_union P then (f, align, layout_union P bs sz s)
             else if bs < 0 then (f, align, layout_plain_z P sz align s)
             else layout_bitfield_z P f sz align packed bs s)
      in (f\<lparr>fd_c := ls_offset s\<rparr>,
          s\<lparr>ls_maxalign := (if align > ls_maxalign s then align else ls_maxalign s)\<rparr>))"

fun layout_fields_z :: "lparams \<Rightarrow> (lfield \<times> int \<times> int) list \<Rightarrow> lstate \<Rightarrow> lfield list \<times> lstate" where
  "layout_fields_z P [] s = ([], s)"
| "layout_fields_z P (x # xs) s =
     (let (f, s) = layout_step_z P x s; (fs, s) = layout_fields_z P xs s in (f # fs, s))"

definition layout_size_z :: "lparams \<Rightarrow> lstate \<Rightarrow> int \<times> int" where
  "layout_size_z P s =
     (let c = (if lp_pcc P then ls_c s + (ls_bit_pos s + 7) div 8 else ls_c s);
          bt = (if lp_aligned P \<noteq> 0 then 2 ^ (lp_aligned P - 1) else 1);
          r = (if bt < ls_maxalign s then ls_maxalign s else bt);
          a = (if lp_pragma P \<noteq> 0 \<and> lp_pragma P < ls_maxalign s \<and> \<not> lp_pcc P
               then (if lp_pragma P < bt then bt else lp_pragma P) else r)
      in (align_up c a, r))"

fun fix_access_z :: "nat \<Rightarrow> syms \<Rightarrow> int \<Rightarrow> int \<Rightarrow> int \<Rightarrow> int \<Rightarrow> int \<Rightarrow> u32 \<Rightarrow> (int \<times> u32 \<times> int \<times> int) option" where
  "fix_access_z 0 h pos bs align c0 s t = None"
| "fix_access_z (Suc n) h pos bs align c0 s t =
     (let cx = (pos div 8) AND - align; px = pos - cx * 8 in
      if c0 = cx then Some (s, t, cx, px)
      else let t = access_type ((px + bs + 7) div 8) in
           (case type_size 1 h \<lparr>ct_t = t, ct_ref = 0\<rparr> of
              None \<Rightarrow> None
            | Some (s, align) \<Rightarrow> fix_access_z n h pos bs align cx s t))"

definition fix_field_z :: "syms \<Rightarrow> int \<Rightarrow> lfield \<Rightarrow> lfield option" where
  "fix_field_z h c f =
     (let t = ct_t (fd_type f); bs = int (BIT_SIZE t); bp = int (BIT_POS t) in
      if t AND VT_BITFIELD = 0 then Some f
      else if bs = 0 then Some (f\<lparr>fd_auxtype := - 1\<rparr>)
      else
        case type_size 1 h (fd_type f) of
          None \<Rightarrow> None
        | Some (sz, _) \<Rightarrow>
            if bp + bs \<le> sz * 8 \<and> fd_c f + sz \<le> c then Some (f\<lparr>fd_auxtype := - 1\<rparr>)
            else
              (case fix_access_z 6 h (fd_c f * 8 + bp) bs 1 (- 1) 1 VT_BYTE of
                 None \<Rightarrow> None
               | Some (s, ta, cx, px) \<Rightarrow>
                   if px + bs \<le> s * 8 \<and> cx + s \<le> c then
                     Some (f\<lparr>fd_c := cx, fd_type := (fd_type f)\<lparr>ct_t := set_bit_pos t px\<rparr>,
                       fd_auxtype := (if s \<noteq> sz then uint ta else - 1)\<rparr>)
                   else Some (f\<lparr>fd_auxtype := 7\<rparr>)))"

section \<open>Alignment\<close>

lemma log_align: "log_align n = 0 \<and> n = 0 \<or> is_pow2 (log_align n) \<and> n \<noteq> 0"
  by (simp add: log_align_def)

section \<open>Bit-fields in the type word\<close>

lemma bit_set_bit_pos:
  assumes "0 \<le> p" "p < 64"
  shows "bit (set_bit_pos t p) n \<longleftrightarrow> n < 32 \<and> (if 20 \<le> n \<and> n < 26 then bit p (n - 20) else bit t n)"
proof -
  have m: "(0x3f :: u32) = mask 6" by (simp add: mask_eq_exp_minus_1)
  have p: "k < 6" if "bit p k" for k
  proof -
    have "p = take_bit 6 p" using assms by (simp add: take_bit_int_eq_self)
    then show ?thesis using that by (metis bit_take_bit_iff)
  qed
  show ?thesis
    unfolding set_bit_pos_def m
    using p [of "n - 20"] by (auto simp add: bit_simps simp del: mask_numeral)
qed

lemma set_bit_pos:
  assumes "0 \<le> p" "p < 64"
  shows "BIT_POS (set_bit_pos t p) = nat p" "BIT_SIZE (set_bit_pos t p) = BIT_SIZE t"
    "set_bit_pos t p AND 15 = t AND 15" "set_bit_pos t p AND 128 = t AND 128"
proof -
  have m: "(0x3f :: u32) = mask 6" "(15 :: u32) = mask 4" "(128 :: u32) = push_bit 7 1"
    by (simp_all add: mask_eq_exp_minus_1)
  note b = bit_set_bit_pos [OF assms]
  have p: "take_bit 6 p = p" using assms by (simp add: take_bit_int_eq_self)
  have "drop_bit 20 (set_bit_pos t p) AND 0x3f = word_of_int p"
    unfolding m by (rule bit_word_eqI, subst p [symmetric]) (auto simp: bit_simps b simp del: mask_numeral)
  then show "BIT_POS (set_bit_pos t p) = nat p"
    unfolding BIT_POS_def using assms by (simp add: unsigned_of_int take_bit_int_eq_self)
  have "drop_bit 26 (set_bit_pos t p) AND 0x3f = drop_bit 26 t AND 0x3f"
    unfolding m by (rule bit_word_eqI) (auto simp: bit_simps b simp del: mask_numeral)
  then show "BIT_SIZE (set_bit_pos t p) = BIT_SIZE t" by (simp add: BIT_SIZE_def)
  show "set_bit_pos t p AND 15 = t AND 15"
    unfolding m by (rule bit_word_eqI) (auto simp: bit_simps b simp del: mask_numeral)
  show "set_bit_pos t p AND 128 = t AND 128"
    unfolding m and_single by (simp add: b)
qed

text \<open>Changing the basic type leaves the rest of the word.\<close>

lemma narrow_int:
  fixes t :: u32
  defines "t' \<equiv> (t AND NOT 15) OR 3"
  shows "BIT_SIZE t' = BIT_SIZE t" "t' AND 15 = 3" "t' AND 128 = t AND 128"
proof -
  have m: "(0x3f :: u32) = mask 6" "(15 :: u32) = mask 4" "(128 :: u32) = push_bit 7 1" "(3 :: u32) = mask 2"
    by (simp_all add: mask_eq_exp_minus_1)
  have "drop_bit 26 t' AND 0x3f = drop_bit 26 t AND 0x3f"
    unfolding m t'_def by (rule bit_word_eqI) (auto simp: bit_simps simp del: mask_numeral)
  then show "BIT_SIZE t' = BIT_SIZE t" by (simp add: BIT_SIZE_def)
  show "t' AND 15 = 3"
    unfolding m t'_def by (rule bit_word_eqI) (auto simp: bit_simps simp del: mask_numeral)
  have "bit t' 7 = bit t 7"
    unfolding m t'_def by (auto simp: bit_simps simp del: mask_numeral)
  then show "t' AND 128 = t AND 128" unfolding m and_single by simp
qed

section \<open>Moving the position\<close>

lemma norm_pos_z:
  assumes "norm_pos_z a c bp = (c', bp')" "0 < a" "0 \<le> bp"
  shows "8 * c' + bp' = 8 * c + bp" "bp' < 8 * a" "0 \<le> bp'" "c \<le> c'"
proof -
  have "8 * c' + bp' = 8 * c + bp \<and> bp' < 8 * a \<and> 0 \<le> bp' \<and> c \<le> c'"
    using assms
  proof (induction a c bp rule: norm_pos_z.induct)
    case (1 a c bp)
    show ?case
    proof (cases "bp < a * 8")
      case True
      then show ?thesis using 1 by (simp add: norm_pos_z.simps [of a c bp])
    next
      case False
      then show ?thesis using 1 by (force simp: norm_pos_z.simps [of a c bp])
    qed
  qed
  then show "8 * c' + bp' = 8 * c + bp" "bp' < 8 * a" "0 \<le> bp'" "c \<le> c'" by simp_all
qed

text \<open>A field whose type has a size and a power of two as alignment, and which is no wider than
  its type if it is a bit-field.\<close>

definition field_ok :: "lfield \<times> int \<times> int \<Rightarrow> bool" where
  "field_ok x \<longleftrightarrow> (case x of (f, sz, al) \<Rightarrow>
     is_pow2 al \<and>
     (ct_t (fd_type f) AND VT_BITFIELD \<noteq> 0 \<longrightarrow>
        is_integer_btype (ct_t (fd_type f) AND VT_BTYPE) \<and> sz = int (btype_size (ct_t (fd_type f) AND VT_BTYPE)) \<and>
        al = sz \<and> bf_width f \<le> 8 * sz))"

definition params_ok :: "lparams \<Rightarrow> bool" where
  "params_ok P \<longleftrightarrow> lp_pragma P = 0 \<or> is_pow2 (lp_pragma P)"

lemma bf_width_bounds: "bf_width f < 64" "- 1 \<le> bf_width f" "bf_width f < 0 \<longleftrightarrow> ct_t (fd_type f) AND VT_BITFIELD = 0"
proof -
  have "BIT_SIZE t < 64" for t
  proof -
    have "drop_bit 26 t AND 0x3f \<le> 0x3f" by (rule word_and_le1)
    then show ?thesis by (simp add: BIT_SIZE_def word_le_nat_alt)
  qed
  then show "bf_width f < 64" "- 1 \<le> bf_width f" "bf_width f < 0 \<longleftrightarrow> ct_t (fd_type f) AND VT_BITFIELD = 0"
    by (auto simp: bf_width_def)
qed

lemma btype_size_cases: "is_integer_btype b \<Longrightarrow> btype_size b \<in> {1, 2, 4, 8}"
  by (auto simp: is_integer_btype_def btype_size_def)

lemma field_align_pow2:
  assumes "field_align P f bs al = (al', packed)" "is_pow2 al" "params_ok P"
  shows "is_pow2 al'" "fd_aligned f = 0 \<Longrightarrow> al' \<le> al"
  using assms log_align [of "fd_aligned f"] is_pow2_pos [OF assms(2)]
  by (auto simp: field_align_def Let_def params_ok_def split: if_splits)

section \<open>Where fields end up\<close>

text \<open>The first bit of a field, and the first one after it.\<close>

definition field_start :: "lfield \<Rightarrow> int" where
  "field_start f = 8 * fd_c f +
     (if ct_t (fd_type f) AND VT_BITFIELD \<noteq> 0 then int (BIT_POS (ct_t (fd_type f))) else 0)"

definition field_stop :: "lfield \<Rightarrow> int \<Rightarrow> int" where
  "field_stop f sz = field_start f + (if bf_width f < 0 then 8 * max 0 sz else bf_width f)"

text \<open>What holds between two rounds, and the bit from which on nothing is placed yet. After
  Microsoft a run of bit-fields lies in a unit that the size already counts.\<close>

definition layout_inv :: "lparams \<Rightarrow> lstate \<Rightarrow> bool" where
  "layout_inv P s \<longleftrightarrow> 0 \<le> ls_c s \<and> 0 \<le> ls_bit_pos s \<and> 0 \<le> ls_offset s \<and>
     (if lp_pcc P then True
      else if ls_prevbt s = VT_STRUCT then ls_bit_pos s = 0
      else ls_bit_pos s \<le> 8 * int (btype_size (ls_prevbt s)) \<and>
        ls_offset s + int (btype_size (ls_prevbt s)) \<le> ls_c s)"

definition layout_frontier :: "lparams \<Rightarrow> lstate \<Rightarrow> int" where
  "layout_frontier P s =
     (if lp_pcc P \<or> ls_prevbt s = VT_STRUCT then 8 * ls_c s + ls_bit_pos s
      else 8 * ls_offset s + ls_bit_pos s)"

text \<open>After Microsoft a bit-field of width 0 has to follow one of positive width and the same type.\<close>

definition zero_ok :: "lparams \<Rightarrow> lfield \<Rightarrow> lstate \<Rightarrow> bool" where
  "zero_ok P f s \<longleftrightarrow> lp_pcc P \<or>
     (bf_width f = 0 \<longrightarrow> ls_prevbt s = ct_t (fd_type f) AND VT_BTYPE \<and> ls_prev_bit_size s > 0)"

lemma layout_plain_step:
  assumes "layout_inv P s" "is_pow2 al" "layout_plain_z P sz al s = s'"
  shows "layout_inv P s'" "layout_frontier P s \<le> 8 * ls_offset s'"
    "8 * ls_offset s' + 8 * max 0 sz \<le> layout_frontier P s'" "al dvd ls_offset s'"
proof -
  define k where "k = (if lp_pcc P then (ls_bit_pos s + 7) div 8 else 0)"
  define c where "c = align_up (ls_c s + k) al"
  note a = align_up [OF assms(2), of "ls_c s + k", folded c_def]
  have s': "s' = s\<lparr>ls_offset := c, ls_c := (if sz > 0 then c + sz else c), ls_bit_pos := 0,
      ls_prevbt := VT_STRUCT, ls_prev_bit_size := 0\<rparr>"
    using assms(3) by (auto simp: layout_plain_z_def c_def k_def Let_def)
  have k: "0 \<le> k" "lp_pcc P \<Longrightarrow> ls_bit_pos s \<le> 8 * k"
    using assms(1) by (auto simp: k_def layout_inv_def) 
  have f: "layout_frontier P s \<le> 8 * (ls_c s + k)"
    using assms(1) k by (auto simp: layout_frontier_def layout_inv_def split: if_splits)
  show "layout_inv P s'" "al dvd ls_offset s'" "layout_frontier P s \<le> 8 * ls_offset s'"
    "8 * ls_offset s' + 8 * max 0 sz \<le> layout_frontier P s'"
    using assms(1) a k f by (auto simp: s' layout_inv_def layout_frontier_def)
qed

lemma layout_pcc_step:
  assumes "layout_inv P s" "lp_pcc P" "is_pow2 al" "fd_aligned f \<noteq> 0 \<or> al \<le> 8" "0 \<le> bs"
    and "layout_pcc_z f sz al packed bs s = (f', al', s')"
  shows "layout_inv P s'" "layout_frontier P s \<le> layout_frontier P s'" "ls_bit_pos s' < 64"
    "ls_offset s' = ls_c s'" "bf_width f' = bf_width f" "ct_t (fd_type f') AND VT_BITFIELD = ct_t (fd_type f) AND VT_BITFIELD"
proof -
  define nf where "nf = pcc_new_field_z f sz al packed bs s"
  obtain c bp where nf: "(if nf then (align_up (ls_c s + (ls_bit_pos s + 7) div 8) al, 0) else (ls_c s, ls_bit_pos s)) = (c, bp)"
    by fastforce
  obtain c' bp' where s'': "norm_pos_z al c bp = (c', bp')" by fastforce
  have s': "s' = s\<lparr>ls_c := c', ls_bit_pos := bp', ls_offset := c'\<rparr>"
    and f': "f' = f\<lparr>fd_type := (fd_type f)\<lparr>ct_t := (if sz = 8 \<and> bs \<le> 32
        then (ct_t (fd_type f) AND NOT VT_BTYPE) OR VT_INT else ct_t (fd_type f))\<rparr>\<rparr>"
    using assms(6) unfolding layout_pcc_z_def nf_def [symmetric] nf Let_def by (auto simp: s'')
  have nfa: "nf" if "fd_aligned f \<noteq> 0" using that by (simp add: nf_def pcc_new_field_z_def)
  have c: "ls_c s \<le> c" "8 * ls_c s + ls_bit_pos s \<le> 8 * c + bp" "0 \<le> bp" "nf \<Longrightarrow> bp = 0"
    using nf align_up(1) [OF assms(3), of "ls_c s + (ls_bit_pos s + 7) div 8"] assms(1)
    by (auto simp: layout_inv_def split: if_splits)
  have p: "0 < al" by (rule is_pow2_pos [OF assms(3)])
  note n = norm_pos_z [OF s'' p c(3)]
  show "layout_inv P s'" "layout_frontier P s \<le> layout_frontier P s'" "ls_offset s' = ls_c s'"
    using assms(1,2) n c by (auto simp: s' layout_inv_def layout_frontier_def)
  show "ls_bit_pos s' < 64"
  proof (cases nf)
    case True
    then have "bp = 0" using c(4) by simp
    then have "norm_pos_z al c bp = (c, bp)" using p by (simp add: norm_pos_z.simps)
    then show ?thesis using s'' \<open>bp = 0\<close> by (simp add: s')
  next
    case False
    then have "al \<le> 8" using nfa assms(4) by blast
    then show ?thesis using n(2) by (simp add: s')
  qed
  show "bf_width f' = bf_width f" "ct_t (fd_type f') AND VT_BITFIELD = ct_t (fd_type f) AND VT_BITFIELD"
    using narrow_int [of "ct_t (fd_type f)"] by (simp_all add: f' bf_width_def)
qed

lemma layout_ms_step:
  assumes "layout_inv P s" "\<not> lp_pcc P" "is_pow2 al" "0 \<le> bf_width f" "bf_width f \<le> 8 * sz" "zero_ok P f s"
    and "is_integer_btype (ct_t (fd_type f) AND VT_BTYPE)" "sz = int (btype_size (ct_t (fd_type f) AND VT_BTYPE))"
    and "layout_ms_z f sz al (bf_width f) s = (al', s')"
  shows "layout_inv P (s'\<lparr>ls_bit_pos := ls_bit_pos s' + bf_width f\<rparr>)" "layout_frontier P s \<le> 8 * ls_offset s' + ls_bit_pos s'"
    "0 \<le> ls_bit_pos s'" "ls_bit_pos s' < 64"
    "layout_frontier P (s'\<lparr>ls_bit_pos := ls_bit_pos s' + bf_width f\<rparr>) = 8 * ls_offset s' + ls_bit_pos s' + bf_width f"
proof -
  let ?bt = "ct_t (fd_type f) AND VT_BTYPE"
  define new where "new \<longleftrightarrow> ls_bit_pos s + bf_width f > sz * 8 \<or> (bf_width f > 0) = (?bt \<noteq> ls_prevbt s)"
  define c where "c = align_up (ls_c s) al"
  have bt7: "?bt \<noteq> 7" using assms(7) by (auto simp: is_integer_btype_def)
  have sz: "1 \<le> sz" "sz \<le> 8" using btype_size_cases [OF assms(7)] assms(8) by auto
  have ci: "ls_c s \<le> c" using align_up(1) [OF assms(3)] by (simp add: c_def)
  have s': "s' = (if new then s\<lparr>ls_c := (if bf_width f \<noteq> 0 \<or> ls_prev_bit_size s \<noteq> 0 then c + sz else c),
        ls_offset := c, ls_bit_pos := 0\<rparr> else s)\<lparr>ls_prevbt := ?bt, ls_prev_bit_size := bf_width f\<rparr>"
    using assms(9) by (auto simp: layout_ms_z_def new_def c_def Let_def)
  have F: "layout_frontier P s \<le> 8 * ls_c s"
    using assms(1,2) by (auto simp: layout_frontier_def layout_inv_def split: if_splits)
  define w where "w = bf_width f"
  note w = assms(4,5) [folded w_def] bf_width_bounds(1) [of f, folded w_def]
  have st: "ls_prevbt s' = ?bt"
    "ls_bit_pos s' = (if new then 0 else ls_bit_pos s)" "ls_offset s' = (if new then c else ls_offset s)"
    "ls_c s' = (if new then if w \<noteq> 0 \<or> ls_prev_bit_size s \<noteq> 0 then c + sz else c else ls_c s)"
    by (simp_all add: s' w_def)
  have "0 \<le> ls_bit_pos s' \<and> ls_bit_pos s' < 64 \<and> ls_bit_pos s' + w \<le> 8 * sz \<and>
      0 \<le> ls_c s' \<and> 0 \<le> ls_offset s' \<and> ls_offset s' + sz \<le> ls_c s' \<and>
      layout_frontier P s \<le> 8 * ls_offset s' + ls_bit_pos s'"
  proof (cases new)
    case True
    have "w \<noteq> 0 \<or> ls_prev_bit_size s \<noteq> 0" using assms(2,6) by (auto simp: zero_ok_def w_def)
    then show ?thesis using True st w sz ci F assms(1) by (simp add: layout_inv_def)
  next
    case False
    then have n: "ls_bit_pos s + w \<le> sz * 8" "(w > 0) \<noteq> (?bt \<noteq> ls_prevbt s)" by (simp_all add: new_def w_def)
    then have bt: "ls_prevbt s = ?bt" and "w > 0"
      using assms(2,6) w(1) by (auto simp: zero_ok_def w_def)
    then have "layout_frontier P s = 8 * ls_offset s + ls_bit_pos s" "ls_offset s + sz \<le> ls_c s"
      using assms(1,2) bt7 by (simp_all add: layout_frontier_def layout_inv_def assms(8))
    then show ?thesis using False st n sz \<open>w > 0\<close> assms(1) by (simp add: layout_inv_def)
  qed
  then show "layout_inv P (s'\<lparr>ls_bit_pos := ls_bit_pos s' + bf_width f\<rparr>)" "layout_frontier P s \<le> 8 * ls_offset s' + ls_bit_pos s'"
    "0 \<le> ls_bit_pos s'" "ls_bit_pos s' < 64"
    "layout_frontier P (s'\<lparr>ls_bit_pos := ls_bit_pos s' + bf_width f\<rparr>) = 8 * ls_offset s' + ls_bit_pos s' + bf_width f"
    using bt7 assms(2) w(1) st(1) by (simp_all add: layout_inv_def layout_frontier_def w_def flip: assms(8))
qed

lemma layout_bitfield_step:
  assumes "layout_inv P s" "field_ok (f, sz, al0)" "zero_ok P f s" "is_pow2 al" "fd_aligned f \<noteq> 0 \<or> al \<le> 8"
    and "0 \<le> bf_width f" "layout_bitfield_z P f sz al packed (bf_width f) s = (f', al', s')"
  shows "layout_inv P s'" "layout_frontier P s \<le> 8 * ls_offset s' + int (BIT_POS (ct_t (fd_type f')))"
    "8 * ls_offset s' + int (BIT_POS (ct_t (fd_type f'))) + bf_width f \<le> layout_frontier P s'"
    "bf_width f' = bf_width f"
proof -
  have bit: "ct_t (fd_type f) AND VT_BITFIELD \<noteq> 0" using assms(6) bf_width_bounds(3) [of f] by linarith
  have "layout_inv P s' \<and> layout_frontier P s \<le> 8 * ls_offset s' + int (BIT_POS (ct_t (fd_type f'))) \<and>
    8 * ls_offset s' + int (BIT_POS (ct_t (fd_type f'))) + bf_width f \<le> layout_frontier P s' \<and> bf_width f' = bf_width f"
  proof (cases "lp_pcc P")
    case True
    obtain g a u where g: "layout_pcc_z f sz al packed (bf_width f) s = (g, a, u)" using prod_cases3 by blast
    note n = layout_pcc_step [OF assms(1) True assms(4,5,6) g]
    have r: "f' = g\<lparr>fd_type := (fd_type g)\<lparr>ct_t := set_bit_pos (ct_t (fd_type g)) (ls_bit_pos u)\<rparr>\<rparr>"
      "s' = u\<lparr>ls_bit_pos := ls_bit_pos u + bf_width f\<rparr>"
      using assms(7) True g by (auto simp: layout_bitfield_z_def Let_def)
    have "0 \<le> ls_bit_pos u" using n(1) by (simp add: layout_inv_def)
    note b = set_bit_pos [OF this n(3), of "ct_t (fd_type g)"]
    have "bf_width f' = bf_width g" by (simp add: r bf_width_def b)
    then show ?thesis using n assms(6) True b by (auto simp: r layout_inv_def layout_frontier_def)
  next
    case False
    have fo: "is_integer_btype (ct_t (fd_type f) AND VT_BTYPE)" "sz = int (btype_size (ct_t (fd_type f) AND VT_BTYPE))"
      "bf_width f \<le> 8 * sz"
      using assms(2) bit by (simp_all add: field_ok_def)
    obtain a u where g: "layout_ms_z f sz al (bf_width f) s = (a, u)" by fastforce
    note n = layout_ms_step [OF assms(1) False assms(4,6) fo(3) assms(3) fo(1,2) g]
    have r: "f' = f\<lparr>fd_type := (fd_type f)\<lparr>ct_t := set_bit_pos (ct_t (fd_type f)) (ls_bit_pos u)\<rparr>\<rparr>"
      "s' = u\<lparr>ls_bit_pos := ls_bit_pos u + bf_width f\<rparr>"
      using assms(7) False g by (auto simp: layout_bitfield_z_def Let_def)
    note b = set_bit_pos [OF n(3,4), of "ct_t (fd_type f)"]
    have "bf_width f' = bf_width f" by (simp add: r bf_width_def b)
    then show ?thesis using n b by (simp add: r)
  qed
  then show "layout_inv P s'" "layout_frontier P s \<le> 8 * ls_offset s' + int (BIT_POS (ct_t (fd_type f')))"
    "8 * ls_offset s' + int (BIT_POS (ct_t (fd_type f'))) + bf_width f \<le> layout_frontier P s'"
    "bf_width f' = bf_width f" by simp_all
qed

text \<open>One round places its field after the frontier and moves the frontier behind it.\<close>

lemma layout_step_bits:
  assumes "layout_inv P s" "field_ok (f, sz, al)" "zero_ok P f s" "params_ok P" "\<not> lp_union P"
    and "layout_step_z P (f, sz, al) s = (f', s')"
  shows "layout_inv P s'" "layout_frontier P s \<le> field_start f'" "field_stop f' sz \<le> layout_frontier P s'"
    "bf_width f' = bf_width f" "0 \<le> fd_c f'"
proof -
  obtain al1 packed where al1: "field_align P f (bf_width f) al = (al1, packed)" by fastforce
  have al: "is_pow2 al" using assms(2) by (simp add: field_ok_def)
  note p = field_align_pow2 [OF al1 al assms(4)]
  have "layout_inv P s' \<and> layout_frontier P s \<le> field_start f' \<and> field_stop f' sz \<le> layout_frontier P s' \<and>
    bf_width f' = bf_width f"
  proof (cases "bf_width f < 0")
    case True
    define u where "u = layout_plain_z P sz al1 s"
    obtain m where r: "f' = f\<lparr>fd_c := ls_offset u\<rparr>" "s' = u\<lparr>ls_maxalign := m\<rparr>"
      using assms(5) True al1 assms(6) [symmetric] by (simp add: layout_step_z_def Let_def flip: u_def)
    have w: "bf_width f' = bf_width f" "ct_t (fd_type f') AND VT_BITFIELD = 0"
      using True bf_width_bounds(3) [of f] by (simp_all add: r bf_width_def)
    have "layout_inv P s' = layout_inv P u" "layout_frontier P s' = layout_frontier P u"
      by (simp_all add: r layout_inv_def layout_frontier_def)
    then show ?thesis
      using layout_plain_step [OF assms(1) p(1) u_def [symmetric]] True w
      by (simp add: field_start_def field_stop_def) (simp add: r)
  next
    case False
    have bit: "ct_t (fd_type f) AND VT_BITFIELD \<noteq> 0" using False bf_width_bounds(3) [of f] by blast
    have "al \<le> 8"
      using assms(2) bit btype_size_cases [of "ct_t (fd_type f) AND VT_BTYPE"] by (auto simp: field_ok_def)
    then have le8: "fd_aligned f \<noteq> 0 \<or> al1 \<le> 8" using p(2) by fastforce
    obtain g a u where g: "layout_bitfield_z P f sz al1 packed (bf_width f) s = (g, a, u)" using prod_cases3 by blast
    obtain m where r: "f' = g\<lparr>fd_c := ls_offset u\<rparr>" "s' = u\<lparr>ls_maxalign := m\<rparr>"
      using assms(5) False al1 g assms(6) [symmetric] by (simp add: layout_step_z_def Let_def)
    have nn: "0 \<le> bf_width f" using False by simp
    note n = layout_bitfield_step [OF assms(1,2,3) p(1) le8 nn g]
    have "bf_width f' = bf_width g" by (simp add: r bf_width_def)
    then have w: "bf_width f' = bf_width f" using n(4) by simp
    then have "ct_t (fd_type f') AND VT_BITFIELD \<noteq> 0" using False bf_width_bounds(3) [of f'] by simp
    then have st: "field_start f' = 8 * ls_offset u + int (BIT_POS (ct_t (fd_type g)))"
      by (simp add: field_start_def r)
    have "layout_inv P s' = layout_inv P u" "layout_frontier P s' = layout_frontier P u"
      by (simp_all add: r layout_inv_def layout_frontier_def)
    then show ?thesis using n False by (simp add: field_stop_def st w)
  qed
  moreover have "fd_c f' = ls_offset s'"
    using assms(6) [symmetric] by (simp add: layout_step_z_def Let_def split: prod.splits)
  ultimately show "layout_inv P s'" "layout_frontier P s \<le> field_start f'" "field_stop f' sz \<le> layout_frontier P s'"
    "bf_width f' = bf_width f" "0 \<le> fd_c f'" by (simp_all add: layout_inv_def)
qed

text \<open>The fields of a structure for which zero widths are no trouble.\<close>

fun zeros_ok :: "lparams \<Rightarrow> lfield option \<Rightarrow> lfield list \<Rightarrow> bool" where
  "zeros_ok P prev [] = True"
| "zeros_ok P prev (f # fs) =
     ((lp_pcc P \<or> bf_width f \<noteq> 0 \<or>
       (case prev of None \<Rightarrow> False
        | Some g \<Rightarrow> bf_width g > 0 \<and> ct_t (fd_type g) AND VT_BTYPE = ct_t (fd_type f) AND VT_BTYPE)) \<and>
      zeros_ok P (Some f) fs)"

definition prev_ok :: "lparams \<Rightarrow> lfield option \<Rightarrow> lstate \<Rightarrow> bool" where
  "prev_ok P prev s \<longleftrightarrow> lp_pcc P \<or>
     (case prev of None \<Rightarrow> True
      | Some g \<Rightarrow> bf_width g > 0 \<longrightarrow>
          ls_prevbt s = ct_t (fd_type g) AND VT_BTYPE \<and> ls_prev_bit_size s = bf_width g)"

lemma prev_ok_step:
  assumes "layout_step_z P (f, sz, al) s = (f', s')" "\<not> lp_union P"
  shows "prev_ok P (Some f) s'"
proof (cases "lp_pcc P \<or> bf_width f \<le> 0")
  case False
  obtain a packed where a: "field_align P f (bf_width f) al = (a, packed)" by fastforce
  obtain b u where u: "layout_ms_z f sz a (bf_width f) s = (b, u)" by fastforce
  have "ls_prevbt u = ct_t (fd_type f) AND VT_BTYPE" "ls_prev_bit_size u = bf_width f"
    using u by (auto simp: layout_ms_z_def Let_def)
  moreover have "ls_prevbt s' = ls_prevbt u" "ls_prev_bit_size s' = ls_prev_bit_size u"
    using assms(1) [symmetric] assms(2) False a u by (simp_all add: layout_step_z_def layout_bitfield_z_def Let_def)
  ultimately show ?thesis by (simp add: prev_ok_def)
qed (auto simp: prev_ok_def)

lemma layout_fields_bits:
  assumes "layout_inv P s" "\<forall>x\<in>set xs. field_ok x" "zeros_ok P prev (map fst xs)" "prev_ok P prev s"
    and "params_ok P" "\<not> lp_union P" "layout_fields_z P xs s = (fs, s')"
  shows "layout_inv P s' \<and> layout_frontier P s \<le> layout_frontier P s' \<and> length fs = length xs \<and>
    list_all2 (\<lambda>f x. layout_frontier P s \<le> field_start f \<and> field_stop f (fst (snd x)) \<le> layout_frontier P s' \<and>
      bf_width f = bf_width (fst x) \<and> 0 \<le> fd_c f) fs xs \<and>
    sorted_wrt (\<lambda>(f, x) (g, y). field_stop f (fst (snd x)) \<le> field_start g) (zip fs xs)"
  using assms
proof (induction xs arbitrary: s prev fs)
  case Nil
  then show ?case by simp
next
  case (Cons x xs)
  obtain f sz al where x: "x = (f, sz, al)" using prod_cases3 by blast
  obtain f' u where f': "layout_step_z P x s = (f', u)" by fastforce
  obtain fs' where fs': "layout_fields_z P xs u = (fs', s')" "fs = f' # fs'"
    using Cons.prems(7) f' by (auto simp: Let_def split: prod.splits)
  have z: "zero_ok P f s" using Cons.prems(3,4) by (auto simp: zero_ok_def prev_ok_def x split: option.splits)
  note st = layout_step_bits [OF Cons.prems(1) _ z Cons.prems(5,6) f' [unfolded x]]
  have st: "layout_inv P u" "layout_frontier P s \<le> field_start f'" "field_stop f' sz \<le> layout_frontier P u"
    "bf_width f' = bf_width f" "0 \<le> fd_c f'"
    using st Cons.prems(2) by (simp_all add: x)
  have IH: "layout_inv P s' \<and> layout_frontier P u \<le> layout_frontier P s' \<and> length fs' = length xs \<and>
    list_all2 (\<lambda>f x. layout_frontier P u \<le> field_start f \<and> field_stop f (fst (snd x)) \<le> layout_frontier P s' \<and>
      bf_width f = bf_width (fst x) \<and> 0 \<le> fd_c f) fs' xs \<and>
    sorted_wrt (\<lambda>(f, x) (g, y). field_stop f (fst (snd x)) \<le> field_start g) (zip fs' xs)"
    by (rule Cons.IH [OF st(1) _ _ prev_ok_step [OF f' [unfolded x] Cons.prems(6)] Cons.prems(5,6) fs'(1)])
      (use Cons.prems(2,3) in \<open>simp_all add: x\<close>)
  have "field_start f' \<le> field_stop f' sz" by (auto simp: field_stop_def)
  then have mono: "layout_frontier P s \<le> layout_frontier P u" using st(2,3) by linarith
  have "list_all2 (\<lambda>f x. layout_frontier P s \<le> field_start f \<and> field_stop f (fst (snd x)) \<le> layout_frontier P s' \<and>
      bf_width f = bf_width (fst x) \<and> 0 \<le> fd_c f) fs' xs"
    using IH mono by (auto elim!: list_all2_mono)
  moreover have "\<forall>(g, y)\<in>set (zip fs' xs). field_stop f' sz \<le> field_start g"
    using IH st(3) by (fastforce simp: list_all2_iff)
  ultimately show ?case using IH st mono by (simp add: fs'(2) x)
qed

section \<open>Access to bit-fields\<close>

text \<open>The size, which is the alignment too, of the type chosen for an access from units of \<open>a\<close> bytes.\<close>

definition access_size :: "int \<Rightarrow> int" where
  "access_size n = (if n > 4 then 8 else if n > 2 then 4 else if n > 1 then 2 else 1)"

definition next_unit :: "int \<Rightarrow> int \<Rightarrow> int \<Rightarrow> int" where
  "next_unit pos bs a = access_size ((pos - (pos div 8 - (pos div 8) mod a) * 8 + bs + 7) div 8)"

lemma access_size_cases: "access_size n \<in> {1, 2, 4, 8}"
  by (auto simp: access_size_def)

lemma access_size_mono: "m \<le> n \<Longrightarrow> access_size m \<le> access_size n"
  by (auto simp: access_size_def)

lemma next_unit_mono:
  assumes "a dvd b" "0 < b"
  shows "next_unit pos bs a \<le> next_unit pos bs b"
proof -
  have "(pos div 8) mod a = (pos div 8) mod b mod a" using assms(1) by (simp add: mod_mod_cancel)
  also have "\<dots> \<le> (pos div 8) mod b" using assms(2) by (intro zmod_le_nonneg_dividend) simp
  finally show ?thesis unfolding next_unit_def by (intro access_size_mono zdiv_mono1) simp_all
qed

lemma type_size_access:
  "type_size 1 h \<lparr>ct_t = access_type n, ct_ref = 0\<rparr> = Some (access_size n, access_size n)"
  by (simp add: access_type_def IS_ENUM_def Let_def access_size_def)

lemma fix_access_returns:
  assumes "0 \<le> pos" "a \<in> {1, 2, 4, 8}" "a \<le> next_unit pos bs a"
    and "n \<ge> 2 + (if a = 1 then 3 else if a = 2 then 2 else if a = 4 then 1 else 0)"
    and "type_size 1 h \<lparr>ct_t = t, ct_ref = 0\<rparr> = Some (s, s)" "t \<in> {1, 2, 3, 4}"
  shows "\<exists>s' t' cx px. fix_access_z n h pos bs a c0 s t = Some (s', t', cx, px) \<and> t' \<in> {1, 2, 3, 4} \<and>
    type_size 1 h \<lparr>ct_t = t', ct_ref = 0\<rparr> = Some (s', s') \<and> pos = 8 * cx + px \<and> 0 \<le> cx \<and> 0 \<le> px \<and> px < 64"
  using assms
proof (induction n arbitrary: a c0 s t)
  case (Suc n)
  define cx where "cx = pos div 8 - (pos div 8) mod a"
  have a: "is_pow2 a" "0 < a" "a \<le> 8" using Suc.prems(2) by auto
  have cx: "(pos div 8) AND - a = cx" unfolding cx_def by (rule and_minus_pow2 [OF a(1)])
  have m: "0 \<le> (pos div 8) mod a" "(pos div 8) mod a < a" "(pos div 8) mod a \<le> pos div 8"
    using a Suc.prems(1) by (simp_all add: zmod_le_nonneg_dividend)
  have px: "0 \<le> cx" "0 \<le> pos - cx * 8" "pos - cx * 8 < 64"
    using m Suc.prems(1) a(3) by (simp_all add: cx_def)
  define b where "b = next_unit pos bs a"
  have b: "b = access_size ((pos - cx * 8 + bs + 7) div 8)" by (simp add: b_def next_unit_def cx_def)
  let ?t = "access_type ((pos - cx * 8 + bs + 7) div 8)"
  have ty: "type_size 1 h \<lparr>ct_t = ?t, ct_ref = 0\<rparr> = Some (b, b)" unfolding b by (rule type_size_access)
  have t4: "?t \<in> {1, 2, 3, 4}" by (simp add: access_type_def)
  have bc: "b \<in> {1, 2, 4, 8}" unfolding b by (rule access_size_cases)
  have ab: "a \<le> b" using Suc.prems(3) by (simp add: b_def)
  have le: "b \<le> next_unit pos bs b"
    using next_unit_mono [of a b pos bs] is_pow2_dvd [OF a(1) _ ab] bc by (auto simp: b_def)
  show ?case
  proof (cases "c0 = cx")
    case True
    then show ?thesis using Suc.prems(5,6) px by (simp add: cx Let_def)
  next
    case False
    have step: "fix_access_z (Suc n) h pos bs a c0 s t = fix_access_z n h pos bs b cx b ?t"
      using False ty by (simp add: cx Let_def del: One_nat_def)
    show ?thesis
    proof (cases "b = a")
      case True
      then obtain k where k: "n = Suc k" using Suc.prems(4) by (cases n) auto
      have "fix_access_z n h pos bs b cx b ?t = Some (b, ?t, cx, pos - cx * 8)"
        using True by (simp add: k cx Let_def)
      then show ?thesis unfolding step using ty t4 px by (simp add: mult.commute)
    next
      case False
      then have "n \<ge> 2 + (if b = 1 then 3 else if b = 2 then 2 else if b = 4 then 1 else 0)"
        using Suc.prems(2,4) ab bc by auto
      then show ?thesis unfolding step using Suc.IH [OF Suc.prems(1) bc le _ ty t4] by blast
    qed
  qed
qed simp

text \<open>The type a field is accessed with: its own, or the one of \<open>auxtype\<close>.\<close>

definition access_ctype :: "lfield \<Rightarrow> ctype" where
  "access_ctype f = (if fd_auxtype f = - 1 then fd_type f else \<lparr>ct_t = word_of_int (fd_auxtype f), ct_ref = 0\<rparr>)"

lemma type_size_bitfield:
  assumes "is_integer_btype (ct_t ty AND VT_BTYPE)" "ct_t ty AND VT_BITFIELD \<noteq> 0"
  shows "type_size (Suc d) h ty = Some (int (btype_size (ct_t ty AND VT_BTYPE)), int (btype_size (ct_t ty AND VT_BTYPE)))"
proof -
  have "\<not> IS_ENUM (ct_t ty)"
  proof
    assume "IS_ENUM (ct_t ty)"
    then have "(ct_t ty AND VT_STRUCT_MASK) AND 128 = VT_ENUM AND 128" by (simp add: IS_ENUM_def)
    then show False using assms(2) by (simp add: and.assoc)
  qed
  then show ?thesis using assms(1) by (auto simp: is_integer_btype_def btype_size_def Let_def)
qed

text \<open>The search for an access type, for a field that its own type cannot reach.\<close>

lemma fix_field_search:
  assumes "is_integer_btype (ct_t (fd_type f) AND VT_BTYPE)" "ct_t (fd_type f) AND VT_BITFIELD \<noteq> 0" "0 \<le> fd_c f"
    and t: "t = ct_t (fd_type f)"
    and far: "\<not> (BIT_SIZE t = 0 \<or> int (BIT_POS t) + int (BIT_SIZE t) \<le> int (btype_size (t AND 15)) * 8 \<and>
      fd_c f + int (btype_size (t AND 15)) \<le> c)"
  shows "\<exists>f'. fix_field_z h c f = Some f' \<and> field_start f' = field_start f \<and> bf_width f' = bf_width f \<and> 0 \<le> fd_c f' \<and>
    (bf_width f > 0 \<and> fd_auxtype f' \<noteq> 7 \<longrightarrow>
      (\<exists>s al. type_size 1 h (access_ctype f') = Some (s, al) \<and> fd_c f' + s \<le> c \<and>
        field_start f' + bf_width f \<le> 8 * (fd_c f' + s)))"
proof -
  have bit: "t AND 128 \<noteq> 0" using assms(2) by (simp add: t)
  have ty: "type_size 1 h (fd_type f) = Some (int (btype_size (t AND 15)), int (btype_size (t AND 15)))"
    using type_size_bitfield [of "fd_type f" 0] assms(1,2) by (simp add: t)
  have w: "bf_width f = int (BIT_SIZE t)" using bit by (simp add: bf_width_def t)
  have st: "field_start f = 8 * fd_c f + int (BIT_POS t)" using bit by (simp add: field_start_def t)
  have p: "0 \<le> fd_c f * 8 + int (BIT_POS t)" using assms(3) by simp
  have one: "type_size 1 h \<lparr>ct_t = 1, ct_ref = 0\<rparr> = Some (1, 1)" by (simp add: IS_ENUM_def)
  have nu: "1 \<le> next_unit (fd_c f * 8 + int (BIT_POS t)) (int (BIT_SIZE t)) 1"
    by (simp add: next_unit_def access_size_def)
  obtain s ta cx px where fx:
      "fix_access_z 6 h (fd_c f * 8 + int (BIT_POS t)) (int (BIT_SIZE t)) 1 (- 1) 1 1 = Some (s, ta, cx, px)"
      "ta \<in> {1, 2, 3, 4}" "type_size 1 h \<lparr>ct_t = ta, ct_ref = 0\<rparr> = Some (s, s)"
      "fd_c f * 8 + int (BIT_POS t) = 8 * cx + px" "0 \<le> cx" "0 \<le> px" "px < 64"
    using fix_access_returns [OF p _ nu _ one, of 6 "- 1"] by auto
  note b = set_bit_pos [OF fx(6,7), of t]
  show ?thesis
  proof (cases "px + int (BIT_SIZE t) \<le> s * 8 \<and> cx + s \<le> c")
    case True
    define f' where "f' = f\<lparr>fd_c := cx, fd_type := (fd_type f)\<lparr>ct_t := set_bit_pos t px\<rparr>,
                     fd_auxtype := (if s \<noteq> int (btype_size (t AND 15)) then uint ta else - 1)\<rparr>"
    have e: "fix_field_z h c f = Some f'"
      using bit ty fx(1) True far
      by (auto simp: fix_field_z_def t [symmetric] f'_def Let_def simp del: One_nat_def)
    have st': "field_start f' = 8 * cx + px" using bit fx(6) by (simp add: field_start_def f'_def b)
    have w': "bf_width f' = bf_width f" using bit by (simp add: w) (simp add: bf_width_def f'_def b)
    have "type_size 1 h (access_ctype f') = Some (s, s)"
    proof (cases "s = int (btype_size (t AND 15))")
      case True
      then show ?thesis
        using type_size_bitfield [of "fd_type f'" 0] assms(1) bit
        by (simp add: access_ctype_def f'_def b) (simp add: t)
    next
      case False
      then show ?thesis using fx(2,3) by (auto simp: access_ctype_def f'_def simp del: One_nat_def)
    qed
    then show ?thesis using e st' w' st fx(4,5) True w by (auto simp: f'_def)
  next
    case no: False
    have "fix_field_z h c f = Some (f\<lparr>fd_auxtype := 7\<rparr>)"
      using bit ty fx(1) no far
      by (auto simp: fix_field_z_def t [symmetric] Let_def simp del: One_nat_def)
    then show ?thesis using assms(3) by (simp add: field_start_def bf_width_def)
  qed
qed

lemma fix_field_ok:
  assumes "is_integer_btype (ct_t (fd_type f) AND VT_BTYPE)" "ct_t (fd_type f) AND VT_BITFIELD \<noteq> 0" "0 \<le> fd_c f"
  shows "\<exists>f'. fix_field_z h c f = Some f' \<and> field_start f' = field_start f \<and> bf_width f' = bf_width f \<and> 0 \<le> fd_c f' \<and>
    (bf_width f > 0 \<and> fd_auxtype f' \<noteq> 7 \<longrightarrow>
      (\<exists>s al. type_size 1 h (access_ctype f') = Some (s, al) \<and> fd_c f' + s \<le> c \<and>
        field_start f' + bf_width f \<le> 8 * (fd_c f' + s)))"
proof -
  define t where "t = ct_t (fd_type f)"
  have bit: "t AND 128 \<noteq> 0" using assms(2) by (simp add: t_def)
  have ty: "type_size 1 h (fd_type f) = Some (int (btype_size (t AND 15)), int (btype_size (t AND 15)))"
    using type_size_bitfield [of "fd_type f" 0] assms(1,2) by (simp add: t_def)
  have w: "bf_width f = int (BIT_SIZE t)" using bit by (simp add: bf_width_def t_def)
  have st: "field_start f = 8 * fd_c f + int (BIT_POS t)" using bit by (simp add: field_start_def t_def)
  show ?thesis
  proof (cases "BIT_SIZE t = 0 \<or> int (BIT_POS t) + int (BIT_SIZE t) \<le> int (btype_size (t AND 15)) * 8 \<and>
      fd_c f + int (btype_size (t AND 15)) \<le> c")
    case True
    then have "fix_field_z h c f = Some (f\<lparr>fd_auxtype := - 1\<rparr>)"
      using bit ty by (auto simp: fix_field_z_def t_def [symmetric] Let_def simp del: One_nat_def)
    then show ?thesis
      using True assms(3) ty w st bit
      by (auto simp: field_start_def bf_width_def access_ctype_def t_def [symmetric] simp del: One_nat_def)
  next
    case False
    then show ?thesis by (rule fix_field_search [OF assms t_def])
  qed
qed

text \<open>The second loop of \<open>struct_layout\<close> ends for every bit-field, leaves its bits where they
  are, and chooses an access that covers the bits and stays inside the structure, unless it
  falls back to single bytes (\<open>auxtype = VT_STRUCT\<close>).\<close>

lemma fix_field_access:
  assumes "is_integer_btype (ct_t (fd_type f) AND VT_BTYPE)" "ct_t (fd_type f) AND VT_BITFIELD \<noteq> 0" "0 \<le> fd_c f"
  shows "\<exists>f'. fix_field_z h c f = Some f' \<and> field_start f' = field_start f \<and> bf_width f' = bf_width f \<and> 0 \<le> fd_c f' \<and>
    (bf_width f > 0 \<and> fd_auxtype f' \<noteq> 7 \<longrightarrow>
      (\<exists>s al. type_size 1 h (access_ctype f') = Some (s, al) \<and> fd_c f' + s \<le> c \<and>
        field_start f' + bf_width f \<le> 8 * (fd_c f' + s)))"
  using assms by (rule fix_field_ok)

section \<open>Where both layouts agree\<close>

text \<open>An upper bound for the bits that are in use, and what a field can add to it.\<close>

definition used_bits :: "lstate \<Rightarrow> int" where
  "used_bits s = 8 * ls_c s + ls_bit_pos s"

definition field_room :: "lparams \<Rightarrow> lfield \<times> int \<times> int \<Rightarrow> int" where
  "field_room P x = (case x of (f, sz, al) \<Rightarrow> fst (field_align P f (bf_width f) al) + max 0 sz + 8)"

lemma layout_inv_nonneg: "layout_inv P s \<Longrightarrow> 0 \<le> ls_c s \<and> 0 \<le> ls_bit_pos s \<and> 0 \<le> ls_offset s"
  by (simp add: layout_inv_def)

lemma frontier_used: "layout_inv P s \<Longrightarrow> layout_frontier P s \<le> used_bits s"
  by (auto simp: layout_inv_def layout_frontier_def used_bits_def split: if_splits)

lemma layout_plain_agrees:
  assumes "layout_inv P s" "is_pow2 al" "used_bits s + 16 * (al + max 0 sz + 8) < 2 ^ 31"
  shows "layout_plain P sz al s = layout_plain_z P sz al s"
    "used_bits (layout_plain_z P sz al s) \<le> used_bits s + 8 * (al + max 0 sz + 8)"
proof -
  define k where "k = (if lp_pcc P then ls_c s + (ls_bit_pos s + 7) div 8 else ls_c s)"
  have n: "0 \<le> ls_c s" "0 \<le> ls_bit_pos s" "0 < al" using layout_inv_nonneg [OF assms(1)] is_pow2_pos [OF assms(2)] by simp_all
  have k: "ls_c s \<le> k" "8 * k \<le> used_bits s + 7" using n by (auto simp: k_def used_bits_def)
  note a = align_up(1,2) [OF assms(2), of k]
  have w: "c_int (ls_bit_pos s + 7) = ls_bit_pos s + 7" "c_int (ls_c s + (ls_bit_pos s + 7) div 8) = ls_c s + (ls_bit_pos s + 7) div 8"
    by (rule c_int; use n assms(3) in \<open>simp add: used_bits_def\<close>)+
  have w2: "c_int (align_up k al) = align_up k al" "0 < sz \<Longrightarrow> c_int (align_up k al + sz) = align_up k al + sz"
    by (rule c_int; use n k a assms(3) in simp)+
  show "layout_plain P sz al s = layout_plain_z P sz al s"
    unfolding layout_plain_def layout_plain_z_def Let_def w k_def [symmetric] w2(1) using w2(2) by simp
  have "used_bits (layout_plain_z P sz al s) = 8 * (align_up k al + max 0 sz)"
    by (simp add: layout_plain_z_def used_bits_def Let_def k_def)
  then show "used_bits (layout_plain_z P sz al s) \<le> used_bits s + 8 * (al + max 0 sz + 8)" using a k by simp
qed

lemma norm_pos_agrees:
  "0 < al \<Longrightarrow> 8 * al < 2 ^ 31 \<Longrightarrow> 0 \<le> c \<Longrightarrow> 0 \<le> bp \<Longrightarrow> 8 * c + bp < 2 ^ 31 \<Longrightarrow> norm_pos al c bp = Some (norm_pos_z al c bp)"
proof (induction al c bp rule: norm_pos_z.induct)
  case (1 al c bp)
  have a: "c_int (al * 8) = al * 8" by (rule c_int) (use 1(2,3) in simp_all)
  show ?case
  proof (cases "bp < al * 8")
    case True
    then show ?thesis by (simp add: norm_pos.simps [of al c bp] norm_pos_z.simps [of al c bp] a)
  next
    case False
    have "c_int (c + al) = c + al" "c_int (bp - al * 8) = bp - al * 8"
      by (rule c_int; use 1(2-6) False in simp)+
    moreover have "norm_pos al (c + al) (bp - al * 8) = Some (norm_pos_z al (c + al) (bp - al * 8))"
      by (rule 1(1)) (use 1(2-6) False in simp_all)
    ultimately show ?thesis using False 1(2) by (simp add: norm_pos.simps [of al c bp] norm_pos_z.simps [of al c bp] a)
  qed
qed

lemma sdiv_smod_pos: "0 \<le> a \<Longrightarrow> 0 < b \<Longrightarrow> a sdiv b = a div b" "0 \<le> a \<Longrightarrow> 0 < b \<Longrightarrow> a smod b = a mod (b :: int)"
  by (cases "a = 0"; simp add: signed_divide_int_def signed_modulo_int_def)+

lemma pcc_new_field_agrees:
  assumes "layout_inv P s" "0 < al" "0 \<le> sz" "0 \<le> bs" "bs < 64" "used_bits s + 16 * (al + sz + 8) < 2 ^ 31"
  shows "pcc_new_field f sz al packed bs s \<longleftrightarrow> pcc_new_field_z f sz al packed bs s"
proof -
  note n = layout_inv_nonneg [OF assms(1)]
  let ?u = "ls_c s * 8 + ls_bit_pos s"
  have a: "c_int (al * 8) = al * 8" "c_int ?u = ?u"
    by (rule c_int; use n assms(2,3,6) in \<open>simp add: used_bits_def\<close>)+
  define m where "m = ?u mod (al * 8)"
  have m: "0 \<le> m" "m < al * 8" using assms(2) by (simp_all add: m_def)
  have o: "c_int (m + bs + al * 8 - 1) = m + bs + al * 8 - 1"
    by (rule c_int; use m n assms(2-6) in \<open>simp add: used_bits_def\<close>)
  have "?u smod (al * 8) = m" unfolding m_def by (rule sdiv_smod_pos(2)) (use n assms(2) in simp_all)
  moreover have "sz sdiv al = sz div al" "(m + bs + al * 8 - 1) sdiv (al * 8) = (m + bs + al * 8 - 1) div (al * 8)"
    by (rule sdiv_smod_pos(1); use m n assms(2-4) in simp)+
  ultimately show ?thesis by (simp add: pcc_new_field_def pcc_new_field_z_def Let_def a o flip: m_def)
qed

lemma layout_pcc_agrees:
  assumes "layout_inv P s" "lp_pcc P" "is_pow2 al" "0 \<le> sz" "0 \<le> bs" "bs < 64" "used_bits s + 16 * (al + sz + 8) < 2 ^ 31"
  shows "layout_pcc f sz al packed bs s = Some (layout_pcc_z f sz al packed bs s)"
    "used_bits (snd (snd (layout_pcc_z f sz al packed bs s))) \<le> used_bits s + 8 * al"
proof -
  note n = layout_inv_nonneg [OF assms(1)]
  have al: "0 < al" by (rule is_pow2_pos [OF assms(3)])
  let ?k = "ls_c s + (ls_bit_pos s + 7) div 8"
  note a = align_up(1,2) [OF assms(3), of ?k]
  have k: "ls_c s \<le> ?k" "8 * ?k \<le> used_bits s + 7" using n by (auto simp: used_bits_def)
  have w: "c_int (ls_bit_pos s + 7) = ls_bit_pos s + 7" "c_int (align_up ?k al) = align_up ?k al"
    by (rule c_int; use n a k al assms(4,7) in \<open>simp add: used_bits_def\<close>)+
  obtain c bp where c: "(if pcc_new_field_z f sz al packed bs s then (align_up ?k al, 0) else (ls_c s, ls_bit_pos s)) = (c, bp)" by fastforce
  then have b: "0 \<le> c" "0 \<le> bp" "8 * c + bp \<le> used_bits s + 8 * al"
    using n a k al by (auto simp: used_bits_def split: if_splits)
  obtain c' bp' where n': "norm_pos_z al c bp = (c', bp')" by fastforce
  have "norm_pos al c bp = Some (c', bp')"
    unfolding n' [symmetric] by (rule norm_pos_agrees) (use al b assms(4,7) n in \<open>simp_all add: used_bits_def\<close>)
  then show "layout_pcc f sz al packed bs s = Some (layout_pcc_z f sz al packed bs s)"
    unfolding layout_pcc_def layout_pcc_z_def pcc_new_field_agrees [OF assms(1) al assms(4-7)] w c Let_def
    by (simp add: n')
  have "used_bits (snd (snd (layout_pcc_z f sz al packed bs s))) = 8 * c' + bp'"
    unfolding layout_pcc_z_def c Let_def by (simp add: n' used_bits_def)
  then show "used_bits (snd (snd (layout_pcc_z f sz al packed bs s))) \<le> used_bits s + 8 * al"
    using norm_pos_z(1) [OF n' al b(2)] b(3) by simp
qed

lemma layout_ms_agrees:
  assumes "layout_inv P s" "is_pow2 al" "0 \<le> sz" "0 \<le> bs" "bs < 64" "used_bits s + 16 * (al + sz + 8) < 2 ^ 31"
  shows "layout_ms f sz al bs s = layout_ms_z f sz al bs s"
    "used_bits (snd (layout_ms_z f sz al bs s)) \<le> used_bits s + 8 * (al + sz)"
proof -
  note n = layout_inv_nonneg [OF assms(1)]
  have al: "0 < al" by (rule is_pow2_pos [OF assms(2)])
  note a = align_up(1,2) [OF assms(2), of "ls_c s"]
  have "c_int (ls_bit_pos s + bs) = ls_bit_pos s + bs" "c_int (sz * 8) = sz * 8" "c_int (align_up (ls_c s) al) = align_up (ls_c s) al"
    "c_int (align_up (ls_c s) al + sz) = align_up (ls_c s) al + sz"
    by (rule c_int; use n a al assms(3-6) in \<open>simp add: used_bits_def\<close>)+
  then show "layout_ms f sz al bs s = layout_ms_z f sz al bs s" by (simp add: layout_ms_def layout_ms_z_def Let_def)
  show "used_bits (snd (layout_ms_z f sz al bs s)) \<le> used_bits s + 8 * (al + sz)"
    using a n al assms(3) by (simp add: layout_ms_z_def Let_def used_bits_def)
qed

lemma layout_bitfield_agrees:
  assumes "layout_inv P s" "is_pow2 al" "0 \<le> sz" "0 \<le> bs" "bs < 64" "used_bits s + 16 * (al + sz + 8) < 2 ^ 31"
    and "layout_inv P (snd (snd (layout_bitfield_z P f sz al packed bs s)))"
  shows "layout_bitfield P f sz al packed bs s = Some (layout_bitfield_z P f sz al packed bs s)"
    "used_bits (snd (snd (layout_bitfield_z P f sz al packed bs s))) \<le> used_bits s + 8 * (al + sz + 8)"
proof -
  obtain g b u where g: "(if lp_pcc P then layout_pcc_z f sz al packed bs s
             else (let (al, s) = layout_ms_z f sz al bs s in (f, al, s))) = (g, b, u)" using prod_cases3 by blast
  have u: "used_bits u \<le> used_bits s + 8 * (al + sz)"
    using g layout_pcc_agrees(2) [OF assms(1) _ assms(2-6), of f packed] layout_ms_agrees(2) [OF assms(1-6), of f] assms(3)
    by (cases "lp_pcc P") (auto split: prod.splits)
  have e: "(if lp_pcc P then layout_pcc f sz al packed bs s
             else (let (al, s) = layout_ms f sz al bs s in Some (f, al, s))) = Some (g, b, u)"
    using g layout_pcc_agrees(1) [OF assms(1) _ assms(2-6), of f packed] layout_ms_agrees(1) [OF assms(1-6), of f]
    by (cases "lp_pcc P") (auto split: prod.splits)
  have z: "layout_bitfield_z P f sz al packed bs s =
      (g\<lparr>fd_type := (fd_type g)\<lparr>ct_t := set_bit_pos (ct_t (fd_type g)) (ls_bit_pos u)\<rparr>\<rparr>, b, u\<lparr>ls_bit_pos := ls_bit_pos u + bs\<rparr>)"
    unfolding layout_bitfield_z_def g by simp
  have n: "0 \<le> ls_bit_pos u + bs" "0 \<le> ls_c u" using layout_inv_nonneg [OF assms(7)] by (simp_all add: z)
  have "c_int (ls_bit_pos u + bs) = ls_bit_pos u + bs"
    by (rule c_int; use n u is_pow2_pos [OF assms(2)] assms(3-6) in \<open>simp add: used_bits_def\<close>)
  then show "layout_bitfield P f sz al packed bs s = Some (layout_bitfield_z P f sz al packed bs s)"
    unfolding layout_bitfield_def e z by simp
  show "used_bits (snd (snd (layout_bitfield_z P f sz al packed bs s))) \<le> used_bits s + 8 * (al + sz + 8)"
    using u assms(5) by (simp add: z used_bits_def)
qed

lemma layout_step_agrees:
  assumes "layout_inv P s" "field_ok (f, sz, al)" "zero_ok P f s" "params_ok P" "\<not> lp_union P"
    and "used_bits s + 16 * field_room P (f, sz, al) < 2 ^ 31"
  shows "layout_step P (f, sz, al) s = Some (layout_step_z P (f, sz, al) s)"
    "used_bits (snd (layout_step_z P (f, sz, al) s)) \<le> used_bits s + 8 * field_room P (f, sz, al)"
proof -
  obtain al1 packed where al1: "field_align P f (bf_width f) al = (al1, packed)" by fastforce
  have al: "is_pow2 al" using assms(2) by (simp add: field_ok_def)
  note p = field_align_pow2 [OF al1 al assms(4)]
  have room: "field_room P (f, sz, al) = al1 + max 0 sz + 8" by (simp add: field_room_def al1)
  have M: "used_bits (s\<lparr>ls_maxalign := m\<rparr>) = used_bits s" for s m by (simp add: used_bits_def)
  have "layout_step P (f, sz, al) s = Some (layout_step_z P (f, sz, al) s) \<and>
    used_bits (snd (layout_step_z P (f, sz, al) s)) \<le> used_bits s + 8 * field_room P (f, sz, al)"
  proof (cases "bf_width f < 0")
    case True
    note a = layout_plain_agrees [OF assms(1) p(1) assms(6) [unfolded room]]
    show ?thesis
      using a(2) True assms(5) by (simp add: layout_step_def layout_step_z_def al1 Let_def a(1) M room)
  next
    case False
    have bit: "ct_t (fd_type f) AND VT_BITFIELD \<noteq> 0" using False bf_width_bounds(3) [of f] by blast
    have sz: "0 \<le> sz" "al \<le> 8"
      using assms(2) bit btype_size_cases [of "ct_t (fd_type f) AND VT_BTYPE"] by (auto simp: field_ok_def)
    then have le8: "fd_aligned f \<noteq> 0 \<or> al1 \<le> 8" using p(2) by fastforce
    have nn: "0 \<le> bf_width f" using False by simp
    obtain g a u where g: "layout_bitfield_z P f sz al1 packed (bf_width f) s = (g, a, u)" using prod_cases3 by blast
    have inv: "layout_inv P (snd (snd (layout_bitfield_z P f sz al1 packed (bf_width f) s)))"
      using layout_bitfield_step(1) [OF assms(1,2,3) p(1) le8 nn g] by (simp add: g)
    have "used_bits s + 16 * (al1 + sz + 8) < 2 ^ 31" using assms(6) sz by (simp add: room)
    note b = layout_bitfield_agrees [OF assms(1) p(1) sz(1) nn bf_width_bounds(1) this inv]
    show ?thesis
      using b(2) False assms(5) sz(1) by (simp add: layout_step_def layout_step_z_def al1 Let_def b(1) g M room)
  qed
  then show "layout_step P (f, sz, al) s = Some (layout_step_z P (f, sz, al) s)"
    "used_bits (snd (layout_step_z P (f, sz, al) s)) \<le> used_bits s + 8 * field_room P (f, sz, al)" by simp_all
qed

lemma layout_fields_agrees:
  assumes "layout_inv P s" "\<forall>x\<in>set xs. field_ok x" "zeros_ok P prev (map fst xs)" "prev_ok P prev s"
    and "params_ok P" "\<not> lp_union P" "used_bits s + 16 * (\<Sum>x\<leftarrow>xs. field_room P x) < 2 ^ 31" "0 \<le> used_bits s"
  shows "layout_fields P xs s = Some (layout_fields_z P xs s) \<and>
    used_bits (snd (layout_fields_z P xs s)) \<le> used_bits s + 8 * (\<Sum>x\<leftarrow>xs. field_room P x)"
  using assms
proof (induction xs arbitrary: s prev)
  case Nil
  then show ?case by simp
next
  case (Cons x xs)
  obtain f sz al where x: "x = (f, sz, al)" using prod_cases3 by blast
  obtain f' u where f': "layout_step_z P x s = (f', u)" by fastforce
  have z: "zero_ok P f s" using Cons.prems(3,4) by (auto simp: zero_ok_def prev_ok_def x split: option.splits)
  have ok: "field_ok (f, sz, al)" using Cons.prems(2) by (simp add: x)
  have pos: "0 \<le> field_room P y" if "y \<in> set (x # xs)" for y
  proof -
    obtain g n b where y: "y = (g, n, b)" using prod_cases3 by blast
    obtain a q where a: "field_align P g (bf_width g) b = (a, q)" by fastforce
    have "is_pow2 b" using Cons.prems(2) that by (auto simp: y field_ok_def)
    from field_align_pow2(1) [OF a this Cons.prems(5)] show ?thesis
      using is_pow2_pos by (fastforce simp: y field_room_def a)
  qed
  have rest: "0 \<le> (\<Sum>x\<leftarrow>xs. field_room P x)" by (rule sum_list_nonneg) (use pos in auto)
  have room: "used_bits s + 16 * field_room P (f, sz, al) < 2 ^ 31" using Cons.prems(7) rest by (simp add: x)
  note a = layout_step_agrees [OF Cons.prems(1) ok z Cons.prems(5,6) room, folded x, unfolded f']
  have "0 \<le> field_room P (f, sz, al)" using pos [of x] by (simp add: x)
  then have ru: "used_bits u + 16 * (\<Sum>x\<leftarrow>xs. field_room P x) < 2 ^ 31" using Cons.prems(7) a(2) by (simp add: x)
  have u: "layout_inv P u" by (rule layout_step_bits(1) [OF Cons.prems(1) ok z Cons.prems(5,6) f' [unfolded x]])
  have "layout_fields P xs u = Some (layout_fields_z P xs u) \<and>
    used_bits (snd (layout_fields_z P xs u)) \<le> used_bits u + 8 * (\<Sum>x\<leftarrow>xs. field_room P x)"
    by (rule Cons.IH [OF u _ _ prev_ok_step [OF f' [unfolded x] Cons.prems(6)] Cons.prems(5,6)])
      (use Cons.prems(2,3) ru layout_inv_nonneg [OF u] in \<open>simp_all add: x used_bits_def\<close>)
  then show ?case using a by (auto simp: f' split: prod.splits)
qed

lemma layout_size_agrees:
  assumes "layout_inv P s" "used_bits s \<le> 2 ^ 30" "lp_aligned P < 32" "0 < ls_maxalign s" "ls_maxalign s \<le> 2 ^ 30" "params_ok P"
    and "is_pow2 (ls_maxalign s)"
  shows "layout_size P s = layout_size_z P s"
proof -
  define bt where "bt = (if lp_aligned P \<noteq> 0 then 2 ^ (lp_aligned P - 1) else (1::int))"
  define r where "r = (if bt < ls_maxalign s then ls_maxalign s else bt)"
  define a where "a = (if lp_pragma P \<noteq> 0 \<and> lp_pragma P < ls_maxalign s \<and> \<not> lp_pcc P
               then (if lp_pragma P < bt then bt else lp_pragma P) else r)"
  define k where "k = (if lp_pcc P then ls_c s + (ls_bit_pos s + 7) div 8 else ls_c s)"
  have "(2 :: int) ^ (lp_aligned P - 1) \<le> 2 ^ 30" using assms(3) by (intro power_increasing) simp_all
  then have bt: "bt \<le> 2 ^ 30" "is_pow2 bt" by (simp_all add: bt_def)
  have a: "a \<le> 2 ^ 30" "is_pow2 a" using bt assms(5-7) by (auto simp: a_def r_def params_ok_def)
  have n: "0 \<le> ls_c s" "0 \<le> ls_bit_pos s" using layout_inv_nonneg [OF assms(1)] by simp_all
  have k: "0 \<le> k" "8 * k \<le> used_bits s + 7" using n by (auto simp: k_def used_bits_def)
  define q where "q = (ls_bit_pos s + 7) div 8"
  have "0 \<le> q" "8 * q \<le> ls_bit_pos s + 7" using n by (simp_all add: q_def)
  then have "c_int (ls_bit_pos s + 7) = ls_bit_pos s + 7" "c_int (ls_c s + q) = ls_c s + q"
    using n assms(2) by (simp_all add: c_int used_bits_def)
  moreover have "c_int (align_up k a) = align_up k a"
    by (rule c_int; use k a(1) align_up(1,2) [OF a(2), of k] assms(2) in simp)
  ultimately show ?thesis
    unfolding layout_size_def layout_size_z_def Let_def bt_def [symmetric] r_def [symmetric] a_def [symmetric]
    by (cases "lp_pcc P") (simp_all add: k_def q_def)
qed

lemma fix_access_agrees:
  "0 \<le> pos \<Longrightarrow> pos < 2 ^ 30 \<Longrightarrow> 0 \<le> bs \<Longrightarrow> bs < 64 \<Longrightarrow> a \<in> {1, 2, 4, 8} \<Longrightarrow>
     fix_access n h pos bs a c0 s t = fix_access_z n h pos bs a c0 s t"
proof (induction n arbitrary: a c0 s t)
  case (Suc n)
  define cx where "cx = pos div 8 - (pos div 8) mod a"
  have a: "is_pow2 a" "0 < a" "a \<le> 8" using Suc.prems(5) by auto
  have cx: "(pos div 8) AND - a = cx" unfolding cx_def by (rule and_minus_pow2 [OF a(1)])
  have m: "0 \<le> (pos div 8) mod a" "(pos div 8) mod a < a" "(pos div 8) mod a \<le> pos div 8"
    using a Suc.prems(1) by (simp_all add: zmod_le_nonneg_dividend)
  have px: "0 \<le> cx" "0 \<le> pos - cx * 8" "pos - cx * 8 < 64" "cx \<le> pos"
    using m Suc.prems(1) a(3) by (simp_all add: cx_def)
  have c: "c_int (cx * 8) = cx * 8" "c_int (pos - cx * 8) = pos - cx * 8"
    "c_int (pos - cx * 8 + bs + 7) = pos - cx * 8 + bs + 7"
    by (rule c_int; use px Suc.prems(1-4) in simp)+
  show ?case
    using Suc.IH [OF Suc.prems(1-4) access_size_cases]
    by (simp add: cx c Let_def type_size_access del: One_nat_def split: option.split)
qed simp

lemma fix_field_agrees:
  assumes "is_integer_btype (ct_t (fd_type f) AND VT_BTYPE)" "ct_t (fd_type f) AND VT_BITFIELD \<noteq> 0"
    "0 \<le> fd_c f" "8 * fd_c f + int (BIT_POS (ct_t (fd_type f))) < 2 ^ 30"
  shows "fix_field h c f = fix_field_z h c f"
proof -
  let ?t = "ct_t (fd_type f)"
  have bs: "int (BIT_SIZE ?t) < 64" using bf_width_bounds(1) [of f] assms(2) by (simp add: bf_width_def)
  have ty: "type_size 1 h (fd_type f) = Some (int (btype_size (?t AND 15)), int (btype_size (?t AND 15)))"
    using type_size_bitfield [of "fd_type f" 0] assms(1,2) by simp
  have s8: "btype_size (?t AND 15) \<le> 8" using btype_size_cases [OF assms(1)] by auto
  have p: "0 \<le> fd_c f * 8 + int (BIT_POS ?t)" "fd_c f * 8 + int (BIT_POS ?t) < 2 ^ 30" using assms(3,4) by simp_all
  have c: "c_int (fd_c f + int (btype_size (?t AND 15))) = fd_c f + int (btype_size (?t AND 15))"
    "c_int (fd_c f * 8 + int (BIT_POS ?t)) = fd_c f * 8 + int (BIT_POS ?t)"
    by (rule c_int; use assms(3,4) s8 in simp)+
  note fa = fix_access_agrees [OF p _ bs, of 1 6 h "- 1" 1 1, simplified]
  have one: "type_size 1 h \<lparr>ct_t = 1, ct_ref = 0\<rparr> = Some (1, 1)" by (simp add: IS_ENUM_def)
  have nu: "1 \<le> next_unit (fd_c f * 8 + int (BIT_POS ?t)) (int (BIT_SIZE ?t)) 1"
    by (simp add: next_unit_def access_size_def)
  obtain s ta cx px where fx:
      "fix_access_z 6 h (fd_c f * 8 + int (BIT_POS ?t)) (int (BIT_SIZE ?t)) 1 (- 1) 1 1 = Some (s, ta, cx, px)"
      "ta \<in> {1, 2, 3, 4}" "type_size 1 h \<lparr>ct_t = ta, ct_ref = 0\<rparr> = Some (s, s)"
      "fd_c f * 8 + int (BIT_POS ?t) = 8 * cx + px" "0 \<le> cx" "0 \<le> px" "px < 64"
    using fix_access_returns [OF p(1) _ nu _ one, of 6 "- 1"] by auto
  have "s \<in> {1, 2, 4, 8}" using fx(2,3) by (auto simp: IS_ENUM_def Let_def)
  then have c2: "c_int (cx + s) = cx + s"
    by (intro c_int) (use fx(4-7) p in auto)
  show ?thesis
    unfolding fix_field_def fix_field_z_def Let_def ty c fa fx(1) by (simp add: c c2)
qed

section \<open>The whole structure\<close>

lemma those_map: "those (map g xs) = Some ys \<longleftrightarrow> list_all2 (\<lambda>x y. g x = Some y) xs ys"
  by (induction xs arbitrary: ys) (auto split: option.splits simp: list_all2_Cons1 intro: list_all2_Nil)

text \<open>A field whose type is complete (or a flexible array) and has a power of two as alignment,
  and, if it is a bit-field, is of an integer type at least as wide.\<close>

definition layoutable :: "nat \<Rightarrow> syms \<Rightarrow> lfield \<Rightarrow> bool" where
  "layoutable d h f \<longleftrightarrow>
     (case type_size d h (fd_type f) of None \<Rightarrow> False | Some (_, al) \<Rightarrow> is_pow2 al) \<and>
     (ct_t (fd_type f) AND VT_BITFIELD \<noteq> 0 \<longrightarrow>
        is_integer_btype (ct_t (fd_type f) AND VT_BTYPE) \<and>
        BIT_SIZE (ct_t (fd_type f)) \<le> 8 * btype_size (ct_t (fd_type f) AND VT_BTYPE))"

definition field_size :: "nat \<Rightarrow> syms \<Rightarrow> lfield \<Rightarrow> int" where
  "field_size d h f = (case type_size d h (fd_type f) of None \<Rightarrow> 0 | Some (sz, _) \<Rightarrow> sz)"

definition field_alignment :: "nat \<Rightarrow> syms \<Rightarrow> lfield \<Rightarrow> int" where
  "field_alignment d h f = (case type_size d h (fd_type f) of None \<Rightarrow> 0 | Some (_, al) \<Rightarrow> al)"

lemma layoutable_field_ok:
  assumes "layoutable d h f"
  shows "type_size d h (fd_type f) = Some (field_size d h f, field_alignment d h f)"
    "field_ok (f, field_size d h f, field_alignment d h f)"
proof -
  show e: "type_size d h (fd_type f) = Some (field_size d h f, field_alignment d h f)"
    using assms by (auto simp: layoutable_def field_size_def field_alignment_def split: option.splits)
  obtain d' where d: "d = Suc d'" using e by (cases d) auto
  show "field_ok (f, field_size d h f, field_alignment d h f)"
    using assms e type_size_bitfield [of "fd_type f" d' h]
    by (auto simp: field_ok_def layoutable_def d bf_width_def)
qed

text \<open>Room enough: \<open>aligned\<close> of the structure has 5 bits, and the sizes and alignments of the fields, with 8
  bytes more for each, sum up to less than \<open>2 ^ 27\<close>.\<close>

definition layout_room :: "nat \<Rightarrow> syms \<Rightarrow> lparams \<Rightarrow> lfield list \<Rightarrow> bool" where
  "layout_room d h P fs \<longleftrightarrow> lp_aligned P < 32 \<and>
     (\<Sum>f\<leftarrow>fs. field_room P (f, field_size d h f, field_alignment d h f)) < 2 ^ 27"

lemma fix_field_plain: "bf_width g < 0 \<Longrightarrow> fix_field_z h c g = Some g"
  using bf_width_bounds(3) [of g] by (simp add: fix_field_z_def)

lemma layout_size_bounds:
  assumes "layout_size_z P s = (c, r)" "layout_inv P s" "is_pow2 (ls_maxalign s)" "params_ok P"
  shows "layout_frontier P s \<le> 8 * c" "is_pow2 r" "ls_maxalign s dvd r" "lp_pcc P \<or> lp_pragma P = 0 \<Longrightarrow> r dvd c"
proof -
  define bt where "bt = (if lp_aligned P \<noteq> 0 then 2 ^ (lp_aligned P - 1) else (1::int))"
  define r' where "r' = (if bt < ls_maxalign s then ls_maxalign s else bt)"
  define a where "a = (if lp_pragma P \<noteq> 0 \<and> lp_pragma P < ls_maxalign s \<and> \<not> lp_pcc P
               then (if lp_pragma P < bt then bt else lp_pragma P) else r')"
  define k where "k = (if lp_pcc P then ls_c s + (ls_bit_pos s + 7) div 8 else ls_c s)"
  have "layout_size_z P s = (align_up k a, r')"
    unfolding layout_size_z_def Let_def a_def r'_def bt_def k_def by (rule refl)
  then have e: "c = align_up k a" "r = r'" using assms(1) by simp_all
  have bt: "is_pow2 bt" by (simp add: bt_def)
  then show r: "is_pow2 r" "ls_maxalign s dvd r"
    using assms(3) is_pow2_dvd [OF assms(3) bt] by (auto simp: e r'_def)
  have a: "is_pow2 a" using r bt assms(4) by (auto simp: a_def params_ok_def e)
  have "layout_frontier P s \<le> 8 * k"
    using assms(2) by (auto simp: layout_frontier_def layout_inv_def k_def split: if_splits)
  then show "layout_frontier P s \<le> 8 * c" using align_up(1) [OF a, of k] by (simp add: e)
  show "r dvd c" if "lp_pcc P \<or> lp_pragma P = 0"
    using that align_up(3) [OF a, of k] by (auto simp: e a_def)
qed

lemma layout_bitfield_align:
  assumes "layout_bitfield_z P f sz al packed bs s = (g, b, v)"
  shows "b = 1 \<or> b = al" "ls_maxalign v = ls_maxalign s"
proof -
  have pcc: "(fst (snd (layout_pcc_z f sz al packed bs s)) = 1 \<or> fst (snd (layout_pcc_z f sz al packed bs s)) = al) \<and>
      ls_maxalign (snd (snd (layout_pcc_z f sz al packed bs s))) = ls_maxalign s"
    by (simp add: layout_pcc_z_def Let_def split: prod.split)
  have ms: "(fst (layout_ms_z f sz al bs s) = 1 \<or> fst (layout_ms_z f sz al bs s) = al) \<and>
      ls_maxalign (snd (layout_ms_z f sz al bs s)) = ls_maxalign s"
    by (simp add: layout_ms_z_def Let_def)
  show "b = 1 \<or> b = al" "ls_maxalign v = ls_maxalign s"
    using assms [symmetric] pcc ms
    by (cases "layout_pcc_z f sz al packed bs s"; cases "layout_ms_z f sz al bs s"; cases "lp_pcc P";
        simp add: layout_bitfield_z_def)+
qed

text \<open>Alignment: of the plain fields, and what the state remembers of it.\<close>

lemma layout_fields_aligned:
  assumes "layout_inv P s" "is_pow2 (ls_maxalign s)" "\<forall>x\<in>set xs. field_ok x" "zeros_ok P prev (map fst xs)" "prev_ok P prev s"
    and "params_ok P" "\<not> lp_union P" "layout_fields_z P xs s = (fs, s')"
  shows "is_pow2 (ls_maxalign s') \<and> ls_maxalign s \<le> ls_maxalign s' \<and>
    list_all2 (\<lambda>f (g, sz, al). bf_width g < 0 \<longrightarrow>
      fst (field_align P g (- 1) al) dvd fd_c f \<and> fst (field_align P g (- 1) al) \<le> ls_maxalign s') fs xs"
  using assms
proof (induction xs arbitrary: s prev fs)
  case Nil
  then show ?case by simp
next
  case (Cons x xs)
  obtain f sz al where x: "x = (f, sz, al)" using prod_cases3 by blast
  obtain f' u where f': "layout_step_z P x s = (f', u)" by fastforce
  obtain fs' where fs': "layout_fields_z P xs u = (fs', s')" "fs = f' # fs'"
    using Cons.prems(8) f' by (auto simp: Let_def split: prod.splits)
  have z: "zero_ok P f s" using Cons.prems(4,5) by (auto simp: zero_ok_def prev_ok_def x split: option.splits)
  have u: "layout_inv P u"
    using layout_step_bits(1) [OF Cons.prems(1) _ z Cons.prems(6,7) f' [unfolded x]] Cons.prems(3) by (simp add: x)
  obtain a packed where a: "field_align P f (bf_width f) al = (a, packed)" by fastforce
  have al: "is_pow2 al" using Cons.prems(3) by (simp add: x field_ok_def)
  have pa: "is_pow2 a" by (rule field_align_pow2(1) [OF a al Cons.prems(6)])
  have st: "is_pow2 (ls_maxalign u) \<and> ls_maxalign s \<le> ls_maxalign u \<and>
    (bf_width f < 0 \<longrightarrow> a dvd fd_c f' \<and> a \<le> ls_maxalign u)"
  proof (cases "bf_width f < 0")
    case True
    have "f' = f\<lparr>fd_c := ls_offset (layout_plain_z P sz a s)\<rparr>"
      "ls_maxalign u = (if a > ls_maxalign s then a else ls_maxalign s)"
      using f' [symmetric] Cons.prems(7) True a by (simp_all add: x layout_step_z_def Let_def layout_plain_z_def)
    then show ?thesis using Cons.prems(2) pa layout_plain_step(4) [OF Cons.prems(1) pa refl] by simp
  next
    case False
    obtain g b v where g: "layout_bitfield_z P f sz a packed (bf_width f) s = (g, b, v)" using prod_cases3 by blast
    have b: "b = 1 \<or> b = a" "ls_maxalign v = ls_maxalign s"
      using layout_bitfield_align [OF g] by simp_all
    have "ls_maxalign u = (if b > ls_maxalign v then b else ls_maxalign v)"
      using f' [symmetric] Cons.prems(7) False a g by (simp add: x layout_step_z_def Let_def)
    then show ?thesis using Cons.prems(2) pa False b by auto
  qed
  have IH: "is_pow2 (ls_maxalign s') \<and> ls_maxalign u \<le> ls_maxalign s' \<and>
    list_all2 (\<lambda>f (g, sz, al). bf_width g < 0 \<longrightarrow>
      fst (field_align P g (- 1) al) dvd fd_c f \<and> fst (field_align P g (- 1) al) \<le> ls_maxalign s') fs' xs"
    by (rule Cons.IH [OF u _ _ _ prev_ok_step [OF f' [unfolded x] Cons.prems(7)] Cons.prems(6,7) fs'(1)])
      (use Cons.prems(3,4) st in \<open>simp_all add: x\<close>)
  have "bf_width f = - 1" if "bf_width f < 0" using that bf_width_bounds(2) [of f] by simp
  then show ?case using IH st a by (auto simp: x fs'(2))
qed

text \<open>The basic types stay, or become \<open>int\<close>.\<close>

lemma set_bit_pos_btype: "set_bit_pos t p AND 15 = t AND 15"
proof -
  have m: "(0x3f :: u32) = mask 6" "(15 :: u32) = mask 4" by (simp_all add: mask_eq_exp_minus_1)
  show ?thesis
    unfolding m set_bit_pos_def by (rule bit_word_eqI) (auto simp: bit_simps simp del: mask_numeral)
qed

lemma layout_step_btype:
  assumes "layout_step_z P (f, sz, al) s = (f', s')"
  shows "ct_t (fd_type f') AND VT_BTYPE = ct_t (fd_type f) AND VT_BTYPE \<or> ct_t (fd_type f') AND VT_BTYPE = VT_INT"
proof -
  have pcc: "ct_t (fd_type (fst (layout_pcc_z f sz a packed bs s))) AND VT_BTYPE \<in> {ct_t (fd_type f) AND VT_BTYPE, VT_INT}" for a packed bs
    using narrow_int(2) [of "ct_t (fd_type f)"] by (simp add: layout_pcc_z_def Let_def split: prod.split)
  have bf: "ct_t (fd_type (fst (layout_bitfield_z P f sz a packed bs s))) AND VT_BTYPE \<in> {ct_t (fd_type f) AND VT_BTYPE, VT_INT}" for a packed bs
    using pcc [of a packed bs]
    by (cases "lp_pcc P") (auto simp: layout_bitfield_z_def set_bit_pos_btype split: prod.splits)
  obtain a packed where a: "field_align P f (bf_width f) al = (a, packed)" by fastforce
  show ?thesis
    using bf [of a packed "bf_width f"] assms [symmetric]
    by (simp add: layout_step_z_def a Let_def split: prod.splits if_splits)
qed

lemma layout_fields_btype:
  assumes "layout_fields_z P xs s = (fs, s')"
  shows "list_all2 (\<lambda>f x. ct_t (fd_type f) AND VT_BTYPE = ct_t (fd_type (fst x)) AND VT_BTYPE \<or>
    ct_t (fd_type f) AND VT_BTYPE = VT_INT) fs xs"
  using assms
proof (induction xs arbitrary: s fs)
  case (Cons x xs)
  obtain f sz al where x: "x = (f, sz, al)" using prod_cases3 by blast
  obtain f' u where f': "layout_step_z P x s = (f', u)" by fastforce
  obtain fs' where fs': "layout_fields_z P xs u = (fs', s')" "fs = f' # fs'"
    using Cons.prems f' by (auto simp: Let_def split: prod.splits)
  show ?case using Cons.IH [OF fs'(1)] layout_step_btype [OF f' [unfolded x]] by (simp add: fs'(2) x)
qed simp

text \<open>With room enough \<open>struct_layout\<close> returns the layout over the integers.\<close>

lemma layout_fields_maxalign:
  assumes "\<forall>x\<in>set xs. field_ok x" "params_ok P" "\<not> lp_union P" "0 \<le> ls_maxalign s" "layout_fields_z P xs s = (fs, s')"
  shows "ls_maxalign s' \<le> ls_maxalign s + (\<Sum>x\<leftarrow>xs. field_room P x)"
  using assms
proof (induction xs arbitrary: s fs)
  case (Cons x xs)
  obtain f sz al where x: "x = (f, sz, al)" using prod_cases3 by blast
  obtain f' u where f': "layout_step_z P x s = (f', u)" by fastforce
  obtain fs' where fs': "layout_fields_z P xs u = (fs', s')" "fs = f' # fs'"
    using Cons.prems(5) f' by (auto simp: Let_def split: prod.splits)
  obtain a packed where a: "field_align P f (bf_width f) al = (a, packed)" by fastforce
  have "is_pow2 al" using Cons.prems(1) by (simp add: x field_ok_def)
  from field_align_pow2(1) [OF a this Cons.prems(2)] have "0 < a" by (rule is_pow2_pos)
  moreover have "ls_maxalign u \<le> max (ls_maxalign s) (max 1 a) \<and> 0 \<le> ls_maxalign u"
  proof (cases "bf_width f < 0")
    case True
    then show ?thesis
      using f' [symmetric] Cons.prems(3,4) a by (simp add: x layout_step_z_def Let_def layout_plain_z_def)
  next
    case False
    obtain g b v where g: "layout_bitfield_z P f sz a packed (bf_width f) s = (g, b, v)" using prod_cases3 by blast
    show ?thesis
      using f' [symmetric] Cons.prems(3,4) False a g layout_bitfield_align [OF g]
      by (auto simp: x layout_step_z_def Let_def)
  qed
  ultimately have "ls_maxalign u \<le> ls_maxalign s + field_room P x" "0 \<le> ls_maxalign u"
    using Cons.prems(4) by (auto simp: x field_room_def a)
  moreover have "ls_maxalign s' \<le> ls_maxalign u + (\<Sum>x\<leftarrow>xs. field_room P x)"
    by (rule Cons.IH [OF _ Cons.prems(2,3) calculation(2) fs'(1)]) (use Cons.prems(1) in simp)
  ultimately show ?case by simp
qed simp

lemma struct_layout_reference:
  assumes "\<not> lp_union P" "params_ok P" "\<forall>f\<in>set fs. layoutable d h f" "zeros_ok P None fs" "layout_room d h P fs"
  obtains gs s fs' c r where
    "layout_fields_z P (map (\<lambda>f. (f, field_size d h f, field_alignment d h f)) fs) init_lstate = (gs, s)"
    "layout_size_z P s = (c, r)" "list_all2 (\<lambda>g f'. fix_field_z h c g = Some f') gs fs'"
    "struct_layout d h P fs = Some (fs', c, r)"
proof -
  let ?x = "\<lambda>f. (f, field_size d h f, field_alignment d h f)"
  have "list_all2 (\<lambda>f x. type_size d h (fd_type f) = Some x) fs (map (\<lambda>f. (field_size d h f, field_alignment d h f)) fs)"
    using assms(3) layoutable_field_ok(1) by (auto simp: list.rel_map list.rel_refl_strong)
  then have t: "those (map (\<lambda>f. type_size d h (fd_type f)) fs) = Some (map (\<lambda>f. (field_size d h f, field_alignment d h f)) fs)"
    by (simp only: those_map)
  have z: "zip fs (map (\<lambda>f. (field_size d h f, field_alignment d h f)) fs) = map ?x fs"
    by (simp add: zip_map2 zip_same_conv_map)
  obtain gs s where gs: "layout_fields_z P (map ?x fs) init_lstate = (gs, s)" by fastforce
  obtain c r where c: "layout_size_z P s = (c, r)" by fastforce
  have init: "layout_inv P init_lstate" "layout_frontier P init_lstate = 0" "prev_ok P None init_lstate"
    "is_pow2 (ls_maxalign init_lstate)" "used_bits init_lstate = 0" "ls_maxalign init_lstate = 1"
    by (simp_all add: layout_inv_def layout_frontier_def prev_ok_def init_lstate_def used_bits_def)
  have ok: "\<forall>x\<in>set (map ?x fs). field_ok x" and zs: "zeros_ok P None (map fst (map ?x fs))"
    using assms(3,4) layoutable_field_ok(2) by (auto simp: comp_def)
  have sum: "(\<Sum>x\<leftarrow>map ?x fs. field_room P x) < 2 ^ 27" "lp_aligned P < 32"
    using assms(5) by (simp_all add: layout_room_def comp_def)
  have room: "used_bits init_lstate + 16 * (\<Sum>x\<leftarrow>map ?x fs. field_room P x) < 2 ^ 31" using sum init(5) by simp
  have ag: "layout_fields P (map ?x fs) init_lstate = Some (gs, s)" "used_bits s \<le> 8 * (\<Sum>x\<leftarrow>map ?x fs. field_room P x)"
    using layout_fields_agrees [OF init(1) ok zs init(3) assms(2,1) room] gs by (simp_all add: init(5))
  note b = layout_fields_bits [OF init(1) ok zs init(3) assms(2,1) gs, unfolded init(2)]
  have m: "is_pow2 (ls_maxalign s)"
    using layout_fields_aligned [OF init(1,4) ok zs init(3) assms(2,1) gs] by simp
  have u: "used_bits s < 2 ^ 30" "layout_inv P s" using ag(2) sum(1) b by simp_all
  have "ls_maxalign s \<le> 1 + (\<Sum>x\<leftarrow>map ?x fs. field_room P x)"
    using layout_fields_maxalign [OF ok assms(2,1) _ gs] by (simp add: init(6))
  then have ms: "ls_maxalign s \<le> 2 ^ 30" using sum(1) by simp
  have size: "layout_size P s = (c, r)"
    using layout_size_agrees [OF u(2) _ sum(2) is_pow2_pos [OF m] ms assms(2) m] u(1) c by simp
  have fx: "\<exists>f'. fix_field_z h c g = Some f' \<and> fix_field h c g = Some f'" if g: "g \<in> set gs" for g
  proof (cases "bf_width g < 0")
    case True
    then have "ct_t (fd_type g) AND VT_BITFIELD = 0" using bf_width_bounds(3) [of g] by simp
    then show ?thesis by (simp add: fix_field_def fix_field_z_def)
  next
    case False
    obtain i where i: "i < length gs" "g = gs ! i" using g by (auto simp: in_set_conv_nth)
    have len: "length gs = length fs" using b by simp
    have bi: "0 \<le> field_start g" "field_stop g (field_size d h (fs ! i)) \<le> layout_frontier P s" "bf_width g = bf_width (fs ! i)" "0 \<le> fd_c g"
      "ct_t (fd_type g) AND VT_BTYPE \<in> {ct_t (fd_type (fs ! i)) AND VT_BTYPE, VT_INT}"
      using b layout_fields_btype [OF gs] i len by (auto simp: list_all2_conv_all_nth)
    have bit: "ct_t (fd_type g) AND VT_BITFIELD \<noteq> 0" "ct_t (fd_type (fs ! i)) AND VT_BITFIELD \<noteq> 0"
      using bf_width_bounds(3) [of g] bf_width_bounds(3) [of "fs ! i"] bi(3) False by auto
    have "layoutable d h (fs ! i)" using assms(3) i len by simp
    then have "is_integer_btype (ct_t (fd_type (fs ! i)) AND VT_BTYPE)" "is_integer_btype VT_INT"
      using bit(2) by (auto simp: layoutable_def is_integer_btype_def)
    then have ib: "is_integer_btype (ct_t (fd_type g) AND VT_BTYPE)" using bi(5) by auto
    have "field_start g \<le> field_stop g (field_size d h (fs ! i))" by (auto simp: field_stop_def)
    then have "field_start g < 2 ^ 30" using bi(2) u frontier_used [OF u(2)] by linarith
    then have "8 * fd_c g + int (BIT_POS (ct_t (fd_type g))) < 2 ^ 30" using bit(1) by (simp add: field_start_def)
    from fix_field_agrees [OF ib bit(1) bi(4) this, of h c] fix_field_ok [OF ib bit(1) bi(4), of h c]
    show ?thesis by auto
  qed
  define fs' where "fs' = map (\<lambda>g. the (fix_field_z h c g)) gs"
  have f': "list_all2 (\<lambda>g f'. fix_field_z h c g = Some f') gs fs'" "list_all2 (\<lambda>g f'. fix_field h c g = Some f') gs fs'"
    unfolding fs'_def list.rel_map by (rule list.rel_refl_strong, use fx in force)+
  from f'(2) have "those (map (fix_field h c) gs) = Some fs'" by (simp only: those_map)
  then have "struct_layout d h P fs = Some (fs', c, r)"
    unfolding struct_layout_def t using ag(1) size by (simp add: z)
  then show ?thesis by (rule that [OF gs c f'(1)])
qed

lemma struct_layoutE:
  assumes "struct_layout d h P fs = Some (fs', c, r)"
    and "\<not> lp_union P" "params_ok P" "\<forall>f\<in>set fs. layoutable d h f" "zeros_ok P None fs" "layout_room d h P fs"
  obtains gs s where "layout_fields_z P (map (\<lambda>f. (f, field_size d h f, field_alignment d h f)) fs) init_lstate = (gs, s)"
    "layout_size_z P s = (c, r)" "list_all2 (\<lambda>g f'. fix_field_z h c g = Some f') gs fs'"
  using assms(1) by (rule_tac struct_layout_reference [OF assms(2-6)]) simp

section \<open>Properties\<close>

text \<open>Changing the type of access moves no bit-field.\<close>

lemma fix_field_same:
  assumes "fix_field_z h c g = Some g'" "layoutable d h f" "0 \<le> fd_c g" "bf_width g = bf_width f"
    and "ct_t (fd_type g) AND VT_BTYPE \<in> {ct_t (fd_type f) AND VT_BTYPE, VT_INT}"
  shows "field_start g' = field_start g \<and> bf_width g' = bf_width g"
proof (cases "bf_width g < 0")
  case True
  then show ?thesis using assms(1) fix_field_plain [OF True] by simp
next
  case False
  have bit: "ct_t (fd_type g) AND VT_BITFIELD \<noteq> 0" "ct_t (fd_type f) AND VT_BITFIELD \<noteq> 0"
    using bf_width_bounds(3) [of g] bf_width_bounds(3) [of f] assms(4) False by auto
  have "is_integer_btype (ct_t (fd_type f) AND VT_BTYPE)" "is_integer_btype VT_INT"
    using assms(2) bit(2) by (auto simp: layoutable_def is_integer_btype_def)
  then have "is_integer_btype (ct_t (fd_type g) AND VT_BTYPE)" using assms(5) by auto
  then show ?thesis using fix_field_ok [OF _ bit(1) assms(3), of h c] assms(1) by auto
qed

text \<open>C15: The fields of a structure do not overlap: \<open>struct_layout\<close> returns, each bit range lies behind those of
  the fields before it, and all end within the size of the structure. This holds for structures with room enough
  (\<open>layout_room\<close>: sizes and alignments below \<open>2 ^ 27\<close> in sum); in larger ones the offsets wrap and fields overlap
  (\<open>large_struct_wraps\<close>), or the layout does not end (\<open>large_alignment_hangs\<close>). After Microsoft it also needs that every
  bit-field of width 0 follows one of the same type with a positive width; without that fields overlap
  (\<open>ms_zero_width_overlap\<close>).\<close>

theorem struct_layout_disjoint:
  assumes "\<not> lp_union P" "params_ok P" "\<forall>f\<in>set fs. layoutable d h f" "zeros_ok P None fs" "layout_room d h P fs"
  shows "\<exists>fs' c r. struct_layout d h P fs = Some (fs', c, r) \<and> length fs' = length fs \<and>
    (\<forall>i<length fs. 0 \<le> field_start (fs' ! i) \<and> field_stop (fs' ! i) (field_size d h (fs ! i)) \<le> 8 * c \<and>
      (\<forall>j<i. field_stop (fs' ! j) (field_size d h (fs ! j)) \<le> field_start (fs' ! i)))"
proof -
  let ?x = "\<lambda>f. (f, field_size d h f, field_alignment d h f)"
  obtain gs s fs' c r where gs: "layout_fields_z P (map ?x fs) init_lstate = (gs, s)" "layout_size_z P s = (c, r)"
    "list_all2 (\<lambda>g f'. fix_field_z h c g = Some f') gs fs'" and sl: "struct_layout d h P fs = Some (fs', c, r)"
    by (rule struct_layout_reference [OF assms])
  have init: "layout_inv P init_lstate" "layout_frontier P init_lstate = 0" "prev_ok P None init_lstate"
    "is_pow2 (ls_maxalign init_lstate)"
    by (simp_all add: layout_inv_def layout_frontier_def prev_ok_def init_lstate_def)
  have ok: "\<forall>x\<in>set (map ?x fs). field_ok x" and z: "zeros_ok P None (map fst (map ?x fs))"
    using assms(3,4) layoutable_field_ok(2) by (auto simp: comp_def)
  note b = layout_fields_bits [OF init(1) ok z init(3) assms(2,1) gs(1), unfolded init(2)]
  have m: "is_pow2 (ls_maxalign s)"
    using layout_fields_aligned [OF init(1,4) ok z init(3) assms(2,1) gs(1)] by simp
  have len: "length gs = length fs" "length fs' = length fs"
    using b list_all2_lengthD [OF gs(3)] by simp_all
  have bb: "0 \<le> field_start (gs ! i)" "field_stop (gs ! i) (field_size d h (fs ! i)) \<le> layout_frontier P s"
    "bf_width (gs ! i) = bf_width (fs ! i)" "0 \<le> fd_c (gs ! i)"
    "fix_field_z h c (gs ! i) = Some (fs' ! i)"
    "ct_t (fd_type (gs ! i)) AND VT_BTYPE \<in> {ct_t (fd_type (fs ! i)) AND VT_BTYPE, VT_INT}" if "i < length fs" for i
    using b gs(3) layout_fields_btype [OF gs(1)] that len by (auto simp: list_all2_conv_all_nth)
  have same: "field_start (fs' ! i) = field_start (gs ! i) \<and> bf_width (fs' ! i) = bf_width (gs ! i)" if "i < length fs" for i
    using fix_field_same [OF bb(5) _ bb(4,3,6)] that assms(3) nth_mem by blast
  have stop: "field_stop (fs' ! i) = field_stop (gs ! i)" if "i < length fs" for i
    using same [OF that] by (simp add: field_stop_def fun_eq_iff)
  have "length fs' = length fs \<and>
    (\<forall>i<length fs. 0 \<le> field_start (fs' ! i) \<and> field_stop (fs' ! i) (field_size d h (fs ! i)) \<le> 8 * c \<and>
      (\<forall>j<i. field_stop (fs' ! j) (field_size d h (fs ! j)) \<le> field_start (fs' ! i)))"
  proof (intro conjI allI impI)
    fix i assume i: "i < length fs"
    show "0 \<le> field_start (fs' ! i)" "field_stop (fs' ! i) (field_size d h (fs ! i)) \<le> 8 * c"
      using b bb(1,2) [OF i] same [OF i] stop [OF i] layout_size_bounds(1) [OF gs(2) _ m assms(2)] by auto
    fix j assume j: "j < i"
    have "sorted_wrt (\<lambda>(f, x) (g, y). field_stop f (fst (snd x)) \<le> field_start g) (zip gs (map ?x fs))"
      using b by blast
    from sorted_wrt_nth_less [OF this j]
    have "field_stop (gs ! j) (field_size d h (fs ! j)) \<le> field_start (gs ! i)" using i j len by simp
    then show "field_stop (fs' ! j) (field_size d h (fs ! j)) \<le> field_start (fs' ! i)"
      using same [OF i] stop [of j] i j by simp
  qed (rule len)
  then show ?thesis using sl by blast
qed

text \<open>Every plain field of a structure is aligned as \<open>field_align\<close> says (its type, \<open>packed\<close>,
  \<open>aligned\<close>, \<open>#pragma pack\<close>), the alignment of the structure is a multiple of it, and, unless
  both Microsoft's layout and \<open>#pragma pack\<close> are used, the size is a multiple of that, so that
  arrays of the structure keep all fields aligned.\<close>

lemma struct_layout_aligned:
  assumes "struct_layout d h P fs = Some (fs', c, r)" "\<not> lp_union P" "params_ok P"
    and "\<forall>f\<in>set fs. layoutable d h f" "zeros_ok P None fs" "layout_room d h P fs"
  shows "is_pow2 r \<and> (lp_pcc P \<or> lp_pragma P = 0 \<longrightarrow> r dvd c) \<and>
    (\<forall>i<length fs. bf_width (fs ! i) < 0 \<longrightarrow>
      fst (field_align P (fs ! i) (- 1) (field_alignment d h (fs ! i))) dvd r \<and>
      fst (field_align P (fs ! i) (- 1) (field_alignment d h (fs ! i))) dvd fd_c (fs' ! i))"
proof -
  let ?x = "\<lambda>f. (f, field_size d h f, field_alignment d h f)"
  obtain gs s where gs: "layout_fields_z P (map ?x fs) init_lstate = (gs, s)" "layout_size_z P s = (c, r)"
    "list_all2 (\<lambda>g f'. fix_field_z h c g = Some f') gs fs'"
    by (rule struct_layoutE [OF assms])
  have init: "layout_inv P init_lstate" "prev_ok P None init_lstate" "is_pow2 (ls_maxalign init_lstate)"
    by (simp_all add: layout_inv_def prev_ok_def init_lstate_def)
  have ok: "\<forall>x\<in>set (map ?x fs). field_ok x" and z: "zeros_ok P None (map fst (map ?x fs))"
    using assms(4,5) layoutable_field_ok(2) by (auto simp: comp_def)
  note b = layout_fields_bits [OF init(1) ok z init(2) assms(3,2) gs(1)]
  note m = layout_fields_aligned [OF init(1,3) ok z init(2) assms(3,2) gs(1)]
  have r: "is_pow2 r" "ls_maxalign s dvd r" "lp_pcc P \<or> lp_pragma P = 0 \<longrightarrow> r dvd c"
    using layout_size_bounds(2,3,4) [OF gs(2) _ _ assms(3)] b m by blast+
  have "fst (field_align P (fs ! i) (- 1) (field_alignment d h (fs ! i))) dvd r \<and>
      fst (field_align P (fs ! i) (- 1) (field_alignment d h (fs ! i))) dvd fd_c (fs' ! i)"
    if i: "i < length fs" "bf_width (fs ! i) < 0" for i
  proof -
    let ?a = "fst (field_align P (fs ! i) (- 1) (field_alignment d h (fs ! i)))"
    have "bf_width (gs ! i) = bf_width (fs ! i)" "fix_field_z h c (gs ! i) = Some (fs' ! i)"
      and a: "?a dvd fd_c (gs ! i)" "?a \<le> ls_maxalign s"
      using b m gs(3) i by (auto simp: list_all2_conv_all_nth)
    then have "fs' ! i = gs ! i" using fix_field_plain [of "gs ! i"] i(2) by simp
    moreover have "is_pow2 ?a"
    proof -
      have "is_pow2 (field_alignment d h (fs ! i))"
        using assms(4) i(1) layoutable_field_ok(2) by (fastforce simp: field_ok_def)
      then show ?thesis using field_align_pow2(1) [OF _ _ assms(3)] by (metis prod.collapse)
    qed
    then have "?a dvd ls_maxalign s" using is_pow2_dvd m a(2) by blast
    ultimately show ?thesis using a(1) r(2) dvd_trans by auto
  qed
  then show ?thesis using r by blast
qed

section \<open>Examples\<close>

text \<open>Fields of basic types, with a width for bit-fields.\<close>

definition ex_field :: "u32 \<Rightarrow> u32 \<Rightarrow> lfield" where
  "ex_field t w = \<lparr>fd_type = \<lparr>ct_t = t OR (w * 0x4000000) OR (if w = 0 then 0 else VT_BITFIELD), ct_ref = 0\<rparr>,
     fd_aligned = 0, fd_packed = False, fd_anon = False, fd_c = 0, fd_auxtype = 0\<rparr>"

definition ex_zero :: "u32 \<Rightarrow> lfield" where
  "ex_zero t = \<lparr>fd_type = \<lparr>ct_t = t OR VT_BITFIELD, ct_ref = 0\<rparr>,
     fd_aligned = 0, fd_packed = False, fd_anon = True, fd_c = 0, fd_auxtype = 0\<rparr>"

definition ex_params :: "bool \<Rightarrow> lparams" where
  "ex_params pcc = \<lparr>lp_pcc = pcc, lp_pragma = 0, lp_packed = False, lp_aligned = 0, lp_union = False\<rparr>"

text \<open>\<open>struct { char a; int b : 20; int c : 10; short d; }\<close>\<close>

definition ex_fields :: "lfield list" where
  "ex_fields = [ex_field 1 0, ex_field 3 20, ex_field 3 10, ex_field 2 0]"

lemmas ex_layout_defs = ex_fields_def ex_field_def ex_zero_def ex_params_def

lemma ex_fields_ok: "\<forall>f\<in>set ex_fields. layoutable 1 h f" "zeros_ok (ex_params True) None ex_fields"
  "params_ok (ex_params True)" "\<not> lp_union (ex_params True)"
  by (simp_all add: ex_layout_defs layoutable_def IS_ENUM_def BIT_SIZE_def is_integer_btype_def btype_size_def
      params_ok_def Let_def)

lemma ex_layout:
  "map_option (\<lambda>(fs, c, r). (map field_start fs, c, r)) (struct_layout 1 ex_syms (ex_params True) ex_fields) =
    Some ([0, 8, 32, 48], 8, 4)"
  by code_simp

lemma ex_room: "layout_room 1 ex_syms (ex_params True) ex_fields"
  by code_simp

theorem struct_layout_disjoint_witness:
  "\<exists>fs'. struct_layout 1 ex_syms (ex_params True) ex_fields = Some (fs', 8, 4) \<and>
    field_stop (fs' ! 1) (field_size 1 ex_syms (ex_fields ! 1)) \<le> field_start (fs' ! 2)"
proof -
  have "2 < length ex_fields" by (simp add: ex_fields_def)
  then show ?thesis using struct_layout_disjoint [OF ex_fields_ok(4,3,1,2) ex_room] ex_layout by force
qed

lemma struct_layout_aligned_witness:
  "\<exists>fs'. struct_layout 1 ex_syms (ex_params True) ex_fields = Some (fs', 8, 4) \<and> 2 dvd fd_c (fs' ! 3)"
proof -
  obtain fs' where fs': "struct_layout 1 ex_syms (ex_params True) ex_fields = Some (fs', 8, 4)"
    using ex_layout by auto
  have i: "3 < length ex_fields" "bf_width (ex_fields ! 3) < 0" by (simp_all add: ex_layout_defs bf_width_def)
  have "fst (field_align (ex_params True) (ex_fields ! 3) (- 1) (field_alignment 1 ex_syms (ex_fields ! 3))) = 2"
    by code_simp
  then show ?thesis using struct_layout_aligned [OF fs' ex_fields_ok(4,3,1,2) ex_room] fs' i by metis
qed

lemma fix_field_access_witness:
  "\<exists>f'. fix_field_z ex_syms 8 (ex_field 3 20) = Some f' \<and> field_start f' = 0"
proof -
  have "is_integer_btype (ct_t (fd_type (ex_field 3 20)) AND 15)" "ct_t (fd_type (ex_field 3 20)) AND 128 \<noteq> 0"
    "0 \<le> fd_c (ex_field 3 20)" "field_start (ex_field 3 20) = 0"
    by (simp_all add: ex_field_def is_integer_btype_def field_start_def BIT_POS_def)
  then show ?thesis using fix_field_access [of "ex_field 3 20" ex_syms 8] by auto
qed

text \<open>An \<open>int\<close> behind \<open>2 ^ 31 - 3\<close> bytes of other fields: its offset is negative.\<close>

lemma large_struct_wraps:
  "fd_c (fst (the (layout_step (ex_params True) (ex_field 3 0, 4, 4) (init_lstate\<lparr>ls_c := 2 ^ 31 - 3\<rparr>)))) = - (2 ^ 31)"
  by code_simp

text \<open>A bit-field with an alignment of \<open>2 ^ 29\<close>, as \<open>aligned\<close> can give it: the loop on the bit position never ends.\<close>

lemma large_alignment_hangs:
  assumes "0 \<le> bp" "bp < 2 ^ 31"
  shows "norm_pos (2 ^ 29) c bp = None"
proof (cases "norm_pos (2 ^ 29) c bp")
  case (Some r)
  have "\<not> ((2::int) ^ 29 = 2 ^ 29 \<and> 0 \<le> bp \<and> bp < 2 ^ 31)"
  proof (rule norm_pos.raw_induct [OF _ Some, of "\<lambda>al c bp r. \<not> (al = 2 ^ 29 \<and> 0 \<le> bp \<and> bp < 2 ^ 31)"], goal_cases)
    case (1 f al c bp r)
    show ?case
    proof
      assume a: "al = 2 ^ 29 \<and> 0 \<le> bp \<and> bp < 2 ^ 31"
      then have z: "c_int (al * 8) = 0" "c_int bp = bp" by (simp_all add: c_int) (simp add: c_int_def)
      then have "f al (c_int (c + al)) bp = Some r" using 1(2) a by simp
      from 1(1) [OF this] show False using a by simp
    qed
  qed
  then show ?thesis using assms by simp
qed

text \<open>
  What happens without the condition on widths of 0: after Microsoft the fields of
  \<open>struct { int : 0; int b : 20; char z; }\<close> overlap, since the unit of \<open>b\<close> is never added to the size.
\<close>

lemma ms_zero_width_overlap:
  "map_option (\<lambda>(fs, c, r). (map fd_c fs, c, r))
     (struct_layout 1 ex_syms (ex_params False) [ex_zero 3, ex_field 3 20, ex_field 1 0]) = Some ([0, 0, 0], 4, 4)"
  by code_simp

section \<open>The small functions\<close>

text \<open>\<open>aligned(n)\<close> is stored as \<open>exact_log2p1 n\<close> and read back with \<open>log_align\<close>.\<close>

lemma log2_bytes: "log2_bytes (2 ^ k) r = (2 ^ (k mod 8), r + 8 * int (k div 8))"
proof (induction k arbitrary: r rule: less_induct)
  case (less k)
  show ?case
  proof (cases "k < 8")
    case True
    then have "(2::int) ^ k < 2 ^ 8" by (rule power_strict_increasing) simp
    then show ?thesis using True by (simp add: log2_bytes.simps [of "2 ^ k"])
  next
    case False
    then have "(2::int) ^ 8 \<le> 2 ^ k" by (intro power_increasing) simp_all
    moreover have "(2::int) ^ k div 256 = 2 ^ (k - 8)"
      using False power_diff [of "2::int" 8 k] by simp
    ultimately show ?thesis
      using False less.IH [of "k - 8" "r + 8"] by (simp add: log2_bytes.simps [of "2 ^ k"] le_div_geq le_mod_geq)
  qed
qed

text \<open>An alignment survives its five bits.\<close>

lemma exact_log2p1_roundtrip: "exact_log2p1 (2 ^ k) = int k + 1 \<and> log_align (nat (exact_log2p1 (2 ^ k))) = 2 ^ k"
proof -
  have "k mod 8 \<in> {0, 1, 2, 3, 4, 5, 6, 7}" by (simp; presburger)
  then have "exact_log2p1 (2 ^ k) = 1 + 8 * int (k div 8) + int (k mod 8)"
    by (auto simp: exact_log2p1_def log2_bytes)
  then have "exact_log2p1 (2 ^ k) = int k + 1" by (simp add: zdiv_int zmod_int)
  then show ?thesis by (simp add: log_align_def nat_add_distrib)
qed

text \<open>\<open>in_range\<close> is the range of the type, where an unsigned type sees the value modulo \<open>2 ^ 64\<close>.\<close>

lemma in_range_iff:
  assumes "is_integer_btype (t AND VT_BTYPE)"
  defines "w \<equiv> 8 * btype_size (t AND VT_BTYPE)"
  shows "in_range n t \<longleftrightarrow>
    (if t AND VT_UNSIGNED \<noteq> 0 then uint n < 2 ^ w else - (2 ^ (w - 1)) \<le> sint n \<and> sint n < 2 ^ (w - 1))"
proof -
  have "w = 8 \<or> w = 16 \<or> w = 32 \<or> w = 64" using btype_size_cases [OF assms(1)] by (auto simp: w_def)
  moreover have "btype_size (t AND VT_BTYPE) * 8 = w" by (simp add: w_def)
  moreover have "uint n < 2 ^ 64" "- (2 ^ 63) \<le> sint n" "sint n < 2 ^ 63"
    using uint_lt2p [of n] sint_ge [of n] sint_lt [of n] by simp_all
  ultimately show ?thesis
    by (auto simp: in_range_def word_le_def sint_uint)
qed

end
