(* ===== verification/Nt_Unicode.thy ===== *)
theory Nt_Unicode
  imports Tcc_Prelude "HOL-Library.Monad_Syntax"
begin

text \<open>
  Conversion between UTF-8 and UTF-16 (\<open>ntapi/src/unicode\<close>). A validation loop classifies the
  units at the source pointer and calls a handler for the class; the handler writes and moves
  the source pointer on. Memory from the source pointer on is a function, since the
  code reads behind the end it was given; the destination is the list of units written. The loops
  ignore the status of a handler and need not end, so they are partial functions.
\<close>

section \<open>Data\<close>

datatype uc_status = UC_SUCCESS | UC_BUFFER_TOO_SMALL | UC_ILLEGAL_CHARACTER

text \<open>\<open>nt_utf8_callback_args\<close> and \<open>nt_utf16_callback_args\<close>: the source pointer as an index, what has
  been written to the destination, its size in bytes.\<close>

record 'u uc_args =
  ua_src :: nat
  ua_dst :: "'u list"
  ua_cap :: nat
  ua_byte_count :: nat
  ua_written :: u64

text \<open>The result of a validation: status, place of failure, arguments, number of code points.\<close>

type_synonym 'u uc_result = "uc_status \<times> nat option \<times> 'u uc_args \<times> u64"

text \<open>The end of the source; \<open>None\<close> stands for the address \<open>~0\<close>.\<close>

definition before :: "nat \<Rightarrow> nat option \<Rightarrow> bool" where
  "before i lim = (case lim of None \<Rightarrow> True | Some n \<Rightarrow> i < n)"

definition byte_in :: "'a::len word \<Rightarrow> 'a word \<Rightarrow> 'a word \<Rightarrow> bool" where
  "byte_in lo hi b \<longleftrightarrow> lo \<le> b \<and> b \<le> hi"

section \<open>Sizes of code points\<close>

definition uc_byte_count_utf8 :: "u32 \<Rightarrow> nat" where
  "uc_byte_count_utf8 c =
     (if drop_bit 7 c = 0 then 1 else if drop_bit 11 c = 0 then 2 else if drop_bit 16 c = 0 then 3
      else if drop_bit 21 c = 0 then 4 else 0)"

definition uc_byte_count_utf16 :: "u32 \<Rightarrow> nat" where
  "uc_byte_count_utf16 c = (if drop_bit 16 c = 0 then 2 else if drop_bit 21 c = 0 then 4 else 0)"

section \<open>Validation\<close>

text \<open>The byte count of the code point at \<open>i\<close>, 0 if there is none. The end is tested where the
  source does: not in the branches after the first one of each length.\<close>

definition utf8_count :: "(nat \<Rightarrow> u8) \<Rightarrow> nat option \<Rightarrow> nat \<Rightarrow> nat" where
  "utf8_count m lim i =
     (let b0 = m i; b1 = m (i + 1); b2 = m (i + 2); b3 = m (i + 3); cont = byte_in 0x80 0xBF in
      if b0 \<le> 0x7F then 1
      else if before (i + 1) lim \<and> byte_in 0xC2 0xDF b0 \<and> cont b1 then 2
      else if before (i + 2) lim \<and> b0 = 0xE0 \<and> byte_in 0xA0 0xBF b1 \<and> cont b2 then 3
      else if byte_in 0xE1 0xEC b0 \<and> cont b1 \<and> cont b2 then 3
      else if b0 = 0xED \<and> byte_in 0x80 0x9F b1 \<and> cont b2 then 3
      else if byte_in 0xEE 0xEF b0 \<and> cont b1 \<and> cont b2 then 3
      else if before (i + 3) lim \<and> b0 = 0xF0 \<and> byte_in 0x90 0xBF b1 \<and> cont b2 \<and> cont b3 then 4
      else if byte_in 0xF1 0xF3 b0 \<and> cont b1 \<and> cont b2 \<and> cont b3 then 4
      else if b0 = 0xF4 \<and> byte_in 0x80 0x8F b1 \<and> cont b2 \<and> cont b3 then 4
      else 0)"

definition utf16_count :: "(nat \<Rightarrow> u16) \<Rightarrow> nat option \<Rightarrow> nat \<Rightarrow> nat" where
  "utf16_count m lim i =
     (let w = m i in
      if w \<le> 0x7F then 1
      else if w \<le> 0x7FF then 2
      else if w < 0xD800 \<or> w \<ge> 0xE000 then 3
      else if w \<ge> 0xD800 \<and> w < 0xDC00 \<and> before (i + 1) lim \<and> m (i + 1) \<ge> 0xDC00 \<and> m (i + 1) < 0xE000 then 4
      else 0)"

text \<open>The loop both validation functions have; \<open>h k\<close> is \<open>callback_fn[k]\<close>.\<close>

type_synonym 'u uc_handler = "'u uc_args \<Rightarrow> uc_status \<times> 'u uc_args"

partial_function (option) uc_validate ::
  "(nat \<Rightarrow> nat) \<Rightarrow> (nat \<Rightarrow> 'm::zero) \<Rightarrow> nat option \<Rightarrow> (nat \<Rightarrow> 'u uc_handler) \<Rightarrow> 'u uc_args \<Rightarrow> u64 \<Rightarrow>
   'u uc_result option" where
  "uc_validate cls m lim h args n =
     (let ch = ua_src args in
      if before ch lim \<and> m ch \<noteq> 0 then
        (if cls ch \<noteq> 0 then
           uc_validate cls m lim h (snd (h (cls ch) (args\<lparr>ua_byte_count := cls ch\<rparr>))) (n + 1)
         else Some (UC_ILLEGAL_CHARACTER, Some ch, args, n))
      else Some (UC_SUCCESS, None, if before ch lim \<and> m ch = 0 then snd (h 0 args) else args, n))"

definition size_limit :: "nat \<Rightarrow> nat option" where
  "size_limit n = (if n \<noteq> 0 then Some n else None)"

definition uc_validate_utf8 ::
  "(nat \<Rightarrow> u8) \<Rightarrow> nat \<Rightarrow> (nat \<Rightarrow> 'u uc_handler) \<Rightarrow> 'u uc_args \<Rightarrow> u64 \<Rightarrow> 'u uc_result option" where
  "uc_validate_utf8 m sz h args n =
     uc_validate (utf8_count m (size_limit sz)) m (size_limit sz) h args n"

text \<open>A size in bytes for units of two: the end is at \<open>i\<close> when \<open>2 * i < size\<close> fails.\<close>

definition uc_validate_utf16 ::
  "(nat \<Rightarrow> u16) \<Rightarrow> nat \<Rightarrow> (nat \<Rightarrow> 'u uc_handler) \<Rightarrow> 'u uc_args \<Rightarrow> u64 \<Rightarrow> 'u uc_result option" where
  "uc_validate_utf16 m sz h args n =
     (let lim = map_option (\<lambda>n. (n + 1) div 2) (size_limit sz) in
      uc_validate (utf16_count m lim) m lim h args n)"

definition default_callback_utf8 :: "'u uc_handler" where
  "default_callback_utf8 args = (UC_SUCCESS, args\<lparr>ua_src := ua_src args + ua_byte_count args\<rparr>)"

definition default_callback_utf16 :: "'u uc_handler" where
  "default_callback_utf16 args =
     (UC_SUCCESS, args\<lparr>ua_src := ua_src args + (if ua_byte_count args = 4 then 2 else 1)\<rparr>)"

section \<open>UTF-8 to UTF-16\<close>

text \<open>What a handler does after it has computed its units: both pointers and the counter move.\<close>

definition uc_write :: "nat \<Rightarrow> 'u list \<Rightarrow> nat \<Rightarrow> 'u uc_handler" where
  "uc_write k us width args =
     (UC_SUCCESS, args\<lparr>ua_src := ua_src args + k, ua_dst := ua_dst args @ us,
        ua_written := ua_written args + of_nat (length us * width)\<rparr>)"

definition utf8_to_utf16_1 :: "(nat \<Rightarrow> u8) \<Rightarrow> u16 uc_handler" where
  "utf8_to_utf16_1 m args =
     (if 2 * length (ua_dst args) \<ge> ua_cap args then (UC_BUFFER_TOO_SMALL, args)
      else uc_write 1 [ucast (m (ua_src args))] 2 args)"

definition utf8_to_utf16_2 :: "(nat \<Rightarrow> u8) \<Rightarrow> u16 uc_handler" where
  "utf8_to_utf16_2 m args =
     (if 2 * length (ua_dst args) \<ge> ua_cap args then (UC_BUFFER_TOO_SMALL, args)
      else
        let low = m (ua_src args); high = m (ua_src args + 1);
            w = push_bit 6 (ucast (low XOR 0xC0))
        in uc_write 2 [w OR ucast (high XOR 0x80)] 2 args)"

definition utf8_to_utf16_3 :: "(nat \<Rightarrow> u8) \<Rightarrow> u16 uc_handler" where
  "utf8_to_utf16_3 m args =
     (if 2 * length (ua_dst args) \<ge> ua_cap args then (UC_BUFFER_TOO_SMALL, args)
      else
        let low = m (ua_src args); middle = m (ua_src args + 1); high = m (ua_src args + 2);
            w = push_bit 12 (ucast (low XOR 0xE0));
            yyyyy = push_bit 6 (ucast (middle XOR 0x80))
        in uc_write 3 [(w OR yyyyy) OR ucast (high XOR 0x80)] 2 args)"

definition utf8_to_utf16_4 :: "(nat \<Rightarrow> u8) \<Rightarrow> u16 uc_handler" where
  "utf8_to_utf16_4 m args =
     (if 2 * (length (ua_dst args) + 1) \<ge> ua_cap args then (UC_BUFFER_TOO_SMALL, args)
      else
        let b0 = m (ua_src args); b1 = m (ua_src args + 1); b2 = m (ua_src args + 2); b3 = m (ua_src args + 3);
            ulow = push_bit 2 (b0 XOR 0xF0);
            uhigh = drop_bit 4 (b1 XOR 0x80);
            u = ucast (ulow OR uhigh) :: u16;
            lead = ((0xD800 OR push_bit 6 (u - 1)) OR push_bit 2 (ucast (b1 XOR 0x80))) OR ucast (drop_bit 4 (b2 XOR 0x80));
            yyyy = push_bit 4 b2;
            trail = (push_bit 2 (ucast yyyy) OR ucast (b3 XOR 0x80)) OR 0xDC00
        in uc_write 4 [lead, trail] 2 args)"

definition utf8_to_utf16_fn :: "(nat \<Rightarrow> u8) \<Rightarrow> nat \<Rightarrow> u16 uc_handler" where
  "utf8_to_utf16_fn m k =
     (if k \<le> 1 then utf8_to_utf16_1 m else if k = 2 then utf8_to_utf16_2 m
      else if k = 3 then utf8_to_utf16_3 m else utf8_to_utf16_4 m)"

section \<open>UTF-16 to UTF-8\<close>

definition utf16_to_utf8_1 :: "(nat \<Rightarrow> u16) \<Rightarrow> u8 uc_handler" where
  "utf16_to_utf8_1 m args =
     (if length (ua_dst args) \<ge> ua_cap args then (UC_BUFFER_TOO_SMALL, args)
      else uc_write 1 [ucast (m (ua_src args))] 1 args)"

definition utf16_to_utf8_2 :: "(nat \<Rightarrow> u16) \<Rightarrow> u8 uc_handler" where
  "utf16_to_utf8_2 m args =
     (if length (ua_dst args) + 1 \<ge> ua_cap args then (UC_BUFFER_TOO_SMALL, args)
      else
        let w = m (ua_src args); wy = drop_bit 6 w; wx = drop_bit 10 (push_bit 10 w)
        in uc_write 1 [ucast (0xC0 OR wy), ucast (0x80 OR wx)] 1 args)"

definition utf16_to_utf8_3 :: "(nat \<Rightarrow> u16) \<Rightarrow> u8 uc_handler" where
  "utf16_to_utf8_3 m args =
     (if length (ua_dst args) + 2 \<ge> ua_cap args then (UC_BUFFER_TOO_SMALL, args)
      else
        let w = m (ua_src args); wz = drop_bit 12 w; wy = drop_bit 10 (push_bit 4 w);
            wx = drop_bit 10 (push_bit 10 w)
        in uc_write 1 [ucast (0xE0 OR wz), ucast (0x80 OR wy), ucast (0x80 OR wx)] 1 args)"

text \<open>The first unit is taken for the low half. \<open>(uuuuu << 14) >> 10\<close> is computed as an \<open>int\<close>.\<close>

definition utf16_to_utf8_4 :: "(nat \<Rightarrow> u16) \<Rightarrow> u8 uc_handler" where
  "utf16_to_utf8_4 m args =
     (if length (ua_dst args) + 3 \<ge> ua_cap args then (UC_BUFFER_TOO_SMALL, args)
      else
        let w0 = m (ua_src args); w1 = m (ua_src args + 1);
            wx = drop_bit 10 (push_bit 10 w0);
            wy_low = drop_bit 12 (push_bit 6 w0);
            wy_high = drop_bit 10 (push_bit 14 w1);
            wz = push_bit 2 (drop_bit 12 (push_bit 10 w1));
            ww = drop_bit 12 (push_bit 6 w1);
            uuuuu = ww + 1;
            u_high = drop_bit 2 uuuuu;
            u_low = ucast (drop_bit 10 (push_bit 14 (ucast uuuuu :: u32))) :: u16
        in uc_write 2 [ucast (0xF0 OR u_high), ucast ((0x80 OR u_low) OR wz),
             ucast ((0x80 OR wy_low) OR wy_high), ucast (0x80 OR wx)] 1 args)"

definition utf16_to_utf8_fn :: "(nat \<Rightarrow> u16) \<Rightarrow> nat \<Rightarrow> u8 uc_handler" where
  "utf16_to_utf8_fn m k =
     (if k \<le> 1 then utf16_to_utf8_1 m else if k = 2 then utf16_to_utf8_2 m
      else if k = 3 then utf16_to_utf8_3 m else utf16_to_utf8_4 m)"

section \<open>The conversions\<close>

text \<open>\<open>nt_unicode_conversion_params_\<dots>\<close>.\<close>

record 'u uc_params =
  up_src_size :: nat
  up_dst_size :: nat
  up_dst :: "'u list"
  up_code_points :: u64
  up_written :: u64
  up_addr_failed :: "nat option"
  up_leftover_count :: nat
  up_leftover_bytes :: u64

definition start_args :: "'u uc_params \<Rightarrow> 'u uc_args" where
  "start_args p = \<lparr>ua_src = 0, ua_dst = [], ua_cap = up_dst_size p, ua_byte_count = 0, ua_written = up_written p\<rparr>"

text \<open>The bytes that may begin a code point and be cut off by the end of the source.\<close>

definition utf8_prefix2 :: "u8 \<Rightarrow> u8 \<Rightarrow> bool" where
  "utf8_prefix2 b0 b1 \<longleftrightarrow>
     b0 = 0xE0 \<and> byte_in 0xA0 0xBF b1 \<or> byte_in 0xE1 0xEC b0 \<and> byte_in 0x80 0xBF b1 \<or>
     b0 = 0xED \<and> byte_in 0x80 0x9F b1 \<or> byte_in 0xEE 0xEF b0 \<and> byte_in 0x80 0xBF b1 \<or>
     b0 = 0xF0 \<and> byte_in 0x90 0xBF b1 \<or> byte_in 0xF1 0xF3 b0 \<and> byte_in 0x80 0xBF b1 \<or>
     b0 = 0xF4 \<and> byte_in 0x80 0x8F b1"

definition utf8_prefix3 :: "u8 \<Rightarrow> u8 \<Rightarrow> bool" where
  "utf8_prefix3 b0 b1 \<longleftrightarrow>
     b0 = 0xF0 \<and> byte_in 0x90 0xBF b1 \<or> byte_in 0xF1 0xF3 b0 \<and> byte_in 0x80 0xBF b1 \<or>
     b0 = 0xF4 \<and> byte_in 0x80 0x8F b1"

definition leftover_info_utf8 :: "(nat \<Rightarrow> u8) \<Rightarrow> nat \<Rightarrow> 'u uc_params \<Rightarrow> uc_status \<times> 'u uc_params" where
  "leftover_info_utf8 m bad p =
     (let ofs = int (up_src_size p) - int bad; b0 = m bad; b1 = m (bad + 1); b2 = m (bad + 2) in
      if ofs = 1 \<and> byte_in 0xC2 0xF4 b0 then
        (UC_SUCCESS, p\<lparr>up_leftover_count := 1, up_leftover_bytes := push_bit 24 (ucast b0)\<rparr>)
      else if ofs = 2 \<and> utf8_prefix2 b0 b1 then
        (UC_SUCCESS, p\<lparr>up_leftover_count := 2,
           up_leftover_bytes := push_bit 16 (push_bit 8 (ucast b0) + ucast b1)\<rparr>)
      else if ofs = 3 \<and> utf8_prefix3 b0 b1 then
        (UC_SUCCESS, p\<lparr>up_leftover_count := 3,
           up_leftover_bytes := push_bit 8 (push_bit 8 (push_bit 8 (ucast b0) + ucast b1) + ucast b2)\<rparr>)
      else (UC_ILLEGAL_CHARACTER, p\<lparr>up_leftover_count := 0, up_leftover_bytes := 0\<rparr>))"

definition leftover_info_utf16 :: "(nat \<Rightarrow> u16) \<Rightarrow> nat \<Rightarrow> 'u uc_params \<Rightarrow> uc_status \<times> 'u uc_params" where
  "leftover_info_utf16 m bad p =
     (if int (up_src_size p) - 2 * int bad = 2 \<and> m bad \<ge> 0xD800 \<and> m bad < 0xDC00 then
        (UC_SUCCESS, p\<lparr>up_leftover_count := 2, up_leftover_bytes := push_bit 16 (ucast (m bad))\<rparr>)
      else (UC_ILLEGAL_CHARACTER, p\<lparr>up_leftover_count := 0, up_leftover_bytes := 0\<rparr>))"

text \<open>What follows the validation: the parameters are updated, a cut code point is kept.\<close>

definition uc_finish ::
  "(nat \<Rightarrow> 'u uc_params \<Rightarrow> uc_status \<times> 'u uc_params) \<Rightarrow> 'u uc_params \<Rightarrow> 'u uc_result \<Rightarrow> uc_status \<times> 'u uc_params" where
  "uc_finish leftover p res =
     (let (st, bad, args, n) = res;
          p = p\<lparr>up_dst := ua_dst args, up_code_points := n, up_written := ua_written args,
                up_addr_failed := (if bad = None then up_addr_failed p else bad)\<rparr>;
          (st, p) = (case bad of None \<Rightarrow> (st, p) | Some i \<Rightarrow> leftover i p)
      in (st, p\<lparr>up_leftover_bytes := push_bit 32 (up_leftover_bytes p)\<rparr>))"

definition convert_utf8_to_utf16 :: "(nat \<Rightarrow> u8) \<Rightarrow> u16 uc_params \<Rightarrow> (uc_status \<times> u16 uc_params) option" where
  "convert_utf8_to_utf16 m p =
     map_option (uc_finish (leftover_info_utf8 m) p)
       (uc_validate_utf8 m (up_src_size p) (utf8_to_utf16_fn m) (start_args p) (up_code_points p))"

definition convert_utf16_to_utf8 :: "(nat \<Rightarrow> u16) \<Rightarrow> u8 uc_params \<Rightarrow> (uc_status \<times> u8 uc_params) option" where
  "convert_utf16_to_utf8 m p =
     map_option (uc_finish (leftover_info_utf16 m) p)
       (uc_validate_utf16 m (up_src_size p) (utf16_to_utf8_fn m) (start_args p) (up_code_points p))"

text \<open>The conversions to UTF-32 are empty.\<close>

definition convert_utf8_to_utf32 :: "u32 uc_params \<Rightarrow> uc_status \<times> u32 uc_params" where
  "convert_utf8_to_utf32 p = (UC_SUCCESS, p)"

definition convert_utf16_to_utf32 :: "u32 uc_params \<Rightarrow> uc_status \<times> u32 uc_params" where
  "convert_utf16_to_utf32 p = (UC_SUCCESS, p)"

section \<open>The encodings\<close>

text \<open>Unicode scalar values, and their encodings as the standard gives them.\<close>

definition scalar :: "nat \<Rightarrow> bool" where
  "scalar c \<longleftrightarrow> c < 0xD800 \<or> 0xE000 \<le> c \<and> c < 0x110000"

definition utf8_enc :: "nat \<Rightarrow> nat list" where
  "utf8_enc c =
     (if c < 0x80 then [c]
      else if c < 0x800 then [0xC0 + c div 64, 0x80 + c mod 64]
      else if c < 0x10000 then [0xE0 + c div 4096, 0x80 + c div 64 mod 64, 0x80 + c mod 64]
      else [0xF0 + c div 262144, 0x80 + c div 4096 mod 64, 0x80 + c div 64 mod 64, 0x80 + c mod 64])"

definition utf16_enc :: "nat \<Rightarrow> nat list" where
  "utf16_enc c =
     (if c < 0x10000 then [c] else [0xD800 + (c - 0x10000) div 1024, 0xDC00 + (c - 0x10000) mod 1024])"

fun units_at :: "(nat \<Rightarrow> 'a::len word) \<Rightarrow> nat \<Rightarrow> nat list \<Rightarrow> bool" where
  "units_at m i [] = True"
| "units_at m i (u # us) \<longleftrightarrow> unat (m i) = u \<and> units_at m (i + 1) us"

lemma units_at_append: "units_at m i (us @ vs) \<longleftrightarrow> units_at m i us \<and> units_at m (i + length us) vs"
  by (induction us arbitrary: i) auto

lemma units_at_nth: "units_at (\<lambda>i. us ! i) 0 (map unat us)"
proof -
  have "units_at (\<lambda>i. us ! i) (length vs) (map unat ws)" if "us = vs @ ws" for vs ws
    using that
  proof (induction ws arbitrary: vs)
    case (Cons w ws)
    then show ?case using Cons.IH [of "vs @ [w]"] by simp
  qed simp
  from this [of "[]" us] show ?thesis by simp
qed

text \<open>The same classification of four numbers.\<close>

fun utf8_len :: "nat \<times> nat \<times> nat \<times> nat \<Rightarrow> nat" where
  "utf8_len (b0, b1, b2, b3) =
     (if b0 \<le> 0x7F then 1
      else if 0xC2 \<le> b0 \<and> b0 \<le> 0xDF \<and> 0x80 \<le> b1 \<and> b1 \<le> 0xBF then 2
      else if 0xE0 \<le> b0 \<and> b0 \<le> 0xEF \<and> (if b0 = 0xE0 then 0xA0 else 0x80) \<le> b1 \<and>
        b1 \<le> (if b0 = 0xED then 0x9F else 0xBF) \<and> 0x80 \<le> b2 \<and> b2 \<le> 0xBF then 3
      else if 0xF0 \<le> b0 \<and> b0 \<le> 0xF4 \<and> (if b0 = 0xF0 then 0x90 else 0x80) \<le> b1 \<and>
        b1 \<le> (if b0 = 0xF4 then 0x8F else 0xBF) \<and> 0x80 \<le> b2 \<and> b2 \<le> 0xBF \<and> 0x80 \<le> b3 \<and> b3 \<le> 0xBF then 4
      else 0)"

definition starts :: "nat \<times> nat \<times> nat \<times> nat \<Rightarrow> nat list \<Rightarrow> bool" where
  "starts q us \<longleftrightarrow> (case q of (b0, b1, b2, b3) \<Rightarrow> take (length us) [b0, b1, b2, b3] = us)"

lemma pos_mod_bound_64: "n mod 64 \<le> (63::nat)"
  using mod_less_divisor [of 64 n] by linarith

lemma utf8_len_enc:
  assumes "scalar c" "starts q (utf8_enc c)"
  shows "utf8_len q = length (utf8_enc c)"
proof -
  obtain b0 b1 b2 b3 where q: "q = (b0, b1, b2, b3)" using prod_cases4 by blast
  consider (1) "c < 0x80" | (2) "0x80 \<le> c" "c < 0x800" | (3) "0x800 \<le> c" "c < 0x10000" | (4) "0x10000 \<le> c"
    by linarith
  then show ?thesis
  proof cases
    case 1
    then show ?thesis using assms by (simp add: q starts_def utf8_enc_def)
  next
    case 2
    then have b: "b0 = 0xC0 + c div 64" "b1 = 0x80 + c mod 64" "length (utf8_enc c) = 2"
      using assms by (simp_all add: q starts_def utf8_enc_def)
    have "2 \<le> c div 64" "c div 64 < 32" using 2 by simp_all
    then show ?thesis using b by (simp add: q)
  next
    case 3
    then have b: "b0 = 0xE0 + c div 4096" "b1 = 0x80 + c div 64 mod 64" "b2 = 0x80 + c mod 64" "length (utf8_enc c) = 3"
      using assms by (simp_all add: q starts_def utf8_enc_def)
    define w x where "w = c div 4096" and "x = c div 64 mod 64"
    have "c div 64 = 64 * w + x" using div_mult2_eq [of c 64 64] by (simp add: w_def x_def)
    moreover have "w < 16" "x < 64" "32 \<le> c div 64" "c div 64 < 0x360 \<or> 0x380 \<le> c div 64"
      using 3 assms(1) by (auto simp: scalar_def w_def x_def)
    ultimately have "w = 0 \<longrightarrow> 32 \<le> x" "w = 13 \<longrightarrow> x < 32" "w < 16" "x < 64" by linarith+
    then show ?thesis
      using b unfolding w_def [symmetric] x_def [symmetric] q by (cases "w = 0"; cases "w = 13"; simp)
  next
    case 4
    then have b: "b0 = 0xF0 + c div 262144" "b1 = 0x80 + c div 4096 mod 64" "b2 = 0x80 + c div 64 mod 64"
      "b3 = 0x80 + c mod 64" "length (utf8_enc c) = 4"
      using assms by (simp_all add: q starts_def utf8_enc_def)
    define w x where "w = c div 262144" and "x = c div 4096 mod 64"
    have "c div 4096 = 64 * w + x" using div_mult2_eq [of c 4096 64] by (simp add: w_def x_def)
    moreover have "x < 64" "16 \<le> c div 4096" "c div 4096 < 0x110"
      using 4 assms(1) by (auto simp: scalar_def w_def x_def)
    ultimately have "w = 0 \<longrightarrow> 16 \<le> x" "w = 4 \<longrightarrow> x < 16" "w \<le> 4" "x < 64" by linarith+
    then show ?thesis
      using b pos_mod_bound_64 unfolding w_def [symmetric] x_def [symmetric] q by (cases "w = 0"; cases "w = 4"; simp)
  qed
qed

lemma div_mod_64: "y < 64 \<Longrightarrow> (x * 64 + y) div 64 = x \<and> (x * 64 + y) mod 64 = (y::nat)"
  by simp

lemma utf8_len_dec:
  assumes "utf8_len q \<noteq> 0"
  shows "\<exists>c. scalar c \<and> starts q (utf8_enc c)"
proof -
  obtain b0 b1 b2 b3 where q: "q = (b0, b1, b2, b3)" using prod_cases4 by blast
  define w x y z where "w = b0 - 0xC0" and "x = b1 - 0x80" and "y = b2 - 0x80" and "z = b3 - 0x80"
  consider (1) "b0 \<le> 0x7F"
    | (2) "b0 = 0xC0 + w" "2 \<le> w" "w < 32" "b1 = 0x80 + x" "x < 64"
    | (3) "b0 = 0xC0 + w" "32 \<le> w" "w < 48" "b1 = 0x80 + x" "x < 64" "b2 = 0x80 + y" "y < 64"
      "w = 32 \<longrightarrow> 32 \<le> x" "w = 45 \<longrightarrow> x < 32"
    | (4) "b0 = 0xC0 + w" "48 \<le> w" "w \<le> 52" "b1 = 0x80 + x" "x < 64" "b2 = 0x80 + y" "y < 64" "b3 = 0x80 + z" "z < 64"
      "w = 48 \<longrightarrow> 16 \<le> x" "w = 52 \<longrightarrow> x < 16"
  proof -
    consider "b0 \<le> 0x7F"
      | "0xC2 \<le> b0" "b0 \<le> 0xDF" "0x80 \<le> b1" "b1 \<le> 0xBF"
      | "0xE0 \<le> b0" "b0 \<le> 0xEF" "(if b0 = 0xE0 then 0xA0 else 0x80) \<le> b1"
        "b1 \<le> (if b0 = 0xED then 0x9F else 0xBF)" "0x80 \<le> b2" "b2 \<le> 0xBF"
      | "0xF0 \<le> b0" "b0 \<le> 0xF4" "(if b0 = 0xF0 then 0x90 else 0x80) \<le> b1"
        "b1 \<le> (if b0 = 0xF4 then 0x8F else 0xBF)" "0x80 \<le> b2" "b2 \<le> 0xBF" "0x80 \<le> b3" "b3 \<le> 0xBF"
      using assms unfolding q utf8_len.simps by argo
    then show thesis
    proof cases
      case 1
      then show ?thesis by (rule that(1))
    next
      case 2
      then show ?thesis by (intro that(2)) (simp_all add: w_def x_def)
    next
      case 3
      then show ?thesis by (intro that(3)) (auto simp: w_def x_def y_def split: if_splits)
    next
      case 4
      then show ?thesis by (intro that(4)) (auto simp: w_def x_def y_def z_def split: if_splits)
    qed
  qed
  then show ?thesis
  proof cases
    case 1
    then show ?thesis by (intro exI [of _ b0]) (simp add: utf8_enc_def scalar_def q starts_def)
  next
    case 2
    define c where "c = w * 64 + x"
    have "0x80 \<le> c" "c < 0x800" using 2 by (simp_all add: c_def)
    then show ?thesis
      using 2 div_mod_64 [of x w] by (intro exI [of _ c]) (simp add: utf8_enc_def scalar_def q starts_def c_def)
  next
    case 3
    define v where "v = (w - 32) * 64 + x"
    define c where "c = v * 64 + y"
    have c: "c div 64 = v" "c mod 64 = y" "v div 64 = w - 32" "v mod 64 = x"
      using div_mod_64 [of y v, folded c_def] div_mod_64 [of x "w - 32", folded v_def] 3 by simp_all
    have v: "32 \<le> v" "v < 0x400" using 3 by (auto simp: v_def)
    have "v < 0x360 \<or> 0x380 \<le> v"
    proof (cases "w = 45")
      case True
      then show ?thesis using 3 by (simp add: v_def)
    next
      case False
      then have "w - 32 \<le> 12 \<or> 14 \<le> w - 32" by linarith
      then show ?thesis using 3 unfolding v_def by linarith
    qed
    then have "0x800 \<le> c" "c < 0x10000" "scalar c" using v 3(7) by (auto simp: c_def scalar_def)
    then show ?thesis
      using 3 c div_mult2_eq [of c 64 64] by (intro exI [of _ c]) (simp add: utf8_enc_def q starts_def)
  next
    case 4
    define u where "u = (w - 48) * 64 + x"
    define v where "v = u * 64 + y"
    define c where "c = v * 64 + z"
    have c: "c div 64 = v" "c mod 64 = z" "v div 64 = u" "v mod 64 = y" "u div 64 = w - 48" "u mod 64 = x"
      using div_mod_64 [of z v, folded c_def] div_mod_64 [of y u, folded v_def]
        div_mod_64 [of x "w - 48", folded u_def] 4 by simp_all
    have u: "16 \<le> u" "u < 0x110" using 4 by (auto simp: u_def)
    then have v: "0x400 \<le> v" "v < 0x4400" using 4 by (simp_all add: v_def)
    then have "0x10000 \<le> c" "scalar c" using 4 by (simp_all add: c_def scalar_def)
    then show ?thesis
      using 4 c div_mult2_eq [of c 64 64] div_mult2_eq [of c 4096 64]
      by (intro exI [of _ c]) (simp add: utf8_enc_def q starts_def)
  qed
qed

lemma utf8_count_nat:
  assumes "\<And>k. k < 4 \<Longrightarrow> before (i + k) lim"
  shows "utf8_count m lim i = utf8_len (unat (m i), unat (m (i + 1)), unat (m (i + 2)), unat (m (i + 3)))"
proof -
  have b: "before (i + 1) lim" "before (i + 2) lim" "before (i + 3) lim"
    using assms [of 1] assms [of 2] assms [of 3] by simp_all
  have e: "w = 0xE0 \<longleftrightarrow> unat w = 0xE0" "w = 0xED \<longleftrightarrow> unat w = 0xED" "w = 0xF0 \<longleftrightarrow> unat w = 0xF0"
    "w = 0xF4 \<longleftrightarrow> unat w = 0xF4" for w :: u8
    by (simp_all add: word_unat_eq_iff)
  define b0 b1 b2 b3 where "b0 = unat (m i)" and "b1 = unat (m (i + 1))" and "b2 = unat (m (i + 2))" and "b3 = unat (m (i + 3))"
  show ?thesis
    unfolding utf8_count_def Let_def byte_in_def word_le_nat_alt e utf8_len.simps
    unfolding b0_def [symmetric] b1_def [symmetric] b2_def [symmetric] b3_def [symmetric]
    using b by (cases "b0 = 0xE0"; cases "b0 = 0xED"; cases "b0 = 0xF0"; cases "b0 = 0xF4"; simp; linarith?)
qed

lemma starts_units_at:
  "units_at m i (utf8_enc c) \<longleftrightarrow> starts (unat (m i), unat (m (i + 1)), unat (m (i + 2)), unat (m (i + 3))) (utf8_enc c)"
proof -
  have "Suc (Suc (Suc i)) = i + 3" by simp
  note i3 = this
  show ?thesis by (simp add: utf8_enc_def starts_def i3)
qed

text \<open>Inside the source the classification is Table 3-7 of the Unicode standard: \<open>utf8_count\<close> is
  positive exactly where the encoding of a scalar value begins, and then it is its length.\<close>

lemma utf8_count_correct:
  assumes "\<And>k. k < 4 \<Longrightarrow> before (i + k) lim"
  shows "(\<exists>c. scalar c \<and> units_at m i (utf8_enc c) \<and> utf8_count m lim i = length (utf8_enc c)) \<or>
    utf8_count m lim i = 0 \<and> \<not> (\<exists>c. scalar c \<and> units_at m i (utf8_enc c))"
proof -
  let ?q = "(unat (m i), unat (m (i + 1)), unat (m (i + 2)), unat (m (i + 3)))"
  have cnt: "utf8_count m lim i = utf8_len ?q"
    by (rule utf8_count_nat [OF assms])
  show ?thesis
    unfolding cnt starts_units_at using utf8_len_enc utf8_len_dec by blast
qed

lemma count_bounds:
  assumes "a1 \<and> a2 \<and> a3" "k \<ge> 2 \<Longrightarrow> b1" "k \<ge> 3 \<Longrightarrow> b2" "k \<ge> 4 \<Longrightarrow> b3" "k \<noteq> 0"
    and "(if c1 then 1 else if a1 \<and> c2 then 2 else if a2 \<and> c3 then 3 else if c4 then 3 else if c5 then 3
      else if c6 then 3 else if a3 \<and> c7 then 4 else if c8 then 4 else if c9 then 4 else (0::nat)) = k"
  shows "(if c1 then 1 else if b1 \<and> c2 then 2 else if b2 \<and> c3 then 3 else if c4 then 3 else if c5 then 3
      else if c6 then 3 else if b3 \<and> c7 then 4 else if c8 then 4 else if c9 then 4 else (0::nat)) = k"
  using assms by (auto split: if_splits)

text \<open>Near the end of the source: a code point that lies before it is recognised.\<close>

lemma utf8_count_before:
  assumes "utf8_count m None i = k" "\<And>j. j < k \<Longrightarrow> before (i + j) lim" "k \<noteq> 0"
  shows "utf8_count m lim i = k"
proof -
  have b: "before (i + 1) lim" if "k \<ge> 2" using assms(2) [of 1] that by simp
  have b2: "before (i + 2) lim" if "k \<ge> 3" using assms(2) [of 2] that by simp
  have b3: "before (i + 3) lim" if "k \<ge> 4" using assms(2) [of 3] that by simp
  show ?thesis
    using assms(1) unfolding utf8_count_def Let_def
    by (rule count_bounds [rotated -1]) (use assms(3) b b2 b3 in \<open>simp_all add: before_def\<close>)
qed

lemma utf8_count_enc:
  assumes "scalar c" "units_at m i (utf8_enc c)" "\<And>j. j < length (utf8_enc c) \<Longrightarrow> before (i + j) lim"
  shows "utf8_count m lim i = length (utf8_enc c)"
proof (rule utf8_count_before)
  have q: "utf8_count m None i = utf8_len (unat (m i), unat (m (i + 1)), unat (m (i + 2)), unat (m (i + 3)))"
    by (rule utf8_count_nat) (simp add: before_def)
  have "starts (unat (m i), unat (m (i + 1)), unat (m (i + 2)), unat (m (i + 3))) (utf8_enc c)"
    using assms(2) starts_units_at by blast
  then show "utf8_count m None i = length (utf8_enc c)" unfolding q by (rule utf8_len_enc [OF assms(1)])
qed (use assms in \<open>simp_all add: utf8_enc_def\<close>)

section \<open>Assembling and splitting code points\<close>

lemma take_bit_disjoint: "take_bit k p = 0 \<Longrightarrow> take_bit k v = v \<Longrightarrow> (p::'a::len word) AND v = 0"
  by (metis take_bit_and and_zero_eq zero_and_eq take_bit_eq_mask and.assoc and.commute)

lemma xor_prefix:
  fixes b p :: "'a::len word"
  assumes "unat b = unat p + x" "x < 2 ^ k" "take_bit k p = 0"
  shows "unat (b XOR p) = x"
proof -
  have "unat b < 2 ^ LENGTH('a)" by (rule unsigned_less)
  then have x: "x < 2 ^ LENGTH('a)" using assms(1) by linarith
  define v :: "'a word" where "v = of_nat x"
  have ux: "unat v = x" using x by (simp add: v_def unsigned_of_nat take_bit_nat_eq_self)
  have tv: "take_bit k v = v"
    using assms(2) by (simp add: word_unat_eq_iff unsigned_take_bit_eq ux take_bit_nat_eq_self)
  have "b = of_nat (unat b)" by simp
  also have "\<dots> = p + v" unfolding assms(1) by (simp add: v_def)
  also have "\<dots> = p OR v" by (rule disjunctive_add_eq_or) (rule take_bit_disjoint [OF assms(3) tv])
  finally have "b XOR p = v"
    using take_bit_disjoint [OF assms(3) tv]
    by (simp add: bit_eq_iff) (auto simp: bit_simps bit_eq_iff)
  then show ?thesis using ux by simp
qed

lemma or_shift:
  fixes w v :: "'a::len word"
  assumes "unat w * 2 ^ k + unat v < 2 ^ LENGTH('a)" "unat v < 2 ^ k"
  shows "unat (push_bit k w OR v) = unat w * 2 ^ k + unat v"
proof -
  have "take_bit k v = v" using assms(2) by (rule take_bit_word_small)
  then have "push_bit k w AND v = 0" by (intro take_bit_disjoint [of k]) (simp_all add: take_bit_push_bit)
  then have "push_bit k w OR v = push_bit k w + v" by (rule disjunctive_add_eq_or [symmetric])
  moreover have "unat (push_bit k w) = unat w * 2 ^ k"
    unfolding unsigned_push_bit_eq using assms(1) by (simp add: push_bit_eq_mult take_bit_nat_eq_self)
  ultimately show ?thesis using assms(1) by (simp add: unat_word_ariths)
qed

lemma unat_ucast_8_16: "unat (ucast (b::u8) :: u16) = unat b"
proof (rule unat_ucast_small)
  have "unat b < 2 ^ LENGTH(8)" by (rule unsigned_less)
  then show "unat b < 2 ^ LENGTH(16)" by simp
qed

lemmas utf8_xor =
  xor_prefix [of _ "0xC0 :: u8" _ 5] xor_prefix [of _ "0xE0 :: u8" _ 4] xor_prefix [of _ "0xF0 :: u8" _ 3]
  xor_prefix [of _ "0x80 :: u8" _ 6]

text \<open>What the handlers to UTF-16 write for a code point of the basic plane.\<close>

lemma utf8_to_utf16_handler:
  assumes "scalar c" "c < 0x10000" "units_at m (ua_src a) (utf8_enc c)" "2 * (length (ua_dst a) + 1) \<le> ua_cap a"
  shows "utf8_to_utf16_fn m (length (utf8_enc c)) a = uc_write (length (utf8_enc c)) [of_nat c] 2 a"
proof -
  have cap: "\<not> 2 * length (ua_dst a) \<ge> ua_cap a" using assms(4) by simp
  have eq: "w = of_nat c" if "unat w = c" for w :: u16 using that by auto
  consider (1) "c < 0x80" | (2) "0x80 \<le> c" "c < 0x800" | (3) "0x800 \<le> c" by linarith
  then show ?thesis
  proof cases
    case 1
    then have l: "length (utf8_enc c) = 1" and m: "unat (m (ua_src a)) = c" using assms(3) by (simp_all add: utf8_enc_def)
    have "(ucast (m (ua_src a)) :: u16) = of_nat c" by (rule eq) (simp add: unat_ucast_8_16 m)
    then show ?thesis using cap by (simp add: l utf8_to_utf16_fn_def utf8_to_utf16_1_def)
  next
    case 2
    then have l: "length (utf8_enc c) = 2" and m: "unat (m (ua_src a)) = unat (0xC0 :: u8) + c div 64"
      "unat (m (ua_src a + 1)) = unat (0x80 :: u8) + c mod 64"
      using assms(3) by (simp_all add: utf8_enc_def)
    have d: "c div 64 < 2 ^ 5" "c mod 64 < 2 ^ 6" using 2 by simp_all
    have x: "unat (m (ua_src a) XOR 0xC0) = c div 64" "unat (m (ua_src a + 1) XOR 0x80) = c mod 64"
      using utf8_xor(1) [OF m(1) d(1)] utf8_xor(4) [OF m(2) d(2)] by simp_all
    have "push_bit 6 (ucast (m (ua_src a) XOR 0xC0)) OR ucast (m (ua_src a + 1) XOR 0x80) = (of_nat c :: u16)"
      using d by (intro eq, subst or_shift) (simp_all only: unat_ucast_8_16 x, simp_all)
    then show ?thesis using cap by (simp add: l utf8_to_utf16_fn_def utf8_to_utf16_2_def Let_def)
  next
    case 3
    then have l: "length (utf8_enc c) = 3" and m: "unat (m (ua_src a)) = unat (0xE0 :: u8) + c div 4096"
      "unat (m (ua_src a + 1)) = unat (0x80 :: u8) + c div 64 mod 64" "unat (m (ua_src a + 2)) = unat (0x80 :: u8) + c mod 64"
      using assms(2,3) by (simp_all add: utf8_enc_def)
    have d: "c div 4096 < 2 ^ 4" "c div 64 mod 64 < 2 ^ 6" "c mod 64 < 2 ^ 6" using assms(2) by simp_all
    have x: "unat (m (ua_src a) XOR 0xE0) = c div 4096" "unat (m (ua_src a + 1) XOR 0x80) = c div 64 mod 64"
      "unat (m (ua_src a + 2) XOR 0x80) = c mod 64"
      using utf8_xor(2) [OF m(1) d(1)] utf8_xor(4) [OF m(2) d(2)] utf8_xor(4) [OF m(3) d(3)] by simp_all
    let ?w = "ucast (m (ua_src a) XOR 0xE0) :: u16" and ?y = "ucast (m (ua_src a + 1) XOR 0x80) :: u16"
    have e: "push_bit 12 ?w OR push_bit 6 ?y = push_bit 6 (push_bit 6 ?w OR ?y)" by (simp add: push_bit_or)
    have v: "unat (push_bit 6 ?w OR ?y) = c div 64"
      using d div_mult2_eq [of c 64 64] by (subst or_shift) (simp_all only: unat_ucast_8_16 x, simp_all)
    have "(push_bit 12 ?w OR push_bit 6 ?y) OR ucast (m (ua_src a + 2) XOR 0x80) = (of_nat c :: u16)"
      unfolding e using d assms(2) by (intro eq, subst or_shift) (simp_all only: unat_ucast_8_16 x v, simp_all)
    then show ?thesis using cap by (simp add: l utf8_to_utf16_fn_def utf8_to_utf16_3_def Let_def)
  qed
qed

lemma or_prefix:
  fixes p v :: "'a::len word"
  assumes "unat v < 2 ^ k" "take_bit k p = 0" "unat p + unat v < 2 ^ LENGTH('a)"
  shows "unat (p OR v) = unat p + unat v"
proof -
  have "p OR v = p + v"
    by (rule disjunctive_add_eq_or [symmetric], rule take_bit_disjoint [OF assms(2)], rule take_bit_word_small [OF assms(1)])
  then show ?thesis using assms(3) by (simp add: unat_word_ariths)
qed

lemma unat_drop_push: "unat (drop_bit n (push_bit k (w::u16))) = unat w * 2 ^ k mod 65536 div 2 ^ n"
  unfolding unsigned_drop_bit_eq unsigned_push_bit_eq by (simp add: push_bit_eq_mult drop_bit_eq_div take_bit_eq_mod)

lemma unat_drop_bit: "unat (drop_bit n (w::'a::len word)) = unat w div 2 ^ n"
proof -
  have "unat w < 2 ^ LENGTH('a)" by (rule unsigned_less)
  then show ?thesis unfolding unsigned_drop_bit_eq by (simp add: drop_bit_eq_div take_bit_nat_eq_self)
qed

lemma unat_ucast_16_8: "unat w < 256 \<Longrightarrow> unat (ucast (w::u16) :: u8) = unat w"
  by (rule unat_ucast_small) simp

text \<open>What the handlers to UTF-8 write for a code point of the basic plane.\<close>

lemma utf16_to_utf8_handler:
  assumes "scalar c" "c < 0x10000" "unat (m (ua_src a)) = c" "length (ua_dst a) + length (utf8_enc c) \<le> ua_cap a"
  shows "utf16_to_utf8_fn m (length (utf8_enc c)) a = uc_write 1 (map of_nat (utf8_enc c)) 1 a"
proof -
  define w where "w = m (ua_src a)"
  have w: "unat w = c" by (simp add: w_def assms(3))
  have eq: "v = of_nat n" if "unat v = n" for v :: u8 and n using that by auto
  have wx: "unat (drop_bit 10 (push_bit 10 w)) = c mod 64"
    using mult_mod_left [of c 64 1024] by (simp add: unat_drop_push w)
  have e: "ucast (p OR v) = (of_nat (unat p + unat v) :: u8)"
    if "unat v < 2 ^ k" "take_bit k p = 0" "unat p + unat v < 256" for p v :: u16 and k
    using that by (intro eq, subst unat_ucast_16_8) (simp_all add: or_prefix [of v k p])
  consider (1) "c < 0x80" | (2) "0x80 \<le> c" "c < 0x800" | (3) "0x800 \<le> c" by linarith
  then show ?thesis
  proof cases
    case 1
    then have "(ucast w :: u8) = of_nat c" by (intro eq) (simp add: unat_ucast_16_8 w)
    then show ?thesis using 1 assms(4) by (simp add: utf8_enc_def utf16_to_utf8_fn_def utf16_to_utf8_1_def w_def)
  next
    case 2
    have wy: "unat (drop_bit 6 w) = c div 64" by (simp add: unat_drop_bit w)
    have "c div 64 < 2 ^ 5" "c mod 64 < 2 ^ 6" using 2 by simp_all
    then have "ucast (0xC0 OR drop_bit 6 w) = (of_nat (unat (0xC0::u16) + c div 64) :: u8)"
      "ucast (0x80 OR drop_bit 10 (push_bit 10 w)) = (of_nat (unat (0x80::u16) + c mod 64) :: u8)"
      using e [of "drop_bit 6 w" 5 "0xC0", unfolded wy] e [of "drop_bit 10 (push_bit 10 w)" 6 "0x80", unfolded wx] by simp_all
    then show ?thesis
      using 2 assms(4) by (simp add: utf8_enc_def utf16_to_utf8_fn_def utf16_to_utf8_2_def Let_def w_def [symmetric])
  next
    case 3
    have wz: "unat (drop_bit 12 w) = c div 4096" by (simp add: unat_drop_bit w)
    have "c * 16 mod 65536 = (c mod 4096) * 16" using mult_mod_left [of c 4096 16] by simp
    then have wy: "unat (drop_bit 10 (push_bit 4 w)) = c div 64 mod 64"
      using mod_mult2_eq [of c 64 64] by (simp add: unat_drop_push w div_mult2_eq [of _ 16 64, simplified])
    have "c div 4096 < 2 ^ 4" "c div 64 mod 64 < 2 ^ 6" "c mod 64 < 2 ^ 6" using assms(2) by simp_all
    then have "ucast (0xE0 OR drop_bit 12 w) = (of_nat (unat (0xE0::u16) + c div 4096) :: u8)"
      "ucast (0x80 OR drop_bit 10 (push_bit 4 w)) = (of_nat (unat (0x80::u16) + c div 64 mod 64) :: u8)"
      "ucast (0x80 OR drop_bit 10 (push_bit 10 w)) = (of_nat (unat (0x80::u16) + c mod 64) :: u8)"
      using e [of "drop_bit 12 w" 4 "0xE0", unfolded wz] e [of "drop_bit 10 (push_bit 4 w)" 6 "0x80", unfolded wy]
        e [of "drop_bit 10 (push_bit 10 w)" 6 "0x80", unfolded wx] by simp_all
    then show ?thesis
      using 3 assms(2,4) by (simp add: utf8_enc_def utf16_to_utf8_fn_def utf16_to_utf8_3_def Let_def w_def [symmetric])
  qed
qed

lemma utf16_count_enc:
  assumes "scalar c" "c < 0x10000" "unat (m i) = c"
  shows "utf16_count m lim i = length (utf8_enc c)"
  using assms by (auto simp: utf16_count_def Let_def word_le_nat_alt word_less_nat_alt utf8_enc_def scalar_def)

section \<open>Streams of code points\<close>

text \<open>
  What the validation loop relies on: a classification that recognises the encoding of a code
  point, and handlers that, given room, write the other encoding and move on; handler 0 copies
  the terminator.
\<close>

locale transcoder =
  fixes cls :: "(nat \<Rightarrow> 'm::len word) \<Rightarrow> nat option \<Rightarrow> nat \<Rightarrow> nat"
    and handler :: "(nat \<Rightarrow> 'm word) \<Rightarrow> nat \<Rightarrow> 'u::len word uc_handler"
    and ok :: "nat \<Rightarrow> bool" and src :: "nat \<Rightarrow> nat list" and dst :: "nat \<Rightarrow> nat list" and width :: nat
  assumes src_ne: "ok c \<Longrightarrow> src c \<noteq> [] \<and> hd (src c) \<noteq> 0"
    and recognised: "ok c \<Longrightarrow> units_at m i (src c) \<Longrightarrow> (\<And>j. j < length (src c) \<Longrightarrow> before (i + j) lim) \<Longrightarrow>
      cls m lim i \<noteq> 0"
    and converted: "ok c \<Longrightarrow> units_at m (ua_src a) (src c) \<Longrightarrow>
      (\<And>j. j < length (src c) \<Longrightarrow> before (ua_src a + j) lim) \<Longrightarrow>
      width * (length (ua_dst a) + length (dst c)) \<le> ua_cap a \<Longrightarrow>
      snd (handler m (cls m lim (ua_src a)) a) = snd (uc_write (length (src c)) (map of_nat (dst c)) width a)"
    and terminated: "m (ua_src a) = 0 \<Longrightarrow> width * (length (ua_dst a) + 1) \<le> ua_cap a \<Longrightarrow>
      snd (handler m 0 a) = snd (uc_write 1 [0] width a)"
begin

lemma stream_converted:
  assumes "\<forall>c\<in>set cs. ok c" "units_at m (ua_src a) (concat (map src cs) @ z)"
    and "z = [0] \<and> lim = None \<or> z = [] \<and> lim = Some (ua_src a + length (concat (map src cs)))"
    and "width * (length (ua_dst a) + length (concat (map dst cs) @ z)) \<le> ua_cap a"
  shows "\<exists>b. uc_validate (cls m lim) m lim (handler m) a n = Some (UC_SUCCESS, None, b, n + of_nat (length cs)) \<and>
    ua_dst b = ua_dst a @ map of_nat (concat (map dst cs) @ z) \<and>
    ua_written b = ua_written a + of_nat (length (concat (map dst cs) @ z) * width)"
  using assms
proof (induction cs arbitrary: a n)
  case Nil
  then have "before (ua_src a) lim \<and> m (ua_src a) = 0 \<and> z = [0] \<or> \<not> before (ua_src a) lim \<and> z = []"
    by (auto simp: before_def unat_eq_0)
  then show ?case
  proof
    assume z: "before (ua_src a) lim \<and> m (ua_src a) = 0 \<and> z = [0]"
    then show ?thesis
      using terminated [of m a] Nil.prems(4) by (subst uc_validate.simps) (simp add: uc_write_def)
  next
    assume "\<not> before (ua_src a) lim \<and> z = []"
    then show ?thesis by (subst uc_validate.simps) simp
  qed
next
  case (Cons c cs)
  let ?a = "a\<lparr>ua_byte_count := cls m lim (ua_src a)\<rparr>"
  have c: "ok c" "src c \<noteq> []" "hd (src c) \<noteq> 0" using Cons.prems(1) src_ne [of c] by auto
  have u: "units_at m (ua_src a) (src c)" "units_at m (ua_src a + length (src c)) (concat (map src cs) @ z)"
    using Cons.prems(2) by (simp_all add: units_at_append)
  have bf: "before (ua_src a + j) lim" if "j < length (src c)" for j
    using Cons.prems(3) that by (auto simp: before_def)
  have start: "before (ua_src a) lim" "m (ua_src a) \<noteq> 0"
    using bf [of 0] c(2,3) u(1) by (cases "src c"; force)+
  have cl: "cls m lim (ua_src a) \<noteq> 0" by (rule recognised [OF c(1) u(1) bf])
  have "width * (length (ua_dst a) + length (dst c)) \<le> width * (length (ua_dst a) + length (concat (map dst (c # cs)) @ z))"
    by (intro mult_le_mono2) simp
  then have cap: "width * (length (ua_dst a) + length (dst c)) \<le> ua_cap a" using Cons.prems(4) by (rule order_trans)
  define b where "b = snd (uc_write (length (src c)) (map of_nat (dst c)) width ?a)"
  have h: "snd (handler m (cls m lim (ua_src a)) ?a) = b"
    unfolding b_def using converted [OF c(1), of m ?a lim] u(1) bf cap by simp
  have b: "ua_src b = ua_src a + length (src c)" "ua_dst b = ua_dst a @ map of_nat (dst c)" "ua_cap b = ua_cap a"
    "ua_written b = ua_written a + of_nat (length (dst c) * width)"
    by (simp_all add: b_def uc_write_def)
  have "\<exists>b'. uc_validate (cls m lim) m lim (handler m) b (n + 1) = Some (UC_SUCCESS, None, b', n + 1 + of_nat (length cs)) \<and>
    ua_dst b' = ua_dst b @ map of_nat (concat (map dst cs) @ z) \<and>
    ua_written b' = ua_written b + of_nat (length (concat (map dst cs) @ z) * width)"
    by (rule Cons.IH) (use Cons.prems u b in \<open>auto simp: add.assoc\<close>)
  moreover have "uc_validate (cls m lim) m lim (handler m) a n = uc_validate (cls m lim) m lim (handler m) b (n + 1)"
    using start cl by (subst uc_validate.simps) (simp add: Let_def h)
  ultimately show ?case using b by (auto simp: add.assoc add_mult_distrib)
qed

end

text \<open>Both directions, for the basic plane without 0.\<close>

definition basic :: "nat \<Rightarrow> bool" where
  "basic c \<longleftrightarrow> scalar c \<and> 0 < c \<and> c < 0x10000"

interpretation to16: transcoder utf8_count utf8_to_utf16_fn basic utf8_enc utf16_enc 2
proof
  show "utf8_enc c \<noteq> [] \<and> hd (utf8_enc c) \<noteq> 0" if "basic c" for c
    using that by (simp add: utf8_enc_def basic_def)
  show "utf8_count m lim i \<noteq> 0"
    if "basic c" "units_at m i (utf8_enc c)" "\<And>j. j < length (utf8_enc c) \<Longrightarrow> before (i + j) lim" for c m i lim
    using utf8_count_enc [of c m i lim] that by (auto simp: basic_def utf8_enc_def)
  show "snd (utf8_to_utf16_fn m (utf8_count m lim (ua_src a)) a) = snd (uc_write (length (utf8_enc c)) (map of_nat (utf16_enc c)) 2 a)"
    if "basic c" "units_at m (ua_src a) (utf8_enc c)" "\<And>j. j < length (utf8_enc c) \<Longrightarrow> before (ua_src a + j) lim"
      "2 * (length (ua_dst a) + length (utf16_enc c)) \<le> ua_cap a" for c m a lim
    using utf8_count_enc [of c m "ua_src a" lim] utf8_to_utf16_handler [of c m a] that
    by (simp add: basic_def utf16_enc_def)
  show "snd (utf8_to_utf16_fn m 0 a) = snd (uc_write 1 [0] 2 a)"
    if "m (ua_src a) = 0" "2 * (length (ua_dst a) + 1) \<le> ua_cap a" for m and a :: "u16 uc_args"
    using that by (simp add: utf8_to_utf16_fn_def utf8_to_utf16_1_def)
qed

interpretation to8: transcoder utf16_count utf16_to_utf8_fn basic utf16_enc utf8_enc 1
proof
  show "utf16_enc c \<noteq> [] \<and> hd (utf16_enc c) \<noteq> 0" if "basic c" for c
    using that by (simp add: utf16_enc_def basic_def)
  show "utf16_count m lim i \<noteq> 0"
    if "basic c" "units_at m i (utf16_enc c)" "\<And>j. j < length (utf16_enc c) \<Longrightarrow> before (i + j) lim" for c m i lim
    using utf16_count_enc [of c m i lim] that by (auto simp: basic_def utf16_enc_def utf8_enc_def)
  show "snd (utf16_to_utf8_fn m (utf16_count m lim (ua_src a)) a) = snd (uc_write (length (utf16_enc c)) (map of_nat (utf8_enc c)) 1 a)"
    if "basic c" "units_at m (ua_src a) (utf16_enc c)" "\<And>j. j < length (utf16_enc c) \<Longrightarrow> before (ua_src a + j) lim"
      "1 * (length (ua_dst a) + length (utf8_enc c)) \<le> ua_cap a" for c m a lim
    using utf16_count_enc [of c m "ua_src a" lim] utf16_to_utf8_handler [of c m a] that
    by (simp add: basic_def utf16_enc_def)
  show "snd (utf16_to_utf8_fn m 0 a) = snd (uc_write 1 [0] 1 a)"
    if "m (ua_src a) = 0" "1 * (length (ua_dst a) + 1) \<le> ua_cap a" for m and a :: "u8 uc_args"
    using that by (simp add: utf16_to_utf8_fn_def utf16_to_utf8_1_def)
qed

text \<open>What a caller of a conversion sets up: the end of the source, given by a terminator or by the size.\<close>

definition source_ends :: "nat list \<Rightarrow> nat \<Rightarrow> nat list \<Rightarrow> nat \<Rightarrow> bool" where
  "source_ends us width z sz \<longleftrightarrow> z = [0] \<and> sz = 0 \<or> z = [] \<and> us \<noteq> [] \<and> sz = width * length us"

text \<open>Converting UTF-8 text of the basic plane to UTF-16 into a buffer that is large enough
  succeeds, writes exactly the UTF-16 encoding (with the terminator, if there is one), and
  counts the code points and the bytes.\<close>

lemma utf8_to_utf16_stream:
  assumes "\<forall>c\<in>set cs. basic c" "units_at m 0 (concat (map utf8_enc cs) @ z)"
    and "source_ends (concat (map utf8_enc cs)) 1 z (up_src_size p)"
    and "2 * length (concat (map utf16_enc cs) @ z) \<le> up_dst_size p"
  shows "\<exists>q. convert_utf8_to_utf16 m p = Some (UC_SUCCESS, q) \<and>
    map unat (up_dst q) = concat (map utf16_enc cs) @ z \<and>
    up_code_points q = up_code_points p + of_nat (length cs) \<and>
    up_written q = up_written p + of_nat (2 * length (concat (map utf16_enc cs) @ z)) \<and>
    up_addr_failed q = up_addr_failed p"
proof -
  have ends: "z = [0] \<and> size_limit (up_src_size p) = None \<or>
      z = [] \<and> size_limit (up_src_size p) = Some (ua_src (start_args p) + length (concat (map utf8_enc cs)))"
    using assms(3) by (auto simp: source_ends_def size_limit_def start_args_def)
  obtain b where b: "uc_validate_utf8 m (up_src_size p) (utf8_to_utf16_fn m) (start_args p) (up_code_points p) =
      Some (UC_SUCCESS, None, b, up_code_points p + of_nat (length cs))"
    "ua_dst b = map of_nat (concat (map utf16_enc cs) @ z)"
    "ua_written b = up_written p + of_nat (length (concat (map utf16_enc cs) @ z) * 2)"
    using to16.stream_converted [OF assms(1) _ ends, of m "up_code_points p"] assms(2,4)
    by (auto simp: uc_validate_utf8_def start_args_def)
  have "map unat (ua_dst b) = concat (map utf16_enc cs) @ z"
    unfolding b(2) using assms(1,3)
    by (auto simp: basic_def utf16_enc_def source_ends_def unsigned_of_nat take_bit_nat_eq_self intro!: map_idI)
  then show ?thesis
    using b(1,3) by (auto simp: convert_utf8_to_utf16_def uc_finish_def Let_def mult.commute)
qed

text \<open>The same from UTF-16 to UTF-8.\<close>

lemma utf16_to_utf8_stream:
  assumes "\<forall>c\<in>set cs. basic c" "units_at m 0 (concat (map utf16_enc cs) @ z)"
    and "source_ends (concat (map utf16_enc cs)) 2 z (up_src_size p)"
    and "length (concat (map utf8_enc cs) @ z) \<le> up_dst_size p"
  shows "\<exists>q. convert_utf16_to_utf8 m p = Some (UC_SUCCESS, q) \<and>
    map unat (up_dst q) = concat (map utf8_enc cs) @ z \<and>
    up_code_points q = up_code_points p + of_nat (length cs) \<and>
    up_written q = up_written p + of_nat (length (concat (map utf8_enc cs) @ z)) \<and>
    up_addr_failed q = up_addr_failed p"
proof -
  let ?lim = "map_option (\<lambda>n. (n + 1) div 2) (size_limit (up_src_size p))"
  have ends: "z = [0] \<and> ?lim = None \<or>
      z = [] \<and> ?lim = Some (ua_src (start_args p) + length (concat (map utf16_enc cs)))"
    using assms(3) by (auto simp: source_ends_def size_limit_def start_args_def)
  obtain b where b: "uc_validate_utf16 m (up_src_size p) (utf16_to_utf8_fn m) (start_args p) (up_code_points p) =
      Some (UC_SUCCESS, None, b, up_code_points p + of_nat (length cs))"
    "ua_dst b = map of_nat (concat (map utf8_enc cs) @ z)"
    "ua_written b = up_written p + of_nat (length (concat (map utf8_enc cs) @ z))"
    using to8.stream_converted [OF assms(1) _ ends, of m "up_code_points p"] assms(2,4)
    by (auto simp: uc_validate_utf16_def start_args_def)
  have "u < 256" if "u \<in> set (utf8_enc c)" "c < 0x10000" for u c
    using that by (auto simp: utf8_enc_def split: if_splits)
  then have "map unat (ua_dst b) = concat (map utf8_enc cs) @ z"
    unfolding b(2) using assms(1,3)
    by (fastforce simp: basic_def source_ends_def unsigned_of_nat intro!: map_idI take_bit_nat_eq_self)
  then show ?thesis
    using b(1,3) by (auto simp: convert_utf16_to_utf8_def uc_finish_def Let_def)
qed

text \<open>Converting UTF-8 text of the basic plane to UTF-16 into a buffer that is large enough
  succeeds, writes exactly the UTF-16 encoding (with the terminator, if there is one), and
  counts the code points and the bytes.\<close>

lemma utf8_to_utf16_correct:
  assumes "\<forall>c\<in>set cs. basic c" "units_at m 0 (concat (map utf8_enc cs) @ z)"
    and "source_ends (concat (map utf8_enc cs)) 1 z (up_src_size p)"
    and "2 * length (concat (map utf16_enc cs) @ z) \<le> up_dst_size p"
  shows "\<exists>q. convert_utf8_to_utf16 m p = Some (UC_SUCCESS, q) \<and>
    map unat (up_dst q) = concat (map utf16_enc cs) @ z \<and>
    up_code_points q = up_code_points p + of_nat (length cs) \<and>
    up_written q = up_written p + of_nat (2 * length (concat (map utf16_enc cs) @ z)) \<and>
    up_addr_failed q = up_addr_failed p"
  by (rule utf8_to_utf16_stream [OF assms])

text \<open>C16: Text of the basic plane survives the way to UTF-8 and back.\<close>

theorem unicode_roundtrip:
  assumes "\<forall>c\<in>set cs. basic c" "units_at m 0 (concat (map utf16_enc cs) @ [0])"
    and "up_src_size p = 0" "length (concat (map utf8_enc cs)) < up_dst_size p"
    and "up_src_size p' = 0" "2 * length (concat (map utf16_enc cs)) + 2 \<le> up_dst_size p'"
  shows "\<exists>q r. convert_utf16_to_utf8 m p = Some (UC_SUCCESS, q) \<and>
    convert_utf8_to_utf16 (\<lambda>i. up_dst q ! i) p' = Some (UC_SUCCESS, r) \<and>
    map unat (up_dst r) = concat (map utf16_enc cs) @ [0]"
proof -
  obtain q where q: "convert_utf16_to_utf8 m p = Some (UC_SUCCESS, q)"
    "map unat (up_dst q) = concat (map utf8_enc cs) @ [0]"
    using utf16_to_utf8_stream [OF assms(1,2), of p] assms(3,4) by (auto simp: source_ends_def)
  then show ?thesis
    using utf8_to_utf16_stream [OF assms(1), of "\<lambda>i. up_dst q ! i" "[0]" p'] units_at_nth [of "up_dst q"] assms(5,6)
    by (auto simp: source_ends_def)
qed

section \<open>When the loops end\<close>

text \<open>Validation without handlers of a source with a size returns, whatever the bytes.\<close>

lemma validate_utf8_returns:
  assumes "sz \<noteq> 0"
  shows "\<exists>res. uc_validate_utf8 m sz (\<lambda>_. default_callback_utf8) a n = Some res"
proof -
  have "\<exists>res. uc_validate cls m (Some sz) (\<lambda>_. default_callback_utf8) a n = Some res" for cls
  proof (induction "sz - ua_src a" arbitrary: a n rule: less_induct)
    case less
    define b where "b = snd (default_callback_utf8 (a\<lparr>ua_byte_count := cls (ua_src a)\<rparr>))"
    have b: "ua_src b = ua_src a + cls (ua_src a)" by (simp add: b_def default_callback_utf8_def)
    show ?case
    proof (cases "ua_src a < sz \<and> m (ua_src a) \<noteq> 0 \<and> cls (ua_src a) \<noteq> 0")
      case True
      then have "\<exists>res. uc_validate cls m (Some sz) (\<lambda>_. default_callback_utf8) b (n + 1) = Some res"
        by (intro less) (use b True in linarith)
      then show ?thesis
        using True by (subst uc_validate.simps) (simp add: before_def Let_def flip: b_def)
    next
      case False
      then show ?thesis by (subst uc_validate.simps) (auto simp: before_def Let_def)
    qed
  qed
  then show ?thesis using assms by (simp add: uc_validate_utf8_def size_limit_def)
qed

text \<open>A handler that reports that the buffer is too small does not move, and its status is ignored: the
  loop never ends.\<close>

definition stuck :: "(nat \<Rightarrow> nat) \<Rightarrow> (nat \<Rightarrow> 'm::zero) \<Rightarrow> nat option \<Rightarrow> (nat \<Rightarrow> 'u uc_handler) \<Rightarrow> 'u uc_args \<Rightarrow> bool" where
  "stuck cls m lim h a \<longleftrightarrow> before (ua_src a) lim \<and> m (ua_src a) \<noteq> 0 \<and> cls (ua_src a) \<noteq> 0 \<and>
    (\<forall>b. ua_src b = ua_src a \<and> ua_dst b = ua_dst a \<and> ua_cap b = ua_cap a \<longrightarrow> snd (h (cls (ua_src a)) b) = b)"

lemma validate_stuck: "uc_validate cls m lim h a n = Some res \<Longrightarrow> \<not> stuck cls m lim h a"
proof (rule uc_validate.raw_induct [where P = "\<lambda>cls m lim h a n res. \<not> stuck cls m lim h a"])
  fix f and cls :: "nat \<Rightarrow> nat" and m :: "nat \<Rightarrow> 'm::zero" and lim h and a :: "'u uc_args" and n res
  assume IH: "\<And>cls m lim h a n res. f cls m lim h a n = Some res \<Longrightarrow> \<not> stuck cls m lim h a"
    and body: "(let ch = ua_src a in
      if before ch lim \<and> m ch \<noteq> 0 then
        (if cls ch \<noteq> 0 then f cls m lim h (snd (h (cls ch) (a\<lparr>ua_byte_count := cls ch\<rparr>))) (n + 1)
         else Some (UC_ILLEGAL_CHARACTER, Some ch, a, n))
      else Some (UC_SUCCESS, None, if before ch lim \<and> m ch = 0 then snd (h 0 a) else a, n)) = Some res"
  let ?b = "a\<lparr>ua_byte_count := cls (ua_src a)\<rparr>"
  show "\<not> stuck cls m lim h a"
  proof
    assume s: "stuck cls m lim h a"
    then have "snd (h (cls (ua_src a)) ?b) = ?b" by (simp add: stuck_def)
    then have "f cls m lim h ?b (n + 1) = Some res" using body s by (simp add: Let_def stuck_def)
    then have "\<not> stuck cls m lim h ?b" by (rule IH)
    moreover have "stuck cls m lim h ?b = stuck cls m lim h a" by (simp add: stuck_def)
    ultimately show False using s by blast
  qed
qed

lemma full_buffer_hangs:
  assumes "up_dst_size p = 0" "m 0 \<noteq> 0" "m 0 \<le> 0x7F"
  shows "convert_utf8_to_utf16 m p = None"
proof (rule ccontr)
  have c: "utf8_count m (size_limit (up_src_size p)) 0 = 1" using assms(3) by (simp add: utf8_count_def Let_def)
  have b: "before 0 (size_limit (up_src_size p))" by (simp add: before_def size_limit_def)
  assume "convert_utf8_to_utf16 m p \<noteq> None"
  then obtain res where "uc_validate (utf8_count m (size_limit (up_src_size p))) m (size_limit (up_src_size p))
      (utf8_to_utf16_fn m) (start_args p) (up_code_points p) = Some res"
    by (auto simp: convert_utf8_to_utf16_def uc_validate_utf8_def)
  from validate_stuck [OF this] show False
    using assms b by (simp add: stuck_def start_args_def c utf8_to_utf16_fn_def utf8_to_utf16_1_def)
qed

section \<open>Where the code departs from the standard\<close>

text \<open>A lead byte of a 3-byte code point at the end of the source: the bytes behind the end are read
  and taken as its continuation.\<close>

lemma utf8_reads_behind_end: "utf8_count (\<lambda>i. [0xE1, 0x80, 0x80] ! i) (Some 1) 0 = 3"
  by code_simp

text \<open>U+10000 becomes \<open>D840 DC00\<close> instead of \<open>D800 DC00\<close>, and from UTF-16 it becomes a sequence
  that is no UTF-8, since lead and trail are exchanged.\<close>

definition ex_params_uc :: "nat \<Rightarrow> nat \<Rightarrow> 'u uc_params" where
  "ex_params_uc sz cap = \<lparr>up_src_size = sz, up_dst_size = cap, up_dst = [], up_code_points = 0, up_written = 0,
     up_addr_failed = None, up_leftover_count = 0, up_leftover_bytes = 0\<rparr>"

lemma utf8_to_utf16_wrong_lead:
  "ua_dst (snd (utf8_to_utf16_fn (\<lambda>i. [0xF0, 0x90, 0x80, 0x80] ! i) 4 (start_args (ex_params_uc 4 100)))) = [0xD840, 0xDC00]"
  by (simp add: utf8_to_utf16_fn_def utf8_to_utf16_4_def uc_write_def start_args_def ex_params_uc_def Let_def)

lemma utf16_to_utf8_exchanged:
  "ua_dst (snd (utf16_to_utf8_fn (\<lambda>i. [0xD83D, 0xDE00] ! i) 4 (start_args (ex_params_uc 4 100)))) = [0xF2, 0x90, 0x80, 0xBD]"
  by (simp add: utf16_to_utf8_fn_def utf16_to_utf8_4_def uc_write_def start_args_def ex_params_uc_def Let_def)

section \<open>Examples\<close>

text \<open>The text \<open>A\<close>, U+00E4, U+20AC.\<close>

definition ex_text :: "nat list" where
  "ex_text = [0x41, 0xE4, 0x20AC]"

definition ex_mem8 :: "nat \<Rightarrow> u8" where
  "ex_mem8 i = (if i < 7 then [0x41, 0xC3, 0xA4, 0xE2, 0x82, 0xAC, 0] ! i else 0)"

definition ex_mem16 :: "nat \<Rightarrow> u16" where
  "ex_mem16 i = (if i < 4 then [0x41, 0xE4, 0x20AC, 0] ! i else 0)"

lemma ex_text_ok: "\<forall>c\<in>set ex_text. basic c"
  "concat (map utf8_enc ex_text) = [0x41, 0xC3, 0xA4, 0xE2, 0x82, 0xAC]"
  "concat (map utf16_enc ex_text) = [0x41, 0xE4, 0x20AC]"
  "units_at ex_mem8 0 (concat (map utf8_enc ex_text) @ [0])"
  "units_at ex_mem16 0 (concat (map utf16_enc ex_text) @ [0])"
  by (simp_all add: ex_text_def basic_def scalar_def utf8_enc_def utf16_enc_def ex_mem8_def ex_mem16_def)

lemma utf8_to_utf16_correct_witness:
  "\<exists>q. convert_utf8_to_utf16 ex_mem8 (ex_params_uc 0 8) = Some (UC_SUCCESS, q) \<and> map unat (up_dst q) = [0x41, 0xE4, 0x20AC, 0]"
  using utf8_to_utf16_correct [OF ex_text_ok(1,4), of "ex_params_uc 0 8"]
  by (auto simp: ex_text_ok(2,3) source_ends_def ex_params_uc_def)

theorem unicode_roundtrip_witness:
  "\<exists>q r. convert_utf16_to_utf8 ex_mem16 (ex_params_uc 0 7) = Some (UC_SUCCESS, q) \<and>
    convert_utf8_to_utf16 (\<lambda>i. up_dst q ! i) (ex_params_uc 0 8) = Some (UC_SUCCESS, r) \<and>
    map unat (up_dst r) = [0x41, 0xE4, 0x20AC, 0]"
  using unicode_roundtrip [OF ex_text_ok(1,5), of "ex_params_uc 0 7" "ex_params_uc 0 8"]
  by (simp add: ex_text_ok(2,3) ex_params_uc_def)

lemma utf8_count_correct_witness:
  "\<exists>c. scalar c \<and> units_at ex_mem8 3 (utf8_enc c) \<and> utf8_count ex_mem8 None 3 = length (utf8_enc c)"
proof -
  have "\<And>k. k < 4 \<Longrightarrow> before (3 + k) None" by (simp add: before_def)
  moreover have "utf8_count ex_mem8 None 3 = 3"
    by (simp add: utf8_count_def ex_mem8_def before_def byte_in_def Let_def)
  ultimately show ?thesis using utf8_count_correct [of 3 None ex_mem8] by auto
qed

lemma validate_utf8_returns_witness:
  "\<exists>res. uc_validate_utf8 ex_mem8 6 (\<lambda>_. default_callback_utf8) (start_args (ex_params_uc 6 0 :: u8 uc_params)) 0 = Some res"
  by (rule validate_utf8_returns) simp

end
