(* ===== verification/Elf_Section.thy ===== *)
theory Elf_Section
  imports Tcc_Prelude "HOL-Library.Monad_Syntax"
begin

text \<open>
  Sections of an object file (\<open>tccelf.c\<close>): buffers that grow by doubling, with a fill mark; string
  tables in them; the list of the sections of a program. Sizes and offsets are \<open>unsigned long\<close> and
  \<open>size_t\<close> in the code: numbers here, with the wrap at \<open>2 ^ 64\<close> written out where it can occur.
  An operation that does not return is \<open>None\<close>: the doubling of a buffer need not end
  (\<open>grow_size_stuck\<close>). Allocation does not fail (\<open>tcc_realloc\<close> ends the program when it does).
\<close>

section \<open>One section\<close>

text \<open>\<open>se_data\<close> is the allocated buffer, so \<open>data_allocated\<close> is its length; \<open>se_offset\<close> is
  \<open>data_offset\<close>.\<close>

record sect =
  se_name :: "u8 list"
  se_type :: u32
  se_flags :: u32
  se_num :: nat
  se_addralign :: int
  se_offset :: nat
  se_data :: "u8 list"

abbreviation (input) SHT_PROGBITS :: u32 where "SHT_PROGBITS \<equiv> 1"
abbreviation (input) SHT_SYMTAB :: u32 where "SHT_SYMTAB \<equiv> 2"
abbreviation (input) SHT_STRTAB :: u32 where "SHT_STRTAB \<equiv> 3"
abbreviation (input) SHT_HASH :: u32 where "SHT_HASH \<equiv> 5"
abbreviation (input) SHT_NOBITS :: u32 where "SHT_NOBITS \<equiv> 8"
abbreviation (input) SHT_GNU_versym :: u32 where "SHT_GNU_versym \<equiv> 0x6fffffff"
abbreviation (input) SHF_ALLOC :: u32 where "SHF_ALLOC \<equiv> 2"
abbreviation (input) SHF_PRIVATE :: u32 where "SHF_PRIVATE \<equiv> 0x80000000"

text \<open>The loop \<open>while (size < new_size) size = size * 2\<close>. From \<open>2 ^ 63\<close> on the size wraps to 0, and stays
  there.\<close>

partial_function (option) grow_size :: "nat \<Rightarrow> nat \<Rightarrow> nat option" where
  "grow_size sz new_size = (if sz < new_size then grow_size (sz * 2 mod 2 ^ 64) new_size else Some sz)"

definition section_realloc :: "sect \<Rightarrow> nat \<Rightarrow> sect option" where
  "section_realloc sec new_size =
     do {
       let allocated = length (se_data sec);
       sz \<leftarrow> grow_size (if allocated = 0 then 1 else allocated) new_size;
       Some (sec\<lparr>se_data := se_data sec @ replicate (sz - allocated) 0\<rparr>)
     }"

definition section_add :: "sect \<Rightarrow> nat \<Rightarrow> int \<Rightarrow> (nat \<times> sect) option" where
  "section_add sec sz align =
     do {
       let offset = nat (align_up (int (se_offset sec)) align mod 2 ^ 64);
       let offset1 = (offset + sz) mod 2 ^ 64;
       sec \<leftarrow> (if se_type sec \<noteq> SHT_NOBITS \<and> offset1 > length (se_data sec)
              then section_realloc sec offset1 else Some sec);
       let sec = sec\<lparr>se_offset := offset1\<rparr>;
       Some (offset, if align > se_addralign sec then sec\<lparr>se_addralign := align\<rparr> else sec)
     }"

text \<open>The pointer \<open>section_ptr_add\<close> returns is the offset in the buffer.\<close>

definition section_ptr_add :: "sect \<Rightarrow> nat \<Rightarrow> (nat \<times> sect) option" where
  "section_ptr_add sec sz = section_add sec sz 1"

definition section_reserve :: "sect \<Rightarrow> nat \<Rightarrow> sect option" where
  "section_reserve sec sz =
     do {
       sec \<leftarrow> (if sz > length (se_data sec) then section_realloc sec sz else Some sec);
       Some (if sz > se_offset sec then sec\<lparr>se_offset := sz\<rparr> else sec)
     }"

text \<open>Writing bytes at an offset.\<close>

definition section_write :: "sect \<Rightarrow> nat \<Rightarrow> u8 list \<Rightarrow> sect" where
  "section_write sec ofs bs =
     sec\<lparr>se_data := take ofs (se_data sec) @ bs @ drop (ofs + length bs) (se_data sec)\<rparr>"

text \<open>A C string: its bytes without the terminator.\<close>

definition cstr_at :: "u8 list \<Rightarrow> nat \<Rightarrow> u8 list" where
  "cstr_at bs ofs = takeWhile (\<lambda>b. b \<noteq> 0) (drop ofs bs)"

text \<open>\<open>put_elf_str\<close> returns the offset as \<open>int\<close>; a string is shorter than \<open>2 ^ 31\<close> bytes.\<close>

definition put_elf_str :: "sect \<Rightarrow> u8 list \<Rightarrow> (int \<times> sect) option" where
  "put_elf_str s nm =
     do {
       let offset = sint (of_nat (se_offset s) :: u32);
       (ptr, s) \<leftarrow> section_ptr_add s (length nm + 1);
       Some (offset, section_write s ptr (nm @ [0]))
     }"

section \<open>The sections of a program\<close>

record section_list =
  sections :: "sect list"
  priv_sections :: "sect list"

definition default_align :: "u32 \<Rightarrow> int" where
  "default_align sh_type =
     (if sh_type = SHT_GNU_versym then 2 else if sh_type = SHT_STRTAB then 1 else 8)"

text \<open>\<open>new_section\<close>: the new section is the last one of its list; it is returned as well.\<close>

definition new_section :: "section_list \<Rightarrow> u8 list \<Rightarrow> u32 \<Rightarrow> u32 \<Rightarrow> sect \<times> section_list" where
  "new_section st name sh_type sh_flags =
     (let sec = \<lparr>se_name = name, se_type = sh_type, se_flags = sh_flags, se_num = 0,
            se_addralign = default_align sh_type, se_offset = 0, se_data = []\<rparr>
      in if sh_flags AND SHF_PRIVATE \<noteq> 0 then (sec, st\<lparr>priv_sections := priv_sections st @ [sec]\<rparr>)
         else let sec = sec\<lparr>se_num := length (sections st)\<rparr>
              in (sec, st\<lparr>sections := sections st @ [sec]\<rparr>))"

definition have_section :: "section_list \<Rightarrow> u8 list \<Rightarrow> sect option" where
  "have_section st name = find (\<lambda>sec. name = se_name sec) (drop 1 (sections st))"

definition find_section :: "section_list \<Rightarrow> u8 list \<Rightarrow> sect \<times> section_list" where
  "find_section st name =
     (case have_section st name of
        Some sec \<Rightarrow> (sec, st)
      | None \<Rightarrow> new_section st name SHT_PROGBITS SHF_ALLOC)"

section \<open>Growing\<close>

text \<open>The fill mark stays inside the buffer, whose size fits 64 bits.\<close>

definition section_ok :: "sect \<Rightarrow> bool" where
  "section_ok sec \<longleftrightarrow> se_offset sec < 2 ^ 64 \<and> length (se_data sec) < 2 ^ 64 \<and>
     (se_type sec = SHT_NOBITS \<or> se_offset sec \<le> length (se_data sec))"

text \<open>The loop ends for every size up to \<open>2 ^ 63\<close>.\<close>

lemma grow_size_ends:
  "0 < sz \<Longrightarrow> sz < 2 ^ 64 \<Longrightarrow> new_size \<le> 2 ^ 63 \<Longrightarrow>
     \<exists>r. grow_size sz new_size = Some r \<and> new_size \<le> r \<and> sz \<le> r \<and> r < 2 ^ 64"
proof (induction "new_size - sz" arbitrary: sz rule: less_induct)
  case less
  show ?case
  proof (cases "sz < new_size")
    case True
    then have d: "sz * 2 mod 2 ^ 64 = sz * 2" "sz * 2 < 2 ^ 64" using less.prems by simp_all
    have "\<exists>r. grow_size (sz * 2) new_size = Some r \<and> new_size \<le> r \<and> sz * 2 \<le> r \<and> r < 2 ^ 64"
      by (rule less.hyps) (use less.prems True d in simp_all)
    then show ?thesis using True d by (subst grow_size.simps) (auto intro: order_trans [of sz "sz * 2"])
  next
    case False
    then show ?thesis using less.prems by (subst grow_size.simps) simp
  qed
qed

text \<open>Above it the loop never ends for a buffer whose size is a power of 2, as all are that grew from
  nothing.\<close>

lemma grow_size_result:
  assumes "grow_size sz new_size = Some r"
  shows "new_size \<le> r \<and> (sz = r \<or> (\<exists>k. r = sz * 2 ^ k mod 2 ^ 64))"
proof (rule grow_size.raw_induct [OF _ assms, of "\<lambda>sz n r. n \<le> r \<and> (sz = r \<or> (\<exists>k. r = sz * 2 ^ k mod 2 ^ 64))"], goal_cases)
  case (1 grow sz new_size r)
  show ?case
  proof (cases "sz < new_size")
    case True
    then have "grow (sz * 2 mod 2 ^ 64) new_size = Some r" using 1(2) by simp
    from 1(1) [OF this] have n: "new_size \<le> r"
      and c: "sz * 2 mod 2 ^ 64 = r \<or> (\<exists>k. r = sz * 2 mod 2 ^ 64 * 2 ^ k mod 2 ^ 64)" by simp_all
    from c have "\<exists>k. r = sz * 2 ^ k mod 2 ^ 64"
    proof
      assume "\<exists>k. r = sz * 2 mod 2 ^ 64 * 2 ^ k mod 2 ^ 64"
      then obtain k where "r = sz * 2 ^ Suc k mod 2 ^ 64" by (auto simp: mod_mult_left_eq mult.assoc)
      then show ?thesis by blast
    qed (auto intro: exI [of _ 1])
    then show ?thesis using n by blast
  next
    case False
    then show ?thesis using 1 by simp
  qed
qed

lemma pow2_mod64_le: "2 ^ j mod 2 ^ 64 \<le> (2 ^ 63 :: nat)"
proof (cases "j < 64")
  case True
  then have "(2 :: nat) ^ j < 2 ^ 64" by (intro power_strict_increasing) simp_all
  moreover have "(2 :: nat) ^ j \<le> 2 ^ 63" using True by (intro power_increasing) simp_all
  ultimately show ?thesis by (simp only: mod_less)
next
  case False
  then have "(2 :: nat) ^ 64 dvd 2 ^ j" by (intro le_imp_power_dvd) simp
  then have "(2 :: nat) ^ j mod 2 ^ 64 = 0" by (rule dvd_imp_mod_0)
  then show ?thesis by linarith
qed

lemma grow_size_stuck:
  assumes "sz = 2 ^ j" "sz \<le> 2 ^ 63" "2 ^ 63 < new_size"
  shows "grow_size sz new_size = None"
proof (cases "grow_size sz new_size")
  case (Some r)
  from grow_size_result [OF this] have n: "new_size \<le> r" and "sz = r \<or> (\<exists>k. r = sz * 2 ^ k mod 2 ^ 64)" by simp_all
  from this(2) have "r \<le> 2 ^ 63"
  proof
    assume "\<exists>k. r = sz * 2 ^ k mod 2 ^ 64"
    then obtain k where "r = 2 ^ (j + k) mod 2 ^ 64" using assms(1) by (auto simp: power_add)
    then show ?thesis using pow2_mod64_le by blast
  qed (use assms(2) in simp)
  then show ?thesis using n assms(3) by linarith
qed

lemma section_realloc_ends:
  assumes "length (se_data sec) < 2 ^ 64" "new_size \<le> 2 ^ 63"
  obtains z where "section_realloc sec new_size = Some (sec\<lparr>se_data := se_data sec @ replicate z 0\<rparr>)"
    "new_size \<le> length (se_data sec) + z" "length (se_data sec) + z < 2 ^ 64"
proof -
  let ?n = "length (se_data sec)"
  define m where "m = (if ?n = 0 then 1 else ?n)"
  have "0 < m" "m < 2 ^ 64" "?n \<le> m" using assms(1) by (simp_all add: m_def)
  moreover from grow_size_ends [OF this(1,2) assms(2)]
  obtain r where r: "grow_size m new_size = Some r" "new_size \<le> r" "m \<le> r" "r < 2 ^ 64" by blast
  ultimately have n: "?n \<le> r" by linarith
  from r(1) have "section_realloc sec new_size = Some (sec\<lparr>se_data := se_data sec @ replicate (r - ?n) 0\<rparr>)"
    by (simp add: section_realloc_def m_def)
  then show ?thesis by (rule that) (use r n in simp_all)
qed

text \<open>Room for a request that ends at or below \<open>2 ^ 63\<close>: an aligned offset at or behind the fill mark; what
  was there before stays.\<close>

lemma section_add:
  assumes "is_pow2 align" "section_ok sec" "align_up (int (se_offset sec)) align + int sz \<le> 2 ^ 63"
  obtains ofs sec' where "section_add sec sz align = Some (ofs, sec')"
    "se_offset sec \<le> ofs" "align dvd int ofs" "int ofs < int (se_offset sec) + align"
    "se_offset sec' = ofs + sz" "section_ok sec'" "se_type sec' = se_type sec"
    "take (length (se_data sec)) (se_data sec') = se_data sec"
    "align \<le> se_addralign sec'" "se_addralign sec \<le> se_addralign sec'"
proof -
  note a = align_up [OF assms(1), of "int (se_offset sec)"]
  define ofs where "ofs = nat (align_up (int (se_offset sec)) align)"
  have i: "int ofs = align_up (int (se_offset sec)) align" using a(1) by (simp add: ofs_def)
  have m: "nat (align_up (int (se_offset sec)) align mod 2 ^ 64) = ofs" "(ofs + sz) mod 2 ^ 64 = ofs + sz"
    "ofs + sz \<le> 2 ^ 63" "ofs + sz < 2 ^ 64"
    using assms(3) unfolding i [symmetric] by (simp_all add: nat_mod_as_int flip: of_nat_add)
  have ok: "length (se_data sec) < 2 ^ 64" "se_type sec = SHT_NOBITS \<or> se_offset sec \<le> length (se_data sec)"
    using assms(2) by (simp_all add: section_ok_def)
  have o: "se_offset sec \<le> ofs" "align dvd int ofs" "int ofs < int (se_offset sec) + align" using a i by simp_all
  show ?thesis
  proof (cases "se_type sec \<noteq> SHT_NOBITS \<and> length (se_data sec) < ofs + sz")
    case True
    obtain z where z: "section_realloc sec (ofs + sz) = Some (sec\<lparr>se_data := se_data sec @ replicate z 0\<rparr>)"
      "ofs + sz \<le> length (se_data sec) + z" "length (se_data sec) + z < 2 ^ 64"
      by (rule section_realloc_ends [OF ok(1) m(3)])
    show ?thesis
      by (rule that [OF _ o, of "if align > se_addralign sec
           then sec\<lparr>se_data := se_data sec @ replicate z 0, se_offset := ofs + sz, se_addralign := align\<rparr>
           else sec\<lparr>se_data := se_data sec @ replicate z 0, se_offset := ofs + sz\<rparr>"])
        (use z m True in \<open>auto simp: section_add_def Let_def section_ok_def\<close>)
  next
    case False
    show ?thesis
      by (rule that [OF _ o, of "if align > se_addralign sec then sec\<lparr>se_offset := ofs + sz, se_addralign := align\<rparr>
           else sec\<lparr>se_offset := ofs + sz\<rparr>"])
        (use m ok False in \<open>auto simp: section_add_def Let_def section_ok_def\<close>)
  qed
qed

lemma section_ptr_add:
  assumes "section_ok sec" "se_offset sec + sz \<le> 2 ^ 63"
  obtains sec' where "section_ptr_add sec sz = Some (se_offset sec, sec')" "se_offset sec' = se_offset sec + sz"
    "section_ok sec'" "se_type sec' = se_type sec" "take (length (se_data sec)) (se_data sec') = se_data sec"
proof -
  have "align_up (int (se_offset sec)) 1 + int sz \<le> 2 ^ 63"
    using align_up [of 1 "int (se_offset sec)"] assms(2) by simp
  with assms(1) obtain ofs sec' where
    s: "section_add sec sz 1 = Some (ofs, sec')" "se_offset sec \<le> ofs" "1 dvd int ofs" "int ofs < int (se_offset sec) + 1"
    "se_offset sec' = ofs + sz" "section_ok sec'" "se_type sec' = se_type sec"
    "take (length (se_data sec)) (se_data sec') = se_data sec"
    by (rule section_add [OF is_pow2_simps(1)])
  then show ?thesis using that [of sec'] by (simp add: section_ptr_add_def)
qed

section \<open>Strings\<close>

lemma cstr_at_append: "0 \<notin> set s \<Longrightarrow> cstr_at (bs @ s @ 0 # cs) (length bs) = s"
  by (auto simp: cstr_at_def takeWhile_append2 takeWhile_tail)

lemma cstr_at_prefix: "0 \<in> set (drop ofs bs) \<Longrightarrow> cstr_at (bs @ cs) ofs = cstr_at bs ofs"
  by (cases "ofs \<le> length bs") (auto simp: cstr_at_def takeWhile_append1)

text \<open>The part of a string table that is in use, as a plain list of bytes.\<close>

definition filled :: "sect \<Rightarrow> u8 list" where
  "filled sec = take (se_offset sec) (se_data sec)"

lemma put_elf_str_filled:
  assumes "section_ok s" "se_type s \<noteq> SHT_NOBITS" "se_offset s < 2 ^ 31" "length nm < 2 ^ 31"
  obtains s' where "put_elf_str s nm = Some (int (length (filled s)), s')" "filled s' = filled s @ nm @ [0]"
    "section_ok s'" "se_type s' = se_type s"
proof -
  have "se_offset s + (length nm + 1) \<le> 2 ^ 63" using assms(3,4) by simp
  then obtain u where u: "section_ptr_add s (length nm + 1) = Some (se_offset s, u)" "se_offset u = se_offset s + (length nm + 1)"
    "section_ok u" "se_type u = se_type s" "take (length (se_data s)) (se_data u) = se_data s"
    by (rule section_ptr_add [OF assms(1)])
  have len: "se_offset s \<le> length (se_data s)" "se_offset s + length nm + 1 \<le> length (se_data u)"
    using u assms(1,2) by (simp_all add: section_ok_def)
  have f: "take (se_offset s) (se_data u) = take (se_offset s) (se_data s)"
    using u(5) len(1) by (metis min.absorb1 take_take)
  have o: "sint (of_nat (se_offset s) :: u32) = int (se_offset s)"
    using assms(3) by (simp add: signed_of_nat signed_take_bit_int_eq_self)
  show ?thesis
    by (rule that [of "section_write u (se_offset s) (nm @ [0])"])
      (use u len f o in \<open>auto simp: put_elf_str_def Let_def filled_def section_write_def section_ok_def\<close>)
qed

text \<open>A string put into a string table is read back at the offset returned, and all strings
  that were there before stay.\<close>

lemma put_elf_str_roundtrip:
  assumes "section_ok s" "se_type s \<noteq> SHT_NOBITS" "se_offset s < 2 ^ 31" "length nm < 2 ^ 31" "0 \<notin> set nm"
  shows "case put_elf_str s nm of None \<Rightarrow> False
    | Some (ofs, s') \<Rightarrow> cstr_at (filled s') (nat ofs) = nm \<and>
        (\<forall>i. 0 \<in> set (drop i (filled s)) \<longrightarrow> cstr_at (filled s') i = cstr_at (filled s) i)"
proof -
  obtain s' where "put_elf_str s nm = Some (int (length (filled s)), s')" "filled s' = filled s @ nm @ [0]"
    by (rule put_elf_str_filled [OF assms(1-4)])
  then show ?thesis using cstr_at_append [OF assms(5), of "filled s" "[]"] cstr_at_prefix by simp
qed

text \<open>The new fill mark of \<open>section_add\<close>.\<close>

lemma section_add_stop:
  assumes "is_pow2 align" "stop = align_up (int (se_offset sec)) align + int sz"
  shows "(nat (align_up (int (se_offset sec)) align mod 2 ^ 64) + sz) mod 2 ^ 64 = nat (stop mod 2 ^ 64)"
proof -
  have "0 \<le> align_up (int (se_offset sec)) align" using align_up(1) [OF assms(1), of "int (se_offset sec)"] by simp
  then show ?thesis unfolding assms(2) by (simp add: nat_mod_distrib nat_add_distrib mod_add_left_eq)
qed

text \<open>C19: \<open>section_add\<close> on a request that ends, aligned, at or below \<open>2 ^ 63\<close> returns, and hands out a part of
  the buffer of the size asked for, aligned, behind all that was handed out before, and keeps the
  content up to the old fill mark. A request that ends above \<open>2 ^ 63\<close> and needs a larger buffer than
  there is never returns, once the size of the buffer is a power of 2. A request that ends at
  \<open>2 ^ 64\<close> or above wraps: only what is left of its end counts for the buffer.\<close>

theorem section_add_correct:
  assumes "is_pow2 align" "section_ok sec" "se_type sec \<noteq> SHT_NOBITS"
    "stop = align_up (int (se_offset sec)) align + int sz"
  shows "(stop \<le> 2 ^ 63 \<longrightarrow>
      (\<exists>ofs sec'. section_add sec sz align = Some (ofs, sec') \<and>
        se_offset sec \<le> ofs \<and> align dvd int ofs \<and> int ofs < int (se_offset sec) + align \<and>
        ofs + sz = se_offset sec' \<and> ofs + sz \<le> length (se_data sec') \<and>
        take (se_offset sec) (se_data sec') = filled sec \<and> align \<le> se_addralign sec' \<and> section_ok sec')) \<and>
    (2 ^ 63 < stop \<and> stop < 2 ^ 64 \<and> length (se_data sec) \<in> {0} \<union> {2 ^ j | j. j < 64} \<longrightarrow> section_add sec sz align = None) \<and>
    (2 ^ 64 \<le> stop \<and> stop mod 2 ^ 64 \<le> int (length (se_data sec)) \<longrightarrow>
      (\<exists>ofs sec'. section_add sec sz align = Some (ofs, sec') \<and> se_data sec' = se_data sec \<and>
        int (se_offset sec') = stop mod 2 ^ 64))"
proof (intro conjI impI)
  assume "stop \<le> 2 ^ 63"
  then obtain ofs sec' where s: "section_add sec sz align = Some (ofs, sec')"
    "se_offset sec \<le> ofs" "align dvd int ofs" "int ofs < int (se_offset sec) + align"
    "se_offset sec' = ofs + sz" "section_ok sec'" "se_type sec' = se_type sec"
    "take (length (se_data sec)) (se_data sec') = se_data sec" "align \<le> se_addralign sec'"
    unfolding assms(4) by (rule section_add [OF assms(1,2)])
  have "take (se_offset sec) (se_data sec') = filled sec"
    using s(8) assms(2,3) by (simp add: filled_def section_ok_def) (metis min.absorb1 take_take)
  then show "\<exists>ofs sec'. section_add sec sz align = Some (ofs, sec') \<and>
        se_offset sec \<le> ofs \<and> align dvd int ofs \<and> int ofs < int (se_offset sec) + align \<and>
        ofs + sz = se_offset sec' \<and> ofs + sz \<le> length (se_data sec') \<and>
        take (se_offset sec) (se_data sec') = filled sec \<and> align \<le> se_addralign sec' \<and> section_ok sec'"
    using s assms(3) by (auto simp: section_ok_def)
next
  assume a: "2 ^ 63 < stop \<and> stop < 2 ^ 64 \<and> length (se_data sec) \<in> {0} \<union> {2 ^ j | j. j < 64}"
  then obtain j where j: "(if length (se_data sec) = 0 then 1 else length (se_data sec)) = 2 ^ j" "j < 64"
    by (cases "length (se_data sec) = 0") (auto intro: that [of 0])
  have "(2 :: nat) ^ j \<le> 2 ^ 63" using j(2) by (intro power_increasing) simp_all
  then have "length (se_data sec) \<le> 2 ^ 63" using j(1) by (simp split: if_splits)
  then have n: "nat stop > length (se_data sec)" "2 ^ 63 < nat stop" using a by (simp_all add: nat_less_iff zless_nat_eq_int_zless)
  have "grow_size (2 ^ j) (nat stop) = None" by (rule grow_size_stuck [OF refl]) (use n \<open>2 ^ j \<le> 2 ^ 63\<close> in simp_all)
  then have "section_realloc sec (nat stop) = None"
    unfolding section_realloc_def Let_def j(1) by simp
  then show "section_add sec sz align = None"
    using n a assms(3) section_add_stop [OF assms(1,4)] by (simp add: section_add_def Let_def)
next
  assume a: "2 ^ 64 \<le> stop \<and> stop mod 2 ^ 64 \<le> int (length (se_data sec))"
  then show "\<exists>ofs sec'. section_add sec sz align = Some (ofs, sec') \<and> se_data sec' = se_data sec \<and>
        int (se_offset sec') = stop mod 2 ^ 64"
    using section_add_stop [OF assms(1,4)] by (auto simp: section_add_def Let_def)
qed


section \<open>Finding sections\<close>

lemma find_append: "find P (xs @ ys) = (case find P xs of None \<Rightarrow> find P ys | Some x \<Rightarrow> Some x)"
  by (induction xs) auto

lemma have_section_new: "have_section st name = None \<Longrightarrow> sections st \<noteq> [] \<Longrightarrow> f AND SHF_PRIVATE = 0 \<Longrightarrow>
    have_section (snd (new_section st name t f)) name = Some (fst (new_section st name t f))"
  by (cases "sections st") (auto simp: have_section_def new_section_def Let_def find_append)

text \<open>A section found or created is found again, and finding creates no second one.\<close>

lemma find_section_idem:
  assumes "find_section st name = (sec, st')" "sections st \<noteq> []"
  shows "find_section st' name = (sec, st')"
proof (cases "have_section st name")
  case None
  then have "sec = fst (new_section st name SHT_PROGBITS SHF_ALLOC)" "st' = snd (new_section st name SHT_PROGBITS SHF_ALLOC)"
    using assms(1) by (auto simp: find_section_def)
  then show ?thesis using have_section_new [OF None assms(2), of SHF_ALLOC SHT_PROGBITS] by (simp add: find_section_def)
next
  case (Some s)
  then show ?thesis using assms(1) by (auto simp: find_section_def)
qed

section \<open>Examples\<close>

definition ex_sect :: sect where
  "ex_sect = \<lparr>se_name = [], se_type = SHT_STRTAB, se_flags = 0, se_num = 1, se_addralign = 1, se_offset = 3, se_data = [0, 65, 0]\<rparr>"

lemma ex_sect_ok: "section_ok ex_sect" "se_type ex_sect \<noteq> SHT_NOBITS"
  by (simp_all add: section_ok_def ex_sect_def)

lemma put_elf_str_roundtrip_witness:
  "case put_elf_str ex_sect [66, 67] of None \<Rightarrow> False
   | Some (ofs, s') \<Rightarrow> cstr_at (filled s') (nat ofs) = [66, 67] \<and> cstr_at (filled s') 1 = [65]"
proof -
  have "0 \<in> set (drop 1 (filled ex_sect))" "cstr_at (filled ex_sect) 1 = [65]"
    by (simp_all add: filled_def ex_sect_def cstr_at_def)
  then show ?thesis using put_elf_str_roundtrip [OF ex_sect_ok, of "[66, 67]"] by (auto simp: ex_sect_def split: option.splits)
qed

text \<open>A request that wraps: the fill mark goes back, and what was handed out is handed out again.\<close>

lemma section_add_overlaps:
  "(case section_add ex_sect (2 ^ 64 - 3) 1 of None \<Rightarrow> None
    | Some (a, sec) \<Rightarrow> (case section_add sec 2 1 of None \<Rightarrow> None | Some (b, sec') \<Rightarrow> Some (a, b, length (se_data sec'))))
   = Some (3, 0, 3)"
  by (simp add: section_add_def ex_sect_def align_up_def)

theorem section_add_correct_witness:
  "(\<exists>ofs sec'. section_add ex_sect 5 8 = Some (ofs, sec') \<and> 3 \<le> ofs \<and> 8 dvd int ofs \<and> ofs + 5 \<le> length (se_data sec')) \<and>
   section_add (ex_sect\<lparr>se_data := [0, 65, 0, 0]\<rparr>) (2 ^ 63) 1 = None \<and>
   (\<exists>ofs sec'. section_add ex_sect (2 ^ 64 - 3) 1 = Some (ofs, sec') \<and> se_offset sec' = 0)"
proof (intro conjI)
  have e: "align_up 3 8 = 8" "align_up 3 1 = 3" by code_simp+
  show "\<exists>ofs sec'. section_add ex_sect 5 8 = Some (ofs, sec') \<and> 3 \<le> ofs \<and> 8 dvd int ofs \<and> ofs + 5 \<le> length (se_data sec')"
    using section_add_correct [OF _ ex_sect_ok refl, of 8 5] by (auto simp: ex_sect_def e)
  have ok: "section_ok (ex_sect\<lparr>se_data := [0, 65, 0, 0]\<rparr>)" "se_type (ex_sect\<lparr>se_data := [0, 65, 0, 0]\<rparr>) \<noteq> SHT_NOBITS"
    by (simp_all add: section_ok_def ex_sect_def)
  have "length [0, 65, 0, 0 :: u8] \<in> {0} \<union> {2 ^ j | j. j < 64}" by (auto intro: exI [of _ 2])
  then show "section_add (ex_sect\<lparr>se_data := [0, 65, 0, 0]\<rparr>) (2 ^ 63) 1 = None"
    using section_add_correct [OF _ ok refl, of 1 "2 ^ 63"] by (simp add: ex_sect_def e)
  show "\<exists>ofs sec'. section_add ex_sect (2 ^ 64 - 3) 1 = Some (ofs, sec') \<and> se_offset sec' = 0"
    using section_add_correct [OF _ ex_sect_ok refl, of 1 "2 ^ 64 - 3"] by (auto simp: ex_sect_def e)
qed

end
