(* ===== verification/Elf_Symtab.thy ===== *)
theory Elf_Symtab
  imports Elf_Section "HOL-Library.Monad_Syntax"
begin

text \<open>
  The symbol table of the linker (\<open>tccelf.c\<close>): symbols in an array, their names in a string
  table, and a hash table of chains over the global ones, kept as the array of numbers it is in the
  ELF file (number of buckets, number of symbols, buckets, chains). On it the rules that
  decide between several definitions of a name, the sorting of the symbols, and relocations.
\<close>

section \<open>Symbols\<close>

record elf_sym =
  st_name :: nat
  st_value :: u64
  st_size :: u64
  st_info :: u8
  st_other :: u8
  st_shndx :: u16

definition ST_BIND :: "u8 \<Rightarrow> u8" where
  "ST_BIND i = drop_bit 4 i"

definition ST_TYPE :: "u8 \<Rightarrow> u8" where
  "ST_TYPE i = i AND 0xf"

definition ST_INFO :: "u8 \<Rightarrow> u8 \<Rightarrow> u8" where
  "ST_INFO b t = push_bit 4 b + (t AND 0xf)"

definition ST_VISIBILITY :: "u8 \<Rightarrow> u8" where
  "ST_VISIBILITY other = other AND 3"

abbreviation (input) STB_LOCAL :: u8 where "STB_LOCAL \<equiv> 0"
abbreviation (input) STB_GLOBAL :: u8 where "STB_GLOBAL \<equiv> 1"
abbreviation (input) STB_WEAK :: u8 where "STB_WEAK \<equiv> 2"
abbreviation (input) STV_DEFAULT :: u8 where "STV_DEFAULT \<equiv> 0"
abbreviation (input) STV_INTERNAL :: u8 where "STV_INTERNAL \<equiv> 1"
abbreviation (input) STV_HIDDEN :: u8 where "STV_HIDDEN \<equiv> 2"
abbreviation (input) SHN_UNDEF :: u16 where "SHN_UNDEF \<equiv> 0"
abbreviation (input) SHN_LORESERVE :: u16 where "SHN_LORESERVE \<equiv> 0xff00"
abbreviation (input) SHN_COMMON :: u16 where "SHN_COMMON \<equiv> 0xfff2"
abbreviation (input) ST_ASM_SET :: u8 where "ST_ASM_SET \<equiv> 0x04"

text \<open>The table: the used parts of the symbol section, of the string section, and of the hash
  section with its \<open>nb_hashed_syms\<close>, if there is one.\<close>

record symtab =
  tb_syms :: "elf_sym list"
  tb_str :: "u8 list"
  tb_hash :: "nat list option"
  tb_hashed :: nat
  tb_dynsym :: bool

definition sym_name :: "symtab \<Rightarrow> nat \<Rightarrow> u8 list" where
  "sym_name tb i = cstr_at (tb_str tb) (st_name (tb_syms tb ! i))"

section \<open>Hashing\<close>

fun elf_hash_step :: "u32 \<Rightarrow> u8 \<Rightarrow> u32" where
  "elf_hash_step h c =
     (let h = push_bit 4 h + ucast c; g = h AND 0xf0000000;
          h = (if g \<noteq> 0 then h XOR drop_bit 24 g else h)
      in h AND NOT g)"

definition elf_hash :: "u8 list \<Rightarrow> u32" where
  "elf_hash nm = foldl elf_hash_step 0 nm"

definition elf_gnu_hash :: "u8 list \<Rightarrow> u32" where
  "elf_gnu_hash nm = foldl (\<lambda>h c. h * 33 + ucast c) 5381 nm"

definition bucket :: "nat \<Rightarrow> u8 list \<Rightarrow> nat" where
  "bucket nb nm = unat (elf_hash nm) mod nb"

definition is_local :: "elf_sym \<Rightarrow> bool" where
  "is_local y \<longleftrightarrow> ST_BIND (st_info y) = STB_LOCAL"

text \<open>One round of \<open>rebuild_hash\<close>: symbol \<open>i\<close> goes to the head of its chain.\<close>

definition rebuild_step :: "symtab \<Rightarrow> nat \<Rightarrow> nat \<Rightarrow> nat list \<Rightarrow> nat list" where
  "rebuild_step tb nb i base =
     (if \<not> is_local (tb_syms tb ! i) then
        let h = bucket nb (sym_name tb i)
        in base[2 + nb + i := base ! (2 + h), 2 + h := i]
      else base[2 + nb + i := 0])"

definition rebuild_hash :: "symtab \<Rightarrow> nat list \<Rightarrow> nat \<Rightarrow> nat list" where
  "rebuild_hash tb base nb =
     (let nb = (if nb = 0 then base ! 0 else nb); n = length (tb_syms tb)
      in fold (rebuild_step tb nb) [1..<n] ([nb, n] @ replicate (nb + n) 0))"

section \<open>Adding and finding\<close>

text \<open>The table with a symbol and its name at the ends, before the hash table knows it.\<close>

definition snoc_sym :: "symtab \<Rightarrow> u64 \<Rightarrow> u64 \<Rightarrow> u8 \<Rightarrow> u8 \<Rightarrow> u16 \<Rightarrow> u8 list \<Rightarrow> symtab" where
  "snoc_sym tb value sz info oth shndx nm =
     tb\<lparr>tb_str := (if nm = [] then tb_str tb else tb_str tb @ nm @ [0]),
        tb_syms := tb_syms tb @
          [\<lparr>st_name = (if nm = [] then 0 else length (tb_str tb)), st_value = value, st_size = sz,
            st_info = info, st_other = oth, st_shndx = shndx\<rparr>]\<rparr>"

definition put_elf_sym ::
  "symtab \<Rightarrow> u64 \<Rightarrow> u64 \<Rightarrow> u8 \<Rightarrow> u8 \<Rightarrow> u16 \<Rightarrow> u8 list \<Rightarrow> nat \<times> symtab" where
  "put_elf_sym tb value sz info oth shndx nm =
     (let ix = length (tb_syms tb);
          tb = snoc_sym tb value sz info oth shndx nm
      in case tb_hash tb of
           None \<Rightarrow> (ix, tb)
         | Some base \<Rightarrow>
             if ST_BIND info \<noteq> STB_LOCAL then
               let nb = base ! 0; h = bucket nb (sym_name tb ix);
                   base' = (base @ [base ! (2 + h)])[2 + h := ix, 1 := base ! 1 + 1];
                   tb = tb\<lparr>tb_hashed := tb_hashed tb + 1\<rparr>
               in (ix, tb\<lparr>tb_hash := Some (if tb_hashed tb > 2 * nb then rebuild_hash tb base' (2 * nb) else base')\<rparr>)
             else (ix, tb\<lparr>tb_hash := Some ((base @ [0])[1 := base ! 1 + 1])\<rparr>))"

text \<open>Following a chain. A chain with a cycle would never end.\<close>

partial_function (option) find_chain :: "symtab \<Rightarrow> nat list \<Rightarrow> u8 list \<Rightarrow> nat \<Rightarrow> nat option" where
  "find_chain tb base nm i =
     (if i = 0 then Some 0
      else if nm = sym_name tb i then Some i
      else find_chain tb base nm (base ! (2 + base ! 0 + i)))"

definition find_elf_sym :: "symtab \<Rightarrow> u8 list \<Rightarrow> nat option" where
  "find_elf_sym tb nm =
     (case tb_hash tb of
        None \<Rightarrow> Some 0
      | Some base \<Rightarrow> find_chain tb base nm (base ! (2 + bucket (base ! 0) nm)))"

text \<open>\<open>get_sym_addr\<close> with the name already decorated: the value or -1, and whether the error
  \<open>not defined\<close> is due.\<close>

definition get_sym_addr :: "symtab \<Rightarrow> u8 list \<Rightarrow> (u64 \<times> bool) option" where
  "get_sym_addr tb nm =
     map_option (\<lambda>i. if i = 0 \<or> st_shndx (tb_syms tb ! i) = SHN_UNDEF then (- 1, True)
         else (st_value (tb_syms tb ! i), False)) (find_elf_sym tb nm)"

text \<open>The symbols \<open>list_elf_symbols\<close> reports.\<close>

definition list_elf_symbols :: "symtab \<Rightarrow> (u8 list \<times> u64) list" where
  "list_elf_symbols tb =
     map (\<lambda>y. (cstr_at (tb_str tb) (st_name y), st_value y))
       (filter (\<lambda>y. st_value y \<noteq> 0 \<and> ST_BIND (st_info y) = STB_GLOBAL \<and> ST_VISIBILITY (st_other y) = STV_DEFAULT)
         (tb_syms tb))"

section \<open>Several definitions of a name\<close>

definition merge_vis :: "u8 \<Rightarrow> u8 \<Rightarrow> u8" where
  "merge_vis esym_vis sym_vis =
     (if esym_vis = STV_DEFAULT then sym_vis
      else if sym_vis = STV_DEFAULT then esym_vis
      else if esym_vis < sym_vis then esym_vis else sym_vis)"

definition patch_sym :: "elf_sym \<Rightarrow> u64 \<Rightarrow> u64 \<Rightarrow> u8 \<Rightarrow> u16 \<Rightarrow> elf_sym" where
  "patch_sym y value sz info shndx =
     y\<lparr>st_info := ST_INFO (ST_BIND info) (ST_TYPE info), st_shndx := shndx, st_value := value, st_size := sz\<rparr>"

text \<open>What to do with a second definition, of the binding \<open>sym_bind\<close> and the visibility \<open>sym_vis\<close>, of a symbol
  that is defined. \<open>bss\<close> is the number of the section \<open>.bss\<close>.\<close>

datatype resolution = Keep | Patch | Defined_twice

definition resolve_twice :: "u16 \<Rightarrow> bool \<Rightarrow> elf_sym \<Rightarrow> u8 \<Rightarrow> u8 \<Rightarrow> u16 \<Rightarrow> resolution" where
  "resolve_twice bss dynsym y sym_bind sym_vis shndx =
     (let esym_bind = ST_BIND (st_info y)
      in if shndx = SHN_UNDEF then Keep
         else if sym_bind = STB_GLOBAL \<and> esym_bind = STB_WEAK then Patch
         else if sym_bind = STB_WEAK \<and> esym_bind = STB_GLOBAL then Keep
         else if sym_bind = STB_WEAK \<and> esym_bind = STB_WEAK then Keep
         else if sym_vis = STV_HIDDEN \<or> sym_vis = STV_INTERNAL then Keep
         else if (st_shndx y = SHN_COMMON \<or> st_shndx y = bss) \<and> shndx < SHN_LORESERVE \<and> shndx \<noteq> bss then Patch
         else if shndx = SHN_COMMON \<or> shndx = bss then Keep
         else if dynsym then Keep
         else if st_other y AND ST_ASM_SET \<noteq> 0 then Patch
         else Defined_twice)"

text \<open>What becomes of an existing symbol; the flag is the error \<open>defined twice\<close>.\<close>

definition resolve_sym ::
  "u16 \<Rightarrow> bool \<Rightarrow> elf_sym \<Rightarrow> u64 \<Rightarrow> u64 \<Rightarrow> u8 \<Rightarrow> u8 \<Rightarrow> u16 \<Rightarrow> elf_sym \<times> bool" where
  "resolve_sym bss dynsym y value sz info oth shndx =
     (let sym_bind = ST_BIND info; sym_vis = ST_VISIBILITY oth in
      if st_value y = value \<and> st_size y = sz \<and> st_info y = info \<and> st_other y = oth \<and> st_shndx y = shndx then (y, False)
      else if st_shndx y \<noteq> SHN_UNDEF then
        let new_vis = merge_vis (ST_VISIBILITY (st_other y)) sym_vis;
            y = y\<lparr>st_other := (st_other y AND NOT 3) OR new_vis\<rparr>
        in (case resolve_twice bss dynsym y sym_bind sym_vis shndx of
              Keep \<Rightarrow> (y, False)
            | Patch \<Rightarrow> (patch_sym y value sz info shndx, False)
            | Defined_twice \<Rightarrow> (y, True))
      else (patch_sym (y\<lparr>st_other := oth\<rparr>) value sz info shndx, False))"

text \<open>\<open>set_elf_sym\<close>: the index, the table, the error.\<close>

definition set_elf_sym ::
  "u16 \<Rightarrow> symtab \<Rightarrow> u64 \<Rightarrow> u64 \<Rightarrow> u8 \<Rightarrow> u8 \<Rightarrow> u16 \<Rightarrow> u8 list \<Rightarrow> (nat \<times> symtab \<times> bool) option" where
  "set_elf_sym bss tb value sz info oth shndx nm =
     do {
       i \<leftarrow> (if ST_BIND info \<noteq> STB_LOCAL then find_elf_sym tb nm else Some 0);
       if i = 0 then
         (let (i, tb) = put_elf_sym tb value sz (ST_INFO (ST_BIND info) (ST_TYPE info)) oth shndx nm
          in Some (i, tb, False))
       else
         (let (y, err) = resolve_sym bss (tb_dynsym tb) (tb_syms tb ! i) value sz info oth shndx
          in Some (i, tb\<lparr>tb_syms := (tb_syms tb)[i := y]\<rparr>, err))
     }"

text \<open>\<open>init_symtab\<close>: the empty name, the symbol 0, one bucket.\<close>

definition init_symtab :: "bool \<Rightarrow> symtab" where
  "init_symtab dynsym =
     \<lparr>tb_syms = [\<lparr>st_name = 0, st_value = 0, st_size = 0, st_info = 0, st_other = 0, st_shndx = 0\<rparr>],
      tb_str = [0], tb_hash = Some ([1, 1] @ replicate 2 0), tb_hashed = 0, tb_dynsym = dynsym\<rparr>"

section \<open>Relocations and sorting\<close>

record elf_rel =
  r_offset :: u64
  r_info :: u64
  r_addend :: u64

definition R_INFO :: "nat \<Rightarrow> u32 \<Rightarrow> u64" where
  "R_INFO y t = push_bit 32 (of_nat y) + ucast t"

definition R_SYM :: "u64 \<Rightarrow> nat" where
  "R_SYM i = unat (drop_bit 32 i)"

definition R_TYPE :: "u64 \<Rightarrow> u32" where
  "R_TYPE i = ucast (i AND 0xffffffff)"

definition put_elf_reloca :: "elf_rel list \<Rightarrow> u64 \<Rightarrow> u32 \<Rightarrow> nat \<Rightarrow> u64 \<Rightarrow> elf_rel list" where
  "put_elf_reloca sr offset t y addend =
     sr @ [\<lparr>r_offset = offset, r_info = R_INFO y t, r_addend = addend\<rparr>]"

definition update_reloc :: "nat list \<Rightarrow> nat \<Rightarrow> elf_rel \<Rightarrow> elf_rel" where
  "update_reloc old_to_new first_sym rel =
     (if R_SYM (r_info rel) < first_sym then rel
      else rel\<lparr>r_info := R_INFO (old_to_new ! (R_SYM (r_info rel) - first_sym)) (R_TYPE (r_info rel))\<rparr>)"

definition update_relocs :: "nat list \<Rightarrow> nat \<Rightarrow> elf_rel list list \<Rightarrow> elf_rel list list" where
  "update_relocs old_to_new first_sym = map (map (update_reloc old_to_new first_sym))"

text \<open>One pass of \<open>sort_syms\<close>: the symbols that satisfy \<open>p\<close> are appended to the new array.\<close>

fun sort_pass :: "(elf_sym \<Rightarrow> bool) \<Rightarrow> nat \<Rightarrow> elf_sym list \<Rightarrow> nat list \<times> elf_sym list \<Rightarrow> nat list \<times> elf_sym list" where
  "sort_pass p i [] (o2n, q) = (o2n, q)"
| "sort_pass p i (y # ys) (o2n, q) =
     sort_pass p (i + 1) ys (if p y then (o2n[i := length q], q @ [y]) else (o2n, q))"

text \<open>\<open>sort_syms\<close>: the symbols of the section, its \<open>sh_size\<close> and \<open>sh_info\<close>, and the relocations in the
  sections linked to it; back come the symbols, \<open>sh_info\<close> and the relocations.\<close>

definition sort_syms ::
  "elf_sym list \<Rightarrow> nat \<Rightarrow> nat \<Rightarrow> elf_rel list list \<Rightarrow> elf_sym list \<times> nat \<times> elf_rel list list" where
  "sort_syms ys sh_size sh_info rels =
     (let (o2n, q) = sort_pass is_local 0 ys (replicate (length ys) 0, []);
          sh_info = (if sh_size \<noteq> 0 then length q else sh_info);
          (o2n, q) = sort_pass (\<lambda>y. \<not> is_local y) 0 ys (o2n, q)
      in (q, sh_info, update_relocs o2n 0 rels))"

text \<open>\<open>get_sym_attr\<close>: the array of attributes grows to a power of two.\<close>

function attr_size :: "nat \<Rightarrow> nat \<Rightarrow> nat" where
  "attr_size ix n = (if n = 0 \<or> ix < n then n else attr_size ix (n * 2))"
  by auto
termination
  by (relation "measure (\<lambda>(ix, n). Suc ix - n)") auto

declare attr_size.simps [simp del]

record sym_attr =
  got_offset :: u32
  plt_offset :: u32
  plt_sym :: u32
  dyn_index :: nat

definition no_attr :: sym_attr where
  "no_attr = \<lparr>got_offset = 0, plt_offset = 0, plt_sym = 0, dyn_index = 0\<rparr>"

definition get_sym_attr :: "sym_attr list \<Rightarrow> nat \<Rightarrow> bool \<Rightarrow> nat \<times> sym_attr list" where
  "get_sym_attr attrs ix alloc =
     (if ix \<ge> length attrs then
        if \<not> alloc then (0, attrs)
        else (ix, attrs @ replicate (attr_size ix 1 - length attrs) no_attr)
      else (ix, attrs))"

text \<open>\<open>create_gnu_hash\<close>: the sizes in the header, from the number of symbols and of defined ones.\<close>

function bloom_size :: "nat \<Rightarrow> nat \<Rightarrow> nat" where
  "bloom_size ndef b = (if b = 0 \<or> ndef < b * 8 then b else bloom_size ndef (b * 2))"
  by auto
termination
  by (relation "measure (\<lambda>(ndef, b). Suc ndef - b)") auto

declare bloom_size.simps [simp del]

definition create_gnu_hash :: "elf_sym list \<Rightarrow> nat list" where
  "create_gnu_hash ys =
     (let n = length ys; ndef = length (filter (\<lambda>y. st_shndx y \<noteq> SHN_UNDEF) ys)
      in [ndef div 4 + 1, n - ndef, bloom_size ndef 1, 6])"

section \<open>The hash table\<close>

text \<open>The chain that starts with the number \<open>v\<close>.\<close>

fun linked :: "nat list \<Rightarrow> nat \<Rightarrow> nat \<Rightarrow> nat list \<Rightarrow> bool" where
  "linked base nb v [] \<longleftrightarrow> v = 0"
| "linked base nb v (x # xs) \<longleftrightarrow> v = x \<and> x \<noteq> 0 \<and> linked base nb (base ! (2 + nb + x)) xs"

lemma linked_cong:
  "linked base nb v xs \<Longrightarrow> (\<And>x. x \<in> set xs \<Longrightarrow> base' ! (2 + nb + x) = base ! (2 + nb + x)) \<Longrightarrow> linked base' nb v xs"
  by (induction xs arbitrary: v) auto

lemma find_chain_linked:
  "linked base (base ! 0) v xs \<Longrightarrow>
   find_chain tb base nm v = Some (case find (\<lambda>i. sym_name tb i = nm) xs of None \<Rightarrow> 0 | Some i \<Rightarrow> i)"
proof (induction xs arbitrary: v)
  case Nil
  then show ?case by (subst find_chain.simps) simp
next
  case (Cons x xs)
  then show ?case by (subst find_chain.simps) auto
qed

text \<open>The global symbols below \<open>k\<close> with hash value \<open>h\<close>, latest first.\<close>

definition bucket_syms :: "symtab \<Rightarrow> nat \<Rightarrow> nat \<Rightarrow> nat \<Rightarrow> nat list" where
  "bucket_syms tb nb k h =
     rev (filter (\<lambda>i. \<not> is_local (tb_syms tb ! i) \<and> bucket nb (sym_name tb i) = h) [1..<k])"

definition hash_upto :: "symtab \<Rightarrow> nat \<Rightarrow> nat \<Rightarrow> nat list \<Rightarrow> bool" where
  "hash_upto tb nb k base \<longleftrightarrow> (\<forall>h<nb. linked base nb (base ! (2 + h)) (bucket_syms tb nb k h))"

lemma rebuild_step_hash:
  assumes "hash_upto tb nb k base" "0 < nb" "0 < k" "2 + nb + k < length base"
  shows "hash_upto tb nb (k + 1) (rebuild_step tb nb k base)" "length (rebuild_step tb nb k base) = length base"
    "j < 2 \<Longrightarrow> rebuild_step tb nb k base ! j = base ! j"
proof -
  have b: "bucket nb nm < nb" for nm using assms(2) by (simp add: bucket_def)
  have old: "x < k" if "x \<in> set (bucket_syms tb nb k h)" for x h using that by (simp add: bucket_syms_def)
  have up: "[1..<k + 1] = [1..<k] @ [k]" using assms(3) by simp
  show "hash_upto tb nb (k + 1) (rebuild_step tb nb k base)"
    unfolding hash_upto_def
  proof (intro allI impI)
    fix h assume h: "h < nb"
    have l: "linked base nb (base ! (2 + h)) (bucket_syms tb nb k h)" using assms(1) h by (simp add: hash_upto_def)
    have l': "linked (rebuild_step tb nb k base) nb v (bucket_syms tb nb k h)"
      if "linked base nb v (bucket_syms tb nb k h)" for v
      using that
    proof (rule linked_cong)
      fix x assume x: "x \<in> set (bucket_syms tb nb k h)"
      have "2 + nb + x \<noteq> 2 + bucket nb (sym_name tb k)" using b [of "sym_name tb k"] by linarith
      with old [OF x] show "rebuild_step tb nb k base ! (2 + nb + x) = base ! (2 + nb + x)"
        by (auto simp: rebuild_step_def Let_def)
    qed
    show "linked (rebuild_step tb nb k base) nb (rebuild_step tb nb k base ! (2 + h)) (bucket_syms tb nb (k + 1) h)"
    proof (cases "\<not> is_local (tb_syms tb ! k) \<and> bucket nb (sym_name tb k) = h")
      case True
      then have "bucket_syms tb nb (k + 1) h = k # bucket_syms tb nb k h" by (simp only: bucket_syms_def up) simp
      moreover have "rebuild_step tb nb k base ! (2 + h) = k" "rebuild_step tb nb k base ! (2 + nb + k) = base ! (2 + h)"
        using True h assms(4) by (auto simp: rebuild_step_def Let_def nth_list_update)
      ultimately show ?thesis using l' [OF l] assms(3) by simp
    next
      case False
      then have "bucket_syms tb nb (k + 1) h = bucket_syms tb nb k h" by (simp only: bucket_syms_def up) auto
      moreover have "rebuild_step tb nb k base ! (2 + h) = base ! (2 + h)"
        using False h by (auto simp: rebuild_step_def Let_def nth_list_update)
      ultimately show ?thesis using l' [OF l] by simp
    qed
  qed
  show "length (rebuild_step tb nb k base) = length base" "j < 2 \<Longrightarrow> rebuild_step tb nb k base ! j = base ! j"
    by (auto simp: rebuild_step_def Let_def nth_list_update)
qed

lemma rebuild_hash_upto:
  assumes "0 < nb" "0 < length (tb_syms tb)"
  shows "hash_upto tb nb (length (tb_syms tb)) (rebuild_hash tb base nb) \<and>
    length (rebuild_hash tb base nb) = 2 + nb + length (tb_syms tb) \<and> rebuild_hash tb base nb ! 0 = nb \<and>
    rebuild_hash tb base nb ! 1 = length (tb_syms tb)"
proof -
  define n where "n = length (tb_syms tb)"
  define b0 where "b0 = [nb, n] @ replicate (nb + n) 0"
  have init: "hash_upto tb nb 1 b0" by (simp add: hash_upto_def bucket_syms_def b0_def nth_append)
  have "hash_upto tb nb k (fold (rebuild_step tb nb) [1..<k] b0) \<and>
      length (fold (rebuild_step tb nb) [1..<k] b0) = 2 + nb + n \<and>
      fold (rebuild_step tb nb) [1..<k] b0 ! 0 = nb \<and> fold (rebuild_step tb nb) [1..<k] b0 ! 1 = n"
    if "0 < k" "k \<le> n" for k
    using that
  proof (induction k)
    case (Suc k)
    show ?case
    proof (cases "k = 0")
      case True
      then show ?thesis using init by (simp add: b0_def)
    next
      case False
      then have IH: "hash_upto tb nb k (fold (rebuild_step tb nb) [1..<k] b0)"
        "length (fold (rebuild_step tb nb) [1..<k] b0) = 2 + nb + n"
        "fold (rebuild_step tb nb) [1..<k] b0 ! 0 = nb" "fold (rebuild_step tb nb) [1..<k] b0 ! 1 = n"
        using Suc by simp_all
      have "fold (rebuild_step tb nb) [1..<Suc k] b0 = rebuild_step tb nb k (fold (rebuild_step tb nb) [1..<k] b0)"
        using False by simp
      then show ?thesis
        using rebuild_step_hash [OF IH(1) assms(1)] IH Suc.prems False by simp
    qed
  qed simp
  from this [of n] show ?thesis
    using assms by (simp add: rebuild_hash_def n_def b0_def Let_def)
qed

section \<open>The invariant\<close>

definition hash_ok :: "symtab \<Rightarrow> nat list \<Rightarrow> bool" where
  "hash_ok tb base \<longleftrightarrow> 0 < base ! 0 \<and> length base = 2 + base ! 0 + length (tb_syms tb) \<and>
     base ! 1 = length (tb_syms tb) \<and> hash_upto tb (base ! 0) (length (tb_syms tb)) base"

text \<open>All names end inside the string table, which begins with the empty one, and the hash table knows
  exactly the global symbols.\<close>

definition symtab_ok :: "symtab \<Rightarrow> bool" where
  "symtab_ok tb \<longleftrightarrow> tb_syms tb \<noteq> [] \<and> tb_str tb \<noteq> [] \<and> hd (tb_str tb) = 0 \<and>
     (\<forall>y\<in>set (tb_syms tb). 0 \<in> set (drop (st_name y) (tb_str tb))) \<and>
     (case tb_hash tb of None \<Rightarrow> True | Some base \<Rightarrow> hash_ok tb base)"

text \<open>The last global symbol of a name.\<close>

definition sym_find :: "symtab \<Rightarrow> u8 list \<Rightarrow> nat option" where
  "sym_find tb nm =
     find (\<lambda>i. \<not> is_local (tb_syms tb ! i) \<and> sym_name tb i = nm) (rev [1..<length (tb_syms tb)])"

lemma find_SomeD: "find P xs = Some x \<Longrightarrow> x \<in> set xs \<and> P x"
  by (induction xs) (auto split: if_splits)

lemma sym_find_SomeD:
  assumes "sym_find tb nm = Some i"
  shows "0 < i" "i < length (tb_syms tb)" "\<not> is_local (tb_syms tb ! i)" "sym_name tb i = nm"
  using find_SomeD [OF assms [unfolded sym_find_def]] by auto

lemma find_filter: "find P (filter Q xs) = find (\<lambda>x. Q x \<and> P x) xs"
  by (induction xs) auto

lemma find_cong': "(\<And>x. x \<in> set xs \<Longrightarrow> P x = Q x) \<Longrightarrow> find P xs = find Q xs"
  by (induction xs) auto

lemma find_elf_sym_eq:
  assumes "symtab_ok tb" "tb_hash tb = Some base"
  shows "find_elf_sym tb nm = Some (case sym_find tb nm of None \<Rightarrow> 0 | Some i \<Rightarrow> i)"
proof -
  have ok: "hash_ok tb base" using assms by (simp add: symtab_ok_def)
  let ?nb = "base ! 0" and ?n = "length (tb_syms tb)"
  have "bucket ?nb nm < ?nb" using ok by (simp add: hash_ok_def bucket_def)
  then have l: "linked base ?nb (base ! (2 + bucket ?nb nm)) (bucket_syms tb ?nb ?n (bucket ?nb nm))"
    using ok by (simp add: hash_ok_def hash_upto_def)
  have "find (\<lambda>i. sym_name tb i = nm) (bucket_syms tb ?nb ?n (bucket ?nb nm)) = sym_find tb nm"
    unfolding bucket_syms_def sym_find_def rev_filter find_filter by (rule find_cong') auto
  then show ?thesis using find_chain_linked [OF l, of tb nm] assms(2) by (simp add: find_elf_sym_def)
qed

section \<open>Adding a symbol keeps the table\<close>

lemma sym_name_upd [simp]:
  "sym_name (tb\<lparr>tb_hash := x\<rparr>) = sym_name tb" "sym_name (tb\<lparr>tb_hashed := k\<rparr>) = sym_name tb"
  by (simp_all add: sym_name_def fun_eq_iff)

lemma bucket_syms_upd [simp]:
  "bucket_syms (tb\<lparr>tb_hash := x\<rparr>) = bucket_syms tb" "bucket_syms (tb\<lparr>tb_hashed := k\<rparr>) = bucket_syms tb"
  by (simp_all add: bucket_syms_def fun_eq_iff)

lemma hash_ok_upd [simp]:
  "hash_ok (tb\<lparr>tb_hash := x\<rparr>) = hash_ok tb" "hash_ok (tb\<lparr>tb_hashed := k\<rparr>) = hash_ok tb"
  by (simp_all add: hash_ok_def hash_upto_def fun_eq_iff)

lemma symtab_ok_hash:
  "symtab_ok (tb\<lparr>tb_hash := x\<rparr>) \<longleftrightarrow>
     symtab_ok (tb\<lparr>tb_hash := None\<rparr>) \<and> (case x of None \<Rightarrow> True | Some base \<Rightarrow> hash_ok tb base)"
  by (auto simp: symtab_ok_def split: option.splits)

lemma hash_upto_upd1: "hash_upto tb nb k (base[1 := c]) \<longleftrightarrow> hash_upto tb nb k base"
proof -
  have "linked (base[1 := c]) nb v xs \<longleftrightarrow> linked base nb v xs" for v xs
    by (induction xs arbitrary: v) auto
  then show ?thesis by (simp add: hash_upto_def)
qed

lemma bucket_syms_cong:
  "(\<And>i. i < k \<Longrightarrow> is_local (tb_syms tb' ! i) = is_local (tb_syms tb ! i)) \<Longrightarrow>
   (\<And>i. i < k \<Longrightarrow> sym_name tb' i = sym_name tb i) \<Longrightarrow> bucket_syms tb' nb k h = bucket_syms tb nb k h"
  unfolding bucket_syms_def by (intro arg_cong [where f = rev] filter_cong) auto

lemma hash_upto_snoc:
  assumes "hash_upto tb nb k base" "length base = 2 + nb + k"
  shows "hash_upto tb nb k (base @ xs)"
  unfolding hash_upto_def
proof (intro allI impI)
  fix h assume h: "h < nb"
  then have "linked base nb (base ! (2 + h)) (bucket_syms tb nb k h)" using assms(1) by (simp add: hash_upto_def)
  then have "linked (base @ xs) nb (base ! (2 + h)) (bucket_syms tb nb k h)"
    by (rule linked_cong) (use assms(2) in \<open>auto simp: bucket_syms_def nth_append\<close>)
  then show "linked (base @ xs) nb ((base @ xs) ! (2 + h)) (bucket_syms tb nb k h)"
    using h assms(2) by (simp add: nth_append)
qed

lemma snoc_sym_simps [simp]:
  "tb_hash (snoc_sym tb value sz info oth shndx nm) = tb_hash tb"
  "tb_hashed (snoc_sym tb value sz info oth shndx nm) = tb_hashed tb"
  "tb_dynsym (snoc_sym tb value sz info oth shndx nm) = tb_dynsym tb"
  "length (tb_syms (snoc_sym tb value sz info oth shndx nm)) = Suc (length (tb_syms tb))"
  by (simp_all add: snoc_sym_def)

lemma snoc_sym_names:
  assumes "symtab_ok tb" "0 \<notin> set nm"
  shows "sym_name (snoc_sym tb value sz info oth shndx nm) (length (tb_syms tb)) = nm"
    "i < length (tb_syms tb) \<Longrightarrow> sym_name (snoc_sym tb value sz info oth shndx nm) i = sym_name tb i"
    "symtab_ok ((snoc_sym tb value sz info oth shndx nm)\<lparr>tb_hash := None\<rparr>)"
proof -
  have str: "tb_str tb \<noteq> []" "hd (tb_str tb) = 0" "\<forall>y\<in>set (tb_syms tb). 0 \<in> set (drop (st_name y) (tb_str tb))"
    using assms(1) by (simp_all add: symtab_ok_def)
  show "sym_name (snoc_sym tb value sz info oth shndx nm) (length (tb_syms tb)) = nm"
    using cstr_at_append [OF assms(2), of "tb_str tb" "[]"] str(1,2)
    by (cases "tb_str tb") (auto simp: sym_name_def snoc_sym_def cstr_at_def)
  show "sym_name (snoc_sym tb value sz info oth shndx nm) i = sym_name tb i" if "i < length (tb_syms tb)"
    using that str(3) cstr_at_prefix by (simp add: sym_name_def snoc_sym_def nth_append)
  show "symtab_ok ((snoc_sym tb value sz info oth shndx nm)\<lparr>tb_hash := None\<rparr>)"
    using str by (cases "tb_str tb") (auto simp: symtab_ok_def snoc_sym_def drop_append simp del: append_Cons)
qed

lemma snoc_sym_hash:
  assumes "hash_ok tb base" "symtab_ok tb" "0 \<notin> set nm" "tb' = snoc_sym tb value sz info oth shndx nm"
  shows "hash_ok tb' ((rebuild_step tb' (base ! 0) (length (tb_syms tb)) (base @ [0]))[1 := Suc (base ! 1)])"
proof -
  let ?nb = "base ! 0" and ?n = "length (tb_syms tb)"
  have ok: "0 < ?nb" "length base = 2 + ?nb + ?n" "base ! 1 = ?n" "hash_upto tb ?nb ?n base" "0 < ?n"
    using assms(1,2) by (auto simp: hash_ok_def symtab_ok_def)
  have n': "length (tb_syms tb') = Suc ?n" by (simp add: assms(4) snoc_sym_def)
  have "bucket_syms tb' ?nb ?n h = bucket_syms tb ?nb ?n h" for h
    using snoc_sym_names(2) [OF assms(2,3)] by (intro bucket_syms_cong) (auto simp: assms(4) snoc_sym_def nth_append)
  then have "hash_upto tb' ?nb ?n (base @ [0])"
    using hash_upto_snoc [OF ok(4,2), of "[0]"] by (simp add: hash_upto_def)
  note r = rebuild_step_hash [OF this ok(1,5)]
  have "rebuild_step tb' ?nb ?n (base @ [0]) ! 0 = base ! 0"
    using r(3) [of 0] ok(2) by (simp add: nth_append)
  then show ?thesis using r(1,2) ok n' hash_upto_upd1 [where c = "Suc ?n"] by (simp add: hash_ok_def)
qed

lemma rebuild_hash_ok: "0 < nb \<Longrightarrow> 0 < length (tb_syms tb) \<Longrightarrow> hash_ok tb (rebuild_hash tb base nb)"
  using rebuild_hash_upto [of nb tb base] by (simp add: hash_ok_def)

lemma put_elf_sym_eq:
  assumes "put_elf_sym tb value sz info oth shndx nm = (i, tb2)" "symtab_ok tb" "0 \<notin> set nm"
  shows "i = length (tb_syms tb) \<and>
    (\<exists>hs k. tb2 = (snoc_sym tb value sz info oth shndx nm)\<lparr>tb_hash := hs, tb_hashed := k\<rparr> \<and>
       (hs = None \<longleftrightarrow> tb_hash tb = None) \<and>
       (case hs of None \<Rightarrow> True | Some base \<Rightarrow> hash_ok (snoc_sym tb value sz info oth shndx nm) base))"
proof (cases "tb_hash tb")
  case None
  then have "tb2 = (snoc_sym tb value sz info oth shndx nm)\<lparr>tb_hash := None, tb_hashed := tb_hashed tb\<rparr>"
    "i = length (tb_syms tb)"
    using assms(1) by (auto simp: put_elf_sym_def Let_def)
  then show ?thesis using None by auto
next
  case (Some base)
  let ?tb' = "snoc_sym tb value sz info oth shndx nm" and ?n = "length (tb_syms tb)" and ?nb = "base ! 0"
  let ?b = "(rebuild_step ?tb' ?nb ?n (base @ [0]))[1 := Suc (base ! 1)]"
  have h: "hash_ok tb base" using assms(2) Some by (simp add: symtab_ok_def)
  then have len: "length base = 2 + ?nb + ?n" "0 < ?nb" by (simp_all add: hash_ok_def)
  have b: "hash_ok ?tb' ?b" by (rule snoc_sym_hash [OF h assms(2,3) refl])
  have loc: "is_local (tb_syms ?tb' ! ?n) \<longleftrightarrow> ST_BIND info = STB_LOCAL"
    by (simp add: snoc_sym_def is_local_def)
  have bk: "bucket ?nb nm' < ?nb" for nm' using len(2) by (simp add: bucket_def)
  show ?thesis
  proof (cases "ST_BIND info = STB_LOCAL")
    case True
    then have "?b = (base @ [0])[1 := base ! 1 + 1]"
      using len loc by (simp add: rebuild_step_def nth_append list_update_append)
    moreover have "tb2 = ?tb'\<lparr>tb_hash := Some ((base @ [0])[1 := base ! 1 + 1]), tb_hashed := tb_hashed tb\<rparr>" "i = ?n"
      using assms(1) Some True by (auto simp: put_elf_sym_def Let_def)
    ultimately show ?thesis using b Some by auto
  next
    case False
    let ?h = "bucket ?nb (sym_name ?tb' ?n)"
    have beq: "?b = (base @ [base ! (2 + ?h)])[2 + ?h := ?n, 1 := base ! 1 + 1]"
      using len loc False bk [of "sym_name ?tb' ?n"]
      by (simp add: rebuild_step_def nth_append Let_def list_update_append)
    define bs where "bs = (if Suc (tb_hashed tb) > 2 * ?nb
        then rebuild_hash (?tb'\<lparr>tb_hashed := Suc (tb_hashed tb)\<rparr>) ?b (2 * ?nb) else ?b)"
    have "hash_ok (?tb'\<lparr>tb_hashed := Suc (tb_hashed tb)\<rparr>) (rebuild_hash (?tb'\<lparr>tb_hashed := Suc (tb_hashed tb)\<rparr>) ?b (2 * ?nb))"
      by (rule rebuild_hash_ok) (use len(2) in simp_all)
    then have ok: "hash_ok ?tb' bs" using b by (simp add: bs_def)
    have "tb2 = ?tb'\<lparr>tb_hash := Some bs, tb_hashed := Suc (tb_hashed tb)\<rparr>" "i = ?n"
      using assms(1) Some False unfolding bs_def beq
      by (auto simp: put_elf_sym_def Let_def)
    with ok show ?thesis using Some by auto
  qed
qed

lemma put_elf_sym:
  assumes "put_elf_sym tb value sz info oth shndx nm = (i, tb2)" "symtab_ok tb" "0 \<notin> set nm"
  shows "i = length (tb_syms tb)" "symtab_ok tb2" "(tb_hash tb2 = None) = (tb_hash tb = None)"
    "tb_syms tb2 = tb_syms (snoc_sym tb value sz info oth shndx nm)"
    "sym_name tb2 = sym_name (snoc_sym tb value sz info oth shndx nm)" "tb_dynsym tb2 = tb_dynsym tb"
proof -
  obtain hs k where e: "tb2 = (snoc_sym tb value sz info oth shndx nm)\<lparr>tb_hash := hs, tb_hashed := k\<rparr>"
    "hs = None \<longleftrightarrow> tb_hash tb = None" "case hs of None \<Rightarrow> True | Some base \<Rightarrow> hash_ok (snoc_sym tb value sz info oth shndx nm) base"
    using put_elf_sym_eq [OF assms] by auto
  show "i = length (tb_syms tb)" "(tb_hash tb2 = None) = (tb_hash tb = None)"
    "tb_syms tb2 = tb_syms (snoc_sym tb value sz info oth shndx nm)"
    "sym_name tb2 = sym_name (snoc_sym tb value sz info oth shndx nm)" "tb_dynsym tb2 = tb_dynsym tb"
    using put_elf_sym_eq [OF assms] e by auto
  have "symtab_ok ((snoc_sym tb value sz info oth shndx nm)\<lparr>tb_hash := hs\<rparr>)"
    using symtab_ok_hash [where x = hs] snoc_sym_names(3) [OF assms(2,3)] e(3) by simp
  then show "symtab_ok tb2" using e(1) by (auto simp: symtab_ok_def split: option.splits)
qed

text \<open>What the table says of a name: the symbol without its place in the string table.\<close>

definition sym_map :: "symtab \<Rightarrow> u8 list \<Rightarrow> elf_sym option" where
  "sym_map tb nm = map_option (\<lambda>i. (tb_syms tb ! i)\<lparr>st_name := 0\<rparr>) (sym_find tb nm)"

lemma sym_find_snoc:
  assumes "symtab_ok tb" "0 \<notin> set nm" "tb_syms tb2 = tb_syms tb'" "sym_name tb2 = sym_name tb'"
    "tb' = snoc_sym tb value sz info oth shndx nm"
  shows "sym_find tb2 = (if ST_BIND info = STB_LOCAL then sym_find tb else (sym_find tb)(nm \<mapsto> length (tb_syms tb)))"
proof
  fix nm'
  let ?n = "length (tb_syms tb)"
  have n: "0 < ?n" using assms(1) by (simp add: symtab_ok_def)
  have new: "sym_name tb2 ?n = nm" "is_local (tb_syms tb2 ! ?n) \<longleftrightarrow> ST_BIND info = STB_LOCAL" "length (tb_syms tb2) = Suc ?n"
    using snoc_sym_names(1) [OF assms(1,2)] by (simp_all add: assms(3-5)) (simp_all add: snoc_sym_def is_local_def)
  have old: "find (\<lambda>i. \<not> is_local (tb_syms tb2 ! i) \<and> sym_name tb2 i = nm') (rev [1..<?n]) = sym_find tb nm'"
    unfolding sym_find_def
    by (rule find_cong') (use snoc_sym_names(2) [OF assms(1,2)] in \<open>auto simp: assms(3-5) snoc_sym_def nth_append\<close>)
  have "rev [1..<Suc ?n] = ?n # rev [1..<?n]" using n by (cases ?n) simp_all
  then show "sym_find tb2 nm' =
      (if ST_BIND info = STB_LOCAL then sym_find tb else (sym_find tb)(nm \<mapsto> ?n)) nm'"
    using new old by (simp add: sym_find_def del: upt_Suc)
qed

lemma put_elf_sym_map:
  assumes "put_elf_sym tb value sz info oth shndx nm = (i, tb2)" "symtab_ok tb" "0 \<notin> set nm"
  shows "sym_map tb2 = (if ST_BIND info = STB_LOCAL then sym_map tb
    else (sym_map tb)(nm \<mapsto> \<lparr>st_name = 0, st_value = value, st_size = sz, st_info = info, st_other = oth, st_shndx = shndx\<rparr>))"
proof
  fix nm'
  note p = put_elf_sym [OF assms]
  have f: "sym_find tb2 = (if ST_BIND info = STB_LOCAL then sym_find tb else (sym_find tb)(nm \<mapsto> length (tb_syms tb)))"
    by (rule sym_find_snoc [OF assms(2,3) p(4,5) refl])
  have "tb_syms tb2 ! j = tb_syms tb ! j" if "sym_find tb nm' = Some j" for j
    using sym_find_SomeD(2) [OF that] by (simp add: p(4) snoc_sym_def nth_append)
  then show "sym_map tb2 nm' = (if ST_BIND info = STB_LOCAL then sym_map tb
    else (sym_map tb)(nm \<mapsto> \<lparr>st_name = 0, st_value = value, st_size = sz, st_info = info, st_other = oth, st_shndx = shndx\<rparr>)) nm'"
    using f by (cases "sym_find tb nm'") (auto simp: sym_map_def p(4) snoc_sym_def)
qed

section \<open>Changing a symbol keeps the table\<close>

lemma ST_INFO_id [simp]: "ST_INFO (ST_BIND i) (ST_TYPE i) = i"
proof -
  have t: "j AND 0xf = take_bit 4 j" for j :: u8
    by (simp add: take_bit_eq_mask mask_eq_exp_minus_1)
  show ?thesis by (simp add: ST_INFO_def ST_BIND_def ST_TYPE_def t bits_ident)
qed

lemma resolve_sym_bind:
  assumes "resolve_sym bss dyn y value sz info oth shndx = (y', err)" "ST_BIND info \<noteq> STB_LOCAL" "\<not> is_local y"
  shows "st_name y' = st_name y" "\<not> is_local y'"
  using assms by (auto simp: resolve_sym_def Let_def patch_sym_def is_local_def split: if_splits resolution.splits)

lemma resolve_twice_name:
  "resolve_twice bss dyn (y\<lparr>st_name := k, st_other := z\<rparr>) b v s = resolve_twice bss dyn (y\<lparr>st_other := z\<rparr>) b v s"
  by (cases y) (simp only: resolve_twice_def elf_sym.simps)

lemma resolve_sym_name:
  "resolve_sym bss dyn (y\<lparr>st_name := k\<rparr>) value sz info oth shndx =
     (let (y', err) = resolve_sym bss dyn y value sz info oth shndx in (y'\<lparr>st_name := k\<rparr>, err))"
  by (simp add: resolve_sym_def Let_def patch_sym_def resolve_twice_name split: resolution.split)

lemma update_sym_names:
  assumes "i < length (tb_syms tb)" "st_name y = st_name (tb_syms tb ! i)" "tb' = tb\<lparr>tb_syms := (tb_syms tb)[i := y]\<rparr>"
  shows "sym_name tb' j = sym_name tb j"
  using assms by (cases "j = i") (simp_all add: sym_name_def)

lemma update_sym_ok:
  assumes "symtab_ok tb" "i < length (tb_syms tb)" "st_name y = st_name (tb_syms tb ! i)"
    "is_local y = is_local (tb_syms tb ! i)" "tb' = tb\<lparr>tb_syms := (tb_syms tb)[i := y]\<rparr>"
  shows "symtab_ok tb'" "sym_find tb' = sym_find tb"
proof -
  have loc: "is_local (tb_syms tb' ! j) = is_local (tb_syms tb ! j)" for j
    using assms by (cases "j = i") simp_all
  have nm: "sym_name tb' j = sym_name tb j" for j by (rule update_sym_names [OF assms(2,3,5)])
  have "bucket_syms tb' = bucket_syms tb" by (simp add: bucket_syms_def loc nm fun_eq_iff)
  then have "hash_ok (tb\<lparr>tb_syms := (tb_syms tb)[i := y]\<rparr>) = hash_ok tb" by (simp add: hash_ok_def hash_upto_def assms(5) fun_eq_iff)
  moreover have "\<forall>z\<in>set ((tb_syms tb)[i := y]). 0 \<in> set (drop (st_name z) (tb_str tb))"
    using assms(1-3) set_update_subset_insert [of "tb_syms tb" i y] by (auto simp: symtab_ok_def)
  ultimately show "symtab_ok tb'" using assms(1) by (auto simp: symtab_ok_def assms(5) split: option.splits)
  have "length (tb_syms tb') = length (tb_syms tb)" by (simp add: assms(5))
  then show "sym_find tb' = sym_find tb" by (simp add: sym_find_def loc nm fun_eq_iff)
qed

section \<open>What several definitions of a name mean\<close>

text \<open>The rules of linking, stated by the standing of the two definitions: undefined, weak, tentative (uninitialised data:
  COMMON or \<open>.bss\<close>), in a section, or special (an absolute address).\<close>

datatype standing = Undefined | Weak | Tentative | Regular | Special

definition standing :: "u16 \<Rightarrow> u8 \<Rightarrow> u16 \<Rightarrow> standing" where
  "standing bss bd shndx =
     (if shndx = SHN_UNDEF then Undefined else if bd = STB_WEAK then Weak
      else if shndx \<in> {SHN_COMMON, bss} then Tentative else if shndx < SHN_LORESERVE then Regular else Special)"

datatype winner = Old | New | Conflict

text \<open>The first definition of any standing answers a reference; a strong one replaces a weak one; initialised data replaces
  uninitialised; other pairs of strong definitions conflict. A hidden definition never replaces a strong one, the first of
  several libraries wins, and what \<open>.set\<close> has defined may be defined again.\<close>

fun prevails :: "bool \<Rightarrow> bool \<Rightarrow> bool \<Rightarrow> standing \<Rightarrow> standing \<Rightarrow> winner" where
  "prevails hid lib reset Undefined n = New"
| "prevails hid lib reset d Undefined = Old"
| "prevails hid lib reset d Weak = Old"
| "prevails hid lib reset Weak n = New"
| "prevails hid lib reset Tentative Regular = (if hid then Old else New)"
| "prevails hid lib reset d Tentative = Old"
| "prevails hid lib reset d n = (if hid \<or> lib then Old else if reset then New else Conflict)"

text \<open>Visibilities by how much they constrain: default, protected, hidden, internal.\<close>

definition constraint :: "u8 \<Rightarrow> nat" where
  "constraint v = (if v = 0 then 0 else if v = 3 then 1 else if v = 2 then 2 else 3)"

definition most_constraining :: "u8 \<Rightarrow> u8 \<Rightarrow> u8" where
  "most_constraining v w = (if constraint v < constraint w then w else v)"

text \<open>The symbol after a second definition, and whether there is an error.\<close>

definition elf_merge :: "u16 \<Rightarrow> bool \<Rightarrow> elf_sym \<Rightarrow> elf_sym \<Rightarrow> elf_sym \<times> bool" where
  "elf_merge bss lib old new =
     (let vis = ST_VISIBILITY (st_other new);
          so = standing bss (ST_BIND (st_info old)) (st_shndx old); sn = standing bss (ST_BIND (st_info new)) (st_shndx new);
          w = prevails (vis \<in> {STV_HIDDEN, STV_INTERNAL}) lib (bit (st_other old) 2) so sn;
          other = (if so = Undefined then st_other new
                   else (st_other old AND NOT 3) OR most_constraining (ST_VISIBILITY (st_other old)) vis)
      in if new = old then (old, False)
         else ((if w = New then new else old)\<lparr>st_other := other\<rparr>, w = Conflict))"

lemma vis_cases: "ST_VISIBILITY v \<in> {0, 1, 2, 3}"
proof -
  have "v AND 3 \<le> 3" by (rule word_and_le1)
  then have "unat (ST_VISIBILITY v) < 4" by (simp add: ST_VISIBILITY_def word_le_nat_alt)
  then have "unat (ST_VISIBILITY v) \<in> {0, 1, 2, 3}" by auto
  then show ?thesis by (auto simp: word_unat_eq_iff)
qed

lemma merge_vis_most: "merge_vis (ST_VISIBILITY v) (ST_VISIBILITY w) = most_constraining (ST_VISIBILITY v) (ST_VISIBILITY w)"
  using vis_cases [of v] vis_cases [of w] by (auto simp: merge_vis_def most_constraining_def constraint_def)

lemma asm_set_bit: "v AND ST_ASM_SET \<noteq> 0 \<longleftrightarrow> bit (v :: u8) 2"
proof -
  have "(4 :: u8) = 2 ^ 2" by simp
  then show ?thesis by (simp only: and_exp_eq_0_iff_not_bit) simp
qed

text \<open>The code implements these rules for the bindings of the standard.\<close>

definition known_bind :: "u8 \<Rightarrow> bool" where
  "known_bind info \<longleftrightarrow> ST_BIND info \<in> {STB_GLOBAL, STB_WEAK}"

lemma resolve_twice_prevails:
  assumes "known_bind (st_info y)" "sym_bind \<in> {STB_GLOBAL, STB_WEAK}" "st_shndx y \<noteq> SHN_UNDEF"
  shows "resolve_twice bss lib y sym_bind vis shndx =
    (case prevails (vis \<in> {STV_HIDDEN, STV_INTERNAL}) lib (bit (st_other y) 2) (standing bss (ST_BIND (st_info y)) (st_shndx y))
        (standing bss sym_bind shndx) of Old \<Rightarrow> Keep | New \<Rightarrow> Patch | Conflict \<Rightarrow> Defined_twice)"
  using assms unfolding resolve_twice_def known_bind_def standing_def Let_def asm_set_bit
  by (elim insertE emptyE) (simp_all split: if_splits)

lemma resolve_sym_merge:
  assumes "known_bind (st_info y)" "known_bind info"
  shows "resolve_sym bss lib y value sz info oth shndx =
    elf_merge bss lib y \<lparr>st_name = st_name y, st_value = value, st_size = sz, st_info = info, st_other = oth, st_shndx = shndx\<rparr>"
proof -
  let ?new = "\<lparr>st_name = st_name y, st_value = value, st_size = sz, st_info = info, st_other = oth, st_shndx = shndx\<rparr>"
  have same: "st_value y = value \<and> st_size y = sz \<and> st_info y = info \<and> st_other y = oth \<and> st_shndx y = shndx \<longleftrightarrow> ?new = y"
    by (cases y) auto
  have patch: "patch_sym (y\<lparr>st_other := z\<rparr>) value sz info shndx = ?new\<lparr>st_other := z\<rparr>" for z
    by (cases y) (simp add: patch_sym_def)
  show ?thesis
  proof (cases "?new = y \<or> st_shndx y = SHN_UNDEF")
    case True
    then show ?thesis unfolding resolve_sym_def elf_merge_def Let_def same patch by (auto simp: standing_def)
  next
    case False
    have st: "standing bss (ST_BIND (st_info y)) (st_shndx y) \<noteq> Undefined" using False by (simp add: standing_def)
    have k: "ST_BIND info \<in> {STB_GLOBAL, STB_WEAK}" using assms(2) by (simp add: known_bind_def)
    define o' where "o' = (st_other y AND NOT 3) OR most_constraining (ST_VISIBILITY (st_other y)) (ST_VISIBILITY oth)"
    have b: "bit o' 2 \<longleftrightarrow> bit (st_other y) 2"
    proof -
      have "\<not> bit (ST_VISIBILITY v) 2" for v by (simp add: ST_VISIBILITY_def bit_and_iff)
      moreover have "bit (NOT 3 :: u8) 2" by (simp add: bit_not_iff)
      ultimately show ?thesis by (simp add: o'_def bit_or_iff bit_and_iff most_constraining_def)
    qed
    have r: "resolve_twice bss lib (y\<lparr>st_other := o'\<rparr>) (ST_BIND info) (ST_VISIBILITY oth) shndx =
      (case prevails (ST_VISIBILITY oth \<in> {STV_HIDDEN, STV_INTERNAL}) lib (bit (st_other y) 2)
        (standing bss (ST_BIND (st_info y)) (st_shndx y)) (standing bss (ST_BIND info) shndx) of Old \<Rightarrow> Keep | New \<Rightarrow> Patch | Conflict \<Rightarrow> Defined_twice)"
      using resolve_twice_prevails [of "y\<lparr>st_other := o'\<rparr>" "ST_BIND info" bss lib "ST_VISIBILITY oth" shndx] assms(1) k False b
      by (simp del: insert_iff)
    show ?thesis
      using False st unfolding resolve_sym_def elf_merge_def Let_def same merge_vis_most o'_def [symmetric] r
      by (auto simp: patch o'_def split: winner.splits)
  qed
qed

text \<open>The table after a definition, as a map from names: what was said of the name before decides.\<close>

definition merge_def :: "u16 \<Rightarrow> bool \<Rightarrow> elf_sym option \<Rightarrow> elf_sym \<Rightarrow> elf_sym \<times> bool" where
  "merge_def bss lib old new = (case old of None \<Rightarrow> (new, False) | Some y \<Rightarrow> elf_merge bss lib y new)"

lemma set_elf_sym_old:
  assumes "symtab_ok tb" "tb_hash tb = Some base" "ST_BIND info \<noteq> STB_LOCAL" "sym_find tb nm = Some i"
    "resolve_sym bss (tb_dynsym tb) (tb_syms tb ! i) value sz info oth shndx = (y, err)"
  shows "set_elf_sym bss tb value sz info oth shndx nm = Some (i, tb\<lparr>tb_syms := (tb_syms tb)[i := y]\<rparr>, err)"
    "symtab_ok (tb\<lparr>tb_syms := (tb_syms tb)[i := y]\<rparr>)"
    "sym_map (tb\<lparr>tb_syms := (tb_syms tb)[i := y]\<rparr>) = (sym_map tb)(nm \<mapsto> y\<lparr>st_name := 0\<rparr>)"
proof -
  note f = sym_find_SomeD [OF assms(4)]
  show "set_elf_sym bss tb value sz info oth shndx nm = Some (i, tb\<lparr>tb_syms := (tb_syms tb)[i := y]\<rparr>, err)"
    using assms(3-5) find_elf_sym_eq [OF assms(1,2), of nm] f(1) by (simp add: set_elf_sym_def)
  note b = resolve_sym_bind [OF assms(5,3) f(3)]
  note u = update_sym_ok [OF assms(1) f(2) b(1) _ refl]
  show "symtab_ok (tb\<lparr>tb_syms := (tb_syms tb)[i := y]\<rparr>)" using u(1) b(2) f(3) by blast
  have sf: "sym_find (tb\<lparr>tb_syms := (tb_syms tb)[i := y]\<rparr>) = sym_find tb" using u(2) b(2) f(3) by blast
  show "sym_map (tb\<lparr>tb_syms := (tb_syms tb)[i := y]\<rparr>) = (sym_map tb)(nm \<mapsto> y\<lparr>st_name := 0\<rparr>)"
  proof
    fix nm'
    have "j \<noteq> i" if "sym_find tb nm' = Some j" "nm' \<noteq> nm" for j using sym_find_SomeD(4) [OF that(1)] f(4) that(2) by auto
    then show "sym_map (tb\<lparr>tb_syms := (tb_syms tb)[i := y]\<rparr>) nm' = ((sym_map tb)(nm \<mapsto> y\<lparr>st_name := 0\<rparr>)) nm'"
      using assms(4) f(2) by (cases "sym_find tb nm'") (auto simp: sym_map_def sf)
  qed
qed

text \<open>Finding a name returns the last global or weak symbol of that name, or 0 if there is none,
  and the search ends.\<close>

lemma find_elf_sym_correct:
  assumes "symtab_ok tb" "tb_hash tb = Some base"
  shows "\<exists>i. find_elf_sym tb nm = Some i \<and>
    (if i = 0 then \<forall>j. 0 < j \<and> j < length (tb_syms tb) \<and> sym_name tb j = nm \<longrightarrow> is_local (tb_syms tb ! j)
     else i < length (tb_syms tb) \<and> sym_name tb i = nm \<and> \<not> is_local (tb_syms tb ! i))"
proof (cases "sym_find tb nm")
  case None
  then have "\<forall>j. 0 < j \<and> j < length (tb_syms tb) \<and> sym_name tb j = nm \<longrightarrow> is_local (tb_syms tb ! j)"
    by (auto simp: sym_find_def find_None_iff)
  then show ?thesis using find_elf_sym_eq [OF assms] None by auto
next
  case (Some i)
  then show ?thesis using find_elf_sym_eq [OF assms, of nm] sym_find_SomeD [OF Some] by simp
qed

text \<open>C17: Defining a symbol implements an update of a map from names to symbols. A local symbol changes none of the global
  names; a global or weak one changes the name given, and no other. A new name gets the symbol; for a name that is known, and the
  bindings of the ELF standard (global, weak), the symbol and the error are those of the rules of
  linking (\<open>prevails\<close>): what is defined beats what is not, strong beats weak, initialised beats uninitialised, two strong
  definitions conflict, with the exceptions for hidden symbols, libraries and \<open>.set\<close>; the visibility becomes the
  most constraining one. The table stays well formed.\<close>

theorem set_elf_sym_refines:
  assumes "symtab_ok tb" "tb_hash tb = Some base" "0 \<notin> set nm"
  shows "\<exists>i tb' err. set_elf_sym bss tb value sz info oth shndx nm = Some (i, tb', err) \<and> symtab_ok tb' \<and>
    tb_hash tb' \<noteq> None \<and> sym_name tb' i = nm \<and>
    (if ST_BIND info = STB_LOCAL then sym_map tb' = sym_map tb \<and> \<not> err
     else (\<forall>m. m \<noteq> nm \<longrightarrow> sym_map tb' m = sym_map tb m) \<and>
      (known_bind info \<and> (\<forall>y. sym_map tb nm = Some y \<longrightarrow> known_bind (st_info y)) \<longrightarrow>
       (let (y, e) = merge_def bss (tb_dynsym tb) (sym_map tb nm)
          \<lparr>st_name = 0, st_value = value, st_size = sz, st_info = info, st_other = oth, st_shndx = shndx\<rparr>
        in sym_map tb' nm = Some y \<and> err = e)))"
proof (cases "ST_BIND info \<noteq> STB_LOCAL \<and> sym_find tb nm \<noteq> None")
  case True
  then obtain i where b: "ST_BIND info \<noteq> STB_LOCAL" and i: "sym_find tb nm = Some i" by auto
  note f = sym_find_SomeD [OF i]
  obtain y err where r: "resolve_sym bss (tb_dynsym tb) (tb_syms tb ! i) value sz info oth shndx = (y, err)" by fastforce
  note s = set_elf_sym_old [OF assms(1,2) b i r]
  have old: "sym_map tb nm = Some ((tb_syms tb ! i)\<lparr>st_name := 0\<rparr>)" by (simp add: sym_map_def i)
  have "merge_def bss (tb_dynsym tb) (sym_map tb nm)
      \<lparr>st_name = 0, st_value = value, st_size = sz, st_info = info, st_other = oth, st_shndx = shndx\<rparr> = (y\<lparr>st_name := 0\<rparr>, err)"
    if "known_bind info" "known_bind (st_info (tb_syms tb ! i))"
    using resolve_sym_merge [of "(tb_syms tb ! i)\<lparr>st_name := 0\<rparr>" info bss "tb_dynsym tb" "value" sz oth shndx] that
    by (simp add: merge_def_def old resolve_sym_name r)
  moreover have "sym_name (tb\<lparr>tb_syms := (tb_syms tb)[i := y]\<rparr>) i = nm"
    using update_sym_names [OF f(2) resolve_sym_bind(1) [OF r b f(3)] refl] f(4) by simp
  ultimately show ?thesis using s b assms(2) old by auto
next
  case False
  obtain i tb' where p: "put_elf_sym tb value sz info oth shndx nm = (i, tb')" by fastforce
  note q = put_elf_sym [OF p assms(1,3)]
  have "put_elf_sym tb value sz (ST_INFO (ST_BIND info) (ST_TYPE info)) oth shndx nm = (i, tb')" using p by simp
  then have "set_elf_sym bss tb value sz info oth shndx nm = Some (i, tb', False)"
    using False find_elf_sym_eq [OF assms(1,2), of nm]
    by (cases "ST_BIND info = STB_LOCAL") (simp_all add: set_elf_sym_def del: ST_INFO_id)
  moreover have "sym_name tb' i = nm" using snoc_sym_names(1) [OF assms(1,3)] by (simp add: q(1,5))
  moreover have "sym_map tb nm = None" if "ST_BIND info \<noteq> STB_LOCAL" using False that by (simp add: sym_map_def)
  ultimately show ?thesis
    using q put_elf_sym_map [OF p assms(1,3)] assms(2) by (auto simp: merge_def_def)
qed

section \<open>Relocations and the order of symbols\<close>

lemma unat_R_INFO: "y < 2 ^ 32 \<Longrightarrow> unat (R_INFO y t) = y * 2 ^ 32 + unat t"
proof -
  assume y: "y < 2 ^ 32"
  have t: "unat t < 2 ^ 32" using unsigned_less [of t] by simp
  have "unat (push_bit 32 (of_nat y) :: u64) = y * 2 ^ 32"
    using y by (simp add: push_bit_eq_mult unat_word_ariths unat_of_nat)
  moreover have "unat (ucast t :: u64) = unat t" using t by (simp add: unsigned_ucast_eq take_bit_nat_eq_self)
  moreover have "y * 2 ^ 32 + unat t < 2 ^ 64" using y t by simp
  ultimately show ?thesis by (simp add: R_INFO_def unat_word_ariths)
qed

lemma unat_and_low32: "unat (i AND 0xffffffff :: u64) = unat i mod 2 ^ 32"
proof -
  have m: "i AND 0xffffffff = take_bit 32 i" by (simp add: take_bit_eq_mask mask_eq_exp_minus_1)
  show ?thesis unfolding m by (simp add: unsigned_take_bit_eq take_bit_nat_def)
qed

lemma R_INFO_simps [simp]:
  assumes "y < 2 ^ 32"
  shows "R_SYM (R_INFO y t) = y" "R_TYPE (R_INFO y t) = t"
proof -
  have t: "unat t < 2 ^ 32" using unsigned_less [of t] by simp
  show "R_SYM (R_INFO y t) = y"
    using t unat_R_INFO [OF assms, of t] unfolding R_SYM_def unat_drop_bit_eq by (simp add: drop_bit_eq_div)
  have "unat (R_TYPE (R_INFO y t)) = unat t"
    using t unat_R_INFO [OF assms, of t]
    by (simp add: R_TYPE_def unsigned_ucast_eq unat_and_low32 take_bit_nat_def)
  then show "R_TYPE (R_INFO y t) = t" by (simp add: unsigned_word_eqI)
qed

lemma sort_pass:
  "sort_pass p i ys (o2n, q) = (o2n', q') \<Longrightarrow> i + length ys \<le> length o2n \<Longrightarrow>
   q' = q @ filter p ys \<and> length o2n' = length o2n \<and>
   (\<forall>k<length o2n. o2n' ! k =
      (if i \<le> k \<and> k < i + length ys \<and> p (ys ! (k - i)) then length q + length (filter p (take (k - i) ys)) else o2n ! k))"
proof (induction ys arbitrary: i o2n q)
  case Nil
  then show ?case by simp
next
  case (Cons y ys)
  have e: "(k - i) = Suc (k - Suc i)" if "Suc i \<le> k" for k using that by simp
  show ?case
  proof (cases "p y")
    case True
    have "q' = (q @ [y]) @ filter p ys \<and> length o2n' = length (o2n[i := length q]) \<and>
       (\<forall>k<length (o2n[i := length q]). o2n' ! k =
      (if i + 1 \<le> k \<and> k < i + 1 + length ys \<and> p (ys ! (k - (i + 1)))
       then length (q @ [y]) + length (filter p (take (k - (i + 1)) ys)) else o2n[i := length q] ! k))"
      by (rule Cons.IH) (use Cons.prems True in simp_all)
    then show ?thesis using True Cons.prems(2) by (auto simp: e nth_list_update le_eq_less_or_eq Suc_le_eq)
  next
    case False
    have "q' = q @ filter p ys \<and> length o2n' = length o2n \<and>
       (\<forall>k<length o2n. o2n' ! k =
      (if i + 1 \<le> k \<and> k < i + 1 + length ys \<and> p (ys ! (k - (i + 1)))
       then length q + length (filter p (take (k - (i + 1)) ys)) else o2n ! k))"
      by (rule Cons.IH) (use Cons.prems False in simp_all)
    then show ?thesis using False Cons.prems(2) by (auto simp: e le_eq_less_or_eq Suc_le_eq)
  qed
qed

lemma filter_nth_take:
  "k < length ys \<Longrightarrow> p (ys ! k) \<Longrightarrow>
   length (filter p (take k ys)) < length (filter p ys) \<and> filter p ys ! length (filter p (take k ys)) = ys ! k"
proof (induction ys arbitrary: k)
  case (Cons y ys)
  then show ?case by (cases k) auto
qed simp

text \<open>C18: Sorting puts the local symbols first, keeps the order among the local and among the
  other ones, records the number of local ones, and every relocation still has its symbol, offset,
  type and addend.\<close>

theorem sort_syms_correct:
  assumes "sort_syms ys sh_size sh_info rels = (q, sh_info', rels')" "length ys < 2 ^ 32"
    "\<forall>rs\<in>set rels. \<forall>r\<in>set rs. R_SYM (r_info r) < length ys"
  shows "q = filter is_local ys @ filter (\<lambda>y. \<not> is_local y) ys \<and>
    (sh_size \<noteq> 0 \<longrightarrow> sh_info' = length (filter is_local ys)) \<and>
    list_all2 (list_all2 (\<lambda>r r'. q ! R_SYM (r_info r') = ys ! R_SYM (r_info r) \<and> R_TYPE (r_info r') = R_TYPE (r_info r) \<and>
      r_offset r' = r_offset r \<and> r_addend r' = r_addend r)) rels rels'"
proof -
  obtain o1 q1 where p1: "sort_pass is_local 0 ys (replicate (length ys) 0, []) = (o1, q1)" by fastforce
  obtain o2 q2 where p2: "sort_pass (\<lambda>y. \<not> is_local y) 0 ys (o1, q1) = (o2, q2)" by fastforce
  note s1 = sort_pass [OF p1] and s2 = sort_pass [OF p2]
  let ?n = "length ys"
  have q: "q = q2" "sh_info' = (if sh_size \<noteq> 0 then length q1 else sh_info)" "rels' = update_relocs o2 0 rels"
    using assms(1) p1 p2 by (auto simp: sort_syms_def)
  have q12: "q1 = filter is_local ys" "q2 = filter is_local ys @ filter (\<lambda>y. \<not> is_local y) ys" "length o1 = ?n" "length o2 = ?n"
    using s1 s2 by simp_all
  have f: "o2 ! k < ?n \<and> q2 ! (o2 ! k) = ys ! k" if k: "k < ?n" for k
  proof (cases "is_local (ys ! k)")
    case True
    then have "o2 ! k = length (filter is_local (take k ys))" using s1 s2 k by simp
    then show ?thesis
      using filter_nth_take [of k ys is_local] True k length_filter_le [of is_local ys]
      by (simp add: q12 nth_append less_le_trans del: length_filter_le)
  next
    case False
    then have "o2 ! k = length (filter is_local ys) + length (filter (\<lambda>y. \<not> is_local y) (take k ys))"
      using s1 s2 k by simp
    then show ?thesis
      using filter_nth_take [of k ys "\<lambda>y. \<not> is_local y"] False k sum_length_filter_compl [of is_local ys]
      by (simp add: q12 nth_append)
  qed
  have "list_all2 (\<lambda>r r'. q ! R_SYM (r_info r') = ys ! R_SYM (r_info r) \<and> R_TYPE (r_info r') = R_TYPE (r_info r) \<and>
      r_offset r' = r_offset r \<and> r_addend r' = r_addend r) rs (map (update_reloc o2 0) rs)" if "rs \<in> set rels" for rs
    unfolding list_all2_map2
  proof (rule list.rel_refl_strong)
    fix r assume "r \<in> set rs"
    then have k: "R_SYM (r_info r) < ?n" using assms(3) that by blast
    then have "o2 ! R_SYM (r_info r) < 2 ^ 32" using f assms(2) by fastforce
    then show "q ! R_SYM (r_info (update_reloc o2 0 r)) = ys ! R_SYM (r_info r) \<and>
       R_TYPE (r_info (update_reloc o2 0 r)) = R_TYPE (r_info r) \<and>
       r_offset (update_reloc o2 0 r) = r_offset r \<and> r_addend (update_reloc o2 0 r) = r_addend r"
      using f [OF k] by (simp add: update_reloc_def q(1))
  qed
  then have "list_all2 (list_all2 (\<lambda>r r'. q ! R_SYM (r_info r') = ys ! R_SYM (r_info r) \<and> R_TYPE (r_info r') = R_TYPE (r_info r) \<and>
      r_offset r' = r_offset r \<and> r_addend r' = r_addend r)) rels rels'"
    unfolding q(3) update_relocs_def by (subst list.rel_map(2)) (rule list.rel_refl_strong)
  then show ?thesis using q(1,2) q12 by simp
qed

section \<open>New tables and attributes\<close>

lemma init_symtab_ok: "symtab_ok (init_symtab dynsym)" "tb_hash (init_symtab dynsym) = Some [1, 1, 0, 0]"
  "sym_map (init_symtab dynsym) nm = None"
  by (simp_all add: symtab_ok_def hash_ok_def hash_upto_def bucket_syms_def init_symtab_def sym_map_def sym_find_def
      numeral_2_eq_2)

lemma attr_size: "0 < n \<Longrightarrow> ix < attr_size ix n \<and> n \<le> attr_size ix n"
proof (induction ix n rule: attr_size.induct)
  case (1 ix n)
  then show ?case by (cases "ix < n") (force simp: attr_size.simps [of ix n])+
qed

lemma get_sym_attr:
  assumes "get_sym_attr attrs ix alloc = (k, attrs')" "alloc \<or> ix < length attrs"
  shows "k = ix" "ix < length attrs'" "\<forall>j<length attrs. attrs' ! j = attrs ! j"
    "\<forall>j. length attrs \<le> j \<and> j < length attrs' \<longrightarrow> attrs' ! j = no_attr"
  using assms attr_size [of 1 ix] by (auto simp: get_sym_attr_def nth_append split: if_splits)

lemma bloom_size: "0 < b \<Longrightarrow> ndef < bloom_size ndef b * 8"
proof (induction ndef b rule: bloom_size.induct)
  case (1 ndef b)
  then show ?case by (cases "ndef < b * 8") (force simp: bloom_size.simps [of ndef b])+
qed

text \<open>An address is given out for the symbols that are defined, only.\<close>

lemma get_sym_addr:
  assumes "symtab_ok tb" "tb_hash tb = Some base"
  shows "get_sym_addr tb nm = Some (case sym_map tb nm of
      None \<Rightarrow> (- 1, True)
    | Some y \<Rightarrow> if st_shndx y = SHN_UNDEF then (- 1, True) else (st_value y, False))"
proof (cases "sym_find tb nm")
  case None
  then show ?thesis using find_elf_sym_eq [OF assms, of nm] by (simp add: get_sym_addr_def sym_map_def)
next
  case (Some i)
  then show ?thesis
    using find_elf_sym_eq [OF assms, of nm] sym_find_SomeD(1) [OF Some] by (simp add: get_sym_addr_def sym_map_def)
qed

section \<open>Examples\<close>

lemma find_elf_sym_correct_witness: "\<exists>i. find_elf_sym (init_symtab False) [97] = Some i \<and> i = 0"
  using find_elf_sym_correct [OF init_symtab_ok(1,2) [of False], of "[97]"] by (auto simp: init_symtab_def split: if_splits)

theorem set_elf_sym_refines_witness:
  "\<exists>i tb' err. set_elf_sym 4 (init_symtab False) 7 8 0x12 0 1 [97] = Some (i, tb', err) \<and>
     sym_map tb' [97] = Some \<lparr>st_name = 0, st_value = 7, st_size = 8, st_info = 0x12, st_other = 0, st_shndx = 1\<rparr>"
proof -
  have b: "ST_BIND 0x12 \<noteq> STB_LOCAL" "known_bind 0x12" by code_simp+
  have "0 \<notin> set [97 :: u8]" by simp
  note w = set_elf_sym_refines [OF init_symtab_ok(1,2) [of False] this, of 4 7 8 "0x12" 0 1]
  have "sym_map (init_symtab False) [97] = None" by code_simp
  then show ?thesis using w b by (auto simp: merge_def_def)
qed

text \<open>The rules on a few pairs: a global definition replaces a weak one, and two global ones in sections conflict.\<close>

lemma elf_merge_examples:
  "elf_merge 4 False \<lparr>st_name = 0, st_value = 7, st_size = 8, st_info = 0x22, st_other = 0, st_shndx = 1\<rparr>
     \<lparr>st_name = 0, st_value = 9, st_size = 8, st_info = 0x12, st_other = 0, st_shndx = 2\<rparr> =
     (\<lparr>st_name = 0, st_value = 9, st_size = 8, st_info = 0x12, st_other = 0, st_shndx = 2\<rparr>, False)"
  "snd (elf_merge 4 False \<lparr>st_name = 0, st_value = 7, st_size = 8, st_info = 0x12, st_other = 0, st_shndx = 1\<rparr>
     \<lparr>st_name = 0, st_value = 9, st_size = 8, st_info = 0x12, st_other = 0, st_shndx = 2\<rparr>)"
  by code_simp+

definition ex_syms :: "elf_sym list" where
  "ex_syms = map (\<lambda>(v, i). \<lparr>st_name = 0, st_value = v, st_size = 0, st_info = i, st_other = 0, st_shndx = 1\<rparr>)
     [(10, 0), (11, 0x10), (12, 0)]"

theorem sort_syms_correct_witness:
  "fst (sort_syms ex_syms 24 0 [[\<lparr>r_offset = 4, r_info = R_INFO 2 1, r_addend = 0\<rparr>]]) = [ex_syms ! 0, ex_syms ! 2, ex_syms ! 1] \<and>
   fst (snd (sort_syms ex_syms 24 0 [[\<lparr>r_offset = 4, r_info = R_INFO 2 1, r_addend = 0\<rparr>]])) = 2"
proof -
  let ?s = "sort_syms ex_syms 24 0 [[\<lparr>r_offset = 4, r_info = R_INFO 2 1, r_addend = 0\<rparr>]]"
  have s: "?s = (fst ?s, fst (snd ?s), snd (snd ?s))" by simp
  have l: "length ex_syms < 2 ^ 32" "\<forall>rs\<in>set [[\<lparr>r_offset = 4, r_info = R_INFO 2 1, r_addend = 0\<rparr>]]. \<forall>r\<in>set rs. R_SYM (r_info r) < length ex_syms"
    by (simp_all add: ex_syms_def)
  have f: "filter is_local ex_syms = [ex_syms ! 0, ex_syms ! 2]" "filter (\<lambda>y. \<not> is_local y) ex_syms = [ex_syms ! 1]"
    by code_simp+
  show ?thesis using sort_syms_correct [OF s l] by (simp add: f)
qed

end
