(* ===== verification/Le_Bytes.thy ===== *)
theory Le_Bytes
  imports Tcc_Prelude
begin

text \<open>
  Little-endian numbers in a buffer (\<open>tcc.h\<close>, \<open>read16le\<close> to \<open>add64le\<close>): reading after writing, and
  what writing leaves alone.
\<close>

unbundle bit_operations_syntax

definition read16le :: "u8 list \<Rightarrow> nat \<Rightarrow> u16" where
  "read16le bs p = ucast (bs ! p) OR push_bit 8 (ucast (bs ! (p + 1)))"

definition write16le :: "u8 list \<Rightarrow> nat \<Rightarrow> u16 \<Rightarrow> u8 list" where
  "write16le bs p x = bs[p := ucast (x AND 255), p + 1 := ucast (drop_bit 8 x AND 255)]"

definition read32le :: "u8 list \<Rightarrow> nat \<Rightarrow> u32" where
  "read32le bs p = ucast (read16le bs p) OR push_bit 16 (ucast (read16le bs (p + 2)))"

definition write32le :: "u8 list \<Rightarrow> nat \<Rightarrow> u32 \<Rightarrow> u8 list" where
  "write32le bs p x = write16le (write16le bs p (ucast x)) (p + 2) (ucast (drop_bit 16 x))"

definition add32le :: "u8 list \<Rightarrow> nat \<Rightarrow> u32 \<Rightarrow> u8 list" where
  "add32le bs p x = write32le bs p (read32le bs p + x)"

definition read64le :: "u8 list \<Rightarrow> nat \<Rightarrow> u64" where
  "read64le bs p = ucast (read32le bs p) OR push_bit 32 (ucast (read32le bs (p + 4)))"

definition write64le :: "u8 list \<Rightarrow> nat \<Rightarrow> u64 \<Rightarrow> u8 list" where
  "write64le bs p x = write32le (write32le bs p (ucast x)) (p + 4) (ucast (drop_bit 32 x))"

definition add64le :: "u8 list \<Rightarrow> nat \<Rightarrow> u64 \<Rightarrow> u8 list" where
  "add64le bs p x = write64le bs p (read64le bs p + x)"

section \<open>Length and frame\<close>

lemma length_write_le [simp]:
  "length (write16le bs p x) = length bs" "length (write32le bs p y) = length bs"
  "length (write64le bs p z) = length bs" "length (add32le bs p y) = length bs" "length (add64le bs p z) = length bs"
  by (simp_all add: write16le_def write32le_def write64le_def add32le_def add64le_def)

lemma write16le_other: "i < p \<or> p + 2 \<le> i \<Longrightarrow> write16le bs p x ! i = bs ! i"
  by (auto simp: write16le_def)

lemma write32le_other: "i < p \<or> p + 4 \<le> i \<Longrightarrow> write32le bs p x ! i = bs ! i"
  by (auto simp: write32le_def write16le_other)

lemma write64le_other: "i < p \<or> p + 8 \<le> i \<Longrightarrow> write64le bs p x ! i = bs ! i"
  by (auto simp: write64le_def write32le_other)

lemma add32le_other: "i < p \<or> p + 4 \<le> i \<Longrightarrow> add32le bs p x ! i = bs ! i"
  by (simp add: add32le_def write32le_other)

lemma add64le_other: "i < p \<or> p + 8 \<le> i \<Longrightarrow> add64le bs p x ! i = bs ! i"
  by (simp add: add64le_def write64le_other)

lemmas le_other = write16le_other write32le_other write64le_other add32le_other add64le_other

lemma read32le_cong: "(\<And>i. p \<le> i \<Longrightarrow> i < p + 4 \<Longrightarrow> bs ! i = cs ! i) \<Longrightarrow> read32le bs p = read32le cs p"
  by (simp add: read32le_def read16le_def)

lemma read64le_cong: "(\<And>i. p \<le> i \<Longrightarrow> i < p + 8 \<Longrightarrow> bs ! i = cs ! i) \<Longrightarrow> read64le bs p = read64le cs p"
  by (simp add: read64le_def read32le_def read16le_def)

section \<open>Reading what was written\<close>

lemma bytes16: "ucast (ucast (x AND 255) :: u8) OR push_bit 8 (ucast (ucast (drop_bit 8 x AND 255) :: u8)) = (x :: u16)"
proof (rule bit_word_eqI)
  fix n assume n: "n < LENGTH(16)"
  have m: "(255 :: u16) = mask 8" by (simp add: mask_eq_exp_minus_1)
  show "bit (ucast (ucast (x AND 255) :: u8) OR push_bit 8 (ucast (ucast (drop_bit 8 x AND 255) :: u8)) :: u16) n = bit x n"
    using n unfolding m by (auto simp: bit_simps not_less simp del: mask_numeral)
qed

lemma halves32: "ucast (ucast x :: u16) OR push_bit 16 (ucast (ucast (drop_bit 16 x) :: u16)) = (x :: u32)"
  by (rule bit_word_eqI) (auto simp: bit_simps not_less)

lemma halves64: "ucast (ucast x :: u32) OR push_bit 32 (ucast (ucast (drop_bit 32 x) :: u32)) = (x :: u64)"
  by (rule bit_word_eqI) (auto simp: bit_simps not_less)

lemma read16le_write [simp]: "p + 2 \<le> length bs \<Longrightarrow> read16le (write16le bs p x) p = x"
  by (simp add: read16le_def write16le_def bytes16)

lemma read16le_other: "q + 2 \<le> p \<or> p + 2 \<le> q \<Longrightarrow> read16le (write16le bs p x) q = read16le bs q"
  by (auto simp: read16le_def write16le_other)

lemma read32le_write [simp]: "p + 4 \<le> length bs \<Longrightarrow> read32le (write32le bs p x) p = x"
  by (simp add: read32le_def write32le_def read16le_other halves32)

lemma read32le_other: "q + 4 \<le> p \<or> p + 4 \<le> q \<Longrightarrow> read32le (write32le bs p x) q = read32le bs q"
  by (rule read32le_cong) (auto simp: write32le_other)

lemma read64le_write [simp]: "p + 8 \<le> length bs \<Longrightarrow> read64le (write64le bs p x) p = x"
  by (simp add: read64le_def write64le_def read32le_other halves64)

lemma read32le_add [simp]: "p + 4 \<le> length bs \<Longrightarrow> read32le (add32le bs p x) p = read32le bs p + x"
  by (simp add: add32le_def)

lemma read64le_add [simp]: "p + 8 \<le> length bs \<Longrightarrow> read64le (add64le bs p x) p = read64le bs p + x"
  by (simp add: add64le_def)

end
