(* ===== verification/X86_Link.thy ===== *)
theory X86_Link
  imports Elf_Symtab Le_Bytes
begin

text \<open>
  Linking for x86-64 (\<open>x86_64-link.c\<close>, and \<open>relocate_section\<close> of \<open>tccelf.c\<close>): what a relocation of each
  type does to the bytes of its section, the dynamic relocations that are left over, and the
  procedure linkage table. The result is compared with the formulas of the System V ABI.

  Addresses are 64-bit words and wrap around as in the code. Positions in buffers are numbers
  that the model does not bound.
\<close>

section \<open>Relocation types\<close>

abbreviation (input) R_X86_64_NONE :: u32 where "R_X86_64_NONE \<equiv> 0"
abbreviation (input) R_X86_64_64 :: u32 where "R_X86_64_64 \<equiv> 1"
abbreviation (input) R_X86_64_PC32 :: u32 where "R_X86_64_PC32 \<equiv> 2"
abbreviation (input) R_X86_64_GOT32 :: u32 where "R_X86_64_GOT32 \<equiv> 3"
abbreviation (input) R_X86_64_PLT32 :: u32 where "R_X86_64_PLT32 \<equiv> 4"
abbreviation (input) R_X86_64_COPY :: u32 where "R_X86_64_COPY \<equiv> 5"
abbreviation (input) R_X86_64_GLOB_DAT :: u32 where "R_X86_64_GLOB_DAT \<equiv> 6"
abbreviation (input) R_X86_64_JUMP_SLOT :: u32 where "R_X86_64_JUMP_SLOT \<equiv> 7"
abbreviation (input) R_X86_64_RELATIVE :: u32 where "R_X86_64_RELATIVE \<equiv> 8"
abbreviation (input) R_X86_64_GOTPCREL :: u32 where "R_X86_64_GOTPCREL \<equiv> 9"
abbreviation (input) R_X86_64_32 :: u32 where "R_X86_64_32 \<equiv> 10"
abbreviation (input) R_X86_64_32S :: u32 where "R_X86_64_32S \<equiv> 11"
abbreviation (input) R_X86_64_DTPOFF64 :: u32 where "R_X86_64_DTPOFF64 \<equiv> 17"
abbreviation (input) R_X86_64_TPOFF64 :: u32 where "R_X86_64_TPOFF64 \<equiv> 18"
abbreviation (input) R_X86_64_TLSGD :: u32 where "R_X86_64_TLSGD \<equiv> 19"
abbreviation (input) R_X86_64_TLSLD :: u32 where "R_X86_64_TLSLD \<equiv> 20"
abbreviation (input) R_X86_64_DTPOFF32 :: u32 where "R_X86_64_DTPOFF32 \<equiv> 21"
abbreviation (input) R_X86_64_GOTTPOFF :: u32 where "R_X86_64_GOTTPOFF \<equiv> 22"
abbreviation (input) R_X86_64_TPOFF32 :: u32 where "R_X86_64_TPOFF32 \<equiv> 23"
abbreviation (input) R_X86_64_PC64 :: u32 where "R_X86_64_PC64 \<equiv> 24"
abbreviation (input) R_X86_64_GOTOFF64 :: u32 where "R_X86_64_GOTOFF64 \<equiv> 25"
abbreviation (input) R_X86_64_GOTPC32 :: u32 where "R_X86_64_GOTPC32 \<equiv> 26"
abbreviation (input) R_X86_64_GOT64 :: u32 where "R_X86_64_GOT64 \<equiv> 27"
abbreviation (input) R_X86_64_GOTPC64 :: u32 where "R_X86_64_GOTPC64 \<equiv> 29"
abbreviation (input) R_X86_64_PLTOFF64 :: u32 where "R_X86_64_PLTOFF64 \<equiv> 31"
abbreviation (input) R_X86_64_GOTPCRELX :: u32 where "R_X86_64_GOTPCRELX \<equiv> 41"
abbreviation (input) R_X86_64_REX_GOTPCRELX :: u32 where "R_X86_64_REX_GOTPCRELX \<equiv> 42"

definition code_reloc :: "u32 \<Rightarrow> int" where
  "code_reloc t =
     (if t \<in> {R_X86_64_32, R_X86_64_32S, R_X86_64_64, R_X86_64_GOTPC32, R_X86_64_GOTPC64, R_X86_64_GOTPCREL,
              R_X86_64_GOTPCRELX, R_X86_64_REX_GOTPCRELX, R_X86_64_GOTTPOFF, R_X86_64_GOT32, R_X86_64_GOT64,
              R_X86_64_GLOB_DAT, R_X86_64_COPY, R_X86_64_RELATIVE, R_X86_64_GOTOFF64, R_X86_64_TLSGD,
              R_X86_64_TLSLD, R_X86_64_DTPOFF32, R_X86_64_TPOFF32, R_X86_64_DTPOFF64, R_X86_64_TPOFF64} then 0
      else if t \<in> {R_X86_64_PC32, R_X86_64_PC64, R_X86_64_PLT32, R_X86_64_PLTOFF64, R_X86_64_JUMP_SLOT} then 1
      else - 1)"

datatype gotplt_entry = NO_GOTPLT_ENTRY | BUILD_GOT_ONLY | AUTO_GOTPLT_ENTRY | ALWAYS_GOTPLT_ENTRY

definition gotplt_entry_type :: "u32 \<Rightarrow> gotplt_entry option" where
  "gotplt_entry_type t =
     (if t \<in> {R_X86_64_GLOB_DAT, R_X86_64_JUMP_SLOT, R_X86_64_COPY, R_X86_64_RELATIVE} then Some NO_GOTPLT_ENTRY
      else if t \<in> {R_X86_64_32, R_X86_64_32S, R_X86_64_64, R_X86_64_PC32, R_X86_64_PC64} then Some AUTO_GOTPLT_ENTRY
      else if t = R_X86_64_GOTTPOFF then Some BUILD_GOT_ONLY
      else if t \<in> {R_X86_64_GOT32, R_X86_64_GOT64, R_X86_64_GOTPC32, R_X86_64_GOTPC64, R_X86_64_GOTOFF64,
                   R_X86_64_GOTPCREL, R_X86_64_GOTPCRELX, R_X86_64_TLSGD, R_X86_64_TLSLD, R_X86_64_DTPOFF32,
                   R_X86_64_DTPOFF64, R_X86_64_REX_GOTPCRELX, R_X86_64_PLT32, R_X86_64_PLTOFF64} then Some ALWAYS_GOTPLT_ENTRY
      else if t \<in> {R_X86_64_TPOFF32, R_X86_64_TPOFF64} then Some NO_GOTPLT_ENTRY
      else None)"

section \<open>The state of relocating a section\<close>

text \<open>What does not change: \<open>le_pe\<close> is the build for Windows (\<open>TCC_TARGET_PE\<close>), \<open>le_got\<close> the address of
  the global offset table, \<open>le_stab\<close> address and size of the section of stabs, \<open>le_sections\<close> address
  and size of each section, \<open>le_dwarf\<close> the numbers \<open>dwlo\<close> and \<open>dwhi\<close>.\<close>

record link_env =
  le_pe :: bool
  le_output_type :: u32
  le_attrs :: "sym_attr list"
  le_got :: u64
  le_stab :: "(u64 \<times> u64) option"
  le_syms :: "elf_sym list"
  le_sections :: "(u64 \<times> u64) list"
  le_tls_end :: u64
  le_imagebase :: u64
  le_dwarf :: "u16 \<times> u16"

datatype reloc_error = Out_of_range32 | Out_of_range u32 | Bad_TLSGD | Bad_TLSLD | Unknown_type u32

text \<open>What changes: the bytes of the section, its relocations, which are overwritten from the front by
  those that are left for the dynamic linker (\<open>rs_q\<close> counts them, \<open>qrel\<close>), the errors, and whether the
  place behind the last relocation has been written.\<close>

record reloc_state =
  rs_data :: "u8 list"
  rs_rels :: "elf_rel list"
  rs_q :: nat
  rs_errors :: "reloc_error list"
  rs_over :: bool

abbreviation (input) TCC_OUTPUT_DYN :: u32 where "TCC_OUTPUT_DYN \<equiv> 4"
abbreviation (input) TCC_OUTPUT_DLL :: u32 where "TCC_OUTPUT_DLL \<equiv> 4"

definition is_dyn :: "link_env \<Rightarrow> bool" where
  "is_dyn env \<longleftrightarrow> le_output_type env AND TCC_OUTPUT_DYN \<noteq> 0"

definition attr_of :: "link_env \<Rightarrow> nat \<Rightarrow> sym_attr" where
  "attr_of env sym_index = (let (k, attrs) = get_sym_attr (le_attrs env) sym_index False in attrs ! k)"

definition put_qrel :: "elf_rel \<Rightarrow> reloc_state \<Rightarrow> reloc_state" where
  "put_qrel r st = st\<lparr>rs_rels := (rs_rels st)[rs_q st := r], rs_q := rs_q st + 1\<rparr>"

definition add32 :: "nat \<Rightarrow> u32 \<Rightarrow> reloc_state \<Rightarrow> reloc_state" where
  "add32 p x st = st\<lparr>rs_data := add32le (rs_data st) p x\<rparr>"

definition add64 :: "nat \<Rightarrow> u64 \<Rightarrow> reloc_state \<Rightarrow> reloc_state" where
  "add64 p x st = st\<lparr>rs_data := add64le (rs_data st) p x\<rparr>"

definition put_error :: "reloc_error \<Rightarrow> reloc_state \<Rightarrow> reloc_state" where
  "put_error e st = st\<lparr>rs_errors := rs_errors st @ [e]\<rparr>"

section \<open>One relocation\<close>

text \<open>In the definitions below \<open>rel\<close> is the relocation, \<open>p\<close> the position of the field in the section,
  \<open>addr\<close> its address, and \<open>val\<close> the value of the symbol plus the addend.\<close>

definition reloc_64 :: "link_env \<Rightarrow> elf_rel \<Rightarrow> nat \<Rightarrow> u64 \<Rightarrow> reloc_state \<Rightarrow> reloc_state" where
  "reloc_64 env rel p val st =
     (let esym_index = dyn_index (attr_of env (R_SYM (r_info rel))) in
      if is_dyn env \<and> esym_index \<noteq> 0 then
        put_qrel \<lparr>r_offset = r_offset rel, r_info = R_INFO esym_index R_X86_64_64, r_addend = r_addend rel\<rparr> st
      else
        add64 p val
          (if is_dyn env then
             put_qrel \<lparr>r_offset = r_offset rel, r_info = R_INFO 0 R_X86_64_RELATIVE,
                r_addend = read64le (rs_data st) p + val\<rparr> st
           else st))"

definition in_stab :: "link_env \<Rightarrow> u64 \<Rightarrow> bool" where
  "in_stab env addr \<longleftrightarrow> (case le_stab env of None \<Rightarrow> False | Some (a, n) \<Rightarrow> \<not> (addr < a \<or> addr \<ge> a + n))"

definition reloc_32 :: "link_env \<Rightarrow> elf_rel \<Rightarrow> u32 \<Rightarrow> nat \<Rightarrow> u64 \<Rightarrow> u64 \<Rightarrow> reloc_state \<Rightarrow> reloc_state" where
  "reloc_32 env rel t p addr val st =
     (let st = (if is_dyn env then
             put_qrel \<lparr>r_offset = r_offset rel, r_info = R_INFO 0 R_X86_64_RELATIVE,
                r_addend = scast (read32le (rs_data st) p) + val\<rparr> st
           else st);
          st = (if (if t = R_X86_64_32 then val \<noteq> ucast (ucast val :: u32) else val \<noteq> scast (ucast val :: u32))
                   \<and> \<not> in_stab env addr
                then put_error Out_of_range32 st else st)
      in add32 p (ucast val) st)"

definition plt32pc32 :: "link_env \<Rightarrow> elf_rel \<Rightarrow> u32 \<Rightarrow> nat \<Rightarrow> u64 \<Rightarrow> u64 \<Rightarrow> reloc_state \<Rightarrow> reloc_state" where
  "plt32pc32 env rel t p addr val st =
     (let diff = val - addr;
          st = (if (sint diff < - 2147483648 \<or> sint diff > 2147483647)
                   \<and> (le_pe env \<longrightarrow> st_shndx (le_syms env ! R_SYM (r_info rel)) \<noteq> SHN_UNDEF)
                then put_error (Out_of_range t) st else st)
      in add32 p (ucast diff) st)"

definition reloc_PC32 :: "link_env \<Rightarrow> elf_rel \<Rightarrow> u32 \<Rightarrow> nat \<Rightarrow> u64 \<Rightarrow> u64 \<Rightarrow> reloc_state \<Rightarrow> reloc_state" where
  "reloc_PC32 env rel t p addr val st =
     (let esym_index = dyn_index (attr_of env (R_SYM (r_info rel))) in
      if le_output_type env = TCC_OUTPUT_DLL \<and> esym_index \<noteq> 0 then
        put_qrel \<lparr>r_offset = r_offset rel, r_info = R_INFO esym_index R_X86_64_PC32,
          r_addend = scast (read32le (rs_data st) p) + r_addend rel\<rparr> st
      else plt32pc32 env rel t p addr val st)"

definition reloc_PC64 :: "link_env \<Rightarrow> elf_rel \<Rightarrow> nat \<Rightarrow> u64 \<Rightarrow> u64 \<Rightarrow> reloc_state \<Rightarrow> reloc_state" where
  "reloc_PC64 env rel p addr val st =
     (let esym_index = dyn_index (attr_of env (R_SYM (r_info rel))) in
      if le_output_type env = TCC_OUTPUT_DLL \<and> esym_index \<noteq> 0 then
        put_qrel \<lparr>r_offset = r_offset rel, r_info = R_INFO esym_index R_X86_64_PC64,
          r_addend = read64le (rs_data st) p + r_addend rel\<rparr> st
      else add64 p (val - addr) st)"

text \<open>Code for thread-local variables is replaced if it has the shape expected.\<close>

definition tlsgd_expect :: "u8 list" where
  "tlsgd_expect = [0x66, 0x48, 0x8d, 0x3d, 0, 0, 0, 0, 0x66, 0x66, 0x48, 0xe8, 0, 0, 0, 0]"

definition tlsgd_replace :: "u8 list" where
  "tlsgd_replace = [0x64, 0x48, 0x8b, 0x04, 0x25, 0, 0, 0, 0, 0x48, 0x8d, 0x80, 0, 0, 0, 0]"

definition tlsld_expect :: "u8 list" where
  "tlsld_expect = [0x48, 0x8d, 0x3d, 0, 0, 0, 0, 0xe8, 0, 0, 0, 0]"

definition tlsld_replace :: "u8 list" where
  "tlsld_replace = [0x66, 0x66, 0x66, 0x64, 0x48, 0x8b, 0x04, 0x25, 0, 0, 0, 0]"

definition bytes_at :: "u8 list \<Rightarrow> nat \<Rightarrow> nat \<Rightarrow> u8 list" where
  "bytes_at bs p n = take n (drop p bs)"

definition write_bytes :: "nat \<Rightarrow> u8 list \<Rightarrow> reloc_state \<Rightarrow> reloc_state" where
  "write_bytes p xs st = st\<lparr>rs_data := take p (rs_data st) @ xs @ drop (p + length xs) (rs_data st)\<rparr>"

text \<open>The relocation after the one at \<open>i\<close>, that of the call, is dropped. The code does not ask whether there
  is one.\<close>

definition drop_rel :: "nat \<Rightarrow> reloc_state \<Rightarrow> reloc_state" where
  "drop_rel i st =
     (if i + 1 < length (rs_rels st)
      then st\<lparr>rs_rels := (rs_rels st)[i + 1 := (rs_rels st ! (i + 1))\<lparr>r_info := R_INFO 0 R_X86_64_NONE\<rparr>]\<rparr>
      else st\<lparr>rs_over := True\<rparr>)"

definition tls_offset :: "link_env \<Rightarrow> elf_rel \<Rightarrow> u64 \<Rightarrow> u64" where
  "tls_offset env rel v =
     (let (sh_addr, data_offset) = le_sections env ! unat (st_shndx (le_syms env ! R_SYM (r_info rel)))
      in v - sh_addr - data_offset)"

definition reloc_TLSGD :: "link_env \<Rightarrow> elf_rel \<Rightarrow> nat \<Rightarrow> nat \<Rightarrow> reloc_state \<Rightarrow> reloc_state" where
  "reloc_TLSGD env rel i p st =
     (if bytes_at (rs_data st) (p - 4) 16 = tlsgd_expect then
        let x = tls_offset env rel (st_value (le_syms env ! R_SYM (r_info rel)))
        in add32 (p + 8) (ucast x) (drop_rel i (write_bytes (p - 4) tlsgd_replace st))
      else put_error Bad_TLSGD st)"

definition reloc_TLSLD :: "nat \<Rightarrow> nat \<Rightarrow> reloc_state \<Rightarrow> reloc_state" where
  "reloc_TLSLD i p st =
     (if bytes_at (rs_data st) (p - 3) 12 = tlsld_expect then drop_rel i (write_bytes (p - 3) tlsld_replace st)
      else put_error Bad_TLSLD st)"

definition reloc_TPOFF :: "link_env \<Rightarrow> elf_rel \<Rightarrow> u32 \<Rightarrow> nat \<Rightarrow> u64 \<Rightarrow> reloc_state \<Rightarrow> reloc_state" where
  "reloc_TPOFF env rel t p val st =
     (let x :: u32 = ucast (if le_tls_end env \<noteq> 0 then val - le_tls_end env else tls_offset env rel val)
      in if t = R_X86_64_DTPOFF64 \<or> t = R_X86_64_TPOFF64 then add64 p (scast x) st else add32 p x st)"

definition relocate :: "link_env \<Rightarrow> nat \<Rightarrow> u32 \<Rightarrow> nat \<Rightarrow> u64 \<Rightarrow> u64 \<Rightarrow> reloc_state \<Rightarrow> reloc_state" where
  "relocate env i t p addr val st =
     (let rel = rs_rels st ! i; got = le_got env; goff :: u64 = ucast (got_offset (attr_of env (R_SYM (r_info rel)))) in
      if t = R_X86_64_64 then reloc_64 env rel p val st
      else if t = R_X86_64_32 \<or> t = R_X86_64_32S then reloc_32 env rel t p addr val st
      else if t = R_X86_64_PC32 then reloc_PC32 env rel t p addr val st
      else if t = R_X86_64_PLT32 then plt32pc32 env rel t p addr val st
      else if t = R_X86_64_COPY then st
      else if t = R_X86_64_PLTOFF64 then add64 p (val - got + r_addend rel) st
      else if t = R_X86_64_PC64 then reloc_PC64 env rel p addr val st
      else if t = R_X86_64_GLOB_DAT \<or> t = R_X86_64_JUMP_SLOT then
        st\<lparr>rs_data := write64le (rs_data st) p (val - r_addend rel)\<rparr>
      else if t = R_X86_64_GOTPCREL \<or> t = R_X86_64_GOTPCRELX \<or> t = R_X86_64_REX_GOTPCRELX then
        add32 p (ucast (got - addr + goff - 4)) st
      else if t = R_X86_64_GOTPC32 then add32 p (ucast (got - addr + r_addend rel)) st
      else if t = R_X86_64_GOTPC64 then add64 p (got - addr + r_addend rel) st
      else if t = R_X86_64_GOTTPOFF then add32 p (ucast (val - got)) st
      else if t = R_X86_64_GOT32 then add32 p (ucast goff) st
      else if t = R_X86_64_GOT64 then add64 p goff st
      else if t = R_X86_64_GOTOFF64 then add64 p (val - got) st
      else if t = R_X86_64_TLSGD then reloc_TLSGD env rel i p st
      else if t = R_X86_64_TLSLD then reloc_TLSLD i p st
      else if t = R_X86_64_DTPOFF32 \<or> t = R_X86_64_TPOFF32 \<or> t = R_X86_64_DTPOFF64 \<or> t = R_X86_64_TPOFF64 then
        reloc_TPOFF env rel t p val st
      else if t = R_X86_64_NONE then st
      else if t = R_X86_64_RELATIVE then (if le_pe env then add32 p (ucast (val - le_imagebase env)) st else st)
      else put_error (Unknown_type t) st)"

section \<open>A section\<close>

definition in_dwarf :: "link_env \<Rightarrow> u16 \<Rightarrow> bool" where
  "in_dwarf env n \<longleftrightarrow> n \<ge> fst (le_dwarf env) \<and> n < snd (le_dwarf env)"

text \<open>One round of \<open>relocate_section\<close>, for a section with the number \<open>s_num\<close> and the address \<open>s_addr\<close> that
  has bytes.\<close>

definition relocate_step :: "link_env \<Rightarrow> u16 \<Rightarrow> u64 \<Rightarrow> nat \<Rightarrow> reloc_state \<Rightarrow> reloc_state" where
  "relocate_step env s_num s_addr i st =
     (let rel = rs_rels st ! i;
          p = unat (r_offset rel);
          y = le_syms env ! R_SYM (r_info rel);
          t = R_TYPE (r_info rel);
          tgt = st_value y + r_addend rel
      in if in_dwarf env s_num \<and> t = R_X86_64_32 \<and> in_dwarf env (st_shndx y) then
           add32 p (ucast (tgt - fst (le_sections env ! unat (st_shndx y)))) st
         else relocate env i t p (s_addr + r_offset rel) tgt st)"

definition relocate_rels :: "link_env \<Rightarrow> u16 \<Rightarrow> u64 \<Rightarrow> nat \<Rightarrow> reloc_state \<Rightarrow> reloc_state" where
  "relocate_rels env s_num s_addr n st = fold (relocate_step env s_num s_addr) [0..<n] st"

text \<open>The bytes (\<open>None\<close> for a section that has none), the relocations that remain, whether they now
  belong to the dynamic symbols, and the errors.\<close>

definition relocate_section ::
  "link_env \<Rightarrow> u16 \<Rightarrow> u64 \<Rightarrow> u8 list \<Rightarrow> u8 list option \<Rightarrow> elf_rel list \<Rightarrow> bool \<Rightarrow>
     u8 list option \<times> elf_rel list \<times> bool \<times> reloc_error list" where
  "relocate_section env s_num s_addr s_name data rels alloc =
     (let st = (case data of
            None \<Rightarrow> \<lparr>rs_data = [], rs_rels = rels, rs_q = 0, rs_errors = [], rs_over = False\<rparr>
          | Some bs \<Rightarrow> relocate_rels env s_num s_addr (length rels) \<lparr>rs_data = bs, rs_rels = rels, rs_q = 0, rs_errors = [], rs_over = False\<rparr>);
          r = (if s_name = [0x2e, 0x73, 0x74, 0x61, 0x62] then 0 else rs_q st)
      in (map_option (\<lambda>_. rs_data st) data,
          (if alloc \<and> is_dyn env then take r (rs_rels st) else rs_rels st), alloc, rs_errors st))"

section \<open>What a relocation may change\<close>

text \<open>How many bytes before and behind its offset a relocation may change.\<close>

definition reloc_field :: "u32 \<Rightarrow> nat \<times> nat" where
  "reloc_field t =
     (if t = R_X86_64_TLSGD then (4, 12)
      else if t = R_X86_64_TLSLD then (3, 9)
      else if t \<in> {R_X86_64_64, R_X86_64_PLTOFF64, R_X86_64_PC64, R_X86_64_GLOB_DAT, R_X86_64_JUMP_SLOT, R_X86_64_GOTPC64,
                   R_X86_64_GOT64, R_X86_64_GOTOFF64, R_X86_64_DTPOFF64, R_X86_64_TPOFF64} then (0, 8)
      else if t \<in> {R_X86_64_NONE, R_X86_64_COPY} then (0, 0)
      else (0, 4))"

definition dropped :: "elf_rel \<Rightarrow> elf_rel" where
  "dropped r = r\<lparr>r_info := R_INFO 0 R_X86_64_NONE\<rparr>"

definition data_frame :: "nat \<Rightarrow> nat \<Rightarrow> reloc_state \<Rightarrow> reloc_state \<Rightarrow> bool" where
  "data_frame lo hi st st' \<longleftrightarrow> length (rs_data st') = length (rs_data st) \<and>
     (\<forall>j. j < lo \<or> hi \<le> j \<longrightarrow> rs_data st' ! j = rs_data st ! j)"

definition rels_frame :: "nat \<Rightarrow> reloc_state \<Rightarrow> reloc_state \<Rightarrow> bool" where
  "rels_frame i st st' \<longleftrightarrow> length (rs_rels st') = length (rs_rels st) \<and>
     rs_q st \<le> rs_q st' \<and> rs_q st' \<le> Suc (rs_q st) \<and>
     (\<forall>k>i. k \<noteq> rs_q st \<longrightarrow> rs_rels st' ! k = rs_rels st ! k \<or> rs_rels st' ! k = dropped (rs_rels st ! k)) \<and>
     (rs_over st' \<longrightarrow> rs_over st \<or> length (rs_rels st) \<le> i + 1)"

lemmas reloc_ops = put_qrel_def add32_def add64_def put_error_def

lemmas reloc_arms = reloc_64_def reloc_32_def plt32pc32_def reloc_PC32_def reloc_PC64_def reloc_TPOFF_def Let_def

lemma drop_rel_nth:
  "rs_rels (drop_rel i st) ! k = rs_rels st ! k \<or> rs_rels (drop_rel i st) ! k = dropped (rs_rels st ! k)"
  by (cases "k = i + 1") (simp_all add: drop_rel_def dropped_def)

lemma rels_frame_drop_rel:
  "rs_rels st' = rs_rels st \<Longrightarrow> rs_q st' = rs_q st \<Longrightarrow> rs_over st' = rs_over st \<Longrightarrow> rels_frame i st (drop_rel i st')"
  using drop_rel_nth [of i st'] by (simp add: rels_frame_def) (simp add: drop_rel_def)

lemma tls_lengths: "length tlsgd_expect = 16" "length tlsgd_replace = 16" "length tlsld_expect = 12" "length tlsld_replace = 12"
  by (simp_all add: tlsgd_replace_def tlsgd_expect_def tlsld_replace_def tlsld_expect_def)

lemma tls_nonempty: "tlsgd_replace \<noteq> []" "tlsld_replace \<noteq> []"
  by (simp_all add: tlsgd_replace_def tlsld_replace_def)

lemma relocate_rels_frame: "rels_frame i st (relocate env i t p addr val st)"
proof -
  have ops: "rels_frame i st (put_error e st)" "rels_frame i st (add32 q x st') = rels_frame i st st'" for e q x st'
    by (simp_all add: rels_frame_def reloc_ops)
  have "rels_frame i st (drop_rel i (write_bytes q xs st))" for q xs
    by (rule rels_frame_drop_rel) (simp_all add: write_bytes_def)
  then have tls: "rels_frame i st (reloc_TLSGD env rel i p st)" "rels_frame i st (reloc_TLSLD i p st)" for rel
    by (simp_all add: reloc_TLSGD_def reloc_TLSLD_def Let_def ops)
  have "rels_frame i st (reloc_64 env rel p val st)" "rels_frame i st (reloc_32 env rel t p addr val st)"
    "rels_frame i st (reloc_PC32 env rel t p addr val st)" "rels_frame i st (plt32pc32 env rel t p addr val st)"
    "rels_frame i st (reloc_PC64 env rel p addr val st)" "rels_frame i st (reloc_TPOFF env rel t p val st)" for rel t
    by (simp_all add: reloc_arms) (auto simp: rels_frame_def reloc_ops)
  moreover have "rels_frame i st st" "rels_frame i st (add32 p x st)" "rels_frame i st (add64 p y st)"
    "rels_frame i st (put_error e st)" "rels_frame i st (st\<lparr>rs_data := d\<rparr>)" for x y e d
    by (simp_all add: rels_frame_def reloc_ops)
  ultimately show ?thesis using tls by (simp add: relocate_def Let_def)
qed

lemma write_bytes_frame:
  assumes "bytes_at (rs_data st) q (length xs) = ys" "length ys = length xs" "xs \<noteq> []"
  shows "data_frame q (q + length xs) st (write_bytes q xs st)"
proof -
  have "min (length xs) (length (rs_data st) - q) = length xs"
    using assms by (auto simp: bytes_at_def)
  then have "q + length xs \<le> length (rs_data st)" "q < length (rs_data st)"
    using assms(3) by (cases xs; auto simp: min_def split: if_splits)+
  then show ?thesis by (auto simp: data_frame_def write_bytes_def nth_append min_def)
qed

lemma relocate_data_frame:
  assumes "fst (reloc_field t) \<le> p"
  shows "data_frame (p - fst (reloc_field t)) (p + snd (reloc_field t)) st (relocate env i t p addr val st)"
proof -
  have add: "data_frame p (p + 4) st (add32 p x st)" "data_frame p (p + 8) st (add64 p y st)"
    "data_frame p (p + 8) st (st\<lparr>rs_data := write64le (rs_data st) p y\<rparr>)" "data_frame p (p + k) st st"
    "data_frame p (p + k) st (put_error e st)" for x y k e
    by (auto simp: data_frame_def reloc_ops le_other)
  have arms: "data_frame p (p + 8) st (reloc_64 env rel p val st)" "data_frame p (p + 4) st (reloc_32 env rel t p addr val st)"
    "data_frame p (p + 4) st (reloc_PC32 env rel t p addr val st)" "data_frame p (p + 4) st (plt32pc32 env rel t p addr val st)"
    "data_frame p (p + 8) st (reloc_PC64 env rel p addr val st)" for rel t
    by (simp_all add: reloc_arms) (auto simp: data_frame_def reloc_ops le_other)
  have tpoff: "t \<in> {R_X86_64_DTPOFF64, R_X86_64_TPOFF64} \<Longrightarrow> data_frame p (p + 8) st (reloc_TPOFF env rel t p val st)"
    "t \<notin> {R_X86_64_DTPOFF64, R_X86_64_TPOFF64} \<Longrightarrow> data_frame p (p + 4) st (reloc_TPOFF env rel t p val st)" for rel t
    using add by (simp_all add: reloc_TPOFF_def Let_def)
  have gd: "data_frame (p - 4) (p + 12) st (reloc_TLSGD env rel i p st)" if "4 \<le> p" for rel
  proof (cases "bytes_at (rs_data st) (p - 4) 16 = tlsgd_expect")
    case True
    have "data_frame (p - 4) (p - 4 + length tlsgd_replace) st (write_bytes (p - 4) tlsgd_replace st)"
      by (rule write_bytes_frame [where ys = tlsgd_expect]) (use True in \<open>simp_all add: tls_lengths tls_nonempty\<close>)
    moreover have "p - 4 + length tlsgd_replace = p + 12" using that by (simp add: tls_lengths)
    ultimately show ?thesis using True
      by (auto simp: reloc_TLSGD_def Let_def data_frame_def add32_def drop_rel_def le_other)
  qed (simp add: reloc_TLSGD_def data_frame_def put_error_def)
  have ld: "data_frame (p - 3) (p + 9) st (reloc_TLSLD i p st)" if "3 \<le> p"
  proof (cases "bytes_at (rs_data st) (p - 3) 12 = tlsld_expect")
    case True
    have "data_frame (p - 3) (p - 3 + length tlsld_replace) st (write_bytes (p - 3) tlsld_replace st)"
      by (rule write_bytes_frame [where ys = tlsld_expect]) (use True in \<open>simp_all add: tls_lengths tls_nonempty\<close>)
    moreover have "p - 3 + length tlsld_replace = p + 9" using that by (simp add: tls_lengths)
    ultimately show ?thesis using True
      by (auto simp: reloc_TLSLD_def data_frame_def drop_rel_def)
  qed (simp add: reloc_TLSLD_def data_frame_def put_error_def)
  have "t = R_X86_64_TLSGD \<Longrightarrow> 4 \<le> p" "t = R_X86_64_TLSLD \<Longrightarrow> 3 \<le> p"
    using assms by (simp_all add: reloc_field_def)
  then show ?thesis
    using add arms gd ld tpoff add(4) [of 0] by (simp add: relocate_def Let_def reloc_field_def)
qed

section \<open>Relocating in place\<close>

definition in_field :: "elf_rel \<Rightarrow> nat \<Rightarrow> bool" where
  "in_field r j \<longleftrightarrow> unat (r_offset r) - fst (reloc_field (R_TYPE (r_info r))) \<le> j \<and>
     j < unat (r_offset r) + snd (reloc_field (R_TYPE (r_info r)))"

text \<open>After \<open>i\<close> rounds: at most \<open>i\<close> relocations were written at the front, so those that are still to be
  handled are the original ones, or dropped ones; only fields changed.\<close>

definition rels_inv :: "u8 list \<Rightarrow> elf_rel list \<Rightarrow> nat \<Rightarrow> reloc_state \<Rightarrow> bool" where
  "rels_inv bs rels i st \<longleftrightarrow> rs_q st \<le> i \<and> length (rs_rels st) = length rels \<and> length (rs_data st) = length bs \<and>
     (rs_over st \<longrightarrow> length rels \<le> i) \<and>
     (\<forall>k. i \<le> k \<and> k < length rels \<longrightarrow> rs_rels st ! k = rels ! k \<or> rs_rels st ! k = dropped (rels ! k)) \<and>
     (\<forall>j. (\<forall>r\<in>set rels. \<not> in_field r j) \<longrightarrow> rs_data st ! j = bs ! j)"

lemma dropped_simps [simp]:
  "dropped (dropped r) = dropped r" "r_offset (dropped r) = r_offset r" "R_TYPE (r_info (dropped r)) = R_X86_64_NONE"
  by (simp_all add: dropped_def)

lemma reloc_field_none: "reloc_field R_X86_64_NONE = (0, 0)"
  by (simp add: reloc_field_def)

lemma relocate_step_frames:
  assumes "fst (reloc_field (R_TYPE (r_info (rs_rels st ! i)))) \<le> unat (r_offset (rs_rels st ! i))"
  shows "rels_frame i st (relocate_step env s_num s_addr i st)"
    "length (rs_data (relocate_step env s_num s_addr i st)) = length (rs_data st)"
    "\<not> in_field (rs_rels st ! i) j \<Longrightarrow> rs_data (relocate_step env s_num s_addr i st) ! j = rs_data st ! j"
proof -
  let ?t = "R_TYPE (r_info (rs_rels st ! i))" and ?p = "unat (r_offset (rs_rels st ! i))"
  have a: "rels_frame i st (add32 q x st)" "?t = R_X86_64_32 \<Longrightarrow> data_frame (?p - fst (reloc_field ?t)) (?p + snd (reloc_field ?t)) st (add32 ?p x st)"
    for q x by (auto simp: rels_frame_def data_frame_def add32_def le_other reloc_field_def)
  show "rels_frame i st (relocate_step env s_num s_addr i st)"
    using a(1) relocate_rels_frame by (simp add: relocate_step_def Let_def)
  have "data_frame (?p - fst (reloc_field ?t)) (?p + snd (reloc_field ?t)) st (relocate_step env s_num s_addr i st)"
    using a(2) relocate_data_frame [OF assms] by (simp add: relocate_step_def Let_def)
  then show "length (rs_data (relocate_step env s_num s_addr i st)) = length (rs_data st)"
    "\<not> in_field (rs_rels st ! i) j \<Longrightarrow> rs_data (relocate_step env s_num s_addr i st) ! j = rs_data st ! j"
    by (auto simp: data_frame_def in_field_def not_le not_less)
qed

lemma in_field_dropped: "\<not> in_field (dropped r) j"
  by (simp add: in_field_def reloc_field_def)

lemma relocate_step_inv:
  assumes "rels_inv bs rels i st" "i < length rels"
    "\<forall>r\<in>set rels. fst (reloc_field (R_TYPE (r_info r))) \<le> unat (r_offset r)"
  shows "rels_inv bs rels (Suc i) (relocate_step env s_num s_addr i st)"
proof -
  let ?r = "rs_rels st ! i" and ?st' = "relocate_step env s_num s_addr i st"
  have r: "?r = rels ! i \<or> ?r = dropped (rels ! i)" using assms(1,2) by (simp add: rels_inv_def)
  then have "fst (reloc_field (R_TYPE (r_info ?r))) \<le> unat (r_offset ?r)"
    using assms(2,3) by (elim disjE) (simp_all add: reloc_field_none)
  note f = relocate_step_frames [OF this]
  have q: "rs_q st \<le> i" using assms(1) by (simp add: rels_inv_def)
  have "rs_rels ?st' ! k = rels ! k \<or> rs_rels ?st' ! k = dropped (rels ! k)" if "Suc i \<le> k" "k < length rels" for k
  proof -
    have "rs_rels ?st' ! k = rs_rels st ! k \<or> rs_rels ?st' ! k = dropped (rs_rels st ! k)"
      using f(1) q that(1) by (auto simp: rels_frame_def)
    moreover have "rs_rels st ! k = rels ! k \<or> rs_rels st ! k = dropped (rels ! k)"
      using assms(1) that by (simp add: rels_inv_def)
    ultimately show ?thesis by auto
  qed
  moreover have "rs_data ?st' ! j = bs ! j" if "\<forall>r\<in>set rels. \<not> in_field r j" for j
  proof -
    have "\<not> in_field ?r j" using r that assms(2) in_field_dropped by auto
    then show ?thesis using f(3) assms(1) that by (simp add: rels_inv_def)
  qed
  moreover have "rs_q ?st' \<le> Suc i" using f(1) [of env s_num s_addr] q by (auto simp: rels_frame_def)
  moreover have "rs_over ?st' \<longrightarrow> length rels \<le> Suc i" using f(1) [of env s_num s_addr] assms(1) by (auto simp: rels_frame_def rels_inv_def)
  ultimately show ?thesis using f(1,2) assms(1) by (simp add: rels_inv_def rels_frame_def)
qed

lemma relocate_rels_inv:
  assumes "\<forall>r\<in>set rels. fst (reloc_field (R_TYPE (r_info r))) \<le> unat (r_offset r)" "n \<le> length rels"
  shows "rels_inv bs rels n (relocate_rels env s_num s_addr n \<lparr>rs_data = bs, rs_rels = rels, rs_q = 0, rs_errors = [], rs_over = False\<rparr>)"
  using assms(2)
proof (induction n)
  case 0
  then show ?case by (simp add: rels_inv_def relocate_rels_def)
next
  case (Suc n)
  then have "rels_inv bs rels n (relocate_rels env s_num s_addr n \<lparr>rs_data = bs, rs_rels = rels, rs_q = 0, rs_errors = [], rs_over = False\<rparr>)"
    by simp
  from relocate_step_inv [OF this _ assms(1)] Suc.prems show ?case by (simp add: relocate_rels_def)
qed

text \<open>C22: Relocating a section changes no byte outside the fields of its relocations. The relocations
  left for the dynamic linker overwrite the table from the front, but never one that is still to
  be handled: round \<open>i\<close> finds the relocation that was there at the start, unless the one before
  it has dropped it. Only the last relocation can write behind the table.\<close>

theorem relocate_section_frame:
  assumes "relocate_section env s_num s_addr s_name (Some bs) rels alloc = (Some bs', rels', dyn, errs)"
    "\<forall>r\<in>set rels. fst (reloc_field (R_TYPE (r_info r))) \<le> unat (r_offset r)"
  shows "length bs' = length bs \<and> (\<forall>j. (\<forall>r\<in>set rels. \<not> in_field r j) \<longrightarrow> bs' ! j = bs ! j) \<and>
    (\<forall>i<length rels. rs_rels (relocate_rels env s_num s_addr i \<lparr>rs_data = bs, rs_rels = rels, rs_q = 0, rs_errors = [], rs_over = False\<rparr>) ! i
       \<in> {rels ! i, dropped (rels ! i)} \<and>
     \<not> rs_over (relocate_rels env s_num s_addr i \<lparr>rs_data = bs, rs_rels = rels, rs_q = 0, rs_errors = [], rs_over = False\<rparr>))"
proof -
  let ?st = "\<lambda>i. relocate_rels env s_num s_addr i \<lparr>rs_data = bs, rs_rels = rels, rs_q = 0, rs_errors = [], rs_over = False\<rparr>"
  have inv: "rels_inv bs rels i (?st i)" if "i \<le> length rels" for i by (rule relocate_rels_inv [OF assms(2) that])
  have b: "bs' = rs_data (?st (length rels))"
    using assms(1) by (simp add: relocate_section_def Let_def)
  have "rs_rels (?st i) ! i \<in> {rels ! i, dropped (rels ! i)} \<and> \<not> rs_over (?st i)" if "i < length rels" for i
    using inv [of i] that by (auto simp: rels_inv_def)
  then show ?thesis using inv [OF order.refl] unfolding b by (simp add: rels_inv_def)
qed

section \<open>The formulas of the ABI\<close>

text \<open>The table of relocation types in the System V ABI for x86-64, with symbol \<open>S\<close>, addend \<open>A\<close>, place \<open>P\<close>,
  offset of the symbol in the global offset table \<open>G\<close>, address of that table, and the end \<open>TP\<close> of the
  thread-local block of the program, to which the thread pointer points. For the types that
  speak of an entry of the procedure linkage table, \<open>S\<close> is the address of the entry.\<close>

definition abi_types :: "u32 set" where
  "abi_types = {R_X86_64_64, R_X86_64_PC32, R_X86_64_GOT32, R_X86_64_PLT32, R_X86_64_GLOB_DAT, R_X86_64_JUMP_SLOT,
     R_X86_64_GOTPCREL, R_X86_64_32, R_X86_64_32S, R_X86_64_PC64, R_X86_64_GOTOFF64, R_X86_64_GOTPC32, R_X86_64_GOT64,
     R_X86_64_GOTPC64, R_X86_64_PLTOFF64, R_X86_64_GOTPCRELX, R_X86_64_REX_GOTPCRELX, R_X86_64_TPOFF32, R_X86_64_TPOFF64}"

definition abi_value :: "u32 \<Rightarrow> u64 \<Rightarrow> u64 \<Rightarrow> u64 \<Rightarrow> u64 \<Rightarrow> u64 \<Rightarrow> u64 \<Rightarrow> u64" where
  "abi_value t S A P G GOT TP =
     (if t \<in> {R_X86_64_64, R_X86_64_32, R_X86_64_32S} then S + A
      else if t \<in> {R_X86_64_PC32, R_X86_64_PC64, R_X86_64_PLT32} then S + A - P
      else if t \<in> {R_X86_64_GOT32, R_X86_64_GOT64} then G + A
      else if t \<in> {R_X86_64_GLOB_DAT, R_X86_64_JUMP_SLOT} then S
      else if t \<in> {R_X86_64_GOTPCREL, R_X86_64_GOTPCRELX, R_X86_64_REX_GOTPCRELX} then G + GOT + A - P
      else if t \<in> {R_X86_64_GOTPC32, R_X86_64_GOTPC64} then GOT + A - P
      else if t \<in> {R_X86_64_TPOFF32, R_X86_64_TPOFF64} then S + A - TP
      else if t = R_X86_64_GOTOFF64 then S + A - GOT
      else S - GOT + A)"

text \<open>Where the code departs from the table: some types do not read the addend, and one counts it twice.\<close>

definition addend_fault :: "u32 \<Rightarrow> u64 \<Rightarrow> u64" where
  "addend_fault t A =
     (if t \<in> {R_X86_64_GOTPCREL, R_X86_64_GOTPCRELX, R_X86_64_REX_GOTPCRELX} then - 4 - A
      else if t \<in> {R_X86_64_GOT32, R_X86_64_GOT64} then - A
      else if t = R_X86_64_PLTOFF64 then A
      else 0)"

lemma addend_fault_0:
  "addend_fault t A = 0 \<longleftrightarrow>
     (t \<in> {R_X86_64_GOTPCREL, R_X86_64_GOTPCRELX, R_X86_64_REX_GOTPCRELX} \<longrightarrow> A = - 4) \<and>
     (t \<in> {R_X86_64_GOT32, R_X86_64_GOT64, R_X86_64_PLTOFF64} \<longrightarrow> A = 0)"
  by (auto simp: addend_fault_def eq_neg_iff_add_eq_0)

definition field64 :: "u32 \<Rightarrow> bool" where
  "field64 t \<longleftrightarrow> snd (reloc_field t) = 8"

text \<open>A field as a number: types of 32 bits are extended with the sign, except \<open>R_X86_64_32\<close>.\<close>

definition field_value :: "u32 \<Rightarrow> u8 list \<Rightarrow> nat \<Rightarrow> u64" where
  "field_value t bs p =
     (if field64 t then read64le bs p
      else if t = R_X86_64_32 then ucast (read32le bs p) else scast (read32le bs p))"

text \<open>The values that a field can hold. The code computes \<open>R_X86_64_TPOFF64\<close> in 32 bits as well.\<close>

definition representable :: "u32 \<Rightarrow> u64 \<Rightarrow> bool" where
  "representable t v \<longleftrightarrow>
     (if field64 t \<and> t \<noteq> R_X86_64_TPOFF64 then True else if t = R_X86_64_32 then v = ucast (ucast v :: u32) else v = scast (ucast v :: u32))"

lemma sint_scast_u32: "sint (scast x :: u64) = sint (x :: u32)"
  unfolding signed_scast_eq by (simp add: sint_uint signed_take_bit_signed_take_bit)

lemma ucast_scast_0: "ucast x = (0 :: u64) \<Longrightarrow> x = (0 :: u32)" "scast y = (0 :: u64) \<Longrightarrow> y = (0 :: u32)"
proof -
  assume "ucast x = (0 :: u64)"
  then have "unat (ucast x :: u64) = 0" by simp
  moreover have "unat (ucast x :: u64) = unat x" using unsigned_less [of x] by (simp add: unsigned_ucast_eq take_bit_nat_eq_self)
  ultimately show "x = 0" by (simp only: unsigned_eq_0_iff)
next
  assume "scast y = (0 :: u64)"
  then show "y = 0" by (metis sint_scast_u32 signed_0 signed_word_eqI)
qed

lemma fits32s: "v = scast (ucast v :: u32) \<longleftrightarrow> - 2147483648 \<le> sint v \<and> sint v \<le> 2147483647" for v :: u64
proof -
  have "v = scast (ucast v :: u32) \<longleftrightarrow> sint v = sint (ucast v :: u32)"
    by (metis sint_scast_u32 signed_word_eqI)
  also have "sint (ucast v :: u32) = signed_take_bit 31 (sint v)"
    unfolding signed_ucast_eq by (simp add: sint_uint signed_take_bit_signed_take_bit)
  also have "sint v = signed_take_bit 31 (sint v) \<longleftrightarrow> - 2147483648 \<le> sint v \<and> sint v \<le> 2147483647"
    using signed_take_bit_int_eq_self_iff [of 31 "sint v"] by auto
  finally show ?thesis .
qed

lemma not_dyn_dll: "\<not> is_dyn env \<Longrightarrow> le_output_type env \<noteq> TCC_OUTPUT_DLL"
  by (auto simp: is_dyn_def)

text \<open>What is added to the field, or written over it, in an output that is not dynamic.\<close>

lemma relocate_field64:
  assumes "\<not> is_dyn env" "p + 8 \<le> length (rs_data st)" "read64le (rs_data st) p = 0"
    "t \<in> {R_X86_64_64, R_X86_64_GLOB_DAT, R_X86_64_JUMP_SLOT, R_X86_64_PC64, R_X86_64_GOTOFF64,
      R_X86_64_GOT64, R_X86_64_GOTPC64, R_X86_64_PLTOFF64, R_X86_64_TPOFF64}" "t = R_X86_64_TPOFF64 \<Longrightarrow> le_tls_end env \<noteq> 0"
  shows "read64le (rs_data (relocate env i t p P v st)) p =
      (let A = r_addend (rs_rels st ! i) in
       if t = R_X86_64_64 then v else if t \<in> {R_X86_64_GLOB_DAT, R_X86_64_JUMP_SLOT} then v - A
       else if t = R_X86_64_PC64 then v - P else if t = R_X86_64_GOTOFF64 then v - le_got env
       else if t = R_X86_64_GOT64 then ucast (got_offset (attr_of env (R_SYM (r_info (rs_rels st ! i)))))
       else if t = R_X86_64_GOTPC64 then le_got env - P + A
       else if t = R_X86_64_TPOFF64 then scast (ucast (v - le_tls_end env) :: u32) else v - le_got env + A)"
    "rs_errors (relocate env i t p P v st) = rs_errors st"
proof -
  note dll = not_dyn_dll [OF assms(1)]
  have "relocate env i t p P v st = (let rel = rs_rels st ! i in
      if t \<in> {R_X86_64_GLOB_DAT, R_X86_64_JUMP_SLOT} then st\<lparr>rs_data := write64le (rs_data st) p (v - r_addend rel)\<rparr>
      else add64 p (if t = R_X86_64_64 then v else if t = R_X86_64_PC64 then v - P else if t = R_X86_64_GOTOFF64 then v - le_got env
        else if t = R_X86_64_GOT64 then ucast (got_offset (attr_of env (R_SYM (r_info rel))))
        else if t = R_X86_64_GOTPC64 then le_got env - P + r_addend rel
        else if t = R_X86_64_TPOFF64 then scast (ucast (v - le_tls_end env) :: u32) else v - le_got env + r_addend rel) st)"
    using assms(1,4,5) dll by (elim insertE emptyE) (simp_all add: relocate_def reloc_64_def reloc_PC64_def reloc_TPOFF_def Let_def)
  then show "read64le (rs_data (relocate env i t p P v st)) p =
      (let A = r_addend (rs_rels st ! i) in
       if t = R_X86_64_64 then v else if t \<in> {R_X86_64_GLOB_DAT, R_X86_64_JUMP_SLOT} then v - A
       else if t = R_X86_64_PC64 then v - P else if t = R_X86_64_GOTOFF64 then v - le_got env
       else if t = R_X86_64_GOT64 then ucast (got_offset (attr_of env (R_SYM (r_info (rs_rels st ! i)))))
       else if t = R_X86_64_GOTPC64 then le_got env - P + A
       else if t = R_X86_64_TPOFF64 then scast (ucast (v - le_tls_end env) :: u32) else v - le_got env + A)"
    "rs_errors (relocate env i t p P v st) = rs_errors st"
    using assms(2-4) by (simp_all add: Let_def add64_def)
qed

lemma relocate_field32:
  assumes "\<not> is_dyn env" "p + 4 \<le> length (rs_data st)"
    "t \<in> {R_X86_64_PC32, R_X86_64_PLT32, R_X86_64_32, R_X86_64_32S, R_X86_64_GOT32, R_X86_64_GOTPC32,
      R_X86_64_GOTPCREL, R_X86_64_GOTPCRELX, R_X86_64_REX_GOTPCRELX, R_X86_64_TPOFF32}"
    "t = R_X86_64_TPOFF32 \<Longrightarrow> le_tls_end env \<noteq> 0"
    "G = ucast (got_offset (attr_of env (R_SYM (r_info (rs_rels st ! i)))))"
  shows "read32le (rs_data (relocate env i t p P v st)) p = read32le (rs_data st) p +
      ucast (if t \<in> {R_X86_64_32, R_X86_64_32S} then v else if t \<in> {R_X86_64_PC32, R_X86_64_PLT32} then v - P
       else if t = R_X86_64_GOT32 then G else if t = R_X86_64_GOTPC32 then le_got env - P + r_addend (rs_rels st ! i)
       else if t = R_X86_64_TPOFF32 then v - le_tls_end env
       else le_got env - P + G - 4)"
proof -
  note dll = not_dyn_dll [OF assms(1)]
  have e: "rs_data (if c then put_error x st else st) = rs_data st" for c x by (simp add: put_error_def)
  show ?thesis
    using assms dll by (elim insertE emptyE)
      (simp_all add: relocate_def reloc_32_def reloc_PC32_def plt32pc32_def reloc_TPOFF_def Let_def add32_def e)
qed

lemma relocate_errors32:
  assumes "\<not> is_dyn env"
    "t \<in> {R_X86_64_PC32, R_X86_64_PLT32, R_X86_64_32, R_X86_64_32S, R_X86_64_GOT32, R_X86_64_GOTPC32,
      R_X86_64_GOTPCREL, R_X86_64_GOTPCRELX, R_X86_64_REX_GOTPCRELX, R_X86_64_TPOFF32}"
  shows "rs_errors (relocate env i t p P v st) = rs_errors st @
    (if t \<in> {R_X86_64_32, R_X86_64_32S} \<and> \<not> representable t v \<and> \<not> in_stab env P then [Out_of_range32]
     else if t \<in> {R_X86_64_PC32, R_X86_64_PLT32} \<and> \<not> representable t (v - P) \<and>
         (le_pe env \<longrightarrow> st_shndx (le_syms env ! R_SYM (r_info (rs_rels st ! i))) \<noteq> SHN_UNDEF) then [Out_of_range t]
     else [])"
proof -
  note dll = not_dyn_dll [OF assms(1)]
  have r: "(sint w < - 2147483648 \<or> 2147483647 < sint w) \<longleftrightarrow> w \<noteq> scast (ucast w :: u32)" for w :: u64
    using fits32s [of w] by auto
  show ?thesis
    using assms dll by (elim insertE emptyE)
      (simp_all add: relocate_def reloc_32_def reloc_PC32_def plt32pc32_def reloc_TPOFF_def Let_def add32_def put_error_def r
        representable_def field64_def reloc_field_def)
qed

text \<open>C20: What the relocation types \<open>abi_types\<close> write in an output that is not dynamic: the value that the ABI
  prescribes plus \<open>addend_fault\<close>, if that fits into the field, and no error. The fault is 0, so the value is the
  ABI's, for every addend and all types of the set but six: \<open>GOTPCREL\<close>, \<open>GOTPCRELX\<close> and \<open>REX_GOTPCRELX\<close>
  take -4 for the addend, whatever it is, \<open>GOT32\<close> and \<open>GOT64\<close> take 0, and \<open>PLTOFF64\<close> counts it twice. The field has
  to hold 0 before, as it does where addends are kept apart. For \<open>TPOFF32\<close> and \<open>TPOFF64\<close> the end of the
  thread-local block must be known. Not in the set: \<open>COPY\<close> and \<open>RELATIVE\<close>, which are for the dynamic
  linker and write nothing; \<open>TLSGD\<close> and \<open>TLSLD\<close>, which replace code (\<open>tlsgd_replaces\<close>), with \<open>DTPOFF32\<close> and
  \<open>DTPOFF64\<close>, which write an offset for the code so replaced (\<open>dtpoff_as_tpoff\<close>); and \<open>GOTTPOFF\<close>, whose value is not the
  ABI's (\<open>gottpoff_not_abi\<close>).\<close>

theorem relocate_abi:
  assumes "t \<in> abi_types" "\<not> is_dyn env" "p + snd (reloc_field t) \<le> length (rs_data st)"
    "field_value t (rs_data st) p = 0" "A = r_addend (rs_rels st ! i)"
    "G = ucast (got_offset (attr_of env (R_SYM (r_info (rs_rels st ! i)))))"
    "t \<in> {R_X86_64_TPOFF32, R_X86_64_TPOFF64} \<Longrightarrow> TP = le_tls_end env \<and> TP \<noteq> 0"
    "v = abi_value t S A P G (le_got env) TP + addend_fault t A" "representable t v"
  shows "field_value t (rs_data (relocate env i t p P (S + A) st)) p = v \<and>
    rs_errors (relocate env i t p P (S + A) st) = rs_errors st"
proof (cases "field64 t")
  case True
  then have t: "t \<in> {R_X86_64_64, R_X86_64_GLOB_DAT, R_X86_64_JUMP_SLOT, R_X86_64_PC64, R_X86_64_GOTOFF64,
      R_X86_64_GOT64, R_X86_64_GOTPC64, R_X86_64_PLTOFF64, R_X86_64_TPOFF64}"
    using assms(1) by (auto simp: abi_types_def field64_def reloc_field_def)
  have "p + 8 \<le> length (rs_data st)" "read64le (rs_data st) p = 0"
    using assms(3,4) True by (simp_all add: field64_def field_value_def)
  note r = relocate_field64 [OF assms(2) this t, of i P "S + A"]
  have tp: "t = R_X86_64_TPOFF64 \<Longrightarrow> TP = le_tls_end env" "t = R_X86_64_TPOFF64 \<Longrightarrow> le_tls_end env \<noteq> 0" using assms(7) by auto
  then have "read64le (rs_data (relocate env i t p P (S + A) st)) p = v"
    using t r(1) assms(5,6,8,9) True by (elim insertE emptyE) (simp_all add: abi_value_def addend_fault_def representable_def)
  then show ?thesis using r(2) tp(2) True by (simp add: field_value_def)
next
  case False
  have r: "p + 4 \<le> length (rs_data st)" "read32le (rs_data st) p = 0"
    using assms(1,3,4) False by (auto simp: field_value_def ucast_scast_0 field64_def reloc_field_def abi_types_def split: if_splits)
  have t: "t \<in> {R_X86_64_PC32, R_X86_64_PLT32, R_X86_64_32, R_X86_64_32S, R_X86_64_GOT32, R_X86_64_GOTPC32,
      R_X86_64_GOTPCREL, R_X86_64_GOTPCRELX, R_X86_64_REX_GOTPCRELX, R_X86_64_TPOFF32}"
    using assms(1) False by (auto simp: abi_types_def field64_def reloc_field_def)
  have tp: "t = R_X86_64_TPOFF32 \<Longrightarrow> TP = le_tls_end env" "t = R_X86_64_TPOFF32 \<Longrightarrow> le_tls_end env \<noteq> 0" using assms(7) by auto
  have g: "le_got env + G - P - 4 = G + (le_got env - 4) - P" by (simp add: algebra_simps)
  have f: "read32le (rs_data (relocate env i t p P (S + A) st)) p = ucast v"
    using relocate_field32 [OF assms(2) r(1) t tp(2) assms(6), of P "S + A"] t r(2) assms(5,8) g tp(1)
    by (elim insertE emptyE) (simp_all add: abi_value_def addend_fault_def diff_add_eq)
  have rep: "t = R_X86_64_32 \<Longrightarrow> ucast (ucast v :: u32) = v" "t \<noteq> R_X86_64_32 \<Longrightarrow> scast (ucast v :: u32) = v"
    using assms(9) False by (simp_all add: representable_def)
  have "rs_errors (relocate env i t p P (S + A) st) = rs_errors st"
    using relocate_errors32 [OF assms(2) t, of i p P "S + A" st] assms(8,9) t
    by (elim insertE emptyE) (simp_all add: abi_value_def addend_fault_def)
  moreover have "field_value t (rs_data (relocate env i t p P (S + A) st)) p = v"
    unfolding field_value_def f using rep False by (simp split: if_split)
  ultimately show ?thesis by simp
qed

text \<open>A relocation of a shared library that is left to the dynamic linker.\<close>

definition left_to_loader :: "link_env \<Rightarrow> u32 \<Rightarrow> elf_rel \<Rightarrow> bool" where
  "left_to_loader env t rel \<longleftrightarrow> t = R_X86_64_PC32 \<and> le_output_type env = TCC_OUTPUT_DLL \<and>
     dyn_index (attr_of env (R_SYM (r_info rel))) \<noteq> 0"

text \<open>C21: All errors of a relocation, for every type and output. The range is checked for \<open>R_X86_64_32\<close>,
  \<open>R_X86_64_32S\<close>, \<open>R_X86_64_PC32\<close> and \<open>R_X86_64_PLT32\<close> only: an error is reported exactly for a value of these that does not
  fit, except for the first two in the section of stabs, for \<open>PC32\<close> if it is left to the dynamic
  linker, and for the last two in a build for Windows if the symbol is undefined. No other type
  is ever checked, those of 32 bits \<open>GOTPCREL\<close>, \<open>GOTPCRELX\<close>, \<open>REX_GOTPCRELX\<close>, \<open>GOTPC32\<close>, \<open>GOTTPOFF\<close>, \<open>GOT32\<close>, \<open>TPOFF32\<close> and
  \<open>DTPOFF32\<close> included. The other errors are for code to replace that has not the shape expected,
  and for unknown types.\<close>

theorem relocate_range_error:
  "rs_errors (relocate env i t p P (S + A) st) = rs_errors st @
    (let rel = rs_rels st ! i; fits = representable t (abi_value t S A P G GOT TP) in
     if t \<in> {R_X86_64_32, R_X86_64_32S} then (if fits \<or> in_stab env P then [] else [Out_of_range32])
     else if t \<in> {R_X86_64_PC32, R_X86_64_PLT32} then
       (if fits \<or> left_to_loader env t rel \<or> (le_pe env \<and> st_shndx (le_syms env ! R_SYM (r_info rel)) = SHN_UNDEF) then []
        else [Out_of_range t])
     else if t = R_X86_64_TLSGD then (if bytes_at (rs_data st) (p - 4) 16 = tlsgd_expect then [] else [Bad_TLSGD])
     else if t = R_X86_64_TLSLD then (if bytes_at (rs_data st) (p - 3) 12 = tlsld_expect then [] else [Bad_TLSLD])
     else if t \<noteq> R_X86_64_NONE \<and> code_reloc t = - 1 then [Unknown_type t]
     else [])"
proof -
  have r: "(sint w < - 2147483648 \<or> 2147483647 < sint w) \<longleftrightarrow> w \<noteq> scast (ucast w :: u32)" for w :: u64
    using fits32s [of w] by auto
  have e: "rs_errors (add32 q x st) = rs_errors st" "rs_errors (add64 q y st) = rs_errors st"
    "rs_errors (put_qrel l st) = rs_errors st" "rs_errors (put_error er st) = rs_errors st @ [er]"
    "rs_errors (drop_rel i st) = rs_errors st" "rs_errors (write_bytes q xs st) = rs_errors st" for q x y l er xs st
    by (simp_all add: reloc_ops drop_rel_def write_bytes_def)
  consider "t \<in> {R_X86_64_32, R_X86_64_32S}" | "t = R_X86_64_PC32" | "t = R_X86_64_PLT32" | "t \<in> {R_X86_64_TLSGD, R_X86_64_TLSLD}"
    | "t \<notin> {R_X86_64_32, R_X86_64_32S, R_X86_64_PC32, R_X86_64_PLT32, R_X86_64_TLSGD, R_X86_64_TLSLD}"
    by blast
  then show ?thesis
  proof cases
    case 1
    then show ?thesis
      by (elim insertE emptyE) (simp_all add: relocate_def reloc_32_def e Let_def representable_def field64_def reloc_field_def abi_value_def)
  next
    case 2
    then show ?thesis
      by (simp add: relocate_def reloc_PC32_def plt32pc32_def e r Let_def left_to_loader_def representable_def field64_def reloc_field_def abi_value_def)
  next
    case 3
    then show ?thesis
      by (simp add: relocate_def plt32pc32_def e r Let_def left_to_loader_def representable_def field64_def reloc_field_def abi_value_def)
  next
    case 4
    then show ?thesis
      by (elim insertE emptyE) (simp_all add: relocate_def reloc_TLSGD_def reloc_TLSLD_def e Let_def)
  next
    case 5
    then show ?thesis
      by (auto simp: relocate_def reloc_64_def reloc_PC64_def reloc_TPOFF_def e Let_def code_reloc_def)
  qed
qed

section \<open>The procedure linkage table\<close>

text \<open>\<open>create_plt_entry\<close>, in two parts: the entry in front of all others, and the new one. \<open>relofs\<close> is the
  size of the relocations of the table, 0 if there are none.\<close>

definition write_at :: "nat \<Rightarrow> u8 \<Rightarrow> sect \<Rightarrow> sect" where
  "write_at p b sec = sec\<lparr>se_data := (se_data sec)[p := b]\<rparr>"

definition write32_at :: "nat \<Rightarrow> u32 \<Rightarrow> sect \<Rightarrow> sect" where
  "write32_at p x sec = sec\<lparr>se_data := write32le (se_data sec) p x\<rparr>"

definition put_plt0 :: "sect \<Rightarrow> sect option" where
  "put_plt0 plt =
     do {
       (p, plt) \<leftarrow> section_ptr_add plt 16;
       let modrm = 0x25;
       Some (write32_at (p + 8) 16 (write_at (p + 7) modrm (write_at (p + 6) 0xff
         (write32_at (p + 2) 8 (write_at (p + 1) (modrm + 0x10) (write_at p 0xff plt))))))
     }"

definition create_plt_entry :: "sect \<Rightarrow> u32 \<Rightarrow> nat \<Rightarrow> (nat \<times> sect) option" where
  "create_plt_entry plt got_ofs relofs =
     do {
       plt \<leftarrow> (if se_offset plt = 0 then put_plt0 plt else Some plt);
       let plt_ofs = se_offset plt;
       (p, plt) \<leftarrow> section_ptr_add plt 16;
       let modrm = 0x25;
       let plt = write32_at (p + 2) got_ofs (write_at (p + 1) modrm (write_at p 0xff plt));
       let plt = write32_at (p + 7) (of_nat (relofs div 24) - 1) (write_at (p + 6) 0x68 plt);
       let plt = write32_at (p + 12) (- of_nat (se_offset plt)) (write_at (p + 11) 0xe9 plt);
       Some (plt_ofs, plt)
     }"

text \<open>\<open>relocate_plt\<close>: the loop over the entries, and the first values of the global offset table, which
  point behind the jump of each entry.\<close>

function plt_loop :: "nat \<Rightarrow> nat \<Rightarrow> u32 \<Rightarrow> u8 list \<Rightarrow> u8 list" where
  "plt_loop p p_end x bs =
     (if p < p_end then plt_loop (p + 16) p_end x (add32le bs (p + 2) (x - of_nat p)) else bs)"
  by auto
termination
  by (relation "measure (\<lambda>(p, p_end, x, bs). p_end - p)") auto

declare plt_loop.simps [simp del]

fun got_loop :: "u32 \<Rightarrow> elf_rel list \<Rightarrow> u8 list \<Rightarrow> u8 list" where
  "got_loop x [] got = got"
| "got_loop x (rel # rels) got = got_loop (x + 16) rels (write64le got (unat (r_offset rel)) (scast x))"

definition relocate_plt ::
  "u8 list \<Rightarrow> nat \<Rightarrow> u64 \<Rightarrow> u64 \<Rightarrow> elf_rel list option \<Rightarrow> u8 list \<Rightarrow> u8 list \<times> u8 list" where
  "relocate_plt plt plt_ofs plt_addr got_addr plt_rels got =
     (let plt = (if 0 < plt_ofs then
            let x = ucast (got_addr - plt_addr - 6); plt = add32le plt 2 x; plt = add32le plt 8 (x - 6)
            in plt_loop 16 plt_ofs x plt
          else plt)
      in (plt, case plt_rels of None \<Rightarrow> got | Some rels \<Rightarrow> got_loop (ucast (plt_addr + 16 + 6)) rels got))"

text \<open>An entry before the addresses are known.\<close>

definition slot_raw :: "u8 list \<Rightarrow> nat \<Rightarrow> u32 \<Rightarrow> bool" where
  "slot_raw bs q g \<longleftrightarrow> bs ! q = 0xff \<and> bs ! (q + 1) = 0x25 \<and> read32le bs (q + 2) = g \<and>
     bs ! (q + 6) = 0x68 \<and> bs ! (q + 11) = 0xe9 \<and> read32le bs (q + 12) = - of_nat (q + 16)"

definition plt0_raw :: "u8 list \<Rightarrow> nat \<Rightarrow> bool" where
  "plt0_raw bs q \<longleftrightarrow> bs ! q = 0xff \<and> bs ! (q + 1) = 0x35 \<and> read32le bs (q + 2) = 8 \<and>
     bs ! (q + 6) = 0xff \<and> bs ! (q + 7) = 0x25 \<and> read32le bs (q + 8) = 16"

definition plt_ok :: "sect \<Rightarrow> u32 list \<Rightarrow> bool" where
  "plt_ok plt gs \<longleftrightarrow> section_ok plt \<and> se_type plt \<noteq> SHT_NOBITS \<and>
     se_offset plt = (if gs = [] then 0 else 16 + 16 * length gs) \<and> (gs \<noteq> [] \<longrightarrow> plt0_raw (se_data plt) 0) \<and>
     (\<forall>k<length gs. slot_raw (se_data plt) (16 + 16 * k) (gs ! k))"

lemma slot_raw_cong: "slot_raw bs q g \<Longrightarrow> (\<And>i. q \<le> i \<Longrightarrow> i < q + 16 \<Longrightarrow> cs ! i = bs ! i) \<Longrightarrow> slot_raw cs q g"
  using read32le_cong [of "q + 2" cs bs] read32le_cong [of "q + 12" cs bs] by (simp add: slot_raw_def)

lemma plt0_raw_cong: "plt0_raw bs q \<Longrightarrow> (\<And>i. q \<le> i \<Longrightarrow> i < q + 16 \<Longrightarrow> cs ! i = bs ! i) \<Longrightarrow> plt0_raw cs q"
  using read32le_cong [of "q + 2" cs bs] read32le_cong [of "q + 8" cs bs] by (simp add: plt0_raw_def)

lemma write_at_simps [simp]:
  "se_offset (write_at p b sec) = se_offset sec" "se_offset (write32_at p x sec) = se_offset sec"
  "se_type (write_at p b sec) = se_type sec" "se_type (write32_at p x sec) = se_type sec"
  "se_data (write_at p b sec) = (se_data sec)[p := b]" "se_data (write32_at p x sec) = write32le (se_data sec) p x"
  "section_ok (write_at p b sec) = section_ok sec" "section_ok (write32_at p x sec) = section_ok sec"
  by (simp_all add: write_at_def write32_at_def section_ok_def)

lemma section_ptr_add_prefix:
  assumes "section_ok sec" "se_type sec \<noteq> SHT_NOBITS" "se_offset sec + sz \<le> 2 ^ 63"
  obtains sec' where "section_ptr_add sec sz = Some (se_offset sec, sec')"
    "se_offset sec' = se_offset sec + sz" "section_ok sec'" "se_type sec' = se_type sec"
    "se_offset sec + sz \<le> length (se_data sec')" "\<And>i. i < se_offset sec \<Longrightarrow> se_data sec' ! i = se_data sec ! i"
proof -
  obtain sec' where a: "section_ptr_add sec sz = Some (se_offset sec, sec')" "se_offset sec' = se_offset sec + sz"
    "section_ok sec'" "se_type sec' = se_type sec" "take (length (se_data sec)) (se_data sec') = se_data sec"
    by (rule section_ptr_add [OF assms(1,3)])
  have n: "se_data sec' ! i = se_data sec ! i" if "i < se_offset sec" for i
  proof -
    have "i < length (se_data sec)" using that assms(1,2) by (simp add: section_ok_def)
    then show ?thesis by (metis a(5) nth_take)
  qed
  show ?thesis by (rule that [OF a(1-4) _ n]) (use a assms(2) in \<open>simp_all add: section_ok_def\<close>)
qed

lemma read32le_upd: "i < p \<or> p + 4 \<le> i \<Longrightarrow> read32le (bs[i := b]) p = read32le bs p"
  by (rule read32le_cong) auto

lemma put_plt0:
  assumes "section_ok plt" "se_type plt \<noteq> SHT_NOBITS" "se_offset plt + 16 \<le> 2 ^ 63"
  obtains plt' where "put_plt0 plt = Some plt'" "section_ok plt'" "se_type plt' = se_type plt"
    "se_offset plt' = se_offset plt + 16" "plt0_raw (se_data plt') (se_offset plt)"
proof -
  obtain sec where a: "section_ptr_add plt 16 = Some (se_offset plt, sec)" "se_offset sec = se_offset plt + 16"
    "section_ok sec" "se_type sec = se_type plt" "se_offset plt + 16 \<le> length (se_data sec)"
    by (rule section_ptr_add_prefix [OF assms])
  show ?thesis
    by (rule that, simp add: put_plt0_def a(1) Let_def)
      (use a in \<open>simp_all add: plt0_raw_def nth_list_update write32le_other read32le_upd read32le_other\<close>)
qed

lemma new_slot:
  assumes "section_ok plt" "se_type plt \<noteq> SHT_NOBITS" "se_offset plt \<noteq> 0" "se_offset plt + 16 \<le> 2 ^ 63"
  obtains plt' where "create_plt_entry plt g relofs = Some (se_offset plt, plt')" "section_ok plt'"
    "se_type plt' = se_type plt" "se_offset plt' = se_offset plt + 16" "slot_raw (se_data plt') (se_offset plt) g"
    "\<And>i. i < se_offset plt \<Longrightarrow> se_data plt' ! i = se_data plt ! i"
proof -
  obtain sec where a: "section_ptr_add plt 16 = Some (se_offset plt, sec)" "se_offset sec = se_offset plt + 16"
    "section_ok sec" "se_type sec = se_type plt" "se_offset plt + 16 \<le> length (se_data sec)"
    "\<And>i. i < se_offset plt \<Longrightarrow> se_data sec ! i = se_data plt ! i"
    by (rule section_ptr_add_prefix [OF assms(1,2,4)]) blast
  show ?thesis
    by (rule that, simp add: create_plt_entry_def assms(3) a(1) Let_def)
      (use a in \<open>simp_all add: slot_raw_def nth_list_update write32le_other read32le_upd read32le_other\<close>)
qed

lemma create_plt_entry_ok:
  assumes "plt_ok plt gs" "16 * length gs + 32 \<le> 2 ^ 63"
  obtains plt' where "create_plt_entry plt g relofs = Some (16 + 16 * length gs, plt')" "plt_ok plt' (gs @ [g])"
proof -
  obtain plt1 where p1: "(if se_offset plt = 0 then put_plt0 plt else Some plt) = Some plt1"
    "section_ok plt1" "se_type plt1 \<noteq> SHT_NOBITS" "se_offset plt1 = 16 + 16 * length gs" "plt0_raw (se_data plt1) 0"
    "\<forall>k<length gs. slot_raw (se_data plt1) (16 + 16 * k) (gs ! k)"
  proof (cases "gs = []")
    case True
    then have o: "section_ok plt" "se_type plt \<noteq> SHT_NOBITS" "se_offset plt = 0" using assms(1) by (simp_all add: plt_ok_def)
    obtain plt' where "put_plt0 plt = Some plt'" "section_ok plt'" "se_type plt' = se_type plt"
      "se_offset plt' = se_offset plt + 16" "plt0_raw (se_data plt') (se_offset plt)"
      by (rule put_plt0 [OF o(1,2)]) (simp_all add: o(3))
    then show ?thesis using that [of plt'] o True by simp
  next
    case False
    then show ?thesis using that [of plt] assms(1) by (simp add: plt_ok_def)
  qed
  have b: "se_offset plt1 \<noteq> 0" "se_offset plt1 + 16 \<le> 2 ^ 63" using p1(4) assms(2) by simp_all
  obtain plt' where n: "create_plt_entry plt1 g relofs = Some (se_offset plt1, plt')" "section_ok plt'"
    "se_type plt' = se_type plt1" "se_offset plt' = se_offset plt1 + 16" "slot_raw (se_data plt') (se_offset plt1) g"
    "\<And>i. i < se_offset plt1 \<Longrightarrow> se_data plt' ! i = se_data plt1 ! i"
    by (rule new_slot [OF p1(2,3) b]) blast
  have old: "se_data plt' ! i = se_data plt1 ! i" if "i < 16 + 16 * length gs" for i using n(6) p1(4) that by simp
  have "slot_raw (se_data plt') (16 + 16 * k) (gs ! k)" if "k < length gs" for k
    by (rule slot_raw_cong [OF p1(6) [rule_format, OF that]]) (use that in \<open>auto intro!: old\<close>)
  moreover have "plt0_raw (se_data plt') 0" by (rule plt0_raw_cong [OF p1(5)]) (auto intro!: old)
  moreover have "create_plt_entry plt g relofs = create_plt_entry plt1 g relofs"
    using p1(1) b(1) unfolding create_plt_entry_def by simp
  ultimately show ?thesis
    using that [of plt'] n(1-5) p1(3,4) by (auto simp: plt_ok_def nth_append less_Suc_eq)
qed

text \<open>Where a jump or a push with a displacement of 32 bits reaches, from the end of the instruction.\<close>

definition rip_target :: "u64 \<Rightarrow> u32 \<Rightarrow> u64" where
  "rip_target from disp = from + scast disp"

definition in_reach :: "u64 \<Rightarrow> u64 \<Rightarrow> bool" where
  "in_reach from to \<longleftrightarrow> scast (ucast (to - from) :: u32) = to - from"

lemma rip_target: "in_reach from to \<Longrightarrow> d = ucast (to - from) \<Longrightarrow> rip_target from d = to"
  by (simp add: rip_target_def in_reach_def)

lemma word_of_int_mod64: "word_of_int (k mod 2 ^ 64) = (word_of_int k :: u32)"
proof -
  have "(2 ^ 32 :: int) dvd 2 ^ 64" by (rule le_imp_power_dvd) simp
  then show ?thesis by (simp only: word_of_int_eq_iff take_bit_eq_mod len_num0 len_bit0 len_num1) (simp add: mod_mod_cancel)
qed

lemma ucast_down:
  "ucast (a + b :: u64) = (ucast a + ucast b :: u32)" "ucast (a - b :: u64) = (ucast a - ucast b :: u32)"
  "ucast (- b :: u64) = (- ucast b :: u32)" "ucast (of_nat n :: u64) = (of_nat n :: u32)"
proof -
  have u: "ucast (w :: u64) = (word_of_int (uint w) :: u32)" for w by simp
  show "ucast (a + b :: u64) = (ucast a + ucast b :: u32)"
    unfolding u uint_word_ariths(1) using word_of_int_mod64 [of "uint a + uint b"] by simp
  show "ucast (a - b :: u64) = (ucast a - ucast b :: u32)"
    unfolding u uint_word_ariths(2) using word_of_int_mod64 [of "uint a - uint b"] by simp
  show "ucast (- b :: u64) = (- ucast b :: u32)"
    unfolding u uint_word_ariths(4) using word_of_int_mod64 [of "- uint b"] by simp
  show "ucast (of_nat n :: u64) = (of_nat n :: u32)"
    unfolding u uint_nat unat_of_nat using word_of_int_mod64 [of "int n"] by (simp add: zmod_int)
qed

lemma plt_loop_before: "i < p + 2 \<Longrightarrow> plt_loop p p_end x bs ! i = bs ! i"
proof (induction p p_end x bs rule: plt_loop.induct)
  case (1 p p_end x bs)
  then show ?case by (subst plt_loop.simps) (simp add: add32le_other)
qed

lemma length_plt_loop [simp]: "length (plt_loop p p_end x bs) = length bs"
proof (induction p p_end x bs rule: plt_loop.induct)
  case (1 p p_end x bs)
  then show ?case by (subst plt_loop.simps) simp
qed

lemma plt_loop_slot:
  assumes "p + 16 * m < p_end" "p_end \<le> length bs" "16 dvd p_end - p"
  shows "read32le (plt_loop p p_end x bs) (p + 16 * m + 2) = read32le bs (p + 16 * m + 2) + (x - of_nat (p + 16 * m))"
    "j < 16 \<Longrightarrow> j < 2 \<or> 6 \<le> j \<Longrightarrow> plt_loop p p_end x bs ! (p + 16 * m + j) = bs ! (p + 16 * m + j)"
proof -
  have "read32le (plt_loop p p_end x bs) (p + 16 * m + 2) = read32le bs (p + 16 * m + 2) + (x - of_nat (p + 16 * m)) \<and>
    (\<forall>j<16. j < 2 \<or> 6 \<le> j \<longrightarrow> plt_loop p p_end x bs ! (p + 16 * m + j) = bs ! (p + 16 * m + j))"
    using assms
  proof (induction p p_end x bs arbitrary: m rule: plt_loop.induct)
    case (1 p p_end x bs)
    let ?bs = "add32le bs (p + 2) (x - of_nat p)"
    have lt: "p < p_end" using 1(2) by simp
    obtain c where c: "p_end - p = 16 * c" using 1(4) by (auto elim: dvdE)
    then have "p_end - (p + 16) = 16 * (c - 1)" "0 < c" using lt by auto
    then have d: "16 dvd p_end - (p + 16)" "p + 16 \<le> p_end" using c by simp_all
    have u: "plt_loop p p_end x bs = plt_loop (p + 16) p_end x ?bs" using lt by (subst plt_loop.simps) simp
    show ?case
    proof (cases m)
      case 0
      have "read32le (plt_loop (p + 16) p_end x ?bs) (p + 2) = read32le ?bs (p + 2)"
        by (rule read32le_cong) (simp add: plt_loop_before)
      then show ?thesis using 0 1(3) d(2) by (auto simp: u plt_loop_before add32le_other)
    next
      case (Suc k)
      have e: "p + 16 * m = p + 16 + 16 * k" using Suc by simp
      have "read32le ?bs (p + 16 * m + 2) = read32le bs (p + 16 * m + 2)"
        by (rule read32le_cong) (simp add: add32le_other e)
      then show ?thesis
        using 1(1) [OF lt, of k] 1(2,3) d unfolding u e by (auto simp: add32le_other)
    qed
  qed
  then show "read32le (plt_loop p p_end x bs) (p + 16 * m + 2) = read32le bs (p + 16 * m + 2) + (x - of_nat (p + 16 * m))"
    "j < 16 \<Longrightarrow> j < 2 \<or> 6 \<le> j \<Longrightarrow> plt_loop p p_end x bs ! (p + 16 * m + j) = bs ! (p + 16 * m + j)" by blast+
qed

lemma ucast_up_down: "ucast (ucast g :: u64) = (g :: u32)"
  by (rule bit_word_eqI) (simp add: bit_simps)

text \<open>An entry at its address: it jumps through the global offset table, and behind the jump to the
  entry in front.\<close>

definition slot_ok :: "u8 list \<Rightarrow> u64 \<Rightarrow> u64 \<Rightarrow> nat \<Rightarrow> u32 \<Rightarrow> bool" where
  "slot_ok bs plt_addr got_addr q g \<longleftrightarrow>
     bs ! q = 0xff \<and> bs ! (q + 1) = 0x25 \<and>
     rip_target (plt_addr + of_nat (q + 6)) (read32le bs (q + 2)) = got_addr + ucast g \<and>
     bs ! (q + 6) = 0x68 \<and> bs ! (q + 11) = 0xe9 \<and>
     rip_target (plt_addr + of_nat (q + 16)) (read32le bs (q + 12)) = plt_addr"

definition plt0_ok :: "u8 list \<Rightarrow> u64 \<Rightarrow> u64 \<Rightarrow> bool" where
  "plt0_ok bs plt_addr got_addr \<longleftrightarrow>
     bs ! 0 = 0xff \<and> bs ! 1 = 0x35 \<and> rip_target (plt_addr + 6) (read32le bs 2) = got_addr + 8 \<and>
     bs ! 6 = 0xff \<and> bs ! 7 = 0x25 \<and> rip_target (plt_addr + 12) (read32le bs 8) = got_addr + 16"

lemma slot_relocated:
  assumes "slot_raw bs q g" "x = ucast (got_addr - plt_addr - 6)"
    "read32le cs (q + 2) = read32le bs (q + 2) + (x - of_nat q)"
    "\<And>j. j < 16 \<Longrightarrow> j < 2 \<or> 6 \<le> j \<Longrightarrow> cs ! (q + j) = bs ! (q + j)"
    "in_reach (plt_addr + of_nat (q + 6)) (got_addr + ucast g)" "in_reach (plt_addr + of_nat (q + 16)) plt_addr"
  shows "slot_ok cs plt_addr got_addr q g"
proof -
  have r: "bs ! q = 0xff" "bs ! (q + 1) = 0x25" "read32le bs (q + 2) = g" "bs ! (q + 6) = 0x68" "bs ! (q + 11) = 0xe9"
    "read32le bs (q + 12) = - of_nat (q + 16)" using assms(1) by (simp_all only: slot_raw_def)
  have "x = ucast got_addr - ucast plt_addr - 6" by (simp only: assms(2) ucast_down) simp
  then have "read32le cs (q + 2) = g + (ucast got_addr - ucast plt_addr - 6 - of_nat q)" by (simp only: assms(3) r(3))
  also have "\<dots> = ucast got_addr + g - (ucast plt_addr + of_nat (q + 6))" by (simp add: algebra_simps)
  also have "\<dots> = ucast (got_addr + ucast g - (plt_addr + of_nat (q + 6)))"
    by (simp only: ucast_down) (simp add: ucast_up_down)
  finally have "read32le cs (q + 2) = ucast (got_addr + ucast g - (plt_addr + of_nat (q + 6)))" .
  then have t: "rip_target (plt_addr + of_nat (q + 6)) (read32le cs (q + 2)) = got_addr + ucast g"
    by (rule rip_target [OF assms(5)])
  have "read32le cs (q + 12) = read32le bs (q + 12)"
  proof (rule read32le_cong)
    fix i assume "q + 12 \<le> i" "i < q + 12 + 4"
    moreover from this have "i - q < 16" "6 \<le> i - q" by linarith+
    ultimately show "cs ! i = bs ! i" using assms(4) [of "i - q"] by simp
  qed
  then have "read32le cs (q + 12) = ucast (plt_addr - (plt_addr + of_nat (q + 16)))"
    using r(6) by (simp add: ucast_down)
  then have "rip_target (plt_addr + of_nat (q + 16)) (read32le cs (q + 12)) = plt_addr"
    by (rule rip_target [OF assms(6)])
  then show ?thesis using r t assms(4) [of 0] assms(4) [of 1] assms(4) [of 6] assms(4) [of 11] by (simp add: slot_ok_def)
qed

fun add_entries :: "(u32 \<times> nat) list \<Rightarrow> sect \<Rightarrow> sect option" where
  "add_entries [] plt = Some plt"
| "add_entries ((g, relofs) # es) plt = do { (_, plt) \<leftarrow> create_plt_entry plt g relofs; add_entries es plt }"

lemma add_entries_ok:
  "plt_ok plt gs \<Longrightarrow> 16 * (length gs + length es) + 32 \<le> 2 ^ 63 \<Longrightarrow>
     \<exists>p. add_entries es plt = Some p \<and> plt_ok p (gs @ map fst es)"
proof (induction es arbitrary: plt gs)
  case Nil
  then show ?case by simp
next
  case (Cons e es)
  obtain g ro where e: "e = (g, ro)" by fastforce
  have "16 * length gs + 32 \<le> 2 ^ 63" using Cons.prems(2) by simp
  then obtain plt' where p: "create_plt_entry plt g ro = Some (16 + 16 * length gs, plt')" "plt_ok plt' (gs @ [g])"
    by (rule create_plt_entry_ok [OF Cons.prems(1)])
  have "\<exists>q. add_entries es plt' = Some q \<and> plt_ok q ((gs @ [g]) @ map fst es)"
    by (rule Cons.IH [OF p(2)]) (use Cons.prems(2) in simp)
  then show ?case by (simp add: e p(1))
qed

text \<open>Every entry reaches the front of the table only if there are at most \<open>2 ^ 27\<close> of them.\<close>

lemma reach_bound:
  assumes "\<forall>k<n. in_reach (a + of_nat (16 + 16 * k + 16)) a"
  shows "n \<le> 2 ^ 27"
proof (rule ccontr)
  assume "\<not> n \<le> 2 ^ 27"
  then have "in_reach (a + of_nat (16 + 16 * 2 ^ 27 + 16)) a" by (intro assms [rule_format]) simp
  then show False by (simp add: in_reach_def)
qed

lemma relocate_plt_data:
  assumes "relocate_plt plt n plt_addr got_addr rels got = (bs, got')" "n = 16 + 16 * k" "n \<le> length plt"
    "x = ucast (got_addr - plt_addr - 6)"
  shows "read32le bs 2 = read32le plt 2 + x" "read32le bs 8 = read32le plt 8 + (x - 6)"
    "i \<in> {0, 1, 6, 7} \<Longrightarrow> bs ! i = plt ! i"
    "m < k \<Longrightarrow> read32le bs (16 + 16 * m + 2) = read32le plt (16 + 16 * m + 2) + (x - of_nat (16 + 16 * m))"
    "m < k \<Longrightarrow> j < 16 \<Longrightarrow> j < 2 \<or> 6 \<le> j \<Longrightarrow> bs ! (16 + 16 * m + j) = plt ! (16 + 16 * m + j)"
proof -
  let ?c = "add32le (add32le plt 2 x) 8 (x - 6)"
  have bs: "bs = plt_loop 16 n x ?c" using assms(1,2,4) by (auto simp: relocate_plt_def Let_def)
  have f: "read32le bs q = read32le ?c q" if "q + 4 \<le> 16" for q
    unfolding bs by (rule read32le_cong) (use that in \<open>simp add: plt_loop_before\<close>)
  have c: "read32le ?c 2 = read32le (add32le plt 2 x) 2" "read32le (add32le plt 2 x) 8 = read32le plt 8"
    by (simp_all add: add32le_def read32le_other)
  show "read32le bs 2 = read32le plt 2 + x" using f [of 2] c assms(2,3) by simp
  show "read32le bs 8 = read32le plt 8 + (x - 6)" using f [of 8] c assms(2,3) by simp
  show "i \<in> {0, 1, 6, 7} \<Longrightarrow> bs ! i = plt ! i" unfolding bs by (auto simp: plt_loop_before add32le_other)
  show "read32le bs (16 + 16 * m + 2) = read32le plt (16 + 16 * m + 2) + (x - of_nat (16 + 16 * m))" if m: "m < k"
  proof -
    have "read32le bs (16 + 16 * m + 2) = read32le ?c (16 + 16 * m + 2) + (x - of_nat (16 + 16 * m))"
      unfolding bs by (rule plt_loop_slot(1)) (use m assms(2,3) in simp_all)
    moreover have "read32le ?c (16 + 16 * m + 2) = read32le plt (16 + 16 * m + 2)"
      by (rule read32le_cong) (simp add: add32le_other)
    ultimately show ?thesis by simp
  qed
  show "bs ! (16 + 16 * m + j) = plt ! (16 + 16 * m + j)" if m: "m < k" "j < 16" "j < 2 \<or> 6 \<le> j"
  proof -
    have "bs ! (16 + 16 * m + j) = ?c ! (16 + 16 * m + j)"
      unfolding bs by (rule plt_loop_slot(2)) (use m assms(2,3) in simp_all)
    then show ?thesis by (simp add: add32le_other)
  qed
qed

text \<open>C23: A procedure linkage table is filled from the start, which always ends, and then relocated: every entry jumps through
  its word in the global offset table, the rest of the entry jumps to the first entry, and that
  one pushes the second word of the global offset table and jumps through the third. All this
  when the tables are in reach of each other.\<close>

theorem plt_correct:
  assumes "plt_ok plt []" "es \<noteq> []"
    "in_reach (plt_addr + 6) (got_addr + 8)" "in_reach (plt_addr + 12) (got_addr + 16)"
    "\<forall>k<length es. in_reach (plt_addr + of_nat (16 + 16 * k + 6)) (got_addr + ucast (fst (es ! k))) \<and>
       in_reach (plt_addr + of_nat (16 + 16 * k + 16)) plt_addr"
  shows "case add_entries es plt of
      None \<Rightarrow> False
    | Some p \<Rightarrow> (let (bs, got') = relocate_plt (se_data p) (se_offset p) plt_addr got_addr rels got in
        plt0_ok bs plt_addr got_addr \<and> (\<forall>k<length es. slot_ok bs plt_addr got_addr (16 + 16 * k) (fst (es ! k))))"
proof -
  let ?x = "ucast (got_addr - plt_addr - 6) :: u32"
  have "length es \<le> 2 ^ 27" by (rule reach_bound [of _ plt_addr]) (use assms(5) in blast)
  then obtain p where p: "add_entries es plt = Some p" and ok: "plt_ok p (map fst es)"
    using add_entries_ok [OF assms(1), of es] by auto
  then have o: "se_offset p = 16 + 16 * length es" "se_offset p \<le> length (se_data p)" "plt0_raw (se_data p) 0"
    using assms(2) by (auto simp: plt_ok_def section_ok_def)
  obtain bs got' where r: "relocate_plt (se_data p) (se_offset p) plt_addr got_addr rels got = (bs, got')" by fastforce
  note d = relocate_plt_data [OF r o(1,2) refl]
  have "slot_ok bs plt_addr got_addr (16 + 16 * k) (fst (es ! k))" if k: "k < length es" for k
  proof (rule slot_relocated [OF _ refl d(4) [OF k] d(5) [OF k]])
    show "slot_raw (se_data p) (16 + 16 * k) (fst (es ! k))" using ok k by (simp add: plt_ok_def)
  qed (use assms(5) k in auto)
  moreover have "plt0_ok bs plt_addr got_addr"
  proof -
    have r: "read32le bs 2 = 8 + ?x" "read32le bs 8 = 16 + (?x - 6)"
      using d(1,2) o(3) by (simp_all add: plt0_raw_def numeral_2_eq_2)
    have "8 + ?x = ucast (got_addr + 8 - (plt_addr + 6))" "16 + (?x - 6) = ucast (got_addr + 16 - (plt_addr + 12))"
      by (simp_all only: ucast_down) simp_all
    then show ?thesis
      using r rip_target [OF assms(3)] rip_target [OF assms(4)] d(3) o(3) by (simp add: plt0_ok_def plt0_raw_def)
  qed
  ultimately show ?thesis by (simp add: p r)
qed

section \<open>Where the code and the ABI part\<close>

text \<open>Both tables of types know the same types.\<close>

lemma known_types: "gotplt_entry_type t = None \<longleftrightarrow> code_reloc t = - 1"
  by (auto simp: gotplt_entry_type_def code_reloc_def)

text \<open>The addend is counted twice.\<close>

lemma pltoff64_adds_twice:
  assumes "\<not> is_dyn env" "p + 8 \<le> length (rs_data st)" "read64le (rs_data st) p = 0" "A = r_addend (rs_rels st ! i)"
  shows "read64le (rs_data (relocate env i R_X86_64_PLTOFF64 p P (S + A) st)) p = S - le_got env + A + A"
proof -
  have "S + A - le_got env + A = S - le_got env + A + A" by (simp add: algebra_simps)
  then show ?thesis
    using relocate_field64(1) [OF assms(1-3), of R_X86_64_PLTOFF64 i P "S + A"] assms(4) by (simp add: Let_def)
qed

text \<open>The addend is not read: -4 is taken for it.\<close>

lemma gotpcrel_fixed_addend:
  assumes "\<not> is_dyn env" "p + 4 \<le> length (rs_data st)" "G = ucast (got_offset (attr_of env (R_SYM (r_info (rs_rels st ! i)))))"
  shows "read32le (rs_data (relocate env i R_X86_64_GOTPCREL p P v st)) p = read32le (rs_data st) p + ucast (le_got env - P + G - 4)"
  using assms(2,3) by (simp add: relocate_def add32_def Let_def)

text \<open>The offset in the table is taken without the addend.\<close>

lemma got32_ignores_addend:
  assumes "\<not> is_dyn env" "p + 4 \<le> length (rs_data st)" "(G :: u64) = ucast (got_offset (attr_of env (R_SYM (r_info (rs_rels st ! i)))))"
  shows "read32le (rs_data (relocate env i R_X86_64_GOT32 p P v st)) p = read32le (rs_data st) p + ucast G"
  using assms(2,3) by (simp add: relocate_def add32_def Let_def)

text \<open>The field of \<open>R_X86_64_GOTTPOFF\<close> is relative to its own place in the ABI, and names the entry of the
  global offset table; the code writes the distance of the symbol from that table.\<close>

lemma gottpoff_not_abi:
  assumes "p + 4 \<le> length (rs_data st)"
  shows "read32le (rs_data (relocate env i R_X86_64_GOTTPOFF p P (S + A) st)) p = read32le (rs_data st) p + ucast (S + A - le_got env)"
  using assms by (simp add: relocate_def add32_def Let_def)

text \<open>An offset in the thread-local block is written as one from the thread pointer.\<close>

lemma dtpoff_as_tpoff:
  "rs_rels st ! i = rel \<Longrightarrow> relocate env i R_X86_64_DTPOFF32 p P v st = relocate env i R_X86_64_TPOFF32 p P v st \<and>
   relocate env i R_X86_64_DTPOFF64 p P v st = relocate env i R_X86_64_TPOFF64 p P v st"
  by (simp add: relocate_def reloc_TPOFF_def Let_def)

text \<open>Code that asks for the address of a variable is replaced by code that adds the offset of the variable
  to the thread pointer. The offset is taken from the end of the section of the variable, also
  when the end of the whole block is known.\<close>

lemma tlsgd_replaces:
  assumes "bytes_at (rs_data st) (p - 4) 16 = tlsgd_expect" "4 \<le> p" "p + 12 \<le> length (rs_data st)"
  shows "bytes_at (rs_data (relocate env i R_X86_64_TLSGD p P v st)) (p - 4) 12 = take 12 tlsgd_replace \<and>
    read32le (rs_data (relocate env i R_X86_64_TLSGD p P v st)) (p + 8) =
      ucast (tls_offset env (rs_rels st ! i) (st_value (le_syms env ! R_SYM (r_info (rs_rels st ! i)))))"
proof -
  let ?d = "take (p - 4) (rs_data st) @ tlsgd_replace @ drop (p - 4 + 16) (rs_data st)"
  let ?x = "ucast (tls_offset env (rs_rels st ! i) (st_value (le_syms env ! R_SYM (r_info (rs_rels st ! i))))) :: u32"
  have d: "rs_data (relocate env i R_X86_64_TLSGD p P v st) = add32le ?d (p + 8) ?x"
    using assms(1) by (simp add: relocate_def reloc_TLSGD_def Let_def add32_def drop_rel_def write_bytes_def tls_lengths)
  have n: "?d ! (p - 4 + k) = tlsgd_replace ! k" if "k < 16" for k
  proof -
    have "length (take (p - 4) (rs_data st)) = p - 4" using assms(3) by simp
    then show ?thesis
      using nth_append_length_plus [of "take (p - 4) (rs_data st)" "tlsgd_replace @ drop (p - 4 + 16) (rs_data st)" k] that
      by (simp add: nth_append [of tlsgd_replace] tls_lengths)
  qed
  have z: "?d ! i = 0" if "p + 8 \<le> i" "i < p + 12" for i
  proof -
    have "i - (p - 4) \<in> {12, 13, 14, 15}" "p - 4 + (i - (p - 4)) = i" using that assms(2) by auto
    then show ?thesis using n [of "i - (p - 4)"] by (auto simp: tlsgd_replace_def)
  qed
  have "read32le ?d (p + 8) = read32le (replicate (p + 12) 0) (p + 8)"
    by (rule read32le_cong) (use z in simp)
  also have "\<dots> = 0" by (simp add: read32le_def read16le_def)
  finally have "read32le ?d (p + 8) = 0" .
  have "bytes_at (add32le ?d (p + 8) ?x) (p - 4) 12 = take 12 tlsgd_replace"
  proof (rule nth_equalityI)
    fix k assume "k < length (bytes_at (add32le ?d (p + 8) ?x) (p - 4) 12)"
    then have "k < 12" by (simp add: bytes_at_def)
    moreover from this have "add32le ?d (p + 8) ?x ! (p - 4 + k) = ?d ! (p - 4 + k)"
      by (intro add32le_other disjI1) (use assms(2) in linarith)
    moreover have "p - 4 + k \<le> length (add32le ?d (p + 8) ?x)" using \<open>k < 12\<close> assms(2,3) by (simp add: tls_lengths)
    ultimately show "bytes_at (add32le ?d (p + 8) ?x) (p - 4) 12 ! k = take 12 tlsgd_replace ! k"
      using n [of k] assms(2,3) by (simp only: bytes_at_def nth_take nth_drop)
  qed (use assms(2,3) in \<open>simp add: bytes_at_def tls_lengths min_def; linarith\<close>)
  then show ?thesis unfolding d using \<open>read32le ?d (p + 8) = 0\<close> assms(2,3) by (simp add: tls_lengths)
qed

lemma tlsgd_ignores_tls_end:
  "relocate (env\<lparr>le_tls_end := x\<rparr>) i R_X86_64_TLSGD p P v st = relocate env i R_X86_64_TLSGD p P v st"
  by (simp add: relocate_def reloc_TLSGD_def tls_offset_def attr_of_def Let_def)

text \<open>A value that does not fit is cut, without an error, for the types that are not checked.\<close>

lemma unchecked_truncates:
  "t \<in> {R_X86_64_GOTPCREL, R_X86_64_GOTPCRELX, R_X86_64_REX_GOTPCRELX, R_X86_64_GOTPC32, R_X86_64_GOTTPOFF, R_X86_64_GOT32,
     R_X86_64_TPOFF32, R_X86_64_DTPOFF32} \<Longrightarrow> rs_errors (relocate env i t p P v st) = rs_errors st"
  by (elim insertE emptyE) (simp_all add: relocate_def reloc_TPOFF_def add32_def Let_def)

text \<open>If the last relocation is for code to replace, the code writes behind the table.\<close>

lemma last_tlsld_writes_behind:
  "bytes_at (rs_data st) (p - 3) 12 = tlsld_expect \<Longrightarrow> i + 1 = length (rs_rels st) \<Longrightarrow>
     rs_over (relocate env i R_X86_64_TLSLD p P v st)"
  by (simp add: relocate_def reloc_TLSLD_def drop_rel_def write_bytes_def Let_def)

text \<open>The first values of the global offset table are cut to 32 bits.\<close>

lemma got_values_truncated:
  "read64le (snd (relocate_plt [] 0 0x100000000 0 (Some [\<lparr>r_offset = 0, r_info = 0, r_addend = 0\<rparr>]) (replicate 8 0))) 0 = 0x16"
  by code_simp

section \<open>Examples\<close>

definition ex_env :: link_env where
  "ex_env = \<lparr>le_pe = False, le_output_type = 2, le_attrs = [no_attr], le_got = 0x3000, le_stab = None,
     le_syms = [\<lparr>st_name = 0, st_value = 0x2000, st_size = 0, st_info = 0x10, st_other = 0, st_shndx = 1\<rparr>],
     le_sections = [], le_tls_end = 0, le_imagebase = 0, le_dwarf = (0, 0)\<rparr>"

definition ex_rels :: "elf_rel list" where
  "ex_rels = [\<lparr>r_offset = 4, r_info = R_INFO 0 R_X86_64_PC32, r_addend = - 4\<rparr>]"

definition ex_reloc_state :: reloc_state where
  "ex_reloc_state = \<lparr>rs_data = replicate 16 0, rs_rels = ex_rels, rs_q = 0, rs_errors = [], rs_over = False\<rparr>"

lemma ex_env_dyn: "\<not> is_dyn ex_env"
  by (simp_all add: ex_env_def is_dyn_def)

theorem relocate_section_frame_witness:
  "\<exists>bs'. fst (relocate_section ex_env 1 0x1000 [] (Some (replicate 16 0)) ex_rels False) = Some bs' \<and>
     length bs' = 16 \<and> bs' ! 3 = 0 \<and> bs' ! 8 = 0"
proof -
  obtain bs' rels' dyn errs where
    r: "relocate_section ex_env 1 0x1000 [] (Some (replicate 16 0)) ex_rels False = (Some bs', rels', dyn, errs)"
    by (auto simp: relocate_section_def Let_def)
  have "\<forall>r\<in>set ex_rels. fst (reloc_field (R_TYPE (r_info r))) \<le> unat (r_offset r)"
    by (simp add: ex_rels_def reloc_field_def)
  note f = relocate_section_frame [OF r this]
  have "\<forall>r\<in>set ex_rels. \<not> in_field r 3" "\<forall>r\<in>set ex_rels. \<not> in_field r 8"
    by (simp_all add: ex_rels_def in_field_def reloc_field_def)
  then have "bs' ! 3 = replicate 16 0 ! 3" "bs' ! 8 = replicate 16 0 ! 8" using f by blast+
  then show ?thesis using f r by simp
qed

theorem relocate_abi_witness:
  "field_value R_X86_64_PC32 (rs_data (relocate ex_env 0 R_X86_64_PC32 4 0x1004 (0x2000 + - 4) ex_reloc_state)) 4 = 0xff8"
proof -
  have st: "R_X86_64_PC32 \<in> abi_types" "4 + snd (reloc_field R_X86_64_PC32) \<le> length (rs_data ex_reloc_state)"
    "field_value R_X86_64_PC32 (rs_data ex_reloc_state) 4 = 0" "- 4 = r_addend (rs_rels ex_reloc_state ! 0)"
    "representable R_X86_64_PC32 (abi_value R_X86_64_PC32 0x2000 (- 4) 0x1004 0 (le_got ex_env) 0 + addend_fault R_X86_64_PC32 (- 4))"
    by (simp add: abi_types_def, simp add: reloc_field_def ex_reloc_state_def,
        simp add: field_value_def field64_def reloc_field_def ex_reloc_state_def read32le_def read16le_def nth_Cons',
        simp add: ex_reloc_state_def ex_rels_def, code_simp)
  have g: "0 = ucast (got_offset (attr_of ex_env (R_SYM (r_info (rs_rels ex_reloc_state ! 0)))))"
    by code_simp
  show ?thesis
    using relocate_abi [OF st(1) ex_env_dyn st(2-4) g _ refl st(5)] by (simp add: abi_value_def addend_fault_def)
qed

definition ex_plt :: sect where
  "ex_plt = \<lparr>se_name = [], se_type = SHT_PROGBITS, se_flags = 0, se_num = 1, se_addralign = 8, se_offset = 0, se_data = []\<rparr>"

theorem plt_correct_witness:
  "case add_entries [(24, 24)] ex_plt of
     None \<Rightarrow> False
   | Some p \<Rightarrow> slot_ok (fst (relocate_plt (se_data p) (se_offset p) 0x1000 0x3000 None [])) 0x1000 0x3000 16 24"
proof -
  have ok: "plt_ok ex_plt []" by (simp add: plt_ok_def ex_plt_def section_ok_def)
  have reach: "in_reach (0x1000 + 6) (0x3000 + 8)" "in_reach (0x1000 + 12) (0x3000 + 16)"
    "in_reach (0x1000 + of_nat (16 + 16 * 0 + 6)) (0x3000 + ucast (24 :: u32))" "in_reach (0x1000 + of_nat (16 + 16 * 0 + 16)) 0x1000"
    by code_simp+
  from plt_correct [OF ok _ reach(1,2), of "[(24, 24)]" None "[]"] reach(3,4) show ?thesis
    by (auto split: option.splits)
qed

end
