(* ===== verification/Pp_Number.thy ===== *)
theory Pp_Number
  imports Tcc_Prelude
begin

text \<open>
  Numbers in the preprocessor (\<open>tccpp.c\<close>, \<open>parse_number\<close>): from the text of a preprocessing number to a
  token with its value. Characters are their codes; the text is the list of them without the
  terminator, and the first character is a digit or a point. A call of \<open>tcc_error\<close> or \<open>expect\<close> ends the
  function with that error. Conversions of decimal chars to floating point are those of the C
  library, so the model returns the text; of hexadecimal and binary floats it returns the mantissa
  of 128 bits and the exponent that the code computes.
\<close>

type_synonym chars = "nat list"

definition str :: "string \<Rightarrow> chars" where
  "str s = map of_char s"

section \<open>Characters and results\<close>

definition isnum :: "nat \<Rightarrow> bool" where
  "isnum c \<longleftrightarrow> c \<ge> 48 \<and> c \<le> 57"

definition toup :: "nat \<Rightarrow> nat" where
  "toup c = (if c \<ge> 97 \<and> c \<le> 122 then c - 97 + 65 else c)"

text \<open>The value of a hexadecimal digit.\<close>

definition digit_val :: "nat \<Rightarrow> nat option" where
  "digit_val ch =
     (if ch \<ge> 97 \<and> ch \<le> 102 then Some (ch - 97 + 10)
      else if ch \<ge> 65 \<and> ch \<le> 70 then Some (ch - 65 + 10)
      else if isnum ch then Some (ch - 48)
      else None)"

datatype num_error = Number_too_long | Invalid_digit | Expect_exponent | Expect_exponent_digits |
  Three_ls | Two_us | Incorrect_suffix | Invalid_number

datatype int_kind = TOK_CINT | TOK_CUINT | TOK_CLONG | TOK_CULONG | TOK_CLLONG | TOK_CULLONG

datatype float_kind = TOK_CFLOAT | TOK_CDOUBLE | TOK_CLDOUBLE

text \<open>An integer has its value and whether the warning \<open>integer constant overflow\<close> is due.\<close>

datatype num_token =
    Int_token int_kind u64 bool
  | Dec_float float_kind chars
  | Bin_float float_kind "u32 list" int

text \<open>\<open>tcc_ext\<close> allows binary numbers, \<open>pp_expr\<close> is the parsing of a condition, \<open>long4\<close> the targets whose \<open>long\<close> has 4
  bytes.\<close>

record num_flags =
  tcc_ext :: bool
  pp_expr :: bool
  long4 :: bool

abbreviation (input) STRING_MAX_SIZE :: nat where "STRING_MAX_SIZE \<equiv> 1024"

abbreviation (input) bindE (* the sequence of two steps, either of which may fail *)
  :: "num_error + 'a \<Rightarrow> ('a \<Rightarrow> num_error + 'b) \<Rightarrow> num_error + 'b" where
  "bindE m f \<equiv> (case m of Inl e \<Rightarrow> Inl e | Inr x \<Rightarrow> f x)"

section \<open>Digits\<close>

text \<open>The loop that copies digits to \<open>token_buf\<close> (here \<open>q\<close>). The rest of the text begins with the character
  that is not a digit.\<close>

fun scan_digits :: "nat \<Rightarrow> chars \<Rightarrow> chars \<Rightarrow> num_error + chars \<times> chars" where
  "scan_digits b q [] = Inr (q, [])"
| "scan_digits b q (ch # p) =
     (case digit_val ch of
        None \<Rightarrow> Inr (q, ch # p)
      | Some t \<Rightarrow>
          if t \<ge> b then Inr (q, ch # p)
          else if length q \<ge> STRING_MAX_SIZE then Inl Number_too_long
          else scan_digits b (q @ [ch]) p)"

text \<open>The value of a character of \<open>token_buf\<close>.\<close>

definition buf_digit :: "nat \<Rightarrow> nat" where
  "buf_digit t = (if t \<ge> 97 then t - 97 + 10 else if t \<ge> 65 then t - 65 + 10 else t - 48)"

fun eval_digits :: "nat \<Rightarrow> u64 \<Rightarrow> bool \<Rightarrow> chars \<Rightarrow> num_error + u64 \<times> bool" where
  "eval_digits b n ov [] = Inr (n, ov)"
| "eval_digits b n ov (ch # q) =
     (let t = buf_digit ch in
      if t \<ge> b then Inl Invalid_digit
      else
        let n1 = n; n = n * of_nat b + of_nat t
        in eval_digits b n (ov \<or> n1 \<ge> 0x1000000000000000 \<and> n div of_nat b \<noteq> n1) q)"

section \<open>Integer suffixes and types\<close>

text \<open>\<open>p\<close> has advanced behind \<open>ch\<close>, so the character at \<open>p - 1\<close> is the head of the text from \<open>ch\<close> on.\<close>

fun int_suffix :: "nat \<Rightarrow> nat \<Rightarrow> chars \<Rightarrow> num_error + nat \<times> nat \<times> chars" where
  "int_suffix lcount ucount [] = Inr (lcount, ucount, [])"
| "int_suffix lcount ucount (ch # p) =
     (let t = toup ch in
      if t = 76 then
        if lcount \<ge> 2 then Inl Three_ls
        else if lcount \<noteq> 0 \<and> hd (ch # p) \<noteq> ch then Inl Incorrect_suffix
        else int_suffix (lcount + 1) ucount p
      else if t = 85 then
        if ucount \<ge> 1 then Inl Two_us
        else int_suffix lcount (ucount + 1) p
      else Inr (lcount, ucount, ch # p))"

text \<open>Whether the value needs 64 bits or no sign; the new counts and whether it does not fit at all.\<close>

definition fit_counts :: "bool \<Rightarrow> nat \<Rightarrow> u64 \<Rightarrow> nat \<Rightarrow> nat \<Rightarrow> nat \<times> nat \<times> bool" where
  "fit_counts lg4 b n lcount ucount =
     (let l4 = (if lg4 then 1 else 0) in
      if ucount = 0 \<and> b = 10 then
        (if lcount \<le> l4 \<and> n \<ge> 0x80000000 then l4 + 1 else lcount,
         if n \<ge> 0x8000000000000000 then 1 else ucount,
         n \<ge> 0x8000000000000000)
      else
        (if lcount \<le> l4 \<and> n \<ge> 0x100000000 then l4 + 1 else lcount,
         if lcount \<le> l4 \<and> \<not> n \<ge> 0x100000000 \<and> n \<ge> 0x80000000 \<or> n \<ge> 0x8000000000000000 then 1 else ucount,
         False))"

definition int_token_kind :: "nat \<Rightarrow> nat \<Rightarrow> int_kind" where
  "int_token_kind lcount ucount =
     (if lcount = 0 then (if ucount \<noteq> 0 then TOK_CUINT else TOK_CINT)
      else if lcount = 2 then (if ucount \<noteq> 0 then TOK_CULLONG else TOK_CLLONG)
      else (if ucount \<noteq> 0 then TOK_CULONG else TOK_CLONG))"

text \<open>The branch for integers: \<open>q\<close> is \<open>token_buf\<close>, \<open>p\<close> the text from \<open>ch\<close> on.\<close>

definition parse_integer :: "num_flags \<Rightarrow> nat \<Rightarrow> chars \<Rightarrow> chars \<Rightarrow> num_error + num_token" where
  "parse_integer fl b q p =
     (let (b, q) = (if b = 10 \<and> q \<noteq> [] \<and> hd q = 48 then (8, tl q) else (b, q)) in
      bindE (eval_digits b 0 False q) (\<lambda>(n, ov).
      bindE (int_suffix 0 0 p) (\<lambda>(lcount, ucount, p).
        let lcount = (if pp_expr fl then 2 else lcount);
            (lcount, ucount, ov') = fit_counts (long4 fl) b n lcount ucount
        in if p \<noteq> [] then Inl Invalid_number
           else Inr (Int_token (int_token_kind lcount ucount) n (ov \<or> ov')))))"

section \<open>Floating point\<close>

definition float_suffix :: "chars \<Rightarrow> float_kind \<times> chars" where
  "float_suffix p =
     (case p of
        [] \<Rightarrow> (TOK_CDOUBLE, [])
      | ch # p' \<Rightarrow> if toup ch = 70 then (TOK_CFLOAT, p') else if toup ch = 76 then (TOK_CLDOUBLE, p') else (TOK_CDOUBLE, p))"

text \<open>Decimal digits of a fraction or an exponent, copied to \<open>token_buf\<close>.\<close>

fun copy_digits :: "chars \<Rightarrow> chars \<Rightarrow> num_error + chars \<times> chars" where
  "copy_digits q [] = Inr (q, [])"
| "copy_digits q (ch # p) =
     (if isnum ch then
        if length q \<ge> STRING_MAX_SIZE then Inl Number_too_long else copy_digits (q @ [ch]) p
      else Inr (q, ch # p))"

definition copy_char :: "chars \<Rightarrow> nat \<Rightarrow> num_error + chars" where
  "copy_char q ch = (if length q \<ge> STRING_MAX_SIZE then Inl Number_too_long else Inr (q @ [ch]))"

definition copy_exponent :: "chars \<Rightarrow> chars \<Rightarrow> num_error + chars \<times> chars" where
  "copy_exponent q p =
     (if p \<noteq> [] \<and> (hd p = 101 \<or> hd p = 69) then
        bindE (copy_char q (hd p)) (\<lambda>q.
        let p = tl p in
        bindE (if p \<noteq> [] \<and> (hd p = 45 \<or> hd p = 43) then bindE (copy_char q (hd p)) (\<lambda>q. Inr (q, tl p)) else Inr (q, p)) (\<lambda>(q, p).
        if p = [] \<or> \<not> isnum (hd p) then Inl Expect_exponent_digits else copy_digits q p))
      else Inr (q, p))"

text \<open>From \<open>float_frac_parse\<close> on.\<close>

definition parse_dec_float :: "chars \<Rightarrow> chars \<Rightarrow> num_error + num_token" where
  "parse_dec_float q p =
     bindE (copy_digits q p) (\<lambda>(q, p).
     bindE (copy_exponent q p) (\<lambda>(q, p).
       let (k, p) = float_suffix p in if p \<noteq> [] then Inl Invalid_number else Inr (Dec_float k q)))"

text \<open>Numbers of 128 bits, as four words, the lowest first. \<open>bn_lshift\<close> returns the number of bits that it
  does not make room for.\<close>

fun bn_shift_words :: "nat \<Rightarrow> u32 \<Rightarrow> u32 list \<Rightarrow> u32 list" where
  "bn_shift_words shift or_val [] = []"
| "bn_shift_words shift or_val (v # bn) =
     (push_bit shift v OR or_val) # bn_shift_words shift (drop_bit (32 - shift) v) bn"

definition bn_lshift :: "u32 list \<Rightarrow> nat \<Rightarrow> u32 \<Rightarrow> nat \<times> u32 list" where
  "bn_lshift bn shift or_val =
     (if drop_bit (32 - shift) (bn ! 3) \<noteq> 0 then (shift, bn) else (0, bn_shift_words shift or_val bn))"

definition bn_zero :: "u32 list" where
  "bn_zero = replicate 4 0"

fun bn_mantissa :: "nat \<Rightarrow> int \<Rightarrow> u32 list \<Rightarrow> chars \<Rightarrow> int \<times> u32 list" where
  "bn_mantissa shift frac_bits bn [] = (frac_bits, bn)"
| "bn_mantissa shift frac_bits bn (t # q) =
     (let (lost, bn) = bn_lshift bn shift (of_nat (buf_digit t)) in bn_mantissa shift (frac_bits - int lost) bn q)"

fun bn_fraction :: "nat \<Rightarrow> nat \<Rightarrow> int \<Rightarrow> u32 list \<Rightarrow> chars \<Rightarrow> num_error + int \<times> u32 list \<times> chars" where
  "bn_fraction b shift frac_bits bn [] = Inr (frac_bits, bn, [])"
| "bn_fraction b shift frac_bits bn (ch # p) =
     (case digit_val ch of
        None \<Rightarrow> Inr (frac_bits, bn, ch # p)
      | Some t \<Rightarrow>
          if t \<ge> b then Inl Invalid_digit
          else let (lost, bn) = bn_lshift bn shift (of_nat t)
               in bn_fraction b shift (frac_bits - int lost + int shift) bn p)"

fun exp_digits :: "int \<Rightarrow> chars \<Rightarrow> int \<times> chars" where
  "exp_digits e [] = (e, [])"
| "exp_digits e (ch # p) =
     (if isnum ch then exp_digits (if e < 100000000 then e * 10 + int ch - 48 else e) p else (e, ch # p))"

definition bin_exponent :: "chars \<Rightarrow> num_error + int \<times> chars" where
  "bin_exponent p =
     (if p = [] \<or> hd p \<noteq> 112 \<and> hd p \<noteq> 80 then Inl Expect_exponent
      else
        let p = tl p;
            (s, p) = (if p \<noteq> [] \<and> hd p = 43 then (1, tl p) else if p \<noteq> [] \<and> hd p = 45 then (- 1, tl p) else (1, p))
        in if p = [] \<or> \<not> isnum (hd p) then Inl Expect_exponent_digits
           else let (e, p) = exp_digits 0 p in Inr (e * s, p))"

definition parse_bin_float :: "nat \<Rightarrow> chars \<Rightarrow> chars \<Rightarrow> num_error + num_token" where
  "parse_bin_float b q p =
     (let shift = (if b = 16 then 4 else 1); (frac_bits, bn) = bn_mantissa shift 0 bn_zero q in
      bindE (if p \<noteq> [] \<and> hd p = 46 then bn_fraction b shift frac_bits bn (tl p) else Inr (frac_bits, bn, p)) (\<lambda>(frac_bits, bn, p).
      bindE (bin_exponent p) (\<lambda>(e, p).
        let (k, p) = float_suffix p
        in if p \<noteq> [] then Inl Invalid_number else Inr (Bin_float k bn (e - frac_bits)))))"

section \<open>All numbers\<close>

definition is_float_number :: "nat \<Rightarrow> chars \<Rightarrow> bool" where
  "is_float_number b p \<longleftrightarrow> p \<noteq> [] \<and> (hd p = 46 \<or> (hd p = 101 \<or> hd p = 69) \<and> b = 10 \<or> (hd p = 112 \<or> hd p = 80) \<and> (b = 16 \<or> b = 2))"

definition parse_number :: "num_flags \<Rightarrow> chars \<Rightarrow> num_error + num_token" where
  "parse_number fl p =
     (let t = hd p; p = tl p in
      if t = 46 then parse_dec_float [t] p
      else
        let (b, q, p) =
              (if t = 48 \<and> p \<noteq> [] \<and> (hd p = 120 \<or> hd p = 88) then (16, [], tl p)
               else if t = 48 \<and> p \<noteq> [] \<and> tcc_ext fl \<and> (hd p = 98 \<or> hd p = 66) then (2, [], tl p)
               else (10, [t], p))
        in bindE (scan_digits b q p) (\<lambda>(q, p).
             if is_float_number b p then
               if b \<noteq> 10 then parse_bin_float b q p
               else bindE (if hd p = 46 then bindE (copy_char q (hd p)) (\<lambda>q. Inr (q, tl p)) else Inr (q, p)) (\<lambda>(q, p).
                      parse_dec_float q p)
             else parse_integer fl b q p))"

section \<open>The integer constants of C\<close>

text \<open>The types that the C standard lists for a constant (C11, 6.4.4.1), for a suffix with \<open>lc\<close> letters \<open>l\<close>, and with
  a \<open>u\<close> or not. The type is the first one that holds the value.\<close>

definition c11_candidates :: "bool \<Rightarrow> nat \<Rightarrow> bool \<Rightarrow> int_kind list" where
  "c11_candidates decimal lc u =
     (if u then drop lc [TOK_CUINT, TOK_CULONG, TOK_CULLONG]
      else if decimal then drop lc [TOK_CINT, TOK_CLONG, TOK_CLLONG]
      else drop (2 * lc) [TOK_CINT, TOK_CUINT, TOK_CLONG, TOK_CULONG, TOK_CLLONG, TOK_CULLONG])"

fun kind_max :: "bool \<Rightarrow> int_kind \<Rightarrow> nat" where
  "kind_max lg4 TOK_CINT = 0x7fffffff"
| "kind_max lg4 TOK_CUINT = 0xffffffff"
| "kind_max lg4 TOK_CLONG = (if lg4 then 0x7fffffff else 0x7fffffffffffffff)"
| "kind_max lg4 TOK_CULONG = (if lg4 then 0xffffffff else 0xffffffffffffffff)"
| "kind_max lg4 TOK_CLLONG = 0x7fffffffffffffff"
| "kind_max lg4 TOK_CULLONG = 0xffffffffffffffff"

definition c11_kind :: "bool \<Rightarrow> bool \<Rightarrow> nat \<Rightarrow> bool \<Rightarrow> nat \<Rightarrow> int_kind option" where
  "c11_kind lg4 decimal lc u v = find (\<lambda>k. v \<le> kind_max lg4 k) (c11_candidates decimal lc u)"

definition c_suffixes :: "(string \<times> nat \<times> bool) list" where
  "c_suffixes =
     [('''', 0, False), (''u'', 0, True), (''U'', 0, True), (''l'', 1, False), (''L'', 1, False),
      (''ll'', 2, False), (''LL'', 2, False), (''ul'', 1, True), (''uL'', 1, True), (''Ul'', 1, True), (''UL'', 1, True),
      (''lu'', 1, True), (''lU'', 1, True), (''Lu'', 1, True), (''LU'', 1, True), (''ull'', 2, True), (''uLL'', 2, True),
      (''Ull'', 2, True), (''ULL'', 2, True), (''llu'', 2, True), (''llU'', 2, True), (''LLu'', 2, True), (''LLU'', 2, True)]"

definition c_prefixes :: "bool \<Rightarrow> (nat \<times> string) list" where
  "c_prefixes ext =
     [(10, ''''), (8, ''0''), (16, ''0x''), (16, ''0X'')] @ (if ext then [(2, ''0b''), (2, ''0B'')] else [])"

definition digits_value :: "nat \<Rightarrow> chars \<Rightarrow> nat" where
  "digits_value b cs = foldl (\<lambda>n c. n * b + the (digit_val c)) 0 cs"

definition is_digit :: "nat \<Rightarrow> nat \<Rightarrow> bool" where
  "is_digit b c \<longleftrightarrow> (\<exists>t<b. digit_val c = Some t)"

section \<open>Scanning and evaluating digits\<close>

lemma scan_digits:
  "\<forall>c\<in>set cs. is_digit b c \<Longrightarrow> length q + length cs \<le> STRING_MAX_SIZE \<Longrightarrow> r = [] \<or> digit_val (hd r) = None \<Longrightarrow>
   scan_digits b q (cs @ r) = Inr (q @ cs, r)"
proof (induction cs arbitrary: q)
  case Nil
  then show ?case by (cases r) auto
next
  case (Cons c cs)
  then show ?case by (auto simp: is_digit_def)
qed

lemma buf_digit: "digit_val c = Some t \<Longrightarrow> buf_digit c = t"
  by (auto simp: digit_val_def buf_digit_def isnum_def split: if_splits)

lemma overflow_test:
  fixes v b t :: nat
  assumes "v < 2 ^ 64" "t < b" "b \<le> 16"
  shows "(of_nat v :: u64) \<ge> 0x1000000000000000 \<and> (of_nat (v * b + t) :: u64) div of_nat b \<noteq> of_nat v \<longleftrightarrow> 2 ^ 64 \<le> v * b + t"
proof -
  have u: "unat (of_nat v :: u64) = v" "unat (of_nat b :: u64) = b" "unat (of_nat (v * b + t) :: u64) = (v * b + t) mod 2 ^ 64"
    using assms by (simp_all only: unat_of_nat) simp_all
  have d: "unat ((of_nat (v * b + t) :: u64) div of_nat b) = (v * b + t) mod 2 ^ 64 div b"
    by (simp only: unat_div_distrib u)
  have big: "(of_nat v :: u64) \<ge> 0x1000000000000000 \<longleftrightarrow> v \<ge> 2 ^ 60"
    using u(1) by (simp add: word_le_nat_alt)
  show ?thesis
  proof (cases "v * b + t < 2 ^ 64")
    case True
    have "(v * b + t) div b = v" using assms(2) by simp
    then have "(of_nat (v * b + t) :: u64) div of_nat b = of_nat v"
      using d u(1) True by (simp add: word_unat_eq_iff)
    then show ?thesis using True by simp
  next
    case False
    have "v * b \<le> v * 16" using assms(3) by (rule mult_le_mono2)
    then have "v * b + t < v * 16 + 16" using assms(2,3) by linarith
    then have v: "2 ^ 60 \<le> v" using False by simp
    have "(v * b + t) mod 2 ^ 64 < v * b"
    proof (cases "v * b < 2 ^ 64")
      case True
      then have "v * b + t < 2 * 2 ^ 64" using assms(2,3) by simp
      then have "(v * b + t) mod 2 ^ 64 = v * b + t - 2 ^ 64" using False by (simp add: mod_if)
      moreover have "b \<le> v * b" using v by simp
      ultimately show ?thesis using True assms(2) False by linarith
    next
      case False
      have "(v * b + t) mod 2 ^ 64 < 2 ^ 64" by simp
      then show ?thesis using False by linarith
    qed
    then have "(v * b + t) mod 2 ^ 64 div b \<noteq> v"
      using assms(2) by (metis div_less_iff_less_mult gr_implies_not0 less_irrefl linorder_neqE_nat)
    then have "(of_nat (v * b + t) :: u64) div of_nat b \<noteq> of_nat v" using d u(1) by metis
    then show ?thesis using False big v by simp
  qed
qed

lemma eval_digits:
  "\<forall>c\<in>set cs. is_digit b c \<Longrightarrow> 0 < b \<Longrightarrow> b \<le> 16 \<Longrightarrow>
   eval_digits b (of_nat v) (2 ^ 64 \<le> v) cs =
     (let w = foldl (\<lambda>n c. n * b + the (digit_val c)) v cs in Inr (of_nat w, 2 ^ 64 \<le> w))"
proof (induction cs arbitrary: v)
  case Nil
  then show ?case by simp
next
  case (Cons c cs)
  then obtain t where t: "digit_val c = Some t" "t < b" by (auto simp: is_digit_def)
  have "(2 ^ 64 \<le> v \<or> (of_nat v :: u64) \<ge> 0x1000000000000000 \<and> (of_nat (v * b + t) :: u64) div of_nat b \<noteq> of_nat v)
      \<longleftrightarrow> 2 ^ 64 \<le> v * b + t"
  proof (cases "v < 2 ^ 64")
    case True
    then show ?thesis using overflow_test [OF True t(2) Cons.prems(3)] by simp
  next
    case False
    moreover have "v \<le> v * b" using Cons.prems(2) by simp
    ultimately show ?thesis by linarith
  qed
  then show ?case
    using Cons.IH [of "v * b + t"] Cons.prems t buf_digit [OF t(1)] by (simp add: Let_def)
qed

section \<open>Types\<close>

lemma fit_counts_c11:
  assumes "v < 2 ^ 64" "lc \<le> 2" "fit_counts lg4 b (of_nat v) lc (if u then 1 else 0) = (lc', uc', ov)"
  shows "case c11_kind lg4 (b = 10) lc u v of None \<Rightarrow> ov | Some k \<Rightarrow> int_token_kind lc' uc' = k \<and> \<not> ov"
proof -
  have n: "unat (of_nat v :: u64) = v" using assms(1) by (simp add: unat_of_nat)
  have c: "(of_nat v :: u64) \<ge> 0x80000000 \<longleftrightarrow> v \<ge> 0x80000000" "(of_nat v :: u64) \<ge> 0x100000000 \<longleftrightarrow> v \<ge> 0x100000000"
    "(of_nat v :: u64) \<ge> 0x8000000000000000 \<longleftrightarrow> v \<ge> 0x8000000000000000"
    by (simp_all add: word_le_nat_alt n)
  have f: "(lc', uc', ov) = fit_counts lg4 b (of_nat v) lc (if u then 1 else 0)" using assms(3) by simp
  consider "lc = 0" | "lc = 1" | "lc = 2" using assms(2) by linarith
  then show ?thesis
    using f assms(1) unfolding fit_counts_def c
    by cases (cases u; cases lg4; cases "b = 10"; simp add: c11_kind_def c11_candidates_def int_token_kind_def split: if_splits)+
qed

lemma parse_integer_c11:
  assumes "q \<noteq> []" "b' = (if b = 10 \<and> hd q = 48 then 8 else b)" "cs = (if b = 10 \<and> hd q = 48 then tl q else q)"
    "\<forall>c\<in>set cs. is_digit b' c" "0 < b'" "b' \<le> 16" "int_suffix 0 0 p = Inr (lc, if u then 1 else 0, [])" "lc \<le> 2"
  shows "let v = digits_value b' cs in
    case c11_kind (long4 fl) (b' = 10) (if pp_expr fl then 2 else lc) u v of
      Some k \<Rightarrow> parse_integer fl b q p = Inr (Int_token k (of_nat v) False)
    | None \<Rightarrow> \<exists>k. parse_integer fl b q p = Inr (Int_token k (of_nat v) True)"
proof -
  let ?v = "digits_value b' cs" and ?lc = "if pp_expr fl then 2 else lc"
  have e: "eval_digits b' 0 False cs = Inr (of_nat ?v, 2 ^ 64 \<le> ?v)"
    using eval_digits [OF assms(4-6), of 0] by (simp add: digits_value_def Let_def)
  obtain lc' uc' ov where f: "fit_counts (long4 fl) b' (of_nat ?v) ?lc (if u then 1 else 0) = (lc', uc', ov)"
    by (metis prod_cases3)
  have bq: "(if b = 10 \<and> q \<noteq> [] \<and> hd q = 48 then (8, tl q) else (b, q)) = (b', cs)" using assms(1-3) by simp
  have p: "parse_integer fl b q p = Inr (Int_token (int_token_kind lc' uc') (of_nat ?v) (2 ^ 64 \<le> ?v \<or> ov))"
    unfolding parse_integer_def bq using e f assms(7) by (simp add: Let_def)
  show ?thesis
  proof (cases "?v < 2 ^ 64")
    case True
    have "?lc \<le> 2" using assms(8) by simp
    from fit_counts_c11 [OF True this f] show ?thesis
      using p True by (cases "c11_kind (long4 fl) (b' = 10) ?lc u ?v") (simp_all add: Let_def)
  next
    case False
    have "kind_max lg4 k < 2 ^ 64" for lg4 k by (cases k) simp_all
    then have "\<not> ?v \<le> kind_max lg4 k" for lg4 k using False by (meson le_less_trans)
    then have "c11_kind (long4 fl) (b' = 10) ?lc u ?v = None" by (simp add: c11_kind_def find_None_iff)
    then show ?thesis using p False by (simp add: Let_def)
  qed
qed

lemma c_suffixes: "(sfx, lc, u) \<in> set c_suffixes \<Longrightarrow>
    int_suffix 0 0 (str sfx) = Inr (lc, if u then 1 else 0, []) \<and> lc \<le> 2 \<and>
    (str sfx = [] \<or> digit_val (hd (str sfx)) = None) \<and> \<not> is_float_number b (str sfx) \<and>
    (str sfx \<noteq> [] \<longrightarrow> hd (str sfx) \<notin> {46, 66, 88, 98, 120})"
  unfolding c_suffixes_def list.set insert_iff prod.inject
  by (elim disjE conjE emptyE; simp add: str_def digit_val_def isnum_def is_float_number_def toup_def Let_def)

lemma is_digit_mono: "is_digit b c \<Longrightarrow> b \<le> b' \<Longrightarrow> is_digit b' c"
  by (auto simp: is_digit_def intro: less_le_trans)

text \<open>C24: An integer constant of C, of any base, with any suffix, becomes a token with its value and the
  first type of the list in the standard that holds the value; if there is none, the token has the
  value modulo 2 to the 64 and the warning is given.\<close>

theorem parse_number_c11:
  assumes "(b, pre) \<in> set (c_prefixes (tcc_ext fl))" "(sfx, lc, u) \<in> set c_suffixes"
    "\<forall>c\<in>set cs. is_digit b c" "b = 10 \<Longrightarrow> cs \<noteq> [] \<and> hd cs \<noteq> 48" "b \<noteq> 8 \<Longrightarrow> cs \<noteq> []" "length cs < STRING_MAX_SIZE"
  shows "let v = digits_value b cs in
    case c11_kind (long4 fl) (b = 10) (if pp_expr fl then 2 else lc) u v of
      Some k \<Rightarrow> parse_number fl (str pre @ cs @ str sfx) = Inr (Int_token k (of_nat v) False)
    | None \<Rightarrow> \<exists>k. parse_number fl (str pre @ cs @ str sfx) = Inr (Int_token k (of_nat v) True)"
proof -
  note s = c_suffixes [OF assms(2)]
  let ?s = "str sfx"
  have b: "b \<in> {2, 8, 10, 16}" using assms(1) by (auto simp: c_prefixes_def split: if_splits)
  have sc: "scan_digits b' q (cs @ ?s) = Inr (q @ cs, ?s)" if "b \<le> b'" "length q \<le> 1" for b' q
    by (rule scan_digits) (use assms(3,6) s that is_digit_mono in auto)
  have int: "let v = digits_value b cs in
    case c11_kind (long4 fl) (b = 10) (if pp_expr fl then 2 else lc) u v of
      Some k \<Rightarrow> parse_integer fl b0 q ?s = Inr (Int_token k (of_nat v) False)
    | None \<Rightarrow> \<exists>k. parse_integer fl b0 q ?s = Inr (Int_token k (of_nat v) True)"
    if "q \<noteq> []" "b = (if b0 = 10 \<and> hd q = 48 then 8 else b0)" "cs = (if b0 = 10 \<and> hd q = 48 then tl q else q)" for b0 q
    by (rule parse_integer_c11 [OF that assms(3)]) (use s b in auto)
  consider (hex) "pre = ''0x'' \<or> pre = ''0X''" "b = 16" | (bin) "pre = ''0b'' \<or> pre = ''0B''" "b = 2" "tcc_ext fl"
    | (oct) "pre = ''0''" "b = 8" | (dec) "pre = []" "b = 10"
    using assms(1) by (auto simp: c_prefixes_def split: if_splits)
  then show ?thesis
  proof cases
    case hex
    have P: "parse_number fl (str pre @ cs @ ?s) = parse_integer fl 16 cs ?s"
      using hex sc [of 16 "[]"] s by (auto simp: parse_number_def str_def)
    show ?thesis unfolding P by (rule int) (use assms(5) hex(2) in simp_all)
  next
    case bin
    have P: "parse_number fl (str pre @ cs @ ?s) = parse_integer fl 2 cs ?s"
      using bin sc [of 2 "[]"] s by (auto simp: parse_number_def str_def)
    show ?thesis unfolding P by (rule int) (use assms(5) bin(2) in simp_all)
  next
    case oct
    have "cs @ ?s = [] \<or> hd (cs @ ?s) \<notin> {66, 88, 98, 120}"
      using s assms(3) oct(2) by (cases cs) (auto simp: is_digit_def digit_val_def isnum_def split: if_splits)
    then have P: "parse_number fl (str pre @ cs @ ?s) = parse_integer fl 10 (48 # cs) ?s"
      using oct sc [of 10 "[48]"] s by (auto simp: parse_number_def str_def)
    show ?thesis unfolding P by (rule int) (use oct(2) in simp_all)
  next
    case dec
    then obtain c cs' where c: "cs = c # cs'" "c \<noteq> 48" using assms(4) by (cases cs) auto
    have "c \<noteq> 46" using c assms(3) by (auto simp: is_digit_def digit_val_def isnum_def)
    moreover have "scan_digits 10 [c] (cs' @ ?s) = Inr (cs, ?s)"
      using scan_digits [of cs' 10 "[c]" ?s] assms(3,6) s c(1) dec(2) by auto
    ultimately have P: "parse_number fl (str pre @ cs @ ?s) = parse_integer fl 10 cs ?s"
      using dec c s by (auto simp: parse_number_def str_def)
    show ?thesis unfolding P by (rule int) (use c dec(2) in simp_all)
  qed
qed

section \<open>Mantissas\<close>

fun bn_value :: "u32 list \<Rightarrow> nat" where
  "bn_value [] = 0"
| "bn_value (v # bn) = unat v + 2 ^ 32 * bn_value bn"

lemma shift_word:
  assumes "s \<le> 32" "unat o' < 2 ^ s"
  shows "unat (push_bit s v OR o' :: u32) + 2 ^ 32 * unat (drop_bit (32 - s) v) = 2 ^ s * unat v + unat o'"
proof -
  have "push_bit s v AND o' = 0"
  proof (rule bit_word_eqI)
    fix n assume "n < LENGTH(32)"
    show "bit (push_bit s v AND o') n = bit (0 :: u32) n"
    proof (cases "n < s")
      case False
      then have "unat o' < 2 ^ n" using assms(2) by (meson less_le_trans not_less one_le_numeral power_increasing)
      then have "\<not> bit (unat o') n" by (simp add: bit_iff_odd)
      then show ?thesis by (simp add: bit_simps)
    qed (simp add: bit_simps)
  qed
  then have o: "push_bit s v OR o' = push_bit s v + o'" by (simp add: disjunctive_add_eq_or)
  have p: "unat (push_bit s v) = (unat v * 2 ^ s) mod 2 ^ 32"
    by (simp add: unsigned_push_bit_eq push_bit_nat_def take_bit_nat_def mult.commute)
  have d: "unat (drop_bit (32 - s) v) = unat v div 2 ^ (32 - s)"
    unfolding unat_drop_bit_eq by (simp add: drop_bit_nat_def)
  have e: "(2 :: nat) ^ 32 = 2 ^ (32 - s) * 2 ^ s" using assms(1) by (simp flip: power_add)
  then have m: "(unat v * 2 ^ s) mod 2 ^ 32 = 2 ^ s * (unat v mod 2 ^ (32 - s))"
    using mult_mod_right [of "2 ^ s" "unat v" "2 ^ (32 - s)"] by (simp only: mult.commute)
  have "2 ^ s * (unat v mod 2 ^ (32 - s)) + unat o' < 2 ^ 32"
  proof -
    have "unat v mod 2 ^ (32 - s) + 1 \<le> 2 ^ (32 - s)" by (simp add: Suc_leI)
    then have "2 ^ s * (unat v mod 2 ^ (32 - s) + 1) \<le> 2 ^ s * 2 ^ (32 - s)" by (rule mult_le_mono2)
    then show ?thesis using assms(2) unfolding e by (simp add: algebra_simps)
  qed
  then have sum: "unat (push_bit s v + o') = 2 ^ s * (unat v mod 2 ^ (32 - s)) + unat o'"
    using p m by (simp add: unat_word_ariths)
  have alg: "(a * m + x) + (M * a) * k = a * (m + M * k) + x" for a m x M k :: nat by (simp add: algebra_simps)
  have "unat (push_bit s v OR o') + 2 ^ 32 * unat (drop_bit (32 - s) v) =
      (2 ^ s * (unat v mod 2 ^ (32 - s)) + unat o') + (2 ^ (32 - s) * 2 ^ s) * (unat v div 2 ^ (32 - s))"
    unfolding o sum d e by (rule refl)
  also have "\<dots> = 2 ^ s * unat v + unat o'" unfolding alg mod_mult_div_eq by (rule refl)
  finally show ?thesis .
qed

lemma bn_shift_words:
  "s \<le> 32 \<Longrightarrow> unat c < 2 ^ s \<Longrightarrow>
   bn_value (bn_shift_words s c bn) + 2 ^ (32 * length bn) * (if bn = [] then unat c else unat (drop_bit (32 - s) (last bn))) =
   2 ^ s * bn_value bn + unat c"
proof (induction bn arbitrary: c)
  case (Cons v bn)
  let ?c = "drop_bit (32 - s) v"
  have "unat v < 2 ^ 32" using unsigned_less [of v] by simp
  then have "unat v < 2 ^ (32 - s) * 2 ^ s" using Cons.prems(1) by (simp flip: power_add)
  then have "unat ?c < 2 ^ s"
    unfolding unat_drop_bit_eq by (simp add: drop_bit_nat_def less_mult_imp_div_less mult.commute)
  note IH = Cons.IH [OF Cons.prems(1) this] and w = shift_word [OF Cons.prems, of v]
  have e: "(if v # bn = [] then unat c else unat (drop_bit (32 - s) (last (v # bn)))) =
      (if bn = [] then unat ?c else unat (drop_bit (32 - s) (last bn)))" by simp
  have "bn_value (bn_shift_words s c (v # bn)) + 2 ^ (32 * length (v # bn)) *
      (if bn = [] then unat ?c else unat (drop_bit (32 - s) (last bn))) =
      unat (push_bit s v OR c) + 2 ^ 32 * (2 ^ s * bn_value bn + unat ?c)"
    unfolding IH [symmetric] by (simp add: power_add distrib_left del: bn_value.simps(1))
  also have "\<dots> = 2 ^ s * bn_value (v # bn) + unat c" using w by (simp add: distrib_left)
  finally show ?case unfolding e .
qed simp

text \<open>A shift that reports no loss is exact.\<close>

lemma bn_lshift_exact:
  assumes "bn_lshift bn s c = (0, bn')" "0 < s" "s \<le> 32" "unat c < 2 ^ s" "length bn = 4"
  shows "bn_value bn' = 2 ^ s * bn_value bn + unat c"
proof -
  have "bn ! 3 = last bn" using assms(5) by (cases "bn = []") (simp_all add: last_conv_nth)
  moreover have "drop_bit (32 - s) (bn ! 3) = 0" "bn' = bn_shift_words s c bn"
    using assms(1,2) by (auto simp: bn_lshift_def split: if_splits)
  moreover have "bn \<noteq> []" using assms(5) by auto
  ultimately show ?thesis using bn_shift_words [OF assms(3,4), of bn] by simp
qed

section \<open>Where the code departs from the standard\<close>

text \<open>The test for \<open>l\<close> and \<open>L\<close> in one suffix compares a character with itself; a hexadecimal prefix needs no
  digit.\<close>

definition ex_flags :: num_flags where
  "ex_flags = \<lparr>tcc_ext = True, pp_expr = False, long4 = False\<rparr>"

lemma mixed_suffix_accepted: "parse_number ex_flags (str ''1lL'') = Inr (Int_token TOK_CLLONG 1 False)"
  by code_simp

lemma split_suffix_accepted: "parse_number ex_flags (str ''1lul'') = Inr (Int_token TOK_CULLONG 1 False)"
  by code_simp

lemma hex_prefix_alone_accepted: "parse_number ex_flags (str ''0x'') = Inr (Int_token TOK_CINT 0 False)"
  by code_simp

theorem parse_number_c11_witness:
  "parse_number ex_flags (str ''0x'' @ str ''80000000'' @ str ''u'') = Inr (Int_token TOK_CUINT 0x80000000 False)"
proof -
  have a: "(16, ''0x'') \<in> set (c_prefixes (tcc_ext ex_flags))" "(''u'', 0, True) \<in> set c_suffixes"
    "\<forall>c\<in>set (str ''80000000''). is_digit 16 c" "length (str ''80000000'') < STRING_MAX_SIZE"
    by (simp_all add: c_prefixes_def c_suffixes_def str_def is_digit_def digit_val_def isnum_def)
  have v: "digits_value 16 (str ''80000000'') = 0x80000000"
    by (simp add: digits_value_def str_def digit_val_def isnum_def)
  have "str ''80000000'' \<noteq> []" by (simp add: str_def)
  with parse_number_c11 [OF a(1-3) _ _ a(4)] show ?thesis
    by (simp add: v Let_def c11_kind_def c11_candidates_def ex_flags_def)
qed

end
