(* ===== verification/Pp_String.thy ===== *)
theory Pp_String
  imports Pp_Number
begin

text \<open>
  Strings and character constants in the preprocessor (\<open>tccpp.c\<close>): escape sequences read
  (\<open>parse_escape_string\<close>, \<open>parse_string\<close>) and written (\<open>add_char\<close>, \<open>get_tok_str\<close>). The text to read is a list
  of bytes without the terminator. What a string holds is a list of units, each cut to the width
  that it is stored with: a byte, or 32 bits for a wide string (\<open>nwchar_t\<close> is an \<open>int\<close>).
  Warnings are not modelled.
\<close>

unbundle bit_operations_syntax

section \<open>Units\<close>

record str_flags =
  is_long :: bool
  gnu_ext :: bool
  pe_target :: bool

text \<open>\<open>Beyond_end\<close> stands for a backslash as the last byte: the code then reads behind the terminator.
  \<open>parse_pp_string\<close> does not let such a text through.\<close>

datatype str_error = More_hex_digits | Not_universal u32 | Beyond_end | Empty_char

definition unicode_to_utf8 :: "u32 \<Rightarrow> str_error + u32 list" where
  "unicode_to_utf8 Uc =
     (if Uc < 0x80 then Inr [Uc]
      else if Uc < 0x800 then Inr [192 + Uc div 64, 128 + Uc mod 64]
      else if Uc - 0xd800 < 0x800 then Inl (Not_universal Uc)
      else if Uc < 0x10000 then Inr [224 + Uc div 4096, 128 + Uc div 64 mod 64, 128 + Uc mod 64]
      else if Uc < 0x110000 then
        Inr [240 + Uc div 262144, 128 + Uc div 4096 mod 64, 128 + Uc div 64 mod 64, 128 + Uc mod 64]
      else Inl (Not_universal Uc))"

text \<open>\<open>cstr_ccat\<close> and \<open>cstr_wccat\<close>: what is stored of a value.\<close>

definition cstr_ccat :: "u32 \<Rightarrow> u32" where
  "cstr_ccat ch = ucast (ucast ch :: u8)"

definition cstr_wccat :: "u32 \<Rightarrow> u32" where
  "cstr_wccat ch = ch"

text \<open>From \<open>add_char_nonext\<close> on.\<close>

definition add_units :: "str_flags \<Rightarrow> u32 \<Rightarrow> u32 list" where
  "add_units fl c =
     (if \<not> is_long fl then [cstr_ccat c]
      else if pe_target fl then
        if sint c < 0x10000 then [cstr_wccat c]
        else let c = c - 0x10000
             in [cstr_wccat (drop_bit 10 c + 0xD800), cstr_wccat ((c AND 0x3FF) + 0xDC00)]
      else [cstr_wccat c])"

section \<open>Escape sequences\<close>

definition isoct :: "nat \<Rightarrow> bool" where
  "isoct c \<longleftrightarrow> c \<ge> 48 \<and> c \<le> 55"

definition peek :: "chars \<Rightarrow> nat" where
  "peek p = (case p of [] \<Rightarrow> 0 | c # _ \<Rightarrow> c)"

text \<open>At most three octal digits, of which \<open>c\<close> is the first.\<close>

definition octal_escape :: "nat \<Rightarrow> chars \<Rightarrow> nat \<times> chars" where
  "octal_escape c p =
     (let n = c - 48 in
      if isoct (peek p) then
        let n = n * 8 + peek p - 48; p = tl p in
        if isoct (peek p) then (n * 8 + peek p - 48, tl p) else (n, p)
      else (n, p))"

text \<open>\<open>parse_hex_or_ucn\<close>: the number, the rest, and whether the loop was left through \<open>add_hex_or_ucn\<close>.\<close>

fun hex_escape :: "int \<Rightarrow> u32 \<Rightarrow> chars \<Rightarrow> str_error + u32 \<times> chars \<times> bool" where
  "hex_escape i n [] = (if i \<ge> 0 then Inl More_hex_digits else Inr (n, [], True))"
| "hex_escape i n (c # p) =
     (case digit_val c of
        None \<Rightarrow> if i \<ge> 0 then Inl More_hex_digits else Inr (n, c # p, True)
      | Some d \<Rightarrow>
          let n = n * 16 + of_nat d in
          if i - 1 = 0 then Inr (n, p, False) else hex_escape (i - 1) n p)"

text \<open>The value of an escape sequence of one letter; all others stand for themselves.\<close>

definition letter_escape :: "str_flags \<Rightarrow> nat \<Rightarrow> nat" where
  "letter_escape fl c =
     (if c = 97 then 7 else if c = 98 then 8 else if c = 102 then 12 else if c = 110 then 10
      else if c = 114 then 13 else if c = 116 then 9 else if c = 118 then 11
      else if c = 101 \<and> gnu_ext fl then 27 else c)"

text \<open>After a backslash: the units and the rest.\<close>

definition parse_escape :: "str_flags \<Rightarrow> chars \<Rightarrow> str_error + u32 list \<times> chars" where
  "parse_escape fl p =
     (case p of
        [] \<Rightarrow> Inl Beyond_end
      | c # p \<Rightarrow>
          if isoct c then
            let (n, p) = octal_escape c p in Inr (add_units fl (of_nat n), p)
          else if c = 120 \<or> c = 117 \<or> c = 85 then
            (case hex_escape (if c = 120 then 0 else if c = 117 then 4 else 8) 0 p of
               Inl e \<Rightarrow> Inl e
             | Inr (n, p, add_hex) \<Rightarrow>
                 if is_long fl \<or> add_hex then Inr (add_units fl n, p)
                 else (case unicode_to_utf8 n of
                         Inl e \<Rightarrow> Inl e
                       | Inr bs \<Rightarrow> Inr (map cstr_ccat bs, p)))
          else Inr (add_units fl (of_nat (letter_escape fl c)), p))"

section \<open>UTF-8 in wide strings\<close>

text \<open>The number of continuation bytes and the bits of the first byte.\<close>

definition utf8_lead :: "nat \<Rightarrow> (nat \<times> u32) option" where
  "utf8_lead c =
     (if c < 0xC2 then None
      else if c \<le> 0xDF then Some (1, of_nat c AND 0x1f)
      else if c \<le> 0xEF then Some (2, of_nat c AND 0xf)
      else if c \<le> 0xF4 then Some (3, of_nat c AND 0x7)
      else None)"

text \<open>\<open>i\<close> counts the bytes read. The result is the code point, or the number of bytes to skip.\<close>

fun utf8_cont :: "nat \<Rightarrow> nat \<Rightarrow> nat \<Rightarrow> u32 \<Rightarrow> chars \<Rightarrow> nat + u32" where
  "utf8_cont c i 0 n p = Inr n"
| "utf8_cont c i (Suc cont) n p =
     (let l = (if i = 1 \<and> c = 0xE0 then 0xA0 else if i = 1 \<and> c = 0xF0 then 0x90 else 0x80);
          h = (if i = 1 \<and> c = 0xED then 0x9F else if i = 1 \<and> c = 0xF4 then 0x8F else 0xBF)
      in if peek p < l \<or> peek p > h then Inl i
         else utf8_cont c (i + 1) cont (push_bit 6 n OR (of_nat (peek p) AND 0x3f)) (tl p))"

text \<open>The value of the sequence that starts with \<open>c\<close> and how many bytes it has.\<close>

definition utf8_sequence :: "nat \<Rightarrow> chars \<Rightarrow> u32 \<times> nat" where
  "utf8_sequence c p =
     (case utf8_lead c of
        None \<Rightarrow> (0xFFFD, 1)
      | Some (cont, n) \<Rightarrow>
          (case utf8_cont c 1 cont n p of Inl skip \<Rightarrow> (0xFFFD, skip) | Inr n \<Rightarrow> (n, 1 + cont)))"

section \<open>Strings\<close>

text \<open>One round of the loop of \<open>parse_escape_string\<close>, on a text that is not empty.\<close>

definition escape_step :: "str_flags \<Rightarrow> chars \<Rightarrow> str_error + u32 list \<times> chars" where
  "escape_step fl p =
     (if hd p = 92 then parse_escape fl (tl p)
      else if is_long fl \<and> hd p \<ge> 0x80 then
        let (c, k) = utf8_sequence (hd p) (tl p) in Inr (add_units fl c, drop k p)
      else Inr (add_units fl (of_nat (hd p)), tl p))"

lemma hex_escape_length: "hex_escape i n p = Inr (m, p', b) \<Longrightarrow> length p' \<le> length p"
  by (induction i n p rule: hex_escape.induct) (fastforce simp: Let_def split: if_splits option.splits)+

lemma octal_escape_length: "octal_escape c p = (n, p') \<Longrightarrow> length p' \<le> length p"
  by (auto simp: octal_escape_def Let_def split: if_splits)

lemma parse_escape_length: "parse_escape fl p = Inr (us, p') \<Longrightarrow> length p' < Suc (length p)"
  by (auto simp: parse_escape_def Let_def dest!: hex_escape_length octal_escape_length
      split: if_splits list.splits sum.splits prod.splits)

lemma utf8_cont_skip: "utf8_cont c i k n p = Inl m \<Longrightarrow> i \<le> m"
proof (induction k arbitrary: i n p)
  case (Suc k)
  have "utf8_cont c i (Suc k) n p = Inl i \<or> (\<exists>n'. utf8_cont c i (Suc k) n p = utf8_cont c (i + 1) k n' (tl p))"
    by (auto simp: Let_def)
  then show ?case
  proof
    assume "\<exists>n'. utf8_cont c i (Suc k) n p = utf8_cont c (i + 1) k n' (tl p)"
    then obtain n' where "utf8_cont c (i + 1) k n' (tl p) = Inl m" using Suc.prems by auto
    from Suc.IH [OF this] show "i \<le> m" by simp
  qed (use Suc.prems in simp)
qed simp

lemma escape_step_length: "escape_step fl p = Inr (us, p') \<Longrightarrow> p \<noteq> [] \<Longrightarrow> length p' < length p"
  by (cases p) (auto simp: escape_step_def utf8_sequence_def Let_def dest: parse_escape_length dest!: utf8_cont_skip
      split: if_splits prod.splits sum.splits option.splits)

function parse_escape_string :: "str_flags \<Rightarrow> chars \<Rightarrow> str_error + u32 list" where
  "parse_escape_string fl p =
     (if p = [] then Inr [0]
      else (case escape_step fl p of
              Inl e \<Rightarrow> Inl e
            | Inr (us, p') \<Rightarrow>
                (case parse_escape_string fl p' of Inl e \<Rightarrow> Inl e | Inr r \<Rightarrow> Inr (us @ r))))"
  by auto
termination
  by (relation "measure (\<lambda>(fl, p). length p)") (auto dest: escape_step_length)

declare parse_escape_string.simps [simp del]

datatype str_token = Char_token bool u64 | Str_token bool "u32 list"

text \<open>\<open>parse_string\<close>: \<open>s\<close> is the text with its quotes and an \<open>L\<close> in front of them.\<close>

definition char_value :: "bool \<Rightarrow> u32 list \<Rightarrow> u32" where
  "char_value wide us =
     (if wide then last us else fold (\<lambda>u c. push_bit 8 c OR scast (ucast u :: u8)) us 0)"

definition parse_string :: "bool \<Rightarrow> bool \<Rightarrow> chars \<Rightarrow> str_error + str_token" where
  "parse_string gnu pe s =
     (let wide = (hd s = 76); s = (if wide then tl s else s); sep = hd s;
          fl = \<lparr>is_long = wide, gnu_ext = gnu, pe_target = pe\<rparr>
      in case parse_escape_string fl (butlast (tl s)) of
           Inl e \<Rightarrow> Inl e
         | Inr us \<Rightarrow>
             if sep = 39 then
               if length us - 1 < 1 then Inl Empty_char
               else Inr (Char_token wide (scast (char_value wide (butlast us))))
             else Inr (Str_token wide us))"

section \<open>Writing strings\<close>

text \<open>\<open>add_char\<close>, for a value of 32 bits.\<close>

definition add_char :: "u32 \<Rightarrow> chars" where
  "add_char c =
     (if c = 39 \<or> c = 34 \<or> c = 92 then [92] else []) @
     (if 32 \<le> sint c \<and> sint c \<le> 126 then [unat c]
      else [92] @
        (if c = 10 then [110]
         else [48 + unat (drop_bit 6 c AND 7), 48 + unat (drop_bit 3 c AND 7), 48 + unat (c AND 7)]))"

text \<open>\<open>get_tok_str\<close> for strings and character constants.\<close>

definition get_tok_str :: "str_token \<Rightarrow> chars" where
  "get_tok_str t =
     (case t of
        Char_token wide i \<Rightarrow> (if wide then [76] else []) @ [39] @ add_char (ucast i) @ [39]
      | Str_token wide us \<Rightarrow> (if wide then [76] else []) @ [34] @ concat (map add_char (butlast us)) @ [34])"

section \<open>Reading what was written\<close>

lemma cstr_ccat_nat: "cstr_ccat c = of_nat (unat c mod 256)"
proof -
  have "unat (cstr_ccat c) = unat c mod 256"
    by (simp add: cstr_ccat_def unsigned_ucast_eq unsigned_take_bit_eq take_bit_nat_def)
  moreover have "cstr_ccat c = of_nat (unat (cstr_ccat c))" by simp
  ultimately show ?thesis by metis
qed

lemma octal_digits: "v div 64 mod 8 * 64 + v div 8 mod 8 * 8 + v mod 8 = v mod (512 :: nat)"
  using mod_mult2_eq [of v 64 8] mod_mult2_eq [of v 8 8] by simp

lemma unat_and_7: "unat (c AND 7 :: u32) = unat c mod 8" "unat (drop_bit k c :: u32) = unat c div 2 ^ k"
proof -
  have m: "c AND 7 = take_bit 3 c" by (simp add: take_bit_eq_mask mask_eq_exp_minus_1)
  show "unat (c AND 7 :: u32) = unat c mod 8" unfolding m by (simp add: unsigned_take_bit_eq take_bit_nat_def)
  show "unat (drop_bit k c :: u32) = unat c div 2 ^ k" unfolding unat_drop_bit_eq by (simp add: drop_bit_nat_def)
qed

text \<open>What is left of a unit when it has been written and read again: its lowest byte, or, in a wide string,
  the nine bits that three octal digits hold.\<close>

definition kept :: "bool \<Rightarrow> u32 \<Rightarrow> u32" where
  "kept wide u = u mod (if wide then 512 else 256)"

lemma unat_kept: "unat (kept wide u) = unat u mod (if wide then 512 else 256)"
  by (simp add: kept_def unat_mod)

lemma kept_nat: "kept wide u = of_nat (unat u mod (if wide then 512 else 256))"
  by (simp only: unat_kept [symmetric]) simp

lemma kept_same: "kept wide u = u \<longleftrightarrow> u < (if wide then 512 else 256)"
proof -
  have "kept wide u = u \<longleftrightarrow> unat u mod (if wide then 512 else 256) = unat u"
    by (metis unat_kept word_unat_eq_iff)
  also have "\<dots> \<longleftrightarrow> unat u < (if wide then 512 else 256)" by (auto simp: mod_eq_self_iff_div_eq_0 div_eq_0_iff)
  finally show ?thesis by (simp add: word_less_nat_alt)
qed

lemma kept_narrow: "kept False u = cstr_ccat u"
  by (simp add: kept_nat cstr_ccat_nat)

lemma add_units_kept: "add_units fl (of_nat (unat c mod 512)) = [kept (is_long fl) c]"
proof (cases "is_long fl")
  case True
  have "unat c mod 512 < 512" by simp
  then have "sint (of_nat (unat c mod 512) :: u32) < 0x10000"
    unfolding signed_of_nat by (subst signed_take_bit_int_eq_self) simp_all
  then show ?thesis using True by (simp add: add_units_def cstr_wccat_def kept_nat)
next
  case False
  then show ?thesis by (simp add: add_units_def kept_narrow cstr_ccat_nat unat_of_nat mod_mod_cancel)
qed

lemma escape_step_add_char: "escape_step fl (add_char c @ r) = Inr ([kept (is_long fl) c], r)"
proof -
  have small: "add_units fl c = [kept (is_long fl) c]" if "unat c < 512"
    using add_units_kept [of fl c] that by simp
  consider (quote) "c = 39 \<or> c = 34 \<or> c = 92" | (plain) "c \<notin> {39, 34, 92}" "32 \<le> sint c \<and> sint c \<le> 126"
    | (newline) "c = 10" | (octal) "c \<notin> {39, 34, 92}" "\<not> (32 \<le> sint c \<and> sint c \<le> 126)" "c \<noteq> 10" by auto
  then show ?thesis
  proof cases
    case quote
    then show ?thesis
      using small by (auto simp: add_char_def escape_step_def parse_escape_def isoct_def letter_escape_def)
  next
    case plain
    have c: "c = of_nat (unat c)" by simp
    have "uint c = uint (word_of_int (sint c) :: u32)" by simp
    also have "\<dots> = sint c"
      unfolding unsigned_of_int using plain by (simp add: take_bit_int_eq_self del: of_int_sint)
    finally have u: "unat c \<le> 126" using plain by (simp add: unat_eq_nat_uint nat_le_iff)
    have "unat c \<noteq> 92" using plain c by force
    then show ?thesis using plain u small by (simp add: add_char_def escape_step_def)
  next
    case newline
    then show ?thesis using small by (simp add: add_char_def escape_step_def parse_escape_def isoct_def letter_escape_def)
  next
    case octal
    let ?v = "unat c"
    have d: "unat (drop_bit 6 c AND 7) = ?v div 64 mod 8" "unat (drop_bit 3 c AND 7) = ?v div 8 mod 8" "unat (c AND 7) = ?v mod 8"
      using unat_and_7(2) [of 6 c] unat_and_7(2) [of 3 c] by (simp_all only: unat_and_7) simp_all
    have p: "add_char c @ r = 92 # (48 + ?v div 64 mod 8) # (48 + ?v div 8 mod 8) # (48 + ?v mod 8) # r"
      using octal by (simp add: add_char_def d)
    have o: "isoct (48 + k mod 8)" for k by (simp add: isoct_def less_Suc_eq_le [symmetric])
    have "octal_escape (48 + ?v div 64 mod 8) ((48 + ?v div 8 mod 8) # (48 + ?v mod 8) # r) = (?v mod 512, r)"
      using octal_digits [of ?v] by (simp add: octal_escape_def peek_def o Let_def algebra_simps)
    then show ?thesis
      by (simp add: p escape_step_def parse_escape_def o add_units_kept)
  qed
qed

lemma add_char_nonempty [simp]: "add_char c \<noteq> []"
  by (simp add: add_char_def)

lemma parse_escape_string_add_char:
  "parse_escape_string fl (concat (map add_char us)) = Inr (map (kept (is_long fl)) us @ [0])"
proof (induction us)
  case Nil
  then show ?case by (simp add: parse_escape_string.simps)
next
  case (Cons u us)
  then show ?case by (simp add: parse_escape_string.simps [of _ "add_char u @ _"] escape_step_add_char)
qed

text \<open>C25: What \<open>get_tok_str\<close> prints of a string or of a character constant is read back with what is \<open>kept\<close> of
  each unit: the lowest byte, in wide constants the lowest nine bits; a narrow character constant is
  its lowest byte, extended with its sign. So a string is read back unchanged exactly if all its
  units are bytes, or for a wide one below 512. Other wide characters (\<open>wide_print_loses\<close>) and constants of
  several characters (\<open>multi_char_loses\<close>) are not read back as they were.\<close>

theorem string_token_roundtrip:
  "parse_string gnu pe (get_tok_str (Str_token wide (us @ [0]))) = Inr (Str_token wide (map (kept wide) us @ [0])) \<and>
   parse_string gnu pe (get_tok_str (Char_token wide i)) =
     Inr (Char_token wide (if wide then scast (kept True (ucast i)) else scast (ucast i :: u8))) \<and>
   (parse_string gnu pe (get_tok_str (Str_token wide (us @ [0]))) = Inr (Str_token wide (us @ [0])) \<longleftrightarrow>
     list_all (\<lambda>u. u < (if wide then 512 else 256)) us)"
proof -
  let ?fl = "\<lparr>is_long = wide, gnu_ext = gnu, pe_target = pe\<rparr>"
  have s: "parse_string gnu pe (get_tok_str (Str_token wide (us @ [0]))) = Inr (Str_token wide (map (kept wide) us @ [0]))"
    using parse_escape_string_add_char [of ?fl us] by (cases wide) (simp_all add: parse_string_def get_tok_str_def Let_def)
  have c: "parse_escape_string ?fl (add_char (ucast i)) = Inr [kept wide (ucast i), 0]"
    using parse_escape_string_add_char [of ?fl "[ucast i]"] by simp
  have "kept wide (ucast i) = ucast (ucast i :: u8)" if "\<not> wide"
    using that by (simp add: kept_narrow cstr_ccat_def) (rule bit_word_eqI, auto simp: bit_simps)
  moreover have "ucast (ucast b :: u32) = b" "scast (scast b :: u32) = (scast b :: u64)" for b :: u8
    by (rule bit_word_eqI; auto simp: bit_simps min_def)+
  ultimately have "parse_string gnu pe (get_tok_str (Char_token wide i)) =
     Inr (Char_token wide (if wide then scast (kept True (ucast i)) else scast (ucast i :: u8)))"
    using c by (cases wide) (simp_all add: parse_string_def get_tok_str_def Let_def char_value_def)
  moreover have "map (kept wide) us = us \<longleftrightarrow> list_all (\<lambda>u. u < (if wide then 512 else 256)) us"
    by (induction us) (simp_all add: kept_same)
  ultimately show ?thesis using s by simp
qed

text \<open>A constant of two characters is written as one.\<close>

lemma multi_char_loses:
  "parse_string True False (get_tok_str (Char_token False 0x6162)) = Inr (Char_token False 0x62)"
  by code_simp

text \<open>The bytes of a constant of several characters are extended with their sign, so one above 127 wipes
  out those before it. Wide characters above 511 are not printed with all their bits.\<close>

lemma multi_char_sign: "parse_string True False ([39, 92, 49, 92, 51, 55, 55, 39]) =
    Inr (Char_token False (- 1))"
  by code_simp

text \<open>Characters outside the basic plane are stored as a pair of surrogates on Windows, although a wide
  character has 32 bits there as well.\<close>

lemma wide_surrogates: "parse_string True True [76, 34, 92, 85, 48, 48, 48, 49, 70, 54, 48, 48, 34] = Inr (Str_token True [0xD83D, 0xDE00, 0])"
  "parse_string True False [76, 34, 92, 85, 48, 48, 48, 49, 70, 54, 48, 48, 34] = Inr (Str_token True [0x1F600, 0])"
  by code_simp+

lemma wide_print_loses: "parse_string True False (get_tok_str (Str_token True [0x20AC, 0])) = Inr (Str_token True [0xAC, 0])"
  by code_simp

end
