(* ===== verification/Pp_Tokens.thy ===== *)
theory Pp_Tokens
  imports Tcc_Prelude
begin

text \<open>
  Tokens of the preprocessor (\<open>tccpp.c\<close>): strings of tokens with their values, kept in arrays of \<open>int\<close>
  (\<open>tok_str_add2\<close>, \<open>tok_get\<close>), and the table that gives every identifier its number (\<open>tok_alloc\<close>). Arrays
  grow as needed and are lists here.
\<close>

unbundle bit_operations_syntax

section \<open>Values of tokens\<close>

text \<open>How the value of a token is stored: in one \<open>int\<close> that is read back with its sign, without it, or as it
  is; as a number of \<open>int\<close>s; as a text with its length; or not at all. \<open>ls8\<close> are the targets whose \<open>long\<close>
  has 8 bytes, \<open>ldw\<close> is \<open>LDOUBLE_WORDS\<close>.\<close>

datatype tok_class = Signed_word | Unsigned_word | Raw_word | Words nat | Text | No_value

definition tok_class :: "bool \<Rightarrow> nat \<Rightarrow> u32 \<Rightarrow> tok_class" where
  "tok_class ls8 ldw t =
     (if t \<in> {0xc0, 0xc1, 0xc2, 0xcf} then Signed_word
      else if t = 0xc3 then Unsigned_word
      else if t = 0xca then Raw_word
      else if t = 0xc6 then (if ls8 then Words 2 else Signed_word)
      else if t = 0xc7 then (if ls8 then Words 2 else Unsigned_word)
      else if t \<in> {0xc8, 0xc9, 0xcd, 0xce} then Text
      else if t \<in> {0xc4, 0xc5, 0xcb} then Words 2
      else if t = 0xcc then Words ldw
      else No_value)"

text \<open>\<open>CValue\<close>: the words of a number, the lowest first, or the bytes of a text.\<close>

datatype cvalue = CV_tab "u32 list" | CV_str "u8 list"

section \<open>Texts in arrays of int\<close>

definition word_of_bytes :: "u8 \<Rightarrow> u8 \<Rightarrow> u8 \<Rightarrow> u8 \<Rightarrow> u32" where
  "word_of_bytes a b c d =
     ucast a OR (push_bit 8 (ucast b) OR (push_bit 16 (ucast c) OR push_bit 24 (ucast d)))"

definition bytes_of_word :: "u32 \<Rightarrow> u8 list" where
  "bytes_of_word w = [ucast w, ucast (drop_bit 8 w), ucast (drop_bit 16 w), ucast (drop_bit 24 w)]"

text \<open>\<open>memcpy\<close> into the array; \<open>junk\<close> is what the last word held in its other bytes.\<close>

fun pack_bytes :: "u8 \<Rightarrow> u8 list \<Rightarrow> u32 list" where
  "pack_bytes junk [] = []"
| "pack_bytes junk [a] = [word_of_bytes a junk junk junk]"
| "pack_bytes junk [a, b] = [word_of_bytes a b junk junk]"
| "pack_bytes junk [a, b, c] = [word_of_bytes a b c junk]"
| "pack_bytes junk (a # b # c # d # bs) = word_of_bytes a b c d # pack_bytes junk bs"

section \<open>Adding and getting tokens\<close>

definition tok_str_add2 :: "bool \<Rightarrow> nat \<Rightarrow> u8 \<Rightarrow> u32 list \<Rightarrow> u32 \<Rightarrow> cvalue \<Rightarrow> u32 list" where
  "tok_str_add2 ls8 ldw junk s t cv =
     s @ [t] @
     (case tok_class ls8 ldw t of
        No_value \<Rightarrow> []
      | Words n \<Rightarrow>
          (case cv of CV_tab tab \<Rightarrow>
             [tab ! 0, tab ! 1] @ (if t = 0xcc \<and> ldw \<ge> 3 then [tab ! 2] else []) @ (if t = 0xcc \<and> ldw \<ge> 4 then [tab ! 3] else [])
           | CV_str bs \<Rightarrow> [])
      | Text \<Rightarrow> (case cv of CV_str bs \<Rightarrow> of_nat (length bs) # pack_bytes junk bs | CV_tab tab \<Rightarrow> [])
      | _ \<Rightarrow> (case cv of CV_tab tab \<Rightarrow> [tab ! 0] | CV_str bs \<Rightarrow> []))"

definition sign_word :: "u32 \<Rightarrow> u32" where
  "sign_word w = (if sint w < 0 then - 1 else 0)"

text \<open>The token, its value and the rest of the array.\<close>

definition tok_get :: "bool \<Rightarrow> nat \<Rightarrow> u32 list \<Rightarrow> u32 \<times> cvalue \<times> u32 list" where
  "tok_get ls8 ldw p =
     (let t = hd p; p = tl p in
      case tok_class ls8 ldw t of
        Signed_word \<Rightarrow> (t, CV_tab [hd p, sign_word (hd p)], tl p)
      | Unsigned_word \<Rightarrow> (t, CV_tab [hd p, 0], tl p)
      | Raw_word \<Rightarrow> (t, CV_tab [hd p], tl p)
      | Words n \<Rightarrow> (t, CV_tab (take n p), drop n p)
      | Text \<Rightarrow>
          let sz = unat (hd p); p = tl p; k = (sz + 3) div 4
          in (t, CV_str (take sz (concat (map bytes_of_word (take k p)))), drop k p)
      | No_value \<Rightarrow> (t, CV_tab [], p))"

text \<open>\<open>tok_str_add_tok\<close>: a token for the line number comes first when the line has changed.\<close>

record tok_string =
  ts_str :: "u32 list"
  ts_last_line :: u32

definition tok_str_add_tok :: "bool \<Rightarrow> nat \<Rightarrow> u8 \<Rightarrow> u32 \<Rightarrow> tok_string \<Rightarrow> u32 \<Rightarrow> cvalue \<Rightarrow> tok_string" where
  "tok_str_add_tok ls8 ldw junk line s t cv =
     (let s = (if line \<noteq> ts_last_line s then
            s\<lparr>ts_last_line := line, ts_str := tok_str_add2 ls8 ldw junk (ts_str s) 0xcf (CV_tab [line, sign_word line])\<rparr>
          else s)
      in s\<lparr>ts_str := tok_str_add2 ls8 ldw junk (ts_str s) t cv\<rparr>)"

section \<open>The table of identifiers\<close>

text \<open>Pointers to symbols are positions in \<open>table_ident\<close>; \<open>tok_ident\<close> is \<open>TOK_IDENT\<close> and the length of that
  array. A symbol that the parser gives to the identifier is not part of this model.\<close>

datatype tok_error = Memory_full_symbols

abbreviation (input) TOK_IDENT :: nat where "TOK_IDENT \<equiv> 256"
abbreviation (input) SYM_FIRST_ANOM :: nat where "SYM_FIRST_ANOM \<equiv> 0x10000000"

record tok_sym =
  sym_str :: "u8 list"
  sym_tok :: nat
  hash_next :: "nat option"

record tok_table =
  table_ident :: "tok_sym list"
  hash_ident :: "nat \<Rightarrow> nat option"

abbreviation (input) TOK_HASH_SIZE :: u32 where "TOK_HASH_SIZE \<equiv> 16384"

definition tok_hash_step :: "u32 \<Rightarrow> u8 \<Rightarrow> u32" where
  "tok_hash_step h c = h + push_bit 5 h + drop_bit 27 h + ucast c"

definition tok_hash :: "u8 list \<Rightarrow> nat" where
  "tok_hash s = unat (foldl tok_hash_step 1 s AND (TOK_HASH_SIZE - 1))"

text \<open>Where the search ends: at the symbol found, or at the link that is to point to a new one: the head of
  the chain (\<open>None\<close>) or a symbol. A chain with a cycle would never end.\<close>

partial_function (option) tok_search ::
  "tok_sym list \<Rightarrow> u8 list \<Rightarrow> nat option \<Rightarrow> nat option \<Rightarrow> (nat + nat option) option" where
  "tok_search tab s pts ts =
     (if ts = None then Some (Inr pts)
      else if sym_str (tab ! the ts) = s then Some (Inl (the ts))
      else tok_search tab s ts (hash_next (tab ! the ts)))"

definition tok_alloc_new :: "tok_table \<Rightarrow> nat \<Rightarrow> nat option \<Rightarrow> u8 list \<Rightarrow> tok_error + nat \<times> tok_table" where
  "tok_alloc_new tb h pts s =
     (let i = length (table_ident tb); tok_ident = TOK_IDENT + i;
          tab = table_ident tb @ [\<lparr>sym_str = s, sym_tok = tok_ident, hash_next = None\<rparr>]
      in if tok_ident \<ge> SYM_FIRST_ANOM then Inl Memory_full_symbols
         else Inr (i, case pts of
               None \<Rightarrow> tb\<lparr>table_ident := tab, hash_ident := (hash_ident tb)(h := Some i)\<rparr>
             | Some j \<Rightarrow> tb\<lparr>table_ident := tab[j := (tab ! j)\<lparr>hash_next := Some i\<rparr>]\<rparr>))"

definition tok_alloc :: "tok_table \<Rightarrow> u8 list \<Rightarrow> (tok_error + nat \<times> tok_table) option" where
  "tok_alloc tb s =
     (let h = tok_hash s in
      map_option (\<lambda>r. case r of Inl i \<Rightarrow> Inr (i, tb) | Inr pts \<Rightarrow> tok_alloc_new tb h pts s)
        (tok_search (table_ident tb) s None (hash_ident tb h)))"

section \<open>Tokens are read back\<close>

lemma bytes_of_word: "bytes_of_word (word_of_bytes a b c d) = [a, b, c, d]"
proof -
  have l: "bit (x :: u8) n \<Longrightarrow> n < 8" for x n using bit_imp_le_length [of x n] by simp
  have "ucast (word_of_bytes a b c d) = a" "ucast (drop_bit 8 (word_of_bytes a b c d)) = b"
    "ucast (drop_bit 16 (word_of_bytes a b c d)) = c" "ucast (drop_bit 24 (word_of_bytes a b c d)) = d"
    by (rule bit_word_eqI; auto simp: word_of_bytes_def bit_simps dest: l)+
  then show ?thesis by (simp add: bytes_of_word_def)
qed

lemma pack_bytes:
  "length (pack_bytes junk bs) = (length bs + 3) div 4 \<and>
   take (length bs) (concat (map bytes_of_word (pack_bytes junk bs))) = bs"
  by (induction junk bs rule: pack_bytes.induct) (simp_all add: bytes_of_word)

text \<open>The values that the code gives to a token of a class.\<close>

definition value_ok :: "bool \<Rightarrow> nat \<Rightarrow> u32 \<Rightarrow> cvalue \<Rightarrow> bool" where
  "value_ok ls8 ldw t cv \<longleftrightarrow>
     (case tok_class ls8 ldw t of
        Signed_word \<Rightarrow> \<exists>w. cv = CV_tab [w, sign_word w]
      | Unsigned_word \<Rightarrow> \<exists>w. cv = CV_tab [w, 0]
      | Raw_word \<Rightarrow> \<exists>w. cv = CV_tab [w]
      | Words n \<Rightarrow> \<exists>tab. cv = CV_tab tab \<and> length tab = n
      | Text \<Rightarrow> \<exists>bs. cv = CV_str bs \<and> length bs < 2 ^ 31
      | No_value \<Rightarrow> cv = CV_tab [])"

lemma tab_split: "length tab = 2 \<Longrightarrow> [tab ! 0, tab ! 1] = tab" "length tab = 3 \<Longrightarrow> [tab ! 0, tab ! 1, tab ! 2] = tab"
  "length tab = 4 \<Longrightarrow> [tab ! 0, tab ! 1, tab ! 2, tab ! 3] = tab"
  by (auto simp: list_eq_iff_nth_eq less_Suc_eq nth_Cons' eval_nat_numeral)

lemma tok_get_add2:
  assumes "value_ok ls8 ldw t cv" "ldw \<in> {2, 3, 4}"
  shows "tok_get ls8 ldw (tok_str_add2 ls8 ldw junk [] t cv @ r) = (t, cv, r)"
proof (cases "tok_class ls8 ldw t")
  case Text
  then obtain bs where bs: "cv = CV_str bs" "length bs < 2 ^ 31" using assms(1) by (auto simp: value_ok_def)
  have "unat (of_nat (length bs) :: u32) = length bs" using bs(2) by (simp add: unat_of_nat)
  then show ?thesis
    using Text bs(1) pack_bytes [of junk bs] by (simp add: tok_get_def tok_str_add2_def Let_def)
next
  case (Words n)
  then obtain tab where tab: "cv = CV_tab tab" "length tab = n" using assms(1) by (auto simp: value_ok_def)
  have n: "n = (if t = 0xcc then ldw else 2)" using Words by (auto simp: tok_class_def split: if_splits)
  have "tok_str_add2 ls8 ldw junk [] t cv = t # tab"
    using Words tab n assms(2) tab_split [of tab] by (auto simp: tok_str_add2_def)
  then show ?thesis using Words tab by (simp add: tok_get_def Let_def)
qed (use assms(1) in \<open>auto simp: value_ok_def tok_get_def tok_str_add2_def Let_def\<close>)

fun tok_get_all :: "bool \<Rightarrow> nat \<Rightarrow> nat \<Rightarrow> u32 list \<Rightarrow> (u32 \<times> cvalue) list \<times> u32 list" where
  "tok_get_all ls8 ldw 0 p = ([], p)"
| "tok_get_all ls8 ldw (Suc k) p =
     (let (t, cv, p) = tok_get ls8 ldw p; (ts, p) = tok_get_all ls8 ldw k p in ((t, cv) # ts, p))"

lemma tok_str_add2_append: "tok_str_add2 ls8 ldw junk s t cv = s @ tok_str_add2 ls8 ldw junk [] t cv"
  by (simp add: tok_str_add2_def)

lemma add_all: "fold (\<lambda>(t, cv) s. tok_str_add2 ls8 ldw junk s t cv) ts s =
    s @ concat (map (\<lambda>(t, cv). tok_str_add2 ls8 ldw junk [] t cv) ts)"
proof (induction ts arbitrary: s)
  case (Cons x ts)
  then show ?case by (cases x) (simp add: tok_str_add2_append [of ls8 ldw junk s])
qed simp

lemma tok_get_all_concat:
  "\<forall>(t, cv)\<in>set ts. value_ok ls8 ldw t cv \<Longrightarrow> ldw \<in> {2, 3, 4} \<Longrightarrow>
   tok_get_all ls8 ldw (length ts) (concat (map (\<lambda>(t, cv). tok_str_add2 ls8 ldw junk [] t cv) ts) @ r) = (ts, r)"
proof (induction ts)
  case (Cons x ts)
  obtain t cv where x: "x = (t, cv)" by fastforce
  have "value_ok ls8 ldw t cv" using Cons.prems(1) x by simp
  then show ?case using Cons x by (simp add: tok_get_add2 del: insert_iff)
qed simp

text \<open>A string of tokens gives back the tokens and their values, in order, for every size of \<open>long\<close> and
  \<open>long double\<close> and whatever the unused bytes of texts hold.\<close>

lemma tok_str_roundtrip:
  assumes "\<forall>(t, cv)\<in>set ts. value_ok ls8 ldw t cv" "ldw \<in> {2, 3, 4}"
  shows "tok_get_all ls8 ldw (length ts) (fold (\<lambda>(t, cv) s. tok_str_add2 ls8 ldw junk s t cv) ts [] @ [0]) = (ts, [0])"
  unfolding add_all append_Nil by (rule tok_get_all_concat [OF assms])

section \<open>Every identifier has one token\<close>

fun chain :: "tok_sym list \<Rightarrow> nat option \<Rightarrow> nat list \<Rightarrow> bool" where
  "chain tab v [] \<longleftrightarrow> v = None"
| "chain tab v (x # xs) \<longleftrightarrow> v = Some x \<and> x < length tab \<and> chain tab (hash_next (tab ! x)) xs"

definition bucket_of :: "tok_sym list \<Rightarrow> nat \<Rightarrow> nat set" where
  "bucket_of tab h = {i. i < length tab \<and> tok_hash (sym_str (tab ! i)) = h}"

text \<open>Every chain holds exactly the identifiers with its hash value, no identifier is there twice, and
  tokens are given in order.\<close>

definition tok_table_ok :: "tok_table \<Rightarrow> bool" where
  "tok_table_ok tb \<longleftrightarrow> distinct (map sym_str (table_ident tb)) \<and>
     (\<forall>i < length (table_ident tb). sym_tok (table_ident tb ! i) = TOK_IDENT + i) \<and>
     (\<forall>h. \<exists>xs. distinct xs \<and> set xs = bucket_of (table_ident tb) h \<and> chain (table_ident tb) (hash_ident tb h) xs)"

lemma tok_table_chain:
  assumes "tok_table_ok tb"
  obtains xs where "distinct xs" "set xs = bucket_of (table_ident tb) h" "chain (table_ident tb) (hash_ident tb h) xs"
proof -
  have "\<exists>xs. distinct xs \<and> set xs = bucket_of (table_ident tb) h \<and> chain (table_ident tb) (hash_ident tb h) xs"
    using assms unfolding tok_table_ok_def by blast
  then show thesis using that by blast
qed

definition tok_names :: "tok_table \<Rightarrow> u8 list list" where
  "tok_names tb = map sym_str (table_ident tb)"

lemma tok_search_chain:
  "chain tab v xs \<Longrightarrow> tok_search tab s pts v =
     Some (case find (\<lambda>i. sym_str (tab ! i) = s) xs of
             Some i \<Rightarrow> Inl i
           | None \<Rightarrow> Inr (if xs = [] then pts else Some (last xs)))"
proof (induction xs arbitrary: v pts)
  case Nil
  then show ?case by (subst tok_search.simps) simp
next
  case (Cons x xs)
  then show ?case by (subst tok_search.simps) (auto split: option.split)
qed

lemma chain_other:
  "chain tab v xs \<Longrightarrow> (\<And>x. x \<in> set xs \<Longrightarrow> x < length tab' \<and> hash_next (tab' ! x) = hash_next (tab ! x)) \<Longrightarrow> chain tab' v xs"
  by (induction xs arbitrary: v) auto

lemma chain_last: "chain tab v xs \<Longrightarrow> xs \<noteq> [] \<Longrightarrow> last xs < length tab \<and> last xs \<in> set xs"
  by (induction xs arbitrary: v) (auto simp: neq_Nil_conv)

lemma chain_snoc:
  "chain tab v xs \<Longrightarrow> distinct xs \<Longrightarrow> xs \<noteq> [] \<Longrightarrow>
   (\<And>x. x \<in> set xs \<Longrightarrow> x < length tab') \<Longrightarrow>
   (\<And>x. x \<in> set xs \<Longrightarrow> x \<noteq> last xs \<Longrightarrow> hash_next (tab' ! x) = hash_next (tab ! x)) \<Longrightarrow>
   hash_next (tab' ! last xs) = Some n \<Longrightarrow> n < length tab' \<Longrightarrow> hash_next (tab' ! n) = None \<Longrightarrow> chain tab' v (xs @ [n])"
proof (induction xs arbitrary: v)
  case (Cons x xs)
  show ?case
  proof (cases "xs = []")
    case False
    then have "x \<noteq> last xs" using Cons.prems(2) by auto
    then have "hash_next (tab' ! x) = hash_next (tab ! x)" using Cons.prems(5) [of x] False by simp
    then show ?thesis using Cons False by simp
  qed (use Cons.prems in simp)
qed simp

lemma bucket_of_snoc:
  assumes "\<And>i. i < length tab \<Longrightarrow> sym_str (tab' ! i) = sym_str (tab ! i)" "length tab' = Suc (length tab)"
    "sym_str (tab' ! length tab) = s"
  shows "bucket_of tab' h = bucket_of tab h \<union> (if h = tok_hash s then {length tab} else {})"
  using assms by (auto simp: bucket_of_def less_Suc_eq)

text \<open>What \<open>tok_alloc_new\<close> does to the array: the texts stay, and only the end of the chain \<open>xs\<close> gets
  another link, to the new symbol.\<close>

lemma tok_alloc_new_tab:
  assumes "tok_alloc_new tb h (if xs = [] then None else Some (last xs)) s = Inr (i, tb')"
    "xs \<noteq> [] \<Longrightarrow> last xs < length (table_ident tb)"
  shows "i = length (table_ident tb)" "length (table_ident tb') = Suc (length (table_ident tb))"
    "j < length (table_ident tb) \<Longrightarrow> sym_str (table_ident tb' ! j) = sym_str (table_ident tb ! j)"
    "j < length (table_ident tb) \<Longrightarrow> sym_tok (table_ident tb' ! j) = sym_tok (table_ident tb ! j)"
    "table_ident tb' ! length (table_ident tb) = \<lparr>sym_str = s, sym_tok = TOK_IDENT + length (table_ident tb), hash_next = None\<rparr>"
    "j < length (table_ident tb) \<Longrightarrow> xs = [] \<or> j \<noteq> last xs \<Longrightarrow> hash_next (table_ident tb' ! j) = hash_next (table_ident tb ! j)"
    "xs \<noteq> [] \<Longrightarrow> hash_next (table_ident tb' ! last xs) = Some (length (table_ident tb))"
    "hash_ident tb' = (if xs = [] then (hash_ident tb)(h := Some (length (table_ident tb))) else hash_ident tb)"
  using assms by (auto simp: tok_alloc_new_def Let_def nth_append nth_list_update split: if_splits)

lemma chain_new:
  assumes "distinct xs" "set xs = bucket_of (table_ident tb) h" "chain (table_ident tb) (hash_ident tb h) xs"
    "tok_alloc_new tb h (if xs = [] then None else Some (last xs)) s = Inr (i, tb')"
  shows "chain (table_ident tb') (hash_ident tb' h) (xs @ [length (table_ident tb)])"
proof (cases "xs = []")
  case False
  note tab = tok_alloc_new_tab [OF assms(4) conjunct1 [OF chain_last [OF assms(3)]]]
  have "x < length (table_ident tb)" if "x \<in> set xs" for x using that assms(2) by (auto simp: bucket_of_def)
  then have "chain (table_ident tb') (hash_ident tb h) (xs @ [length (table_ident tb)])"
    using False tab(2,5,6,7) by (intro chain_snoc [OF assms(3,1)]) (auto simp: less_SucI)
  then show ?thesis using False by (simp add: tab(8))
qed (use tok_alloc_new_tab [OF assms(4)] in simp)

lemma chain_kept:
  assumes "set xs = bucket_of (table_ident tb) h" "chain (table_ident tb) (hash_ident tb h) xs"
    "tok_alloc_new tb h (if xs = [] then None else Some (last xs)) s = Inr (i, tb')"
    "set ys = bucket_of (table_ident tb) h'" "chain (table_ident tb) (hash_ident tb h') ys" "h' \<noteq> h"
  shows "chain (table_ident tb') (hash_ident tb' h') ys"
proof -
  note tab = tok_alloc_new_tab [OF assms(3) conjunct1 [OF chain_last [OF assms(2)]]]
  have "y < length (table_ident tb) \<and> (xs = [] \<or> y \<noteq> last xs)" if "y \<in> set ys" for y
    using that assms(1,4,6) last_in_set [of xs] by (auto simp: bucket_of_def)
  then have "chain (table_ident tb') (hash_ident tb h') ys"
    using tab(2,6) by (intro chain_other [OF assms(5)]) (auto simp: less_SucI)
  then show ?thesis using assms(6) by (simp add: tab(8))
qed

lemma tok_alloc_new_ok:
  assumes ok: "tok_table_ok tb" and s: "s \<notin> set (tok_names tb)"
    and xs: "distinct xs" "set xs = bucket_of (table_ident tb) (tok_hash s)" "chain (table_ident tb) (hash_ident tb (tok_hash s)) xs"
    and new: "tok_alloc_new tb (tok_hash s) (if xs = [] then None else Some (last xs)) s = Inr (i, tb')"
  shows "i = length (tok_names tb) \<and> tok_names tb' = tok_names tb @ [s] \<and> tok_table_ok tb'"
proof -
  note tab = tok_alloc_new_tab [OF new conjunct1 [OF chain_last [OF xs(3)]]]
  have names: "tok_names tb' = tok_names tb @ [s]"
    unfolding tok_names_def using tab(2,3,5) by (intro nth_equalityI) (auto simp: nth_append less_Suc_eq)
  have b: "bucket_of (table_ident tb') h =
      bucket_of (table_ident tb) h \<union> (if h = tok_hash s then {length (table_ident tb)} else {})" for h
    by (rule bucket_of_snoc) (simp_all add: tab(2,3,5))
  have "\<exists>ys. distinct ys \<and> set ys = bucket_of (table_ident tb') h \<and> chain (table_ident tb') (hash_ident tb' h) ys" for h
  proof (cases "h = tok_hash s")
    case True
    have "length (table_ident tb) \<notin> set xs" using xs(2) by (auto simp: bucket_of_def)
    then show ?thesis using chain_new [OF xs new] True xs(1,2) b
      by (intro exI [of _ "xs @ [length (table_ident tb)]"]) auto
  next
    case False
    obtain ys where "distinct ys" "set ys = bucket_of (table_ident tb) h" "chain (table_ident tb) (hash_ident tb h) ys"
      by (rule tok_table_chain [OF ok])
    then show ?thesis using chain_kept [OF xs(2,3) new] False b by auto
  qed
  moreover have "distinct (tok_names tb')" using names ok s by (simp add: tok_table_ok_def tok_names_def)
  moreover have "\<forall>j < length (table_ident tb'). sym_tok (table_ident tb' ! j) = TOK_IDENT + j"
    using ok tab(2,4,5) by (auto simp: tok_table_ok_def less_Suc_eq)
  ultimately show ?thesis using names tab(1) by (simp add: tok_table_ok_def tok_names_def)
qed

text \<open>C26: The table of identifiers implements a list of different names: the search for a name ends, a name
  that is there has its position as its token and nothing changes, any other is put at the end, and the
  only error is that the tokens of identifiers are used up.\<close>

theorem tok_alloc_refines:
  assumes "tok_table_ok tb"
  shows "\<exists>r. tok_alloc tb s = Some r \<and>
    (case r of
       Inl e \<Rightarrow> s \<notin> set (tok_names tb) \<and> length (tok_names tb) \<ge> SYM_FIRST_ANOM - TOK_IDENT
     | Inr (i, tb') \<Rightarrow> tok_table_ok tb' \<and> i < length (tok_names tb') \<and> tok_names tb' ! i = s \<and>
         sym_tok (table_ident tb' ! i) = TOK_IDENT + i \<and>
         (if s \<in> set (tok_names tb) then tb' = tb
          else length (tok_names tb) < SYM_FIRST_ANOM - TOK_IDENT \<and> tok_names tb' = tok_names tb @ [s]))"
proof -
  let ?tab = "table_ident tb" and ?h = "tok_hash s"
  obtain xs where xs: "distinct xs" "set xs = bucket_of ?tab ?h" "chain ?tab (hash_ident tb ?h) xs"
    by (rule tok_table_chain [OF assms])
  note srch = tok_search_chain [OF xs(3), of s None]
  show ?thesis
  proof (cases "find (\<lambda>i. sym_str (?tab ! i) = s) xs")
    case None
    have "s \<notin> set (tok_names tb)"
    proof
      assume "s \<in> set (tok_names tb)"
      then obtain i where "i < length ?tab" "sym_str (?tab ! i) = s" by (auto simp: tok_names_def in_set_conv_nth)
      then show False using None xs(2) by (auto simp: find_None_iff bucket_of_def)
    qed
    note s = this
    show ?thesis
    proof (cases "tok_alloc_new tb ?h (if xs = [] then None else Some (last xs)) s")
      case (Inl e)
      then show ?thesis using s srch None
        by (auto simp: tok_alloc_def tok_alloc_new_def Let_def tok_names_def split: if_splits)
    next
      case (Inr p)
      obtain i tb' where p: "p = (i, tb')" by fastforce
      have "length (tok_names tb) < SYM_FIRST_ANOM - TOK_IDENT"
        using Inr by (auto simp: tok_alloc_new_def Let_def tok_names_def split: if_splits)
      moreover note ok = tok_alloc_new_ok [OF assms s xs Inr [unfolded p]]
      moreover have "tok_alloc tb s = Some (Inr (i, tb'))" using srch None Inr p by (simp add: tok_alloc_def Let_def)
      moreover have "length (table_ident tb') = length (tok_names tb')" by (simp add: tok_names_def)
      then have "sym_tok (table_ident tb' ! i) = TOK_IDENT + i" using ok by (simp add: tok_table_ok_def)
      ultimately show ?thesis using s by simp
    qed
  next
    case (Some i)
    then have i: "i < length ?tab" "sym_str (?tab ! i) = s"
      using xs(2) by (auto simp: find_Some_iff bucket_of_def dest: nth_mem)
    then have "s \<in> set (tok_names tb)" by (force simp: tok_names_def)
    moreover have "tok_names tb ! i = s" "i < length (tok_names tb)" using i by (simp_all add: tok_names_def)
    moreover have "sym_tok (?tab ! i) = TOK_IDENT + i" using assms i(1) by (simp add: tok_table_ok_def)
    moreover have "tok_alloc tb s = Some (Inr (i, tb))" using srch Some by (simp add: tok_alloc_def Let_def)
    ultimately show ?thesis using assms by simp
  qed
qed

lemma tok_alloc_refines_witness:
  "\<exists>i tb'. tok_alloc \<lparr>table_ident = [], hash_ident = \<lambda>_. None\<rparr> [0x69, 0x66] = Some (Inr (i, tb')) \<and> tok_names tb' = [[0x69, 0x66]]"
proof -
  have "tok_table_ok \<lparr>table_ident = [], hash_ident = \<lambda>_. None\<rparr>" by (auto simp: tok_table_ok_def bucket_of_def)
  from tok_alloc_refines [OF this, of "[0x69, 0x66]"] show ?thesis by (auto simp: tok_names_def split: sum.splits) (metis obj_sumE surj_pair)
qed

lemma tok_str_roundtrip_witness:
  "tok_get_all True 4 2 (fold (\<lambda>(t, cv) s. tok_str_add2 True 4 7 s t cv) [(0xc8, CV_str [0x61, 0]), (0xc2, CV_tab [5, 0])] [] @ [0]) =
     ([(0xc8, CV_str [0x61, 0]), (0xc2, CV_tab [5, 0])], [0])"
proof -
  let ?ts = "[(0xc8, CV_str [0x61, 0]), (0xc2, CV_tab [5, 0])]"
  have v: "\<forall>(t, cv)\<in>set ?ts. value_ok True 4 t cv" by (simp add: value_ok_def tok_class_def sign_word_def)
  have "length ?ts = 2" by simp
  then show ?thesis using tok_str_roundtrip [OF v, of 7] by (simp add: numeral_2_eq_2 del: tok_get_all.simps)
qed

end
