(* ===== verification/Psx_Ipc.thy ===== *)
theory Psx_Ipc
  imports Tcc_Prelude
begin

text \<open>
  The state of the System V IPC layer (\<open>psxscl-2015/src/ipc/_ipc.c\<close>): the static tables of
  message queues, semaphore sets and shared memory segments, the sequence counter, the
  encoding of identifiers, and what the functions read of the process and the clock.
  Tables are functions from slot indexes; the scans bound the index by \<open>PSX_IPC_CAP\<close>.
  \<open>long\<close> and \<open>size_t\<close> are 64 bits wide on the nt64 target.
\<close>

section \<open>Constants\<close>

abbreviation (input) PSX_IPC_CAP :: nat where "PSX_IPC_CAP \<equiv> 64"
abbreviation (input) PSX_IPC_SEQ_MASK :: u32 where "PSX_IPC_SEQ_MASK \<equiv> 0xFFFF"

abbreviation (input) PSX_IPC_CREAT :: u32 where "PSX_IPC_CREAT \<equiv> 0x200"
abbreviation (input) PSX_IPC_EXCL :: u32 where "PSX_IPC_EXCL \<equiv> 0x400"
abbreviation (input) PSX_IPC_NOWAIT :: u32 where "PSX_IPC_NOWAIT \<equiv> 0x800"
abbreviation (input) PSX_IPC_PRIVATE :: u32 where "PSX_IPC_PRIVATE \<equiv> 0"
abbreviation (input) PSX_IPC_RMID :: int where "PSX_IPC_RMID \<equiv> 0"
abbreviation (input) PSX_IPC_SET :: int where "PSX_IPC_SET \<equiv> 1"
abbreviation (input) PSX_IPC_STAT :: int where "PSX_IPC_STAT \<equiv> 2"

abbreviation (input) PSX_MSG_NOERROR :: u32 where "PSX_MSG_NOERROR \<equiv> 0x1000"
abbreviation (input) PSX_MSG_EXCEPT :: u32 where "PSX_MSG_EXCEPT \<equiv> 0x2000"
abbreviation (input) PSX_MSG_SLOTS :: nat where "PSX_MSG_SLOTS \<equiv> 32"
abbreviation (input) PSX_MSG_MSGSZ :: nat where "PSX_MSG_MSGSZ \<equiv> 2048"
abbreviation (input) PSX_MSG_QBYTES :: u64 where "PSX_MSG_QBYTES \<equiv> 16384"

abbreviation (input) PSX_SEM_NSEMS :: int where "PSX_SEM_NSEMS \<equiv> 32"
abbreviation (input) PSX_SHM_SIZE :: u64 where "PSX_SHM_SIZE \<equiv> 65536"

section \<open>The objects\<close>

text \<open>\<open>struct __psx_ipc_perm\<close>; the two padding words carry no information.\<close>

record ipc_perm =
  perm_key :: u32
  perm_uid :: u32
  perm_gid :: u32
  perm_cuid :: u32
  perm_cgid :: u32
  perm_mode :: u32
  perm_seq :: u32

record msqid_ds =
  msg_perm :: ipc_perm
  msg_stime :: int
  msg_rtime :: int
  msg_ctime :: int
  msg_cbytes :: u64
  msg_qnum :: u64
  msg_qbytes :: u64
  msg_lspid :: u32
  msg_lrpid :: u32

record semid_ds =
  sem_perm :: ipc_perm
  sem_otime :: int
  sem_ctime :: int
  sem_nsems :: u16

record shmid_ds =
  shm_perm :: ipc_perm
  shm_segsz :: u64
  shm_atime :: int
  shm_dtime :: int
  shm_ctime :: int
  shm_cpid :: u32
  shm_lpid :: u32
  shm_nattch :: u64

record psx_msg =
  msg_used :: bool
  msg_len :: u32
  msg_mtype :: u64
  msg_data :: buf

record psx_msq =
  msq_used :: bool
  msq_seq :: u32
  msq_key :: u32
  msq_ds :: msqid_ds
  msq_msg :: "nat \<Rightarrow> psx_msg"

record psx_sembuf =
  sem_num :: u16
  sem_op :: u16
  sem_flg :: u16

record psx_sem =
  sem_used :: bool
  sem_seq :: u32
  sem_key :: u32
  sem_ds :: semid_ds
  sem_val :: "nat \<Rightarrow> u16"
  sem_pid :: "nat \<Rightarrow> u32"

record psx_shm =
  shm_used :: bool
  shm_seq :: u32
  shm_key :: u32
  shm_ds :: shmid_ds
  shm_data :: buf

text \<open>
  The module state, with what it reads of the rest of the process: user and group
  (\<open>__psx.__uid\<close>, \<open>__psx.__gid\<close>), process id, and the clock.
\<close>

record ipc =
  msqs :: "nat \<Rightarrow> psx_msq"
  sems :: "nat \<Rightarrow> psx_sem"
  shms :: "nat \<Rightarrow> psx_shm"
  ipc_seq :: u32
  ipc_uid :: u32
  ipc_gid :: u32
  ipc_pid :: u32
  ipc_clock :: timespec

text \<open>Slots as \<open>memset\<close> to zero leaves them, which is also how the tables start.\<close>

definition zero_perm :: ipc_perm where
  "zero_perm = \<lparr>perm_key = 0, perm_uid = 0, perm_gid = 0, perm_cuid = 0, perm_cgid = 0,
     perm_mode = 0, perm_seq = 0\<rparr>"

definition zero_msg :: psx_msg where
  "zero_msg = \<lparr>msg_used = False, msg_len = 0, msg_mtype = 0, msg_data = (\<lambda>_. 0)\<rparr>"

definition zero_msq :: psx_msq where
  "zero_msq = \<lparr>msq_used = False, msq_seq = 0, msq_key = 0,
     msq_ds = \<lparr>msg_perm = zero_perm, msg_stime = 0, msg_rtime = 0, msg_ctime = 0,
       msg_cbytes = 0, msg_qnum = 0, msg_qbytes = 0, msg_lspid = 0, msg_lrpid = 0\<rparr>,
     msq_msg = (\<lambda>_. zero_msg)\<rparr>"

definition zero_sem :: psx_sem where
  "zero_sem = \<lparr>sem_used = False, sem_seq = 0, sem_key = 0,
     sem_ds = \<lparr>sem_perm = zero_perm, sem_otime = 0, sem_ctime = 0, sem_nsems = 0\<rparr>,
     sem_val = (\<lambda>_. 0), sem_pid = (\<lambda>_. 0)\<rparr>"

definition zero_shm :: psx_shm where
  "zero_shm = \<lparr>shm_used = False, shm_seq = 0, shm_key = 0,
     shm_ds = \<lparr>shm_perm = zero_perm, shm_segsz = 0, shm_atime = 0, shm_dtime = 0,
       shm_ctime = 0, shm_cpid = 0, shm_lpid = 0, shm_nattch = 0\<rparr>,
     shm_data = (\<lambda>_. 0)\<rparr>"

definition ipc_init :: "u32 \<Rightarrow> u32 \<Rightarrow> u32 \<Rightarrow> timespec \<Rightarrow> ipc" where
  "ipc_init uid gid pid clk = \<lparr>msqs = (\<lambda>_. zero_msq), sems = (\<lambda>_. zero_sem),
     shms = (\<lambda>_. zero_shm), ipc_seq = 0, ipc_uid = uid, ipc_gid = gid, ipc_pid = pid,
     ipc_clock = clk\<rparr>"

section \<open>Helpers\<close>

definition psx_ipc_time :: "ipc \<Rightarrow> int" where
  "psx_ipc_time s = tv_sec (ipc_clock s)"

definition psx_ipc_pid :: "ipc \<Rightarrow> u32" where
  "psx_ipc_pid s = ipc_pid s"

definition psx_ipc_perm_init :: "ipc \<Rightarrow> u32 \<Rightarrow> u32 \<Rightarrow> ipc_perm" where
  "psx_ipc_perm_init s key mode = \<lparr>perm_key = key, perm_uid = ipc_uid s, perm_gid = ipc_gid s,
     perm_cuid = ipc_uid s, perm_cgid = ipc_gid s, perm_mode = mode, perm_seq = ipc_seq s\<rparr>"

text \<open>Identifiers: \<open>(seq << 16) | (idx + 1)\<close>, computed in 32 bits.\<close>

definition psx_ipc_id :: "nat \<Rightarrow> u32 \<Rightarrow> u32" where
  "psx_ipc_id idx seq = push_bit 16 (seq AND PSX_IPC_SEQ_MASK) OR (of_nat idx + 1)"

definition psx_ipc_idx :: "u32 \<Rightarrow> u32 \<Rightarrow> nat option" where
  "psx_ipc_idx ident seq =
     (let lo = ident AND PSX_IPC_SEQ_MASK;
          hi = drop_bit 16 ident AND PSX_IPC_SEQ_MASK
      in if lo = 0 \<or> lo > of_nat PSX_IPC_CAP then None
         else if hi \<noteq> seq AND PSX_IPC_SEQ_MASK then None
         else Some (unat (lo - 1)))"

definition psx_ipc_deadline :: "ipc \<Rightarrow> timespec \<Rightarrow> bool" where
  "psx_ipc_deadline s ts \<longleftrightarrow> tv_sec (ipc_clock s) > tv_sec ts \<or>
     (tv_sec (ipc_clock s) = tv_sec ts \<and> tv_nsec (ipc_clock s) \<ge> tv_nsec ts)"

text \<open>
  An identifier decodes to the index it was made from under any sequence number that
  agrees with its own in the low 16 bits, and to nothing under any other.
\<close>

lemma ipc_slot_number:
  assumes "i < 64"
  shows "unat (of_nat i + 1 :: u32) = i + 1" and "take_bit 16 (of_nat i + 1 :: u32) = of_nat i + 1"
proof -
  show *: "unat (of_nat i + 1 :: u32) = i + 1"
    using assms by (simp add: unat_word_ariths unat_of_nat)
  have "unat (of_nat i + 1 :: u32) < 2 ^ 16" using assms * by simp
  then show "take_bit 16 (of_nat i + 1 :: u32) = of_nat i + 1"
    by (rule take_bit_word_small)
qed

lemma psx_ipc_idx_id:
  assumes "i < 64"
  shows "psx_ipc_idx (psx_ipc_id i q) q' =
    (if take_bit 16 q = take_bit 16 q' then Some i else None)"
proof -
  note n = ipc_slot_number [OF assms]
  let ?id = "psx_ipc_id i q"
  have lo: "take_bit 16 ?id = of_nat i + 1"
    using pack16_low [OF n(2)] by (simp add: psx_ipc_id_def and_0xFFFF)
  have hi: "take_bit 16 (drop_bit 16 ?id) = take_bit 16 q"
    using pack16_high [OF n(2)] by (simp add: psx_ipc_id_def and_0xFFFF)
  have "of_nat i + 1 \<noteq> (0::u32)" using n(1) by (metis Suc_eq_plus1 nat.distinct(1) unat_0)
  moreover have "\<not> (of_nat i + 1 > (64::u32))" using assms n(1) by (simp add: word_less_nat_alt)
  ultimately show ?thesis
    using assms by (simp add: psx_ipc_idx_def lo hi Let_def and_0xFFFF unat_of_nat)
qed

lemma first_ipc_idx_id:
  assumes "i < 64"
  shows "first_idx (\<lambda>j. psx_ipc_idx (psx_ipc_id i q) (sq j) = Some j) 64 =
    (if take_bit 16 q = take_bit 16 (sq i) then Some i else None)"
proof -
  have *: "psx_ipc_idx (psx_ipc_id i q) (sq j) = Some j \<longleftrightarrow>
      j = i \<and> take_bit 16 q = take_bit 16 (sq i)" for j
    by (auto simp: psx_ipc_idx_id [OF assms] split: if_splits)
  show ?thesis
    unfolding * by (auto simp: first_idx_Some_iff first_idx_None_iff assms)
qed

section \<open>Tables with identifiers\<close>

text \<open>
  The contract the three tables share beyond their keys: an allocation numbers the slot
  with the next value of a counter, removing a slot keeps its number, and an identifier
  leads to the slot whose index and number it encodes, if the slot is used.
\<close>

locale ident_slots =
  keyed_slots cap used key same shared lookup alloc remove
  for cap :: nat
    and used :: "'t \<Rightarrow> nat \<Rightarrow> bool"
    and key :: "'t \<Rightarrow> nat \<Rightarrow> 'k"
    and same :: "'k \<Rightarrow> 'k \<Rightarrow> bool"
    and shared :: "'k \<Rightarrow> bool"
    and lookup :: "'t \<Rightarrow> 'k \<Rightarrow> nat option"
    and alloc :: "'t \<Rightarrow> 'k \<Rightarrow> 'a \<Rightarrow> (nat \<times> 't) option"
    and remove :: "'t \<Rightarrow> nat \<Rightarrow> 't" +
  fixes seq :: "'t \<Rightarrow> nat \<Rightarrow> u32"
    and counter :: "'t \<Rightarrow> u32"
    and from_id :: "'t \<Rightarrow> u32 \<Rightarrow> nat option"
  assumes alloc_seq: "alloc t k a = Some (i, t') \<Longrightarrow>
      seq t' i = counter t + 1 \<and> counter t' = counter t + 1"
    and alloc_seq_other: "alloc t k a = Some (i, t') \<Longrightarrow> j \<noteq> i \<Longrightarrow> seq t' j = seq t j"
    and remove_seq: "seq (remove t i) j = seq t j"
    and from_id_id: "i < cap \<Longrightarrow> from_id t (psx_ipc_id i q) =
      (if take_bit 16 q = take_bit 16 (seq t i) \<and> used t i then Some i else None)"
begin

lemma fresh_id:
  assumes "alloc t k a = Some (i, t')"
  shows "from_id t' (psx_ipc_id i (seq t' i)) = Some i"
  using alloc_SomeD [OF assms] by (simp add: from_id_id)

lemma removed_id: "i < cap \<Longrightarrow> from_id (remove t i) (psx_ipc_id i q) = None"
  by (simp add: from_id_id remove_self)

lemma other_id:
  assumes "alloc t k a = Some (i, t')" "j < cap" "j \<noteq> i"
  shows "from_id t' (psx_ipc_id j q) = from_id t (psx_ipc_id j q)"
  using assms alloc_other [OF assms(1,3)] alloc_seq_other [OF assms(1,3)] by (simp add: from_id_id)

text \<open>
  An identifier made for an earlier object of a slot is refused once the slot is used again,
  unless the counters of the two agree in the low 16 bits.
\<close>

lemma stale_id:
  assumes "alloc t k a = Some (i, t')" "take_bit 16 q \<noteq> take_bit 16 (counter t + 1)"
  shows "from_id t' (psx_ipc_id i q) = None"
  using assms alloc_SomeD [OF assms(1)] alloc_seq [OF assms(1)] by (simp add: from_id_id)

text \<open>A slot that was just removed is the one way an identifier stops working.\<close>

lemma remove_other_id:
  assumes "j < cap" "j \<noteq> i"
  shows "from_id (remove t i) (psx_ipc_id j q) = from_id t (psx_ipc_id j q)"
  using assms remove_other [OF assms(2)] by (simp add: from_id_id remove_seq)

end

end
