(* ===== verification/Psx_Msg.thy ===== *)
theory Psx_Msg
  imports Psx_Ipc
begin

text \<open>
  System V message queues (\<open>_ipc.c\<close>, the \<open>msg\<close> section): lookup, allocation and
  decoding of identifiers, \<open>msgget\<close>, \<open>msgsnd\<close>, \<open>msgrcv\<close>, \<open>msgctl\<close>. The two calls that
  block are polling loops; a round works on the state the other threads left.
\<close>

section \<open>The queue table\<close>

definition psx_msq_lookup :: "ipc \<Rightarrow> u32 \<Rightarrow> nat option" where
  "psx_msq_lookup s key =
     first_idx (\<lambda>i. msq_used (msqs s i) \<and> msq_key (msqs s i) = key) PSX_IPC_CAP"

definition psx_msq_alloc :: "ipc \<Rightarrow> u32 \<Rightarrow> u32 \<Rightarrow> (nat \<times> ipc) option" where
  "psx_msq_alloc s key mode =
     (case first_idx (\<lambda>i. \<not> msq_used (msqs s i)) PSX_IPC_CAP of
        None \<Rightarrow> None
      | Some i \<Rightarrow>
          let s1 = s\<lparr>ipc_seq := ipc_seq s + 1\<rparr>;
              q = zero_msq\<lparr>msq_used := True, msq_seq := ipc_seq s1, msq_key := key,
                    msq_ds := (msq_ds zero_msq)\<lparr>msg_perm := psx_ipc_perm_init s1 key mode,
                                msg_qbytes := PSX_MSG_QBYTES,
                                msg_ctime := psx_ipc_time s1\<rparr>\<rparr>
          in Some (i, s1\<lparr>msqs := (msqs s1)(i := q)\<rparr>))"

definition psx_msq_from_id :: "ipc \<Rightarrow> u32 \<Rightarrow> nat option" where
  "psx_msq_from_id s ident =
     (case first_idx (\<lambda>i. psx_ipc_idx ident (msq_seq (msqs s i)) = Some i) PSX_IPC_CAP of
        None \<Rightarrow> None
      | Some i \<Rightarrow> if msq_used (msqs s i) then Some i else None)"

definition sys_msgget :: "ipc \<Rightarrow> u32 \<Rightarrow> u32 \<Rightarrow> ipc \<times> u32 sysret" where
  "sys_msgget s key flag =
     (let mode = flag AND 0x1FF;
          create =
            (if flag AND PSX_IPC_CREAT = 0 then (s, Inl ENOENT)
             else case psx_msq_alloc s key mode of
                 None \<Rightarrow> (s, Inl ENOSPC)
               | Some (i, s') \<Rightarrow> (s', Inr (psx_ipc_id i (msq_seq (msqs s' i)))))
      in if key \<noteq> PSX_IPC_PRIVATE then
           case psx_msq_lookup s key of
             Some i \<Rightarrow>
               if flag AND PSX_IPC_CREAT \<noteq> 0 \<and> flag AND PSX_IPC_EXCL \<noteq> 0
               then (s, Inl EEXIST)
               else (s, Inr (psx_ipc_id i (msq_seq (msqs s i))))
           | None \<Rightarrow> create
         else create)"

section \<open>Sending and receiving\<close>

definition psx_msq_slot_free :: "psx_msq \<Rightarrow> nat option" where
  "psx_msq_slot_free q = first_idx (\<lambda>i. \<not> msg_used (msq_msg q i)) PSX_MSG_SLOTS"

text \<open>
  The slot with the smallest type at most \<open>lim\<close> among those scanned so far, the earlier
  one on a tie (the third loop of \<open>__psx_msq_pick\<close>).
\<close>

fun psx_msq_best :: "psx_msq \<Rightarrow> int \<Rightarrow> nat list \<Rightarrow> nat option \<Rightarrow> nat option" where
  "psx_msq_best q lim [] best = best"
| "psx_msq_best q lim (i # is) best =
     (if \<not> msg_used (msq_msg q i) then psx_msq_best q lim is best
      else if sint (msg_mtype (msq_msg q i)) > lim then psx_msq_best q lim is best
      else psx_msq_best q lim is
        (case best of
           None \<Rightarrow> Some i
         | Some b \<Rightarrow> if sint (msg_mtype (msq_msg q i)) < sint (msg_mtype (msq_msg q b))
                     then Some i else Some b))"

definition psx_msq_pick :: "psx_msq \<Rightarrow> u64 \<Rightarrow> u32 \<Rightarrow> nat option" where
  "psx_msq_pick q msgtyp flags =
     (if msgtyp = 0 then first_idx (\<lambda>i. msg_used (msq_msg q i)) PSX_MSG_SLOTS
      else if sint msgtyp > 0 then
        first_idx (\<lambda>i. msg_used (msq_msg q i) \<and>
          (if flags AND PSX_MSG_EXCEPT \<noteq> 0 then msg_mtype (msq_msg q i) \<noteq> msgtyp
           else msg_mtype (msq_msg q i) = msgtyp)) PSX_MSG_SLOTS
      else psx_msq_best q (sint (- msgtyp)) [0..<PSX_MSG_SLOTS] None)"

definition msq_put :: "ipc \<Rightarrow> nat \<Rightarrow> psx_msq \<Rightarrow> ipc" where
  "msq_put s q qv = s\<lparr>msqs := (msqs s)(q := qv)\<rparr>"

text \<open>One round of \<open>msgsnd\<close> on queue slot \<open>q\<close>: fill the first free message slot.\<close>

definition msgsnd_fill :: "ipc \<Rightarrow> psx_msq \<Rightarrow> nat \<Rightarrow> u64 \<Rightarrow> buf \<Rightarrow> u64 \<Rightarrow> psx_msq" where
  "msgsnd_fill s q i mtype txt len =
     q\<lparr>msq_msg := (msq_msg q)(i :=
          \<lparr>msg_used = True, msg_len = ucast len, msg_mtype = mtype,
           msg_data = memcpy (msg_data (msq_msg q i)) txt (unat len)\<rparr>),
       msq_ds := (msq_ds q)\<lparr>msg_qnum := msg_qnum (msq_ds q) + 1,
          msg_cbytes := msg_cbytes (msq_ds q) + len,
          msg_lspid := psx_ipc_pid s,
          msg_stime := psx_ipc_time s\<rparr>\<rparr>"

definition msgsnd_round ::
  "nat \<Rightarrow> u64 \<Rightarrow> buf \<Rightarrow> u64 \<Rightarrow> u32 \<Rightarrow> ipc \<Rightarrow> (ipc \<times> nat sysret) option" where
  "msgsnd_round q mtype txt len flag s =
     (case psx_msq_slot_free (msqs s q) of
        Some i \<Rightarrow> Some (msq_put s q (msgsnd_fill s (msqs s q) i mtype txt len), Inr 0)
      | None \<Rightarrow> if flag AND PSX_IPC_NOWAIT \<noteq> 0 then Some (s, Inl EAGAIN) else None)"

text \<open>
  \<open>msg\<close> is the caller's \<open>struct msgbuf\<close> (type and text), \<open>None\<close> for a null pointer.
\<close>

definition sys_msgsnd ::
  "(nat \<Rightarrow> ipc \<Rightarrow> ipc) \<Rightarrow> nat \<Rightarrow> ipc \<Rightarrow> u32 \<Rightarrow> (u64 \<times> buf) option \<Rightarrow> u64 \<Rightarrow> u32 \<Rightarrow>
   (ipc \<times> nat sysret) option" where
  "sys_msgsnd env fuel s qid msg len flag =
     (case psx_msq_from_id s qid of
        None \<Rightarrow> Some (s, Inl EINVAL)
      | Some q \<Rightarrow>
          (case msg of
             None \<Rightarrow> Some (s, Inl EFAULT)
           | Some (mtype, txt) \<Rightarrow>
               if sint mtype \<le> 0 then Some (s, Inl EINVAL)
               else if unat len > PSX_MSG_MSGSZ then Some (s, Inl E2BIG)
               else poll_loop (msgsnd_round q mtype txt len flag) env fuel 0 s))"

text \<open>Taking the message of slot \<open>i\<close> out of the queue.\<close>

definition msgrcv_take :: "ipc \<Rightarrow> psx_msq \<Rightarrow> nat \<Rightarrow> psx_msq" where
  "msgrcv_take s q i =
     q\<lparr>msq_msg := (msq_msg q)(i := (msq_msg q i)\<lparr>msg_used := False\<rparr>),
       msq_ds := (msq_ds q)\<lparr>msg_qnum := msg_qnum (msq_ds q) - 1,
          msg_cbytes := msg_cbytes (msq_ds q) - ucast (msg_len (msq_msg q i)),
          msg_lrpid := psx_ipc_pid s,
          msg_rtime := psx_ipc_time s\<rparr>\<rparr>"

text \<open>What a successful receive stores at \<open>msg\<close>: the type and \<open>got\<close> bytes of text.\<close>

definition msgrcv_round ::
  "nat \<Rightarrow> u64 \<Rightarrow> u64 \<Rightarrow> u32 \<Rightarrow> ipc \<Rightarrow> (ipc \<times> (u64 \<times> u8 list) sysret) option" where
  "msgrcv_round q len msgtyp flag s =
     (case psx_msq_pick (msqs s q) msgtyp flag of
        Some i \<Rightarrow>
          let m = msq_msg (msqs s q) i; got = unat (msg_len m) in
          if got > unat len \<and> flag AND PSX_MSG_NOERROR = 0 then Some (s, Inl E2BIG)
          else Some (msq_put s q (msgrcv_take s (msqs s q) i),
                 Inr (msg_mtype m, bytes (msg_data m) (if got > unat len then unat len else got)))
      | None \<Rightarrow> if flag AND PSX_IPC_NOWAIT \<noteq> 0 then Some (s, Inl ENOMSG) else None)"

definition sys_msgrcv ::
  "(nat \<Rightarrow> ipc \<Rightarrow> ipc) \<Rightarrow> nat \<Rightarrow> ipc \<Rightarrow> u32 \<Rightarrow> bool \<Rightarrow> u64 \<Rightarrow> u64 \<Rightarrow> u32 \<Rightarrow>
   (ipc \<times> (u64 \<times> u8 list) sysret) option" where
  "sys_msgrcv env fuel s qid msg_null len msgtyp flag =
     (case psx_msq_from_id s qid of
        None \<Rightarrow> Some (s, Inl EINVAL)
      | Some q \<Rightarrow>
          if msg_null then Some (s, Inl EFAULT)
          else poll_loop (msgrcv_round q len msgtyp flag) env fuel 0 s)"

text \<open>
  \<open>msgctl\<close>: \<open>arg\<close> is what \<open>buf\<close> points to, \<open>None\<close> for a null pointer; the reply is what
  \<open>IPC_STAT\<close> stores there.
\<close>

definition sys_msgctl ::
  "ipc \<Rightarrow> u32 \<Rightarrow> int \<Rightarrow> msqid_ds option \<Rightarrow> ipc \<times> msqid_ds option sysret" where
  "sys_msgctl s qid cmd arg =
     (case psx_msq_from_id s qid of
        None \<Rightarrow> (s, Inl EINVAL)
      | Some q \<Rightarrow>
          if cmd = PSX_IPC_RMID then
            (msq_put s q ((msqs s q)\<lparr>msq_used := False\<rparr>), Inr None)
          else if cmd = PSX_IPC_STAT then
            (case arg of None \<Rightarrow> (s, Inl EFAULT) | Some _ \<Rightarrow> (s, Inr (Some (msq_ds (msqs s q)))))
          else if cmd = PSX_IPC_SET then
            (case arg of
               None \<Rightarrow> (s, Inl EFAULT)
             | Some b \<Rightarrow>
                 (msq_put s q ((msqs s q)\<lparr>msq_ds := (msq_ds (msqs s q))
                    \<lparr>msg_perm := (msg_perm (msq_ds (msqs s q)))
                        \<lparr>perm_uid := perm_uid (msg_perm b), perm_gid := perm_gid (msg_perm b),
                         perm_mode := perm_mode (msg_perm b)\<rparr>,
                     msg_qbytes := msg_qbytes b\<rparr>\<rparr>), Inr None))
          else (s, Inl EINVAL))"


section \<open>The table keeps its contract\<close>

text \<open>Removing a queue, as \<open>IPC_RMID\<close> does it.\<close>

abbreviation (input) msq_rmid :: "ipc \<Rightarrow> nat \<Rightarrow> ipc" where
  "msq_rmid s i \<equiv> msq_put s i ((msqs s i)\<lparr>msq_used := False\<rparr>)"

lemma msqs_msq_put [simp]: "msqs (msq_put s q v) = (msqs s)(q := v)"
  by (simp add: msq_put_def)

lemma psx_msq_from_id_id:
  "i < 64 \<Longrightarrow> psx_msq_from_id s (psx_ipc_id i q) =
    (if take_bit 16 q = take_bit 16 (msq_seq (msqs s i)) \<and> msq_used (msqs s i) then Some i else None)"
  by (simp add: psx_msq_from_id_def first_ipc_idx_id)

interpretation msq_tab: ident_slots 64 "\<lambda>s i. msq_used (msqs s i)" "\<lambda>s i. msq_key (msqs s i)"
  "(=)" "\<lambda>k. k \<noteq> 0" psx_msq_lookup psx_msq_alloc "\<lambda>s i. msq_rmid s i"
  "\<lambda>s i. msq_seq (msqs s i)" ipc_seq psx_msq_from_id
proof (unfold_locales, goal_cases)
  case (5 t k i)
  then show ?case by (simp add: psx_msq_lookup_def first_idx_Some_iff)
next
  case (6 t k i)
  then show ?case by (auto simp: psx_msq_lookup_def first_idx_None_iff)
next
  case (10 t k a)
  then show ?case 
    by (auto simp: psx_msq_alloc_def first_idx_None_iff first_idx_Some_iff Let_def split: option.splits)
qed (auto simp: psx_msq_alloc_def psx_msq_from_id_id first_idx_Some_iff Let_def split: option.splits)

lemma psx_msq_from_id_SomeD:
  "psx_msq_from_id s ident = Some q \<Longrightarrow> q < 64 \<and> msq_used (msqs s q)"
  by (auto simp: psx_msq_from_id_def first_idx_Some_iff split: option.splits if_splits)

section \<open>Queues as multisets of messages\<close>

definition msg_content :: "psx_msg \<Rightarrow> u64 \<times> u8 list" where
  "msg_content m = (msg_mtype m, bytes (msg_data m) (unat (msg_len m)))"

definition msq_abs :: "psx_msq \<Rightarrow> (u64 \<times> u8 list) multiset" where
  "msq_abs q = slot_bag (\<lambda>i. msg_used (msq_msg q i)) (\<lambda>i. msg_content (msq_msg q i)) PSX_MSG_SLOTS"

definition msq_bytes :: "(u64 \<times> u8 list) multiset \<Rightarrow> nat" where
  "msq_bytes M = (\<Sum>m\<in>#M. length (snd m))"

definition msq_inv :: "psx_msq \<Rightarrow> bool" where
  "msq_inv q \<longleftrightarrow> unat (msg_qnum (msq_ds q)) = size (msq_abs q) \<and>
     unat (msg_cbytes (msq_ds q)) = msq_bytes (msq_abs q) \<and>
     (\<forall>m\<in>#msq_abs q. length (snd m) \<le> PSX_MSG_MSGSZ)"

lemma msq_bytes_simps [simp]:
  "msq_bytes {#} = 0" "msq_bytes (add_mset m M) = length (snd m) + msq_bytes M"
  by (simp_all add: msq_bytes_def)

lemma msq_bytes_le: "\<forall>m\<in>#M. length (snd m) \<le> b \<Longrightarrow> msq_bytes M \<le> size M * b"
  by (induction M) auto

lemma size_msq_abs_le: "size (msq_abs q) \<le> 32"
  by (simp add: msq_abs_def size_slot_bag card_slots_le)

lemma msq_inv_bounds:
  assumes "msq_inv q"
  shows "size (msq_abs q) \<le> 32" and "msq_bytes (msq_abs q) \<le> 65536"
proof -
  show 1: "size (msq_abs q) \<le> 32" by (rule size_msq_abs_le)
  have "msq_bytes (msq_abs q) \<le> size (msq_abs q) * 2048"
    using assms by (intro msq_bytes_le) (simp add: msq_inv_def)
  with 1 show "msq_bytes (msq_abs q) \<le> 65536" by linarith
qed

lemma unat_ucast_len: "unat (len::u64) \<le> 2048 \<Longrightarrow> unat (ucast len :: u32) = unat len"
  by (rule unat_ucast_small) simp

lemma msq_abs_fill:
  assumes "psx_msq_slot_free q = Some i" "unat len \<le> 2048"
  shows "msq_abs (msgsnd_fill s q i mtype txt len) = add_mset (mtype, bytes txt (unat len)) (msq_abs q)"
proof -
  have i: "i < 32" "\<not> msg_used (msq_msg q i)"
    using assms(1) by (simp_all add: psx_msq_slot_free_def first_idx_Some_iff)
  let ?q = "msgsnd_fill s q i mtype txt len"
  have "msq_abs ?q = add_mset (msg_content (msq_msg ?q i)) (msq_abs q)"
    unfolding msq_abs_def by (rule slot_bag_fill) (use i in \<open>simp_all add: msgsnd_fill_def\<close>)
  then show ?thesis
    using assms(2) by (simp add: msgsnd_fill_def msg_content_def unat_ucast_len)
qed

lemma msq_inv_fill:
  assumes "msq_inv q" "psx_msq_slot_free q = Some i" "unat len \<le> 2048"
  shows "msq_inv (msgsnd_fill s q i mtype txt len)"
proof -
  note b = msq_inv_bounds [OF assms(1)]
  have "unat (msg_qnum (msq_ds q) + 1) = size (msq_abs q) + 1"
    using assms(1) b by (simp add: msq_inv_def unat_word_ariths)
  moreover have "unat (msg_cbytes (msq_ds q) + len) = msq_bytes (msq_abs q) + unat len"
    using assms b by (simp add: msq_inv_def unat_word_ariths)
  ultimately show ?thesis
    using assms by (simp add: msq_inv_def msq_abs_fill) (simp add: msgsnd_fill_def)
qed

lemma msq_abs_take:
  assumes "i < 32" "msg_used (msq_msg q i)"
  shows "msq_abs q = add_mset (msg_content (msq_msg q i)) (msq_abs (msgrcv_take s q i))"
  unfolding msq_abs_def
  by (rule slot_bag_free) (use assms in \<open>simp_all add: msgrcv_take_def msg_content_def\<close>)

lemma msq_inv_take:
  assumes "msq_inv q" "i < 32" "msg_used (msq_msg q i)"
  shows "msq_inv (msgrcv_take s q i)"
proof -
  note a = msq_abs_take [OF assms(2,3), of s]
  have len: "unat (msg_len (msq_msg q i)) \<le> 2048"
    using assms(1) a by (simp add: msq_inv_def msg_content_def)
  have n: "unat (msg_qnum (msq_ds q)) = size (msq_abs (msgrcv_take s q i)) + 1"
    and c: "unat (msg_cbytes (msq_ds q)) = unat (msg_len (msq_msg q i)) + msq_bytes (msq_abs (msgrcv_take s q i))"
    using assms(1) a by (simp_all add: msq_inv_def msg_content_def)
  have "unat (msg_qnum (msq_ds q) - 1) = size (msq_abs (msgrcv_take s q i))"
    using n by (simp add: unat_sub word_le_nat_alt)
  moreover have "unat (msg_cbytes (msq_ds q) - ucast (msg_len (msq_msg q i))) =
      msq_bytes (msq_abs (msgrcv_take s q i))"
    using c by (simp add: unat_sub word_le_nat_alt)
  ultimately show ?thesis
    using assms(1) a by (simp add: msq_inv_def) (simp add: msgrcv_take_def)
qed


section \<open>Choosing a message\<close>

text \<open>The types \<open>msgtyp\<close> and the flags ask for.\<close>

definition msq_matches :: "u64 \<Rightarrow> u32 \<Rightarrow> u64 \<Rightarrow> bool" where
  "msq_matches msgtyp flags t \<longleftrightarrow>
     (if msgtyp = 0 then True
      else if sint msgtyp > 0 then
        (if flags AND PSX_MSG_EXCEPT \<noteq> 0 then t \<noteq> msgtyp else t = msgtyp)
      else sint t \<le> sint (- msgtyp))"

definition msq_cand :: "psx_msq \<Rightarrow> int \<Rightarrow> nat \<Rightarrow> bool" where
  "msq_cand q lim i \<longleftrightarrow> msg_used (msq_msg q i) \<and> sint (msg_mtype (msq_msg q i)) \<le> lim"

lemma psx_msq_best_Some:
  "psx_msq_best q lim is (Some b) = Some b' \<Longrightarrow>
     (b' = b \<or> b' \<in> set is \<and> msq_cand q lim b') \<and>
     sint (msg_mtype (msq_msg q b')) \<le> sint (msg_mtype (msq_msg q b)) \<and>
     (\<forall>i\<in>set is. msq_cand q lim i \<longrightarrow> sint (msg_mtype (msq_msg q b')) \<le> sint (msg_mtype (msq_msg q i)))"
proof (induction "is" arbitrary: b)
  case Nil
  then show ?case by simp
next
  case (Cons i "is")
  show ?case
  proof (cases "msq_cand q lim i")
    case False
    then have "psx_msq_best q lim is (Some b) = Some b'"
      using Cons.prems by (auto simp: msq_cand_def split: if_splits)
    from Cons.IH [OF this] False show ?thesis by auto
  next
    case True
    define b1 where "b1 = (if sint (msg_mtype (msq_msg q i)) < sint (msg_mtype (msq_msg q b)) then i else b)"
    have "psx_msq_best q lim is (Some b1) = Some b'"
      using Cons.prems True by (auto simp: msq_cand_def b1_def split: if_splits)
    from Cons.IH [OF this] True show ?thesis by (auto simp: b1_def split: if_splits)
  qed
qed

lemma psx_msq_best_not_None: "psx_msq_best q lim is (Some b) \<noteq> None"
  by (induction "is" arbitrary: b) auto

lemma psx_msq_best_None_iff:
  "psx_msq_best q lim is None = None \<longleftrightarrow> (\<forall>i\<in>set is. \<not> msq_cand q lim i)"
  by (induction "is") (auto simp: msq_cand_def psx_msq_best_not_None)

lemma psx_msq_best_SomeD:
  "psx_msq_best q lim is None = Some b \<Longrightarrow> b \<in> set is \<and> msq_cand q lim b \<and>
     (\<forall>i\<in>set is. msq_cand q lim i \<longrightarrow> sint (msg_mtype (msq_msg q b)) \<le> sint (msg_mtype (msq_msg q i)))"
proof (induction "is")
  case Nil
  then show ?case by simp
next
  case (Cons i "is")
  show ?case
  proof (cases "msq_cand q lim i")
    case False
    with Cons show ?thesis by (auto simp: msq_cand_def split: if_splits)
  next
    case True
    then have "psx_msq_best q lim is (Some i) = Some b"
      using Cons.prems by (auto simp: msq_cand_def split: if_splits)
    from psx_msq_best_Some [OF this] True show ?thesis by auto
  qed
qed

lemma psx_msq_pick_None_iff:
  "psx_msq_pick q msgtyp flags = None \<longleftrightarrow>
     (\<forall>m\<in>#msq_abs q. \<not> msq_matches msgtyp flags (fst m))"
  by (auto simp: psx_msq_pick_def first_idx_None_iff psx_msq_best_None_iff msq_cand_def
      msq_abs_def ball_slot_bag msg_content_def msq_matches_def)

lemma psx_msq_pick_SomeD:
  assumes "psx_msq_pick q msgtyp flags = Some i"
  shows "i < 32" and "msg_used (msq_msg q i)"
    and "msq_matches msgtyp flags (msg_mtype (msq_msg q i))"
    and "sint msgtyp < 0 \<Longrightarrow> m \<in># msq_abs q \<Longrightarrow> msq_matches msgtyp flags (fst m) \<Longrightarrow>
      sint (msg_mtype (msq_msg q i)) \<le> sint (fst m)"
  using assms
  by (auto simp: psx_msq_pick_def first_idx_Some_iff msq_cand_def msq_abs_def in_slot_bag
      msg_content_def msq_matches_def dest!: psx_msq_best_SomeD split: if_splits)

lemma psx_msq_slot_free_None_iff:
  "psx_msq_slot_free q = None \<longleftrightarrow> size (msq_abs q) = 32"
proof
  assume "psx_msq_slot_free q = None"
  then have "{i. i < 32 \<and> msg_used (msq_msg q i)} = {..<32}"
    by (auto simp: psx_msq_slot_free_def first_idx_None_iff)
  then show "size (msq_abs q) = 32" by (simp add: msq_abs_def size_slot_bag)
next
  assume "size (msq_abs q) = 32"
  then have "card {i. i < 32 \<and> msg_used (msq_msg q i)} = card {..<32::nat}"
    by (simp add: msq_abs_def size_slot_bag)
  then have "{i. i < 32 \<and> msg_used (msq_msg q i)} = {..<32}"
    by (intro card_subset_eq) auto
  then show "psx_msq_slot_free q = None"
    by (auto simp: psx_msq_slot_free_def first_idx_None_iff)
qed

section \<open>Properties\<close>

text \<open>A system with one queue, and the states after some calls on it.\<close>

abbreviation (input) "ex_ipc \<equiv> ipc_init 0 0 1 \<lparr>tv_sec = 7, tv_nsec = 0\<rparr>"
abbreviation (input) "ex_still \<equiv> (\<lambda>(_::nat) (s::ipc). s)"
abbreviation (input) "ex_q0 \<equiv> fst (sys_msgget ex_ipc 0 0x3B0)"
abbreviation (input) "ex_snd s b \<equiv>
  fst (the (sys_msgsnd ex_still 1 s (psx_ipc_id 0 1) (Some (1, \<lambda>_. b)) 1 0))"
abbreviation (input) "ex_rcv s \<equiv> the (sys_msgrcv ex_still 1 s (psx_ipc_id 0 1) False 8 0 0)"

lemma msq_inv_zero: "\<forall>i<32. \<not> msg_used (msq_msg q i) \<Longrightarrow> msg_qnum (msq_ds q) = 0 \<Longrightarrow>
  msg_cbytes (msq_ds q) = 0 \<Longrightarrow> msq_inv q"
  using slot_bag_empty_iff [of "\<lambda>i. msg_used (msq_msg q i)" "\<lambda>i. msg_content (msq_msg q i)" 32]
  by (simp add: msq_inv_def msq_abs_def)

lemma msq_inv_ex_q0: "msq_inv (msqs ex_q0 0)"
proof -
  have "msqs ex_q0 0 = zero_msq\<lparr>msq_used := True, msq_seq := 1, msq_key := 0,
      msq_ds := (msq_ds zero_msq)\<lparr>msg_perm := psx_ipc_perm_init (ex_ipc\<lparr>ipc_seq := 1\<rparr>) 0 0x1B0,
        msg_qbytes := 16384, msg_ctime := 7\<rparr>\<rparr>"
    by (simp add: sys_msgget_def psx_msq_alloc_def first_idx_def upt_rec [of 0 64] ipc_init_def
        psx_ipc_time_def Let_def) (simp add: zero_msq_def)
  then show ?thesis
    by (intro msq_inv_zero) (simp_all add: zero_msq_def zero_msg_def)
qed

text \<open>C3: A round of \<open>msgsnd\<close> on a queue that keeps its counters implements adding the message
  to a bag of at most 32 messages: it succeeds iff there is room, then the queue holds the
  message besides the old ones and still keeps its counters, and no other queue changes; a
  full queue makes the call fail with EAGAIN under IPC_NOWAIT, and wait otherwise.\<close>

theorem msgsnd_refines:
  assumes "msq_inv (msqs s q)" "unat len \<le> 2048"
  shows "case msgsnd_round q mtype txt len flag s of
      Some (s', Inr n) \<Rightarrow> n = 0 \<and> size (msq_abs (msqs s q)) < 32 \<and>
        msq_abs (msqs s' q) = add_mset (mtype, bytes txt (unat len)) (msq_abs (msqs s q)) \<and>
        msq_inv (msqs s' q) \<and> (\<forall>p. p \<noteq> q \<longrightarrow> msqs s' p = msqs s p)
    | Some (s', Inl e) \<Rightarrow> e = EAGAIN \<and> s' = s \<and> size (msq_abs (msqs s q)) = 32 \<and>
        flag AND 0x800 \<noteq> 0
    | None \<Rightarrow> size (msq_abs (msqs s q)) = 32 \<and> flag AND 0x800 = 0"
proof (cases "psx_msq_slot_free (msqs s q)")
  case None
  then show ?thesis
    using psx_msq_slot_free_None_iff [of "msqs s q"] by (simp add: msgsnd_round_def)
next
  case (Some i)
  then have "size (msq_abs (msqs s q)) < 32"
    using psx_msq_slot_free_None_iff [of "msqs s q"] size_msq_abs_le [of "msqs s q"] by simp
  then show ?thesis
    using Some assms by (simp add: msgsnd_round_def msq_abs_fill msq_inv_fill)
qed

lemma msgsnd_refines_witness:
  "case msgsnd_round 0 5 (\<lambda>_. 0x41) 3 0 ex_q0 of
      Some (s', Inr n) \<Rightarrow> n = 0 \<and> size (msq_abs (msqs ex_q0 0)) < 32 \<and>
        msq_abs (msqs s' 0) = add_mset (5, bytes (\<lambda>_. 0x41) (unat (3::u64))) (msq_abs (msqs ex_q0 0)) \<and>
        msq_inv (msqs s' 0) \<and> (\<forall>p. p \<noteq> 0 \<longrightarrow> msqs s' p = msqs ex_q0 p)
    | Some (s', Inl e) \<Rightarrow> e = EAGAIN \<and> s' = ex_q0 \<and> size (msq_abs (msqs ex_q0 0)) = 32 \<and>
        (0::u32) AND 0x800 \<noteq> 0
    | None \<Rightarrow> size (msq_abs (msqs ex_q0 0)) = 32 \<and> (0::u32) AND 0x800 = 0"
  by (rule msgsnd_refines [OF msq_inv_ex_q0]) simp

text \<open>C4: A round of \<open>msgrcv\<close> implements taking a message out of the bag: the message received
  is one of the queue's that \<open>msgtyp\<close> and the flags select, with the smallest type if
  \<open>msgtyp\<close> is negative, cut to the caller's length; it leaves the queue and the counters stay
  right. E2BIG changes nothing and needs a selected message longer than the buffer; ENOMSG
  and waiting need a queue without a selected message.\<close>

theorem msgrcv_refines:
  assumes "msq_inv (msqs s q)"
  shows "case msgrcv_round q len msgtyp flag s of
      Some (s', Inr (t, b)) \<Rightarrow> (\<exists>m. m \<in># msq_abs (msqs s q) \<and> t = fst m \<and>
        b = take (unat len) (snd m) \<and> msq_matches msgtyp flag t \<and>
        (sint msgtyp < 0 \<longrightarrow> (\<forall>m'\<in>#msq_abs (msqs s q). msq_matches msgtyp flag (fst m') \<longrightarrow>
           sint t \<le> sint (fst m'))) \<and>
        msq_abs (msqs s' q) = msq_abs (msqs s q) - {#m#} \<and> msq_inv (msqs s' q) \<and>
        (\<forall>p. p \<noteq> q \<longrightarrow> msqs s' p = msqs s p))
    | Some (s', Inl e) \<Rightarrow> s' = s \<and>
        (e = E2BIG \<and> flag AND 0x1000 = 0 \<and>
           (\<exists>m\<in>#msq_abs (msqs s q). msq_matches msgtyp flag (fst m) \<and> unat len < length (snd m)) \<or>
         e = ENOMSG \<and> flag AND 0x800 \<noteq> 0 \<and>
           (\<forall>m\<in>#msq_abs (msqs s q). \<not> msq_matches msgtyp flag (fst m)))
    | None \<Rightarrow> flag AND 0x800 = 0 \<and> (\<forall>m\<in>#msq_abs (msqs s q). \<not> msq_matches msgtyp flag (fst m))"
proof (cases "psx_msq_pick (msqs s q) msgtyp flag")
  case None
  then show ?thesis
    using psx_msq_pick_None_iff [of "msqs s q" msgtyp flag] by (simp add: msgrcv_round_def)
next
  case (Some i)
  note p = psx_msq_pick_SomeD [OF Some]
  let ?m = "msg_content (msq_msg (msqs s q) i)"
  have m: "?m \<in># msq_abs (msqs s q)" using p(1,2) by (auto simp: msq_abs_def in_slot_bag)
  have a: "msq_abs (msgrcv_take s (msqs s q) i) = msq_abs (msqs s q) - {#?m#}"
    using msq_abs_take [OF p(1,2), of s] by simp
  show ?thesis
  proof (cases "unat (msg_len (msq_msg (msqs s q) i)) > unat len \<and> flag AND 0x1000 = 0")
    case True
    then show ?thesis using Some m p(3)
      by (auto simp: msgrcv_round_def Let_def msg_content_def intro!: bexI [of _ ?m])
  next
    case False
    then show ?thesis
      using Some m p a msq_inv_take [OF assms p(1,2), of s]
      by (auto simp: msgrcv_round_def Let_def msg_content_def min_def intro!: exI [of _ ?m])
  qed
qed


abbreviation (input) "ex_q1 \<equiv> msq_put ex_q0 0 (msgsnd_fill ex_q0 (msqs ex_q0 0) 0 5 (\<lambda>_. 0x41) 3)"

lemma msq_inv_ex_q1: "msq_inv (msqs ex_q1 0)"
proof -
  have "psx_msq_slot_free (msqs ex_q0 0) = Some 0" by code_simp
  from msq_inv_fill [OF msq_inv_ex_q0 this, of 3] show ?thesis by simp
qed

lemma msgrcv_refines_witness:
  "case msgrcv_round 0 2 (-7) 0x1000 ex_q1 of
      Some (s', Inr (t, b)) \<Rightarrow> (\<exists>m. m \<in># msq_abs (msqs ex_q1 0) \<and> t = fst m \<and>
        b = take (unat (2::u64)) (snd m) \<and> msq_matches (-7) 0x1000 t \<and>
        (sint (-7::u64) < 0 \<longrightarrow> (\<forall>m'\<in>#msq_abs (msqs ex_q1 0). msq_matches (-7) 0x1000 (fst m') \<longrightarrow>
           sint t \<le> sint (fst m'))) \<and>
        msq_abs (msqs s' 0) = msq_abs (msqs ex_q1 0) - {#m#} \<and> msq_inv (msqs s' 0) \<and>
        (\<forall>p. p \<noteq> 0 \<longrightarrow> msqs s' p = msqs ex_q1 p))
    | Some (s', Inl e) \<Rightarrow> s' = ex_q1 \<and>
        (e = E2BIG \<and> (0x1000::u32) AND 0x1000 = 0 \<and>
           (\<exists>m\<in>#msq_abs (msqs ex_q1 0). msq_matches (-7) 0x1000 (fst m) \<and>
              unat (2::u64) < length (snd m)) \<or>
         e = ENOMSG \<and> (0x1000::u32) AND 0x800 \<noteq> 0 \<and>
           (\<forall>m\<in>#msq_abs (msqs ex_q1 0). \<not> msq_matches (-7) 0x1000 (fst m)))
    | None \<Rightarrow> (0x1000::u32) AND 0x800 = 0 \<and>
        (\<forall>m\<in>#msq_abs (msqs ex_q1 0). \<not> msq_matches (-7) 0x1000 (fst m))"
  by (rule msgrcv_refines [OF msq_inv_ex_q1])

text \<open>\<open>msgget\<close> names one queue per key: after a call for a key other than IPC_PRIVATE
  succeeded, the identifier leads to a queue with that key, a second call for the key without
  IPC_CREAT|IPC_EXCL returns the same identifier and changes nothing, and with both flags it
  fails with EEXIST.\<close>

lemma msgget_roundtrip:
  assumes "msq_tab.uniq s" "key \<noteq> 0" "sys_msgget s key flag = (s', Inr x)"
  shows "(\<exists>q. psx_msq_from_id s' x = Some q \<and> msq_key (msqs s' q) = key) \<and> msq_tab.uniq s' \<and>
    sys_msgget s' key flag' =
      (s', if flag' AND 0x200 \<noteq> 0 \<and> flag' AND 0x400 \<noteq> 0 then Inl EEXIST else Inr x)"
proof (cases "psx_msq_lookup s key")
  case (Some i)
  then have i: "i < 64" "msq_used (msqs s i)" "msq_key (msqs s i) = key"
    using msq_tab.lookup_SomeD by auto
  have "s' = s" "x = psx_ipc_id i (msq_seq (msqs s i))"
    using assms(2,3) Some by (auto simp: sys_msgget_def Let_def split: if_splits)
  then show ?thesis
    using assms(1,2) Some i by (auto simp: sys_msgget_def psx_msq_from_id_id Let_def)
next
  case None
  then obtain i where al: "psx_msq_alloc s key (flag AND 0x1FF) = Some (i, s')"
    and x: "x = psx_ipc_id i (msq_seq (msqs s' i))"
    using assms(2,3) by (auto simp: sys_msgget_def Let_def split: if_splits option.splits)
  have "msq_tab.uniq s'" "psx_msq_lookup s' key = Some i" "msq_key (msqs s' i) = key"
    using msq_tab.uniq_alloc [OF assms(1) al None assms(2)]
      msq_tab.lookup_alloc [OF assms(1) al None assms(2)] msq_tab.alloc_key [OF al assms(2)]
    by auto
  then show ?thesis
    using assms(2) msq_tab.fresh_id [OF al] x by (auto simp: sys_msgget_def Let_def)
qed

lemma msgget_roundtrip_witness:
  "(\<exists>q. psx_msq_from_id (fst (sys_msgget ex_ipc 9 0x3B0)) 0x10001 = Some q \<and>
      msq_key (msqs (fst (sys_msgget ex_ipc 9 0x3B0)) q) = 9) \<and>
   msq_tab.uniq (fst (sys_msgget ex_ipc 9 0x3B0)) \<and>
   sys_msgget (fst (sys_msgget ex_ipc 9 0x3B0)) 9 0x600 =
     (fst (sys_msgget ex_ipc 9 0x3B0),
      if (0x600::u32) AND 0x200 \<noteq> 0 \<and> (0x600::u32) AND 0x400 \<noteq> 0 then Inl EEXIST else Inr 0x10001)"
proof (rule msgget_roundtrip)
  show "msq_tab.uniq ex_ipc"
    by (simp add: msq_tab.uniq_def ipc_init_def zero_msq_def)
  have "snd (sys_msgget ex_ipc 9 0x3B0) = Inr 0x10001" by code_simp
  then show "sys_msgget ex_ipc 9 0x3B0 = (fst (sys_msgget ex_ipc 9 0x3B0), Inr 0x10001)"
    by (simp add: prod_eq_iff)
qed simp

section \<open>Examples\<close>

text \<open>
  A receive with \<open>msgtyp\<close> 0 takes the first used slot, not the oldest message: after A and
  B are sent, A is received and C is sent into the slot A left, C comes out before B.
\<close>

lemma msgrcv_not_fifo:
  "snd (ex_rcv (ex_snd (ex_snd ex_q0 0x41) 0x42)) = Inr (1, [0x41]) \<and>
   snd (ex_rcv (ex_snd (fst (ex_rcv (ex_snd (ex_snd ex_q0 0x41) 0x42))) 0x43)) = Inr (1, [0x43])"
  by code_simp

end
