(* ===== verification/Psx_Sem.thy ===== *)
theory Psx_Sem
  imports Psx_Ipc
begin

text \<open>
  System V semaphores (\<open>_ipc.c\<close>, the \<open>sem\<close> section): the table, \<open>semget\<close>, the atomic
  application of an operation array, \<open>semop\<close> and \<open>semtimedop\<close>, \<open>semctl\<close>; then what an
  operation array does to the values, compared with applying its operations in turn.
\<close>

section \<open>The semaphore table\<close>

definition psx_sem_lookup :: "ipc \<Rightarrow> u32 \<Rightarrow> nat option" where
  "psx_sem_lookup s key =
     first_idx (\<lambda>i. sem_used (sems s i) \<and> sem_key (sems s i) = key) PSX_IPC_CAP"

definition psx_sem_alloc :: "ipc \<Rightarrow> u32 \<Rightarrow> u32 \<times> u32 \<Rightarrow> (nat \<times> ipc) option" where
  "psx_sem_alloc s key nsems_mode =
     (case first_idx (\<lambda>i. \<not> sem_used (sems s i)) PSX_IPC_CAP of
        None \<Rightarrow> None
      | Some i \<Rightarrow>
          let s1 = s\<lparr>ipc_seq := ipc_seq s + 1\<rparr>;
              v = zero_sem\<lparr>sem_used := True, sem_seq := ipc_seq s1, sem_key := key,
                    sem_ds := (sem_ds zero_sem)\<lparr>sem_nsems := ucast (fst nsems_mode),
                                sem_perm := psx_ipc_perm_init s1 key (snd nsems_mode),
                                sem_ctime := psx_ipc_time s1\<rparr>\<rparr>
          in Some (i, s1\<lparr>sems := (sems s1)(i := v)\<rparr>))"

definition psx_sem_from_id :: "ipc \<Rightarrow> u32 \<Rightarrow> nat option" where
  "psx_sem_from_id s ident =
     (case first_idx (\<lambda>i. psx_ipc_idx ident (sem_seq (sems s i)) = Some i) PSX_IPC_CAP of
        None \<Rightarrow> None
      | Some i \<Rightarrow> if sem_used (sems s i) then Some i else None)"

definition sem_put :: "ipc \<Rightarrow> nat \<Rightarrow> psx_sem \<Rightarrow> ipc" where
  "sem_put s q v = s\<lparr>sems := (sems s)(q := v)\<rparr>"

definition sys_semget :: "ipc \<Rightarrow> u32 \<Rightarrow> u32 \<Rightarrow> u32 \<Rightarrow> ipc \<times> u32 sysret" where
  "sys_semget s key nsems fl =
     (if sint nsems \<le> 0 \<or> sint nsems > PSX_SEM_NSEMS then (s, Inl EINVAL)
      else
        let mode = fl AND 0x1FF;
            create =
              (if fl AND PSX_IPC_CREAT = 0 then (s, Inl ENOENT)
               else case psx_sem_alloc s key (nsems, mode) of
                   None \<Rightarrow> (s, Inl ENOSPC)
                 | Some (i, s') \<Rightarrow> (s', Inr (psx_ipc_id i (sem_seq (sems s' i)))))
        in if key \<noteq> PSX_IPC_PRIVATE then
             case psx_sem_lookup s key of
               Some i \<Rightarrow>
                 if fl AND PSX_IPC_CREAT \<noteq> 0 \<and> fl AND PSX_IPC_EXCL \<noteq> 0 then (s, Inl EEXIST)
                 else if sint nsems > uint (sem_nsems (sem_ds (sems s i))) then (s, Inl EINVAL)
                 else (s, Inr (psx_ipc_id i (sem_seq (sems s i))))
             | None \<Rightarrow> create
           else create)"

section \<open>Operations\<close>

text \<open>The result of \<open>__psx_sem_try\<close>: 1, 0, or a negative error number.\<close>

datatype sem_result = Sem_applied psx_sem | Sem_blocked | Sem_error errno

text \<open>The first loop: every operation is tested against the values at entry.\<close>

fun psx_sem_check :: "psx_sem \<Rightarrow> psx_sembuf list \<Rightarrow> sem_result option" where
  "psx_sem_check sem [] = None"
| "psx_sem_check sem (b # ops) =
     (if sem_num b \<ge> sem_nsems (sem_ds sem) then Some (Sem_error EFBIG)
      else if sint (sem_op b) < 0 \<and> uint (sem_val sem (unat (sem_num b))) < - sint (sem_op b)
      then Some Sem_blocked
      else if sem_op b = 0 \<and> sem_val sem (unat (sem_num b)) \<noteq> 0 then Some Sem_blocked
      else psx_sem_check sem ops)"

text \<open>The second loop: the values are updated in 16 bits.\<close>

fun psx_sem_apply :: "u32 \<Rightarrow> psx_sem \<Rightarrow> psx_sembuf list \<Rightarrow> psx_sem" where
  "psx_sem_apply pid sem [] = sem"
| "psx_sem_apply pid sem (b # ops) =
     psx_sem_apply pid
       (sem\<lparr>sem_val := (sem_val sem)(unat (sem_num b) :=
                word_of_int (uint (sem_val sem (unat (sem_num b))) + sint (sem_op b))),
            sem_pid := (sem_pid sem)(unat (sem_num b) := pid)\<rparr>) ops"

definition psx_sem_try :: "ipc \<Rightarrow> psx_sem \<Rightarrow> psx_sembuf list \<Rightarrow> sem_result" where
  "psx_sem_try s sem ops =
     (case psx_sem_check sem ops of
        Some r \<Rightarrow> r
      | None \<Rightarrow>
          let sem' = psx_sem_apply (psx_ipc_pid s) sem ops
          in Sem_applied (sem'\<lparr>sem_ds := (sem_ds sem')\<lparr>sem_otime := psx_ipc_time s\<rparr>\<rparr>))"

text \<open>
  One round of \<open>__psx_sem_op\<close> on slot \<open>q\<close>. The pointer \<open>sem\<close> is computed once before the
  loop, so a round does not look at \<open>used\<close> again.
\<close>

definition semop_round ::
  "nat \<Rightarrow> psx_sembuf list \<Rightarrow> timespec option \<Rightarrow> ipc \<Rightarrow> (ipc \<times> nat sysret) option" where
  "semop_round q ops ts s =
     (case psx_sem_try s (sems s q) ops of
        Sem_applied sem' \<Rightarrow> Some (sem_put s q sem', Inr 0)
      | Sem_error e \<Rightarrow> Some (s, Inl e)
      | Sem_blocked \<Rightarrow>
          if list_ex (\<lambda>b. ucast (sem_flg b) AND PSX_IPC_NOWAIT \<noteq> 0) ops then Some (s, Inl EAGAIN)
          else if (case ts of None \<Rightarrow> False | Some t \<Rightarrow> psx_ipc_deadline s t)
          then Some (s, Inl EAGAIN)
          else None)"

definition psx_sem_op ::
  "(nat \<Rightarrow> ipc \<Rightarrow> ipc) \<Rightarrow> nat \<Rightarrow> ipc \<Rightarrow> u32 \<Rightarrow> psx_sembuf list \<Rightarrow> timespec option \<Rightarrow>
   (ipc \<times> nat sysret) option" where
  "psx_sem_op env fuel s semid ops ts =
     (case psx_sem_from_id s semid of
        None \<Rightarrow> Some (s, Inl EINVAL)
      | Some q \<Rightarrow> poll_loop (semop_round q ops ts) env fuel 0 s)"

definition sys_semop ::
  "(nat \<Rightarrow> ipc \<Rightarrow> ipc) \<Rightarrow> nat \<Rightarrow> ipc \<Rightarrow> u32 \<Rightarrow> psx_sembuf list \<Rightarrow> (ipc \<times> nat sysret) option" where
  "sys_semop env fuel s semid ops = psx_sem_op env fuel s semid ops None"

definition sys_semtimedop ::
  "(nat \<Rightarrow> ipc \<Rightarrow> ipc) \<Rightarrow> nat \<Rightarrow> ipc \<Rightarrow> u32 \<Rightarrow> psx_sembuf list \<Rightarrow> timespec option \<Rightarrow>
   (ipc \<times> nat sysret) option" where
  "sys_semtimedop env fuel s semid ops ts = psx_sem_op env fuel s semid ops ts"

section \<open>Control\<close>

text \<open>
  The fourth argument of \<open>semctl\<close> is a word that the command reads as an integer or as a
  pointer to a \<open>semid_ds\<close> or to an array of values.
\<close>

record semarg =
  arg_word :: u64
  arg_ds :: semid_ds
  arg_array :: "nat \<Rightarrow> u16"

datatype semctl_reply = Reply_int u32 | Reply_ds semid_ds | Reply_array "u16 list"

definition semctl_val :: "psx_sem \<Rightarrow> u32 \<Rightarrow> ipc \<Rightarrow> u32 \<Rightarrow> ipc \<times> semctl_reply sysret" where
  "semctl_val sem num s v =
     (if num \<ge> ucast (sem_nsems (sem_ds sem)) then (s, Inl EINVAL) else (s, Inr (Reply_int v)))"

definition sys_semctl ::
  "ipc \<Rightarrow> u32 \<Rightarrow> u32 \<Rightarrow> int \<Rightarrow> semarg \<Rightarrow> ipc \<times> semctl_reply sysret" where
  "sys_semctl s semid num cmd arg =
     (case psx_sem_from_id s semid of
        None \<Rightarrow> (s, Inl EINVAL)
      | Some q \<Rightarrow>
          let sem = sems s q; n = unat (sem_nsems (sem_ds sem)) in
          if cmd = PSX_IPC_RMID then (sem_put s q (sem\<lparr>sem_used := False\<rparr>), Inr (Reply_int 0))
          else if cmd = PSX_IPC_STAT then
            (if arg_word arg = 0 then (s, Inl EFAULT) else (s, Inr (Reply_ds (sem_ds sem))))
          else if cmd = PSX_IPC_SET then
            (if arg_word arg = 0 then (s, Inl EFAULT)
             else (sem_put s q (sem\<lparr>sem_ds := (sem_ds sem)\<lparr>sem_perm := (sem_perm (sem_ds sem))
                      \<lparr>perm_uid := perm_uid (sem_perm (arg_ds arg)),
                       perm_gid := perm_gid (sem_perm (arg_ds arg)),
                       perm_mode := perm_mode (sem_perm (arg_ds arg))\<rparr>\<rparr>\<rparr>), Inr (Reply_int 0)))
          else if cmd = 12 then semctl_val sem num s (ucast (sem_val sem (unat num)))
          else if cmd = 11 then semctl_val sem num s (sem_pid sem (unat num))
          else if cmd = 14 \<or> cmd = 15 then semctl_val sem num s 0
          else if cmd = 16 then
            (if num \<ge> ucast (sem_nsems (sem_ds sem)) then (s, Inl EINVAL)
             else (sem_put s q (sem\<lparr>
                 sem_val := (sem_val sem)(unat num := ucast (arg_word arg)),
                 sem_pid := (sem_pid sem)(unat num := psx_ipc_pid s),
                 sem_ds := (sem_ds sem)\<lparr>sem_ctime := psx_ipc_time s\<rparr>\<rparr>), Inr (Reply_int 0)))
          else if cmd = 13 then
            (if arg_word arg = 0 then (s, Inl EFAULT)
             else (s, Inr (Reply_array (map (sem_val sem) [0..<n]))))
          else if cmd = 17 then
            (if arg_word arg = 0 then (s, Inl EFAULT)
             else (sem_put s q (sem\<lparr>
                 sem_val := (\<lambda>i. if i < n then arg_array arg i else sem_val sem i),
                 sem_pid := (\<lambda>i. if i < n then psx_ipc_pid s else sem_pid sem i),
                 sem_ds := (sem_ds sem)\<lparr>sem_ctime := psx_ipc_time s\<rparr>\<rparr>), Inr (Reply_int 0)))
          else (s, Inl EINVAL))"

section \<open>The table keeps its contract\<close>

lemma sems_sem_put [simp]: "sems (sem_put s q v) = (sems s)(q := v)"
  by (simp add: sem_put_def)

lemma psx_sem_from_id_id:
  "i < 64 \<Longrightarrow> psx_sem_from_id s (psx_ipc_id i q) =
    (if take_bit 16 q = take_bit 16 (sem_seq (sems s i)) \<and> sem_used (sems s i) then Some i else None)"
  by (simp add: psx_sem_from_id_def first_ipc_idx_id)

interpretation sem_tab: ident_slots 64 "\<lambda>s i. sem_used (sems s i)" "\<lambda>s i. sem_key (sems s i)"
  "(=)" "\<lambda>k. k \<noteq> 0" psx_sem_lookup psx_sem_alloc
  "\<lambda>s i. sem_put s i ((sems s i)\<lparr>sem_used := False\<rparr>)"
  "\<lambda>s i. sem_seq (sems s i)" ipc_seq psx_sem_from_id
proof (unfold_locales, goal_cases)
  case (5 t k i)
  then show ?case by (simp add: psx_sem_lookup_def first_idx_Some_iff)
next
  case (6 t k i)
  then show ?case by (auto simp: psx_sem_lookup_def first_idx_None_iff)
next
  case (10 t k a)
  then show ?case
    by (auto simp: psx_sem_alloc_def first_idx_None_iff first_idx_Some_iff Let_def split: option.splits)
qed (auto simp: psx_sem_alloc_def psx_sem_from_id_id sem_put_def first_idx_Some_iff Let_def split: option.splits)

interpretation sem_wait: poller "semop_round q ops (Some ts)" "\<lambda>s. psx_ipc_deadline s ts"
  for q ops ts
  by unfold_locales (auto simp: semop_round_def split: sem_result.splits)

section \<open>Operation arrays\<close>

text \<open>What an operation array means: the operations one after another, all or none.\<close>

fun semop_spec :: "(nat \<Rightarrow> int) \<Rightarrow> psx_sembuf list \<Rightarrow> (nat \<Rightarrow> int) option" where
  "semop_spec v [] = Some v"
| "semop_spec v (b # ops) =
     (let n = unat (sem_num b); d = sint (sem_op b) in
      if d < 0 \<and> v n < - d then None
      else if d = 0 \<and> v n \<noteq> 0 then None
      else semop_spec (v(n := v n + d)) ops)"

text \<open>Every operation can be carried out on the values \<open>v\<close> (the test of the first loop).\<close>

definition semop_ready :: "(nat \<Rightarrow> int) \<Rightarrow> psx_sembuf \<Rightarrow> bool" where
  "semop_ready v b \<longleftrightarrow> (sint (sem_op b) < 0 \<longrightarrow> - sint (sem_op b) \<le> v (unat (sem_num b))) \<and>
     (sem_op b = 0 \<longrightarrow> v (unat (sem_num b)) = 0)"

abbreviation (input) sem_ints :: "psx_sem \<Rightarrow> nat \<Rightarrow> int" where
  "sem_ints sem \<equiv> \<lambda>n. uint (sem_val sem n)"

lemma psx_sem_check_valid:
  assumes "\<forall>b\<in>set ops. sem_num b < sem_nsems (sem_ds sem)"
  shows "psx_sem_check sem ops =
    (if \<forall>b\<in>set ops. semop_ready (sem_ints sem) b then None else Some Sem_blocked)"
  using assms by (induction ops) (auto simp: semop_ready_def not_le not_less unsigned_eq_0_iff)

lemma distinct_nums:
  assumes "distinct (map sem_num (b # ops))" "c \<in> set ops"
  shows "unat (sem_num c) \<noteq> unat (sem_num b)"
proof
  assume "unat (sem_num c) = unat (sem_num b)"
  then have "sem_num b = sem_num c" by (simp add: word_unat_eq_iff)
  then have "sem_num b \<in> sem_num ` set ops" using assms(2) by (rule image_eqI)
  then show False using assms(1) by simp
qed

lemma semop_ready_upd:
  "sem_num b \<noteq> sem_num c \<Longrightarrow> semop_ready (v(unat (sem_num c) := x)) b = semop_ready v b"
  by (simp add: semop_ready_def word_unat_eq_iff)

lemma semop_spec_distinct:
  assumes "distinct (map sem_num ops)"
  shows "semop_spec v ops =
    (if \<forall>b\<in>set ops. semop_ready v b
     then Some (\<lambda>n. case find (\<lambda>b. unat (sem_num b) = n) ops of
                 None \<Rightarrow> v n | Some b \<Rightarrow> v n + sint (sem_op b)) else None)"
  using assms
proof (induction ops arbitrary: v)
  case Nil
  then show ?case by simp
next
  case (Cons b ops)
  define v' where "v' = v(unat (sem_num b) := v (unat (sem_num b)) + sint (sem_op b))"
  have r: "(\<forall>c\<in>set ops. semop_ready v' c) = (\<forall>c\<in>set ops. semop_ready v c)"
    using Cons.prems unfolding v'_def
    by (intro ball_cong refl semop_ready_upd) (force simp: image_iff)
  have nf: "find (\<lambda>c. unat (sem_num c) = unat (sem_num b)) ops = None"
    using distinct_nums [OF Cons.prems] by (simp add: find_None_iff)
  have f: "(\<lambda>n. case find (\<lambda>c. unat (sem_num c) = n) ops of
        None \<Rightarrow> v' n | Some c \<Rightarrow> v' n + sint (sem_op c)) =
      (\<lambda>n. case find (\<lambda>c. unat (sem_num c) = n) (b # ops) of
        None \<Rightarrow> v n | Some c \<Rightarrow> v n + sint (sem_op c))"
    using nf by (auto simp: v'_def fun_eq_iff split: option.split)
  have "semop_spec v (b # ops) = (if semop_ready v b then semop_spec v' ops else None)"
    by (auto simp: semop_ready_def v'_def Let_def signed_eq_0_iff)
  also have "\<dots> = (if \<forall>c\<in>set (b # ops). semop_ready v c
      then Some (\<lambda>n. case find (\<lambda>c. unat (sem_num c) = n) (b # ops) of
                   None \<Rightarrow> v n | Some c \<Rightarrow> v n + sint (sem_op c)) else None)"
    using Cons.IH [of v'] Cons.prems r f by auto
  finally show ?case .
qed

lemma psx_sem_apply_val:
  assumes "distinct (map sem_num ops)"
    "\<forall>b\<in>set ops. 0 \<le> sem_ints sem (unat (sem_num b)) + sint (sem_op b) \<and>
       sem_ints sem (unat (sem_num b)) + sint (sem_op b) < 65536"
  shows "sem_ints (psx_sem_apply pid sem ops) =
    (\<lambda>n. case find (\<lambda>b. unat (sem_num b) = n) ops of
       None \<Rightarrow> sem_ints sem n | Some b \<Rightarrow> sem_ints sem n + sint (sem_op b))"
  using assms
proof (induction ops arbitrary: sem)
  case Nil
  then show ?case by simp
next
  case (Cons b ops)
  define sem' where "sem' = sem\<lparr>sem_val := (sem_val sem)(unat (sem_num b) :=
      word_of_int (sem_ints sem (unat (sem_num b)) + sint (sem_op b))),
    sem_pid := (sem_pid sem)(unat (sem_num b) := pid)\<rparr>"
  have "uint (word_of_int x :: u16) = x" if "0 \<le> x" "x < 65536" for x
    using that by (simp add: uint_word_of_int)
  from this [of "sem_ints sem (unat (sem_num b)) + sint (sem_op b)"]
  have v: "sem_ints sem' n = (if n = unat (sem_num b)
      then sem_ints sem (unat (sem_num b)) + sint (sem_op b) else sem_ints sem n)" for n
    using Cons.prems(2) unfolding sem'_def by (auto simp del: of_int_add)
  have "unat (sem_num c) \<noteq> unat (sem_num b)" if "c \<in> set ops" for c
    using distinct_nums [OF Cons.prems(1) that] .
  then have "\<forall>c\<in>set ops. 0 \<le> sem_ints sem' (unat (sem_num c)) + sint (sem_op c) \<and>
       sem_ints sem' (unat (sem_num c)) + sint (sem_op c) < 65536"
    using Cons.prems(2) unfolding v by auto
  then have "sem_ints (psx_sem_apply pid sem' ops) =
    (\<lambda>n. case find (\<lambda>b. unat (sem_num b) = n) ops of
       None \<Rightarrow> sem_ints sem' n | Some b \<Rightarrow> sem_ints sem' n + sint (sem_op b))"
    using Cons.IH [of sem'] Cons.prems(1) by simp
  moreover have "psx_sem_apply pid sem (b # ops) = psx_sem_apply pid sem' ops"
    by (simp add: sem'_def)
  moreover have "find (\<lambda>c. unat (sem_num c) = unat (sem_num b)) ops = None"
    using distinct_nums [OF Cons.prems(1)] by (simp add: find_None_iff)
  ultimately show ?case
    unfolding v by (auto simp: fun_eq_iff split: option.split)
qed

text \<open>For any array: the values after the second loop are those before it with all changes added, in 16 bits.\<close>

lemma psx_sem_apply_sum:
  "sem_val (psx_sem_apply pid sem ops) n =
    sem_val sem n + word_of_int (\<Sum>b\<leftarrow>ops. if unat (sem_num b) = n then sint (sem_op b) else 0)"
proof (induction ops arbitrary: sem)
  case (Cons b ops)
  show ?case unfolding psx_sem_apply.simps Cons.IH by (simp add: algebra_simps)
qed simp

lemma psx_sem_check_result:
  "case psx_sem_check sem ops of
      None \<Rightarrow> \<forall>b\<in>set ops. sem_num b < sem_nsems (sem_ds sem) \<and> semop_ready (sem_ints sem) b
    | Some Sem_blocked \<Rightarrow> \<exists>b\<in>set ops. sem_num b < sem_nsems (sem_ds sem) \<and> \<not> semop_ready (sem_ints sem) b
    | Some (Sem_error e) \<Rightarrow> e = EFBIG \<and> (\<exists>b\<in>set ops. \<not> sem_num b < sem_nsems (sem_ds sem))
    | Some (Sem_applied _) \<Rightarrow> False"
  by (induction ops) (auto simp: semop_ready_def not_le not_less unsigned_eq_0_iff split: option.splits sem_result.splits)

lemma sem_try_distinct:
  assumes "\<forall>b\<in>set ops. sem_num b < sem_nsems (sem_ds sem)" "distinct (map sem_num ops)"
    "\<forall>b\<in>set ops. sem_ints sem (unat (sem_num b)) + sint (sem_op b) < 65536"
  shows "case psx_sem_try s sem ops of
      Sem_applied sem' \<Rightarrow> semop_spec (sem_ints sem) ops = Some (sem_ints sem')
    | Sem_blocked \<Rightarrow> semop_spec (sem_ints sem) ops = None
    | Sem_error e \<Rightarrow> False"
proof (cases "\<forall>b\<in>set ops. semop_ready (sem_ints sem) b")
  case True
  then have "\<forall>b\<in>set ops. 0 \<le> sem_ints sem (unat (sem_num b)) + sint (sem_op b) \<and>
       sem_ints sem (unat (sem_num b)) + sint (sem_op b) < 65536"
    using assms(3) uint_ge_0 unfolding semop_ready_def by fastforce
  from psx_sem_apply_val [OF assms(2) this] True show ?thesis
    using semop_spec_distinct [OF assms(2)] psx_sem_check_valid [OF assms(1)]
    by (simp add: psx_sem_try_def Let_def)
next
  case False
  then show ?thesis
    using semop_spec_distinct [OF assms(2)] psx_sem_check_valid [OF assms(1)]
    by (auto simp: psx_sem_try_def)
qed

text \<open>C5: What \<open>semop\<close> does with any array of operations. It applies the array iff every operation names a semaphore of
  the set and could be carried out alone on the values at entry, and then adds all changes to the values, in 16 bits; it
  blocks only if some operation could not be carried out, and fails with EFBIG only if some operation names no semaphore of
  the set. For an array that names no semaphore twice (and whose sums stay below 65536) this is what carrying out
  the operations one after another gives, or its impossibility; the code does not test for arrays that name one twice, and for them
  it differs from POSIX (\<open>sem_try_double_decrement\<close>, \<open>sem_try_up_down\<close>).\<close>

theorem sem_try_refines:
  "(case psx_sem_try s sem ops of
      Sem_applied sem' \<Rightarrow> (\<forall>b\<in>set ops. sem_num b < sem_nsems (sem_ds sem) \<and> semop_ready (sem_ints sem) b) \<and>
        (\<forall>n. sem_val sem' n = sem_val sem n + word_of_int (\<Sum>b\<leftarrow>ops. if unat (sem_num b) = n then sint (sem_op b) else 0))
    | Sem_blocked \<Rightarrow> \<exists>b\<in>set ops. sem_num b < sem_nsems (sem_ds sem) \<and> \<not> semop_ready (sem_ints sem) b
    | Sem_error e \<Rightarrow> e = EFBIG \<and> (\<exists>b\<in>set ops. \<not> sem_num b < sem_nsems (sem_ds sem))) \<and>
   ((\<forall>b\<in>set ops. sem_num b < sem_nsems (sem_ds sem)) \<and> distinct (map sem_num ops) \<and>
      (\<forall>b\<in>set ops. sem_ints sem (unat (sem_num b)) + sint (sem_op b) < 65536) \<longrightarrow>
    (case psx_sem_try s sem ops of
      Sem_applied sem' \<Rightarrow> semop_spec (sem_ints sem) ops = Some (sem_ints sem')
    | Sem_blocked \<Rightarrow> semop_spec (sem_ints sem) ops = None
    | Sem_error e \<Rightarrow> False))"
proof (intro conjI impI)
  show "case psx_sem_try s sem ops of
      Sem_applied sem' \<Rightarrow> (\<forall>b\<in>set ops. sem_num b < sem_nsems (sem_ds sem) \<and> semop_ready (sem_ints sem) b) \<and>
        (\<forall>n. sem_val sem' n = sem_val sem n + word_of_int (\<Sum>b\<leftarrow>ops. if unat (sem_num b) = n then sint (sem_op b) else 0))
    | Sem_blocked \<Rightarrow> \<exists>b\<in>set ops. sem_num b < sem_nsems (sem_ds sem) \<and> \<not> semop_ready (sem_ints sem) b
    | Sem_error e \<Rightarrow> e = EFBIG \<and> (\<exists>b\<in>set ops. \<not> sem_num b < sem_nsems (sem_ds sem))"
    using psx_sem_check_result [of ops sem] psx_sem_apply_sum [of "psx_ipc_pid s" sem ops]
    by (auto simp: psx_sem_try_def Let_def split: option.splits sem_result.splits)
qed (rule sem_try_distinct; blast)

theorem sem_try_refines_witness:
  "let sem = zero_sem\<lparr>sem_ds := (sem_ds zero_sem)\<lparr>sem_nsems := 2\<rparr>, sem_val := (\<lambda>_. 3)\<rparr>;
       ops = [\<lparr>sem_num = 0, sem_op = -2, sem_flg = 0\<rparr>, \<lparr>sem_num = 1, sem_op = 4, sem_flg = 0\<rparr>]
   in case psx_sem_try (ipc_init 0 0 1 \<lparr>tv_sec = 7, tv_nsec = 0\<rparr>) sem ops of
      Sem_applied sem' \<Rightarrow> semop_spec (sem_ints sem) ops = Some (sem_ints sem')
    | Sem_blocked \<Rightarrow> semop_spec (sem_ints sem) ops = None
    | Sem_error e \<Rightarrow> False"
  unfolding Let_def by (rule sem_try_refines [THEN conjunct2, THEN mp]) (simp add: zero_sem_def)

text \<open>
  An array that names a semaphore twice is not checked as a whole: two decrements of a
  semaphore with value 1 are both tested against 1, and the value wraps to 65535, where the
  specification blocks; an increment and a decrement of a semaphore with value 0 block, where the specification
  carries them out.
\<close>

lemma sem_try_double_decrement:
  "let sem = zero_sem\<lparr>sem_ds := (sem_ds zero_sem)\<lparr>sem_nsems := 1\<rparr>, sem_val := (\<lambda>_. 1)\<rparr>;
       dec = \<lparr>sem_num = 0, sem_op = -1, sem_flg = 0\<rparr>
   in (case psx_sem_try (ipc_init 0 0 1 \<lparr>tv_sec = 7, tv_nsec = 0\<rparr>) sem [dec, dec] of
         Sem_applied sem' \<Rightarrow> sem_val sem' 0 = 65535 | _ \<Rightarrow> False) \<and>
      semop_spec (sem_ints sem) [dec, dec] = None"
  by code_simp

lemma sem_try_up_down:
  "let sem = zero_sem\<lparr>sem_ds := (sem_ds zero_sem)\<lparr>sem_nsems := 1\<rparr>, sem_val := (\<lambda>_. 0)\<rparr>;
       ops = [\<lparr>sem_num = 0, sem_op = 1, sem_flg = 0\<rparr>, \<lparr>sem_num = 0, sem_op = -1, sem_flg = 0\<rparr>]
   in (case psx_sem_try (ipc_init 0 0 1 \<lparr>tv_sec = 7, tv_nsec = 0\<rparr>) sem ops of Sem_blocked \<Rightarrow> True | _ \<Rightarrow> False) \<and>
      (case semop_spec (sem_ints sem) ops of Some v \<Rightarrow> v 0 = 0 | None \<Rightarrow> False)"
  by code_simp

lemma semop_round_result:
  assumes "semop_round q ops ts s = Some (s', r)"
  shows "r = Inr 0 \<or> r \<in> {Inl EFBIG, Inl EAGAIN} \<and> s' = s"
proof -
  have "psx_sem_check sem os = None \<or> psx_sem_check sem os \<in> {Some Sem_blocked, Some (Sem_error EFBIG)}"
    for sem os by (induction os) auto
  from this [of "sems s q" ops] show ?thesis
    using assms by (auto simp: semop_round_def psx_sem_try_def Let_def split: option.splits if_splits)
qed

text \<open>C6: \<open>semtimedop\<close> with a timeout returns: whatever other threads do to the set, even
  remove it, the call has returned by the round in which the clock reaches the deadline. It
  succeeds, or fails with EINVAL, EFBIG or EAGAIN leaving the state as the others made it.\<close>

theorem semtimedop_returns:
  assumes "psx_ipc_deadline (poll_state env n 0 s) ts"
  shows "\<exists>s' r. sys_semtimedop env (Suc n) s semid ops (Some ts) = Some (s', r) \<and>
    (r = Inr 0 \<or> r \<in> {Inl EINVAL, Inl EFBIG, Inl EAGAIN} \<and> (\<exists>m\<le>n. s' = poll_state env m 0 s))"
proof (cases "psx_sem_from_id s semid")
  case None
  then show ?thesis by (auto simp: sys_semtimedop_def psx_sem_op_def intro: exI [of _ 0])
next
  case (Some q)
  obtain s' r where sr: "poll_loop (semop_round q ops (Some ts)) env (Suc n) 0 s = Some (s', r)"
    using sem_wait.returns_by_deadline [OF assms, of q ops] by auto
  then obtain m where "m \<le> n" "semop_round q ops (Some ts) (poll_state env m 0 s) = Some (s', r)"
    unfolding poll_loop_Some_iff by (auto simp: less_Suc_eq_le)
  then have "r = Inr 0 \<or> r \<in> {Inl EINVAL, Inl EFBIG, Inl EAGAIN} \<and> (\<exists>m\<le>n. s' = poll_state env m 0 s)"
    using semop_round_result by blast
  with sr Some show ?thesis by (simp add: sys_semtimedop_def psx_sem_op_def)
qed

lemma semtimedop_returns_witness:
  "\<exists>s' r. sys_semtimedop (\<lambda>k s. s\<lparr>ipc_clock := \<lparr>tv_sec = int k, tv_nsec = 0\<rparr>\<rparr>) (Suc 3)
      ((ipc_init 0 0 1 \<lparr>tv_sec = 0, tv_nsec = 0\<rparr>)\<lparr>sems := (\<lambda>_. zero_sem\<lparr>sem_used := True,
          sem_ds := (sem_ds zero_sem)\<lparr>sem_nsems := 1\<rparr>\<rparr>)\<rparr>)
      1 [\<lparr>sem_num = 0, sem_op = -1, sem_flg = 0\<rparr>] (Some \<lparr>tv_sec = 2, tv_nsec = 0\<rparr>) = Some (s', r) \<and>
    (r = Inr 0 \<or> r \<in> {Inl EINVAL, Inl EFBIG, Inl EAGAIN} \<and>
      (\<exists>m\<le>3. s' = poll_state (\<lambda>k s. s\<lparr>ipc_clock := \<lparr>tv_sec = int k, tv_nsec = 0\<rparr>\<rparr>) m 0
         ((ipc_init 0 0 1 \<lparr>tv_sec = 0, tv_nsec = 0\<rparr>)\<lparr>sems := (\<lambda>_. zero_sem\<lparr>sem_used := True,
            sem_ds := (sem_ds zero_sem)\<lparr>sem_nsems := 1\<rparr>\<rparr>)\<rparr>)))"
  by (rule semtimedop_returns) (simp add: psx_ipc_deadline_def numeral_3_eq_3)

end
