(* ===== verification/Psx_Shm.thy ===== *)
theory Psx_Shm
  imports Psx_Ipc
begin

text \<open>
  System V shared memory (\<open>_ipc.c\<close>, the \<open>shm\<close> section). Segments live in the static array
  \<open>__psx_shms\<close>; \<open>shmat\<close> hands out the address of a slot's data and \<open>shmdt\<close> finds the slot by
  address, so addresses are words here: \<open>base\<close> is where the array is placed, a slot is 65664
  bytes long and its data starts at offset 128 (after the flags and \<open>struct __psx_shmid_ds\<close>).
\<close>

section \<open>The segment table\<close>

definition psx_shm_lookup :: "ipc \<Rightarrow> u32 \<Rightarrow> nat option" where
  "psx_shm_lookup s key =
     first_idx (\<lambda>i. shm_used (shms s i) \<and> shm_key (shms s i) = key) PSX_IPC_CAP"

definition psx_shm_alloc :: "ipc \<Rightarrow> u32 \<Rightarrow> u64 \<times> u32 \<Rightarrow> (nat \<times> ipc) option" where
  "psx_shm_alloc s key size_mode =
     (case first_idx (\<lambda>i. \<not> shm_used (shms s i)) PSX_IPC_CAP of
        None \<Rightarrow> None
      | Some i \<Rightarrow>
          let s1 = s\<lparr>ipc_seq := ipc_seq s + 1\<rparr>;
              v = zero_shm\<lparr>shm_used := True, shm_seq := ipc_seq s1, shm_key := key,
                    shm_ds := (shm_ds zero_shm)\<lparr>shm_segsz := fst size_mode,
                                shm_cpid := psx_ipc_pid s1,
                                shm_perm := psx_ipc_perm_init s1 key (snd size_mode),
                                shm_ctime := psx_ipc_time s1\<rparr>\<rparr>
          in Some (i, s1\<lparr>shms := (shms s1)(i := v)\<rparr>))"

definition psx_shm_from_id :: "ipc \<Rightarrow> u32 \<Rightarrow> nat option" where
  "psx_shm_from_id s ident =
     (case first_idx (\<lambda>i. psx_ipc_idx ident (shm_seq (shms s i)) = Some i) PSX_IPC_CAP of
        None \<Rightarrow> None
      | Some i \<Rightarrow> if shm_used (shms s i) then Some i else None)"

definition shm_put :: "ipc \<Rightarrow> nat \<Rightarrow> psx_shm \<Rightarrow> ipc" where
  "shm_put s q v = s\<lparr>shms := (shms s)(q := v)\<rparr>"

definition sys_shmget :: "ipc \<Rightarrow> u32 \<Rightarrow> u64 \<Rightarrow> u32 \<Rightarrow> ipc \<times> u32 sysret" where
  "sys_shmget s key sz flag =
     (let mode = flag AND 0x1FF;
          create =
            (if flag AND PSX_IPC_CREAT = 0 then (s, Inl ENOENT)
             else if sz > PSX_SHM_SIZE then (s, Inl ENOMEM)
             else case psx_shm_alloc s key (sz, mode) of
                 None \<Rightarrow> (s, Inl ENOSPC)
               | Some (i, s') \<Rightarrow> (s', Inr (psx_ipc_id i (shm_seq (shms s' i)))))
      in if key \<noteq> PSX_IPC_PRIVATE then
           case psx_shm_lookup s key of
             Some i \<Rightarrow>
               if flag AND PSX_IPC_CREAT \<noteq> 0 \<and> flag AND PSX_IPC_EXCL \<noteq> 0 then (s, Inl EEXIST)
               else if sz > shm_segsz (shm_ds (shms s i)) then (s, Inl EINVAL)
               else (s, Inr (psx_ipc_id i (shm_seq (shms s i))))
           | None \<Rightarrow> create
         else create)"

section \<open>Attaching and detaching\<close>

definition shm_addr :: "u64 \<Rightarrow> nat \<Rightarrow> u64" where
  "shm_addr base i = base + of_nat i * 65664 + 128"

definition sys_shmat :: "u64 \<Rightarrow> ipc \<Rightarrow> u32 \<Rightarrow> ipc \<times> u64 sysret" where
  "sys_shmat base s shmid =
     (case psx_shm_from_id s shmid of
        None \<Rightarrow> (s, Inl EINVAL)
      | Some q \<Rightarrow>
          (shm_put s q ((shms s q)\<lparr>shm_ds := (shm_ds (shms s q))
              \<lparr>shm_nattch := shm_nattch (shm_ds (shms s q)) + 1,
               shm_lpid := psx_ipc_pid s,
               shm_atime := psx_ipc_time s\<rparr>\<rparr>),
           Inr (shm_addr base q)))"

definition sys_shmdt :: "u64 \<Rightarrow> ipc \<Rightarrow> u64 \<Rightarrow> ipc \<times> nat sysret" where
  "sys_shmdt base s a =
     (case first_idx (\<lambda>i. shm_used (shms s i) \<and> a \<ge> shm_addr base i \<and>
               a < shm_addr base i + shm_segsz (shm_ds (shms s i))) PSX_IPC_CAP of
        None \<Rightarrow> (s, Inl EINVAL)
      | Some q \<Rightarrow>
          let ds = shm_ds (shms s q);
              n = (if shm_nattch ds > 0 then shm_nattch ds - 1 else shm_nattch ds)
          in (shm_put s q ((shms s q)\<lparr>shm_ds := ds\<lparr>shm_nattch := n,
                shm_dtime := psx_ipc_time s\<rparr>\<rparr>), Inr 0))"

definition sys_shmctl ::
  "ipc \<Rightarrow> u32 \<Rightarrow> int \<Rightarrow> shmid_ds option \<Rightarrow> ipc \<times> shmid_ds option sysret" where
  "sys_shmctl s shmid cmd arg =
     (case psx_shm_from_id s shmid of
        None \<Rightarrow> (s, Inl EINVAL)
      | Some q \<Rightarrow>
          if cmd = PSX_IPC_RMID then
            (shm_put s q ((shms s q)\<lparr>shm_used := False\<rparr>), Inr None)
          else if cmd = PSX_IPC_STAT \<or> cmd = 13 then
            (case arg of None \<Rightarrow> (s, Inl EFAULT) | Some _ \<Rightarrow> (s, Inr (Some (shm_ds (shms s q)))))
          else if cmd = PSX_IPC_SET then
            (case arg of
               None \<Rightarrow> (s, Inl EFAULT)
             | Some b \<Rightarrow>
                 (shm_put s q ((shms s q)\<lparr>shm_ds := (shm_ds (shms s q))
                    \<lparr>shm_perm := (shm_perm (shm_ds (shms s q)))
                        \<lparr>perm_uid := perm_uid (shm_perm b), perm_gid := perm_gid (shm_perm b),
                         perm_mode := perm_mode (shm_perm b)\<rparr>\<rparr>\<rparr>), Inr None))
          else if cmd = 11 \<or> cmd = 12 then (s, Inr None)
          else (s, Inl EINVAL))"

section \<open>The table keeps its contract\<close>

lemma shms_shm_put [simp]: "shms (shm_put s q v) = (shms s)(q := v)"
  by (simp add: shm_put_def)

lemma psx_shm_from_id_id:
  "i < 64 \<Longrightarrow> psx_shm_from_id s (psx_ipc_id i q) =
    (if take_bit 16 q = take_bit 16 (shm_seq (shms s i)) \<and> shm_used (shms s i) then Some i else None)"
  by (simp add: psx_shm_from_id_def first_ipc_idx_id)

lemma psx_shm_from_id_SomeD:
  "psx_shm_from_id s ident = Some q \<Longrightarrow> q < 64 \<and> shm_used (shms s q)"
  by (auto simp: psx_shm_from_id_def first_idx_Some_iff split: option.splits if_splits)

interpretation shm_tab: ident_slots 64 "\<lambda>s i. shm_used (shms s i)" "\<lambda>s i. shm_key (shms s i)"
  "(=)" "\<lambda>k. k \<noteq> 0" psx_shm_lookup psx_shm_alloc
  "\<lambda>s i. shm_put s i ((shms s i)\<lparr>shm_used := False\<rparr>)"
  "\<lambda>s i. shm_seq (shms s i)" ipc_seq psx_shm_from_id
proof (unfold_locales, goal_cases)
  case (5 t k i)
  then show ?case by (simp add: psx_shm_lookup_def first_idx_Some_iff)
next
  case (6 t k i)
  then show ?case by (auto simp: psx_shm_lookup_def first_idx_None_iff)
next
  case (10 t k a)
  then show ?case
    by (auto simp: psx_shm_alloc_def first_idx_None_iff first_idx_Some_iff Let_def split: option.splits)
qed (auto simp: psx_shm_alloc_def psx_shm_from_id_id shm_put_def first_idx_Some_iff Let_def split: option.splits)

section \<open>Addresses\<close>

text \<open>No segment is longer than its slot; \<open>shmget\<close> sees to that and no operation breaks it.\<close>

definition shm_inv :: "ipc \<Rightarrow> bool" where
  "shm_inv s \<longleftrightarrow> (\<forall>i<PSX_IPC_CAP. shm_segsz (shm_ds (shms s i)) \<le> PSX_SHM_SIZE)"

lemma shm_inv_init: "shm_inv (ipc_init u g p c)"
  by (simp add: shm_inv_def ipc_init_def zero_shm_def)

lemma shm_inv_put:
  "shm_inv s \<Longrightarrow> shm_segsz (shm_ds v) \<le> PSX_SHM_SIZE \<Longrightarrow> shm_inv (shm_put s q v)"
  by (simp add: shm_inv_def)

lemma shm_inv_D: "shm_inv s \<Longrightarrow> i < 64 \<Longrightarrow> shm_segsz (shm_ds (shms s i)) \<le> 65536"
  by (simp add: shm_inv_def)

lemma shm_inv_shmget:
  assumes "shm_inv s"
  shows "shm_inv (fst (sys_shmget s key sz flag))"
  using assms
  by (auto simp: sys_shmget_def psx_shm_alloc_def shm_inv_def Let_def split: option.split)

lemma shm_inv_shmat: "shm_inv s \<Longrightarrow> shm_inv (fst (sys_shmat base s shmid))"
  by (auto simp: sys_shmat_def shm_inv_put shm_inv_D dest: psx_shm_from_id_SomeD split: option.split)

lemma shm_inv_shmdt: "shm_inv s \<Longrightarrow> shm_inv (fst (sys_shmdt base s a))"
  by (auto simp: sys_shmdt_def Let_def shm_inv_put shm_inv_D first_idx_Some_iff split: option.split)

lemma shm_inv_shmctl: "shm_inv s \<Longrightarrow> shm_inv (fst (sys_shmctl s shmid cmd arg))"
  by (auto simp: sys_shmctl_def shm_inv_put shm_inv_D dest: psx_shm_from_id_SomeD split: option.split)

text \<open>The array fits in the address space, so slot addresses do not wrap around.\<close>

lemma unat_shm_addr:
  assumes "unat base + 64 * 65664 < 2 ^ 64" "i < 64"
  shows "unat (shm_addr base i) = unat base + i * 65664 + 128"
proof -
  have "unat (of_nat (i * 65664 + 128) :: u64) = i * 65664 + 128"
    using assms(2) by (simp add: unat_of_nat take_bit_nat_eq_self del: of_nat_add of_nat_mult)
  moreover have "shm_addr base i = base + of_nat (i * 65664 + 128)"
    by (simp add: shm_addr_def)
  ultimately show ?thesis
    using assms by (simp add: unat_word_ariths)
qed

lemma slot_range:
  fixes i j z :: nat
  assumes "z \<le> 65536"
  shows "j * 65664 \<le> i * 65664 \<and> i * 65664 < j * 65664 + z \<longleftrightarrow> i = j \<and> z \<noteq> 0"
proof (cases "i \<le> j")
  case True
  then show ?thesis by auto
next
  case False
  then have "(j + 1) * 65664 \<le> i * 65664" by (intro mult_right_mono) auto
  then have "j * 65664 + z < i * 65664" using assms by (simp add: distrib_right)
  with False show ?thesis by linarith
qed

lemma shm_addr_in_range:
  assumes base: "unat base + 64 * 65664 < 2 ^ 64" and inv: "shm_inv s" and i: "i < 64" and j: "j < 64"
  shows "shm_addr base i \<ge> shm_addr base j \<and>
      shm_addr base i < shm_addr base j + shm_segsz (shm_ds (shms s j)) \<longleftrightarrow>
    i = j \<and> shm_segsz (shm_ds (shms s j)) \<noteq> 0"
proof -
  have sz: "unat (shm_segsz (shm_ds (shms s j))) \<le> 65536"
    using inv j by (simp add: shm_inv_def word_le_nat_alt)
  have e: "unat (shm_addr base j + shm_segsz (shm_ds (shms s j))) =
      unat base + j * 65664 + 128 + unat (shm_segsz (shm_ds (shms s j)))"
    using sz unat_shm_addr [OF base j] base j by (simp add: unat_word_ariths)
  let ?z = "unat (shm_segsz (shm_ds (shms s j)))"
  have "shm_addr base i \<ge> shm_addr base j \<and>
      shm_addr base i < shm_addr base j + shm_segsz (shm_ds (shms s j)) \<longleftrightarrow>
    j * 65664 \<le> i * 65664 \<and> i * 65664 < j * 65664 + ?z"
    by (simp add: word_le_nat_alt word_less_nat_alt e unat_shm_addr [OF base i] unat_shm_addr [OF base j])
  also have "\<dots> \<longleftrightarrow> i = j \<and> ?z \<noteq> 0" using sz by (rule slot_range)
  finally show ?thesis by (simp add: unat_eq_0)
qed

text \<open>\<open>shmdt\<close> of the address \<open>shmat\<close> returned finds the segment that was attached, not a
  neighbour, and takes the attach count back to what it was; a segment of size 0 is the one
  that cannot be detached.\<close>

lemma shmdt_undoes_shmat:
  assumes "unat base + 64 * 65664 < 2 ^ 64" "shm_inv s"
    and "sys_shmat base s shmid = (s1, Inr a)" "psx_shm_from_id s shmid = Some q"
    and "shm_nattch (shm_ds (shms s q)) \<noteq> - 1"
  shows "if shm_segsz (shm_ds (shms s q)) = 0 then sys_shmdt base s1 a = (s1, Inl EINVAL)
    else \<exists>s2. sys_shmdt base s1 a = (s2, Inr 0) \<and>
      shms s2 q = (shms s q)\<lparr>shm_ds := (shm_ds (shms s q))\<lparr>shm_lpid := psx_ipc_pid s,
          shm_atime := psx_ipc_time s, shm_dtime := psx_ipc_time s\<rparr>\<rparr> \<and>
      (\<forall>p. p \<noteq> q \<longrightarrow> shms s2 p = shms s p)"
proof -
  have q: "q < 64" "shm_used (shms s q)" using psx_shm_from_id_SomeD [OF assms(4)] by auto
  define s1' where "s1' = shm_put s q ((shms s q)\<lparr>shm_ds := (shm_ds (shms s q))
              \<lparr>shm_nattch := shm_nattch (shm_ds (shms s q)) + 1,
               shm_lpid := psx_ipc_pid s, shm_atime := psx_ipc_time s\<rparr>\<rparr>)"
  have s1: "s1 = s1'" and a: "a = shm_addr base q"
    using assms(3,4) by (simp_all add: sys_shmat_def s1'_def)
  have inv: "shm_inv s1'" using assms(2) q by (simp add: s1'_def shm_inv_put shm_inv_D)
  let ?P = "\<lambda>i. shm_used (shms s1' i) \<and> a \<ge> shm_addr base i \<and>
    a < shm_addr base i + shm_segsz (shm_ds (shms s1' i))"
  have P: "?P i \<longleftrightarrow> i = q \<and> shm_segsz (shm_ds (shms s q)) \<noteq> 0" if "i < 64" for i
    using shm_addr_in_range [OF assms(1) inv q(1) that] q(2) a that
    by (auto simp: s1'_def)
  have t: "psx_ipc_time s1' = psx_ipc_time s" by (simp add: s1'_def shm_put_def psx_ipc_time_def)
  have n: "shm_nattch (shm_ds (shms s q)) + 1 > 0"
    using assms(5) by (metis add_eq_0_iff2 word_neq_0_conv)
  show ?thesis
  proof (cases "shm_segsz (shm_ds (shms s q)) = 0")
    case True
    then have "first_idx ?P 64 = None" using P by (auto simp: first_idx_None_iff)
    then show ?thesis using True by (simp add: s1 sys_shmdt_def)
  next
    case False
    then have "first_idx ?P 64 = Some q" using P q by (intro first_idx_unique) auto
    then show ?thesis using False n t by (simp add: s1 sys_shmdt_def s1'_def Let_def)
  qed
qed

abbreviation (input) "ex_shm n \<equiv>
  fst (sys_shmget (ipc_init 0 0 1 \<lparr>tv_sec = 7, tv_nsec = 0\<rparr>) 5 n 0x3B0)"

lemma shmdt_undoes_shmat_witness:
  "if shm_segsz (shm_ds (shms (ex_shm 16) 0)) = 0
   then sys_shmdt 0x1000 (fst (sys_shmat 0x1000 (ex_shm 16) 0x10001)) 0x1080 =
     (fst (sys_shmat 0x1000 (ex_shm 16) 0x10001), Inl EINVAL)
   else \<exists>s2. sys_shmdt 0x1000 (fst (sys_shmat 0x1000 (ex_shm 16) 0x10001)) 0x1080 = (s2, Inr 0) \<and>
      shms s2 0 = (shms (ex_shm 16) 0)\<lparr>shm_ds := (shm_ds (shms (ex_shm 16) 0))
         \<lparr>shm_lpid := psx_ipc_pid (ex_shm 16), shm_atime := psx_ipc_time (ex_shm 16),
          shm_dtime := psx_ipc_time (ex_shm 16)\<rparr>\<rparr> \<and>
      (\<forall>p. p \<noteq> 0 \<longrightarrow> shms s2 p = shms (ex_shm 16) p)"
proof (rule shmdt_undoes_shmat)
  show "shm_inv (ex_shm 16)" by (rule shm_inv_shmget [OF shm_inv_init])
  have "snd (sys_shmat 0x1000 (ex_shm 16) 0x10001) = Inr 0x1080" by code_simp
  then show "sys_shmat 0x1000 (ex_shm 16) 0x10001 =
      (fst (sys_shmat 0x1000 (ex_shm 16) 0x10001), Inr 0x1080)"
    by (simp add: prod_eq_iff)
  show "psx_shm_from_id (ex_shm 16) 0x10001 = Some 0" by code_simp
  show "shm_nattch (shm_ds (shms (ex_shm 16) 0)) \<noteq> - 1" by code_simp
qed simp

text \<open>
  \<open>IPC_RMID\<close> frees the slot of a segment that is still attached: the next \<open>shmget\<close> hands the
  same memory, cleared, to another key.
\<close>

lemma shm_rmid_while_attached:
  "let s1 = fst (sys_shmat 0x1000 (ex_shm 16) 0x10001);
       s2 = fst (sys_shmctl s1 0x10001 0 None);
       s3 = fst (sys_shmget s2 6 16 0x3B0)
   in snd (sys_shmat 0x1000 (ex_shm 16) 0x10001) = Inr 0x1080 \<and>
      snd (sys_shmdt 0x1000 s2 0x1080) = Inl EINVAL \<and>
      snd (sys_shmat 0x1000 s3 0x20001) = Inr 0x1080"
  by code_simp

end
