(* ===== verification/Psx_Ipc_System.thy ===== *)
theory Psx_Ipc_System
  imports Psx_Msg Psx_Sem Psx_Shm
begin

text \<open>
  The System V IPC layer as a transition system: a step is one call, or one
  round of a call that blocks, or the passing of time. A blocked call works on the slot it resolved before the loop, also when
  another thread has removed the object meanwhile, so the rounds of the three blocking calls
  range over all slots.

  The code takes no lock, and nothing in it keeps two threads from being inside two calls at the same time. The steps here are
  those of threads that change over between calls and during the delays of blocking calls only; what follows
  holds for such runs. \<open>msgget_race\<close> shows that it does not hold when a call of another thread comes between the lookup
  and the allocation of a call.
\<close>

section \<open>Steps\<close>

inductive ipc_step :: "ipc \<Rightarrow> ipc \<Rightarrow> bool" where
  msgget: "ipc_step s (fst (sys_msgget s key flag))"
| msgctl: "ipc_step s (fst (sys_msgctl s x cmd mbuf))"
| msgsnd: "q < 64 \<Longrightarrow> unat len \<le> 2048 \<Longrightarrow> msgsnd_round q mtype txt len flag s = Some (s', r) \<Longrightarrow>
    ipc_step s s'"
| msgrcv: "q < 64 \<Longrightarrow> msgrcv_round q len msgtyp flag s = Some (s', r') \<Longrightarrow> ipc_step s s'"
| semget: "ipc_step s (fst (sys_semget s key nsems flag))"
| semctl: "ipc_step s (fst (sys_semctl s x num cmd arg))"
| semop: "q < 64 \<Longrightarrow> semop_round q ops ts s = Some (s', r) \<Longrightarrow> ipc_step s s'"
| shmget: "ipc_step s (fst (sys_shmget s key sz flag))"
| shmctl: "ipc_step s (fst (sys_shmctl s x cmd sbuf))"
| shmat: "ipc_step s (fst (sys_shmat base s x))"
| shmdt: "ipc_step s (fst (sys_shmdt base s a))"
| other: "ipc_step s (s\<lparr>ipc_clock := clk, ipc_pid := pid\<rparr>)"

inductive_cases ipc_stepE: "ipc_step s s'"

text \<open>
  A whole call is a sequence of steps when the other threads make steps between its rounds.
\<close>

lemma poll_state_steps:
  assumes "\<And>k s. ipc_step\<^sup>*\<^sup>* s (env k s)"
  shows "ipc_step\<^sup>*\<^sup>* s (poll_state env n k s)"
proof (induction n arbitrary: k s)
  case (Suc n)
  show ?case using assms [of s k] Suc [of "env k s" "Suc k"] by simp
qed simp

lemma poll_loop_steps:
  assumes "\<And>k s. ipc_step\<^sup>*\<^sup>* s (env k s)"
    and "\<And>s s' r. body s = Some (s', r) \<Longrightarrow> ipc_step s s'"
    and "poll_loop body env f k s = Some (s', r)"
  shows "ipc_step\<^sup>*\<^sup>* s s'"
  using assms(3) poll_state_steps [OF assms(1)] assms(2)
  unfolding poll_loop_Some_iff by (meson rtranclp.rtrancl_into_rtrancl)

lemma sys_msgsnd_steps:
  assumes env: "\<And>k s. ipc_step\<^sup>*\<^sup>* s (env k s)"
    and call: "sys_msgsnd env f s x m len flag = Some (s', r)"
  shows "ipc_step\<^sup>*\<^sup>* s s'"
proof -
  have round: "ipc_step t t'" if "msgsnd_round q ty b len flag t = Some (t', r)"
    "psx_msq_from_id s x = Some q" "unat len \<le> 2048" for q ty b t t' r
    using that psx_msq_from_id_SomeD [OF that(2)] by (blast intro: ipc_step.msgsnd)
  have "ipc_step\<^sup>*\<^sup>* s s'" if "poll_loop (msgsnd_round q ty b len flag) env f 0 s = Some (s', r)"
    "psx_msq_from_id s x = Some q" "unat len \<le> 2048" for q ty b
    by (rule poll_loop_steps [OF env _ that(1)]) (rule round [OF _ that(2,3)])
  with call show ?thesis
    by (auto simp: sys_msgsnd_def not_less split: option.splits if_splits)
qed

lemma sys_msgrcv_steps:
  assumes env: "\<And>k s. ipc_step\<^sup>*\<^sup>* s (env k s)"
    and call: "sys_msgrcv env f s x mnull len ty flag = Some (s', r)"
  shows "ipc_step\<^sup>*\<^sup>* s s'"
proof -
  have round: "ipc_step t t'" if "msgrcv_round q len ty flag t = Some (t', r)"
    "psx_msq_from_id s x = Some q" for q t t' r
    using that psx_msq_from_id_SomeD [OF that(2)] by (blast intro: ipc_step.msgrcv)
  have "ipc_step\<^sup>*\<^sup>* s s'" if "poll_loop (msgrcv_round q len ty flag) env f 0 s = Some (s', r)"
    "psx_msq_from_id s x = Some q" for q
    by (rule poll_loop_steps [OF env _ that(1)]) (rule round [OF _ that(2)])
  with call show ?thesis
    by (auto simp: sys_msgrcv_def split: option.splits if_splits)
qed

lemma psx_sem_from_id_SomeD:
  "psx_sem_from_id s ident = Some q \<Longrightarrow> q < 64 \<and> sem_used (sems s q)"
  by (auto simp: psx_sem_from_id_def first_idx_Some_iff split: option.splits if_splits)

lemma psx_sem_op_steps:
  assumes env: "\<And>k s. ipc_step\<^sup>*\<^sup>* s (env k s)"
    and call: "psx_sem_op env f s x ops ts = Some (s', r)"
  shows "ipc_step\<^sup>*\<^sup>* s s'"
proof -
  have round: "ipc_step t t'" if "semop_round q ops ts t = Some (t', r)"
    "psx_sem_from_id s x = Some q" for q t t' r
    using that psx_sem_from_id_SomeD [OF that(2)] by (blast intro: ipc_step.semop)
  have "ipc_step\<^sup>*\<^sup>* s s'" if "poll_loop (semop_round q ops ts) env f 0 s = Some (s', r)"
    "psx_sem_from_id s x = Some q" for q
    by (rule poll_loop_steps [OF env _ that(1)]) (rule round [OF _ that(2)])
  with call show ?thesis
    by (auto simp: psx_sem_op_def split: option.splits)
qed

section \<open>What a step does to the tables\<close>

text \<open>
  A table is changed in one of three ways: a slot keeps its place in the table (key and
  sequence number stay, it may be freed), or an unused slot is filled for a key that no used
  slot has (unless the key is IPC_PRIVATE), numbered with the new value of the counter.
\<close>

definition slot_kept :: "(nat \<Rightarrow> bool \<times> u32 \<times> u32) \<Rightarrow> (nat \<Rightarrow> bool \<times> u32 \<times> u32) \<Rightarrow> bool" where
  "slot_kept t t' \<longleftrightarrow> (\<forall>i. snd (t' i) = snd (t i) \<and> (fst (t' i) \<longrightarrow> fst (t i)))"

definition slot_filled :: "u32 \<Rightarrow> (nat \<Rightarrow> bool \<times> u32 \<times> u32) \<Rightarrow> (nat \<Rightarrow> bool \<times> u32 \<times> u32) \<Rightarrow> bool" where
  "slot_filled c t t' \<longleftrightarrow> (\<exists>i<64. \<exists>k. \<not> fst (t i) \<and> t' = t(i := (True, c + 1, k)) \<and>
     (k = 0 \<or> (\<forall>j<64. fst (t j) \<longrightarrow> snd (snd (t j)) \<noteq> k)))"

definition msq_tags :: "ipc \<Rightarrow> nat \<Rightarrow> bool \<times> u32 \<times> u32" where
  "msq_tags s i = (msq_used (msqs s i), msq_seq (msqs s i), msq_key (msqs s i))"

definition sem_tags :: "ipc \<Rightarrow> nat \<Rightarrow> bool \<times> u32 \<times> u32" where
  "sem_tags s i = (sem_used (sems s i), sem_seq (sems s i), sem_key (sems s i))"

definition shm_tags :: "ipc \<Rightarrow> nat \<Rightarrow> bool \<times> u32 \<times> u32" where
  "shm_tags s i = (shm_used (shms s i), shm_seq (shms s i), shm_key (shms s i))"

text \<open>One call fills at most one slot of one table; the counter counts the fillings.\<close>

definition tags_step :: "ipc \<Rightarrow> ipc \<Rightarrow> bool" where
  "tags_step s s' \<longleftrightarrow>
     ipc_seq s' = ipc_seq s \<and> slot_kept (msq_tags s) (msq_tags s') \<and>
       slot_kept (sem_tags s) (sem_tags s') \<and> slot_kept (shm_tags s) (shm_tags s') \<or>
     ipc_seq s' = ipc_seq s + 1 \<and>
      (slot_filled (ipc_seq s) (msq_tags s) (msq_tags s') \<and>
         sem_tags s' = sem_tags s \<and> shm_tags s' = shm_tags s \<or>
       slot_filled (ipc_seq s) (sem_tags s) (sem_tags s') \<and>
         msq_tags s' = msq_tags s \<and> shm_tags s' = shm_tags s \<or>
       slot_filled (ipc_seq s) (shm_tags s) (shm_tags s') \<and>
         msq_tags s' = msq_tags s \<and> sem_tags s' = sem_tags s)"

named_theorems tags_simps

lemma slot_kept_refl [tags_simps]: "slot_kept t t"
  by (simp add: slot_kept_def)

lemma msq_put_tags [tags_simps]:
  "ipc_seq (msq_put s q v) = ipc_seq s" "sem_tags (msq_put s q v) = sem_tags s"
  "shm_tags (msq_put s q v) = shm_tags s"
  "slot_kept (msq_tags s) (msq_tags (msq_put s q v)) \<longleftrightarrow>
     msq_seq v = msq_seq (msqs s q) \<and> msq_key v = msq_key (msqs s q) \<and>
     (msq_used v \<longrightarrow> msq_used (msqs s q))"
  by (auto simp: msq_put_def sem_tags_def shm_tags_def fun_eq_iff slot_kept_def msq_tags_def)

lemma sem_put_tags [tags_simps]:
  "ipc_seq (sem_put s q v) = ipc_seq s" "msq_tags (sem_put s q v) = msq_tags s"
  "shm_tags (sem_put s q v) = shm_tags s"
  "slot_kept (sem_tags s) (sem_tags (sem_put s q v)) \<longleftrightarrow>
     sem_seq v = sem_seq (sems s q) \<and> sem_key v = sem_key (sems s q) \<and>
     (sem_used v \<longrightarrow> sem_used (sems s q))"
  by (auto simp: sem_put_def sem_tags_def shm_tags_def fun_eq_iff slot_kept_def msq_tags_def)

lemma shm_put_tags [tags_simps]:
  "ipc_seq (shm_put s q v) = ipc_seq s" "msq_tags (shm_put s q v) = msq_tags s"
  "sem_tags (shm_put s q v) = sem_tags s"
  "slot_kept (shm_tags s) (shm_tags (shm_put s q v)) \<longleftrightarrow>
     shm_seq v = shm_seq (shms s q) \<and> shm_key v = shm_key (shms s q) \<and>
     (shm_used v \<longrightarrow> shm_used (shms s q))"
  by (auto simp: shm_put_def sem_tags_def shm_tags_def fun_eq_iff slot_kept_def msq_tags_def)

lemma tags_step_refl: "tags_step s s"
  by (simp add: tags_step_def tags_simps)

text \<open>The three allocations fill a slot; a failed lookup says that the key is new.\<close>

lemma msq_alloc_tags:
  "psx_msq_alloc s key m = Some (i, s') \<Longrightarrow> i < 64 \<and> \<not> fst (msq_tags s i) \<and>
     msq_tags s' = (msq_tags s)(i := (True, ipc_seq s + 1, key)) \<and>
     ipc_seq s' = ipc_seq s + 1 \<and> sem_tags s' = sem_tags s \<and> shm_tags s' = shm_tags s"
  by (auto simp: psx_msq_alloc_def Let_def msq_tags_def sem_tags_def shm_tags_def fun_eq_iff
      first_idx_Some_iff split: option.splits)

lemma sem_alloc_tags:
  "psx_sem_alloc s key m = Some (i, s') \<Longrightarrow> i < 64 \<and> \<not> fst (sem_tags s i) \<and>
     sem_tags s' = (sem_tags s)(i := (True, ipc_seq s + 1, key)) \<and>
     ipc_seq s' = ipc_seq s + 1 \<and> msq_tags s' = msq_tags s \<and> shm_tags s' = shm_tags s"
  by (auto simp: psx_sem_alloc_def Let_def msq_tags_def sem_tags_def shm_tags_def fun_eq_iff
      first_idx_Some_iff split: option.splits)

lemma shm_alloc_tags:
  "psx_shm_alloc s key m = Some (i, s') \<Longrightarrow> i < 64 \<and> \<not> fst (shm_tags s i) \<and>
     shm_tags s' = (shm_tags s)(i := (True, ipc_seq s + 1, key)) \<and>
     ipc_seq s' = ipc_seq s + 1 \<and> msq_tags s' = msq_tags s \<and> sem_tags s' = sem_tags s"
  by (auto simp: psx_shm_alloc_def Let_def msq_tags_def sem_tags_def shm_tags_def fun_eq_iff
      first_idx_Some_iff split: option.splits)

lemma msq_lookup_None_tags:
  "psx_msq_lookup s key = None \<Longrightarrow> \<forall>j<64. fst (msq_tags s j) \<longrightarrow> snd (snd (msq_tags s j)) \<noteq> key"
  by (simp add: psx_msq_lookup_def first_idx_None_iff msq_tags_def)

lemma sem_lookup_None_tags:
  "psx_sem_lookup s key = None \<Longrightarrow> \<forall>j<64. fst (sem_tags s j) \<longrightarrow> snd (snd (sem_tags s j)) \<noteq> key"
  by (simp add: psx_sem_lookup_def first_idx_None_iff sem_tags_def)

lemma shm_lookup_None_tags:
  "psx_shm_lookup s key = None \<Longrightarrow> \<forall>j<64. fst (shm_tags s j) \<longrightarrow> snd (snd (shm_tags s j)) \<noteq> key"
  by (simp add: psx_shm_lookup_def first_idx_None_iff shm_tags_def)

lemma msgget_cases:
  obtains "fst (sys_msgget s key flag) = s"
  | i where "psx_msq_alloc s key (flag AND 0x1FF) = Some (i, fst (sys_msgget s key flag))"
      "key = 0 \<or> psx_msq_lookup s key = None"
  by (cases "key = 0"; cases "psx_msq_lookup s key"; cases "psx_msq_alloc s key (flag AND 0x1FF)";
      cases "flag AND 0x200 = 0") (auto simp: sys_msgget_def Let_def)

lemma semget_cases:
  obtains "fst (sys_semget s key n flag) = s"
  | i where "psx_sem_alloc s key (n, flag AND 0x1FF) = Some (i, fst (sys_semget s key n flag))"
      "key = 0 \<or> psx_sem_lookup s key = None" "0 < sint n" "sint n \<le> 32"
  by (cases "key = 0"; cases "psx_sem_lookup s key"; cases "psx_sem_alloc s key (n, flag AND 0x1FF)";
      cases "flag AND 0x200 = 0"; cases "sint n \<le> 0 \<or> sint n > 32")
    (auto simp: sys_semget_def Let_def)

lemma shmget_cases:
  obtains "fst (sys_shmget s key n flag) = s"
  | i where "psx_shm_alloc s key (n, flag AND 0x1FF) = Some (i, fst (sys_shmget s key n flag))"
      "key = 0 \<or> psx_shm_lookup s key = None"
  by (cases "key = 0"; cases "psx_shm_lookup s key"; cases "psx_shm_alloc s key (n, flag AND 0x1FF)";
      cases "flag AND 0x200 = 0"; cases "n > 65536") (auto simp: sys_shmget_def Let_def)

lemma tags_step_msgget: "tags_step s (fst (sys_msgget s key flag))"
proof (cases rule: msgget_cases [of s key flag])
  case 1
  then show ?thesis by (simp add: tags_step_refl)
next
  case (2 i)
  then show ?thesis
    using msq_alloc_tags [OF 2(1)] msq_lookup_None_tags [of s key]
    unfolding tags_step_def slot_filled_def by blast
qed

lemma tags_step_semget: "tags_step s (fst (sys_semget s key n flag))"
proof (cases rule: semget_cases [of s key n flag])
  case 1
  then show ?thesis by (simp add: tags_step_refl)
next
  case (2 i)
  then show ?thesis
    using sem_alloc_tags [OF 2(1)] sem_lookup_None_tags [of s key]
    unfolding tags_step_def slot_filled_def by blast
qed

lemma tags_step_shmget: "tags_step s (fst (sys_shmget s key n flag))"
proof (cases rule: shmget_cases [of s key n flag])
  case 1
  then show ?thesis by (simp add: tags_step_refl)
next
  case (2 i)
  then show ?thesis
    using shm_alloc_tags [OF 2(1)] shm_lookup_None_tags [of s key]
    unfolding tags_step_def slot_filled_def by blast
qed

lemma psx_sem_apply_fields [tags_simps]:
  "sem_seq (psx_sem_apply pid v ops) = sem_seq v" "sem_key (psx_sem_apply pid v ops) = sem_key v"
  "sem_used (psx_sem_apply pid v ops) = sem_used v" "sem_ds (psx_sem_apply pid v ops) = sem_ds v"
  by (induction ops arbitrary: v) auto

lemma sem_try_fields:
  "psx_sem_try s v ops = Sem_applied v' \<Longrightarrow> sem_seq v' = sem_seq v \<and> sem_key v' = sem_key v \<and>
     sem_used v' = sem_used v \<and> sem_nsems (sem_ds v') = sem_nsems (sem_ds v)"
proof -
  have "psx_sem_check v ops \<noteq> Some (Sem_applied w)" for w by (induction ops) auto
  then show "psx_sem_try s v ops = Sem_applied v' \<Longrightarrow> sem_seq v' = sem_seq v \<and> sem_key v' = sem_key v \<and>
     sem_used v' = sem_used v \<and> sem_nsems (sem_ds v') = sem_nsems (sem_ds v)"
    by (auto simp: psx_sem_try_def Let_def tags_simps split: option.splits)
qed

lemma semop_round_cases:
  assumes "semop_round q ops ts s = Some (s', r)"
  obtains "s' = s" | v' where "psx_sem_try s (sems s q) ops = Sem_applied v'" "s' = sem_put s q v'"
  using assms by (auto simp: semop_round_def split: sem_result.splits if_splits)

lemma msgsnd_round_cases:
  assumes "msgsnd_round q mtype txt len flag s = Some (s', r)"
  obtains "s' = s" | i where "psx_msq_slot_free (msqs s q) = Some i"
    "s' = msq_put s q (msgsnd_fill s (msqs s q) i mtype txt len)"
  using assms by (auto simp: msgsnd_round_def split: option.splits if_splits)

lemma msgrcv_round_cases:
  assumes "msgrcv_round q len ty flag s = Some (s', r)"
  obtains "s' = s" | i where "psx_msq_pick (msqs s q) ty flag = Some i"
    "s' = msq_put s q (msgrcv_take s (msqs s q) i)"
  using assms by (auto simp: msgrcv_round_def Let_def split: option.splits if_splits)

lemma tags_step_kept:
  assumes "ipc_seq s' = ipc_seq s" "slot_kept (msq_tags s) (msq_tags s')"
    "slot_kept (sem_tags s) (sem_tags s')" "slot_kept (shm_tags s) (shm_tags s')"
  shows "tags_step s s'"
  using assms by (simp add: tags_step_def)

lemma ipc_step_tags: "ipc_step s s' \<Longrightarrow> tags_step s s'"
proof (induction rule: ipc_step.induct)
  case (msgctl s x cmd mbuf)
  then show ?case
    by (intro tags_step_kept) (auto simp: sys_msgctl_def tags_simps split: option.split)
next
  case (msgsnd q len mtype b flag s s' r)
  from msgsnd(3) show ?case
    by (rule msgsnd_round_cases)
      (auto intro!: tags_step_kept simp: tags_step_refl tags_simps msgsnd_fill_def)
next
  case (msgrcv q len ty flag s s' r)
  from msgrcv(2) show ?case
    by (rule msgrcv_round_cases)
      (auto intro!: tags_step_kept simp: tags_step_refl tags_simps msgrcv_take_def)
next
  case (semctl s x num cmd arg)
  then show ?case
    by (intro tags_step_kept)
      (auto simp: sys_semctl_def semctl_val_def Let_def tags_simps split: option.split)
next
  case (semop q ops ts s s' r)
  from semop(2) show ?case
    by (rule semop_round_cases)
      (auto intro!: tags_step_kept simp: tags_step_refl tags_simps dest: sem_try_fields)
next
  case (shmctl s x cmd sbuf)
  then show ?case
    by (intro tags_step_kept) (auto simp: sys_shmctl_def tags_simps split: option.split)
next
  case (shmat s base x)
  then show ?case
    by (intro tags_step_kept) (auto simp: sys_shmat_def tags_simps split: option.split)
next
  case (shmdt s base a)
  then show ?case
    by (intro tags_step_kept) (auto simp: sys_shmdt_def tags_simps Let_def split: option.split)
next
  case (other s clk pid)
  then show ?case
    by (intro tags_step_kept) (auto simp: slot_kept_def msq_tags_def sem_tags_def shm_tags_def)
qed (simp_all add: tags_step_msgget tags_step_semget tags_step_shmget)

section \<open>The invariant of the layer\<close>

definition uniq_tags :: "(nat \<Rightarrow> bool \<times> u32 \<times> u32) \<Rightarrow> bool" where
  "uniq_tags t \<longleftrightarrow> (\<forall>i<64. \<forall>j<64. fst (t i) \<longrightarrow> fst (t j) \<longrightarrow>
     snd (snd (t i)) = snd (snd (t j)) \<longrightarrow> snd (snd (t i)) \<noteq> 0 \<longrightarrow> i = j)"

lemma uniq_tags_kept: "slot_kept t t' \<Longrightarrow> uniq_tags t \<Longrightarrow> uniq_tags t'"
  by (auto simp: slot_kept_def uniq_tags_def)

lemma uniq_tags_filled:
  assumes "slot_filled c t t'" "uniq_tags t"
  shows "uniq_tags t'"
proof -
  obtain i k where t': "t' = t(i := (True, c + 1, k))"
    and k: "k = 0 \<or> (\<forall>j<64. fst (t j) \<longrightarrow> snd (snd (t j)) \<noteq> k)"
    using assms(1) by (auto simp: slot_filled_def)
  show ?thesis
    using assms(2) k unfolding uniq_tags_def t' by (auto split: if_splits)
qed

lemma uniq_tags_step:
  "tags_step s s' \<Longrightarrow> uniq_tags (msq_tags s) \<and> uniq_tags (sem_tags s) \<and> uniq_tags (shm_tags s) \<Longrightarrow>
   uniq_tags (msq_tags s') \<and> uniq_tags (sem_tags s') \<and> uniq_tags (shm_tags s')"
  unfolding tags_step_def by (metis uniq_tags_kept uniq_tags_filled)

definition sem_small :: "ipc \<Rightarrow> bool" where
  "sem_small s \<longleftrightarrow> (\<forall>i<64. unat (sem_nsems (sem_ds (sems s i))) \<le> 32)"

definition msqs_inv :: "ipc \<Rightarrow> bool" where
  "msqs_inv s \<longleftrightarrow> (\<forall>i<64. msq_inv (msqs s i))"

text \<open>
  No two objects share a key, every queue's counters agree with its messages, every set has
  at most 32 semaphores, every segment fits in its slot.
\<close>

definition ipc_inv :: "ipc \<Rightarrow> bool" where
  "ipc_inv s \<longleftrightarrow> (uniq_tags (msq_tags s) \<and> uniq_tags (sem_tags s) \<and> uniq_tags (shm_tags s)) \<and>
     (msqs_inv s \<and> sem_small s \<and> shm_inv s)"

named_theorems other_tables

lemma put_other_tables [other_tables]:
  "msqs_inv (sem_put s q w) = msqs_inv s" "msqs_inv (shm_put s q x) = msqs_inv s"
  "sem_small (msq_put s q v) = sem_small s" "sem_small (shm_put s q x) = sem_small s"
  "shm_inv (msq_put s q v) = shm_inv s" "shm_inv (sem_put s q w) = shm_inv s"
  by (simp_all add: msqs_inv_def sem_small_def shm_inv_def sem_put_def shm_put_def msq_put_def)

lemma msqs_inv_put: "msqs_inv s \<Longrightarrow> msq_inv v \<Longrightarrow> msqs_inv (msq_put s q v)"
  by (simp add: msqs_inv_def)

lemma sem_small_put: "sem_small s \<Longrightarrow> unat (sem_nsems (sem_ds w)) \<le> 32 \<Longrightarrow> sem_small (sem_put s q w)"
  by (simp add: sem_small_def)

text \<open>A change of the queue's header that leaves its messages and counters alone.\<close>

lemma msq_inv_header:
  assumes "msq_msg v = msq_msg q" "msg_qnum (msq_ds v) = msg_qnum (msq_ds q)"
    "msg_cbytes (msq_ds v) = msg_cbytes (msq_ds q)"
  shows "msq_inv v = msq_inv q"
  using assms by (simp add: msq_inv_def msq_abs_def)

lemma msq_inv_fresh:
  "msq_inv (zero_msq\<lparr>msq_used := u, msq_seq := n, msq_key := k, msq_ds := (msq_ds zero_msq)
     \<lparr>msg_perm := p, msg_qbytes := b, msg_ctime := c\<rparr>\<rparr>)"
  by (rule msq_inv_zero) (simp_all add: zero_msq_def zero_msg_def)

lemma msq_alloc_content:
  assumes "psx_msq_alloc s key m = Some (i, s')" "msqs_inv s"
  shows "msqs_inv s' \<and> sem_small s' = sem_small s \<and> shm_inv s' = shm_inv s"
  using assms msq_inv_fresh
  by (auto simp: psx_msq_alloc_def Let_def msqs_inv_def sem_small_def shm_inv_def split: option.splits)

lemma sem_alloc_content:
  assumes "psx_sem_alloc s key (n, m) = Some (i, s')" "0 < sint n" "sint n \<le> 32" "sem_small s"
  shows "msqs_inv s' = msqs_inv s \<and> sem_small s' \<and> shm_inv s' = shm_inv s"
proof -
  have "uint n = uint (word_of_int (sint n) :: u32)" by simp
  also have "\<dots> = sint n mod 2 ^ LENGTH(32)" by (simp only: uint_word_of_int)
  also have "\<dots> = sint n" using assms(2,3) by simp
  finally have "unat n \<le> 32" using assms(3) by (metis int_nat_eq nat_le_iff of_nat_numeral unat_eq_nat_uint)
  then have "unat (ucast n :: u16) \<le> 32" by (simp add: unat_ucast_small)
  then show ?thesis
    using assms(1,4)
    by (auto simp: psx_sem_alloc_def Let_def msqs_inv_def sem_small_def shm_inv_def split: option.splits)
qed

lemma shm_alloc_content:
  assumes "psx_shm_alloc s key m = Some (i, s')"
  shows "msqs_inv s' = msqs_inv s \<and> sem_small s' = sem_small s"
  using assms
  by (auto simp: psx_shm_alloc_def Let_def msqs_inv_def sem_small_def split: option.splits)

lemma ipc_step_content:
  "ipc_step s s' \<Longrightarrow> msqs_inv s \<and> sem_small s \<and> shm_inv s \<Longrightarrow>
   msqs_inv s' \<and> sem_small s' \<and> shm_inv s'"
proof (induction rule: ipc_step.induct)
  case (msgget s key flag)
  then show ?case
    using msq_alloc_content by (cases rule: msgget_cases [of s key flag]) auto
next
  case (msgctl s x cmd mbuf)
  have "msq_inv ((msqs s q)\<lparr>msq_used := False\<rparr>)" "msq_inv ((msqs s q)\<lparr>msq_ds := (msq_ds (msqs s q))
      \<lparr>msg_perm := p, msg_qbytes := b\<rparr>\<rparr>)" if "psx_msq_from_id s x = Some q" for q p b
    using msgctl psx_msq_from_id_SomeD [OF that]
      msq_inv_header [of "(msqs s q)\<lparr>msq_used := False\<rparr>" "msqs s q"]
      msq_inv_header [of "(msqs s q)\<lparr>msq_ds := (msq_ds (msqs s q))\<lparr>msg_perm := p, msg_qbytes := b\<rparr>\<rparr>"
        "msqs s q"]
    by (simp_all add: msqs_inv_def)
  with msgctl show ?case
    by (auto simp: sys_msgctl_def other_tables msqs_inv_put split: option.split)
next
  case (msgsnd q len mtype b flag s s' r)
  from msgsnd(3) show ?case
    by (rule msgsnd_round_cases)
      (use msgsnd in \<open>auto simp: other_tables msqs_inv_def intro!: msqs_inv_put msq_inv_fill\<close>)
next
  case (msgrcv q len ty flag s s' r)
  from msgrcv(2) show ?case
    by (rule msgrcv_round_cases)
      (use msgrcv in \<open>auto simp: other_tables msqs_inv_def intro!: msq_inv_take
        dest: psx_msq_pick_SomeD(1,2)\<close>)
next
  case (semget s key n flag)
  then show ?case
    using sem_alloc_content by (cases rule: semget_cases [of s key n flag]) auto
next
  case (semctl s x num cmd arg)
  then have "unat (sem_nsems (sem_ds (sems s q))) \<le> 32" if "psx_sem_from_id s x = Some q" for q
    using psx_sem_from_id_SomeD [OF that] by (simp add: sem_small_def)
  with semctl show ?case
    by (auto simp: sys_semctl_def semctl_val_def Let_def other_tables sem_small_put split: option.split)
next
  case (semop q ops ts s s' r)
  from semop(2) show ?case
    by (rule semop_round_cases)
      (use semop sem_try_fields in \<open>auto simp: other_tables sem_small_def\<close>)
next
  case (shmget s key n flag)
  then show ?case
    using shm_alloc_content shm_inv_shmget [of s key n flag]
    by (cases rule: shmget_cases [of s key n flag]) auto
next
  case (shmctl s x cmd sbuf)
  then show ?case
    using shm_inv_shmctl [of s x cmd sbuf]
    by (auto simp: sys_shmctl_def other_tables split: option.split)
next
  case (shmat s base x)
  then show ?case
    using shm_inv_shmat [of s base x] by (auto simp: sys_shmat_def other_tables split: option.split)
next
  case (shmdt s base a)
  then show ?case
    using shm_inv_shmdt [of s base a]
    by (auto simp: sys_shmdt_def other_tables Let_def split: option.split)
next
  case (other s clk pid)
  then show ?case by (simp add: msqs_inv_def sem_small_def shm_inv_def)
qed

lemma ipc_inv_init: "ipc_inv (ipc_init u g p c)"
  by (simp add: ipc_inv_def uniq_tags_def msq_tags_def sem_tags_def shm_tags_def msqs_inv_def
      sem_small_def shm_inv_init)
    (simp add: ipc_init_def zero_msq_def zero_sem_def zero_shm_def zero_msg_def msq_inv_zero)

lemma ipc_inv_step: "ipc_step s s' \<Longrightarrow> ipc_inv s \<Longrightarrow> ipc_inv s'"
  unfolding ipc_inv_def using uniq_tags_step [OF ipc_step_tags] ipc_step_content by blast

lemma ipc_inv_steps: "ipc_step\<^sup>*\<^sup>* s s' \<Longrightarrow> ipc_inv s \<Longrightarrow> ipc_inv s'"
  by (induction rule: rtranclp_induct) (auto intro: ipc_inv_step)

text \<open>C1: In every state the layer can reach by calls that do not overlap (each call, and each round of a blocking call
  between two of its delays, runs to its end before another begins; the code has no lock that would see to this), no
  two objects of a kind share a key other than IPC_PRIVATE, every queue's \<open>msg_qnum\<close> and \<open>msg_cbytes\<close> count
  exactly the messages it holds (at most 32 of at most 2048 bytes), every set has at most 32 semaphores and every segment
  fits in its slot.\<close>

theorem ipc_reachable_inv:
  assumes "ipc_step\<^sup>*\<^sup>* (ipc_init uid gid pid clk) s"
  shows "ipc_inv s"
  by (rule ipc_inv_steps [OF assms ipc_inv_init])

lemma ipc_reachable_inv_witness:
  "ipc_inv (fst (sys_msgget (fst (sys_shmget (ipc_init 0 0 1 \<lparr>tv_sec = 0, tv_nsec = 0\<rparr>) 7 64 0x3B0))
     9 0x3B0))"
proof (rule ipc_reachable_inv)
  let ?s0 = "ipc_init 0 0 1 \<lparr>tv_sec = 0, tv_nsec = 0\<rparr>"
  have "ipc_step ?s0 (fst (sys_shmget ?s0 7 64 0x3B0))" by (rule ipc_step.shmget)
  moreover have "ipc_step (fst (sys_shmget ?s0 7 64 0x3B0))
      (fst (sys_msgget (fst (sys_shmget ?s0 7 64 0x3B0)) 9 0x3B0))" by (rule ipc_step.msgget)
  ultimately show "ipc_step\<^sup>*\<^sup>* ?s0 (fst (sys_msgget (fst (sys_shmget ?s0 7 64 0x3B0)) 9 0x3B0))"
    by (meson rtranclp.rtrancl_into_rtrancl rtranclp.rtrancl_refl)
qed

text \<open>Two threads that look up the same key at the same time both find nothing, and both create a queue: the call of the first
  comes between the lookup and the allocation of the second, and two queues have one key.\<close>

lemma msgget_race:
  "psx_msq_lookup ex_ipc 9 = None \<and>
   (case psx_msq_alloc (fst (sys_msgget ex_ipc 9 0x3B0)) 9 0x1B0 of Some (i, s) \<Rightarrow> \<not> ipc_inv s | None \<Rightarrow> False)"
proof -
  have l: "psx_msq_lookup ex_ipc 9 = None" by code_simp
  have "case psx_msq_alloc (fst (sys_msgget ex_ipc 9 0x3B0)) 9 0x1B0 of
      Some (i, s) \<Rightarrow> fst (msq_tags s 0) \<and> fst (msq_tags s 1) \<and> snd (snd (msq_tags s 0)) = snd (snd (msq_tags s 1)) \<and>
        snd (snd (msq_tags s 0)) \<noteq> 0
    | None \<Rightarrow> False" by code_simp
  moreover have "\<not> uniq_tags t" if "fst (t 0)" "fst (t 1)" "snd (snd (t 0)) = snd (snd (t 1))" "snd (snd (t 0)) \<noteq> 0"
    for t :: "nat \<Rightarrow> bool \<times> u32 \<times> u32"
  proof
    assume "uniq_tags t"
    then show False using that uniq_tags_def [THEN iffD1, rule_format, of t 0 1] by simp
  qed
  ultimately show ?thesis using l by (auto simp: ipc_inv_def split: option.splits)
qed

section \<open>Identifiers of removed objects\<close>

text \<open>A run of steps with the number of objects created in it.\<close>

inductive ipc_run :: "nat \<Rightarrow> ipc \<Rightarrow> ipc \<Rightarrow> bool" where
  run_nil: "ipc_run 0 s s"
| run_step: "ipc_run n s s' \<Longrightarrow> ipc_step s' s'' \<Longrightarrow>
    ipc_run (if ipc_seq s'' = ipc_seq s' then n else n + 1) s s''"

text \<open>
  How the tag of a slot that was free with number \<open>q\<close> looks after \<open>n\<close> creations, if the
  counter was \<open>m\<close> ahead of \<open>q\<close> then: it is numbered \<open>d\<close> ahead of \<open>q\<close>, and not 0 if used.
\<close>

definition slot_ahead :: "u32 \<Rightarrow> nat \<Rightarrow> bool \<times> u32 \<times> u32 \<Rightarrow> bool" where
  "slot_ahead q m t \<longleftrightarrow> (\<exists>d\<le>m. fst (snd t) = q + of_nat d \<and> (fst t \<longrightarrow> 0 < d))"

lemma slot_ahead_step:
  assumes step: "tags_step s s'" and c: "ipc_seq s = q + of_nat m"
    and tg: "tg \<in> {msq_tags, sem_tags, shm_tags}" and ahead: "slot_ahead q m (tg s i)"
    and m': "m' = (if ipc_seq s' = ipc_seq s then m else m + 1)"
  shows "ipc_seq s' = q + of_nat m' \<and> slot_ahead q m' (tg s' i)"
proof -
  have mono: "slot_ahead q m t \<Longrightarrow> slot_ahead q (m + 1) t" for t
    by (auto simp: slot_ahead_def intro: le_SucI)
  consider (same) "ipc_seq s' = ipc_seq s" "slot_kept (tg s) (tg s')"
    | (filled) "ipc_seq s' = ipc_seq s + 1" "slot_filled (ipc_seq s) (tg s) (tg s')"
    | (untouched) "ipc_seq s' = ipc_seq s + 1" "tg s' = tg s"
    using step tg unfolding tags_step_def by blast
  then show ?thesis
  proof cases
    case same
    then show ?thesis using c ahead m' by (auto simp: slot_kept_def slot_ahead_def)
  next
    case filled
    then obtain j k where "tg s' = (tg s)(j := (True, ipc_seq s + 1, k))"
      unfolding slot_filled_def by blast
    then show ?thesis
      using filled(1) c m' mono [OF ahead]
      by (auto simp: slot_ahead_def algebra_simps intro!: exI [of _ "m + 1"])
  next
    case untouched
    then show ?thesis using c m' mono [OF ahead] by (simp add: algebra_simps)
  qed
qed

lemma slot_ahead_run:
  assumes "ipc_run n s s'" "ipc_seq s = q + of_nat m" "tg \<in> {msq_tags, sem_tags, shm_tags}"
    "slot_ahead q m (tg s i)"
  shows "ipc_seq s' = q + of_nat (m + n) \<and> slot_ahead q (m + n) (tg s' i)"
  using assms
proof (induction rule: ipc_run.induct)
  case (run_step n s s' s'')
  then show ?case
    using slot_ahead_step [OF ipc_step_tags [OF run_step(2)], of q "m + n" tg i] by auto
qed simp

lemma ahead_differs:
  assumes "0 < d" "d < 65536"
  shows "take_bit 16 (q + of_nat d :: u32) \<noteq> take_bit 16 q"
proof
  assume "take_bit 16 (q + of_nat d) = take_bit 16 q"
  then have "take_bit 16 (unat (q + of_nat d)) = take_bit 16 (unat q)"
    by (metis unsigned_take_bit_eq)
  then have "unat (q + of_nat d) mod 2 ^ 16 = unat q mod 2 ^ 16"
    by (simp only: take_bit_eq_mod)
  moreover have "unat (q + of_nat d) mod 2 ^ 16 = (unat q + d) mod 2 ^ 16"
    by (simp add: unat_word_ariths unat_of_nat take_bit_eq_mod mod_mod_cancel mod_add_right_eq)
  ultimately have "2 ^ 16 dvd (unat q + d) - unat q"
    by (metis le_add1 mod_eq_dvd_iff_nat)
  then show False using assms by (auto dest: dvd_imp_le)
qed

lemma slot_ahead_used:
  assumes "slot_ahead q m t" "m < 65536" "fst t"
  shows "take_bit 16 q \<noteq> take_bit 16 (fst (snd t))"
  using assms ahead_differs [of _ q] unfolding slot_ahead_def by (metis le_less_trans)

text \<open>C2: An identifier of a removed message queue stays invalid: whatever calls follow while
  its slot is free or used again, \<open>msgsnd\<close>, \<open>msgrcv\<close> and \<open>msgctl\<close> refuse it, as long as fewer
  than 65536 objects of the three kinds have been created since the queue itself was (\<open>m\<close>
  before the run, \<open>n\<close> in it).\<close>

theorem msq_stale_id_safe:
  assumes "ipc_run n s s'" "i < 64" "\<not> msq_used (msqs s i)"
    and "ipc_seq s = msq_seq (msqs s i) + of_nat m" "m + n < 65536"
  shows "psx_msq_from_id s' (psx_ipc_id i (msq_seq (msqs s i))) = None"
proof -
  have "slot_ahead (msq_seq (msqs s i)) m (msq_tags s i)"
    using assms(3) by (auto simp: slot_ahead_def msq_tags_def intro: exI [of _ 0])
  from slot_ahead_run [where tg = msq_tags, OF assms(1,4) _ this]
  have "slot_ahead (msq_seq (msqs s i)) (m + n) (msq_tags s' i)" by simp
  from slot_ahead_used [OF this assms(5)] show ?thesis
    by (auto simp: psx_msq_from_id_id [OF assms(2)] msq_tags_def)
qed

abbreviation (input) "ex_gone \<equiv> fst (sys_msgctl (fst (sys_msgget ex_ipc 9 0x3B0)) 0x10001 0 None)"

lemma msq_stale_id_safe_witness:
  "psx_msq_from_id (fst (sys_msgget ex_gone 9 0x3B0)) (psx_ipc_id 0 (msq_seq (msqs ex_gone 0))) = None"
proof (rule msq_stale_id_safe)
  have "ipc_run (if ipc_seq (fst (sys_msgget ex_gone 9 0x3B0)) = ipc_seq ex_gone then 0 else 0 + 1)
      ex_gone (fst (sys_msgget ex_gone 9 0x3B0))"
    by (rule run_step [OF run_nil ipc_step.msgget])
  moreover have "ipc_seq (fst (sys_msgget ex_gone 9 0x3B0)) \<noteq> ipc_seq ex_gone" by code_simp
  ultimately show "ipc_run 1 ex_gone (fst (sys_msgget ex_gone 9 0x3B0))" by simp
  show "\<not> msq_used (msqs ex_gone 0)" by code_simp
  show "ipc_seq ex_gone = msq_seq (msqs ex_gone 0) + of_nat 0" by code_simp
qed simp_all

text \<open>The same for semaphore sets and segments.\<close>

lemma sem_stale_id_safe:
  assumes "ipc_run n s s'" "i < 64" "\<not> sem_used (sems s i)"
    and "ipc_seq s = sem_seq (sems s i) + of_nat m" "m + n < 65536"
  shows "psx_sem_from_id s' (psx_ipc_id i (sem_seq (sems s i))) = None"
proof -
  have "slot_ahead (sem_seq (sems s i)) m (sem_tags s i)"
    using assms(3) by (auto simp: slot_ahead_def sem_tags_def intro: exI [of _ 0])
  from slot_ahead_run [where tg = sem_tags, OF assms(1,4) _ this]
  have "slot_ahead (sem_seq (sems s i)) (m + n) (sem_tags s' i)" by simp
  from slot_ahead_used [OF this assms(5)] show ?thesis
    by (auto simp: psx_sem_from_id_id [OF assms(2)] sem_tags_def)
qed

lemma shm_stale_id_safe:
  assumes "ipc_run n s s'" "i < 64" "\<not> shm_used (shms s i)"
    and "ipc_seq s = shm_seq (shms s i) + of_nat m" "m + n < 65536"
  shows "psx_shm_from_id s' (psx_ipc_id i (shm_seq (shms s i))) = None"
proof -
  have "slot_ahead (shm_seq (shms s i)) m (shm_tags s i)"
    using assms(3) by (auto simp: slot_ahead_def shm_tags_def intro: exI [of _ 0])
  from slot_ahead_run [where tg = shm_tags, OF assms(1,4) _ this]
  have "slot_ahead (shm_seq (shms s i)) (m + n) (shm_tags s' i)" by simp
  from slot_ahead_used [OF this assms(5)] show ?thesis
    by (auto simp: psx_shm_from_id_id [OF assms(2)] shm_tags_def)
qed

section \<open>A waiting receiver is woken\<close>

text \<open>Sending puts a message of the type into the bag, whatever else the queue holds.\<close>

lemma msgsnd_round_adds:
  assumes "msgsnd_round q mtype txt slen sflag u = Some (u', Inr k)" "unat slen \<le> 2048"
  shows "\<exists>m\<in>#msq_abs (msqs u' q). fst m = mtype"
  using assms by (auto simp: msgsnd_round_def msq_abs_fill split: option.splits if_splits)

text \<open>A round that returns without IPC_NOWAIT gives a message of the asked type, or refuses one that is too long.\<close>

lemma msgrcv_round_result:
  assumes "msgrcv_round q len msgtyp flag s = Some (s', r)" "flag AND 0x800 = 0"
  shows "case r of Inr (t, b) \<Rightarrow> msq_matches msgtyp flag t \<and> length b \<le> unat len | Inl e \<Rightarrow> e = E2BIG \<and> flag AND 0x1000 = 0"
  using assms psx_msq_pick_SomeD(3) [of "msqs s q" msgtyp flag]
  by (auto simp: msgrcv_round_def Let_def split: option.splits if_splits)

text \<open>A step that takes no message out of the queue.\<close>

definition msq_keeps :: "nat \<Rightarrow> ipc \<Rightarrow> ipc \<Rightarrow> bool" where
  "msq_keeps q s s' \<longleftrightarrow> ipc_step s s' \<and> msq_abs (msqs s q) \<subseteq># msq_abs (msqs s' q)"

lemma msq_keeps_run: "(msq_keeps q)\<^sup>*\<^sup>* s s' \<Longrightarrow> msq_abs (msqs s q) \<subseteq># msq_abs (msqs s' q)"
  by (induction rule: rtranclp_induct) (auto simp: msq_keeps_def intro: subset_mset.order_trans)

text \<open>Sending does not, on any queue, nor does a step that leaves the queues alone.\<close>

lemma msq_keeps_other:
  "msgsnd_round p mtype txt len flag s = Some (s', r) \<Longrightarrow> p < 64 \<Longrightarrow> unat len \<le> 2048 \<Longrightarrow> msq_keeps q s s'"
  "ipc_step s s' \<Longrightarrow> msqs s' q = msqs s q \<Longrightarrow> msq_keeps q s s'"
proof -
  show "msq_keeps q s s'" if "msgsnd_round p mtype txt len flag s = Some (s', r)" "p < 64" "unat len \<le> 2048"
    using ipc_step.msgsnd [OF that(2,3,1)] that(1,3)
    by (auto simp: msq_keeps_def msgsnd_round_def msq_abs_fill split: option.splits if_splits)
qed (simp add: msq_keeps_def)

text \<open>C7: No wakeup is lost: a receiver waits on a queue, another thread has sent a message it may take, and until the
  receiver's round nobody has taken a message out of that queue (other receivers, and the removal of the queue, would).
  Then the receiver returns by that round, with a message of the asked type or, without
  MSG_NOERROR, with E2BIG; in particular it cannot sleep on while its message is there.\<close>

theorem msgrcv_wakes:
  assumes "psx_msq_from_id s x = Some q" "flag AND 0x800 = 0"
    and "msgsnd_round q mtype txt slen sflag u = Some (u', Inr k)" "(msq_keeps q)\<^sup>*\<^sup>* u' (poll_state env n 0 s)"
    and "msq_matches msgtyp flag mtype" "unat slen \<le> 2048"
  shows "\<exists>m\<le>n. \<exists>s' r. sys_msgrcv env (Suc n) s x False len msgtyp flag = Some (s', r) \<and>
    msgrcv_round q len msgtyp flag (poll_state env m 0 s) = Some (s', r) \<and>
    (case r of Inr (t, b) \<Rightarrow> msq_matches msgtyp flag t \<and> length b \<le> unat len | Inl e \<Rightarrow> e = E2BIG \<and> flag AND 0x1000 = 0)"
proof -
  have "\<exists>m\<in>#msq_abs (msqs (poll_state env n 0 s) q). fst m = mtype"
    using msgsnd_round_adds [OF assms(3,6)] msq_keeps_run [OF assms(4)] by (meson mset_subset_eqD)
  then have "psx_msq_pick (msqs (poll_state env n 0 s) q) msgtyp flag \<noteq> None"
    using assms(5) by (auto simp: psx_msq_pick_None_iff)
  then have "msgrcv_round q len msgtyp flag (poll_state env n 0 s) \<noteq> None"
    by (auto simp: msgrcv_round_def Let_def)
  then obtain p where p: "poll_loop (msgrcv_round q len msgtyp flag) env (Suc n) 0 s = Some p"
    using poll_loop_returns [of "msgrcv_round q len msgtyp flag" env n 0 s "Suc n"] by blast
  obtain s' r where sr: "p = (s', r)" by (cases p)
  obtain m where m: "m \<le> n" "msgrcv_round q len msgtyp flag (poll_state env m 0 s) = Some (s', r)"
    using p sr unfolding poll_loop_Some_iff by (auto simp: less_Suc_eq_le)
  moreover have "sys_msgrcv env (Suc n) s x False len msgtyp flag = Some (s', r)"
    using assms(1) p sr by (simp add: sys_msgrcv_def del: poll_loop.simps)
  ultimately show ?thesis using msgrcv_round_result [OF _ assms(2)] by blast
qed

text \<open>The other threads of the example send a message of type 5 during the second delay, and then another one of type 6.\<close>

abbreviation (input) "ex_sent \<equiv> fst (the (msgsnd_round 0 5 (\<lambda>_. 0x41) 3 0 ex_q0))"
abbreviation (input) "ex_sender \<equiv> (\<lambda>(k::nat) (s::ipc).
  if k = 1 then fst (the (msgsnd_round 0 6 (\<lambda>_. 0x42) 4 0 (fst (the (msgsnd_round 0 5 (\<lambda>_. 0x41) 3 0 s))))) else s)"

theorem msgrcv_wakes_witness:
  "\<exists>m\<le>2. \<exists>s' r. sys_msgrcv ex_sender (Suc 2) ex_q0 (psx_ipc_id 0 1) False 8 5 0 = Some (s', r) \<and>
    msgrcv_round 0 8 5 0 (poll_state ex_sender m 0 ex_q0) = Some (s', r) \<and>
    (case r of Inr (t, b) \<Rightarrow> msq_matches 5 0 t \<and> length b \<le> unat (8::u64) | Inl e \<Rightarrow> e = E2BIG \<and> (0::u32) AND 0x1000 = 0)"
proof -
  have a: "psx_msq_from_id ex_q0 (psx_ipc_id 0 1) = Some 0" by code_simp
  have "psx_msq_slot_free (msqs ex_q0 0) = Some 0" by code_simp
  then have b: "msgsnd_round 0 5 (\<lambda>_. 0x41) 3 0 ex_q0 = Some (ex_sent, Inr 0)" by (simp add: msgsnd_round_def)
  have "psx_msq_slot_free (msqs ex_sent 0) = Some 1" by code_simp
  then have d: "msgsnd_round 0 6 (\<lambda>_. 0x42) 4 0 ex_sent = Some (poll_state ex_sender 2 0 ex_q0, Inr 0)"
    by (simp add: msgsnd_round_def numeral_2_eq_2)
  have c: "(msq_keeps 0)\<^sup>*\<^sup>* ex_sent (poll_state ex_sender 2 0 ex_q0)"
    by (rule r_into_rtranclp, rule msq_keeps_other(1) [OF d]) simp_all
  show ?thesis by (rule msgrcv_wakes [OF a _ b c]) (simp_all add: msq_matches_def)
qed

end
