(* ===== verification/Nt_Blitter.thy ===== *)
theory Nt_Blitter
  imports Tcc_Prelude
begin

text \<open>
  The bitmap block allocator of ntapi (\<open>blitter/ntapi_blt_block.c\<close>), which hands out file
  descriptors and open file descriptions. A set bit is a free block. Bits are taken with a
  compare-and-swap: \<open>env k\<close> is what other threads do to the context between the \<open>k\<close>-th read
  of a bitmap word and the swap that follows it; with \<open>env = (\<lambda>_ b. b)\<close> the functions are the
  ones a single thread runs.
\<close>

section \<open>The allocator context\<close>

datatype nt_status =
    NT_STATUS_SUCCESS | NT_STATUS_ALLOCATE_BUCKET | NT_STATUS_DEVICE_BUSY
  | NT_STATUS_TRANSACTIONAL_CONFLICT | NT_STATUS_INVALID_HANDLE | NT_STATUS_INVALID_PARAMETER

text \<open>The fields of \<open>nt_blitter\<close>, its \<open>info\<close> and its \<open>params\<close> that the code uses.\<close>

record nt_blitter =
  blt_ptrs :: nat
  blt_bitmap :: "nat \<Rightarrow> u64"
  blocks_used :: int
  blocks_avail :: int
  blt_busy :: int
  info_lock_tries :: nat
  lock_tries :: nat
  round_trips :: nat

type_synonym blt_env = "nat \<Rightarrow> nt_blitter \<Rightarrow> nt_blitter"

text \<open>Number of set bits, by testing each.\<close>

definition blt_popcount :: "u64 \<Rightarrow> nat" where
  "blt_popcount msk = length (filter (\<lambda>i. msk AND push_bit i 1 \<noteq> 0) [0..<64])"

text \<open>
  The part of \<open>__ntapi_blt_alloc\<close> that sets up the bitmap and the counters: \<open>count\<close> blocks,
  either all free, or as a given bitmap says (\<open>NT_BLITTER_PRESERVE_BITS\<close>).
\<close>

definition ntapi_blt_alloc ::
  "nat \<Rightarrow> nat \<Rightarrow> (nat \<Rightarrow> u64) option \<Rightarrow> nat \<Rightarrow> nat \<Rightarrow> nt_status + nt_blitter" where
  "ntapi_blt_alloc block_size block_count preserved ltries rtrips =
     (if block_size mod 8 \<noteq> 0 \<or> block_count mod 8 \<noteq> 0 then Inl NT_STATUS_INVALID_PARAMETER
      else
        let ptrs = block_count div 64;
            bm = (case preserved of Some m \<Rightarrow> m | None \<Rightarrow> (\<lambda>_. - 1));
            avail = (case preserved of
                Some m \<Rightarrow> int (sum_list (map (\<lambda>i. blt_popcount (m i)) [0..<ptrs]))
              | None \<Rightarrow> int block_count)
        in Inr \<lparr>blt_ptrs = ptrs, blt_bitmap = bm, blocks_used = 0, blocks_avail = avail,
             blt_busy = 0, info_lock_tries = 0,
             lock_tries = (if ltries \<noteq> 0 then ltries else 256),
             round_trips = (if rtrips \<noteq> 0 then rtrips else 64)\<rparr>)"

text \<open>\<open>at_bsf\<close>: the lowest set bit of a word.\<close>

definition at_bsf :: "u64 \<Rightarrow> nat option" where
  "at_bsf msk = (if msk = 0 then None else first_idx (bit msk) 64)"

section \<open>Acquiring blocks\<close>

text \<open>One bit is taken by swapping in the word without it, trying at most \<open>tries\<close> times.\<close>

fun blt_bitbite ::
  "blt_env \<Rightarrow> nat \<Rightarrow> nat \<Rightarrow> nt_blitter \<Rightarrow> nat \<Rightarrow> nat \<Rightarrow> nt_blitter \<times> nat \<times> nt_status" where
  "blt_bitbite env 0 k b bt byte =
     (b\<lparr>blt_busy := 1, info_lock_tries := lock_tries b\<rparr>, k, NT_STATUS_DEVICE_BUSY)"
| "blt_bitbite env (Suc tries) k b bt byte =
     (let msk = push_bit bt 1;
          cmp = blt_bitmap b byte OR msk;
          xchg = cmp XOR msk;
          b' = env k b;
          test = blt_bitmap b' byte
      in if test = cmp then
           (b'\<lparr>blt_bitmap := (blt_bitmap b')(byte := xchg),
              blocks_avail := blocks_avail b' - 1, blocks_used := blocks_used b' + 1\<rparr>,
            Suc k, NT_STATUS_SUCCESS)
         else if test XOR msk \<noteq> 0 then (b', Suc k, NT_STATUS_TRANSACTIONAL_CONFLICT)
         else blt_bitbite env tries (Suc k) b' bt byte)"

fun blt_acquire_loop ::
  "blt_env \<Rightarrow> nat \<Rightarrow> nat \<Rightarrow> nt_blitter \<Rightarrow> nat \<Rightarrow> nt_blitter \<times> nat \<times> (nt_status + nat)" where
  "blt_acquire_loop env 0 k b blkid = (b, k, Inl NT_STATUS_ALLOCATE_BUCKET)"
| "blt_acquire_loop env (Suc n) k b blkid =
     (if blocks_avail b = 0 then (b, k, Inl NT_STATUS_ALLOCATE_BUCKET)
      else case find (\<lambda>i. at_bsf (blt_bitmap b i) \<noteq> None) [blkid div 64..<blt_ptrs b] of
          None \<Rightarrow> (b, k, Inl NT_STATUS_ALLOCATE_BUCKET)
        | Some i \<Rightarrow>
            let bt = the (at_bsf (blt_bitmap b i)) in
            (case blt_bitbite env (lock_tries b) k b bt i of
               (b', k', NT_STATUS_SUCCESS) \<Rightarrow> (b', k', Inr (bt + i * 64))
             | (b', k', NT_STATUS_DEVICE_BUSY) \<Rightarrow> (b', k', Inl NT_STATUS_DEVICE_BUSY)
             | (b', k', _) \<Rightarrow> blt_acquire_loop env n k' b' blkid))"

text \<open>\<open>__blt_acquire\<close>: the first free block of the words from that of \<open>blkid\<close> on.\<close>

definition blt_acquire ::
  "blt_env \<Rightarrow> nat \<Rightarrow> nt_blitter \<Rightarrow> nat \<Rightarrow> nt_blitter \<times> nat \<times> (nt_status + nat)" where
  "blt_acquire env k b blkid =
     (if blocks_avail b = 0 then (b, k, Inl NT_STATUS_ALLOCATE_BUCKET)
      else blt_acquire_loop env (round_trips b) k b blkid)"

definition ntapi_blt_acquire ::
  "blt_env \<Rightarrow> nat \<Rightarrow> nt_blitter \<Rightarrow> nt_blitter \<times> nat \<times> (nt_status + nat)" where
  "ntapi_blt_acquire env k b = blt_acquire env k b 0"

text \<open>
  \<open>__ntapi_blt_obtain\<close>: a block not below \<open>blkid\<close>. The bit is computed with
  \<open>blkid % sizeof(size_t)\<close>, as the source has it.
\<close>

fun blt_obtain_loop ::
  "blt_env \<Rightarrow> nat \<Rightarrow> nat \<Rightarrow> nt_blitter \<Rightarrow> u64 \<Rightarrow> nat \<Rightarrow>
   nt_blitter \<times> nat \<times> (nt_status + nat) option" where
  "blt_obtain_loop env 0 k b msk i = (b, k, None)"
| "blt_obtain_loop env (Suc n) k b msk i =
     (if blocks_avail b = 0 then (b, k, None)
      else case at_bsf (msk AND blt_bitmap b i) of
          None \<Rightarrow> (b, k, None)
        | Some bt \<Rightarrow>
            (case blt_bitbite env (lock_tries b) k b bt i of
               (b', k', NT_STATUS_SUCCESS) \<Rightarrow> (b', k', Some (Inr (bt + i * 64)))
             | (b', k', NT_STATUS_DEVICE_BUSY) \<Rightarrow> (b', k', Some (Inl NT_STATUS_DEVICE_BUSY))
             | (b', k', _) \<Rightarrow> blt_obtain_loop env n k' b' msk i))"

definition ntapi_blt_obtain ::
  "blt_env \<Rightarrow> nat \<Rightarrow> nt_blitter \<Rightarrow> nat \<Rightarrow> nt_blitter \<times> nat \<times> (nt_status + nat)" where
  "ntapi_blt_obtain env k b blkid =
     (if blocks_avail b = 0 then (b, k, Inl NT_STATUS_ALLOCATE_BUCKET)
      else if blkid mod 8 = 0 then ntapi_blt_acquire env k b
      else
        let bt = blkid mod 8;
            msk = foldl (\<lambda>m n. m XOR push_bit n 1) (- 1) [0..<bt];
            i = blkid div 64
        in case blt_obtain_loop env (round_trips b) k b msk i of
             (b', k', Some r) \<Rightarrow> (b', k', r)
           | (b', k', None) \<Rightarrow> blt_acquire env k' b' ((i + 1) * 64))"

section \<open>Taking and releasing a given block\<close>

definition ntapi_blt_possess :: "nt_blitter \<Rightarrow> nat \<Rightarrow> nt_blitter" where
  "ntapi_blt_possess b blkid =
     (let bt = blkid mod 64; byte = blkid div 64; msk = push_bit bt 1;
          test = blt_bitmap b byte;
          b' = b\<lparr>blt_bitmap := (blt_bitmap b)(byte := test AND NOT msk)\<rparr>
      in if test AND msk \<noteq> 0
         then b'\<lparr>blocks_avail := blocks_avail b' - 1, blocks_used := blocks_used b' + 1\<rparr>
         else b')"

definition ntapi_blt_release :: "nt_blitter \<Rightarrow> nat \<Rightarrow> nt_blitter" where
  "ntapi_blt_release b blkid =
     (let i = blkid div 64; bt = push_bit (blkid mod 64) 1 in
      b\<lparr>blt_bitmap := (blt_bitmap b)(i := blt_bitmap b i OR bt),
        blocks_used := blocks_used b - 1, blocks_avail := blocks_avail b + 1\<rparr>)"

section \<open>The set of free blocks\<close>

definition blt_free :: "nt_blitter \<Rightarrow> nat set" where
  "blt_free b = {n. n < 64 * blt_ptrs b \<and> bit (blt_bitmap b (n div 64)) (n mod 64)}"

text \<open>The counter of free blocks is right, and both retry limits are positive.\<close>

definition blt_inv :: "nt_blitter \<Rightarrow> bool" where
  "blt_inv b \<longleftrightarrow> blocks_avail b = int (card (blt_free b)) \<and> 0 < lock_tries b \<and> 0 < round_trips b"

lemma finite_blt_free [simp]: "finite (blt_free b)"
  unfolding blt_free_def by (rule finite_subset [of _ "{..<64 * blt_ptrs b}"]) auto

lemma bit_single: "bit (2 ^ n :: u64) m \<longleftrightarrow> m = n \<and> n < 64"
  by (auto simp: bit_exp_iff)

lemma or_single:
  assumes "bit (w::u64) n"
  shows "w OR 2 ^ n = w"
proof (rule bit_eqI)
  fix m
  show "bit (w OR 2 ^ n) m = bit w m" using assms by (auto simp: bit_or_iff bit_single)
qed

lemma at_bsf_None_iff: "at_bsf w = None \<longleftrightarrow> w = 0"
proof -
  have "w = 0" if "\<forall>i<64. \<not> bit w i"
    by (rule bit_word_eqI) (use that in auto)
  then show ?thesis by (auto simp: at_bsf_def first_idx_None_iff)
qed

lemma at_bsf_Some_iff: "at_bsf w = Some n \<longleftrightarrow> n < 64 \<and> bit w n \<and> (\<forall>m<n. \<not> bit w m)"
  by (auto simp: at_bsf_def first_idx_Some_iff)

lemma block_number:
  fixes bt i :: nat
  assumes "bt < 64"
  shows "(bt + i * 64) div 64 = i" "(bt + i * 64) mod 64 = bt"
  using assms by auto

lemma block_eq_iff: "bt < 64 \<Longrightarrow> n = bt + i * 64 \<longleftrightarrow> n div 64 = i \<and> n mod 64 = bt" for n :: nat
  using mult_div_mod_eq [of 64 n] by auto

text \<open>Clearing and setting the bit of a block.\<close>

lemma blt_free_clear:
  assumes "bt < 64" "bit (blt_bitmap b i) bt" "blt_bitmap c = (blt_bitmap b)(i := blt_bitmap b i XOR push_bit bt 1)"
    "blt_ptrs c = blt_ptrs b"
  shows "blt_free c = blt_free b - {bt + i * 64}"
  using assms by (auto simp: blt_free_def block_eq_iff bit_xor_iff bit_single split: if_splits)

lemma blt_free_set:
  assumes "n < 64 * blt_ptrs b"
    "blt_bitmap c = (blt_bitmap b)(n div 64 := blt_bitmap b (n div 64) OR push_bit (n mod 64) 1)"
    "blt_ptrs c = blt_ptrs b"
  shows "blt_free c = insert n (blt_free b)"
proof (rule set_eqI)
  fix m
  have eq: "m = n \<longleftrightarrow> m div 64 = n div 64 \<and> m mod 64 = n mod 64"
    by (metis div_mult_mod_eq)
  have "bit (blt_bitmap c (m div 64)) (m mod 64) \<longleftrightarrow> bit (blt_bitmap b (m div 64)) (m mod 64) \<or> m = n"
    unfolding eq assms(2) by (simp add: bit_or_iff bit_single)
  then show "m \<in> blt_free c \<longleftrightarrow> m \<in> insert n (blt_free b)"
    using assms(1,3) unfolding blt_free_def by auto
qed

section \<open>A single thread\<close>

abbreviation (input) alone :: blt_env where "alone \<equiv> \<lambda>_ b. b"

definition blt_take :: "nt_blitter \<Rightarrow> nat \<Rightarrow> nt_blitter" where
  "blt_take b n = b\<lparr>blt_bitmap := (blt_bitmap b)(n div 64 := blt_bitmap b (n div 64) XOR push_bit (n mod 64) 1),
     blocks_avail := blocks_avail b - 1, blocks_used := blocks_used b + 1\<rparr>"

lemma blt_free_take:
  assumes "n \<in> blt_free b"
  shows "blt_free (blt_take b n) = blt_free b - {n}"
  using assms blt_free_clear [of "n mod 64" b "n div 64" "blt_take b n"]
  by (simp add: blt_free_def blt_take_def mult.commute)

lemma blt_inv_take:
  assumes "blt_inv b" "n \<in> blt_free b"
  shows "blt_inv (blt_take b n)"
proof -
  have "card (blt_free b) > 0" using assms(2) by (auto simp: card_gt_0_iff)
  then have "int (card (blt_free b - {n})) = int (card (blt_free b)) - 1"
    using assms(2) by (simp add: card_Diff_singleton of_nat_diff)
  then show ?thesis
    using assms by (simp add: blt_inv_def blt_free_take) (simp add: blt_take_def)
qed

lemma blt_bitbite_alone:
  assumes "bit (blt_bitmap b i) bt" "bt < 64" "0 < tries"
  shows "blt_bitbite alone tries k b bt i = (blt_take b (bt + i * 64), Suc k, NT_STATUS_SUCCESS)"
  using assms or_single [OF assms(1)] block_number [OF assms(2)]
  by (cases tries) (simp_all add: blt_take_def Let_def)

text \<open>The search from a word on finds the least free block there.\<close>

lemma find_upt_Some_iff:
  "find P [a..<n] = Some i \<longleftrightarrow> a \<le> i \<and> i < n \<and> P i \<and> (\<forall>j. a \<le> j \<longrightarrow> j < i \<longrightarrow> \<not> P j)"
proof (induction n)
  case (Suc n)
  show ?case
  proof (cases "a \<le> n")
    case True
    show ?thesis
    proof (cases "find P [a..<n]")
      case None
      then have "\<forall>j. a \<le> j \<longrightarrow> j < n \<longrightarrow> \<not> P j" by (auto simp: find_None_iff)
      then show ?thesis using True None by (auto simp: find_snoc less_Suc_eq)
    next
      case (Some k)
      then have "find P [a..<n] \<noteq> None" by simp
      then have "\<exists>j. a \<le> j \<and> j < n \<and> P j" unfolding find_None_iff by auto
      then show ?thesis using True Some Suc by (auto simp: find_snoc less_Suc_eq)
    qed
  qed auto
qed simp

lemma find_upt_None_iff: "find P [a..<n] = None \<longleftrightarrow> (\<forall>i. a \<le> i \<longrightarrow> i < n \<longrightarrow> \<not> P i)"
  by (auto simp: find_None_iff)

lemma first_word:
  assumes "find (\<lambda>i. at_bsf (blt_bitmap b i) \<noteq> None) [a..<blt_ptrs b] = Some i"
    "at_bsf (blt_bitmap b i) = Some bt"
  shows "bt + i * 64 \<in> blt_free b" "\<And>m. m \<in> blt_free b \<Longrightarrow> a * 64 \<le> m \<Longrightarrow> bt + i * 64 \<le> m"
    "a * 64 \<le> bt + i * 64"
proof -
  have i: "a \<le> i" "i < blt_ptrs b" "\<And>j. a \<le> j \<Longrightarrow> j < i \<Longrightarrow> blt_bitmap b j = 0"
    using assms(1) by (auto simp: find_upt_Some_iff at_bsf_None_iff)
  have bt: "bt < 64" "bit (blt_bitmap b i) bt" "\<And>m. m < bt \<Longrightarrow> \<not> bit (blt_bitmap b i) m"
    using assms(2) by (auto simp: at_bsf_Some_iff)
  show "bt + i * 64 \<in> blt_free b"
    using i bt by (auto simp: blt_free_def block_number [OF bt(1)])
  show "a * 64 \<le> bt + i * 64" using i(1) by (simp add: trans_le_add2)
  fix m assume m: "m \<in> blt_free b" "a * 64 \<le> m"
  have "a \<le> m div 64" using m(2) by (simp add: less_eq_div_iff_mult_less_eq)
  with m(1) i(3) [of "m div 64"] have "i \<le> m div 64" by (auto simp: blt_free_def not_less [symmetric])
  show "bt + i * 64 \<le> m"
  proof (cases "m div 64 = i")
    case True
    with m(1) bt(3) have "bt \<le> m mod 64" by (auto simp: blt_free_def not_less [symmetric])
    then show ?thesis using True div_mult_mod_eq [of m 64] by linarith
  next
    case False
    with \<open>i \<le> m div 64\<close> have "(i + 1) * 64 \<le> m div 64 * 64" by (intro mult_right_mono) auto
    also have "\<dots> \<le> m" by simp
    finally show ?thesis using bt(1) by simp
  qed
qed

lemma blt_inv_empty: "blt_inv b \<Longrightarrow> blocks_avail b = 0 \<longleftrightarrow> blt_free b = {}"
  by (simp add: blt_inv_def)

lemma no_word_free:
  assumes "find (\<lambda>i. at_bsf (blt_bitmap b i) \<noteq> None) [a..<blt_ptrs b] = None" "m \<in> blt_free b"
  shows "m < a * 64"
proof (rule ccontr)
  assume "\<not> m < a * 64"
  then have "a \<le> m div 64" by (simp add: less_eq_div_iff_mult_less_eq)
  moreover have "m div 64 < blt_ptrs b" "blt_bitmap b (m div 64) \<noteq> 0"
    using assms(2) by (auto simp: blt_free_def)
  ultimately show False
    using assms(1) unfolding find_upt_None_iff by (auto simp: at_bsf_None_iff)
qed

text \<open>A single thread gets the least free block of the words searched.\<close>

lemma blt_acquire_alone:
  assumes "blt_inv b"
  shows "blt_acquire alone k b a =
    (let A = {m \<in> blt_free b. a div 64 * 64 \<le> m} in
     if A = {} then (b, k, Inl NT_STATUS_ALLOCATE_BUCKET) else (blt_take b (Min A), Suc k, Inr (Min A)))"
proof -
  define A where "A = {m \<in> blt_free b. a div 64 * 64 \<le> m}"
  obtain r where r: "round_trips b = Suc r" using assms by (cases "round_trips b") (auto simp: blt_inv_def)
  have tries: "0 < lock_tries b" using assms by (simp add: blt_inv_def)
  let ?f = "find (\<lambda>i. at_bsf (blt_bitmap b i) \<noteq> None) [a div 64..<blt_ptrs b]"
  have "blt_acquire alone k b a =
    (if A = {} then (b, k, Inl NT_STATUS_ALLOCATE_BUCKET) else (blt_take b (Min A), Suc k, Inr (Min A)))"
  proof (cases ?f)
    case None
    have "A = {}" using no_word_free [OF None] by (force simp: A_def not_le)
    moreover have "blt_acquire alone k b a = (b, k, Inl NT_STATUS_ALLOCATE_BUCKET)"
      using None by (simp add: blt_acquire_def r)
    ultimately show ?thesis by simp
  next
    case (Some i)
    then have "at_bsf (blt_bitmap b i) \<noteq> None" by (auto simp: find_Some_iff)
    then obtain bt where bt: "at_bsf (blt_bitmap b i) = Some bt" by auto
    note w = first_word [OF Some bt]
    have mem: "bt + i * 64 \<in> A" using w by (simp add: A_def)
    have "Min A = bt + i * 64" using mem w(2) by (intro Min_eqI) (auto simp: A_def)
    moreover have "blocks_avail b \<noteq> 0" using mem blt_inv_empty [OF assms] by (auto simp: A_def)
    then have "blt_acquire alone k b a = (blt_take b (bt + i * 64), Suc k, Inr (bt + i * 64))"
      using Some bt blt_bitbite_alone [OF _ _ tries] at_bsf_Some_iff [of "blt_bitmap b i" bt]
      by (simp add: blt_acquire_def r)
    ultimately show ?thesis using mem by auto
  qed
  then show ?thesis by (simp add: A_def Let_def)
qed

text \<open>Releasing a block that was taken.\<close>

lemma blt_free_release:
  assumes "n < 64 * blt_ptrs b"
  shows "blt_free (ntapi_blt_release b n) = insert n (blt_free b)"
  by (rule blt_free_set [OF assms]) (simp_all add: ntapi_blt_release_def Let_def)

lemma blt_inv_release:
  assumes "blt_inv b" "n < 64 * blt_ptrs b" "n \<notin> blt_free b"
  shows "blt_inv (ntapi_blt_release b n)"
  using assms by (simp add: blt_inv_def blt_free_release) (simp add: ntapi_blt_release_def Let_def)

text \<open>The allocator that \<open>__ntapi_blt_alloc\<close> sets up keeps the invariant.\<close>

lemma blt_popcount_card: "blt_popcount w = card {i. i < 64 \<and> bit w i}"
proof -
  let ?xs = "filter (\<lambda>i. w AND push_bit i 1 \<noteq> 0) [0..<64]"
  have "set ?xs = {i. i < 64 \<and> bit w i}"
    unfolding set_filter set_upt by (auto simp: and_exp_eq_0_iff_not_bit)
  moreover have "card (set ?xs) = length ?xs"
    by (rule distinct_card [OF distinct_filter [OF distinct_upt]])
  ultimately show ?thesis unfolding blt_popcount_def by (simp only:)
qed

lemma card_blocks:
  "card {n. n < 64 * p \<and> bit (bm (n div 64) :: u64) (n mod 64)} = (\<Sum>i<p. blt_popcount (bm i))"
proof (induction p)
  case (Suc p)
  let ?S = "\<lambda>p. {n. n < 64 * p \<and> bit (bm (n div 64)) (n mod 64)}"
  let ?T = "(\<lambda>i. i + p * 64) ` {i. i < 64 \<and> bit (bm p) i}"
  have "?S (Suc p) = ?S p \<union> ?T"
  proof (rule set_eqI)
    fix n
    have "n \<in> ?T \<longleftrightarrow> n div 64 = p \<and> bit (bm p) (n mod 64)"
    proof
      assume "n div 64 = p \<and> bit (bm p) (n mod 64)"
      then show "n \<in> ?T" using div_mult_mod_eq [of n 64] by (intro image_eqI [of _ _ "n mod 64"]) auto
    qed auto
    moreover have "n < 64 * Suc p \<longleftrightarrow> n < 64 * p \<or> n div 64 = p"
      by (auto simp: div_nat_eqI dividend_less_times_div less_mult_imp_div_less)
    moreover have "n div 64 = p \<Longrightarrow> bit (bm (n div 64)) (n mod 64) = bit (bm p) (n mod 64)" by simp
    ultimately show "n \<in> ?S (Suc p) \<longleftrightarrow> n \<in> ?S p \<union> ?T" by blast
  qed
  moreover have "?S p \<inter> ?T = {}" by auto
  moreover have "card ?T = blt_popcount (bm p)"
    by (simp add: blt_popcount_card card_image inj_on_def)
  moreover have "finite (?S p)" by (rule finite_subset [of _ "{..<64 * p}"]) auto
  ultimately show ?case using Suc.IH by (simp add: card_Un_disjoint)
qed simp

lemma blt_inv_iff:
  "blt_inv b \<longleftrightarrow> blocks_avail b = int (sum_list (map (\<lambda>i. blt_popcount (blt_bitmap b i)) [0..<blt_ptrs b])) \<and>
     0 < lock_tries b \<and> 0 < round_trips b"
  by (simp add: blt_inv_def blt_free_def card_blocks sum_list_sum_nth atLeast0LessThan)

lemma blt_inv_alloc:
  assumes "ntapi_blt_alloc bs (64 * p) m lt rt = Inr b"
  shows "blt_inv b \<and> blt_ptrs b = p"
proof -
  have all: "(\<Sum>i<p. blt_popcount (- 1)) = 64 * p" by (simp add: blt_popcount_def)
  show ?thesis
    using assms
    by (cases m) (auto simp: ntapi_blt_alloc_def Let_def blt_inv_def blt_free_def card_blocks
        sum_list_sum_nth atLeast0LessThan all [simplified] split: if_splits)
qed

section \<open>Pools of numbers\<close>

text \<open>
  What a client relies on: the least free number is handed out, and a number that is handed
  back becomes free. \<open>legal\<close> are the numbers the pool manages.
\<close>

locale id_pool =
  fixes avail :: "'p \<Rightarrow> nat set"
    and ok :: "'p \<Rightarrow> bool"
    and legal :: "'p \<Rightarrow> nat \<Rightarrow> bool"
    and acquire :: "'p \<Rightarrow> ('p \<times> nat) option"
    and release :: "'p \<Rightarrow> nat \<Rightarrow> 'p"
  assumes acquire_SomeD: "ok p \<Longrightarrow> acquire p = Some (p', n) \<Longrightarrow>
      ok p' \<and> n \<in> avail p \<and> avail p' = avail p - {n} \<and> (\<forall>m\<in>avail p. n \<le> m) \<and> legal p' = legal p"
    and acquire_None_iff: "ok p \<Longrightarrow> acquire p = None \<longleftrightarrow> avail p = {}"
    and release_ok: "ok p \<Longrightarrow> legal p n \<Longrightarrow> n \<notin> avail p \<Longrightarrow>
      ok (release p n) \<and> avail (release p n) = insert n (avail p) \<and> legal (release p n) = legal p"
    and avail_legal: "ok p \<Longrightarrow> n \<in> avail p \<Longrightarrow> legal p n"
begin

text \<open>Handing a number back makes the pool what it was.\<close>

lemma acquire_release:
  assumes "ok p" "acquire p = Some (p', n)"
  shows "ok (release p' n) \<and> avail (release p' n) = avail p"
proof -
  have n: "ok p'" "n \<in> avail p" "avail p' = avail p - {n}" "legal p' = legal p"
    using acquire_SomeD [OF assms] by auto
  moreover have "legal p' n" using n avail_legal [OF assms(1)] by simp
  ultimately show ?thesis using release_ok [of p' n] by auto
qed

text \<open>Numbers in use are never handed out again before they are released.\<close>

primrec acquire_many :: "nat \<Rightarrow> 'p \<Rightarrow> ('p \<times> nat list) option" where
  "acquire_many 0 p = Some (p, [])"
| "acquire_many (Suc k) p =
     (case acquire p of None \<Rightarrow> None
      | Some (p', n) \<Rightarrow> map_option (\<lambda>(q, ns). (q, n # ns)) (acquire_many k p'))"

lemma acquire_many_distinct:
  assumes "ok p" "acquire_many k p = Some (q, ns)"
  shows "ok q \<and> distinct ns \<and> sorted ns \<and> set ns \<subseteq> avail p \<and> avail q = avail p - set ns"
  using assms
proof (induction k arbitrary: p ns)
  case 0
  then show ?case by simp
next
  case (Suc k)
  then obtain p' n ns' where a: "acquire p = Some (p', n)" "acquire_many k p' = Some (q, ns')" "ns = n # ns'"
    by (auto split: option.splits)
  note n = acquire_SomeD [OF Suc.prems(1) a(1)]
  show ?case using Suc.IH [OF _ a(2)] n a(3) by auto
qed

lemma acquire_after_release:
  assumes "ok p" "legal p n" "n \<notin> avail p" "\<forall>m\<in>avail p. n < m"
  shows "\<exists>p'. acquire (release p n) = Some (p', n)"
proof -
  note r = release_ok [OF assms(1-3)]
  then obtain p' m where m: "acquire (release p n) = Some (p', m)"
    using acquire_None_iff [of "release p n"] by (cases "acquire (release p n)") auto
  then have "m \<in> insert n (avail p)" "m \<le> n" using acquire_SomeD [OF _ m] r by auto
  then show ?thesis using m assms(4) by force
qed

end

text \<open>The allocator, as one thread uses it, is such a pool.\<close>

definition blt_pool_acquire :: "nt_blitter \<Rightarrow> (nt_blitter \<times> nat) option" where
  "blt_pool_acquire b = (case ntapi_blt_acquire alone 0 b of (b', _, Inr n) \<Rightarrow> Some (b', n) | _ \<Rightarrow> None)"

lemma blt_pool_acquire_eq:
  "blt_inv b \<Longrightarrow> blt_pool_acquire b =
    (if blt_free b = {} then None else Some (blt_take b (Min (blt_free b)), Min (blt_free b)))"
  by (simp add: blt_pool_acquire_def ntapi_blt_acquire_def blt_acquire_alone Let_def)

lemma blt_ptrs_take [simp]: "blt_ptrs (blt_take b n) = blt_ptrs b"
  by (simp add: blt_take_def)

lemma blt_ptrs_release [simp]: "blt_ptrs (ntapi_blt_release b n) = blt_ptrs b"
  by (simp add: ntapi_blt_release_def Let_def)

interpretation blt: id_pool blt_free blt_inv "\<lambda>b n. n < 64 * blt_ptrs b"
  blt_pool_acquire ntapi_blt_release
proof (unfold_locales, goal_cases)
  case (1 p p' n)
  then have n: "n = Min (blt_free p)" "p' = blt_take p n" "blt_free p \<noteq> {}"
    by (auto simp: blt_pool_acquire_eq split: if_splits)
  then have "n \<in> blt_free p" by simp
  with 1 n show ?case by (auto simp: blt_inv_take blt_free_take)
next
  case (2 p)
  then show ?case by (simp add: blt_pool_acquire_eq)
next
  case (3 p n)
  then show ?case by (simp add: blt_inv_release blt_free_release)
next
  case (4 p n)
  then show ?case by (simp add: blt_free_def)
qed

section \<open>Properties\<close>

text \<open>A thread that is alone gets the least free block, in whatever state the bitmap is; the
  block is no longer free, no other block changes, and the count of free blocks stays right;
  without a free block the call fails and changes nothing.\<close>

lemma blt_acquire_least:
  assumes "blt_inv b"
  shows "case ntapi_blt_acquire (\<lambda>_ b. b) k b of
      (b', _, Inr n) \<Rightarrow> n \<in> blt_free b \<and> (\<forall>m\<in>blt_free b. n \<le> m) \<and>
        blt_free b' = blt_free b - {n} \<and> blt_inv b'
    | (b', _, Inl e) \<Rightarrow> b' = b \<and> e = NT_STATUS_ALLOCATE_BUCKET \<and> blt_free b = {}"
  using assms Min_in [OF finite_blt_free, of b]
  by (auto simp: ntapi_blt_acquire_def blt_acquire_alone Let_def blt_free_take blt_inv_take)

abbreviation (input) "ex_blt \<equiv> \<lparr>blt_ptrs = 2, blt_bitmap = (\<lambda>_. 0)(1 := 0x50), blocks_used = 126,
  blocks_avail = 2, blt_busy = 0, info_lock_tries = 0, lock_tries = 256, round_trips = 64\<rparr>"

lemma blt_acquire_least_witness:
  "case ntapi_blt_acquire (\<lambda>_ b. b) 0 ex_blt of
      (b', _, Inr n) \<Rightarrow> n \<in> blt_free ex_blt \<and> (\<forall>m\<in>blt_free ex_blt. n \<le> m) \<and>
        blt_free b' = blt_free ex_blt - {n} \<and> blt_inv b'
    | (b', _, Inl e) \<Rightarrow> b' = ex_blt \<and> e = NT_STATUS_ALLOCATE_BUCKET \<and> blt_free ex_blt = {}"
  by (rule blt_acquire_least) (unfold blt_inv_iff, code_simp)

lemma blt_bitbite_success:
  assumes "blt_bitbite env tries k b bt i = (b', k', NT_STATUS_SUCCESS)" "bt < 64"
  shows "\<exists>j c. bit (blt_bitmap (env j c) i) bt \<and> b' = blt_take (env j c) (bt + i * 64)"
  using assms(1)
proof (induction tries arbitrary: k b)
  case (Suc tries)
  show ?case
  proof (cases "blt_bitmap (env k b) i = blt_bitmap b i OR push_bit bt 1")
    case True
    then have "bit (blt_bitmap (env k b) i) bt" using assms(2) by (simp add: bit_or_iff bit_single)
    moreover have "b' = blt_take (env k b) (bt + i * 64)"
      using Suc.prems True block_number [OF assms(2)] by (simp add: Let_def blt_take_def)
    ultimately show ?thesis by blast
  next
    case False
    then show ?thesis using Suc by (auto simp: Let_def split: if_splits)
  qed
qed simp

lemma blt_bitbite_ptrs:
  assumes "\<And>j c. blt_ptrs (env j c) = blt_ptrs c" "blt_bitbite env tries k b bt i = (b', k', r)"
  shows "blt_ptrs b' = blt_ptrs b"
  using assms(2) by (induction tries arbitrary: k b) (auto simp: Let_def assms(1) split: if_splits)

lemma blt_acquire_loop_success:
  assumes "\<And>j c. blt_ptrs (env j c) = blt_ptrs c" "blt_acquire_loop env f k b a = (b', k', Inr n)"
  shows "\<exists>j c. n \<in> blt_free (env j c) \<and> b' = blt_take (env j c) n"
  using assms(2)
proof (induction f arbitrary: k b)
  case (Suc f)
  then obtain i bt where i: "find (\<lambda>i. at_bsf (blt_bitmap b i) \<noteq> None) [a div 64..<blt_ptrs b] = Some i"
    and bt: "at_bsf (blt_bitmap b i) = Some bt"
    by (auto split: if_splits option.splits simp: find_Some_iff)
  have lt: "bt < 64" "i < blt_ptrs b" using i bt by (auto simp: at_bsf_Some_iff find_upt_Some_iff)
  obtain b1 k1 r where bite: "blt_bitbite env (lock_tries b) k b bt i = (b1, k1, r)"
    by (metis prod_cases3)
  show ?case
  proof (cases "r = NT_STATUS_SUCCESS")
    case True
    then obtain j c where c: "bit (blt_bitmap (env j c) i) bt" "b1 = blt_take (env j c) (bt + i * 64)"
      using blt_bitbite_success bite lt(1) by blast
    have "blt_ptrs (env j c) = blt_ptrs b"
      using blt_bitbite_ptrs [OF assms(1) bite] c(2) by simp
    moreover have "b' = b1" "n = bt + i * 64" using Suc.prems i bt bite True by (auto split: if_splits)
    ultimately show ?thesis
      using c lt block_number [OF lt(1)] by (intro exI [of _ j] exI [of _ c]) (auto simp: blt_free_def)
  next
    case False
    then have "blt_acquire_loop env f k1 b1 a = (b', k', Inr n)"
      using Suc.prems i bt bite by (cases r) (auto split: if_splits)
    then show ?thesis using Suc.IH by blast
  qed
qed simp

text \<open>C9: With other threads changing the bitmap between the read and the swap in any way, a block
  that is handed out was free at the moment of the swap, and the swap removed that block and
  no other from the free ones: two threads never get the same block.\<close>

theorem blt_acquire_exclusive:
  assumes "\<And>j c. blt_ptrs (env j c) = blt_ptrs c" "ntapi_blt_acquire env k b = (b', k', Inr n)"
  shows "\<exists>j c. n \<in> blt_free (env j c) \<and> blt_free b' = blt_free (env j c) - {n}"
  using blt_acquire_loop_success [OF assms(1)] assms(2) blt_free_take
  by (fastforce simp: ntapi_blt_acquire_def blt_acquire_def split: if_splits)

text \<open>A thread that loses the race for block 68 to another one goes on to block 70.\<close>

definition ex_env :: blt_env where
  "ex_env k c = (if k = 0 then blt_take c 68 else c)"

lemma blt_acquire_exclusive_witness:
  "\<exists>j c. 70 \<in> blt_free (ex_env j c) \<and>
     blt_free (fst (ntapi_blt_acquire ex_env 0 ex_blt)) = blt_free (ex_env j c) - {70}"
proof (rule blt_acquire_exclusive)
  have "snd (ntapi_blt_acquire ex_env 0 ex_blt) = (2, Inr 70)" by code_simp
  then show "ntapi_blt_acquire ex_env 0 ex_blt = (fst (ntapi_blt_acquire ex_env 0 ex_blt), 2, Inr 70)"
    by (simp only: prod_eq_iff fst_conv snd_conv simp_thms)
qed (simp add: ex_env_def)

text \<open>
  \<open>__ntapi_blt_obtain\<close> keeps \<open>blkid % 8\<close> of the position in a word (\<open>sizeof\<close> where the
  number of bits is meant), so it ignores every request that is a multiple of 8: the least
  free block is handed out, also when it is below the block asked for.
\<close>

lemma blt_obtain_ignores_request:
  assumes "blt_inv b" "blkid mod 8 = 0" "blt_free b \<noteq> {}"
  shows "snd (snd (ntapi_blt_obtain (\<lambda>_ b. b) k b blkid)) = Inr (Min (blt_free b))"
  using assms blt_inv_empty [OF assms(1)]
  by (simp add: ntapi_blt_obtain_def ntapi_blt_acquire_def blt_acquire_alone Let_def)

text \<open>For the numbers below 8 it does what it is meant to.\<close>

lemma foldl_clear_bits:
  "bit (foldl (\<lambda>m n. m XOR push_bit n 1) (- 1) [0..<bt] :: u64) j \<longleftrightarrow> bt \<le> j \<and> j < 64" if "bt \<le> 64"
  using that by (induction bt) (auto simp: bit_xor_iff bit_single bit_minus_1_iff)

lemma blt_obtain_small:
  assumes "blt_inv b" "0 < bt" "bt < 8" "\<exists>n\<in>blt_free b. bt \<le> n \<and> n < 64"
  shows "snd (snd (ntapi_blt_obtain (\<lambda>_ b. b) k b bt)) = Inr (Min {n \<in> blt_free b. bt \<le> n})"
proof -
  define msk where "msk = (foldl (\<lambda>m n. m XOR push_bit n 1) (- 1) [0..<bt] :: u64)"
  have m: "bit (msk AND blt_bitmap b 0) j \<longleftrightarrow> bt \<le> j \<and> j < 64 \<and> bit (blt_bitmap b 0) j" for j
    using assms(3) foldl_clear_bits [of bt j] by (auto simp: msk_def bit_and_iff)
  obtain n where n: "n \<in> blt_free b" "bt \<le> n" "n < 64" using assms(4) by blast
  then have "bit (msk AND blt_bitmap b 0) n" by (simp add: m blt_free_def)
  then have "at_bsf (msk AND blt_bitmap b 0) \<noteq> None" unfolding at_bsf_None_iff by auto
  then obtain c where c: "at_bsf (msk AND blt_bitmap b 0) = Some c" by auto
  then have c': "c < 64" "bt \<le> c" "bit (blt_bitmap b 0) c" "\<And>j. j < c \<Longrightarrow> \<not> bit (msk AND blt_bitmap b 0) j"
    using m by (auto simp: at_bsf_Some_iff)
  have p: "0 < blt_ptrs b" using n(1) by (cases "blt_ptrs b") (auto simp: blt_free_def)
  have least: "c \<le> j" if "j \<in> blt_free b" "bt \<le> j" for j
    using that c'(1) c'(4) [of j] m [of j] by (cases "j < 64") (auto simp: blt_free_def not_less [symmetric])
  have "Min {n \<in> blt_free b. bt \<le> n} = c"
    using c' p least by (intro Min_eqI) (auto simp: blt_free_def)
  moreover obtain r where "round_trips b = Suc r" using assms(1) by (cases "round_trips b") (auto simp: blt_inv_def)
  moreover have "blocks_avail b \<noteq> 0" using blt_inv_empty [OF assms(1)] n(1) by auto
  moreover have "blt_bitbite alone (lock_tries b) k b c 0 = (blt_take b c, Suc k, NT_STATUS_SUCCESS)"
    using blt_bitbite_alone [OF c'(3,1)] assms(1) by (simp add: blt_inv_def)
  ultimately show ?thesis
    using assms(2,3) c by (simp add: ntapi_blt_obtain_def msk_def [simplified, symmetric] Let_def)
qed

end
