(* ===== verification/Psx_Fd.thy ===== *)
theory Psx_Fd
  imports Nt_Blitter
begin

text \<open>
  File descriptors of psxscl: the tables of descriptors (\<open>struct __fd\<close>) and of open file
  descriptions (\<open>struct __ofd\<close>) with their reference counts and their block allocators
  (\<open>internal/psx_ofd.c\<close>), \<open>close\<close> (\<open>ofd/_close.c\<close>) and \<open>dup\<close> (\<open>fcntl/_dup.c\<close>), as one thread
  runs them. The tables are total functions: a slot past the capacity, or before the first
  one, is whatever memory is there.
\<close>

section \<open>Tables\<close>

record psx_fd =
  fd_ofdidx :: int
  fd_flags :: u32
  fd_refcnt :: int
  fd_invalid :: bool

text \<open>What \<open>info.vfd\<close> points to: nothing, a message queue slot, or something else.\<close>

datatype vfd = Vfd_null | Vfd_mq nat | Vfd_other nat

record psx_ofd =
  ofd_refcnt :: int
  ofd_fdtype :: nat
  ofd_hfile :: u64
  ofd_hevent :: bool
  ofd_vfd :: vfd

text \<open>
  \<open>struct __psx_ctx\<close>, the part for descriptors. \<open>iov_closed\<close> records the calls of the
  \<open>free\<close> and \<open>close\<close> entries of the \<open>__iovtbl\<close> row of a type, with the system handle.
\<close>

record psx_ctx =
  fd_cap :: int
  ofd_cap :: int
  fd_slots :: "int \<Rightarrow> psx_fd"
  ofd_slots :: "int \<Rightarrow> psx_ofd"
  fd_blt :: "nat \<Rightarrow> nt_blitter"
  ofd_blt :: "nat \<Rightarrow> nt_blitter"
  iov_closed :: "(nat \<times> u64) list"

abbreviation (input) PSX_BITS_PER_PAGE :: nat where "PSX_BITS_PER_PAGE \<equiv> 32768"

definition psx_pages :: "int \<Rightarrow> nat" where
  "psx_pages cap = (if nat cap mod PSX_BITS_PER_PAGE \<noteq> 0 then nat cap div PSX_BITS_PER_PAGE + 1
     else nat cap div PSX_BITS_PER_PAGE)"

definition fd_upd :: "psx_ctx \<Rightarrow> int \<Rightarrow> (psx_fd \<Rightarrow> psx_fd) \<Rightarrow> psx_ctx" where
  "fd_upd c i f = c\<lparr>fd_slots := (fd_slots c)(i := f (fd_slots c i))\<rparr>"

definition ofd_upd :: "psx_ctx \<Rightarrow> int \<Rightarrow> (psx_ofd \<Rightarrow> psx_ofd) \<Rightarrow> psx_ctx" where
  "ofd_upd c i f = c\<lparr>ofd_slots := (ofd_slots c)(i := f (ofd_slots c i))\<rparr>"

section \<open>Allocation\<close>

text \<open>The first page with a free block: the page, the block in it, the allocators after.\<close>

fun acquire_pages :: "(nat \<Rightarrow> nt_blitter) \<Rightarrow> nat list \<Rightarrow> (nat \<Rightarrow> nt_blitter) \<times> (nat \<times> nat) option" where
  "acquire_pages blt [] = (blt, None)"
| "acquire_pages blt (i # is) =
     (case ntapi_blt_acquire alone 0 (blt i) of
        (b', _, Inr n) \<Rightarrow> (blt(i := b'), Some (i, n))
      | (b', _, Inl _) \<Rightarrow> acquire_pages (blt(i := b')) is)"

definition psx_fd_alloc :: "psx_ctx \<Rightarrow> psx_ctx \<times> int option" where
  "psx_fd_alloc c =
     (case acquire_pages (fd_blt c) [0..<psx_pages (fd_cap c)] of
        (blt, None) \<Rightarrow> (c\<lparr>fd_blt := blt\<rparr>, None)
      | (blt, Some (i, n)) \<Rightarrow> (c\<lparr>fd_blt := blt\<rparr>, Some (int (n + i * PSX_BITS_PER_PAGE))))"

definition psx_fd_obtain :: "psx_ctx \<Rightarrow> nat \<Rightarrow> psx_ctx \<times> int option" where
  "psx_fd_obtain c idx =
     (let i = idx div PSX_BITS_PER_PAGE; blkid = idx mod PSX_BITS_PER_PAGE in
      case ntapi_blt_obtain alone 0 (fd_blt c i) blkid of
        (b', _, Inr n) \<Rightarrow> (c\<lparr>fd_blt := (fd_blt c)(i := b')\<rparr>, Some (int (n + i * PSX_BITS_PER_PAGE)))
      | (b', _, Inl _) \<Rightarrow>
          (case acquire_pages ((fd_blt c)(i := b')) [i + 1..<psx_pages (fd_cap c)] of
             (blt, None) \<Rightarrow> (c\<lparr>fd_blt := blt\<rparr>, None)
           | (blt, Some (j, n)) \<Rightarrow> (c\<lparr>fd_blt := blt\<rparr>, Some (int (n + j * PSX_BITS_PER_PAGE)))))"

definition psx_fd_possess :: "psx_ctx \<Rightarrow> nat \<Rightarrow> psx_ctx" where
  "psx_fd_possess c idx =
     (let page = idx div PSX_BITS_PER_PAGE; blkid = idx mod PSX_BITS_PER_PAGE in
      c\<lparr>fd_blt := (fd_blt c)(page := ntapi_blt_possess (fd_blt c page) blkid)\<rparr>)"

text \<open>
  \<open>__psx_ofd_free\<close>: the row of the type is called, then everything but the event handle is
  cleared and the block released.
\<close>

definition psx_ofd_free :: "psx_ctx \<Rightarrow> int \<Rightarrow> psx_ctx" where
  "psx_ofd_free c o' =
     (let od = ofd_slots c o';
          c1 = c\<lparr>iov_closed := iov_closed c @ [(ofd_fdtype od, ofd_hfile od)]\<rparr>;
          c2 = ofd_upd c1 o' (\<lambda>od. \<lparr>ofd_refcnt = 0, ofd_fdtype = 0, ofd_hfile = 0,
                 ofd_hevent = ofd_hevent od, ofd_vfd = Vfd_null\<rparr>);
          page = nat o' div PSX_BITS_PER_PAGE
      in c2\<lparr>ofd_blt := (ofd_blt c2)(page := ntapi_blt_release (ofd_blt c2 page) (nat o' mod PSX_BITS_PER_PAGE))\<rparr>)"

text \<open>
  \<open>__psx_ofd_alloc\<close>; \<open>mkev\<close> says whether the system creates the event object. The slot
  is the one of the block number, also when the block is not in the first page.
\<close>

definition psx_ofd_alloc :: "bool \<Rightarrow> psx_ctx \<Rightarrow> psx_ctx \<times> int option" where
  "psx_ofd_alloc mkev c =
     (case acquire_pages (ofd_blt c) [0..<psx_pages (ofd_cap c)] of
        (blt, None) \<Rightarrow> (c\<lparr>ofd_blt := blt\<rparr>, None)
      | (blt, Some (i, n)) \<Rightarrow>
          let c1 = ofd_upd (c\<lparr>ofd_blt := blt\<rparr>) (int n) (\<lambda>od. od\<lparr>ofd_refcnt := 1\<rparr>) in
          if ofd_hevent (ofd_slots c1 (int n)) then (c1, Some (int n))
          else if mkev then (ofd_upd c1 (int n) (\<lambda>od. od\<lparr>ofd_hevent := True\<rparr>), Some (int n))
          else (psx_ofd_free c1 (int n), None))"

section \<open>Reference counts\<close>

definition psx_fd_ref_inc :: "psx_ctx \<Rightarrow> int \<Rightarrow> psx_ctx \<times> int option" where
  "psx_fd_ref_inc c fdidx =
     (if fdidx < 0 \<or> fdidx > fd_cap c then (c, None)
      else if fd_invalid (fd_slots c fdidx) then (c, None)
      else (fd_upd c fdidx (\<lambda>fd. fd\<lparr>fd_refcnt := fd_refcnt fd + 1\<rparr>), Some fdidx))"

definition psx_fd_ref_dec :: "psx_ctx \<Rightarrow> int \<Rightarrow> psx_ctx" where
  "psx_fd_ref_dec c fdidx = fd_upd c fdidx (\<lambda>fd. fd\<lparr>fd_refcnt := fd_refcnt fd - 1\<rparr>)"

definition psx_ofd_ref_inc :: "psx_ctx \<Rightarrow> int \<Rightarrow> psx_ctx \<times> int option" where
  "psx_ofd_ref_inc c fdidx =
     (case psx_fd_ref_inc c fdidx of
        (c1, None) \<Rightarrow> (c1, None)
      | (c1, Some f) \<Rightarrow>
          let o' = fd_ofdidx (fd_slots c1 f) in
          (psx_fd_ref_dec (ofd_upd c1 o' (\<lambda>od. od\<lparr>ofd_refcnt := ofd_refcnt od + 1\<rparr>)) f, Some o'))"

definition psx_ofd_ref_dec :: "psx_ctx \<Rightarrow> int \<Rightarrow> psx_ctx" where
  "psx_ofd_ref_dec c o' =
     (let old = ofd_refcnt (ofd_slots c o');
          c1 = ofd_upd c o' (\<lambda>od. od\<lparr>ofd_refcnt := ofd_refcnt od - 1\<rparr>)
      in if old = 1 then psx_ofd_free c1 o' else c1)"

text \<open>
  \<open>__psx_fd_free\<close>. \<open>None\<close>: the loop that waits for the descriptor's count to become 0 does
  not end, as no other thread is there to change it.
\<close>

definition psx_fd_free :: "psx_ctx \<Rightarrow> int \<Rightarrow> (psx_ctx \<times> nt_status) option" where
  "psx_fd_free c f =
     (if fd_invalid (fd_slots c f) then Some (c, NT_STATUS_INVALID_HANDLE)
      else
        let c1 = fd_upd c f (\<lambda>fd. fd\<lparr>fd_invalid := True\<rparr>);
            c2 = psx_ofd_ref_dec c1 (fd_ofdidx (fd_slots c1 f));
            page = nat f div PSX_BITS_PER_PAGE
        in if fd_refcnt (fd_slots c2 f) \<noteq> 0 then None
           else Some (c2\<lparr>fd_blt := (fd_blt c2)(page :=
                   ntapi_blt_release (fd_blt c2 page) (nat f mod PSX_BITS_PER_PAGE))\<rparr>,
                 NT_STATUS_SUCCESS))"

section \<open>System calls\<close>

definition sys_close :: "psx_ctx \<Rightarrow> int \<Rightarrow> (psx_ctx \<times> nat sysret) option" where
  "sys_close c fdidx =
     (if fdidx > fd_cap c then Some (c, Inl EBADF)
      else case psx_fd_free c fdidx of
          None \<Rightarrow> None
        | Some (c', st) \<Rightarrow> if st \<noteq> NT_STATUS_SUCCESS then Some (c', Inl EBADF) else Some (c', Inr 0))"

abbreviation (input) FD_CLOEXEC :: u32 where "FD_CLOEXEC \<equiv> 1"

definition sys_dup :: "psx_ctx \<Rightarrow> int \<Rightarrow> psx_ctx \<times> nat sysret" where
  "sys_dup c fildes =
     (case psx_fd_ref_inc c fildes of
        (c1, None) \<Rightarrow> (c1, Inl EBADF)
      | (c1, Some f0) \<Rightarrow>
          (case psx_fd_alloc c1 of
             (c2, None) \<Rightarrow> (psx_fd_ref_dec c2 f0, Inl EMFILE)
           | (c2, Some f1) \<Rightarrow>
               let c3 = fd_upd c2 f1 (\<lambda>fd. fd\<lparr>fd_ofdidx := fd_ofdidx (fd_slots c2 f0),
                          fd_flags := fd_flags (fd_slots c2 f0) AND NOT FD_CLOEXEC,
                          fd_refcnt := 0\<rparr>);
                   c4 = fst (psx_ofd_ref_inc c3 (fd_ofdidx (fd_slots c3 f1)));
                   c5 = fd_upd c4 f1 (\<lambda>fd. fd\<lparr>fd_invalid := False\<rparr>)
               in (psx_fd_ref_dec c5 f0, Inr 0)))"

definition sys_dup3 :: "psx_ctx \<Rightarrow> int \<Rightarrow> nat \<Rightarrow> u32 \<Rightarrow> psx_ctx \<times> nat sysret" where
  "sys_dup3 c fildes fildes2 flags =
     (case psx_fd_ref_inc c fildes of
        (c1, None) \<Rightarrow> (c1, Inl EBADF)
      | (c1, Some f0) \<Rightarrow>
          if fildes = int fildes2 then (c1, Inr 0)
          else
            let f1 = int fildes2;
                c4 = (case psx_fd_ref_inc c1 f1 of
                    (c2, Some _) \<Rightarrow>
                      let o0 = fd_ofdidx (fd_slots c2 f0); o1 = fd_ofdidx (fd_slots c2 f1);
                          c3 = ofd_upd c2 o0 (\<lambda>od. od\<lparr>ofd_refcnt := ofd_refcnt od + 1\<rparr>)
                      in psx_ofd_ref_dec (psx_fd_ref_dec (fd_upd c3 f1 (\<lambda>fd. fd\<lparr>fd_ofdidx := o0,
                           fd_flags := fd_flags (fd_slots c2 f0) AND NOT flags\<rparr>)) f1) o1
                  | (c2, None) \<Rightarrow>
                      let c3 = psx_fd_possess c2 fildes2 in
                      fd_upd c3 f1 (\<lambda>fd. fd\<lparr>fd_ofdidx := fd_ofdidx (fd_slots c3 f0),
                        fd_flags := fd_flags (fd_slots c3 f0) AND NOT flags, fd_refcnt := 0\<rparr>));
                c5 = psx_fd_ref_dec c4 f0
            in (fd_upd c5 f1 (\<lambda>fd. fd\<lparr>fd_invalid := False\<rparr>), Inr 0))"

section \<open>Initial tables\<close>

text \<open>
  The last part of \<open>__psx_init_ofd\<close>: all slots below \<open>bucket\<close> (\<open>__PSX_OFD_PER_BUCKET\<close>)
  are marked invalid in tables full of zeros, then the three standard descriptors are set up,
  their blocks acquired and their events created; \<open>std\<close> gives the type and handle of each.
\<close>

definition zero_fd :: psx_fd where
  "zero_fd = \<lparr>fd_ofdidx = 0, fd_flags = 0, fd_refcnt = 0, fd_invalid = False\<rparr>"

definition zero_ofd :: psx_ofd where
  "zero_ofd = \<lparr>ofd_refcnt = 0, ofd_fdtype = 0, ofd_hfile = 0, ofd_hevent = False, ofd_vfd = Vfd_null\<rparr>"

fun acquire_std :: "nat list \<Rightarrow> nt_blitter \<Rightarrow> nt_blitter option" where
  "acquire_std [] b = Some b"
| "acquire_std (i # is) b =
     (case ntapi_blt_acquire alone 0 b of
        (b', _, Inr n) \<Rightarrow> if n \<noteq> i then None else acquire_std is b'
      | (_, _, Inl _) \<Rightarrow> None)"

definition psx_init_ofd :: "nt_blitter \<Rightarrow> int \<Rightarrow> (int \<Rightarrow> nat \<times> u64) \<Rightarrow> psx_ctx option" where
  "psx_init_ofd blt0 bucket std =
     (let fds = (\<lambda>i. if i = 0 \<or> i = 1 \<or> i = 2 then zero_fd\<lparr>fd_ofdidx := i\<rparr>
            else if 0 \<le> i \<and> i < bucket then zero_fd\<lparr>fd_invalid := True\<rparr> else zero_fd);
          ofds = (\<lambda>i. if i = 0 \<or> i = 1 \<or> i = 2
            then zero_ofd\<lparr>ofd_refcnt := 1, ofd_fdtype := fst (std i), ofd_hfile := snd (std i),
              ofd_hevent := True\<rparr>
            else zero_ofd)
      in case acquire_std [0, 1, 2] blt0 of
           None \<Rightarrow> None
         | Some b' \<Rightarrow>
             Some \<lparr>fd_cap = bucket, ofd_cap = bucket, fd_slots = fds, ofd_slots = ofds,
               fd_blt = (\<lambda>_. b'), ofd_blt = (\<lambda>_. b'), iov_closed = []\<rparr>)"

section \<open>The invariant between system calls\<close>

text \<open>The descriptors that refer to an open file description.\<close>

definition fds_of :: "psx_ctx \<Rightarrow> int \<Rightarrow> int set" where
  "fds_of c o' = {f. 0 \<le> f \<and> f < fd_cap c \<and> \<not> fd_invalid (fd_slots c f) \<and> fd_ofdidx (fd_slots c f) = o'}"

definition pool_ok :: "int \<Rightarrow> (nat \<Rightarrow> nt_blitter) \<Rightarrow> bool" where
  "pool_ok cap blt \<longleftrightarrow> 0 < cap \<and> cap \<le> 32768 \<and> blt_inv (blt 0) \<and> blt_ptrs (blt 0) = 512"

text \<open>
  A descriptor is valid iff its block is taken, nobody holds a temporary reference, and the
  count of every open file description is the number of descriptors that refer to it; its
  block is taken iff that number is not 0.
\<close>

definition fd_inv :: "psx_ctx \<Rightarrow> bool" where
  "fd_inv c \<longleftrightarrow> pool_ok (fd_cap c) (fd_blt c) \<and> pool_ok (ofd_cap c) (ofd_blt c) \<and>
     (\<forall>f. 0 \<le> f \<longrightarrow> f < fd_cap c \<longrightarrow>
        (fd_invalid (fd_slots c f) \<longleftrightarrow> nat f \<in> blt_free (fd_blt c 0)) \<and>
        (\<not> fd_invalid (fd_slots c f) \<longrightarrow> fd_refcnt (fd_slots c f) = 0 \<and>
           0 \<le> fd_ofdidx (fd_slots c f) \<and> fd_ofdidx (fd_slots c f) < ofd_cap c)) \<and>
     (\<forall>o'. 0 \<le> o' \<longrightarrow> o' < ofd_cap c \<longrightarrow>
        ofd_refcnt (ofd_slots c o') = int (card (fds_of c o')) \<and>
        (fds_of c o' = {} \<longleftrightarrow> nat o' \<in> blt_free (ofd_blt c 0)))"

lemma finite_fds_of [simp]: "finite (fds_of c o')"
  by (rule finite_subset [of _ "{0..<fd_cap c}"]) (auto simp: fds_of_def)

lemma fd_inv_fd:
  assumes "fd_inv c" "0 \<le> f" "f < fd_cap c"
  shows "fd_invalid (fd_slots c f) \<longleftrightarrow> nat f \<in> blt_free (fd_blt c 0)"
    "\<not> fd_invalid (fd_slots c f) \<Longrightarrow> fd_refcnt (fd_slots c f) = 0 \<and>
       0 \<le> fd_ofdidx (fd_slots c f) \<and> fd_ofdidx (fd_slots c f) < ofd_cap c"
  using assms by (auto simp: fd_inv_def)

lemma fd_inv_ofd:
  assumes "fd_inv c" "0 \<le> o'" "o' < ofd_cap c"
  shows "ofd_refcnt (ofd_slots c o') = int (card (fds_of c o'))"
    "fds_of c o' = {} \<longleftrightarrow> nat o' \<in> blt_free (ofd_blt c 0)"
  using assms by (auto simp: fd_inv_def)

lemma pool_ok_pages:
  assumes "pool_ok cap blt"
  shows "psx_pages cap = 1"
proof -
  have "0 < nat cap" "nat cap \<le> 32768" using assms by (auto simp: pool_ok_def)
  then consider "nat cap = 32768" | "0 < nat cap" "nat cap < 32768" by linarith
  then show ?thesis by cases (simp_all add: psx_pages_def)
qed

text \<open>With one page the search is one acquisition.\<close>

lemma acquire_pages_one:
  assumes "pool_ok cap blt"
  shows "acquire_pages blt [0..<psx_pages cap] =
    (if blt_free (blt 0) = {} then (blt, None)
     else (blt(0 := blt_take (blt 0) (Min (blt_free (blt 0)))), Some (0, Min (blt_free (blt 0)))))"
  using assms pool_ok_pages [OF assms]
  by (simp add: pool_ok_def ntapi_blt_acquire_def blt_acquire_alone Let_def)

section \<open>Closing a descriptor\<close>

lemma pool_ok_release:
  assumes "pool_ok cap blt" "0 \<le> i" "i < cap" "nat i \<notin> blt_free (blt 0)"
  shows "pool_ok cap (blt(0 := ntapi_blt_release (blt 0) (nat i)))"
    and "blt_free (ntapi_blt_release (blt 0) (nat i)) = insert (nat i) (blt_free (blt 0))"
proof -
  have "i < 32768" "blt_ptrs (blt 0) = 512" using assms by (auto simp: pool_ok_def)
  then have "nat i < 64 * blt_ptrs (blt 0)" using assms(2) by simp
  with assms show "pool_ok cap (blt(0 := ntapi_blt_release (blt 0) (nat i)))"
    "blt_free (ntapi_blt_release (blt 0) (nat i)) = insert (nat i) (blt_free (blt 0))"
    by (simp_all add: pool_ok_def blt_inv_release blt_free_release)
qed

lemma fd_inv_closed:
  assumes inv: "fd_inv c" and f: "0 \<le> f" "f < fd_cap c" "\<not> fd_invalid (fd_slots c f)"
    and o0: "o0 = fd_ofdidx (fd_slots c f)"
    and caps: "fd_cap c' = fd_cap c" "ofd_cap c' = ofd_cap c"
    and fds: "fd_slots c' = (fd_slots c)(f := (fd_slots c f)\<lparr>fd_invalid := True\<rparr>)"
    and fblt: "pool_ok (fd_cap c) (fd_blt c')"
      "blt_free (fd_blt c' 0) = insert (nat f) (blt_free (fd_blt c 0))"
    and refs: "\<And>x. ofd_refcnt (ofd_slots c' x) = ofd_refcnt (ofd_slots c x) - (if x = o0 then 1 else 0)"
    and oblt: "pool_ok (ofd_cap c) (ofd_blt c')"
      "blt_free (ofd_blt c' 0) = (if fds_of c o0 = {f} then insert (nat o0) else (\<lambda>A. A)) (blt_free (ofd_blt c 0))"
  shows "fd_inv c'"
proof -
  have mem: "f \<in> fds_of c o0" using f o0 by (simp add: fds_of_def)
  have of': "fds_of c' x = (if x = o0 then fds_of c x - {f} else fds_of c x)" for x
    using o0 unfolding fds_of_def fds caps by (auto split: if_splits)
  have "card (fds_of c o0) > 0" using mem by (auto simp: card_gt_0_iff)
  moreover have "card (fds_of c o0 - {f}) = card (fds_of c o0) - 1"
    using mem by (rule card_Diff_singleton)
  ultimately have card: "int (card (fds_of c o0 - {f})) = int (card (fds_of c o0)) - 1" by linarith
  have slots: "(fd_invalid (fd_slots c' g) \<longleftrightarrow> nat g \<in> blt_free (fd_blt c' 0)) \<and>
      (\<not> fd_invalid (fd_slots c' g) \<longrightarrow> fd_refcnt (fd_slots c' g) = 0 \<and>
           0 \<le> fd_ofdidx (fd_slots c' g) \<and> fd_ofdidx (fd_slots c' g) < ofd_cap c')"
    if "0 \<le> g" "g < fd_cap c'" for g
    using fd_inv_fd [OF inv that(1)] that f(1) by (auto simp: fds fblt(2) caps)
  have ofds: "ofd_refcnt (ofd_slots c' x) = int (card (fds_of c' x)) \<and>
        (fds_of c' x = {} \<longleftrightarrow> nat x \<in> blt_free (ofd_blt c' 0))"
    if "0 \<le> x" "x < ofd_cap c'" for x
  proof -
    note i = fd_inv_ofd [OF inv that(1) that(2) [unfolded caps]]
    show ?thesis
    proof (cases "x = o0")
      case True
      then have "ofd_refcnt (ofd_slots c' x) = int (card (fds_of c' x))"
        using refs [of x] i(1) card of' [of x] by simp
      moreover have "fds_of c' x = {} \<longleftrightarrow> fds_of c o0 = {f}"
        using True mem of' [of x] by auto
      moreover have "nat x \<notin> blt_free (ofd_blt c 0)" using i(2) mem True by auto
      ultimately show ?thesis using oblt(2) True by auto
    next
      case False
      have "nat x \<noteq> nat o0" using False that(1) mem fd_inv_fd(2) [OF inv f(1,2)] f(3) o0 by auto
      then show ?thesis using False refs [of x] i of' [of x] oblt(2) by auto
    qed
  qed
  show ?thesis
    unfolding fd_inv_def using fblt(1) oblt(1) slots ofds by (auto simp: caps)
qed

text \<open>C8: Closing a valid descriptor succeeds without waiting; the descriptor becomes invalid and
  its number free, no other descriptor changes, and the system object behind it is closed
  exactly when it was the last descriptor of its open file description. The tables stay
  consistent.\<close>

theorem close_correct:
  assumes inv: "fd_inv c" and f: "0 \<le> f" "f < fd_cap c" and valid: "\<not> fd_invalid (fd_slots c f)"
  shows "\<exists>c'. sys_close c f = Some (c', Inr 0) \<and> fd_inv c' \<and>
    fd_slots c' = (fd_slots c)(f := (fd_slots c f)\<lparr>fd_invalid := True\<rparr>) \<and>
    blt_free (fd_blt c' 0) = insert (nat f) (blt_free (fd_blt c 0)) \<and>
    iov_closed c' = iov_closed c @
      (let o' = fd_ofdidx (fd_slots c f) in
       if fds_of c o' = {f} then [(ofd_fdtype (ofd_slots c o'), ofd_hfile (ofd_slots c o'))] else [])"
proof -
  define o0 where "o0 = fd_ofdidx (fd_slots c f)"
  have o0: "0 \<le> o0" "o0 < ofd_cap c" and ref0: "fd_refcnt (fd_slots c f) = 0"
    using fd_inv_fd [OF inv f] valid by (auto simp: o0_def)
  have pools: "pool_ok (fd_cap c) (fd_blt c)" "pool_ok (ofd_cap c) (ofd_blt c)"
    using inv by (auto simp: fd_inv_def)
  have mem: "f \<in> fds_of c o0" using f valid by (simp add: fds_of_def o0_def)
  have cnt: "ofd_refcnt (ofd_slots c o0) = int (card (fds_of c o0))"
    and used: "nat o0 \<notin> blt_free (ofd_blt c 0)"
    using fd_inv_ofd [OF inv o0] mem by auto
  have pg: "nat f div 32768 = 0" "nat f mod 32768 = nat f" "nat o0 div 32768 = 0" "nat o0 mod 32768 = nat o0"
    using pools f o0 by (auto simp: pool_ok_def)
  have last: "card (fds_of c o0) = 1 \<longleftrightarrow> fds_of c o0 = {f}"
    using mem by (auto simp: card_1_singleton_iff)
  note rel_f = pool_ok_release [OF pools(1) f]
  have free_f: "nat f \<notin> blt_free (fd_blt c 0)" using fd_inv_fd(1) [OF inv f] valid by simp
  note rel_o = pool_ok_release [OF pools(2) o0 used]
  define c1 where "c1 = fd_upd c f (\<lambda>fd. fd\<lparr>fd_invalid := True\<rparr>)"
  define c2 where "c2 = psx_ofd_ref_dec c1 o0"
  define c' where "c' = c2\<lparr>fd_blt := (fd_blt c2)(0 := ntapi_blt_release (fd_blt c2 0) (nat f))\<rparr>"
  have keep: "fd_cap c2 = fd_cap c" "ofd_cap c2 = ofd_cap c" "fd_blt c2 = fd_blt c"
      "fd_slots c2 = (fd_slots c)(f := (fd_slots c f)\<lparr>fd_invalid := True\<rparr>)"
    by (simp_all add: c2_def c1_def psx_ofd_ref_dec_def psx_ofd_free_def ofd_upd_def fd_upd_def Let_def)
  have o2: "ofd_blt c2 = (if fds_of c o0 = {f}
        then (ofd_blt c)(0 := ntapi_blt_release (ofd_blt c 0) (nat o0)) else ofd_blt c)"
      "iov_closed c2 = iov_closed c @ (if fds_of c o0 = {f}
        then [(ofd_fdtype (ofd_slots c o0), ofd_hfile (ofd_slots c o0))] else [])"
      "ofd_refcnt (ofd_slots c2 x) = ofd_refcnt (ofd_slots c x) - (if x = o0 then 1 else 0)" for x
    using last cnt pg
    by (auto simp: c2_def c1_def psx_ofd_ref_dec_def psx_ofd_free_def ofd_upd_def fd_upd_def Let_def)
  have "sys_close c f = Some (c', Inr 0)"
    using f valid ref0 pg keep
    by (simp add: sys_close_def psx_fd_free_def c1_def [symmetric] Let_def)
      (simp add: c1_def fd_upd_def o0_def [symmetric] c2_def c'_def)
  moreover have "fd_inv c'"
    by (rule fd_inv_closed [OF inv f valid o0_def])
      (use keep o2 rel_f [OF free_f] rel_o pools in \<open>auto simp: c'_def\<close>)
  ultimately show ?thesis
    using keep o2 rel_f [OF free_f] by (auto simp: c'_def o0_def [symmetric] Let_def)
qed

section \<open>Installing a descriptor\<close>

text \<open>
  A new descriptor for a new open file description, as the calls that open something install
  it, keeps the tables consistent, if both numbers are below the capacities (the allocators
  manage whole pages and do not look at the capacities).
\<close>

lemma fd_inv_installed:
  assumes inv: "fd_inv c" and f: "0 \<le> f" "f < fd_cap c" "nat f \<in> blt_free (fd_blt c 0)"
    and x: "0 \<le> x" "x < ofd_cap c" "nat x \<in> blt_free (ofd_blt c 0)"
    and caps: "fd_cap c' = fd_cap c" "ofd_cap c' = ofd_cap c"
    and fds: "fd_slots c' = (fd_slots c)(f := v)" "\<not> fd_invalid v" "fd_refcnt v = 0" "fd_ofdidx v = x"
    and refs: "\<And>y. ofd_refcnt (ofd_slots c' y) = (if y = x then 1 else ofd_refcnt (ofd_slots c y))"
    and fblt: "fd_blt c' = (fd_blt c)(0 := blt_take (fd_blt c 0) (nat f))"
    and oblt: "ofd_blt c' = (ofd_blt c)(0 := blt_take (ofd_blt c 0) (nat x))"
  shows "fd_inv c'"
proof -
  have pools: "pool_ok (fd_cap c) (fd_blt c)" "pool_ok (ofd_cap c) (ofd_blt c)"
    using inv by (auto simp: fd_inv_def)
  have pool': "pool_ok (fd_cap c') (fd_blt c')" "pool_ok (ofd_cap c') (ofd_blt c')"
    using pools f(3) x(3) by (auto simp: pool_ok_def caps fblt oblt blt_inv_take)
  have free': "blt_free (fd_blt c' 0) = blt_free (fd_blt c 0) - {nat f}"
    "blt_free (ofd_blt c' 0) = blt_free (ofd_blt c 0) - {nat x}"
    using f(3) x(3) by (simp_all add: fblt oblt blt_free_take)
  have nf: "f \<notin> fds_of c y" for y using fd_inv_fd(1) [OF inv f(1,2)] f(3) by (simp add: fds_of_def)
  have of': "fds_of c' y = (if y = x then insert f (fds_of c y) else fds_of c y)" for y
    using nf [of y] f fds(2-4) unfolding fds_of_def fds(1) caps by (auto split: if_splits)
  have empty: "fds_of c x = {}" using fd_inv_ofd(2) [OF inv x(1,2)] x(3) by simp
  have slots: "(fd_invalid (fd_slots c' g) \<longleftrightarrow> nat g \<in> blt_free (fd_blt c' 0)) \<and>
      (\<not> fd_invalid (fd_slots c' g) \<longrightarrow> fd_refcnt (fd_slots c' g) = 0 \<and>
           0 \<le> fd_ofdidx (fd_slots c' g) \<and> fd_ofdidx (fd_slots c' g) < ofd_cap c')"
    if "0 \<le> g" "g < fd_cap c'" for g
    using fd_inv_fd [OF inv that(1)] that f(1) x(1,2) fds(2-4) by (auto simp: fds(1) free' caps)
  have ofds: "ofd_refcnt (ofd_slots c' y) = int (card (fds_of c' y)) \<and>
        (fds_of c' y = {} \<longleftrightarrow> nat y \<in> blt_free (ofd_blt c' 0))"
    if "0 \<le> y" "y < ofd_cap c'" for y
    using fd_inv_ofd [OF inv that(1) that(2) [unfolded caps]] empty that(1) x(1)
    by (auto simp: refs of' free')
  show ?thesis
    unfolding fd_inv_def using pool' slots ofds by blast
qed

lemma psx_fd_alloc_eq:
  assumes "fd_inv c"
  shows "psx_fd_alloc c = (if blt_free (fd_blt c 0) = {} then (c, None)
    else (c\<lparr>fd_blt := (fd_blt c)(0 := blt_take (fd_blt c 0) (Min (blt_free (fd_blt c 0))))\<rparr>,
          Some (int (Min (blt_free (fd_blt c 0))))))"
  using assms acquire_pages_one [of "fd_cap c" "fd_blt c"] by (simp add: psx_fd_alloc_def fd_inv_def)

section \<open>The initial tables are consistent\<close>

lemma acquire_least:
  assumes "blt_inv b" "blt_free b = {i..<n}" "i < n"
  shows "ntapi_blt_acquire alone 0 b = (blt_take b i, 1, Inr i)"
proof -
  have m: "Min {i..<n} = i" "{i..<n} \<noteq> {}" using assms(3) by (auto intro!: Min_eqI)
  have "{m \<in> blt_free b. 0 div 64 * 64 \<le> m} = {i..<n}" using assms(2) by auto
  then show ?thesis
    using m by (simp only: ntapi_blt_acquire_def blt_acquire_alone [OF assms(1)] Let_def if_False One_nat_def)
qed

lemma acquire_std_upt:
  assumes "blt_inv b" "blt_free b = {i..<n}" "i + k \<le> n"
  shows "\<exists>b'. acquire_std [i..<i + k] b = Some b' \<and> blt_inv b' \<and> blt_free b' = {i + k..<n} \<and>
    blt_ptrs b' = blt_ptrs b"
  using assms
proof (induction k arbitrary: b i)
  case 0
  then show ?case by simp
next
  case (Suc k)
  then have "i < n" by simp
  note a = acquire_least [OF Suc.prems(1,2) this]
  have "i \<in> blt_free b" using Suc.prems by simp
  note t = blt_inv_take [OF Suc.prems(1) this] blt_free_take [OF this]
  have "blt_free (blt_take b i) = {Suc i..<n}" unfolding t(2) Suc.prems(2) by auto
  moreover have "Suc i + k \<le> n" using Suc.prems(3) by simp
  ultimately obtain b' where b': "acquire_std [Suc i..<Suc i + k] (blt_take b i) = Some b'" "blt_inv b'"
    "blt_free b' = {Suc i + k..<n}" "blt_ptrs b' = blt_ptrs (blt_take b i)"
    using Suc.IH [OF t(1)] by blast
  have "[i..<i + Suc k] = i # [Suc i..<Suc i + k]" by (subst upt_conv_Cons) simp_all
  then have "acquire_std [i..<i + Suc k] b = Some b'" using a b'(1) by simp
  moreover have "blt_free b' = {i + Suc k..<n}" using b'(3) by simp
  ultimately show ?case using b'(2,4) by (intro exI [of _ b']) simp
qed

lemma fd_inv_init:
  assumes "ntapi_blt_alloc 8 32768 None lt rt = Inr blt0" "3 \<le> bucket" "bucket \<le> 32768"
  shows "\<exists>c. psx_init_ofd blt0 bucket std = Some c \<and> fd_inv c \<and> fd_cap c = bucket \<and> ofd_cap c = bucket \<and>
    blt_free (fd_blt c 0) = {3..<32768} \<and> blt_free (ofd_blt c 0) = {3..<32768}"
proof -
  have b0: "blt_inv blt0" "blt_ptrs blt0 = 512"
    using blt_inv_alloc [of 8 512] assms(1) by auto
  have "blt_bitmap blt0 = (\<lambda>_. - 1)" using assms(1) by (auto simp: ntapi_blt_alloc_def Let_def)
  then have "blt_free blt0 = {0..<32768}"
    using b0(2) by (auto simp: blt_free_def bit_minus_1_iff)
  from acquire_std_upt [OF b0(1) this, of 3] obtain b' where b': "acquire_std [0..<3] blt0 = Some b'"
    "blt_inv b'" "blt_free b' = {3..<32768}" "blt_ptrs b' = 512" using b0 by auto
  have "[0..<3] = [0, 1, 2::nat]" by (simp add: numeral_3_eq_3 numeral_2_eq_2)
  with b'(1) have std: "acquire_std [0, 1, 2] blt0 = Some b'" by simp
  define c where "c = the (psx_init_ofd blt0 bucket std)"
  have c: "psx_init_ofd blt0 bucket std = Some c"
    using std by (simp add: c_def psx_init_ofd_def Let_def)
  have fields: "fd_cap c = bucket" "ofd_cap c = bucket" "fd_blt c = (\<lambda>_. b')" "ofd_blt c = (\<lambda>_. b')"
    "iov_closed c = []"
    "\<And>i. fd_slots c i = (if i = 0 \<or> i = 1 \<or> i = 2 then zero_fd\<lparr>fd_ofdidx := i\<rparr>
            else if 0 \<le> i \<and> i < bucket then zero_fd\<lparr>fd_invalid := True\<rparr> else zero_fd)"
    "\<And>i. ofd_refcnt (ofd_slots c i) = (if i = 0 \<or> i = 1 \<or> i = 2 then 1 else 0)"
    using std by (simp_all add: c_def psx_init_ofd_def Let_def zero_ofd_def)
  have fds: "fds_of c x = (if x = 0 \<or> x = 1 \<or> x = 2 then {x} else {})" for x
    using assms(2) by (auto simp: fds_of_def fields zero_fd_def)
  have pool: "pool_ok bucket (\<lambda>_. b')" using assms b' by (simp add: pool_ok_def)
  have n: "nat i \<in> {3..<32768} \<longleftrightarrow> i \<noteq> 0 \<and> i \<noteq> 1 \<and> i \<noteq> 2" if "0 \<le> i" "i < bucket" for i
    using that assms(3) by auto
  have "fd_inv c"
    unfolding fd_inv_def fields fds b'(3)
    using pool n assms(2) by (auto simp: zero_fd_def)
  with c fields b'(3) show ?thesis by auto
qed

abbreviation (input) "ex_blt0 \<equiv> projr (ntapi_blt_alloc 8 32768 None 0 0)"
definition ex_fds :: psx_ctx where
  "ex_fds = the (psx_init_ofd ex_blt0 100 (\<lambda>i. (1, of_int i + 0x30)))"

lemma ex_fds_inv: "fd_inv ex_fds" "fd_cap ex_fds = 100" "ofd_cap ex_fds = 100"
    "blt_free (fd_blt ex_fds 0) = {3..<32768}" "blt_free (ofd_blt ex_fds 0) = {3..<32768}"
    "fd_slots ex_fds 1 = zero_fd\<lparr>fd_ofdidx := 1\<rparr>"
proof -
  have "ntapi_blt_alloc 8 32768 None 0 0 = Inr ex_blt0" by (simp add: ntapi_blt_alloc_def Let_def)
  from fd_inv_init [OF this, of 100 "\<lambda>i. (1, of_int i + 0x30)"]
  obtain c where c: "psx_init_ofd ex_blt0 100 (\<lambda>i. (1, of_int i + 0x30)) = Some c"
    "fd_inv c" "fd_cap c = 100" "ofd_cap c = 100"
    "blt_free (fd_blt c 0) = {3..<32768}" "blt_free (ofd_blt c 0) = {3..<32768}"
    by auto
  then show "fd_inv ex_fds" "fd_cap ex_fds = 100" "ofd_cap ex_fds = 100"
    "blt_free (fd_blt ex_fds 0) = {3..<32768}" "blt_free (ofd_blt ex_fds 0) = {3..<32768}"
    by (simp_all only: ex_fds_def option.sel)
  show "fd_slots ex_fds 1 = zero_fd\<lparr>fd_ofdidx := 1\<rparr>"
    using c(1) by (auto simp: ex_fds_def psx_init_ofd_def Let_def split: option.splits)
qed

lemma close_correct_witness:
  "\<exists>c'. sys_close ex_fds 1 = Some (c', Inr 0) \<and> fd_inv c' \<and>
    fd_slots c' = (fd_slots ex_fds)(1 := (fd_slots ex_fds 1)\<lparr>fd_invalid := True\<rparr>) \<and>
    blt_free (fd_blt c' 0) = insert (nat 1) (blt_free (fd_blt ex_fds 0)) \<and>
    iov_closed c' = iov_closed ex_fds @
      (let o' = fd_ofdidx (fd_slots ex_fds 1) in
       if fds_of ex_fds o' = {1} then [(ofd_fdtype (ofd_slots ex_fds o'), ofd_hfile (ofd_slots ex_fds o'))] else [])"
  by (rule close_correct) (simp_all only: ex_fds_inv, simp_all add: zero_fd_def)

section \<open>Where the code departs from it\<close>

text \<open>
  The bound in \<open>__psx_fd_ref_inc\<close> lets the number \<open>fd_cap\<close> through, and the slot there was
  never marked invalid: it is an open descriptor for standard input from the start.
\<close>

lemma fd_cap_is_open:
  assumes "psx_init_ofd blt0 bucket std = Some c" "3 \<le> bucket"
  shows "snd (psx_ofd_ref_inc c (fd_cap c)) = Some 0"
  using assms
  by (auto simp: psx_init_ofd_def Let_def psx_ofd_ref_inc_def psx_fd_ref_inc_def zero_fd_def fd_upd_def
      split: option.splits)

text \<open>
  \<open>dup\<close> returns 0 instead of the new descriptor, and takes its reference on the open file
  description of the descriptor whose number is the index of the description: for descriptor
  4 on description 3, while descriptor 3 is on description 0, it counts description 0.
\<close>

lemma dup_result: "snd (sys_dup c f) \<in> {Inr 0, Inl EBADF, Inl EMFILE}"
  by (auto simp: sys_dup_def Let_def split: prod.splits option.splits)

lemma dup_counts_wrong_description:
  assumes "fd_inv c" "fd_slots c 4 = zero_fd\<lparr>fd_ofdidx := 3\<rparr>" "fd_slots c 3 = zero_fd"
    "4 < fd_cap c" "5 \<in> blt_free (fd_blt c 0)" "\<forall>n\<in>blt_free (fd_blt c 0). 5 \<le> n"
  shows "let c' = fst (sys_dup c 4) in fd_ofdidx (fd_slots c' 5) = 3 \<and> \<not> fd_invalid (fd_slots c' 5) \<and>
    ofd_refcnt (ofd_slots c' 3) = ofd_refcnt (ofd_slots c 3) \<and>
    ofd_refcnt (ofd_slots c' 0) = ofd_refcnt (ofd_slots c 0) + 1"
proof -
  define c1 where "c1 = fst (psx_fd_ref_inc c 4)"
  have c1: "psx_fd_ref_inc c 4 = (c1, Some 4)"
    using assms by (simp add: c1_def psx_fd_ref_inc_def zero_fd_def)
  have blt: "fd_blt c1 = fd_blt c" "fd_cap c1 = fd_cap c"
    using assms by (simp_all add: c1_def psx_fd_ref_inc_def fd_upd_def)
  have pool: "pool_ok (fd_cap c) (fd_blt c)" using assms(1) by (simp add: fd_inv_def)
  have m: "Min (blt_free (fd_blt c 0)) = 5" using assms(5,6) by (intro Min_eqI) auto
  have "\<exists>blt. psx_fd_alloc c1 = (c1\<lparr>fd_blt := blt\<rparr>, Some 5)"
    using acquire_pages_one [OF pool] m assms(5) blt by (auto simp: psx_fd_alloc_def)
  then obtain blt where al: "psx_fd_alloc c1 = (c1\<lparr>fd_blt := blt\<rparr>, Some 5)" by blast
  show ?thesis
    using assms c1 al
    by (simp add: sys_dup_def Let_def psx_ofd_ref_inc_def psx_fd_ref_dec_def)
      (simp add: c1_def psx_fd_ref_inc_def fd_upd_def ofd_upd_def zero_fd_def)
qed

end
