(* ===== verification/Psx_Mq.thy ===== *)
theory Psx_Mq
  imports Psx_Fd "HOL-Library.Sublist"
begin

text \<open>
  POSIX message queues (\<open>mq/_mq.c\<close>): the table of named queues, sending and receiving by
  priority, \<open>mq_open\<close> (with the descriptor it installs), \<open>mq_unlink\<close>, the two timed calls,
  \<open>mq_notify\<close> and \<open>mq_getsetattr\<close>. Names are C strings: lists of nonzero bytes.
\<close>

section \<open>State\<close>

abbreviation (input) PSX_MQ_CAP :: nat where "PSX_MQ_CAP \<equiv> 64"
abbreviation (input) PSX_MQ_SLOTS :: nat where "PSX_MQ_SLOTS \<equiv> 8"
abbreviation (input) PSX_MQ_MSGSIZE :: u32 where "PSX_MQ_MSGSIZE \<equiv> 1024"
abbreviation (input) O_CREAT :: u32 where "O_CREAT \<equiv> 0x40"
abbreviation (input) O_EXCL :: u32 where "O_EXCL \<equiv> 0x80"
abbreviation (input) O_NONBLOCK :: u32 where "O_NONBLOCK \<equiv> 0x800"
abbreviation (input) PSX_FD_OS_CONFIG :: nat where "PSX_FD_OS_CONFIG \<equiv> 13"

record mq_msg =
  mm_used :: bool
  mm_seq :: u32
  mm_prio :: u32
  mm_len :: u32
  mm_data :: buf

record psx_mq =
  mq_used :: bool
  mq_maxmsg :: u32
  mq_msgsize :: u32
  mq_curmsgs :: u32
  mq_flags :: u32
  mq_next_seq :: u32
  mq_name :: "u8 list"
  mq_msgs :: "nat \<Rightarrow> mq_msg"
  mq_notify_signo :: u32
  mq_notify_notify :: u32

definition zero_mq_msg :: mq_msg where
  "zero_mq_msg = \<lparr>mm_used = False, mm_seq = 0, mm_prio = 0, mm_len = 0, mm_data = (\<lambda>_. 0)\<rparr>"

definition zero_mq :: psx_mq where
  "zero_mq = \<lparr>mq_used = False, mq_maxmsg = 0, mq_msgsize = 0, mq_curmsgs = 0, mq_flags = 0,
     mq_next_seq = 0, mq_name = [], mq_msgs = (\<lambda>_. zero_mq_msg), mq_notify_signo = 0,
     mq_notify_notify = 0\<rparr>"

text \<open>The module state: the table, the descriptors of the process, the clock.\<close>

record mqs =
  mq_tab :: "nat \<Rightarrow> psx_mq"
  mq_ctx :: psx_ctx
  mq_clock :: timespec

definition mq_put :: "mqs \<Rightarrow> nat \<Rightarrow> psx_mq \<Rightarrow> mqs" where
  "mq_put s q v = s\<lparr>mq_tab := (mq_tab s)(q := v)\<rparr>"

section \<open>Names and the table\<close>

fun psx_mq_strcmp :: "u8 list \<Rightarrow> u8 list \<Rightarrow> int" where
  "psx_mq_strcmp [] [] = 0"
| "psx_mq_strcmp (a # as) [] = uint a"
| "psx_mq_strcmp [] (b # bs) = - uint b"
| "psx_mq_strcmp (a # as) (b # bs) = (if a \<noteq> 0 \<and> a = b then psx_mq_strcmp as bs else uint a - uint b)"

text \<open>The copy loop from index \<open>i\<close> on: at most \<open>n - 1\<close> characters.\<close>

fun psx_mq_strncpy :: "nat \<Rightarrow> nat \<Rightarrow> u8 list \<Rightarrow> u8 list" where
  "psx_mq_strncpy n i [] = []"
| "psx_mq_strncpy n i (c # src) = (if i + 1 < n then c # psx_mq_strncpy n (i + 1) src else [])"

definition psx_mq_lookup :: "mqs \<Rightarrow> u8 list \<Rightarrow> nat option" where
  "psx_mq_lookup s name =
     first_idx (\<lambda>i. mq_used (mq_tab s i) \<and> psx_mq_strcmp (mq_name (mq_tab s i)) name = 0) PSX_MQ_CAP"

text \<open>\<open>struct mq_attr\<close>; the fields are signed longs.\<close>

record mq_attr =
  attr_flags :: u64
  attr_maxmsg :: u64
  attr_msgsize :: u64
  attr_curmsgs :: u64

definition psx_mq_create :: "mqs \<Rightarrow> u8 list \<Rightarrow> mq_attr option \<Rightarrow> (nat \<times> mqs) option" where
  "psx_mq_create s name kattr =
     (case first_idx (\<lambda>i. \<not> mq_used (mq_tab s i)) PSX_MQ_CAP of
        None \<Rightarrow> None
      | Some i \<Rightarrow>
          let maxmsg = (case kattr of Some p \<Rightarrow> if sint (attr_maxmsg p) > 0 then ucast (attr_maxmsg p) else 10
                | None \<Rightarrow> 10) :: u32;
              msgsize = (case kattr of Some p \<Rightarrow> if sint (attr_msgsize p) > 0 then ucast (attr_msgsize p) else 8192
                | None \<Rightarrow> 8192) :: u32
          in Some (i, mq_put s i \<lparr>mq_used = True,
               mq_maxmsg = (if maxmsg < 8 then maxmsg else 8),
               mq_msgsize = (if msgsize < PSX_MQ_MSGSIZE then msgsize else PSX_MQ_MSGSIZE),
               mq_curmsgs = 0, mq_flags = 0, mq_next_seq = 0,
               mq_name = psx_mq_strncpy 64 0 name, mq_msgs = (\<lambda>_. zero_mq_msg),
               mq_notify_signo = 0, mq_notify_notify = 0\<rparr>))"

text \<open>From a descriptor to its queue; the reference is taken and given back.\<close>

definition psx_mq_from_fd :: "mqs \<Rightarrow> int \<Rightarrow> mqs \<times> nat option" where
  "psx_mq_from_fd s mqd =
     (case psx_ofd_ref_inc (mq_ctx s) mqd of
        (c, None) \<Rightarrow> (s\<lparr>mq_ctx := c\<rparr>, None)
      | (c, Some o') \<Rightarrow>
          (s\<lparr>mq_ctx := psx_ofd_ref_dec c o'\<rparr>,
           case ofd_vfd (ofd_slots c o') of Vfd_mq q \<Rightarrow> Some q | _ \<Rightarrow> None))"

definition psx_mq_deadline_reached :: "mqs \<Rightarrow> timespec \<Rightarrow> bool" where
  "psx_mq_deadline_reached s ts \<longleftrightarrow> tv_sec (mq_clock s) > tv_sec ts \<or>
     (tv_sec (mq_clock s) = tv_sec ts \<and> tv_nsec (mq_clock s) \<ge> tv_nsec ts)"

section \<open>Sending and receiving\<close>

definition psx_mq_send_locked :: "psx_mq \<Rightarrow> buf \<Rightarrow> u64 \<Rightarrow> u32 \<Rightarrow> errno + psx_mq" where
  "psx_mq_send_locked mq msg len prio =
     (if len > ucast (mq_msgsize mq) then Inl EMSGSIZE
      else if mq_curmsgs mq \<ge> mq_maxmsg mq then Inl EAGAIN
      else case first_idx (\<lambda>i. \<not> mm_used (mq_msgs mq i)) PSX_MQ_SLOTS of
          None \<Rightarrow> Inl EAGAIN
        | Some i \<Rightarrow> Inr (mq\<lparr>mq_msgs := (mq_msgs mq)(i := \<lparr>mm_used = True, mm_seq = mq_next_seq mq,
              mm_prio = prio, mm_len = ucast len,
              mm_data = memcpy (mm_data (mq_msgs mq i)) msg (unat len)\<rparr>),
            mq_next_seq := mq_next_seq mq + 1, mq_curmsgs := mq_curmsgs mq + 1\<rparr>))"

text \<open>The scan for the message to deliver: \<open>best\<close> with its priority and sequence number.\<close>

fun psx_mq_scan :: "psx_mq \<Rightarrow> nat list \<Rightarrow> nat option \<times> u32 \<times> u32 \<Rightarrow> nat option \<times> u32 \<times> u32" where
  "psx_mq_scan mq [] acc = acc"
| "psx_mq_scan mq (i # is) (best, best_prio, best_seq) =
     (let slot = mq_msgs mq i in
      if \<not> mm_used slot then psx_mq_scan mq is (best, best_prio, best_seq)
      else if mm_prio slot > best_prio \<or> (mm_prio slot = best_prio \<and> mm_seq slot < best_seq)
      then psx_mq_scan mq is (Some i, mm_prio slot, mm_seq slot)
      else psx_mq_scan mq is (best, best_prio, best_seq))"

text \<open>The result: priority and bytes of the message.\<close>

definition psx_mq_recv_locked :: "psx_mq \<Rightarrow> u64 \<Rightarrow> errno + (psx_mq \<times> u32 \<times> u8 list)" where
  "psx_mq_recv_locked mq len =
     (if mq_curmsgs mq = 0 then Inl EAGAIN
      else case fst (psx_mq_scan mq [0..<PSX_MQ_SLOTS] (None, 0, 0xFFFFFFFF)) of
          None \<Rightarrow> Inl EAGAIN
        | Some i \<Rightarrow>
            let slot = mq_msgs mq i in
            if len < ucast (mq_msgsize mq) then Inl EMSGSIZE
            else Inr (mq\<lparr>mq_msgs := (mq_msgs mq)(i := slot\<lparr>mm_used := False\<rparr>),
                   mq_curmsgs := mq_curmsgs mq - 1\<rparr>,
                 mm_prio slot, bytes (mm_data slot) (unat (mm_len slot))))"

section \<open>System calls\<close>

text \<open>\<open>mq_open\<close>: first the queue is found or created, then a descriptor is installed for it.\<close>

definition mq_open_queue :: "mqs \<Rightarrow> u8 list \<Rightarrow> u32 \<Rightarrow> mq_attr option \<Rightarrow> errno + (nat \<times> mqs)" where
  "mq_open_queue s nm flags kattr =
     (case psx_mq_lookup s nm of
        Some q \<Rightarrow> if flags AND O_CREAT \<noteq> 0 \<and> flags AND O_EXCL \<noteq> 0 then Inl EEXIST else Inr (q, s)
      | None \<Rightarrow>
          if flags AND O_CREAT = 0 then Inl ENOENT
          else (case psx_mq_create s nm kattr of None \<Rightarrow> Inl ENFILE | Some r \<Rightarrow> Inr r))"

text \<open>The recycling of the slot when no descriptor can be had.\<close>

definition mq_open_undo :: "mqs \<Rightarrow> nat \<Rightarrow> mqs" where
  "mq_open_undo s q =
     (if mq_curmsgs (mq_tab s q) = 0 \<and> mq_flags (mq_tab s q) = 0
      then mq_put s q ((mq_tab s q)\<lparr>mq_used := False\<rparr>) else s)"

definition mq_open_install :: "bool \<Rightarrow> mqs \<Rightarrow> nat \<Rightarrow> u32 \<Rightarrow> (mqs \<times> int sysret) option" where
  "mq_open_install mkev s q flags =
     (case psx_fd_alloc (mq_ctx s) of
        (c, None) \<Rightarrow> Some (mq_open_undo (s\<lparr>mq_ctx := c\<rparr>) q, Inl EMFILE)
      | (c, Some f) \<Rightarrow>
          (case psx_ofd_alloc mkev c of
             (c, None) \<Rightarrow>
               (case psx_fd_free c f of
                  None \<Rightarrow> None
                | Some (c, _) \<Rightarrow> Some (mq_open_undo (s\<lparr>mq_ctx := c\<rparr>) q, Inl EMFILE))
           | (c, Some o') \<Rightarrow>
               let c1 = fd_upd c f (\<lambda>fd. \<lparr>fd_ofdidx = o', fd_flags = flags, fd_refcnt = 0,
                          fd_invalid = False\<rparr>);
                   c2 = ofd_upd c1 o' (\<lambda>od. od\<lparr>ofd_fdtype := PSX_FD_OS_CONFIG, ofd_vfd := Vfd_mq q\<rparr>)
               in Some (s\<lparr>mq_ctx := c2\<rparr>, Inr f)))"

definition sys_mq_open ::
  "bool \<Rightarrow> mqs \<Rightarrow> u8 list option \<Rightarrow> u32 \<Rightarrow> mq_attr option \<Rightarrow> (mqs \<times> int sysret) option" where
  "sys_mq_open mkev s name flags kattr =
     (case name of
        None \<Rightarrow> Some (s, Inl EINVAL)
      | Some nm \<Rightarrow>
          if nm = [] then Some (s, Inl EINVAL)
          else case mq_open_queue s nm flags kattr of
              Inl e \<Rightarrow> Some (s, Inl e)
            | Inr (q, s1) \<Rightarrow>
                mq_open_install mkev
                  (if flags AND O_NONBLOCK \<noteq> 0
                   then mq_put s1 q ((mq_tab s1 q)\<lparr>mq_flags := mq_flags (mq_tab s1 q) OR O_NONBLOCK\<rparr>)
                   else s1) q flags)"

definition sys_mq_unlink :: "mqs \<Rightarrow> u8 list option \<Rightarrow> mqs \<times> nat sysret" where
  "sys_mq_unlink s name =
     (case name of None \<Rightarrow> (s, Inl EINVAL)
      | Some nm \<Rightarrow>
        if nm = [] then (s, Inl EINVAL)
        else case psx_mq_lookup s nm of
            None \<Rightarrow> (s, Inl ENOENT)
          | Some q \<Rightarrow> (mq_put s q ((mq_tab s q)\<lparr>mq_used := False\<rparr>), Inr 0))"

text \<open>One round of \<open>mq_timedsend\<close> on queue \<open>q\<close>; a queue that stays full waits.\<close>

definition mq_send_round ::
  "nat \<Rightarrow> buf \<Rightarrow> u64 \<Rightarrow> u32 \<Rightarrow> timespec option \<Rightarrow> mqs \<Rightarrow> (mqs \<times> nat sysret) option" where
  "mq_send_round q msg len prio at s =
     (case psx_mq_send_locked (mq_tab s q) msg len prio of
        Inr mq \<Rightarrow> Some (mq_put s q mq, Inr 0)
      | Inl e \<Rightarrow>
          if e \<noteq> EAGAIN then Some (s, Inl e)
          else if mq_flags (mq_tab s q) AND O_NONBLOCK \<noteq> 0 then Some (s, Inl EAGAIN)
          else if (case at of None \<Rightarrow> False | Some t \<Rightarrow> psx_mq_deadline_reached s t) then Some (s, Inl ETIMEDOUT)
          else None)"

definition sys_mq_timedsend ::
  "(nat \<Rightarrow> mqs \<Rightarrow> mqs) \<Rightarrow> nat \<Rightarrow> mqs \<Rightarrow> int \<Rightarrow> buf \<Rightarrow> u64 \<Rightarrow> u32 \<Rightarrow> timespec option \<Rightarrow>
   (mqs \<times> nat sysret) option" where
  "sys_mq_timedsend env fuel s mqd msg len prio at =
     (if prio > 32768 then Some (s, Inl EINVAL)
      else case psx_mq_from_fd s mqd of
          (s, None) \<Rightarrow> Some (s, Inl EBADF)
        | (s, Some q) \<Rightarrow> poll_loop (mq_send_round q msg len prio at) env fuel 0 s)"

definition mq_recv_round ::
  "nat \<Rightarrow> u64 \<Rightarrow> timespec option \<Rightarrow> mqs \<Rightarrow> (mqs \<times> (u32 \<times> u8 list) sysret) option" where
  "mq_recv_round q len at s =
     (case psx_mq_recv_locked (mq_tab s q) len of
        Inr (mq, m) \<Rightarrow> Some (mq_put s q mq, Inr m)
      | Inl e \<Rightarrow>
          if e \<noteq> EAGAIN then Some (s, Inl e)
          else if mq_flags (mq_tab s q) AND O_NONBLOCK \<noteq> 0 then Some (s, Inl EAGAIN)
          else if (case at of None \<Rightarrow> False | Some t \<Rightarrow> psx_mq_deadline_reached s t) then Some (s, Inl ETIMEDOUT)
          else None)"

definition sys_mq_timedreceive ::
  "(nat \<Rightarrow> mqs \<Rightarrow> mqs) \<Rightarrow> nat \<Rightarrow> mqs \<Rightarrow> int \<Rightarrow> u64 \<Rightarrow> timespec option \<Rightarrow>
   (mqs \<times> (u32 \<times> u8 list) sysret) option" where
  "sys_mq_timedreceive env fuel s mqd len at =
     (case psx_mq_from_fd s mqd of
        (s, None) \<Rightarrow> Some (s, Inl EBADF)
      | (s, Some q) \<Rightarrow> poll_loop (mq_recv_round q len at) env fuel 0 s)"

text \<open>\<open>ksev\<close> is the \<open>sigevent\<close> as the array of 32-bit words the code reads it as.\<close>

definition sys_mq_notify :: "mqs \<Rightarrow> int \<Rightarrow> (nat \<Rightarrow> u32) option \<Rightarrow> mqs \<times> nat sysret" where
  "sys_mq_notify s mqd ksev =
     (case psx_mq_from_fd s mqd of
        (s, None) \<Rightarrow> (s, Inl EBADF)
      | (s, Some q) \<Rightarrow>
          (case ksev of
             None \<Rightarrow> (mq_put s q ((mq_tab s q)\<lparr>mq_notify_notify := 0, mq_notify_signo := 0\<rparr>), Inr 0)
           | Some p \<Rightarrow>
               if p 2 \<noteq> 0 \<and> p 2 \<noteq> 1 \<and> p 2 \<noteq> 2 \<and> p 2 \<noteq> 4 then (s, Inl EINVAL)
               else (mq_put s q ((mq_tab s q)\<lparr>mq_notify_notify := p 2, mq_notify_signo := p 1\<rparr>), Inr 0)))"

text \<open>\<open>mq_getsetattr\<close>: the reply holds the attributes after the change, if asked for.\<close>

definition sys_mq_getsetattr ::
  "mqs \<Rightarrow> int \<Rightarrow> mq_attr option \<Rightarrow> bool \<Rightarrow> mqs \<times> mq_attr option sysret" where
  "sys_mq_getsetattr s mqd knew want_old =
     (case psx_mq_from_fd s mqd of
        (s, None) \<Rightarrow> (s, Inl EBADF)
      | (s, Some q) \<Rightarrow>
          let s1 = (case knew of
                None \<Rightarrow> s
              | Some p \<Rightarrow> if attr_flags p AND NOT (ucast O_NONBLOCK) = 0
                  then mq_put s q ((mq_tab s q)\<lparr>mq_flags := ucast (attr_flags p)\<rparr>) else s);
              mq = mq_tab s1 q
          in (s1, Inr (if want_old
                then Some \<lparr>attr_flags = ucast (mq_flags mq), attr_maxmsg = ucast (mq_maxmsg mq),
                       attr_msgsize = ucast (mq_msgsize mq), attr_curmsgs = ucast (mq_curmsgs mq)\<rparr>
                else None)))"

section \<open>The table keeps its contract\<close>

abbreviation (input) cstr :: "u8 list \<Rightarrow> u8 list" where "cstr \<equiv> takeWhile (\<lambda>c. c \<noteq> 0)"

lemma uint_diff_zero_iff: "uint a - uint b = 0 \<longleftrightarrow> a = (b :: u8)"
  using word_uint_eq_iff [of a b] by linarith

lemma psx_mq_strcmp_zero_iff: "psx_mq_strcmp a b = 0 \<longleftrightarrow> cstr a = cstr b"
proof (induction a b rule: psx_mq_strcmp.induct)
  case (4 a as b bs)
  show ?case
  proof (cases "a \<noteq> 0 \<and> a = b")
    case False
    then have e: "psx_mq_strcmp (a # as) (b # bs) = uint a - uint b"
      unfolding psx_mq_strcmp.simps(4) by (rule if_not_P)
    show ?thesis unfolding e uint_diff_zero_iff using False by auto
  qed (use 4 in simp)
qed (simp_all add: unsigned_eq_0_iff)

lemma psx_mq_strncpy_take: "psx_mq_strncpy n i src = take (n - 1 - i) src"
proof (induction src arbitrary: i)
  case (Cons c src)
  show ?case
  proof (cases "i + 1 < n")
    case True
    then have "n - 1 - i = Suc (n - 1 - (i + 1))" by simp
    then show ?thesis using True Cons by simp
  qed simp
qed simp

lemma takeWhile_take: "length (takeWhile P xs) < n \<Longrightarrow> takeWhile P (take n xs) = takeWhile P xs"
  by (induction xs arbitrary: n) (auto simp: take_Cons split: nat.split)

lemma mq_tab_put [simp]: "mq_tab (mq_put s q v) = (mq_tab s)(q := v)"
  by (simp add: mq_put_def)

interpretation mq_names: keyed_slots 64 "\<lambda>s i. mq_used (mq_tab s i)" "\<lambda>s i. mq_name (mq_tab s i)"
  "\<lambda>a b. psx_mq_strcmp a b = 0" "\<lambda>n. length (cstr n) < 64" psx_mq_lookup psx_mq_create
  "\<lambda>s i. mq_put s i ((mq_tab s i)\<lparr>mq_used := False\<rparr>)"
proof (unfold_locales, goal_cases)
  case (5 t k i)
  then show ?case by (simp add: psx_mq_lookup_def first_idx_Some_iff)
next
  case (6 t k i)
  then show ?case by (auto simp: psx_mq_lookup_def first_idx_None_iff)
next
  case (8 t k a i t')
  have "cstr (take 63 k) = cstr k" if "length (cstr k) < 64"
  proof (cases "length (cstr k) < 63")
    case True
    then show ?thesis by (rule takeWhile_take)
  next
    case False
    with that have "length (cstr k) = 63" by simp
    then have "take 63 k = cstr k" using takeWhile_eq_take [of "\<lambda>c. c \<noteq> 0" k] by simp
    then show ?thesis by (simp only: takeWhile_idem)
  qed
  with 8 show ?case
    by (auto simp: psx_mq_create_def Let_def psx_mq_strcmp_zero_iff psx_mq_strncpy_take split: option.splits)
next
  case (10 t k a)
  then show ?case
    by (auto simp: psx_mq_create_def first_idx_None_iff first_idx_Some_iff Let_def split: option.splits)
qed (auto simp: psx_mq_create_def psx_mq_strcmp_zero_iff first_idx_Some_iff Let_def split: option.splits)

interpretation mq_sender: poller "mq_send_round q msg len prio (Some ts)"
  "\<lambda>s. psx_mq_deadline_reached s ts" for q msg len prio ts
  by unfold_locales (auto simp: mq_send_round_def split: sum.split)

interpretation mq_receiver: poller "mq_recv_round q len (Some ts)"
  "\<lambda>s. psx_mq_deadline_reached s ts" for q len ts
  by unfold_locales (auto simp: mq_recv_round_def split: sum.split)

section \<open>Queues as lists in order of arrival\<close>

text \<open>
  What a queue promises: messages of the highest priority first, and in order of arrival
  within a priority. The abstract queue is the list of messages in order of arrival.
\<close>

definition mq_spec_send :: "(u32 \<times> u8 list) list \<Rightarrow> u32 \<times> u8 list \<Rightarrow> (u32 \<times> u8 list) list" where
  "mq_spec_send xs m = xs @ [m]"

definition mq_spec_recv :: "(u32 \<times> u8 list) list \<Rightarrow> ((u32 \<times> u8 list) list \<times> u32 \<times> u8 list) option" where
  "mq_spec_recv xs =
     (if xs = [] then None
      else let top = Max (fst ` set xs);
               pre = takeWhile (\<lambda>m. fst m \<noteq> top) xs;
               rest = dropWhile (\<lambda>m. fst m \<noteq> top) xs
           in Some (pre @ tl rest, hd rest))"

text \<open>The slots of a queue in order of their sequence numbers, and what they hold.\<close>

definition mq_order :: "psx_mq \<Rightarrow> nat list" where
  "mq_order mq = sort_key (\<lambda>i. unat (mm_seq (mq_msgs mq i))) (filter (\<lambda>i. mm_used (mq_msgs mq i)) [0..<PSX_MQ_SLOTS])"

definition mm_content :: "mq_msg \<Rightarrow> u32 \<times> u8 list" where
  "mm_content m = (mm_prio m, bytes (mm_data m) (unat (mm_len m)))"

definition mq_abs :: "psx_mq \<Rightarrow> (u32 \<times> u8 list) list" where
  "mq_abs mq = map (\<lambda>i. mm_content (mq_msgs mq i)) (mq_order mq)"

text \<open>
  Sequence numbers are distinct and below the next one, the count is right and within the
  limits, and no message is longer than the queue allows.
\<close>

definition mq_inv :: "psx_mq \<Rightarrow> bool" where
  "mq_inv mq \<longleftrightarrow>
     (\<forall>i<PSX_MQ_SLOTS. \<forall>j<PSX_MQ_SLOTS. mm_used (mq_msgs mq i) \<longrightarrow> mm_used (mq_msgs mq j) \<longrightarrow>
        mm_seq (mq_msgs mq i) = mm_seq (mq_msgs mq j) \<longrightarrow> i = j) \<and>
     (\<forall>i<PSX_MQ_SLOTS. mm_used (mq_msgs mq i) \<longrightarrow> mm_seq (mq_msgs mq i) < mq_next_seq mq \<and>
        mm_len (mq_msgs mq i) \<le> mq_msgsize mq) \<and>
     unat (mq_curmsgs mq) = card {i. i < PSX_MQ_SLOTS \<and> mm_used (mq_msgs mq i)} \<and>
     mq_maxmsg mq \<le> 8 \<and> mq_msgsize mq \<le> 1024"

lemma mq_inv_D:
  assumes "mq_inv mq"
  shows "\<And>i j. i < 8 \<Longrightarrow> j < 8 \<Longrightarrow> mm_used (mq_msgs mq i) \<Longrightarrow> mm_used (mq_msgs mq j) \<Longrightarrow>
      mm_seq (mq_msgs mq i) = mm_seq (mq_msgs mq j) \<Longrightarrow> i = j"
    and "\<And>i. i < 8 \<Longrightarrow> mm_used (mq_msgs mq i) \<Longrightarrow> mm_seq (mq_msgs mq i) < mq_next_seq mq"
    and "unat (mq_curmsgs mq) = card {i. i < 8 \<and> mm_used (mq_msgs mq i)}"
    and "mq_maxmsg mq \<le> 8" and "mq_msgsize mq \<le> 1024"
  using assms unfolding mq_inv_def by blast+

lemma set_mq_order: "set (mq_order mq) = {i. i < 8 \<and> mm_used (mq_msgs mq i)}"
  by (auto simp: mq_order_def)

lemma length_mq_order: "length (mq_order mq) = card {i. i < 8 \<and> mm_used (mq_msgs mq i)}"
proof -
  have "distinct (mq_order mq)" by (simp add: mq_order_def)
  then show ?thesis using distinct_card [of "mq_order mq"] by (simp add: set_mq_order)
qed

lemma sorted_mq_order: "sorted (map (\<lambda>i. unat (mm_seq (mq_msgs mq i))) (mq_order mq))"
  by (simp add: mq_order_def)

text \<open>A list sorted by an injective key is determined by its elements.\<close>

lemma sorted_key_unique:
  fixes f :: "'a \<Rightarrow> nat"
  assumes "sorted (map f xs)" "distinct xs" "sorted (map f ys)" "distinct ys" "set xs = set ys"
    "inj_on f (set xs)"
  shows "xs = ys"
proof -
  have "map f xs = map f ys"
    by (rule sorted_distinct_set_unique) (use assms in \<open>simp_all add: distinct_map\<close>)
  then show ?thesis
    by (rule map_inj_on) (use assms in auto)
qed

lemma mq_inv_inj:
  assumes "mq_inv mq"
  shows "inj_on (\<lambda>i. unat (mm_seq (mq_msgs mq i))) (set (mq_order mq))"
  using mq_inv_D(1) [OF assms] by (auto simp: inj_on_def set_mq_order word_unat_eq_iff [symmetric])

lemma mq_order_unique:
  assumes "mq_inv mq" "sorted (map (\<lambda>i. unat (mm_seq (mq_msgs mq i))) xs)" "distinct xs"
    "set xs = {i. i < 8 \<and> mm_used (mq_msgs mq i)}"
  shows "mq_order mq = xs"
  using sorted_mq_order [of mq] assms mq_inv_inj [OF assms(1)]
  by (intro sorted_key_unique [where f = "\<lambda>i. unat (mm_seq (mq_msgs mq i))"])
    (auto simp: set_mq_order mq_order_def)

section \<open>The scan finds the oldest message of the highest priority\<close>

definition mq_le :: "psx_mq \<Rightarrow> nat \<Rightarrow> nat \<Rightarrow> bool" where
  "mq_le mq j b \<longleftrightarrow> mm_prio (mq_msgs mq j) < mm_prio (mq_msgs mq b) \<or>
     mm_prio (mq_msgs mq j) = mm_prio (mq_msgs mq b) \<and> mm_seq (mq_msgs mq b) \<le> mm_seq (mq_msgs mq j)"

lemma mq_le_trans: "mq_le mq i j \<Longrightarrow> mq_le mq j k \<Longrightarrow> mq_le mq i k"
  by (auto simp: mq_le_def)

lemma mq_le_refl [simp]: "mq_le mq i i"
  by (simp add: mq_le_def)

lemma mq_le_total: "mq_le mq i j \<or> mq_le mq j i"
  by (auto simp: mq_le_def)

lemma psx_mq_scan_Some:
  "\<exists>b'. psx_mq_scan mq is (Some b, mm_prio (mq_msgs mq b), mm_seq (mq_msgs mq b)) =
      (Some b', mm_prio (mq_msgs mq b'), mm_seq (mq_msgs mq b')) \<and>
    (b' = b \<or> b' \<in> set is \<and> mm_used (mq_msgs mq b')) \<and> mq_le mq b b' \<and>
    (\<forall>j\<in>set is. mm_used (mq_msgs mq j) \<longrightarrow> mq_le mq j b')"
proof (induction "is" arbitrary: b)
  case (Cons i "is")
  show ?case
  proof (cases "mm_used (mq_msgs mq i) \<and> (mm_prio (mq_msgs mq i) > mm_prio (mq_msgs mq b) \<or>
      mm_prio (mq_msgs mq i) = mm_prio (mq_msgs mq b) \<and> mm_seq (mq_msgs mq i) < mm_seq (mq_msgs mq b))")
    case True
    then have "mq_le mq b i" by (auto simp: mq_le_def)
    moreover have "psx_mq_scan mq (i # is) (Some b, mm_prio (mq_msgs mq b), mm_seq (mq_msgs mq b)) =
        psx_mq_scan mq is (Some i, mm_prio (mq_msgs mq i), mm_seq (mq_msgs mq i))"
      using True by (auto simp: Let_def)
    ultimately show ?thesis
      using True Cons.IH [of i] mq_le_trans [of mq b i] by auto
  next
    case False
    then have "mm_used (mq_msgs mq i) \<Longrightarrow> mq_le mq i b" by (auto simp: mq_le_def not_less)
    moreover have "psx_mq_scan mq (i # is) (Some b, mm_prio (mq_msgs mq b), mm_seq (mq_msgs mq b)) =
        psx_mq_scan mq is (Some b, mm_prio (mq_msgs mq b), mm_seq (mq_msgs mq b))"
      using False by (auto simp: Let_def)
    ultimately show ?thesis
      using Cons.IH [of b] mq_le_trans [of mq i b] by auto
  qed
qed simp

lemma psx_mq_scan_best:
  assumes "\<And>i. i \<in> set is \<Longrightarrow> mm_used (mq_msgs mq i) \<Longrightarrow> mm_seq (mq_msgs mq i) < 0xFFFFFFFF"
  shows "case fst (psx_mq_scan mq is (None, 0, 0xFFFFFFFF)) of
      None \<Rightarrow> \<forall>i\<in>set is. \<not> mm_used (mq_msgs mq i)
    | Some b \<Rightarrow> b \<in> set is \<and> mm_used (mq_msgs mq b) \<and>
        (\<forall>j\<in>set is. mm_used (mq_msgs mq j) \<longrightarrow> mq_le mq j b)"
  using assms
proof (induction "is")
  case (Cons i "is")
  show ?case
  proof (cases "mm_used (mq_msgs mq i)")
    case True
    then have "mm_prio (mq_msgs mq i) > 0 \<or> mm_prio (mq_msgs mq i) = 0 \<and> mm_seq (mq_msgs mq i) < 0xFFFFFFFF"
      using Cons.prems by (auto simp: word_gt_0)
    then have "psx_mq_scan mq (i # is) (None, 0, 0xFFFFFFFF) =
        psx_mq_scan mq is (Some i, mm_prio (mq_msgs mq i), mm_seq (mq_msgs mq i))"
      using True by (simp add: Let_def)
    then show ?thesis using psx_mq_scan_Some [of mq "is" i] True by auto
  next
    case False
    then have "psx_mq_scan mq (i # is) (None, 0, 0xFFFFFFFF) = psx_mq_scan mq is (None, 0, 0xFFFFFFFF)"
      by (simp add: Let_def)
    then show ?thesis using Cons False by (auto split: option.splits)
  qed
qed simp

section \<open>Refinement\<close>

lemma unat_curmsgs:
  assumes "mq_inv mq"
  shows "unat (mq_curmsgs mq) = length (mq_abs mq)"
  using mq_inv_D(3) [OF assms] by (simp add: mq_abs_def length_mq_order)

text \<open>A new message in a free slot comes last.\<close>

lemma mq_order_fill:
  assumes inv: "mq_inv mq" "mq_inv mq'" and i: "i < 8" "\<not> mm_used (mq_msgs mq i)"
    and m: "mq_msgs mq' = (mq_msgs mq)(i := m)" "mm_used m" "mm_seq m = mq_next_seq mq"
  shows "mq_order mq' = mq_order mq @ [i]"
proof (rule mq_order_unique [OF inv(2)])
  let ?f = "\<lambda>j. unat (mm_seq (mq_msgs mq' j))"
  have ni: "j \<noteq> i" if "j \<in> set (mq_order mq)" for j using that i(2) by (auto simp: set_mq_order)
  have same: "map ?f (mq_order mq) = map (\<lambda>j. unat (mm_seq (mq_msgs mq j))) (mq_order mq)"
    using ni m(1) by simp
  have "unat (mm_seq (mq_msgs mq j)) \<le> unat (mq_next_seq mq)" if "j \<in> set (mq_order mq)" for j
    using mq_inv_D(2) [OF inv(1)] that by (fastforce simp: set_mq_order word_less_nat_alt)
  then show "sorted (map ?f (mq_order mq @ [i]))"
    unfolding map_append sorted_append same using sorted_mq_order [of mq] m by auto
  show "distinct (mq_order mq @ [i])" using ni by (auto simp: mq_order_def)
  show "set (mq_order mq @ [i]) = {j. j < 8 \<and> mm_used (mq_msgs mq' j)}"
    using i m by (auto simp: set_mq_order)
qed

lemma mq_inv_fill:
  assumes inv: "mq_inv mq" and seq: "unat (mq_next_seq mq) + 1 < 2 ^ 32"
    and i: "i < 8" "\<not> mm_used (mq_msgs mq i)" and len: "unat len \<le> unat (mq_msgsize mq)"
  shows "mq_inv (mq\<lparr>mq_msgs := (mq_msgs mq)(i := \<lparr>mm_used = True, mm_seq = mq_next_seq mq,
              mm_prio = prio, mm_len = ucast (len::u64), mm_data = d\<rparr>),
            mq_next_seq := mq_next_seq mq + 1, mq_curmsgs := mq_curmsgs mq + 1\<rparr>)"
proof -
  have nx: "unat (mq_next_seq mq + 1) = unat (mq_next_seq mq) + 1"
    using seq by (simp add: unat_word_ariths)
  have lt: "mm_seq (mq_msgs mq j) < mq_next_seq mq" if "j < 8" "mm_used (mq_msgs mq j)" for j
    using mq_inv_D(2) [OF inv that] .
  have sz: "unat (mq_msgsize mq) \<le> 1024" using mq_inv_D(5) [OF inv] by (simp add: word_le_nat_alt)
  then have "unat (ucast len :: u32) = unat len" using len by (intro unat_ucast_small) simp
  then have l: "ucast len \<le> mq_msgsize mq" using len by (simp add: word_le_nat_alt)
  have "{j. j < 8 \<and> (j = i \<or> mm_used (mq_msgs mq j))} = insert i {j. j < 8 \<and> mm_used (mq_msgs mq j)}"
    using i by auto
  then have card: "card {j. j < 8 \<and> (j = i \<or> mm_used (mq_msgs mq j))} =
      Suc (card {j. j < 8 \<and> mm_used (mq_msgs mq j)})"
    using i by simp
  have "card {j. j < 8 \<and> mm_used (mq_msgs mq j)} \<le> 8" by (rule card_slots_le)
  then have cur: "unat (mq_curmsgs mq + 1) = Suc (card {j. j < 8 \<and> mm_used (mq_msgs mq j)})"
    using mq_inv_D(3) [OF inv] by (simp add: unat_word_ariths)
  have s1: "x < mq_next_seq mq \<Longrightarrow> x < mq_next_seq mq + 1" "mq_next_seq mq < mq_next_seq mq + 1" for x
    using nx by (auto simp: word_less_nat_alt)
  show ?thesis
    unfolding mq_inv_def
  proof (intro conjI, goal_cases)
    case 1
    have ne: "mm_seq (mq_msgs mq j) = mq_next_seq mq \<Longrightarrow> j < 8 \<Longrightarrow> mm_used (mq_msgs mq j) \<Longrightarrow> False"
      "mq_next_seq mq = mm_seq (mq_msgs mq j) \<Longrightarrow> j < 8 \<Longrightarrow> mm_used (mq_msgs mq j) \<Longrightarrow> False" for j
      using lt [of j] by auto
    show ?case using mq_inv_D(1) [OF inv] by (auto split: if_splits dest: ne)
  next
    case 2
    then show ?case using inv lt l s1 by (auto simp: mq_inv_def)
  next
    case 3
    have "{j. j < 8 \<and> (j = i \<or> mm_used (mq_msgs mq j))} =
        {j. j < 8 \<and> mm_used (if j = i then \<lparr>mm_used = True, mm_seq = mq_next_seq mq,
              mm_prio = prio, mm_len = ucast (len::u64), mm_data = d\<rparr> else mq_msgs mq j)}"
      by auto
    with card cur show ?case by simp
  qed (use inv in \<open>auto simp: mq_inv_def\<close>)
qed

text \<open>The messages without their order: also when sequence numbers repeat.\<close>

lemma mset_mq_abs: "mset (mq_abs mq) = image_mset (\<lambda>i. mm_content (mq_msgs mq i)) (mset_set {i. i < 8 \<and> mm_used (mq_msgs mq i)})"
proof -
  have "mset (mq_order mq) = mset_set (set (mq_order mq))" by (rule mset_set_set [symmetric]) (simp add: mq_order_def)
  then show ?thesis by (simp add: mq_abs_def set_mq_order)
qed

lemma mset_mq_abs_fill:
  assumes "i < 8" "\<not> mm_used (mq_msgs mq i)" "mm_used m"
  shows "mset (mq_abs (mq\<lparr>mq_msgs := (mq_msgs mq)(i := m), mq_next_seq := n, mq_curmsgs := c\<rparr>)) =
    add_mset (mm_content m) (mset (mq_abs mq))"
proof -
  let ?S = "{j. j < 8 \<and> mm_used (mq_msgs mq j)}"
  have "{j. j < 8 \<and> mm_used (((mq_msgs mq)(i := m)) j)} = insert i ?S" using assms by auto
  moreover have "i \<notin> ?S" "finite ?S" using assms(2) by auto
  moreover have "image_mset (\<lambda>j. mm_content (((mq_msgs mq)(i := m)) j)) (mset_set ?S) =
      image_mset (\<lambda>j. mm_content (mq_msgs mq j)) (mset_set ?S)"
    by (rule image_mset_cong) (use \<open>i \<notin> ?S\<close> in auto)
  ultimately show ?thesis by (simp add: mset_mq_abs)
qed

text \<open>C11: \<open>mq_send\<close> succeeds iff the message fits and the queue has room, and then the messages of the queue are the
  old ones and the new one; EMSGSIZE and EAGAIN mean that it is too long or the queue is full. While the 32-bit sequence
  counter has not reached its last value, the new message is the last of the list of messages in order of arrival, and
  the queue stays well-formed.\<close>

theorem mq_send_refines:
  assumes "mq_inv mq"
  shows "case psx_mq_send_locked mq msg len prio of
      Inr mq' \<Rightarrow> unat len \<le> unat (mq_msgsize mq) \<and> length (mq_abs mq) < unat (mq_maxmsg mq) \<and>
        mset (mq_abs mq') = add_mset (prio, bytes msg (unat len)) (mset (mq_abs mq)) \<and>
        (mq_next_seq mq \<noteq> 0xFFFFFFFF \<longrightarrow>
          mq_abs mq' = mq_spec_send (mq_abs mq) (prio, bytes msg (unat len)) \<and> mq_inv mq')
    | Inl e \<Rightarrow> e = EMSGSIZE \<and> unat (mq_msgsize mq) < unat len \<or>
        e = EAGAIN \<and> length (mq_abs mq) \<ge> unat (mq_maxmsg mq)"
proof (cases "psx_mq_send_locked mq msg len prio")
  case (Inr mq')
  then have len: "unat len \<le> unat (mq_msgsize mq)"
    by (auto simp: psx_mq_send_locked_def word_less_nat_alt not_less split: if_splits)
  have room: "mq_curmsgs mq < mq_maxmsg mq"
    using Inr by (auto simp: psx_mq_send_locked_def not_le split: if_splits)
  obtain i where i: "first_idx (\<lambda>i. \<not> mm_used (mq_msgs mq i)) 8 = Some i"
    using Inr by (auto simp: psx_mq_send_locked_def split: if_splits option.splits)
  then have i': "i < 8" "\<not> mm_used (mq_msgs mq i)" by (auto simp: first_idx_Some_iff)
  let ?m = "\<lparr>mm_used = True, mm_seq = mq_next_seq mq, mm_prio = prio, mm_len = ucast len,
      mm_data = memcpy (mm_data (mq_msgs mq i)) msg (unat len)\<rparr>"
  have mq': "mq' = mq\<lparr>mq_msgs := (mq_msgs mq)(i := ?m), mq_next_seq := mq_next_seq mq + 1,
      mq_curmsgs := mq_curmsgs mq + 1\<rparr>"
    using Inr i by (auto simp: psx_mq_send_locked_def split: if_splits)
  have "unat (mq_msgsize mq) \<le> 1024" using mq_inv_D(5) [OF assms] by (simp add: word_le_nat_alt)
  then have "unat (ucast len :: u32) = unat len" using len by (intro unat_ucast_small) simp
  then have m: "mm_content ?m = (prio, bytes msg (unat len))" by (simp add: mm_content_def)
  have bag: "mset (mq_abs mq') = add_mset (prio, bytes msg (unat len)) (mset (mq_abs mq))"
    unfolding mq' m [symmetric] by (rule mset_mq_abs_fill [OF i']) simp
  have list: "mq_abs mq' = mq_abs mq @ [(prio, bytes msg (unat len))] \<and> mq_inv mq'" if "mq_next_seq mq \<noteq> 0xFFFFFFFF"
  proof -
    have "unat (mq_next_seq mq) \<noteq> 0xFFFFFFFF" using that by (simp add: word_unat_eq_iff)
    then have seq: "unat (mq_next_seq mq) + 1 < 2 ^ 32" using unat_less_32 [of "mq_next_seq mq"] by simp
    have inv: "mq_inv mq'" unfolding mq' by (rule mq_inv_fill [OF assms seq i' len])
    have ord: "mq_order mq' = mq_order mq @ [i]"
      by (rule mq_order_fill [OF assms inv i', of ?m]) (simp_all add: mq')
    show ?thesis using i' m inv unfolding mq_abs_def ord by (auto simp: mq' set_mq_order)
  qed
  show ?thesis
    using Inr bag list len room by (simp add: mq_spec_send_def unat_curmsgs [OF assms, symmetric] word_less_nat_alt)
next
  case (Inl e)
  show ?thesis
  proof (cases "first_idx (\<lambda>i. \<not> mm_used (mq_msgs mq i)) 8")
    case None
    then have "{i. i < 8 \<and> mm_used (mq_msgs mq i)} = {..<8}" by (auto simp: first_idx_None_iff)
    then have "unat (mq_curmsgs mq) = 8" using mq_inv_D(3) [OF assms] by simp
    moreover have "unat (mq_maxmsg mq) \<le> 8" using mq_inv_D(4) [OF assms] by (simp add: word_le_nat_alt)
    ultimately have "length (mq_abs mq) \<ge> unat (mq_maxmsg mq)" using unat_curmsgs [OF assms] by simp
    then show ?thesis using Inl None by (auto simp: psx_mq_send_locked_def word_less_nat_alt split: if_splits)
  next
    case (Some i)
    then show ?thesis using Inl unat_curmsgs [OF assms]
      by (auto simp: psx_mq_send_locked_def word_less_nat_alt word_le_nat_alt split: if_splits)
  qed
qed

abbreviation (input) "ex_mq \<equiv> mq_tab (snd (the (psx_mq_create
  \<lparr>mq_tab = (\<lambda>_. zero_mq), mq_ctx = undefined, mq_clock = undefined\<rparr> [0x2f, 0x61] None))) 0"

lemma ex_mq_eq: "ex_mq = \<lparr>mq_used = True, mq_maxmsg = 8, mq_msgsize = 1024, mq_curmsgs = 0, mq_flags = 0,
    mq_next_seq = 0, mq_name = [0x2f, 0x61], mq_msgs = (\<lambda>_. zero_mq_msg), mq_notify_signo = 0,
    mq_notify_notify = 0\<rparr>"
proof -
  have "first_idx (\<lambda>i::nat. True) 64 = Some 0" by (simp add: first_idx_Some_iff)
  then show ?thesis by (simp add: psx_mq_create_def zero_mq_def Let_def)
qed

lemma mq_send_refines_witness:
  "case psx_mq_send_locked ex_mq (\<lambda>_. 0x42) 3 7 of
      Inr mq' \<Rightarrow> unat (3::u64) \<le> unat (mq_msgsize ex_mq) \<and> length (mq_abs ex_mq) < unat (mq_maxmsg ex_mq) \<and>
        mset (mq_abs mq') = add_mset (7, bytes (\<lambda>_. 0x42) (unat (3::u64))) (mset (mq_abs ex_mq)) \<and>
        (mq_next_seq ex_mq \<noteq> 0xFFFFFFFF \<longrightarrow>
          mq_abs mq' = mq_spec_send (mq_abs ex_mq) (7, bytes (\<lambda>_. 0x42) (unat (3::u64))) \<and> mq_inv mq')
    | Inl e \<Rightarrow> e = EMSGSIZE \<and> unat (mq_msgsize ex_mq) < unat (3::u64) \<or>
        e = EAGAIN \<and> length (mq_abs ex_mq) \<ge> unat (mq_maxmsg ex_mq)"
  by (rule mq_send_refines) (unfold ex_mq_eq, simp add: mq_inv_def zero_mq_msg_def)

text \<open>When the counter wraps, the second of two messages of one priority is received first, and a message of priority 0 that
  has the last number is not received at all.\<close>

abbreviation (input) "ex_mq_late \<equiv> zero_mq\<lparr>mq_used := True, mq_maxmsg := 8, mq_msgsize := 16, mq_next_seq := 0xFFFFFFFF\<rparr>"
abbreviation (input) "ex_send \<equiv> (\<lambda>c prio mq. case psx_mq_send_locked mq (\<lambda>_. c) 1 prio of Inr mq' \<Rightarrow> mq' | Inl _ \<Rightarrow> mq)"

lemma mq_seq_wraps:
  "(case psx_mq_recv_locked (ex_send 2 5 (ex_send 1 5 ex_mq_late)) 16 of Inr (_, m) \<Rightarrow> m = (5, [2]) | Inl _ \<Rightarrow> False)"
  "(case psx_mq_recv_locked (ex_send 1 0 ex_mq_late) 16 of Inr _ \<Rightarrow> False | Inl e \<Rightarrow> e = EAGAIN)"
  by code_simp+

lemma mq_inv_remove:
  assumes inv: "mq_inv mq" and b: "b < 8" "mm_used (mq_msgs mq b)"
  shows "mq_inv (mq\<lparr>mq_msgs := (mq_msgs mq)(b := (mq_msgs mq b)\<lparr>mm_used := False\<rparr>),
           mq_curmsgs := mq_curmsgs mq - 1\<rparr>)"
proof -
  let ?S = "{i. i < 8 \<and> mm_used (mq_msgs mq i)}"
  have mem: "b \<in> ?S" "finite ?S" using b by auto
  then have pos: "card ?S > 0" by (auto simp: card_gt_0_iff)
  have S: "{i. i < 8 \<and> mm_used (((mq_msgs mq)(b := (mq_msgs mq b)\<lparr>mm_used := False\<rparr>)) i)} = ?S - {b}"
    by auto
  have card: "card (?S - {b}) = card ?S - 1" using mem(1) by (rule card_Diff_singleton)
  have "unat (mq_curmsgs mq - 1) = unat (mq_curmsgs mq) - 1"
    using pos mq_inv_D(3) [OF inv] by (simp add: unat_sub word_le_nat_alt)
  then have cnt: "unat (mq_curmsgs mq - 1) = card (?S - {b})"
    unfolding card using mq_inv_D(3) [OF inv] by simp
  show ?thesis
    unfolding mq_inv_def
  proof (intro conjI, goal_cases)
    case 1
    then show ?case using mq_inv_D(1) [OF inv] by (auto split: if_splits)
  next
    case 3
    then show ?case using S cnt by simp
  qed (use inv in \<open>auto simp: mq_inv_def\<close>)
qed

lemma mq_order_remove:
  assumes inv: "mq_inv mq" and ord: "mq_order mq = ps @ b # qs" and inv': "mq_inv mq'"
    and m: "mq_msgs mq' = (mq_msgs mq)(b := (mq_msgs mq b)\<lparr>mm_used := False\<rparr>)"
  shows "mq_order mq' = ps @ qs"
proof (rule mq_order_unique [OF inv'])
  have d: "distinct (ps @ b # qs)" unfolding ord [symmetric] by (simp add: mq_order_def)
  have f: "map (\<lambda>i. unat (mm_seq (mq_msgs mq' i))) (ps @ qs) = map (\<lambda>i. unat (mm_seq (mq_msgs mq i))) (ps @ qs)"
    using d m by auto
  show "sorted (map (\<lambda>i. unat (mm_seq (mq_msgs mq' i))) (ps @ qs))"
    unfolding f using sorted_mq_order [of mq] unfolding ord by (simp add: sorted_append)
  show "distinct (ps @ qs)" using d by simp
  show "set (ps @ qs) = {i. i < 8 \<and> mm_used (mq_msgs mq' i)}"
    using set_mq_order [of mq] d unfolding ord m by auto
qed

lemma mq_spec_recv_split:
  assumes "\<forall>x\<in>set ps. fst x < fst m" "\<forall>x\<in>set qs. fst x \<le> fst m"
  shows "mq_spec_recv (ps @ m # qs) = Some (ps @ qs, m)"
proof -
  have "Max (fst ` set (ps @ m # qs)) = fst m"
    using assms by (intro Max_eqI) (auto intro: less_imp_le)
  moreover have "takeWhile (\<lambda>x. fst x \<noteq> fst m) (ps @ m # qs) = ps"
    "dropWhile (\<lambda>x. fst x \<noteq> fst m) (ps @ m # qs) = m # qs"
    using assms(1) by (subst takeWhile_append2 dropWhile_append2; force)+
  ultimately show ?thesis by (simp add: mq_spec_recv_def Let_def)
qed

lemma mq_scan_finds:
  assumes "mq_inv mq" "mq_order mq \<noteq> []"
  obtains b where "fst (psx_mq_scan mq [0..<8] (None, 0, 0xFFFFFFFF)) = Some b" "b < 8"
    "mm_used (mq_msgs mq b)" "\<forall>j<8. mm_used (mq_msgs mq j) \<longrightarrow> mq_le mq j b"
proof -
  have small: "mm_seq (mq_msgs mq i) < 0xFFFFFFFF" if "i \<in> set [0..<8]" "mm_used (mq_msgs mq i)" for i
  proof -
    have "mm_seq (mq_msgs mq i) < mq_next_seq mq" using mq_inv_D(2) [OF assms(1)] that by simp
    moreover have "unat (mq_next_seq mq) < 2 ^ 32" using unsigned_less [of "mq_next_seq mq"] by simp
    ultimately have "unat (mm_seq (mq_msgs mq i)) < 4294967295" by (simp add: word_less_nat_alt)
    then show ?thesis by (simp add: word_less_nat_alt)
  qed
  show thesis
  proof (cases "fst (psx_mq_scan mq [0..<8] (None, 0, 0xFFFFFFFF))")
    case None
    then have "\<forall>i<8. \<not> mm_used (mq_msgs mq i)"
      using psx_mq_scan_best [of "[0..<8]" mq, OF small] by auto
    then have "set (mq_order mq) = {}" unfolding set_mq_order by blast
    then show thesis using assms(2) by simp
  next
    case (Some b)
    then show thesis using that psx_mq_scan_best [of "[0..<8]" mq, OF small] by auto
  qed
qed

text \<open>Freeing the slot that the scan finds takes the first message of the highest priority out of the list.\<close>

lemma mq_take_best:
  assumes "mq_inv mq" and b: "b < 8" "mm_used (mq_msgs mq b)" "\<forall>j<8. mm_used (mq_msgs mq j) \<longrightarrow> mq_le mq j b"
    and mq': "mq' = mq\<lparr>mq_msgs := (mq_msgs mq)(b := (mq_msgs mq b)\<lparr>mm_used := False\<rparr>), mq_curmsgs := mq_curmsgs mq - 1\<rparr>"
  shows "mq_inv mq'" "mq_spec_recv (mq_abs mq) = Some (mq_abs mq', mm_content (mq_msgs mq b))"
proof -
  show inv': "mq_inv mq'" unfolding mq' by (rule mq_inv_remove [OF assms(1) b(1,2)])
  have "b \<in> set (mq_order mq)" using b by (simp add: set_mq_order)
  then obtain ps qs where ord: "mq_order mq = ps @ b # qs" using split_list by metis
  have d: "b \<notin> set ps \<union> set qs" using ord by (metis UnE distinct_sort mq_order_def distinct_filter
        distinct_upt not_distinct_conv_prefix distinct.simps(2) distinct_append disjoint_iff list.set_intros(1))
  have sub: "j < 8 \<and> mm_used (mq_msgs mq j)" if "j \<in> set ps \<union> set qs" for j
    using that set_mq_order [of mq] unfolding ord by auto
  have ps: "mm_prio (mq_msgs mq j) < mm_prio (mq_msgs mq b)" if "j \<in> set ps" for j
  proof -
    have "unat (mm_seq (mq_msgs mq j)) \<le> unat (mm_seq (mq_msgs mq b))"
      using sorted_mq_order [of mq] that unfolding ord by (simp add: sorted_append)
    moreover have "mm_seq (mq_msgs mq j) \<noteq> mm_seq (mq_msgs mq b)"
      using mq_inv_D(1) [OF assms(1), of j b] sub [of j] that b d by auto
    ultimately have "mm_seq (mq_msgs mq j) < mm_seq (mq_msgs mq b)"
      by (simp add: word_less_nat_alt word_unat_eq_iff)
    then show ?thesis using b(3) sub [of j] that by (auto simp: mq_le_def)
  qed
  have qs: "mm_prio (mq_msgs mq j) \<le> mm_prio (mq_msgs mq b)" if "j \<in> set qs" for j
    using b(3) sub [of j] that by (auto simp: mq_le_def)
  have ord': "mq_order mq' = ps @ qs"
    by (rule mq_order_remove [OF assms(1) ord inv']) (simp add: mq')
  have abs': "mq_abs mq' = map (\<lambda>i. mm_content (mq_msgs mq i)) (ps @ qs)"
    unfolding mq_abs_def ord' using d by (auto simp: mq')
  show "mq_spec_recv (mq_abs mq) = Some (mq_abs mq', mm_content (mq_msgs mq b))"
    unfolding abs' unfolding mq_abs_def ord map_append list.map
    by (rule mq_spec_recv_split) (use ps qs in \<open>auto simp: mm_content_def\<close>)
qed

text \<open>C10: \<open>mq_receive\<close> implements the specification: it takes the oldest message of the highest
  priority out of the list and leaves the others in order; EAGAIN means that the queue is
  empty, EMSGSIZE that the buffer is smaller than the queue's message size.\<close>

theorem mq_recv_refines:
  assumes "mq_inv mq"
  shows "case psx_mq_recv_locked mq len of
      Inr (mq', m) \<Rightarrow> mq_spec_recv (mq_abs mq) = Some (mq_abs mq', m) \<and> mq_inv mq' \<and>
        unat (mq_msgsize mq) \<le> unat len
    | Inl e \<Rightarrow> e = EAGAIN \<and> mq_abs mq = [] \<or>
        e = EMSGSIZE \<and> mq_abs mq \<noteq> [] \<and> unat len < unat (mq_msgsize mq)"
proof (cases "mq_abs mq = []")
  case True
  then have "mq_curmsgs mq = 0" using unat_curmsgs [OF assms] by (simp add: unat_eq_0)
  then show ?thesis using True by (simp add: psx_mq_recv_locked_def)
next
  case False
  then have ne: "mq_curmsgs mq \<noteq> 0" "mq_order mq \<noteq> []"
    using unat_curmsgs [OF assms] by (auto simp: mq_abs_def)
  obtain b where b: "fst (psx_mq_scan mq [0..<8] (None, 0, 0xFFFFFFFF)) = Some b" "b < 8"
    "mm_used (mq_msgs mq b)" "\<forall>j<8. mm_used (mq_msgs mq j) \<longrightarrow> mq_le mq j b"
    by (rule mq_scan_finds [OF assms ne(2)])
  show ?thesis
  proof (cases "len < ucast (mq_msgsize mq)")
    case True
    then show ?thesis using b ne False
      by (simp add: psx_mq_recv_locked_def word_less_nat_alt)
  next
    case len: False
    define mq' where "mq' = mq\<lparr>mq_msgs := (mq_msgs mq)(b := (mq_msgs mq b)\<lparr>mm_used := False\<rparr>), mq_curmsgs := mq_curmsgs mq - 1\<rparr>"
    have "psx_mq_recv_locked mq len = Inr (mq', mm_content (mq_msgs mq b))"
      using b(1) ne(1) len by (simp add: psx_mq_recv_locked_def mq'_def mm_content_def Let_def)
    then show ?thesis using mq_take_best [OF assms b(2-4) mq'_def] len by (simp add: word_less_nat_alt not_less mm_content_def)
  qed
qed

lemma ex_mq_inv: "mq_inv ex_mq"
  unfolding ex_mq_eq by (simp add: mq_inv_def zero_mq_msg_def)

abbreviation (input) "ex_sent prio i mq \<equiv> mq\<lparr>mq_msgs := (mq_msgs mq)(i := \<lparr>mm_used = True,
    mm_seq = mq_next_seq mq, mm_prio = prio, mm_len = ucast (2::u64), mm_data = (\<lambda>_. 0x43)\<rparr>),
  mq_next_seq := mq_next_seq mq + 1, mq_curmsgs := mq_curmsgs mq + 1\<rparr>"

lemma mq_recv_refines_witness:
  "case psx_mq_recv_locked (ex_sent 9 1 (ex_sent 4 0 ex_mq)) 1024 of
      Inr (mq', m) \<Rightarrow> mq_spec_recv (mq_abs (ex_sent 9 1 (ex_sent 4 0 ex_mq))) = Some (mq_abs mq', m) \<and>
        mq_inv mq' \<and> unat (mq_msgsize (ex_sent 9 1 (ex_sent 4 0 ex_mq))) \<le> unat (1024::u64)
    | Inl e \<Rightarrow> e = EAGAIN \<and> mq_abs (ex_sent 9 1 (ex_sent 4 0 ex_mq)) = [] \<or>
        e = EMSGSIZE \<and> mq_abs (ex_sent 9 1 (ex_sent 4 0 ex_mq)) \<noteq> [] \<and>
        unat (1024::u64) < unat (mq_msgsize (ex_sent 9 1 (ex_sent 4 0 ex_mq)))"
proof (rule mq_recv_refines)
  have 1: "mq_inv (ex_sent 4 0 ex_mq)"
    by (rule mq_inv_fill [OF ex_mq_inv]) (simp_all add: ex_mq_eq zero_mq_msg_def)
  show "mq_inv (ex_sent 9 1 (ex_sent 4 0 ex_mq))"
    by (rule mq_inv_fill [OF 1]) (simp_all add: ex_mq_eq zero_mq_msg_def)
qed

text \<open>A timed receive returns by the round in which the clock reaches the timeout, whatever the
  other threads do to the queue, with a message, or with an error that leaves the state as
  the others made it.\<close>

lemma mq_timedreceive_returns:
  assumes "psx_mq_deadline_reached (poll_state env n 0 (fst (psx_mq_from_fd s mqd))) ts"
  shows "\<exists>s' r. sys_mq_timedreceive env (Suc n) s mqd len (Some ts) = Some (s', r) \<and>
    (case r of Inr (p, b) \<Rightarrow> True
     | Inl e \<Rightarrow> e \<in> {EBADF, EMSGSIZE, EAGAIN, ETIMEDOUT} \<and>
         (\<exists>m\<le>n. s' = poll_state env m 0 (fst (psx_mq_from_fd s mqd))))"
proof (cases "psx_mq_from_fd s mqd")
  case (Pair s0 oq)
  show ?thesis
  proof (cases oq)
    case None
    then show ?thesis
      using Pair by (auto simp: sys_mq_timedreceive_def intro: exI [of _ 0])
  next
    case (Some q)
    obtain s' r where sr: "poll_loop (mq_recv_round q len (Some ts)) env (Suc n) 0 s0 = Some (s', r)"
      using mq_receiver.returns_by_deadline [of env n s0 ts q len] assms Pair by auto
    then obtain m where m: "m \<le> n" "mq_recv_round q len (Some ts) (poll_state env m 0 s0) = Some (s', r)"
      unfolding poll_loop_Some_iff by (auto simp: less_Suc_eq_le)
    have e: "psx_mq_recv_locked mq len = Inl e \<Longrightarrow> e \<in> {EAGAIN, EMSGSIZE}" for mq e
      by (auto simp: psx_mq_recv_locked_def Let_def split: if_splits option.splits)
    have "case r of Inr (p, b) \<Rightarrow> True | Inl e \<Rightarrow> e \<in> {EBADF, EMSGSIZE, EAGAIN, ETIMEDOUT} \<and>
        (\<exists>m\<le>n. s' = poll_state env m 0 s0)"
      using m e by (auto simp: mq_recv_round_def split: sum.splits if_splits)
    moreover have "sys_mq_timedreceive env (Suc n) s mqd len (Some ts) = Some (s', r)"
      using sr Pair Some by (simp add: sys_mq_timedreceive_def del: poll_loop.simps)
    ultimately show ?thesis unfolding Pair fst_conv by blast
  qed
qed

section \<open>Opening\<close>

lemma psx_ofd_alloc_Some:
  assumes "pool_ok (ofd_cap c) (ofd_blt c)" "psx_ofd_alloc True c = (c', Some y)"
  shows "\<exists>x od. y = int x \<and> x \<in> blt_free (ofd_blt c 0) \<and> ofd_refcnt od = 1 \<and>
    c' = c\<lparr>ofd_blt := (ofd_blt c)(0 := blt_take (ofd_blt c 0) x), ofd_slots := (ofd_slots c)(int x := od)\<rparr>"
proof -
  let ?x = "Min (blt_free (ofd_blt c 0))"
  note pages = acquire_pages_one [OF assms(1)]
  have ne: "blt_free (ofd_blt c 0) \<noteq> {}"
  proof
    assume "blt_free (ofd_blt c 0) = {}"
    with pages assms(2) show False by (simp add: psx_ofd_alloc_def)
  qed
  define od where "od = (if ofd_hevent (ofd_slots c (int ?x)) then (ofd_slots c (int ?x))\<lparr>ofd_refcnt := 1\<rparr>
    else (ofd_slots c (int ?x))\<lparr>ofd_refcnt := 1, ofd_hevent := True\<rparr>)"
  have "y = int ?x \<and> ofd_refcnt od = 1 \<and>
    c' = c\<lparr>ofd_blt := (ofd_blt c)(0 := blt_take (ofd_blt c 0) ?x), ofd_slots := (ofd_slots c)(int ?x := od)\<rparr>"
    using pages ne assms(2)
    by (cases "ofd_hevent (ofd_slots c (int ?x))") (auto simp: psx_ofd_alloc_def Let_def ofd_upd_def od_def)
  moreover have "?x \<in> blt_free (ofd_blt c 0)" using ne by simp
  ultimately show ?thesis by blast
qed

text \<open>Looking a descriptor up takes and returns a reference, which changes nothing.\<close>

lemma psx_mq_from_fd_valid:
  assumes "0 \<le> f" "f \<le> fd_cap (mq_ctx s)" "\<not> fd_invalid (fd_slots (mq_ctx s) f)"
    "fd_ofdidx (fd_slots (mq_ctx s) f) = x" "ofd_refcnt (ofd_slots (mq_ctx s) x) > 0"
  shows "psx_mq_from_fd s f = (s, case ofd_vfd (ofd_slots (mq_ctx s) x) of Vfd_mq q \<Rightarrow> Some q | _ \<Rightarrow> None)"
  using assms
  by (simp add: psx_mq_from_fd_def psx_ofd_ref_inc_def psx_fd_ref_inc_def psx_fd_ref_dec_def
      psx_ofd_ref_dec_def fd_upd_def ofd_upd_def Let_def)

lemma mq_open_install_Inr:
  assumes "mq_open_install True s q flags = Some (s', Inr f)" "fd_inv (mq_ctx s)"
    "f < fd_cap (mq_ctx s)" "fd_ofdidx (fd_slots (mq_ctx s') f) < ofd_cap (mq_ctx s)"
  shows "fd_inv (mq_ctx s') \<and> psx_mq_from_fd s' f = (s', Some q) \<and> mq_tab s' = mq_tab s \<and>
    fd_invalid (fd_slots (mq_ctx s) f)"
proof -
  define c where "c = mq_ctx s"
  have inv: "fd_inv c" and pool: "pool_ok (ofd_cap c) (ofd_blt c)"
    using assms(2) by (auto simp: c_def fd_inv_def)
  obtain c1 where c1: "psx_fd_alloc c = (c1, Some f)"
    using assms(1) by (auto simp: mq_open_install_def c_def split: prod.splits option.splits)
  define g where "g = Min (blt_free (fd_blt c 0))"
  have g: "blt_free (fd_blt c 0) \<noteq> {}" "f = int g" "c1 = c\<lparr>fd_blt := (fd_blt c)(0 := blt_take (fd_blt c 0) g)\<rparr>"
    using c1 psx_fd_alloc_eq [OF inv] by (auto simp: g_def split: if_splits)
  then have gf: "nat f \<in> blt_free (fd_blt c 0)" "0 \<le> f" by (simp_all add: g_def)
  obtain c2 y where c2: "psx_ofd_alloc True c1 = (c2, Some y)"
    using assms(1) c1 by (auto simp: mq_open_install_def c_def split: prod.splits option.splits)
  from psx_ofd_alloc_Some [OF _ this] pool g(3) obtain x od where x: "y = int x" "x \<in> blt_free (ofd_blt c 0)"
    "ofd_refcnt od = 1"
    "c2 = c1\<lparr>ofd_blt := (ofd_blt c)(0 := blt_take (ofd_blt c 0) x), ofd_slots := (ofd_slots c)(int x := od)\<rparr>"
    by auto
  let ?v = "\<lparr>fd_ofdidx = int x, fd_flags = flags, fd_refcnt = 0, fd_invalid = False\<rparr>"
  let ?od = "od\<lparr>ofd_fdtype := 13, ofd_vfd := Vfd_mq q\<rparr>"
  have s': "s' = s\<lparr>mq_ctx := c2\<lparr>fd_slots := (fd_slots c)(f := ?v), ofd_slots := (ofd_slots c)(int x := ?od)\<rparr>\<rparr>"
    using assms(1) c1 c2 x g(3) by (simp add: mq_open_install_def c_def [symmetric] Let_def fd_upd_def ofd_upd_def)
  have fx: "f < fd_cap c" "int x < ofd_cap c" using assms(3,4) by (auto simp: c_def s')
  have "fd_inv (mq_ctx s')"
    by (rule fd_inv_installed [OF inv gf(2) fx(1) gf(1), of "int x" _ ?v])
      (use x fx g in \<open>simp_all add: s'\<close>)
  moreover have "psx_mq_from_fd s' f = (s', case ofd_vfd (ofd_slots (mq_ctx s') (int x)) of Vfd_mq q \<Rightarrow> Some q | _ \<Rightarrow> None)"
    by (rule psx_mq_from_fd_valid) (use gf fx x g in \<open>simp_all add: s'\<close>)
  moreover have "fd_invalid (fd_slots c f)" using fd_inv_fd(1) [OF inv gf(2) fx(1)] gf(1) by simp
  ultimately show ?thesis by (simp add: s' c_def)
qed

text \<open>A successful \<open>mq_open\<close> returns a descriptor that was not in use and leads to a queue in
  use with the given name (if the name is shorter than 64 bytes, the size of the name field),
  and the descriptor tables stay consistent, as long as the descriptor and its description
  are below the capacities.\<close>

lemma mq_open_correct:
  assumes "sys_mq_open True s (Some nm) flags kattr = Some (s', Inr f)" "fd_inv (mq_ctx s)"
    "f < fd_cap (mq_ctx s)" "fd_ofdidx (fd_slots (mq_ctx s') f) < ofd_cap (mq_ctx s)"
    "length nm < 64"
  shows "fd_inv (mq_ctx s') \<and> fd_invalid (fd_slots (mq_ctx s) f) \<and>
    (\<exists>q. psx_mq_from_fd s' f = (s', Some q) \<and> mq_used (mq_tab s' q) \<and>
       psx_mq_strcmp (mq_name (mq_tab s' q)) nm = 0)"
proof -
  obtain q s1 where q: "mq_open_queue s nm flags kattr = Inr (q, s1)"
    using assms(1) by (auto simp: sys_mq_open_def split: if_splits sum.splits)
  define s2 where "s2 = (if flags AND O_NONBLOCK \<noteq> 0
    then mq_put s1 q ((mq_tab s1 q)\<lparr>mq_flags := mq_flags (mq_tab s1 q) OR O_NONBLOCK\<rparr>) else s1)"
  have inst: "mq_open_install True s2 q flags = Some (s', Inr f)"
    using assms(1) q by (auto simp: sys_mq_open_def s2_def split: if_splits)
  have "length (cstr nm) < 64" using length_takeWhile_le [of "\<lambda>c. c \<noteq> 0" nm] assms(5) by simp
  then have "mq_ctx s1 = mq_ctx s \<and> mq_used (mq_tab s1 q) \<and> psx_mq_strcmp (mq_name (mq_tab s1 q)) nm = 0"
    using q mq_names.lookup_SomeD [of s nm q] mq_names.alloc_SomeD [of s nm kattr q s1]
      mq_names.alloc_key [of s nm kattr q s1]
    by (auto simp: mq_open_queue_def psx_mq_create_def Let_def mq_put_def split: option.splits if_splits)
  then have "mq_ctx s2 = mq_ctx s" "mq_used (mq_tab s2 q)" "psx_mq_strcmp (mq_name (mq_tab s2 q)) nm = 0"
    by (auto simp: s2_def mq_put_def)
  with mq_open_install_Inr [OF inst] assms(2-4) show ?thesis by auto
qed

text \<open>Where numbers are free, the least ones are installed.\<close>

lemma mq_open_install_eq:
  assumes "fd_inv (mq_ctx s)" "blt_free (fd_blt (mq_ctx s) 0) = {n..<32768}"
    "blt_free (ofd_blt (mq_ctx s) 0) = {m..<32768}" "n < 32768" "m < 32768"
  shows "\<exists>s'. mq_open_install True s q flags = Some (s', Inr (int n)) \<and>
    fd_ofdidx (fd_slots (mq_ctx s') (int n)) = int m"
proof -
  define c where "c = mq_ctx s"
  have mn: "Min {n..<32768} = n" "Min {m..<32768} = m" "{n..<32768} \<noteq> {}" "{m..<32768} \<noteq> {}"
    using assms(4,5) by (auto intro!: Min_eqI)
  define c1 where "c1 = c\<lparr>fd_blt := (fd_blt c)(0 := blt_take (fd_blt c 0) n)\<rparr>"
  have c1: "psx_fd_alloc c = (c1, Some (int n))"
    using psx_fd_alloc_eq [of c] assms(1,2) mn(1,3) unfolding c1_def c_def by (simp only: if_False)
  have "acquire_pages (ofd_blt c1) [0..<psx_pages (ofd_cap c1)] =
      ((ofd_blt c)(0 := blt_take (ofd_blt c 0) m), Some (0, m))"
  proof -
    have "pool_ok (ofd_cap c) (ofd_blt c)" using assms(1) by (simp add: fd_inv_def c_def)
    from acquire_pages_one [OF this] show ?thesis
      using assms(3) mn(2,4) by (simp add: c1_def c_def)
  qed
  then obtain c2 where "psx_ofd_alloc True c1 = (c2, Some (int m))"
    by (cases "ofd_hevent (ofd_slots c1 (int m))")
      (auto simp: psx_ofd_alloc_def Let_def ofd_upd_def c1_def)
  with c1 show ?thesis
    by (auto simp: mq_open_install_def c_def [symmetric] Let_def fd_upd_def ofd_upd_def)
qed

definition ex_mqs :: mqs where
  "ex_mqs = \<lparr>mq_tab = (\<lambda>_. zero_mq), mq_ctx = ex_fds, mq_clock = \<lparr>tv_sec = 0, tv_nsec = 0\<rparr>\<rparr>"

definition ex_opened :: mqs where
  "ex_opened = fst (the (sys_mq_open True ex_mqs (Some [0x2f, 0x61]) 0x42 None))"

lemma ex_open:
  "sys_mq_open True ex_mqs (Some [0x2f, 0x61]) 0x42 None = Some (ex_opened, Inr 3)"
  "fd_ofdidx (fd_slots (mq_ctx ex_opened) 3) = 3"
proof -
  have l: "psx_mq_lookup ex_mqs [0x2f, 0x61] = None"
    by (simp add: psx_mq_lookup_def first_idx_None_iff zero_mq_def ex_mqs_def)
  have "\<not> (\<forall>i<64. mq_used (mq_tab ex_mqs i))" by (auto simp: zero_mq_def ex_mqs_def intro!: exI [of _ 0])
  then obtain q s1 where s1: "psx_mq_create ex_mqs [0x2f, 0x61] None = Some (q, s1)"
    using mq_names.alloc_None_iff [of ex_mqs "[0x2f, 0x61]" None] by (cases "psx_mq_create ex_mqs [0x2f, 0x61] None") auto
  then have ctx: "mq_ctx s1 = ex_fds"
    by (auto simp: psx_mq_create_def Let_def mq_put_def ex_mqs_def split: option.splits)
  obtain s' where s': "mq_open_install True s1 q 0x42 = Some (s', Inr (int 3))"
      "fd_ofdidx (fd_slots (mq_ctx s') (int 3)) = int 3"
    using mq_open_install_eq [of s1 3 3 q "0x42"] unfolding ctx by (auto simp: ex_fds_inv)
  have e: "sys_mq_open True ex_mqs (Some [0x2f, 0x61]) 0x42 None = Some (s', Inr 3)"
    using l s1 s'(1) by (simp add: sys_mq_open_def mq_open_queue_def)
  show "sys_mq_open True ex_mqs (Some [0x2f, 0x61]) 0x42 None = Some (ex_opened, Inr 3)"
    by (simp add: ex_opened_def e)
  show "fd_ofdidx (fd_slots (mq_ctx ex_opened) 3) = 3" using s'(2) by (simp add: ex_opened_def e)
qed

lemma mq_open_correct_witness:
  "fd_inv (mq_ctx ex_opened) \<and> fd_invalid (fd_slots (mq_ctx ex_mqs) 3) \<and>
    (\<exists>q. psx_mq_from_fd ex_opened 3 = (ex_opened, Some q) \<and> mq_used (mq_tab ex_opened q) \<and>
       psx_mq_strcmp (mq_name (mq_tab ex_opened q)) [0x2f, 0x61] = 0)"
  by (rule mq_open_correct [OF ex_open(1)]) (simp_all add: ex_fds_inv ex_open(2) ex_mqs_def)

abbreviation (input) "ex_tick \<equiv> (\<lambda>k s. s\<lparr>mq_clock := \<lparr>tv_sec = int k, tv_nsec = 0\<rparr>\<rparr>)"

lemma mq_timedreceive_returns_witness:
  "\<exists>s' r. sys_mq_timedreceive ex_tick (Suc 3) ex_opened 3 1024 (Some \<lparr>tv_sec = 2, tv_nsec = 0\<rparr>) = Some (s', r) \<and>
    (case r of Inr (p, b) \<Rightarrow> True
     | Inl e \<Rightarrow> e \<in> {EBADF, EMSGSIZE, EAGAIN, ETIMEDOUT} \<and>
         (\<exists>m\<le>3. s' = poll_state ex_tick m 0 (fst (psx_mq_from_fd ex_opened 3))))"
  by (rule mq_timedreceive_returns) (simp add: psx_mq_deadline_reached_def numeral_3_eq_3)

section \<open>Where the code departs from POSIX or its own comments\<close>

text \<open>
  \<open>mq_notify\<close> reads the third word of the \<open>sigevent\<close> as \<open>sigev_notify\<close> and the second as
  \<open>sigev_signo\<close>. In the layout its comment gives (an 8-byte \<open>sigval\<close>, the signal number, the
  notification kind) these are the signal number and the upper half of the value.
\<close>

lemma mq_notify_wrong_fields:
  assumes "psx_mq_from_fd s mqd = (s1, Some q)" "ev = (!) [val_lo, val_hi, signo, kind]" "signo = 1"
  shows "let s' = fst (sys_mq_notify s mqd (Some ev)) in
    mq_notify_notify (mq_tab s' q) = signo \<and> mq_notify_signo (mq_tab s' q) = val_hi"
  using assms by (simp add: sys_mq_notify_def)

text \<open>A failed open of an existing empty queue frees its slot, not only one just created.\<close>

lemma mq_open_failure_removes_queue:
  assumes "psx_mq_lookup s nm = Some q" "nm \<noteq> []" "psx_fd_alloc (mq_ctx s) = (c, None)"
    "mq_curmsgs (mq_tab s q) = 0" "mq_flags (mq_tab s q) = 0"
  shows "\<exists>s'. sys_mq_open mkev s (Some nm) 0 kattr = Some (s', Inl EMFILE) \<and> \<not> mq_used (mq_tab s' q)"
  using assms by (simp add: sys_mq_open_def mq_open_queue_def mq_open_install_def mq_open_undo_def)

text \<open>A name of 64 bytes or more is cut when it is stored, so it is never found again.\<close>

lemma mq_long_name_not_found:
  assumes "psx_mq_create s nm kattr = Some (q, s')" "0 \<notin> set nm" "64 \<le> length nm"
  shows "psx_mq_strcmp (mq_name (mq_tab s' q)) nm \<noteq> 0"
proof -
  have "cstr nm = nm" "cstr (take 63 nm) = take 63 nm"
    using assms(2) by (auto simp: takeWhile_eq_all_conv dest: in_set_takeD)
  moreover have "mq_name (mq_tab s' q) = take 63 nm"
    using assms(1) by (auto simp: psx_mq_create_def Let_def psx_mq_strncpy_take split: option.splits)
  moreover have "length (take 63 nm) \<noteq> length nm" using assms(3) by simp
  ultimately show ?thesis unfolding psx_mq_strcmp_zero_iff by metis
qed

text \<open>
  When the open file descriptions are used up, the descriptor already taken is not given
  back: its slot is still marked invalid, so \<open>__psx_fd_free\<close> returns early.
\<close>

lemma fd_free_of_fresh_fd_leaks:
  assumes "fd_invalid (fd_slots c f)"
  shows "psx_fd_free c f = Some (c, NT_STATUS_INVALID_HANDLE)"
  using assms by (simp add: psx_fd_free_def)

end
