(* ===== verification/Rt_Alloc.thy ===== *)
theory Rt_Alloc
  imports Tcc_Prelude
begin

text \<open>
  What the allocators of the run-time library (\<open>lib/tcc-arena.h\<close>, \<open>tcc-pool.h\<close>, \<open>tcc-ctmem.h\<close>, \<open>tcc-mmap.h\<close>) share: the
  rounding of offsets, memory as sets of addresses, what they rely on from \<open>malloc\<close>, and the contract they offer
  to a program (\<open>allocator\<close>).
\<close>

unbundle bit_operations_syntax

text \<open>\<open>(x + (a - 1)) & ~(a - 1)\<close>\<close>

definition round_up :: "u64 \<Rightarrow> u64 \<Rightarrow> u64" where
  "round_up x a = (x + (a - 1)) AND NOT (a - 1)"

section \<open>Rounding up\<close>

text \<open>Rounding never goes down, whether \<open>a\<close> is a power of two or not.\<close>

lemma and_not_diff: "(y :: u64) AND NOT m = y - (y AND m)"
proof -
  have "(y AND m) + (y AND NOT m) = (y AND m) OR (y AND NOT m)"
    by (rule disjunctive_add) (auto simp: bit_simps)
  also have "\<dots> = y" by (auto intro!: bit_word_eqI simp: bit_simps)
  finally show ?thesis by (simp add: eq_diff_eq add.commute)
qed

lemma round_up_bounds:
  assumes "a \<noteq> 0" "unat x + unat a \<le> 2 ^ 64"
  shows "unat x \<le> unat (round_up x a)" "unat (round_up x a) < unat x + unat a"
proof -
  have a: "0 < unat a" "unat (a - 1) = unat a - 1" using assms(1) by (simp_all add: unat_minus_one unat_gt_0)
  then have y: "unat (x + (a - 1)) = unat x + unat a - 1" using assms(2) by (subst unat_add_lem [THEN iffD1]) auto
  have "(x + (a - 1)) AND (a - 1) \<le> a - 1" "(x + (a - 1)) AND (a - 1) \<le> x + (a - 1)"
    by (rule word_and_le1 word_and_le2)+
  then have "unat (round_up x a) = unat x + unat a - 1 - unat ((x + (a - 1)) AND (a - 1))"
    "unat ((x + (a - 1)) AND (a - 1)) \<le> unat a - 1"
    using y a(2) by (simp_all add: round_up_def and_not_diff unat_sub word_le_nat_alt)
  then show "unat x \<le> unat (round_up x a)" "unat (round_up x a) < unat x + unat a" using a(1) by linarith+
qed

lemma round_up_dvd: "a = 2 ^ k \<Longrightarrow> k < 64 \<Longrightarrow> 2 ^ k dvd unat (round_up x a)"
proof -
  assume "a = 2 ^ k" "k < 64"
  then have "a - 1 = mask k" by (simp add: mask_eq_exp_minus_1)
  then have "take_bit k (round_up x a) = 0"
    by (auto intro!: bit_word_eqI simp: round_up_def bit_simps)
  then have "take_bit k (unat (round_up x a)) = 0" by (simp flip: unsigned_take_bit_eq)
  then show ?thesis by (simp add: take_bit_eq_0_iff)
qed

section \<open>Memory\<close>

text \<open>The addresses of \<open>n\<close> bytes at \<open>p\<close>.\<close>

definition area :: "u64 \<Rightarrow> u64 \<Rightarrow> nat set" where
  "area p n = {unat p..<unat p + unat n}"

text \<open>The C library: the memory that \<open>malloc\<close> gives does not wrap around and is none that it has given before.\<close>

definition malloc_ok :: "(u64 \<Rightarrow> u64) \<Rightarrow> nat set list \<Rightarrow> bool" where
  "malloc_ok malloc given \<longleftrightarrow> (\<forall>n. malloc n \<noteq> 0 \<longrightarrow> unat (malloc n) + unat n \<le> 2 ^ 64 \<and>
     (\<forall>A\<in>set given. area (malloc n) n \<inter> A = {}))"

lemma unat_add3: "unat x + unat y + unat z < 2 ^ 64 \<Longrightarrow> unat (x + y + z :: u64) = unat x + unat y + unat z"
  by (simp add: unat_word_ariths)

section \<open>The contract of an allocator\<close>

text \<open>Allocations, with their sizes, that do not overlap.\<close>

definition separate :: "(u64 \<times> u64) list \<Rightarrow> bool" where
  "separate live \<longleftrightarrow> sorted_wrt (\<lambda>x y. area (fst x) (snd x) \<inter> area (fst y) (snd y) = {}) live"

lemma separate_simps [simp]:
  "separate []"
  "separate (x # live) \<longleftrightarrow> (\<forall>y\<in>set live. area (fst x) (snd x) \<inter> area (fst y) (snd y) = {}) \<and> separate live"
  by (simp_all add: separate_def)

text \<open>\<open>reach s live\<close>: in the state \<open>s\<close> the program holds the allocations \<open>live\<close>.\<close>

locale allocator =
  fixes reach :: "'s \<Rightarrow> (u64 \<times> u64) list \<Rightarrow> bool"
  assumes reach_separate: "reach s live \<Longrightarrow> separate live"
begin

text \<open>What the program writes into one of its allocations changes none of the others.\<close>

lemma writes_separate:
  assumes "reach s live" "i < length live" "j < length live" "i \<noteq> j" "case live ! i of (p, n) \<Rightarrow> \<forall>a. a \<notin> area p n \<longrightarrow> mem' a = mem a"
  shows "case live ! j of (p, n) \<Rightarrow> \<forall>a\<in>area p n. mem' a = mem a"
proof -
  have sw: "sorted_wrt (\<lambda>x y. area (fst x) (snd x) \<inter> area (fst y) (snd y) = {}) live"
    using reach_separate [OF assms(1)] by (simp add: separate_def)
  have "area (fst (live ! i)) (snd (live ! i)) \<inter> area (fst (live ! j)) (snd (live ! j)) = {}"
  proof (cases "i < j")
    case True
    then show ?thesis using sw assms(3) by (auto simp: sorted_wrt_iff_nth_less)
  next
    case False
    then show ?thesis using sw assms(2,4) sorted_wrt_nth_less [OF sw, of j i] by (simp add: Int_commute)
  qed
  then show ?thesis using assms(5) by (auto simp: case_prod_beta)
qed

end

end
