(* ===== verification/Rt_Arena.thy ===== *)
theory Rt_Arena
  imports Rt_Alloc
begin

text \<open>
  The arena of the run-time library (\<open>lib/tcc-arena.h\<close>): blocks from \<open>malloc\<close>, in which allocations only move an
  offset. Sizes and addresses are 64-bit words that wrap around. The chain of blocks is a list, \<open>malloc\<close> an
  argument that maps a number of bytes to an address, and an address of 0 is \<open>NULL\<close>. What is printed is not
  modelled, except that the functions tell whether they print.
\<close>

unbundle bit_operations_syntax

section \<open>The arena\<close>

record tcc_block =
  blk_ptr :: u64
  blk_size :: u64

abbreviation (input) SIZEOF_BLOCK :: u64 where "SIZEOF_BLOCK \<equiv> 16"
abbreviation (input) SIZEOF_ARENA :: u64 where "SIZEOF_ARENA \<equiv> 56"
abbreviation (input) TCC_ARENA_DEFAULT_GROW :: u64 where "TCC_ARENA_DEFAULT_GROW \<equiv> 8192"

record tcc_arena =
  ar_blocks :: "tcc_block list"
  ar_off :: u64
  ar_grow :: u64
  ar_total_cap :: u64
  ar_total_used :: u64
  ar_epoch :: u64
  ar_outstanding :: u64

definition tcc_arena_new :: "(u64 \<Rightarrow> u64) \<Rightarrow> u64 \<Rightarrow> tcc_arena option" where
  "tcc_arena_new malloc grow =
     (if malloc SIZEOF_ARENA = 0 then None
      else Some \<lparr>ar_blocks = [], ar_off = 0, ar_grow = (if grow \<noteq> 0 then grow else TCC_ARENA_DEFAULT_GROW),
                 ar_total_cap = 0, ar_total_used = 0, ar_epoch = 0, ar_outstanding = 0\<rparr>)"

definition arena_grow :: "(u64 \<Rightarrow> u64) \<Rightarrow> tcc_arena \<Rightarrow> u64 \<Rightarrow> (tcc_block \<times> tcc_arena) option" where
  "arena_grow malloc a want =
     (let sz = (if ar_grow a < want then round_up want (ar_grow a) else ar_grow a);
          p = malloc (SIZEOF_BLOCK + sz); b = \<lparr>blk_ptr = p, blk_size = sz\<rparr>
      in if p = 0 then None
         else Some (b, a\<lparr>ar_blocks := b # ar_blocks a, ar_off := 0, ar_total_cap := ar_total_cap a + sz\<rparr>))"

text \<open>The end of \<open>tcc_arena_alloc\<close>, for the block \<open>b\<close>, the offset \<open>aoff\<close> and the end \<open>pri\<close> of what was used
  before.\<close>

definition arena_take :: "tcc_block \<Rightarrow> u64 \<Rightarrow> u64 \<Rightarrow> u64 \<Rightarrow> tcc_arena \<Rightarrow> u64 \<times> tcc_arena" where
  "arena_take b aoff pri sz a =
     (blk_ptr b + SIZEOF_BLOCK + aoff,
      a\<lparr>ar_off := aoff + sz, ar_total_used := ar_total_used a + ((aoff - pri) + sz),
        ar_outstanding := ar_outstanding a + 1\<rparr>)"

definition tcc_arena_alloc :: "(u64 \<Rightarrow> u64) \<Rightarrow> tcc_arena \<Rightarrow> u64 \<Rightarrow> u64 \<Rightarrow> u64 \<times> tcc_arena" where
  "tcc_arena_alloc malloc a sz align =
     (let sz = (if sz = 0 then 1 else sz); align = (if align = 0 then 1 else align);
          aoff = round_up (ar_off a) align
      in if ar_blocks a = [] \<or> aoff + sz > blk_size (hd (ar_blocks a)) then
           let room = sz + align; room = (if room < ar_grow a then ar_grow a else room)
           in case arena_grow malloc a room of None \<Rightarrow> (0, a) | Some (b, a) \<Rightarrow> arena_take b 0 0 sz a
         else arena_take (hd (ar_blocks a)) aoff (ar_off a) sz a)"

text \<open>Whether a message about pointers that are still used is printed, and the arena.\<close>

definition tcc_arena_reset :: "tcc_arena \<Rightarrow> bool \<times> tcc_arena" where
  "tcc_arena_reset a =
     (ar_outstanding a > 0, a\<lparr>ar_off := 0, ar_total_used := 0, ar_epoch := ar_epoch a + 1, ar_outstanding := 0\<rparr>)"

text \<open>The same, and the blocks that are freed.\<close>

definition tcc_arena_destroy :: "tcc_arena \<Rightarrow> bool \<times> u64 list" where
  "tcc_arena_destroy a = (ar_outstanding a > 0, map blk_ptr (ar_blocks a))"

definition tcc_arena_check :: "tcc_arena \<Rightarrow> u64 \<Rightarrow> bool" where
  "tcc_arena_check a epoch_holder \<longleftrightarrow> \<not> epoch_holder \<noteq> ar_epoch a"

definition tcc_arena_used :: "tcc_arena \<Rightarrow> u64" where
  "tcc_arena_used a = ar_total_used a"

definition tcc_arena_capacity :: "tcc_arena \<Rightarrow> u64" where
  "tcc_arena_capacity a = ar_total_cap a"

section \<open>What the arena hands out\<close>

text \<open>Memory of a block with its header, and without it.\<close>

definition block_area :: "tcc_block \<Rightarrow> nat set" where
  "block_area b = {unat (blk_ptr b)..<unat (blk_ptr b) + 16 + unat (blk_size b)}"

definition data_area :: "tcc_block \<Rightarrow> nat set" where
  "data_area b = {unat (blk_ptr b) + 16..<unat (blk_ptr b) + 16 + unat (blk_size b)}"

text \<open>The sizes that the code adds stay below \<open>2 ^ 64\<close>.\<close>

definition sizes_ok :: "tcc_arena \<Rightarrow> u64 \<Rightarrow> u64 \<Rightarrow> bool" where
  "sizes_ok a sz align \<longleftrightarrow> unat (ar_off a) + unat sz + unat align + 2 * unat (ar_grow a) + 18 < 2 ^ 64"

text \<open>The states of an arena, with what was allocated since the last reset.\<close>

inductive arena_reach :: "tcc_arena \<Rightarrow> (u64 \<times> u64) list \<Rightarrow> bool" where
  new: "tcc_arena_new malloc grow = Some a \<Longrightarrow> arena_reach a []"
| alloc: "arena_reach a live \<Longrightarrow> malloc_ok malloc (map block_area (ar_blocks a)) \<Longrightarrow> sizes_ok a sz align \<Longrightarrow>
    tcc_arena_alloc malloc a sz align = (p, a') \<Longrightarrow>
    arena_reach a' (if p = 0 then live else (p, if sz = 0 then 1 else sz) # live)"
| reset: "arena_reach a live \<Longrightarrow> tcc_arena_reset a = (w, a') \<Longrightarrow> arena_reach a' []"

text \<open>Used memory: the first block up to the offset, and the other blocks.\<close>

definition used_area :: "tcc_arena \<Rightarrow> nat set list" where
  "used_area a = (case ar_blocks a of [] \<Rightarrow> []
     | b # bs \<Rightarrow> {unat (blk_ptr b) + 16..<unat (blk_ptr b) + 16 + unat (ar_off a)} # map data_area bs)"

definition arena_inv :: "tcc_arena \<Rightarrow> (u64 \<times> u64) list \<Rightarrow> bool" where
  "arena_inv a live \<longleftrightarrow> ar_grow a \<noteq> 0 \<and>
     (\<forall>b\<in>set (ar_blocks a). blk_ptr b \<noteq> 0 \<and> unat (blk_ptr b) + 16 + unat (blk_size b) \<le> 2 ^ 64) \<and>
     sorted_wrt (\<lambda>b c. block_area b \<inter> block_area c = {}) (ar_blocks a) \<and>
     (case ar_blocks a of [] \<Rightarrow> ar_off a = 0 | b # bs \<Rightarrow> ar_off a \<le> blk_size b) \<and>
     (\<forall>(p, n)\<in>set live. \<exists>u\<in>set (used_area a). area p n \<subseteq> u) \<and>
     separate live \<and>
     ar_outstanding a = of_nat (length live) \<and> ar_total_cap a = sum_list (map blk_size (ar_blocks a))"

lemma data_in_block: "data_area b \<subseteq> block_area b"
  by (auto simp: data_area_def block_area_def)

lemma arena_grow_ok:
  assumes "arena_inv a live" "malloc_ok malloc (map block_area (ar_blocks a))" "arena_grow malloc a want = Some (b, a')"
    "unat want + unat (ar_grow a) + 16 < 2 ^ 64"
  shows "arena_inv a' live" "ar_blocks a' = b # ar_blocks a" "ar_off a' = 0" "want \<le> blk_size b" "ar_grow a' = ar_grow a"
proof -
  define sz where "sz = (if ar_grow a < want then round_up want (ar_grow a) else ar_grow a)"
  have r: "malloc (16 + sz) \<noteq> 0" "b = \<lparr>blk_ptr = malloc (16 + sz), blk_size = sz\<rparr>"
    "a' = a\<lparr>ar_blocks := b # ar_blocks a, ar_off := 0, ar_total_cap := ar_total_cap a + sz\<rparr>"
    using assms(3) by (auto simp: arena_grow_def Let_def sz_def split: if_splits)
  have g: "ar_grow a \<noteq> 0" using assms(1) by (simp add: arena_inv_def)
  have sz: "unat want \<le> unat sz" "unat sz + 16 < 2 ^ 64"
    using round_up_bounds [OF g, of want] assms(4) by (auto simp: sz_def word_less_nat_alt)
  show "ar_blocks a' = b # ar_blocks a" "ar_off a' = 0" "ar_grow a' = ar_grow a" using r(3) by simp_all
  show "want \<le> blk_size b" using sz(1) r(2) by (simp add: word_le_nat_alt)
  have n: "unat (16 + sz) = 16 + unat sz" using sz(2) by (subst unat_add_lem [THEN iffD1]) auto
  then have "area (malloc (16 + sz)) (16 + sz) = block_area b" using r(2) by (auto simp: area_def block_area_def)
  then have b: "unat (blk_ptr b) + 16 + unat (blk_size b) \<le> 2 ^ 64" "\<forall>c\<in>set (ar_blocks a). block_area b \<inter> block_area c = {}"
    using assms(2) r(1,2) n by (auto simp: malloc_ok_def)
  have "\<exists>u\<in>set (used_area a'). area p k \<subseteq> u" if pk: "(p, k) \<in> set live" for p k
  proof -
    obtain u where u: "u \<in> set (used_area a)" "area p k \<subseteq> u" using assms(1) pk by (auto simp: arena_inv_def)
    obtain c cs where c: "ar_blocks a = c # cs" using u(1) by (cases "ar_blocks a") (simp_all add: used_area_def)
    then have "ar_off a \<le> blk_size c" using assms(1) by (simp add: arena_inv_def)
    then have "u \<subseteq> data_area c \<or> u \<in> set (map data_area cs)"
      using u(1) c by (auto simp: used_area_def data_area_def word_le_nat_alt)
    then show ?thesis using u(2) c r(3) by (auto simp: used_area_def)
  qed
  then show "arena_inv a' live" using assms(1) b r by (auto simp: arena_inv_def)
qed

lemma arena_take_ok:
  assumes "arena_inv a live" "ar_blocks a = b # bs" "unat (ar_off a) \<le> unat aoff" "unat aoff + unat sz \<le> unat (blk_size b)"
    "sz \<noteq> 0" "arena_take b aoff pri sz a = (p, a')"
  shows "arena_inv a' ((p, sz) # live)" "p \<noteq> 0"
proof -
  have b: "blk_ptr b \<noteq> 0" "unat (blk_ptr b) + 16 + unat (blk_size b) \<le> 2 ^ 64" using assms(1,2) by (simp_all add: arena_inv_def)
  have r: "p = blk_ptr b + 16 + aoff" "ar_blocks a' = b # bs" "ar_off a' = aoff + sz" "ar_grow a' = ar_grow a"
    "ar_outstanding a' = ar_outstanding a + 1" "ar_total_cap a' = ar_total_cap a"
    using assms(2,6) by (auto simp: arena_take_def)
  have z: "0 < unat sz" using assms(5) by (simp add: unat_gt_0)
  have p: "unat p = unat (blk_ptr b) + 16 + unat aoff"
    unfolding r(1) using b(2) assms(4) z by (intro unat_add3 [of _ 16, simplified]) simp
  have o: "unat (ar_off a') = unat aoff + unat sz"
    unfolding r(3) using b(2) assms(4) unsigned_less [of "blk_ptr b"] by (subst unat_add_lem [THEN iffD1]) auto
  show "p \<noteq> 0" using p by auto
  let ?u = "{unat (blk_ptr b) + 16..<unat (blk_ptr b) + 16 + unat (ar_off a)}"
  have u: "used_area a = ?u # map data_area bs" "used_area a' = {unat (blk_ptr b) + 16..<unat (blk_ptr b) + 16 + (unat aoff + unat sz)} # map data_area bs"
    using assms(2) r(2) o by (simp_all add: used_area_def)
  have "area p sz \<inter> v = {}" if "v \<in> set (used_area a)" for v
  proof -
    have "area p sz \<subseteq> data_area b" using p assms(4) by (auto simp: area_def data_area_def)
    moreover have "data_area b \<inter> data_area c = {}" if "c \<in> set bs" for c
    proof -
      have "block_area b \<inter> block_area c = {}" using assms(1,2) that by (simp add: arena_inv_def)
      then show ?thesis using data_in_block [of b] data_in_block [of c] by blast
    qed
    moreover have "area p sz \<inter> ?u = {}" using p assms(3) by (auto simp: area_def)
    ultimately show ?thesis using that u(1) by auto
  qed
  then have "\<forall>y\<in>set live. area p sz \<inter> area (fst y) (snd y) = {}" using assms(1) by (fastforce simp: arena_inv_def)
  moreover have "\<exists>v\<in>set (used_area a'). area p' n' \<subseteq> v" if "(p', n') \<in> set live" for p' n'
  proof -
    have "\<exists>v\<in>set (used_area a). area p' n' \<subseteq> v" using assms(1) that by (auto simp: arena_inv_def)
    then obtain v where v: "v \<in> set (used_area a)" "area p' n' \<subseteq> v" by blast
    then have "\<exists>w\<in>set (used_area a'). v \<subseteq> w" using u assms(3) by auto
    then show ?thesis using v(2) by blast
  qed
  moreover have "area p sz \<subseteq> hd (used_area a')" "hd (used_area a') \<in> set (used_area a')"
    using u(2) p by (auto simp: area_def)
  moreover have "ar_off a' \<le> blk_size b" using o assms(4) by (simp add: word_le_nat_alt)
  ultimately show "arena_inv a' ((p, sz) # live)" using assms(1,2) r by (auto simp: arena_inv_def)
qed

lemma arena_alloc_ok:
  assumes "arena_inv a live" "malloc_ok malloc (map block_area (ar_blocks a))" "sizes_ok a sz align" "tcc_arena_alloc malloc a sz align = (p, a')"
  shows "arena_inv a' (if p = 0 then live else (p, if sz = 0 then 1 else sz) # live)"
proof -
  define n where "n = (if sz = 0 then 1 else sz)"
  define al where "al = (if align = 0 then 1 else align)"
  define aoff where "aoff = round_up (ar_off a) al"
  have z: "n \<noteq> 0" "al \<noteq> 0" and ok: "unat (ar_off a) + unat n + unat al + 2 * unat (ar_grow a) + 16 < 2 ^ 64"
    using assms(3) by (auto simp: n_def al_def sizes_ok_def)
  have aoff: "unat (ar_off a) \<le> unat aoff" "unat aoff < unat (ar_off a) + unat al"
    unfolding aoff_def using round_up_bounds [OF z(2)] ok by simp_all
  have wrap: "unat (aoff + n) = unat aoff + unat n" using aoff ok by (intro unat_add_lem [THEN iffD1]) simp
  have wrap2: "unat (n + al) = unat n + unat al" using ok by (intro unat_add_lem [THEN iffD1]) simp
  have eq: "(p, a') =
      (if ar_blocks a = [] \<or> aoff + n > blk_size (hd (ar_blocks a)) then
         let room = (if n + al < ar_grow a then ar_grow a else n + al)
         in case arena_grow malloc a room of None \<Rightarrow> (0, a) | Some (b, a) \<Rightarrow> arena_take b 0 0 n a
       else arena_take (hd (ar_blocks a)) aoff (ar_off a) n a)"
    using assms(4) [symmetric] unfolding tcc_arena_alloc_def Let_def n_def al_def aoff_def .
  have "arena_inv a' (if p = 0 then live else (p, n) # live)"
  proof (cases "ar_blocks a = [] \<or> aoff + n > blk_size (hd (ar_blocks a))")
    case True
    define room where "room = (if n + al < ar_grow a then ar_grow a else n + al)"
    have room: "unat n \<le> unat room" "unat room + unat (ar_grow a) + 16 < 2 ^ 64"
      using wrap2 ok by (auto simp: room_def word_less_nat_alt)
    have eq': "(p, a') = (case arena_grow malloc a room of None \<Rightarrow> (0, a) | Some (b, a) \<Rightarrow> arena_take b 0 0 n a)"
      using eq True by (simp only: if_True Let_def room_def)
    show ?thesis
    proof (cases "arena_grow malloc a room")
      case None
      then show ?thesis using eq' assms(1) by simp
    next
      case (Some r)
      then obtain b a1 where a1: "arena_grow malloc a room = Some (b, a1)" by (cases r) auto
      note grown = arena_grow_ok [OF assms(1,2) a1 room(2)]
      have take: "arena_take b 0 0 n a1 = (p, a')" using eq' unfolding a1 option.case prod.case by (rule sym)
      have "unat n \<le> unat (blk_size b)" using grown(4) room(1) by (simp add: word_le_nat_alt)
      then show ?thesis using arena_take_ok [OF grown(1,2) _ _ z(1) take] grown(3) by simp
    qed
  next
    case False
    then obtain b bs where b: "ar_blocks a = b # bs" by (cases "ar_blocks a") auto
    then have "arena_take b aoff (ar_off a) n a = (p, a')" "unat aoff + unat n \<le> unat (blk_size b)"
      using eq False wrap by (auto simp: word_less_nat_alt)
    then show ?thesis using arena_take_ok [OF assms(1) b aoff(1) _ z(1)] by simp
  qed
  then show ?thesis unfolding n_def .
qed

lemma arena_reach_inv: "arena_reach a live \<Longrightarrow> arena_inv a live"
proof (induction rule: arena_reach.induct)
  case (new malloc grow a)
  then show ?case by (auto simp: tcc_arena_new_def arena_inv_def split: if_splits)
next
  case (alloc a live malloc sz align p a')
  then show ?case by (intro arena_alloc_ok)
next
  case (reset a live w a')
  then show ?case by (clarsimp simp: tcc_arena_reset_def arena_inv_def split: list.splits)
qed

interpretation arena: allocator arena_reach
  by unfold_locales (use arena_reach_inv in \<open>simp add: arena_inv_def\<close>)

text \<open>C27: In every state an arena can reach, the allocations since the last reset do not overlap, each lies in one
  block behind its header, their number is kept (modulo \<open>2 ^ 64\<close>), and the capacity is the memory of the blocks.\<close>

theorem arena_allocations_disjoint:
  assumes "arena_reach a live"
  shows "separate live \<and>
    (\<forall>(p, n)\<in>set live. \<exists>b\<in>set (ar_blocks a). area p n \<subseteq> data_area b) \<and>
    ar_outstanding a = of_nat (length live) \<and> tcc_arena_capacity a = sum_list (map blk_size (ar_blocks a))"
proof -
  have inv: "arena_inv a live" using arena_reach_inv [OF assms] .
  have "\<exists>b\<in>set (ar_blocks a). area p n \<subseteq> data_area b" if pn: "(p, n) \<in> set live" for p n
  proof -
    have "\<exists>u\<in>set (used_area a). area p n \<subseteq> u" using inv pn by (auto simp: arena_inv_def)
    then obtain u where u: "u \<in> set (used_area a)" "area p n \<subseteq> u" by blast
    have "\<exists>b\<in>set (ar_blocks a). u \<subseteq> data_area b"
    proof (cases "ar_blocks a")
      case (Cons b bs)
      then have "unat (ar_off a) \<le> unat (blk_size b)" using inv by (simp add: arena_inv_def word_le_nat_alt)
      then have "{unat (blk_ptr b) + 16..<unat (blk_ptr b) + 16 + unat (ar_off a)} \<subseteq> data_area b" by (auto simp: data_area_def)
      then show ?thesis using u(1) Cons by (auto simp: used_area_def)
    qed (use u(1) in \<open>simp add: used_area_def\<close>)
    then show ?thesis using u(2) by blast
  qed
  then show ?thesis using inv by (auto simp: arena_inv_def tcc_arena_capacity_def)
qed

section \<open>Alignment, and what goes wrong\<close>

text \<open>An alignment up to that of \<open>malloc\<close>, 16, is respected.\<close>

lemma arena_take_aligned:
  assumes "k \<le> 4" "16 dvd unat (blk_ptr b)" "2 ^ k dvd unat aoff" "arena_take b aoff pri sz a = (p, a')"
  shows "2 ^ k dvd unat p"
proof -
  have k: "(2 :: nat) ^ k dvd 2 ^ 64" "(2 :: nat) ^ k dvd 2 ^ 4" using assms(1) by (intro le_imp_power_dvd; simp)+
  have "p = blk_ptr b + 16 + aoff" using assms(4) by (simp add: arena_take_def)
  then have "unat p = (unat (blk_ptr b) + 16 + unat aoff) mod 2 ^ 64" by (simp add: unat_word_ariths mod_simps)
  moreover have "2 ^ k dvd unat (blk_ptr b) + 16 + unat aoff"
    using k(2) assms(2,3) by (intro dvd_add) (auto intro: dvd_trans)
  ultimately show ?thesis using k(1) by (simp add: dvd_mod_iff)
qed

text \<open>A greater alignment is not: only the offset in the block is aligned, not the address.\<close>

definition ex_arena :: tcc_arena where
  "ex_arena = \<lparr>ar_blocks = [\<lparr>blk_ptr = 0x1000, blk_size = 64\<rparr>], ar_off = 1, ar_grow = 64, ar_total_cap = 64,
                ar_total_used = 1, ar_epoch = 0, ar_outstanding = 1\<rparr>"

lemma arena_big_alignment: "fst (tcc_arena_alloc (\<lambda>_. 0) ex_arena 8 32) = 0x1030"
  by (simp add: tcc_arena_alloc_def ex_arena_def round_up_def arena_take_def)

text \<open>With a size near \<open>2 ^ 64\<close> the test for room wraps around, and the arena gives memory that it does not have;
  the offset goes back over the memory handed out before.\<close>

lemma arena_size_wraps: "tcc_arena_alloc (\<lambda>_. 0) ex_arena (- 1) 1 = (0x1011, ex_arena\<lparr>ar_off := 0, ar_total_used := 0, ar_outstanding := 2\<rparr>)"
  by (simp add: tcc_arena_alloc_def ex_arena_def round_up_def arena_take_def)

text \<open>After a reset the blocks behind the first one are not used again: as soon as the first block is full the arena
  grows, whatever room the others have.\<close>

lemma arena_reset_grows:
  assumes "ar_blocks a = b # bs" "sz \<noteq> 0" "blk_size b < sz" "snd (tcc_arena_reset a) = a'"
    "tcc_arena_alloc malloc a' sz 1 = (p, a'')"
  shows "p = 0 \<or> (\<exists>c. ar_blocks a'' = c # b # bs)"
proof -
  have "ar_off a' = 0" "ar_blocks a' = b # bs" using assms(1,4) by (auto simp: tcc_arena_reset_def)
  then show ?thesis using assms(2,3,5)
    by (auto simp: tcc_arena_alloc_def Let_def arena_grow_def arena_take_def round_up_def split: if_splits)
qed

lemma arena_allocations_disjoint_witness:
  "\<exists>a p q. p \<noteq> 0 \<and> q \<noteq> 0 \<and> arena_reach a [(q, 24), (p, 8)] \<and> area q 24 \<inter> area p 8 = {}"
proof -
  let ?m = "\<lambda>n :: u64. if n \<le> 0x100000 then 0x20000 else 0 :: u64"
  have m: "malloc_ok ?m []" by (auto simp: malloc_ok_def word_le_nat_alt)
  obtain a where a: "tcc_arena_new ?m 128 = Some a" by (simp add: tcc_arena_new_def)
  have r: "arena_reach a []" using arena_reach.new [OF a] .
  obtain p a1 where a1: "tcc_arena_alloc ?m a 8 8 = (p, a1)" by fastforce
  have e: "a = \<lparr>ar_blocks = [], ar_off = 0, ar_grow = 128, ar_total_cap = 0, ar_total_used = 0, ar_epoch = 0, ar_outstanding = 0\<rparr>"
    using a by (simp add: tcc_arena_new_def)
  have e1: "p = 0x20010" "a1 = \<lparr>ar_blocks = [\<lparr>blk_ptr = 0x20000, blk_size = 128\<rparr>], ar_off = 8, ar_grow = 128, ar_total_cap = 128,
      ar_total_used = 8, ar_epoch = 0, ar_outstanding = 1\<rparr>"
    using a1 by (simp_all add: e tcc_arena_alloc_def arena_grow_def arena_take_def round_up_def Let_def)
  have r1: "arena_reach a1 [(p, 8)]" using arena_reach.alloc [OF r _ _ a1] m e1(1) by (simp add: e sizes_ok_def)
  have "malloc_ok (\<lambda>_. 0) (map block_area (ar_blocks a1))" by (simp add: malloc_ok_def)
  moreover obtain q a2 where a2: "tcc_arena_alloc (\<lambda>_. 0) a1 24 16 = (q, a2)" by fastforce
  moreover have q: "q = 0x20020" using a2 by (simp add: e1 tcc_arena_alloc_def arena_take_def round_up_def Let_def)
  ultimately have r2: "arena_reach a2 [(q, 24), (p, 8)]" using arena_reach.alloc [OF r1 _ _ a2] by (simp add: e1 sizes_ok_def)
  moreover have "area q 24 \<inter> area p 8 = {}" using arena_allocations_disjoint [OF r2] by simp
  ultimately show ?thesis using r2 e1(1) q by (intro exI [of _ a2] exI [of _ p] exI [of _ q]) simp
qed

end
