(* ===== verification/Rt_Pool.thy ===== *)
theory Rt_Pool
  imports Rt_Alloc
begin

text \<open>
  The pool of the run-time library (\<open>lib/tcc-pool.h\<close>): slots of one size in chunks from \<open>malloc\<close>. A free slot holds
  the address of the next one in its first word, so the functions read and write the memory \<open>mem\<close>, which maps an
  address to the word there; the program that uses the pool writes to its slots too. The chain of chunks is a list, and
  \<open>cur\<close> is always its first element.
\<close>

unbundle bit_operations_syntax

section \<open>The pool\<close>

record pool_chunk =
  ch_ptr :: u64
  ch_filled :: u64

record tcc_pool =
  po_slot_size :: u64
  po_per_chunk :: u64
  po_cap :: u64
  po_live :: u64
  po_chunks :: "pool_chunk list"
  po_free_list :: u64

abbreviation (input) SIZEOF_POOL :: u64 where "SIZEOF_POOL \<equiv> 56"
abbreviation (input) SIZEOF_CHUNK :: u64 where "SIZEOF_CHUNK \<equiv> 16"
abbreviation (input) SIZEOF_PTR :: u64 where "SIZEOF_PTR \<equiv> 8"
abbreviation (input) POOL_ALIGN_SZ :: u64 where "POOL_ALIGN_SZ \<equiv> 8"
abbreviation (input) TCC_POOL_DEFAULT_PER_CHUNK :: u64 where "TCC_POOL_DEFAULT_PER_CHUNK \<equiv> 64"

definition tcc_pool_new :: "(u64 \<Rightarrow> u64) \<Rightarrow> u64 \<Rightarrow> u64 \<Rightarrow> tcc_pool option" where
  "tcc_pool_new malloc slot_size per_chunk =
     (if malloc SIZEOF_POOL = 0 then None
      else
        let slot_size = (slot_size + POOL_ALIGN_SZ - 1) AND NOT (POOL_ALIGN_SZ - 1);
            slot_size = (if slot_size < SIZEOF_PTR then SIZEOF_PTR else slot_size)
        in Some \<lparr>po_slot_size = slot_size, po_per_chunk = (if per_chunk \<noteq> 0 then per_chunk else TCC_POOL_DEFAULT_PER_CHUNK),
                 po_cap = 0, po_live = 0, po_chunks = [], po_free_list = 0\<rparr>)"

definition pool_grow :: "(u64 \<Rightarrow> u64) \<Rightarrow> tcc_pool \<Rightarrow> tcc_pool option" where
  "pool_grow malloc p =
     (let c = malloc (SIZEOF_CHUNK + po_slot_size p * po_per_chunk p) in
      if c = 0 then None
      else Some (p\<lparr>po_chunks := \<lparr>ch_ptr = c, ch_filled = 0\<rparr> # po_chunks p, po_cap := po_cap p + po_per_chunk p\<rparr>))"

definition slot_ptr :: "u64 \<Rightarrow> pool_chunk \<Rightarrow> u64 \<Rightarrow> u64" where
  "slot_ptr slot_size c i = ch_ptr c + SIZEOF_CHUNK + i * slot_size"

text \<open>Taking the next slot of the first chunk.\<close>

definition pool_bump :: "tcc_pool \<Rightarrow> u64 \<times> tcc_pool" where
  "pool_bump p =
     (let c = hd (po_chunks p) in
      (slot_ptr (po_slot_size p) c (ch_filled c),
       p\<lparr>po_chunks := c\<lparr>ch_filled := ch_filled c + 1\<rparr> # tl (po_chunks p), po_live := po_live p + 1\<rparr>))"

definition tcc_pool_alloc :: "(u64 \<Rightarrow> u64) \<Rightarrow> (u64 \<Rightarrow> u64) \<Rightarrow> tcc_pool \<Rightarrow> u64 \<times> tcc_pool" where
  "tcc_pool_alloc malloc mem p =
     (if po_free_list p \<noteq> 0 then
        (po_free_list p, p\<lparr>po_free_list := mem (po_free_list p), po_live := po_live p + 1\<rparr>)
      else if po_chunks p = [] \<or> ch_filled (hd (po_chunks p)) = po_per_chunk p then
        (case pool_grow malloc p of None \<Rightarrow> (0, p) | Some p \<Rightarrow> pool_bump p)
      else pool_bump p)"

definition tcc_pool_free :: "(u64 \<Rightarrow> u64) \<Rightarrow> tcc_pool \<Rightarrow> u64 \<Rightarrow> (u64 \<Rightarrow> u64) \<times> tcc_pool" where
  "tcc_pool_free mem p ptr =
     (if ptr = 0 then (mem, p)
      else (mem(ptr := po_free_list p), p\<lparr>po_free_list := ptr, po_live := po_live p - 1\<rparr>))"

definition tcc_pool_bytes :: "tcc_pool \<Rightarrow> u64" where
  "tcc_pool_bytes p = po_cap p * po_slot_size p"

definition tcc_pool_live :: "tcc_pool \<Rightarrow> u64" where
  "tcc_pool_live p = po_live p"

definition tcc_pool_cap :: "tcc_pool \<Rightarrow> u64" where
  "tcc_pool_cap p = po_cap p"

text \<open>The chunks that are freed.\<close>

definition tcc_pool_destroy :: "tcc_pool \<Rightarrow> u64 list" where
  "tcc_pool_destroy p = map ch_ptr (po_chunks p)"

section \<open>The states of a pool\<close>

definition chunk_area :: "tcc_pool \<Rightarrow> pool_chunk \<Rightarrow> nat set" where
  "chunk_area p c = {unat (ch_ptr c)..<unat (ch_ptr c) + 16 + unat (po_slot_size p) * unat (po_per_chunk p)}"

text \<open>The slots that have been taken from the chunks.\<close>

definition chunk_slots :: "u64 \<Rightarrow> pool_chunk \<Rightarrow> u64 set" where
  "chunk_slots slot_size c = {slot_ptr slot_size c (of_nat i) | i. i < unat (ch_filled c)}"

definition pool_slots :: "tcc_pool \<Rightarrow> u64 set" where
  "pool_slots p = (\<Union>c\<in>set (po_chunks p). chunk_slots (po_slot_size p) c)"

text \<open>A pool, the memory and the slots that the program holds. The program returns only slots it holds, once, and
  writes nothing to others. The size of a chunk stays below \<open>2 ^ 64\<close>.\<close>

inductive pool_reach :: "tcc_pool \<Rightarrow> (u64 \<Rightarrow> u64) \<Rightarrow> u64 list \<Rightarrow> bool" where
  new: "tcc_pool_new malloc slot_size per_chunk = Some p \<Longrightarrow> unat slot_size + 7 < 2 ^ 64 \<Longrightarrow>
    16 + unat (po_slot_size p) * unat (po_per_chunk p) < 2 ^ 64 \<Longrightarrow> pool_reach p mem []"
| alloc: "pool_reach p mem live \<Longrightarrow> malloc_ok malloc (map (chunk_area p) (po_chunks p)) \<Longrightarrow>
    tcc_pool_alloc malloc mem p = (s, p') \<Longrightarrow> pool_reach p' mem (if s = 0 then live else s # live)"
| free: "pool_reach p mem live \<Longrightarrow> s \<in> set live \<Longrightarrow> tcc_pool_free mem p s = (mem', p') \<Longrightarrow>
    pool_reach p' mem' (remove1 s live)"
| client: "pool_reach p mem live \<Longrightarrow> (\<forall>s\<in>pool_slots p - set live. mem' s = mem s) \<Longrightarrow> pool_reach p mem' live"

fun free_chain :: "(u64 \<Rightarrow> u64) \<Rightarrow> u64 \<Rightarrow> u64 list \<Rightarrow> bool" where
  "free_chain mem s [] \<longleftrightarrow> s = 0"
| "free_chain mem s (x # xs) \<longleftrightarrow> s = x \<and> s \<noteq> 0 \<and> free_chain mem (mem s) xs"

lemma free_chain_cong: "free_chain mem s xs \<Longrightarrow> (\<And>x. x \<in> set xs \<Longrightarrow> mem' x = mem x) \<Longrightarrow> free_chain mem' s xs"
  by (induction xs arbitrary: s) auto

definition pool_shape :: "tcc_pool \<Rightarrow> bool" where
  "pool_shape p \<longleftrightarrow> 8 \<le> unat (po_slot_size p) \<and> po_per_chunk p \<noteq> 0 \<and>
     16 + unat (po_slot_size p) * unat (po_per_chunk p) < 2 ^ 64 \<and>
     (\<forall>c\<in>set (po_chunks p). ch_ptr c \<noteq> 0 \<and> ch_filled c \<le> po_per_chunk p \<and>
        unat (ch_ptr c) + 16 + unat (po_slot_size p) * unat (po_per_chunk p) \<le> 2 ^ 64) \<and>
     sorted_wrt (\<lambda>c d. chunk_area p c \<inter> chunk_area p d = {}) (po_chunks p) \<and>
     po_cap p = of_nat (length (po_chunks p)) * po_per_chunk p"

definition pool_inv :: "tcc_pool \<Rightarrow> (u64 \<Rightarrow> u64) \<Rightarrow> u64 list \<Rightarrow> u64 list \<Rightarrow> bool" where
  "pool_inv p mem live fs \<longleftrightarrow> pool_shape p \<and> distinct (live @ fs) \<and> set (live @ fs) = pool_slots p \<and>
     free_chain mem (po_free_list p) fs \<and> po_live p = of_nat (length live)"

lemma slot_unat:
  assumes "pool_shape p" "c \<in> set (po_chunks p)" "i < unat (po_per_chunk p)"
  shows "unat (slot_ptr (po_slot_size p) c (of_nat i)) = unat (ch_ptr c) + 16 + i * unat (po_slot_size p)"
    and "unat (ch_ptr c) + 16 + i * unat (po_slot_size p) + unat (po_slot_size p) \<le>
      unat (ch_ptr c) + 16 + unat (po_slot_size p) * unat (po_per_chunk p)"
proof -
  have "Suc i * unat (po_slot_size p) \<le> unat (po_per_chunk p) * unat (po_slot_size p)" using assms(3) by (intro mult_le_mono1) simp
  then show le: "unat (ch_ptr c) + 16 + i * unat (po_slot_size p) + unat (po_slot_size p) \<le>
      unat (ch_ptr c) + 16 + unat (po_slot_size p) * unat (po_per_chunk p)" by (simp add: mult.commute)
  have s: "8 \<le> unat (po_slot_size p)" "unat (ch_ptr c) + 16 + unat (po_slot_size p) * unat (po_per_chunk p) \<le> 2 ^ 64"
    using assms(1,2) by (auto simp: pool_shape_def)
  have i: "unat (of_nat i :: u64) = i" using assms(3) unat_less_64 [of "po_per_chunk p"] by (simp add: unat_of_nat)
  have "unat ((of_nat i :: u64) * po_slot_size p) = i * unat (po_slot_size p)"
    using le s i by (subst unat_mult_lem [THEN iffD1]) simp_all
  then show "unat (slot_ptr (po_slot_size p) c (of_nat i)) = unat (ch_ptr c) + 16 + i * unat (po_slot_size p)"
    using le s by (simp add: slot_ptr_def unat_add3)
qed

lemma slot_areas:
  assumes "pool_shape p" "s \<in> chunk_slots (po_slot_size p) c" "c \<in> set (po_chunks p)"
  shows "area s (po_slot_size p) \<subseteq> chunk_area p c" "s \<noteq> 0"
proof -
  obtain i where i: "s = slot_ptr (po_slot_size p) c (of_nat i)" "i < unat (ch_filled c)" using assms(2) by (auto simp: chunk_slots_def)
  have "ch_filled c \<le> po_per_chunk p" using assms(1,3) by (auto simp: pool_shape_def)
  then have "i < unat (po_per_chunk p)" using i(2) by (simp add: word_le_nat_alt)
  note u = slot_unat [OF assms(1,3) this, folded i(1)]
  show "area s (po_slot_size p) \<subseteq> chunk_area p c" using u by (auto simp: area_def chunk_area_def)
  show "s \<noteq> 0" using u(1) by auto
qed

lemma sorted_wrt_symD: "sorted_wrt P xs \<Longrightarrow> (\<And>x y. P x y \<Longrightarrow> P y x) \<Longrightarrow> x \<in> set xs \<Longrightarrow> y \<in> set xs \<Longrightarrow> x \<noteq> y \<Longrightarrow> P x y"
  by (induction xs) auto

lemma slots_disjoint:
  assumes "pool_shape p" "s \<in> pool_slots p" "t \<in> pool_slots p" "s \<noteq> t"
  shows "area s (po_slot_size p) \<inter> area t (po_slot_size p) = {}"
proof -
  obtain c d where c: "c \<in> set (po_chunks p)" "s \<in> chunk_slots (po_slot_size p) c"
    and d: "d \<in> set (po_chunks p)" "t \<in> chunk_slots (po_slot_size p) d" using assms(2,3) by (auto simp: pool_slots_def)
  show ?thesis
  proof (cases "c = d")
    case True
    obtain i j where ij: "s = slot_ptr (po_slot_size p) c (of_nat i)" "i < unat (ch_filled c)"
      "t = slot_ptr (po_slot_size p) c (of_nat j)" "j < unat (ch_filled c)" using c(2) d(2) True by (auto simp: chunk_slots_def)
    have "unat (ch_filled c) \<le> unat (po_per_chunk p)" using assms(1) c(1) by (auto simp: pool_shape_def word_le_nat_alt)
    then have u: "unat s = unat (ch_ptr c) + 16 + i * unat (po_slot_size p)" "unat t = unat (ch_ptr c) + 16 + j * unat (po_slot_size p)"
      using slot_unat(1) [OF assms(1) c(1)] ij by simp_all
    have "i \<noteq> j" using assms(4) ij(1,3) by auto
    then have "i < j \<or> j < i" by linarith
    then have "Suc i * unat (po_slot_size p) \<le> j * unat (po_slot_size p) \<or> Suc j * unat (po_slot_size p) \<le> i * unat (po_slot_size p)"
      by (meson Suc_leI mult_le_mono1)
    then show ?thesis using u by (auto simp: area_def)
  next
    case False
    have "sorted_wrt (\<lambda>c d. chunk_area p c \<inter> chunk_area p d = {}) (po_chunks p)" using assms(1) by (simp add: pool_shape_def)
    then have "chunk_area p c \<inter> chunk_area p d = {}" by (rule sorted_wrt_symD) (use c(1) d(1) False in auto)
    then show ?thesis using slot_areas(1) [OF assms(1) c(2,1)] slot_areas(1) [OF assms(1) d(2,1)] by blast
  qed
qed

lemma pool_grow_ok:
  assumes "pool_inv p mem live fs" "malloc_ok malloc (map (chunk_area p) (po_chunks p))" "pool_grow malloc p = Some p'"
  shows "pool_inv p' mem live fs" "\<exists>c. po_chunks p' = c # po_chunks p \<and> ch_filled c = 0" "po_free_list p' = po_free_list p"
    "po_per_chunk p' = po_per_chunk p" "po_slot_size p' = po_slot_size p"
proof -
  have sh: "pool_shape p" using assms(1) by (simp add: pool_inv_def)
  let ?n = "SIZEOF_CHUNK + po_slot_size p * po_per_chunk p"
  define c where "c = \<lparr>ch_ptr = malloc ?n, ch_filled = 0\<rparr>"
  have r: "malloc ?n \<noteq> 0" "p' = p\<lparr>po_chunks := c # po_chunks p, po_cap := po_cap p + po_per_chunk p\<rparr>"
    using assms(3) by (auto simp: pool_grow_def Let_def c_def split: if_splits)
  have fits: "16 + unat (po_slot_size p) * unat (po_per_chunk p) < 2 ^ 64" using sh by (simp add: pool_shape_def)
  then have "unat (po_slot_size p * po_per_chunk p) = unat (po_slot_size p) * unat (po_per_chunk p)"
    by (intro unat_mult_lem [THEN iffD1]) simp
  then have n: "unat ?n = 16 + unat (po_slot_size p) * unat (po_per_chunk p)" using fits by (subst unat_add_lem [THEN iffD1]) simp_all
  then have ar: "area (malloc ?n) ?n = chunk_area p c" by (simp add: area_def chunk_area_def c_def add.assoc)
  have cs: "chunk_area p' = chunk_area p" using r(2) by (simp add: chunk_area_def fun_eq_iff)
  have "unat (malloc ?n) + unat ?n \<le> 2 ^ 64" "\<forall>d\<in>set (po_chunks p). area (malloc ?n) ?n \<inter> chunk_area p d = {}"
    using assms(2) r(1) by (auto simp: malloc_ok_def)
  then have "unat (ch_ptr c) + 16 + unat (po_slot_size p) * unat (po_per_chunk p) \<le> 2 ^ 64"
    "\<forall>d\<in>set (po_chunks p). chunk_area p c \<inter> chunk_area p d = {}" unfolding ar using n by (simp_all add: c_def)
  then have "pool_shape p'" using sh r unfolding pool_shape_def cs by (simp add: c_def algebra_simps)
  moreover have "pool_slots p' = pool_slots p" using r(2) by (simp add: pool_slots_def chunk_slots_def c_def)
  ultimately show "pool_inv p' mem live fs" using assms(1) r(2) by (simp add: pool_inv_def)
  show "\<exists>c. po_chunks p' = c # po_chunks p \<and> ch_filled c = 0" using r(2) by (simp add: c_def)
  show "po_free_list p' = po_free_list p" "po_per_chunk p' = po_per_chunk p" "po_slot_size p' = po_slot_size p" using r(2) by simp_all
qed

lemma slot_new:
  assumes "pool_shape p" "c \<in> set (po_chunks p)" "ch_filled c < po_per_chunk p"
  shows "slot_ptr (po_slot_size p) c (ch_filled c) \<notin> pool_slots p"
proof
  let ?k = "unat (ch_filled c)" and ?s = "slot_ptr (po_slot_size p) c (ch_filled c)"
  assume "?s \<in> pool_slots p"
  then obtain d where d: "d \<in> set (po_chunks p)" "?s \<in> chunk_slots (po_slot_size p) d" by (auto simp: pool_slots_def)
  have k: "?k < unat (po_per_chunk p)" using assms(3) by (simp add: word_less_nat_alt)
  have s: "unat ?s = unat (ch_ptr c) + 16 + ?k * unat (po_slot_size p)" using slot_unat(1) [OF assms(1,2) k] by simp
  have ss: "8 \<le> unat (po_slot_size p)" using assms(1) by (simp add: pool_shape_def)
  show False
  proof (cases "d = c")
    case True
    then obtain j where j: "?s = slot_ptr (po_slot_size p) c (of_nat j)" "j < ?k" using d(2) by (auto simp: chunk_slots_def)
    then have "unat ?s = unat (ch_ptr c) + 16 + j * unat (po_slot_size p)"
      using slot_unat(1) [OF assms(1,2), of j] k by simp
    then show False using s ss j(2) by simp
  next
    case False
    have "sorted_wrt (\<lambda>c d. chunk_area p c \<inter> chunk_area p d = {}) (po_chunks p)" using assms(1) by (simp add: pool_shape_def)
    then have "chunk_area p c \<inter> chunk_area p d = {}" by (rule sorted_wrt_symD) (use d(1) assms(2) False in auto)
    moreover have "area ?s (po_slot_size p) \<subseteq> chunk_area p d" using slot_areas(1) [OF assms(1) d(2,1)] .
    moreover have "unat ?s \<in> chunk_area p c"
      using s k slot_unat(2) [OF assms(1,2) k] ss by (simp add: chunk_area_def)
    moreover have "unat ?s \<in> area ?s (po_slot_size p)" using ss by (auto simp: area_def)
    ultimately show False by blast
  qed
qed

lemma pool_bump_ok:
  assumes "pool_inv p mem live fs" "po_chunks p = c # cs" "ch_filled c \<noteq> po_per_chunk p" "pool_bump p = (s, p')"
  shows "pool_inv p' mem (s # live) fs" "s \<noteq> 0"
proof -
  have sh: "pool_shape p" using assms(1) by (simp add: pool_inv_def)
  let ?ss = "po_slot_size p" and ?k = "unat (ch_filled c)"
  define c' where "c' = c\<lparr>ch_filled := ch_filled c + 1\<rparr>"
  have r: "s = slot_ptr ?ss c (of_nat ?k)" "p' = p\<lparr>po_chunks := c' # cs, po_live := po_live p + 1\<rparr>"
    using assms(2,4) by (auto simp: pool_bump_def c'_def)
  have "ch_filled c \<le> po_per_chunk p" using sh assms(2) by (simp add: pool_shape_def)
  then have less: "ch_filled c < po_per_chunk p" using assms(3) by simp
  then have k: "?k < unat (po_per_chunk p)" "unat (ch_filled c + 1) = Suc ?k"
    using less unat_plus1_64 [OF less] by (simp_all add: word_less_nat_alt)
  have f': "ch_filled c + 1 \<le> po_per_chunk p" using k by (simp add: word_le_nat_alt)
  have sl: "slot_ptr ?ss c' = slot_ptr ?ss c" by (simp add: slot_ptr_def c'_def fun_eq_iff)
  have fc: "unat (ch_filled c') = Suc ?k" using k(2) by (simp add: c'_def)
  have "chunk_slots ?ss c' = insert s (chunk_slots ?ss c)"
    proof -
    have "chunk_slots ?ss c' = (\<lambda>i. slot_ptr ?ss c (of_nat i)) ` {..<Suc ?k}"
      unfolding chunk_slots_def sl fc by auto
    also have "\<dots> = insert s ((\<lambda>i. slot_ptr ?ss c (of_nat i)) ` {..<?k})"
      unfolding r(1) by (simp only: lessThan_Suc image_insert)
    finally show ?thesis by (auto simp: chunk_slots_def)
  qed
  then have slots: "pool_slots p' = insert s (pool_slots p)" using r(2) assms(2) by (auto simp: pool_slots_def)
  have area: "chunk_area p' = chunk_area p" "chunk_area p c' = chunk_area p c" using r(2) by (auto simp: chunk_area_def c'_def fun_eq_iff)
  then have sh': "pool_shape p'" using sh assms(2) r(2) f' unfolding pool_shape_def area(1) by (simp add: area(2)) (simp add: c'_def)
  have s: "s \<in> chunk_slots ?ss c'" "c' \<in> set (po_chunks p')" using r(2) \<open>chunk_slots ?ss c' = _\<close> by simp_all
  show "s \<noteq> 0" using slot_areas(2) [OF sh'] s r(2) by simp
  have "s \<notin> pool_slots p" using slot_new [OF sh, of c] assms(2) less r(1) by simp
  then show "pool_inv p' mem (s # live) fs" using assms(1) sh' slots r(2) by (auto simp: pool_inv_def)
qed

lemma pool_alloc_ok:
  assumes "pool_inv p mem live fs" "malloc_ok malloc (map (chunk_area p) (po_chunks p))" "tcc_pool_alloc malloc mem p = (s, p')"
  shows "\<exists>fs'. pool_inv p' mem (if s = 0 then live else s # live) fs'"
proof (cases "po_free_list p = 0")
  case True
  show ?thesis
  proof (cases "po_chunks p = [] \<or> ch_filled (hd (po_chunks p)) = po_per_chunk p")
    case grow: True
    show ?thesis
    proof (cases "pool_grow malloc p")
      case None
      then show ?thesis using assms(1,3) True grow by (auto simp: tcc_pool_alloc_def)
    next
      case (Some p1)
      note ok = pool_grow_ok [OF assms(1,2) Some]
      obtain c where c: "po_chunks p1 = c # po_chunks p" "ch_filled c = 0" using ok(2) by blast
      have "pool_bump p1 = (s, p')" using assms(3) True grow Some by (auto simp: tcc_pool_alloc_def)
      moreover have "ch_filled c \<noteq> po_per_chunk p1" using ok(1) c(2) by (simp add: pool_inv_def pool_shape_def)
      ultimately show ?thesis using pool_bump_ok [OF ok(1) c(1)] by auto
    qed
  next
    case False
    then obtain c cs where c: "po_chunks p = c # cs" "ch_filled c \<noteq> po_per_chunk p" by (cases "po_chunks p") auto
    have "pool_bump p = (s, p')" using assms(3) True False by (auto simp: tcc_pool_alloc_def)
    then show ?thesis using pool_bump_ok [OF assms(1) c] by auto
  qed
next
  case False
  then obtain x xs where x: "fs = x # xs" using assms(1) by (cases fs) (auto simp: pool_inv_def)
  have "s = x" "p' = p\<lparr>po_free_list := mem x, po_live := po_live p + 1\<rparr>" "x \<noteq> 0"
    using assms(1,3) False x by (auto simp: tcc_pool_alloc_def pool_inv_def)
  then have "pool_inv p' mem (s # live) xs"
    using assms(1) x by (auto simp: pool_inv_def pool_shape_def chunk_area_def pool_slots_def)
  then show ?thesis using \<open>s = x\<close> \<open>x \<noteq> 0\<close> by auto
qed

lemma pool_free_ok:
  assumes "pool_inv p mem live fs" "s \<in> set live" "tcc_pool_free mem p s = (mem', p')"
  shows "pool_inv p' mem' (remove1 s live) (s # fs)"
proof -
  have inv: "pool_shape p" "distinct live" "distinct fs" "set live \<inter> set fs = {}" "set live \<union> set fs = pool_slots p"
    "free_chain mem (po_free_list p) fs" "po_live p = of_nat (length live)"
    using assms(1) by (auto simp: pool_inv_def)
  then obtain c where "c \<in> set (po_chunks p)" "s \<in> chunk_slots (po_slot_size p) c"
    using assms(2) by (auto simp: pool_slots_def set_eq_iff)
  then have s: "s \<noteq> 0" using slot_areas(2) [OF inv(1)] by blast
  have r: "mem' = mem(s := po_free_list p)" "p' = p\<lparr>po_free_list := s, po_live := po_live p - 1\<rparr>"
    using assms(3) s by (auto simp: tcc_pool_free_def)
  have sfs: "s \<notin> set fs" using assms(2) inv(4) by blast
  have chain: "free_chain mem' (po_free_list p') (s # fs)"
  proof -
    have "mem' x = mem x" if "x \<in> set fs" for x using that sfs r(1) by auto
    then have "free_chain mem' (po_free_list p) fs" by (rule free_chain_cong [OF inv(6)])
    then show ?thesis using s r by simp
  qed
  have len: "length live = Suc (length (remove1 s live))" using assms(2) by (simp add: length_remove1) (cases live; simp)
  have "pool_slots p' = pool_slots p" "pool_shape p'"
    using inv(1) r(2) by (auto simp: pool_slots_def pool_shape_def chunk_area_def)
  moreover have "set (remove1 s live) = set live - {s}" using inv(2) by simp
  ultimately show ?thesis
    using inv chain sfs assms(2) r(2) len by (auto simp: pool_inv_def distinct_remove1)
qed

lemma pool_reach_inv: "pool_reach p mem live \<Longrightarrow> \<exists>fs. pool_inv p mem live fs"
proof (induction rule: pool_reach.induct)
  case (new malloc slot_size per_chunk p mem)
  have p: "po_chunks p = []" "po_cap p = 0" "po_live p = 0" "po_free_list p = 0" "po_per_chunk p \<noteq> 0" "8 \<le> po_slot_size p"
    using new(1) by (auto simp: tcc_pool_new_def Let_def split: if_splits)
  then have "8 \<le> unat (po_slot_size p)" by (simp add: word_le_nat_alt)
  then have "pool_inv p mem [] []" using new(3) p by (simp add: pool_inv_def pool_shape_def pool_slots_def)
  then show ?case by blast
next
  case (alloc p mem live malloc s p')
  then show ?case using pool_alloc_ok by blast
next
  case (free p mem live s mem' p')
  then show ?case using pool_free_ok by blast
next
  case (client p mem live mem')
  then obtain fs where fs: "pool_inv p mem live fs" by blast
  then have "set fs \<subseteq> pool_slots p - set live" by (auto simp: pool_inv_def)
  then have "free_chain mem' (po_free_list p) fs"
    using fs client(2) free_chain_cong [of mem "po_free_list p" fs mem'] by (auto simp: pool_inv_def)
  then have "pool_inv p mem' live fs" using fs by (simp add: pool_inv_def)
  then show ?case by blast
qed

lemma pool_separate:
  assumes "pool_inv p mem live fs"
  shows "separate (map (\<lambda>s. (s, po_slot_size p)) live)"
proof -
  have sh: "pool_shape p" and sub: "set live \<subseteq> pool_slots p" and d: "distinct live" using assms by (auto simp: pool_inv_def)
  have "area (live ! i) (po_slot_size p) \<inter> area (live ! j) (po_slot_size p) = {}" if "i < j" "j < length live" for i j
    using that d sub by (intro slots_disjoint [OF sh]) (auto simp: nth_eq_iff_index_eq subset_iff)
  then show ?thesis by (simp add: separate_def sorted_wrt_iff_nth_less)
qed

interpretation pool: allocator "\<lambda>p live. \<exists>mem slots. pool_reach p mem slots \<and> live = map (\<lambda>s. (s, po_slot_size p)) slots"
  by unfold_locales (use pool_reach_inv pool_separate in blast)

text \<open>C28: In every state a pool can reach, whatever the program writes to its slots, the slots it holds are different,
  do not overlap and lie in the chunks, and the counters give their number and the slots there are.\<close>

theorem pool_slots_disjoint:
  assumes "pool_reach p mem live"
  shows "distinct live \<and> separate (map (\<lambda>s. (s, po_slot_size p)) live) \<and>
    (\<forall>s\<in>set live. \<exists>c\<in>set (po_chunks p). area s (po_slot_size p) \<subseteq> chunk_area p c) \<and>
    tcc_pool_live p = of_nat (length live) \<and> tcc_pool_cap p = of_nat (length (po_chunks p)) * po_per_chunk p"
proof -
  obtain fs where inv: "pool_inv p mem live fs" using pool_reach_inv [OF assms] by blast
  then have sh: "pool_shape p" and sub: "set live \<subseteq> pool_slots p" and d: "distinct live" by (auto simp: pool_inv_def)
  have "separate (map (\<lambda>s. (s, po_slot_size p)) live)" by (rule pool_separate [OF inv])
  moreover have "\<exists>c\<in>set (po_chunks p). area s (po_slot_size p) \<subseteq> chunk_area p c" if "s \<in> set live" for s
  proof -
    have "s \<in> pool_slots p" using sub that by blast
    then obtain c where "c \<in> set (po_chunks p)" "s \<in> chunk_slots (po_slot_size p) c" by (auto simp: pool_slots_def)
    then show ?thesis using slot_areas(1) [OF sh] by blast
  qed
  ultimately show ?thesis using inv d by (simp add: pool_inv_def pool_shape_def tcc_pool_live_def tcc_pool_cap_def)
qed

text \<open>The size of a chunk is computed without a test: if it wraps around, the chunk is too small.\<close>

lemma pool_chunk_size_wraps:
  "pool_grow (\<lambda>n. if n = 16 then 0x1000 else 0) (the (tcc_pool_new (\<lambda>_. 1) (2 ^ 60) 16)) \<noteq> None"
  by (simp add: tcc_pool_new_def pool_grow_def Let_def)

lemma pool_slots_disjoint_witness:
  "\<exists>p s t. s \<noteq> 0 \<and> t \<noteq> 0 \<and> pool_reach p (\<lambda>_. 7) [t, s] \<and> area t 24 \<inter> area s 24 = {}"
proof -
  let ?m = "\<lambda>n :: u64. if n \<le> 0x100000 then 0x20000 else 0 :: u64"
  obtain p where p: "tcc_pool_new ?m 20 4 = Some p" by (simp add: tcc_pool_new_def Let_def)
  have e: "p = \<lparr>po_slot_size = 24, po_per_chunk = 4, po_cap = 0, po_live = 0, po_chunks = [], po_free_list = 0\<rparr>"
    using p by (simp add: tcc_pool_new_def)
  have r: "pool_reach p (\<lambda>_. 7) []" using pool_reach.new [OF p] by (simp add: e)
  obtain s p1 where p1: "tcc_pool_alloc ?m (\<lambda>_. 7) p = (s, p1)" by fastforce
  have e1: "s = 0x20010" "p1 = p\<lparr>po_cap := 4, po_live := 1, po_chunks := [\<lparr>ch_ptr = 0x20000, ch_filled = 1\<rparr>]\<rparr>"
    using p1 by (simp_all add: e tcc_pool_alloc_def pool_grow_def pool_bump_def slot_ptr_def)
  have "malloc_ok ?m []" by (auto simp: malloc_ok_def word_le_nat_alt)
  then have r1: "pool_reach p1 (\<lambda>_. 7) [s]" using pool_reach.alloc [OF r _ p1] e1(1) by (simp add: e)
  obtain t p2 where p2: "tcc_pool_alloc (\<lambda>_. 0) (\<lambda>_. 7) p1 = (t, p2)" by fastforce
  have e2: "t = 0x20028" "po_slot_size p2 = 24"
    using p2 by (auto simp: e1 e tcc_pool_alloc_def pool_bump_def slot_ptr_def)
  have "malloc_ok (\<lambda>_. 0) (map (chunk_area p1) (po_chunks p1))" by (simp add: malloc_ok_def)
  then have r2: "pool_reach p2 (\<lambda>_. 7) [t, s]" using pool_reach.alloc [OF r1 _ p2] e2(1) by simp
  have "area t 24 \<inter> area s 24 = {}" using pool_slots_disjoint [OF r2] e2(2) by simp
  then show ?thesis using r2 e1(1) e2(1) by (intro exI [of _ p2] exI [of _ s] exI [of _ t]) simp
qed

end
