(* ===== verification/Rt_Own.thy ===== *)
theory Rt_Own
  imports Tcc_Prelude
begin

text \<open>
  The table of the owners of pointers (\<open>lib/tcc-own.h\<close>), which tells \<open>tcc_release\<close> what it may free. The array with
  its counter is a list, and the table implements a map from pointers to owners.
\<close>

section \<open>The table\<close>

datatype tcc_owner = OWNER_NONE | OWNER_HEAP | OWNER_ARENA | OWNER_POOL | OWNER_CTMEM | OWNER_MMAP

abbreviation (input) TCC_OWN_MAX :: nat where "TCC_OWN_MAX \<equiv> 4096"

type_synonym tcc_own_tab = "(u64 \<times> tcc_owner) list"

fun tcc_own_lookup :: "tcc_own_tab \<Rightarrow> u64 \<Rightarrow> tcc_owner" where
  "tcc_own_lookup [] p = OWNER_NONE"
| "tcc_own_lookup ((q, owner) # g) p = (if q = p then owner else tcc_own_lookup g p)"

text \<open>What the call returns, and the table.\<close>

definition tcc_own_register :: "tcc_own_tab \<Rightarrow> u64 \<Rightarrow> tcc_owner \<Rightarrow> bool \<times> tcc_own_tab" where
  "tcc_own_register g p owner =
     (if p = 0 \<or> owner = OWNER_NONE then (False, g)
      else if tcc_own_lookup g p \<noteq> OWNER_NONE then (True, g)
      else if length g \<ge> TCC_OWN_MAX then (True, g)
      else (True, g @ [(p, owner)]))"

text \<open>The last entry takes the place of the one that goes.\<close>

fun own_index :: "tcc_own_tab \<Rightarrow> u64 \<Rightarrow> nat option" where
  "own_index [] p = None"
| "own_index ((q, owner) # g) p = (if q = p then Some 0 else map_option Suc (own_index g p))"

definition tcc_own_unregister :: "tcc_own_tab \<Rightarrow> u64 \<Rightarrow> bool \<times> tcc_own_tab" where
  "tcc_own_unregister g p =
     (case own_index g p of
        Some i \<Rightarrow> (True, butlast (g[i := last g]))
      | None \<Rightarrow> (False, g))"

datatype release = Misuse_unmanaged | Freed | Refuse_arena | Refuse_mmap | Refuse_ctmem | Refuse_pool

definition tcc_release :: "tcc_own_tab \<Rightarrow> u64 \<Rightarrow> release \<times> tcc_own_tab" where
  "tcc_release g p =
     (case tcc_own_lookup g p of
        OWNER_NONE \<Rightarrow> (Misuse_unmanaged, g)
      | OWNER_HEAP \<Rightarrow> (Freed, snd (tcc_own_unregister g p))
      | OWNER_ARENA \<Rightarrow> (Refuse_arena, g)
      | OWNER_MMAP \<Rightarrow> (Refuse_mmap, g)
      | OWNER_CTMEM \<Rightarrow> (Refuse_ctmem, g)
      | OWNER_POOL \<Rightarrow> (Refuse_pool, g))"

definition tcc_owner_name :: "tcc_owner \<Rightarrow> string" where
  "tcc_owner_name owner =
     (case owner of OWNER_HEAP \<Rightarrow> ''heap'' | OWNER_ARENA \<Rightarrow> ''arena'' | OWNER_POOL \<Rightarrow> ''pool''
      | OWNER_CTMEM \<Rightarrow> ''ctmem'' | OWNER_MMAP \<Rightarrow> ''mmap'' | OWNER_NONE \<Rightarrow> ''unknown'')"

section \<open>A map from pointers to owners\<close>

definition own_ok :: "tcc_own_tab \<Rightarrow> bool" where
  "own_ok g \<longleftrightarrow> distinct (map fst g) \<and> length g \<le> TCC_OWN_MAX \<and> (\<forall>(p, owner)\<in>set g. p \<noteq> 0 \<and> owner \<noteq> OWNER_NONE)"

lemma lookup_map_of: "tcc_own_lookup g p = (case map_of g p of None \<Rightarrow> OWNER_NONE | Some owner \<Rightarrow> owner)"
  by (induction g) auto

lemma map_of_snoc: "map_of (g @ [(p, v)]) = (if map_of g p = None then (map_of g)(p \<mapsto> v) else map_of g)"
  by (induction g) (auto simp: fun_eq_iff)

lemma lookup_NONE_iff: "own_ok g \<Longrightarrow> tcc_own_lookup g p = OWNER_NONE \<longleftrightarrow> map_of g p = None"
  by (auto simp: lookup_map_of own_ok_def split: option.splits dest!: map_of_SomeD)

lemma own_index:
  "own_index g p = None \<longleftrightarrow> map_of g p = None"
  "own_index g p = Some i \<Longrightarrow> i < length g \<and> fst (g ! i) = p"
  by (induction g arbitrary: i) (auto split: if_splits)

lemma mset_swap_last:
  assumes "i < length g"
  shows "mset (g ! i # butlast (g[i := last g])) = mset g"
proof -
  let ?h = "g[i := last g]"
  have h: "?h \<noteq> []" "last ?h = last g" using assms by (cases "g = []"; simp add: last_conv_nth nth_list_update)+
  then have "mset ?h = add_mset (last g) (mset (butlast ?h))"
    using arg_cong [OF append_butlast_last_id [OF h(1)], of mset] by simp
  moreover have "add_mset (g ! i) (mset ?h) = add_mset (last g) (mset g)"
    using assms by (simp add: mset_update)
  ultimately have "add_mset (last g) (add_mset (g ! i) (mset (butlast ?h))) = add_mset (last g) (mset g)"
    by (simp add: add_mset_commute)
  then show ?thesis by simp
qed

lemma map_of_swap_last:
  assumes "distinct (map fst g)" "i < length g"
  shows "map_of (butlast (g[i := last g])) = (map_of g)(fst (g ! i) := None)"
    and "distinct (map fst (butlast (g[i := last g])))"
    and "set (butlast (g[i := last g])) \<subseteq> set g"
proof -
  let ?h = "butlast (g[i := last g])"
  have m: "mset (g ! i # ?h) = mset g" using mset_swap_last [OF assms(2)] .
  then have "mset (map fst (g ! i # ?h)) = mset (map fst g)" by (simp only: mset_map)
  then have d: "distinct (map fst (g ! i # ?h))" using assms(1) mset_eq_imp_distinct_iff by blast
  have s: "set (g ! i # ?h) = set g" using m by (rule mset_eq_setD)
  have "map_of (g ! i # ?h) = map_of g" using map_of_inject_set [OF d assms(1)] s by simp
  moreover have "map_of ?h (fst (g ! i)) = None" using d by (simp add: map_of_eq_None_iff)
  ultimately show "map_of ?h = (map_of g)(fst (g ! i) := None)"
    by (metis fun_upd_triv fun_upd_upd map_of.simps(2))
  show "distinct (map fst ?h)" using d by simp
  show "set ?h \<subseteq> set g" using s by auto
qed

lemma unregister_refines:
  assumes "own_ok g" "tcc_own_unregister g p = (r, g')"
  shows "own_ok g'" "map_of g' = (map_of g)(p := None)" "r \<longleftrightarrow> map_of g p \<noteq> None"
proof -
  have "own_ok g' \<and> map_of g' = (map_of g)(p := None) \<and> (r \<longleftrightarrow> map_of g p \<noteq> None)"
  proof (cases "own_index g p")
    case None
    then show ?thesis using assms own_index(1) [of g p] by (auto simp: tcc_own_unregister_def)
  next
    case (Some i)
    then have i: "i < length g" "fst (g ! i) = p" using own_index(2) by blast+
    have "map_of g p \<noteq> None" using own_index(1) [of g p] Some by simp
    then show ?thesis
      using assms Some map_of_swap_last [of g i] i by (auto simp: tcc_own_unregister_def own_ok_def)
  qed
  then show "own_ok g'" "map_of g' = (map_of g)(p := None)" "r \<longleftrightarrow> map_of g p \<noteq> None" by blast+
qed

text \<open>C31: The table implements a map. Registering adds an owner if the pointer has none and the table is not full.
  A pointer that is registered already keeps its first owner, which is not what the comment in the source says
  (line 94: it is overwritten); in that case, and when the table is full, the call still answers that it has
  registered the pointer. Releasing frees exactly the pointers whose first owner is the heap, once, and refuses all
  others.\<close>

theorem own_table_refines:
  assumes "own_ok g"
  shows "own_ok (snd (tcc_own_register g p owner)) \<and>
    (fst (tcc_own_register g p owner) \<longleftrightarrow> p \<noteq> 0 \<and> owner \<noteq> OWNER_NONE) \<and>
    map_of (snd (tcc_own_register g p owner)) =
      (if p \<noteq> 0 \<and> owner \<noteq> OWNER_NONE \<and> map_of g p = None \<and> length g < TCC_OWN_MAX then (map_of g)(p \<mapsto> owner) else map_of g) \<and>
    own_ok (snd (tcc_release g p)) \<and>
    (fst (tcc_release g p) = Freed \<longleftrightarrow> map_of g p = Some OWNER_HEAP) \<and>
    (fst (tcc_release g p) = Misuse_unmanaged \<longleftrightarrow> map_of g p = None) \<and>
    map_of (snd (tcc_release g p)) = (if map_of g p = Some OWNER_HEAP then (map_of g)(p := None) else map_of g)"
proof -
  have reg: "own_ok (snd (tcc_own_register g p owner)) \<and>
    (fst (tcc_own_register g p owner) \<longleftrightarrow> p \<noteq> 0 \<and> owner \<noteq> OWNER_NONE) \<and>
    map_of (snd (tcc_own_register g p owner)) =
      (if p \<noteq> 0 \<and> owner \<noteq> OWNER_NONE \<and> map_of g p = None \<and> length g < TCC_OWN_MAX then (map_of g)(p \<mapsto> owner) else map_of g)"
    using assms lookup_NONE_iff [OF assms, of p]
    by (auto simp: tcc_own_register_def own_ok_def map_of_snoc simp del: map_of_append simp flip: map_of_eq_None_iff)
  obtain r g' where u: "tcc_own_unregister g p = (r, g')" by fastforce
  note un = unregister_refines [OF assms u]
  have "tcc_own_lookup g p = (case map_of g p of None \<Rightarrow> OWNER_NONE | Some owner \<Rightarrow> owner)" by (rule lookup_map_of)
  moreover have "map_of g p \<noteq> Some OWNER_NONE" using assms by (auto simp: own_ok_def dest!: map_of_SomeD)
  ultimately have "own_ok (snd (tcc_release g p)) \<and>
    (fst (tcc_release g p) = Freed \<longleftrightarrow> map_of g p = Some OWNER_HEAP) \<and>
    (fst (tcc_release g p) = Misuse_unmanaged \<longleftrightarrow> map_of g p = None) \<and>
    map_of (snd (tcc_release g p)) = (if map_of g p = Some OWNER_HEAP then (map_of g)(p := None) else map_of g)"
    using assms un(1,2) u by (auto simp: tcc_release_def split: option.split tcc_owner.split)
  then show ?thesis using reg by blast
qed

text \<open>A pointer that is registered again keeps its first owner, although the source says it is overwritten. So memory
  of the heap that the program frees and gets back as part of an arena is freed by \<open>tcc_release\<close>.\<close>

lemma register_keeps_owner: "tcc_own_register [(8, OWNER_HEAP)] 8 OWNER_ARENA = (True, [(8, OWNER_HEAP)])"
  by (simp add: tcc_own_register_def)

lemma own_table_refines_witness:
  "map_of (snd (tcc_own_register [(8, OWNER_ARENA)] 16 OWNER_HEAP)) = [8 \<mapsto> OWNER_ARENA, 16 \<mapsto> OWNER_HEAP]"
proof -
  have "own_ok [(8, OWNER_ARENA)]" by (simp add: own_ok_def)
  from own_table_refines [OF this, of 16 OWNER_HEAP] show ?thesis by (simp add: fun_eq_iff)
qed

end
