(* ===== verification/Rt_Bump.thy ===== *)
theory Rt_Bump
  imports Rt_Alloc Le_Bytes
begin

text \<open>
  Allocators in one piece of memory: a buffer of the program (\<open>lib/tcc-ctmem.h\<close>) and a file that is mapped to memory,
  whose first 8 bytes hold the offset (\<open>lib/tcc-mmap.h\<close>); and the table of pointers that leave an arena
  (\<open>lib/tcc-esc.h\<close>).
\<close>

unbundle bit_operations_syntax

text \<open>The offset of an allocation and the one after it: the same lines in both files.\<close>

definition bump :: "u64 \<Rightarrow> u64 \<Rightarrow> u64 \<Rightarrow> u64 \<Rightarrow> (u64 \<times> u64) option" where
  "bump cap off sz align =
     (let sz = (if sz = 0 then 1 else sz); align = (if align = 0 then 1 else align); aoff = round_up off align
      in if aoff + sz > cap then None else Some (aoff, aoff + sz))"

section \<open>A buffer of the program\<close>

record tcc_ctmem =
  ct_base :: u64
  ct_cap :: u64
  ct_off :: u64

definition tcc_ctmem_begin :: "u64 \<Rightarrow> u64 \<Rightarrow> tcc_ctmem" where
  "tcc_ctmem_begin buf cap = \<lparr>ct_base = buf, ct_cap = cap, ct_off = 0\<rparr>"

definition tcc_ctmem_alloc :: "tcc_ctmem \<Rightarrow> u64 \<Rightarrow> u64 \<Rightarrow> u64 \<times> tcc_ctmem" where
  "tcc_ctmem_alloc c sz align =
     (case bump (ct_cap c) (ct_off c) sz align of
        None \<Rightarrow> (0, c)
      | Some (aoff, off) \<Rightarrow> (ct_base c + aoff, c\<lparr>ct_off := off\<rparr>))"

definition tcc_ctmem_reset :: "tcc_ctmem \<Rightarrow> tcc_ctmem" where
  "tcc_ctmem_reset c = c\<lparr>ct_off := 0\<rparr>"

definition tcc_ctmem_used :: "tcc_ctmem \<Rightarrow> u64" where
  "tcc_ctmem_used c = ct_off c"

definition tcc_ctmem_cap :: "tcc_ctmem \<Rightarrow> u64" where
  "tcc_ctmem_cap c = ct_cap c"

section \<open>A mapped file\<close>

text \<open>\<open>mm_data\<close> is the mapped memory, from the header on, and \<open>mm_file\<close> tells whether \<open>fd\<close> is not -1. A file is a list of bytes. What the system does is given: whether
  \<open>malloc\<close>, \<open>open\<close> and writing to the file succeed, and the address that \<open>mmap\<close> returns, 0 if it fails.\<close>

record tcc_mmap =
  mm_base :: u64
  mm_cap :: u64
  mm_data :: "u8 list"
  mm_file :: bool

record mmap_env =
  env_malloc :: bool
  env_open :: bool
  env_write :: bool
  env_mmap :: u64

definition tcc_mfile_extend :: "mmap_env \<Rightarrow> u8 list \<Rightarrow> u64 \<Rightarrow> u8 list option" where
  "tcc_mfile_extend env file tot =
     (let last_pos = sint tot - 1 in
      if int (length file) > last_pos then Some file
      else if env_write env then Some (file @ replicate (nat last_pos + 1 - length file) 0)
      else None)"

definition tcc_mmap_open_file :: "mmap_env \<Rightarrow> u8 list \<Rightarrow> u64 \<Rightarrow> (tcc_mmap \<times> u8 list) option" where
  "tcc_mmap_open_file env file cap =
     (let tot = 8 + cap in
      if \<not> env_malloc env \<or> \<not> env_open env then None
      else
        case tcc_mfile_extend env file tot of
          None \<Rightarrow> None
        | Some file \<Rightarrow>
            if env_mmap env = 0 then None
            else Some (\<lparr>mm_base = env_mmap env, mm_cap = cap, mm_data = take (unat tot) file, mm_file = True\<rparr>, file))"

definition tcc_mmap_open_anon :: "mmap_env \<Rightarrow> u64 \<Rightarrow> tcc_mmap option" where
  "tcc_mmap_open_anon env cap =
     (if \<not> env_malloc env \<or> env_mmap env = 0 then None
      else Some \<lparr>mm_base = env_mmap env, mm_cap = cap, mm_data = replicate (unat (8 + cap)) 0, mm_file = False\<rparr>)"

definition tcc_mmap_data :: "tcc_mmap \<Rightarrow> u64" where
  "tcc_mmap_data m = mm_base m + 8"

definition tcc_mmap_used :: "tcc_mmap \<Rightarrow> u64" where
  "tcc_mmap_used m = read64le (mm_data m) 0"

definition tcc_mmap_alloc :: "tcc_mmap \<Rightarrow> u64 \<Rightarrow> u64 \<Rightarrow> u64 \<times> tcc_mmap" where
  "tcc_mmap_alloc m sz align =
     (case bump (mm_cap m) (read64le (mm_data m) 0) sz align of
        None \<Rightarrow> (0, m)
      | Some (aoff, off) \<Rightarrow> (tcc_mmap_data m + aoff, m\<lparr>mm_data := write64le (mm_data m) 0 off\<rparr>))"

definition tcc_mmap_reset :: "tcc_mmap \<Rightarrow> tcc_mmap" where
  "tcc_mmap_reset m = m\<lparr>mm_data := write64le (mm_data m) 0 0\<rparr>"

text \<open>The file after \<open>msync\<close>, and when the mapping is given up.\<close>

definition tcc_mmap_sync :: "tcc_mmap \<Rightarrow> u8 list \<Rightarrow> u8 list" where
  "tcc_mmap_sync m file = (if mm_file m then mm_data m @ drop (length (mm_data m)) file else file)"

definition tcc_mmap_close :: "tcc_mmap \<Rightarrow> u8 list \<Rightarrow> u8 list" where
  "tcc_mmap_close m file = tcc_mmap_sync m file"

section \<open>Allocations in a buffer\<close>

definition bump_inv :: "u64 \<Rightarrow> u64 \<Rightarrow> u64 \<Rightarrow> (u64 \<times> u64) list \<Rightarrow> bool" where
  "bump_inv base cap off live \<longleftrightarrow> base \<noteq> 0 \<and> unat base + unat cap \<le> 2 ^ 64 \<and> off \<le> cap \<and>
     (\<forall>x\<in>set live. area (fst x) (snd x) \<subseteq> {unat base..<unat base + unat off}) \<and> separate live"

definition bump_sizes_ok :: "u64 \<Rightarrow> u64 \<Rightarrow> u64 \<Rightarrow> bool" where
  "bump_sizes_ok off sz align \<longleftrightarrow> unat off + unat sz + unat align + 2 < 2 ^ 64"

lemma bump_inv_step:
  assumes "bump_inv base cap off live" "bump_sizes_ok off sz align" "bump cap off sz align = Some (aoff, off')"
  shows "bump_inv base cap off' ((base + aoff, if sz = 0 then 1 else sz) # live)" "base + aoff \<noteq> 0"
proof -
  define n where "n = (if sz = 0 then 1 else sz)"
  define al where "al = (if align = 0 then 1 else align)"
  have z: "0 < unat n" "al \<noteq> 0" by (auto simp: n_def al_def unat_gt_0)
  have ok: "unat off + unat n + unat al < 2 ^ 64" using assms(2) by (auto simp: bump_sizes_ok_def n_def al_def)
  have r: "aoff = round_up off al" "off' = aoff + n" "\<not> aoff + n > cap"
    using assms(3) by (auto simp: bump_def Let_def n_def al_def split: if_splits)
  have a: "unat off \<le> unat aoff" "unat aoff < unat off + unat al" unfolding r(1) using round_up_bounds [OF z(2)] ok by simp_all
  have o: "unat off' = unat aoff + unat n" unfolding r(2) using a ok by (intro unat_add_lem [THEN iffD1]) simp
  have c: "unat aoff + unat n \<le> unat cap" using r(2,3) o by (simp add: word_less_nat_alt not_less)
  have inv: "base \<noteq> 0" "unat base + unat cap \<le> 2 ^ 64" "\<forall>x\<in>set live. area (fst x) (snd x) \<subseteq> {unat base..<unat base + unat off}"
    "separate live" using assms(1) by (auto simp: bump_inv_def)
  have p: "unat (base + aoff) = unat base + unat aoff" using inv(2) c z by (intro unat_add_lem [THEN iffD1]) simp
  have "0 < unat base" using inv(1) by (simp add: unat_gt_0)
  then show "base + aoff \<noteq> 0" using p by auto
  have new: "area (base + aoff) n = {unat base + unat aoff..<unat base + unat aoff + unat n}" using p by (simp add: area_def)
  have "area (base + aoff) n \<inter> area (fst x) (snd x) = {}" if "x \<in> set live" for x
  proof -
    have "area (fst x) (snd x) \<subseteq> {unat base..<unat base + unat off}" using inv(3) that by blast
    then show ?thesis unfolding new using a(1) by fastforce
  qed
  moreover have "area (fst x) (snd x) \<subseteq> {unat base..<unat base + unat off'}" if "x \<in> set live" for x
  proof -
    have "area (fst x) (snd x) \<subseteq> {unat base..<unat base + unat off}" using inv(3) that by blast
    also have "\<dots> \<subseteq> {unat base..<unat base + unat off'}" using o a(1) by auto
    finally show ?thesis .
  qed
  moreover have "area (base + aoff) n \<subseteq> {unat base..<unat base + unat off'}" using o new by auto
  moreover have "off' \<le> cap" using r(2,3) by simp
  ultimately have "bump_inv base cap off' ((base + aoff, n) # live)"
    using inv(1,2,4) unfolding bump_inv_def by simp
  then show "bump_inv base cap off' ((base + aoff, if sz = 0 then 1 else sz) # live)" unfolding n_def .
qed

inductive ctmem_reach :: "tcc_ctmem \<Rightarrow> (u64 \<times> u64) list \<Rightarrow> bool" where
  start: "buf \<noteq> 0 \<Longrightarrow> unat buf + unat cap \<le> 2 ^ 64 \<Longrightarrow> ctmem_reach (tcc_ctmem_begin buf cap) []"
| alloc: "ctmem_reach c live \<Longrightarrow> bump_sizes_ok (ct_off c) sz align \<Longrightarrow> tcc_ctmem_alloc c sz align = (p, c') \<Longrightarrow>
    ctmem_reach c' (if p = 0 then live else (p, if sz = 0 then 1 else sz) # live)"
| reset: "ctmem_reach c live \<Longrightarrow> ctmem_reach (tcc_ctmem_reset c) []"

lemma ctmem_reach_inv: "ctmem_reach c live \<Longrightarrow> bump_inv (ct_base c) (ct_cap c) (ct_off c) live"
proof (induction rule: ctmem_reach.induct)
  case (alloc c live sz align p c')
  then show ?case using bump_inv_step [OF alloc.IH alloc.hyps(2)]
    by (auto simp: tcc_ctmem_alloc_def split: option.splits)
qed (auto simp: bump_inv_def tcc_ctmem_begin_def tcc_ctmem_reset_def)

interpretation ctmem: allocator ctmem_reach
  by unfold_locales (use ctmem_reach_inv in \<open>simp add: bump_inv_def\<close>)

text \<open>The program writes to the mapped memory, but not to the header.\<close>

inductive mmap_reach :: "tcc_mmap \<Rightarrow> (u64 \<times> u64) list \<Rightarrow> bool" where
  open_file: "tcc_mmap_open_file env file cap = Some (m, file') \<Longrightarrow> unat (env_mmap env) + 8 + unat cap < 2 ^ 63 \<Longrightarrow>
    tcc_mmap_used m \<le> cap \<Longrightarrow> mmap_reach m []"
| open_anon: "tcc_mmap_open_anon env cap = Some m \<Longrightarrow> unat (env_mmap env) + 8 + unat cap < 2 ^ 63 \<Longrightarrow> mmap_reach m []"
| alloc: "mmap_reach m live \<Longrightarrow> bump_sizes_ok (tcc_mmap_used m) sz align \<Longrightarrow> tcc_mmap_alloc m sz align = (p, m') \<Longrightarrow>
    mmap_reach m' (if p = 0 then live else (p, if sz = 0 then 1 else sz) # live)"
| reset: "mmap_reach m live \<Longrightarrow> mmap_reach (tcc_mmap_reset m) []"
| client: "mmap_reach m live \<Longrightarrow> length data = length (mm_data m) \<Longrightarrow> take 8 data = take 8 (mm_data m) \<Longrightarrow>
    mmap_reach (m\<lparr>mm_data := data\<rparr>) live"

definition mmap_inv :: "tcc_mmap \<Rightarrow> (u64 \<times> u64) list \<Rightarrow> bool" where
  "mmap_inv m live \<longleftrightarrow> bump_inv (tcc_mmap_data m) (mm_cap m) (tcc_mmap_used m) live \<and>
     length (mm_data m) = 8 + unat (mm_cap m) \<and> unat (mm_cap m) + 8 < 2 ^ 63"

lemma sint_small: "unat (w :: u64) < 2 ^ 63 \<Longrightarrow> sint w = int (unat w)"
proof -
  assume "unat w < 2 ^ 63"
  then have u: "uint w < 2 ^ 63" using of_nat_less_iff [of "unat w" "2 ^ 63", where 'a = int] by simp
  have "sint w = signed_take_bit 63 (uint w)" by (simp add: sint_uint)
  also have "\<dots> = uint w" using u order_trans [OF _ uint_ge_0 [of w], of "- (2 ^ 63)"] by (intro signed_take_bit_int_eq_self) simp_all
  finally show ?thesis by simp
qed

lemma unat_8_add: "unat (cap :: u64) + 8 < 2 ^ 63 \<Longrightarrow> unat (8 + cap) = 8 + unat cap"
  by (subst unat_add_lem [THEN iffD1]) simp_all

lemma extend_length:
  assumes "tcc_mfile_extend env file tot = Some file'" "unat tot < 2 ^ 63"
  shows "length file' = max (length file) (unat tot)" "take (length file) file' = file"
proof -
  define n where "n = unat tot"
  have s: "sint tot = int n" unfolding n_def using sint_small [OF assms(2)] .
  show "length file' = max (length file) (unat tot)" "take (length file) file' = file"
    using assms(1) unfolding tcc_mfile_extend_def s Let_def n_def [symmetric] by (auto split: if_splits)
qed

lemma read64le_take: "take 8 xs = take 8 ys \<Longrightarrow> 8 \<le> length xs \<Longrightarrow> length xs = length ys \<Longrightarrow> read64le xs 0 = read64le ys 0"
proof (rule read64le_cong)
  fix i :: nat assume "take 8 xs = take 8 ys" "i < 0 + 8"
  then show "xs ! i = ys ! i" using nth_take [of i 8 xs] nth_take [of i 8 ys] by simp
qed

lemma read64le_zeros: "8 \<le> n \<Longrightarrow> read64le (replicate n 0) 0 = 0"
  by (simp add: read64le_def read32le_def read16le_def)

lemma mmap_reach_inv: "mmap_reach m live \<Longrightarrow> mmap_inv m live"
proof (induction rule: mmap_reach.induct)
  case (open_file env fil cap m fil')
  then obtain f where f: "tcc_mfile_extend env fil (8 + cap) = Some f" "env_mmap env \<noteq> 0"
    "m = \<lparr>mm_base = env_mmap env, mm_cap = cap, mm_data = take (unat (8 + cap)) f, mm_file = True\<rparr>"
    by (auto simp: tcc_mmap_open_file_def Let_def split: if_splits option.splits)
  have c: "unat (8 + cap) = 8 + unat cap" using unat_8_add [of cap] open_file(2) by simp
  have "unat (env_mmap env + 8) = unat (env_mmap env) + 8" using open_file(2) by (subst unat_add_lem [THEN iffD1]) simp_all
  then show ?case using f c extend_length [OF f(1)] open_file(2,3)
    by (auto simp: mmap_inv_def bump_inv_def tcc_mmap_data_def)
next
  case (open_anon env cap m)
  then have m: "m = \<lparr>mm_base = env_mmap env, mm_cap = cap, mm_data = replicate (unat (8 + cap)) 0, mm_file = False\<rparr>" "env_mmap env \<noteq> 0"
    by (auto simp: tcc_mmap_open_anon_def split: if_splits)
  have c: "unat (8 + cap) = 8 + unat cap" using unat_8_add [of cap] open_anon(2) by simp
  have "unat (env_mmap env + 8) = unat (env_mmap env) + 8" using open_anon(2) by (subst unat_add_lem [THEN iffD1]) simp_all
  then show ?case using m c open_anon(2)
    by (auto simp: mmap_inv_def bump_inv_def tcc_mmap_data_def tcc_mmap_used_def read64le_zeros)
next
  case (alloc m live sz align p m')
  then have inv: "bump_inv (tcc_mmap_data m) (mm_cap m) (tcc_mmap_used m) live" "length (mm_data m) = 8 + unat (mm_cap m)"
    "unat (mm_cap m) + 8 < 2 ^ 63" by (simp_all add: mmap_inv_def)
  show ?case
  proof (cases "bump (mm_cap m) (read64le (mm_data m) 0) sz align")
    case None
    then show ?thesis using alloc by (simp add: tcc_mmap_alloc_def)
  next
    case (Some r)
    then obtain aoff off where r: "bump (mm_cap m) (tcc_mmap_used m) sz align = Some (aoff, off)"
      by (cases r) (simp add: tcc_mmap_used_def)
    then have m': "p = tcc_mmap_data m + aoff" "m' = m\<lparr>mm_data := write64le (mm_data m) 0 off\<rparr>"
      using alloc.hyps(3) by (simp_all add: tcc_mmap_alloc_def tcc_mmap_used_def)
    then show ?thesis using bump_inv_step [OF inv(1) alloc.hyps(2) r] inv(2,3)
      by (simp add: mmap_inv_def tcc_mmap_used_def tcc_mmap_data_def)
  qed
next
  case (reset m live)
  then show ?case by (auto simp: mmap_inv_def bump_inv_def tcc_mmap_reset_def tcc_mmap_used_def tcc_mmap_data_def)
next
  case (client m live data)
  then have "read64le data 0 = read64le (mm_data m) 0" by (intro read64le_take) (auto simp: mmap_inv_def)
  then show ?case using client by (simp add: mmap_inv_def tcc_mmap_used_def tcc_mmap_data_def)
qed

interpretation mmap: allocator mmap_reach
  by unfold_locales (use mmap_reach_inv in \<open>simp add: mmap_inv_def bump_inv_def\<close>)

text \<open>C32: What a mapping of a file holds when it is closed, with the offset of its allocations, is there again when the file is
  opened with the same size, and a mapping never hands out memory behind its end or twice.\<close>

theorem mmap_persists:
  assumes "mmap_reach m live" "mm_file m" "tcc_mmap_open_file env (tcc_mmap_close m file) (mm_cap m) = Some (m', file')"
  shows "mm_data m' = mm_data m \<and> tcc_mmap_used m' = tcc_mmap_used m \<and> mm_cap m' = mm_cap m \<and> separate live \<and>
    (\<forall>x\<in>set live. area (fst x) (snd x) \<subseteq> {unat (tcc_mmap_data m)..<unat (tcc_mmap_data m) + unat (mm_cap m)})"
proof -
  have inv: "mmap_inv m live" using mmap_reach_inv [OF assms(1)] .
  let ?f = "tcc_mmap_close m file"
  have c: "unat (8 + mm_cap m) = length (mm_data m)" using inv unat_8_add [of "mm_cap m"] by (simp add: mmap_inv_def)
  obtain f where f: "tcc_mfile_extend env ?f (8 + mm_cap m) = Some f"
    "m' = \<lparr>mm_base = env_mmap env, mm_cap = mm_cap m, mm_data = take (unat (8 + mm_cap m)) f, mm_file = True\<rparr>"
    using assms(3) by (auto simp: tcc_mmap_open_file_def Let_def split: if_splits option.splits)
  have "take (length ?f) f = ?f" using extend_length(2) [OF f(1)] inv c assms(2) by (simp add: mmap_inv_def)
  then have "take (length (mm_data m)) (take (length ?f) f) = take (length (mm_data m)) ?f" by simp
  then have "take (length (mm_data m)) f = mm_data m" using assms(2) by (simp add: tcc_mmap_close_def tcc_mmap_sync_def min_def split: if_splits)
  then have "mm_data m' = mm_data m" using f(2) c by simp
  moreover have "unat (tcc_mmap_used m) \<le> unat (mm_cap m)" using inv by (simp add: mmap_inv_def bump_inv_def word_le_nat_alt)
  then have "\<forall>x\<in>set live. area (fst x) (snd x) \<subseteq> {unat (tcc_mmap_data m)..<unat (tcc_mmap_data m) + unat (mm_cap m)}"
    using inv by (fastforce simp: mmap_inv_def bump_inv_def)
  ultimately show ?thesis using f(2) inv by (simp add: tcc_mmap_used_def mmap_inv_def bump_inv_def)
qed

text \<open>With a size near \<open>2 ^ 64\<close> the test for room wraps around here too.\<close>

lemma bump_size_wraps: "bump 64 1 (- 1) 1 = Some (1, 0)"
  by (simp add: bump_def round_up_def)

lemma mmap_persists_witness:
  "\<exists>m m' p file'. mmap_reach m [(p, 24)] \<and> p = 0x7008 \<and>
     tcc_mmap_open_file \<lparr>env_malloc = True, env_open = True, env_write = True, env_mmap = 0x9000\<rparr> (tcc_mmap_close m []) 64 = Some (m', file') \<and>
     tcc_mmap_used m' = 24"
proof -
  let ?env = "\<lparr>env_malloc = True, env_open = True, env_write = True, env_mmap = 0x7000\<rparr>"
  have opened: "\<exists>m' f'. tcc_mmap_open_file \<lparr>env_malloc = True, env_open = True, env_write = True, env_mmap = b\<rparr> fl 64 = Some (m', f')"
    if "b \<noteq> 0" for b fl using that by (simp add: tcc_mmap_open_file_def tcc_mfile_extend_def Let_def)
  define m0 where "m0 = \<lparr>mm_base = 0x7000, mm_cap = 64, mm_data = replicate 72 (0::u8), mm_file = True\<rparr>"
  have o0: "tcc_mmap_open_file ?env [] 64 = Some (m0, replicate 72 0)"
    by (simp add: tcc_mmap_open_file_def tcc_mfile_extend_def m0_def Let_def)
  have e0: "mm_base m0 = 0x7000" "mm_cap m0 = 64" "tcc_mmap_used m0 = 0" "length (mm_data m0) = 72" "mm_file m0"
    by (simp_all add: m0_def tcc_mmap_used_def read64le_zeros)
  have r0: "mmap_reach m0 []" by (rule mmap_reach.open_file [OF o0]) (simp_all add: e0)
  obtain p m where m: "tcc_mmap_alloc m0 24 8 = (p, m)" by fastforce
  have b: "bump 64 0 24 8 = Some (0, 24)" by (simp add: bump_def round_up_def)
  have p: "p = 0x7008" "mm_cap m = 64" "tcc_mmap_used m = 24" "length (mm_data m) = 72" "mm_file m"
    using m b e0 by (auto simp: tcc_mmap_alloc_def tcc_mmap_data_def simp flip: tcc_mmap_used_def)
      (auto simp: tcc_mmap_used_def)
  have r1: "mmap_reach m [(p, 24)]" using mmap_reach.alloc [OF r0 _ m] p e0 by (simp add: bump_sizes_ok_def)
  let ?env' = "\<lparr>env_malloc = True, env_open = True, env_write = True, env_mmap = 0x9000\<rparr>"
  obtain m' f where m': "tcc_mmap_open_file ?env' (tcc_mmap_close m []) (mm_cap m) = Some (m', f)"
    unfolding p(2) using opened [where b = "0x9000" and fl = "tcc_mmap_close m []"] by auto
  have "tcc_mmap_used m' = 24" using mmap_persists [OF r1 p(5) m'] p(3) by simp
  then show ?thesis using r1 p m' by (intro exI [of _ m] exI [of _ m'] exI [of _ p] exI [of _ f]) simp
qed

section \<open>Pointers that leave an arena\<close>

record tcc_esc =
  es_ptr :: u64
  es_slot :: u64
  es_holder :: string
  es_epoch :: u32
  es_active :: bool

abbreviation (input) TCC_ESC_MAX :: nat where "TCC_ESC_MAX \<equiv> 128"

definition esc_match :: "u64 \<Rightarrow> u64 \<Rightarrow> tcc_esc \<Rightarrow> bool" where
  "esc_match p slot e \<longleftrightarrow> es_active e \<and> es_ptr e = p \<and> es_slot e = slot"

text \<open>Whether the message that the table is full is printed, and the table.\<close>

definition tcc_esc_register :: "tcc_esc list \<Rightarrow> u64 \<Rightarrow> u64 \<Rightarrow> string \<Rightarrow> u32 \<Rightarrow> bool \<times> tcc_esc list" where
  "tcc_esc_register g p slot holder epoch =
     (if length g \<ge> TCC_ESC_MAX then (True, g)
      else if \<exists>e\<in>set g. esc_match p slot e then (False, g)
      else (False, g @ [\<lparr>es_ptr = p, es_slot = slot, es_holder = holder, es_epoch = epoch, es_active = True\<rparr>]))"

fun tcc_esc_revoke :: "tcc_esc list \<Rightarrow> u64 \<Rightarrow> u64 \<Rightarrow> tcc_esc list" where
  "tcc_esc_revoke [] p slot = []"
| "tcc_esc_revoke (e # g) p slot =
     (if esc_match p slot e then e\<lparr>es_active := False\<rparr> # g else e # tcc_esc_revoke g p slot)"

text \<open>The entries that are reported.\<close>

definition tcc_esc_check :: "tcc_esc list \<Rightarrow> u32 \<Rightarrow> tcc_esc list" where
  "tcc_esc_check g epoch = filter (\<lambda>e. es_active e \<and> es_epoch e \<noteq> epoch) g"

text \<open>The table is a set of pointers and places; every pair is in it once.\<close>

definition esc_set :: "tcc_esc list \<Rightarrow> (u64 \<times> u64) set" where
  "esc_set g = {(es_ptr e, es_slot e) | e. e \<in> set g \<and> es_active e}"

definition esc_ok :: "tcc_esc list \<Rightarrow> bool" where
  "esc_ok g \<longleftrightarrow> distinct (map (\<lambda>e. (es_ptr e, es_slot e)) (filter es_active g)) \<and> length g \<le> TCC_ESC_MAX"

lemma esc_set_simps [simp]:
  "esc_set [] = {}" "esc_set (e # g) = (if es_active e then {(es_ptr e, es_slot e)} else {}) \<union> esc_set g"
  "esc_set (g @ h) = esc_set g \<union> esc_set h"
  by (auto simp: esc_set_def)

lemma esc_match_set: "(\<exists>e\<in>set g. esc_match p slot e) \<longleftrightarrow> (p, slot) \<in> esc_set g"
  by (auto simp: esc_match_def esc_set_def)

lemma esc_keys: "set (map (\<lambda>e. (es_ptr e, es_slot e)) (filter es_active g)) = esc_set g"
  by (auto simp: esc_set_def)

lemma esc_register_refines:
  assumes "esc_ok g" "length g < TCC_ESC_MAX" "tcc_esc_register g p slot holder epoch = (full, g')"
  shows "\<not> full" "esc_ok g'" "esc_set g' = insert (p, slot) (esc_set g)"
proof -
  have "\<not> full \<and> esc_ok g' \<and> esc_set g' = insert (p, slot) (esc_set g)"
  proof (cases "(p, slot) \<in> esc_set g")
    case True
    then show ?thesis using assms by (auto simp: tcc_esc_register_def esc_match_set)
  next
    case False
    then have "(p, slot) \<notin> set (map (\<lambda>e. (es_ptr e, es_slot e)) (filter es_active g))" by (simp only: esc_keys not_False_eq_True)
    then show ?thesis using assms False by (auto simp: tcc_esc_register_def esc_match_set esc_ok_def)
  qed
  then show "\<not> full" "esc_ok g'" "esc_set g' = insert (p, slot) (esc_set g)" by blast+
qed

lemma esc_revoke_refines:
  "esc_ok g \<Longrightarrow> esc_ok (tcc_esc_revoke g p slot) \<and> esc_set (tcc_esc_revoke g p slot) = esc_set g - {(p, slot)}"
proof (induction g)
  case (Cons e g)
  have g: "esc_ok g" using Cons.prems by (auto simp: esc_ok_def split: if_splits)
  have len: "length (tcc_esc_revoke h p slot) = length h" for h by (induction h) auto
  have e: "es_active e \<Longrightarrow> (es_ptr e, es_slot e) \<notin> esc_set g" using Cons.prems esc_keys [of g] by (auto simp: esc_ok_def)
  have keys: "set (map (\<lambda>e. (es_ptr e, es_slot e)) (filter es_active (tcc_esc_revoke g p slot))) = esc_set g - {(p, slot)}"
    unfolding esc_keys using Cons.IH [OF g] by blast
  show ?case
  proof (cases "esc_match p slot e")
    case True
    then show ?thesis using g e Cons.prems by (auto simp: esc_match_def esc_ok_def)
  next
    case False
    have "esc_ok (e # tcc_esc_revoke g p slot)"
      using Cons.IH [OF g] Cons.prems keys e len [of g] unfolding esc_ok_def by (auto simp del: set_map set_filter)
    then show ?thesis using False Cons.IH [OF g] e by (auto simp: esc_match_def)
  qed
qed (simp add: esc_ok_def)

text \<open>An entry that is revoked stays in the array, so after 128 registrations nothing more is recorded, even if all
  of them were revoked.\<close>

lemma esc_table_fills:
  assumes "length g = TCC_ESC_MAX" "esc_set g = {}"
  shows "tcc_esc_register g p slot holder epoch = (True, g)"
  using assms by (simp add: tcc_esc_register_def)

end
