(* ===== verification/Rt_Int64.thy ===== *)
theory Rt_Int64
  imports Complex_Main Tcc_Prelude "HOL-Library.Signed_Division"
begin

text \<open>
  64-bit arithmetic of the run-time library (\<open>lib/libtcc1.c\<close>) for targets with 32-bit registers: division, after
  the algorithm of libgcc, and shifts, and the conversion of floating point numbers to integers, which works on
  their bits. A pair of words, \<open>DWunion\<close>, is a 64-bit word with its halves \<open>high\<close> and \<open>low\<close>. The four macros are
  instructions of the processor; \<open>divl\<close> traps, \<open>None\<close>, when its quotient needs more than 32 bits.
\<close>

unbundle bit_operations_syntax

section \<open>Division\<close>

definition high :: "u64 \<Rightarrow> u32" where "high w = ucast (drop_bit 32 w)"
definition low :: "u64 \<Rightarrow> u32" where "low w = ucast w"
definition dw :: "u32 \<Rightarrow> u32 \<Rightarrow> u64" where "dw h l = push_bit 32 (ucast h) OR ucast l"

definition sub_ddmmss :: "u32 \<Rightarrow> u32 \<Rightarrow> u32 \<Rightarrow> u32 \<Rightarrow> u32 \<times> u32" where
  "sub_ddmmss ah al bh bl = (high (dw ah al - dw bh bl), low (dw ah al - dw bh bl))"

definition umul_ppmm :: "u32 \<Rightarrow> u32 \<Rightarrow> u32 \<times> u32" where
  "umul_ppmm u v = (high (ucast u * ucast v), low (ucast u * ucast v))"

definition udiv_qrnnd :: "u32 \<Rightarrow> u32 \<Rightarrow> u32 \<Rightarrow> (u32 \<times> u32) option" where
  "udiv_qrnnd n1 n0 d =
     (if n1 \<ge> d then None else Some (ucast (dw n1 n0 div ucast d), ucast (dw n1 n0 mod ucast d)))"

text \<open>\<open>bsrl\<close> gives the position of the highest bit.\<close>

definition bsrl :: "u32 \<Rightarrow> nat" where
  "bsrl x = the (find (bit x) (rev [0..<32]))"

definition count_leading_zeros :: "u32 \<Rightarrow> nat" where
  "count_leading_zeros x = bsrl x XOR 31"

text \<open>The part of \<open>__udivmoddi4\<close> for a divisor of more than 32 bits whose top bit is 0.\<close>

definition udiv_normalized :: "nat \<Rightarrow> u32 \<Rightarrow> u32 \<Rightarrow> u32 \<Rightarrow> u32 \<Rightarrow> (u64 \<times> u64) option" where
  "udiv_normalized bm n1 n0 d1 d0 =
     (let b = 32 - bm;
          d1 = push_bit bm d1 OR drop_bit b d0; d0 = push_bit bm d0;
          n2 = drop_bit b n1; n1 = push_bit bm n1 OR drop_bit b n0; n0 = push_bit bm n0
      in case udiv_qrnnd n2 n1 d1 of
           None \<Rightarrow> None
         | Some (q0, n1) \<Rightarrow>
             let (m1, m0) = umul_ppmm q0 d0;
                 (q0, m1, m0) =
                   (if m1 > n1 \<or> m1 = n1 \<and> m0 > n0 then let (m1, m0) = sub_ddmmss m1 m0 d1 d0 in (q0 - 1, m1, m0)
                    else (q0, m1, m0));
                 (n1, n0) = sub_ddmmss n1 n0 m1 m0
             in Some (dw 0 q0, dw (drop_bit bm n1) (push_bit b n1 OR drop_bit bm n0)))"

text \<open>The part for a divisor that fits in one word, and the one for a longer divisor.\<close>

definition udiv_word :: "u32 \<Rightarrow> u32 \<Rightarrow> u32 \<Rightarrow> (u64 \<times> u64) option" where
  "udiv_word n1 n0 d0 =
     (if d0 > n1 then
        (case udiv_qrnnd n1 n0 d0 of None \<Rightarrow> None | Some (q0, n0) \<Rightarrow> Some (dw 0 q0, dw 0 n0))
      else if d0 = 0 then None
      else
        (case udiv_qrnnd 0 n1 d0 of
           None \<Rightarrow> None
         | Some (q1, n1) \<Rightarrow>
             (case udiv_qrnnd n1 n0 d0 of None \<Rightarrow> None | Some (q0, n0) \<Rightarrow> Some (dw q1 q0, dw 0 n0))))"

definition udiv_wide :: "u32 \<Rightarrow> u32 \<Rightarrow> u32 \<Rightarrow> u32 \<Rightarrow> (u64 \<times> u64) option" where
  "udiv_wide n1 n0 d1 d0 =
     (if d1 > n1 then Some (dw 0 0, dw n1 n0)
      else
        let bm = count_leading_zeros d1 in
        if bm = 0 then
          if n1 > d1 \<or> n0 \<ge> d0 then let (n1, n0) = sub_ddmmss n1 n0 d1 d0 in Some (dw 0 1, dw n1 n0)
          else Some (dw 0 0, dw n1 n0)
        else udiv_normalized bm n1 n0 d1 d0)"

text \<open>The quotient and what is stored for the remainder.\<close>

definition udivmoddi4 :: "u64 \<Rightarrow> u64 \<Rightarrow> (u64 \<times> u64) option" where
  "udivmoddi4 n d =
     (if high d = 0 then udiv_word (high n) (low n) (low d) else udiv_wide (high n) (low n) (high d) (low d))"

lemmas udivmoddi4_parts = udivmoddi4_def udiv_word_def udiv_wide_def

definition negdi2 :: "u64 \<Rightarrow> u64" where "negdi2 a = - a"

definition divdi3 :: "u64 \<Rightarrow> u64 \<Rightarrow> u64 option" where
  "divdi3 u v =
     (let c = False;
          (c, u) = (if sint (high u) < 0 then (\<not> c, negdi2 u) else (c, u));
          (c, v) = (if sint (high v) < 0 then (\<not> c, negdi2 v) else (c, v))
      in case udivmoddi4 u v of
           None \<Rightarrow> None
         | Some (w, r) \<Rightarrow> Some (if c then negdi2 w else w))"

definition moddi3 :: "u64 \<Rightarrow> u64 \<Rightarrow> u64 option" where
  "moddi3 u v =
     (let c = False;
          (c, u) = (if sint (high u) < 0 then (\<not> c, negdi2 u) else (c, u));
          v = (if sint (high v) < 0 then negdi2 v else v)
      in case udivmoddi4 u v of
           None \<Rightarrow> None
         | Some (q, w) \<Rightarrow> Some (if c then negdi2 w else w))"

definition udivdi3 :: "u64 \<Rightarrow> u64 \<Rightarrow> u64 option" where
  "udivdi3 u v = map_option fst (udivmoddi4 u v)"

definition umoddi3 :: "u64 \<Rightarrow> u64 \<Rightarrow> u64 option" where
  "umoddi3 u v = map_option snd (udivmoddi4 u v)"

section \<open>Shifts\<close>

text \<open>The code that the compiler gets when it compiles itself; the shift is from 0 to 63.\<close>

definition ashrdi3 :: "u64 \<Rightarrow> nat \<Rightarrow> u64" where
  "ashrdi3 a b =
     (if b \<ge> 32 then dw (signed_drop_bit 31 (high a)) (signed_drop_bit (b - 32) (high a))
      else if b \<noteq> 0 then dw (signed_drop_bit b (high a)) (drop_bit b (low a) OR push_bit (32 - b) (high a))
      else a)"

definition lshrdi3 :: "u64 \<Rightarrow> nat \<Rightarrow> u64" where
  "lshrdi3 a b =
     (if b \<ge> 32 then dw 0 (drop_bit (b - 32) (high a))
      else if b \<noteq> 0 then dw (drop_bit b (high a)) (drop_bit b (low a) OR push_bit (32 - b) (high a))
      else a)"

definition ashldi3 :: "u64 \<Rightarrow> nat \<Rightarrow> u64" where
  "ashldi3 a b =
     (if b \<ge> 32 then dw (push_bit (b - 32) (low a)) 0
      else if b \<noteq> 0 then dw (push_bit b (high a) OR drop_bit (32 - b) (low a)) (push_bit b (low a))
      else a)"

section \<open>From floating point numbers\<close>

text \<open>The bits of a \<open>float\<close>, a \<open>double\<close>, and the 64 and 16 bits of a \<open>long double\<close>; signed exponents and results.\<close>

definition fixunssfdi :: "u32 \<Rightarrow> u64" where
  "fixunssfdi fl =
     (if fl = 0 then 0
      else
        let exp = int (unat (drop_bit 23 fl AND 0xFF)) - 126 - 24;
            l = ucast ((fl AND 0x7FFFFF) OR 0x800000) :: u64
        in if exp \<ge> 41 then push_bit 63 1
           else if exp < - 23 then 0
           else
             let l = (if exp \<ge> 0 then push_bit (nat exp) l else drop_bit (nat (- exp)) l)
             in if fl AND 0x80000000 \<noteq> 0 then - l else l)"

definition fixunsdfdi :: "u64 \<Rightarrow> u64" where
  "fixunsdfdi dl =
     (if dl = 0 then 0
      else
        let exp = int (unat (drop_bit 20 (high dl) AND 0x7FF)) - 1022 - 53;
            l = (dl AND (push_bit 52 1 - 1)) OR push_bit 52 1
        in if exp \<ge> 12 then push_bit 63 1
           else if exp < - 52 then 0
           else
             let l = (if exp \<ge> 0 then push_bit (nat exp) l else drop_bit (nat (- exp)) l)
             in if high dl AND 0x80000000 \<noteq> 0 then - l else l)"

definition fixunsxfdi :: "u64 \<Rightarrow> u16 \<Rightarrow> u64" where
  "fixunsxfdi lower upper =
     (if lower = 0 \<and> upper = 0 then 0
      else
        let exp = int (unat (upper AND 0x7fff)) - 16382 - 64 in
        if exp > 0 then push_bit 63 1
        else if exp < - 63 then 0
        else let l = drop_bit (nat (- exp)) lower in if upper AND 0x8000 \<noteq> 0 then - l else l)"

section \<open>Pairs of words\<close>

lemma unat_dw: "unat (dw h l) = unat h * 2 ^ 32 + unat l"
proof -
  have l: "bit (x :: u32) n \<Longrightarrow> n < 32" for x n using bit_imp_le_length [of x n] by simp
  have "dw h l = push_bit 32 (ucast h) + ucast l"
    unfolding dw_def by (rule disjunctive_add [symmetric]) (auto simp: bit_simps dest: l)
  moreover have "unat (push_bit 32 (ucast h) :: u64) = unat h * 2 ^ 32"
    unfolding push_bit_eq_mult using unat_less_32 [of h] by (subst unat_mult_lem [THEN iffD1]) simp_all
  moreover have "unat h * 2 ^ 32 + unat l < 2 ^ 64" using unat_less_32 [of h] unat_less_32 [of l] by simp
  ultimately show ?thesis by (subst \<open>dw h l = _\<close>, subst unat_add_lem [THEN iffD1]) simp_all
qed

lemma dw_high_low [simp]: "dw (high w) (low w) = w"
  by (rule bit_word_eqI) (auto simp: dw_def high_def low_def bit_simps)

lemma high_low_unat: "unat (high w) = unat w div 2 ^ 32" "unat (low w) = unat w mod 2 ^ 32"
proof -
  have w: "unat w = unat (high w) * 2 ^ 32 + unat (low w)" using unat_dw [of "high w" "low w"] by simp
  moreover have "unat (low w) < 2 ^ 32" using unat_less_32 [of "low w"] by simp
  ultimately show "unat (high w) = unat w div 2 ^ 32" "unat (low w) = unat w mod 2 ^ 32" by simp_all
qed

lemma high_low_dw [simp]: "high (dw h l) = h" "low (dw h l) = l"
proof -
  have "unat (high (dw h l)) = unat h" "unat (low (dw h l)) = unat l"
    using unat_less_32 [of l] by (simp_all add: high_low_unat unat_dw)
  then show "high (dw h l) = h" "low (dw h l) = l" by (simp_all only: word_unat_eq_iff)
qed

lemma xor_31: "n < 32 \<Longrightarrow> n XOR 31 = (31 :: nat) - n"
proof -
  have "\<forall>n\<in>set [0..<32]. n XOR 31 = (31 :: nat) - n" by code_simp
  then show "n < 32 \<Longrightarrow> n XOR 31 = 31 - n" by simp
qed

lemma find_Some_rev: "find P (rev [0..<n]) = Some i \<longleftrightarrow> i < n \<and> P i \<and> (\<forall>j. i < j \<and> j < n \<longrightarrow> \<not> P j)"
proof (induction n)
  case (Suc n)
  show ?case
  proof (cases "P n")
    case True
    then show ?thesis by (auto simp: less_Suc_eq)
  next
    case False
    then show ?thesis using Suc by (auto simp: less_Suc_eq)
  qed
qed simp

lemma clz:
  assumes "x \<noteq> 0"
  shows "count_leading_zeros x < 32" "2 ^ 31 \<le> unat x * 2 ^ count_leading_zeros x" "unat x * 2 ^ count_leading_zeros x < 2 ^ 32"
proof -
  obtain i where "bit x i" using assms by (auto simp: bit_eq_iff)
  then have "i < 32" using bit_imp_le_length [of x i] by simp
  have "find (bit x) (rev [0..<32]) \<noteq> None" using \<open>bit x i\<close> \<open>i < 32\<close> by (auto simp: find_None_iff)
  then obtain k where k: "find (bit x) (rev [0..<32]) = Some k" by auto
  then have hi: "k < 32" "bit x k" "\<And>j. k < j \<Longrightarrow> j < 32 \<Longrightarrow> \<not> bit x j" by (auto simp: find_Some_rev)
  have c: "count_leading_zeros x = 31 - k" using k hi(1) by (simp add: count_leading_zeros_def bsrl_def xor_31)
  have "n \<le> k" if "bit x n" for n using hi(3) [of n] bit_imp_le_length [OF that] that by fastforce
  then have "take_bit (Suc k) x = x" by (auto intro!: bit_word_eqI simp: bit_simps less_Suc_eq_le)
  then have "take_bit (Suc k) (unat x) = unat x" by (metis unsigned_take_bit_eq)
  then have up: "unat x < 2 ^ Suc k" by (metis take_bit_nat_less_exp)
  have lo: "2 ^ k \<le> unat x"
  proof (rule ccontr)
    assume "\<not> 2 ^ k \<le> unat x"
    then have "\<not> bit (unat x) k" by (simp add: bit_iff_odd)
    then show False using hi(1,2) by (simp add: bit_unsigned_iff)
  qed
  have e: "(2 :: nat) ^ 31 = 2 ^ k * 2 ^ (31 - k)" "(2 :: nat) ^ 32 = 2 ^ Suc k * 2 ^ (31 - k)" using hi(1) by (simp_all flip: power_add)
  show "count_leading_zeros x < 32" using c by simp
  show "2 ^ 31 \<le> unat x * 2 ^ count_leading_zeros x" unfolding c e(1) using lo by (rule mult_le_mono1)
  show "unat x * 2 ^ count_leading_zeros x < 2 ^ 32" unfolding c e(2) using up by (rule mult_strict_right_mono) simp
qed

lemma udiv_qrnnd_correct:
  assumes "udiv_qrnnd n1 n0 d = r"
  shows "n1 \<ge> d \<Longrightarrow> r = None"
    and "n1 < d \<Longrightarrow> \<exists>q m. r = Some (q, m) \<and> unat q = (unat n1 * 2 ^ 32 + unat n0) div unat d \<and>
      unat m = (unat n1 * 2 ^ 32 + unat n0) mod unat d"
proof -
  show "n1 \<ge> d \<Longrightarrow> r = None" using assms by (simp add: udiv_qrnnd_def)
  assume d: "n1 < d"
  then have d': "unat n1 < unat d" by (simp add: word_less_nat_alt)
  have "unat n1 * 2 ^ 32 + unat n0 < Suc (unat n1) * 2 ^ 32" using unat_less_32 [of n0] by simp
  also have "\<dots> \<le> unat d * 2 ^ 32" using d' by (intro mult_le_mono1) simp
  finally have q: "(unat n1 * 2 ^ 32 + unat n0) div unat d < 2 ^ 32" by (simp add: less_mult_imp_div_less mult.commute)
  have m: "(unat n1 * 2 ^ 32 + unat n0) mod unat d < 2 ^ 32"
    using d' unat_less_32 [of d] by (intro order.strict_trans [OF mod_less_divisor]) simp_all
  show "\<exists>q m. r = Some (q, m) \<and> unat q = (unat n1 * 2 ^ 32 + unat n0) div unat d \<and>
      unat m = (unat n1 * 2 ^ 32 + unat n0) mod unat d"
  proof -
    let ?q = "dw n1 n0 div ucast d" and ?m = "dw n1 n0 mod ucast d"
    have "unat ?q = (unat n1 * 2 ^ 32 + unat n0) div unat d" "unat ?m = (unat n1 * 2 ^ 32 + unat n0) mod unat d"
      by (simp_all add: unat_div_distrib unat_mod_distrib unat_dw)
    then have "unat (ucast ?q :: u32) = (unat n1 * 2 ^ 32 + unat n0) div unat d"
      "unat (ucast ?m :: u32) = (unat n1 * 2 ^ 32 + unat n0) mod unat d"
      using q m by (simp_all add: unat_ucast_small)
    then show ?thesis using assms d by (auto simp: udiv_qrnnd_def)
  qed
qed

lemma push_unat: "unat (push_bit k x :: u32) = unat x * 2 ^ k mod 2 ^ 32"
  unfolding unsigned_push_bit_eq unfolding take_bit_eq_mod push_bit_eq_mult by simp

lemma shift_pair:
  assumes "k + b = 32"
  shows "unat (push_bit k x OR drop_bit b y :: u32) = unat x * 2 ^ k mod 2 ^ 32 + unat y div 2 ^ b"
proof -
  have "bit z n \<Longrightarrow> n < 32" for z :: u32 and n using bit_imp_le_length [of z n] by simp
  then have "unat (push_bit k x) OR unat (drop_bit b y) = unat (push_bit k x) + unat (drop_bit b y)"
    using assms by (intro disjunctive_add [symmetric]) (fastforce simp: bit_simps)
  then have "unat (push_bit k x OR drop_bit b y) = unat (push_bit k x) + unat (drop_bit b y)"
    by (simp only: unsigned_or_eq)
  then show ?thesis unfolding push_unat unat_drop_bit_eq unfolding drop_bit_eq_div .
qed

text \<open>Two words, shifted left by \<open>k\<close>, are three words.\<close>

lemma shift_digits:
  fixes h l :: nat
  assumes "k + b = 32"
  shows "(h div 2 ^ b) * 2 ^ 64 + (h * 2 ^ k mod 2 ^ 32 + l div 2 ^ b) * 2 ^ 32 + l * 2 ^ k mod 2 ^ 32 = (h * 2 ^ 32 + l) * 2 ^ k"
proof -
  have e: "(2 :: nat) ^ 32 = 2 ^ b * 2 ^ k" using assms by (simp add: add.commute flip: power_add)
  have d: "x * 2 ^ k div 2 ^ 32 = x div 2 ^ b" for x :: nat unfolding e by (rule div_mult_mult2) simp
  have "x div 2 ^ b * 2 ^ 32 + x * 2 ^ k mod 2 ^ 32 = x * 2 ^ k" for x :: nat
    using div_mult_mod_eq [of "x * 2 ^ k" "2 ^ 32"] unfolding d .
  from this [of h] this [of l] show ?thesis by (simp add: algebra_simps)
qed

text \<open>The quotient of the first two words by the first word of the divisor is at most one too great.\<close>

lemma quotient_digit:
  fixes D :: nat
  assumes "D = d1 * 2 ^ 32 + d0" "N = n2 * 2 ^ 64 + n1 * 2 ^ 32 + n0" "n0 < 2 ^ 32" "0 < d1"
    "q = (n2 * 2 ^ 32 + n1) div d1" "r = (n2 * 2 ^ 32 + n1) mod d1" "q * d0 \<le> r * 2 ^ 32 + n0 + D"
  shows "q * d0 > r * 2 ^ 32 + n0 \<Longrightarrow> 0 < q \<and> N div D = q - 1 \<and> N mod D = r * 2 ^ 32 + n0 + D - q * d0"
    and "q * d0 \<le> r * 2 ^ 32 + n0 \<Longrightarrow> N div D = q \<and> N mod D = r * 2 ^ 32 + n0 - q * d0"
proof -
  have "n2 * 2 ^ 32 + n1 = q * d1 + r" unfolding assms(5,6) by (rule div_mult_mod_eq [symmetric])
  then have "(n2 * 2 ^ 32 + n1) * 2 ^ 32 = (q * d1 + r) * 2 ^ 32" by simp
  then have N: "N + q * d0 = q * D + (r * 2 ^ 32 + n0)" unfolding assms(1,2) by (simp add: algebra_simps)
  have "r < d1" unfolding assms(6) using assms(4) by simp
  then have "r + 1 \<le> d1" by simp
  then have "(r + 1) * 2 ^ 32 \<le> d1 * 2 ^ 32" by (rule mult_le_mono1)
  then have r: "r * 2 ^ 32 + n0 < D" using assms(1,3) by simp
  show "0 < q \<and> N div D = q - 1 \<and> N mod D = r * 2 ^ 32 + n0 + D - q * d0" if gt: "q * d0 > r * 2 ^ 32 + n0"
  proof -
    have q: "0 < q" using gt by (cases q) auto
    then obtain p where p: "q = Suc p" by (cases q) auto
    have "N = p * D + (r * 2 ^ 32 + n0 + D - q * d0)" using N assms(7) p by simp
    moreover have "r * 2 ^ 32 + n0 + D - q * d0 < D" using gt assms(7) by simp
    ultimately show ?thesis using q p by simp
  qed
  show "N div D = q \<and> N mod D = r * 2 ^ 32 + n0 - q * d0" if le: "q * d0 \<le> r * 2 ^ 32 + n0"
  proof -
    have "N = q * D + (r * 2 ^ 32 + n0 - q * d0)" using N le by simp
    moreover have "r * 2 ^ 32 + n0 - q * d0 < D" using r by simp
    ultimately show ?thesis by simp
  qed
qed

lemma quotient_digit_bound:
  fixes q :: nat
  assumes "q = (n2 * 2 ^ 32 + n1) div d1" "n1 < 2 ^ 32" "n2 < 2 ^ k" "2 ^ 31 \<le> d1" "d0 < 2 ^ 32" "2 ^ k dvd d0" "k < 32" "q < 2 ^ 32"
  shows "q * d0 \<le> d1 * 2 ^ 32"
proof (cases "k = 31")
  case True
  have "d0 \<le> 2 ^ 31"
  proof (rule ccontr)
    assume "\<not> d0 \<le> 2 ^ 31"
    moreover obtain c where "d0 = 2 ^ 31 * c" using assms(6) True by (auto elim: dvdE)
    ultimately show False using assms(5) by (cases c rule: nat.exhaust) auto
  qed
  then have "q * d0 \<le> 2 ^ 32 * 2 ^ 31" using assms(8) by (intro mult_le_mono) simp_all
  then show ?thesis using assms(4) by simp
next
  case False
  then have k: "k \<le> 30" using assms(7) by simp
  have "q * d1 \<le> n2 * 2 ^ 32 + n1" unfolding assms(1) by simp
  also have "\<dots> < Suc n2 * 2 ^ 32" using assms(2) by simp
  also have "\<dots> \<le> 2 ^ k * 2 ^ 32" using assms(3) by (intro mult_le_mono1) simp
  finally have "q * 2 ^ 31 < 2 ^ k * 2 ^ 32" using mult_le_mono2 [OF assms(4), of q] by linarith
  then have "2 ^ 31 * q < 2 ^ 31 * (2 ^ k * 2)" by (simp add: mult.commute mult.left_commute)
  then have "q < 2 ^ k * 2" by (simp only: mult_less_cancel1)
  also have "\<dots> \<le> 2 ^ 30 * 2" using k by (intro mult_le_mono1 power_increasing) simp_all
  finally have "q * d0 \<le> 2 ^ 31 * 2 ^ 32" using assms(5) by (intro mult_le_mono) simp_all
  then show ?thesis using assms(4) by simp
qed

lemma dw_less: "dw a b < dw c d \<longleftrightarrow> a < c \<or> a = c \<and> b < d"
proof -
  have "dw a b < dw c d \<longleftrightarrow> unat a * 2 ^ 32 + unat b < unat c * 2 ^ 32 + unat d"
    by (simp add: word_less_nat_alt unat_dw)
  also have "\<dots> \<longleftrightarrow> unat a < unat c \<or> unat a = unat c \<and> unat b < unat d"
    using unat_less_32 [of b] unat_less_32 [of d] by (auto; presburger?)
  finally show ?thesis by (simp add: word_less_nat_alt word_unat_eq_iff)
qed

lemma umul_dw: "umul_ppmm u v = (m1, m0) \<Longrightarrow> unat (dw m1 m0) = unat u * unat v"
proof -
  assume "umul_ppmm u v = (m1, m0)"
  then have "dw m1 m0 = ucast u * ucast v" by (auto simp: umul_ppmm_def)
  moreover have "unat u * unat v < 2 ^ 32 * 2 ^ 32"
    using unat_less_32 [of u] unat_less_32 [of v] by (intro mult_strict_mono) simp_all
  ultimately show ?thesis by (simp add: unat_mult_lem [THEN iffD1])
qed

lemma shift_dw: "k + b = 32 \<Longrightarrow> 0 < k \<Longrightarrow> dw (drop_bit k h) (push_bit b h OR drop_bit k l) = drop_bit k (dw h l)"
proof -
  assume kb: "k + b = 32" "0 < k"
  have l: "bit (x :: u32) n \<Longrightarrow> n < 32" for x n using bit_imp_le_length [of x n] by simp
  show ?thesis
  proof (rule bit_word_eqI)
    fix n :: nat assume "n < LENGTH(64)"
    show "bit (dw (drop_bit k h) (push_bit b h OR drop_bit k l)) n = bit (drop_bit k (dw h l)) n"
    proof (cases "n < 32")
      case True
      have "n - b = k + n - 32" "b \<le> n \<longleftrightarrow> 32 \<le> k + n" using kb(1) by linarith+
      then show ?thesis using kb True by (auto simp: dw_def bit_simps dest: l)
    next
      case False
      then have "k + (n - 32) = k + n - 32" by simp
      then show ?thesis using kb False \<open>n < LENGTH(64)\<close> by (auto simp: dw_def bit_simps dest: l)
    qed
  qed
qed

lemma sub_dw: "sub_ddmmss ah al bh bl = (h, l) \<Longrightarrow> dw h l = dw ah al - dw bh bl"
  by (auto simp: sub_ddmmss_def)

text \<open>The last part of the division: one step back if the digit was too great, and the remainder.\<close>

lemma last_digit:
  fixes x M D :: u64
  assumes "unat M \<le> unat x + unat D" "unat x < unat D"
  shows "unat x < unat M \<Longrightarrow> unat (x - (M - D)) = unat x + unat D - unat M"
    and "unat M \<le> unat x \<Longrightarrow> unat (x - M) = unat x - unat M"
proof -
  assume gt: "unat x < unat M"
  have "of_nat (unat x + unat D - unat M) = x - (M - D)" using assms(1) by (simp add: of_nat_diff)
  moreover have "unat x + unat D - unat M < 2 ^ 64" using gt unat_less_64 [of D] by simp
  ultimately show "unat (x - (M - D)) = unat x + unat D - unat M"
    using unat_of_nat [of "unat x + unat D - unat M", where 'a = 64] by simp
next
  assume "unat M \<le> unat x"
  then show "unat (x - M) = unat x - unat M" by (simp add: unat_sub word_le_nat_alt)
qed

text \<open>Shifting dividend and divisor to the left.\<close>

lemma normalized_digits:
  assumes "d1 \<noteq> 0" "bm = count_leading_zeros d1" "bm \<noteq> 0" "b = 32 - bm"
  shows "bm < 32" "bm + b = 32"
    "unat (push_bit bm d1 OR drop_bit b d0) * 2 ^ 32 + unat (push_bit bm d0) = unat (dw d1 d0) * 2 ^ bm"
    "unat (drop_bit b n1) * 2 ^ 64 + unat (push_bit bm n1 OR drop_bit b n0) * 2 ^ 32 + unat (push_bit bm n0) = unat (dw n1 n0) * 2 ^ bm"
    "2 ^ 31 \<le> unat (push_bit bm d1 OR drop_bit b d0)" "unat (drop_bit b n1) < 2 ^ bm" "2 ^ bm dvd unat (push_bit bm d0)"
proof -
  show bm: "bm < 32" "bm + b = 32" using clz(1) [OF assms(1)] assms(2,4) by simp_all
  have small: "unat d1 * 2 ^ bm < 2 ^ 32" "2 ^ 31 \<le> unat d1 * 2 ^ bm" using clz [OF assms(1)] assms(2) by simp_all
  have "unat d1 div 2 ^ b = 0"
    using small(1) bm(2) by (metis div_less less_mult_imp_div_less mult.commute nonzero_mult_div_cancel_right power_add power_not_zero zero_neq_numeral)
  then show "unat (push_bit bm d1 OR drop_bit b d0) * 2 ^ 32 + unat (push_bit bm d0) = unat (dw d1 d0) * 2 ^ bm"
    using shift_digits [OF bm(2), of "unat d1" "unat d0"] by (simp add: shift_pair [OF bm(2)] push_unat unat_dw)
  show "unat (drop_bit b n1) * 2 ^ 64 + unat (push_bit bm n1 OR drop_bit b n0) * 2 ^ 32 + unat (push_bit bm n0) = unat (dw n1 n0) * 2 ^ bm"
    using shift_digits [OF bm(2), of "unat n1" "unat n0"]
    unfolding shift_pair [OF bm(2)] push_unat unat_dw unat_drop_bit_eq unfolding drop_bit_eq_div .
  show "2 ^ 31 \<le> unat (push_bit bm d1 OR drop_bit b d0)" using small by (simp add: shift_pair [OF bm(2)])
  show "unat (drop_bit b n1) < 2 ^ bm"
    using unat_less_32 [of n1] bm(2) unfolding unat_drop_bit_eq unfolding drop_bit_eq_div
    by (intro less_mult_imp_div_less) (simp flip: power_add)
  have "(2 :: nat) ^ bm dvd 2 ^ 32" using bm(1) by (intro le_imp_power_dvd) simp
  then have "2 ^ bm dvd unat d0 * 2 ^ bm mod 2 ^ 32" by (intro dvd_mod) simp_all
  then show "2 ^ bm dvd unat (push_bit bm d0)" by (simp add: push_unat)
qed

lemma udiv_normalized_correct:
  assumes "d1 \<noteq> 0" "bm = count_leading_zeros d1" "bm \<noteq> 0"
  shows "\<exists>q r. udiv_normalized bm n1 n0 d1 d0 = Some (q, r) \<and> unat q = unat (dw n1 n0) div unat (dw d1 d0) \<and>
    unat r = unat (dw n1 n0) mod unat (dw d1 d0)"
proof -
  let ?B = "2 ^ 32 :: nat"
  define b where "b = 32 - bm"
  define e1 where "e1 = push_bit bm d1 OR drop_bit b d0"
  define e0 where "e0 = push_bit bm d0"
  define k2 where "k2 = drop_bit b n1"
  define k1 where "k1 = push_bit bm n1 OR drop_bit b n0"
  define k0 where "k0 = push_bit bm n0"
  note bm = normalized_digits(1,2) [OF assms b_def]
  note D = normalized_digits(3) [OF assms b_def, of d0, folded e1_def e0_def]
  note N = normalized_digits(4) [OF assms b_def, of n1 n0, folded k2_def k1_def k0_def]
  note e1 = normalized_digits(5) [OF assms b_def, of d0, folded e1_def]
  note k2 = normalized_digits(6) [OF assms b_def, of n1, folded k2_def]
  note e0 = normalized_digits(7) [OF assms b_def, of d0, folded e0_def]
  have "(2 :: nat) ^ bm \<le> 2 ^ 31" using bm(1) by (intro power_increasing) simp_all
  then have "k2 < e1" using k2 e1 by (simp add: word_less_nat_alt)
  then obtain q0 r1 where q: "udiv_qrnnd k2 k1 e1 = Some (q0, r1)" "unat q0 = (unat k2 * ?B + unat k1) div unat e1"
    "unat r1 = (unat k2 * ?B + unat k1) mod unat e1" using udiv_qrnnd_correct(2) [OF refl] by blast
  obtain m1 m0 where m: "umul_ppmm q0 e0 = (m1, m0)" by fastforce
  have "unat q0 * unat e0 \<le> unat e1 * ?B"
    using quotient_digit_bound [OF q(2)] k2 e1 bm(1) e0 unat_less_32 by blast
  then have "unat q0 * unat e0 \<le> unat r1 * ?B + unat k0 + (unat e1 * ?B + unat e0)" by simp
  note qd = quotient_digit [OF refl N [symmetric] unat_less_32 _ q(2,3) this]
  let ?x = "dw r1 k0" and ?M = "dw m1 m0" and ?D = "dw e1 e0"
  have M: "unat ?M = unat q0 * unat e0" by (rule umul_dw [OF m])
  have Dn: "unat ?D = unat (dw d1 d0) * 2 ^ bm" unfolding unat_dw [of e1] by (rule D)
  let ?n = "unat (dw n1 n0)" and ?d = "unat (dw d1 d0)"
  have quot: "?n * 2 ^ bm div (?d * 2 ^ bm) = ?n div ?d" "?n * 2 ^ bm mod (?d * 2 ^ bm) = ?n mod ?d * 2 ^ bm"
    by (simp_all add: mult_mod_left)
  have "unat ?D = unat e1 * ?B + unat e0" "unat ?x = unat r1 * ?B + unat k0" by (simp_all add: unat_dw)
  moreover have pos: "0 < unat e1" using e1 by simp
  ultimately have qd1: "unat ?M > unat ?x \<Longrightarrow> 0 < unat q0 \<and> ?n * 2 ^ bm div unat ?D = unat q0 - 1 \<and> ?n * 2 ^ bm mod unat ?D = unat ?x + unat ?D - unat ?M"
    and qd2: "unat ?M \<le> unat ?x \<Longrightarrow> ?n * 2 ^ bm div unat ?D = unat q0 \<and> ?n * 2 ^ bm mod unat ?D = unat ?x - unat ?M"
    and le: "unat ?M \<le> unat ?x + unat ?D"
    using qd \<open>unat q0 * unat e0 \<le> unat r1 * ?B + unat k0 + (unat e1 * ?B + unat e0)\<close> unfolding M by simp_all
  have nrm: "udiv_normalized bm n1 n0 d1 d0 =
    (let (q0, m1, m0) = (if ?x < ?M then let (m1, m0) = sub_ddmmss m1 m0 e1 e0 in (q0 - 1, m1, m0) else (q0, m1, m0));
         (h, l) = sub_ddmmss r1 k0 m1 m0
     in Some (dw 0 q0, dw (drop_bit bm h) (push_bit b h OR drop_bit bm l)))"
    unfolding udiv_normalized_def Let_def b_def [symmetric] e1_def [symmetric] e0_def [symmetric] k2_def [symmetric]
      k1_def [symmetric] k0_def [symmetric] q(1) option.case prod.case m dw_less by auto
  have "unat r1 < unat e1" using q(3) pos by simp
  then have "Suc (unat r1) * ?B \<le> unat e1 * ?B" by (intro mult_le_mono1) simp
  then have lt: "unat ?x < unat ?D" using unat_less_32 [of k0] by (simp add: unat_dw)
  obtain q R where R: "udiv_normalized bm n1 n0 d1 d0 = Some (dw 0 q, drop_bit bm R)"
    "unat q = ?n * 2 ^ bm div (?d * 2 ^ bm)" "unat R = ?n * 2 ^ bm mod (?d * 2 ^ bm)"
  proof (cases "unat ?x < unat ?M")
    case True
    obtain a c where s1: "sub_ddmmss m1 m0 e1 e0 = (a, c)" by fastforce
    obtain h l where s2: "sub_ddmmss r1 k0 a c = (h, l)" by fastforce
    have "udiv_normalized bm n1 n0 d1 d0 = Some (dw 0 (q0 - 1), drop_bit bm (dw h l))"
      unfolding nrm using True s1 s2 bm assms(3) by (simp add: word_less_nat_alt shift_dw)
    moreover have "dw h l = ?x - (?M - ?D)" using sub_dw [OF s1] sub_dw [OF s2] by simp
    moreover have "unat (q0 - 1) = unat q0 - 1" using qd1 True by (simp add: unat_minus_one unat_gt_0)
    ultimately show ?thesis using that [of "q0 - 1" "dw h l"] qd1 True last_digit(1) [OF le lt True] unfolding Dn by simp
  next
    case False
    obtain h l where s: "sub_ddmmss r1 k0 m1 m0 = (h, l)" by fastforce
    have "udiv_normalized bm n1 n0 d1 d0 = Some (dw 0 q0, drop_bit bm (dw h l))"
      unfolding nrm using False s bm assms(3) by (simp add: word_less_nat_alt shift_dw)
    then show ?thesis using that [of q0 "dw h l"] qd2 False sub_dw [OF s] last_digit(2) [OF le lt] unfolding Dn by simp
  qed
  have "unat (drop_bit bm R) = ?n mod ?d"
    using R(3) unfolding quot unat_drop_bit_eq by (simp add: drop_bit_eq_div)
  then show ?thesis using R(1,2) unfolding quot by (simp add: unat_dw)
qed

lemma unat_sub_dw: "sub_ddmmss n1 n0 d1 d0 = (h, l) \<Longrightarrow> unat (dw d1 d0) \<le> unat (dw n1 n0) \<Longrightarrow>
    unat (dw h l) = unat (dw n1 n0) - unat (dw d1 d0)"
  using sub_dw [of n1 n0 d1 d0 h l] by (simp add: unat_sub word_le_nat_alt)

lemma unat_high_low: "unat w = unat (high w) * 2 ^ 32 + unat (low w)"
  using unat_dw [of "high w" "low w"] by simp

lemma less_high_low: "v < w \<longleftrightarrow> high v < high w \<or> high v = high w \<and> low v < low w"
  using dw_less [of "high v" "low v" "high w" "low w"] by simp

lemma udivmoddi4_zero: "udivmoddi4 n 0 = None"
  by (simp add: udivmoddi4_parts Let_def high_def low_def)

text \<open>A divisor of one word: one or two divisions.\<close>

lemma udivmoddi4_word:
  assumes "d \<noteq> 0" "high d = 0"
  shows "\<exists>q r. udivmoddi4 n d = Some (q, r) \<and> unat q = unat n div unat d \<and> unat r = unat n mod unat d"
proof -
  have d: "unat d = unat (low d)" using unat_high_low [of d] assms(2) by simp
  then have d0: "low d \<noteq> 0" using assms(1) by (metis unat_eq_zero)
  have n: "unat n = unat (high n) * 2 ^ 32 + unat (low n)" using unat_dw [of "high n" "low n"] by simp
  show ?thesis
  proof (cases "low d > high n")
    case True
    then obtain q r where "udiv_qrnnd (high n) (low n) (low d) = Some (q, r)" "unat q = unat n div unat d" "unat r = unat n mod unat d"
      using udiv_qrnnd_correct(2) [OF refl True, of "low n"] unfolding n d by blast
    then show ?thesis using True assms(2) by (auto simp: udivmoddi4_parts Let_def unat_dw)
  next
    case False
    have "0 < low d" using d0 by (simp add: word_gt_0)
    then obtain q1 r1 where q1: "udiv_qrnnd 0 (high n) (low d) = Some (q1, r1)" "unat q1 = unat (high n) div unat (low d)"
      "unat r1 = unat (high n) mod unat (low d)" using udiv_qrnnd_correct(2) [OF refl, of 0 "low d" "high n"] by auto
    have "unat r1 < unat (low d)" using q1(3) d0 by (simp add: unat_gt_0)
    then have "r1 < low d" by (simp add: word_less_nat_alt)
    then obtain q0 r0 where q0: "udiv_qrnnd r1 (low n) (low d) = Some (q0, r0)"
      "unat q0 = (unat r1 * 2 ^ 32 + unat (low n)) div unat (low d)" "unat r0 = (unat r1 * 2 ^ 32 + unat (low n)) mod unat (low d)"
      using udiv_qrnnd_correct(2) [OF refl, of r1 "low d" "low n"] by blast
    have "unat (high n) = unat q1 * unat (low d) + unat r1" unfolding q1(2,3) by (rule div_mult_mod_eq [symmetric])
    then have e: "unat n = (unat q1 * 2 ^ 32) * unat d + (unat r1 * 2 ^ 32 + unat (low n))"
      unfolding n d by (simp add: algebra_simps)
    have "unat d \<noteq> 0" using assms(1) by (simp add: unat_gt_0)
    then have "unat n div unat d = unat q1 * 2 ^ 32 + unat q0" "unat n mod unat d = unat r0"
      using q0(2,3) unfolding e d by simp_all
    then show ?thesis using False assms(2) d0 q1(1) q0(1) by (auto simp: udivmoddi4_parts Let_def unat_dw)
  qed
qed

text \<open>A divisor whose top bit is set: the quotient is 0 or 1.\<close>

lemma udivmoddi4_top:
  assumes "high d \<noteq> 0" "high d \<le> high n" "count_leading_zeros (high d) = 0"
  shows "\<exists>q r. udivmoddi4 n d = Some (q, r) \<and> unat q = unat n div unat d \<and> unat r = unat n mod unat d"
proof -
  have d: "unat d = unat (dw (high d) (low d))" and n: "unat n = unat (dw (high n) (low n))" by simp_all
  have "2 ^ 31 \<le> unat (high d)" using clz(2) [OF assms(1)] assms(3) by simp
  then have "2 ^ 63 \<le> unat d" unfolding d unat_dw by simp
  then have n2: "unat n < 2 * unat d" using unat_less_64 [of n] by simp
  have c: "high n > high d \<or> low n \<ge> low d \<longleftrightarrow> unat d \<le> unat n"
  proof -
    have "unat d \<le> unat n \<longleftrightarrow> \<not> n < d" by (simp add: word_less_nat_alt not_less)
    moreover have "high n < high d \<longleftrightarrow> False" "high n = high d \<or> high d < high n" using assms(2) by auto
    ultimately show ?thesis unfolding less_high_low [of n d] by auto
  qed
  show ?thesis
  proof (cases "unat d \<le> unat n")
    case True
    obtain h l where hl: "sub_ddmmss (high n) (low n) (high d) (low d) = (h, l)" by fastforce
    have "unat (dw h l) = unat n - unat d" using unat_sub_dw [OF hl] True by simp
    moreover have "unat n div unat d = 1" using True n2 by (simp add: div_nat_eqI)
    moreover have "unat n mod unat d = unat n - unat d" using True n2 by (simp add: le_mod_geq)
    ultimately show ?thesis using True c hl assms by (auto simp: udivmoddi4_parts Let_def unat_dw)
  next
    case False
    then show ?thesis using c assms by (auto simp: udivmoddi4_parts Let_def unat_dw)
  qed
qed

lemma udivmoddi4_correct:
  assumes "d \<noteq> 0"
  shows "udivmoddi4 n d = Some (n div d, n mod d)"
proof -
  have "\<exists>q r. udivmoddi4 n d = Some (q, r) \<and> unat q = unat n div unat d \<and> unat r = unat n mod unat d"
  proof (cases "high d = 0")
    case True
    then show ?thesis using udivmoddi4_word [OF assms] by blast
  next
    case d1: False
    show ?thesis
    proof (cases "high d > high n")
      case True
      then have "n < d" using less_high_low [of n d] by blast
      then have "unat n < unat d" by (simp add: word_less_nat_alt)
      then show ?thesis using d1 True by (auto simp: udivmoddi4_parts Let_def unat_dw)
    next
      case False
      then have le: "high d \<le> high n" by simp
      show ?thesis
      proof (cases "count_leading_zeros (high d) = 0")
        case True
        then show ?thesis using udivmoddi4_top [OF d1 le] by blast
      next
        case clz: False
        have "udivmoddi4 n d = udiv_normalized (count_leading_zeros (high d)) (high n) (low n) (high d) (low d)"
          using d1 False clz by (simp add: udivmoddi4_parts Let_def)
        then show ?thesis using udiv_normalized_correct [OF d1 refl clz, of "high n" "low n" "low d"] by simp
      qed
    qed
  qed
  then show ?thesis by (auto simp: word_unat_eq_iff unat_div_distrib unat_mod_distrib)
qed

lemma sint_high: "sint (high w) < 0 \<longleftrightarrow> drop_bit 63 w \<noteq> 0"
proof -
  have "sint (high w) < 0 \<longleftrightarrow> bit (high w) 31" by (simp add: sint_uint bit_simps)
  then show ?thesis unfolding top_bit by (simp add: high_def bit_simps)
qed

text \<open>C29: On machines with words of 32 bits, division of 64-bit numbers traps exactly for the divisor 0, and gives the
  quotient and the remainder of C: rounded toward 0 and with the sign of the dividend.\<close>

theorem int64_division_correct:
  "udivdi3 u v = (if v = 0 then None else Some (u div v)) \<and>
   umoddi3 u v = (if v = 0 then None else Some (u mod v)) \<and>
   divdi3 u v = (if v = 0 then None else Some (word_of_int (sint u sdiv sint v))) \<and>
   moddi3 u v = (if v = 0 then None else Some (word_of_int (sint u smod sint v)))"
proof -
  have neg0: "negdi2 v = 0 \<longleftrightarrow> v = 0" for v by (simp add: negdi2_def)
  define a where "a w = (if drop_bit 63 w \<noteq> 0 then - w else (w :: u64))" for w
  have s: "drop_bit 63 w \<noteq> 0 \<longleftrightarrow> sint w < 0" for w :: u64 unfolding top_bit bit_63 ..
  have ua: "uint (a w) = \<bar>sint w\<bar>" for w unfolding a_def by (rule sint_abs)
  have q: "a u div a v = word_of_int (\<bar>sint u\<bar> div \<bar>sint v\<bar>)" "a u mod a v = word_of_int (\<bar>sint u\<bar> mod \<bar>sint v\<bar>)"
    unfolding word_div_def word_mod_def ua by simp_all
  have z: "sint w = 0 \<longleftrightarrow> w = 0" for w :: u64 using signed_word_eqI [of w 0] by auto
  have a0: "a v = 0 \<longleftrightarrow> v = 0" for v by (simp add: a_def)
  have "divdi3 u v = (case udivmoddi4 (a u) (a v) of None \<Rightarrow> None
      | Some (w, r) \<Rightarrow> Some (if (sint u < 0) \<noteq> (sint v < 0) then - w else w))"
    by (auto simp: divdi3_def sint_high a_def negdi2_def s split: option.split)
  moreover have "moddi3 u v = (case udivmoddi4 (a u) (a v) of None \<Rightarrow> None
      | Some (q, w) \<Rightarrow> Some (if sint u < 0 then - w else w))"
    by (auto simp: moddi3_def sint_high a_def negdi2_def s split: option.split)
  ultimately show ?thesis
    using udivmoddi4_zero [of u] udivmoddi4_correct [of v u] udivmoddi4_correct [of "a v" "a u"] a0 [of v] udivmoddi4_zero [of "a u"]
    by (auto simp: udivdi3_def umoddi3_def q signed_divide_int_def signed_modulo_int_def sgn_if z)
qed

section \<open>Shifts and conversions are exact\<close>

lemma bit_u32D: "bit (x :: u32) n \<Longrightarrow> n < 32"
  using bit_imp_le_length [of x n] by simp

lemma bit_u64D: "bit (x :: u64) n \<Longrightarrow> n < 64"
  using bit_imp_le_length [of x n] by simp

lemma bit_dw: "n < 64 \<Longrightarrow> bit (dw h l) n \<longleftrightarrow> (if n < 32 then bit l n else bit h (n - 32))"
  by (auto simp: dw_def bit_simps dest: bit_u32D)

text \<open>The shifts are those of 64-bit words.\<close>

lemma int64_shifts:
  assumes "b < 64"
  shows "lshrdi3 a b = drop_bit b a" "ashldi3 a b = push_bit b a" "ashrdi3 a b = signed_drop_bit b a"
proof -
  show "lshrdi3 a b = drop_bit b a"
  proof (cases "b \<ge> 32 \<or> b = 0")
    case True
    then show ?thesis using assms
      by (auto simp: lshrdi3_def dw_def high_def intro!: bit_word_eqI) (auto simp: bit_simps dest: bit_u64D)
  next
    case False
    then have "dw (drop_bit b (high a)) (push_bit (32 - b) (high a) OR drop_bit b (low a)) = drop_bit b (dw (high a) (low a))"
      by (intro shift_dw) simp_all
    then show ?thesis using False by (simp add: lshrdi3_def or.commute)
  qed
  show "ashldi3 a b = push_bit b a"
    using assms by (auto simp: ashldi3_def dw_def high_def low_def intro!: bit_word_eqI) (auto simp: bit_simps not_less dest: bit_u32D)
  show "ashrdi3 a b = signed_drop_bit b a"
  proof (rule bit_word_eqI)
    fix n :: nat assume "n < LENGTH(64)"
    then have n: "n < 64" by simp
    have hi: "bit (high a) i \<longleftrightarrow> i < 32 \<and> bit a (32 + i)" for i by (auto simp: high_def bit_simps)
    have lo: "bit (low a) i \<longleftrightarrow> i < 32 \<and> bit a i" for i by (auto simp: low_def bit_simps)
    have sd: "bit (signed_drop_bit k x) i \<longleftrightarrow> bit x (if 32 - k \<le> i then 31 else k + i)" if "i < 32" for k i and x :: u32
      using that by (auto simp: bit_simps)
    have "bit (signed_drop_bit b a) n \<longleftrightarrow> bit a (if 64 - b \<le> n then 63 else b + n)" using n by (auto simp: bit_simps)
    moreover have "bit (ashrdi3 a b) n \<longleftrightarrow> bit a (if 64 - b \<le> n then 63 else b + n)"
    proof (cases "n < 32")
      case True
      have lown: "b \<noteq> 0 \<Longrightarrow> b < 32 \<Longrightarrow> bit (drop_bit b (low a) OR push_bit (32 - b) (high a)) n \<longleftrightarrow> bit a (b + n)"
      proof -
        assume "b \<noteq> 0" "b < 32"
        then have "32 + (n - (32 - b)) = b + n" if "32 - b \<le> n" using that by simp
        then show ?thesis using True \<open>b \<noteq> 0\<close> \<open>b < 32\<close> by (auto simp: bit_simps hi lo add.commute [of b n])
      qed
      show ?thesis
        using True assms lown by (auto simp: ashrdi3_def bit_dw sd hi)
    next
      case False
      then show ?thesis using n assms by (auto simp: ashrdi3_def bit_dw sd hi)
    qed
    ultimately show "bit (ashrdi3 a b) n = bit (signed_drop_bit b a) n" by simp
  qed
qed

text \<open>A number \<open>M * 2 ^ e\<close>, where \<open>M\<close> has \<open>p\<close> bits and the highest of them is 1, rounded down.\<close>

lemma floor_mantissa:
  fixes M p :: nat
  assumes "M < 2 ^ p" "2 ^ (p - 1) \<le> M" "0 < p" "real M * 2 powi e < 2 ^ 64"
  shows "e < 65 - int p"
    and "0 \<le> e \<Longrightarrow> nat \<lfloor>real M * 2 powi e\<rfloor> = M * 2 ^ nat e"
    and "e < 0 \<Longrightarrow> nat \<lfloor>real M * 2 powi e\<rfloor> = M div 2 ^ nat (- e)"
    and "e \<le> - int p \<Longrightarrow> M div 2 ^ nat (- e) = 0"
proof -
  have pos: "real M * 2 powi e = real (M * 2 ^ nat e)" if "0 \<le> e" using that by (simp add: power_int_def)
  show "e < 65 - int p"
  proof (rule ccontr)
    assume e: "\<not> e < 65 - int p"
    show False
    proof (cases "0 \<le> e")
      case True
      have "(2 :: nat) ^ 64 \<le> 2 ^ (p - 1 + nat e)" using e assms(3) True by (intro power_increasing) auto
      also have "\<dots> \<le> M * 2 ^ nat e" unfolding power_add using assms(2) by (rule mult_le_mono1)
      finally have "real (2 ^ 64) \<le> real (M * 2 ^ nat e)" by (simp only: of_nat_le_iff)
      then show False using assms(4) unfolding pos [OF True] by simp
    next
      case False
      have "(2 :: real) powi 64 \<le> 2 powi (int (p - 1) + e)" using e assms(3) by (intro power_int_increasing) auto
      also have "\<dots> = real (2 ^ (p - 1)) * 2 powi e" by (simp add: power_int_add)
      also have "real (2 ^ (p - 1)) \<le> real M" using assms(2) by (simp only: of_nat_le_iff)
      then have "real (2 ^ (p - 1)) * 2 powi e \<le> real M * 2 powi e" by (intro mult_right_mono) simp_all
      finally show False using assms(4) by simp
    qed
  qed
  show "nat \<lfloor>real M * 2 powi e\<rfloor> = M * 2 ^ nat e" if "0 \<le> e" unfolding pos [OF that] by (simp only: floor_of_nat nat_int)
  show "nat \<lfloor>real M * 2 powi e\<rfloor> = M div 2 ^ nat (- e)" if "e < 0"
  proof -
    have "real M * 2 powi e = real M / real (2 ^ nat (- e))" using that by (simp add: power_int_def field_simps)
    then show ?thesis by (simp only: floor_divide_of_nat_eq nat_int)
  qed
  show "M div 2 ^ nat (- e) = 0" if "e \<le> - int p"
  proof -
    have "M < 2 ^ p" by (rule assms(1))
    also have "(2 :: nat) ^ p \<le> 2 ^ nat (- e)" using that by (intro power_increasing) auto
    finally show ?thesis by simp
  qed
qed

text \<open>What the three functions do with such a number.\<close>

definition fix_mantissa :: "int \<Rightarrow> u64 \<Rightarrow> u64" where
  "fix_mantissa e l = (if e \<ge> 0 then push_bit (nat e) l else drop_bit (nat (- e)) l)"

lemma fix_mantissa_floor:
  assumes "unat l < 2 ^ p" "2 ^ (p - 1) \<le> unat l" "0 < p" "real (unat l) * 2 powi e < 2 ^ 64"
  shows "e < 65 - int p" "unat (fix_mantissa e l) = nat \<lfloor>real (unat l) * 2 powi e\<rfloor>" "e \<le> - int p \<Longrightarrow> nat \<lfloor>real (unat l) * 2 powi e\<rfloor> = 0"
proof -
  note fl = floor_mantissa [OF assms]
  show "e < 65 - int p" by (rule fl(1))
  show "e \<le> - int p \<Longrightarrow> nat \<lfloor>real (unat l) * 2 powi e\<rfloor> = 0" using fl(3,4) assms(3) by simp
  show "unat (fix_mantissa e l) = nat \<lfloor>real (unat l) * 2 powi e\<rfloor>"
  proof (cases "0 \<le> e")
    case True
    have "real (unat l * 2 ^ nat e) = real (unat l) * 2 powi e" using True by (simp add: power_int_def)
    also have "\<dots> < real (2 ^ 64)" using assms(4) by simp
    finally have "unat l * 2 ^ nat e < 2 ^ 64" by (simp only: of_nat_less_iff)
    moreover have "unat (push_bit (nat e) l) = unat l * 2 ^ nat e mod 2 ^ 64"
      unfolding unsigned_push_bit_eq unfolding take_bit_eq_mod push_bit_eq_mult by simp
    ultimately show ?thesis using True fl(2) by (simp add: fix_mantissa_def)
  next
    case False
    then show ?thesis using fl(3) unfolding fix_mantissa_def by (simp add: unat_drop_bit_eq flip: drop_bit_eq_div)
  qed
qed

lemma fix_mantissa_result:
  assumes "unat l < 2 ^ p" "2 ^ (p - 1) \<le> unat l" "0 < p" "v < 2 ^ 64" "v = real (unat l) * 2 powi e"
    "hi = 65 - int p" "lo = - int (p - 1)"
  shows "(if e \<ge> hi then c else if e < lo then 0 else if s then - fix_mantissa e l else fix_mantissa e l) =
    (if s then - of_int \<lfloor>v\<rfloor> else of_int \<lfloor>v\<rfloor>)"
proof -
  note fm = fix_mantissa_floor [OF assms(1,2,3), of e, folded assms(5), OF assms(4)]
  have v: "0 \<le> \<lfloor>v\<rfloor>" unfolding assms(5) by (simp del: of_nat_unat)
  then have i: "\<lfloor>v\<rfloor> = int (unat (fix_mantissa e l))" using fm(2) by simp
  have w: "of_int \<lfloor>v\<rfloor> = fix_mantissa e l" unfolding i by simp
  have "\<lfloor>v\<rfloor> = 0" if "e < lo" using fm(3) v that assms(3,7) by (simp add: floor_eq_iff)
  then show ?thesis using fm(1) w assms(6) by auto
qed

text \<open>The number that the bits of a \<open>float\<close> mean, for finite numbers.\<close>

definition float_exp :: "u32 \<Rightarrow> nat" where "float_exp fl = unat (drop_bit 23 fl AND 0xFF)"
definition float_frac :: "u32 \<Rightarrow> nat" where "float_frac fl = unat (fl AND 0x7FFFFF)"

definition float_abs :: "u32 \<Rightarrow> real" where
  "float_abs fl = (if float_exp fl = 0 then real (float_frac fl) * 2 powi (- 149)
     else real (2 ^ 23 + float_frac fl) * 2 powi (int (float_exp fl) - 150))"

lemma mantissa_or:
  fixes w :: "'a::len word"
  assumes "Suc k < LENGTH('a)"
  shows "unat ((w AND mask k) OR push_bit k 1) = 2 ^ k + unat (w AND mask k)" "unat (w AND mask k) < 2 ^ k"
proof -
  have m: "unat (w AND mask k) = take_bit k (unat w)" by (simp add: unsigned_take_bit_eq flip: take_bit_eq_mask)
  show lt: "unat (w AND mask k) < 2 ^ k" unfolding m by simp
  have "(w AND mask k) OR push_bit k 1 = (w AND mask k) + push_bit k 1"
    by (rule disjunctive_add [symmetric]) (auto simp: bit_simps)
  moreover have "unat (push_bit k 1 :: 'a word) = 2 ^ k" using assms
    unfolding unsigned_push_bit_eq by (simp add: push_bit_eq_mult take_bit_nat_eq_self)
  moreover have "(2 :: nat) ^ k + 2 ^ k \<le> 2 ^ LENGTH('a)" using assms power_increasing [of "Suc k" "LENGTH('a)" "2 :: nat"] by simp
  ultimately show "unat ((w AND mask k) OR push_bit k 1) = 2 ^ k + unat (w AND mask k)"
    using lt by (simp add: unat_add_lem [THEN iffD1])
qed

lemma mantissa_24: "unat (ucast ((fl AND 0x7FFFFF) OR 0x800000 :: u32) :: u64) = 2 ^ 23 + float_frac fl" "float_frac fl < 2 ^ 23"
  using mantissa_or [of 23 fl] by (simp_all add: float_frac_def mask_eq_exp_minus_1 push_bit_eq_mult)

text \<open>A \<open>float\<close> that is not negative and below \<open>2 ^ 64\<close> is rounded down, a negative one gives the number with
  the other sign (modulo \<open>2 ^ 64\<close>).\<close>

lemma fixunssfdi_floor:
  assumes "float_exp fl \<noteq> 255" "float_abs fl < 2 ^ 64"
  shows "fixunssfdi fl = (if fl AND 0x80000000 \<noteq> 0 then - of_int \<lfloor>float_abs fl\<rfloor> else of_int \<lfloor>float_abs fl\<rfloor>)"
proof (cases "float_exp fl = 0")
  case True
  have "float_abs fl < 1"
  proof -
    have "real (float_frac fl) < real (2 ^ 23)" using mantissa_24(2) [of fl] by (simp only: of_nat_less_iff)
    then have "float_abs fl < real (2 ^ 23) * 2 powi (- 149)" using True by (simp add: float_abs_def)
    also have "\<dots> \<le> 1" by (simp add: power_int_minus)
    finally show ?thesis .
  qed
  moreover have "0 \<le> float_abs fl" using True by (simp add: float_abs_def)
  ultimately have "\<lfloor>float_abs fl\<rfloor> = 0" by (simp add: floor_eq_iff)
  moreover have "drop_bit 23 fl AND 0xFF = 0" using True by (simp add: float_exp_def unat_eq_zero)
  ultimately show ?thesis by (simp add: fixunssfdi_def)
next
  case False
  define e where "e = int (float_exp fl) - 150"
  define l :: u64 where "l = ucast ((fl AND 0x7FFFFF) OR 0x800000)"
  have l: "unat l = 2 ^ 23 + float_frac fl" "float_frac fl < 2 ^ 23" unfolding l_def by (rule mantissa_24)+
  have v: "float_abs fl = real (unat l) * 2 powi e" using False l(1) by (simp add: float_abs_def e_def)
  have "fl \<noteq> 0" using False by (auto simp: float_exp_def)
  have eq: "fixunssfdi fl = (if e \<ge> 41 then push_bit 63 1 else if e < - 23 then 0
      else if fl AND 0x80000000 \<noteq> 0 then - fix_mantissa e l else fix_mantissa e l)"
    using \<open>fl \<noteq> 0\<close> by (simp add: fixunssfdi_def Let_def fix_mantissa_def e_def l_def float_exp_def)
  show ?thesis unfolding eq by (rule fix_mantissa_result [where p = 24, OF _ _ _ assms(2) v]) (use l in simp_all)
qed

text \<open>The same for \<open>double\<close> and, if its highest bit is 1 as the processor keeps it, for \<open>long double\<close>.\<close>

definition double_exp :: "u64 \<Rightarrow> nat" where "double_exp dl = unat (drop_bit 20 (high dl) AND 0x7FF)"
definition double_frac :: "u64 \<Rightarrow> nat" where "double_frac dl = unat (dl AND (2 ^ 52 - 1))"

definition double_abs :: "u64 \<Rightarrow> real" where
  "double_abs dl = (if double_exp dl = 0 then real (double_frac dl) * 2 powi (- 1074)
     else real (2 ^ 52 + double_frac dl) * 2 powi (int (double_exp dl) - 1075))"

lemma mantissa_53: "unat ((dl AND (push_bit 52 1 - 1)) OR push_bit 52 1 :: u64) = 2 ^ 52 + double_frac dl" "double_frac dl < 2 ^ 52"
  using mantissa_or [of 52 dl] by (simp_all add: double_frac_def mask_eq_exp_minus_1 push_bit_eq_mult)

lemma fixunsdfdi_floor:
  assumes "double_exp dl \<noteq> 2047" "double_abs dl < 2 ^ 64"
  shows "fixunsdfdi dl = (if high dl AND 0x80000000 \<noteq> 0 then - of_int \<lfloor>double_abs dl\<rfloor> else of_int \<lfloor>double_abs dl\<rfloor>)"
proof (cases "double_exp dl = 0")
  case True
  have "real (double_frac dl) < real (2 ^ 52)" using mantissa_53(2) [of dl] by (simp only: of_nat_less_iff)
  then have "double_abs dl < real (2 ^ 52) * 2 powi (- 1074)" using True by (simp add: double_abs_def)
  also have "\<dots> \<le> 1" by (simp add: power_int_minus)
  finally have "\<lfloor>double_abs dl\<rfloor> = 0" using True by (simp add: floor_eq_iff double_abs_def)
  moreover have "drop_bit 20 (high dl) AND 0x7FF = 0" using True by (simp add: double_exp_def unat_eq_zero)
  ultimately show ?thesis by (simp add: fixunsdfdi_def)
next
  case False
  define e where "e = int (double_exp dl) - 1075"
  define l :: u64 where "l = (dl AND (push_bit 52 1 - 1)) OR push_bit 52 1"
  have l: "unat l = 2 ^ 52 + double_frac dl" "double_frac dl < 2 ^ 52" unfolding l_def by (rule mantissa_53)+
  have v: "double_abs dl = real (unat l) * 2 powi e" using False l(1) by (simp add: double_abs_def e_def)
  have "dl \<noteq> 0" using False by (auto simp: double_exp_def high_def)
  have eq: "fixunsdfdi dl = (if e \<ge> 12 then push_bit 63 1 else if e < - 52 then 0
      else if high dl AND 0x80000000 \<noteq> 0 then - fix_mantissa e l else fix_mantissa e l)"
    unfolding fixunsdfdi_def Let_def fix_mantissa_def l_def e_def double_exp_def using \<open>dl \<noteq> 0\<close> by simp
  show ?thesis unfolding eq by (rule fix_mantissa_result [where p = 53, OF _ _ _ assms(2) v]) (use l in simp_all)
qed

definition ldouble_abs :: "u64 \<Rightarrow> u16 \<Rightarrow> real" where
  "ldouble_abs lower upper = real (unat lower) * 2 powi (int (unat (upper AND 0x7fff)) - 16446)"

lemma fixunsxfdi_floor:
  assumes "2 ^ 63 \<le> unat lower" "ldouble_abs lower upper < 2 ^ 64"
  shows "fixunsxfdi lower upper =
    (if upper AND 0x8000 \<noteq> 0 then - of_int \<lfloor>ldouble_abs lower upper\<rfloor> else of_int \<lfloor>ldouble_abs lower upper\<rfloor>)"
proof -
  define e where "e = int (unat (upper AND 0x7fff)) - 16446"
  have v: "ldouble_abs lower upper = real (unat lower) * 2 powi e" by (simp add: ldouble_abs_def e_def)
  have "lower \<noteq> 0" using assms(1) by auto
  have eq: "fixunsxfdi lower upper = (if e \<ge> 1 then push_bit 63 1 else if e < - 63 then 0
      else if upper AND 0x8000 \<noteq> 0 then - fix_mantissa e lower else fix_mantissa e lower)"
    unfolding fixunsxfdi_def Let_def fix_mantissa_def e_def using \<open>lower \<noteq> 0\<close> by simp
  show ?thesis unfolding eq by (rule fix_mantissa_result [where p = 64, OF _ _ _ assms(2) v]) (use assms(1) unat_less_64 [of lower] in simp_all)
qed

end
