(* ===== verification/Dalist.thy ===== *)
theory Dalist
  imports Tcc_Prelude
begin

text \<open>
  Doubly linked lists with sorted keys (\<open>dalist.c\<close>, \<open>dalist_memfn.c\<close>). Nodes live in a heap from addresses, where 0 is
  the null pointer, and carry the links, so the operations are updates of the heap. A list keeps the nodes that it
  gives back in a list of free nodes. The memory functions of the caller are given by what they return.
\<close>

unbundle bit_operations_syntax

section \<open>Nodes and lists\<close>

record da_node =
  dn_prev :: u64
  dn_next :: u64
  dn_key :: u64

datatype dalist_memfn = DALIST_MEMFN_CUSTOM | DALIST_MEMFN_MMAP | DALIST_MEMFN_MALLOC | DALIST_MEMFN_NT_ALLOCATE_VIRTUAL_MEMORY

datatype da_ret = DALIST_OK | DALIST_EINTERNAL | DALIST_EMEMFN | DALIST_EMEMBLOCK | DALIST_ELIST | DALIST_ENODE | DALIST_EKEYEXISTS

record dalist_ex =
  da_heap :: "u64 \<Rightarrow> da_node"
  da_head :: u64
  da_tail :: u64
  da_free :: u64
  da_dblock_size :: u64
  da_lblock_size :: u64
  da_memfn_method :: dalist_memfn
  da_memfn_status :: u32
  da_list_nodes :: u64
  da_free_nodes :: u64

abbreviation da_next :: "dalist_ex \<Rightarrow> u64 \<Rightarrow> u64" where "da_next s a \<equiv> dn_next (da_heap s a)"
abbreviation da_prev :: "dalist_ex \<Rightarrow> u64 \<Rightarrow> u64" where "da_prev s a \<equiv> dn_prev (da_heap s a)"
abbreviation da_key :: "dalist_ex \<Rightarrow> u64 \<Rightarrow> u64" where "da_key s a \<equiv> dn_key (da_heap s a)"

definition set_next :: "u64 \<Rightarrow> u64 \<Rightarrow> dalist_ex \<Rightarrow> dalist_ex" where
  "set_next a v s = s\<lparr>da_heap := (da_heap s)(a := (da_heap s a)\<lparr>dn_next := v\<rparr>)\<rparr>"

definition set_prev :: "u64 \<Rightarrow> u64 \<Rightarrow> dalist_ex \<Rightarrow> dalist_ex" where
  "set_prev a v s = s\<lparr>da_heap := (da_heap s)(a := (da_heap s a)\<lparr>dn_prev := v\<rparr>)\<rparr>"

definition set_key :: "u64 \<Rightarrow> u64 \<Rightarrow> dalist_ex \<Rightarrow> dalist_ex" where
  "set_key a v s = s\<lparr>da_heap := (da_heap s)(a := (da_heap s a)\<lparr>dn_key := v\<rparr>)\<rparr>"

definition dalist_init_ex :: "u64 \<Rightarrow> dalist_ex \<Rightarrow> u64 \<Rightarrow> u64 \<Rightarrow> dalist_memfn \<Rightarrow> da_ret \<times> dalist_ex" where
  "dalist_init_ex dlist s dblock_size lblock_size method =
     (if dlist = 0 then (DALIST_ELIST, s)
      else (DALIST_OK, s\<lparr>da_head := 0, da_tail := 0, da_dblock_size := dblock_size, da_lblock_size := lblock_size,
              da_memfn_method := method, da_free := 0, da_memfn_status := 0, da_list_nodes := 0, da_free_nodes := 0\<rparr>))"

text \<open>The new node as the only one: the same lines in both functions that insert.\<close>

definition da_only :: "u64 \<Rightarrow> dalist_ex \<Rightarrow> da_ret \<times> dalist_ex" where
  "da_only nnode s =
     (if da_head s \<noteq> 0 then (DALIST_ENODE, s)
      else (DALIST_OK, (set_prev nnode 0 (set_next nnode 0 s))\<lparr>da_head := nnode, da_tail := nnode\<rparr>))"

definition dalist_insert_before :: "u64 \<Rightarrow> dalist_ex \<Rightarrow> u64 \<Rightarrow> u64 \<Rightarrow> da_ret \<times> dalist_ex" where
  "dalist_insert_before dlist s lnode nnode =
     (if dlist = 0 then (DALIST_ELIST, s)
      else if lnode \<noteq> 0 then
        let s = set_prev nnode (da_prev s lnode) s; s = set_next nnode lnode s; s = set_prev lnode nnode s
        in (DALIST_OK, if da_prev s nnode \<noteq> 0 then set_next (da_prev s nnode) nnode s else s\<lparr>da_head := nnode\<rparr>)
      else da_only nnode s)"

definition dalist_insert_after :: "u64 \<Rightarrow> dalist_ex \<Rightarrow> u64 \<Rightarrow> u64 \<Rightarrow> da_ret \<times> dalist_ex" where
  "dalist_insert_after dlist s lnode nnode =
     (if dlist = 0 then (DALIST_ELIST, s)
      else if lnode \<noteq> 0 then
        let s = set_prev nnode lnode s; s = set_next nnode (da_next s lnode) s; s = set_next lnode nnode s
        in (DALIST_OK, if da_next s nnode \<noteq> 0 then set_prev (da_next s nnode) nnode s else s\<lparr>da_tail := nnode\<rparr>)
      else da_only nnode s)"

definition dalist_unlink_node :: "u64 \<Rightarrow> dalist_ex \<Rightarrow> u64 \<Rightarrow> da_ret \<times> dalist_ex" where
  "dalist_unlink_node dlist s node =
     (if dlist = 0 then (DALIST_ELIST, s)
      else if node = 0 then (DALIST_ENODE, s)
      else
        let prev = da_prev s node; succ = da_next s node;
            s = (if prev \<noteq> 0 then set_next prev succ s else s\<lparr>da_head := succ\<rparr>)
        in (DALIST_OK, if succ \<noteq> 0 then set_prev succ prev s else s\<lparr>da_tail := prev\<rparr>))"

definition dalist_unlink_node_ex :: "u64 \<Rightarrow> dalist_ex \<Rightarrow> u64 \<Rightarrow> da_ret \<times> dalist_ex" where
  "dalist_unlink_node_ex dlist s node =
     (let (ret, s) = dalist_unlink_node dlist s node
      in (ret, if ret = DALIST_OK then s\<lparr>da_list_nodes := da_list_nodes s - 1\<rparr> else s))"

section \<open>Free nodes\<close>

definition dalist_deposit_free_node :: "dalist_ex \<Rightarrow> u64 \<Rightarrow> da_ret \<times> dalist_ex" where
  "dalist_deposit_free_node s fnode =
     (if fnode \<noteq> 0 then
        let s = set_next fnode (da_free s) s; s = set_prev fnode 0 s
        in (DALIST_OK, s\<lparr>da_free := fnode, da_free_nodes := da_free_nodes s + 1\<rparr>)
      else (DALIST_ENODE, s))"

text \<open>The loop that chains the nodes of a block; the last node, and the heap.\<close>

partial_function (option) da_chain :: "u64 \<Rightarrow> u64 \<Rightarrow> u64 \<Rightarrow> u64 \<Rightarrow> dalist_ex \<Rightarrow> (u64 \<times> dalist_ex) option" where
  "da_chain node_size naddr_upper naddr naddr_next s =
     (if naddr_next + node_size \<le> naddr_upper then
        da_chain node_size naddr_upper (naddr + node_size) (naddr_next + node_size)
          (set_prev naddr_next naddr (set_next naddr naddr_next s))
      else Some (naddr, s))"

definition da_node_size :: "u64 \<Rightarrow> u64" where
  "da_node_size dblock_size =
     (let node_size = (if dblock_size = 0 then 24 else 32 + dblock_size); node_size = node_size + 7
      in (node_size OR 7) XOR 7)"

definition dalist_deposit_memory_block :: "dalist_ex \<Rightarrow> u64 \<Rightarrow> u64 \<Rightarrow> (da_ret \<times> dalist_ex) option" where
  "dalist_deposit_memory_block s addr alloc_size =
     (let node_size = da_node_size (da_dblock_size s) in
      if alloc_size < node_size then Some (DALIST_EMEMBLOCK, s)
      else
        case da_chain node_size (addr + alloc_size) addr (addr + node_size) s of
          None \<Rightarrow> None
        | Some (naddr, s) \<Rightarrow>
            let s = (if da_free s \<noteq> 0 then set_prev (da_free s) naddr (set_next naddr (da_free s) s) else set_next naddr 0 s);
                s = set_prev addr 0 s
            in Some (DALIST_OK, s\<lparr>da_free := addr, da_free_nodes := da_free_nodes s + alloc_size div node_size\<rparr>))"

text \<open>What the functions of the caller and the system return: an address, and for the third method a status and a size;
  \<open>errno\<close>; and all that a custom function returns. \<open>None\<close> stands for a read through a null pointer.\<close>

record memfn_env =
  me_addr :: u64
  me_status :: u32
  me_size :: u64
  me_errno :: u32
  me_custom :: "da_ret \<times> u64 \<times> u64"

definition dalist_memfn_internal :: "memfn_env \<Rightarrow> dalist_ex \<Rightarrow> (da_ret \<times> u64 \<times> u64 \<times> dalist_ex) option" where
  "dalist_memfn_internal me s =
     (case da_memfn_method s of
        DALIST_MEMFN_MALLOC \<Rightarrow>
          if da_dblock_size s \<noteq> 0 then None
          else if me_addr me \<noteq> 0 then Some (DALIST_OK, me_addr me, 24, s\<lparr>da_memfn_status := 0\<rparr>)
          else Some (DALIST_EMEMFN, 0, 0, s\<lparr>da_memfn_status := me_errno me\<rparr>)
      | DALIST_MEMFN_MMAP \<Rightarrow>
          if me_addr me \<noteq> 0 then Some (DALIST_OK, me_addr me, da_lblock_size s, s\<lparr>da_memfn_status := 0\<rparr>)
          else Some (DALIST_EMEMFN, 0, 0, s\<lparr>da_memfn_status := me_errno me\<rparr>)
      | DALIST_MEMFN_NT_ALLOCATE_VIRTUAL_MEMORY \<Rightarrow>
          let s = s\<lparr>da_memfn_status := me_status me\<rparr> in
          if me_status me = 0 then Some (DALIST_OK, me_addr me, me_size me, s) else Some (DALIST_EMEMFN, 0, 0, s)
      | DALIST_MEMFN_CUSTOM \<Rightarrow> Some (DALIST_EINTERNAL, 0, 0, s))"

definition dalist_alloc :: "memfn_env \<Rightarrow> dalist_ex \<Rightarrow> (u64 \<times> dalist_ex) option" where
  "dalist_alloc me s =
     (case (if da_memfn_method s = DALIST_MEMFN_CUSTOM then
              case me_custom me of (ret, addr, alloc_size) \<Rightarrow> Some (ret, addr, alloc_size, s)
            else dalist_memfn_internal me s) of
        None \<Rightarrow> None
      | Some (ret, addr, alloc_size, s) \<Rightarrow>
          if ret = DALIST_OK then
            if da_memfn_method s = DALIST_MEMFN_MALLOC then Some (addr, s)
            else
              (case dalist_deposit_memory_block s addr alloc_size of
                 None \<Rightarrow> None
               | Some (ret, s) \<Rightarrow> Some (if ret = DALIST_OK then da_free s else 0, s))
          else Some (0, s))"

definition dalist_get_free_node :: "memfn_env \<Rightarrow> dalist_ex \<Rightarrow> (da_ret \<times> u64 \<times> dalist_ex) option" where
  "dalist_get_free_node me s =
     (case (if da_free s \<noteq> 0 then Some (da_free s, s) else dalist_alloc me s) of
        None \<Rightarrow> None
      | Some (nfree, s) \<Rightarrow>
          if nfree \<noteq> 0 then
            let s = s\<lparr>da_free := da_next s nfree\<rparr>;
                s = (if da_next s nfree \<noteq> 0 then set_prev (da_next s nfree) 0 s else s);
                s = s\<lparr>da_free_nodes := da_free_nodes s - 1\<rparr>;
                s = set_next nfree 0 s; s = set_prev nfree 0 s
            in Some (DALIST_OK, nfree, s)
          else Some (DALIST_EMEMFN, 0, s))"

definition dalist_discard_node :: "u64 \<Rightarrow> dalist_ex \<Rightarrow> u64 \<Rightarrow> da_ret \<times> dalist_ex" where
  "dalist_discard_node dlist s node =
     (let (ret, s) = dalist_unlink_node_ex dlist s node
      in if ret = DALIST_OK then dalist_deposit_free_node s node else (ret, s))"

section \<open>Access by key\<close>

text \<open>The loop that looks for the first node whose key is not less. On a cyclic list it would not end.\<close>

partial_function (option) da_seek :: "dalist_ex \<Rightarrow> u64 \<Rightarrow> u64 \<Rightarrow> u64 option" where
  "da_seek s key cnode =
     (if cnode \<noteq> 0 \<and> da_key s cnode < key then da_seek s key (da_next s cnode) else Some cnode)"

datatype node_flags = DALIST_NODE_TYPE_NONE | DALIST_NODE_TYPE_EXISTING | DALIST_NODE_TYPE_NEW

definition dalist_get_node_by_key :: "memfn_env \<Rightarrow> u64 \<Rightarrow> dalist_ex \<Rightarrow> u64 \<Rightarrow> bool \<Rightarrow> (da_ret \<times> u64 \<times> node_flags \<times> dalist_ex) option" where
  "dalist_get_node_by_key me dlist s key get_new =
     (if dlist = 0 then Some (DALIST_ELIST, 0, DALIST_NODE_TYPE_NONE, s)
      else
        case da_seek s key (da_head s) of
          None \<Rightarrow> None
        | Some cnode \<Rightarrow>
            if cnode \<noteq> 0 \<and> da_key s cnode = key then Some (DALIST_OK, cnode, DALIST_NODE_TYPE_EXISTING, s)
            else if get_new then
              (case dalist_get_free_node me s of
                 None \<Rightarrow> None
               | Some (ret, nnode, s) \<Rightarrow>
                   if ret \<noteq> DALIST_OK then Some (ret, 0, DALIST_NODE_TYPE_NONE, s)
                   else
                     let s = set_key nnode key s;
                         (ret, s) = (if cnode \<noteq> 0 then dalist_insert_before dlist s cnode nnode
                                     else dalist_insert_after dlist s (da_tail s) nnode)
                     in if ret = DALIST_OK then
                          Some (ret, nnode, DALIST_NODE_TYPE_NEW, s\<lparr>da_list_nodes := da_list_nodes s + 1\<rparr>)
                        else Some (ret, 0, DALIST_NODE_TYPE_NONE, snd (dalist_deposit_free_node s nnode)))
            else Some (DALIST_OK, 0, DALIST_NODE_TYPE_NONE, s))"

definition dalist_insert_node_by_key :: "u64 \<Rightarrow> dalist_ex \<Rightarrow> u64 \<Rightarrow> (da_ret \<times> dalist_ex) option" where
  "dalist_insert_node_by_key dlist s node =
     (if dlist = 0 then Some (DALIST_ELIST, s)
      else
        case da_seek s (da_key s node) (da_head s) of
          None \<Rightarrow> None
        | Some cnode \<Rightarrow>
            if cnode \<noteq> 0 \<and> da_key s cnode = da_key s node then Some (DALIST_EKEYEXISTS, s)
            else
              let (ret, s) = (if cnode \<noteq> 0 then dalist_insert_before dlist s cnode node
                              else dalist_insert_after dlist s (da_tail s) node)
              in Some (ret, if ret = DALIST_OK then s\<lparr>da_list_nodes := da_list_nodes s + 1\<rparr> else s))"

section \<open>Linked sequences of nodes\<close>

definition first_of :: "u64 list \<Rightarrow> u64 \<Rightarrow> u64" where "first_of xs q = (if xs = [] then q else hd xs)"
definition last_of :: "u64 \<Rightarrow> u64 list \<Rightarrow> u64" where "last_of p xs = (if xs = [] then p else last xs)"

lemma first_of_simps [simp]: "first_of [] q = q" "first_of (x # xs) q = x" "first_of (xs @ ys) q = first_of xs (first_of ys q)"
  by (auto simp: first_of_def)

lemma last_of_simps [simp]: "last_of p [] = p" "last_of p (x # xs) = last_of x xs" "last_of p (xs @ ys) = last_of (last_of p xs) ys"
  by (auto simp: last_of_def)

text \<open>The nodes of the list are linked both ways, between \<open>p\<close> and \<open>q\<close>.\<close>

fun dlinked :: "(u64 \<Rightarrow> da_node) \<Rightarrow> u64 \<Rightarrow> u64 list \<Rightarrow> u64 \<Rightarrow> bool" where
  "dlinked h p [] q = True"
| "dlinked h p (x # xs) q = (dn_prev (h x) = p \<and> dn_next (h x) = first_of xs q \<and> dlinked h x xs q)"

fun dlinked_next :: "(u64 \<Rightarrow> da_node) \<Rightarrow> u64 list \<Rightarrow> u64 \<Rightarrow> bool" where
  "dlinked_next h [] q = True"
| "dlinked_next h (x # xs) q = (dn_next (h x) = first_of xs q \<and> dlinked_next h xs q)"

lemma dlinked_append [simp]: "dlinked h p (xs @ ys) q = (dlinked h p xs (first_of ys q) \<and> dlinked h (last_of p xs) ys q)"
  by (induction xs arbitrary: p) auto

lemma dlinked_cong:
  "(\<And>a. a \<in> set xs \<Longrightarrow> dn_prev (h a) = dn_prev (g a) \<and> dn_next (h a) = dn_next (g a)) \<Longrightarrow> dlinked h p xs q = dlinked g p xs q"
  by (induction xs arbitrary: p) auto

lemma dlinked_next_cong: "(\<And>a. a \<in> set xs \<Longrightarrow> dn_next (h a) = dn_next (g a)) \<Longrightarrow> dlinked_next h xs q = dlinked_next g xs q"
  by (induction xs) auto

lemma dlinked_next_append [simp]: "dlinked_next h (xs @ ys) q = (dlinked_next h xs (first_of ys q) \<and> dlinked_next h ys q)"
  by (induction xs) auto

lemma dlinked_upd_other [simp]: "a \<notin> set xs \<Longrightarrow> dlinked (h(a := v)) p xs q = dlinked h p xs q"
  by (rule dlinked_cong) auto

lemma dlinked_next_upd_other [simp]: "a \<notin> set xs \<Longrightarrow> dlinked_next (h(a := v)) xs q = dlinked_next h xs q"
  by (rule dlinked_next_cong) auto

text \<open>Hanging another node before the first or behind the last one.\<close>

lemma dlinked_set_prev:
  assumes "dlinked h p ys q" "distinct ys" "ys \<noteq> []"
  shows "dlinked (h(hd ys := (h (hd ys))\<lparr>dn_prev := v\<rparr>)) v ys q"
  using assms by (cases ys) auto

lemma dlinked_set_next:
  assumes "dlinked h p xs q" "distinct xs" "xs \<noteq> []"
  shows "dlinked (h(last xs := (h (last xs))\<lparr>dn_next := v\<rparr>)) p xs v"
proof -
  obtain ys y where [simp]: "xs = ys @ [y]" using assms(3) by (metis rev_exhaust)
  show ?thesis using assms(1,2) by auto
qed

text \<open>A node between two parts, and a node taken out between two parts.\<close>

definition link_between :: "(u64 \<Rightarrow> da_node) \<Rightarrow> u64 list \<Rightarrow> u64 \<Rightarrow> u64 list \<Rightarrow> u64 \<Rightarrow> da_node" where
  "link_between h as n bs =
     (let h = h(n := (h n)\<lparr>dn_prev := last_of 0 as, dn_next := first_of bs 0\<rparr>);
          h = (if bs = [] then h else h(hd bs := (h (hd bs))\<lparr>dn_prev := n\<rparr>))
      in if as = [] then h else h(last as := (h (last as))\<lparr>dn_next := n\<rparr>))"

definition unlink_between :: "(u64 \<Rightarrow> da_node) \<Rightarrow> u64 list \<Rightarrow> u64 list \<Rightarrow> u64 \<Rightarrow> da_node" where
  "unlink_between h as bs =
     (let h = (if as = [] then h else h(last as := (h (last as))\<lparr>dn_next := first_of bs 0\<rparr>))
      in if bs = [] then h else h(hd bs := (h (hd bs))\<lparr>dn_prev := last_of 0 as\<rparr>))"

lemma last_not_in: "as \<noteq> [] \<Longrightarrow> set as \<inter> B = {} \<Longrightarrow> last as \<notin> B" and hd_not_in: "as \<noteq> [] \<Longrightarrow> set as \<inter> B = {} \<Longrightarrow> hd as \<notin> B"
  by (auto dest: last_in_set hd_in_set)

lemma dlinked_between:
  assumes l: "dlinked h 0 (as @ bs) 0" and d: "distinct (as @ n # bs)"
  shows "dlinked (link_between h as n bs) 0 (as @ n # bs) 0"
proof -
  let ?g = "h(n := (h n)\<lparr>dn_prev := last_of 0 as, dn_next := first_of bs 0\<rparr>)"
  let ?k = "if bs = [] then ?g else ?g(hd bs := (?g (hd bs))\<lparr>dn_prev := n\<rparr>)"
  have nb: "bs \<noteq> [] \<Longrightarrow> hd bs \<noteq> n" "bs \<noteq> [] \<Longrightarrow> hd bs \<notin> set as" "as \<noteq> [] \<Longrightarrow> last as \<noteq> n" "as \<noteq> [] \<Longrightarrow> last as \<notin> set bs"
    using d by (auto dest: last_in_set hd_in_set)
  have "dlinked ?k n bs 0" using l d dlinked_set_prev[of ?g "last_of 0 as" bs 0 n] by (cases "bs = []") auto
  moreover have "dlinked ?k 0 as (first_of bs 0)" using l d nb by auto
  moreover have "dn_prev (?k n) = last_of 0 as" "dn_next (?k n) = first_of bs 0" using nb by auto
  moreover have "link_between h as n bs = (if as = [] then ?k else ?k(last as := (?k (last as))\<lparr>dn_next := n\<rparr>))"
    by (simp add: link_between_def Let_def)
  ultimately show ?thesis using d nb dlinked_set_next[of ?k 0 as "first_of bs 0" n] by (cases "as = []") auto
qed

lemma dlinked_unlink:
  assumes l: "dlinked h 0 (as @ n # bs) 0" and d: "distinct (as @ n # bs)"
  shows "dlinked (unlink_between h as bs) 0 (as @ bs) 0"
proof -
  let ?g = "if as = [] then h else h(last as := (h (last as))\<lparr>dn_next := first_of bs 0\<rparr>)"
  have nb: "bs \<noteq> [] \<Longrightarrow> hd bs \<notin> set as" "as \<noteq> [] \<Longrightarrow> last as \<notin> set bs"
    using d by (auto dest: last_in_set hd_in_set)
  have a: "dlinked ?g 0 as (first_of bs 0)" using l d dlinked_set_next[of h 0 as n "first_of bs 0"] by (cases "as = []") auto
  have b: "dlinked ?g n bs 0" using l nb by auto
  have e: "unlink_between h as bs = (if bs = [] then ?g else ?g(hd bs := (?g (hd bs))\<lparr>dn_prev := last_of 0 as\<rparr>))"
    by (simp add: unlink_between_def Let_def)
  show ?thesis
    using a dlinked_set_prev[OF b, of "last_of 0 as"] d nb(1) unfolding e by (cases "bs = []") simp_all
qed

lemma upd_key [simp]:
  "dn_key ((h(x := (h x)\<lparr>dn_prev := v\<rparr>)) a) = dn_key (h a)" "dn_key ((h(x := (h x)\<lparr>dn_next := v\<rparr>)) a) = dn_key (h a)"
  "dn_key ((h(x := (h x)\<lparr>dn_prev := v, dn_next := w\<rparr>)) a) = dn_key (h a)"
  by simp_all

lemma link_between_key [simp]: "dn_key (link_between h as n bs a) = dn_key (h a)"
  unfolding link_between_def Let_def by (cases "as = []"; cases "bs = []"; simp only: upd_key if_True if_False simp_thms)

lemma unlink_between_key [simp]: "dn_key (unlink_between h as bs a) = dn_key (h a)"
  unfolding unlink_between_def Let_def by (cases "as = []"; cases "bs = []"; simp only: upd_key if_True if_False simp_thms)

lemma link_between_other: "a \<notin> set (as @ n # bs) \<Longrightarrow> link_between h as n bs a = h a"
  using last_not_in[of as "{a}"] hd_not_in[of bs "{a}"] unfolding link_between_def Let_def by (cases "as = []"; cases "bs = []") simp_all

lemma unlink_between_other: "a \<notin> set (as @ bs) \<Longrightarrow> unlink_between h as bs a = h a"
  using last_not_in[of as "{a}"] hd_not_in[of bs "{a}"] unfolding unlink_between_def Let_def by (cases "as = []"; cases "bs = []") simp_all


section \<open>Lists with a well-formed chain\<close>

definition da_rep :: "dalist_ex \<Rightarrow> u64 list \<Rightarrow> bool" where
  "da_rep s xs \<longleftrightarrow> distinct xs \<and> 0 \<notin> set xs \<and> dlinked (da_heap s) 0 xs 0 \<and> da_head s = first_of xs 0 \<and> da_tail s = last_of 0 xs"

definition put_between :: "dalist_ex \<Rightarrow> u64 list \<Rightarrow> u64 \<Rightarrow> u64 list \<Rightarrow> dalist_ex" where
  "put_between s as n bs = s\<lparr>da_heap := link_between (da_heap s) as n bs, da_head := first_of as n, da_tail := last_of n bs\<rparr>"

definition take_between :: "dalist_ex \<Rightarrow> u64 list \<Rightarrow> u64 list \<Rightarrow> dalist_ex" where
  "take_between s as bs = s\<lparr>da_heap := unlink_between (da_heap s) as bs, da_head := first_of (as @ bs) 0, da_tail := last_of 0 (as @ bs)\<rparr>"

lemma put_between_rep: "da_rep s (as @ bs) \<Longrightarrow> n \<notin> set (as @ bs) \<Longrightarrow> n \<noteq> 0 \<Longrightarrow> da_rep (put_between s as n bs) (as @ n # bs)"
  using dlinked_between[of "da_heap s" as bs n] unfolding da_rep_def put_between_def by simp

lemma take_between_rep: "da_rep s (as @ n # bs) \<Longrightarrow> da_rep (take_between s as bs) (as @ bs)"
  using dlinked_unlink[of "da_heap s" as n bs] unfolding da_rep_def take_between_def by simp

lemma last_of_0: "0 \<notin> set as \<Longrightarrow> (last_of 0 as = 0) = (as = [])"
  by (induction as rule: rev_induct) auto

lemma first_of_0: "0 \<notin> set bs \<Longrightarrow> (first_of bs 0 = 0) = (bs = [])"
  by (cases bs) auto

lemma dn_swap: "(r::da_node)\<lparr>dn_next := a, dn_prev := b\<rparr> = r\<lparr>dn_prev := b, dn_next := a\<rparr>"
  by simp

lemma insert_before_between:
  assumes "da_rep s (as @ b # bs)" "n \<notin> set (as @ b # bs)" "n \<noteq> 0" "dlist \<noteq> 0"
  shows "dalist_insert_before dlist s b n = (DALIST_OK, put_between s as n (b # bs))"
  using assms last_of_0[of as] unfolding da_rep_def
  by (cases as rule: rev_cases)
    (auto simp: dalist_insert_before_def put_between_def link_between_def set_prev_def set_next_def Let_def fun_upd_twist)

lemma insert_after_last:
  assumes "da_rep s as" "n \<notin> set as" "n \<noteq> 0" "dlist \<noteq> 0"
  shows "dalist_insert_after dlist s (da_tail s) n = (DALIST_OK, put_between s as n [])"
  using assms unfolding da_rep_def
  by (cases as rule: rev_cases)
    (auto simp: dalist_insert_after_def da_only_def dn_swap put_between_def link_between_def set_prev_def set_next_def Let_def fun_upd_twist)

lemma unlink_between_ok:
  assumes "da_rep s (as @ n # bs)" "dlist \<noteq> 0"
  shows "dalist_unlink_node dlist s n = (DALIST_OK, take_between s as bs)"
  using assms last_of_0[of as] first_of_0[of bs] unfolding da_rep_def
  by (cases as rule: rev_cases; cases bs)
    (auto simp: dalist_unlink_node_def take_between_def unlink_between_def set_prev_def set_next_def Let_def)

section \<open>Lists as maps from keys to nodes\<close>

text \<open>The invariant: the nodes of the list are sorted by their keys, apart from the free ones, and both are counted.\<close>

definition da_inv :: "dalist_ex \<Rightarrow> u64 list \<Rightarrow> u64 list \<Rightarrow> bool" where
  "da_inv s xs fs \<longleftrightarrow> da_rep s xs \<and> sorted_wrt (<) (map (da_key s) xs) \<and> distinct fs \<and> set xs \<inter> set fs = {} \<and> 0 \<notin> set fs \<and>
     dlinked_next (da_heap s) fs 0 \<and> da_free s = first_of fs 0 \<and>
     da_list_nodes s = of_nat (length xs) \<and> da_free_nodes s = of_nat (length fs)"

definition da_map :: "dalist_ex \<Rightarrow> u64 list \<Rightarrow> u64 \<Rightarrow> u64 option" where
  "da_map s xs = map_of (map (\<lambda>a. (da_key s a, a)) xs)"

lemma da_map_simps [simp]: "da_map s [] = Map.empty" "da_map s (x # xs) = (da_map s xs)(da_key s x \<mapsto> x)"
  "da_map s (xs @ ys) = da_map s ys ++ da_map s xs"
  by (simp_all add: da_map_def)

lemma da_map_None: "(da_map s xs k = None) = (k \<notin> da_key s ` set xs)"
  by (induction xs) auto

lemma da_map_cong: "(\<And>a. a \<in> set xs \<Longrightarrow> da_key s a = da_key t a) \<Longrightarrow> da_map s xs = da_map t xs"
  by (induction xs) auto

lemma da_map_put:
  "da_key s n \<notin> da_key s ` set (as @ bs) \<Longrightarrow> da_map s (as @ n # bs) = (da_map s (as @ bs))(da_key s n \<mapsto> n)"
  using da_map_None[of s as "da_key s n"] by (auto simp: map_add_def fun_eq_iff split: option.split)

lemma da_map_take:
  "da_key s n \<notin> da_key s ` set (as @ bs) \<Longrightarrow> da_map s (as @ bs) = (da_map s (as @ n # bs))(da_key s n := None)"
  using da_map_None[of s as "da_key s n"] da_map_None[of s bs "da_key s n"]
  by (auto simp: map_add_def fun_eq_iff split: option.split)

text \<open>The search ends at the first node whose key is not less.\<close>

lemma seek_ok:
  "dlinked (da_heap s) p xs 0 \<Longrightarrow> 0 \<notin> set xs \<Longrightarrow>
   da_seek s key (first_of xs 0) = Some (first_of (dropWhile (\<lambda>a. da_key s a < key) xs) 0)"
proof (induction xs arbitrary: p)
  case Nil
  show ?case by (simp add: da_seek.simps[of s key 0])
next
  case (Cons x xs)
  then show ?case by (auto simp: da_seek.simps[of s key x])
qed

lemma sorted_keys_map:
  assumes "sorted_wrt (<) (map (da_key s) xs)" and bs: "bs = dropWhile (\<lambda>a. da_key s a < key) xs"
  shows "da_map s xs key = (if bs \<noteq> [] \<and> da_key s (hd bs) = key then Some (hd bs) else None)"
  using assms by (induction xs) (auto simp: da_map_None)

lemma sorted_keys_parts:
  assumes "sorted_wrt (<) (map (da_key s) xs)" "da_map s xs key = None"
  obtains as bs where "xs = as @ bs" "bs = dropWhile (\<lambda>a. da_key s a < key) xs"
    "\<forall>a\<in>set as. da_key s a < key" "\<forall>b\<in>set bs. key < da_key s b"
proof -
  let ?P = "\<lambda>a. da_key s a < key"
  have "key \<notin> da_key s ` set xs" using assms(2) by (simp add: da_map_None)
  with assms(1) have "\<forall>b\<in>set (dropWhile ?P xs). key < da_key s b"
  proof (induction xs)
    case (Cons x xs)
    then show ?case by (cases "da_key s x < key") auto
  qed simp
  then show thesis by (intro that[of "takeWhile ?P xs" "dropWhile ?P xs"]) (auto dest: set_takeWhileD)
qed

lemma da_inv_cong:
  assumes "da_inv s xs fs" "\<And>a. a \<in> set xs \<Longrightarrow> da_heap t a = da_heap s a" "\<And>a. a \<in> set fs \<Longrightarrow> da_next t a = da_next s a"
    and "da_head t = da_head s" "da_tail t = da_tail s" "da_free t = da_free s"
    and "da_list_nodes t = da_list_nodes s" "da_free_nodes t = da_free_nodes s"
  shows "da_inv t xs fs"
proof -
  have "dlinked (da_heap t) 0 xs 0 = dlinked (da_heap s) 0 xs 0" using assms(2) by (intro dlinked_cong) simp
  moreover have "dlinked_next (da_heap t) fs 0 = dlinked_next (da_heap s) fs 0" using assms(3) by (intro dlinked_next_cong) simp
  moreover have "sorted_wrt (<) (map (da_key t) xs) = sorted_wrt (<) (map (da_key s) xs)"
    using map_cong[OF refl, of xs "da_key t" "da_key s"] assms(2) by (simp del: map_eq_conv)
  ultimately show ?thesis using assms(1,4-) unfolding da_inv_def da_rep_def by simp
qed

lemma da_inv_pop:
  assumes "da_inv s xs (f # fs)"
  shows "da_inv (s\<lparr>da_free := first_of fs 0, da_free_nodes := da_free_nodes s - 1\<rparr>) xs fs" and "da_next s f = first_of fs 0"
  using assms unfolding da_inv_def da_rep_def by auto

lemma da_inv_push:
  assumes "da_inv s xs fs" "f \<notin> set xs" "f \<notin> set fs" "f \<noteq> 0"
  shows "da_inv (snd (dalist_deposit_free_node s f)) xs (f # fs)" "fst (dalist_deposit_free_node s f) = DALIST_OK"
proof -
  let ?s = "snd (dalist_deposit_free_node s f)"
  have "da_inv (?s\<lparr>da_free := da_free s, da_free_nodes := da_free_nodes s\<rparr>) xs fs"
    using assms by (intro da_inv_cong[OF assms(1)]) (auto simp: dalist_deposit_free_node_def Let_def set_next_def set_prev_def)
  moreover have "da_next ?s f = first_of fs 0" "da_free ?s = f" "da_free_nodes ?s = da_free_nodes s + 1"
    using assms by (auto simp: dalist_deposit_free_node_def Let_def set_next_def set_prev_def da_inv_def)
  ultimately show "da_inv ?s xs (f # fs)" using assms(2-4) unfolding da_inv_def da_rep_def by (auto simp: algebra_simps)
  show "fst (dalist_deposit_free_node s f) = DALIST_OK" using assms(4) by (simp add: dalist_deposit_free_node_def Let_def)
qed

lemma get_free_node_pop:
  assumes "da_inv s xs (f # fs)"
  obtains t where "dalist_get_free_node me s = Some (DALIST_OK, f, t)" "da_inv t xs fs" "\<And>a. da_key t a = da_key s a"
proof -
  let ?t = "snd (snd (the (dalist_get_free_node me s)))"
  have f: "f \<noteq> 0" "da_free s = f" "f \<notin> set xs" "f \<notin> set fs" "set xs \<inter> set fs = {}" using assms by (auto simp: da_inv_def)
  have n: "first_of fs 0 \<notin> set xs" using assms by (cases fs) (auto simp: da_inv_def da_rep_def)
  have "dalist_get_free_node me s = Some (DALIST_OK, f, ?t)" using f by (simp add: dalist_get_free_node_def Let_def)
  moreover have "da_inv ?t xs fs" using f n da_inv_pop(2)[OF assms]
    by (intro da_inv_cong[OF da_inv_pop(1)[OF assms]]) (auto simp: dalist_get_free_node_def Let_def set_next_def set_prev_def)
  moreover have "da_key ?t a = da_key s a" for a using f by (simp add: dalist_get_free_node_def Let_def set_next_def set_prev_def)
  ultimately show thesis by (rule that)
qed

lemma da_inv_put:
  assumes "da_inv s (as @ bs) fs" "n \<notin> set (as @ bs)" "n \<notin> set fs" "n \<noteq> 0"
    and "\<forall>a\<in>set as. da_key s a < da_key s n" "\<forall>b\<in>set bs. da_key s n < da_key s b"
  shows "da_inv ((put_between s as n bs)\<lparr>da_list_nodes := da_list_nodes s + 1\<rparr>) (as @ n # bs) fs"
proof -
  let ?t = "(put_between s as n bs)\<lparr>da_list_nodes := da_list_nodes s + 1\<rparr>"
  have "da_rep ?t (as @ n # bs)" using put_between_rep[of s as bs n] assms by (simp add: da_inv_def da_rep_def)
  moreover have "dlinked_next (da_heap ?t) fs 0 = dlinked_next (da_heap s) fs 0" using assms(1,3)
    by (intro dlinked_next_cong) (subst put_between_def, simp, subst link_between_other, auto simp: da_inv_def)
  moreover have "da_key ?t = da_key s" by (simp add: put_between_def)
  ultimately show ?thesis using assms unfolding da_inv_def
    by (auto simp: sorted_wrt_append put_between_def algebra_simps)
qed

lemma da_inv_take:
  assumes "da_inv s (as @ n # bs) fs"
  shows "da_inv ((take_between s as bs)\<lparr>da_list_nodes := da_list_nodes s - 1\<rparr>) (as @ bs) fs"
proof -
  let ?t = "(take_between s as bs)\<lparr>da_list_nodes := da_list_nodes s - 1\<rparr>"
  have "da_rep ?t (as @ bs)" using take_between_rep[of s as n bs] assms by (simp add: da_inv_def da_rep_def)
  moreover have "dlinked_next (da_heap ?t) fs 0 = dlinked_next (da_heap s) fs 0" using assms(1)
    by (intro dlinked_next_cong) (subst take_between_def, simp, subst unlink_between_other, auto simp: da_inv_def)
  moreover have "da_key ?t = da_key s" by (simp add: take_between_def)
  ultimately show ?thesis using assms unfolding da_inv_def
    by (auto simp: sorted_wrt_append take_between_def algebra_simps)
qed


text \<open>Both functions that insert by key link the node at the place that the search found.\<close>

lemma insert_at_place:
  assumes "da_inv s (as @ bs) fs" "n \<notin> set (as @ bs)" "n \<noteq> 0" "dlist \<noteq> 0"
  shows "(if first_of bs 0 \<noteq> 0 then dalist_insert_before dlist s (first_of bs 0) n else dalist_insert_after dlist s (da_tail s) n)
    = (DALIST_OK, put_between s as n bs)"
proof (cases bs)
  case Nil
  then show ?thesis using insert_after_last[of s as n dlist] assms by (simp add: da_inv_def)
next
  case (Cons b cs)
  then show ?thesis using insert_before_between[of s as b cs n dlist] assms by (auto simp: da_inv_def da_rep_def)
qed

lemma find_place:
  assumes "da_inv s xs fs"
  shows "da_seek s key (da_head s) = Some (first_of (dropWhile (\<lambda>a. da_key s a < key) xs) 0)"
    and "da_map s xs key = Some a \<Longrightarrow> first_of (dropWhile (\<lambda>a. da_key s a < key) xs) 0 = a \<and> a \<noteq> 0 \<and> da_key s a = key"
    and "da_map s xs key = None \<Longrightarrow>
      \<not> (first_of (dropWhile (\<lambda>a. da_key s a < key) xs) 0 \<noteq> 0 \<and> da_key s (first_of (dropWhile (\<lambda>a. da_key s a < key) xs) 0) = key)"
proof -
  define bs where "bs = dropWhile (\<lambda>a. da_key s a < key) xs"
  have rep: "dlinked (da_heap s) 0 xs 0" "0 \<notin> set xs" "da_head s = first_of xs 0" and so: "sorted_wrt (<) (map (da_key s) xs)"
    using assms by (simp_all add: da_inv_def da_rep_def)
  have z: "0 \<notin> set bs" using rep(2) unfolding bs_def by (auto dest: set_dropWhileD)
  note m = sorted_keys_map[OF so bs_def]
  show "da_seek s key (da_head s) = Some (first_of (dropWhile (\<lambda>a. da_key s a < key) xs) 0)" using seek_ok[OF rep(1,2)] rep(3) by simp
  show "da_map s xs key = Some a \<Longrightarrow> first_of (dropWhile (\<lambda>a. da_key s a < key) xs) 0 = a \<and> a \<noteq> 0 \<and> da_key s a = key"
    unfolding bs_def[symmetric] using m z by (cases bs) (auto split: if_splits)
  show "da_map s xs key = None \<Longrightarrow>
      \<not> (first_of (dropWhile (\<lambda>a. da_key s a < key) xs) 0 \<noteq> 0 \<and> da_key s (first_of (dropWhile (\<lambda>a. da_key s a < key) xs) 0) = key)"
    unfolding bs_def[symmetric] using m z by (cases bs) (auto split: if_splits)
qed

lemma get_existing:
  assumes "da_inv s xs fs" "dlist \<noteq> 0" "da_map s xs key = Some a"
  shows "dalist_get_node_by_key me dlist s key nw = Some (DALIST_OK, a, DALIST_NODE_TYPE_EXISTING, s)"
  using find_place(1,2)[OF assms(1), of key] assms(2,3) by (simp add: dalist_get_node_by_key_def)

lemma get_missing:
  assumes "da_inv s xs fs" "dlist \<noteq> 0" "da_map s xs key = None"
  shows "dalist_get_node_by_key me dlist s key False = Some (DALIST_OK, 0, DALIST_NODE_TYPE_NONE, s)"
  using find_place(1,3)[OF assms(1), of key] assms(2,3) by (simp add: dalist_get_node_by_key_def)

lemma da_map_put_between:
  assumes "da_map s (as @ bs) (da_key s n) = None"
  shows "da_map ((put_between s as n bs)\<lparr>da_list_nodes := c\<rparr>) (as @ n # bs) = (da_map s (as @ bs))(da_key s n \<mapsto> n)"
proof -
  have "da_map ((put_between s as n bs)\<lparr>da_list_nodes := c\<rparr>) (as @ n # bs) = da_map s (as @ n # bs)"
    by (rule da_map_cong) (simp add: put_between_def)
  then show ?thesis using da_map_put[of s n as bs] assms unfolding da_map_None by simp
qed

lemma between_nodes [simp]: "da_list_nodes (put_between s as n bs) = da_list_nodes s" "da_list_nodes (take_between s as bs) = da_list_nodes s"
  by (simp_all add: put_between_def take_between_def)

lemma insert_by_key_ok:
  assumes i: "da_inv s xs fs" and d: "dlist \<noteq> 0" and n: "n \<notin> set xs" "n \<notin> set fs" "n \<noteq> 0" and m: "da_map s xs (da_key s n) = None"
  obtains t ys where "dalist_insert_node_by_key dlist s n = Some (DALIST_OK, t)" "da_inv t ys fs" "set ys = insert n (set xs)"
    "da_map t ys = (da_map s xs)(da_key s n \<mapsto> n)"
proof -
  obtain as bs where x: "xs = as @ bs" "bs = dropWhile (\<lambda>a. da_key s a < da_key s n) xs"
    and k: "\<forall>a\<in>set as. da_key s a < da_key s n" "\<forall>b\<in>set bs. da_key s n < da_key s b"
    using sorted_keys_parts[of s xs "da_key s n"] i m unfolding da_inv_def by blast
  let ?t = "(put_between s as n bs)\<lparr>da_list_nodes := da_list_nodes s + 1\<rparr>"
  have "dalist_insert_node_by_key dlist s n = Some (DALIST_OK, ?t)"
    unfolding dalist_insert_node_by_key_def using d find_place(3)[OF i m, folded x(2)] insert_at_place[of s as bs fs n dlist] i n x(1)
    by (simp add: find_place(1)[OF i, of "da_key s n", folded x(2)])
  moreover have "da_inv ?t (as @ n # bs) fs" using da_inv_put[of s as bs fs n] i n k x(1) by simp
  moreover have "da_map ?t (as @ n # bs) = (da_map s xs)(da_key s n \<mapsto> n)" using da_map_put_between m x(1) by simp
  ultimately show thesis using x(1) by (intro that[of ?t "as @ n # bs"]) auto
qed


lemma insert_by_key_taken:
  assumes "da_inv s xs fs" "dlist \<noteq> 0" "da_map s xs (da_key s n) = Some a"
  shows "dalist_insert_node_by_key dlist s n = Some (DALIST_EKEYEXISTS, s)"
  using find_place(1,2)[OF assms(1), of "da_key s n"] assms(2,3) by (simp add: dalist_insert_node_by_key_def)

lemma get_new_from:
  assumes i: "da_inv s xs es" and d: "dlist \<noteq> 0" and m: "da_map s xs key = None"
    and g: "dalist_get_free_node me s = Some (DALIST_OK, f, t)" and ti: "da_inv t xs fs" and tk: "\<And>a. a \<in> set xs \<Longrightarrow> da_key t a = da_key s a"
    and f: "f \<noteq> 0" "f \<notin> set xs" "f \<notin> set fs"
  obtains t ys where "dalist_get_node_by_key me dlist s key True = Some (DALIST_OK, f, DALIST_NODE_TYPE_NEW, t)" "da_inv t ys fs"
    "set ys = insert f (set xs)" "da_map t ys = (da_map s xs)(key \<mapsto> f)"
proof -
  obtain as bs where x: "xs = as @ bs" "bs = dropWhile (\<lambda>a. da_key s a < key) xs"
    and k: "\<forall>a\<in>set as. da_key s a < key" "\<forall>b\<in>set bs. key < da_key s b"
    using sorted_keys_parts[of s xs key] i m unfolding da_inv_def by blast
  let ?u = "set_key f key t"
  let ?t = "(put_between ?u as f bs)\<lparr>da_list_nodes := da_list_nodes ?u + 1\<rparr>"
  have ui: "da_inv ?u xs fs" using f by (intro da_inv_cong[OF ti]) (auto simp: set_key_def)
  have uk: "da_key ?u f = key" "\<And>a. a \<in> set xs \<Longrightarrow> da_key ?u a = da_key s a" using f tk by (auto simp: set_key_def)
  have um: "da_map ?u xs = da_map s xs" using uk(2) by (rule da_map_cong)
  have "dalist_get_node_by_key me dlist s key True = Some (DALIST_OK, f, DALIST_NODE_TYPE_NEW, ?t)"
    unfolding dalist_get_node_by_key_def using d find_place(3)[OF i m, folded x(2)] insert_at_place[of ?u as bs fs f dlist] ui f x(1)
    by (simp add: find_place(1)[OF i, of key, folded x(2)] g Let_def)
  moreover have "da_inv ?t (as @ f # bs) fs" using da_inv_put[of ?u as bs fs f] ui uk f k x(1) by simp
  moreover have "da_map ?t (as @ f # bs) = (da_map s xs)(key \<mapsto> f)"
  proof -
    have "da_map ?u (as @ bs) (da_key ?u f) = None" by (simp only: uk(1) um[unfolded x(1)] m[unfolded x(1)])
    then show ?thesis by (simp only: da_map_put_between uk(1) um[unfolded x(1)] x(1))
  qed
  ultimately show thesis using x(1) by (intro that[of ?t "as @ f # bs"]) auto
qed

lemma get_new_ok:
  assumes i: "da_inv s xs (f # fs)" and d: "dlist \<noteq> 0" and m: "da_map s xs key = None"
  obtains t ys where "dalist_get_node_by_key me dlist s key True = Some (DALIST_OK, f, DALIST_NODE_TYPE_NEW, t)" "da_inv t ys fs"
    "set ys = insert f (set xs)" "da_map t ys = (da_map s xs)(key \<mapsto> f)"
proof -
  obtain t where t: "dalist_get_free_node me s = Some (DALIST_OK, f, t)" "da_inv t xs fs" "\<And>a. da_key t a = da_key s a"
    using get_free_node_pop[OF i] by blast
  have f: "f \<noteq> 0" "f \<notin> set xs" "f \<notin> set fs" using i by (auto simp: da_inv_def)
  show thesis by (rule get_new_from[OF i d m t(1,2) t(3) f]) (rule that)
qed

lemma discard_ok:
  assumes i: "da_inv s xs fs" and d: "dlist \<noteq> 0" and n: "n \<in> set xs"
  obtains t ys where "dalist_discard_node dlist s n = (DALIST_OK, t)" "da_inv t ys (n # fs)" "set ys = set xs - {n}"
    "da_map t ys = (da_map s xs)(da_key s n := None)"
proof -
  obtain as bs where x: "xs = as @ n # bs" using n by (metis split_list)
  let ?u = "(take_between s as bs)\<lparr>da_list_nodes := da_list_nodes s - 1\<rparr>"
  let ?t = "snd (dalist_deposit_free_node ?u n)"
  have rep: "da_rep s (as @ n # bs)" and dis: "distinct (as @ n # bs)" "n \<noteq> 0" "n \<notin> set fs" and so: "sorted_wrt (<) (map (da_key s) (as @ n # bs))"
    using i x by (auto simp: da_inv_def da_rep_def)
  have ui: "da_inv ?u (as @ bs) fs" using da_inv_take i x by simp
  have push: "da_inv ?t (as @ bs) (n # fs)" "fst (dalist_deposit_free_node ?u n) = DALIST_OK" using da_inv_push[OF ui] dis by auto
  have "dalist_deposit_free_node ?u n = (DALIST_OK, ?t)" using push(2) by (metis prod.collapse)
  then have "dalist_discard_node dlist s n = (DALIST_OK, ?t)"
    by (simp add: dalist_discard_node_def dalist_unlink_node_ex_def unlink_between_ok[OF rep d])
  moreover have "da_map ?t (as @ bs) = da_map s (as @ bs)"
    by (rule da_map_cong) (simp add: dalist_deposit_free_node_def take_between_def Let_def set_next_def set_prev_def)
  moreover have "da_key s n \<notin> da_key s ` set (as @ bs)" using so by (force simp: sorted_wrt_append)
  ultimately show thesis using push(1) da_map_take[of s n as bs] x dis(1) by (intro that[of ?t "as @ bs"]) auto
qed


section \<open>New blocks of free nodes\<close>

fun node_block :: "u64 \<Rightarrow> u64 \<Rightarrow> nat \<Rightarrow> u64 list" where
  "node_block ns a 0 = []"
| "node_block ns a (Suc k) = a # node_block ns (a + ns) k"

lemma node_block_length [simp]: "length (node_block ns a k) = k"
  by (induction k arbitrary: a) auto

lemma node_block_above:
  "unat a + k * unat ns < 2 ^ 64 \<Longrightarrow> x \<in> set (node_block ns a k) \<Longrightarrow> unat a \<le> unat x"
proof (induction k arbitrary: a)
  case (Suc k)
  have "k * unat ns \<ge> 0" by simp
  then have e: "unat (a + ns) = unat a + unat ns" using Suc.prems(1) by (intro unat_add_64) (simp add: algebra_simps)
  show ?case using Suc.IH[of "a + ns"] Suc.prems e by (auto simp: algebra_simps)
qed simp

lemma node_block_distinct: "unat a + k * unat ns < 2 ^ 64 \<Longrightarrow> 0 < ns \<Longrightarrow> distinct (node_block ns a k)"
proof (induction k arbitrary: a)
  case (Suc k)
  have e: "unat (a + ns) = unat a + unat ns" using Suc.prems(1) by (intro unat_add_64) (simp add: algebra_simps)
  then have b: "unat (a + ns) + k * unat ns < 2 ^ 64" using Suc.prems(1) by (simp add: algebra_simps)
  have "0 < unat ns" using Suc.prems(2) by (simp add: word_less_nat_alt)
  then have "a \<notin> set (node_block ns (a + ns) k)" using node_block_above[OF b, of a] e by auto
  then show ?case using Suc.IH[OF b Suc.prems(2)] by simp
qed simp


lemma chain_ok:
  assumes "0 < ns" "unat upper + unat ns < 2 ^ 64" "unat upper = unat a + r" "r div unat ns = Suc k"
  shows "\<exists>h. da_chain ns upper a (a + ns) s = Some (last (node_block ns a (Suc k)), s\<lparr>da_heap := h\<rparr>) \<and>
     (\<forall>q. dlinked_next (h(last (node_block ns a (Suc k)) := (h (last (node_block ns a (Suc k))))\<lparr>dn_next := q\<rparr>)) (node_block ns a (Suc k)) q) \<and>
     (\<forall>x. x \<notin> set (node_block ns a (Suc k)) \<longrightarrow> h x = da_heap s x)"
  using assms(3,4)
proof (induction k arbitrary: a r s)
  have n: "0 < unat ns" using assms(1) by (simp add: word_less_nat_alt)
  case 0
  then have r: "unat ns \<le> r" "r < 2 * unat ns" using div_mult_mod_eq[of r "unat ns"] mod_less_divisor[OF n, of r] by simp_all
  then have "\<not> a + ns + ns \<le> upper"
    using 0 assms(2) unat_add_64[of a ns] unat_add_64[of "a + ns" ns] unfolding word_le_nat_alt by simp
  then show ?case by (intro exI[of _ "da_heap s"]) (simp add: da_chain.simps)
next
  have n: "0 < unat ns" using assms(1) by (simp add: word_less_nat_alt)
  case (Suc k)
  have r: "2 * unat ns \<le> r" using div_mult_mod_eq[of r "unat ns"] Suc.prems(2) by (simp add: algebra_simps)
  have e: "unat (a + ns) = unat a + unat ns" "unat (a + ns + ns) = unat a + 2 * unat ns"
    using Suc.prems(1) assms(2) r unat_add_64[of a ns] unat_add_64[of "a + ns" ns] by simp_all
  let ?s = "set_prev (a + ns) a (set_next a (a + ns) s)"
  let ?B = "node_block ns (a + ns) (Suc k)"
  have d: "(r - unat ns) div unat ns = Suc k" using Suc.prems(2) r n by (simp add: le_div_geq)
  have u: "unat upper = unat (a + ns) + (r - unat ns)" using Suc.prems(1) e r by simp
  from Suc.IH[OF u d, of ?s] obtain h where h: "da_chain ns upper (a + ns) (a + ns + ns) ?s = Some (last ?B, ?s\<lparr>da_heap := h\<rparr>)"
    "\<forall>q. dlinked_next (h(last ?B := (h (last ?B))\<lparr>dn_next := q\<rparr>)) ?B q" "\<forall>x. x \<notin> set ?B \<longrightarrow> h x = da_heap ?s x"
    by (elim exE conjE)
  have "Suc k * unat ns \<le> r - unat ns" using div_times_less_eq_dividend[of "r - unat ns" "unat ns"] unfolding d .
  then have "unat (a + ns) + Suc k * unat ns < 2 ^ 64" using e Suc.prems(1) assms(2) r by simp
  from node_block_above[OF this] have a: "a \<notin> set ?B" "a \<noteq> a + ns" using e n by fastforce+
  have "a + ns + ns \<le> upper" using e Suc.prems(1) r by (simp add: word_le_nat_alt)
  then have c: "da_chain ns upper a (a + ns) s = da_chain ns upper (a + ns) (a + ns + ns) ?s" by (subst da_chain.simps) simp
  define B where "B = ?B"
  have B: "node_block ns a (Suc (Suc k)) = a # B" "B \<noteq> []" "\<And>q. first_of B q = a + ns" "last B \<noteq> a" "a \<notin> set B" "a + ns \<in> set B"
    using a(1) last_in_set[of ?B] unfolding B_def by auto
  note hB = h[folded B_def]
  have "dn_next (h a) = a + ns" using hB(3) B(5) a(2) by (simp add: set_next_def set_prev_def)
  moreover have "h x = da_heap s x" if "x \<notin> set (a # B)" for x
    using hB(3) that B(6) by (auto simp: set_next_def set_prev_def)
  moreover have "?s\<lparr>da_heap := h\<rparr> = s\<lparr>da_heap := h\<rparr>" by (simp add: set_next_def set_prev_def)
  ultimately show ?case using hB(1,2) B(2-4) unfolding c B(1) by (intro exI[of _ h]) (simp del: fun_upd_apply add: fun_upd_other)
qed


lemma dlinked_next_prev [simp]: "dlinked_next (h(a := (h a)\<lparr>dn_prev := v\<rparr>)) xs q = dlinked_next h xs q"
  by (rule dlinked_next_cong) simp

lemma dlinked_next_prev2: "dlinked_next (da_heap (set_prev a v s)) xs q = dlinked_next (da_heap s) xs q"
  by (simp add: set_prev_def)

lemma node_block_nonzero: "unat a + k * unat ns < 2 ^ 64 \<Longrightarrow> a \<noteq> 0 \<Longrightarrow> 0 \<notin> set (node_block ns a k)"
  using node_block_above[of a k ns 0] by (auto simp: unat_eq_0)

lemma set_links_fields [simp]:
  "da_head (set_next a v s) = da_head s" "da_tail (set_next a v s) = da_tail s" "da_free (set_next a v s) = da_free s"
  "da_list_nodes (set_next a v s) = da_list_nodes s" "da_free_nodes (set_next a v s) = da_free_nodes s"
  "da_head (set_prev a v s) = da_head s" "da_tail (set_prev a v s) = da_tail s" "da_free (set_prev a v s) = da_free s"
  "da_list_nodes (set_prev a v s) = da_list_nodes s" "da_free_nodes (set_prev a v s) = da_free_nodes s"
  by (simp_all add: set_next_def set_prev_def)

text \<open>The nodes of a block become free nodes before the ones that there were.\<close>

lemma deposit_block_ok:
  assumes i: "da_inv s xs fs" and ns: "ns = da_node_size (da_dblock_size s)" "0 < ns" "ns \<le> sz"
    and fit: "unat addr + unat sz + unat ns < 2 ^ 64" and z: "addr \<noteq> 0"
    and B: "B = node_block ns addr (unat (sz div ns))" "set B \<inter> (set xs \<union> set fs) = {}"
  obtains t where "dalist_deposit_memory_block s addr sz = Some (DALIST_OK, t)" "da_inv t xs (B @ fs)"
    "\<And>a. a \<in> set xs \<Longrightarrow> da_heap t a = da_heap s a" "da_free t = addr"
proof -
  have n: "0 < unat ns" "unat ns \<le> unat sz" using ns(2,3) by (simp_all add: word_less_nat_alt word_le_nat_alt)
  then obtain k where k: "unat sz div unat ns = Suc k" by (metis div_greater_zero_iff gr0_implies_Suc)
  have Bk: "B = node_block ns addr (Suc k)" "B \<noteq> []" "hd B = addr" using B(1) k by (simp_all add: unat_div)
  have kn: "Suc k * unat ns \<le> unat sz" using div_times_less_eq_dividend[of "unat sz" "unat ns"] unfolding k .
  have up: "unat (addr + sz) = unat addr + unat sz" using fit by (intro unat_add_64) simp
  obtain h where h: "da_chain ns (addr + sz) addr (addr + ns) s = Some (last B, s\<lparr>da_heap := h\<rparr>)"
    "\<And>q. dlinked_next (h(last B := (h (last B))\<lparr>dn_next := q\<rparr>)) B q" "\<And>x. x \<notin> set B \<Longrightarrow> h x = da_heap s x"
    using chain_ok[OF ns(2) _ up k, of s] fit unfolding up Bk(1) by auto
  let ?s = "s\<lparr>da_heap := h\<rparr>"
  let ?u = "if da_free s \<noteq> 0 then set_prev (da_free s) (last B) (set_next (last B) (da_free s) ?s) else set_next (last B) 0 ?s"
  let ?t = "(set_prev addr 0 ?u)\<lparr>da_free := addr, da_free_nodes := da_free_nodes s + sz div ns\<rparr>"
  have q: "da_free s = first_of fs 0" and ff: "da_free s \<notin> set xs" "dlinked_next (da_heap s) fs 0"
    using i by (cases fs; auto simp: da_inv_def da_rep_def)+
  have last: "last B \<in> set B" "addr \<in> set B" using Bk(2,3) by auto
  have out: "h a = da_heap s a \<and> a \<noteq> last B \<and> a \<noteq> addr" if "a \<in> set xs \<or> a \<in> set fs" for a
    using that B(2) h(3) last by blast
  define t where "t = ?t"
  have r: "dalist_deposit_memory_block s addr sz = Some (DALIST_OK, t)"
    using ns(3) h(1) unfolding t_def dalist_deposit_memory_block_def ns(1)[symmetric] by (simp add: Let_def)
  have tf: "da_next t a = da_next s a" if "a \<in> set fs" for a
    using that out[of a] unfolding t_def by (auto simp: set_next_def set_prev_def)
  have tx: "da_heap t a = da_heap s a" if "a \<in> set xs" for a
    using that out[of a] ff(1) unfolding t_def by (auto simp: set_next_def set_prev_def)
  have tb: "dlinked_next (da_heap t) B (first_of fs 0)"
    using h(2)[of "first_of fs 0"] unfolding t_def q[symmetric] by (auto simp: set_next_def dlinked_next_prev2)
  have tc: "da_free t = addr" "da_free_nodes t = da_free_nodes s + sz div ns" "da_head t = da_head s" "da_tail t = da_tail s"
    "da_list_nodes t = da_list_nodes s" unfolding t_def by simp_all
  have ti: "da_inv (t\<lparr>da_free := da_free s, da_free_nodes := da_free_nodes s\<rparr>) xs fs"
    by (rule da_inv_cong[OF i]) (simp_all add: tf tx tc)
  have bl: "sz div ns = of_nat (length B)" unfolding B(1) by simp
  have b: "distinct B" "0 \<notin> set B"
    using node_block_distinct[of addr "Suc k" ns] node_block_nonzero[of addr "Suc k" ns] kn fit ns(2) z Bk(1) by auto
  have "addr = first_of (B @ fs) 0" using Bk(2,3) by (simp add: first_of_def)
  then have "da_inv t xs (B @ fs)" using ti tb tc b bl B(2) i by (auto simp: da_inv_def da_rep_def algebra_simps)
  then show thesis using that r tx tc(1) by blast
qed


text \<open>Without free nodes a block comes from the memory functions, and its first node is the new one.\<close>

definition fresh_block :: "memfn_env \<Rightarrow> dalist_ex \<Rightarrow> (da_ret \<times> u64 \<times> u64) \<Rightarrow> bool" where
  "fresh_block me s r \<longleftrightarrow>
     (case da_memfn_method s of
        DALIST_MEMFN_CUSTOM \<Rightarrow> r = me_custom me
      | DALIST_MEMFN_MMAP \<Rightarrow> r = (DALIST_OK, me_addr me, da_lblock_size s)
      | DALIST_MEMFN_NT_ALLOCATE_VIRTUAL_MEMORY \<Rightarrow> me_status me = 0 \<and> r = (DALIST_OK, me_addr me, me_size me)
      | DALIST_MEMFN_MALLOC \<Rightarrow> False)"

lemma alloc_ok:
  assumes i: "da_inv s xs []" and m: "fresh_block me s (DALIST_OK, addr, sz)" and z: "addr \<noteq> 0"
    and ns: "ns = da_node_size (da_dblock_size s)" "0 < ns" "ns \<le> sz" and fit: "unat addr + unat sz + unat ns < 2 ^ 64"
    and B: "B = node_block ns addr (unat (sz div ns))" "set B \<inter> set xs = {}"
  obtains t where "dalist_alloc me s = Some (addr, t)" "da_inv t xs B" "\<And>a. a \<in> set xs \<Longrightarrow> da_heap t a = da_heap s a" "da_free t = addr"
proof -
  define u where "u = (if da_memfn_method s = DALIST_MEMFN_CUSTOM then s else s\<lparr>da_memfn_status := 0\<rparr>)"
  have u: "da_inv u xs []" "da_dblock_size u = da_dblock_size s" "da_heap u = da_heap s" "da_memfn_method u = da_memfn_method s"
    using da_inv_cong[OF i, of u] unfolding u_def by auto
  obtain t where t: "dalist_deposit_memory_block u addr sz = Some (DALIST_OK, t)" "da_inv t xs B" "\<And>a. a \<in> set xs \<Longrightarrow> da_heap t a = da_heap u a"
    "da_free t = addr"
    using deposit_block_ok[OF u(1), of ns sz addr B] ns fit z B unfolding u(2) by auto
  have "(if da_memfn_method s = DALIST_MEMFN_CUSTOM then
          case me_custom me of (ret, addr, alloc_size) \<Rightarrow> Some (ret, addr, alloc_size, s)
        else dalist_memfn_internal me s) = Some (DALIST_OK, addr, sz, u)" and "da_memfn_method s \<noteq> DALIST_MEMFN_MALLOC"
    using m z unfolding fresh_block_def dalist_memfn_internal_def u_def
    by (cases "da_memfn_method s"; auto simp: Let_def split: prod.splits)+
  then have "dalist_alloc me s = Some (addr, t)" unfolding dalist_alloc_def using t(1,4) u(4) by simp
  then show thesis using that t u(3) by simp
qed

lemma get_new_grows:
  assumes i: "da_inv s xs []" and d: "dlist \<noteq> 0" and m: "da_map s xs key = None"
    and b: "fresh_block me s (DALIST_OK, addr, sz)" and z: "addr \<noteq> 0"
    and ns: "ns = da_node_size (da_dblock_size s)" "0 < ns" "ns \<le> sz" and fit: "unat addr + unat sz + unat ns < 2 ^ 64"
    and B: "B = node_block ns addr (unat (sz div ns))" "set B \<inter> set xs = {}"
  obtains t ys where "dalist_get_node_by_key me dlist s key True = Some (DALIST_OK, addr, DALIST_NODE_TYPE_NEW, t)" "da_inv t ys (tl B)"
    "set ys = insert addr (set xs)" "da_map t ys = (da_map s xs)(key \<mapsto> addr)"
proof -
  obtain u where u: "dalist_alloc me s = Some (addr, u)" "da_inv u xs B" "\<And>a. a \<in> set xs \<Longrightarrow> da_heap u a = da_heap s a" "da_free u = addr"
    using alloc_ok[OF i b z ns fit B] by blast
  have Bc: "B = addr # tl B" using u(2,4) z by (cases B) (auto simp: da_inv_def)
  then have ui: "da_inv u xs (addr # tl B)" using u(2) by simp
  obtain t where t: "dalist_get_free_node me u = Some (DALIST_OK, addr, t)" "da_inv t xs (tl B)" "\<And>a. da_key t a = da_key u a"
    using get_free_node_pop[OF ui] by blast
  have "da_free s = 0" using i by (simp add: da_inv_def)
  then have "dalist_get_free_node me s = Some (DALIST_OK, addr, t)"
    using t(1) u(1,4) z unfolding dalist_get_free_node_def by simp
  moreover have "da_key t a = da_key s a" if "a \<in> set xs" for a using that t(3) u(3) by simp
  moreover have "addr \<notin> set xs" "addr \<notin> set (tl B)" using ui by (auto simp: da_inv_def)
  ultimately show thesis using get_new_from[OF i d m _ t(2) _ z] that by blast
qed

definition block_nodes :: "dalist_ex \<Rightarrow> u64 \<Rightarrow> u64 \<Rightarrow> u64 list" where
  "block_nodes s addr sz = (let ns = da_node_size (da_dblock_size s) in node_block ns addr (unat (sz div ns)))"

definition block_ok :: "dalist_ex \<Rightarrow> u64 list \<Rightarrow> u64 \<Rightarrow> u64 \<Rightarrow> bool" where
  "block_ok s xs addr sz =
     (let ns = da_node_size (da_dblock_size s) in
      addr \<noteq> 0 \<and> 0 < ns \<and> ns \<le> sz \<and> unat addr + unat sz + unat ns < 2 ^ 64 \<and> set (block_nodes s addr sz) \<inter> set xs = {})"

lemma get_new_block:
  assumes "da_inv s xs []" "dlist \<noteq> 0" "da_map s xs key = None" "fresh_block me s (DALIST_OK, addr, sz)" "block_ok s xs addr sz"
  shows "\<exists>t ys. dalist_get_node_by_key me dlist s key True = Some (DALIST_OK, addr, DALIST_NODE_TYPE_NEW, t) \<and>
     da_inv t ys (tl (block_nodes s addr sz)) \<and> set ys = insert addr (set xs) \<and> da_map t ys = (da_map s xs)(key \<mapsto> addr)"
  using get_new_grows[OF assms(1-4) _ refl _ _ _ refl] assms(5) unfolding block_ok_def block_nodes_def Let_def by metis

text \<open>C30: A list with sorted keys implements a map from keys to nodes. Looking up a key gives its node or none; asking for
  a new node takes the first free one and adds it under the key, and where the key is there already gives its node; without
  free nodes the new node is the first of a block that the memory functions give, and the others become free;
  inserting a node adds it under its key unless the key is taken; discarding a node removes its key and puts the node on the
  list of free nodes. All of them keep the invariant: the links agree in both directions, the keys increase,
  no node is in both lists, and the counts are the lengths.\<close>

theorem dalist_refines_map:
  assumes "da_inv s xs fs" "dlist \<noteq> 0"
  shows "dalist_get_node_by_key me dlist s key False =
      Some (case da_map s xs key of None \<Rightarrow> (DALIST_OK, 0, DALIST_NODE_TYPE_NONE, s) | Some a \<Rightarrow> (DALIST_OK, a, DALIST_NODE_TYPE_EXISTING, s)) \<and>
    (\<forall>a. da_map s xs key = Some a \<longrightarrow> dalist_get_node_by_key me dlist s key True = Some (DALIST_OK, a, DALIST_NODE_TYPE_EXISTING, s)) \<and>
    (\<forall>f gs. da_map s xs key = None \<and> fs = f # gs \<longrightarrow>
      (\<exists>t ys. dalist_get_node_by_key me dlist s key True = Some (DALIST_OK, f, DALIST_NODE_TYPE_NEW, t) \<and> da_inv t ys gs \<and>
         set ys = insert f (set xs) \<and> da_map t ys = (da_map s xs)(key \<mapsto> f))) \<and>
    (\<forall>addr sz. da_map s xs key = None \<and> fs = [] \<and> fresh_block me s (DALIST_OK, addr, sz) \<and> block_ok s xs addr sz \<longrightarrow>
      (\<exists>t ys. dalist_get_node_by_key me dlist s key True = Some (DALIST_OK, addr, DALIST_NODE_TYPE_NEW, t) \<and>
         da_inv t ys (tl (block_nodes s addr sz)) \<and> set ys = insert addr (set xs) \<and> da_map t ys = (da_map s xs)(key \<mapsto> addr))) \<and>
    (\<forall>n. n \<notin> set xs \<and> n \<notin> set fs \<and> n \<noteq> 0 \<longrightarrow>
      (if da_map s xs (da_key s n) \<noteq> None then dalist_insert_node_by_key dlist s n = Some (DALIST_EKEYEXISTS, s)
       else \<exists>t ys. dalist_insert_node_by_key dlist s n = Some (DALIST_OK, t) \<and> da_inv t ys fs \<and> set ys = insert n (set xs) \<and>
         da_map t ys = (da_map s xs)(da_key s n \<mapsto> n))) \<and>
    (\<forall>n\<in>set xs. \<exists>t ys. dalist_discard_node dlist s n = (DALIST_OK, t) \<and> da_inv t ys (n # fs) \<and> set ys = set xs - {n} \<and>
      da_map t ys = (da_map s xs)(da_key s n := None))"
    (is "?look \<and> ?existing \<and> ?fresh \<and> ?grow \<and> ?insert \<and> ?discard")
proof (intro conjI)
  show ?look using get_existing[OF assms] get_missing[OF assms] by (auto split: option.split)
  show ?existing using get_existing[OF assms] by blast
  show ?fresh using get_new_ok[of s xs _ _ dlist key me] assms by metis
  show ?grow using get_new_block[of s xs dlist key me] assms by metis
  show ?insert
  proof (intro allI impI)
    fix n assume n: "n \<notin> set xs \<and> n \<notin> set fs \<and> n \<noteq> 0"
    show "if da_map s xs (da_key s n) \<noteq> None then dalist_insert_node_by_key dlist s n = Some (DALIST_EKEYEXISTS, s)
       else \<exists>t ys. dalist_insert_node_by_key dlist s n = Some (DALIST_OK, t) \<and> da_inv t ys fs \<and> set ys = insert n (set xs) \<and>
         da_map t ys = (da_map s xs)(da_key s n \<mapsto> n)"
      using insert_by_key_ok[OF assms, of n] insert_by_key_taken[OF assms, of n] n by (metis option.exhaust)
  qed
  show ?discard using discard_ok[OF assms] by metis
qed

definition ex_heap :: "u64 \<Rightarrow> da_node" where
  "ex_heap a = (if a = 16 then \<lparr>dn_prev = 0, dn_next = 32, dn_key = 5\<rparr>
     else if a = 32 then \<lparr>dn_prev = 16, dn_next = 0, dn_key = 9\<rparr> else \<lparr>dn_prev = 0, dn_next = 0, dn_key = 0\<rparr>)"

definition ex_list :: dalist_ex where
  "ex_list = \<lparr>da_heap = ex_heap, da_head = 16, da_tail = 32, da_free = 48, da_dblock_size = 0, da_lblock_size = 4096,
     da_memfn_method = DALIST_MEMFN_MMAP, da_memfn_status = 0, da_list_nodes = 2, da_free_nodes = 1\<rparr>"

definition ex_memfn :: memfn_env where
  "ex_memfn = \<lparr>me_addr = 0x10000, me_status = 0, me_size = 0, me_errno = 0, me_custom = (DALIST_EMEMFN, 0, 0)\<rparr>"

lemma ex_list_inv: "da_inv ex_list [16, 32] [48]"
  by (simp add: da_inv_def da_rep_def ex_list_def ex_heap_def)

theorem dalist_refines_map_witness:
  "\<exists>t ys. dalist_get_node_by_key ex_memfn 1 ex_list 7 True = Some (DALIST_OK, 48, DALIST_NODE_TYPE_NEW, t) \<and> da_inv t ys [] \<and>
     da_map t ys 7 = Some 48 \<and> da_map t ys 5 = Some 16"
proof -
  have m: "da_map ex_list [16, 32] = [9 \<mapsto> 32, 5 \<mapsto> 16]" by (simp add: ex_list_def ex_heap_def)
  obtain t ys where "dalist_get_node_by_key ex_memfn 1 ex_list 7 True = Some (DALIST_OK, 48, DALIST_NODE_TYPE_NEW, t)" "da_inv t ys []"
    "da_map t ys = [9 \<mapsto> 32, 5 \<mapsto> 16, 7 \<mapsto> 48]"
    using dalist_refines_map[OF ex_list_inv, of 1 ex_memfn 7] unfolding m by auto
  then show ?thesis by auto
qed

text \<open>With the third method the node comes straight from \<open>malloc\<close>: its \<open>next\<close>, which nothing has written, becomes
  the list of free nodes, and their count goes below zero.\<close>

lemma malloc_node_leaks_link:
  assumes "da_free s = 0" "da_memfn_method s = DALIST_MEMFN_MALLOC" "da_dblock_size s = 0" "me_addr me \<noteq> 0" "da_free_nodes s = 0"
  shows "\<exists>t. dalist_get_free_node me s = Some (DALIST_OK, me_addr me, t) \<and> da_free_nodes t = - 1 \<and> da_free t = da_next s (me_addr me)"
  using assms by (simp add: dalist_get_free_node_def dalist_alloc_def dalist_memfn_internal_def Let_def)

lemma malloc_data_block_crashes:
  "da_free s = 0 \<Longrightarrow> da_memfn_method s = DALIST_MEMFN_MALLOC \<Longrightarrow> da_dblock_size s \<noteq> 0 \<Longrightarrow> dalist_get_free_node me s = None"
  by (simp add: dalist_get_free_node_def dalist_alloc_def dalist_memfn_internal_def)

text \<open>\<open>mmap\<close> reports failure by an address of all ones, which the test for zero lets through.\<close>

lemma mmap_failure_accepted:
  "da_memfn_method s = DALIST_MEMFN_MMAP \<Longrightarrow> me_addr me = - 1 \<Longrightarrow>
   dalist_memfn_internal me s = Some (DALIST_OK, - 1, da_lblock_size s, s\<lparr>da_memfn_status := 0\<rparr>)"
  by (simp add: dalist_memfn_internal_def)

end
