(* ===== verification/Stl_Sort.thy ===== *)
theory Stl_Sort
  imports Tcc_Prelude "HOL-Library.Multiset" "HOL-Library.Monad_Syntax"
begin

text \<open>
  The algorithms on arrays of the container library (\<open>lib/stl/algorithm.h\<close>). An array is a list, indices are
  C integers of 32 bits, and \<open>None\<close> stands for an access outside of the array. Elements are compared
  by \<open>operator<\<close>, a linear order.
\<close>

section \<open>Arrays\<close>

definition aget :: "'a list \<Rightarrow> int \<Rightarrow> 'a option" where
  "aget a i = (if 0 \<le> i \<and> i < int (length a) then Some (a ! nat i) else None)"

definition aswap :: "'a list \<Rightarrow> int \<Rightarrow> int \<Rightarrow> 'a list" where
  "aswap a i j = a[nat i := a ! nat j, nat j := a ! nat i]"

text \<open>The sum wraps around at 32 bits, and division rounds toward 0.\<close>

definition half_sum :: "int \<Rightarrow> int \<Rightarrow> int" where
  "half_sum lo hi = (let s = sint (word_of_int (lo + hi) :: u32) in if s < 0 then - ((- s) div 2) else s div 2)"

section \<open>Quicksort\<close>

partial_function (option) scan_up :: "'a::linorder list \<Rightarrow> 'a \<Rightarrow> int \<Rightarrow> int option" where
  "scan_up a p i = do {
     x \<leftarrow> aget a i;
     if x < p then scan_up a p (i + 1) else Some i
   }"

partial_function (option) scan_down :: "'a::linorder list \<Rightarrow> 'a \<Rightarrow> int \<Rightarrow> int option" where
  "scan_down a p j = do {
     x \<leftarrow> aget a j;
     if p < x then scan_down a p (j - 1) else Some j
   }"

partial_function (option) qsort_split :: "'a::linorder list \<Rightarrow> 'a \<Rightarrow> int \<Rightarrow> int \<Rightarrow> ('a list \<times> int \<times> int) option" where
  "qsort_split a p i j =
     (if i \<le> j then do {
        i \<leftarrow> scan_up a p i;
        j \<leftarrow> scan_down a p j;
        if i \<le> j then qsort_split (aswap a i j) p (i + 1) (j - 1) else qsort_split a p i j
      } else Some (a, i, j))"

partial_function (option) stl_qsort :: "'a::linorder list \<Rightarrow> int \<Rightarrow> int \<Rightarrow> 'a list option" where
  "stl_qsort a lo hi =
     (if lo \<ge> hi then Some a
      else do {
        p \<leftarrow> aget a (half_sum lo hi);
        (a, i, j) \<leftarrow> qsort_split a p lo hi;
        a \<leftarrow> stl_qsort a lo j;
        stl_qsort a i hi
      })"

section \<open>Quicksort sorts\<close>

abbreviation at :: "'a list \<Rightarrow> int \<Rightarrow> 'a" where "at a k \<equiv> a ! nat k"

text \<open>Only the part from \<open>lo\<close> to \<open>hi\<close> changes, and it keeps its elements.\<close>

definition permuted :: "int \<Rightarrow> int \<Rightarrow> 'a list \<Rightarrow> 'a list \<Rightarrow> bool" where
  "permuted lo hi a b \<longleftrightarrow> mset b = mset a \<and> length b = length a \<and>
     (\<forall>k\<ge>0. (k < lo \<or> hi < k) \<longrightarrow> at b k = at a k) \<and>
     (\<forall>P. (\<forall>k. lo \<le> k \<and> k \<le> hi \<longrightarrow> P (at a k)) \<longrightarrow> (\<forall>k. lo \<le> k \<and> k \<le> hi \<longrightarrow> P (at b k)))"

lemma permuted_refl [simp]: "permuted lo hi a a"
  by (simp add: permuted_def)

lemma permutedD:
  assumes "permuted lo hi a b"
  shows "length b = length a" "0 \<le> k \<Longrightarrow> k < lo \<or> hi < k \<Longrightarrow> at b k = at a k" "mset b = mset a"
  using assms by (auto simp: permuted_def)

lemma permuted_all: "permuted lo hi a b \<Longrightarrow> \<forall>k. lo \<le> k \<and> k \<le> hi \<longrightarrow> P (at a k) \<Longrightarrow> \<forall>k. lo \<le> k \<and> k \<le> hi \<longrightarrow> P (at b k)"
  unfolding permuted_def by blast

lemma permuted_trans:
  assumes ab: "permuted lo hi a b" and bc: "permuted lo hi b c"
  shows "permuted lo hi a c"
proof -
  have "at c k = at a k" if "0 \<le> k" "k < lo \<or> hi < k" for k
    using permutedD(2) [OF ab that] permutedD(2) [OF bc that] by simp
  moreover have "\<forall>k. lo \<le> k \<and> k \<le> hi \<longrightarrow> P (at c k)" if "\<forall>k. lo \<le> k \<and> k \<le> hi \<longrightarrow> P (at a k)" for P
    by (rule permuted_all [OF bc permuted_all [OF ab that]])
  ultimately show ?thesis
    using permutedD(1,3) [OF ab] permutedD(1,3) [OF bc] unfolding permuted_def by (metis (no_types, lifting))
qed

text \<open>A permutation of a part is one of the whole.\<close>

lemma permuted_mono:
  assumes "permuted l h a b" "lo \<le> l" "h \<le> hi" "0 \<le> lo"
  shows "permuted lo hi a b"
  unfolding permuted_def
proof (intro conjI allI impI)
  fix P k assume P: "\<forall>k. lo \<le> k \<and> k \<le> hi \<longrightarrow> P (at a k)" and k: "lo \<le> k \<and> k \<le> hi"
  show "P (at b k)"
  proof (cases "l \<le> k \<and> k \<le> h")
    case True
    moreover have "\<forall>k. l \<le> k \<and> k \<le> h \<longrightarrow> P (at a k)" using P assms(2,3) by auto
    ultimately show ?thesis using permuted_all [OF assms(1)] by blast
  next
    case False
    then show ?thesis using permutedD(2) [OF assms(1), of k] P k assms(4) by auto
  qed
qed (use permutedD(1-3) [OF assms(1)] assms(2,3) in auto)

lemma nat_eq_iff2: "0 \<le> i \<Longrightarrow> 0 \<le> k \<Longrightarrow> (nat i = nat k) = (i = k)"
  by auto

lemma aswap_at:
  assumes "0 \<le> i" "i < int (length a)" "0 \<le> j" "j < int (length a)" "0 \<le> k"
  shows "at (aswap a i j) k = (if k = i then at a j else if k = j then at a i else at a k)"
  using assms by (auto simp: aswap_def nth_list_update nat_eq_iff2)

lemma aswap_permuted:
  assumes "0 \<le> lo" "hi < int (length a)" "lo \<le> i" "i \<le> j" "j \<le> hi"
  shows "permuted lo hi a (aswap a i j)"
proof -
  have "mset (aswap a i j) = mset a" using assms by (simp add: aswap_def mset_swap)
  moreover have "length (aswap a i j) = length a" by (simp add: aswap_def)
  moreover have "at (aswap a i j) k = at a k" if "0 \<le> k" "k < lo \<or> hi < k" for k
    using that assms aswap_at [of i a j k] by auto
  moreover have "P (at (aswap a i j) k)" if "\<forall>k. lo \<le> k \<and> k \<le> hi \<longrightarrow> P (at a k)" "lo \<le> k" "k \<le> hi" for P k
    using that assms aswap_at [of i a j k] by auto
  ultimately show ?thesis unfolding permuted_def by blast
qed

text \<open>A scan stops at the first element that is not on its side, if there is one.\<close>

lemma scan_up_ok:
  assumes "0 \<le> i" "i \<le> k" "k < int (length a)" "p \<le> at a k"
  shows "\<exists>i'. scan_up a p i = Some i' \<and> i \<le> i' \<and> i' \<le> k \<and> p \<le> at a i' \<and> (\<forall>l. i \<le> l \<and> l < i' \<longrightarrow> at a l < p)"
  using assms
proof (induction "nat (k - i)" arbitrary: i)
  case 0
  then show ?case by (subst scan_up.simps) (auto simp: aget_def)
next
  case (Suc n)
  show ?case
  proof (cases "at a i < p")
    case True
    then have "i \<noteq> k" "n = nat (k - (i + 1))" using Suc.prems(4) Suc.hyps(2) by auto
    then obtain i' where i': "scan_up a p (i + 1) = Some i'" "i + 1 \<le> i'" "i' \<le> k" "p \<le> at a i'" "\<forall>l. i + 1 \<le> l \<and> l < i' \<longrightarrow> at a l < p"
      using Suc.hyps(1) [of "i + 1"] Suc.hyps(2) Suc.prems by auto
    have "at a l < p" if "i \<le> l" "l < i'" for l using i'(5) True that by (cases "l = i") auto
    then show ?thesis using True i' Suc.prems by (subst scan_up.simps) (auto simp: aget_def)
  next
    case False
    then show ?thesis using Suc.prems by (subst scan_up.simps) (auto simp: aget_def)
  qed
qed

lemma scan_down_ok:
  assumes "0 \<le> k" "k \<le> j" "j < int (length a)" "at a k \<le> p"
  shows "\<exists>j'. scan_down a p j = Some j' \<and> k \<le> j' \<and> j' \<le> j \<and> at a j' \<le> p \<and> (\<forall>l. j' < l \<and> l \<le> j \<longrightarrow> p < at a l)"
  using assms
proof (induction "nat (j - k)" arbitrary: j)
  case 0
  then show ?case by (subst scan_down.simps) (auto simp: aget_def)
next
  case (Suc n)
  show ?case
  proof (cases "p < at a j")
    case True
    then have "j \<noteq> k" "n = nat (j - 1 - k)" using Suc.prems(4) Suc.hyps(2) by auto
    then obtain j' where j': "scan_down a p (j - 1) = Some j'" "k \<le> j'" "j' \<le> j - 1" "at a j' \<le> p" "\<forall>l. j' < l \<and> l \<le> j - 1 \<longrightarrow> p < at a l"
      using Suc.hyps(1) [of "j - 1"] Suc.hyps(2) Suc.prems by auto
    have "p < at a l" if "j' < l" "l \<le> j" for l using j'(5) True that by (cases "l = j") auto
    then show ?thesis using True j' Suc.prems by (subst scan_down.simps) (auto simp: aget_def)
  next
    case False
    then show ?thesis using Suc.prems by (subst scan_down.simps) (auto simp: aget_def)
  qed
qed


text \<open>The elements before \<open>i\<close> and behind \<open>j\<close> are on the right side, and while the loop runs there is one for
  each scan to stop at.\<close>

definition split_inv :: "'a::linorder list \<Rightarrow> 'a \<Rightarrow> int \<Rightarrow> int \<Rightarrow> int \<Rightarrow> int \<Rightarrow> bool" where
  "split_inv a p lo hi i j \<longleftrightarrow> 0 \<le> lo \<and> lo \<le> i \<and> j \<le> hi \<and> hi < int (length a) \<and>
     (\<forall>k. lo \<le> k \<and> k < i \<longrightarrow> at a k \<le> p) \<and> (\<forall>k. j < k \<and> k \<le> hi \<longrightarrow> p \<le> at a k) \<and>
     (i \<le> j \<longrightarrow> (\<exists>k. i \<le> k \<and> k \<le> hi \<and> p \<le> at a k) \<and> (\<exists>k. lo \<le> k \<and> k \<le> j \<and> at a k \<le> p))"

lemma split_inv_swap:
  assumes inv: "split_inv a p lo hi i j" and i': "i \<le> i'" "p \<le> at a i'" "\<forall>l. i \<le> l \<and> l < i' \<longrightarrow> at a l < p"
    and j': "j' \<le> j" "at a j' \<le> p" "\<forall>l. j' < l \<and> l \<le> j \<longrightarrow> p < at a l" and le: "i' \<le> j'"
  shows "split_inv (aswap a i' j') p lo hi (i' + 1) (j' - 1)" "permuted lo hi a (aswap a i' j')"
proof -
  have b: "0 \<le> lo" "lo \<le> i'" "i' \<le> j'" "j' \<le> hi" "hi < int (length a)" using inv i' j' le by (auto simp: split_inv_def)
  show p: "permuted lo hi a (aswap a i' j')" using aswap_permuted b by blast
  have s: "at (aswap a i' j') k = (if k = i' then at a j' else if k = j' then at a i' else at a k)" if "lo \<le> k" for k
    using aswap_at [of i' a j' k] b that by simp
  have L: "at (aswap a i' j') k \<le> p" if "lo \<le> k" "k < i' + 1" for k
  proof (cases "k = i'")
    case False
    then have "at a k \<le> p" using inv i'(3) that by (cases "k < i") (auto simp: split_inv_def intro: less_imp_le)
    then show ?thesis using s [OF that(1)] False that(2) le by auto
  qed (use s that j'(2) in simp)
  have R: "p \<le> at (aswap a i' j') k" if "j' - 1 < k" "k \<le> hi" for k
  proof (cases "k = j'")
    case False
    then have "p \<le> at a k" using inv j'(3) that by (cases "k \<le> j") (auto simp: split_inv_def intro: less_imp_le)
    then show ?thesis using s [of k] False that(1) le b(2) by auto
  qed (use s [of j'] that i'(2) j'(2) le b(2) in \<open>auto split: if_splits\<close>)
  have "\<exists>k. i' + 1 \<le> k \<and> k \<le> hi \<and> p \<le> at (aswap a i' j') k" "\<exists>k. lo \<le> k \<and> k \<le> j' - 1 \<and> at (aswap a i' j') k \<le> p"
    if "i' + 1 \<le> j' - 1"
    by (rule exI [of _ j']; use that b R [of j'] in simp) (rule exI [of _ i']; use that b L [of i'] in simp)
  then show "split_inv (aswap a i' j') p lo hi (i' + 1) (j' - 1)"
    using b L R permutedD(1) [OF p] by (auto simp: split_inv_def)
qed

lemma split_inv_stop:
  assumes "split_inv a p lo hi i j" "i \<le> i'" "\<forall>l. i \<le> l \<and> l < i' \<longrightarrow> at a l < p"
    "j' \<le> j" "\<forall>l. j' < l \<and> l \<le> j \<longrightarrow> p < at a l" "j' < i'"
  shows "split_inv a p lo hi i' j'"
proof -
  have "at a k \<le> p" if "lo \<le> k" "k < i'" for k
    using assms(1,3) that by (cases "k < i") (auto simp: split_inv_def intro: less_imp_le)
  moreover have "p \<le> at a k" if "j' < k" "k \<le> hi" for k
    using assms(1,5) that by (cases "k \<le> j") (auto simp: split_inv_def intro: less_imp_le)
  ultimately show ?thesis using assms(1,2,4,6) by (auto simp: split_inv_def)
qed

lemma qsort_split_ok:
  assumes "split_inv a p lo hi i j"
  shows "\<exists>b i' j'. qsort_split a p i j = Some (b, i', j') \<and> permuted lo hi a b \<and> split_inv b p lo hi i' j' \<and> j' < i' \<and>
     i \<le> i' \<and> j' \<le> j \<and> ((\<exists>m. i \<le> m \<and> m \<le> j \<and> at a m = p) \<longrightarrow> i < i' \<and> j' < j)"
  using assms
proof (induction "nat (j + 1 - i)" arbitrary: a i j rule: less_induct)
  case less
  show ?case
  proof (cases "i \<le> j")
    case False
    then show ?thesis using less.prems by (intro exI [of _ a] exI [of _ i] exI [of _ j]) (auto simp: qsort_split.simps)
  next
    case True
    then obtain k l where kl: "i \<le> k" "k \<le> hi" "p \<le> at a k" "lo \<le> l" "l \<le> j" "at a l \<le> p" "0 \<le> lo" "lo \<le> i" "j \<le> hi" "hi < int (length a)"
      using less.prems by (auto simp: split_inv_def)
    obtain i' where i': "scan_up a p i = Some i'" "i \<le> i'" "i' \<le> k" "p \<le> at a i'" "\<forall>l. i \<le> l \<and> l < i' \<longrightarrow> at a l < p"
      using scan_up_ok [of i k a p] kl by auto
    obtain j' where j': "scan_down a p j = Some j'" "l \<le> j'" "j' \<le> j" "at a j' \<le> p" "\<forall>l. j' < l \<and> l \<le> j \<longrightarrow> p < at a l"
      using scan_down_ok [of l j a p] kl by auto
    show ?thesis
    proof (cases "i' \<le> j'")
      case le: True
      note sw = split_inv_swap [OF less.prems i'(2,4,5) j'(3,4,5) le]
      obtain b i2 j2 where b: "qsort_split (aswap a i' j') p (i' + 1) (j' - 1) = Some (b, i2, j2)" "permuted lo hi (aswap a i' j') b"
        "split_inv b p lo hi i2 j2" "j2 < i2" "i' + 1 \<le> i2" "j2 \<le> j' - 1"
        using less.hyps [OF _ sw(1)] i'(2) j'(3) le by auto
      have "qsort_split a p i j = Some (b, i2, j2)"
        using True i'(1) j'(1) le b(1) by (subst qsort_split.simps) simp
      then show ?thesis using b permuted_trans [OF sw(2) b(2)] i'(2) j'(3) by auto
    next
      case gt: False
      have "qsort_split a p i' j' = Some (a, i', j')" using gt by (simp add: qsort_split.simps)
      then have "qsort_split a p i j = Some (a, i', j')"
        using True i'(1) j'(1) gt by (subst qsort_split.simps) simp
      moreover have "split_inv a p lo hi i' j'"
        using split_inv_stop [OF less.prems i'(2,5) j'(3,5)] gt by simp
      moreover have "\<not> (\<exists>m. i \<le> m \<and> m \<le> j \<and> at a m = p)"
      proof
        assume "\<exists>m. i \<le> m \<and> m \<le> j \<and> at a m = p"
        then obtain m where m: "i \<le> m" "m \<le> j" "at a m = p" by blast
        then have "i' \<le> m" "m \<le> j'" using i'(5) j'(5) by (metis leI less_irrefl)+
        then show False using gt by simp
      qed
      ultimately show ?thesis using gt i'(2) j'(3) by auto
    qed
  qed
qed

lemma half_sum_ok:
  assumes "0 \<le> lo" "0 \<le> hi" "lo + hi < 2 ^ 31"
  shows "half_sum lo hi = (lo + hi) div 2"
proof -
  have "sint (word_of_int (lo + hi) :: u32) = signed_take_bit 31 (lo + hi)" by (simp only: signed_of_int) simp
  also have "\<dots> = lo + hi" using assms by (intro signed_take_bit_int_eq_self) simp_all
  finally show ?thesis using assms by (simp add: half_sum_def Let_def del: of_int_add)
qed


text \<open>A sorted part: the elements increase.\<close>

definition sorted_part :: "int \<Rightarrow> int \<Rightarrow> 'a::linorder list \<Rightarrow> bool" where
  "sorted_part lo hi a \<longleftrightarrow> (\<forall>k l. lo \<le> k \<and> k \<le> l \<and> l \<le> hi \<longrightarrow> at a k \<le> at a l)"

text \<open>Two sorted parts with only the pivot's value between them, the first below and the second above it.\<close>

lemma sorted_join:
  assumes "sorted_part lo j a" "sorted_part i hi a" "j < i"
    and "\<forall>k. lo \<le> k \<and> k < i \<longrightarrow> at a k \<le> p" "\<forall>k. lo \<le> k \<and> j < k \<and> k \<le> hi \<longrightarrow> p \<le> at a k"
  shows "sorted_part lo hi a"
  unfolding sorted_part_def
proof (intro allI impI)
  fix k l assume kl: "lo \<le> k \<and> k \<le> l \<and> l \<le> hi"
  consider "l \<le> j" | "i \<le> k" | "k < i" "j < l" using assms(3) by linarith
  then show "at a k \<le> at a l"
  proof cases
    case 3
    then show ?thesis using assms(4,5) kl by (meson order_trans)
  qed (use assms(1,2) kl in \<open>auto simp: sorted_part_def\<close>)
qed

lemma qsort_ok:
  assumes "0 \<le> lo" "hi < int (length a)" "2 * int (length a) \<le> 2 ^ 31"
  shows "\<exists>b. stl_qsort a lo hi = Some b \<and> permuted lo hi a b \<and> sorted_part lo hi b"
  using assms
proof (induction "nat (hi - lo)" arbitrary: a lo hi rule: less_induct)
  case less
  show ?case
  proof (cases "lo < hi")
    case False
    have "at a k \<le> at a l" if "lo \<le> k" "k \<le> l" "l \<le> hi" for k l
    proof -
      have "k = l" using that False by linarith
      then show ?thesis by simp
    qed
    then show ?thesis using False by (intro exI [of _ a]) (auto simp: stl_qsort.simps sorted_part_def)
  next
    case True
    define m where "m = (lo + hi) div 2"
    have m: "lo \<le> m" "m \<le> hi" "half_sum lo hi = m" using True less.prems half_sum_ok [of lo hi] by (auto simp: m_def)
    have inv: "split_inv a (at a m) lo hi lo hi" using m less.prems by (auto simp: split_inv_def)
    obtain b i j where b: "qsort_split a (at a m) lo hi = Some (b, i, j)" "permuted lo hi a b" "split_inv b (at a m) lo hi i j"
      "j < i" "lo < i" "j < hi"
      using qsort_split_ok [OF inv] m(1,2) by blast
    have L: "\<forall>k. lo \<le> k \<and> k < i \<longrightarrow> at b k \<le> at a m" and R: "\<forall>k. j < k \<and> k \<le> hi \<longrightarrow> at a m \<le> at b k"
      using b(3) by (simp_all add: split_inv_def)
    obtain c where c: "stl_qsort b lo j = Some c" "permuted lo j b c" "sorted_part lo j c"
      using less.hyps [of j lo b] True less.prems b(6) permutedD(1) [OF b(2)] by auto
    obtain d where d: "stl_qsort c i hi = Some d" "permuted i hi c d" "sorted_part i hi d"
      using less.hyps [of hi i c] True less.prems b(5) permutedD(1) [OF b(2)] permutedD(1) [OF c(2)] by auto
    have "stl_qsort a lo hi = Some d"
      using True m less.prems b(1) c(1) d(1) by (subst stl_qsort.simps) (simp add: aget_def)
    moreover have "permuted lo hi a d"
      using permuted_trans [OF b(2) permuted_trans] permuted_mono [OF c(2), of lo hi] permuted_mono [OF d(2), of lo hi]
        less.prems(1) b(5,6) by simp
    moreover have "sorted_part lo hi d"
    proof (rule sorted_join [OF _ d(3) b(4)])
      have eq: "at d k = at c k" if "lo \<le> k" "k < i" for k using permutedD(2) [OF d(2), of k] that less.prems(1) by simp
      show "sorted_part lo j d" using c(3) eq b(4) by (auto simp: sorted_part_def)
      have "at c k \<le> at a m" if "lo \<le> k" "k < i" for k
      proof (cases "k \<le> j")
        case True
        then show ?thesis using permuted_all [OF c(2), of "\<lambda>x. x \<le> at a m"] L that b(4) by auto
      next
        case False
        then show ?thesis using permutedD(2) [OF c(2), of k] L that less.prems(1) by auto
      qed
      then show "\<forall>k. lo \<le> k \<and> k < i \<longrightarrow> at d k \<le> at a m" using eq by simp
      have R': "at a m \<le> at c k" if "j < k" "k \<le> hi" "lo \<le> k" for k
        using permutedD(2) [OF c(2), of k] R that less.prems(1) by auto
      show "\<forall>k. lo \<le> k \<and> j < k \<and> k \<le> hi \<longrightarrow> at a m \<le> at d k"
      proof (intro allI impI)
        fix k assume k: "lo \<le> k \<and> j < k \<and> k \<le> hi"
        show "at a m \<le> at d k"
        proof (cases "i \<le> k")
          case True
          then show ?thesis using permuted_all [OF d(2), of "\<lambda>x. at a m \<le> x"] R' k b(4,5) less.prems(1) by auto
        qed (use eq R' k in auto)
      qed
    qed
    ultimately show ?thesis by blast
  qed
qed


lemma half_sum_between:
  assumes "0 \<le> lo" "lo < hi" "hi \<le> n" "2 * n \<le> 2 ^ 31"
  shows "lo \<le> half_sum lo hi" "half_sum lo hi < hi"
  using assms half_sum_ok [of lo hi] by auto

lemma sorted_part_whole: "sorted_part 0 (int (length a) - 1) a \<longleftrightarrow> sorted a"
proof
  assume s: "sorted_part 0 (int (length a) - 1) a"
  have "a ! i \<le> a ! j" if "i \<le> j" "j < length a" for i j
    using s [unfolded sorted_part_def, rule_format, of "int i" "int j"] that by simp
  then show "sorted a" by (simp add: sorted_iff_nth_mono)
qed (auto simp: sorted_part_def sorted_iff_nth_mono)

section \<open>Selection sort\<close>

function sel_min :: "'a::linorder list \<Rightarrow> int \<Rightarrow> int \<Rightarrow> int \<Rightarrow> int option" where
  "sel_min a n j m =
     (if j < n then do {
        x \<leftarrow> aget a j;
        y \<leftarrow> aget a m;
        sel_min a n (j + 1) (if x < y then j else m)
      } else Some m)"
  by pat_completeness auto
termination by (relation "measure (\<lambda>(a, n, j, m). nat (n - j))") auto

function sel_sort :: "'a::linorder list \<Rightarrow> int \<Rightarrow> int \<Rightarrow> 'a list option" where
  "sel_sort a n i =
     (if i < n - 1 then do {
        m \<leftarrow> sel_min a n (i + 1) i;
        sel_sort (if m \<noteq> i then aswap a i m else a) n (i + 1)
      } else Some a)"
  by pat_completeness auto
termination by (relation "measure (\<lambda>(a, n, i). nat (n - i))") auto

definition stl_sort :: "'a::linorder list \<Rightarrow> int \<Rightarrow> 'a list option" where
  "stl_sort a n = sel_sort a n 0"

declare sel_min.simps [simp del] sel_sort.simps [simp del]

lemma sel_min_ok:
  assumes "0 \<le> i" "i \<le> m" "m < j" "j \<le> n" "n \<le> int (length a)" "\<forall>k. i \<le> k \<and> k < j \<longrightarrow> at a m \<le> at a k"
  shows "\<exists>m'. sel_min a n j m = Some m' \<and> i \<le> m' \<and> m' < n \<and> (\<forall>k. i \<le> k \<and> k < n \<longrightarrow> at a m' \<le> at a k)"
  using assms
proof (induction a n j m rule: sel_min.induct)
  case (1 a n j m)
  show ?case
  proof (cases "j < n")
    case False
    then show ?thesis using "1.prems" by (auto simp: sel_min.simps)
  next
    case True
    have g: "aget a j = Some (at a j)" "aget a m = Some (at a m)" using "1.prems" True by (auto simp: aget_def)
    let ?m = "if at a j < at a m then j else m"
    have "at a ?m \<le> at a k" if "i \<le> k" "k < j + 1" for k
      using "1.prems"(6) that by (cases "k = j") (auto intro: order_trans [OF less_imp_le])
    then have "\<exists>m'. sel_min a n (j + 1) ?m = Some m' \<and> i \<le> m' \<and> m' < n \<and> (\<forall>k. i \<le> k \<and> k < n \<longrightarrow> at a m' \<le> at a k)"
      using "1.IH" [OF True g] "1.prems" True by auto
    moreover have "sel_min a n j m = sel_min a n (j + 1) ?m"
      using True g by (subst sel_min.simps) simp
    ultimately show ?thesis by simp
  qed
qed

lemma sel_sort_ok:
  assumes "0 \<le> i" "n \<le> int (length a)" "\<forall>k l. 0 \<le> k \<and> k < i \<and> k \<le> l \<and> l < n \<longrightarrow> at a k \<le> at a l"
  shows "\<exists>b. sel_sort a n i = Some b \<and> permuted 0 (n - 1) a b \<and> sorted_part 0 (n - 1) b"
  using assms
proof (induction a n i rule: sel_sort.induct)
  case (1 a n i)
  show ?case
  proof (cases "i < n - 1")
    case False
    have "at a k \<le> at a l" if "0 \<le> k" "k \<le> l" "l \<le> n - 1" for k l
    proof (cases "k < i")
      case False
      then have "k = l" using that \<open>\<not> i < n - 1\<close> by linarith
      then show ?thesis by simp
    qed (use "1.prems"(3) that in simp)
    then show ?thesis using False by (auto simp: sel_sort.simps sorted_part_def)
  next
    case True
    obtain m where m: "sel_min a n (i + 1) i = Some m" "i \<le> m" "m < n" "\<forall>k. i \<le> k \<and> k < n \<longrightarrow> at a m \<le> at a k"
      using sel_min_ok [of i i "i + 1" n a] "1.prems" True by force
    define c where "c = (if m \<noteq> i then aswap a i m else a)"
    have p: "permuted 0 (n - 1) a c" using aswap_permuted [of 0 "n - 1" a i m] m "1.prems" by (simp add: c_def)
    have c: "at c k = (if k = i then at a m else if k = m then at a i else at a k)" if "0 \<le> k" for k
      using aswap_at [of i a m k] m(2,3) "1.prems" that by (auto simp: c_def)
    have "at c k \<le> at c l" if "0 \<le> k" "k < i + 1" "k \<le> l" "l < n" for k l
      using that "1.prems"(1,3) m(2-4) by (cases "k = i") (auto simp: c)
    then obtain b where b: "sel_sort c n (i + 1) = Some b" "permuted 0 (n - 1) c b" "sorted_part 0 (n - 1) b"
      using "1.IH" [OF True m(1)] "1.prems" permutedD(1) [OF p] unfolding c_def [symmetric] by auto
    have "sel_sort a n i = Some b" using True m(1) b(1) by (subst sel_sort.simps) (simp add: c_def)
    then show ?thesis using b permuted_trans [OF p b(2)] by blast
  qed
qed

lemma stl_sort_ok:
  assumes "n \<le> int (length a)"
  shows "\<exists>b. stl_sort a n = Some b \<and> permuted 0 (n - 1) a b \<and> sorted_part 0 (n - 1) b"
  using sel_sort_ok [of 0 n a] assms by (simp add: stl_sort_def)

section \<open>The interface of a sorting routine\<close>

text \<open>A routine that rearranges every array of an admitted length into an increasing one. The law fixes the result.\<close>

locale array_sort =
  fixes srt :: "'a::linorder list \<Rightarrow> 'a list option" and fits :: "nat \<Rightarrow> bool"
  assumes sorts: "fits (length a) \<Longrightarrow> \<exists>b. srt a = Some b \<and> sorted b \<and> mset b = mset a"
begin

lemma srt_eq: "fits (length a) \<Longrightarrow> srt a = Some (sort a)"
  using sorts [of a] properties_for_sort by fastforce

lemma srt_idem: "fits (length a) \<Longrightarrow> Option.bind (srt a) srt = srt a"
  using srt_eq [of a] srt_eq [of "sort a"] by (simp add: sorted_sort_id)

end

interpretation sel: array_sort "\<lambda>a. stl_sort a (int (length a))" "\<lambda>n. True"
proof unfold_locales
  fix a :: "'a list"
  obtain b where "stl_sort a (int (length a)) = Some b" "permuted 0 (int (length a) - 1) a b" "sorted_part 0 (int (length a) - 1) b"
    using stl_sort_ok [of "int (length a)" a] by auto
  then show "\<exists>b. stl_sort a (int (length a)) = Some b \<and> sorted b \<and> mset b = mset a"
    using permutedD(1,3) sorted_part_whole by (metis (no_types, lifting))
qed

interpretation quick: array_sort "\<lambda>a. stl_qsort a 0 (int (length a) - 1)" "\<lambda>n. n \<le> 2 ^ 30"
proof unfold_locales
  fix a :: "'a list" assume "length a \<le> 2 ^ 30"
  then obtain b where "stl_qsort a 0 (int (length a) - 1) = Some b" "permuted 0 (int (length a) - 1) a b"
    "sorted_part 0 (int (length a) - 1) b"
    using qsort_ok [of 0 "int (length a) - 1" a] by auto
  then show "\<exists>b. stl_qsort a 0 (int (length a) - 1) = Some b \<and> sorted b \<and> mset b = mset a"
    using permutedD(1,3) sorted_part_whole by (metis (no_types, lifting))
qed

section \<open>Binary search\<close>

text \<open>A pointer into the array is its index.\<close>

partial_function (option) lower_bound :: "'a::linorder list \<Rightarrow> 'a \<Rightarrow> int \<Rightarrow> int \<Rightarrow> int option" where
  "lower_bound a key lo hi =
     (if lo < hi then do {
        x \<leftarrow> aget a (half_sum lo hi);
        if x < key then lower_bound a key (half_sum lo hi + 1) hi else lower_bound a key lo (half_sum lo hi)
      } else Some lo)"

definition stl_lower_bound :: "'a::linorder list \<Rightarrow> int \<Rightarrow> 'a \<Rightarrow> int option" where
  "stl_lower_bound a n key = lower_bound a key 0 n"

partial_function (option) binary_search :: "'a::linorder list \<Rightarrow> int \<Rightarrow> 'a \<Rightarrow> int \<Rightarrow> int \<Rightarrow> int option" where
  "binary_search a n key lo hi =
     (if lo < hi then do {
        x \<leftarrow> aget a (half_sum lo hi);
        if x = key then Some (half_sum lo hi)
        else if x < key then binary_search a n key (half_sum lo hi + 1) hi
        else binary_search a n key lo (half_sum lo hi)
      } else Some n)"

definition stl_binary_search :: "'a::linorder list \<Rightarrow> int \<Rightarrow> 'a \<Rightarrow> int option" where
  "stl_binary_search a n key = binary_search a n key 0 n"

text \<open>Both searches keep the elements smaller than the key before \<open>lo\<close> and the others from \<open>hi\<close> on.\<close>

definition search_inv :: "'a::linorder list \<Rightarrow> 'a \<Rightarrow> int \<Rightarrow> int \<Rightarrow> bool" where
  "search_inv a key lo hi \<longleftrightarrow> sorted a \<and> length a \<le> 2 ^ 30 \<and> 0 \<le> lo \<and> lo \<le> hi \<and> hi \<le> int (length a) \<and>
     (\<forall>k. 0 \<le> k \<and> k < lo \<longrightarrow> at a k < key) \<and> (\<forall>k. hi \<le> k \<and> k < int (length a) \<longrightarrow> key \<le> at a k)"

lemma sorted_at: "sorted a \<Longrightarrow> 0 \<le> k \<Longrightarrow> k \<le> l \<Longrightarrow> l < int (length a) \<Longrightarrow> at a k \<le> at a l"
  by (auto simp: sorted_iff_nth_mono nat_less_iff)

lemma search_inv_start: "sorted a \<Longrightarrow> length a \<le> 2 ^ 30 \<Longrightarrow> search_inv a key 0 (int (length a))"
  by (auto simp: search_inv_def)

lemma search_inv_step:
  assumes inv: "search_inv a key lo hi" and lt: "lo < hi"
  shows "lo \<le> half_sum lo hi" "half_sum lo hi < hi" "aget a (half_sum lo hi) = Some (at a (half_sum lo hi))"
    "at a (half_sum lo hi) < key \<Longrightarrow> search_inv a key (half_sum lo hi + 1) hi"
    "\<not> at a (half_sum lo hi) < key \<Longrightarrow> search_inv a key lo (half_sum lo hi)"
proof -
  let ?m = "half_sum lo hi"
  have n: "sorted a" "0 \<le> lo" "hi \<le> int (length a)" "2 * int (length a) \<le> 2 ^ 31" using inv by (auto simp: search_inv_def)
  show m: "lo \<le> ?m" "?m < hi" using half_sum_between [OF n(2) lt n(3,4)] .
  show "aget a ?m = Some (at a ?m)" using m n by (simp add: aget_def)
  show "search_inv a key (?m + 1) hi" if lt: "at a ?m < key"
  proof -
    have "at a k < key" if "0 \<le> k" "k < ?m + 1" for k
      using sorted_at [OF n(1) that(1), of ?m] m n(3) lt that(2) by force
    then show ?thesis using inv m by (simp add: search_inv_def)
  qed
  show "search_inv a key lo ?m" if ge: "\<not> at a ?m < key"
  proof -
    have "key \<le> at a k" if "?m \<le> k" "k < int (length a)" for k
      using sorted_at [OF n(1) _ that] m n(2) ge by (meson leI order_trans)
    then show ?thesis using inv m by (simp add: search_inv_def)
  qed
qed

lemma lower_bound_ok:
  assumes "search_inv a key lo hi"
  shows "\<exists>r. lower_bound a key lo hi = Some r \<and> search_inv a key r r"
  using assms
proof (induction "nat (hi - lo)" arbitrary: lo hi rule: less_induct)
  case less
  show ?case
  proof (cases "lo < hi")
    case False
    then show ?thesis using less.prems by (auto simp: lower_bound.simps search_inv_def)
  next
    case True
    note st = search_inv_step [OF less.prems True]
    have "\<exists>r. lower_bound a key (half_sum lo hi + 1) hi = Some r \<and> search_inv a key r r" if "at a (half_sum lo hi) < key"
      by (rule less.hyps [OF _ st(4) [OF that]]) (use st(1,2) in simp)
    moreover have "\<exists>r. lower_bound a key lo (half_sum lo hi) = Some r \<and> search_inv a key r r" if "\<not> at a (half_sum lo hi) < key"
      by (rule less.hyps [OF _ st(5) [OF that]]) (use st(1,2) in simp)
    ultimately show ?thesis using True st(3) by (subst lower_bound.simps) simp
  qed
qed

lemma binary_search_ok:
  assumes "search_inv a key lo hi" "\<forall>k. hi \<le> k \<and> k < int (length a) \<longrightarrow> at a k \<noteq> key"
  shows "\<exists>r. binary_search a n key lo hi = Some r \<and>
    (if key \<in> set a then 0 \<le> r \<and> r < int (length a) \<and> at a r = key else r = n)"
  using assms
proof (induction "nat (hi - lo)" arbitrary: lo hi rule: less_induct)
  case less
  show ?case
  proof (cases "lo < hi")
    case False
    have "a ! k \<noteq> key" if "k < length a" for k
      using less.prems False that
      by (cases "int k < lo") (auto simp: search_inv_def dest: spec [of _ "int k"])
    then have "key \<notin> set a" by (auto simp: in_set_conv_nth)
    then show ?thesis using False by (simp add: binary_search.simps)
  next
    case True
    let ?m = "half_sum lo hi"
    let ?P = "\<lambda>r. if key \<in> set a then 0 \<le> r \<and> r < int (length a) \<and> at a r = key else r = n"
    note st = search_inv_step [OF less.prems(1) True]
    have b: "sorted a" "0 \<le> lo" "hi \<le> int (length a)" using less.prems(1) by (auto simp: search_inv_def)
    have "\<exists>r. binary_search a n key (?m + 1) hi = Some r \<and> ?P r" if "at a ?m < key"
      by (rule less.hyps [OF _ st(4) [OF that] less.prems(2)]) (use st(1,2) in simp)
    moreover have "\<exists>r. binary_search a n key lo ?m = Some r \<and> ?P r" if "\<not> at a ?m < key" "at a ?m \<noteq> key"
    proof (rule less.hyps [OF _ st(5) [OF that(1)]])
      show "\<forall>k. ?m \<le> k \<and> k < int (length a) \<longrightarrow> at a k \<noteq> key"
      proof (intro allI impI)
        fix k assume "?m \<le> k \<and> k < int (length a)"
        then have "at a ?m \<le> at a k" using sorted_at [OF b(1), of ?m k] st(1) b(2) by simp
        then show "at a k \<noteq> key" using that by auto
      qed
    qed (use st(1,2) in simp)
    moreover have "?P ?m" if "at a ?m = key"
      using that b st(1,2) nth_mem [of "nat ?m" a] by auto
    ultimately show ?thesis using True st(3) by (subst binary_search.simps) auto
  qed
qed

text \<open>Binary search: in a sorted array of at most \<open>2 ^ 30\<close> elements the search returns an index of the key when
  the array holds it, and the end of the array when it does not.\<close>

lemma stl_binary_search_correct:
  assumes "sorted a" "length a \<le> 2 ^ 30"
  shows "\<exists>r. stl_binary_search a (int (length a)) key = Some r \<and>
    (if key \<in> set a then 0 \<le> r \<and> r < int (length a) \<and> a ! nat r = key else r = int (length a))"
  unfolding stl_binary_search_def
  by (rule binary_search_ok [OF search_inv_start [OF assms]]) auto

lemma stl_lower_bound_correct:
  assumes "sorted a" "length a \<le> 2 ^ 30"
  shows "\<exists>r. stl_lower_bound a (int (length a)) key = Some r \<and> 0 \<le> r \<and> r \<le> int (length a) \<and>
    (\<forall>k. 0 \<le> k \<and> k < r \<longrightarrow> at a k < key) \<and> (\<forall>k. r \<le> k \<and> k < int (length a) \<longrightarrow> key \<le> at a k)"
  using lower_bound_ok [OF search_inv_start [OF assms, of key]] unfolding stl_lower_bound_def search_inv_def by blast

text \<open>C34: Both sorting routines return, never read outside of the array, and give the same array: the sorted one
  of the same elements. The bound on the length keeps the sum of two indices within 31 bits.\<close>

theorem stl_qsort_sorts:
  assumes "length a \<le> 2 ^ 30"
  shows "stl_qsort a 0 (int (length a) - 1) = Some (sort a) \<and> stl_sort a (int (length a)) = Some (sort a)"
  using quick.srt_eq [OF assms] sel.srt_eq by simp

theorem stl_qsort_sorts_witness:
  "stl_qsort [3, 1, 2::nat] 0 2 = Some [1, 2, 3] \<and> stl_sort [3, 1, 2::nat] 3 = Some [1, 2, 3]"
  using stl_qsort_sorts [of "[3, 1, 2::nat]"] by simp

lemma stl_binary_search_correct_witness:
  "\<exists>r. stl_binary_search [1, 4, 9::nat] 3 4 = Some r \<and> 0 \<le> r \<and> r < 3 \<and> [1, 4, 9::nat] ! nat r = 4"
  using stl_binary_search_correct [of "[1, 4, 9::nat]" 4] by simp

text \<open>For an array of more than \<open>2 ^ 30\<close> elements the middle of two indices can be negative.\<close>

lemma half_sum_wraps: "half_sum (2 ^ 30) (2 ^ 30) < 0"
  by (simp add: half_sum_def)

section \<open>The other algorithms on a range\<close>

definition aput :: "'a list \<Rightarrow> int \<Rightarrow> 'a \<Rightarrow> 'a list option" where
  "aput a i v = (if 0 \<le> i \<and> i < int (length a) then Some (a[nat i := v]) else None)"

partial_function (option) stl_find :: "'a list \<Rightarrow> int \<Rightarrow> int \<Rightarrow> 'a \<Rightarrow> int option" where
  "stl_find a b e v =
     (if b \<noteq> e then do {
        x \<leftarrow> aget a b;
        if x = v then Some b else stl_find a (b + 1) e v
      } else Some e)"

partial_function (option) stl_count :: "'a list \<Rightarrow> int \<Rightarrow> int \<Rightarrow> 'a \<Rightarrow> int \<Rightarrow> int option" where
  "stl_count a b e v c =
     (if b \<noteq> e then do {
        x \<leftarrow> aget a b;
        stl_count a (b + 1) e v (if x = v then c + 1 else c)
      } else Some c)"

partial_function (option) stl_fill :: "'a list \<Rightarrow> int \<Rightarrow> int \<Rightarrow> 'a \<Rightarrow> 'a list option" where
  "stl_fill a b e v =
     (if b \<noteq> e then do {
        a \<leftarrow> aput a b v;
        stl_fill a (b + 1) e v
      } else Some a)"

partial_function (option) reverse_loop :: "'a list \<Rightarrow> int \<Rightarrow> int \<Rightarrow> 'a list option" where
  "reverse_loop a b e =
     (if b < e then do {
        x \<leftarrow> aget a b;
        y \<leftarrow> aget a e;
        a \<leftarrow> aput a b y;
        a \<leftarrow> aput a e x;
        reverse_loop a (b + 1) (e - 1)
      } else Some a)"

definition stl_reverse :: "'a list \<Rightarrow> int \<Rightarrow> int \<Rightarrow> 'a list option" where
  "stl_reverse a b e = reverse_loop a b (e - 1)"

partial_function (option) remove_loop :: "'a list \<Rightarrow> int \<Rightarrow> int \<Rightarrow> int \<Rightarrow> 'a \<Rightarrow> ('a list \<times> int) option" where
  "remove_loop a w b e v =
     (if b \<noteq> e then do {
        x \<leftarrow> aget a b;
        if x \<noteq> v then do {
          a \<leftarrow> aput a w x;
          remove_loop a (w + 1) (b + 1) e v
        } else remove_loop a w (b + 1) e v
      } else Some (a, w))"

definition stl_remove :: "'a list \<Rightarrow> int \<Rightarrow> int \<Rightarrow> 'a \<Rightarrow> ('a list \<times> int) option" where
  "stl_remove a b e v = remove_loop a b b e v"

partial_function (option) unique_loop :: "'a list \<Rightarrow> int \<Rightarrow> int \<Rightarrow> int \<Rightarrow> ('a list \<times> int) option" where
  "unique_loop a w p e =
     (if p \<noteq> e then do {
        x \<leftarrow> aget a p;
        y \<leftarrow> aget a w;
        if x \<noteq> y then do {
          a \<leftarrow> aput a (w + 1) x;
          unique_loop a (w + 1) (p + 1) e
        } else unique_loop a w (p + 1) e
      } else Some (a, w))"

definition stl_unique :: "'a list \<Rightarrow> int \<Rightarrow> int \<Rightarrow> ('a list \<times> int) option" where
  "stl_unique a b e =
     (if b = e then Some (a, e)
      else do {
        (a, w) \<leftarrow> unique_loop a b (b + 1) e;
        Some (a, w + 1)
      })"

partial_function (option) stl_accumulate :: "'a::plus list \<Rightarrow> int \<Rightarrow> int \<Rightarrow> 'a \<Rightarrow> 'a option" where
  "stl_accumulate a b e init =
     (if b \<noteq> e then do {
        x \<leftarrow> aget a b;
        stl_accumulate a (b + 1) e (init + x)
      } else Some init)"

function minmax_loop :: "'a::linorder list \<Rightarrow> int \<Rightarrow> int \<Rightarrow> 'a \<Rightarrow> 'a \<Rightarrow> ('a \<times> 'a) option" where
  "minmax_loop a n i mn mx =
     (if i < n then do {
        x \<leftarrow> aget a i;
        minmax_loop a n (i + 1) (if x < mn then x else mn) (if mx < x then x else mx)
      } else Some (mn, mx))"
  by pat_completeness auto
termination by (relation "measure (\<lambda>(a, n, i, mn, mx). nat (n - i))") auto

declare minmax_loop.simps [simp del]

text \<open>The two results are written where the caller asks for them; an empty range writes neither.\<close>

definition stl_minmax :: "'a::linorder list \<Rightarrow> int \<Rightarrow> 'a option \<Rightarrow> 'a option \<Rightarrow> ('a option \<times> 'a option) option" where
  "stl_minmax a n lo hi =
     (if n \<le> 0 then Some (lo, hi)
      else do {
        x \<leftarrow> aget a 0;
        (mn, mx) \<leftarrow> minmax_loop a n 1 x x;
        Some (map_option (\<lambda>_. mn) lo, map_option (\<lambda>_. mx) hi)
      })"

lemma aget_app [simp]: "i = int (length pre) \<Longrightarrow> aget (pre @ x # xs) i = Some x"
  by (simp add: aget_def)

lemma aput_app [simp]: "i = int (length pre) \<Longrightarrow> aput (pre @ x # xs) i v = Some (pre @ v # xs)"
  by (simp add: aput_def)

lemma remove_loop_ok:
  assumes "a = pre @ old @ xs @ post" "w = int (length pre)" "b = w + int (length old)" "e = b + int (length xs)"
  shows "remove_loop a w b e v =
     (let ys = filter (\<lambda>x. x \<noteq> v) xs in
      Some (pre @ ys @ drop (length ys) (old @ xs) @ post, w + int (length ys)))"
  using assms
proof (induction xs arbitrary: a pre old w b)
  case Nil
  then show ?case by (subst remove_loop.simps) simp
next
  case (Cons x xs)
  have r: "aget a b = Some x" "b \<noteq> e" using Cons.prems aget_app [of b "pre @ old" x "xs @ post"] by simp_all
  show ?case
  proof (cases "x = v")
    case True
    have "remove_loop a w b e v = remove_loop a w (b + 1) e v" using r True by (subst remove_loop.simps) simp
    then show ?thesis using True Cons.IH [of a pre "old @ [x]" w "b + 1"] Cons.prems by simp
  next
    case False
    obtain old' where old': "aput a w x = Some (pre @ x # old' @ xs @ post)" "length old' = length old"
      "old' @ xs = tl (old @ x # xs)"
    proof (cases old)
      case Nil
      then show ?thesis using that [of "[]"] Cons.prems by simp
    next
      case (Cons y ys)
      then show ?thesis using that [of "ys @ [x]"] Cons.prems by simp
    qed
    have "remove_loop a w b e v = remove_loop (pre @ x # old' @ xs @ post) (w + 1) (b + 1) e v"
      using r False old'(1) by (subst remove_loop.simps) simp
    then show ?thesis
      using False Cons.IH [of _ "pre @ [x]" old' "w + 1" "b + 1"] Cons.prems old'(2,3)
      by (simp add: Let_def drop_Suc tl_append split: list.splits)
  qed
qed

text \<open>Removing a value from a range keeps the other elements of the range in their order at its start, returns
  the end of what is kept, and changes nothing outside of the range.\<close>

lemma stl_remove_correct:
  "\<exists>rest. stl_remove (pre @ xs @ post) (int (length pre)) (int (length (pre @ xs))) v =
     Some (pre @ filter (\<lambda>x. x \<noteq> v) xs @ rest @ post, int (length (pre @ filter (\<lambda>x. x \<noteq> v) xs)))"
  using remove_loop_ok [of _ pre "[]" xs post] by (simp add: stl_remove_def Let_def)

lemma unique_loop_ok:
  assumes "a = pre @ x # old @ xs @ post" "w = int (length pre)" "p = w + 1 + int (length old)" "e = p + int (length xs)"
  shows "\<exists>rest. unique_loop a w p e =
     Some (pre @ remdups_adj (x # xs) @ rest @ post, w + int (length (remdups_adj (x # xs))) - 1)"
  using assms
proof (induction xs arbitrary: a pre x old w p)
  case Nil
  then show ?case by (subst unique_loop.simps) auto
next
  case (Cons y ys)
  have r: "aget a p = Some y" "aget a w = Some x" "p \<noteq> e"
    using Cons.prems aget_app [of p "pre @ x # old" y "ys @ post"] by simp_all
  show ?case
  proof (cases "y = x")
    case True
    have "unique_loop a w p e = unique_loop a w (p + 1) e" using r True by (subst unique_loop.simps) simp
    then show ?thesis using True Cons.IH [of a pre x "old @ [y]" w "p + 1"] Cons.prems by simp
  next
    case False
    obtain old' where old': "aput a (w + 1) y = Some ((pre @ [x]) @ y # old' @ ys @ post)" "length old' = length old"
    proof (cases old)
      case Nil
      then show ?thesis using that [of "[]"] aput_app [of "w + 1" "pre @ [x]" y "ys @ post" y] Cons.prems by simp
    next
      case (Cons z zs)
      then show ?thesis using that [of "zs @ [y]"] aput_app [of "w + 1" "pre @ [x]" z "zs @ y # ys @ post" y] Cons.prems by simp
    qed
    have "unique_loop a w p e = unique_loop ((pre @ [x]) @ y # old' @ ys @ post) (w + 1) (p + 1) e"
      using r False old'(1) by (subst unique_loop.simps) simp
    then show ?thesis
      using False Cons.IH [of _ "pre @ [x]" y old' "w + 1" "p + 1"] Cons.prems old'(2) by simp
  qed
qed

lemma stl_unique_correct:
  "\<exists>rest. stl_unique (pre @ xs @ post) (int (length pre)) (int (length (pre @ xs))) =
     Some (pre @ remdups_adj xs @ rest @ post, int (length (pre @ remdups_adj xs)))"
proof (cases xs)
  case (Cons x ys)
  obtain rest where "unique_loop (pre @ xs @ post) (int (length pre)) (int (length pre) + 1) (int (length (pre @ xs))) =
     Some (pre @ remdups_adj xs @ rest @ post, int (length pre) + int (length (remdups_adj xs)) - 1)"
    using unique_loop_ok [of "pre @ xs @ post" pre x "[]" ys post "int (length pre)" "int (length pre) + 1" "int (length (pre @ xs))"] Cons
    by auto
  then show ?thesis using Cons by (simp add: stl_unique_def)
qed (simp add: stl_unique_def)

lemma reverse_loop_ok:
  "reverse_loop (pre @ xs @ post) (int (length pre)) (int (length (pre @ xs)) - 1) = Some (pre @ rev xs @ post)"
proof (induction "length xs" arbitrary: pre xs post rule: less_induct)
  case less
  consider "xs = []" | x where "xs = [x]" | x ys y where "xs = x # ys @ [y]"
    by (metis rev_exhaust list.exhaust)
  then show ?case
  proof cases
    case 3
    then have IH: "reverse_loop ((pre @ [y]) @ ys @ x # post) (int (length (pre @ [y]))) (int (length ((pre @ [y]) @ ys)) - 1) =
        Some ((pre @ [y]) @ rev ys @ x # post)"
      using less.hyps [of ys "pre @ [y]" "x # post"] by simp
    have r: "aget (pre @ x # ys @ y # post) (1 + (int (length pre) + int (length ys))) = Some y"
      "aput (pre @ y # ys @ y # post) (1 + (int (length pre) + int (length ys))) x = Some (pre @ y # ys @ x # post)"
      using aget_app [of _ "pre @ x # ys" y post] aput_app [of _ "pre @ y # ys" y post x] by simp_all
    show ?thesis using 3 IH r by (subst reverse_loop.simps) (simp add: ac_simps)
  qed (simp_all add: reverse_loop.simps)
qed

lemma stl_reverse_correct:
  "stl_reverse (pre @ xs @ post) (int (length pre)) (int (length (pre @ xs))) = Some (pre @ rev xs @ post)"
  unfolding stl_reverse_def by (rule reverse_loop_ok)

lemma stl_find_correct:
  assumes "a = pre @ xs @ post" "b = int (length pre)" "e = b + int (length xs)"
  shows "stl_find a b e v = Some (b + int (length (takeWhile (\<lambda>x. x \<noteq> v) xs)))"
  using assms
proof (induction xs arbitrary: pre b)
  case (Cons x xs)
  then show ?case using Cons.IH [of "pre @ [x]" "b + 1"] by (subst stl_find.simps) simp
qed (subst stl_find.simps, simp)

lemma stl_count_correct:
  assumes "a = pre @ xs @ post" "b = int (length pre)" "e = b + int (length xs)"
  shows "stl_count a b e v c = Some (c + int (count_list xs v))"
  using assms
proof (induction xs arbitrary: pre b c)
  case (Cons x xs)
  then show ?case using Cons.IH [of "pre @ [x]" "b + 1"] by (subst stl_count.simps) simp
qed (subst stl_count.simps, simp)

lemma stl_fill_correct:
  assumes "a = pre @ xs @ post" "b = int (length pre)" "e = b + int (length xs)"
  shows "stl_fill a b e v = Some (pre @ replicate (length xs) v @ post)"
  using assms
proof (induction xs arbitrary: a pre b)
  case (Cons x xs)
  then show ?case using Cons.IH [of _ "pre @ [v]" "b + 1"] by (subst stl_fill.simps) simp
qed (subst stl_fill.simps, simp)

lemma stl_accumulate_correct:
  fixes a :: "'a::monoid_add list"
  assumes "a = pre @ xs @ post" "b = int (length pre)" "e = b + int (length xs)"
  shows "stl_accumulate a b e init = Some (init + sum_list xs)"
  using assms
proof (induction xs arbitrary: pre b init)
  case (Cons x xs)
  then show ?case using Cons.IH [of "pre @ [x]" "b + 1"] by (subst stl_accumulate.simps) (simp add: add.assoc)
qed (subst stl_accumulate.simps, simp)

lemma minmax_loop_ok:
  assumes "a = pre @ xs @ post" "i = int (length pre)" "n = i + int (length xs)"
  shows "minmax_loop a n i mn mx = Some (fold min xs mn, fold max xs mx)"
  using assms
proof (induction xs arbitrary: pre i mn mx)
  case (Cons x xs)
  have "(if x < mn then x else mn) = min x mn" "(if mx < x then x else mx) = max x mx" by (auto simp: min_def max_def)
  then show ?case using Cons.IH [of "pre @ [x]" "i + 1"] Cons.prems by (subst minmax_loop.simps) simp
qed (simp add: minmax_loop.simps)

lemma stl_minmax_correct:
  assumes "xs \<noteq> []"
  shows "stl_minmax xs (int (length xs)) (Some l) (Some h) = Some (Some (Min (set xs)), Some (Max (set xs)))"
proof -
  obtain x ys where xs: "xs = x # ys" using assms by (cases xs) auto
  have "minmax_loop xs (int (length xs)) 1 x x = Some (Min (set xs), Max (set xs))"
    using minmax_loop_ok [of xs "[x]" ys "[]" 1] Min.set_eq_fold [of x ys] Max.set_eq_fold [of x ys] xs by simp
  then show ?thesis using xs by (simp add: stl_minmax_def aget_def)
qed

end
