(* ===== verification/Stl_Map.thy ===== *)
theory Stl_Map
  imports Stl_Sort
begin

text \<open>
  The sorted map of the container library (\<open>lib/stl/map.h\<close>): an array of keys and values, sorted by key, and
  the contract that both maps of the library keep. The arena of \<open>stl_arena_alloc\<close> is the argument
  \<open>alloc\<close>, which gives an array with any contents for a number of elements, or nothing.
\<close>

section \<open>The contract of a map\<close>

text \<open>\<open>None\<close> is an access outside of the memory of the map. An insertion fails only when memory was refused: \<open>lacks n\<close> says
  that a map with \<open>n\<close> places in use, which \<open>load\<close> counts, may ask for memory that there is not. A map whose insertion failed
  holds what it held.\<close>

locale assoc =
  fixes inv :: "'m \<Rightarrow> bool" and abs :: "'m \<Rightarrow> 'k \<Rightarrow> 'v option"
    and get :: "'m \<Rightarrow> 'k \<Rightarrow> 'v option option" and put :: "'m \<Rightarrow> 'k \<Rightarrow> 'v \<Rightarrow> (int \<times> 'm) option"
    and del :: "'m \<Rightarrow> 'k \<Rightarrow> (int \<times> 'm) option" and load :: "'m \<Rightarrow> nat" and lacks :: "nat \<Rightarrow> bool"
  assumes get_ok: "inv m \<Longrightarrow> get m k = Some (abs m k)"
    and put_ok: "inv m \<Longrightarrow> \<exists>r m'. put m k v = Some (r, m') \<and> inv m' \<and> load m' \<le> Suc (load m) \<and>
      (r = 0 \<and> abs m' = (abs m)(k \<mapsto> v) \<or> r = -1 \<and> abs m' = abs m \<and> lacks (load m))"
    and del_ok: "inv m \<Longrightarrow> \<exists>m'. del m k = Some (if abs m k = None then 0 else 1, m') \<and> inv m' \<and>
      load m' \<le> load m \<and> abs m' = (abs m)(k := None)"
    and lacks_mono: "lacks i \<Longrightarrow> i \<le> j \<Longrightarrow> lacks j"

text \<open>A program is a list of calls, and its result is the list of what the calls return.\<close>

datatype ('k, 'v) call = Get 'k | Put 'k 'v | Del 'k

datatype 'v answer = Value "'v option" | Code int

fun run_calls :: "('m \<Rightarrow> 'k \<Rightarrow> 'v option option) \<Rightarrow> ('m \<Rightarrow> 'k \<Rightarrow> 'v \<Rightarrow> (int \<times> 'm) option) \<Rightarrow> ('m \<Rightarrow> 'k \<Rightarrow> (int \<times> 'm) option)
    \<Rightarrow> 'm \<Rightarrow> ('k, 'v) call list \<Rightarrow> 'v answer list option" where
  "run_calls get put del m [] = Some []"
| "run_calls get put del m (Get k # cs) =
     do { x \<leftarrow> get m k; rs \<leftarrow> run_calls get put del m cs; Some (Value x # rs) }"
| "run_calls get put del m (Put k v # cs) =
     do { (r, m) \<leftarrow> put m k v; rs \<leftarrow> run_calls get put del m cs; Some (Code r # rs) }"
| "run_calls get put del m (Del k # cs) =
     do { (r, m) \<leftarrow> del m k; rs \<leftarrow> run_calls get put del m cs; Some (Code r # rs) }"

text \<open>The results of the same calls on a map without a limit.\<close>

fun map_calls :: "('k \<Rightarrow> 'v option) \<Rightarrow> ('k, 'v) call list \<Rightarrow> 'v answer list" where
  "map_calls f [] = []"
| "map_calls f (Get k # cs) = Value (f k) # map_calls f cs"
| "map_calls f (Put k v # cs) = Code 0 # map_calls (f(k \<mapsto> v)) cs"
| "map_calls f (Del k # cs) = Code (if f k = None then 0 else 1) # map_calls (f(k := None)) cs"

text \<open>The results of a map whose insertions may be refused: one that is has no effect.\<close>

fun map_answers :: "('k \<Rightarrow> 'v option) \<Rightarrow> ('k, 'v) call list \<Rightarrow> 'v answer list \<Rightarrow> bool" where
  "map_answers f [] rs \<longleftrightarrow> rs = []"
| "map_answers f (Get k # cs) rs \<longleftrightarrow> (case rs of [] \<Rightarrow> False | x # rs \<Rightarrow> x = Value (f k) \<and> map_answers f cs rs)"
| "map_answers f (Put k v # cs) rs \<longleftrightarrow>
     (case rs of [] \<Rightarrow> False
      | x # rs \<Rightarrow> x = Code 0 \<and> map_answers (f(k \<mapsto> v)) cs rs \<or> x = Code (-1) \<and> map_answers f cs rs)"
| "map_answers f (Del k # cs) rs \<longleftrightarrow>
     (case rs of [] \<Rightarrow> False
      | x # rs \<Rightarrow> x = Code (if f k = None then 0 else 1) \<and> map_answers (f(k := None)) cs rs)"

lemma map_answers_calls: "map_answers f cs rs \<Longrightarrow> Code (-1) \<notin> set rs \<Longrightarrow> rs = map_calls f cs"
  by (induction f cs rs rule: map_answers.induct) (auto split: list.splits)

context assoc
begin

text \<open>A program always runs to its end and sees the map it expects. An insertion is refused only if a map with at most one
  place in use for each call can lack memory.\<close>

lemma run_answers:
  "inv m \<Longrightarrow> \<exists>rs. run_calls get put del m cs = Some rs \<and> map_answers (abs m) cs rs \<and>
     (Code (-1) \<in> set rs \<longrightarrow> lacks (load m + length cs))"
proof (induction cs arbitrary: m)
  case (Cons c cs)
  show ?case
  proof (cases c)
    case (Get k)
    obtain rs where "run_calls get put del m cs = Some rs" "map_answers (abs m) cs rs"
      "Code (-1) \<in> set rs \<longrightarrow> lacks (load m + length cs)" using Cons by blast
    then show ?thesis using Get get_ok [OF Cons.prems] lacks_mono [of "load m + length cs" "load m + length (c # cs)"] by auto
  next
    case (Put k v)
    obtain r m' where p: "put m k v = Some (r, m')" "inv m'" "load m' \<le> Suc (load m)"
      "r = 0 \<and> abs m' = (abs m)(k \<mapsto> v) \<or> r = -1 \<and> abs m' = abs m \<and> lacks (load m)"
      using put_ok [OF Cons.prems] by blast
    obtain rs where "run_calls get put del m' cs = Some rs" "map_answers (abs m') cs rs"
      "Code (-1) \<in> set rs \<longrightarrow> lacks (load m' + length cs)" using Cons.IH [OF p(2)] by blast
    then show ?thesis
      using Put p lacks_mono [of "load m' + length cs" "load m + length (c # cs)"] lacks_mono [of "load m" "load m + length (c # cs)"]
      by auto
  next
    case (Del k)
    obtain m' where d: "del m k = Some (if abs m k = None then 0 else 1, m')" "inv m'" "load m' \<le> load m" "abs m' = (abs m)(k := None)"
      using del_ok [OF Cons.prems] by blast
    obtain rs where "run_calls get put del m' cs = Some rs" "map_answers (abs m') cs rs"
      "Code (-1) \<in> set rs \<longrightarrow> lacks (load m' + length cs)" using Cons.IH [OF d(2)] by blast
    then show ?thesis
      using Del d lacks_mono [of "load m' + length cs" "load m + length (c # cs)"] by auto
  qed
qed simp

end

section \<open>The sorted array\<close>

record ('k, 'v) smap =
  sdata :: "('k \<times> 'v) list"
  slen :: int
  scap :: int

definition stl_map_init :: "('k, 'v) smap" where
  "stl_map_init = \<lparr>sdata = [], slen = 0, scap = 0\<rparr>"

definition stl_map_clear :: "('k, 'v) smap \<Rightarrow> ('k, 'v) smap" where
  "stl_map_clear m = m\<lparr>slen := 0\<rparr>"

text \<open>The search of every operation, the one of \<open>stl_lower_bound\<close> on the keys.\<close>

definition map_lb :: "('k::linorder, 'v) smap \<Rightarrow> 'k \<Rightarrow> int option" where
  "map_lb m key = lower_bound (map fst (sdata m)) key 0 (slen m)"

definition map_hit :: "('k::linorder, 'v) smap \<Rightarrow> 'k \<Rightarrow> int \<Rightarrow> bool option" where
  "map_hit m key lo =
     (if lo < slen m then do { e \<leftarrow> aget (sdata m) lo; Some (\<not> key < fst e) } else Some False)"

definition stl_map_get :: "('k::linorder, 'v) smap \<Rightarrow> 'k \<Rightarrow> 'v option option" where
  "stl_map_get m key = do {
     lo \<leftarrow> map_lb m key;
     hit \<leftarrow> map_hit m key lo;
     if hit then do { e \<leftarrow> aget (sdata m) lo; Some (Some (snd e)) } else Some None
   }"

definition stl_map_contains :: "('k::linorder, 'v) smap \<Rightarrow> 'k \<Rightarrow> bool option" where
  "stl_map_contains m key = do { lo \<leftarrow> map_lb m key; map_hit m key lo }"

definition stl_map_getor :: "('k::linorder, 'v) smap \<Rightarrow> 'k \<Rightarrow> 'v \<Rightarrow> 'v option" where
  "stl_map_getor m key dflt = do {
     lo \<leftarrow> map_lb m key;
     hit \<leftarrow> map_hit m key lo;
     if hit then do { e \<leftarrow> aget (sdata m) lo; Some (snd e) } else Some dflt
   }"

text \<open>The loops that copy to a larger array, make room for an element, and close the gap of an erased one.\<close>

function copy_elems :: "'a list \<Rightarrow> 'a list \<Rightarrow> int \<Rightarrow> int \<Rightarrow> 'a list option" where
  "copy_elems nd d j n =
     (if j < n then do {
        x \<leftarrow> aget d j;
        nd \<leftarrow> aput nd j x;
        copy_elems nd d (j + 1) n
      } else Some nd)"
  by pat_completeness auto
termination by (relation "measure (\<lambda>(nd, d, j, n). nat (n - j))") auto

function shift_up :: "'a list \<Rightarrow> int \<Rightarrow> int \<Rightarrow> 'a list option" where
  "shift_up d j lo =
     (if j > lo then do {
        x \<leftarrow> aget d (j - 1);
        d \<leftarrow> aput d j x;
        shift_up d (j - 1) lo
      } else Some d)"
  by pat_completeness auto
termination by (relation "measure (\<lambda>(d, j, lo). nat (j - lo))") auto

function shift_down :: "'a list \<Rightarrow> int \<Rightarrow> int \<Rightarrow> 'a list option" where
  "shift_down d j n =
     (if j < n - 1 then do {
        x \<leftarrow> aget d (j + 1);
        d \<leftarrow> aput d j x;
        shift_down d (j + 1) n
      } else Some d)"
  by pat_completeness auto
termination by (relation "measure (\<lambda>(d, j, n). nat (n - j))") auto

declare copy_elems.simps [simp del] shift_up.simps [simp del] shift_down.simps [simp del]

text \<open>The inner \<open>None\<close> says that there is no memory.\<close>

definition map_grow :: "(int \<Rightarrow> ('k \<times> 'v) list option) \<Rightarrow> ('k, 'v) smap \<Rightarrow> ('k, 'v) smap option option" where
  "map_grow alloc m =
     (if slen m \<ge> scap m
      then let nc = (if scap m \<noteq> 0 then scap m * 2 else 4) in
        case alloc nc of
          None \<Rightarrow> Some None
        | Some nd \<Rightarrow> do { nd \<leftarrow> copy_elems nd (sdata m) 0 (slen m); Some (Some (m\<lparr>sdata := nd, scap := nc\<rparr>)) }
      else Some (Some m))"

definition map_insert :: "('k, 'v) smap \<Rightarrow> int \<Rightarrow> 'k \<Rightarrow> 'v \<Rightarrow> ('k, 'v) smap option" where
  "map_insert m lo key v = do {
     d \<leftarrow> shift_up (sdata m) (slen m) lo;
     d \<leftarrow> aput d lo (key, v);
     Some (m\<lparr>sdata := d, slen := slen m + 1\<rparr>)
   }"

definition stl_map_set ::
    "(int \<Rightarrow> ('k::linorder \<times> 'v) list option) \<Rightarrow> ('k, 'v) smap \<Rightarrow> 'k \<Rightarrow> 'v \<Rightarrow> (int \<times> ('k, 'v) smap) option" where
  "stl_map_set alloc m key v = do {
     lo \<leftarrow> map_lb m key;
     hit \<leftarrow> map_hit m key lo;
     if hit then do {
       e \<leftarrow> aget (sdata m) lo;
       d \<leftarrow> aput (sdata m) lo (fst e, v);
       Some (0, m\<lparr>sdata := d\<rparr>)
     } else do {
       g \<leftarrow> map_grow alloc m;
       case g of
         None \<Rightarrow> Some (-1, m)
       | Some m \<Rightarrow> do { m \<leftarrow> map_insert m lo key v; Some (0, m) }
     }
   }"

text \<open>The result is the index of the element whose value the caller may write, \<open>None\<close> for the null pointer.\<close>

definition stl_map_at ::
    "(int \<Rightarrow> ('k::linorder \<times> 'v) list option) \<Rightarrow> 'v \<Rightarrow> ('k, 'v) smap \<Rightarrow> 'k \<Rightarrow> (int option \<times> ('k, 'v) smap) option" where
  "stl_map_at alloc zero m key = do {
     lo \<leftarrow> map_lb m key;
     hit \<leftarrow> map_hit m key lo;
     if hit then Some (Some lo, m)
     else do {
       g \<leftarrow> map_grow alloc m;
       case g of
         None \<Rightarrow> Some (None, m)
       | Some m \<Rightarrow> do { m \<leftarrow> map_insert m lo key zero; Some (Some lo, m) }
     }
   }"

definition stl_map_erase :: "('k::linorder, 'v) smap \<Rightarrow> 'k \<Rightarrow> (int \<times> ('k, 'v) smap) option" where
  "stl_map_erase m key = do {
     lo \<leftarrow> map_lb m key;
     hit \<leftarrow> map_hit m key lo;
     if \<not> hit then Some (0, m)
     else do {
       d \<leftarrow> shift_down (sdata m) lo (slen m);
       Some (1, m\<lparr>sdata := d, slen := slen m - 1\<rparr>)
     }
   }"

section \<open>The loops\<close>

lemma copy_elems_ok:
  "length xs \<le> length nd \<Longrightarrow>
   copy_elems (pre @ nd) (pre @ xs @ rest) (int (length pre)) (int (length pre) + int (length xs)) =
     Some (pre @ xs @ drop (length xs) nd)"
proof (induction xs arbitrary: pre nd)
  case Nil
  then show ?case by (simp add: copy_elems.simps)
next
  case (Cons x xs)
  then obtain y ys where nd: "nd = y # ys" "length xs \<le> length ys" by (cases nd) auto
  have "copy_elems (pre @ nd) (pre @ (x # xs) @ rest) (int (length pre)) (int (length pre) + int (length (x # xs))) =
    copy_elems ((pre @ [x]) @ ys) ((pre @ [x]) @ xs @ rest) (int (length (pre @ [x]))) (int (length (pre @ [x])) + int (length xs))"
    by (subst copy_elems.simps) (simp add: nd(1) ac_simps)
  then show ?case using Cons.IH [OF nd(2), of "pre @ [x]"] nd(1) by simp
qed

lemma shift_up_ok:
  assumes "d = l @ r @ y # post" "lo = int (length l)" "j = lo + int (length r)"
  shows "\<exists>x. shift_up d j lo = Some (l @ x # r @ post)"
  using assms
proof (induction r arbitrary: d y post j rule: rev_induct)
  case Nil
  then show ?case by (simp add: shift_up.simps)
next
  case (snoc z r)
  have "aget d (j - 1) = Some z" using aget_app [of "j - 1" "l @ r" z "y # post"] snoc.prems by simp
  moreover have "aput d j z = Some (l @ r @ z # z # post)" using aput_app [of j "l @ r @ [z]" y post z] snoc.prems by simp
  ultimately have "shift_up d j lo = shift_up (l @ r @ z # z # post) (j - 1) lo"
    using snoc.prems by (subst shift_up.simps) simp
  then show ?case using snoc.IH [of _ z "z # post" "j - 1"] snoc.prems by simp
qed

lemma shift_down_ok:
  assumes "d = l @ x # r @ post" "j = int (length l)" "n = j + 1 + int (length r)"
  shows "\<exists>y. shift_down d j n = Some (l @ r @ y # post)"
  using assms
proof (induction r arbitrary: d l x j)
  case Nil
  then show ?case by (simp add: shift_down.simps)
next
  case (Cons z r)
  have "aget d (j + 1) = Some z" using aget_app [of "j + 1" "l @ [x]" z "r @ post"] Cons.prems by simp
  moreover have "aput d j z = Some ((l @ [z]) @ z # r @ post)" using aput_app [of j l x "z # r @ post" z] Cons.prems by simp
  ultimately have "shift_down d j n = shift_down ((l @ [z]) @ z # r @ post) (j + 1) n"
    using Cons.prems by (subst shift_down.simps) simp
  then show ?case using Cons.IH [of _ "l @ [z]" z "j + 1"] Cons.prems by simp
qed

section \<open>The invariant\<close>

text \<open>The elements in use are sorted by key, and the array has \<open>scap\<close> elements.\<close>

abbreviation elems :: "('k, 'v) smap \<Rightarrow> ('k \<times> 'v) list" where
  "elems m \<equiv> take (nat (slen m)) (sdata m)"

definition smap_inv :: "('k::linorder, 'v) smap \<Rightarrow> bool" where
  "smap_inv m \<longleftrightarrow> 0 \<le> slen m \<and> slen m \<le> scap m \<and> scap m = int (length (sdata m)) \<and> scap m \<le> 2 ^ 30 \<and>
     sorted_wrt (<) (map fst (elems m))"

definition smap_abs :: "('k, 'v) smap \<Rightarrow> 'k \<Rightarrow> 'v option" where
  "smap_abs m = map_of (elems m)"

lemma smap_inv_init [simp]: "smap_inv stl_map_init"
  by (simp add: stl_map_init_def smap_inv_def)

lemma slen_init [simp]: "slen stl_map_init = 0"
  by (simp add: stl_map_init_def)

lemma smap_abs_init [simp]: "smap_abs stl_map_init = Map.empty"
  by (simp add: stl_map_init_def smap_abs_def)

text \<open>The search does not look behind the elements in use.\<close>

lemma lower_bound_prefix:
  assumes "0 \<le> lo" "hi \<le> int (length a)" "length a \<le> 2 ^ 30"
  shows "lower_bound (a @ b) key lo hi = lower_bound a key lo hi"
  using assms
proof (induction "nat (hi - lo)" arbitrary: lo hi rule: less_induct)
  case less
  show ?case
  proof (cases "lo < hi")
    case False
    then show ?thesis by (simp add: lower_bound.simps)
  next
    case True
    let ?m = "half_sum lo hi"
    have m: "lo \<le> ?m" "?m < hi" using half_sum_between [of lo hi "int (length a)"] True less.prems by auto
    then have "aget (a @ b) ?m = aget a ?m" using less.prems by (auto simp: aget_def nth_append)
    moreover have "lower_bound (a @ b) key (?m + 1) hi = lower_bound a key (?m + 1) hi"
      by (rule less.hyps) (use m less.prems in auto)
    moreover have "lower_bound (a @ b) key lo ?m = lower_bound a key lo ?m"
      by (rule less.hyps) (use m less.prems in auto)
    ultimately show ?thesis
      using lower_bound.simps [of "a @ b" key lo hi] lower_bound.simps [of a key lo hi] True by (simp cong: if_cong)
  qed
qed

lemma map_lb_ok:
  assumes inv: "smap_inv m"
  obtains l r where "elems m = l @ r" "map_lb m key = Some (int (length l))"
    "\<forall>x\<in>set l. fst x < key" "\<forall>x\<in>set r. key \<le> fst x"
proof -
  define E where "E = elems m"
  let ?ks = "map fst E"
  have n: "length E = nat (slen m)" "length ?ks \<le> 2 ^ 30" "0 \<le> slen m" using inv by (auto simp: smap_inv_def E_def)
  have "sorted ?ks" using inv strict_sorted_imp_sorted by (auto simp: smap_inv_def E_def)
  then obtain i where i: "lower_bound ?ks key 0 (int (length ?ks)) = Some i" "0 \<le> i" "i \<le> int (length ?ks)"
    "\<forall>k. 0 \<le> k \<and> k < i \<longrightarrow> at ?ks k < key" "\<forall>k. i \<le> k \<and> k < int (length ?ks) \<longrightarrow> key \<le> at ?ks k"
    using stl_lower_bound_correct [OF _ n(2), of key] unfolding stl_lower_bound_def by blast
  have "map fst (sdata m) = ?ks @ map fst (drop (nat (slen m)) (sdata m))" unfolding E_def by (metis append_take_drop_id map_append)
  then have "map_lb m key = Some i"
    using i(1) lower_bound_prefix [of 0 "slen m" ?ks _ key] n by (simp add: map_lb_def)
  moreover have "fst x < key" if "x \<in> set (take (nat i) E)" for x
  proof -
    obtain k where "k < nat i" "k < length E" "x = E ! k" using \<open>x \<in> _\<close> by (auto simp: in_set_conv_nth)
    then show ?thesis using i(4) [rule_format, of "int k"] by simp
  qed
  moreover have "key \<le> fst x" if "x \<in> set (drop (nat i) E)" for x
  proof -
    obtain k where "k < length E - nat i" "x = E ! (nat i + k)" using \<open>x \<in> _\<close> by (auto simp: in_set_conv_nth)
    then show ?thesis using i(2) i(5) [rule_format, of "i + int k"] by (simp add: nat_add_distrib)
  qed
  ultimately show ?thesis
    using that [of "take (nat i) E" "drop (nat i) E"] i(2,3) by (simp add: E_def [symmetric])
qed

text \<open>The array after the search: the smaller keys, the others, and the unused elements.\<close>

lemma map_parts:
  assumes inv: "smap_inv m"
  obtains l r post where "sdata m = l @ r @ post" "elems m = l @ r" "slen m = int (length l) + int (length r)"
    "scap m = slen m + int (length post)" "map_lb m key = Some (int (length l))"
    "\<forall>x\<in>set l. fst x < key" "\<forall>x\<in>set r. key \<le> fst x" "sorted_wrt (<) (map fst (l @ r))"
    "map_hit m key (int (length l)) = Some (r \<noteq> [] \<and> fst (hd r) = key)"
    "smap_abs m key = (if r \<noteq> [] \<and> fst (hd r) = key then Some (snd (hd r)) else None)"
proof -
  obtain l r where lr: "elems m = l @ r" "map_lb m key = Some (int (length l))"
    "\<forall>x\<in>set l. fst x < key" "\<forall>x\<in>set r. key \<le> fst x" by (rule map_lb_ok [OF inv])
  define post where "post = drop (nat (slen m)) (sdata m)"
  have d: "sdata m = l @ r @ post" using lr(1) append_take_drop_id [of "nat (slen m)" "sdata m"] by (simp add: post_def)
  have n: "slen m = int (length l) + int (length r)" "scap m = slen m + int (length post)"
    using arg_cong [OF lr(1), of length] inv d by (auto simp: smap_inv_def)
  have s: "sorted_wrt (<) (map fst (l @ r))" using inv lr(1) by (simp add: smap_inv_def)
  have l: "map_of (l @ r) key = map_of r key"
    using lr(3) by (induction l) (auto simp: less_le)
  show ?thesis
  proof (cases r)
    case Nil
    then show ?thesis using that [OF d lr(1) n lr(2-4) s] l lr(1) n by (simp add: map_hit_def smap_abs_def)
  next
    case (Cons x r')
    have "fst x \<noteq> key \<Longrightarrow> key \<notin> fst ` set r'" using lr(4) s Cons by (auto simp: sorted_wrt_append)
    then have "map_of r key = (if fst x = key then Some (snd x) else None)"
      using Cons by (cases x) (auto simp: map_of_eq_None_iff)
    moreover have "map_hit m key (int (length l)) = Some (fst x = key)"
      using Cons d n lr(4) by (auto simp: map_hit_def)
    ultimately show ?thesis using that [OF d lr(1) n lr(2-4) s] l lr(1) Cons by (simp add: smap_abs_def)
  qed
qed

section \<open>The operations\<close>

lemma stl_map_get_ok:
  assumes "smap_inv m"
  shows "stl_map_get m key = Some (smap_abs m key)"
proof -
  obtain l r post where p: "sdata m = l @ r @ post" "map_lb m key = Some (int (length l))"
    "map_hit m key (int (length l)) = Some (r \<noteq> [] \<and> fst (hd r) = key)"
    "smap_abs m key = (if r \<noteq> [] \<and> fst (hd r) = key then Some (snd (hd r)) else None)"
    by (rule map_parts [OF assms])
  then show ?thesis by (cases r) (auto simp: stl_map_get_def)
qed

lemma stl_map_contains_ok: "smap_inv m \<Longrightarrow> stl_map_contains m key = Some (smap_abs m key \<noteq> None)"
  by (erule map_parts [of m key]) (simp add: stl_map_contains_def)

lemma stl_map_getor_ok:
  assumes "smap_inv m"
  shows "stl_map_getor m key dflt = Some (case smap_abs m key of Some v \<Rightarrow> v | None \<Rightarrow> dflt)"
proof -
  obtain l r post where p: "sdata m = l @ r @ post" "map_lb m key = Some (int (length l))"
    "map_hit m key (int (length l)) = Some (r \<noteq> [] \<and> fst (hd r) = key)"
    "smap_abs m key = (if r \<noteq> [] \<and> fst (hd r) = key then Some (snd (hd r)) else None)"
    by (rule map_parts [OF assms])
  then show ?thesis by (cases r) (auto simp: stl_map_getor_def)
qed

text \<open>An array of the arena has the length that was asked for, which the counts of 31 bits bound.\<close>

definition gives_arrays :: "(int \<Rightarrow> 'a list option) \<Rightarrow> bool" where
  "gives_arrays alloc \<longleftrightarrow> (\<forall>n d. alloc n = Some d \<longrightarrow> int (length d) = n \<and> n \<le> 2 ^ 30)"

text \<open>Some array is refused that a map of \<open>n\<close> elements may ask for.\<close>

definition no_array :: "(int \<Rightarrow> 'a list option) \<Rightarrow> nat \<Rightarrow> bool" where
  "no_array alloc n \<longleftrightarrow> (\<exists>k. 0 < k \<and> k \<le> 4 + 2 * int n \<and> alloc k = None)"

lemma map_grow_ok:
  assumes a: "gives_arrays alloc" and inv: "smap_inv m"
  shows "(map_grow alloc m = Some None \<and> no_array alloc (nat (slen m))) \<or>
    (\<exists>m'. map_grow alloc m = Some (Some m') \<and> smap_inv m' \<and> elems m' = elems m \<and> slen m' = slen m \<and> slen m < scap m')"
proof (cases "slen m \<ge> scap m")
  case False
  then show ?thesis using inv by (auto simp: map_grow_def)
next
  case True
  define nc where "nc = (if scap m \<noteq> 0 then scap m * 2 else 4)"
  show ?thesis
  proof (cases "alloc nc")
    case None
    then have "map_grow alloc m = Some None" using True by (simp add: map_grow_def nc_def)
    moreover have "0 < nc" "nc \<le> 4 + 2 * int (nat (slen m))" using inv True by (auto simp: nc_def smap_inv_def)
    ultimately show ?thesis using None by (auto simp: no_array_def)
  next
    case (Some nd)
    have n: "int (length nd) = nc" "nc \<le> 2 ^ 30" using a Some by (auto simp: gives_arrays_def)
    have e: "elems m = sdata m" "slen m = int (length (sdata m))" "slen m < nc" "0 \<le> scap m"
      using True inv by (auto simp: smap_inv_def nc_def)
    have "copy_elems nd (sdata m) 0 (slen m) = Some (sdata m @ drop (length (sdata m)) nd)"
      using copy_elems_ok [of "sdata m" nd "[]" "[]"] e n by simp
    then have "map_grow alloc m = Some (Some (m\<lparr>sdata := sdata m @ drop (length (sdata m)) nd, scap := nc\<rparr>))"
      using True Some by (simp add: map_grow_def nc_def [symmetric])
    then show ?thesis using inv e n by (auto simp: smap_inv_def)
  qed
qed

text \<open>Writing a new pair where the search stopped.\<close>

lemma map_insert_ok:
  assumes d: "sdata m = l @ r @ y # post" and n: "slen m = int (length l) + int (length r)"
  shows "\<exists>m'. map_insert m (int (length l)) key v = Some m' \<and> sdata m' = l @ (key, v) # r @ post \<and>
    slen m' = slen m + 1 \<and> scap m' = scap m"
proof -
  obtain x where "shift_up (sdata m) (slen m) (int (length l)) = Some (l @ x # r @ post)"
    using shift_up_ok [OF d refl n] by blast
  then show ?thesis by (auto simp: map_insert_def)
qed

lemma map_of_insert:
  assumes "\<forall>x\<in>set l. fst x < (key::'k::linorder)"
  shows "map_of (l @ (key, v) # r) = (map_of (l @ r))(key \<mapsto> v)"
  using assms by (induction l) (auto simp: fun_eq_iff)

lemma map_of_replace:
  assumes "\<forall>x\<in>set l. fst x < (key::'k::linorder)"
  shows "map_of (l @ (key, v) # r) = (map_of (l @ (key, w) # r))(key \<mapsto> v)"
  using map_of_insert [OF assms] by simp

lemma map_of_delete:
  assumes "sorted_wrt (<) (map fst (l @ (key, v) # r))"
  shows "map_of (l @ r) = (map_of (l @ (key, v) # r))((key::'k::linorder) := None)"
proof -
  have "key \<notin> fst ` set l" "key \<notin> fst ` set r" using assms by (auto simp: sorted_wrt_append)
  then have "map_of (l @ r) key = None" by (auto simp: map_of_eq_None_iff)
  moreover have "map_of (l @ (key, v) # r) = (map_of (l @ r))(key \<mapsto> v)"
    using assms by (intro map_of_insert) (auto simp: sorted_wrt_append)
  ultimately show ?thesis by (simp add: fun_upd_idem)
qed

text \<open>Both operations that insert do so behind a search that misses.\<close>

lemma map_add:
  assumes a: "gives_arrays alloc" and inv: "smap_inv m" and lb: "map_lb m key = Some lo" and miss: "map_hit m key lo = Some False"
  shows "map_grow alloc m = Some None \<and> no_array alloc (nat (slen m)) \<or>
    (\<exists>g m'. map_grow alloc m = Some (Some g) \<and> map_insert g lo key v = Some m' \<and> smap_inv m' \<and>
       smap_abs m' = (smap_abs m)(key \<mapsto> v) \<and> aget (sdata m') lo = Some (key, v) \<and> slen m' = slen m + 1)"
proof -
  obtain l r post where p: "elems m = l @ r" "slen m = int (length l) + int (length r)" "map_lb m key = Some (int (length l))"
    "\<forall>x\<in>set l. fst x < key" "\<forall>x\<in>set r. key \<le> fst x" "sorted_wrt (<) (map fst (l @ r))"
    "map_hit m key (int (length l)) = Some (r \<noteq> [] \<and> fst (hd r) = key)"
    by (rule map_parts [OF inv])
  have lo: "lo = int (length l)" and h: "r \<noteq> [] \<Longrightarrow> fst (hd r) \<noteq> key" using lb miss p by auto
  have r: "\<forall>x\<in>set r. key < fst x"
  proof (cases r)
    case (Cons x r')
    then have "key < fst x" "\<forall>y\<in>set r'. fst x < fst y" using h p(5,6) by (auto simp: sorted_wrt_append less_le)
    then show ?thesis using Cons by auto
  qed simp
  show ?thesis
  proof (cases "map_grow alloc m = Some None")
    case False
    then obtain g where g: "map_grow alloc m = Some (Some g)" "smap_inv g" "elems g = l @ r" "slen g = slen m" "slen m < scap g"
      using map_grow_ok [OF a inv] p(1) by auto
    obtain y post' where "drop (nat (slen g)) (sdata g) = y # post'"
      using g(2,4,5) by (cases "drop (nat (slen g)) (sdata g)") (auto simp: smap_inv_def)
    then have d: "sdata g = l @ r @ y # post'" using g(3) append_take_drop_id [of "nat (slen g)" "sdata g"] by simp
    obtain m' where m': "map_insert g lo key v = Some m'" "sdata m' = l @ (key, v) # r @ post'" "slen m' = slen g + 1" "scap m' = scap g"
      using map_insert_ok [OF d, of key v] g(4) p(2) lo by auto
    have e: "elems m' = l @ (key, v) # r" using m'(2,3) g(4) p(2) by (simp add: nat_add_distrib)
    have "sorted_wrt (<) (map fst (l @ (key, v) # r))" using p(4,6) r by (auto simp: sorted_wrt_append)
    then have "smap_inv m'" using g(2,4,5) m'(2-4) d e by (simp add: smap_inv_def)
    moreover have "smap_abs m' = (smap_abs m)(key \<mapsto> v)"
      using map_of_insert [OF p(4)] e p(1) by (simp add: smap_abs_def)
    ultimately show ?thesis using g(1,4) m'(1-3) lo by auto
  next
    case True
    then show ?thesis using map_grow_ok [OF a inv] by auto
  qed
qed

lemma stl_map_set_ok:
  assumes a: "gives_arrays alloc" and inv: "smap_inv m"
  shows "\<exists>r m'. stl_map_set alloc m key v = Some (r, m') \<and> smap_inv m' \<and> nat (slen m') \<le> Suc (nat (slen m)) \<and>
    (r = 0 \<and> smap_abs m' = (smap_abs m)(key \<mapsto> v) \<or> r = -1 \<and> smap_abs m' = smap_abs m \<and> no_array alloc (nat (slen m)))"
proof -
  obtain l r post where p: "sdata m = l @ r @ post" "elems m = l @ r" "slen m = int (length l) + int (length r)"
    "map_lb m key = Some (int (length l))" "\<forall>x\<in>set l. fst x < key" "sorted_wrt (<) (map fst (l @ r))"
    "map_hit m key (int (length l)) = Some (r \<noteq> [] \<and> fst (hd r) = key)"
    by (rule map_parts [OF inv])
  show ?thesis
  proof (cases "r \<noteq> [] \<and> fst (hd r) = key")
    case True
    then obtain w r' where r: "r = (key, w) # r'" by (cases r) auto
    have "stl_map_set alloc m key v = Some (0, m\<lparr>sdata := l @ (key, v) # r' @ post\<rparr>)"
      using p r by (simp add: stl_map_set_def)
    moreover have "take (nat (slen m)) (l @ (key, v) # r' @ post) = l @ (key, v) # r'"
      using p(3) r by (simp add: nat_add_distrib)
    ultimately show ?thesis
      using inv p(1,2,5,6) r map_of_replace [of l key v r' w] by (auto simp: smap_inv_def smap_abs_def)
  next
    case False
    then have miss: "map_hit m key (int (length l)) = Some False" using p(7) by simp
    show ?thesis
      using map_add [OF a inv p(4) miss, of v] inv p(4) miss by (auto simp: stl_map_set_def)
  qed
qed

text \<open>\<open>operator[]\<close> of a missing key inserts it with the 0 value, and gives the element of the key.\<close>

lemma stl_map_at_ok:
  assumes a: "gives_arrays alloc" and inv: "smap_inv m"
  shows "stl_map_at alloc zero m key = Some (None, m) \<and> smap_abs m key = None \<or>
    (\<exists>i v m'. stl_map_at alloc zero m key = Some (Some i, m') \<and> smap_inv m' \<and> aget (sdata m') i = Some (key, v) \<and>
       v = (case smap_abs m key of Some w \<Rightarrow> w | None \<Rightarrow> zero) \<and> smap_abs m' = (smap_abs m)(key \<mapsto> v))"
proof -
  obtain l r post where p: "sdata m = l @ r @ post" "map_lb m key = Some (int (length l))"
    "map_hit m key (int (length l)) = Some (r \<noteq> [] \<and> fst (hd r) = key)"
    "smap_abs m key = (if r \<noteq> [] \<and> fst (hd r) = key then Some (snd (hd r)) else None)"
    by (rule map_parts [OF inv])
  show ?thesis
  proof (cases "r \<noteq> [] \<and> fst (hd r) = key")
    case True
    then obtain w r' where r: "r = (key, w) # r'" by (cases r) auto
    have "smap_abs m = (smap_abs m)(key \<mapsto> w)" using p(4) r by (auto simp: fun_eq_iff)
    then show ?thesis using p r inv by (auto simp: stl_map_at_def)
  next
    case False
    then have miss: "map_hit m key (int (length l)) = Some False" using p(3) by simp
    show ?thesis using map_add [OF a inv p(2) miss, of zero] p(2,4) False miss by (auto simp: stl_map_at_def)
  qed
qed

lemma stl_map_erase_ok:
  assumes inv: "smap_inv m"
  shows "\<exists>m'. stl_map_erase m key = Some (if smap_abs m key = None then 0 else 1, m') \<and> smap_inv m' \<and> nat (slen m') \<le> nat (slen m) \<and>
    smap_abs m' = (smap_abs m)(key := None)"
proof -
  obtain l r post where p: "sdata m = l @ r @ post" "elems m = l @ r" "slen m = int (length l) + int (length r)"
    "map_lb m key = Some (int (length l))" "sorted_wrt (<) (map fst (l @ r))"
    "map_hit m key (int (length l)) = Some (r \<noteq> [] \<and> fst (hd r) = key)"
    "smap_abs m key = (if r \<noteq> [] \<and> fst (hd r) = key then Some (snd (hd r)) else None)"
    by (rule map_parts [OF inv])
  show ?thesis
  proof (cases "r \<noteq> [] \<and> fst (hd r) = key")
    case False
    have "smap_abs m key = None" using p(7) False by simp
    then have "(smap_abs m)(key := None) = smap_abs m" by (rule fun_upd_idem)
    then show ?thesis using p(4,6) False inv \<open>smap_abs m key = None\<close> by (auto simp: stl_map_erase_def)
  next
    case True
    then obtain w r' where r: "r = (key, w) # r'" by (cases r) auto
    obtain y where "shift_down (sdata m) (int (length l)) (slen m) = Some (l @ r' @ y # post)"
      using shift_down_ok [of "sdata m" l "(key, w)" r' post "int (length l)" "slen m"] p(1,3) r by auto
    then have e: "stl_map_erase m key = Some (1, m\<lparr>sdata := l @ r' @ y # post, slen := slen m - 1\<rparr>)"
      using p(4,6) r by (simp add: stl_map_erase_def)
    have t: "take (nat (slen m - 1)) (l @ r' @ y # post) = l @ r'" using p(3) r by (simp add: nat_add_distrib)
    have s: "sorted_wrt (<) (map fst (l @ r'))" using p(5) r by (auto simp: sorted_wrt_append)
    have "smap_inv (m\<lparr>sdata := l @ r' @ y # post, slen := slen m - 1\<rparr>)"
      using inv p(1,3) r t s by (simp add: smap_inv_def)
    moreover have "map_of (l @ r') = (smap_abs m)(key := None)"
      using map_of_delete [of l key w r'] p(2,5) r by (simp add: smap_abs_def)
    ultimately show ?thesis using e t p(7) r by (simp add: smap_abs_def)
  qed
qed

section \<open>The sorted array keeps the contract\<close>

interpretation sorted_map: assoc "\<lambda>m. gives_arrays alloc \<and> smap_inv m" smap_abs stl_map_get "stl_map_set alloc" stl_map_erase
    "\<lambda>m. nat (slen m)" "no_array alloc"
  for alloc :: "int \<Rightarrow> ('k::linorder \<times> 'v) list option"
proof
  fix m :: "('k, 'v) smap" and k :: 'k and v :: 'v assume "gives_arrays alloc \<and> smap_inv m"
  then have m: "gives_arrays alloc" "smap_inv m" by simp_all
  show "stl_map_get m k = Some (smap_abs m k)" by (rule stl_map_get_ok [OF m(2)])
  show "\<exists>r m'. stl_map_set alloc m k v = Some (r, m') \<and> (gives_arrays alloc \<and> smap_inv m') \<and> nat (slen m') \<le> Suc (nat (slen m)) \<and>
      (r = 0 \<and> smap_abs m' = (smap_abs m)(k \<mapsto> v) \<or> r = -1 \<and> smap_abs m' = smap_abs m \<and> no_array alloc (nat (slen m)))"
    using stl_map_set_ok [OF m] m(1) by simp
  show "\<exists>m'. stl_map_erase m k = Some (if smap_abs m k = None then 0 else 1, m') \<and> (gives_arrays alloc \<and> smap_inv m') \<and>
      nat (slen m') \<le> nat (slen m) \<and>
      smap_abs m' = (smap_abs m)(k := None)"
    using stl_map_erase_ok [OF m(2)] m(1) by simp
next
  show "no_array alloc i \<Longrightarrow> i \<le> j \<Longrightarrow> no_array alloc j" for i j by (force simp: no_array_def)
qed

lemma stl_map_refines:
  assumes "gives_arrays alloc"
  shows "\<exists>rs. run_calls stl_map_get (stl_map_set alloc) stl_map_erase stl_map_init cs = Some rs \<and> map_answers Map.empty cs rs \<and>
    (Code (-1) \<in> set rs \<longrightarrow> no_array alloc (length cs))"
  using sorted_map.run_answers [of alloc stl_map_init cs] assms by simp

end
