(* ===== verification/Stl_Umap.thy ===== *)
theory Stl_Umap
  imports Stl_Map
begin

unbundle bit_operations_syntax

text \<open>
  The hash map of the container library (\<open>lib/stl/unordered_map.h\<close>): open addressing with linear probing in a table
  of a power of 2 slots. The bytes of a key are the argument \<open>kb\<close>, the arena of \<open>stl_arena_alloc\<close> is the argument
  \<open>alloc\<close>, which gives an array with any contents for a number of slots, or nothing. An operation whose result is \<open>None\<close>
  would read or write outside of the table.
\<close>

section \<open>The table\<close>

text \<open>The state of a slot is 0 when it is free, 1 when it holds a key, and 2 when its key was erased.\<close>

record ('k, 'v) uslot =
  ustate :: int
  ukey :: 'k
  uval :: 'v

record ('k, 'v) umap =
  uslots :: "('k, 'v) uslot list"
  ulen :: int
  utomb :: int
  unb :: nat

definition stl_uwhash :: "8 word list \<Rightarrow> u32" where
  "stl_uwhash p = foldl (\<lambda>h b. (h XOR ucast b) * 16777619) 2166136261 p"

definition stl_unordered_map_init :: "('k, 'v) umap" where
  "stl_unordered_map_init = \<lparr>uslots = [], ulen = 0, utomb = 0, unb = 0\<rparr>"

definition stl_unordered_map_clear :: "('k, 'v) umap \<Rightarrow> ('k, 'v) umap" where
  "stl_unordered_map_clear m = m\<lparr>uslots := map (\<lambda>s. s\<lparr>ustate := 0\<rparr>) (uslots m), ulen := 0, utomb := 0\<rparr>"

section \<open>Probing\<close>

definition umap_home :: "('k \<Rightarrow> 8 word list) \<Rightarrow> nat \<Rightarrow> 'k \<Rightarrow> nat" where
  "umap_home kb nb k = unat (stl_uwhash (kb k) AND (of_nat nb - 1))"

text \<open>The slot with the key, the first erased slot on the way, and the free slot that ends the search; \<open>None\<close>
  is the index -1.\<close>

function umap_span ::
    "('k, 'v) uslot list \<Rightarrow> nat \<Rightarrow> 'k \<Rightarrow> nat \<Rightarrow> nat \<Rightarrow> nat option \<Rightarrow> (nat option \<times> nat option \<times> nat option) option" where
  "umap_span s nb k h p ft =
     (if p < nb
      then let i = (h + p) AND (nb - 1) in do {
        e \<leftarrow> aget s (int i);
        if ustate e = 0 then Some (None, ft, Some i)
        else if ustate e = 1 \<and> ukey e = k then Some (Some i, ft, None)
        else umap_span s nb k h (p + 1) (if ustate e = 2 \<and> ft = None then Some i else ft)
      }
      else Some (None, ft, None))"
  by pat_completeness auto
termination by (relation "measure (\<lambda>(s, nb, k, h, p, ft). nb - p)") auto

declare umap_span.simps [simp del]

definition umap_find ::
    "('k \<Rightarrow> 8 word list) \<Rightarrow> ('k, 'v) umap \<Rightarrow> 'k \<Rightarrow> (nat option \<times> nat option \<times> nat option) option" where
  "umap_find kb m k = umap_span (uslots m) (unb m) k (umap_home kb (unb m) k) 0 None"

definition stl_unordered_map_get :: "('k \<Rightarrow> 8 word list) \<Rightarrow> ('k, 'v) umap \<Rightarrow> 'k \<Rightarrow> 'v option option" where
  "stl_unordered_map_get kb m k =
     (if unb m = 0 then Some None
      else do {
        (fo, _, _) \<leftarrow> umap_find kb m k;
        case fo of Some i \<Rightarrow> do { e \<leftarrow> aget (uslots m) (int i); Some (Some (uval e)) } | None \<Rightarrow> Some None
      })"

definition stl_unordered_map_contains :: "('k \<Rightarrow> 8 word list) \<Rightarrow> ('k, 'v) umap \<Rightarrow> 'k \<Rightarrow> bool option" where
  "stl_unordered_map_contains kb m k =
     (if unb m = 0 then Some False else do { (fo, _, _) \<leftarrow> umap_find kb m k; Some (fo \<noteq> None) })"

definition stl_unordered_map_getor :: "('k \<Rightarrow> 8 word list) \<Rightarrow> ('k, 'v) umap \<Rightarrow> 'k \<Rightarrow> 'v \<Rightarrow> 'v option" where
  "stl_unordered_map_getor kb m k dflt =
     (if unb m = 0 then Some dflt
      else do {
        (fo, _, _) \<leftarrow> umap_find kb m k;
        case fo of Some i \<Rightarrow> do { e \<leftarrow> aget (uslots m) (int i); Some (uval e) } | None \<Rightarrow> Some dflt
      })"

section \<open>Growing and writing\<close>

text \<open>Each key goes to the first free slot of the new table; a full table would lose it.\<close>

function umap_place :: "('k, 'v) uslot list \<Rightarrow> nat \<Rightarrow> nat \<Rightarrow> nat \<Rightarrow> ('k, 'v) uslot \<Rightarrow> ('k, 'v) uslot list option" where
  "umap_place s nb h p e =
     (if p < nb
      then let j = (h + p) AND (nb - 1) in do {
        x \<leftarrow> aget s (int j);
        if ustate x = 0 then aput s (int j) e else umap_place s nb h (p + 1) e
      }
      else Some s)"
  by pat_completeness auto
termination by (relation "measure (\<lambda>(s, nb, h, p, e). nb - p)") auto

declare umap_place.simps [simp del]

fun umap_fill :: "('k \<Rightarrow> 8 word list) \<Rightarrow> nat \<Rightarrow> ('k, 'v) uslot list \<Rightarrow> ('k, 'v) uslot list \<Rightarrow> ('k, 'v) uslot list option" where
  "umap_fill kb nb [] s = Some s"
| "umap_fill kb nb (e # es) s =
     (if ustate e = 1 then do { s \<leftarrow> umap_place s nb (umap_home kb nb (ukey e)) 0 e; umap_fill kb nb es s }
      else umap_fill kb nb es s)"

text \<open>The inner \<open>None\<close> says that there is no memory.\<close>

definition umap_rehash ::
    "('k \<Rightarrow> 8 word list) \<Rightarrow> (nat \<Rightarrow> ('k, 'v) uslot list option) \<Rightarrow> ('k, 'v) umap \<Rightarrow> ('k, 'v) umap option option" where
  "umap_rehash kb alloc m =
     (let nb2 = (if unb m \<noteq> 0 then unb m * 2 else 16) in
      case alloc nb2 of
        None \<Rightarrow> Some None
      | Some s2 \<Rightarrow> do {
          s2 \<leftarrow> umap_fill kb nb2 (uslots m) (map (\<lambda>s. s\<lparr>ustate := 0\<rparr>) s2);
          Some (Some (m\<lparr>uslots := s2, unb := nb2, utomb := 0\<rparr>))
        })"

definition umap_room :: "('k, 'v) umap \<Rightarrow> bool" where
  "umap_room m \<longleftrightarrow> unb m = 0 \<or> ulen m + utomb m \<ge> int (unb m) - int (unb m) div 4"

text \<open>The code behind the search, for a new value or for the 0 value. No slot to write to is a write in front of the table.\<close>

definition umap_insert :: "('k, 'v) umap \<Rightarrow> nat option \<Rightarrow> nat option \<Rightarrow> 'k \<Rightarrow> 'v \<Rightarrow> (nat \<times> ('k, 'v) umap) option" where
  "umap_insert m ft et k v =
     (case (if ft \<noteq> None then ft else et) of
        None \<Rightarrow> None
      | Some i \<Rightarrow> do {
          s \<leftarrow> aput (uslots m) (int i) \<lparr>ustate = 1, ukey = k, uval = v\<rparr>;
          Some (i, m\<lparr>uslots := s, utomb := (if ft \<noteq> None then utomb m - 1 else utomb m), ulen := ulen m + 1\<rparr>)
        })"

text \<open>Room for one more key.\<close>

definition umap_grow ::
    "('k \<Rightarrow> 8 word list) \<Rightarrow> (nat \<Rightarrow> ('k, 'v) uslot list option) \<Rightarrow> ('k, 'v) umap \<Rightarrow> ('k, 'v) umap option option" where
  "umap_grow kb alloc m = (if umap_room m then umap_rehash kb alloc m else Some (Some m))"

definition stl_unordered_map_set ::
    "('k \<Rightarrow> 8 word list) \<Rightarrow> (nat \<Rightarrow> ('k, 'v) uslot list option) \<Rightarrow> ('k, 'v) umap \<Rightarrow> 'k \<Rightarrow> 'v \<Rightarrow> (int \<times> ('k, 'v) umap) option" where
  "stl_unordered_map_set kb alloc m k v = do {
     g \<leftarrow> umap_grow kb alloc m;
     case g of
       None \<Rightarrow> Some (-1, m)
     | Some m \<Rightarrow> do {
         (fo, ft, et) \<leftarrow> umap_find kb m k;
         case fo of
           Some i \<Rightarrow> do {
             e \<leftarrow> aget (uslots m) (int i);
             s \<leftarrow> aput (uslots m) (int i) (e\<lparr>uval := v\<rparr>);
             Some (0, m\<lparr>uslots := s\<rparr>)
           }
         | None \<Rightarrow> do { (i, m) \<leftarrow> umap_insert m ft et k v; Some (0, m) }
       }
   }"

text \<open>The result is the index of the slot whose value the caller may write, \<open>None\<close> for the null pointer.\<close>

definition stl_unordered_map_at ::
    "('k \<Rightarrow> 8 word list) \<Rightarrow> (nat \<Rightarrow> ('k, 'v) uslot list option) \<Rightarrow> 'v \<Rightarrow> ('k, 'v) umap \<Rightarrow> 'k \<Rightarrow>
     (nat option \<times> ('k, 'v) umap) option" where
  "stl_unordered_map_at kb alloc zero m k = do {
     g \<leftarrow> umap_grow kb alloc m;
     case g of
       None \<Rightarrow> Some (None, m)
     | Some m \<Rightarrow> do {
         (fo, ft, et) \<leftarrow> umap_find kb m k;
         case fo of
           Some i \<Rightarrow> Some (Some i, m)
         | None \<Rightarrow> do { (i, m) \<leftarrow> umap_insert m ft et k zero; Some (Some i, m) }
       }
   }"

definition stl_unordered_map_erase :: "('k \<Rightarrow> 8 word list) \<Rightarrow> ('k, 'v) umap \<Rightarrow> 'k \<Rightarrow> (int \<times> ('k, 'v) umap) option" where
  "stl_unordered_map_erase kb m k =
     (if unb m = 0 then Some (0, m)
      else do {
        (fo, _, _) \<leftarrow> umap_find kb m k;
        case fo of
          Some i \<Rightarrow> do {
            e \<leftarrow> aget (uslots m) (int i);
            s \<leftarrow> aput (uslots m) (int i) (e\<lparr>ustate := 2\<rparr>);
            Some (1, m\<lparr>uslots := s, ulen := ulen m - 1, utomb := utomb m + 1\<rparr>)
          }
        | None \<Rightarrow> Some (0, m)
      })"

text \<open>The callback changes the caller's data, and a result other than 0 ends the walk.\<close>

fun umap_walk :: "('k \<Rightarrow> 'v \<Rightarrow> 's \<Rightarrow> int \<times> 's) \<Rightarrow> ('k, 'v) uslot list \<Rightarrow> int \<Rightarrow> 's \<Rightarrow> int \<times> 's" where
  "umap_walk cb [] n ud = (n, ud)"
| "umap_walk cb (e # es) n ud =
     (if ustate e = 1
      then let (r, ud) = cb (ukey e) (uval e) ud in if r \<noteq> 0 then (n + 1, ud) else umap_walk cb es (n + 1) ud
      else umap_walk cb es n ud)"

definition stl_unordered_map_each :: "('k \<Rightarrow> 'v \<Rightarrow> 's \<Rightarrow> int \<times> 's) \<Rightarrow> ('k, 'v) umap \<Rightarrow> 's \<Rightarrow> int \<times> 's" where
  "stl_unordered_map_each cb m ud = umap_walk cb (uslots m) 0 ud"

section \<open>The invariant\<close>

definition holds :: "('k, 'v) uslot list \<Rightarrow> 'k \<Rightarrow> nat \<Rightarrow> bool" where
  "holds s k i \<longleftrightarrow> i < length s \<and> ustate (s ! i) = 1 \<and> ukey (s ! i) = k"

text \<open>Slot \<open>i\<close> is reached from the home \<open>h\<close> without passing a free slot.\<close>

definition chain :: "('k, 'v) uslot list \<Rightarrow> nat \<Rightarrow> nat \<Rightarrow> bool" where
  "chain s h i \<longleftrightarrow> (\<exists>p<length s. i = (h + p) mod length s \<and> (\<forall>q<p. ustate (s ! ((h + q) mod length s)) \<noteq> 0))"

definition table_ok :: "('k \<Rightarrow> 8 word list) \<Rightarrow> ('k, 'v) uslot list \<Rightarrow> bool" where
  "table_ok kb s \<longleftrightarrow> (\<forall>i<length s. ustate (s ! i) \<in> {0, 1, 2}) \<and>
     (\<forall>k i j. holds s k i \<and> holds s k j \<longrightarrow> i = j) \<and>
     (\<forall>k i. holds s k i \<longrightarrow> chain s (umap_home kb (length s) k) i)"

definition tally :: "int \<Rightarrow> ('k, 'v) uslot list \<Rightarrow> int" where
  "tally st s = int (length (filter (\<lambda>e. ustate e = st) s))"

definition umap_inv :: "('k \<Rightarrow> 8 word list) \<Rightarrow> ('k, 'v) umap \<Rightarrow> bool" where
  "umap_inv kb m \<longleftrightarrow> length (uslots m) = unb m \<and> (unb m = 0 \<or> (\<exists>j\<ge>4. j \<le> 30 \<and> unb m = 2 ^ j)) \<and>
     table_ok kb (uslots m) \<and> ulen m = tally 1 (uslots m) \<and> utomb m = tally 2 (uslots m) \<and>
     (unb m \<noteq> 0 \<longrightarrow> ulen m + utomb m < int (unb m))"

definition slots_abs :: "('k, 'v) uslot list \<Rightarrow> 'k \<Rightarrow> 'v option" where
  "slots_abs s k = map_option uval (List.find (\<lambda>e. ustate e = 1 \<and> ukey e = k) s)"

definition umap_abs :: "('k, 'v) umap \<Rightarrow> 'k \<Rightarrow> 'v option" where
  "umap_abs m = slots_abs (uslots m)"

lemma umap_inv_init [simp]: "umap_inv kb stl_unordered_map_init"
  by (simp add: umap_inv_def stl_unordered_map_init_def table_ok_def holds_def tally_def)

lemma umap_abs_init [simp]: "umap_abs stl_unordered_map_init = Map.empty"
  by (simp add: umap_abs_def stl_unordered_map_init_def slots_abs_def fun_eq_iff)

lemma slots_abs_Some:
  assumes "table_ok kb s"
  shows "slots_abs s k = Some v \<longleftrightarrow> (\<exists>i. holds s k i \<and> uval (s ! i) = v)"
proof
  assume "slots_abs s k = Some v"
  then show "\<exists>i. holds s k i \<and> uval (s ! i) = v" by (auto simp: slots_abs_def find_Some_iff holds_def)
next
  assume "\<exists>i. holds s k i \<and> uval (s ! i) = v"
  then obtain i where i: "holds s k i" "uval (s ! i) = v" by blast
  have "\<forall>j<i. \<not> (ustate (s ! j) = 1 \<and> ukey (s ! j) = k)"
    using assms i(1) unfolding table_ok_def holds_def by (metis order.strict_trans order_less_irrefl)
  then show "slots_abs s k = Some v" using i by (auto simp: slots_abs_def find_Some_iff holds_def intro!: exI [of _ "s ! i"])
qed

lemma slots_abs_None: "slots_abs s k = None \<longleftrightarrow> (\<forall>i. \<not> holds s k i)"
  by (auto simp: slots_abs_def find_None_iff holds_def in_set_conv_nth)

lemma map_eqI: "(\<And>k v. f k = Some v \<longleftrightarrow> g k = Some v) \<Longrightarrow> f = g"
  by (rule ext) (metis not_Some_eq)

lemma tally_update:
  "i < length s \<Longrightarrow> tally st (s[i := e]) = tally st s - (if ustate (s ! i) = st then 1 else 0) + (if ustate e = st then 1 else 0)"
  using arg_cong [OF id_take_nth_drop [of i s], of "\<lambda>s. length (filter (\<lambda>e. ustate e = st) s)"]
  by (simp add: tally_def upd_conv_take_nth_drop)

lemma tally_free: "tally 1 s + tally 2 s < int (length s) \<Longrightarrow> \<forall>i<length s. ustate (s ! i) \<in> {0, 1, 2} \<Longrightarrow> \<exists>i<length s. ustate (s ! i) = 0"
proof (rule ccontr)
  assume lt: "tally 1 s + tally 2 s < int (length s)" and st: "\<forall>i<length s. ustate (s ! i) \<in> {0, 1, 2}" and no: "\<not> (\<exists>i<length s. ustate (s ! i) = 0)"
  have "\<forall>e\<in>set s. ustate e = 1 \<or> ustate e = 2" using st no by (auto simp: in_set_conv_nth)
  then have "tally 1 s + tally 2 s = int (length s)" by (induction s) (auto simp: tally_def)
  then show False using lt by simp
qed

lemma holds_update: "holds (s[j := e]) k i \<longleftrightarrow> (if i = j \<and> j < length s then ustate e = 1 \<and> ukey e = k else holds s k i)"
  by (auto simp: holds_def nth_list_update)

lemma nth_upd: "xs[i := x] ! j = (if i = j \<and> i < length xs then x else xs ! j)"
  by (cases "i < length xs") (auto simp: nth_list_update list_update_beyond)

lemma chain_update: "chain s h i \<Longrightarrow> ustate e \<noteq> 0 \<Longrightarrow> chain (s[j := e]) h i"
  unfolding chain_def by (elim exE conjE, rule_tac x = p in exI) (simp add: nth_upd)

lemma index_onto: "i < n \<Longrightarrow> \<exists>p<n. (h + p) mod n = (i :: nat)"
proof -
  assume i: "i < n"
  define p where "p = (i + (n - h mod n)) mod n"
  have "(h + p) mod n = (h mod n + (i + (n - h mod n))) mod n" by (simp add: p_def mod_simps)
  also have "h mod n + (i + (n - h mod n)) = i + n" using i mod_le_divisor [of n h] by linarith
  finally show ?thesis using i by (intro exI [of _ p]) (simp add: p_def)
qed

section \<open>The search\<close>

text \<open>In a table of a power of 2 slots no index is outside of it.\<close>

lemma aget_slot: "length s = nb \<Longrightarrow> nb = 2 ^ j \<Longrightarrow> aget s (int (n AND (nb - 1))) = Some (s ! (n AND (nb - 1)))"
proof -
  assume "length s = nb" "nb = 2 ^ j"
  moreover from this have "n AND (nb - 1) < length s" using mask_index [of nb j n] by simp
  ultimately show ?thesis by (simp add: aget_def)
qed

lemma aput_slot: "length s = nb \<Longrightarrow> nb = 2 ^ j \<Longrightarrow> aput s (int (n AND (nb - 1))) e = Some (s[n AND (nb - 1) := e])"
proof -
  assume "length s = nb" "nb = 2 ^ j"
  moreover from this have "n AND (nb - 1) < length s" using mask_index [of nb j n] by simp
  ultimately show ?thesis by (simp add: aput_def)
qed

lemma umap_span_step:
  assumes "length s = nb" "nb = 2 ^ j" "p < nb"
  shows "umap_span s nb k h p ft =
    (let i = (h + p) AND (nb - 1) in
     if ustate (s ! i) = 0 then Some (None, ft, Some i)
     else if ustate (s ! i) = 1 \<and> ukey (s ! i) = k then Some (Some i, ft, None)
     else umap_span s nb k h (p + 1) (if ustate (s ! i) = 2 \<and> ft = None then Some i else ft))"
  using assms(3) by (subst umap_span.simps) (simp add: aget_slot [OF assms(1,2)] Let_def del: One_nat_def)

lemma umap_span_returns:
  assumes "length s = nb" "nb = 2 ^ j"
  shows "\<exists>fo ft' et. umap_span s nb k h p ft = Some (fo, ft', et)"
  using assms
proof (induction "nb - p" arbitrary: p ft rule: less_induct)
  case less
  show ?case
  proof (cases "p < nb")
    case True
    then show ?thesis using less.hyps [of "p + 1"] less.prems umap_span_step [OF less.prems True] by (simp add: Let_def)
  next
    case False
    then show ?thesis by (simp add: umap_span.simps)
  qed
qed

lemma umap_span_ok:
  assumes "umap_span s nb k h p ft = Some (fo, ft', et)" "p \<le> nb" "length s = nb" "nb = 2 ^ j"
  shows "\<exists>q. p \<le> q \<and> q \<le> nb \<and>
    (\<forall>r. p \<le> r \<and> r < q \<longrightarrow> ustate (s ! ((h + r) AND (nb - 1))) \<noteq> 0 \<and>
       \<not> (ustate (s ! ((h + r) AND (nb - 1))) = 1 \<and> ukey (s ! ((h + r) AND (nb - 1))) = k)) \<and>
    (q = nb \<and> fo = None \<and> et = None \<or>
     q < nb \<and> ustate (s ! ((h + q) AND (nb - 1))) = 0 \<and> fo = None \<and> et = Some ((h + q) AND (nb - 1)) \<or>
     q < nb \<and> ustate (s ! ((h + q) AND (nb - 1))) = 1 \<and> ukey (s ! ((h + q) AND (nb - 1))) = k \<and> fo = Some ((h + q) AND (nb - 1)) \<and> et = None) \<and>
    (ft' = ft \<or> (\<exists>r. p \<le> r \<and> r < q \<and> ustate (s ! ((h + r) AND (nb - 1))) = 2 \<and> ft' = Some ((h + r) AND (nb - 1))))"
  using assms
proof (induction "nb - p" arbitrary: p ft rule: less_induct)
  case (less p ft)
  note step = umap_span_step [OF less.prems(3,4)]
  let ?i = "(h + p) AND (nb - 1)"
  consider "p = nb" | "p < nb" "ustate (s ! ?i) = 0" | "p < nb" "ustate (s ! ?i) = 1" "ukey (s ! ?i) = k"
    | "p < nb" "ustate (s ! ?i) \<noteq> 0" "\<not> (ustate (s ! ?i) = 1 \<and> ukey (s ! ?i) = k)"
    using less.prems(2) by linarith
  then show ?case
  proof cases
    case 4
    let ?ft = "if ustate (s ! ?i) = 2 \<and> ft = None then Some ?i else ft"
    have "umap_span s nb k h p ft = umap_span s nb k h (p + 1) ?ft"
      unfolding step [OF 4(1)] by (simp only: Let_def 4 if_True if_False simp_thms)
    then have "umap_span s nb k h (p + 1) ?ft = Some (fo, ft', et)" using less.prems(1) by simp
    moreover have "nb - (p + 1) < nb - p" "p + 1 \<le> nb" using 4(1) by simp_all
    ultimately obtain q where
      q: "p + 1 \<le> q" "q \<le> nb" and
      no: "\<forall>r. p + 1 \<le> r \<and> r < q \<longrightarrow> ustate (s ! ((h + r) AND (nb - 1))) \<noteq> 0 \<and>
       \<not> (ustate (s ! ((h + r) AND (nb - 1))) = 1 \<and> ukey (s ! ((h + r) AND (nb - 1))) = k)" and
      stop: "q = nb \<and> fo = None \<and> et = None \<or>
     q < nb \<and> ustate (s ! ((h + q) AND (nb - 1))) = 0 \<and> fo = None \<and> et = Some ((h + q) AND (nb - 1)) \<or>
     q < nb \<and> ustate (s ! ((h + q) AND (nb - 1))) = 1 \<and> ukey (s ! ((h + q) AND (nb - 1))) = k \<and> fo = Some ((h + q) AND (nb - 1)) \<and> et = None" and
      ft: "ft' = ?ft \<or> (\<exists>r. p + 1 \<le> r \<and> r < q \<and> ustate (s ! ((h + r) AND (nb - 1))) = 2 \<and> ft' = Some ((h + r) AND (nb - 1)))"
      using less.hyps [of "p + 1" ?ft] less.prems(3,4) by blast
    have no': "\<forall>r. p \<le> r \<and> r < q \<longrightarrow> ustate (s ! ((h + r) AND (nb - 1))) \<noteq> 0 \<and>
       \<not> (ustate (s ! ((h + r) AND (nb - 1))) = 1 \<and> ukey (s ! ((h + r) AND (nb - 1))) = k)"
      using no 4(2,3) by (metis Suc_eq_plus1 le_neq_implies_less less_eq_Suc_le)
    have "ft' = ft \<or> (\<exists>r. p \<le> r \<and> r < q \<and> ustate (s ! ((h + r) AND (nb - 1))) = 2 \<and> ft' = Some ((h + r) AND (nb - 1)))"
      using ft
    proof (elim disjE exE conjE)
      assume "ft' = ?ft"
      then show ?thesis using q(1) by (auto split: if_splits)
    next
      fix r assume "p + 1 \<le> r" "r < q" "ustate (s ! ((h + r) AND (nb - 1))) = 2" "ft' = Some ((h + r) AND (nb - 1))"
      then show ?thesis by (intro disjI2 exI [of _ r]) simp
    qed
    then show ?thesis using q no' stop by (intro exI [of _ q]) auto
  next
    case 1
    then show ?thesis using less.prems(1) by (intro exI [of _ p]) (simp add: umap_span.simps)
  next
    case 2
    then show ?thesis using less.prems(1) by (intro exI [of _ p]) (simp add: step Let_def)
  next
    case 3
    then show ?thesis using less.prems(1) by (intro exI [of _ p]) (simp add: step Let_def)
  qed
qed

lemma umap_home_less: "n = 2 ^ j \<Longrightarrow> j \<le> 30 \<Longrightarrow> umap_home kb n k < n"
proof -
  assume n: "n = 2 ^ j" "j \<le> 30"
  have "(of_nat n - 1 :: u32) = mask j" using n by (simp add: mask_eq_exp_minus_1)
  then have "stl_uwhash (kb k) AND (of_nat n - 1) = take_bit j (stl_uwhash (kb k))" by (simp add: take_bit_eq_mask)
  then show ?thesis using n by (simp add: umap_home_def unsigned_take_bit_eq)
qed

text \<open>With a free slot the search ends at the slot of the key, or at a place for the key.\<close>

lemma umap_find_cases:
  assumes ok: "table_ok kb s" and n: "length s = 2 ^ j" and free: "\<exists>i<length s. ustate (s ! i) = 0"
    and res: "umap_span s (length s) k (umap_home kb (length s) k) 0 None = Some (fo, ft, et)"
  obtains i where "fo = Some i" "holds s k i"
    | i where "fo = None" "\<forall>i. \<not> holds s k i" "(if ft \<noteq> None then ft else et) = Some i" "i < length s"
      "ustate (s ! i) = (if ft \<noteq> None then 2 else 0)" "chain s (umap_home kb (length s) k) i"
proof -
  define h where "h = umap_home kb (length s) k"
  define I where "I r = (h + r) mod length s" for r
  have I: "(h + r) AND (length s - 1) = I r" for r using mask_index [OF n] by (simp add: I_def)
  have less: "I r < length s" for r using n by (simp add: I_def)
  obtain q where q: "q \<le> length s" and
    no: "\<And>r. r < q \<Longrightarrow> ustate (s ! I r) \<noteq> 0 \<and> \<not> (ustate (s ! I r) = 1 \<and> ukey (s ! I r) = k)" and
    stop: "q = length s \<and> fo = None \<and> et = None \<or>
     q < length s \<and> ustate (s ! I q) = 0 \<and> fo = None \<and> et = Some (I q) \<or>
     q < length s \<and> ustate (s ! I q) = 1 \<and> ukey (s ! I q) = k \<and> fo = Some (I q) \<and> et = None" and
    ft: "ft = None \<or> (\<exists>r. r < q \<and> ustate (s ! I r) = 2 \<and> ft = Some (I r))"
    using umap_span_ok [OF res [folded h_def] _ refl n, unfolded I] by auto
  obtain f where f: "f < length s" "ustate (s ! I f) = 0"
    using free index_onto [of _ "length s" h] unfolding I_def by metis
  have "q \<le> f" using no [of f] f(2) by (meson not_le_imp_less)
  show thesis
  proof (cases fo)
    case (Some i)
    then show ?thesis using that(1) [of i] stop less by (auto simp: holds_def)
  next
    case None
    then have e: "q < length s" "ustate (s ! I q) = 0" "et = Some (I q)" using stop \<open>q \<le> f\<close> f(1) by auto
    have nh: "\<not> holds s k i" for i
    proof
      assume hi: "holds s k i"
      then have "chain s h i" using ok unfolding table_ok_def h_def by blast
      then obtain p where p: "i = I p" "\<forall>r<p. ustate (s ! I r) \<noteq> 0" unfolding chain_def I_def by blast
      then show False using hi no [of p] e(2) by (cases p q rule: linorder_cases) (auto simp: holds_def)
    qed
    have ch: "chain s h (I r)" if "r \<le> q" for r
      unfolding chain_def I_def [symmetric] using that e(1) no by (intro exI [of _ r]) auto
    show ?thesis
    proof (cases ft)
      case None
      then show ?thesis using that(2) [OF \<open>fo = None\<close>, of "I q"] nh e less ch [of q] by (simp add: h_def)
    next
      case (Some i)
      then obtain r where "r < q" "ustate (s ! I r) = 2" "i = I r" using ft by auto
      then show ?thesis using that(2) [OF \<open>fo = None\<close>, of i] Some nh less ch [of r] by (simp add: h_def)
    qed
  qed
qed

section \<open>Changing one slot\<close>

text \<open>A key is written to a slot that holds none and that its chain reaches.\<close>

lemma table_add:
  assumes ok: "table_ok kb s" and i: "i < length s" "ustate (s ! i) \<noteq> 1" and ch: "chain s (umap_home kb (length s) k) i"
    and new: "\<forall>i. \<not> holds s k i" and e: "ustate e = 1" "ukey e = k"
  shows "table_ok kb (s[i := e])" "slots_abs (s[i := e]) = (slots_abs s)(k \<mapsto> uval e)"
proof -
  have h: "holds (s[i := e]) k' i' \<longleftrightarrow> (if i' = i then k' = k else holds s k' i')" for k' i'
    using i(1) e by (auto simp: holds_update)
  have no: "\<not> holds s k' i" for k' using i by (simp add: holds_def)
  have "chain (s[i := e]) (umap_home kb (length s) k') i'" if "holds (s[i := e]) k' i'" for k' i'
    using that h ch ok e(1) by (intro chain_update) (auto simp: table_ok_def split: if_splits)
  moreover have "i1 = i2" if "holds (s[i := e]) k' i1" "holds (s[i := e]) k' i2" for k' i1 i2
    using that h new ok unfolding table_ok_def by metis
  moreover have "ustate (s[i := e] ! i') \<in> {0, 1, 2}" if "i' < length s" for i'
    using that ok e(1) by (auto simp: table_ok_def nth_upd)
  ultimately show ok': "table_ok kb (s[i := e])" unfolding table_ok_def by auto
  show "slots_abs (s[i := e]) = (slots_abs s)(k \<mapsto> uval e)"
  proof (rule map_eqI)
    fix k' v
    show "slots_abs (s[i := e]) k' = Some v \<longleftrightarrow> ((slots_abs s)(k \<mapsto> uval e)) k' = Some v"
      unfolding slots_abs_Some [OF ok'] fun_upd_apply using h no new i(1) slots_abs_Some [OF ok, of k' v]
      by (auto simp: nth_upd) metis
  qed
qed

lemma slots_abs_same:
  assumes "table_ok kb s" "table_ok kb s'" "\<And>i. holds s' k i \<longleftrightarrow> holds s k i" "\<And>i. holds s k i \<Longrightarrow> s' ! i = s ! i"
  shows "slots_abs s' k = slots_abs s k"
proof (cases "slots_abs s k")
  case None
  then show ?thesis using assms(3) slots_abs_None by metis
next
  case (Some v)
  then obtain i where "holds s k i" "uval (s ! i) = v" using slots_abs_Some [OF assms(1)] by blast
  then show ?thesis using Some assms(3,4) slots_abs_Some [OF assms(2)] by metis
qed

lemma table_erase:
  assumes ok: "table_ok kb s" and i: "holds s k i" and e: "ustate e = 2"
  shows "table_ok kb (s[i := e])" "slots_abs (s[i := e]) = (slots_abs s)(k := None)"
proof -
  have h: "holds (s[i := e]) k' i' \<longleftrightarrow> (i' \<noteq> i \<and> holds s k' i')" for k' i'
    using i e by (simp only: holds_update) (auto simp: holds_def)
  have u: "i' = i" if "holds s k i'" for i' using that ok i unfolding table_ok_def by blast
  have ne: "i \<noteq> i'" if "holds s k' i'" "k' \<noteq> k" for k' i' using that i by (auto simp: holds_def)
  have "chain (s[i := e]) (umap_home kb (length s) k') i'" if "holds (s[i := e]) k' i'" for k' i'
    using that h ok e by (intro chain_update) (auto simp: table_ok_def)
  moreover have "ustate (s[i := e] ! i') \<in> {0, 1, 2}" if "i' < length s" for i'
    using that ok e by (auto simp: table_ok_def nth_upd)
  ultimately show ok': "table_ok kb (s[i := e])" using h ok unfolding table_ok_def by auto
  have "slots_abs (s[i := e]) k' = slots_abs s k'" if "k' \<noteq> k" for k'
    using h ne [OF _ that] by (intro slots_abs_same [OF ok ok']) (blast, simp)
  moreover have "slots_abs (s[i := e]) k = None" using h u by (auto simp: slots_abs_None)
  ultimately show "slots_abs (s[i := e]) = (slots_abs s)(k := None)" by (simp add: fun_eq_iff)
qed

lemma table_replace:
  assumes ok: "table_ok kb s" and i: "holds s k i" and e: "ustate e = 1" "ukey e = k"
  shows "table_ok kb (s[i := e])" "slots_abs (s[i := e]) = (slots_abs s)(k \<mapsto> uval e)"
proof -
  have h: "holds (s[i := e]) k' i' \<longleftrightarrow> holds s k' i'" for k' i'
    using i e by (simp only: holds_update) (auto simp: holds_def)
  have u: "i' = i" if "holds s k i'" for i' using that ok i unfolding table_ok_def by blast
  have ne: "i \<noteq> i'" if "holds s k' i'" "k' \<noteq> k" for k' i' using that i by (auto simp: holds_def)
  have "chain (s[i := e]) (umap_home kb (length s) k') i'" if "holds (s[i := e]) k' i'" for k' i'
    using that h ok e by (intro chain_update) (auto simp: table_ok_def)
  moreover have "ustate (s[i := e] ! i') \<in> {0, 1, 2}" if "i' < length s" for i'
    using that ok e by (auto simp: table_ok_def nth_upd)
  ultimately show ok': "table_ok kb (s[i := e])" using h ok unfolding table_ok_def by auto
  have "slots_abs (s[i := e]) k' = slots_abs s k'" if "k' \<noteq> k" for k'
    using ne [OF _ that] by (intro slots_abs_same [OF ok ok'] h) simp
  moreover have "slots_abs (s[i := e]) k = Some (uval e)"
    unfolding slots_abs_Some [OF ok'] using h [of k i] i e by (intro exI [of _ i]) (simp add: holds_def)
  ultimately show "slots_abs (s[i := e]) = (slots_abs s)(k \<mapsto> uval e)" by (simp add: fun_eq_iff)
qed

section \<open>Growing\<close>

text \<open>A table of free slots.\<close>

abbreviation all_free :: "('k, 'v) uslot list \<Rightarrow> ('k, 'v) uslot list" where
  "all_free s \<equiv> map (\<lambda>s. s\<lparr>ustate := 0\<rparr>) s"

lemma all_free_ok: "table_ok kb (all_free s)" "slots_abs (all_free s) = Map.empty" "tally 1 (all_free s) = 0" "tally 2 (all_free s) = 0"
proof -
  have n: "\<not> holds (all_free s) k i" for k i by (auto simp: holds_def)
  then show "slots_abs (all_free s) = Map.empty" using slots_abs_None by fastforce
  show "table_ok kb (all_free s)" using n by (simp add: table_ok_def)
  show "tally 1 (all_free s) = 0" "tally 2 (all_free s) = 0" by (simp_all add: tally_def filter_empty_conv)
qed

lemma umap_place_stop:
  assumes "length s = nb" "nb = 2 ^ i" "p < nb" "ustate (s ! ((h + p) AND (nb - 1))) = 0"
  shows "umap_place s nb h p e = Some (s[(h + p) AND (nb - 1) := e])"
  using assms(3,4)
  by (simp only: umap_place.simps [of s nb h p] aget_slot [OF assms(1,2)] aput_slot [OF assms(1,2)] Let_def bind.bind_lunit refl if_True)

lemma umap_place_ok:
  assumes "p \<le> f" "f < nb" "ustate (s ! ((h + f) AND (nb - 1))) = 0" "length s = nb" "nb = 2 ^ i"
  shows "\<exists>q. p \<le> q \<and> q \<le> f \<and> ustate (s ! ((h + q) AND (nb - 1))) = 0 \<and>
    (\<forall>r. p \<le> r \<and> r < q \<longrightarrow> ustate (s ! ((h + r) AND (nb - 1))) \<noteq> 0) \<and>
    umap_place s nb h p e = Some (s[(h + q) AND (nb - 1) := e])"
  using assms
proof (induction "f - p" arbitrary: p)
  case 0
  then have p: "p = f" by simp
  then show ?case using 0(4) umap_place_stop [OF 0(5,6,3,4)] by (intro exI [of _ f]) (simp del: One_nat_def)
next
  case (Suc d)
  let ?j = "(h + p) AND (nb - 1)"
  show ?case
  proof (cases "ustate (s ! ?j) = 0")
    case True
    moreover have "p < nb" using Suc.prems(1,2) by simp
    ultimately show ?thesis
      using Suc.prems(1) umap_place_stop [OF Suc.prems(4,5)] by (intro exI [of _ p]) (simp del: One_nat_def)
  next
    case False
    have lt: "p < nb" "p + 1 \<le> f" "d = f - (p + 1)" using Suc.prems Suc.hyps(2) by linarith+
    have eq: "umap_place s nb h p e = umap_place s nb h (p + 1) e"
      using False lt(1) by (subst umap_place.simps) (simp add: aget_slot [OF Suc.prems(4,5)] Let_def del: One_nat_def)
    obtain q where q: "p + 1 \<le> q" "q \<le> f" "ustate (s ! ((h + q) AND (nb - 1))) = 0"
      "\<forall>r. p + 1 \<le> r \<and> r < q \<longrightarrow> ustate (s ! ((h + r) AND (nb - 1))) \<noteq> 0"
      "umap_place s nb h (p + 1) e = Some (s[(h + q) AND (nb - 1) := e])"
      using Suc.hyps(1) [OF lt(3,2) Suc.prems(2-5)] by blast
    have "\<forall>r. p \<le> r \<and> r < q \<longrightarrow> ustate (s ! ((h + r) AND (nb - 1))) \<noteq> 0"
      using q(4) False by (metis Suc_eq_plus1 le_neq_implies_less less_eq_Suc_le)
    then show ?thesis using q(1-3,5) eq by (intro exI [of _ q]) simp
  qed
qed

lemma tally_Cons: "tally st (e # es) = tally st es + (if ustate e = st then 1 else 0)"
  by (simp add: tally_def)

lemma slots_abs_Cons: "slots_abs (e # es) k = (if ustate e = 1 \<and> ukey e = k then Some (uval e) else slots_abs es k)"
  by (simp add: slots_abs_def)

lemma holds_Cons: "holds (e # es) k i \<longleftrightarrow> (case i of 0 \<Rightarrow> ustate e = 1 \<and> ukey e = k | Suc i \<Rightarrow> holds es k i)"
  by (auto simp: holds_def split: nat.splits)

text \<open>One key goes to a table with a free slot.\<close>

lemma place_one:
  assumes ok: "table_ok kb s" and n: "length s = 2 ^ j" and j: "j \<le> 30" and free: "tally 1 s + tally 2 s < int (length s)"
    and e: "ustate e = 1" and new: "slots_abs s (ukey e) = None"
  obtains s' where "umap_place s (length s) (umap_home kb (length s) (ukey e)) 0 e = Some s'"
    "table_ok kb s'" "length s' = length s" "slots_abs s' = (slots_abs s)(ukey e \<mapsto> uval e)"
    "tally 1 s' = tally 1 s + 1" "tally 2 s' = tally 2 s"
proof -
  let ?h = "umap_home kb (length s) (ukey e)"
  obtain i where i: "i < length s" "ustate (s ! i) = 0"
    using tally_free [OF free] ok by (auto simp: table_ok_def)
  obtain f where f: "f < length s" "(?h + f) mod length s = i" using index_onto [OF i(1)] by blast
  have I: "(?h + r) AND (length s - 1) = (?h + r) mod length s" for r by (rule mask_index [OF n])
  obtain q where q: "q \<le> f" "ustate (s ! ((?h + q) mod length s)) = 0"
    "\<forall>r. r < q \<longrightarrow> ustate (s ! ((?h + r) mod length s)) \<noteq> 0"
    "umap_place s (length s) ?h 0 e = Some (s[(?h + q) mod length s := e])"
    using umap_place_ok [of 0 f "length s" s ?h j e, unfolded I] f i(2) n by auto
  have less: "(?h + q) mod length s < length s" using n by simp
  have ch: "chain s ?h ((?h + q) mod length s)" unfolding chain_def using q(1,3) f(1) by (intro exI [of _ q]) auto
  have a: "table_ok kb (s[(?h + q) mod length s := e])" "slots_abs (s[(?h + q) mod length s := e]) = (slots_abs s)(ukey e \<mapsto> uval e)"
    using table_add [OF ok less _ ch _ e refl] q(2) new by (auto simp: slots_abs_None)
  show thesis by (rule that [OF q(4) a(1) _ a(2)]) (use q(2) e less in \<open>simp_all add: tally_update\<close>)
qed

lemma umap_fill_ok:
  assumes "table_ok kb s" "length s = nb" "nb = 2 ^ j" "j \<le> 30" "tally 2 s = 0" "tally 1 s + tally 1 es < int nb"
    and "\<forall>k i j. holds es k i \<and> holds es k j \<longrightarrow> i = j" "\<forall>k. slots_abs es k \<noteq> None \<longrightarrow> slots_abs s k = None"
  shows "\<exists>s'. umap_fill kb nb es s = Some s' \<and> table_ok kb s' \<and> length s' = nb \<and> tally 2 s' = 0 \<and>
    tally 1 s' = tally 1 s + tally 1 es \<and> slots_abs s' = slots_abs s ++ slots_abs es"
  using assms
proof (induction es arbitrary: s)
  case Nil
  then show ?case by (simp add: tally_def map_add_def slots_abs_def)
next
  case (Cons e es)
  have u: "\<forall>k i j. holds es k i \<and> holds es k j \<longrightarrow> i = j"
    using Cons.prems(7) by (metis (no_types, lifting) holds_Cons nat.case(2) nat.inject)
  show ?case
  proof (cases "ustate e = 1")
    case False
    then have "slots_abs (e # es) = slots_abs es" "tally 1 (e # es) = tally 1 es"
      by (simp_all add: fun_eq_iff slots_abs_Cons tally_Cons)
    then show ?thesis using Cons.IH [OF Cons.prems(1-5) _ u] Cons.prems(6,8) False by simp
  next
    case True
    have t: "0 \<le> tally 1 es" by (simp add: tally_def)
    have new: "slots_abs s (ukey e) = None" using Cons.prems(8) True by (auto simp: slots_abs_Cons)
    have room: "tally 1 s + tally 2 s < int (length s)" using Cons.prems(2,5,6) True t by (simp add: tally_Cons)
    have "length s = 2 ^ j" using Cons.prems(2,3) by simp
    then obtain s' where p: "umap_place s nb (umap_home kb nb (ukey e)) 0 e = Some s'" "table_ok kb s'" "length s' = nb"
      "slots_abs s' = (slots_abs s)(ukey e \<mapsto> uval e)" "tally 1 s' = tally 1 s + 1" "tally 2 s' = 0"
      using place_one [OF Cons.prems(1) _ Cons.prems(4) room True new] Cons.prems(2,5) by metis
    have "\<not> holds es (ukey e) i" for i
      using Cons.prems(7) [rule_format, of "ukey e" 0 "Suc i"] True by (auto simp: holds_Cons)
    then have ne: "slots_abs es (ukey e) = None" by (simp add: slots_abs_None)
    have d: "\<forall>k. slots_abs es k \<noteq> None \<longrightarrow> slots_abs s' k = None"
      using Cons.prems(8) ne p(4) by (auto simp: slots_abs_Cons)
    have "slots_abs s' ++ slots_abs es = slots_abs s ++ slots_abs (e # es)"
      using p(4) ne True by (auto simp: fun_eq_iff map_add_def slots_abs_Cons split: option.splits)
    moreover have "umap_fill kb nb (e # es) s = umap_fill kb nb es s'" using True p(1) by simp
    moreover have "tally 1 (e # es) = 1 + tally 1 es" using True by (simp add: tally_Cons)
    ultimately show ?thesis
      using Cons.IH [OF p(2,3) Cons.prems(3,4) p(6) _ u d] Cons.prems(6) p(5) by (simp add: add.assoc del: umap_fill.simps)
  qed
qed

definition gives_slots :: "(nat \<Rightarrow> ('k, 'v) uslot list option) \<Rightarrow> bool" where
  "gives_slots alloc \<longleftrightarrow> (\<forall>n s. alloc n = Some s \<longrightarrow> length s = n \<and> n \<le> 2 ^ 30)"

lemma umap_rehash_ok:
  assumes a: "gives_slots alloc" and inv: "umap_inv kb m" and s: "alloc (if unb m \<noteq> 0 then unb m * 2 else 16) = Some s"
  shows "\<exists>m'. umap_rehash kb alloc m = Some (Some m') \<and> umap_inv kb m' \<and> umap_abs m' = umap_abs m \<and> \<not> umap_room m' \<and>
    ulen m' = ulen m \<and> utomb m' = 0"
proof -
  define nb where "nb = (if unb m \<noteq> 0 then unb m * 2 else 16)"
  have n: "length s = nb" "nb \<le> 2 ^ 30" using a s unfolding nb_def gives_slots_def by blast+
  obtain j where j: "nb = 2 ^ j" "4 \<le> j"
  proof (cases "unb m = 0")
    case True
    then show ?thesis using that [of 4] by (simp add: nb_def)
  next
    case False
    then obtain i where "4 \<le> i" "unb m = 2 ^ i" using inv by (auto simp: umap_inv_def)
    then show ?thesis using that [of "Suc i"] False by (simp add: nb_def)
  qed
  have "j \<le> 30" by (rule power_le_imp_le_exp [of "2::nat"]) (use n(2) j(1) in simp_all)
  have t: "0 \<le> tally 2 (uslots m)" "tally 1 (uslots m) \<le> int (length (uslots m))" by (simp_all add: tally_def)
  have l: "tally 1 (uslots m) \<le> int nb div 2" "tally 1 (uslots m) < int nb" using t inv by (auto simp: umap_inv_def nb_def)
  have u: "\<forall>k i j. holds (uslots m) k i \<and> holds (uslots m) k j \<longrightarrow> i = j" using inv by (simp add: umap_inv_def table_ok_def)
  have "length (all_free s) = nb" "tally 1 (all_free s) + tally 1 (uslots m) < int nb"
    "\<forall>k. slots_abs (uslots m) k \<noteq> None \<longrightarrow> slots_abs (all_free s) k = None"
    using n(1) l(2) all_free_ok(2,3) [of s] by simp_all
  from umap_fill_ok [OF all_free_ok(1) this(1) j(1) \<open>j \<le> 30\<close> all_free_ok(4) this(2) u this(3), of kb]
  obtain s' where r: "umap_fill kb nb (uslots m) (all_free s) = Some s'" "table_ok kb s'" "length s' = nb" "tally 2 s' = 0"
     "tally 1 s' = tally 1 (uslots m)" "slots_abs s' = slots_abs (uslots m)"
    by (auto simp: all_free_ok(2,3))
  let ?m = "m\<lparr>uslots := s', unb := nb, utomb := 0\<rparr>"
  have "umap_rehash kb alloc m = Some (Some ?m)"
    unfolding umap_rehash_def Let_def nb_def [symmetric] s [folded nb_def] option.case r(1) by simp
  moreover have "umap_inv kb ?m" using r j \<open>j \<le> 30\<close> l(2) inv by (auto simp: umap_inv_def)
  moreover have "umap_abs ?m = umap_abs m" using r by (simp add: umap_abs_def)
  moreover have "\<not> umap_room ?m" using j l inv by (auto simp: umap_room_def umap_inv_def)
  ultimately show ?thesis by (intro exI [of _ ?m]) simp
qed

section \<open>The operations\<close>

text \<open>The search in a table that was allocated.\<close>

lemma umap_find_ok:
  assumes inv: "umap_inv kb m" and nb: "unb m \<noteq> 0"
  obtains i ft et where "umap_find kb m k = Some (Some i, ft, et)" "holds (uslots m) k i" "umap_abs m k = Some (uval (uslots m ! i))"
      "aget (uslots m) (int i) = Some (uslots m ! i)" "\<And>e. aput (uslots m) (int i) e = Some ((uslots m)[i := e])"
    | i ft et where "umap_find kb m k = Some (None, ft, et)" "umap_abs m k = None" "\<forall>i. \<not> holds (uslots m) k i"
      "(if ft \<noteq> None then ft else et) = Some i"
      "i < length (uslots m)" "ustate (uslots m ! i) = (if ft \<noteq> None then 2 else 0)"
      "chain (uslots m) (umap_home kb (length (uslots m)) k) i"
proof -
  obtain j where j: "length (uslots m) = 2 ^ j" using inv nb by (auto simp: umap_inv_def)
  have ok: "table_ok kb (uslots m)" and n: "length (uslots m) = unb m" using inv by (simp_all add: umap_inv_def)
  have free: "\<exists>i<length (uslots m). ustate (uslots m ! i) = 0"
    using tally_free [of "uslots m"] inv nb by (auto simp: umap_inv_def table_ok_def)
  obtain fo ft et where r: "umap_span (uslots m) (length (uslots m)) k (umap_home kb (length (uslots m)) k) 0 None = Some (fo, ft, et)"
    using umap_span_returns [OF refl j] by blast
  then have f: "umap_find kb m k = Some (fo, ft, et)" by (simp add: umap_find_def n)
  show ?thesis
  proof (rule umap_find_cases [OF ok j free r])
    fix i assume i: "fo = Some i" "holds (uslots m) k i"
    then have "i < length (uslots m)" by (simp add: holds_def)
    then show thesis using that(1) [of i ft et] i f slots_abs_Some [OF ok] by (auto simp: umap_abs_def aget_def aput_def)
  next
    fix i assume "fo = None" "\<forall>i. \<not> holds (uslots m) k i" "(if ft \<noteq> None then ft else et) = Some i" "i < length (uslots m)"
      "ustate (uslots m ! i) = (if ft \<noteq> None then 2 else 0)" "chain (uslots m) (umap_home kb (length (uslots m)) k) i"
    then show thesis using that(2) [of ft et i] f by (simp add: umap_abs_def slots_abs_None)
  qed
qed

lemma umap_no_table: "umap_inv kb m \<Longrightarrow> unb m = 0 \<Longrightarrow> umap_abs m k = None"
  by (simp add: umap_inv_def umap_abs_def slots_abs_None holds_def)

lemma umap_get_ok:
  assumes inv: "umap_inv kb m"
  shows "stl_unordered_map_get kb m k = Some (umap_abs m k)"
    "stl_unordered_map_contains kb m k = Some (umap_abs m k \<noteq> None)"
    "stl_unordered_map_getor kb m k dflt = Some (case umap_abs m k of Some v \<Rightarrow> v | None \<Rightarrow> dflt)"
proof (atomize (full), cases "unb m = 0")
  case True
  then show "stl_unordered_map_get kb m k = Some (umap_abs m k) \<and> stl_unordered_map_contains kb m k = Some (umap_abs m k \<noteq> None) \<and>
    stl_unordered_map_getor kb m k dflt = Some (case umap_abs m k of Some v \<Rightarrow> v | None \<Rightarrow> dflt)"
    using umap_no_table [OF inv] by (simp add: stl_unordered_map_get_def stl_unordered_map_contains_def stl_unordered_map_getor_def)
next
  case False
  show "stl_unordered_map_get kb m k = Some (umap_abs m k) \<and> stl_unordered_map_contains kb m k = Some (umap_abs m k \<noteq> None) \<and>
    stl_unordered_map_getor kb m k dflt = Some (case umap_abs m k of Some v \<Rightarrow> v | None \<Rightarrow> dflt)"
    by (rule umap_find_ok [OF inv False, of k])
      (simp_all add: False stl_unordered_map_get_def stl_unordered_map_contains_def stl_unordered_map_getor_def)
qed

text \<open>The places in use, which an insertion raises by at most one and an erasure keeps.\<close>

definition umap_load :: "('k, 'v) umap \<Rightarrow> nat" where
  "umap_load m = nat (ulen m + utomb m)"

lemma umap_insert_ok:
  assumes inv: "umap_inv kb m" and room: "\<not> umap_room m" and res: "umap_find kb m k = Some (None, ft, et)"
  shows "\<exists>i m'. umap_insert m ft et k v = Some (i, m') \<and> umap_inv kb m' \<and> umap_abs m' = (umap_abs m)(k \<mapsto> v) \<and>
    holds (uslots m') k i \<and> uval (uslots m' ! i) = v \<and> umap_load m' \<le> Suc (umap_load m)"
proof -
  have nb: "unb m \<noteq> 0" using room by (simp add: umap_room_def)
  obtain i where i: "\<forall>i. \<not> holds (uslots m) k i" "(if ft \<noteq> None then ft else et) = Some i"
      "i < length (uslots m)" "ustate (uslots m ! i) = (if ft \<noteq> None then 2 else 0)"
      "chain (uslots m) (umap_home kb (length (uslots m)) k) i"
    by (rule umap_find_ok [OF inv nb, of k]) (use res in auto)
  have ok: "table_ok kb (uslots m)" using inv by (simp add: umap_inv_def)
  let ?e = "\<lparr>ustate = 1, ukey = k, uval = v\<rparr>"
  let ?m = "m\<lparr>uslots := (uslots m)[i := ?e], utomb := (if ft \<noteq> None then utomb m - 1 else utomb m), ulen := ulen m + 1\<rparr>"
  have m: "umap_insert m ft et k v = Some (i, ?m)" using i(2,3) by (simp add: umap_insert_def aput_def)
  have t: "table_ok kb ((uslots m)[i := ?e])" "slots_abs ((uslots m)[i := ?e]) = (slots_abs (uslots m))(k \<mapsto> v)"
    using table_add [OF ok i(3) _ i(5,1), of ?e] i(4) by (auto split: if_splits)
  obtain j where j: "4 \<le> j" "j \<le> 30" "unb m = 2 ^ j" using inv nb by (auto simp: umap_inv_def)
  then have "16 \<le> int (unb m)" using power_increasing [of 4 j "2::int"] by simp
  then have "ulen m + utomb m + 1 < int (unb m)" using room nb by (simp add: umap_room_def)
  moreover have "tally 1 ((uslots m)[i := ?e]) = ulen m + 1" using inv i(3,4) by (simp add: tally_update umap_inv_def)
  moreover have "tally 2 ((uslots m)[i := ?e]) = utomb ?m" using inv i(3,4) by (simp add: tally_update umap_inv_def)
  ultimately have "umap_inv kb ?m" using inv t(1) j nb by (simp add: umap_inv_def)
  moreover have "umap_abs ?m = (umap_abs m)(k \<mapsto> v)" using t(2) by (simp add: umap_abs_def)
  moreover have "holds (uslots ?m) k i" "uval (uslots ?m ! i) = v" using i(3) by (simp_all add: holds_def)
  moreover have "umap_load ?m \<le> Suc (umap_load m)" by (auto simp: umap_load_def)
  ultimately show ?thesis using m by blast
qed

text \<open>Some table is refused that a map with \<open>n\<close> places in use may ask for.\<close>

definition no_slots :: "(nat \<Rightarrow> ('k, 'v) uslot list option) \<Rightarrow> nat \<Rightarrow> bool" where
  "no_slots alloc n \<longleftrightarrow> (\<exists>k. 0 < k \<and> k \<le> 16 + 3 * n \<and> alloc k = None)"

text \<open>The table after the check for room: the same map, with a free slot to spare, or no memory.\<close>

lemma umap_grown:
  assumes a: "gives_slots alloc" and inv: "umap_inv kb m"
  obtains "umap_grow kb alloc m = Some None" "no_slots alloc (umap_load m)"
    | m' where "umap_grow kb alloc m = Some (Some m')" "umap_inv kb m'" "umap_abs m' = umap_abs m"
      "\<not> umap_room m'" "umap_load m' \<le> umap_load m"
proof (cases "umap_room m")
  case False
  then show ?thesis using that(2) [of m] inv by (simp add: umap_grow_def)
next
  case True
  define nb where "nb = (if unb m \<noteq> 0 then unb m * 2 else 16)"
  show ?thesis
  proof (cases "alloc nb")
    case None
    then have "umap_grow kb alloc m = Some None"
      unfolding umap_grow_def umap_rehash_def Let_def nb_def [symmetric] using True by simp
    moreover have "nb \<le> 16 + 3 * umap_load m"
    proof (cases "unb m = 0")
      case False
      then have "int (unb m) - int (unb m) div 4 \<le> ulen m + utomb m" using True by (simp add: umap_room_def)
      then show ?thesis using False by (simp add: nb_def umap_load_def)
    qed (simp add: nb_def)
    moreover have "0 < nb" by (simp add: nb_def)
    ultimately show ?thesis using that(1) None unfolding no_slots_def by blast
  next
    case (Some s)
    then obtain m' where "umap_rehash kb alloc m = Some (Some m')" "umap_inv kb m'" "umap_abs m' = umap_abs m" "\<not> umap_room m'"
      "ulen m' = ulen m" "utomb m' = 0"
      using umap_rehash_ok [OF a inv] unfolding nb_def by blast
    moreover from this inv have "umap_load m' \<le> umap_load m" by (simp add: umap_load_def umap_inv_def tally_def)
    ultimately show ?thesis using that(2) [of m'] True by (simp add: umap_grow_def)
  qed
qed

lemma umap_replace_ok:
  fixes v :: 'v and m :: "('k, 'v) umap"
  assumes inv: "umap_inv kb m" and h: "holds (uslots m) k i"
  defines "m' \<equiv> m\<lparr>uslots := (uslots m)[i := (uslots m ! i)\<lparr>uval := v\<rparr>]\<rparr>"
  shows "umap_inv kb m'" "umap_abs m' = (umap_abs m)(k \<mapsto> v)"
proof -
  have ok: "table_ok kb (uslots m)" and i: "i < length (uslots m)" "ustate (uslots m ! i) = 1" "ukey (uslots m ! i) = k"
    using inv h by (simp_all add: umap_inv_def holds_def)
  note t = table_replace [OF ok h, of "(uslots m ! i)\<lparr>uval := v\<rparr>"]
  show "umap_inv kb m'" using inv t(1) i by (simp add: m'_def umap_inv_def tally_update)
  show "umap_abs m' = (umap_abs m)(k \<mapsto> v)" using t(2) i by (simp add: m'_def umap_abs_def)
qed

lemma umap_set_ok:
  assumes a: "gives_slots alloc" and inv: "umap_inv kb m"
  shows "\<exists>r m'. stl_unordered_map_set kb alloc m k v = Some (r, m') \<and> umap_inv kb m' \<and> umap_load m' \<le> Suc (umap_load m) \<and>
    (r = 0 \<and> umap_abs m' = (umap_abs m)(k \<mapsto> v) \<or> r = -1 \<and> umap_abs m' = umap_abs m \<and> no_slots alloc (umap_load m))"
proof (rule umap_grown [OF a inv])
  assume "umap_grow kb alloc m = Some None" "no_slots alloc (umap_load m)"
  then show ?thesis using inv by (simp add: stl_unordered_map_set_def)
next
  fix g assume g: "umap_grow kb alloc m = Some (Some g)" "umap_inv kb g" "umap_abs g = umap_abs m"
    "\<not> umap_room g" "umap_load g \<le> umap_load m"
  have nb: "unb g \<noteq> 0" using g(4) by (simp add: umap_room_def)
  show ?thesis
  proof (rule umap_find_ok [OF g(2) nb, of k])
    fix i ft et assume f: "umap_find kb g k = Some (None, ft, et)"
    obtain i m' where m': "umap_insert g ft et k v = Some (i, m')" "umap_inv kb m'" "umap_abs m' = (umap_abs g)(k \<mapsto> v)"
      "umap_load m' \<le> Suc (umap_load g)"
      using umap_insert_ok [OF g(2,4) f, of v] by blast
    then show ?thesis using f g(1,3,5) by (simp add: stl_unordered_map_set_def)
  next
    fix i ft et assume f: "umap_find kb g k = Some (Some i, ft, et)" "holds (uslots g) k i"
      "aget (uslots g) (int i) = Some (uslots g ! i)" "\<And>e. aput (uslots g) (int i) e = Some ((uslots g)[i := e])"
    then show ?thesis
      using umap_replace_ok [OF g(2) f(2), of v] g(1,3,5) by (simp add: stl_unordered_map_set_def umap_load_def)
  qed
qed

lemma umap_at_ok:
  assumes a: "gives_slots alloc" and inv: "umap_inv kb m"
  shows "stl_unordered_map_at kb alloc zero m k = Some (None, m) \<and> no_slots alloc (umap_load m) \<or>
    (\<exists>i m'. stl_unordered_map_at kb alloc zero m k = Some (Some i, m') \<and> umap_inv kb m' \<and> holds (uslots m') k i \<and>
       uval (uslots m' ! i) = (case umap_abs m k of Some w \<Rightarrow> w | None \<Rightarrow> zero) \<and>
       umap_abs m' = (umap_abs m)(k \<mapsto> uval (uslots m' ! i)))"
proof (rule umap_grown [OF a inv])
  assume "umap_grow kb alloc m = Some None" "no_slots alloc (umap_load m)"
  then show ?thesis by (simp add: stl_unordered_map_at_def)
next
  fix g assume g: "umap_grow kb alloc m = Some (Some g)" "umap_inv kb g" "umap_abs g = umap_abs m" "\<not> umap_room g"
  have nb: "unb g \<noteq> 0" using g(4) by (simp add: umap_room_def)
  show ?thesis
  proof (rule umap_find_ok [OF g(2) nb, of k])
    fix i ft et assume i: "umap_find kb g k = Some (Some i, ft, et)" "holds (uslots g) k i" "umap_abs g k = Some (uval (uslots g ! i))"
    then have "umap_abs g = (umap_abs m)(k \<mapsto> uval (uslots g ! i))" using g(3) by (auto simp: fun_eq_iff)
    then show ?thesis using i g(1-3) by (auto simp: stl_unordered_map_at_def)
  next
    fix i ft et assume f: "umap_find kb g k = Some (None, ft, et)" "umap_abs g k = None"
    then show ?thesis using umap_insert_ok [OF g(2,4) f(1), of zero] g(1,3) by (auto simp: stl_unordered_map_at_def)
  qed
qed

lemma umap_erase_ok:
  assumes inv: "umap_inv kb m"
  shows "\<exists>m'. stl_unordered_map_erase kb m k = Some (if umap_abs m k = None then 0 else 1, m') \<and> umap_inv kb m' \<and>
    umap_load m' \<le> umap_load m \<and> umap_abs m' = (umap_abs m)(k := None)"
proof (cases "unb m = 0")
  case True
  then show ?thesis using umap_no_table [OF inv] inv by (auto simp: stl_unordered_map_erase_def fun_eq_iff)
next
  case False
  show ?thesis
  proof (rule umap_find_ok [OF inv False, of k])
    fix i ft et assume i: "umap_find kb m k = Some (Some i, ft, et)" "holds (uslots m) k i" "umap_abs m k = Some (uval (uslots m ! i))"
      "aget (uslots m) (int i) = Some (uslots m ! i)" "\<And>e. aput (uslots m) (int i) e = Some ((uslots m)[i := e])"
    have ok: "table_ok kb (uslots m)" and s: "i < length (uslots m)" "ustate (uslots m ! i) = 1"
      using inv i(2) by (simp_all add: umap_inv_def holds_def)
    let ?e = "(uslots m ! i)\<lparr>ustate := 2\<rparr>"
    let ?m = "m\<lparr>uslots := (uslots m)[i := ?e], ulen := ulen m - 1, utomb := utomb m + 1\<rparr>"
    have t: "table_ok kb ((uslots m)[i := ?e])" "slots_abs ((uslots m)[i := ?e]) = (slots_abs (uslots m))(k := None)"
      using table_erase [OF ok i(2), of ?e] by simp_all
    have "umap_inv kb ?m" using inv t(1) s by (simp add: umap_inv_def tally_update)
    moreover have "umap_abs ?m = (umap_abs m)(k := None)" using t(2) by (simp add: umap_abs_def)
    moreover have "umap_load ?m \<le> umap_load m" by (simp add: umap_load_def)
    ultimately show ?thesis using i False by (simp add: stl_unordered_map_erase_def)
  next
    fix i ft et assume f: "umap_find kb m k = Some (None, ft, et)" and n: "umap_abs m k = None"
    then have "(umap_abs m)(k := None) = umap_abs m" by (intro fun_upd_idem)
    then show ?thesis using f n False inv by (simp add: stl_unordered_map_erase_def)
  qed
qed

lemma umap_clear_ok:
  assumes "umap_inv kb m"
  shows "umap_inv kb (stl_unordered_map_clear m)" "umap_abs (stl_unordered_map_clear m) = Map.empty"
  using assms all_free_ok(1) [of kb "uslots m"] all_free_ok(2-4) [of "uslots m"]
  by (auto simp: umap_inv_def umap_abs_def stl_unordered_map_clear_def)

text \<open>A walk that is not cut short visits every key once.\<close>

lemma umap_each_count:
  assumes "\<And>k v ud. fst (cb k v ud) = 0" "umap_inv kb m"
  shows "fst (stl_unordered_map_each cb m ud) = ulen m"
proof -
  have "fst (umap_walk cb s n ud) = n + tally 1 s" for s n ud
    by (induction s arbitrary: n ud) (auto simp: tally_def split_beta assms(1))
  then show ?thesis using assms(2) by (simp add: stl_unordered_map_each_def umap_inv_def)
qed

text \<open>A table that is full of erased keys is doubled even when it holds no key: keys that come and go make it
  grow without end.\<close>

lemma umap_rehash_doubles: "umap_rehash kb alloc m = Some (Some m') \<Longrightarrow> unb m \<noteq> 0 \<Longrightarrow> unb m' = 2 * unb m"
  by (auto simp: umap_rehash_def Let_def split: option.splits bind_splits)

lemma umap_room_empty: "umap_room \<lparr>uslots = s, ulen = 0, utomb = 12, unb = 16\<rparr>"
  by (simp add: umap_room_def)

section \<open>The hash map keeps the contract\<close>

interpretation hash_map: assoc "\<lambda>m. gives_slots alloc \<and> umap_inv kb m" umap_abs "stl_unordered_map_get kb"
    "stl_unordered_map_set kb alloc" "stl_unordered_map_erase kb" umap_load "no_slots alloc"
  for kb :: "'k \<Rightarrow> 8 word list" and alloc :: "nat \<Rightarrow> ('k, 'v) uslot list option"
proof
  fix m :: "('k, 'v) umap" and k :: 'k and v :: 'v assume "gives_slots alloc \<and> umap_inv kb m"
  then have m: "gives_slots alloc" "umap_inv kb m" by simp_all
  show "stl_unordered_map_get kb m k = Some (umap_abs m k)" by (rule umap_get_ok(1) [OF m(2)])
  show "\<exists>r m'. stl_unordered_map_set kb alloc m k v = Some (r, m') \<and> (gives_slots alloc \<and> umap_inv kb m') \<and>
      umap_load m' \<le> Suc (umap_load m) \<and>
      (r = 0 \<and> umap_abs m' = (umap_abs m)(k \<mapsto> v) \<or> r = -1 \<and> umap_abs m' = umap_abs m \<and> no_slots alloc (umap_load m))"
    using umap_set_ok [OF m] m(1) by simp
  show "\<exists>m'. stl_unordered_map_erase kb m k = Some (if umap_abs m k = None then 0 else 1, m') \<and>
      (gives_slots alloc \<and> umap_inv kb m') \<and> umap_load m' \<le> umap_load m \<and> umap_abs m' = (umap_abs m)(k := None)"
    using umap_erase_ok [OF m(2), of k] m(1) by simp
next
  show "no_slots alloc i \<Longrightarrow> i \<le> j \<Longrightarrow> no_slots alloc j" for i j by (force simp: no_slots_def)
qed

lemma umap_load_init [simp]: "umap_load stl_unordered_map_init = 0"
  by (simp add: umap_load_def stl_unordered_map_init_def)

lemma stl_umap_refines:
  assumes "gives_slots slots"
  shows "\<exists>us. run_calls (stl_unordered_map_get kb) (stl_unordered_map_set kb slots) (stl_unordered_map_erase kb)
      stl_unordered_map_init cs = Some us \<and> map_answers Map.empty cs us \<and> (Code (-1) \<in> set us \<longrightarrow> no_slots slots (length cs))"
  using hash_map.run_answers [of slots kb stl_unordered_map_init cs] assms by simp

text \<open>C33: The two maps of the library are interchangeable: the same calls run to their end on both of them, without
  an access outside of their memory. An insertion answers -1 only when the arena refuses an array of a size that the calls
  bound, 4 + 2n elements or 16 + 3n slots for n calls, and has then no effect on what the map holds. Where
  no insertion is refused both maps answer as the ideal map does.\<close>

theorem stl_maps_agree:
  fixes cs :: "('k::linorder, 'v) call list"
  assumes "gives_arrays alloc" "gives_slots slots"
  shows "\<exists>rs us. run_calls stl_map_get (stl_map_set alloc) stl_map_erase stl_map_init cs = Some rs \<and>
    run_calls (stl_unordered_map_get kb) (stl_unordered_map_set kb slots) (stl_unordered_map_erase kb)
      stl_unordered_map_init cs = Some us \<and>
    map_answers Map.empty cs rs \<and> map_answers Map.empty cs us \<and>
    (Code (-1) \<in> set rs \<longrightarrow> (\<exists>k. 0 < k \<and> k \<le> 4 + 2 * int (length cs) \<and> alloc k = None)) \<and>
    (Code (-1) \<in> set us \<longrightarrow> (\<exists>k. 0 < k \<and> k \<le> 16 + 3 * length cs \<and> slots k = None)) \<and>
    (Code (-1) \<notin> set rs \<longrightarrow> rs = map_calls Map.empty cs) \<and> (Code (-1) \<notin> set us \<longrightarrow> us = map_calls Map.empty cs)"
  using stl_map_refines [OF assms(1), of cs] stl_umap_refines [OF assms(2), of kb cs] map_answers_calls [of Map.empty cs]
  unfolding no_array_def no_slots_def by blast

definition some_array :: "int \<Rightarrow> (int \<times> int) list option" where
  "some_array n = (if 0 \<le> n \<and> n \<le> 2 ^ 30 then Some (replicate (nat n) (0, 0)) else None)"

definition some_slots :: "nat \<Rightarrow> (int, int) uslot list option" where
  "some_slots n = (if n \<le> 2 ^ 30 then Some (replicate n \<lparr>ustate = 7, ukey = 0, uval = 0\<rparr>) else None)"

lemma some_slots_ok: "gives_slots some_slots" "gives_arrays some_array"
  by (auto simp: gives_slots_def gives_arrays_def some_slots_def some_array_def)

lemma some_memory: "0 < k \<Longrightarrow> k \<le> 12 \<Longrightarrow> some_array k \<noteq> None" "n \<le> 28 \<Longrightarrow> some_slots n \<noteq> None"
  by (simp_all add: some_array_def some_slots_def)

text \<open>With memory, both maps answer four calls as the ideal map.\<close>

theorem stl_maps_agree_witness:
  "run_calls stl_map_get (stl_map_set some_array) stl_map_erase stl_map_init [Put 3 (5::int), Get 3, Del 3, Get (3::int)] =
     Some [Code 0, Value (Some 5), Code 1, Value None] \<and>
   run_calls (stl_unordered_map_get (\<lambda>k. [word_of_int k])) (stl_unordered_map_set (\<lambda>k. [word_of_int k]) some_slots)
     (stl_unordered_map_erase (\<lambda>k. [word_of_int k])) stl_unordered_map_init [Put 3 (5::int), Get 3, Del 3, Get (3::int)] =
     Some [Code 0, Value (Some 5), Code 1, Value None]"
proof -
  let ?cs = "[Put 3 (5::int), Get 3, Del 3, Get (3::int)]"
  have n: "int (length ?cs) = 4" "length ?cs = 4" by simp_all
  obtain rs us where r: "run_calls stl_map_get (stl_map_set some_array) stl_map_erase stl_map_init ?cs = Some rs"
    "run_calls (stl_unordered_map_get (\<lambda>k. [word_of_int k])) (stl_unordered_map_set (\<lambda>k. [word_of_int k]) some_slots)
     (stl_unordered_map_erase (\<lambda>k. [word_of_int k])) stl_unordered_map_init ?cs = Some us"
    "Code (-1) \<in> set rs \<longrightarrow> (\<exists>k. 0 < k \<and> k \<le> 4 + 2 * int (length ?cs) \<and> some_array k = None)"
    "Code (-1) \<in> set us \<longrightarrow> (\<exists>k. 0 < k \<and> k \<le> 16 + 3 * length ?cs \<and> some_slots k = None)"
    "Code (-1) \<notin> set rs \<longrightarrow> rs = map_calls Map.empty ?cs" "Code (-1) \<notin> set us \<longrightarrow> us = map_calls Map.empty ?cs"
    using stl_maps_agree [OF some_slots_ok(2,1), of ?cs "\<lambda>k. [word_of_int k]"] by blast
  have "Code (-1) \<notin> set rs" using r(3) some_memory(1) unfolding n by fastforce
  moreover have "Code (-1) \<notin> set us" using r(4) some_memory(2) unfolding n by fastforce
  ultimately show ?thesis using r(1,2,5,6) by simp
qed

end
