(* ===== verification/Stl_Ring.thy ===== *)
theory Stl_Ring
  imports Stl_Map
begin

text \<open>
  The queue and the deque of the container library (\<open>lib/stl/queue.h\<close>, \<open>lib/stl/deque.h\<close>), which keep their elements
  in a ring, and the macros of \<open>lib/stl/allocator.h\<close> they share. \<open>alloc\<close> is the arena, as in the maps; \<open>None\<close> is an
  access outside of the array. The checks of \<open>STL_ASSERT\<close> are compiled to nothing unless \<open>STL_CHECKS\<close> is defined, and
  are no part of the operations.
\<close>

section \<open>The ring\<close>

record 'a ring =
  rdata :: "'a list"
  rbegin :: int
  rlen :: int
  rcap :: int

definition ring_init :: "'a ring" where
  "ring_init = \<lparr>rdata = [], rbegin = 0, rlen = 0, rcap = 0\<rparr>"

definition ring_clear :: "'a ring \<Rightarrow> 'a ring" where
  "ring_clear r = r\<lparr>rbegin := 0, rlen := 0\<rparr>"

definition ring_idx :: "'a ring \<Rightarrow> int \<Rightarrow> int" where
  "ring_idx r k = (rbegin r + k) mod (if rcap r \<noteq> 0 then rcap r else 1)"

function ring_copy :: "'a list \<Rightarrow> 'a ring \<Rightarrow> int \<Rightarrow> 'a list option" where
  "ring_copy nd r k =
     (if k < rlen r then do {
        x \<leftarrow> aget (rdata r) (ring_idx r k);
        nd \<leftarrow> aput nd k x;
        ring_copy nd r (k + 1)
      } else Some nd)"
  by pat_completeness auto
termination by (relation "measure (\<lambda>(nd, r, k). nat (rlen r - k))") auto

declare ring_copy.simps [simp del]

definition ring_grow :: "(int \<Rightarrow> 'a list option) \<Rightarrow> 'a ring \<Rightarrow> 'a ring option" where
  "ring_grow alloc r =
     (if rlen r \<ge> rcap r
      then let nc = (if rcap r \<noteq> 0 then rcap r * 2 else 4) in
        case alloc nc of
          None \<Rightarrow> Some r
        | Some nd \<Rightarrow> do { nd \<leftarrow> ring_copy nd r 0; Some (r\<lparr>rdata := nd, rcap := nc, rbegin := 0\<rparr>) }
      else Some r)"

section \<open>The operations\<close>

definition ring_push_back :: "(int \<Rightarrow> 'a list option) \<Rightarrow> 'a ring \<Rightarrow> 'a \<Rightarrow> 'a ring option" where
  "ring_push_back alloc r x = do {
     r \<leftarrow> ring_grow alloc r;
     if rlen r \<ge> rcap r then Some r
     else do {
       d \<leftarrow> aput (rdata r) (ring_idx r (rlen r)) x;
       Some (r\<lparr>rdata := d, rlen := rlen r + 1\<rparr>)
     }
   }"

definition ring_front :: "'a ring \<Rightarrow> 'a option" where
  "ring_front r = aget (rdata r) (rbegin r)"

definition ring_back :: "'a ring \<Rightarrow> 'a option" where
  "ring_back r = aget (rdata r) (ring_idx r (rlen r - 1))"

definition stl_queue_pop_front :: "'a ring \<Rightarrow> ('a \<times> 'a ring) option" where
  "stl_queue_pop_front r = do {
     v \<leftarrow> aget (rdata r) (rbegin r);
     let r = r\<lparr>rbegin := rbegin r + 1, rlen := rlen r - 1\<rparr>;
     Some (v, if rlen r = 0 then r\<lparr>rbegin := 0\<rparr> else if rbegin r \<ge> rcap r then r\<lparr>rbegin := 0\<rparr> else r)
   }"

definition stl_deque_at :: "'a ring \<Rightarrow> int \<Rightarrow> 'a option" where
  "stl_deque_at r i = aget (rdata r) (ring_idx r i)"

definition stl_deque_push_front :: "(int \<Rightarrow> 'a list option) \<Rightarrow> 'a ring \<Rightarrow> 'a \<Rightarrow> 'a ring option" where
  "stl_deque_push_front alloc r x = do {
     r \<leftarrow> ring_grow alloc r;
     if rlen r \<ge> rcap r then Some r
     else do {
       let b = (rbegin r - 1 + rcap r) mod rcap r;
       d \<leftarrow> aput (rdata r) b x;
       Some (r\<lparr>rbegin := b, rdata := d, rlen := rlen r + 1\<rparr>)
     }
   }"

definition stl_deque_pop_back :: "'a ring \<Rightarrow> 'a ring" where
  "stl_deque_pop_back r =
     (let r = (if rlen r > 0 then r\<lparr>rlen := rlen r - 1\<rparr> else r) in if rlen r = 0 then r\<lparr>rbegin := 0\<rparr> else r)"

definition stl_deque_pop_front :: "'a ring \<Rightarrow> 'a ring" where
  "stl_deque_pop_front r =
     (if rlen r > 0
      then let r = r\<lparr>rbegin := (rbegin r + 1) mod (if rcap r \<noteq> 0 then rcap r else 1), rlen := rlen r - 1\<rparr> in
        if rlen r = 0 then r\<lparr>rbegin := 0\<rparr> else r
      else r)"

section \<open>The list in a ring\<close>

definition ring_inv :: "'a ring \<Rightarrow> bool" where
  "ring_inv r \<longleftrightarrow> 0 \<le> rlen r \<and> rlen r \<le> rcap r \<and> rcap r = int (length (rdata r)) \<and> rcap r \<le> 2 ^ 30 \<and>
     0 \<le> rbegin r \<and> (if rcap r = 0 then rbegin r = 0 else rbegin r < rcap r)"

definition ring_abs :: "'a ring \<Rightarrow> 'a list" where
  "ring_abs r = map (\<lambda>k. at (rdata r) (ring_idx r (int k))) [0..<nat (rlen r)]"

lemma ring_init_ok [simp]: "ring_inv ring_init" "ring_abs ring_init = []"
  by (simp_all add: ring_init_def ring_inv_def ring_abs_def)

lemma ring_clear_ok: "ring_inv r \<Longrightarrow> ring_inv (ring_clear r) \<and> ring_abs (ring_clear r) = []"
  by (auto simp: ring_clear_def ring_inv_def ring_abs_def)

lemma ring_abs_length [simp]: "length (ring_abs r) = nat (rlen r)"
  by (simp add: ring_abs_def)

lemma ring_abs_nth [simp]: "k < nat (rlen r) \<Longrightarrow> ring_abs r ! k = at (rdata r) (ring_idx r (int k))"
  by (simp add: ring_abs_def)

lemma ring_idx_bounds: "ring_inv r \<Longrightarrow> rcap r \<noteq> 0 \<Longrightarrow> 0 \<le> ring_idx r k \<and> ring_idx r k < rcap r"
  by (auto simp: ring_idx_def ring_inv_def)

lemma ring_get: "ring_inv r \<Longrightarrow> rcap r \<noteq> 0 \<Longrightarrow> aget (rdata r) (ring_idx r k) = Some (at (rdata r) (ring_idx r k))"
  using ring_idx_bounds [of r k] by (simp add: aget_def ring_inv_def)

text \<open>Different places of a ring are different indices.\<close>

lemma mod_inj:
  fixes b i j c :: int
  assumes "(b + i) mod c = (b + j) mod c" "0 \<le> i" "i < c" "0 \<le> j" "j < c"
  shows "i = j"
proof -
  have "(b + i - b) mod c = (b + j - b) mod c" using assms(1) by (metis mod_diff_left_eq)
  then show ?thesis using assms(2-5) by simp
qed

lemma ring_idx_inj:
  "ring_inv r \<Longrightarrow> ring_idx r i = ring_idx r j \<Longrightarrow> 0 \<le> i \<Longrightarrow> i < rcap r \<Longrightarrow> 0 \<le> j \<Longrightarrow> j < rcap r \<Longrightarrow> i = j"
  using mod_inj [of "rbegin r" i "rcap r" j] by (auto simp: ring_idx_def)

lemma ring_abs_eqI:
  "nat (rlen r) = length xs \<Longrightarrow> (\<And>k. k < length xs \<Longrightarrow> at (rdata r) (ring_idx r (int k)) = xs ! k) \<Longrightarrow> ring_abs r = xs"
  by (rule nth_equalityI) simp_all

section \<open>Growing\<close>

lemma ring_copy_ok:
  assumes "ring_inv r" "0 \<le> k" "k \<le> rlen r" "rlen r \<le> int (length nd)" "\<forall>i<nat k. nd ! i = ring_abs r ! i"
  shows "\<exists>nd'. ring_copy nd r k = Some nd' \<and> length nd' = length nd \<and> (\<forall>i<nat (rlen r). nd' ! i = ring_abs r ! i)"
  using assms
proof (induction nd r k rule: ring_copy.induct)
  case (1 nd r k)
  show ?case
  proof (cases "k < rlen r")
    case False
    then show ?thesis using "1.prems" by (simp add: ring_copy.simps)
  next
    case True
    then have "rcap r \<noteq> 0" using "1.prems"(1,2) by (auto simp: ring_inv_def)
    note g = ring_get [OF "1.prems"(1) this, of k]
    let ?nd = "nd[nat k := at (rdata r) (ring_idx r k)]"
    have p: "aput nd k (at (rdata r) (ring_idx r k)) = Some ?nd" using "1.prems"(2,4) True by (simp add: aput_def)
    have "\<forall>i<nat (k + 1). ?nd ! i = ring_abs r ! i"
    proof (intro allI impI)
      fix i assume "i < nat (k + 1)"
      then consider "i < nat k" | "i = nat k" by linarith
      then show "?nd ! i = ring_abs r ! i" using "1.prems"(2,4,5) True by cases simp_all
    qed
    then have "\<exists>nd'. ring_copy ?nd r (k + 1) = Some nd' \<and> length nd' = length ?nd \<and> (\<forall>i<nat (rlen r). nd' ! i = ring_abs r ! i)"
      using "1.IH" [OF True g p] "1.prems" True by simp
    moreover have "ring_copy nd r k = ring_copy ?nd r (k + 1)" using True g p by (subst ring_copy.simps) simp
    ultimately show ?thesis by simp
  qed
qed

text \<open>The ring afterwards holds the same list; it has room unless there was no memory.\<close>

lemma ring_grow_ok:
  assumes a: "gives_arrays alloc" and inv: "ring_inv r"
  shows "\<exists>g. ring_grow alloc r = Some g \<and> ring_inv g \<and> ring_abs g = ring_abs r \<and> rlen g = rlen r \<and>
    (rlen g < rcap g \<or> g = r \<and> alloc (if rcap r \<noteq> 0 then rcap r * 2 else 4) = None)"
proof (cases "rlen r \<ge> rcap r")
  case False
  then show ?thesis using inv by (simp add: ring_grow_def)
next
  case True
  define nc where "nc = (if rcap r \<noteq> 0 then rcap r * 2 else 4)"
  show ?thesis
  proof (cases "alloc nc")
    case None
    then show ?thesis using True inv by (simp add: ring_grow_def nc_def)
  next
    case (Some nd)
    have n: "int (length nd) = nc" "nc \<le> 2 ^ 30" using a Some by (auto simp: gives_arrays_def)
    have l: "rlen r = rcap r" "0 \<le> rlen r" "rlen r < nc" using True inv by (auto simp: ring_inv_def nc_def)
    obtain d where d: "ring_copy nd r 0 = Some d" "length d = length nd" "\<forall>i<nat (rlen r). d ! i = ring_abs r ! i"
      using ring_copy_ok [OF inv, of 0 nd] l n by auto
    let ?g = "r\<lparr>rdata := d, rcap := nc, rbegin := 0\<rparr>"
    have "ring_grow alloc r = Some ?g" using True Some d(1) by (simp add: ring_grow_def nc_def [symmetric])
    moreover have "ring_inv ?g" using inv l n d(2) by (simp add: ring_inv_def)
    moreover have "ring_abs ?g = ring_abs r"
      using d(3) l by (intro ring_abs_eqI) (auto simp: ring_idx_def)
    ultimately show ?thesis using l by simp
  qed
qed

section \<open>What the operations do to the list\<close>

lemma ring_empty: "ring_abs r = [] \<longleftrightarrow> rlen r \<le> 0"
  by (simp add: ring_abs_def)

text \<open>Writing behind the last element, and in front of the first.\<close>

lemma ring_add_back:
  assumes inv: "ring_inv g" and lt: "rlen g < rcap g"
  shows "\<exists>r. (do { d \<leftarrow> aput (rdata g) (ring_idx g (rlen g)) x; Some (g\<lparr>rdata := d, rlen := rlen g + 1\<rparr>) }) = Some r \<and>
    ring_inv r \<and> ring_abs r = ring_abs g @ [x]"
proof -
  have c: "rcap g \<noteq> 0" "0 \<le> rlen g" using inv lt by (auto simp: ring_inv_def)
  let ?i = "ring_idx g (rlen g)"
  note b = ring_idx_bounds [OF inv c(1)]
  let ?r = "g\<lparr>rdata := (rdata g)[nat ?i := x], rlen := rlen g + 1\<rparr>"
  have "aput (rdata g) ?i x = Some ((rdata g)[nat ?i := x])" using b [of "rlen g"] inv by (simp add: aput_def ring_inv_def)
  moreover have "ring_inv ?r" using inv lt by (auto simp: ring_inv_def)
  moreover have "ring_abs ?r = ring_abs g @ [x]"
  proof (rule ring_abs_eqI)
    fix k assume k: "k < length (ring_abs g @ [x])"
    have i: "ring_idx ?r = ring_idx g" by (rule ext) (simp add: ring_idx_def)
    show "at (rdata ?r) (ring_idx ?r (int k)) = (ring_abs g @ [x]) ! k"
    proof (cases "k < nat (rlen g)")
      case True
      then have "int k < rlen g" by linarith
      then have "ring_idx g (int k) \<noteq> ?i" using ring_idx_inj [OF inv, of "int k" "rlen g"] lt c by auto
      then show ?thesis using True b [of "int k"] b [of "rlen g"] by (simp add: i nth_append nat_eq_iff2)
    next
      case False
      then have "int k = rlen g" using k c(2) by simp
      moreover have "nat ?i < length (rdata g)" using b [of "rlen g"] inv by (auto simp: ring_inv_def nat_less_iff)
      ultimately show ?thesis using False by (simp add: i nth_append)
    qed
  qed (use c in simp)
  ultimately show ?thesis by simp
qed

lemma ring_add_front:
  assumes inv: "ring_inv g" and lt: "rlen g < rcap g"
  defines "b \<equiv> (rbegin g - 1 + rcap g) mod rcap g"
  shows "\<exists>r. (do { d \<leftarrow> aput (rdata g) b x; Some (g\<lparr>rbegin := b, rdata := d, rlen := rlen g + 1\<rparr>) }) = Some r \<and>
    ring_inv r \<and> ring_abs r = x # ring_abs g"
proof -
  have c: "rcap g > 0" "0 \<le> rlen g" using inv lt by (auto simp: ring_inv_def)
  have b: "0 \<le> b" "b < rcap g" using c by (simp_all add: b_def)
  let ?r = "g\<lparr>rbegin := b, rdata := (rdata g)[nat b := x], rlen := rlen g + 1\<rparr>"
  have "aput (rdata g) b x = Some ((rdata g)[nat b := x])" using b inv by (simp add: aput_def ring_inv_def)
  moreover have "ring_inv ?r" using inv lt b by (auto simp: ring_inv_def)
  moreover have "ring_abs ?r = x # ring_abs g"
  proof (rule ring_abs_eqI)
    fix k assume k: "k < length (x # ring_abs g)"
    have i: "ring_idx ?r (int k) = (rbegin g - 1 + int k) mod rcap g" using c
      by (simp add: ring_idx_def b_def mod_simps)
    have z: "b = (rbegin g - 1 + 0) mod rcap g" by (simp add: b_def)
    show "at (rdata ?r) (ring_idx ?r (int k)) = (x # ring_abs g) ! k"
    proof (cases k)
      case 0
      then show ?thesis using z i b inv by (simp add: ring_inv_def)
    next
      case (Suc n)
      then have n: "int n < rlen g" using k by simp
      have e: "ring_idx ?r (int k) = ring_idx g (int n)" by (subst i) (use Suc c in \<open>simp add: ring_idx_def algebra_simps\<close>)
      have "ring_idx ?r (int k) \<noteq> b"
      proof
        assume "ring_idx ?r (int k) = b"
        then have "int k = 0" using mod_inj [of "rbegin g - 1" "int k" "rcap g" 0] i z n Suc lt c by simp
        then show False using Suc by simp
      qed
      then have "ring_idx g (int n) \<noteq> b" using e by simp
      moreover have "0 \<le> ring_idx g (int n)" using ring_idx_bounds [OF inv] c by simp
      ultimately show ?thesis unfolding e using Suc n b by (simp add: nat_eq_iff2)
    qed
  qed (use c in simp)
  ultimately show ?thesis by simp
qed

lemma ring_push_back_ok:
  assumes a: "gives_arrays alloc" and inv: "ring_inv r"
  shows "\<exists>r'. ring_push_back alloc r x = Some r' \<and> ring_inv r' \<and>
    (ring_abs r' = ring_abs r @ [x] \<or> r' = r \<and> alloc (if rcap r \<noteq> 0 then rcap r * 2 else 4) = None)"
proof -
  obtain g where g: "ring_grow alloc r = Some g" "ring_inv g" "ring_abs g = ring_abs r"
    "rlen g < rcap g \<or> g = r \<and> alloc (if rcap r \<noteq> 0 then rcap r * 2 else 4) = None"
    using ring_grow_ok [OF a inv] by blast
  show ?thesis
  proof (cases "rlen g < rcap g")
    case True
    then show ?thesis using ring_add_back [OF g(2) True, of x] g(1,3) by (auto simp: ring_push_back_def)
  next
    case False
    then show ?thesis using g inv by (auto simp: ring_push_back_def)
  qed
qed

lemma stl_deque_push_front_ok:
  assumes a: "gives_arrays alloc" and inv: "ring_inv r"
  shows "\<exists>r'. stl_deque_push_front alloc r x = Some r' \<and> ring_inv r' \<and>
    (ring_abs r' = x # ring_abs r \<or> r' = r \<and> alloc (if rcap r \<noteq> 0 then rcap r * 2 else 4) = None)"
proof -
  obtain g where g: "ring_grow alloc r = Some g" "ring_inv g" "ring_abs g = ring_abs r"
    "rlen g < rcap g \<or> g = r \<and> alloc (if rcap r \<noteq> 0 then rcap r * 2 else 4) = None"
    using ring_grow_ok [OF a inv] by blast
  show ?thesis
  proof (cases "rlen g < rcap g")
    case True
    then show ?thesis using ring_add_front [OF g(2) True, of x] g(1,3) by (auto simp: stl_deque_push_front_def Let_def)
  next
    case False
    then show ?thesis using g inv by (auto simp: stl_deque_push_front_def)
  qed
qed

text \<open>Looking at and removing an element of a ring that holds some.\<close>

lemma ring_front_ok:
  assumes inv: "ring_inv r" and xs: "ring_abs r = x # xs"
  shows "ring_front r = Some x" "rlen r = 1 + int (length xs)"
proof -
  show l: "rlen r = 1 + int (length xs)" using arg_cong [OF xs, of length] by simp
  then have c: "rcap r \<noteq> 0" using inv by (auto simp: ring_inv_def)
  have "ring_idx r 0 = rbegin r" using inv c by (auto simp: ring_idx_def ring_inv_def)
  moreover have "ring_abs r ! 0 = at (rdata r) (ring_idx r (int 0))" by (rule ring_abs_nth) (simp add: l)
  ultimately show "ring_front r = Some x" using ring_get [OF inv c, of 0] xs by (simp add: ring_front_def)
qed

lemma ring_back_ok:
  assumes inv: "ring_inv r" and xs: "ring_abs r = xs @ [x]"
  shows "ring_back r = Some x" "rlen r = 1 + int (length xs)"
proof -
  show l: "rlen r = 1 + int (length xs)" using arg_cong [OF xs, of length] by simp
  then have c: "rcap r \<noteq> 0" using inv by (auto simp: ring_inv_def)
  have "ring_abs r ! length xs = at (rdata r) (ring_idx r (int (length xs)))" by (rule ring_abs_nth) (simp add: l)
  then show "ring_back r = Some x" using ring_get [OF inv c, of "int (length xs)"] xs l by (simp add: ring_back_def)
qed

lemma stl_deque_at_ok:
  assumes inv: "ring_inv r" and i: "0 \<le> i" "i < rlen r"
  shows "stl_deque_at r i = Some (ring_abs r ! nat i)"
proof -
  have "rcap r \<noteq> 0" using inv i by (auto simp: ring_inv_def)
  then show ?thesis using ring_get [OF inv, of i] i by (simp add: stl_deque_at_def)
qed

text \<open>The ring without its first element, however the begin wraps around.\<close>

lemma ring_drop_front:
  assumes inv: "ring_inv r" and xs: "ring_abs r = x # xs"
    and s: "rdata s = rdata r" "rcap s = rcap r" "rlen s = rlen r - 1"
    and b: "rbegin s = (if rlen s = 0 then 0 else (rbegin r + 1) mod rcap r)"
  shows "ring_inv s" "ring_abs s = xs"
proof -
  have l: "rlen r = 1 + int (length xs)" using arg_cong [OF xs, of length] by simp
  have c: "rcap r > 0" using inv l by (auto simp: ring_inv_def)
  show "ring_inv s" using inv s b c l by (auto simp: ring_inv_def)
  show "ring_abs s = xs"
  proof (rule ring_abs_eqI)
    fix k assume k: "k < length xs"
    have "ring_idx s (int k) = ring_idx r (int (Suc k))"
      using k s b l c by (cases xs) (simp_all add: ring_idx_def mod_simps algebra_simps)
    moreover have "ring_abs r ! Suc k = at (rdata r) (ring_idx r (int (Suc k)))" using k l by (intro ring_abs_nth) simp
    ultimately show "at (rdata s) (ring_idx s (int k)) = xs ! k" using xs s(1) by simp
  qed (use s(3) l in simp)
qed

lemma stl_queue_pop_front_ok:
  assumes inv: "ring_inv r" and xs: "ring_abs r = x # xs"
  shows "\<exists>s. stl_queue_pop_front r = Some (x, s) \<and> ring_inv s \<and> ring_abs s = xs"
proof -
  define s where "s = (let r = r\<lparr>rbegin := rbegin r + 1, rlen := rlen r - 1\<rparr> in
    if rlen r = 0 then r\<lparr>rbegin := 0\<rparr> else if rbegin r \<ge> rcap r then r\<lparr>rbegin := 0\<rparr> else r)"
  have "stl_queue_pop_front r = Some (x, s)"
    using ring_front_ok [OF inv xs] by (simp add: stl_queue_pop_front_def ring_front_def s_def Let_def)
  moreover have c: "0 \<le> rbegin r" "rbegin r < rcap r" using inv ring_front_ok [OF inv xs] by (auto simp: ring_inv_def split: if_splits)
  have "rbegin s = (if rlen s = 0 then 0 else (rbegin r + 1) mod rcap r)"
    using c by (cases "rbegin r + 1 = rcap r") (auto simp: s_def Let_def)
  then have "ring_inv s" "ring_abs s = xs" using ring_drop_front [OF inv xs] by (auto simp: s_def Let_def)
  ultimately show ?thesis by blast
qed

lemma stl_deque_pop_front_ok:
  assumes inv: "ring_inv r" and xs: "ring_abs r = x # xs"
  shows "ring_inv (stl_deque_pop_front r)" "ring_abs (stl_deque_pop_front r) = xs"
proof -
  have c: "rcap r \<noteq> 0" "rlen r > 0" using inv ring_front_ok [OF inv xs] by (auto simp: ring_inv_def)
  have s: "rdata (stl_deque_pop_front r) = rdata r" "rcap (stl_deque_pop_front r) = rcap r"
    "rlen (stl_deque_pop_front r) = rlen r - 1"
    "rbegin (stl_deque_pop_front r) = (if rlen (stl_deque_pop_front r) = 0 then 0 else (rbegin r + 1) mod rcap r)"
    using c by (auto simp: stl_deque_pop_front_def Let_def)
  show "ring_inv (stl_deque_pop_front r)" "ring_abs (stl_deque_pop_front r) = xs" using ring_drop_front [OF inv xs s] .
qed

lemma stl_deque_pop_back_ok:
  assumes inv: "ring_inv r" and xs: "ring_abs r = xs @ [x]"
  shows "ring_inv (stl_deque_pop_back r)" "ring_abs (stl_deque_pop_back r) = xs"
proof -
  have l: "rlen r = 1 + int (length xs)" using ring_back_ok [OF inv xs] by simp
  show "ring_inv (stl_deque_pop_back r)" using inv l by (auto simp: stl_deque_pop_back_def ring_inv_def Let_def)
  show "ring_abs (stl_deque_pop_back r) = xs"
  proof (rule ring_abs_eqI)
    fix k assume k: "k < length xs"
    then have "ring_abs r ! k = at (rdata r) (ring_idx r (int k))" using l by (intro ring_abs_nth) simp
    then show "at (rdata (stl_deque_pop_back r)) (ring_idx (stl_deque_pop_back r) (int k)) = xs ! k"
      using k l xs by (auto simp: stl_deque_pop_back_def Let_def ring_idx_def nth_append)
  qed (use l in \<open>auto simp: stl_deque_pop_back_def Let_def\<close>)
qed

section \<open>The contracts of a queue and of a deque\<close>

text \<open>As long as it holds fewer elements than \<open>lim\<close>, a queue takes one more.\<close>

locale fifo =
  fixes inv :: "'m \<Rightarrow> bool" and abs :: "'m \<Rightarrow> 'a list" and lim :: nat
    and put :: "'m \<Rightarrow> 'a \<Rightarrow> 'm option" and get :: "'m \<Rightarrow> ('a \<times> 'm) option"
  assumes put_ok: "inv m \<Longrightarrow> length (abs m) < lim \<Longrightarrow> \<exists>m'. put m x = Some m' \<and> inv m' \<and> abs m' = abs m @ [x]"
    and get_ok: "inv m \<Longrightarrow> abs m = x # xs \<Longrightarrow> \<exists>m'. get m = Some (x, m') \<and> inv m' \<and> abs m' = xs"

locale double_ended = fifo inv abs lim put get
  for inv :: "'m \<Rightarrow> bool" and abs :: "'m \<Rightarrow> 'a list" and lim and put and get +
  fixes put_front :: "'m \<Rightarrow> 'a \<Rightarrow> 'm option" and get_back :: "'m \<Rightarrow> ('a \<times> 'm) option"
  assumes put_front_ok: "inv m \<Longrightarrow> length (abs m) < lim \<Longrightarrow> \<exists>m'. put_front m x = Some m' \<and> inv m' \<and> abs m' = x # abs m"
    and get_back_ok: "inv m \<Longrightarrow> abs m = xs @ [x] \<Longrightarrow> \<exists>m'. get_back m = Some (x, m') \<and> inv m' \<and> abs m' = xs"

text \<open>Programs on a queue and on a deque, and the elements they take out. A queue program is a deque program
  that adds behind and takes in front only.\<close>

datatype 'a step = Put 'a | Take | Put_Front 'a | Take_Back

fun run_steps :: "('m \<Rightarrow> 'a \<Rightarrow> 'm option) \<Rightarrow> ('m \<Rightarrow> ('a \<times> 'm) option) \<Rightarrow> ('m \<Rightarrow> 'a \<Rightarrow> 'm option) \<Rightarrow> ('m \<Rightarrow> ('a \<times> 'm) option)
    \<Rightarrow> 'm \<Rightarrow> 'a step list \<Rightarrow> 'a list option" where
  "run_steps put get put_front get_back m [] = Some []"
| "run_steps put get put_front get_back m (Put x # ss) = do { m \<leftarrow> put m x; run_steps put get put_front get_back m ss }"
| "run_steps put get put_front get_back m (Take # ss) =
     do { (x, m) \<leftarrow> get m; xs \<leftarrow> run_steps put get put_front get_back m ss; Some (x # xs) }"
| "run_steps put get put_front get_back m (Put_Front x # ss) = do { m \<leftarrow> put_front m x; run_steps put get put_front get_back m ss }"
| "run_steps put get put_front get_back m (Take_Back # ss) =
     do { (x, m) \<leftarrow> get_back m; xs \<leftarrow> run_steps put get put_front get_back m ss; Some (x # xs) }"

text \<open>The same on lists; \<open>None\<close> is a program that takes an element of an empty list.\<close>

definition take_first :: "'a list \<Rightarrow> ('a \<times> 'a list) option" where
  "take_first xs = (if xs = [] then None else Some (hd xs, tl xs))"

definition take_last :: "'a list \<Rightarrow> ('a \<times> 'a list) option" where
  "take_last xs = (if xs = [] then None else Some (last xs, butlast xs))"

lemma take_simps [simp]:
  "take_first [] = None" "take_first (x # xs) = Some (x, xs)" "take_last [] = None" "take_last (xs @ [x]) = Some (x, xs)"
  by (simp_all add: take_first_def take_last_def)

abbreviation list_steps :: "'a list \<Rightarrow> 'a step list \<Rightarrow> 'a list option" where
  "list_steps \<equiv> run_steps (\<lambda>xs x. Some (xs @ [x])) take_first (\<lambda>xs x. Some (x # xs)) take_last"

definition queue_step :: "'a step \<Rightarrow> bool" where
  "queue_step s = (case s of Put x \<Rightarrow> True | Take \<Rightarrow> True | _ \<Rightarrow> False)"

context fifo
begin

lemma run_queue:
  "inv m \<Longrightarrow> length (abs m) + length ss \<le> lim \<Longrightarrow> \<forall>s\<in>set ss. queue_step s \<Longrightarrow> list_steps (abs m) ss = Some out \<Longrightarrow>
   run_steps put get pf gb m ss = Some out"
proof (induction ss arbitrary: m out)
  case (Cons s ss)
  show ?case
  proof (cases s)
    case (Put x)
    obtain m' where "put m x = Some m'" "inv m'" "abs m' = abs m @ [x]" using put_ok Cons.prems(1,2) by force
    then show ?thesis using Cons.IH [of m' out] Cons.prems Put by simp
  next
    case Take
    then obtain x xs o' where x: "abs m = x # xs" "list_steps xs ss = Some o'" "out = x # o'"
      using Cons.prems(4) by (cases "abs m") (auto simp: bind_eq_Some_conv)
    obtain m' where "get m = Some (x, m')" "inv m'" "abs m' = xs" using get_ok Cons.prems(1) x(1) by blast
    then show ?thesis using Cons.IH [of m' o'] Cons.prems Take x by simp
  qed (use Cons.prems in \<open>simp_all add: queue_step_def\<close>)
qed simp

end

context double_ended
begin

lemma run_deque:
  "inv m \<Longrightarrow> length (abs m) + length ss \<le> lim \<Longrightarrow> list_steps (abs m) ss = Some out \<Longrightarrow>
   run_steps put get put_front get_back m ss = Some out"
proof (induction ss arbitrary: m out)
  case (Cons s ss)
  show ?case
  proof (cases s)
    case (Put x)
    obtain m' where "put m x = Some m'" "inv m'" "abs m' = abs m @ [x]" using put_ok Cons.prems(1,2) by force
    then show ?thesis using Cons.IH [of m' out] Cons.prems Put by simp
  next
    case (Put_Front x)
    obtain m' where "put_front m x = Some m'" "inv m'" "abs m' = x # abs m" using put_front_ok Cons.prems(1,2) by force
    then show ?thesis using Cons.IH [of m' out] Cons.prems Put_Front by simp
  next
    case Take
    then obtain x xs o' where x: "abs m = x # xs" "list_steps xs ss = Some o'" "out = x # o'"
      using Cons.prems(3) by (cases "abs m") (auto simp: bind_eq_Some_conv)
    obtain m' where "get m = Some (x, m')" "inv m'" "abs m' = xs" using get_ok Cons.prems(1) x(1) by blast
    then show ?thesis using Cons.IH [of m' o'] Cons.prems Take x by simp
  next
    case Take_Back
    then obtain x xs o' where x: "abs m = xs @ [x]" "list_steps xs ss = Some o'" "out = x # o'"
      using Cons.prems(3) by (cases "abs m" rule: rev_cases) (auto simp: bind_eq_Some_conv)
    obtain m' where "get_back m = Some (x, m')" "inv m'" "abs m' = xs" using get_back_ok Cons.prems(1) x(1) by blast
    then show ?thesis using Cons.IH [of m' o'] Cons.prems Take_Back x by simp
  qed
qed simp

end

section \<open>The rings keep the contracts\<close>

text \<open>The arena has memory for arrays of twice the limit.\<close>

definition roomy :: "(int \<Rightarrow> 'a list option) \<Rightarrow> nat \<Rightarrow> bool" where
  "roomy alloc lim \<longleftrightarrow> gives_arrays alloc \<and> (\<forall>n. 0 < n \<and> n \<le> 2 * int lim + 2 \<longrightarrow> alloc n \<noteq> None)"

lemma roomy_alloc:
  assumes "roomy alloc lim" "ring_inv r" "length (ring_abs r) < lim" "\<not> rlen r < rcap r"
  shows "alloc (if rcap r \<noteq> 0 then rcap r * 2 else 4) \<noteq> None"
proof -
  have "0 \<le> rcap r" "rcap r < int lim" using assms(2-4) by (auto simp: ring_inv_def)
  then have "0 < (if rcap r \<noteq> 0 then rcap r * 2 else 4)" "(if rcap r \<noteq> 0 then rcap r * 2 else 4) \<le> 2 * int lim + 2"
    by auto
  then show ?thesis using assms(1) unfolding roomy_def by blast
qed

definition queue_take :: "'a ring \<Rightarrow> ('a \<times> 'a ring) option" where
  "queue_take r = stl_queue_pop_front r"

definition deque_take :: "'a ring \<Rightarrow> ('a \<times> 'a ring) option" where
  "deque_take r = map_option (\<lambda>x. (x, stl_deque_pop_front r)) (ring_front r)"

definition deque_take_back :: "'a ring \<Rightarrow> ('a \<times> 'a ring) option" where
  "deque_take_back r = map_option (\<lambda>x. (x, stl_deque_pop_back r)) (ring_back r)"

text \<open>With memory both ways to add an element succeed.\<close>

lemma roomy_push:
  assumes "roomy alloc lim" "ring_inv r" "length (ring_abs r) < lim"
  shows "\<exists>r'. ring_push_back alloc r x = Some r' \<and> ring_inv r' \<and> ring_abs r' = ring_abs r @ [x]"
    "\<exists>r'. stl_deque_push_front alloc r x = Some r' \<and> ring_inv r' \<and> ring_abs r' = x # ring_abs r"
proof -
  have a: "gives_arrays alloc" using assms(1) by (simp add: roomy_def)
  show "\<exists>r'. ring_push_back alloc r x = Some r' \<and> ring_inv r' \<and> ring_abs r' = ring_abs r @ [x]"
  proof (cases "rlen r < rcap r")
    case True
    then have "ring_grow alloc r = Some r" by (simp add: ring_grow_def)
    then show ?thesis using ring_add_back [OF assms(2) True, of x] True by (simp add: ring_push_back_def)
  next
    case False
    then show ?thesis using ring_push_back_ok [OF a assms(2), of x] by (auto dest: roomy_alloc [OF assms])
  qed
  show "\<exists>r'. stl_deque_push_front alloc r x = Some r' \<and> ring_inv r' \<and> ring_abs r' = x # ring_abs r"
  proof (cases "rlen r < rcap r")
    case True
    then have "ring_grow alloc r = Some r" by (simp add: ring_grow_def)
    then show ?thesis using ring_add_front [OF assms(2) True, of x] True by (simp add: stl_deque_push_front_def Let_def)
  next
    case False
    then show ?thesis using stl_deque_push_front_ok [OF a assms(2), of x] by (auto dest: roomy_alloc [OF assms])
  qed
qed

interpretation stl_queue: fifo "\<lambda>r. roomy alloc lim \<and> ring_inv r" ring_abs lim "ring_push_back alloc" queue_take
  for alloc :: "int \<Rightarrow> 'a list option" and lim
proof
  fix r :: "'a ring" and x :: 'a assume r: "roomy alloc lim \<and> ring_inv r"
  show "\<exists>r'. ring_push_back alloc r x = Some r' \<and> (roomy alloc lim \<and> ring_inv r') \<and> ring_abs r' = ring_abs r @ [x]"
    if "length (ring_abs r) < lim" using roomy_push(1) [of alloc lim r x] r that by simp
  show "\<exists>r'. queue_take r = Some (x, r') \<and> (roomy alloc lim \<and> ring_inv r') \<and> ring_abs r' = xs" if "ring_abs r = x # xs" for xs
    using stl_queue_pop_front_ok [OF _ that] r by (simp add: queue_take_def)
qed

interpretation stl_deque: double_ended "\<lambda>r. roomy alloc lim \<and> ring_inv r" ring_abs lim "ring_push_back alloc" deque_take
    "stl_deque_push_front alloc" deque_take_back
  for alloc :: "int \<Rightarrow> 'a list option" and lim
proof
  fix r :: "'a ring" and x :: 'a assume r: "roomy alloc lim \<and> ring_inv r"
  show "\<exists>r'. ring_push_back alloc r x = Some r' \<and> (roomy alloc lim \<and> ring_inv r') \<and> ring_abs r' = ring_abs r @ [x]"
    if "length (ring_abs r) < lim" using roomy_push(1) [of alloc lim r x] r that by simp
  show "\<exists>r'. stl_deque_push_front alloc r x = Some r' \<and> (roomy alloc lim \<and> ring_inv r') \<and> ring_abs r' = x # ring_abs r"
    if "length (ring_abs r) < lim" using roomy_push(2) [of alloc lim r x] r that by simp
  show "\<exists>r'. deque_take r = Some (x, r') \<and> (roomy alloc lim \<and> ring_inv r') \<and> ring_abs r' = xs" if "ring_abs r = x # xs" for xs
    using ring_front_ok(1) [OF _ that] stl_deque_pop_front_ok [OF _ that] r by (simp add: deque_take_def)
  show "\<exists>r'. deque_take_back r = Some (x, r') \<and> (roomy alloc lim \<and> ring_inv r') \<and> ring_abs r' = xs" if "ring_abs r = xs @ [x]" for xs
    using ring_back_ok(1) [OF _ that] stl_deque_pop_back_ok [OF _ that] r by (simp add: deque_take_back_def)
qed

text \<open>C35: With memory for the elements, a program on a deque takes out what it takes out of a list, and a program that
  adds behind and takes in front only takes the same out of a queue.\<close>

theorem stl_rings_refine:
  assumes "roomy alloc (length ss)" "list_steps [] ss = Some out"
  shows "run_steps (ring_push_back alloc) deque_take (stl_deque_push_front alloc) deque_take_back ring_init ss = Some out \<and>
    (list_all queue_step ss \<longrightarrow>
      run_steps (ring_push_back alloc) queue_take (\<lambda>_ _. None) (\<lambda>_. None) ring_init ss = Some out)"
proof (intro conjI impI)
  show "run_steps (ring_push_back alloc) deque_take (stl_deque_push_front alloc) deque_take_back ring_init ss = Some out"
    by (rule stl_deque.run_deque [of alloc "length ss"]) (use assms in simp_all)
  assume "list_all queue_step ss"
  then show "run_steps (ring_push_back alloc) queue_take (\<lambda>_ _. None) (\<lambda>_. None) ring_init ss = Some out"
    by (intro stl_queue.run_queue [of alloc "length ss"]) (use assms in \<open>simp_all add: list_all_iff\<close>)
qed

theorem stl_rings_refine_witness:
  "run_steps (ring_push_back (\<lambda>n. if 0 \<le> n \<and> n \<le> 2 ^ 30 then Some (replicate (nat n) 0) else None)) queue_take (\<lambda>_ _. None)
     (\<lambda>_. None) ring_init [Put 1, Put 2, Take, Put 3, Take, Take] = Some [1, 2, 3::nat]"
proof -
  have "roomy (\<lambda>n. if 0 \<le> n \<and> n \<le> 2 ^ 30 then Some (replicate (nat n) (0::nat)) else None)
      (length [Put (1::nat), Put 2, Take, Put 3, Take, Take])"
    by (auto simp: roomy_def gives_arrays_def)
  moreover have "list_steps [] [Put 1, Put 2, Take, Put 3, Take, Take] = Some [1, 2, 3::nat]" by simp
  moreover have "list_all queue_step [Put (1::nat), Put 2, Take, Put 3, Take, Take]" by (simp add: queue_step_def)
  ultimately show ?thesis using stl_rings_refine by blast
qed

text \<open>When there is no memory the element is dropped, and the caller is not told. A removal from an empty queue
  that had elements gives the stale one at the start and leaves a negative count.\<close>

lemma push_back_drops:
  "ring_inv r \<Longrightarrow> rlen r = rcap r \<Longrightarrow> alloc (if rcap r \<noteq> 0 then rcap r * 2 else 4) = None \<Longrightarrow> ring_push_back alloc r x = Some r"
  by (simp add: ring_push_back_def ring_grow_def)

lemma pop_front_empty:
  "stl_queue_pop_front \<lparr>rdata = [v], rbegin = 0, rlen = 0, rcap = 1\<rparr> = Some (v, \<lparr>rdata = [v], rbegin = 0, rlen = -1, rcap = 1\<rparr>)"
  by (simp add: stl_queue_pop_front_def aget_def)

end
