(* ===== verification/Arm64_Imm.thy ===== *)
theory Arm64_Imm
  imports Tcc_Prelude
begin

unbundle bit_operations_syntax

text \<open>
  Constants on arm64 (\<open>arm64-gen.c\<close>): the encoding of bit masks as immediates of the logical instructions. It is compared
  with the architecture: \<open>decode_bimm\<close> is the pseudocode \<open>DecodeBitMasks\<close> of the manual. A mask is a cyclic run of ones
  (\<open>cyc\<close>) in an element that is repeated; the encoder finds the smallest element and the run in it by halving counts.
\<close>

section \<open>The encoding of bit masks\<close>

definition bimm_rep :: "u64 \<Rightarrow> nat \<times> u64" where
  "bimm_rep x =
     (if drop_bit 2 x = x AND (push_bit (64 - 2) 1 - 1) then (2, x AND (push_bit 2 1 - 1))
      else if drop_bit 4 x = x AND (push_bit (64 - 4) 1 - 1) then (4, x AND (push_bit 4 1 - 1))
      else if drop_bit 8 x = x AND (push_bit (64 - 8) 1 - 1) then (8, x AND (push_bit 8 1 - 1))
      else if drop_bit 16 x = x AND (push_bit (64 - 16) 1 - 1) then (16, x AND (push_bit 16 1 - 1))
      else if drop_bit 32 x = x AND (push_bit (64 - 32) 1 - 1) then (32, x AND (push_bit 32 1 - 1))
      else (64, x))"

definition zeros_step :: "nat \<Rightarrow> u64 \<times> nat \<Rightarrow> u64 \<times> nat" where
  "zeros_step k = (\<lambda>(x, pos). if x AND (push_bit k 1 - 1) = 0 then (drop_bit k x, pos + k) else (x, pos))"

definition ones_step :: "nat \<Rightarrow> u64 \<times> nat \<Rightarrow> u64 \<times> nat" where
  "ones_step k = (\<lambda>(x, len). if NOT x AND (push_bit k 1 - 1) = 0 then (drop_bit k x, len + k) else (x, len))"

definition bimm_zeros :: "u64 \<Rightarrow> u64 \<times> nat" where
  "bimm_zeros x = fold zeros_step [32, 16, 8, 4, 2, 1] (x, 0)"

definition bimm_ones :: "u64 \<Rightarrow> u64 \<times> nat" where
  "bimm_ones x = fold ones_step [32, 16, 8, 4, 2, 1] (x, 0)"

definition bimm_fields :: "nat \<Rightarrow> nat \<Rightarrow> nat \<Rightarrow> nat" where
  "bimm_fields rep pos len =
     (0x1000 AND push_bit 6 rep) OR (push_bit 1 ((rep - 1) XOR 31) AND 63) OR
     push_bit 6 ((rep - pos) AND (rep - 1)) OR (len - 1)"

definition arm64_encode_bimm64 :: "u64 \<Rightarrow> int" where
  "arm64_encode_bimm64 x =
     (let neg = (x AND 1 \<noteq> 0); x = (if neg then NOT x else x) in
      if x = 0 then - 1
      else
        let (rep, x) = bimm_rep x; (x, pos) = bimm_zeros x; (x, len) = bimm_ones x in
        if x \<noteq> 0 then - 1
        else let (pos, len) = (if neg then ((pos + len) AND (rep - 1), rep - len) else (pos, len)) in
          int (bimm_fields rep pos len))"

section \<open>The decoding of the architecture\<close>

text \<open>The 13 bits \<open>N\<close>, \<open>immr\<close>, \<open>imms\<close>: the highest bit set of \<open>N\<close> and the complement of \<open>imms\<close> gives the size of the
  element, in which \<open>S + 1\<close> ones are rotated right by \<open>R\<close>.\<close>

definition bimm_esize :: "nat \<Rightarrow> nat" where
  "bimm_esize e =
     (if bit e 12 then 64 else if \<not> bit e 5 then 32 else if \<not> bit e 4 then 16 else if \<not> bit e 3 then 8
      else if \<not> bit e 2 then 4 else if \<not> bit e 1 then 2 else 0)"

definition word_of_bits :: "(nat \<Rightarrow> bool) \<Rightarrow> u64" where
  "word_of_bits f = horner_sum of_bool 2 (map f [0..<64])"

definition decode_bimm :: "nat \<Rightarrow> u64 option" where
  "decode_bimm e =
     (let n = bimm_esize e; S = e mod n; R = (e div 64) mod n in
      if n = 0 \<or> S = n - 1 then None else Some (word_of_bits (\<lambda>i. (i + R) mod n \<le> S)))"

lemma bit_word_of_bits: "bit (word_of_bits f) i \<longleftrightarrow> i < 64 \<and> f i"
  by (auto simp: word_of_bits_def bit_horner_sum_bit_word_iff)

section \<open>Counting\<close>

lemma exp_mask: "push_bit k 1 - 1 = (mask k :: u64)"
  by (simp add: mask_eq_exp_minus_1)

lemma and_exp_mask: "x AND (push_bit k 1 - 1) = take_bit k (x :: u64)"
  by (simp only: exp_mask take_bit_eq_mask)

lemma Least_shift:
  fixes P :: "nat \<Rightarrow> bool"
  assumes "\<exists>n. P n" "\<forall>i<k. \<not> P i"
  shows "(LEAST n. P n) = k + (LEAST n. P (k + n))" "\<exists>n. P (k + n)"
proof -
  obtain n where "P n" using assms(1) by blast
  then have "k \<le> n" using assms(2) by (meson not_le_imp_less)
  then show ex: "\<exists>n. P (k + n)" using \<open>P n\<close> by (metis le_add_diff_inverse)
  show "(LEAST n. P n) = k + (LEAST n. P (k + n))"
  proof (rule Least_equality)
    show "P (k + (LEAST n. P (k + n)))" using ex by (rule LeastI_ex)
    fix y assume "P y"
    then have "k \<le> y" using assms(2) by (meson not_le_imp_less)
    then show "k + (LEAST n. P (k + n)) \<le> y" using Least_le [of "\<lambda>n. P (k + n)" "y - k"] \<open>P y\<close> by simp
  qed
qed

text \<open>A halving count of the leading positions where \<open>P\<close> does not hold.\<close>

definition tz :: "u64 \<Rightarrow> nat" where "tz x = (LEAST n. bit x n)"
definition tones :: "u64 \<Rightarrow> nat" where "tones x = (LEAST n. \<not> bit x n)"

lemma bit_less_64: "bit (x :: u64) n \<Longrightarrow> n < 64"
  using bit_imp_le_length [of x n] by simp

lemma word_nonzero: "x \<noteq> 0 \<longleftrightarrow> (\<exists>n. bit (x :: u64) n)"
  by (auto simp: bit_eq_iff dest: bit_less_64)

lemma take_bit_zero: "take_bit k (x :: u64) = 0 \<longleftrightarrow> (\<forall>i<k. i < 64 \<longrightarrow> \<not> bit x i)"
  by (auto simp: bit_eq_iff bit_take_bit_iff)

lemma tz_bit: "x \<noteq> 0 \<Longrightarrow> bit x (tz x)" "i < tz x \<Longrightarrow> \<not> bit x i"
  unfolding tz_def word_nonzero by (rule LeastI_ex) (auto dest: not_less_Least)

lemma tones_bit: "\<not> bit x (tones x)" "i < tones x \<Longrightarrow> bit x i"
proof -
  have "\<exists>n. \<not> bit x n" by (rule exI [of _ 64]) (simp add: bit_word.rep_eq)
  then show "\<not> bit x (tones x)" unfolding tones_def by (rule LeastI_ex)
  show "i < tones x \<Longrightarrow> bit x i" unfolding tones_def by (auto dest: not_less_Least)
qed

text \<open>After the step with \<open>k\<close> fewer than \<open>k\<close> positions are left to count.\<close>

definition zeros_inv :: "u64 \<Rightarrow> nat \<Rightarrow> u64 \<times> nat \<Rightarrow> bool" where
  "zeros_inv x k = (\<lambda>(y, p). y \<noteq> 0 \<and> tz y < k \<and> p + tz y = tz x \<and> y = drop_bit p x)"

definition ones_inv :: "u64 \<Rightarrow> nat \<Rightarrow> u64 \<times> nat \<Rightarrow> bool" where
  "ones_inv x k = (\<lambda>(y, p). tones y < k \<and> p + tones y = tones x \<and> y = drop_bit p x)"

lemma zeros_step_inv:
  assumes "zeros_inv x (2 * k) s" "k < 64"
  shows "zeros_inv x k (zeros_step k s)"
proof -
  obtain y p where s: "s = (y, p)" by (cases s)
  have y: "y \<noteq> 0" "tz y < 2 * k" "p + tz y = tz x" "y = drop_bit p x" using assms(1) unfolding s zeros_inv_def prod.case by blast+
  show ?thesis
  proof (cases "take_bit k y = 0")
    case False
    have "tz y < k"
    proof (rule ccontr)
      assume "\<not> tz y < k"
      then have "\<forall>i<k. \<not> bit y i" using tz_bit(2) [of _ y] by auto
      then show False using False by (auto simp: take_bit_zero)
    qed
    then show ?thesis using y False unfolding zeros_step_def and_exp_mask by (simp add: s zeros_inv_def)
  next
    case True
    have ex: "\<exists>n. bit y n" using y(1) word_nonzero by blast
    have no: "\<forall>i<k. \<not> bit y i" using True assms(2) by (auto simp: take_bit_zero)
    have "tz y = k + tz (drop_bit k y)" using Least_shift(1) [OF ex no] by (simp add: tz_def bit_drop_bit_eq)
    moreover have "drop_bit k y \<noteq> 0" using Least_shift(2) [OF ex no] by (auto simp: word_nonzero bit_drop_bit_eq)
    ultimately show ?thesis using y True unfolding zeros_step_def and_exp_mask by (simp add: s zeros_inv_def add.commute)
  qed
qed

lemma ones_step_inv:
  assumes "ones_inv x (2 * k) s" "k < 64"
  shows "ones_inv x k (ones_step k s)"
proof -
  obtain y p where s: "s = (y, p)" by (cases s)
  have y: "tones y < 2 * k" "p + tones y = tones x" "y = drop_bit p x" using assms(1) unfolding s ones_inv_def prod.case by blast+
  have t: "take_bit k (NOT y) = 0 \<longleftrightarrow> (\<forall>i<k. bit y i)" using assms(2) by (auto simp: take_bit_zero bit_not_iff)
  show ?thesis
  proof (cases "\<forall>i<k. bit y i")
    case False
    have "tones y < k"
    proof (rule ccontr)
      assume "\<not> tones y < k"
      then show False using False tones_bit(2) [of _ y] by auto
    qed
    moreover have "take_bit k (NOT y) \<noteq> 0" using False t by blast
    ultimately show ?thesis using y unfolding ones_step_def and_exp_mask by (simp add: s ones_inv_def)
  next
    case True
    then have "tones y = k + tones (drop_bit k y)"
      using Least_shift(1) [of "\<lambda>n. \<not> bit y n" k] tones_bit(1) [of y] by (auto simp: tones_def bit_drop_bit_eq)
    moreover have "take_bit k (NOT y) = 0" using True t by blast
    ultimately show ?thesis using y unfolding ones_step_def and_exp_mask by (simp add: s ones_inv_def add.commute)
  qed
qed

lemma bimm_zeros_ok:
  assumes "x \<noteq> 0"
  shows "bimm_zeros x = (drop_bit (tz x) x, tz x)"
proof -
  have "zeros_inv x 64 (x, 0)" using assms tz_bit(1) [OF assms] by (simp add: zeros_inv_def bit_less_64)
  then have "zeros_inv x 1 (bimm_zeros x)"
    using zeros_step_inv [of x 32] zeros_step_inv [of x 16] zeros_step_inv [of x 8] zeros_step_inv [of x 4] zeros_step_inv [of x 2] zeros_step_inv [of x 1]
    by (simp add: bimm_zeros_def)
  then show ?thesis by (auto simp: zeros_inv_def)
qed

lemma bimm_ones_ok:
  assumes "tones x < 64"
  shows "bimm_ones x = (drop_bit (tones x) x, tones x)"
proof -
  have "ones_inv x 64 (x, 0)" using assms by (simp add: ones_inv_def)
  then have "ones_inv x 1 (bimm_ones x)"
    using ones_step_inv [of x 32] ones_step_inv [of x 16] ones_step_inv [of x 8] ones_step_inv [of x 4] ones_step_inv [of x 2] ones_step_inv [of x 1]
    by (simp add: bimm_ones_def)
  then show ?thesis by (auto simp: ones_inv_def)
qed

section \<open>The period\<close>

definition periodic :: "nat \<Rightarrow> u64 \<Rightarrow> bool" where
  "periodic r x \<longleftrightarrow> (\<forall>n<64. bit x n \<longleftrightarrow> bit x (n mod r))"

lemma periodic_shift:
  assumes "r \<le> 64" "0 < r"
  shows "drop_bit r x = x AND (push_bit (64 - r) 1 - 1) \<longleftrightarrow> periodic r x"
proof -
  have "drop_bit r x = x AND (push_bit (64 - r) 1 - 1) \<longleftrightarrow> (\<forall>n. n + r < 64 \<longrightarrow> (bit x (n + r) \<longleftrightarrow> bit x n))"
    unfolding and_exp_mask
    by (auto simp: bit_eq_iff bit_take_bit_iff bit_drop_bit_eq add.commute dest: bit_less_64)
  also have "\<dots> \<longleftrightarrow> periodic r x"
  proof
    assume h: "\<forall>n. n + r < 64 \<longrightarrow> (bit x (n + r) \<longleftrightarrow> bit x n)"
    have "bit x n \<longleftrightarrow> bit x (n mod r)" if "n < 64" for n
      using that
    proof (induction n rule: less_induct)
      case (less n)
      show ?case
      proof (cases "n < r")
        case False
        then have "bit x n \<longleftrightarrow> bit x (n - r)" using h [rule_format, of "n - r"] less.prems by simp
        then show ?thesis using less.IH [of "n - r"] less.prems False assms(2) by (simp add: le_mod_geq)
      qed simp
    qed
    then show "periodic r x" by (simp add: periodic_def)
  next
    assume "periodic r x"
    then show "\<forall>n. n + r < 64 \<longrightarrow> (bit x (n + r) \<longleftrightarrow> bit x n)"
      unfolding periodic_def by (metis add_lessD1 mod_add_self2)
  qed
  finally show ?thesis .
qed

definition sizes :: "nat list" where "sizes = [2, 4, 8, 16, 32, 64]"

lemma periodic_64: "periodic 64 x"
  by (simp add: periodic_def)

lemma periodic_double: "periodic r x \<Longrightarrow> r \<in> set sizes \<Longrightarrow> s \<in> set sizes \<Longrightarrow> r \<le> s \<Longrightarrow> periodic s x"
proof -
  assume p: "periodic r x" "r \<in> set sizes" "s \<in> set sizes" "r \<le> s"
  then have "r dvd s" by (auto simp: sizes_def)
  then have "n mod s mod r = n mod r" "n mod s \<le> n" for n by (simp_all add: mod_mod_cancel)
  then show ?thesis using p(1) unfolding periodic_def by (metis order_le_less_trans)
qed

lemma bimm_rep_ok:
  obtains r where "bimm_rep x = (r, take_bit r x)" "r \<in> set sizes" "periodic r x" "\<forall>s\<in>set sizes. s < r \<longrightarrow> \<not> periodic s x"
proof -
  have t: "x AND (push_bit 2 1 - 1) = take_bit 2 x" "x AND (push_bit 4 1 - 1) = take_bit 4 x" "x AND (push_bit 8 1 - 1) = take_bit 8 x"
    "x AND (push_bit 16 1 - 1) = take_bit 16 x" "x AND (push_bit 32 1 - 1) = take_bit 32 x"
    by (rule and_exp_mask)+
  have t6: "take_bit 64 x = x" by (simp add: take_bit_word_eq_self)
  have p: "drop_bit 2 x = x AND (push_bit (64 - 2) 1 - 1) \<longleftrightarrow> periodic 2 x"
    "drop_bit 4 x = x AND (push_bit (64 - 4) 1 - 1) \<longleftrightarrow> periodic 4 x"
    "drop_bit 8 x = x AND (push_bit (64 - 8) 1 - 1) \<longleftrightarrow> periodic 8 x"
    "drop_bit 16 x = x AND (push_bit (64 - 16) 1 - 1) \<longleftrightarrow> periodic 16 x"
    "drop_bit 32 x = x AND (push_bit (64 - 32) 1 - 1) \<longleftrightarrow> periodic 32 x"
    by (rule periodic_shift; simp)+
  have e: "bimm_rep x = (if periodic 2 x then (2, take_bit 2 x) else if periodic 4 x then (4, take_bit 4 x)
      else if periodic 8 x then (8, take_bit 8 x) else if periodic 16 x then (16, take_bit 16 x)
      else if periodic 32 x then (32, take_bit 32 x) else (64, take_bit 64 x))"
    unfolding bimm_rep_def p t t6 ..
  show ?thesis
    by (rule that [of "if periodic 2 x then 2 else if periodic 4 x then 4 else if periodic 8 x then 8 else if periodic 16 x then 16
        else if periodic 32 x then 32 else 64"]) (auto simp: e sizes_def periodic_64)
qed

section \<open>Runs of ones in a cycle\<close>

text \<open>Bit \<open>i\<close> is set when its place in the element, rotated right by \<open>R\<close>, is one of the first \<open>l\<close>.\<close>

definition cyc :: "nat \<Rightarrow> nat \<Rightarrow> nat \<Rightarrow> u64 \<Rightarrow> bool" where
  "cyc n R l x \<longleftrightarrow> (\<forall>i<64. bit x i \<longleftrightarrow> (i + R) mod n < l)"

lemma cyc_iff: "cyc n R l x \<longleftrightarrow> x = word_of_bits (\<lambda>i. (i + R) mod n < l)"
  by (auto simp: bit_eq_iff bit_word_of_bits cyc_def)

lemma decode_bimm_Some:
  "decode_bimm e = Some x \<longleftrightarrow>
     bimm_esize e \<noteq> 0 \<and> e mod bimm_esize e \<noteq> bimm_esize e - 1 \<and>
     cyc (bimm_esize e) ((e div 64) mod bimm_esize e) (Suc (e mod bimm_esize e)) x"
  unfolding decode_bimm_def Let_def cyc_iff less_Suc_eq_le by (cases "bimm_esize e = 0 \<or> e mod bimm_esize e = bimm_esize e - 1") auto

lemma sizes_pos: "n \<in> set sizes \<Longrightarrow> 2 \<le> n \<and> n \<le> 64 \<and> n dvd 64"
  by (auto simp: sizes_def)

lemma size_exp: "n \<in> set sizes \<Longrightarrow> \<exists>j. n = 2 ^ j"
  unfolding sizes_def by (auto intro: exI [of _ 1] exI [of _ 2] exI [of _ 3] exI [of _ 4] exI [of _ 5] exI [of _ 6])

lemma cyc_not:
  assumes "cyc n R l x" "l \<le> n" "0 < n"
  shows "cyc n ((R + n - l) mod n) (n - l) (NOT x)"
proof -
  have "((i + (R + n - l) mod n) mod n < n - l) \<longleftrightarrow> \<not> (i + R) mod n < l" for i
  proof -
    define u where "u = (i + R) mod n"
    have u: "u < n" using assms(3) by (simp add: u_def)
    have "(i + (R + n - l) mod n) mod n = (i + R + (n - l)) mod n" using assms(2) by (simp add: mod_simps add.assoc)
    also have "\<dots> = (u + (n - l)) mod n" by (simp add: u_def mod_simps)
    finally have e: "(i + (R + n - l) mod n) mod n = (u + (n - l)) mod n" .
    show ?thesis
    proof (cases "u < l")
      case True
      then show ?thesis using e assms(2) u_def by simp
    next
      case False
      then have "u + (n - l) = (u - l) + n" using assms(2) by simp
      then have "(u + (n - l)) mod n = (u - l) mod n" by (simp only: mod_add_self2)
      also have "\<dots> = u - l" using u by simp
      finally have "(u + (n - l)) mod n = u - l" .
      then show ?thesis using e False u u_def by simp
    qed
  qed
  then show ?thesis using assms(1) by (simp add: cyc_def bit_not_iff)
qed

text \<open>A run that starts at \<open>p\<close> and stays inside the element.\<close>

lemma run_cyc:
  assumes "1 \<le> p" "p + t \<le> r" "j < (r :: nat)"
  shows "(j + (r - p)) mod r < t \<longleftrightarrow> p \<le> j \<and> j < p + t"
proof (cases "p \<le> j")
  case True
  then have "j + (r - p) = (j - p) + r" using assms by simp
  then have "(j + (r - p)) mod r = (j - p) mod r" by (simp only: mod_add_self2)
  also have "\<dots> = j - p" using assms(3) by simp
  finally show ?thesis using True assms(1) by linarith
next
  case False
  then have "j + (r - p) < r" using assms by linarith
  then have "(j + (r - p)) mod r = j + (r - p)" by (rule mod_less)
  then show ?thesis using False assms(1,2) by linarith
qed

lemma periodic_block:
  assumes "periodic r x" "i < 64" "0 < r" "r \<le> 64"
  shows "bit x i \<longleftrightarrow> bit (take_bit r x) (i mod r)"
  using assms by (simp add: periodic_def bit_take_bit_iff)

text \<open>What the two counts find.\<close>

lemma block_run:
  assumes "b \<noteq> 0" "drop_bit (tones (drop_bit (tz b) b)) (drop_bit (tz b) b) = 0"
  shows "bit b n \<longleftrightarrow> tz b \<le> n \<and> n < tz b + tones (drop_bit (tz b) b)"
proof -
  let ?p = "tz b" and ?t = "tones (drop_bit (tz b) b)"
  consider "n < ?p" | "?p \<le> n" "n < ?p + ?t" | "?p + ?t \<le> n" by linarith
  then show ?thesis
  proof cases
    case 1
    then show ?thesis using tz_bit(2) by auto
  next
    case 2
    then have "bit (drop_bit ?p b) (n - ?p)" using tones_bit(2) [of "n - ?p" "drop_bit ?p b"] by simp
    then show ?thesis using 2 by (simp add: bit_drop_bit_eq)
  next
    case 3
    have "bit b n = bit (drop_bit ?t (drop_bit ?p b)) (n - ?p - ?t)" using 3 by (simp add: bit_drop_bit_eq)
    also have "\<dots> = False" unfolding assms(2) by simp
    finally show ?thesis using 3 by simp
  qed
qed

lemma run_block:
  assumes "\<And>n. bit b n \<longleftrightarrow> p \<le> n \<and> n < p + t" "1 \<le> t"
  shows "tz b = p" "tones (drop_bit p b) = t" "drop_bit t (drop_bit p b) = 0"
proof -
  show "tz b = p" unfolding tz_def by (rule Least_equality) (use assms in auto)
  show "tones (drop_bit p b) = t" unfolding tones_def by (rule Least_equality) (use assms in \<open>auto simp: bit_drop_bit_eq\<close>)
  show "drop_bit t (drop_bit p b) = 0" using assms by (auto simp: bit_eq_iff bit_drop_bit_eq)
qed

lemma tones_less:
  assumes "\<not> bit b 63 \<or> p \<noteq> 0"
  shows "tones (drop_bit p b) < 64"
proof -
  have "\<not> bit (drop_bit p b) 63" using assms bit_less_64 [of b "p + 63"] by (auto simp: bit_drop_bit_eq)
  then have "tones (drop_bit p b) \<le> 63" unfolding tones_def by (rule Least_le)
  then show ?thesis by simp
qed

section \<open>The fields\<close>

lemma or_low:
  assumes "b < 2 ^ k"
  shows "push_bit k a OR b = push_bit k a + (b :: nat)"
proof -
  have b: "take_bit k b = b" using assms by (rule take_bit_nat_eq_self)
  have "push_bit k a AND take_bit k b = 0" by (simp add: bit_eq_iff bit_simps)
  then have "push_bit k a AND b = 0" unfolding b .
  then show ?thesis by (simp add: disjunctive_add_eq_or)
qed

definition size_marker :: "nat \<Rightarrow> nat" where
  "size_marker n = (if n = 64 then 4096 else 64 - 2 * n)"

lemma bimm_fields_sum:
  assumes n: "n \<in> set sizes" and l: "1 \<le> l" "l \<le> n"
  shows "bimm_fields n p l = size_marker n + 64 * ((n - p) mod n) + (l - 1)"
proof -
  obtain j where j: "n = 2 ^ j" using size_exp [OF n] by blast
  define R where "R = (n - p) mod n"
  have R: "(n - p) AND (n - 1) = R" unfolding R_def by (rule mask_index [OF j])
  have "R < n" using sizes_pos [OF n] by (simp add: R_def)
  have f: "bimm_fields n p l = (0x1000 AND push_bit 6 n) OR ((push_bit 1 ((n - 1) XOR 31) AND 63) OR (push_bit 6 R OR (l - 1)))"
    by (simp only: bimm_fields_def R)
  have r: "push_bit 6 R = 64 * R" by (simp add: push_bit_eq_mult)
  consider "n = 2" | "n = 4" | "n = 8" | "n = 16" | "n = 32" | "n = 64" using n by (auto simp: sizes_def)
  then have "bimm_fields n p l = size_marker n + 64 * R + (l - 1)"
  proof cases
    case 6
    have a: "push_bit 6 R OR (l - 1) = 64 * R + (l - 1)" using or_low [of "l - 1" 6 R] l 6 by (simp add: r)
    have "4096 OR (64 * R + (l - 1)) = 4096 + (64 * R + (l - 1))"
      using or_low [of "64 * R + (l - 1)" 12 1] \<open>R < n\<close> l 6 by (simp add: push_bit_eq_mult)
    then show ?thesis using 6 unfolding f a by (simp add: size_marker_def)
  next
    case 1
    have "60 OR (l - 1) = 60 + (l - 1)" using or_low [of "l - 1" 2 15] l 1 by (simp add: push_bit_eq_mult)
    moreover have "push_bit 6 R OR (60 + (l - 1)) = push_bit 6 R + (60 + (l - 1))" by (rule or_low) (use l 1 in simp)
    ultimately show ?thesis using 1 unfolding f by (simp add: size_marker_def r or.left_commute [of 60])
  next
    case 2
    have "56 OR (l - 1) = 56 + (l - 1)" using or_low [of "l - 1" 3 7] l 2 by (simp add: push_bit_eq_mult)
    moreover have "push_bit 6 R OR (56 + (l - 1)) = push_bit 6 R + (56 + (l - 1))" by (rule or_low) (use l 2 in simp)
    ultimately show ?thesis using 2 unfolding f by (simp add: size_marker_def r or.left_commute [of 56])
  next
    case 3
    have "48 OR (l - 1) = 48 + (l - 1)" using or_low [of "l - 1" 4 3] l 3 by (simp add: push_bit_eq_mult)
    moreover have "push_bit 6 R OR (48 + (l - 1)) = push_bit 6 R + (48 + (l - 1))" by (rule or_low) (use l 3 in simp)
    ultimately show ?thesis using 3 unfolding f by (simp add: size_marker_def r or.left_commute [of 48])
  next
    case 4
    have "32 OR (l - 1) = 32 + (l - 1)" using or_low [of "l - 1" 5 1] l 4 by (simp add: push_bit_eq_mult)
    moreover have "push_bit 6 R OR (32 + (l - 1)) = push_bit 6 R + (32 + (l - 1))" by (rule or_low) (use l 4 in simp)
    ultimately show ?thesis using 4 unfolding f by (simp add: size_marker_def r or.left_commute [of 32])
  next
    case 5
    have "push_bit 6 R OR (l - 1) = push_bit 6 R + (l - 1)" by (rule or_low) (use l 5 in simp)
    then show ?thesis using 5 unfolding f by (simp add: size_marker_def r)
  qed
  then show ?thesis by (simp add: R_def)
qed

lemma bits_above:
  fixes l :: nat
  assumes "l < 2 ^ k" "m = 2 ^ k * a + l"
  shows "k \<le> i \<Longrightarrow> bit m i \<longleftrightarrow> bit a (i - k)" "m mod 2 ^ k = l"
proof -
  assume "k \<le> i"
  then have "(2 :: nat) ^ i = 2 ^ k * 2 ^ (i - k)" by (simp flip: power_add)
  moreover have "m div 2 ^ k = a" using assms by simp
  ultimately show "bit m i \<longleftrightarrow> bit a (i - k)" by (simp add: bit_iff_odd div_mult2_eq)
qed (use assms in simp)

text \<open>The decoder reads back the size, the rotation and the length.\<close>

lemma fields_decode:
  assumes n: "n \<in> set sizes" and R: "R < n" and l: "l < n"
  shows "bimm_esize (size_marker n + 64 * R + l) = n" "(size_marker n + 64 * R + l) mod n = l"
    "((size_marker n + 64 * R + l) div 64) mod n = R" "size_marker n + 64 * R + l < 2 ^ 13"
proof -
  define e where "e = size_marker n + 64 * R + l"
  have "bimm_esize e = n \<and> e mod n = l \<and> (e div 64) mod n = R \<and> e < 2 ^ 13"
  proof (cases "n = 64")
    case True
    have "e = l + (64 + R) * 64" using True by (simp add: e_def size_marker_def)
    then have "e div 64 = 64 + R + l div 64" "e mod 64 = l mod 64" by (simp_all only: mod_mult_self1) simp
    then have "e div 64 = 64 + R" "e mod 64 = l" using l True by simp_all
    moreover have "e = 4096 + (64 * R + l)" "64 * R + l < 4096" using R l True by (simp_all add: e_def size_marker_def)
    then have "e div 4096 = 1" "e < 2 ^ 13" by simp_all
    ultimately show ?thesis using True R by (simp add: bimm_esize_def bit_iff_odd mod_add_self1)
  next
    case False
    define m where "m = 64 - 2 * n + l"
    have m: "m < 64" "e = m + R * 64" using False n l by (auto simp: m_def e_def size_marker_def sizes_def)
    then have e: "e div 64 = R" "e mod 64 = m" by simp_all
    have "R < 32" using R False n by (auto simp: sizes_def)
    then have "e < 4096" using m by simp
    then have "\<not> bit e 12" "e < 2 ^ 13" by (simp_all add: bit_iff_odd)
    have "take_bit 6 e = m" using e(2) by (simp add: take_bit_eq_mod)
    then have b: "bit e k \<longleftrightarrow> bit m k" if "k < 6" for k using that bit_take_bit_iff [of 6 e k] by simp
    have "e mod n = e mod 64 mod n" using sizes_pos [OF n] by (simp add: mod_mod_cancel)
    then have em: "e mod n = m mod n" using e(2) by simp
    consider "n = 2" | "n = 4" | "n = 8" | "n = 16" | "n = 32" using n False by (auto simp: sizes_def)
    then have "bimm_esize e = n \<and> m mod n = l"
    proof cases
      case 1
      have a: "l < 2 ^ 1" "m = 2 ^ 1 * 30 + l" using l 1 by (simp_all add: m_def)
      have "bit m 5" "bit m 4" "bit m 3" "bit m 2" "\<not> bit m 1" "m mod n = l"
        using bits_above [OF a] 1 by (simp_all add: bit_numeral_rec bit_0)
      then show ?thesis using 1 \<open>\<not> bit e 12\<close> by (simp add: bimm_esize_def b)
    next
      case 2
      have a: "l < 2 ^ 2" "m = 2 ^ 2 * 14 + l" using l 2 by (simp_all add: m_def)
      have "bit m 5" "bit m 4" "bit m 3" "\<not> bit m 2" "m mod n = l"
        using bits_above [OF a] 2 by (simp_all add: bit_numeral_rec bit_0)
      then show ?thesis using 2 \<open>\<not> bit e 12\<close> by (simp add: bimm_esize_def b)
    next
      case 3
      have a: "l < 2 ^ 3" "m = 2 ^ 3 * 6 + l" using l 3 by (simp_all add: m_def)
      have "bit m 5" "bit m 4" "\<not> bit m 3" "m mod n = l"
        using bits_above [OF a] 3 by (simp_all add: bit_numeral_rec bit_0)
      then show ?thesis using 3 \<open>\<not> bit e 12\<close> by (simp add: bimm_esize_def b)
    next
      case 4
      have a: "l < 2 ^ 4" "m = 2 ^ 4 * 2 + l" using l 4 by (simp_all add: m_def)
      have "bit m 5" "\<not> bit m 4" "m mod n = l"
        using bits_above [OF a] 4 by (simp_all add: bit_numeral_rec bit_0)
      then show ?thesis using 4 \<open>\<not> bit e 12\<close> by (simp add: bimm_esize_def b)
    next
      case 5
      have a: "l < 2 ^ 5" "m = 2 ^ 5 * 0 + l" using l 5 by (simp_all add: m_def)
      have "\<not> bit m 5" "m mod n = l"
        using bits_above [OF a] 5 by (simp_all add: bit_numeral_rec bit_0)
      then show ?thesis using 5 \<open>\<not> bit e 12\<close> by (simp add: bimm_esize_def b)
    qed
    then show ?thesis using em e(1) R \<open>e < 2 ^ 13\<close> by simp
  qed
  then show "bimm_esize (size_marker n + 64 * R + l) = n" "(size_marker n + 64 * R + l) mod n = l"
    "((size_marker n + 64 * R + l) div 64) mod n = R" "size_marker n + 64 * R + l < 2 ^ 13" unfolding e_def by blast+
qed

section \<open>The encoder is the inverse of the decoder\<close>

text \<open>The encoder on words whose lowest bit is 0: \<open>p\<close> and \<open>t\<close> are the place and the length of the run.\<close>

lemma encode_parts:
  assumes "x \<noteq> 0" "\<not> bit x 0"
  obtains r b p t where "bimm_rep x = (r, b)" "b = take_bit r x" "r \<in> set sizes" "periodic r x" "\<forall>s\<in>set sizes. s < r \<longrightarrow> \<not> periodic s x"
    "b \<noteq> 0" "p = tz b" "t = tones (drop_bit p b)" "bimm_zeros b = (drop_bit p b, p)"
    "bimm_ones (drop_bit p b) = (drop_bit t (drop_bit p b), t)" "1 \<le> p" "1 \<le> t" "p + t \<le> r"
proof -
  obtain r where r: "bimm_rep x = (r, take_bit r x)" "r \<in> set sizes" "periodic r x" "\<forall>s\<in>set sizes. s < r \<longrightarrow> \<not> periodic s x"
    by (rule bimm_rep_ok)
  define b where "b = take_bit r x"
  define p where "p = tz b"
  define t where "t = tones (drop_bit p b)"
  note s = sizes_pos [OF r(2)]
  obtain i where i: "bit x i" using assms(1) word_nonzero by blast
  then have "bit b (i mod r)" using periodic_block [OF r(3), of i] bit_less_64 [OF i] s by (simp add: b_def)
  then have b0: "b \<noteq> 0" by (auto simp: word_nonzero)
  have nb: "bit b n \<longleftrightarrow> n < r \<and> bit x n" for n by (simp add: b_def bit_take_bit_iff)
  have bp: "bit b p" unfolding p_def by (rule tz_bit(1) [OF b0])
  have "p \<noteq> 0" using bp assms(2) nb by (metis)
  then have p: "1 \<le> p" by simp
  have lt: "t < 64" unfolding t_def using p by (intro tones_less) simp
  have t: "1 \<le> t" using bp tones_bit(1) [of "drop_bit p b"] by (cases t) (auto simp: t_def bit_drop_bit_eq)
  have "bit (drop_bit p b) (t - 1)" unfolding t_def by (rule tones_bit(2)) (use t in \<open>simp add: t_def\<close>)
  then have "p + t - 1 < r" using t nb by (simp add: bit_drop_bit_eq)
  then show ?thesis
    using that [of r b p t] r b0 p t bimm_zeros_ok [OF b0] bimm_ones_ok [OF lt [unfolded t_def]]
    by (simp add: b_def p_def t_def)
qed

lemma encode_run_cyc:
  assumes "r \<in> set sizes" "periodic r x" "b = take_bit r x" "b \<noteq> 0" "p = tz b" "t = tones (drop_bit p b)" "1 \<le> p" "p + t \<le> r"
    and "drop_bit t (drop_bit p b) = 0"
  shows "cyc r (r - p) t x"
  unfolding cyc_def
proof (intro allI impI)
  fix i :: nat assume i: "i < 64"
  note s = sizes_pos [OF assms(1)]
  have "bit x i \<longleftrightarrow> bit b (i mod r)" using periodic_block [OF assms(2) i] s assms(3) by simp
  also have "\<dots> \<longleftrightarrow> p \<le> i mod r \<and> i mod r < p + t" using block_run [of b "i mod r"] assms(4-6,9) by simp
  also have "\<dots> \<longleftrightarrow> (i mod r + (r - p)) mod r < t" using run_cyc [OF assms(7,8), of "i mod r"] s by simp
  also have "(i mod r + (r - p)) mod r = (i + (r - p)) mod r" by (simp add: mod_simps)
  finally show "bit x i \<longleftrightarrow> (i + (r - p)) mod r < t" .
qed

lemma fields_of:
  assumes "n \<in> set sizes" "1 \<le> l" "l < n" "cyc n ((n - p) mod n) l x"
  shows "decode_bimm (bimm_fields n p l) = Some x" "bimm_fields n p l < 2 ^ 13"
proof -
  have s: "0 < n" using sizes_pos [OF assms(1)] by simp
  have R: "(n - p) mod n < n" using s by simp
  have l: "l - 1 < n" using assms(3) by simp
  have f: "bimm_fields n p l = size_marker n + 64 * ((n - p) mod n) + (l - 1)" using bimm_fields_sum [OF assms(1)] assms(2,3) by simp
  note d = fields_decode [OF assms(1) R l]
  show "bimm_fields n p l < 2 ^ 13" unfolding f by (rule d(4))
  show "decode_bimm (bimm_fields n p l) = Some x" unfolding f decode_bimm_Some d(1-3) using s assms(2-4) by simp
qed

text \<open>A cyclic run has no shorter period, and when bit 0 is 0 it does not wrap around.\<close>

lemma cyc_periodic:
  assumes "cyc n R l x" "n \<in> set sizes"
  shows "periodic n x"
  using assms(1) sizes_pos [OF assms(2)] unfolding periodic_def cyc_def
  by (metis le_less_trans mod_add_left_eq mod_less_eq_dividend)

lemma cyc_period:
  assumes c: "cyc n R l x" and n: "n \<in> set sizes" and l: "1 \<le> l" "l < n" and R: "R < n"
    and r: "r \<in> set sizes" "periodic r x"
  shows "n \<le> r"
proof (rule ccontr)
  assume "\<not> n \<le> r"
  then have lt: "r < n" by simp
  define h where "h = n div 2"
  have h: "h \<in> set sizes" "n = 2 * h" "r \<le> h" using n r(1) lt unfolding sizes_def h_def by auto
  have ph: "periodic h x" by (rule periodic_double [OF r(2,1) h(1,3)])
  note s = sizes_pos [OF n]
  then have n0: "0 < n" by simp
  have same: "bit x (i mod n) \<longleftrightarrow> bit x ((i + h) mod n)" for i
  proof -
    have "i mod n < 64" "(i + h) mod n < 64" using s mod_less_divisor [OF n0, of i] mod_less_divisor [OF n0, of "i + h"] by linarith+
    moreover have "(i + h) mod n mod h = i mod n mod h" using h(2) by (simp add: mod_mod_cancel)
    ultimately show ?thesis using ph unfolding periodic_def by metis
  qed
  have b: "bit x ((u + (n - R)) mod n) \<longleftrightarrow> u mod n < l" for u
  proof -
    have "(u + (n - R)) mod n < 64" using s mod_less_divisor [OF n0, of "u + (n - R)"] by linarith
    moreover have "((u + (n - R)) mod n + R) mod n = u mod n" using R by (simp add: mod_simps)
    ultimately show ?thesis using c unfolding cyc_def by metis
  qed
  have "bit x ((0 + (n - R)) mod n) \<longleftrightarrow> bit x ((h + (n - R)) mod n)" using same [of "0 + (n - R)"] by (simp add: add.commute)
  then have hl: "h < l" using b [of 0] b [of h] h(2) l s by simp
  have eq: "h - 1 + (n - R) + h = n - 1 + (n - R)" using h(2) sizes_pos [OF h(1)] by simp
  have "bit x ((n - 1 + (n - R)) mod n) \<longleftrightarrow> bit x ((h - 1 + (n - R)) mod n)"
    using same [of "h - 1 + (n - R)"] unfolding eq by blast
  moreover have "\<not> bit x ((n - 1 + (n - R)) mod n)" using b [of "n - 1"] l n0 by (simp; linarith)
  moreover have hm: "(h - 1) mod n = h - 1" by (rule mod_less) (use h(2) n0 in simp)
  have "bit x ((h - 1 + (n - R)) mod n) \<longleftrightarrow> h - 1 < l" using b [of "h - 1"] unfolding hm .
  ultimately have "\<not> h - 1 < l" by simp
  then show False using hl by linarith
qed

lemma cyc_no_wrap:
  assumes c: "cyc n R l x" and n: "n \<in> set sizes" and l: "1 \<le> l" "l < n" and R: "R < n" and x: "\<not> bit x 0" and i: "i < n"
  shows "bit x i \<longleftrightarrow> n - R \<le> i \<and> i < n - R + l" "n - R + l \<le> n" "1 \<le> n - R"
proof -
  have "\<not> R < l" using c x R by (auto simp: cyc_def)
  then show "n - R + l \<le> n" using R by simp
  show "1 \<le> n - R" using R by simp
  have "i < 64" using i sizes_pos [OF n] by simp
  then have b: "bit x i \<longleftrightarrow> (i + R) mod n < l" using c by (simp add: cyc_def)
  show "bit x i \<longleftrightarrow> n - R \<le> i \<and> i < n - R + l"
  proof (cases "i + R < n")
    case True
    then show ?thesis using b \<open>\<not> R < l\<close> by simp
  next
    case False
    then have "(i + R) mod n = i + R - n" using i R by (simp add: le_mod_geq)
    then show ?thesis using b False R by auto
  qed
qed

text \<open>The encoder finds a run of a word whose lowest bit is 0, and nothing else.\<close>

lemma encode_core:
  assumes x: "x \<noteq> 0" "\<not> bit x 0"
  obtains r b p t where "bimm_rep x = (r, b)" "bimm_zeros b = (drop_bit p b, p)" "bimm_ones (drop_bit p b) = (drop_bit t (drop_bit p b), t)"
    "r \<in> set sizes" "1 \<le> p" "1 \<le> t" "p + t \<le> r" "drop_bit t (drop_bit p b) = 0" "cyc r (r - p) t x"
  | r b p t where "bimm_rep x = (r, b)" "bimm_zeros b = (drop_bit p b, p)" "bimm_ones (drop_bit p b) = (drop_bit t (drop_bit p b), t)"
    "drop_bit t (drop_bit p b) \<noteq> 0" "\<And>n R l. n \<in> set sizes \<Longrightarrow> 1 \<le> l \<Longrightarrow> l < n \<Longrightarrow> R < n \<Longrightarrow> \<not> cyc n R l x"
proof -
  obtain r b p t where e: "bimm_rep x = (r, b)" "b = take_bit r x" "r \<in> set sizes" "periodic r x" "\<forall>s\<in>set sizes. s < r \<longrightarrow> \<not> periodic s x"
    "b \<noteq> 0" "p = tz b" "t = tones (drop_bit p b)" "bimm_zeros b = (drop_bit p b, p)"
    "bimm_ones (drop_bit p b) = (drop_bit t (drop_bit p b), t)" "1 \<le> p" "1 \<le> t" "p + t \<le> r"
    by (rule encode_parts [OF x])
  show thesis
  proof (cases "drop_bit t (drop_bit p b) = 0")
    case True
    then show ?thesis using that(1) [OF e(1,9,10,3,11-13) True] encode_run_cyc [OF e(3,4,2,6-8,11,13) True] by blast
  next
    case False
    have "\<not> cyc n R l x" if n: "n \<in> set sizes" "1 \<le> l" "l < n" "R < n" for n R l
    proof
      assume c: "cyc n R l x"
      have "n = r" using cyc_period [OF c n e(3,4)] e(5) n(1) cyc_periodic [OF c n(1)] by (meson le_neq_implies_less)
      have "n - R + l \<le> n" using cyc_no_wrap(2) [OF c n x(2), of 0] sizes_pos [OF n(1)] by simp
      then have "bit b i \<longleftrightarrow> n - R \<le> i \<and> i < n - R + l" for i
        using cyc_no_wrap [OF c n x(2), of i] e(2) \<open>n = r\<close> by (cases "i < n") (auto simp: bit_take_bit_iff)
      from run_block [OF this n(2)] have "drop_bit t (drop_bit p b) = 0" using e(7,8) by simp
      then show False using False by simp
    qed
    then show ?thesis using that(2) [OF e(1,9,10) False] by blast
  qed
qed

lemma decode_cyc:
  assumes "decode_bimm e = Some x"
  obtains n R l where "n \<in> set sizes" "1 \<le> l" "l < n" "R < n" "cyc n R l x"
proof -
  let ?n = "bimm_esize e"
  have d: "?n \<noteq> 0" "e mod ?n \<noteq> ?n - 1" "cyc ?n ((e div 64) mod ?n) (Suc (e mod ?n)) x"
    using assms by (simp_all add: decode_bimm_Some)
  have "?n \<in> set sizes" using d(1) by (auto simp: bimm_esize_def sizes_def split: if_splits)
  moreover have "e mod ?n < ?n" "(e div 64) mod ?n < ?n" using d(1) by simp_all
  moreover from this have "Suc (e mod ?n) < ?n" using d(2) by linarith
  ultimately show ?thesis using that [of ?n "Suc (e mod ?n)" "(e div 64) mod ?n"] d by simp
qed

lemma cyc_not_zero: "cyc n R l x \<Longrightarrow> n \<in> set sizes \<Longrightarrow> 1 \<le> l \<Longrightarrow> R < n \<Longrightarrow> x \<noteq> 0"
proof
  assume a: "cyc n R l x" "n \<in> set sizes" "1 \<le> l" "R < n" and "x = 0"
  have "(n - R) mod n < n" "(n - R) mod n < 64" using sizes_pos [OF a(2)] mod_less_divisor [of n "n - R"] by (linarith | simp)+
  moreover have "((n - R) mod n + R) mod n = 0" using a(4) by (simp add: mod_simps)
  ultimately have "bit x ((n - R) mod n)" using a(1,3) by (simp add: cyc_def)
  then show False using \<open>x = 0\<close> by simp
qed

lemma and_one_bit: "x AND 1 \<noteq> 0 \<longleftrightarrow> bit (x :: u64) 0"
  by (simp add: and_one_eq bit_0 odd_iff_mod_2_eq_one)

lemma no_decode:
  assumes "\<And>n R l. n \<in> set sizes \<Longrightarrow> 1 \<le> l \<Longrightarrow> l < n \<Longrightarrow> R < n \<Longrightarrow> \<not> cyc n R l x"
  shows "Some x \<notin> range decode_bimm"
  using assms decode_cyc by (metis rangeE)

lemma no_decode_not:
  assumes "\<And>n R l. n \<in> set sizes \<Longrightarrow> 1 \<le> l \<Longrightarrow> l < n \<Longrightarrow> R < n \<Longrightarrow> \<not> cyc n R l (NOT x)"
  shows "Some x \<notin> range decode_bimm"
proof (rule no_decode)
  fix n R l assume n: "n \<in> set sizes" "1 \<le> l" "l < n" "R < n"
  have "0 < n" using sizes_pos [OF n(1)] by simp
  then show "\<not> cyc n R l x"
    using cyc_not [of n R l x] assms [of n "n - l" "(R + n - l) mod n"] n by auto
qed

lemma not_cyc_zero: "n \<in> set sizes \<Longrightarrow> 1 \<le> l \<Longrightarrow> l < n \<Longrightarrow> R < n \<Longrightarrow> \<not> cyc n R l 0"
  using cyc_not_zero by blast

lemma wrapped_run:
  assumes "1 \<le> p" "1 \<le> t" "p + t \<le> r"
  shows "(r - (p + t) mod r) mod r = ((r - p) + r - t) mod (r :: nat)"
proof (cases "p + t = r")
  case True
  then have "(r - p) + r - t = r" using assms by simp
  then show ?thesis using True by simp
next
  case False
  then have lt: "p + t < r" and e: "(r - p) + r - t = (r - (p + t)) + r" using assms by simp_all
  show ?thesis unfolding e mod_less [OF lt] by (simp only: mod_add_self2)
qed

lemma encode_even:
  assumes "\<not> bit x 0"
  shows "if arm64_encode_bimm64 x < 0 then Some x \<notin> range decode_bimm
    else decode_bimm (nat (arm64_encode_bimm64 x)) = Some x \<and> arm64_encode_bimm64 x < 2 ^ 13"
proof (cases "x = 0")
  case True
  then show ?thesis using no_decode [OF not_cyc_zero] by (simp add: arm64_encode_bimm64_def)
next
  case False
  then show ?thesis
  proof (rule encode_core [OF _ assms])
    fix r b p t assume e: "bimm_rep x = (r, b)" "bimm_zeros b = (drop_bit p b, p)" "bimm_ones (drop_bit p b) = (drop_bit t (drop_bit p b), t)"
      "r \<in> set sizes" "1 \<le> p" "1 \<le> t" "p + t \<le> r" "drop_bit t (drop_bit p b) = 0" "cyc r (r - p) t x"
    have "arm64_encode_bimm64 x = int (bimm_fields r p t)"
      using assms False e(1-3,8) unfolding arm64_encode_bimm64_def and_one_bit by simp
    moreover have "(r - p) mod r = r - p" using e(5-7) by simp
    ultimately show ?thesis using fields_of [OF e(4,6), of p x] e(5,7,9) by simp
  next
    fix r b p t assume e: "bimm_rep x = (r, b)" "bimm_zeros b = (drop_bit p b, p)" "bimm_ones (drop_bit p b) = (drop_bit t (drop_bit p b), t)"
      "drop_bit t (drop_bit p b) \<noteq> 0" "\<And>n R l. n \<in> set sizes \<Longrightarrow> 1 \<le> l \<Longrightarrow> l < n \<Longrightarrow> R < n \<Longrightarrow> \<not> cyc n R l x"
    have "arm64_encode_bimm64 x = - 1"
      using assms False e(1-4) unfolding arm64_encode_bimm64_def and_one_bit by simp
    then show ?thesis using no_decode [OF e(5)] by simp
  qed
qed

lemma encode_odd:
  assumes "bit x 0"
  shows "if arm64_encode_bimm64 x < 0 then Some x \<notin> range decode_bimm
    else decode_bimm (nat (arm64_encode_bimm64 x)) = Some x \<and> arm64_encode_bimm64 x < 2 ^ 13"
proof (cases "NOT x = 0")
  case True
  then have "Some x \<notin> range decode_bimm" using not_cyc_zero by (intro no_decode_not) simp
  then show ?thesis using True assms unfolding arm64_encode_bimm64_def and_one_bit by simp
next
  case False
  have n0: "\<not> bit (NOT x) 0" using assms by (simp add: bit_not_iff)
  from False show ?thesis
  proof (rule encode_core [OF _ n0])
    fix r b p t assume e: "bimm_rep (NOT x) = (r, b)" "bimm_zeros b = (drop_bit p b, p)" "bimm_ones (drop_bit p b) = (drop_bit t (drop_bit p b), t)"
      "r \<in> set sizes" "1 \<le> p" "1 \<le> t" "p + t \<le> r" "drop_bit t (drop_bit p b) = 0" "cyc r (r - p) t (NOT x)"
    obtain j where j: "r = 2 ^ j" using size_exp [OF e(4)] by blast
    have "arm64_encode_bimm64 x = int (bimm_fields r ((p + t) mod r) (r - t))"
      using assms False e(1-3,8) mask_index [OF j, of "p + t"] unfolding arm64_encode_bimm64_def and_one_bit by simp
    moreover have "cyc r ((r - (p + t) mod r) mod r) (r - t) x"
      using cyc_not [OF e(9)] e(5-7) wrapped_run [OF e(5-7)] by simp
    ultimately show ?thesis using fields_of [OF e(4), of "r - t" "(p + t) mod r" x] e(5-7) by simp
  next
    fix r b p t assume e: "bimm_rep (NOT x) = (r, b)" "bimm_zeros b = (drop_bit p b, p)" "bimm_ones (drop_bit p b) = (drop_bit t (drop_bit p b), t)"
      "drop_bit t (drop_bit p b) \<noteq> 0" "\<And>n R l. n \<in> set sizes \<Longrightarrow> 1 \<le> l \<Longrightarrow> l < n \<Longrightarrow> R < n \<Longrightarrow> \<not> cyc n R l (NOT x)"
    have "arm64_encode_bimm64 x = - 1"
      using assms False e(1-4) unfolding arm64_encode_bimm64_def and_one_bit by simp
    then show ?thesis using no_decode_not [OF e(5)] by simp
  qed
qed

lemma encode_exact:
  "if arm64_encode_bimm64 x < 0 then Some x \<notin> range decode_bimm
   else decode_bimm (nat (arm64_encode_bimm64 x)) = Some x \<and> arm64_encode_bimm64 x < 2 ^ 13"
  using encode_even [of x] encode_odd [of x] by blast

text \<open>C37: The encoder of bit masks is exact: what it returns fits the 13 bits of the instruction and the processor
  decodes it to the constant, and when it gives up no 13 bits decode to the constant.\<close>

theorem arm64_encode_exact:
  "if arm64_encode_bimm64 x < 0 then Some x \<notin> range decode_bimm
   else decode_bimm (nat (arm64_encode_bimm64 x)) = Some x \<and> arm64_encode_bimm64 x < 2 ^ 13"
  by (rule encode_exact)

end
