(* ===== verification/Arm64_Mov.thy ===== *)
theory Arm64_Mov
  imports Arm64_Imm
begin

unbundle bit_operations_syntax

text \<open>
  The instructions that load a constant into a register of arm64 (\<open>arm64-gen.c\<close>, \<open>arm64_movi\<close> and \<open>arm64_movimm\<close>): one
  MOVZ, MOVN or ORR, or a MOVZ or MOVN and MOVKs for the parts that differ. \<open>a64_mov\<close> is what the architecture says of these
  instructions; the lemmas go from the words of the instructions to their fields, to one instruction, to the sequence.
\<close>

section \<open>Loading a constant\<close>

abbreviation (input) ARM64_MOVZ :: u64 where "ARM64_MOVZ \<equiv> 0x52800000"
abbreviation (input) ARM64_MOVN :: u64 where "ARM64_MOVN \<equiv> 0x12800000"
abbreviation (input) ARM64_MOVK :: u64 where "ARM64_MOVK \<equiv> 0xF2800000"
abbreviation (input) ARM64_MOVZ64 :: u64 where "ARM64_MOVZ64 \<equiv> 0xD2800000"
abbreviation (input) ARM64_MOVN64 :: u64 where "ARM64_MOVN64 \<equiv> 0x92800000"
abbreviation (input) ARM64_ORR_IMM :: u64 where "ARM64_ORR_IMM \<equiv> 0x320003E0"

definition ARM64_HW :: "u64 \<Rightarrow> u64" where "ARM64_HW v = push_bit 21 (v AND 3)"
definition ARM64_SF :: "u64 \<Rightarrow> u64" where "ARM64_SF s = push_bit 31 (s AND 1)"

text \<open>One instruction, 0 when none is found. The terms are computed in 64 bits and cut to 32 at the return.\<close>

definition arm64_movi :: "u64 \<Rightarrow> u64 \<Rightarrow> u32" where
  "arm64_movi r x =
     (let m = 0xffff in
      ucast
       (if x AND NOT m = 0 then ARM64_MOVZ OR r OR push_bit 5 x
        else if x AND NOT (push_bit 16 m) = 0 then ARM64_MOVZ OR ARM64_HW 1 OR r OR drop_bit 11 x
        else if x AND NOT (push_bit 32 m) = 0 then ARM64_MOVZ64 OR ARM64_HW 2 OR r OR drop_bit 27 x
        else if x AND NOT (push_bit 48 m) = 0 then ARM64_MOVZ64 OR ARM64_HW 3 OR r OR drop_bit 43 x
        else if x AND NOT m = push_bit 16 m then ARM64_MOVN OR r OR (push_bit 5 (NOT x) AND 0x1fffe0)
        else if x AND NOT (push_bit 16 m) = m then ARM64_MOVN OR ARM64_HW 1 OR r OR (drop_bit 11 (NOT x) AND 0x1fffe0)
        else if NOT (x OR m) = 0 then ARM64_MOVN64 OR r OR (push_bit 5 (NOT x) AND 0x1fffe0)
        else if NOT (x OR push_bit 16 m) = 0 then ARM64_MOVN64 OR ARM64_HW 1 OR r OR (drop_bit 11 (NOT x) AND 0x1fffe0)
        else if NOT (x OR push_bit 32 m) = 0 then ARM64_MOVN64 OR ARM64_HW 2 OR r OR (drop_bit 27 (NOT x) AND 0x1fffe0)
        else if NOT (x OR push_bit 48 m) = 0 then ARM64_MOVN64 OR ARM64_HW 3 OR r OR (drop_bit 43 (NOT x) AND 0x1fffe0)
        else if drop_bit 32 x = 0 \<and> arm64_encode_bimm64 (x OR push_bit 32 x) \<ge> 0
        then ARM64_ORR_IMM OR r OR push_bit 10 (word_of_int (arm64_encode_bimm64 (x OR push_bit 32 x)))
        else if arm64_encode_bimm64 x \<ge> 0
        then ARM64_ORR_IMM OR ARM64_SF 1 OR r OR push_bit 10 (word_of_int (arm64_encode_bimm64 x))
        else 0))"

definition part :: "u64 \<Rightarrow> nat \<Rightarrow> u64" where
  "part x i = drop_bit i x AND 0xffff"

fun movz_loop :: "u64 \<Rightarrow> u64 \<Rightarrow> u64 \<Rightarrow> nat list \<Rightarrow> u64 list \<times> nat list" where
  "movz_loop mov1 r x1 [] = ([], [])"
| "movz_loop mov1 r x1 (i # is) =
     (if part x1 i \<noteq> 0 then ([mov1 OR r OR push_bit 5 (part x1 i) OR push_bit 17 (of_nat i)], is) else movz_loop mov1 r x1 is)"

definition movk_loop :: "u64 \<Rightarrow> u64 \<Rightarrow> u64 \<Rightarrow> nat list \<Rightarrow> u64 list" where
  "movk_loop r x1 x is =
     map (\<lambda>i. ARM64_MOVK OR ARM64_SF 1 OR r OR push_bit 5 (part x i) OR push_bit 17 (of_nat i)) (filter (\<lambda>i. part x1 i \<noteq> 0) is)"

text \<open>The instructions that are emitted. A constant without a part that differs from the filling is loaded by one
  instruction, so the loop for the first part never finds nothing.\<close>

definition arm64_movimm :: "u64 \<Rightarrow> u64 \<Rightarrow> u32 list" where
  "arm64_movimm r x =
     (if arm64_movi r x \<noteq> 0 then [arm64_movi r x]
      else
        let z = length (filter (\<lambda>i. part x i = 0) [0, 16, 32, 48]);
            m = length (filter (\<lambda>i. part (NOT x) i = 0) [0, 16, 32, 48]);
            (x1, mov1) = (if m > z then (NOT x, ARM64_MOVN64) else (x, ARM64_MOVZ64));
            (first, rest) = movz_loop mov1 r x1 [0, 16, 32, 48]
        in map ucast (first @ movk_loop r x1 x rest))"

section \<open>The instructions of the architecture\<close>

text \<open>The moves of a 16-bit immediate and ORR of a bit mask with the zero register: the number of the register that is
  written, and its new value, which depends on the old one. \<open>None\<close> is another or an undefined instruction.\<close>

definition a64_mov :: "nat \<Rightarrow> u64 \<Rightarrow> (nat \<times> u64) option" where
  "a64_mov i old =
     (let sf = bit i 31; opc = i div 2 ^ 29 mod 4; rd = i mod 32; width = (if sf then 64 else 32) in
      if i div 2 ^ 23 mod 64 = 37 then
        let sh = 16 * (i div 2 ^ 21 mod 4); imm = push_bit sh (of_nat (i div 32 mod 2 ^ 16)) in
        if sh \<ge> width then None
        else if opc = 0 then Some (rd, take_bit width (NOT imm))
        else if opc = 2 then Some (rd, take_bit width imm)
        else if opc = 3 then Some (rd, take_bit width ((old AND NOT (push_bit sh 0xffff)) OR imm))
        else None
      else if i div 2 ^ 23 mod 64 = 36 \<and> opc = 1 \<and> i div 32 mod 32 = 31 \<and> (sf \<or> \<not> bit i 22) then
        map_option (\<lambda>w. (rd, take_bit width w)) (decode_bimm (i div 2 ^ 10 mod 2 ^ 13))
      else None)"

text \<open>A sequence of such instructions that all write register \<open>r\<close>.\<close>

fun a64_run :: "nat \<Rightarrow> u32 list \<Rightarrow> u64 \<Rightarrow> u64 option" where
  "a64_run r [] v = Some v"
| "a64_run r (i # is) v =
     (case a64_mov (unat i) v of Some (rd, v) \<Rightarrow> if rd = r then a64_run r is v else None | None \<Rightarrow> None)"

section \<open>The words of the instructions\<close>

lemma or_high:
  assumes "K = 2 ^ k * C" "b < 2 ^ k"
  shows "K OR b = K + (b :: nat)"
  using or_low [OF assms(2), of C] by (simp add: assms(1) push_bit_eq_mult mult.commute)

lemma unat_push_5: "unat (v :: u64) < 2 ^ 16 \<Longrightarrow> unat (push_bit 5 v) = 32 * unat v"
proof -
  assume v: "unat v < 2 ^ 16"
  have "unat (push_bit 5 v) = take_bit 64 (push_bit 5 (unat v))" by (simp only: unsigned_push_bit_eq) simp
  also have "\<dots> = push_bit 5 (unat v)" by (rule take_bit_nat_eq_self) (use v in \<open>simp add: push_bit_eq_mult\<close>)
  finally show ?thesis by (simp add: push_bit_eq_mult)
qed

lemma unat_32:
  assumes "unat w = n" "n < 2 ^ 32"
  shows "unat (ucast (w :: u64) :: u32) = n"
  using assms by (simp add: unsigned_ucast_eq take_bit_nat_eq_self)

lemma mov_word:
  fixes K r v :: u64
  assumes "unat K = 2 ^ 21 * C" "C < 2 ^ 11" "unat v < 2 ^ 16" "unat r < 32"
  shows "unat (ucast (K OR r OR push_bit 5 v) :: u32) = 2 ^ 21 * C + (32 * unat v + unat r)"
proof (rule unat_32)
  have "unat r OR unat (push_bit 5 v) = 32 * unat v + unat r"
    using or_high [of "unat (push_bit 5 v)" 5 "unat v" "unat r"] unat_push_5 [OF assms(3)] assms(4) by (simp add: or.commute)
  moreover have "2 ^ 21 * C OR (32 * unat v + unat r) = 2 ^ 21 * C + (32 * unat v + unat r)"
    by (rule or_high [OF refl]) (use assms(3,4) in simp)
  ultimately show "unat (K OR r OR push_bit 5 v) = 2 ^ 21 * C + (32 * unat v + unat r)"
    by (simp add: unsigned_or_eq assms(1))
qed (use assms in simp)

text \<open>The move instructions by their highest 11 bits.\<close>

lemma a64_mov_fields:
  assumes v: "v < 2 ^ 16" and r: "r < 32" and C: "C div 4 mod 64 = 37"
  shows "a64_mov (2 ^ 21 * C + (32 * v + r)) old =
     (let sf = odd (C div 2 ^ 10); opc = C div 2 ^ 8 mod 4; width = (if sf then 64 else 32); sh = 16 * (C mod 4);
          imm = push_bit sh (of_nat v) in
      if sh \<ge> width then None
      else if opc = 0 then Some (r, take_bit width (NOT imm))
      else if opc = 2 then Some (r, take_bit width imm)
      else if opc = 3 then Some (r, take_bit width ((old AND NOT (push_bit sh 0xffff)) OR imm))
      else None)"
proof -
  define i where "i = 2 ^ 21 * C + (32 * v + r)"
  have d: "i div 2 ^ 21 = C" using v r by (simp add: i_def)
  have "i div 2 ^ 23 = C div 4" "i div 2 ^ 29 = C div 2 ^ 8" "i div 2 ^ 31 = C div 2 ^ 10"
    using div_mult2_eq [of i "2 ^ 21" 4] div_mult2_eq [of i "2 ^ 21" "2 ^ 8"] div_mult2_eq [of i "2 ^ 21" "2 ^ 10"] d by simp_all
  moreover have "i = r + (v + 2 ^ 16 * C) * 32" by (simp add: i_def)
  then have "i div 32 = v + 2 ^ 16 * C + r div 32" "i mod 32 = r mod 32" by (simp_all only: mod_mult_self1) simp
  then have "i div 32 = v + 2 ^ 16 * C" "i mod 32 = r" using r by simp_all
  moreover from this have "i div 32 mod 2 ^ 16 = v" using v by simp
  ultimately show ?thesis using d C unfolding a64_mov_def bit_iff_odd Let_def i_def [symmetric] by (simp only: if_True if_False simp_thms)
qed

section \<open>Sixteen bits of a word\<close>

definition p16 :: "u64 \<Rightarrow> nat \<Rightarrow> u64" where "p16 x i = take_bit 16 (drop_bit i x)"

lemma unat_p16: "unat (p16 x i) < 2 ^ 16"
  unfolding p16_def unsigned_take_bit_eq by (rule take_bit_nat_less_exp)

lemma ffff: "0xffff = (mask 16 :: u64)"
  by (simp add: mask_eq_exp_minus_1)

lemma ffff_5: "0x1fffe0 = push_bit 5 (mask 16 :: u64)"
  by (simp add: mask_eq_exp_minus_1)

lemma bit_p16: "bit (p16 x i) n \<longleftrightarrow> n < 16 \<and> bit x (i + n)"
  by (simp add: p16_def bit_take_bit_iff bit_drop_bit_eq)

lemma bit_push_mask: "bit (push_bit i (mask 16 :: u64)) n \<longleftrightarrow> n < 64 \<and> i \<le> n \<and> n < i + 16"
  by (auto simp: bit_push_bit_iff bit_mask_iff)

text \<open>A word whose other bits are 0, or 1.\<close>

lemma p16_only:
  assumes "x AND NOT (push_bit i 0xffff) = 0"
  shows "push_bit i (p16 x i) = x"
proof (rule bit_word_eqI)
  fix n assume "n < LENGTH(64)"
  moreover have "bit (x AND NOT (push_bit i 0xffff)) n = bit (0 :: u64) n" by (simp only: assms)
  ultimately show "bit (push_bit i (p16 x i)) n \<longleftrightarrow> bit x n"
    unfolding ffff by (auto simp: bit_push_bit_iff bit_p16 bit_and_iff bit_not_iff bit_mask_iff)
qed

lemma p16_field_down: "5 \<le> i \<Longrightarrow> drop_bit (i - 5) y AND 0x1fffe0 = push_bit 5 (p16 y i)"
  unfolding ffff_5 by (rule bit_word_eqI) (auto simp: bit_push_bit_iff bit_p16 bit_and_iff bit_mask_iff bit_drop_bit_eq)

lemma p16_field_up: "push_bit 5 y AND 0x1fffe0 = push_bit 5 (p16 y 0)"
  unfolding ffff_5 by (rule bit_word_eqI) (auto simp: bit_push_bit_iff bit_p16 bit_and_iff bit_mask_iff)

lemma p16_field:
  assumes "x AND NOT (push_bit i 0xffff) = 0" "5 \<le> i" "i < 64"
  shows "drop_bit (i - 5) x = push_bit 5 (p16 x i)"
proof -
  have "drop_bit (i - 5) (push_bit i (p16 x i)) = push_bit 5 (p16 x i)"
    using assms(2,3)
    by (intro bit_word_eqI) (auto simp: bit_push_bit_iff bit_p16 bit_drop_bit_eq dest: bit_imp_le_length)
  then show ?thesis by (simp only: p16_only [OF assms(1)])
qed

lemma mov_step:
  fixes K r v :: u64
  assumes "unat K = 2 ^ 21 * C" "C < 2 ^ 11" "C div 4 mod 64 = 37" "unat v < 2 ^ 16" "unat r < 32"
  shows "a64_mov (unat (ucast (K OR r OR push_bit 5 v) :: u32)) old =
     (let sf = odd (C div 2 ^ 10); opc = C div 2 ^ 8 mod 4; width = (if sf then 64 else 32); sh = 16 * (C mod 4);
          imm = push_bit sh v in
      if sh \<ge> width then None
      else if opc = 0 then Some (unat r, take_bit width (NOT imm))
      else if opc = 2 then Some (unat r, take_bit width imm)
      else if opc = 3 then Some (unat r, take_bit width ((old AND NOT (push_bit sh 0xffff)) OR imm))
      else None)"
  using mov_word [OF assms(1,2,4,5)] a64_mov_fields [OF assms(4,5,3), of old] by simp

lemma take_width:
  assumes "push_bit i (p16 x i) = x" "i + 16 \<le> w"
  shows "take_bit w x = x"
proof (rule bit_word_eqI)
  fix n
  have "bit x n \<longleftrightarrow> bit (push_bit i (p16 x i)) n" by (simp only: assms(1))
  then have "bit x n \<Longrightarrow> n < w" using assms(2) by (auto simp: bit_push_bit_iff bit_p16)
  then show "bit (take_bit w x) n \<longleftrightarrow> bit x n" by (auto simp: bit_take_bit_iff)
qed

lemma movz_branch:
  assumes K: "unat K = 2 ^ 21 * C" "C < 2 ^ 11" "C div 4 mod 64 = 37" "C div 2 ^ 8 mod 4 = 2" and r: "unat r < 32"
    and x: "push_bit (16 * (C mod 4)) (p16 x (16 * (C mod 4))) = x" and w: "odd (C div 2 ^ 10) \<or> C mod 4 < 2"
  shows "a64_mov (unat (ucast (K OR r OR push_bit 5 (p16 x (16 * (C mod 4)))) :: u32)) old = Some (unat r, x)"
proof -
  let ?i = "16 * (C mod 4)" and ?w = "if odd (C div 2 ^ 10) then 64 else 32 :: nat"
  have m: "C mod 4 < 4" by simp
  have le: "?i + 16 \<le> ?w" using m w by (simp add: le_divide_eq; linarith)
  have "take_bit ?w (push_bit ?i (p16 x ?i)) = x" unfolding x by (rule take_width [OF x le])
  then show ?thesis using mov_step [OF K(1-3) unat_p16 r, of x ?i old] K(4) le unfolding Let_def by simp
qed

lemma movn_branch:
  assumes K: "unat K = 2 ^ 21 * C" "C < 2 ^ 11" "C div 4 mod 64 = 37" "C div 2 ^ 8 mod 4 = 0" and r: "unat r < 32"
    and w: "odd (C div 2 ^ 10) \<or> C mod 4 < 2"
    and x: "take_bit (if odd (C div 2 ^ 10) then 64 else 32) (NOT (push_bit (16 * (C mod 4)) (p16 (NOT x) (16 * (C mod 4))))) = x"
  shows "a64_mov (unat (ucast (K OR r OR push_bit 5 (p16 (NOT x) (16 * (C mod 4)))) :: u32)) old = Some (unat r, x)"
proof -
  let ?i = "16 * (C mod 4)" and ?w = "if odd (C div 2 ^ 10) then 64 else 32 :: nat"
  have m: "C mod 4 < 4" by simp
  have "?i < ?w" using m w by (simp; linarith)
  then show ?thesis using mov_step [OF K(1-3) unat_p16 r, of "NOT x" ?i old] K(4) x unfolding Let_def by simp
qed

lemma or_HW: "K OR ARM64_HW v OR r OR y = (K OR ARM64_HW v) OR r OR y"
  by (simp only: or.assoc)

lemma MOV_words:
  "unat (0x52800000 :: u64) = 2 ^ 21 * 0x294" "unat (0x52800000 OR ARM64_HW 1) = 2 ^ 21 * 0x295"
  "unat (0xD2800000 OR ARM64_HW 2) = 2 ^ 21 * 0x696" "unat (0xD2800000 OR ARM64_HW 3) = 2 ^ 21 * 0x697"
  "unat (0x12800000 :: u64) = 2 ^ 21 * 0x94" "unat (0x12800000 OR ARM64_HW 1) = 2 ^ 21 * 0x95"
  "unat (0x92800000 :: u64) = 2 ^ 21 * 0x494" "unat (0x92800000 OR ARM64_HW 1) = 2 ^ 21 * 0x495"
  "unat (0x92800000 OR ARM64_HW 2) = 2 ^ 21 * 0x496" "unat (0x92800000 OR ARM64_HW 3) = 2 ^ 21 * 0x497"
  by (simp_all add: ARM64_HW_def)

text \<open>The branches of \<open>arm64_movi\<close>. \<open>mov_ok\<close> holds of a word that loads \<open>x\<close>, and of 0.\<close>

definition mov_ok :: "u64 \<Rightarrow> u64 \<Rightarrow> u64 \<Rightarrow> u64 \<Rightarrow> bool" where
  "mov_ok r x old w \<longleftrightarrow> unat (ucast w :: u32) = 0 \<or> a64_mov (unat (ucast w :: u32)) old = Some (unat r, x)"

lemma mov_ok_if: "(c \<Longrightarrow> mov_ok r x old a) \<Longrightarrow> (\<not> c \<Longrightarrow> mov_ok r x old b) \<Longrightarrow> mov_ok r x old (if c then a else b)"
  by simp

lemma movz_up:
  assumes "unat r < 32" "x AND NOT 0xffff = 0"
  shows "mov_ok r x old (ARM64_MOVZ OR r OR push_bit 5 x)"
proof -
  have x: "push_bit 0 (p16 x 0) = x" by (rule p16_only) (use assms(2) in simp)
  then have "a64_mov (unat (ucast (ARM64_MOVZ OR r OR push_bit 5 (p16 x 0)) :: u32)) old = Some (unat r, x)"
    using movz_branch [OF MOV_words(1) _ _ _ assms(1), of x old] by simp
  moreover have "p16 x 0 = x" using x by simp
  ultimately show ?thesis by (simp add: mov_ok_def)
qed

lemma movz_down:
  assumes "unat r < 32"
  shows "x AND NOT (push_bit 16 0xffff) = 0 \<Longrightarrow> mov_ok r x old (ARM64_MOVZ OR ARM64_HW 1 OR r OR drop_bit 11 x)"
    and "x AND NOT (push_bit 32 0xffff) = 0 \<Longrightarrow> mov_ok r x old (ARM64_MOVZ64 OR ARM64_HW 2 OR r OR drop_bit 27 x)"
    and "x AND NOT (push_bit 48 0xffff) = 0 \<Longrightarrow> mov_ok r x old (ARM64_MOVZ64 OR ARM64_HW 3 OR r OR drop_bit 43 x)"
  subgoal premises a
    using movz_branch [OF MOV_words(2) _ _ _ assms, of x old] p16_only [OF a] p16_field [OF a]
    unfolding or_HW mov_ok_def by simp
  subgoal premises a
    using movz_branch [OF MOV_words(3) _ _ _ assms, of x old] p16_only [OF a] p16_field [OF a]
    unfolding or_HW mov_ok_def by simp
  subgoal premises a
    using movz_branch [OF MOV_words(4) _ _ _ assms, of x old] p16_only [OF a] p16_field [OF a]
    unfolding or_HW mov_ok_def by simp
  done

lemma ones_only:
  assumes "NOT (x OR push_bit i 0xffff) = 0"
  shows "NOT (push_bit i (p16 (NOT x) i)) = x"
proof -
  have "push_bit i (p16 (NOT x) i) = NOT x" by (rule p16_only) (use assms in simp)
  then show ?thesis by simp
qed

lemma low_ones_only:
  "x AND NOT 0xffff = push_bit 16 0xffff \<Longrightarrow> take_bit 32 (NOT (push_bit 0 (p16 (NOT x) 0))) = x"
  "x AND NOT (push_bit 16 0xffff) = 0xffff \<Longrightarrow> take_bit 32 (NOT (push_bit 16 (p16 (NOT x) 16))) = x"
  subgoal premises a
  proof (rule bit_word_eqI)
    fix n assume "n < LENGTH(64)"
    moreover have "bit (x AND NOT 0xffff) n = bit (push_bit 16 0xffff :: u64) n" by (simp only: a)
    ultimately show "bit (take_bit 32 (NOT (push_bit 0 (p16 (NOT x) 0)))) n \<longleftrightarrow> bit x n"
      unfolding ffff by (auto simp: bit_push_bit_iff bit_p16 bit_and_iff bit_not_iff bit_mask_iff bit_take_bit_iff)
  qed
  subgoal premises a
  proof (rule bit_word_eqI)
    fix n assume "n < LENGTH(64)"
    moreover have "bit (x AND NOT (push_bit 16 0xffff)) n = bit (0xffff :: u64) n" by (simp only: a)
    ultimately show "bit (take_bit 32 (NOT (push_bit 16 (p16 (NOT x) 16)))) n \<longleftrightarrow> bit x n"
      unfolding ffff by (auto simp: bit_push_bit_iff bit_p16 bit_and_iff bit_not_iff bit_mask_iff bit_take_bit_iff)
  qed
  done

lemma movn_32:
  assumes "unat r < 32"
  shows "x AND NOT 0xffff = push_bit 16 0xffff \<Longrightarrow> mov_ok r x old (ARM64_MOVN OR r OR (push_bit 5 (NOT x) AND 0x1fffe0))"
    and "x AND NOT (push_bit 16 0xffff) = 0xffff \<Longrightarrow>
      mov_ok r x old (ARM64_MOVN OR ARM64_HW 1 OR r OR (drop_bit 11 (NOT x) AND 0x1fffe0))"
  subgoal premises a
    using movn_branch [OF MOV_words(5) _ _ _ assms, of x old] low_ones_only(1) [OF a]
    unfolding p16_field_up mov_ok_def by simp
  subgoal premises a
    using movn_branch [OF MOV_words(6) _ _ _ assms, of x old] low_ones_only(2) [OF a] p16_field_down [of 16 "NOT x"]
    unfolding or_HW mov_ok_def by simp
  done

lemma movn_64:
  assumes "unat r < 32"
  shows "NOT (x OR 0xffff) = 0 \<Longrightarrow> mov_ok r x old (ARM64_MOVN64 OR r OR (push_bit 5 (NOT x) AND 0x1fffe0))"
    and "NOT (x OR push_bit 16 0xffff) = 0 \<Longrightarrow>
      mov_ok r x old (ARM64_MOVN64 OR ARM64_HW 1 OR r OR (drop_bit 11 (NOT x) AND 0x1fffe0))"
    and "NOT (x OR push_bit 32 0xffff) = 0 \<Longrightarrow>
      mov_ok r x old (ARM64_MOVN64 OR ARM64_HW 2 OR r OR (drop_bit 27 (NOT x) AND 0x1fffe0))"
    and "NOT (x OR push_bit 48 0xffff) = 0 \<Longrightarrow>
      mov_ok r x old (ARM64_MOVN64 OR ARM64_HW 3 OR r OR (drop_bit 43 (NOT x) AND 0x1fffe0))"
  subgoal premises a
    using movn_branch [OF MOV_words(7) _ _ _ assms, of x old] ones_only [of x 0] a
    unfolding p16_field_up mov_ok_def by (simp add: take_bit_word_eq_self)
  subgoal premises a
    using movn_branch [OF MOV_words(8) _ _ _ assms, of x old] ones_only [OF a] p16_field_down [of 16 "NOT x"]
    unfolding or_HW mov_ok_def by (simp add: take_bit_word_eq_self)
  subgoal premises a
    using movn_branch [OF MOV_words(9) _ _ _ assms, of x old] ones_only [OF a] p16_field_down [of 32 "NOT x"]
    unfolding or_HW mov_ok_def by (simp add: take_bit_word_eq_self)
  subgoal premises a
    using movn_branch [OF MOV_words(10) _ _ _ assms, of x old] ones_only [OF a] p16_field_down [of 48 "NOT x"]
    unfolding or_HW mov_ok_def by (simp add: take_bit_word_eq_self)
  done

section \<open>ORR of a bit mask\<close>

lemma orr_word:
  fixes r :: u64
  assumes e: "0 \<le> e" "e < 2 ^ 13" and r: "unat r < 32" and K: "unat K = 2 ^ 23 * C + 32 * 31" "C < 2 ^ 9"
  shows "unat (ucast (K OR r OR push_bit 10 (word_of_int e)) :: u32) = 2 ^ 23 * C + (2 ^ 10 * nat e + (32 * 31 + unat r))"
proof (rule unat_32)
  have n: "nat e < 2 ^ 13" using e by simp
  have "unat (word_of_int e :: u64) = nat e" using e by (simp add: unsigned_of_int take_bit_int_eq_self)
  then have "unat (push_bit 10 (word_of_int e) :: u64) = take_bit 64 (push_bit 10 (nat e))"
    by (simp only: unsigned_push_bit_eq) simp
  also have "\<dots> = push_bit 10 (nat e)" by (rule take_bit_nat_eq_self) (use n in \<open>simp add: push_bit_eq_mult\<close>)
  finally have p: "unat (push_bit 10 (word_of_int e) :: u64) = 2 ^ 10 * nat e" by (simp add: push_bit_eq_mult)
  have a: "32 * 31 OR unat r = 32 * 31 + unat r" by (rule or_high [of _ 5 31]) (use r in simp_all)
  have b: "2 ^ 10 * nat e OR (32 * 31 + unat r) = 2 ^ 10 * nat e + (32 * 31 + unat r)" by (rule or_high [OF refl]) (use r in simp)
  have c: "2 ^ 23 * C OR (2 ^ 10 * nat e + (32 * 31 + unat r)) = 2 ^ 23 * C + (2 ^ 10 * nat e + (32 * 31 + unat r))"
    by (rule or_high [OF refl]) (use r n in simp)
  have d: "2 ^ 23 * C + 32 * 31 = 2 ^ 23 * C OR 32 * 31" by (rule or_high [OF refl, symmetric]) simp
  have "unat (K OR r OR push_bit 10 (word_of_int e)) = 2 ^ 23 * C OR (2 ^ 10 * nat e OR (32 * 31 OR unat r))"
    by (simp only: unsigned_or_eq K(1) d p or.assoc or.left_commute or.commute)
  then show "unat (K OR r OR push_bit 10 (word_of_int e)) = 2 ^ 23 * C + (2 ^ 10 * nat e + (32 * 31 + unat r))"
    by (simp only: a b c)
qed (use assms in simp)

text \<open>The fields of the instruction.\<close>

lemma a64_orr:
  assumes e: "e < 2 ^ 13" "decode_bimm e = Some w" and r: "r < 32" and C: "C mod 64 = 36" "C div 64 mod 4 = 1"
    and n: "odd (C div 2 ^ 8) \<or> \<not> bit e 12"
  shows "a64_mov (2 ^ 23 * C + (2 ^ 10 * e + (32 * 31 + r))) old = Some (r, take_bit (if odd (C div 2 ^ 8) then 64 else 32) w)"
proof -
  define i where "i = 2 ^ 23 * C + (2 ^ 10 * e + (32 * 31 + r))"
  have d: "i div 2 ^ 23 = C" using e(1) r by (simp add: i_def)
  have "i div 2 ^ 29 = C div 2 ^ 6" "i div 2 ^ 31 = C div 2 ^ 8"
    using div_mult2_eq [of i "2 ^ 23" "2 ^ 6"] div_mult2_eq [of i "2 ^ 23" "2 ^ 8"] d by simp_all
  then have f: "i div 2 ^ 29 mod 4 = 1" "bit i 31 \<longleftrightarrow> odd (C div 2 ^ 8)" using C(2) by (simp_all add: bit_iff_odd)
  have "i = r + (31 + 32 * e + 2 ^ 18 * C) * 32" by (simp add: i_def)
  then have "i div 32 = 31 + 32 * e + 2 ^ 18 * C + r div 32" "i mod 32 = r mod 32" by (simp_all only: mod_mult_self1) simp
  then have "i div 32 = 31 + (e + 2 ^ 13 * C) * 32" and r': "i mod 32 = r" using r by simp_all
  then have z: "i div 32 mod 32 = 31" by (simp only: mod_mult_self1) simp
  have "i div 2 ^ 10 = e + 2 ^ 13 * C" using r by (simp add: i_def)
  then have e': "i div 2 ^ 10 mod 2 ^ 13 = e" using e(1) by simp
  then have "take_bit 13 (drop_bit 10 i) = e" by (simp only: take_bit_eq_mod drop_bit_eq_div)
  then have "bit i 22 \<longleftrightarrow> bit e 12" using bit_take_bit_iff [of 13 "drop_bit 10 i" 12] by (simp add: bit_drop_bit_eq)
  then have n': "bit i 31 \<or> \<not> bit i 22" using n f(2) by simp
  have "a64_mov i old = Some (r, take_bit (if odd (C div 2 ^ 8) then 64 else 32) w)"
    unfolding a64_mov_def Let_def d f(1) r' z e' e(2) C(1) using n' f(2) by simp
  then show ?thesis by (simp only: i_def)
qed

lemma encoded:
  assumes "0 \<le> arm64_encode_bimm64 x"
  shows "decode_bimm (nat (arm64_encode_bimm64 x)) = Some x" "arm64_encode_bimm64 x < 2 ^ 13" "nat (arm64_encode_bimm64 x) < 2 ^ 13"
  using encode_exact [of x] assms by (auto simp: nat_less_iff split: if_splits)

lemma orr_64:
  assumes "unat r < 32" "0 \<le> arm64_encode_bimm64 x"
  shows "mov_ok r x old (ARM64_ORR_IMM OR ARM64_SF 1 OR r OR push_bit 10 (word_of_int (arm64_encode_bimm64 x)))"
proof -
  have K: "unat (ARM64_ORR_IMM OR ARM64_SF 1) = 2 ^ 23 * 0x164 + 32 * 31" by (simp add: ARM64_SF_def)
  have "a64_mov (2 ^ 23 * 0x164 + (2 ^ 10 * nat (arm64_encode_bimm64 x) + (32 * 31 + unat r))) old = Some (unat r, x)"
    using a64_orr [OF encoded(3,1) [OF assms(2)] assms(1), of "0x164" old] by (simp add: take_bit_word_eq_self)
  then show ?thesis
    using orr_word [OF assms(2) encoded(2) [OF assms(2)] assms(1) K] unfolding mov_ok_def by (simp only: or.assoc) simp
qed

lemma double_word:
  assumes "drop_bit 32 x = (0 :: u64)"
  shows "take_bit 32 (x OR push_bit 32 x) = x" "periodic 32 (x OR push_bit 32 x)"
proof -
  have x: "\<not> bit x n" if "32 \<le> n" for n
  proof -
    have "bit (drop_bit 32 x) (n - 32) = bit (0 :: u64) (n - 32)" by (simp only: assms)
    then show ?thesis using that by (simp add: bit_drop_bit_eq)
  qed
  show "take_bit 32 (x OR push_bit 32 x) = x"
    using x by (intro bit_word_eqI) (auto simp: bit_take_bit_iff bit_or_iff bit_push_bit_iff; meson not_le)
  show "periodic 32 (x OR push_bit 32 x)"
    unfolding periodic_def
  proof (intro allI impI)
    fix n :: nat assume "n < 64"
    then show "bit (x OR push_bit 32 x) n \<longleftrightarrow> bit (x OR push_bit 32 x) (n mod 32)"
    proof (cases "n < 32")
      case False
      then have "n mod 32 = n - 32" "n - 32 < 32" using \<open>n < 64\<close> by (simp_all add: le_mod_geq)
      then show ?thesis using x [of n] False \<open>n < 64\<close> by (simp add: bit_or_iff bit_push_bit_iff)
    qed simp
  qed
qed

lemma small_element:
  assumes "decode_bimm e = Some x" "periodic 32 x"
  shows "\<not> bit e 12"
proof
  assume b: "bit e 12"
  then have "bimm_esize e = 64" by (simp add: bimm_esize_def)
  then have d: "e mod 64 \<noteq> 63" "cyc 64 ((e div 64) mod 64) (Suc (e mod 64)) x" using assms(1) by (simp_all add: decode_bimm_Some)
  have "e mod 64 < 64" by simp
  then have "Suc (e mod 64) < 64" using d(1) by linarith
  from cyc_period [OF d(2) _ _ this _ _ assms(2)] show False by (simp add: sizes_def)
qed

lemma orr_32:
  assumes "unat r < 32" "drop_bit 32 x = 0" "0 \<le> arm64_encode_bimm64 (x OR push_bit 32 x)"
  shows "mov_ok r x old (ARM64_ORR_IMM OR r OR push_bit 10 (word_of_int (arm64_encode_bimm64 (x OR push_bit 32 x))))"
proof -
  have K: "unat ARM64_ORR_IMM = 2 ^ 23 * 0x64 + 32 * 31" by simp
  note e = encoded [OF assms(3)]
  have "a64_mov (2 ^ 23 * 0x64 + (2 ^ 10 * nat (arm64_encode_bimm64 (x OR push_bit 32 x)) + (32 * 31 + unat r))) old = Some (unat r, x)"
    using a64_orr [OF e(3,1) assms(1), of "0x64" old] small_element [OF e(1) double_word(2) [OF assms(2)]] double_word(1) [OF assms(2)] by simp
  then show ?thesis
    using orr_word [OF assms(3) e(2) assms(1) K] unfolding mov_ok_def by simp
qed

lemma movi_ok:
  assumes "unat r < 32" "arm64_movi r x \<noteq> 0"
  shows "a64_mov (unat (arm64_movi r x)) old = Some (unat r, x)"
proof -
  have zero: "mov_ok r x old 0" by (simp add: mov_ok_def)
  have "\<exists>w. arm64_movi r x = ucast w \<and> mov_ok r x old w"
    unfolding arm64_movi_def Let_def
    by (intro exI conjI, rule refl)
      (intro mov_ok_if; (rule zero |
        rule movz_up movz_down movn_32 movn_64 orr_32 orr_64; (rule assms(1) | assumption | simp)))
  then show ?thesis using assms(2) by (auto simp: mov_ok_def unat_eq_0)
qed

section \<open>The sequence\<close>

abbreviation quarters :: "nat list" where "quarters \<equiv> [0, 16, 32, 48]"

lemma p16_all:
  assumes "\<forall>j\<in>set quarters. p16 v j = p16 x j"
  shows "v = x"
proof (rule bit_word_eqI)
  fix n assume "n < LENGTH(64)"
  then have "n div 16 < 4" by simp
  then have "n div 16 \<in> {0, 1, 2, 3}" by auto
  then have "p16 v (16 * (n div 16)) = p16 x (16 * (n div 16))" using assms by auto
  then have "bit (p16 v (16 * (n div 16))) (n mod 16) = bit (p16 x (16 * (n div 16))) (n mod 16)" by simp
  then show "bit v n = bit x n" by (simp add: bit_p16)
qed

lemma quarters_apart: "i \<in> set quarters \<Longrightarrow> j \<in> set quarters \<Longrightarrow> i \<noteq> j \<Longrightarrow> j + 16 \<le> i \<or> i + 16 \<le> j"
  by auto

lemma p16_insert:
  assumes "i \<in> set quarters" "j \<in> set quarters"
  shows "p16 ((old AND NOT (push_bit i 0xffff)) OR push_bit i (p16 x i)) j = (if j = i then p16 x i else p16 old j)"
proof (rule bit_word_eqI)
  fix n assume "n < LENGTH(64)"
  have i: "i + 16 \<le> 64" "j + 16 \<le> 64" using assms by auto
  show "bit (p16 ((old AND NOT (push_bit i 0xffff)) OR push_bit i (p16 x i)) j) n = bit (if j = i then p16 x i else p16 old j) n"
    unfolding ffff using quarters_apart [OF assms] i
    by (cases "j = i") (auto simp: bit_p16 bit_or_iff bit_and_iff bit_not_iff bit_push_bit_iff bit_mask_iff)
qed

lemma p16_first:
  assumes "i \<in> set quarters" "j \<in> set quarters"
  shows "p16 (push_bit i (p16 x i)) j = (if j = i then p16 x i else p16 0 j)"
    and "p16 (NOT (push_bit i (p16 (NOT x) i))) j = (if j = i then p16 x i else p16 (- 1) j)"
proof -
  have i: "i + 16 \<le> 64" "j + 16 \<le> 64" using assms by auto
  note b = bit_p16 bit_not_iff bit_push_bit_iff
  show "p16 (push_bit i (p16 x i)) j = (if j = i then p16 x i else p16 0 j)"
    using quarters_apart [OF assms] i by (cases "j = i") (auto intro!: bit_word_eqI simp: b)
  show "p16 (NOT (push_bit i (p16 (NOT x) i))) j = (if j = i then p16 x i else p16 (- 1) j)"
    using quarters_apart [OF assms] i by (cases "j = i") (auto intro!: bit_word_eqI simp: b)
qed

lemma part_p16: "part x i = p16 x i"
  by (simp only: part_def p16_def ffff take_bit_eq_mask)

text \<open>The instruction at the part \<open>i\<close>.\<close>

lemma part_word:
  fixes K r :: u64
  assumes "unat r < 32" "i \<in> set quarters" "C < 2 ^ 9" "C mod 64 = 37" "odd (C div 2 ^ 8)"
    and K: "\<And>k. k < 4 \<Longrightarrow> unat (K OR push_bit 17 (of_nat (16 * k))) = 2 ^ 21 * (4 * C + k)"
  shows "a64_mov (unat (ucast (K OR r OR push_bit 5 (part y i) OR push_bit 17 (of_nat i)) :: u32)) old =
     (let opc = C div 2 ^ 6 mod 4; imm = push_bit i (p16 y i) in
      if opc = 0 then Some (unat r, NOT imm)
      else if opc = 2 then Some (unat r, imm)
      else if opc = 3 then Some (unat r, (old AND NOT (push_bit i 0xffff)) OR imm)
      else None)"
proof -
  obtain k where k: "i = 16 * k" "k < 4" using assms(2) by (auto intro: that [of 0] that [of 1] that [of 2] that [of 3])
  have e: "K OR r OR push_bit 5 (part y i) OR push_bit 17 (of_nat i) = (K OR push_bit 17 (of_nat i)) OR r OR push_bit 5 (p16 y i)"
    by (simp only: part_p16 or.assoc or.commute or.left_commute)
  have "(4 * C + k) div 2 ^ 10 = C div 2 ^ 8" "(4 * C + k) div 2 ^ 8 = C div 2 ^ 6" "(4 * C + k) div 4 = C" "(4 * C + k) mod 4 = k"
    using div_mult2_eq [of "4 * C + k" 4 "2 ^ 8"] div_mult2_eq [of "4 * C + k" 4 "2 ^ 6"] k(2) by simp_all
  then show ?thesis
    using mov_step [OF K [OF k(2)], of "p16 y i" r old] unat_p16 [of y i] assms(1,3-5) k
    unfolding e Let_def by (simp add: take_bit_word_eq_self)
qed

lemma MOV_parts:
  assumes "k < 4"
  shows "unat ((0xD2800000 :: u64) OR push_bit 17 (of_nat (16 * k))) = 2 ^ 21 * (4 * 0x1A5 + k)"
    "unat ((0x92800000 :: u64) OR push_bit 17 (of_nat (16 * k))) = 2 ^ 21 * (4 * 0x125 + k)"
    "unat (((0xF2800000 :: u64) OR ARM64_SF 1) OR push_bit 17 (of_nat (16 * k))) = 2 ^ 21 * (4 * 0x1E5 + k)"
proof -
  have "k \<in> {0, 1, 2, 3}" using assms by auto
  then show "unat ((0xD2800000 :: u64) OR push_bit 17 (of_nat (16 * k))) = 2 ^ 21 * (4 * 0x1A5 + k)"
    "unat ((0x92800000 :: u64) OR push_bit 17 (of_nat (16 * k))) = 2 ^ 21 * (4 * 0x125 + k)"
    "unat (((0xF2800000 :: u64) OR ARM64_SF 1) OR push_bit 17 (of_nat (16 * k))) = 2 ^ 21 * (4 * 0x1E5 + k)"
    by (auto simp: ARM64_SF_def)
qed

lemma part_movz:
  assumes "unat r < 32" "i \<in> set quarters"
  shows "a64_mov (unat (ucast (ARM64_MOVZ64 OR r OR push_bit 5 (part y i) OR push_bit 17 (of_nat i)) :: u32)) old =
      Some (unat r, push_bit i (p16 y i))"
    and "a64_mov (unat (ucast (ARM64_MOVN64 OR r OR push_bit 5 (part y i) OR push_bit 17 (of_nat i)) :: u32)) old =
      Some (unat r, NOT (push_bit i (p16 y i)))"
  by (subst part_word [OF assms _ _ _ MOV_parts(1)], simp_all) (subst part_word [OF assms _ _ _ MOV_parts(2)], simp_all)

lemma part_movk:
  assumes "unat r < 32" "i \<in> set quarters"
  shows "a64_mov (unat (ucast (ARM64_MOVK OR ARM64_SF 1 OR r OR push_bit 5 (part y i) OR push_bit 17 (of_nat i)) :: u32)) old =
      Some (unat r, (old AND NOT (push_bit i 0xffff)) OR push_bit i (p16 y i))"
proof -
  have e: "ARM64_MOVK OR ARM64_SF 1 OR r OR w = (ARM64_MOVK OR ARM64_SF 1) OR r OR w" for w by (simp only: or.assoc)
  show ?thesis unfolding e by (subst part_word [OF assms _ _ _ MOV_parts(3)]) simp_all
qed

text \<open>\<open>F\<close> is what the first instruction fills the other parts with.\<close>

lemma movk_run:
  assumes r: "unat r < 32" and F: "\<And>j. j \<in> set quarters \<Longrightarrow> part x1 j = 0 \<longleftrightarrow> p16 x j = p16 F j"
  shows "set is \<subseteq> set quarters \<Longrightarrow> distinct is \<Longrightarrow> \<forall>j\<in>set quarters. p16 v j = p16 (if j \<in> set is then F else x) j \<Longrightarrow>
    a64_run (unat r) (map ucast (movk_loop r x1 x is)) v = Some x"
proof (induction "is" arbitrary: v)
  case Nil
  then show ?case using p16_all [of v x] by (simp add: movk_loop_def)
next
  case (Cons i "is")
  have i: "i \<in> set quarters" and s: "set is \<subseteq> set quarters" "distinct is" "i \<notin> set is" using Cons.prems by auto
  show ?case
  proof (cases "part x1 i = 0")
    case True
    have v: "\<forall>j\<in>set quarters. p16 v j = p16 (if j \<in> set is then F else x) j"
    proof
      fix j assume j: "j \<in> set quarters"
      then have "p16 v j = p16 (if j \<in> set (i # is) then F else x) j" using Cons.prems(3) by blast
      then show "p16 v j = p16 (if j \<in> set is then F else x) j" using F [OF i] True s(3) by (cases "j = i") auto
    qed
    have "movk_loop r x1 x (i # is) = movk_loop r x1 x is" using True by (simp add: movk_loop_def)
    then show ?thesis using Cons.IH [OF s(1,2) v] by simp
  next
    case False
    define v' where "v' = (v AND NOT (push_bit i 0xffff)) OR push_bit i (p16 x i)"
    have v: "\<forall>j\<in>set quarters. p16 v' j = p16 (if j \<in> set is then F else x) j"
    proof
      fix j assume j: "j \<in> set quarters"
      then have "p16 v j = p16 (if j \<in> set (i # is) then F else x) j" using Cons.prems(3) by blast
      then show "p16 v' j = p16 (if j \<in> set is then F else x) j"
        unfolding v'_def p16_insert [OF i j] using s(3) by (cases "j = i") auto
    qed
    have "movk_loop r x1 x (i # is) =
        (ARM64_MOVK OR ARM64_SF 1 OR r OR push_bit 5 (part x i) OR push_bit 17 (of_nat i)) # movk_loop r x1 x is"
      using False by (simp add: movk_loop_def)
    then show ?thesis using Cons.IH [OF s(1,2) v] part_movk [OF r i, of x v] by (simp add: v'_def)
  qed
qed

lemma movz_loop_cases:
  obtains (none) "\<forall>j\<in>set is. part x1 j = 0" |
    (first) pre i post where "is = pre @ i # post" "\<forall>j\<in>set pre. part x1 j = 0"
      "movz_loop mov1 r x1 is = ([mov1 OR r OR push_bit 5 (part x1 i) OR push_bit 17 (of_nat i)], post)"
proof (induction "is" arbitrary: thesis)
  case (Cons i "is")
  show ?case
  proof (cases "part x1 i = 0")
    case False
    then show ?thesis using Cons.prems(2) [of "[]" i "is"] by simp
  next
    case True
    show ?thesis
    proof (rule Cons.IH)
      assume "\<forall>j\<in>set is. part x1 j = 0"
      then show ?thesis using True Cons.prems(1) by simp
    next
      fix pre k post assume "is = pre @ k # post" "\<forall>j\<in>set pre. part x1 j = 0"
        "movz_loop mov1 r x1 is = ([mov1 OR r OR push_bit 5 (part x1 k) OR push_bit 17 (of_nat k)], post)"
      then show ?thesis using True Cons.prems(2) [of "i # pre" k post] by simp
    qed
  qed
qed simp

lemma seq_run:
  assumes r: "unat r < 32" and F: "\<And>j. j \<in> set quarters \<Longrightarrow> part x1 j = 0 \<longleftrightarrow> p16 x j = p16 F j"
    and some: "\<not> (\<forall>j\<in>set quarters. part x1 j = 0)"
    and mov1: "\<And>i. i \<in> set quarters \<Longrightarrow> \<exists>v. a64_mov (unat (ucast (mov1 OR r OR push_bit 5 (part x1 i) OR push_bit 17 (of_nat i)) :: u32)) old =
      Some (unat r, v) \<and> (\<forall>j\<in>set quarters. p16 v j = (if j = i then p16 x i else p16 F j))"
    and l: "movz_loop mov1 r x1 quarters = (first, rest)"
  shows "a64_run (unat r) (map ucast (first @ movk_loop r x1 x rest)) old = Some x"
proof (rule movz_loop_cases [of quarters x1 _ mov1 r])
  assume "\<forall>j\<in>set quarters. part x1 j = 0"
  then show ?thesis using some by blast
next
  fix pre i post assume d: "quarters = pre @ i # post" "\<forall>j\<in>set pre. part x1 j = 0"
    "movz_loop mov1 r x1 quarters = ([mov1 OR r OR push_bit 5 (part x1 i) OR push_bit 17 (of_nat i)], post)"
  have sq: "set quarters = set (pre @ i # post)" by (rule arg_cong [OF d(1)])
  have "distinct quarters" by simp
  then have ds: "distinct (pre @ i # post)" unfolding d(1) .
  have i: "i \<in> set quarters" unfolding sq by simp
  obtain v where v: "a64_mov (unat (ucast (mov1 OR r OR push_bit 5 (part x1 i) OR push_bit 17 (of_nat i)) :: u32)) old = Some (unat r, v)"
    "\<forall>j\<in>set quarters. p16 v j = (if j = i then p16 x i else p16 F j)" using mov1 [OF i] by blast
  have "a64_run (unat r) (map ucast (movk_loop r x1 x post)) v = Some x"
  proof (rule movk_run [OF r F])
    show "\<forall>j\<in>set quarters. p16 v j = p16 (if j \<in> set post then F else x) j"
    proof
      fix j assume j: "j \<in> set quarters"
      then consider "j = i" | "j \<in> set pre" "j \<noteq> i" | "j \<in> set post" "j \<noteq> i" using ds unfolding sq by auto
      then show "p16 v j = p16 (if j \<in> set post then F else x) j"
        using v(2) [rule_format, OF j] F [OF j] d(2) ds by cases auto
    qed
  qed (use sq ds in auto)
  moreover have "first = [mov1 OR r OR push_bit 5 (part x1 i) OR push_bit 17 (of_nat i)]" "rest = post"
    using d(3) unfolding l by simp_all
  ultimately show ?thesis using v(1) by simp
qed

lemma movi_ends: "unat r < 32 \<Longrightarrow> arm64_movi r 0 \<noteq> 0" "unat r < 32 \<Longrightarrow> arm64_movi r (- 1) \<noteq> 0"
  subgoal premises r
    using mov_word [OF MOV_words(1), of 0 r] r by (simp add: arm64_movi_def unat_eq_0 [symmetric])
  subgoal premises r
    using mov_word [OF MOV_words(7), of 0 r] r by (simp add: arm64_movi_def unat_eq_0 [symmetric])
  done

lemma zero_parts: "(\<forall>j\<in>set quarters. part x j = 0) \<longleftrightarrow> x = 0"
  using p16_all [of x 0] by (auto simp: part_p16 p16_def)

lemma movimm_ok:
  assumes r: "unat r < 32"
  shows "a64_run (unat r) (arm64_movimm r x) old = Some x"
proof (cases "arm64_movi r x = 0")
  case False
  then show ?thesis using movi_ok [OF r False, of old] by (simp add: arm64_movimm_def)
next
  case True
  then have x: "x \<noteq> 0" "NOT x \<noteq> 0" using movi_ends [OF r] by (auto dest: arg_cong [of _ _ "\<lambda>y. NOT y"])
  have n: "a64_run (unat r) (map ucast (first @ movk_loop r (NOT x) x rest)) old = Some x"
    if "movz_loop ARM64_MOVN64 r (NOT x) quarters = (first, rest)" for first rest
  proof (rule seq_run [OF r _ _ _ that, of _ "- 1"])
    fix j assume "j \<in> set quarters"
    then have "j + 16 \<le> 64" by auto
    then show "part (NOT x) j = 0 \<longleftrightarrow> p16 x j = p16 (- 1) j" by (auto simp: part_p16 bit_eq_iff bit_p16 bit_not_iff)
  next
    show "\<not> (\<forall>j\<in>set quarters. part (NOT x) j = 0)" using x(2) unfolding zero_parts .
  qed (use part_movz(2) [OF r] p16_first(2) in blast)
  have p: "a64_run (unat r) (map ucast (first @ movk_loop r x x rest)) old = Some x"
    if "movz_loop ARM64_MOVZ64 r x quarters = (first, rest)" for first rest
  proof (rule seq_run [OF r _ _ _ that, of _ 0])
    show "part x j = 0 \<longleftrightarrow> p16 x j = p16 0 j" for j by (simp add: part_p16 p16_def)
    show "\<not> (\<forall>j\<in>set quarters. part x j = 0)" using x(1) unfolding zero_parts .
  qed (use part_movz(1) [OF r] p16_first(1) in blast)
  show ?thesis using True n p unfolding arm64_movimm_def by (simp only: Let_def split: prod.split if_splits) auto
qed

lemma movz_loop_length: "movz_loop mov1 r x1 is = (first, rest) \<Longrightarrow> length first + length rest \<le> length is"
  by (induction "is") (auto split: if_splits)

lemma movimm_length: "length (arm64_movimm r x) \<le> 4"
proof -
  have "length (first @ movk_loop r x1 x rest) \<le> 4" if "movz_loop mov1 r x1 quarters = (first, rest)" for mov1 x1 first rest
    using movz_loop_length [OF that] length_filter_le [of "\<lambda>i. part x1 i \<noteq> 0" rest] by (simp add: movk_loop_def del: length_filter_le)
  then show ?thesis unfolding arm64_movimm_def by (simp only: Let_def split: prod.split if_splits) auto
qed

text \<open>C36: Loading a constant: whatever the register held, the instructions that are emitted leave the constant in it; they
  write no other register, and there are at most four.\<close>

theorem arm64_movimm_correct:
  assumes "unat r < 31"
  shows "a64_run (unat r) (arm64_movimm r x) old = Some x \<and> length (arm64_movimm r x) \<le> 4"
  using movimm_ok [of r x old] movimm_length [of r x] assms by simp

theorem arm64_movimm_correct_witness:
  "a64_run 3 (arm64_movimm 3 0x123400009ABCDEF0) 7 = Some 0x123400009ABCDEF0 \<and> length (arm64_movimm 3 0x123400009ABCDEF0) \<le> 4"
  using arm64_movimm_correct [of 3 "0x123400009ABCDEF0" 7] by simp

end
