(* ===== verification/Bc_Tree.thy ===== *)
theory Bc_Tree
  imports Tcc_Prelude "HOL-Library.Tree"
begin

text \<open>
  The tree of regions of the bounds checker (\<open>lib/bcheck.c\<close>, \<open>splay\<close>, \<open>splay_end\<close>, \<open>splay_insert\<close>, \<open>splay_delete\<close>): a tree
  of nodes by start address, which every search reshapes so that the last node it visits becomes the root (top-down splaying). A
  loop over pointers cuts the tree in two, left and right of the path; here the two parts are lists of nodes with a subtree,
  the latest first, that \<open>assemble\<close> links.
\<close>

section \<open>Nodes and comparisons\<close>

record region =
  rstart :: u64
  rsize :: u64
  rtype :: u8
  is_invalid :: bool

definition rend :: "region \<Rightarrow> u64" where "rend r = rstart r + rsize r"

definition compare :: "u64 \<Rightarrow> region \<Rightarrow> int" where
  "compare addr r = (if addr < rstart r then - 1 else if rend r \<le> addr then 1 else 0)"

definition compare_end :: "u64 \<Rightarrow> region \<Rightarrow> int" where
  "compare_end addr r = (if addr < rend r then - 1 else if rend r < addr then 1 else 0)"

section \<open>Splaying\<close>

type_synonym left_part = "(region tree \<times> region) list"
type_synonym right_part = "(region \<times> region tree) list"

definition assemble :: "left_part \<Rightarrow> right_part \<Rightarrow> region tree \<Rightarrow> region \<Rightarrow> region tree \<Rightarrow> region tree" where
  "assemble L R a k b = Node (fold (\<lambda>(x, j) t. Node x j t) L a) k (fold (\<lambda>(j, y) t. Node t j y) R b)"

text \<open>The loop of \<open>splay\<close> and \<open>splay_end\<close>, which differ in the comparison only.\<close>

fun splay_loop :: "(region \<Rightarrow> int) \<Rightarrow> left_part \<Rightarrow> right_part \<Rightarrow> region tree \<Rightarrow> region tree" where
  "splay_loop c L R Leaf = Leaf"
| "splay_loop c L R (Node a k b) =
     (if c k < 0 then
        case a of Leaf \<Rightarrow> assemble L R a k b
        | Node ya y yb \<Rightarrow>
            if c y < 0 then
              case ya of Leaf \<Rightarrow> assemble L R Leaf y (Node yb k b)
              | Node _ _ _ \<Rightarrow> splay_loop c L ((y, Node yb k b) # R) ya
            else splay_loop c L ((k, b) # R) a
      else if c k > 0 then
        case b of Leaf \<Rightarrow> assemble L R a k b
        | Node ya y yb \<Rightarrow>
            if c y > 0 then
              case yb of Leaf \<Rightarrow> assemble L R (Node a k ya) y Leaf
              | Node _ _ _ \<Rightarrow> splay_loop c ((Node a k ya, y) # L) R yb
            else splay_loop c ((a, k) # L) R b
      else assemble L R a k b)"

definition splay :: "u64 \<Rightarrow> region tree \<Rightarrow> region tree" where
  "splay addr t = splay_loop (compare addr) [] [] t"

definition splay_end :: "u64 \<Rightarrow> region tree \<Rightarrow> region tree" where
  "splay_end addr t = splay_loop (compare_end addr) [] [] t"

text \<open>\<open>None\<close>: there is no memory for the node, and the program ends (\<open>bound_alloc_error\<close>).\<close>

definition new_region :: "u64 \<Rightarrow> u64 \<Rightarrow> region" where
  "new_region addr sz = \<lparr>rstart = addr, rsize = sz, rtype = 0, is_invalid = False\<rparr>"

definition splay_insert :: "bool \<Rightarrow> u64 \<Rightarrow> u64 \<Rightarrow> region tree \<Rightarrow> region tree option" where
  "splay_insert mem addr sz t =
     (case splay addr t of
        Leaf \<Rightarrow> if mem then Some (Node Leaf (new_region addr sz) Leaf) else None
      | Node a k b \<Rightarrow>
          if compare addr k = 0 then Some (Node a k b)
          else if \<not> mem then None
          else if compare addr k < 0 then Some (Node a (new_region addr sz) (Node Leaf k b))
          else Some (Node (Node a k Leaf) (new_region addr sz) b))"

definition splay_delete :: "u64 \<Rightarrow> region tree \<Rightarrow> region tree" where
  "splay_delete addr t =
     (case splay addr t of
        Leaf \<Rightarrow> Leaf
      | Node a k b \<Rightarrow>
          if addr = rstart k then
            (case a of Leaf \<Rightarrow> b | Node _ _ _ \<Rightarrow> (case splay addr a of Leaf \<Rightarrow> Leaf | Node xa x xb \<Rightarrow> Node xa x b))
          else Node a k b)"

section \<open>The order of the nodes\<close>

definition before :: "left_part \<Rightarrow> region list" where
  "before L = concat (map (\<lambda>(t, j). inorder t @ [j]) (rev L))"

definition after :: "right_part \<Rightarrow> region list" where
  "after R = concat (map (\<lambda>(j, t). j # inorder t) R)"

lemma before_simps [simp]: "before [] = []" "before ((t, j) # L) = before L @ inorder t @ [j]"
  by (simp_all add: before_def)

lemma after_simps [simp]: "after [] = []" "after ((j, t) # R) = j # inorder t @ after R"
  by (simp_all add: after_def)

lemma inorder_left: "inorder (fold (\<lambda>(x, j) t. Node x j t) L a) = before L @ inorder a"
  by (induction L arbitrary: a) auto

lemma inorder_right: "inorder (fold (\<lambda>(j, y) t. Node t j y) R b) = inorder b @ after R"
  by (induction R arbitrary: b) auto

lemma inorder_assemble: "inorder (assemble L R a k b) = before L @ inorder a @ k # inorder b @ after R"
  by (simp add: assemble_def inorder_left inorder_right)

text \<open>One round of the loop: it stops, or cuts off a node with one of its subtrees.\<close>

lemma splay_loop_step:
  assumes "t \<noteq> Leaf"
  obtains (stop) a k b where "splay_loop c L R t = assemble L R a k b" "inorder t = inorder a @ k # inorder b"
      "c k < 0 \<Longrightarrow> a = Leaf" "c k > 0 \<Longrightarrow> b = Leaf"
  | (left) a k b where "splay_loop c L R t = splay_loop c L ((k, b) # R) a" "a \<noteq> Leaf" "size a < size t"
      "inorder t = inorder a @ k # inorder b" "c k < 0"
  | (right) a k b where "splay_loop c L R t = splay_loop c ((a, k) # L) R b" "b \<noteq> Leaf" "size b < size t"
      "inorder t = inorder a @ k # inorder b" "c k > 0"
proof -
  obtain a k b where t: "t = Node a k b" using assms by (cases t) auto
  consider "c k = 0" | "c k < 0" "a = Leaf" | "c k > 0" "b = Leaf"
    | x y z where "c k < 0" "a = Node x y z" | x y z where "c k > 0" "b = Node x y z"
    by (metis linorder_neqE_linordered_idom tree.exhaust)
  then show ?thesis
  proof cases
    case (4 x y z)
    show ?thesis
    proof (cases "c y < 0")
      case False
      show ?thesis by (rule left [of k b a]) (use 4 False in \<open>simp_all add: t\<close>)
    next
      case True
      show ?thesis
      proof (cases "x = Leaf")
        case False
        then show ?thesis using 4 True by (intro left [of y "Node z k b" x]) (simp_all add: t neq_Leaf_iff, auto)
      qed (rule stop [of Leaf y "Node z k b"], use 4 True in \<open>simp_all add: t\<close>)
    qed
  next
    case (5 x y z)
    show ?thesis
    proof (cases "c y > 0")
      case False
      show ?thesis by (rule right [of a k b]) (use 5 False in \<open>simp_all add: t\<close>)
    next
      case True
      show ?thesis
      proof (cases "z = Leaf")
        case False
        then show ?thesis using 5 True by (intro right [of "Node a k x" y z]) (simp_all add: t neq_Leaf_iff, auto)
      qed (rule stop [of "Node a k x" y Leaf], use 5 True in \<open>simp_all add: t\<close>)
    qed
  qed (rule stop [of a k b]; simp add: t)+
qed

text \<open>Splaying keeps the nodes and their order, whatever the comparison.\<close>

lemma inorder_splay_loop: "t \<noteq> Leaf \<Longrightarrow> inorder (splay_loop c L R t) = before L @ inorder t @ after R"
proof (induction t arbitrary: L R rule: measure_induct_rule [of size])
  case (less t)
  from less.prems show ?case
    by (cases rule: splay_loop_step [of t c L R]) (simp_all add: inorder_assemble less.IH)
qed

text \<open>A comparison that goes down along the nodes.\<close>

definition falling :: "('a \<Rightarrow> int) \<Rightarrow> 'a list \<Rightarrow> bool" where
  "falling c xs \<longleftrightarrow> sorted_wrt (\<lambda>x y. c y \<le> c x) xs"

lemma falling_simps [simp]:
  "falling c []" "falling c (x # xs) \<longleftrightarrow> (\<forall>y\<in>set xs. c y \<le> c x) \<and> falling c xs"
  "falling c (xs @ ys) \<longleftrightarrow> falling c xs \<and> falling c ys \<and> (\<forall>x\<in>set xs. \<forall>y\<in>set ys. c y \<le> c x)"
  by (auto simp: falling_def sorted_wrt_append)

text \<open>What is left of the root is smaller, what is right of it is greater; when the root is equal, the others may be.\<close>

definition parted :: "(region \<Rightarrow> int) \<Rightarrow> region list \<Rightarrow> region \<Rightarrow> region list \<Rightarrow> bool" where
  "parted c xs k ys \<longleftrightarrow> (\<forall>x\<in>set xs. c x > 0 \<or> c x = 0 \<and> c k = 0) \<and> (\<forall>y\<in>set ys. c y < 0 \<or> c y = 0 \<and> c k = 0)"

lemma splay_loop_root:
  assumes "t \<noteq> Leaf" "falling c (inorder t)" "\<forall>x\<in>set (before L). c x > 0" "\<forall>x\<in>set (after R). c x < 0"
  shows "\<exists>a k b. splay_loop c L R t = Node a k b \<and> parted c (inorder a) k (inorder b)"
  using assms
proof (induction t arbitrary: L R rule: measure_induct_rule [of size])
  case (less t)
  note prems = less.prems(2-4)
  from less.prems(1) show ?case
  proof (cases rule: splay_loop_step [of t c L R])
    case (stop a k b)
    have "parted c (before L @ inorder a) k (inorder b @ after R)"
      using prems stop(2-4) unfolding parted_def by (cases "c k" "0 :: int" rule: linorder_cases) (auto dest: bspec)
    then show ?thesis unfolding stop(1) assemble_def by (simp add: inorder_left inorder_right)
  next
    case (left a k b)
    have "\<forall>x\<in>set (after ((k, b) # R)). c x < 0" "falling c (inorder a)" using prems left(4,5) by auto
    then show ?thesis unfolding left(1) using less.IH [OF left(3,2)] prems by blast
  next
    case (right a k b)
    have "\<forall>x\<in>set (before ((a, k) # L)). c x > 0" "falling c (inorder b)" using prems right(4,5) by auto
    then show ?thesis unfolding right(1) using less.IH [OF right(3,2)] prems by blast
  qed
qed

lemma splay_loop_Leaf: "splay_loop c L R t = Leaf \<longleftrightarrow> t = Leaf"
proof (cases "t = Leaf")
  case False
  then have "inorder (splay_loop c L R t) \<noteq> []" by (simp add: inorder_splay_loop)
  then show ?thesis using False by auto
qed simp

lemma inorder_splay: "inorder (splay addr t) = inorder t" "inorder (splay_end addr t) = inorder t"
  using inorder_splay_loop [of t _ "[]" "[]"] by (cases t; simp add: splay_def splay_end_def del: splay_loop.simps(2))+

lemma splay_Leaf: "splay addr t = Leaf \<longleftrightarrow> t = Leaf" "splay_end addr t = Leaf \<longleftrightarrow> t = Leaf"
  by (simp_all add: splay_def splay_end_def splay_loop_Leaf)

section \<open>Regions that do not overlap\<close>

text \<open>Not empty, and the end does not wrap around.\<close>

definition valid :: "region \<Rightarrow> bool" where "valid r \<longleftrightarrow> rstart r < rend r"
definition covers :: "region \<Rightarrow> u64 \<Rightarrow> bool" where "covers r addr \<longleftrightarrow> rstart r \<le> addr \<and> addr < rend r"

definition regions_ok :: "region list \<Rightarrow> bool" where
  "regions_ok xs \<longleftrightarrow> (\<forall>r\<in>set xs. valid r) \<and> sorted_wrt (\<lambda>r s. rend r \<le> rstart s) xs"

definition tree_ok :: "region tree \<Rightarrow> bool" where "tree_ok t \<longleftrightarrow> regions_ok (inorder t)"

lemma regions_ok_simps [simp]:
  "regions_ok []"
  "regions_ok (r # xs) \<longleftrightarrow> valid r \<and> (\<forall>s\<in>set xs. rend r \<le> rstart s) \<and> regions_ok xs"
  "regions_ok (xs @ ys) \<longleftrightarrow> regions_ok xs \<and> regions_ok ys \<and> (\<forall>r\<in>set xs. \<forall>s\<in>set ys. rend r \<le> rstart s)"
  by (auto simp: regions_ok_def sorted_wrt_append)

lemma compare_cases:
  "compare addr r < 0 \<longleftrightarrow> addr < rstart r"
  "valid r \<Longrightarrow> compare addr r = 0 \<longleftrightarrow> covers r addr"
  "valid r \<Longrightarrow> compare addr r > 0 \<longleftrightarrow> rend r \<le> addr"
  by (auto simp: compare_def covers_def valid_def)

lemma compare_end_cases:
  "compare_end addr r < 0 \<longleftrightarrow> addr < rend r"
  "compare_end addr r = 0 \<longleftrightarrow> addr = rend r"
  "compare_end addr r > 0 \<longleftrightarrow> rend r < addr"
  by (auto simp: compare_end_def)

lemma falling_compare:
  assumes "regions_ok xs"
  shows "falling (compare addr) xs" "falling (compare_end addr) xs"
proof -
  have "compare addr s \<le> compare addr r \<and> compare_end addr s \<le> compare_end addr r" if "valid r" "valid s" "rend r \<le> rstart s" for r s
    using that by (auto simp: compare_def compare_end_def valid_def)
  moreover have "sorted_wrt (\<lambda>r s. rend r \<le> rstart s) xs" "\<forall>r\<in>set xs. valid r" using assms by (simp_all add: regions_ok_def)
  ultimately show "falling (compare addr) xs" "falling (compare_end addr) xs"
    unfolding falling_def by (blast intro: sorted_wrt_mono_rel [rotated])+
qed

text \<open>After splaying, the regions that end at or before the address are left of the root, and those that begin behind it
  are right of it.\<close>

lemma splay_parts:
  assumes "tree_ok t" "t \<noteq> Leaf"
  obtains a k b where "splay addr t = Node a k b" "inorder t = inorder a @ k # inorder b"
    "\<forall>r\<in>set_tree a. rend r \<le> addr" "\<forall>r\<in>set_tree b. addr < rstart r"
proof -
  obtain a k b where s: "splay addr t = Node a k b" "parted (compare addr) (inorder a) k (inorder b)"
    using splay_loop_root [of t "compare addr" "[]" "[]"] falling_compare(1) [of "inorder t" addr] assms by (auto simp: splay_def tree_ok_def)
  have o: "inorder t = inorder a @ k # inorder b" using inorder_splay(1) [of addr t] s(1) by simp
  then have ok: "regions_ok (inorder a @ k # inorder b)" using assms(1) by (simp add: tree_ok_def)
  have "rend r \<le> addr" if "r \<in> set_tree a" for r
  proof -
    have r: "valid r" "valid k" "rend r \<le> rstart k" using ok that by (auto simp: regions_ok_def sorted_wrt_append)
    have "compare addr r > 0 \<or> compare addr k = 0" using s(2) that by (auto simp: parted_def)
    then show ?thesis using r by (auto simp: compare_cases covers_def)
  qed
  moreover have "addr < rstart r" if "r \<in> set_tree b" for r
  proof -
    have r: "valid r" "valid k" "rend k \<le> rstart r" using ok that by (auto simp: regions_ok_def sorted_wrt_append)
    have "compare addr r < 0 \<or> compare addr k = 0" using s(2) that by (auto simp: parted_def)
    then show ?thesis using r by (auto simp: compare_cases covers_def)
  qed
  ultimately show ?thesis using that s(1) o by blast
qed

lemma splay_end_parts:
  assumes "tree_ok t" "t \<noteq> Leaf"
  obtains a k b where "splay_end addr t = Node a k b" "inorder t = inorder a @ k # inorder b"
    "\<forall>r\<in>set_tree a. rend r < addr" "\<forall>r\<in>set_tree b. addr < rend r"
proof -
  obtain a k b where s: "splay_end addr t = Node a k b" "parted (compare_end addr) (inorder a) k (inorder b)"
    using splay_loop_root [of t "compare_end addr" "[]" "[]"] falling_compare(2) [of "inorder t" addr] assms by (auto simp: splay_end_def tree_ok_def)
  have o: "inorder t = inorder a @ k # inorder b" using inorder_splay(2) [of addr t] s(1) by simp
  then have ok: "regions_ok (inorder a @ k # inorder b)" using assms(1) by (simp add: tree_ok_def)
  have "rend r < addr" if "r \<in> set_tree a" for r
  proof -
    have "valid k" "rend r \<le> rstart k" using ok that by (auto simp: regions_ok_def sorted_wrt_append)
    then have r: "rend r < rend k" by (simp add: valid_def)
    have "compare_end addr r > 0 \<or> compare_end addr k = 0" using s(2) that by (auto simp: parted_def)
    then show ?thesis using r by (auto simp: compare_end_cases)
  qed
  moreover have "addr < rend r" if "r \<in> set_tree b" for r
  proof -
    have "valid r" "rend k \<le> rstart r" using ok that by (auto simp: regions_ok_def sorted_wrt_append)
    then have r: "rend k < rend r" by (simp add: valid_def)
    have "compare_end addr r < 0 \<or> compare_end addr k = 0" using s(2) that by (auto simp: parted_def)
    then show ?thesis using r by (auto simp: compare_end_cases)
  qed
  ultimately show ?thesis using that s(1) o by blast
qed

lemma splay_ok [simp]: "tree_ok (splay addr t) \<longleftrightarrow> tree_ok t" "tree_ok (splay_end addr t) \<longleftrightarrow> tree_ok t"
  by (simp_all add: tree_ok_def inorder_splay)

lemma splay_set [simp]: "set_tree (splay addr t) = set_tree t" "set_tree (splay_end addr t) = set_tree t"
  by (simp_all flip: set_inorder add: inorder_splay)

text \<open>A region that covers the address becomes the root; so does one that ends there.\<close>

lemma splay_root:
  assumes "tree_ok t" "r \<in> set_tree t" "covers r addr"
  shows "\<exists>a b. splay addr t = Node a r b"
proof -
  have "t \<noteq> Leaf" using assms(2) by auto
  then obtain a k b where s: "splay addr t = Node a k b" "inorder t = inorder a @ k # inorder b"
    "\<forall>r\<in>set_tree a. rend r \<le> addr" "\<forall>r\<in>set_tree b. addr < rstart r" using splay_parts [OF assms(1)] by blast
  have "r \<in> set (inorder a @ k # inorder b)" using assms(2) s(2) by (metis set_inorder)
  then show ?thesis using s assms(3) by (auto simp: covers_def leD)
qed

lemma splay_end_root:
  assumes "tree_ok t" "r \<in> set_tree t" "rend r = addr"
  shows "\<exists>a b. splay_end addr t = Node a r b"
proof -
  have "t \<noteq> Leaf" using assms(2) by auto
  then obtain a k b where s: "splay_end addr t = Node a k b" "inorder t = inorder a @ k # inorder b"
    "\<forall>r\<in>set_tree a. rend r < addr" "\<forall>r\<in>set_tree b. addr < rend r" using splay_end_parts [OF assms(1)] by blast
  have "r \<in> set (inorder a @ k # inorder b)" using assms(2) s(2) by (metis set_inorder)
  then show ?thesis using s assms(3) by auto
qed

section \<open>Insertion and deletion\<close>

text \<open>No region that is there overlaps \<open>sz\<close> bytes at \<open>addr\<close>.\<close>

definition free_for :: "region tree \<Rightarrow> u64 \<Rightarrow> u64 \<Rightarrow> bool" where
  "free_for t addr sz \<longleftrightarrow> addr < addr + sz \<and> (\<forall>r\<in>set_tree t. rend r \<le> addr \<or> addr + sz \<le> rstart r)"

lemma splay_insert_new:
  assumes "tree_ok t" "free_for t addr sz"
  shows "\<exists>a b. splay_insert True addr sz t = Some (Node a (new_region addr sz) b) \<and>
    tree_ok (Node a (new_region addr sz) b) \<and> set_tree a \<union> set_tree b = set_tree t"
proof (cases "t = Leaf")
  case True
  then show ?thesis using assms(2)
    by (simp add: splay_insert_def splay_def tree_ok_def valid_def new_region_def rend_def free_for_def)
next
  case False
  obtain a k b where s: "splay addr t = Node a k b" "inorder t = inorder a @ k # inorder b"
    "\<forall>r\<in>set_tree a. rend r \<le> addr" "\<forall>r\<in>set_tree b. addr < rstart r" using splay_parts [OF assms(1) False] by blast
  have st: "set_tree t = insert k (set_tree a \<union> set_tree b)"
    using arg_cong [OF s(2), of set] by simp
  have ok: "regions_ok (inorder a @ k # inorder b)" using assms(1) s(2) by (simp add: tree_ok_def)
  then have v: "valid k" by (simp add: regions_ok_def)
  define n where "n = new_region addr sz"
  have n: "rstart n = addr" "rend n = addr + sz" "valid n"
    using assms(2) by (simp_all add: n_def new_region_def rend_def valid_def free_for_def)
  have dis: "rend r \<le> addr \<or> addr + sz \<le> rstart r" if "r \<in> set_tree t" for r using assms(2) that by (simp add: free_for_def)
  have b: "\<forall>r\<in>set_tree b. rend n \<le> rstart r"
  proof
    fix r assume r: "r \<in> set_tree b"
    then have "addr < rstart r" "valid r" using s(4) ok by (auto simp: regions_ok_def sorted_wrt_append)
    then show "rend n \<le> rstart r" using dis [of r] st r n by (auto simp: valid_def)
  qed
  have "rend k \<le> addr \<or> addr + sz \<le> rstart k" using dis [of k] st by simp
  then show ?thesis
  proof
    assume k: "rend k \<le> addr"
    then have "\<not> covers k addr" "\<not> addr < rstart k" using v by (auto simp: covers_def valid_def)
    then have "splay_insert True addr sz t = Some (Node (Node a k Leaf) n b)"
      using s(1) v by (simp add: splay_insert_def compare_cases n_def)
    moreover have "tree_ok (Node (Node a k Leaf) n b)" using ok n k b s(3) by (auto simp: tree_ok_def)
    ultimately show ?thesis using st by (auto simp: n_def)
  next
    assume k: "addr + sz \<le> rstart k"
    then have "\<not> covers k addr" "addr < rstart k" using n by (auto simp: covers_def valid_def)
    then have "splay_insert True addr sz t = Some (Node a n (Node Leaf k b))"
      using s(1) v by (simp add: splay_insert_def compare_cases n_def)
    moreover have "tree_ok (Node a n (Node Leaf k b))" using ok n k b s(3) by (auto simp: tree_ok_def)
    ultimately show ?thesis using st by (auto simp: n_def)
  qed
qed

text \<open>Where a region covers the address, nothing is inserted; that region becomes the root.\<close>

lemma splay_insert_covered:
  assumes "tree_ok t" "r \<in> set_tree t" "covers r addr"
  shows "splay_insert mem addr sz t = Some (splay addr t)" "\<exists>a b. splay addr t = Node a r b"
proof -
  obtain a b where s: "splay addr t = Node a r b" using splay_root [OF assms] by blast
  have "valid r" using assms(1,2) by (auto simp: tree_ok_def regions_ok_def)
  then show "splay_insert mem addr sz t = Some (splay addr t)" using s assms(3) by (simp add: splay_insert_def compare_cases)
  show "\<exists>a b. splay addr t = Node a r b" using s by blast
qed

lemma splay_delete_set:
  assumes "tree_ok t"
  shows "tree_ok (splay_delete addr t)" "set_tree (splay_delete addr t) = {r \<in> set_tree t. rstart r \<noteq> addr}"
proof -
  have "tree_ok (splay_delete addr t) \<and> set_tree (splay_delete addr t) = {r \<in> set_tree t. rstart r \<noteq> addr}"
  proof (cases "t = Leaf")
    case True
    then show ?thesis by (simp add: splay_delete_def splay_def tree_ok_def)
  next
    case False
    obtain a k b where s: "splay addr t = Node a k b" "inorder t = inorder a @ k # inorder b"
      "\<forall>r\<in>set_tree a. rend r \<le> addr" "\<forall>r\<in>set_tree b. addr < rstart r" using splay_parts [OF assms False] by blast
    have st: "set_tree t = insert k (set_tree a \<union> set_tree b)" using arg_cong [OF s(2), of set] by simp
    have ok: "regions_ok (inorder a @ k # inorder b)" using assms s(2) by (simp add: tree_ok_def)
    have ab: "tree_ok a" "tree_ok b" using ok by (simp_all add: tree_ok_def)
    have na: "rstart r \<noteq> addr" if "r \<in> set_tree a \<union> set_tree b" for r
    proof -
      have "valid r" using that ok by (auto simp: regions_ok_def)
      then show ?thesis using that s(3,4) by (auto simp: valid_def)
    qed
    show ?thesis
    proof (cases "addr = rstart k")
      case k: False
      then have "splay_delete addr t = Node a k b" using s(1) by (simp add: splay_delete_def)
      then show ?thesis using st na k ok by (auto simp: tree_ok_def)
    next
      case k: True
      have o: "inorder (splay_delete addr t) = inorder a @ inorder b"
      proof (cases "a = Leaf")
        case True
        then show ?thesis using s(1) k by (simp add: splay_delete_def)
      next
        case False
        obtain xa x xb where x: "splay addr a = Node xa x xb" "inorder a = inorder xa @ x # inorder xb"
          "\<forall>r\<in>set_tree xb. addr < rstart r" by (rule splay_parts [OF ab(1) False])
        have sa: "set_tree a = insert x (set_tree xa \<union> set_tree xb)" using arg_cong [OF x(2), of set] by simp
        have "xb = Leaf"
        proof (rule ccontr)
          assume "xb \<noteq> Leaf"
          then obtain r where "r \<in> set_tree xb" by (cases xb) auto
          then have "addr < rstart r" "rend r \<le> addr" "valid r" using x(3) s(3) sa ok by (auto simp: regions_ok_def)
          then show False by (simp add: valid_def)
        qed
        moreover have "splay_delete addr t = Node xa x b"
          unfolding splay_delete_def s(1) tree.case using k x(1) False by (auto split: tree.split)
        ultimately show ?thesis using x(2) by simp
      qed
      have "set_tree (splay_delete addr t) = set_tree a \<union> set_tree b" using arg_cong [OF o, of set] by simp
      moreover have "set_tree a \<union> set_tree b = {r \<in> set_tree t. rstart r \<noteq> addr}" using na k by (auto simp: st)
      moreover have "tree_ok (splay_delete addr t)" using ok unfolding tree_ok_def o by simp
      ultimately show ?thesis by simp
    qed
  qed
  then show "tree_ok (splay_delete addr t)" "set_tree (splay_delete addr t) = {r \<in> set_tree t. rstart r \<noteq> addr}" by simp_all
qed

text \<open>A region of size 0 is never equal to an address, so deleting it may only move it.\<close>

lemma empty_region_stays:
  "set_tree (splay_delete 16 (Node Leaf (new_region 16 0) (Node Leaf (new_region 32 8) Leaf))) =
    {new_region 16 0, new_region 32 8}"
  by code_simp

text \<open>C38: The tree implements a set of regions that do not overlap. Either search keeps the set, and puts the region that covers the
  address, or the one that ends there, at the root; an insertion of a region that overlaps none adds it, at the root; a
  deletion takes out the region that starts at the address, and nothing else. The order of the nodes is kept throughout.\<close>

theorem region_tree_refines:
  assumes "tree_ok t"
  shows "tree_ok (splay addr t) \<and> set_tree (splay addr t) = set_tree t \<and>
    tree_ok (splay_end addr t) \<and> set_tree (splay_end addr t) = set_tree t \<and>
    (\<forall>r\<in>set_tree t. covers r addr \<longrightarrow> (\<exists>a b. splay addr t = Node a r b)) \<and>
    (\<forall>r\<in>set_tree t. rend r = addr \<longrightarrow> (\<exists>a b. splay_end addr t = Node a r b)) \<and>
    (free_for t addr sz \<longrightarrow> (\<exists>a b. splay_insert True addr sz t = Some (Node a (new_region addr sz) b) \<and>
      tree_ok (Node a (new_region addr sz) b) \<and> set_tree a \<union> set_tree b = set_tree t)) \<and>
    tree_ok (splay_delete addr t) \<and> set_tree (splay_delete addr t) = {r \<in> set_tree t. rstart r \<noteq> addr}"
proof (intro conjI ballI impI)
  show "tree_ok (splay addr t)" "set_tree (splay addr t) = set_tree t" "tree_ok (splay_end addr t)"
    "set_tree (splay_end addr t) = set_tree t" using assms by simp_all
qed (rule splay_root splay_end_root splay_insert_new splay_delete_set, (rule assms | assumption)+)+

theorem region_tree_refines_witness:
  "set_tree (splay_delete 16 (Node Leaf (new_region 16 8) (Node Leaf (new_region 32 8) Leaf))) = {new_region 32 8}"
proof -
  define t where "t = Node Leaf (new_region 16 8) (Node Leaf (new_region 32 8) Leaf)"
  have "tree_ok t" by (simp add: t_def tree_ok_def valid_def new_region_def rend_def)
  from region_tree_refines [OF this, of 16 1] have "set_tree (splay_delete 16 t) = {r \<in> set_tree t. rstart r \<noteq> 16}"
    by (elim conjE)
  moreover have "{r \<in> set_tree t. rstart r \<noteq> 16} = {new_region 32 8}"
    unfolding t_def by (simp add: new_region_def) auto
  ultimately show ?thesis by (simp only: t_def)
qed

end
