(* ===== verification/Bc_Check.thy ===== *)
theory Bc_Check
  imports Bc_Tree
begin

text \<open>
  The checks of the bounds checker (\<open>lib/bcheck.c\<close>): pointer arithmetic and indirection (\<open>__bound_ptr_add\<close>,
  \<open>__bound_ptr_indir\<close>), and the wrappers of the memory functions of the C library. The state is what the checks read and
  write; a call may end the program (\<open>Exit\<close>).
\<close>

section \<open>The state\<close>

record bcheck =
  tree :: "region tree"
  no_checking :: int
  never_fatal :: int
  print_warn_ptr_add :: bool
  warned :: "u64 list"

definition state_with :: "region tree \<Rightarrow> bcheck" where
  "state_with t = \<lparr>tree = t, no_checking = 0, never_fatal = 0, print_warn_ptr_add = False, warned = []\<rparr>"

text \<open>The state after the start, with the regions of \<open>t\<close>. \<open>warned\<close> collects the pointers of the messages. \<open>bound_error\<close> ends the program unless that is switched off.\<close>

datatype 'a outcome = Ret 'a bcheck | Exit

definition INVALID_POINTER :: u64 where "INVALID_POINTER = - 2"

definition bound_warning :: "u64 \<Rightarrow> bcheck \<Rightarrow> bcheck" where
  "bound_warning p s = s\<lparr>warned := warned s @ [p]\<rparr>"

definition bound_error :: "u64 \<Rightarrow> bcheck \<Rightarrow> unit outcome" where
  "bound_error p s = (if never_fatal s = 0 then Exit else Ret () (bound_warning p s))"

section \<open>Pointers\<close>

text \<open>The search of both functions: first the root, then the region that covers the address, then one that ends there.\<close>

definition outside_root :: "u64 \<Rightarrow> region tree \<Rightarrow> bool" where
  "outside_root p t = (case t of Leaf \<Rightarrow> False | Node _ k _ \<Rightarrow> rsize k \<le> p - rstart k)"

definition locate :: "u64 \<Rightarrow> region tree \<Rightarrow> region tree" where
  "locate p t =
     (let t = (if outside_root p t then splay p t else t) in
      if outside_root p t then splay_end p t else t)"

definition bound_ptr_add :: "u64 \<Rightarrow> u64 \<Rightarrow> bcheck \<Rightarrow> u64 \<times> bcheck" where
  "bound_ptr_add p offset s =
     (if no_checking s \<noteq> 0 then (p + offset, s)
      else
        let s = s\<lparr>tree := locate p (tree s)\<rparr> in
        case tree s of Leaf \<Rightarrow> (p + offset, s)
        | Node _ k _ \<Rightarrow>
            let addr = p - rstart k in
            if addr \<le> rsize k then
              if is_invalid k \<or> addr + offset > rsize k then
                let s = (if print_warn_ptr_add s then bound_warning (p + offset) s else s) in
                if never_fatal s \<le> 0 then (INVALID_POINTER, s) else (p + offset, s)
              else (p + offset, s)
            else (p + offset, s))"

definition bound_ptr_indir :: "u64 \<Rightarrow> u64 \<Rightarrow> u64 \<Rightarrow> bcheck \<Rightarrow> u64 outcome" where
  "bound_ptr_indir dsize p offset s =
     (if no_checking s \<noteq> 0 then Ret (p + offset) s
      else
        let s = s\<lparr>tree := locate p (tree s)\<rparr> in
        case tree s of Leaf \<Rightarrow> Ret (p + offset) s
        | Node _ k _ \<Rightarrow>
            let addr = p - rstart k in
            if addr \<le> rsize k then
              if is_invalid k \<or> addr + offset + dsize > rsize k then
                if never_fatal s \<le> 0 then
                  case bound_error (p + offset) s of Exit \<Rightarrow> Exit | Ret _ s \<Rightarrow> Ret (p + offset) s
                else Ret (p + offset) s
              else Ret (p + offset) s
            else Ret (p + offset) s)"

definition bound_check :: "u64 \<Rightarrow> u64 \<Rightarrow> bcheck \<Rightarrow> unit outcome" where
  "bound_check p sz s =
     (if sz = 0 then Ret () s
      else case bound_ptr_add p sz s of (q, s) \<Rightarrow> if q = INVALID_POINTER then bound_error p s else Ret () s)"

text \<open>The result tells whether the caller returns at once.\<close>

definition check_overlap :: "u64 \<Rightarrow> u64 \<Rightarrow> u64 \<Rightarrow> u64 \<Rightarrow> bcheck \<Rightarrow> bool outcome" where
  "check_overlap p1 n1 p2 n2 s =
     (if no_checking s = 0 \<and> n1 \<noteq> 0 \<and> n2 \<noteq> 0 \<and> (p1 \<le> p2 \<and> p1 + n1 > p2 \<or> p2 \<le> p1 \<and> p2 + n2 > p1)
      then case bound_error p1 s of Exit \<Rightarrow> Exit | Ret _ s \<Rightarrow> Ret (never_fatal s < 0) s
      else Ret False s)"

section \<open>Offsets in a region\<close>

lemma no_wrap: "(b :: u64) \<le> b + n \<longleftrightarrow> unat b + unat n < 2 ^ 64"
  using unat_less_64 [of n] by (auto simp: word_le_nat_alt unat_plus_if')

lemma sub_le_iff:
  fixes b :: u64
  assumes "b \<le> b + n"
  shows "q - b \<le> n \<longleftrightarrow> b \<le> q \<and> q \<le> b + n"
proof -
  have "unat b + unat n < 2 ^ 64" using assms no_wrap by blast
  then show ?thesis using unat_less_64 [of b] unat_less_64 [of q]
    by (auto simp: word_le_nat_alt unat_plus_if' unat_sub_if')
qed

lemma sub_less_iff:
  fixes b :: u64
  assumes "b \<le> b + n"
  shows "q - b < n \<longleftrightarrow> b \<le> q \<and> q < b + n"
proof -
  have "unat b + unat n < 2 ^ 64" using assms no_wrap by blast
  then show ?thesis using unat_less_64 [of b] unat_less_64 [of q]
    by (auto simp: word_le_nat_alt word_less_nat_alt unat_plus_if' unat_sub_if')
qed

lemma valid_le: "valid r \<Longrightarrow> rstart r \<le> rstart r + rsize r"
  by (simp add: valid_def rend_def)

lemma valid_offsets:
  assumes "valid r"
  shows "q - rstart r \<le> rsize r \<longleftrightarrow> rstart r \<le> q \<and> q \<le> rend r" "rsize r \<le> q - rstart r \<longleftrightarrow> \<not> covers r q"
  using sub_le_iff [OF valid_le [OF assms], of q] sub_less_iff [OF valid_le [OF assms], of q] by (auto simp: rend_def covers_def not_le [symmetric])

section \<open>The region of a pointer\<close>

text \<open>A pointer belongs to the region that covers it, or, when there is none, to the region that ends there.\<close>

definition belongs :: "region tree \<Rightarrow> u64 \<Rightarrow> region \<Rightarrow> bool" where
  "belongs t p r \<longleftrightarrow> r \<in> set_tree t \<and> (covers r p \<or> rend r = p \<and> (\<forall>s\<in>set_tree t. \<not> covers s p))"

lemma locate_ok:
  assumes "tree_ok t"
  shows "tree_ok (locate p t)" "set_tree (locate p t) = set_tree t" "locate p t = Leaf \<longleftrightarrow> t = Leaf"
  using assms by (auto simp: locate_def Let_def splay_Leaf)

lemma outside_root:
  assumes "tree_ok t"
  shows "outside_root p t \<longleftrightarrow> (\<exists>a k b. t = Node a k b \<and> \<not> covers k p)"
  using assms by (cases t) (auto simp: outside_root_def tree_ok_def valid_offsets)

lemma only_cover:
  assumes "tree_ok t" "r \<in> set_tree t" "s \<in> set_tree t" "covers r p" "covers s p"
  shows "r = s"
proof -
  obtain a b where "splay p t = Node a r b" using splay_root [OF assms(1,2,4)] by blast
  moreover obtain a' b' where "splay p t = Node a' s b'" using splay_root [OF assms(1,3,5)] by blast
  ultimately show ?thesis by simp
qed

lemma locate_root:
  assumes "tree_ok t" "belongs t p r"
  shows "\<exists>a b. locate p t = Node a r b"
proof (cases "covers r p")
  case True
  have r: "r \<in> set_tree t" using assms(2) by (simp add: belongs_def)
  obtain a b where s: "splay p t = Node a r b" using splay_root [OF assms(1) r True] by blast
  have "tree_ok (splay p t)" using assms(1) by simp
  then have "\<not> outside_root p (splay p t)" using True outside_root s by auto
  moreover have "\<exists>a b. t = Node a r b" if o: "\<not> outside_root p t"
  proof -
    obtain a k b where t: "t = Node a k b" using r by (cases t) auto
    then have "covers k p" using o outside_root [OF assms(1)] by auto
    then show ?thesis using only_cover [OF assms(1) r _ True, of k] t by simp
  qed
  ultimately show ?thesis using s by (simp add: locate_def Let_def)
next
  case False
  then have r: "r \<in> set_tree t" "rend r = p" "\<forall>s\<in>set_tree t. \<not> covers s p" using assms(2) by (auto simp: belongs_def)
  have out: "outside_root p u" if u: "tree_ok u" "set_tree u = set_tree t" for u
  proof -
    obtain a k b where "u = Node a k b" using r(1) u(2) by (cases u) auto
    then show ?thesis using outside_root [OF u(1)] r(3) u(2) by auto
  qed
  then have "outside_root p t" "outside_root p (splay p t)" using assms(1) by simp_all
  then show ?thesis using splay_end_root [of "splay p t" r p] assms(1) r(1,2) by (simp add: locate_def Let_def)
qed

lemma locate_none:
  assumes "tree_ok t" "locate p t = Node a k b" "\<not> belongs t p k"
  shows "\<not> p - rstart k \<le> rsize k" "\<not> belongs t p r"
proof -
  have k: "k \<in> set_tree t" using locate_ok(2) [OF assms(1), of p] assms(2) by auto
  then have v: "valid k" using assms(1) by (auto simp: tree_ok_def regions_ok_def)
  show nb: "\<not> belongs t p r" for r using locate_root [OF assms(1), of p r] assms(2,3) by auto
  then have n: "\<not> covers s p" if "s \<in> set_tree t" for s using that by (auto simp: belongs_def)
  then have "rend k \<noteq> p" using assms(3) k by (auto simp: belongs_def)
  then show "\<not> p - rstart k \<le> rsize k" using n [OF k] valid_offsets(1) [OF v, of p] by (auto simp: covers_def)
qed

lemma belongs_offset:
  assumes "tree_ok t" "belongs t p r"
  shows "p - rstart r \<le> rsize r" "valid r"
proof -
  show v: "valid r" using assms by (auto simp: belongs_def tree_ok_def regions_ok_def)
  show "p - rstart r \<le> rsize r" using assms(2) v valid_offsets(1) [OF v, of p] by (auto simp: belongs_def covers_def valid_def)
qed

section \<open>What the checks report\<close>

text \<open>In a state whose tree is in order and whose checks are on.\<close>

definition checks_on :: "bcheck \<Rightarrow> bool" where
  "checks_on s \<longleftrightarrow> tree_ok (tree s) \<and> no_checking s = 0"

text \<open>The states of a call differ in the shape of the tree and the messages only.\<close>

definition same_regions :: "bcheck \<Rightarrow> bcheck \<Rightarrow> bool" where
  "same_regions s s' \<longleftrightarrow> tree_ok (tree s') \<and> set_tree (tree s') = set_tree (tree s) \<and>
     s' = s\<lparr>tree := tree s', warned := warned s'\<rparr>"

lemma same_regions_fields:
  assumes "same_regions s s'"
  shows "never_fatal s' = never_fatal s" "no_checking s' = no_checking s"
proof -
  have e: "s' = s\<lparr>tree := tree s', warned := warned s'\<rparr>" using assms by (simp add: same_regions_def)
  show "never_fatal s' = never_fatal s" "no_checking s' = no_checking s"
    using arg_cong [OF e, of never_fatal] arg_cong [OF e, of no_checking] by simp_all
qed

lemma same_regions_I:
  assumes "tree_ok (tree s)"
  shows "same_regions s (s\<lparr>tree := locate p (tree s)\<rparr>)" "same_regions s (bound_warning q (s\<lparr>tree := locate p (tree s)\<rparr>))"
  using assms locate_ok(1,2) [OF assms, of p]
  by (simp_all add: same_regions_def bound_warning_def)

text \<open>The regions a program may point into: not freed, and the pointer and the sum are in it or at its end.\<close>

definition add_ok :: "region \<Rightarrow> u64 \<Rightarrow> bool" where
  "add_ok r q \<longleftrightarrow> \<not> is_invalid r \<and> rstart r \<le> q \<and> q \<le> rend r"

lemma add_offset: "valid r \<Longrightarrow> \<not> (is_invalid r \<or> p - rstart r + offset > rsize r) \<longleftrightarrow> add_ok r (p + offset)"
  using valid_offsets(1) [of r "p + offset"] by (simp add: add_ok_def algebra_simps not_less)

lemma ptr_add_belongs:
  assumes "checks_on s" "belongs (tree s) p r"
  shows "same_regions s (snd (bound_ptr_add p offset s))"
    and "fst (bound_ptr_add p offset s) = (if add_ok r (p + offset) \<or> never_fatal s > 0 then p + offset else INVALID_POINTER)"
proof -
  have ok: "tree_ok (tree s)" and on: "no_checking s = 0" using assms(1) by (simp_all add: checks_on_def)
  obtain a b where l: "locate p (tree s) = Node a r b" using locate_root [OF ok assms(2)] by blast
  note r = belongs_offset [OF ok assms(2)]
  have e: "bound_ptr_add p offset s =
    (let s = s\<lparr>tree := locate p (tree s)\<rparr> in
      if add_ok r (p + offset) then (p + offset, s)
      else let s = (if print_warn_ptr_add s then bound_warning (p + offset) s else s) in
        if never_fatal s \<le> 0 then (INVALID_POINTER, s) else (p + offset, s))"
    unfolding bound_ptr_add_def Let_def add_offset [OF r(2), symmetric] using on l r(1) by auto
  show "same_regions s (snd (bound_ptr_add p offset s))"
    unfolding e Let_def using same_regions_I [OF ok] by auto
  show "fst (bound_ptr_add p offset s) = (if add_ok r (p + offset) \<or> never_fatal s > 0 then p + offset else INVALID_POINTER)"
    unfolding e Let_def by (auto simp: bound_warning_def)
qed

lemma ptr_add_unknown:
  assumes "checks_on s" "\<forall>r. \<not> belongs (tree s) p r"
  shows "same_regions s (snd (bound_ptr_add p offset s))" "fst (bound_ptr_add p offset s) = p + offset"
proof -
  have ok: "tree_ok (tree s)" and on: "no_checking s = 0" using assms(1) by (simp_all add: checks_on_def)
  have e: "bound_ptr_add p offset s = (p + offset, s\<lparr>tree := locate p (tree s)\<rparr>)"
  proof (cases "locate p (tree s)")
    case (Node a k b)
    then have "\<not> p - rstart k \<le> rsize k" using locate_none(1) [OF ok] assms(2) by blast
    then show ?thesis using Node on by (simp add: bound_ptr_add_def)
  qed (simp add: bound_ptr_add_def on)
  show "same_regions s (snd (bound_ptr_add p offset s))" "fst (bound_ptr_add p offset s) = p + offset"
    unfolding e using same_regions_I(1) [OF ok] by simp_all
qed

text \<open>An indirection is let through when the end of the access is in the region.\<close>

definition indir_ok :: "region \<Rightarrow> u64 \<Rightarrow> u64 \<Rightarrow> bool" where
  "indir_ok r q dsize \<longleftrightarrow> add_ok r (q + dsize)"

lemma ptr_indir_belongs:
  assumes "checks_on s" "belongs (tree s) p r"
  shows "if \<not> indir_ok r (p + offset) dsize \<and> never_fatal s = 0 then bound_ptr_indir dsize p offset s = Exit
    else \<exists>s'. bound_ptr_indir dsize p offset s = Ret (p + offset) s' \<and> same_regions s s'"
proof -
  have ok: "tree_ok (tree s)" and on: "no_checking s = 0" using assms(1) by (simp_all add: checks_on_def)
  obtain a b where l: "locate p (tree s) = Node a r b" using locate_root [OF ok assms(2)] by blast
  note r = belongs_offset [OF ok assms(2)]
  have "\<not> (is_invalid r \<or> p - rstart r + offset + dsize > rsize r) \<longleftrightarrow> indir_ok r (p + offset) dsize"
    using add_offset [OF r(2), of p "offset + dsize"] by (simp add: indir_ok_def add.assoc)
  then have e: "bound_ptr_indir dsize p offset s =
    (let s = s\<lparr>tree := locate p (tree s)\<rparr> in
      if indir_ok r (p + offset) dsize \<or> never_fatal s > 0 then Ret (p + offset) s
      else case bound_error (p + offset) s of Exit \<Rightarrow> Exit | Ret _ s \<Rightarrow> Ret (p + offset) s)"
    unfolding bound_ptr_indir_def Let_def using on l r(1) by (auto simp del: not_less)
  show ?thesis
    unfolding e Let_def using same_regions_I [OF ok] by (auto simp: bound_error_def)
qed

lemma check_belongs:
  assumes "checks_on s" "never_fatal s = 0" "belongs (tree s) p r" "sz \<noteq> 0" "bound_check p sz s = Ret u s'"
  shows "add_ok r (p + sz)" "checks_on s'" "never_fatal s' = 0" "set_tree (tree s') = set_tree (tree s)"
proof -
  note b = ptr_add_belongs [OF assms(1,3), of sz]
  obtain q s1 where q: "bound_ptr_add p sz s = (q, s1)" by (cases "bound_ptr_add p sz s")
  have s1: "same_regions s s1" using b(1) q by simp
  then have nf: "never_fatal s1 = 0" "no_checking s1 = 0"
    using assms(1,2) by (simp_all add: checks_on_def same_regions_fields)
  have "q \<noteq> INVALID_POINTER" "s' = s1" using assms(4,5) q nf(1) by (auto simp: bound_check_def bound_error_def split: if_splits)
  then show "add_ok r (p + sz)" using b(2) q assms(2) by (auto split: if_splits)
  show "checks_on s'" "never_fatal s' = 0" "set_tree (tree s') = set_tree (tree s)"
    using \<open>s' = s1\<close> nf s1 by (simp_all add: checks_on_def same_regions_def)
qed

lemma bound_check_zero: "bound_check p 0 s = Ret u s' \<longleftrightarrow> s' = s"
  by (auto simp: bound_check_def)

text \<open>A size that wraps around is let through when the sum is in the region again.\<close>

lemma check_wraps:
  "bound_check 24 (- 4) (s\<lparr>tree := Node Leaf (new_region 16 16) Leaf, no_checking := 0\<rparr>) =
    Ret () (s\<lparr>tree := Node Leaf (new_region 16 16) Leaf, no_checking := 0\<rparr>)"
  by (simp add: bound_check_def bound_ptr_add_def locate_def outside_root_def new_region_def INVALID_POINTER_def Let_def)

lemma one_region:
  "checks_on (state_with (Node Leaf (new_region 16 8) Leaf))" "never_fatal (state_with t) = 0"
  "covers (new_region 16 8) p \<Longrightarrow> belongs (tree (state_with (Node Leaf (new_region 16 8) Leaf))) p (new_region 16 8)"
  by (simp_all add: state_with_def checks_on_def tree_ok_def valid_def new_region_def rend_def belongs_def)

text \<open>C39: An indirection through a pointer that belongs to a region, in the default mode. An access inside the region is let
  through and gets its address; one that ends behind the region, or wholly in front of it, or in a freed
  region ends the program. The check misses one case: an access that begins in front of the region, at most its own size away.\<close>

theorem bound_ptr_indir_correct:
  assumes "checks_on s" "never_fatal s = 0" "belongs (tree s) p r" "unat (p + offset) + unat dsize < 2 ^ 64"
  shows "(\<not> is_invalid r \<and> rstart r \<le> p + offset \<and> p + offset + dsize \<le> rend r \<longrightarrow>
      (\<exists>s'. bound_ptr_indir dsize p offset s = Ret (p + offset) s' \<and> same_regions s s')) \<and>
    (is_invalid r \<or> rend r < p + offset + dsize \<or> p + offset + dsize < rstart r \<longrightarrow> bound_ptr_indir dsize p offset s = Exit) \<and>
    (\<not> is_invalid r \<and> p + offset < rstart r \<and> rstart r \<le> p + offset + dsize \<and> p + offset + dsize \<le> rend r \<longrightarrow>
      (\<exists>s'. bound_ptr_indir dsize p offset s = Ret (p + offset) s' \<and> same_regions s s'))"
proof -
  have "p + offset \<le> p + offset + dsize" using assms(4) no_wrap [of "p + offset" dsize] by simp
  then have "rstart r \<le> p + offset \<Longrightarrow> rstart r \<le> p + offset + dsize" by (rule order_trans [rotated])
  then show ?thesis using ptr_indir_belongs [OF assms(1,3), of offset dsize] assms(2)
    unfolding indir_ok_def add_ok_def by (auto simp: not_le [symmetric])
qed

theorem bound_ptr_indir_correct_witness:
  "bound_ptr_indir 4 20 4 (state_with (Node Leaf (new_region 16 8) Leaf)) = Exit"
proof -
  let ?s = "state_with (Node Leaf (new_region 16 8) Leaf)"
  note s = one_region
  show ?thesis using bound_ptr_indir_correct [OF s(1,2,3), of 20 4 4] by (simp add: new_region_def rend_def covers_def)
qed

text \<open>The access in front of the region that is missed.\<close>

lemma indir_below_passes:
  "bound_ptr_indir 1 16 (- 1) (s\<lparr>tree := Node Leaf (new_region 16 8) Leaf, no_checking := 0\<rparr>) =
    Ret 15 (s\<lparr>tree := Node Leaf (new_region 16 8) Leaf, no_checking := 0\<rparr>)"
  by (simp add: bound_ptr_indir_def locate_def outside_root_def new_region_def Let_def)

section \<open>The memory functions of the C library\<close>

type_synonym mem = "u64 \<Rightarrow> u8"

text \<open>\<open>n\<close> bytes at \<open>p\<close> are written.\<close>

definition mem_set :: "mem \<Rightarrow> u64 \<Rightarrow> u64 \<Rightarrow> (u64 \<Rightarrow> u8) \<Rightarrow> mem" where
  "mem_set m p n f = (\<lambda>a. if a - p < n then f (a - p) else m a)"

text \<open>\<open>while (*p++);\<close> and \<open>while (len-- && *p++);\<close>\<close>

partial_function (option) str_end :: "mem \<Rightarrow> u64 \<Rightarrow> u64 option" where
  "str_end m p = (if m p = 0 then Some (p + 1) else str_end m (p + 1))"

fun strn_end :: "mem \<Rightarrow> u64 \<Rightarrow> nat \<Rightarrow> u64" where
  "strn_end m p 0 = p"
| "strn_end m p (Suc n) = (if m p = 0 then p + 1 else strn_end m (p + 1) n)"

text \<open>What the C standard says of the functions that are called in the end. \<open>l\<close> is the length of the source with its NUL.\<close>

definition libc_memmove :: "mem \<Rightarrow> u64 \<Rightarrow> u64 \<Rightarrow> u64 \<Rightarrow> mem" where
  "libc_memmove m dest src n = mem_set m dest n (\<lambda>i. m (src + i))"

definition libc_memset :: "mem \<Rightarrow> u64 \<Rightarrow> u8 \<Rightarrow> u64 \<Rightarrow> mem" where
  "libc_memset m p c n = mem_set m p n (\<lambda>_. c)"

definition libc_strncpy :: "mem \<Rightarrow> u64 \<Rightarrow> u64 \<Rightarrow> u64 \<Rightarrow> mem" where
  "libc_strncpy m dest src n = mem_set m dest n (\<lambda>i. if i < strn_end m src (unat n) - src then m (src + i) else 0)"

definition libc_strncat :: "mem \<Rightarrow> u64 \<Rightarrow> u64 \<Rightarrow> u64 \<Rightarrow> mem" where
  "libc_strncat m end src n =
     (let k = (if m (strn_end m src (unat n) - 1) = 0 \<and> n \<noteq> 0 then strn_end m src (unat n) - src - 1 else n)
      in mem_set m end (k + 1) (\<lambda>i. if i < k then m (src + i) else 0))"

section \<open>The wrappers\<close>

definition andthen :: "'a outcome \<Rightarrow> ('a \<Rightarrow> bcheck \<Rightarrow> 'b outcome) \<Rightarrow> 'b outcome" where
  "andthen x f = (case x of Exit \<Rightarrow> Exit | Ret a s \<Rightarrow> f a s)"

text \<open>The checks of the functions that must not overlap, and the return.\<close>

definition check_copy :: "u64 \<Rightarrow> u64 \<Rightarrow> u64 \<Rightarrow> u64 \<Rightarrow> u64 \<Rightarrow> mem \<Rightarrow> mem \<Rightarrow> bcheck \<Rightarrow> (u64 \<times> mem) outcome" where
  "check_copy dest n1 src n2 early m m' s =
     andthen (bound_check dest n1 s) (\<lambda>_ s. andthen (bound_check src n2 s) (\<lambda>_ s.
       andthen (check_overlap dest n1 src n2 s) (\<lambda>stop s. if stop then Ret (early, m) s else Ret (dest, m') s)))"

definition bound_memcpy :: "u64 \<Rightarrow> u64 \<Rightarrow> u64 \<Rightarrow> mem \<Rightarrow> bcheck \<Rightarrow> (u64 \<times> mem) outcome" where
  "bound_memcpy dest src n m s = check_copy dest n src n dest m (libc_memmove m dest src n) s"

definition bound_memmove :: "u64 \<Rightarrow> u64 \<Rightarrow> u64 \<Rightarrow> mem \<Rightarrow> bcheck \<Rightarrow> (u64 \<times> mem) outcome" where
  "bound_memmove dest src n m s =
     andthen (bound_check dest n s) (\<lambda>_ s. andthen (bound_check src n s) (\<lambda>_ s. Ret (dest, libc_memmove m dest src n) s))"

definition bound_memset :: "u64 \<Rightarrow> u8 \<Rightarrow> u64 \<Rightarrow> mem \<Rightarrow> bcheck \<Rightarrow> (u64 \<times> mem) outcome" where
  "bound_memset p c n m s = andthen (bound_check p n s) (\<lambda>_ s. Ret (p, libc_memset m p c n) s)"

text \<open>\<open>None\<close>: the search for the NUL does not end.\<close>

definition bound_strlen :: "u64 \<Rightarrow> mem \<Rightarrow> bcheck \<Rightarrow> u64 outcome option" where
  "bound_strlen p m s = map_option (\<lambda>e. andthen (bound_check p (e - p) s) (\<lambda>_ s. Ret (e - p - 1) s)) (str_end m p)"

definition bound_strcpy :: "u64 \<Rightarrow> u64 \<Rightarrow> mem \<Rightarrow> bcheck \<Rightarrow> (u64 \<times> mem) outcome option" where
  "bound_strcpy dest src m s =
     map_option (\<lambda>e. check_copy dest (e - src) src (e - src) dest m (libc_memmove m dest src (e - src)) s) (str_end m src)"

definition bound_strncpy :: "u64 \<Rightarrow> u64 \<Rightarrow> u64 \<Rightarrow> mem \<Rightarrow> bcheck \<Rightarrow> (u64 \<times> mem) outcome" where
  "bound_strncpy dest src n m s =
     (let l = strn_end m src (unat n) - src in check_copy dest l src l dest m (libc_strncpy m dest src n) s)"

definition bound_strcat :: "u64 \<Rightarrow> u64 \<Rightarrow> mem \<Rightarrow> bcheck \<Rightarrow> (u64 \<times> mem) outcome option" where
  "bound_strcat r src m s =
     (case (str_end m r, str_end m src) of
        (Some d, Some e) \<Rightarrow> Some (check_copy r ((d - r) + (e - src) - 1) src (e - src) d m (libc_memmove m (d - 1) src (e - src)) s)
      | _ \<Rightarrow> None)"

definition bound_strncat :: "u64 \<Rightarrow> u64 \<Rightarrow> u64 \<Rightarrow> mem \<Rightarrow> bcheck \<Rightarrow> (u64 \<times> mem) outcome option" where
  "bound_strncat r src n m s =
     map_option (\<lambda>d. let e = strn_end m src (unat n) in
       check_copy r ((d - r) + (e - src) - 1) src (e - src) d m (libc_strncat m (d - 1) src n) s) (str_end m r)"

section \<open>Where the wrappers write\<close>

lemma write_inside:
  assumes "add_ok r (p + n)" "p \<le> p + n" "rstart r \<le> p" "mem_set m p n f a \<noteq> m a"
  shows "covers r a"
proof -
  have "a - p < n" using assms(4) by (auto simp: mem_set_def split: if_splits)
  then have "p \<le> a" "a < p + n" using sub_less_iff [OF assms(2)] by blast+
  then show ?thesis using assms(1,3) by (auto simp: covers_def add_ok_def)
qed

lemma write_nothing: "mem_set m p 0 f = m"
  by (simp add: mem_set_def)

lemma belongs_start: "tree_ok t \<Longrightarrow> belongs t p r \<Longrightarrow> rstart r \<le> p"
  by (auto simp: belongs_def covers_def tree_ok_def regions_ok_def valid_def)

lemma andthen_Ret: "andthen x f = Ret b s' \<longleftrightarrow> (\<exists>a s. x = Ret a s \<and> f a s = Ret b s')"
  by (cases x) (auto simp: andthen_def)

lemma check_copy_Ret:
  assumes "check_copy dest n1 src n2 early m0 m1 s = Ret (v, m') s'"
  shows "\<exists>u t. bound_check dest n1 s = Ret u t" "m' = m0 \<or> m' = m1"
  using assms by (auto simp: check_copy_def andthen_Ret split: if_splits)

lemma checked_write:
  assumes "checks_on s" "never_fatal s = 0" "belongs (tree s) dest r" "unat dest + unat n < 2 ^ 64"
    and "\<exists>u t. bound_check dest n s = Ret u t" "m' = m \<or> m' = mem_set m dest n f" "m' a \<noteq> m a"
  shows "covers r a"
proof (cases "n = 0")
  case True
  then show ?thesis using assms(6,7) by (simp add: write_nothing)
next
  case False
  obtain u t where "bound_check dest n s = Ret u t" using assms(5) by blast
  from check_belongs(1) [OF assms(1-3) False this] have "add_ok r (dest + n)" .
  moreover have "dest \<le> dest + n" using assms(4) no_wrap by blast
  moreover have "rstart r \<le> dest" using belongs_start assms(1,3) by (auto simp: checks_on_def)
  ultimately show ?thesis using assms(6,7) write_inside [of r dest n m f a] by auto
qed

text \<open>C40: A call of \<open>memcpy\<close>, \<open>memmove\<close>, \<open>memset\<close> or \<open>strcpy\<close> that returns in the default mode has written no byte
  outside the region of its destination, if the number of bytes does not wrap around.\<close>

theorem bound_writes_inside:
  assumes "checks_on s" "never_fatal s = 0" "belongs (tree s) dest r" "unat dest + unat n < 2 ^ 64"
    and "Ret (v, m') s' \<in> {bound_memcpy dest src n m s, bound_memmove dest src n m s, bound_memset dest c n m s} \<or>
      bound_strcpy dest src m s = Some (Ret (v, m') s') \<and> str_end m src = Some (src + n)"
    and "m' a \<noteq> m a"
  shows "covers r a"
proof -
  have w: "\<exists>u t. bound_check dest n s = Ret u t \<Longrightarrow> m' = m \<or> m' = mem_set m dest n f \<Longrightarrow> covers r a" for f
    by (rule checked_write [OF assms(1-4)]) (use assms(6) in auto)
  from assms(5) consider "bound_memcpy dest src n m s = Ret (v, m') s'" | "bound_memmove dest src n m s = Ret (v, m') s'"
    | "bound_memset dest c n m s = Ret (v, m') s'"
    | "bound_strcpy dest src m s = Some (Ret (v, m') s')" "str_end m src = Some (src + n)" by fastforce
  then show ?thesis
  proof cases
    case 1
    show ?thesis by (rule w [of "\<lambda>i. m (src + i)"])
      (use check_copy_Ret [OF 1 [unfolded bound_memcpy_def]] in \<open>auto simp: libc_memmove_def\<close>)
  next
    case 2
    show ?thesis by (rule w [of "\<lambda>i. m (src + i)"]) (use 2 in \<open>auto simp: bound_memmove_def andthen_Ret libc_memmove_def\<close>)
  next
    case 3
    show ?thesis by (rule w [of "\<lambda>i. c"]) (use 3 in \<open>auto simp: bound_memset_def andthen_Ret libc_memset_def\<close>)
  next
    case 4
    then have "check_copy dest n src n dest m (libc_memmove m dest src n) s = Ret (v, m') s'"
      by (simp add: bound_strcpy_def)
    then show ?thesis using check_copy_Ret by (intro w [of "\<lambda>i. m (src + i)"]) (auto simp: libc_memmove_def)
  qed
qed

theorem bound_writes_inside_witness:
  "covers (new_region 16 8) 18"
proof -
  let ?s = "state_with (Node Leaf (new_region 16 8) Leaf)"
  have b: "covers (new_region 16 8) 17" by (simp add: covers_def new_region_def rend_def)
  have "bound_check 17 3 ?s = Ret () ?s" by code_simp
  then have c: "bound_memset 17 9 3 (\<lambda>_. 0) ?s = Ret (17, libc_memset (\<lambda>_. 0) 17 9 3) ?s"
    by (simp add: bound_memset_def andthen_def)
  show ?thesis
    by (rule bound_writes_inside [OF one_region(1,2) one_region(3) [OF b], of 3 17 "libc_memset (\<lambda>_. 0) 17 9 3" ?s 0 "\<lambda>_. 0" 9 18])
      (simp_all add: c, simp add: libc_memset_def mem_set_def)
qed

text \<open>The checks of \<open>strncpy\<close> and \<open>strncat\<close> are too weak: the first writes \<open>n\<close> bytes, however short the source; the second
  writes a NUL after the \<open>n\<close> bytes of a longer source.\<close>

definition two_bytes :: bcheck where
  "two_bytes = state_with (Node Leaf (new_region 16 2) Leaf)"

lemma two_bytes_check: "bound_check 16 1 two_bytes = Ret () two_bytes" "bound_check 16 2 two_bytes = Ret () two_bytes"
  "bound_check 64 1 two_bytes = Ret () two_bytes" "bound_check 64 2 two_bytes = Ret () two_bytes"
  by code_simp+

lemma strncpy_overruns:
  fixes m :: mem
  assumes "m 64 = 0" "m 18 = 1"
  shows "\<exists>m'. bound_strncpy 16 64 4 m two_bytes = Ret (16, m') two_bytes \<and> m' 18 \<noteq> m 18"
proof -
  have "unat (4 :: u64) = Suc 3" by simp
  then have "strn_end m 64 (unat (4 :: u64)) = 65" using assms(1) by (simp only: strn_end.simps) simp
  moreover have "check_overlap 16 1 64 1 two_bytes = Ret False two_bytes" by code_simp
  ultimately show ?thesis using assms(2) two_bytes_check
    by (simp add: bound_strncpy_def check_copy_def andthen_def libc_strncpy_def mem_set_def Let_def)
qed

lemma strncat_overruns:
  fixes m :: mem
  assumes "m 16 = 0" "m 64 = 1" "m 65 = 1" "m 18 = 1"
  shows "\<exists>m'. bound_strncat 16 64 2 m two_bytes = Some (Ret (16, m') two_bytes) \<and> m' 18 \<noteq> m 18"
proof -
  have "str_end m 16 = Some 17" using assms(1) by (subst str_end.simps) simp
  moreover have "unat (2 :: u64) = Suc (Suc 0)" by simp
  then have "strn_end m 64 (unat (2 :: u64)) = 66" using assms(2) by (simp only: strn_end.simps) simp
  moreover have "check_overlap 16 2 64 2 two_bytes = Ret False two_bytes" by code_simp
  ultimately show ?thesis using assms two_bytes_check
    by (simp add: bound_strncat_def check_copy_def andthen_def libc_strncat_def mem_set_def Let_def)
qed

end
