(* ===== verification/Spec2Isabelle.thy ===== *)
theory Spec2Isabelle
  imports Const_Fold C_Layout Nt_Unicode X86_Link Pp_String Pp_Tokens Psx_Ipc_System Psx_Mq
    Rt_Arena Rt_Pool Rt_Own Rt_Bump Rt_Int64 Dalist Stl_Umap Stl_Ring Arm64_Mov
    Bc_Check
begin

text \<open>
  This library models parts of the repository: a C compiler (\<open>src/tcc*.c\<close>), its run-time library (\<open>lib\<close>), and a
  POSIX layer for Windows (\<open>src/posix/components\<close>: \<open>ntapi\<close>, \<open>psxscl-2015\<close>, \<open>dalist\<close>). The theories take the names of
  the functions and fields from the code; each opens with what it holds.

  \<open>Tcc_Prelude\<close> has what they share: machine words (\<open>u8\<close> to \<open>u64\<close>), buffers, the first index of a table that satisfies a
  condition, the contract of a table with keys (\<open>keyed_slots\<close>), and polling loops (\<open>poll_loop\<close>, \<open>poller\<close>).
  \<open>Le_Bytes\<close> has the reading and writing of integers as bytes.

  \<^bold>\<open>The compiler.\<close> The source text becomes tokens, expressions are folded and typed while they are parsed, and sections,
  symbols and relocations are what the code generator leaves to the linker.

  \<^item> \<open>Pp_Number\<close>, \<open>Pp_String\<close>, \<open>Pp_Tokens\<close> (\<open>tccpp.c\<close>): \<open>parse_number\<close>, \<open>parse_escape_string\<close>, \<open>parse_string\<close>,
    \<open>tok_str_add2\<close>, \<open>TOK_GET\<close>, \<open>tok_alloc\<close>. Numbers get the value and type of C11; texts and token strings
    come back as they were written; the hash table implements a list of different names.
  \<^item> \<open>C_Types\<close> (\<open>tccgen.c\<close>): types as the words and chains of symbols of \<open>CType\<close>; \<open>type_size\<close>, \<open>compare_types\<close>,
    \<open>combine_types\<close>. Compatible types have the same size.
  \<^item> \<open>Const_Fold\<close> (\<open>tccgen.c\<close>): \<open>gen_opic\<close>, \<open>gen_op\<close>, \<open>gen_cast\<close>: folding on 64-bit words agrees with the
    arithmetic of the type that the expression has.
  \<^item> \<open>C_Layout\<close> (\<open>tccgen.c\<close>, \<open>struct_layout\<close>): offsets, bit-fields and alignment of the members of a structure,
    in the wrapping \<open>int\<close> of the source, and the same layout in integers without a bound, which it agrees with below 2^27 bytes.
  \<^item> \<open>Elf_Section\<close>, \<open>Elf_Symtab\<close> (\<open>tccelf.c\<close>, \<open>elf.h\<close>): growing sections, string tables, the hash table of symbols,
    \<open>set_elf_sym\<close> and the order of local and global symbols. Sizes wrap at 2^64, and doubling a buffer may not end. The
    rules for two definitions of a name are stated apart from the code.
  \<^item> \<open>X86_Link\<close> (\<open>x86_64-link.c\<close>, \<open>relocate_section\<close>): the fields that relocations write, against the values of the
    ABI for the types of \<open>abi_types\<close>; the others rewrite instructions or differ from the ABI and have lemmas of their own.
  \<^item> \<open>Arm64_Imm\<close>, \<open>Arm64_Mov\<close> (\<open>arm64-gen.c\<close>): \<open>arm64_encode_bimm64\<close>, \<open>arm64_movi\<close>, \<open>arm64_movimm\<close>: the instructions
    that load a constant do so by what the architecture says of them.

  \<^bold>\<open>The run-time library.\<close> \<open>Rt_Alloc\<close> states the contract of an allocator (locale \<open>allocator\<close>: each new area is apart from
  the ones given out before); the arena, the pool, the context memory and the mapped file are instances of it.

  \<^item> \<open>Rt_Arena\<close> (\<open>tcc-arena.h\<close>), \<open>Rt_Pool\<close> (\<open>tcc-pool.h\<close>), \<open>Rt_Bump\<close> (\<open>tcc-ctmem.h\<close>, \<open>tcc-mmap.h\<close>, \<open>tcc-esc.h\<close>):
    \<open>malloc\<close> and \<open>mmap\<close> are given by the address that they return, which is apart from what is in use.
  \<^item> \<open>Rt_Own\<close> (\<open>tcc-own.h\<close>): the table of owners implements a map.
  \<^item> \<open>Rt_Int64\<close> (\<open>libtcc1.c\<close>): \<open>__udivmoddi4\<close> and the functions on it compute the quotient and remainder of C.

  \<^bold>\<open>The container library\<close> (\<open>lib/stl\<close>), generic headers of the compiler's own dialect. The arena of the containers is an
  argument that gives an array with any contents or nothing.

  \<^item> \<open>Stl_Sort\<close> (\<open>algorithm.h\<close>): sorting, searching and the other algorithms on a range of an array. Both sorting routines are
    instances of \<open>array_sort\<close>.
  \<^item> \<open>Stl_Map\<close> (\<open>map.h\<close>), \<open>Stl_Umap\<close> (\<open>unordered_map.h\<close>): a sorted array and a table with open addressing, both instances of
    the contract of a map (\<open>assoc\<close>), under which every program of calls sees the ideal map,
    and an insertion fails only for want of memory.
  \<^item> \<open>Stl_Ring\<close> (\<open>queue.h\<close>, \<open>deque.h\<close>): rings that grow, instances of \<open>fifo\<close> and of its extension \<open>double_ended\<close>.

  \<^bold>\<open>The bounds checker.\<close> \<open>Bc_Tree\<close> (\<open>lib/bcheck.c\<close>): the splay tree of regions, \<open>splay\<close>, \<open>splay_end\<close>,
  \<open>splay_insert\<close>, \<open>splay_delete\<close>. The loop over pointers becomes a loop over a tree and two lists of
  what is cut off; the tree implements a set of regions that do not overlap. \<open>Bc_Check\<close>: \<open>__bound_ptr_add\<close>,
  \<open>__bound_ptr_indir\<close>, \<open>__bound_check\<close> and wrappers of the memory and string functions: which accesses they let
  through, and that what the wrappers write stays in the region. A search for a NUL is a partial function.

  \<^bold>\<open>The POSIX layer.\<close>

  \<^item> \<open>Psx_Ipc\<close>, \<open>Psx_Msg\<close>, \<open>Psx_Sem\<close>, \<open>Psx_Shm\<close>: System V message queues, semaphores and shared
    memory (\<open>psxscl-2015/src/ipc/_ipc.c\<close>). The three static tables are functions from slots in
    one state record; each system call is one definition with the same early returns.
    \<open>Psx_Ipc_System\<close> runs calls that do not overlap, with rounds of waiting calls and deletions between them (step
    relation, reachable states, invariant), and shows when a waiting receiver is woken. The source takes no lock;
    \<open>msgget_race\<close> shows two overlapping calls that create two queues with one key.
  \<^item> \<open>Nt_Blitter\<close>: the bitmap allocator of descriptors (\<open>ntapi/src/blitter\<close>), with what other
    threads do between a read and the compare-and-swap as an argument.
  \<^item> \<open>Nt_Unicode\<close>: conversion between UTF-8 and UTF-16 (\<open>ntapi/src/unicode\<close>).
  \<^item> \<open>Psx_Fd\<close>: descriptors and open file descriptions (\<open>internal/psx_ofd.c\<close>, \<open>close\<close>, \<open>dup\<close>).
  \<^item> \<open>Psx_Mq\<close>: POSIX message queues (\<open>mq/_mq.c\<close>), which are reached through descriptors.
  \<^item> \<open>Dalist\<close>: doubly linked lists with keys (\<open>dalist.c\<close>, \<open>dalist_memfn.c\<close>) on a heap of nodes; they implement a map from
    keys to nodes.

  \<^bold>\<open>Bounds.\<close> Integers have the width of the source. A blocking call is a loop that polls; its model takes \<open>env\<close>, what the other
  threads do to the state during the delay after each round, and a number of rounds, where \<open>None\<close>
  means that the call has not returned in that many rounds. The theorems that a call with a
  timeout returns give the number of rounds from the clock. Loops that depend on links in memory are partial functions with
  \<open>None\<close> for a loop that does not end, and the theorems show that they end on well-formed memory.

  \<^bold>\<open>Not modelled.\<close> The parser and the rest of the code generators act on global state of the whole compiler (value stack, registers, current
  token) and their meaning is that of C and of the processors; directives and the substitution of macros; the dynamic
  linker, the other object formats, targets and debug information; system calls whose result is decided by objects of the NT kernel;
  of \<open>bcheck.c\<close> the registration of variables and heap blocks, \<open>setjmp\<close>, start and exit; of the container library the
  sets, vector, stack, list and string; the vendored C library.
\<close>

end
